(* ===== verification/Prelude.thy ===== *)
theory Prelude
  imports Main "HOL-Library.Sublist"
begin

text \<open>
  Shared ground of the development.

  \<^item> The few functions of Go's \<^verbatim>\<open>strings\<close> package that the modelled code calls, on HOL strings
    (lists of bytes), with the laws the components use: splitting and joining invert each other,
    a replacement distributes over concatenation.
  \<^item> Reachability for the step relations of the stateful components, and the contract
    \<open>invariant_system\<close> under which an invariant of a component holds in every reachable state. Each
    stateful component interprets it on its own steps.
  \<^item> The collections \<open>go_string\<close> (laws of the string functions) and \<open>step_inv\<close> (what each
    operation keeps of its component's invariant).
\<close>

named_theorems go_string \<open>laws of the modelled string functions\<close>
named_theorems step_inv \<open>operations that keep their component's invariant\<close>

section \<open>Results and errors\<close>

text \<open>A Go function that returns \<^verbatim>\<open>(T, error)\<close> is a sum: \<open>Inl\<close> is the error.\<close>

type_synonym err = string

fun bind_res :: "'e + 'a \<Rightarrow> ('a \<Rightarrow> 'e + 'b) \<Rightarrow> 'e + 'b" where
  "bind_res (Inl e) f = Inl e"
| "bind_res (Inr a) f = f a"

lemma bind_res_Inr [simp]: "bind_res r f = Inr b \<longleftrightarrow> (\<exists>a. r = Inr a \<and> f a = Inr b)"
  by (cases r) auto

lemma bind_res_assoc: "bind_res (bind_res r f) g = bind_res r (\<lambda>a. bind_res (f a) g)"
  by (cases r) auto

section \<open>Go strings\<close>

text \<open>\<^verbatim>\<open>strings.Split(s, sep)\<close> for a one-byte separator: never the empty list.\<close>

fun split_on :: "char \<Rightarrow> string \<Rightarrow> string list" where
  "split_on c [] = [[]]"
| "split_on c (x # xs) =
     (if x = c then [] # split_on c xs
      else (case split_on c xs of [] \<Rightarrow> [[x]] | w # ws \<Rightarrow> (x # w) # ws))"

text \<open>\<^verbatim>\<open>strings.SplitN(s, sep, n)\<close> for a one-byte separator and \<^verbatim>\<open>n > 0\<close>: at most \<open>n\<close> pieces, the
  last one unsplit.\<close>

fun split_n :: "nat \<Rightarrow> char \<Rightarrow> string \<Rightarrow> string list" where
  "split_n 0 c s = []"
| "split_n (Suc 0) c s = [s]"
| "split_n (Suc (Suc n)) c s =
     (let w = takeWhile (\<lambda>x. x \<noteq> c) s in
      if length w = length s then [s]
      else w # split_n (Suc n) c (drop (Suc (length w)) s))"

text \<open>\<^verbatim>\<open>strings.Join\<close>.\<close>

fun join :: "string \<Rightarrow> string list \<Rightarrow> string" where
  "join sep [] = []"
| "join sep [w] = w"
| "join sep (w # v # ws) = w @ sep @ join sep (v # ws)"

text \<open>\<^verbatim>\<open>strings.ReplaceAll(s, old, new)\<close> where \<open>old\<close> is one byte.\<close>

definition replace_char :: "char \<Rightarrow> string \<Rightarrow> string \<Rightarrow> string" where
  "replace_char c new s = concat (map (\<lambda>x. if x = c then new else [x]) s)"

text \<open>\<^verbatim>\<open>strings.ReplaceAll(s, old, new)\<close> where \<open>old\<close> is twice the same byte: the leftmost
  non-overlapping occurrences.\<close>

fun replace_pair :: "char \<Rightarrow> string \<Rightarrow> string \<Rightarrow> string" where
  "replace_pair c new [] = []"
| "replace_pair c new [x] = [x]"
| "replace_pair c new (x # y # s) =
     (if x = c \<and> y = c then new @ replace_pair c new s else x # replace_pair c new (y # s))"

text \<open>\<^verbatim>\<open>strings.Contains\<close>.\<close>

fun contains :: "string \<Rightarrow> string \<Rightarrow> bool" where
  "contains sub [] = (sub = [])"
| "contains sub (x # xs) = (prefix sub (x # xs) \<or> contains sub xs)"

text \<open>\<^verbatim>\<open>strings.TrimSuffix\<close>: drops one occurrence of the suffix when it is there.\<close>

definition trim_suffix :: "string \<Rightarrow> string \<Rightarrow> string" where
  "trim_suffix s suf = (if suffix suf s then take (length s - length suf) s else s)"

text \<open>\<^verbatim>\<open>strings.TrimLeft\<close>, \<^verbatim>\<open>strings.TrimRight\<close> for a cutset, and \<^verbatim>\<open>strings.TrimSpace\<close> on ASCII.\<close>

definition trim_left :: "char list \<Rightarrow> string \<Rightarrow> string" where
  "trim_left cs s = dropWhile (\<lambda>x. x \<in> set cs) s"

definition trim_right :: "char list \<Rightarrow> string \<Rightarrow> string" where
  "trim_right cs s = rev (dropWhile (\<lambda>x. x \<in> set cs) (rev s))"

definition space_chars :: "char list" where
  "space_chars = [CHR 0x09, CHR 0x0A, CHR 0x0B, CHR 0x0C, CHR 0x0D, CHR 0x20]"

definition trim_space :: "string \<Rightarrow> string" where
  "trim_space s = trim_right space_chars (trim_left space_chars s)"

text \<open>Letters are ASCII.\<close>

definition to_lower :: "char \<Rightarrow> char" where
  "to_lower c = (let n = of_char c :: nat in if 65 \<le> n \<and> n \<le> 90 then char_of (n + 32) else c)"

definition ToLower :: "string \<Rightarrow> string" where
  "ToLower s = map to_lower s"

subsection \<open>Splitting and joining\<close>

lemma split_on_not_Nil [simp]: "split_on c s \<noteq> []"
  by (cases s) (auto split: list.splits)

lemma join_Cons: "ws \<noteq> [] \<Longrightarrow> join sep (w # ws) = w @ sep @ join sep ws"
  by (cases ws) auto

lemma split_on_fresh [simp]: "c \<notin> set w \<Longrightarrow> split_on c w = [w]"
  by (induction w) auto

lemma split_on_append_sep:
  "c \<notin> set w \<Longrightarrow> split_on c (w @ c # s) = w # split_on c s"
  by (induction w) auto

lemma join_split_on [go_string]: "join [c] (split_on c s) = s"
proof (induction s)
  case (Cons x xs)
  obtain v vs where v: "split_on c xs = v # vs"
    by (meson neq_Nil_conv split_on_not_Nil)
  with Cons.IH show ?case
    by (cases vs) (auto simp: join_Cons)
qed simp

lemma split_on_join [go_string]:
  "ws \<noteq> [] \<Longrightarrow> (\<And>w. w \<in> set ws \<Longrightarrow> c \<notin> set w) \<Longrightarrow> split_on c (join [c] ws) = ws"
proof (induction ws)
  case (Cons w ws)
  show ?case
  proof (cases ws)
    case (Cons v vs)
    with Cons.IH Cons.prems show ?thesis
      by (simp add: split_on_append_sep)
  qed (use Cons.prems in simp)
qed simp

lemma split_on_append: "split_on c (s @ c # t) = split_on c s @ split_on c t"
proof (induction s)
  case (Cons x s)
  then show ?case by (cases "split_on c s") (auto split: list.splits)
qed simp

lemma join_append: "ws \<noteq> [] \<Longrightarrow> vs \<noteq> [] \<Longrightarrow> join sep (ws @ vs) = join sep ws @ sep @ join sep vs"
proof (induction ws)
  case (Cons w ws)
  then show ?case by (cases "ws = []") (auto simp: join_Cons)
qed simp

lemma split_on_pieces_fresh: "w \<in> set (split_on c s) \<Longrightarrow> c \<notin> set w"
proof (induction s arbitrary: w)
  case (Cons x xs)
  show ?case
  proof (cases "x = c")
    case False
    obtain v vs where "split_on c xs = v # vs"
      by (meson neq_Nil_conv split_on_not_Nil)
    with Cons False show ?thesis by auto
  qed (use Cons in auto)
qed simp

lemma split_n_not_Nil: "split_n (Suc n) c s \<noteq> []"
  by (cases n) (auto simp: Let_def)

lemma split_n_length: "length (split_n n c s) \<le> n"
  by (induction n c s rule: split_n.induct) (auto simp: Let_def)

lemma join_split_n [go_string]: "n \<noteq> 0 \<Longrightarrow> join [c] (split_n n c s) = s"
proof (induction n c s rule: split_n.induct)
  case (3 n c s)
  define w where "w = takeWhile (\<lambda>x. x \<noteq> c) s"
  show ?case
  proof (cases "length w = length s")
    case True
    then show ?thesis by (simp add: w_def Let_def)
  next
    case False
    then have ne: "dropWhile (\<lambda>x. x \<noteq> c) s \<noteq> []"
      by (metis append_Nil2 takeWhile_dropWhile_id w_def)
    then have hd: "hd (dropWhile (\<lambda>x. x \<noteq> c) s) = c"
      using hd_dropWhile by blast
    have "s = w @ dropWhile (\<lambda>x. x \<noteq> c) s" by (simp add: w_def)
    with ne hd have s: "s = w @ c # drop (Suc (length w)) s"
      by (metis append_eq_conv_conj drop_Suc list.collapse drop_drop tl_drop)
    have "join [c] (split_n (Suc n) c (drop (Suc (length w)) s)) = drop (Suc (length w)) s"
      using 3 False by (simp add: w_def Let_def)
    with s False show ?thesis
      by (simp add: w_def [symmetric] Let_def join_Cons split_n_not_Nil)
  qed
qed simp_all

subsection \<open>Replacement\<close>

lemma replace_char_Nil [simp]: "replace_char c new [] = []"
  by (simp add: replace_char_def)

lemma replace_char_Cons [simp]:
  "replace_char c new (x # s) = (if x = c then new else [x]) @ replace_char c new s"
  by (simp add: replace_char_def)

lemma replace_char_append [simp]:
  "replace_char c new (s @ t) = replace_char c new s @ replace_char c new t"
  by (simp add: replace_char_def)

lemma replace_char_fresh: "c \<notin> set s \<Longrightarrow> replace_char c new s = s"
  by (induction s) auto

lemma set_replace_char:
  "set (replace_char c new s) \<subseteq> (set s - {c}) \<union> set new"
  by (induction s) auto

lemma replace_pair_Cons_neq: "x \<noteq> c \<Longrightarrow> replace_pair c new (x # s) = x # replace_pair c new s"
  by (cases s) auto

lemma contains_append: "contains sub (s @ sub @ t)"
proof (induction s)
  case Nil
  have "prefix sub (sub @ t)" by simp
  then show ?case by (cases "sub @ t") (auto simp del: prefix_Cons)
qed auto

lemma contains_single: "contains [c] s \<longleftrightarrow> c \<in> set s"
  by (induction s) auto

lemma contains_Cons_iff: "contains sub (x # xs) \<longleftrightarrow> prefix sub (x # xs) \<or> contains sub xs"
  by simp

section \<open>Decimal numbers\<close>

text \<open>\<^verbatim>\<open>%d\<close> and \<^verbatim>\<open>strconv.Atoi\<close>, which fails outside the range of a 64-bit integer.\<close>

definition digit_char :: "nat \<Rightarrow> char" where
  "digit_char d = ''0123456789'' ! d"

fun digit_value :: "char \<Rightarrow> nat option" where
  "digit_value c = (let n = (of_char c :: nat) in if 48 \<le> n \<and> n \<le> 57 then Some (n - 48) else None)"

declare digit_value.simps [simp del]

fun show_nat :: "nat \<Rightarrow> string" where
  "show_nat n = (if n < 10 then [digit_char n] else show_nat (n div 10) @ [digit_char (n mod 10)])"

declare show_nat.simps [simp del]

definition show_int :: "int \<Rightarrow> string" where
  "show_int i = (if i < 0 then CHR ''-'' # show_nat (nat (- i)) else show_nat (nat i))"

fun read_digits :: "nat \<Rightarrow> string \<Rightarrow> nat option" where
  "read_digits acc [] = Some acc"
| "read_digits acc (c # cs) =
     (case digit_value c of Some d \<Rightarrow> read_digits (10 * acc + d) cs | None \<Rightarrow> None)"

definition Atoi :: "string \<Rightarrow> int option" where
  "Atoi s =
     (let (neg, ds) = (case s of c # cs \<Rightarrow> if c = CHR ''-'' then (True, cs) else if c = CHR ''+'' then (False, cs) else (False, s)
                       | [] \<Rightarrow> (False, []))
      in if ds = [] then None
         else case read_digits 0 ds of
           None \<Rightarrow> None
         | Some n \<Rightarrow>
             (let i = (if neg then - int n else int n) in
              if - (2 ^ 63) \<le> i \<and> i < 2 ^ 63 then Some i else None))"

lemma digit_value_char: "d < 10 \<Longrightarrow> digit_value (digit_char d) = Some d"
proof -
  assume "d < 10"
  then have "d \<in> {0, 1, 2, 3, 4, 5, 6, 7, 8, 9}" by auto
  then show ?thesis by (auto simp: digit_char_def digit_value.simps)
qed

lemma read_digits_append: "read_digits acc (s @ t) = (case read_digits acc s of Some n \<Rightarrow> read_digits n t | None \<Rightarrow> None)"
  by (induction s arbitrary: acc) (auto split: option.splits)

lemma read_show_nat: "read_digits 0 (show_nat n) = Some n"
proof (induction n rule: show_nat.induct)
  case (1 n)
  show ?case
    by (subst show_nat.simps) (use 1 in \<open>auto simp: digit_value_char read_digits_append\<close>)
qed

lemma show_nat_not_Nil [simp]: "show_nat n \<noteq> []"
  by (subst show_nat.simps) simp

lemma show_nat_digits: "c \<in> set (show_nat n) \<Longrightarrow> c \<in> set ''0123456789''"
proof (induction n rule: show_nat.induct)
  case (1 n)
  have d: "digit_char m \<in> set ''0123456789''" if "m < 10" for m
    using nth_mem [of m "''0123456789''"] that by (simp add: digit_char_def)
  show ?case
    using 1 d [of "n mod 10"] d [of n] by (subst (asm) (2) show_nat.simps) (auto split: if_splits)
qed

lemma Atoi_show_int [go_string]:
  assumes "- (2 ^ 63) \<le> i" "i < 2 ^ 63"
  shows "Atoi (show_int i) = Some i"
proof (cases "i < 0")
  case True
  then show ?thesis using assms by (simp add: Atoi_def show_int_def read_show_nat)
next
  case False
  obtain c cs where s: "show_nat (nat i) = c # cs" by (meson neq_Nil_conv show_nat_not_Nil)
  then have "c \<noteq> CHR ''-''" "c \<noteq> CHR ''+''" using show_nat_digits [of c "nat i"] by auto
  moreover have "read_digits 0 (c # cs) = Some (nat i)" using read_show_nat [of "nat i"] s by simp
  ultimately show ?thesis using False assms s by (simp add: Atoi_def show_int_def)
qed

section \<open>Paths\<close>

text \<open>\<^verbatim>\<open>path.Clean\<close> and \<^verbatim>\<open>path.Join\<close>, and \<^verbatim>\<open>path.Base\<close> of a clean path.\<close>

fun clean_parts :: "bool \<Rightarrow> string list \<Rightarrow> string list \<Rightarrow> string list" where
  "clean_parts rooted stack [] = rev stack"
| "clean_parts rooted stack (p # ps) =
     (if p = [] \<or> p = ''.'' then clean_parts rooted stack ps
      else if p = ''..'' then
        (case stack of
           q # stack' \<Rightarrow> if q \<noteq> ''..'' then clean_parts rooted stack' ps else clean_parts rooted (p # stack) ps
         | [] \<Rightarrow> if rooted then clean_parts rooted [] ps else clean_parts rooted [p] ps)
      else clean_parts rooted (p # stack) ps)"

definition path_Clean :: "string \<Rightarrow> string" where
  "path_Clean s =
     (let rooted = prefix ''/'' s; out = join ''/'' (clean_parts rooted [] (split_on (CHR ''/'') s)) in
      if rooted then ''/'' @ out else if out = [] then ''.'' else out)"

definition path_Join :: "string list \<Rightarrow> string" where
  "path_Join elems =
     (let es = filter (\<lambda>e. e \<noteq> []) elems in if es = [] then [] else path_Clean (join ''/'' es))"

definition path_Base :: "string \<Rightarrow> string" where
  "path_Base s =
     (if s = [] then ''.''
      else let t = trim_right ''/'' s in if t = [] then ''/'' else last (split_on (CHR ''/'') t))"

text \<open>The parts of a clean path: none is empty or a dot, and only leading parts of a relative path
  are double dots.\<close>

fun clean_ok :: "bool \<Rightarrow> string list \<Rightarrow> bool" where
  "clean_ok rooted [] = True"
| "clean_ok rooted (p # ps) =
     (p \<noteq> [] \<and> p \<noteq> ''.'' \<and> CHR ''/'' \<notin> set p
      \<and> (p = ''..'' \<longrightarrow> \<not> rooted \<and> list_all (\<lambda>q. q = ''..'') ps) \<and> clean_ok rooted ps)"

definition plain_name :: "string \<Rightarrow> bool" where
  "plain_name n = (n \<noteq> [] \<and> n \<noteq> ''.'' \<and> n \<noteq> ''..'' \<and> CHR ''/'' \<notin> set n)"

text \<open>Stacks are kept newest part first, so \<open>clean_ok\<close> is a condition on the reversed parts.\<close>

lemma clean_parts_ok:
  "clean_ok rooted stack \<Longrightarrow> (\<And>p. p \<in> set ps \<Longrightarrow> CHR ''/'' \<notin> set p) \<Longrightarrow>
     clean_ok rooted (rev (clean_parts rooted stack ps))"
proof (induction rooted stack ps rule: clean_parts.induct)
  case (2 rooted stack p ps)
  have dots: "list_all (\<lambda>q. q = ''..'') stack" if "stack = q # st" "q = ''..''" for q st
    using 2(7) that by simp
  show ?case
    using 2 dots by (cases stack) auto
qed simp

lemma clean_parts_id:
  "clean_ok rooted (rev ps @ stack) \<Longrightarrow> clean_parts rooted stack ps = rev stack @ ps"
proof (induction ps arbitrary: stack)
  case (Cons p ps)
  have ok: "clean_ok rooted (p # stack)"
  proof -
    have "clean_ok rooted (qs @ rs) \<Longrightarrow> clean_ok rooted rs" for qs rs
      by (induction qs) auto
    then show ?thesis using Cons.prems by (metis append.assoc append_Cons append_Nil rev.simps(2))
  qed
  have "clean_parts rooted (p # stack) ps = rev (p # stack) @ ps"
    using Cons.IH [of "p # stack"] Cons.prems by simp
  then show ?case using ok by (cases stack) auto
qed simp

lemma clean_parts_snoc:
  "plain_name n \<Longrightarrow> clean_parts rooted stack (ps @ [n]) = clean_parts rooted stack ps @ [n]"
  by (induction rooted stack ps rule: clean_parts.induct) (auto simp: plain_name_def split: list.splits)

definition parts_of :: "string \<Rightarrow> string list" where
  "parts_of s = clean_parts (prefix ''/'' s) [] (split_on (CHR ''/'') s)"

lemma clean_ok_join: "clean_ok r (rev ps) \<Longrightarrow> ps \<noteq> [] \<Longrightarrow> join ''/'' ps \<noteq> []"
proof (induction ps)
  case (Cons p ps)
  have "clean_ok r (qs @ [p]) \<Longrightarrow> p \<noteq> []" for qs
    by (induction qs) auto
  then show ?case using Cons by (cases ps) auto
qed simp

lemma parts_of_ok: "clean_ok (prefix ''/'' s) (rev (parts_of s))"
  unfolding parts_of_def by (rule clean_parts_ok) (auto dest: split_on_pieces_fresh)

lemma path_Clean_parts:
  "path_Clean s = (if prefix ''/'' s then ''/'' @ join ''/'' (parts_of s)
     else if parts_of s = [] then ''.'' else join ''/'' (parts_of s))"
proof -
  have "join ''/'' (parts_of s) = [] \<longleftrightarrow> parts_of s = []"
    using clean_ok_join [OF parts_of_ok] by (metis join.simps(1))
  then show ?thesis by (cases "prefix ''/'' s") (auto simp: path_Clean_def parts_of_def Let_def)
qed

lemma clean_ok_split:
  assumes "clean_ok r (rev ps)" "ps \<noteq> []"
  shows "split_on (CHR ''/'') (join ''/'' ps) = ps" "\<not> prefix ''/'' (join ''/'' ps)"
proof -
  have fresh: "CHR ''/'' \<notin> set p" "p \<noteq> []" if "p \<in> set ps" for p
  proof -
    have "clean_ok r qs \<Longrightarrow> p \<in> set qs \<Longrightarrow> CHR ''/'' \<notin> set p \<and> p \<noteq> []" for qs
      by (induction qs) auto
    then show "CHR ''/'' \<notin> set p" "p \<noteq> []" using assms(1) that by auto
  qed
  then show "split_on (CHR ''/'') (join ''/'' ps) = ps" using assms(2) by (intro split_on_join) auto
  obtain p qs where ps: "ps = p # qs" using assms(2) by (cases ps) auto
  moreover obtain c cs where p: "p = c # cs" using fresh(2) ps by (cases p) auto
  moreover have "c \<noteq> CHR ''/''" using fresh(1) [of p] ps p by auto
  ultimately show "\<not> prefix ''/'' (join ''/'' ps)"
    by (cases qs) (auto simp: join_Cons)
qed

lemma parts_of_Clean: "parts_of (path_Clean s) = parts_of s" "prefix ''/'' (path_Clean s) = prefix ''/'' s"
proof -
  define ps where "ps = parts_of s"
  have ok: "clean_ok (prefix ''/'' s) (rev ps)" unfolding ps_def by (rule parts_of_ok)
  have nil: "parts_of ''/'' = []" "parts_of ''.'' = []" by (simp_all add: parts_of_def)
  have "parts_of (path_Clean s) = ps \<and> prefix ''/'' (path_Clean s) = prefix ''/'' s"
  proof (cases "ps = []")
    case True
    then show ?thesis using nil by (auto simp: path_Clean_parts ps_def)
  next
    case False
    then show ?thesis
      using clean_ok_split [OF ok False] clean_parts_id [of "prefix ''/'' s" ps "[]"] ok
      by (cases "prefix ''/'' s") (auto simp: path_Clean_parts ps_def [symmetric], auto simp: parts_of_def)
  qed
  then show "parts_of (path_Clean s) = parts_of s" "prefix ''/'' (path_Clean s) = prefix ''/'' s"
    by (auto simp: ps_def)
qed

lemma path_Clean_idem [simp]: "path_Clean (path_Clean s) = path_Clean s"
  unfolding path_Clean_parts [of "path_Clean s"] parts_of_Clean by (rule path_Clean_parts [symmetric])

text \<open>Joining a plain name to a directory: the name is the last element of the path.\<close>

definition dir_parts :: "string \<Rightarrow> string list" where
  "dir_parts d = (if d = [] then [] else parts_of d)"

lemma path_Join_name:
  assumes "plain_name n"
  shows "path_Join [d, n] =
    (if prefix ''/'' d then ''/'' else []) @ join ''/'' (dir_parts d @ [n])"
proof (cases "d = []")
  case True
  have "parts_of n = [n]" "\<not> prefix ''/'' n"
    using assms by (auto simp: parts_of_def plain_name_def prefix_def)
  then show ?thesis using True assms
    by (simp add: path_Join_def dir_parts_def path_Clean_parts plain_name_def)
next
  case False
  have pre: "prefix ''/'' (d @ ''/'' @ n) = prefix ''/'' d" using False by (cases d) auto
  have "split_on (CHR ''/'') (d @ ''/'' @ n) = split_on (CHR ''/'') d @ [n]"
    using assms by (simp add: split_on_append plain_name_def)
  then have "parts_of (d @ ''/'' @ n) = parts_of d @ [n]"
    using clean_parts_snoc [OF assms] pre by (simp add: parts_of_def)
  then have "path_Clean (d @ ''/'' @ n) = (if prefix ''/'' d then ''/'' else []) @ join ''/'' (parts_of d @ [n])"
    unfolding path_Clean_parts pre by simp
  then show ?thesis using False assms by (simp add: path_Join_def plain_name_def dir_parts_def)
qed

lemma path_Base_Join [go_string]: 
  assumes "plain_name n"
  shows "path_Base (path_Join [d, n]) = n"
proof -
  define p where "p = path_Join [d, n]"
  have n: "CHR ''/'' \<notin> set n" "n \<noteq> []" using assms by (auto simp: plain_name_def)
  then have "last n \<noteq> CHR ''/''" using last_in_set by metis
  obtain q where q: "p = q @ n" "q = [] \<or> (\<exists>r. q = r @ ''/'')"
  proof (cases "dir_parts d = []")
    case True
    then show ?thesis using that [of "if prefix ''/'' d then ''/'' else []"] path_Join_name [OF assms]
      by (auto simp: p_def)
  next
    case False
    then show ?thesis using that [of "(if prefix ''/'' d then ''/'' else []) @ join ''/'' (dir_parts d) @ ''/''"]
      path_Join_name [OF assms] by (auto simp: p_def join_append)
  qed
  have "trim_right ''/'' p = p"
    using q(1) n \<open>last n \<noteq> CHR ''/''\<close> by (cases n rule: rev_cases) (auto simp: trim_right_def)
  moreover have "last (split_on (CHR ''/'') p) = n"
    using q n by (auto simp: split_on_append)
  ultimately show ?thesis using q n by (auto simp: path_Base_def p_def Let_def)
qed

lemma path_Join_Join:
  assumes n: "plain_name n" and m: "plain_name m"
  shows "path_Join [path_Join [d, n], m] = path_Join [d, n] @ ''/'' @ m"
proof -
  define t where "t = path_Join [d, n]"
  have ne: "dir_parts d @ [n] \<noteq> []" "n \<noteq> []" "t \<noteq> []"
    using n path_Join_name [OF n, of d] by (auto simp: plain_name_def t_def join_append split: if_splits)
      (metis append_is_Nil_conv join.simps(2) join_append not_Cons_self2 self_append_conv2)
  have "dir_parts t = dir_parts d @ [n] \<and> prefix ''/'' t = prefix ''/'' d"
  proof (cases "d = []")
    case True
    then have "t = path_Clean n" using ne by (simp add: t_def path_Join_def)
    moreover have "parts_of n = [n]" "\<not> prefix ''/'' n"
      using n by (auto simp: parts_of_def plain_name_def prefix_def)
    ultimately show ?thesis using True ne parts_of_Clean [of n] by (simp add: dir_parts_def)
  next
    case False
    then have "t = path_Clean (d @ ''/'' @ n)" using ne by (simp add: t_def path_Join_def)
    moreover have "prefix ''/'' (d @ ''/'' @ n) = prefix ''/'' d" using False by (cases d) auto
    moreover have "parts_of (d @ ''/'' @ n) = parts_of d @ [n]"
      using n clean_parts_snoc [OF n] calculation(2)
      by (simp add: parts_of_def split_on_append plain_name_def)
    ultimately show ?thesis using False ne parts_of_Clean [of "d @ ''/'' @ n"] by (simp add: dir_parts_def)
  qed
  then have "path_Join [t, m] = (if prefix ''/'' d then ''/'' else []) @ join ''/'' ((dir_parts d @ [n]) @ [m])"
    using path_Join_name [OF m, of t] by simp
  also have "\<dots> = t @ ''/'' @ m"
    using join_append [OF ne(1), of "[m]"] path_Join_name [OF n, of d] by (simp add: t_def)
  finally show ?thesis unfolding t_def .
qed

lemma path_Join_clean [simp]: "n \<noteq> [] \<Longrightarrow> path_Clean (path_Join [d, n]) = path_Join [d, n]"
  by (auto simp: path_Join_def)

section \<open>Reachable states and invariants\<close>

text \<open>
  The states a component can be in: those its initial condition admits, closed under its steps.
\<close>

inductive reach :: "('s \<Rightarrow> bool) \<Rightarrow> ('s \<Rightarrow> 's \<Rightarrow> bool) \<Rightarrow> 's \<Rightarrow> bool" for I R where
  reach_init: "I s \<Longrightarrow> reach I R s"
| reach_step: "reach I R s \<Longrightarrow> R s t \<Longrightarrow> reach I R t"

lemma reach_mono: "reach I R s \<Longrightarrow> (\<And>t. I t \<Longrightarrow> J t) \<Longrightarrow> reach J R s"
  by (induction rule: reach.induct) (auto intro: reach.intros)

lemma reach_steps: "R\<^sup>*\<^sup>* s t \<Longrightarrow> reach I R s \<Longrightarrow> reach I R t"
  by (induction rule: rtranclp_induct) (auto intro: reach_step)

text \<open>
  The contract between a component and its users: its initial states satisfy the invariant and
  each of its steps keeps it. What a user gets is the invariant in every reachable state and along
  every run.
\<close>

locale invariant_system =
  fixes init :: "'s \<Rightarrow> bool"
    and step :: "'s \<Rightarrow> 's \<Rightarrow> bool"
    and inv :: "'s \<Rightarrow> bool"
  assumes init_inv: "init s \<Longrightarrow> inv s"
    and step_inv: "step s t \<Longrightarrow> inv s \<Longrightarrow> inv t"
begin

lemma reach_inv: "reach init step s \<Longrightarrow> inv s"
  by (induction rule: reach.induct) (auto intro: init_inv step_inv)

lemma steps_inv: "step\<^sup>*\<^sup>* s t \<Longrightarrow> inv s \<Longrightarrow> inv t"
  by (induction rule: rtranclp_induct) (auto intro: step_inv)

end

end
