(* ===== verification/Cid.thy ===== *)
theory Cid
  imports Prelude
begin

text \<open>
  Content identifiers. A \<^verbatim>\<open>cid.Cid\<close> of \<^verbatim>\<open>go-cid\<close> is a byte string in one of two formats; here it is
  the value those bytes decode to: the undefined CID (the empty string), a version 0 CID (a bare
  sha2-256 multihash of 32 bytes) or a version 1 CID (a codec and a multihash). The second part is
  \<^verbatim>\<open>go-verifcid\<close>, which says which hash functions the node accepts.
\<close>

section \<open>Multihashes and CIDs\<close>

record multihash =
  mh_code :: nat
  mh_digest :: string

datatype cid = CidUndef | CidV0 string | CidV1 nat multihash

definition SHA2_256 :: nat where "SHA2_256 = 0x12"
definition IDENTITY :: nat where "IDENTITY = 0x00"
definition DagProtobuf :: nat where "DagProtobuf = 0x70"
definition Raw :: nat where "Raw = 0x55"
definition Libp2pKey :: nat where "Libp2pKey = 0x72"

definition mk_mh :: "nat \<Rightarrow> string \<Rightarrow> multihash" where
  "mk_mh code d = \<lparr>mh_code = code, mh_digest = d\<rparr>"

fun Defined :: "cid \<Rightarrow> bool" where
  "Defined CidUndef = False"
| "Defined (CidV0 d) = True"
| "Defined (CidV1 c h) = True"

record cid_prefix =
  Version :: nat
  Codec :: nat
  MhType :: nat
  MhLength :: nat

text \<open>\<^verbatim>\<open>Cid.Prefix\<close>. On the undefined CID every varint read fails and gives 0.\<close>

fun cid_Prefix :: "cid \<Rightarrow> cid_prefix" where
  "cid_Prefix (CidV0 d) = \<lparr>Version = 0, Codec = DagProtobuf, MhType = SHA2_256, MhLength = 32\<rparr>"
| "cid_Prefix (CidV1 c h) =
     \<lparr>Version = 1, Codec = c, MhType = mh_code h, MhLength = length (mh_digest h)\<rparr>"
| "cid_Prefix CidUndef = \<lparr>Version = 0, Codec = 0, MhType = 0, MhLength = 0\<rparr>"

fun cid_Hash :: "cid \<Rightarrow> multihash" where
  "cid_Hash (CidV0 d) = mk_mh SHA2_256 d"
| "cid_Hash (CidV1 c h) = h"
| "cid_Hash CidUndef = mk_mh 0 []"

fun cid_Type :: "cid \<Rightarrow> nat" where
  "cid_Type (CidV0 d) = DagProtobuf"
| "cid_Type (CidV1 c h) = c"
| "cid_Type CidUndef = 0"

text \<open>\<^verbatim>\<open>NewCidV0\<close> panics on any other multihash than sha2-256 of 32 bytes: \<open>None\<close>.\<close>

definition NewCidV0 :: "multihash \<Rightarrow> cid option" where
  "NewCidV0 h =
     (if mh_code h = SHA2_256 \<and> length (mh_digest h) = 32 then Some (CidV0 (mh_digest h)) else None)"

definition NewCidV1 :: "nat \<Rightarrow> multihash \<Rightarrow> cid" where
  "NewCidV1 codec h = CidV1 codec h"

text \<open>What decoding guarantees of a CID value.\<close>

fun cid_wf :: "cid \<Rightarrow> bool" where
  "cid_wf (CidV0 d) = (length d = 32)"
| "cid_wf _ = True"

lemma cid_Prefix_MhLength: "cid_wf c \<Longrightarrow> MhLength (cid_Prefix c) = length (mh_digest (cid_Hash c))"
  by (cases c) (auto simp: mk_mh_def)

lemma cid_Prefix_MhType: "MhType (cid_Prefix c) = mh_code (cid_Hash c)"
  by (cases c) (auto simp: mk_mh_def)

section \<open>Accepted hash functions\<close>

datatype verif_err = ErrPossiblyInsecureHashFunction | ErrBelowMinimumHashLength

definition minimumHashLength :: nat where "minimumHashLength = 20"

definition goodset :: "nat list" where
  "goodset = [0x12, 0x13, 0x17, 0x16, 0x15, 0x14, 0x19, 0x56, 0x1A, 0x1B, 0x1C, 0x1D, 0x00, 0x11]"

definition IsGoodHash :: "nat \<Rightarrow> bool" where
  "IsGoodHash code \<longleftrightarrow>
     code \<in> set goodset \<or> (0xb201 + 19 \<le> code \<and> code \<le> 0xb240) \<or> (0xb241 + 19 \<le> code \<and> code \<le> 0xb260)"

definition ValidateCid :: "cid \<Rightarrow> verif_err option" where
  "ValidateCid c =
     (let pref = cid_Prefix c in
      if \<not> IsGoodHash (MhType pref) then Some ErrPossiblyInsecureHashFunction
      else if MhType pref \<noteq> IDENTITY \<and> MhLength pref < minimumHashLength
           then Some ErrBelowMinimumHashLength
      else None)"

lemma ValidateCid_V0 [simp]: "ValidateCid (CidV0 d) = None"
  by (simp add: ValidateCid_def Let_def IsGoodHash_def goodset_def SHA2_256_def minimumHashLength_def)

text \<open>Validity looks at the multihash only, so the two versions of a CID are accepted together.\<close>

lemma ValidateCid_V1_sha256:
  "mh_code h = SHA2_256 \<Longrightarrow> length (mh_digest h) = 32 \<Longrightarrow> ValidateCid (CidV1 c h) = None"
  by (simp add: ValidateCid_def Let_def IsGoodHash_def goodset_def SHA2_256_def minimumHashLength_def)

end
