(* ===== verification/Dag_Walk.thy ===== *)
theory Dag_Walk
  imports Cid
begin

text \<open>
  The DAG walk of \<^verbatim>\<open>go-merkledag\<close> that garbage collection relies on. The first part is what a walk
  promises (\<open>dag_walk\<close>): on success the root is visited and whatever it newly visited has all its links
  visited; it visits only what the root reaches; it always returns when enough fuel is given. The
  second part is the concurrent walk itself: the coordinating loop of \<^verbatim>\<open>parallelWalkDepth\<close> with its
  \<open>next\<close> element, queue and in-progress count, and the busy workers, each at one point of its body.
  Which goroutine moves next is chosen by a schedule, so every interleaving is a schedule. The walk is
  shown to keep the promise for every schedule.
\<close>

section \<open>Link functions\<close>

text \<open>
  A \<^verbatim>\<open>GetLinks\<close> closure may have effects (the garbage collector's closures set a flag and emit
  results), so it takes and returns a state.
\<close>

type_synonym 's get_links = "cid \<Rightarrow> 's \<Rightarrow> (err + cid list) \<times> 's"

inductive reaches :: "(cid \<Rightarrow> cid list) \<Rightarrow> cid \<Rightarrow> cid \<Rightarrow> bool" for links r where
  reaches_refl: "reaches links r r"
| reaches_step: "reaches links r c \<Longrightarrow> d \<in> set (links c) \<Longrightarrow> reaches links r d"

lemma reaches_closed:
  assumes "reaches links r c" and "r \<in> V" and "\<And>x y. x \<in> V \<Longrightarrow> y \<in> set (links x) \<Longrightarrow> y \<in> V"
  shows "c \<in> V"
  using assms by (induction rule: reaches.induct) auto

lemma reaches_trans: "reaches links b c \<Longrightarrow> reaches links a b \<Longrightarrow> reaches links a c"
  by (induction rule: reaches.induct) (auto intro: reaches.intros)

lemma reaches_link: "d \<in> set (links c) \<Longrightarrow> reaches links c d"
  by (rule reaches_step [OF reaches_refl])

section \<open>The parallel walk\<close>

text \<open>
  A busy worker: it has received a CID (\<open>Fed\<close>), has decided to visit it and must fetch its links
  (\<open>Fetching\<close>), is handing links to the loop (\<open>Linked\<close>), is handing over its completion (\<open>Finished\<close>)
  or an error (\<open>Failed\<close>).
\<close>

datatype worker = Fed cid | Fetching cid | Linked "cid list" | Finished | Failed err

text \<open>The locals of the loop and the shared visited set.\<close>

record walk_state =
  send :: bool
  w_next :: cid
  todoQueue :: "cid list"
  inProgress :: nat
  workers :: "worker list"
  visited :: "cid set"

text \<open>What the schedule lets happen: the loop feeds a worker, a busy worker moves (the hand-overs
  \<^verbatim>\<open>out\<close>, \<^verbatim>\<open>done\<close> and \<^verbatim>\<open>errChan\<close> are its moves together with the loop's), or the loop sees the context
  done.\<close>

datatype choice = ChSend | ChWorker nat | ChCtx

text \<open>\<^verbatim>\<open>case linksDepth := <-out\<close>: the first CID fills an empty \<open>next\<close>, the others are queued.\<close>

fun enqueue :: "cid list \<Rightarrow> walk_state \<Rightarrow> walk_state" where
  "enqueue [] w = w"
| "enqueue (c # cs) w =
     (if \<not> Defined (w_next w) then enqueue cs (w\<lparr>w_next := c, send := True\<rparr>)
      else enqueue cs (w\<lparr>todoQueue := todoQueue w @ [c]\<rparr>))"

text \<open>\<^verbatim>\<open>case send <- next\<close>: a free worker takes \<open>next\<close>.\<close>

definition feed_step :: "walk_state \<Rightarrow> walk_state" where
  "feed_step w =
     (let w' = w\<lparr>workers := workers w @ [Fed (w_next w)], inProgress := Suc (inProgress w)\<rparr> in
      case todoQueue w of
        c # cs \<Rightarrow> w'\<lparr>w_next := c, todoQueue := cs\<rparr>
      | [] \<Rightarrow> w'\<lparr>w_next := CidUndef, send := False\<rparr>)"

definition drop_at :: "nat \<Rightarrow> 'a list \<Rightarrow> 'a list" where
  "drop_at i xs = take i xs @ drop (Suc i) xs"

text \<open>One move of busy worker \<open>i\<close>. \<open>Inl\<close> is the loop returning, with the error or nil.\<close>

definition worker_step ::
  "'s get_links \<Rightarrow> nat \<Rightarrow> walk_state \<Rightarrow> 's \<Rightarrow> (err option \<times> walk_state + walk_state) \<times> 's" where
  "worker_step gl i w s =
     (case workers w ! i of
        Fed c \<Rightarrow>
          (if c \<in> visited w then (Inr (w\<lparr>workers := (workers w)[i := Finished]\<rparr>), s)
           else (Inr (w\<lparr>workers := (workers w)[i := Fetching c], visited := insert c (visited w)\<rparr>), s))
      | Fetching c \<Rightarrow>
          (case gl c s of
             (Inl e, s') \<Rightarrow> (Inr (w\<lparr>workers := (workers w)[i := Failed e]\<rparr>), s')
           | (Inr ls, s') \<Rightarrow> (Inr (w\<lparr>workers := (workers w)[i := Linked ls]\<rparr>), s'))
      | Linked ls \<Rightarrow> (Inr (enqueue ls (w\<lparr>workers := (workers w)[i := Finished]\<rparr>)), s)
      | Finished \<Rightarrow>
          (let w' = w\<lparr>workers := drop_at i (workers w), inProgress := inProgress w - 1\<rparr> in
           if inProgress w' = 0 \<and> \<not> Defined (w_next w') then (Inl (None, w'), s) else (Inr w', s))
      | Failed e \<Rightarrow> (Inl (Some e, w), s))"

text \<open>
  One iteration of the loop under a choice. A choice that is not enabled (no worker is free, nothing
  to send, no worker is busy) stands for the other one.
\<close>

definition walk_step ::
  "nat \<Rightarrow> 's get_links \<Rightarrow> choice \<Rightarrow> walk_state \<Rightarrow> 's \<Rightarrow> (err option \<times> walk_state + walk_state) \<times> 's" where
  "walk_step conc gl ch w s =
     (let can_send = (send w \<and> length (workers w) < conc) in
      case ch of
        ChCtx \<Rightarrow> (Inl (Some ''context canceled'', w), s)
      | ChSend \<Rightarrow>
          if can_send then (Inr (feed_step w), s)
          else if workers w = [] then (Inr w, s)
          else worker_step gl 0 w s
      | ChWorker i \<Rightarrow>
          if workers w \<noteq> [] then worker_step gl (i mod length (workers w)) w s
          else if can_send then (Inr (feed_step w), s)
          else (Inr w, s))"

fun walk_loop ::
  "nat \<Rightarrow> 's get_links \<Rightarrow> (nat \<Rightarrow> choice) \<Rightarrow> nat \<Rightarrow> walk_state \<Rightarrow> 's
    \<Rightarrow> ((err option \<times> cid set) \<times> 's) option" where
  "walk_loop conc gl sched 0 w s = None"
| "walk_loop conc gl sched (Suc fuel) w s =
     (case walk_step conc gl (sched fuel) w s of
        (Inl (e, w'), s') \<Rightarrow> Some ((e, visited w'), s')
      | (Inr w', s') \<Rightarrow> walk_loop conc gl sched fuel w' s')"

definition walk_start :: "cid \<Rightarrow> cid set \<Rightarrow> walk_state" where
  "walk_start root V =
     \<lparr>send = True, w_next = root, todoQueue = [], inProgress = 0, workers = [], visited = V\<rparr>"

definition defaultConcurrentFetch :: nat where "defaultConcurrentFetch = 32"

text \<open>\<^verbatim>\<open>dag.Walk(ctx, getLinks, root, set.Visit, dag.Concurrent())\<close>; \<open>None\<close> is running out of fuel.\<close>

definition parallelWalk ::
  "(nat \<Rightarrow> choice) \<Rightarrow> nat \<Rightarrow> 's get_links \<Rightarrow> cid \<Rightarrow> cid set \<Rightarrow> 's \<Rightarrow> ((err option \<times> cid set) \<times> 's) option"
where
  "parallelWalk sched fuel gl root V s =
     walk_loop defaultConcurrentFetch gl sched fuel (walk_start root V) s"

section \<open>What a walk promises\<close>

text \<open>
  A link function is faithful to a graph \<open>links\<close> as long as its state stays \<open>good\<close>: a state that is
  good after a call was good before it, and the call was on an acceptable CID (\<open>ok\<close>) and returned the
  graph's links.
\<close>

definition faithful ::
  "(cid \<Rightarrow> cid list) \<Rightarrow> (cid \<Rightarrow> bool) \<Rightarrow> ('s \<Rightarrow> bool) \<Rightarrow> 's get_links \<Rightarrow> bool" where
  "faithful links ok good gl \<longleftrightarrow>
     (\<forall>c s. good (snd (gl c s)) \<longrightarrow> good s) \<and>
     (\<forall>c s ls. fst (gl c s) = Inr ls \<longrightarrow> good (snd (gl c s)) \<longrightarrow> ok c \<and> set ls = set (links c))"

definition within :: "(cid \<Rightarrow> cid list) \<Rightarrow> 's get_links \<Rightarrow> bool" where
  "within links gl \<longleftrightarrow>
     (\<forall>c s ls. fst (gl c s) = Inr ls \<longrightarrow> set ls \<subseteq> set (links c) \<and> length ls \<le> length (links c))"

lemma withinD: "within links gl \<Longrightarrow> fst (gl c s) = Inr ls \<Longrightarrow> set ls \<subseteq> set (links c)"
  and withinD_length: "within links gl \<Longrightarrow> fst (gl c s) = Inr ls \<Longrightarrow> length ls \<le> length (links c)"
  by (auto simp: within_def)

definition all_defined :: "(cid \<Rightarrow> cid list) \<Rightarrow> bool" where
  "all_defined links \<longleftrightarrow> (\<forall>c d. d \<in> set (links c) \<longrightarrow> Defined d)"

locale dag_walk =
  fixes walk :: "'s get_links \<Rightarrow> cid \<Rightarrow> cid set \<Rightarrow> 's \<Rightarrow> ((err option \<times> cid set) \<times> 's) option"
  assumes walk_grows: "walk gl r V s = Some ((e, V'), s') \<Longrightarrow> V \<subseteq> V'"
    and walk_sound: "walk gl r V s = Some ((e, V'), s') \<Longrightarrow> within links gl \<Longrightarrow> c \<in> V' \<Longrightarrow>
      c \<in> V \<or> reaches links r c"
    and walk_complete: "walk gl r V s = Some ((None, V'), s') \<Longrightarrow> within links gl \<Longrightarrow>
      faithful links ok good gl \<Longrightarrow> good s' \<Longrightarrow> all_defined links \<Longrightarrow> Defined r \<Longrightarrow>
      r \<in> V' \<and> (\<forall>c \<in> V' - V. ok c \<and> set (links c) \<subseteq> V')"
    and walk_state: "walk gl r V s = Some ((e, V'), s') \<Longrightarrow> (\<And>c s. P s \<Longrightarrow> P (snd (gl c s))) \<Longrightarrow>
      P s \<Longrightarrow> P s'"
begin

text \<open>Walking from a closed set ends in a closed set that holds everything the root reaches.\<close>

lemma walk_closed:
  assumes w: "walk gl r V s = Some ((None, V'), s')" and wi: "within links gl"
    and fa: "faithful links ok good gl" "good s'" and de: "all_defined links" "Defined r"
    and cl: "\<And>c. c \<in> V \<Longrightarrow> set (links c) \<subseteq> V"
  shows "c \<in> V' \<Longrightarrow> set (links c) \<subseteq> V'" and "reaches links r c \<Longrightarrow> c \<in> V'"
    and "c \<in> V' - V \<Longrightarrow> ok c"
proof -
  have V': "r \<in> V'" "\<And>c. c \<in> V' - V \<Longrightarrow> set (links c) \<subseteq> V'"
    using walk_complete [OF w wi fa de] by auto
  show "ok c" if "c \<in> V' - V" for c
    using that walk_complete [OF w wi fa de] by blast
  show closed: "set (links c) \<subseteq> V'" if "c \<in> V'" for c
    using that V'(2) cl walk_grows [OF w] by blast
  show "c \<in> V'" if "reaches links r c"
    using that V'(1) by (rule reaches_closed) (use closed in blast)
qed

end

section \<open>The parallel walk keeps the promise\<close>

subsection \<open>Steps\<close>

lemma walk_step_cases:
  assumes "walk_step conc gl ch w s = r"
  shows "r = (Inl (Some ''context canceled'', w), s) \<or>
    r = (Inr (feed_step w), s) \<and> send w \<or>
    (\<exists>i < length (workers w). r = worker_step gl i w s) \<or>
    r = (Inr w, s) \<and> workers w = [] \<and> \<not> (send w \<and> 0 < conc)"
proof (cases "workers w = []")
  case True
  with assms show ?thesis by (auto simp: walk_step_def Let_def split: choice.splits if_splits)
next
  case False
  define i where "i = (case ch of ChWorker j \<Rightarrow> j mod length (workers w) | _ \<Rightarrow> 0)"
  have i: "i < length (workers w)"
    using False by (auto simp: i_def split: choice.splits)
  from assms False have "r = (Inl (Some ''context canceled'', w), s) \<or>
      r = (Inr (feed_step w), s) \<and> send w \<or> r = worker_step gl i w s"
    by (cases ch) (auto simp: i_def walk_step_def Let_def split: if_splits)
  with i show ?thesis by blast
qed

lemma walk_step_Inr:
  assumes "walk_step conc gl ch w s = (Inr w', s')"
  obtains (feed) "send w" "w' = feed_step w" "s' = s"
    | (work) i where "i < length (workers w)" "worker_step gl i w s = (Inr w', s')"
    | (stuck) "workers w = []" "\<not> (send w \<and> 0 < conc)" "w' = w" "s' = s"
  using walk_step_cases [OF assms] by (elim disjE exE conjE) (simp_all add: that)

lemma walk_step_Inl:
  assumes "walk_step conc gl ch w s = (Inl (e, w'), s')"
  obtains (ctx) "e = Some ''context canceled''" "w' = w" "s' = s"
    | (work) i where "i < length (workers w)" "worker_step gl i w s = (Inl (e, w'), s')"
  using walk_step_cases [OF assms] by (elim disjE exE conjE) (simp_all add: that)

text \<open>Rule for the loop: a property of the loop state kept by each step, and what returning gives.\<close>

lemma walk_loop_rule:
  assumes run: "walk_loop conc gl sched fuel w s = Some ((e, V'), s')"
    and I: "I w s"
    and step: "\<And>ch w s w' s'. I w s \<Longrightarrow> walk_step conc gl ch w s = (Inr w', s') \<Longrightarrow> I w' s'"
    and ret: "\<And>ch w s e w' s'. I w s \<Longrightarrow> walk_step conc gl ch w s = (Inl (e, w'), s') \<Longrightarrow> Q e (visited w') s'"
  shows "Q e V' s'"
  using run I
proof (induction fuel arbitrary: w s)
  case (Suc fuel)
  then show ?case
    by (auto split: sum.splits prod.splits dest: step ret)
qed simp

lemma enqueue_fields [simp]:
  "visited (enqueue cs w) = visited w" "workers (enqueue cs w) = workers w"
  "inProgress (enqueue cs w) = inProgress w"
  by (induction cs w rule: enqueue.induct) auto

lemma feed_step_fields [simp]:
  "visited (feed_step w) = visited w" "workers (feed_step w) = workers w @ [Fed (w_next w)]"
  "inProgress (feed_step w) = Suc (inProgress w)"
  by (auto simp: feed_step_def Let_def split: list.splits)

lemma set_drop_at: "set (drop_at i xs) \<subseteq> set xs"
  by (auto simp: drop_at_def dest: in_set_takeD in_set_dropD)

lemma in_drop_at: "i < length xs \<Longrightarrow> x \<in> set xs \<Longrightarrow> x = xs ! i \<or> x \<in> set (drop_at i xs)"
  by (metis drop_at_def id_take_nth_drop in_set_conv_decomp set_ConsD set_append Un_iff list.set_intros)

lemma length_drop_at: "i < length xs \<Longrightarrow> length (drop_at i xs) = length xs - 1"
  by (auto simp: drop_at_def)

lemma in_list_update: "x \<in> set xs \<Longrightarrow> x = xs ! i \<or> x \<in> set (xs[i := y])"
  by (metis in_set_conv_nth length_list_update nth_list_update_neq)

lemma in_list_update_new: "x \<in> set (xs[i := y]) \<Longrightarrow> x = y \<or> x \<in> set xs"
  by (metis insertE set_update_subset_insert subsetD)

subsection \<open>Growth and effects\<close>

lemma worker_step_grows:
  "worker_step gl i w s = (r, s') \<Longrightarrow>
    visited w \<subseteq> visited (case r of Inl (e, w') \<Rightarrow> w' | Inr w' \<Rightarrow> w')"
  by (auto simp: worker_step_def Let_def split: worker.splits prod.splits sum.splits if_splits)

lemma worker_step_state:
  "worker_step gl i w s = (r, s') \<Longrightarrow> s' = s \<or> (\<exists>c. s' = snd (gl c s))"
  by (auto simp: worker_step_def Let_def split: worker.splits prod.splits sum.splits if_splits)
     (metis snd_conv)+

lemma walk_step_state: "walk_step conc gl ch w s = (r, s') \<Longrightarrow> s' = s \<or> (\<exists>c. s' = snd (gl c s))"
  by (auto simp: walk_step_def Let_def split: choice.splits if_splits dest: worker_step_state)

lemma parallelWalk_grows: "parallelWalk sched fuel gl r V s = Some ((e, V'), s') \<Longrightarrow> V \<subseteq> V'"
  unfolding parallelWalk_def
proof (erule walk_loop_rule [where I = "\<lambda>w s. V \<subseteq> visited w" and Q = "\<lambda>e V' s. V \<subseteq> V'"])
  show "V \<subseteq> visited (walk_start r V)" by (simp add: walk_start_def)
next
  fix ch w w' :: _ and s s' :: 'a assume "V \<subseteq> visited w" "walk_step defaultConcurrentFetch gl ch w s = (Inr w', s')"
  then show "V \<subseteq> visited w'"
    by (auto elim!: walk_step_Inr dest!: worker_step_grows)
next
  fix ch w e w' and s s' :: 'a assume "V \<subseteq> visited w" "walk_step defaultConcurrentFetch gl ch w s = (Inl (e, w'), s')"
  then show "V \<subseteq> visited w'"
    by (auto elim!: walk_step_Inl dest!: worker_step_grows)
qed

lemma parallelWalk_state:
  assumes "parallelWalk sched fuel gl r V s = Some ((e, V'), s')"
    and P: "\<And>c s. P s \<Longrightarrow> P (snd (gl c s))" "P s"
  shows "P s'"
  using assms(1) unfolding parallelWalk_def
  by (rule walk_loop_rule [where I = "\<lambda>w s. P s" and Q = "\<lambda>e V' s. P s"])
     (use P in \<open>auto dest!: walk_step_state\<close>)

subsection \<open>Pending CIDs\<close>

text \<open>The CIDs a run still has to look at: queued, waiting in \<open>next\<close>, given to a worker, or in links
  a worker is handing over.\<close>

definition token_cids :: "worker \<Rightarrow> cid set" where
  "token_cids t = (case t of Fed c \<Rightarrow> {c} | Linked ls \<Rightarrow> set ls | _ \<Rightarrow> {})"

definition pending :: "walk_state \<Rightarrow> cid set" where
  "pending w = set (todoQueue w) \<union> (if send w then {w_next w} else {}) \<union> (\<Union>t \<in> set (workers w). token_cids t)"

lemma token_cids_simps [simp]:
  "token_cids (Fed c) = {c}" "token_cids (Fetching c) = {}" "token_cids (Linked ls) = set ls"
  "token_cids Finished = {}" "token_cids (Failed e) = {}"
  by (auto simp: token_cids_def)

lemma pending_feed: "send w \<Longrightarrow> pending (feed_step w) = pending w"
  by (auto simp: pending_def feed_step_def Let_def split: list.splits)

lemma in_pending:
  "c \<in> pending w \<longleftrightarrow> c \<in> set (todoQueue w) \<or> send w \<and> c = w_next w \<or> (\<exists>t \<in> set (workers w). c \<in> token_cids t)"
  by (auto simp: pending_def)

lemma pending_next: "pending (w\<lparr>w_next := c, send := True\<rparr>) \<subseteq> insert c (pending w)"
  by (auto simp: pending_def)

lemma pending_next_eq: "\<not> send w \<Longrightarrow> pending (w\<lparr>w_next := c, send := True\<rparr>) = insert c (pending w)"
  by (auto simp: pending_def)

lemma pending_queue: "pending (w\<lparr>todoQueue := todoQueue w @ [c]\<rparr>) = insert c (pending w)"
  by (auto simp: pending_def)

lemma pending_enqueue_le: "pending (enqueue cs w) \<subseteq> pending w \<union> set cs"
proof (induction cs w rule: enqueue.induct)
  case (2 c cs w)
  show ?case
  proof (cases "Defined (w_next w)")
    case True
    with 2 show ?thesis by (auto simp: pending_queue)
  next
    case False
    with 2 pending_next [where w = w and c = c] show ?thesis by auto
  qed
qed simp

lemma pending_update_le:
  "pending (w\<lparr>workers := (workers w)[i := t]\<rparr>) \<subseteq> pending w \<union> token_cids t"
  by (auto simp: pending_def dest: in_list_update_new)

lemma pending_drop:
  "set ws \<subseteq> set (workers w) \<Longrightarrow> pending (w\<lparr>workers := ws, inProgress := n\<rparr>) \<subseteq> pending w"
  by (simp add: subset_iff in_pending) blast

lemma linked_pending: "i < length (workers w) \<Longrightarrow> workers w ! i = Linked ls \<Longrightarrow> set ls \<subseteq> pending w"
  unfolding subset_iff in_pending by (metis nth_mem token_cids_simps(3))

lemma pending_visit:
  "pending (w\<lparr>workers := ws, visited := V\<rparr>) = pending (w\<lparr>workers := ws\<rparr>)"
  by (simp add: pending_def)

lemma pending_update_ge:
  "workers w ! i = t \<Longrightarrow> pending w \<subseteq> pending (w\<lparr>workers := (workers w)[i := t']\<rparr>) \<union> token_cids t"
  by (auto simp: pending_def) (metis in_list_update)+

subsection \<open>Only reachable CIDs are visited\<close>

definition sound_inv :: "cid set \<Rightarrow> cid set \<Rightarrow> walk_state \<Rightarrow> bool" where
  "sound_inv V R w \<longleftrightarrow>
     visited w \<subseteq> V \<union> R \<and> pending w \<subseteq> R \<and> {c. Fetching c \<in> set (workers w)} \<subseteq> R"

lemma sound_inv_update:
  assumes "sound_inv V R w" "token_cids t \<subseteq> R" "\<And>c. t = Fetching c \<Longrightarrow> c \<in> R" "X \<subseteq> V \<union> R"
  shows "sound_inv V R (w\<lparr>workers := (workers w)[i := t], visited := X\<rparr>)"
proof -
  have "pending (w\<lparr>workers := (workers w)[i := t], visited := X\<rparr>) \<subseteq> pending w \<union> token_cids t"
    using pending_update_le [of w i t] by (simp add: pending_def)
  with assms show ?thesis
    by (auto simp: sound_inv_def dest: in_list_update_new)
qed

lemma sound_inv_enqueue: "sound_inv V R w \<Longrightarrow> set ls \<subseteq> R \<Longrightarrow> sound_inv V R (enqueue ls w)"
  using pending_enqueue_le [of ls w] by (auto simp: sound_inv_def)

lemma sound_inv_worker:
  assumes "within links gl" "sound_inv V {c. reaches links r c} w" "i < length (workers w)"
    and ws: "worker_step gl i w s = (Inr w', s')"
  shows "sound_inv V {c. reaches links r c} w'"
proof -
  define R where "R = {c. reaches links r c}"
  have I: "sound_inv V R w" using assms by (simp add: R_def)
  have mem: "workers w ! i \<in> set (workers w)" using assms by simp
  then have sub: "token_cids (workers w ! i) \<subseteq> R" "\<And>c. workers w ! i = Fetching c \<Longrightarrow> c \<in> R"
    using I by (auto simp: sound_inv_def pending_def)
  have vis: "visited w \<subseteq> V \<union> R" using I by (simp add: sound_inv_def)
  show ?thesis
  proof (cases "workers w ! i")
    case (Fed c)
    have "sound_inv V R (w\<lparr>workers := (workers w)[i := Finished], visited := visited w\<rparr>)"
      using vis by (intro sound_inv_update [OF I]) auto
    moreover have
      "sound_inv V R (w\<lparr>workers := (workers w)[i := Fetching c], visited := insert c (visited w)\<rparr>)"
      using vis sub Fed by (intro sound_inv_update [OF I]) auto
    moreover have "w' = w\<lparr>workers := (workers w)[i := Finished], visited := visited w\<rparr> \<or>
        w' = w\<lparr>workers := (workers w)[i := Fetching c], visited := insert c (visited w)\<rparr>"
      using ws Fed by (auto simp: worker_step_def split: if_splits)
    ultimately show ?thesis by (auto simp: R_def)
  next
    case (Fetching c)
    have "set ls \<subseteq> R" if "fst (gl c s) = Inr ls" for ls
      using that assms(1) sub(2) [OF Fetching]
      by (auto simp: within_def R_def intro: reaches_step dest!: spec)
    with Fetching vis ws show ?thesis
      by (auto simp: worker_step_def R_def [symmetric] split: prod.splits sum.splits
          intro: sound_inv_update [OF I, of "Linked ls" "visited w" i for ls, simplified]
            sound_inv_update [OF I, of "Failed e" "visited w" i for e, simplified])
  next
    case (Linked ls)
    with sub vis ws show ?thesis
      by (auto simp: worker_step_def R_def [symmetric]
          intro!: sound_inv_enqueue sound_inv_update [OF I, of Finished "visited w" i, simplified])
  next
    case Finished
    with ws have "w' = w\<lparr>workers := drop_at i (workers w), inProgress := inProgress w - 1\<rparr>"
      by (auto simp: worker_step_def Let_def split: if_splits)
    with I show ?thesis
      using set_drop_at [of i "workers w"] pending_drop [OF set_drop_at [of i "workers w"], of "inProgress w - 1"]
      by (auto simp: sound_inv_def R_def [symmetric])
  next
    case (Failed e)
    with ws show ?thesis by (simp add: worker_step_def)
  qed
qed

lemma sound_inv_feed: "sound_inv V R w \<Longrightarrow> send w \<Longrightarrow> sound_inv V R (feed_step w)"
  by (auto simp: sound_inv_def pending_feed)

lemma worker_step_Inl:
  "worker_step gl i w s = (Inl (e, w'), s') \<Longrightarrow> visited w' = visited w \<and> s' = s"
  by (auto simp: worker_step_def Let_def split: worker.splits prod.splits sum.splits if_splits)

lemma parallelWalk_sound:
  assumes run: "parallelWalk sched fuel gl r V s = Some ((e, V'), s')"
    and wi: "within links gl" and c: "c \<in> V'"
  shows "c \<in> V \<or> reaches links r c"
proof -
  let ?R = "{c. reaches links r c}"
  have "V' \<subseteq> V \<union> ?R"
    using run unfolding parallelWalk_def
  proof (rule walk_loop_rule [where I = "\<lambda>w s. sound_inv V ?R w" and Q = "\<lambda>e V' s. V' \<subseteq> V \<union> ?R"])
    show "sound_inv V ?R (walk_start r V)"
      by (simp add: sound_inv_def walk_start_def pending_def reaches_refl)
  next
    fix ch w s w' s'
    assume "sound_inv V ?R w" "walk_step defaultConcurrentFetch gl ch w s = (Inr w', s')"
    then show "sound_inv V ?R w'"
      by (elim walk_step_Inr) (auto intro: sound_inv_feed sound_inv_worker [OF wi])
  next
    fix ch w s e w' s'
    assume "sound_inv V ?R w" "walk_step defaultConcurrentFetch gl ch w s = (Inl (e, w'), s')"
    then show "visited w' \<subseteq> V \<union> ?R"
      by (elim walk_step_Inl) (auto simp: sound_inv_def dest: worker_step_Inl)
  qed
  with c show ?thesis by auto
qed

subsection \<open>Every reachable CID is visited\<close>

text \<open>The shape of the loop's locals: the in-progress count is the number of busy workers, \<open>next\<close> is
  defined exactly when there is something to send, and the queue is only filled behind \<open>next\<close>.\<close>

definition shape_inv :: "walk_state \<Rightarrow> bool" where
  "shape_inv w \<longleftrightarrow>
     inProgress w = length (workers w) \<and> (send w \<longleftrightarrow> Defined (w_next w)) \<and>
     (\<not> send w \<longrightarrow> todoQueue w = []) \<and> (\<forall>c \<in> pending w. Defined c) \<and> (workers w = [] \<longrightarrow> send w)"

lemma shape_inv_start: "Defined r \<Longrightarrow> shape_inv (walk_start r V)"
  by (simp add: shape_inv_def walk_start_def pending_def)

lemma shape_inv_feed: "shape_inv w \<Longrightarrow> send w \<Longrightarrow> shape_inv (feed_step w)"
  using pending_feed [of w]
  by (auto simp: shape_inv_def pending_def feed_step_def Let_def split: list.splits)

lemma enqueue_shape:
  assumes "send w \<longleftrightarrow> Defined (w_next w)" "\<not> send w \<longrightarrow> todoQueue w = []" "\<forall>c \<in> set cs. Defined c"
  shows "send (enqueue cs w) \<longleftrightarrow> Defined (w_next (enqueue cs w))"
    and "\<not> send (enqueue cs w) \<longrightarrow> todoQueue (enqueue cs w) = []"
    and "pending (enqueue cs w) = pending w \<union> set cs"
    and "send w \<longrightarrow> send (enqueue cs w)"
  using assms
  by (induction cs w rule: enqueue.induct) (auto simp: pending_queue pending_next_eq)

lemma shape_inv_update:
  assumes "shape_inv w" "\<forall>c \<in> token_cids t. Defined c" "i < length (workers w)"
  shows "shape_inv (w\<lparr>workers := (workers w)[i := t], visited := X\<rparr>)"
proof -
  have "pending (w\<lparr>workers := (workers w)[i := t], visited := X\<rparr>) \<subseteq> pending w \<union> token_cids t"
    using pending_update_le [of w i t] by (simp add: pending_def)
  with assms show ?thesis
    by (auto simp: shape_inv_def)
qed

lemma shape_inv_worker:
  assumes "within links gl" "all_defined links" and I: "shape_inv w" and i: "i < length (workers w)"
    and ws: "worker_step gl i w s = (Inr w', s')"
  shows "shape_inv w'"
proof (cases "workers w ! i")
  case (Fed c)
  have "shape_inv (w\<lparr>workers := (workers w)[i := Finished], visited := visited w\<rparr>)"
    and "shape_inv (w\<lparr>workers := (workers w)[i := Fetching c], visited := insert c (visited w)\<rparr>)"
    by (intro shape_inv_update [OF I]; use i in simp)+
  with Fed ws show ?thesis by (auto simp: worker_step_def split: if_splits)
next
  case (Fetching c)
  have "\<forall>d \<in> set ls. Defined d" if "fst (gl c s) = Inr ls" for ls
    using that withinD [OF assms(1)] assms(2) unfolding all_defined_def by blast
  then have "shape_inv (w\<lparr>workers := (workers w)[i := Linked ls], visited := visited w\<rparr>)"
    if "fst (gl c s) = Inr ls" for ls
    using that i by (intro shape_inv_update [OF I]) auto
  moreover have "shape_inv (w\<lparr>workers := (workers w)[i := Failed e], visited := visited w\<rparr>)" for e
    using i by (intro shape_inv_update [OF I]) auto
  ultimately show ?thesis using Fetching ws
    by (auto simp: worker_step_def split: prod.splits sum.splits)
next
  case (Linked ls)
  define v where "v = w\<lparr>workers := (workers w)[i := Finished], visited := visited w\<rparr>"
  have v: "shape_inv v" unfolding v_def by (intro shape_inv_update [OF I]) (use i in auto)
  have def: "\<forall>c \<in> set ls. Defined c"
    using I i Linked linked_pending [OF i Linked] by (auto simp: shape_inv_def)
  have "w' = enqueue ls v" using Linked ws by (simp add: worker_step_def v_def)
  with v def show ?thesis
    using enqueue_shape [of v ls] by (auto simp: shape_inv_def)
next
  case Finished
  with ws have w': "w' = w\<lparr>workers := drop_at i (workers w), inProgress := inProgress w - 1\<rparr>"
    and "inProgress w - 1 \<noteq> 0 \<or> Defined (w_next w)"
    by (auto simp: worker_step_def Let_def split: if_splits)
  with I show ?thesis
    using pending_drop [OF set_drop_at [of i "workers w"], of "inProgress w - 1"] length_drop_at [OF i]
    by (auto simp: shape_inv_def)
next
  case (Failed e)
  with ws show ?thesis by (simp add: worker_step_def)
qed

text \<open>What is visited or pending stays visited or pending.\<close>

lemma seen_mono:
  assumes I: "shape_inv w" and i: "i < length (workers w)"
    and ws: "worker_step gl i w s = (Inr w', s')"
  shows "visited w \<union> pending w \<subseteq> visited w' \<union> pending w'"
proof (cases "workers w ! i")
  case (Linked ls)
  define v where "v = w\<lparr>workers := (workers w)[i := Finished], visited := visited w\<rparr>"
  have v: "shape_inv v" unfolding v_def by (intro shape_inv_update [OF I]) (use i in auto)
  have "\<forall>c \<in> set ls. Defined c"
    using I i Linked linked_pending [OF i Linked] by (auto simp: shape_inv_def)
  with v have "pending (enqueue ls v) = pending v \<union> set ls"
    by (intro enqueue_shape(3)) (auto simp: shape_inv_def)
  moreover have "pending w \<subseteq> pending v \<union> set ls"
    using pending_update_ge [OF Linked, of Finished] by (simp add: v_def)
  moreover have "w' = enqueue ls v" using Linked ws by (simp add: worker_step_def v_def)
  ultimately show ?thesis by (auto simp: v_def)
next
  case (Fed c)
  have "pending w \<subseteq> pending (w\<lparr>workers := (workers w)[i := t]\<rparr>) \<union> {c}" for t
    using pending_update_ge [OF Fed, of t] by simp
  moreover have "\<exists>t. visited w' = insert c (visited w) \<and> pending w' = pending (w\<lparr>workers := (workers w)[i := t]\<rparr>)"
    using Fed ws by (auto simp: worker_step_def pending_visit split: if_splits)
  ultimately show ?thesis by fastforce
next
  case (Fetching c)
  have "pending w \<subseteq> pending (w\<lparr>workers := (workers w)[i := t]\<rparr>)" for t
    using pending_update_ge [OF Fetching, of t] by simp
  moreover have "\<exists>t. w' = w\<lparr>workers := (workers w)[i := t]\<rparr>"
    using Fetching ws by (auto simp: worker_step_def split: prod.splits sum.splits)
  ultimately show ?thesis by fastforce
next
  case Finished
  have "pending w \<subseteq> pending (w\<lparr>workers := drop_at i (workers w), inProgress := inProgress w - 1\<rparr>)"
    using in_drop_at [OF i] Finished unfolding subset_iff in_pending
    by simp (metis empty_iff token_cids_simps(4))
  with Finished ws show ?thesis
    by (auto simp: worker_step_def Let_def split: if_splits)
next
  case (Failed e)
  with ws show ?thesis by (simp add: worker_step_def)
qed

text \<open>Coverage: every CID this walk has visited is being fetched, belongs to a failed worker, or has all
  its links visited or pending.\<close>

definition cover_inv ::
  "(cid \<Rightarrow> cid list) \<Rightarrow> (cid \<Rightarrow> bool) \<Rightarrow> cid \<Rightarrow> cid set \<Rightarrow> walk_state \<Rightarrow> bool" where
  "cover_inv links ok r V w \<longleftrightarrow>
     r \<in> visited w \<union> pending w \<and>
     (\<forall>c \<in> visited w - V. Fetching c \<in> set (workers w) \<or> (\<exists>e. Failed e \<in> set (workers w)) \<or>
        ok c \<and> set (links c) \<subseteq> visited w \<union> pending w)"

lemma faithfulD:
  assumes "faithful links ok good gl"
  shows "good (snd (gl c s)) \<Longrightarrow> good s"
    and "fst (gl c s) = Inr ls \<Longrightarrow> good (snd (gl c s)) \<Longrightarrow> ok c \<and> set ls = set (links c)"
  using assms by (auto simp: faithful_def)

lemma worker_step_good:
  "faithful links ok good gl \<Longrightarrow> worker_step gl i w s = (r, s') \<Longrightarrow> good s' \<Longrightarrow> good s"
  using worker_step_state faithfulD(1) by fastforce

text \<open>How one worker move changes the visited set and the workers that carry obligations.\<close>

lemma worker_step_tokens:
  assumes i: "i < length (workers w)" and ws: "worker_step gl i w s = (Inr w', s')"
    and fa: "faithful links ok good gl" and g: "good s'"
  shows "c \<in> visited w' \<Longrightarrow> c \<in> visited w \<or> Fetching c \<in> set (workers w')"
    and "Failed e \<in> set (workers w) \<Longrightarrow> Failed e \<in> set (workers w')"
    and "Fetching c \<in> set (workers w) \<Longrightarrow>
      Fetching c \<in> set (workers w') \<or> (\<exists>e. Failed e \<in> set (workers w')) \<or>
        ok c \<and> set (links c) \<subseteq> pending w'"
proof -
  have mem: "t \<in> set ((workers w)[i := t])" for t using i by (rule set_update_memI)
  show "c \<in> visited w \<or> Fetching c \<in> set (workers w')" if "c \<in> visited w'"
    using that ws mem
    by (auto simp: worker_step_def Let_def split: worker.splits prod.splits sum.splits if_splits)
  show "Failed e \<in> set (workers w')" if "Failed e \<in> set (workers w)"
    using that ws in_list_update [OF that, of i] in_drop_at [OF i that]
    by (auto simp: worker_step_def Let_def split: worker.splits prod.splits sum.splits if_splits)
  show "Fetching c \<in> set (workers w') \<or> (\<exists>e. Failed e \<in> set (workers w')) \<or>
        ok c \<and> set (links c) \<subseteq> pending w'"
    if f: "Fetching c \<in> set (workers w)"
  proof (cases "workers w ! i = Fetching c")
    case True
    then show ?thesis
    proof (cases "fst (gl c s)")
      case (Inl e)
      with True ws mem [of "Failed e"] show ?thesis
        by (auto simp: worker_step_def split: prod.splits sum.splits)
    next
      case (Inr ls)
      with True ws have w': "w' = w\<lparr>workers := (workers w)[i := Linked ls]\<rparr>" and s': "s' = snd (gl c s)"
        by (auto simp: worker_step_def split: prod.splits sum.splits)
      have "set ls \<subseteq> pending w'"
        using i by (intro linked_pending [of i]) (auto simp: w')
      with Inr s' g faithfulD(2) [OF fa Inr] show ?thesis by auto
    qed
  next
    case False
    then have "Fetching c \<in> set (workers w')"
      using ws in_list_update [OF f, of i] in_drop_at [OF i f]
      by (auto simp: worker_step_def Let_def split: worker.splits prod.splits sum.splits if_splits)
    then show ?thesis by simp
  qed
qed

lemma cover_inv_worker:
  assumes "cover_inv links ok r V w" "shape_inv w" and i: "i < length (workers w)"
    and ws: "worker_step gl i w s = (Inr w', s')"
    and fa: "faithful links ok good gl" and g: "good s'"
  shows "cover_inv links ok r V w'"
proof -
  note mono = seen_mono [OF assms(2) i ws]
  note tok = worker_step_tokens [OF i ws fa g]
  have "Fetching c \<in> set (workers w') \<or> (\<exists>e. Failed e \<in> set (workers w')) \<or>
      ok c \<and> set (links c) \<subseteq> visited w' \<union> pending w'" if c: "c \<in> visited w' - V" for c
    using tok(1) [of c] tok(2) tok(3) [of c] assms(1) c mono unfolding cover_inv_def by blast
  moreover have "r \<in> visited w' \<union> pending w'"
    using assms(1) mono by (auto simp: cover_inv_def)
  ultimately show ?thesis by (simp add: cover_inv_def)
qed

lemma cover_inv_feed: "cover_inv links ok r V w \<Longrightarrow> send w \<Longrightarrow> cover_inv links ok r V (feed_step w)"
  by (auto simp: cover_inv_def pending_feed)

lemma cover_inv_return:
  assumes "cover_inv links ok r V w" "shape_inv w" "i < length (workers w)"
    and ws: "worker_step gl i w s = (Inl (None, w'), s')"
  shows "r \<in> visited w' \<and> (\<forall>c \<in> visited w' - V. ok c \<and> set (links c) \<subseteq> visited w')"
proof -
  from ws have fin: "workers w ! i = Finished" "inProgress w = 1 \<or> inProgress w = 0" "\<not> Defined (w_next w)"
    and v: "visited w' = visited w"
    by (auto simp: worker_step_def Let_def split: worker.splits prod.splits sum.splits if_splits)
  with assms(2,3) have "workers w = [Finished]" "\<not> send w" "todoQueue w = []"
    by (auto simp: shape_inv_def length_Suc_conv)
  then have "pending w = {}" and "set (workers w) = {Finished}" by (auto simp: pending_def)
  with assms(1) v show ?thesis by (auto simp: cover_inv_def)
qed

lemma parallelWalk_complete:
  assumes run: "parallelWalk sched fuel gl r V s = Some ((None, V'), s')"
    and wi: "within links gl" and fa: "faithful links ok good gl" and g: "good s'"
    and de: "all_defined links" "Defined r"
  shows "r \<in> V' \<and> (\<forall>c \<in> V' - V. ok c \<and> set (links c) \<subseteq> V')"
proof -
  let ?I = "\<lambda>w s. shape_inv w \<and> (good s \<longrightarrow> cover_inv links ok r V w)"
  let ?Q = "\<lambda>(e :: err option) V' s. e = None \<longrightarrow> good s \<longrightarrow> r \<in> V' \<and> (\<forall>c \<in> V' - V. ok c \<and> set (links c) \<subseteq> V')"
  have "?Q None V' s'"
    using run unfolding parallelWalk_def
  proof (rule walk_loop_rule [where I = ?I and Q = ?Q])
    show "?I (walk_start r V) s"
      using de shape_inv_start by (simp add: cover_inv_def walk_start_def pending_def)
  next
    fix ch w s w' s' assume I: "?I w s" and st: "walk_step defaultConcurrentFetch gl ch w s = (Inr w', s')"
    from st show "?I w' s'"
    proof (cases rule: walk_step_Inr)
      case (work i)
      with I wi de fa show ?thesis
        by (meson cover_inv_worker shape_inv_worker worker_step_good)
    qed (use I in \<open>auto intro: shape_inv_feed cover_inv_feed\<close>)
  next
    fix ch w s e w' s' assume I: "?I w s" and st: "walk_step defaultConcurrentFetch gl ch w s = (Inl (e, w'), s')"
    from st show "?Q e (visited w') s'"
    proof (cases rule: walk_step_Inl)
      case (work i)
      with I fa show ?thesis
        by (meson cover_inv_return worker_step_good)
    qed simp
  qed
  with g show ?thesis by simp
qed

interpretation pw: dag_walk "parallelWalk sched fuel"
  by (unfold_locales; (rule parallelWalk_grows parallelWalk_sound parallelWalk_complete parallelWalk_state; assumption)?)

subsection \<open>The walk returns\<close>

text \<open>
  Each move spends some of a potential: a CID not yet visited pays for its own fetch and for handing
  over, queueing and feeding each of its links.
\<close>

definition weight :: "(cid \<Rightarrow> cid list) \<Rightarrow> worker \<Rightarrow> nat" where
  "weight links t =
     (case t of Fed c \<Rightarrow> 3 | Fetching c \<Rightarrow> 4 * length (links c) + 3 | Linked ls \<Rightarrow> 4 * length ls + 2
      | Finished \<Rightarrow> 1 | Failed e \<Rightarrow> 1)"

definition walk_cost :: "(cid \<Rightarrow> cid list) \<Rightarrow> cid set \<Rightarrow> nat" where
  "walk_cost links U = (\<Sum>c \<in> U. 4 * length (links c) + 3)"

definition queue_cost :: "walk_state \<Rightarrow> nat" where
  "queue_cost w = 4 * length (todoQueue w) + (if send w then 4 else 0)"

definition potential :: "(cid \<Rightarrow> cid list) \<Rightarrow> cid set \<Rightarrow> walk_state \<Rightarrow> nat" where
  "potential links U w =
     walk_cost links (U - visited w) + (\<Sum>t \<leftarrow> workers w. weight links t) + queue_cost w"

lemma weight_simps [simp]:
  "weight links (Fed c) = 3" "weight links (Fetching c) = 4 * length (links c) + 3"
  "weight links (Linked ls) = 4 * length ls + 2" "weight links Finished = 1" "weight links (Failed e) = 1"
  by (simp_all add: weight_def)

lemma sum_drop_at:
  "i < length xs \<Longrightarrow> (\<Sum>t \<leftarrow> drop_at i xs. f t) + (f (xs ! i) :: nat) = (\<Sum>t \<leftarrow> xs. f t)"
  by (subst (3) id_take_nth_drop [of i xs]) (auto simp: drop_at_def)

lemma sum_update:
  assumes "i < length xs"
  shows "(\<Sum>t \<leftarrow> xs[i := y]. f t) + (f (xs ! i) :: nat) = (\<Sum>t \<leftarrow> xs. f t) + f y"
proof -
  have "f (xs ! i) \<le> (\<Sum>t \<leftarrow> xs. f t)"
    using assms by (metis elem_le_sum_list length_map nth_map)
  then show ?thesis
    using assms by (simp add: map_update sum_list_update)
qed

lemma queue_cost_enqueue: "queue_cost (enqueue cs w) \<le> queue_cost w + 4 * length cs"
  by (induction cs w rule: enqueue.induct) (auto simp: queue_cost_def)

lemma potential_feed: "send w \<Longrightarrow> potential links U (feed_step w) < potential links U w"
  by (auto simp: potential_def queue_cost_def feed_step_def Let_def split: list.splits)

lemma potential_worker:
  assumes wi: "within links gl" and U: "finite U" "pending w \<subseteq> U" and i: "i < length (workers w)"
    and ws: "worker_step gl i w s = (Inr w', s')"
  shows "potential links U w' < potential links U w"
proof -
  note upd = sum_update [OF i, of "weight links"]
  show ?thesis
  proof (cases "workers w ! i")
    case (Fed c)
    have "c \<in> pending w" using i Fed unfolding in_pending by (metis nth_mem singletonI token_cids_simps(1))
    with U have c: "c \<in> U" by auto
    have cost: "walk_cost links (U - visited w) =
        4 * length (links c) + 3 + walk_cost links (U - insert c (visited w))" if "c \<notin> visited w"
    proof -
      have "U - insert c (visited w) = U - visited w - {c}" by auto
      then show ?thesis
        using U(1) c that unfolding walk_cost_def by (simp add: sum.remove [of "U - visited w" c])
    qed
    show ?thesis
    proof (cases "c \<in> visited w")
      case True
      with Fed ws have "w' = w\<lparr>workers := (workers w)[i := Finished]\<rparr>"
        by (simp add: worker_step_def)
      with Fed upd [of Finished] show ?thesis
        by (simp add: potential_def queue_cost_def)
    next
      case False
      with Fed ws have "w' = w\<lparr>workers := (workers w)[i := Fetching c], visited := insert c (visited w)\<rparr>"
        by (simp add: worker_step_def)
      with Fed upd [of "Fetching c"] cost [OF False] show ?thesis
        by (simp add: potential_def queue_cost_def)
    qed
  next
    case (Fetching c)
    then obtain t where w': "w' = w\<lparr>workers := (workers w)[i := t]\<rparr>"
      and t: "weight links t < weight links (workers w ! i)"
    proof (cases "fst (gl c s)")
      case (Inl e)
      with Fetching ws that [of "Failed e"] show ?thesis
        by (auto simp: worker_step_def split: prod.splits)
    next
      case (Inr ls)
      with withinD_length [OF wi Inr] Fetching ws that [of "Linked ls"] show ?thesis
        by (auto simp: worker_step_def split: prod.splits)
    qed
    with upd [of t] show ?thesis by (simp add: potential_def queue_cost_def)
  next
    case (Linked ls)
    with ws upd [of Finished]
      queue_cost_enqueue [of ls "w\<lparr>workers := (workers w)[i := Finished]\<rparr>"] show ?thesis
      by (auto simp: worker_step_def potential_def queue_cost_def)
  next
    case Finished
    with ws sum_drop_at [OF i, of "weight links"] show ?thesis
      by (auto simp: worker_step_def potential_def queue_cost_def Let_def split: if_splits)
  next
    case (Failed e)
    with ws show ?thesis by (simp add: worker_step_def)
  qed
qed

lemma walk_loop_returns:
  assumes wi: "within links gl" and de: "all_defined links" and fin: "finite {c. reaches links r c}"
    and conc: "0 < conc"
  shows "potential links {c. reaches links r c} w < fuel \<Longrightarrow> shape_inv w \<Longrightarrow>
    sound_inv V {c. reaches links r c} w \<Longrightarrow> \<exists>x. walk_loop conc gl sched fuel w s = Some x"
proof (induction fuel arbitrary: w s)
  case (Suc fuel)
  let ?U = "{c. reaches links r c}"
  obtain o' s' where st: "walk_step conc gl (sched fuel) w s = (o', s')" by force
  show ?case
  proof (cases o')
    case (Inl ret)
    with st show ?thesis by (cases ret) auto
  next
    case (Inr w')
    have "potential links ?U w' < potential links ?U w \<and> shape_inv w' \<and> sound_inv V ?U w'"
      using st [unfolded Inr]
    proof (cases rule: walk_step_Inr)
      case feed
      with Suc.prems show ?thesis
        by (simp add: potential_feed shape_inv_feed sound_inv_feed)
    next
      case (work i)
      have "pending w \<subseteq> ?U" using Suc.prems(3) by (simp add: sound_inv_def)
      with work Suc.prems wi de fin show ?thesis
        by (meson potential_worker shape_inv_worker sound_inv_worker)
    next
      case stuck
      with Suc.prems conc show ?thesis by (auto simp: shape_inv_def)
    qed
    with Suc.IH [of w' s'] Suc.prems(1) st Inr show ?thesis by simp
  qed
qed simp

lemma parallelWalk_returns:
  assumes wi: "within links gl" and de: "all_defined links" "Defined r"
    and fin: "finite {c. reaches links r c}"
    and fuel: "walk_cost links {c. reaches links r c} + 4 < fuel"
  shows "\<exists>x. parallelWalk sched fuel gl r V s = Some x"
proof -
  let ?U = "{c. reaches links r c}"
  have "walk_cost links (?U - V) \<le> walk_cost links ?U"
    unfolding walk_cost_def by (rule sum_mono2) (use fin in auto)
  then have pot: "potential links ?U (walk_start r V) < fuel"
    using fuel by (simp add: potential_def walk_start_def queue_cost_def)
  have snd: "sound_inv V ?U (walk_start r V)"
    by (auto simp: sound_inv_def walk_start_def pending_def reaches_refl)
  have "0 < defaultConcurrentFetch" by (simp add: defaultConcurrentFetch_def)
  from walk_loop_returns [OF wi de(1) fin this pot shape_inv_start [OF de(2)] snd] show ?thesis
    by (simp add: parallelWalk_def)
qed

end
