(* ===== verification/Gc.thy ===== *)
theory Gc
  imports Dag_Walk
begin

text \<open>
  Mark and sweep garbage collection (\<^verbatim>\<open>gc/gc.go\<close>). The pinner, the node getter, the blockstore and the
  datastore are parameters: what the pinner's three key lists are, what \<^verbatim>\<open>ipld.GetLinks\<close> returns for a
  CID, which keys \<^verbatim>\<open>AllKeysChan\<close> delivers, which deletions fail. The context is the oracle \<open>ctx\<close>: at the
  \<open>n\<close>-th point where the code looks at \<^verbatim>\<open>ctx.Done()\<close> or \<^verbatim>\<open>ctx.Err()\<close> it finds the context done exactly
  when \<open>ctx n\<close> holds, so cancellation may strike anywhere. Logging, the counter \<^verbatim>\<open>removed\<close> (which is never
  read) and the GC lock, which the run holds from start to end, are left out.
\<close>

section \<open>Results\<close>

datatype ipld_err = IpldErrNotFound | IpldErr err

datatype gc_err =
    ErrCannotFetchAllLinks
  | ErrCannotDeleteSomeBlocks
  | CannotFetchLinksError cid ipld_err
  | CannotDeleteBlockError cid err
  | PlainErr err

record result =
  KeyRemoved :: cid
  Error :: "gc_err option"

definition err_result :: "gc_err \<Rightarrow> result" where
  "err_result e = \<lparr>KeyRemoved = CidUndef, Error = Some e\<rparr>"

definition key_result :: "cid \<Rightarrow> result" where
  "key_result k = \<lparr>KeyRemoved = k, Error = None\<rparr>"

record gstate =
  g_out :: "result list"
  g_errors :: bool
  g_tick :: nat

definition ctx_err :: err where "ctx_err = ''context canceled''"

text \<open>\<^verbatim>\<open>select { case output <- r: case <-ctx.Done(): }\<close>; the flag tells which case was taken.\<close>

definition emit :: "(nat \<Rightarrow> bool) \<Rightarrow> result \<Rightarrow> gstate \<Rightarrow> bool \<times> gstate" where
  "emit ctx r s =
     (if ctx (g_tick s) then (False, s\<lparr>g_tick := Suc (g_tick s)\<rparr>)
      else (True, s\<lparr>g_out := g_out s @ [r], g_tick := Suc (g_tick s)\<rparr>))"

section \<open>Marking\<close>

fun verif_msg :: "verif_err \<Rightarrow> err" where
  "verif_msg ErrPossiblyInsecureHashFunction = ''potentially insecure hash functions not allowed''"
| "verif_msg ErrBelowMinimumHashLength = ''hashes must be at 20 least bytes long''"

definition verifyGetLinks :: "'s get_links \<Rightarrow> 's get_links" where
  "verifyGetLinks getLinks c s =
     (case ValidateCid c of
        Some e \<Rightarrow> (Inl (verif_msg e), s)
      | None \<Rightarrow> getLinks c s)"

definition verboseCidError :: "err \<Rightarrow> err" where
  "verboseCidError e =
     (if contains (verif_msg ErrBelowMinimumHashLength) e
         \<or> contains (verif_msg ErrPossiblyInsecureHashFunction) e
      then [CHR 0x22] @ e @ [CHR 0x22, CHR 0x0A] @
           ''Please run 'ipfs pin verify' to list insecure hashes. If you want to read them,'' @
           '' please downgrade your go-ipfs to 0.4.13'' @ [CHR 0x0A]
      else e)"

type_synonym 's walk = "'s get_links \<Rightarrow> cid \<Rightarrow> cid set \<Rightarrow> 's \<Rightarrow> ((err option \<times> cid set) \<times> 's) option"

fun Descendants ::
  "'s walk \<Rightarrow> 's get_links \<Rightarrow> cid set \<Rightarrow> cid list \<Rightarrow> 's \<Rightarrow> ((err option \<times> cid set) \<times> 's) option" where
  "Descendants walk getLinks st [] s = Some ((None, st), s)"
| "Descendants walk getLinks st (c # roots) s =
     (case walk (verifyGetLinks getLinks) c st s of
        None \<Rightarrow> None
      | Some ((Some e, st'), s') \<Rightarrow> Some ((Some (verboseCidError e), st'), s')
      | Some ((None, st'), s') \<Rightarrow> Descendants walk getLinks st' roots s')"

text \<open>The two link closures of \<^verbatim>\<open>ColoredSet\<close>. A failed fetch is recorded and reported, and the walk goes
  on without links; the best-effort closure accepts a missing node silently.\<close>

definition colored_getLinks ::
  "(nat \<Rightarrow> bool) \<Rightarrow> (cid \<Rightarrow> ipld_err + cid list) \<Rightarrow> gstate get_links" where
  "colored_getLinks ctx ng c s =
     (case ng c of
        Inr links \<Rightarrow> (Inr links, s)
      | Inl e \<Rightarrow>
          (case emit ctx (err_result (CannotFetchLinksError c e)) (s\<lparr>g_errors := True\<rparr>) of
             (True, s') \<Rightarrow> (Inr [], s')
           | (False, s') \<Rightarrow> (Inl ctx_err, s')))"

definition bestEffortGetLinks ::
  "(nat \<Rightarrow> bool) \<Rightarrow> (cid \<Rightarrow> ipld_err + cid list) \<Rightarrow> gstate get_links" where
  "bestEffortGetLinks ctx ng c s =
     (case ng c of
        Inr links \<Rightarrow> (Inr links, s)
      | Inl IpldErrNotFound \<Rightarrow> (Inr [], s)
      | Inl (IpldErr m) \<Rightarrow>
          (case emit ctx (err_result (CannotFetchLinksError c (IpldErr m))) (s\<lparr>g_errors := True\<rparr>) of
             (True, s') \<Rightarrow> (Inr [], s')
           | (False, s') \<Rightarrow> (Inl ctx_err, s')))"

text \<open>The block that \<^verbatim>\<open>ColoredSet\<close> has three times: \<^verbatim>\<open>err = Descendants(...); if err != nil { errors = true;
  select { case output <- Result{Error: err}: case <-ctx.Done(): return nil, ctx.Err() } }\<close>.\<close>

definition mark_roots ::
  "(nat \<Rightarrow> bool) \<Rightarrow> gstate walk \<Rightarrow> gstate get_links \<Rightarrow> cid set \<Rightarrow> cid list \<Rightarrow> gstate
    \<Rightarrow> ((gc_err + cid set) \<times> gstate) option" where
  "mark_roots ctx walk gl gcs roots s =
     (case Descendants walk gl gcs roots s of
        None \<Rightarrow> None
      | Some ((None, gcs'), s') \<Rightarrow> Some (Inr gcs', s')
      | Some ((Some e, gcs'), s') \<Rightarrow>
          (case emit ctx (err_result (PlainErr e)) (s'\<lparr>g_errors := True\<rparr>) of
             (True, s'') \<Rightarrow> Some (Inr gcs', s'')
           | (False, s'') \<Rightarrow> Some (Inl (PlainErr ctx_err), s'')))"

record pinner =
  RecursiveKeys :: "err + cid list"
  DirectKeys :: "err + cid list"
  InternalPins :: "err + cid list"

definition ColoredSet ::
  "(nat \<Rightarrow> bool) \<Rightarrow> gstate walk \<Rightarrow> pinner \<Rightarrow> (cid \<Rightarrow> ipld_err + cid list) \<Rightarrow> cid list \<Rightarrow> gstate
    \<Rightarrow> ((gc_err + cid set) \<times> gstate) option" where
  "ColoredSet ctx walk pn ng bestEffortRoots s =
     (case RecursiveKeys pn of
        Inl e \<Rightarrow> Some (Inl (PlainErr e), s)
      | Inr rkeys \<Rightarrow>
     (case mark_roots ctx walk (colored_getLinks ctx ng) {} rkeys s of
        None \<Rightarrow> None
      | Some (Inl e, s1) \<Rightarrow> Some (Inl e, s1)
      | Some (Inr gcs1, s1) \<Rightarrow>
     (case mark_roots ctx walk (bestEffortGetLinks ctx ng) gcs1 bestEffortRoots s1 of
        None \<Rightarrow> None
      | Some (Inl e, s2) \<Rightarrow> Some (Inl e, s2)
      | Some (Inr gcs2, s2) \<Rightarrow>
     (case DirectKeys pn of
        Inl e \<Rightarrow> Some (Inl (PlainErr e), s2)
      | Inr dkeys \<Rightarrow>
     (case InternalPins pn of
        Inl e \<Rightarrow> Some (Inl (PlainErr e), s2)
      | Inr ikeys \<Rightarrow>
     (case mark_roots ctx walk (colored_getLinks ctx ng) (gcs2 \<union> set dkeys) ikeys s2 of
        None \<Rightarrow> None
      | Some (Inl e, s3) \<Rightarrow> Some (Inl e, s3)
      | Some (Inr gcs3, s3) \<Rightarrow>
          if g_errors s3 then Some (Inl ErrCannotFetchAllLinks, s3) else Some (Inr gcs3, s3)))))))"

section \<open>Sweeping\<close>

type_synonym blocks = "cid \<rightharpoonup> string"

text \<open>
  The labelled loop. \<open>errors\<close> is the local flag of \<^verbatim>\<open>GC\<close>; \<open>del_err k\<close> is what \<^verbatim>\<open>bs.DeleteBlock\<close> returns
  for \<open>k\<close>, and a deletion that returns an error leaves the block.
\<close>

fun sweep ::
  "(nat \<Rightarrow> bool) \<Rightarrow> cid set \<Rightarrow> (cid \<Rightarrow> err option) \<Rightarrow> cid list \<Rightarrow> bool \<Rightarrow> blocks \<Rightarrow> gstate
    \<Rightarrow> bool \<times> blocks \<times> gstate" where
  "sweep ctx gcs del_err keys errors bs s =
     (if ctx (g_tick s) then (errors, bs, s\<lparr>g_tick := Suc (g_tick s)\<rparr>)
      else if ctx (Suc (g_tick s)) then (errors, bs, s\<lparr>g_tick := Suc (Suc (g_tick s))\<rparr>)
      else
        (let s1 = s\<lparr>g_tick := Suc (Suc (g_tick s))\<rparr> in
         case keys of
           [] \<Rightarrow> (errors, bs, s1)
         | k # ks \<Rightarrow>
             if k \<in> gcs then sweep ctx gcs del_err ks errors bs s1
             else
               (case del_err k of
                  Some e \<Rightarrow>
                    (case emit ctx (err_result (CannotDeleteBlockError k e)) s1 of
                       (True, s2) \<Rightarrow> sweep ctx gcs del_err ks True bs s2
                     | (False, s2) \<Rightarrow> (True, bs, s2))
                | None \<Rightarrow>
                    (case emit ctx (key_result k) s1 of
                       (True, s2) \<Rightarrow> sweep ctx gcs del_err ks errors (bs(k := None)) s2
                     | (False, s2) \<Rightarrow> (errors, bs(k := None), s2)))))"

declare sweep.simps [simp del]

record gc_env =
  env_pinner :: pinner
  env_getLinks :: "cid \<Rightarrow> ipld_err + cid list"
  env_allKeys :: "err + cid list"
  env_deleteErr :: "cid \<Rightarrow> err option"
  env_gcDatastore :: "err option option"
    \<comment> \<open>\<open>None\<close>: the datastore is no \<^verbatim>\<open>GCDatastore\<close>; otherwise what \<^verbatim>\<open>CollectGarbage\<close> returns\<close>

text \<open>What is left of the goroutine after the sweep.\<close>

definition gc_finish :: "(nat \<Rightarrow> bool) \<Rightarrow> gc_env \<Rightarrow> bool \<Rightarrow> gstate \<Rightarrow> gstate" where
  "gc_finish ctx env errors s =
     (case (if errors then emit ctx (err_result ErrCannotDeleteSomeBlocks) s else (True, s)) of
        (False, s1) \<Rightarrow> s1
      | (True, s1) \<Rightarrow>
          (case env_gcDatastore env of
             Some (Some e) \<Rightarrow> snd (emit ctx (err_result (PlainErr e)) s1)
           | _ \<Rightarrow> s1))"

definition gc_init :: gstate where
  "gc_init = \<lparr>g_out = [], g_errors = False, g_tick = 0\<rparr>"

text \<open>\<^verbatim>\<open>GC\<close>: the results sent on the output channel and the blocks left in the blockstore.\<close>

definition GC ::
  "(nat \<Rightarrow> bool) \<Rightarrow> gstate walk \<Rightarrow> gc_env \<Rightarrow> cid list \<Rightarrow> blocks \<Rightarrow> (result list \<times> blocks) option" where
  "GC ctx walk env bestEffortRoots bs =
     (case ColoredSet ctx walk (env_pinner env) (env_getLinks env) bestEffortRoots gc_init of
        None \<Rightarrow> None
      | Some (Inl e, s1) \<Rightarrow> Some (g_out (snd (emit ctx (err_result e) s1)), bs)
      | Some (Inr gcs, s1) \<Rightarrow>
          (case env_allKeys env of
             Inl e \<Rightarrow> Some (g_out (snd (emit ctx (err_result (PlainErr e)) s1)), bs)
           | Inr keychan \<Rightarrow>
               (case sweep ctx gcs (env_deleteErr env) keychan False bs s1 of
                  (errors, bs', s2) \<Rightarrow> Some (g_out (gc_finish ctx env errors s2), bs'))))"

section \<open>The graph the marking phase sees\<close>

definition links_of :: "(cid \<Rightarrow> ipld_err + cid list) \<Rightarrow> cid \<Rightarrow> cid list" where
  "links_of ng c = (case ng c of Inr ls \<Rightarrow> ls | Inl _ \<Rightarrow> [])"

text \<open>A CID the marking phase can process without recording an error.\<close>

definition fetchable :: "(cid \<Rightarrow> ipld_err + cid list) \<Rightarrow> cid \<Rightarrow> bool" where
  "fetchable ng c \<longleftrightarrow> ValidateCid c = None \<and> (\<exists>ls. ng c = Inr ls)"

definition no_errors :: "gstate \<Rightarrow> bool" where
  "no_errors s \<longleftrightarrow> \<not> g_errors s"

lemma emit_g_errors [simp]: "g_errors (snd (emit ctx r s)) = g_errors s"
  by (simp add: emit_def)

lemma emit_split:
  "P (emit ctx r s) \<longleftrightarrow>
    (ctx (g_tick s) \<longrightarrow> P (False, s\<lparr>g_tick := Suc (g_tick s)\<rparr>)) \<and>
    (\<not> ctx (g_tick s) \<longrightarrow> P (True, s\<lparr>g_out := g_out s @ [r], g_tick := Suc (g_tick s)\<rparr>))"
  by (auto simp: emit_def)

lemmas link_closure_defs = verifyGetLinks_def colored_getLinks_def bestEffortGetLinks_def

lemma within_colored: "within (links_of ng) (verifyGetLinks (colored_getLinks ctx ng))"
  by (auto simp: within_def link_closure_defs links_of_def emit_def
      split: option.splits sum.splits if_splits)

lemma within_bestEffort: "within (links_of ng) (verifyGetLinks (bestEffortGetLinks ctx ng))"
  by (auto simp: within_def link_closure_defs links_of_def emit_def
      split: option.splits sum.splits if_splits ipld_err.splits)

lemma faithful_colored:
  "faithful (links_of ng) (fetchable ng) no_errors (verifyGetLinks (colored_getLinks ctx ng))"
  by (auto simp: faithful_def link_closure_defs links_of_def fetchable_def no_errors_def emit_def
      split: option.splits sum.splits if_splits)

lemma faithful_bestEffort:
  "faithful (links_of ng) (\<lambda>c. ValidateCid c = None) no_errors (verifyGetLinks (bestEffortGetLinks ctx ng))"
  by (auto simp: faithful_def link_closure_defs links_of_def no_errors_def emit_def
      split: option.splits sum.splits if_splits ipld_err.splits)

section \<open>Descendants, for any walk that keeps the promise\<close>

context dag_walk
begin

lemma walk_bad_state:
  "faithful links ok good gl \<Longrightarrow> walk gl r V s = Some ((e, V'), s') \<Longrightarrow> good s' \<Longrightarrow> good s"
  using walk_state [where P = "\<lambda>s. \<not> good s"] unfolding faithful_def by blast

lemma Descendants_grows: "Descendants walk gl V roots s = Some ((e, V'), s') \<Longrightarrow> V \<subseteq> V'"
proof (induction roots arbitrary: V s)
  case (Cons r roots)
  then show ?case
    by (auto split: option.splits prod.splits dest!: walk_grows)
qed simp

lemma Descendants_sound:
  "Descendants walk gl V roots s = Some ((e, V'), s') \<Longrightarrow> within links (verifyGetLinks gl) \<Longrightarrow> c \<in> V' \<Longrightarrow>
    c \<in> V \<or> (\<exists>r \<in> set roots. reaches links r c)"
proof (induction roots arbitrary: V s)
  case (Cons r roots)
  obtain e1 V1 s1 where w: "walk (verifyGetLinks gl) r V s = Some ((e1, V1), s1)"
    using Cons.prems(1) by (auto split: option.splits)
  note V1 = walk_sound [OF w Cons.prems(2)]
  show ?case
  proof (cases e1)
    case None
    then have "c \<in> V1 \<or> (\<exists>r \<in> set roots. reaches links r c)"
      using Cons.IH [of V1 s1] Cons.prems w by simp
    with V1 show ?thesis by auto
  next
    case (Some m)
    with Cons.prems w V1 show ?thesis by auto
  qed
qed simp

lemma Descendants_good:
  "faithful links ok good (verifyGetLinks gl) \<Longrightarrow> Descendants walk gl V roots s = Some ((e, V'), s') \<Longrightarrow>
    good s' \<Longrightarrow> good s"
proof (induction roots arbitrary: V s)
  case (Cons r roots)
  then show ?case
    by (auto split: option.splits prod.splits dest: walk_bad_state)
qed simp

lemma Descendants_complete:
  assumes "Descendants walk gl V roots s = Some ((None, V'), s')" "within links (verifyGetLinks gl)"
    "faithful links ok good (verifyGetLinks gl)" "good s'" "all_defined links" "\<forall>r \<in> set roots. Defined r"
  shows "set roots \<subseteq> V' \<and> (\<forall>c \<in> V' - V. ok c \<and> set (links c) \<subseteq> V')"
  using assms(1,6)
proof (induction roots arbitrary: V s)
  case (Cons r roots)
  obtain V1 s1 where w: "walk (verifyGetLinks gl) r V s = Some ((None, V1), s1)"
    and d: "Descendants walk gl V1 roots s1 = Some ((None, V'), s')"
    using Cons.prems(1) by (auto split: option.splits)
  have "good s1" using Descendants_good [OF assms(3) d assms(4)] .
  with walk_complete [OF w assms(2,3)] Cons.prems(2) assms(5)
  have V1: "r \<in> V1" "\<And>c. c \<in> V1 - V \<Longrightarrow> ok c \<and> set (links c) \<subseteq> V1" by auto
  have IH: "set roots \<subseteq> V'" "\<And>c. c \<in> V' - V1 \<Longrightarrow> ok c \<and> set (links c) \<subseteq> V'"
    using Cons.IH [OF d] Cons.prems(2) by auto
  have "V1 \<subseteq> V'" using Descendants_grows [OF d] .
  with V1 IH show ?case by (simp add: subset_iff) blast
qed simp

end

text \<open>The keys a pinner call delivers, none when it fails.\<close>

definition keys_of :: "err + cid list \<Rightarrow> cid set" where
  "keys_of r = (case r of Inr ks \<Rightarrow> set ks | Inl _ \<Rightarrow> {})"

lemma keys_of_simps [simp]: "keys_of (Inr ks) = set ks" "keys_of (Inl e) = {}"
  by (auto simp: keys_of_def)

text \<open>The roots whose whole sub-DAG is to be kept: recursive pins and best-effort roots.\<close>

definition gc_roots :: "pinner \<Rightarrow> cid list \<Rightarrow> cid set" where
  "gc_roots pn roots = keys_of (RecursiveKeys pn) \<union> set roots"

definition reached :: "(cid \<Rightarrow> cid list) \<Rightarrow> cid set \<Rightarrow> cid set" where
  "reached links R = {c. \<exists>r \<in> R. reaches links r c}"

definition protected :: "pinner \<Rightarrow> (cid \<Rightarrow> cid list) \<Rightarrow> cid list \<Rightarrow> cid set" where
  "protected pn links roots =
     reached links (gc_roots pn roots) \<union> keys_of (DirectKeys pn) \<union> keys_of (InternalPins pn)"

text \<open>All CIDs handed to the marking phase are defined.\<close>

definition defined_inputs :: "pinner \<Rightarrow> (cid \<Rightarrow> cid list) \<Rightarrow> cid list \<Rightarrow> bool" where
  "defined_inputs pn links roots \<longleftrightarrow>
     all_defined links \<and> Ball (gc_roots pn roots \<union> keys_of (InternalPins pn)) Defined"

lemma reachedI: "r \<in> R \<Longrightarrow> reaches links r c \<Longrightarrow> c \<in> reached links R"
  by (auto simp: reached_def)

lemma reached_subset: "R \<subseteq> V \<Longrightarrow> (\<And>c. c \<in> V \<Longrightarrow> set (links c) \<subseteq> V) \<Longrightarrow> reached links R \<subseteq> V"
  by (auto simp: reached_def intro: reaches_closed)

lemma ColoredSet_Inr:
  assumes "ColoredSet ctx walk pn ng roots s = Some (Inr gcs, s3)"
  obtains rkeys dkeys ikeys gcs1 s1 gcs2 s2 where
    "RecursiveKeys pn = Inr rkeys" "DirectKeys pn = Inr dkeys" "InternalPins pn = Inr ikeys"
    "mark_roots ctx walk (colored_getLinks ctx ng) {} rkeys s = Some (Inr gcs1, s1)"
    "mark_roots ctx walk (bestEffortGetLinks ctx ng) gcs1 roots s1 = Some (Inr gcs2, s2)"
    "mark_roots ctx walk (colored_getLinks ctx ng) (gcs2 \<union> set dkeys) ikeys s2 = Some (Inr gcs, s3)"
    "no_errors s3"
  using assms
  by (auto simp: ColoredSet_def no_errors_def split: sum.splits option.splits if_splits prod.splits)

locale gc_walk = dag_walk walk for walk :: "gstate walk"
begin

lemma mark_roots_grows: "mark_roots ctx walk gl V roots s = Some (Inr V', s') \<Longrightarrow> V \<subseteq> V'"
  by (auto simp: mark_roots_def split: option.splits prod.splits bool.splits dest: Descendants_grows)

lemma mark_roots_sound:
  "mark_roots ctx walk gl V roots s = Some (Inr V', s') \<Longrightarrow> within links (verifyGetLinks gl) \<Longrightarrow> c \<in> V' \<Longrightarrow>
    c \<in> V \<or> (\<exists>r \<in> set roots. reaches links r c)"
  by (auto simp: mark_roots_def split: option.splits prod.splits bool.splits dest: Descendants_sound)

lemma mark_roots_good:
  assumes "mark_roots ctx walk gl V roots s = Some (r, s')"
    and "faithful links ok no_errors (verifyGetLinks gl)" and "no_errors s'"
  shows "no_errors s"
proof -
  obtain e V1 s1 where d: "Descendants walk gl V roots s = Some ((e, V1), s1)"
    using assms(1) by (auto simp: mark_roots_def split: option.splits)
  have "no_errors s1"
    using assms(1,3) d by (auto simp: mark_roots_def no_errors_def emit_def split: option.splits if_splits)
  with Descendants_good [OF assms(2) d] show ?thesis .
qed

lemma mark_roots_complete:
  assumes m: "mark_roots ctx walk gl V roots s = Some (Inr V', s')" and "within links (verifyGetLinks gl)"
    "faithful links ok no_errors (verifyGetLinks gl)" "no_errors s'" "all_defined links"
    "\<forall>r \<in> set roots. Defined r"
  shows "set roots \<subseteq> V'" and "c \<in> V' - V \<Longrightarrow> ok c \<and> set (links c) \<subseteq> V'"
proof -
  have d: "Descendants walk gl V roots s = Some ((None, V'), s')"
    using m assms(4)
    by (auto simp: mark_roots_def no_errors_def emit_def split: option.splits if_splits)
  from Descendants_complete [OF d assms(2-6)]
  show "set roots \<subseteq> V'" and "c \<in> V' - V \<Longrightarrow> ok c \<and> set (links c) \<subseteq> V'" by auto
qed

text \<open>What a marked set that \<^verbatim>\<open>ColoredSet\<close> returns without error contains.\<close>

lemma ColoredSet_spec:
  assumes cs: "ColoredSet ctx walk pn ng roots s = Some (Inr gcs, s3)"
    and def: "defined_inputs pn (links_of ng) roots"
  shows "protected pn (links_of ng) roots \<subseteq> gcs"
    and "gcs \<subseteq> keys_of (DirectKeys pn) \<union> reached (links_of ng) (gc_roots pn roots \<union> keys_of (InternalPins pn))"
    and "c \<in> reached (links_of ng) (keys_of (RecursiveKeys pn)) \<Longrightarrow> fetchable ng c"
    and "keys_of (DirectKeys pn) \<inter> reached (links_of ng) (keys_of (InternalPins pn))
           \<subseteq> reached (links_of ng) (gc_roots pn roots) \<Longrightarrow>
         reached (links_of ng) (keys_of (InternalPins pn)) \<subseteq> gcs"
proof -
  obtain rkeys dkeys ikeys gcs1 s1 gcs2 s2 where
    keys: "RecursiveKeys pn = Inr rkeys" "DirectKeys pn = Inr dkeys" "InternalPins pn = Inr ikeys"
    and m1: "mark_roots ctx walk (colored_getLinks ctx ng) {} rkeys s = Some (Inr gcs1, s1)"
    and m2: "mark_roots ctx walk (bestEffortGetLinks ctx ng) gcs1 roots s1 = Some (Inr gcs2, s2)"
    and m3: "mark_roots ctx walk (colored_getLinks ctx ng) (gcs2 \<union> set dkeys) ikeys s2 = Some (Inr gcs, s3)"
    and g3: "no_errors s3"
    by (rule ColoredSet_Inr [OF cs])
  let ?L = "links_of ng"
  have g2: "no_errors s2" using mark_roots_good [OF m3 faithful_colored g3] .
  have g1: "no_errors s1" using mark_roots_good [OF m2 faithful_bestEffort g2] .
  have d: "all_defined ?L" "\<forall>r \<in> set rkeys. Defined r" "\<forall>r \<in> set roots. Defined r" "\<forall>r \<in> set ikeys. Defined r"
    using def keys by (auto simp: defined_inputs_def gc_roots_def)
  note c1 = mark_roots_complete [OF m1 within_colored faithful_colored g1 d(1,2)]
  note c2 = mark_roots_complete [OF m2 within_bestEffort faithful_bestEffort g2 d(1,3)]
  note c3 = mark_roots_complete [OF m3 within_colored faithful_colored g3 d(1,4)]
  have sub: "gcs1 \<subseteq> gcs2" "gcs2 \<union> set dkeys \<subseteq> gcs"
    using mark_roots_grows m2 m3 by blast+
  have cl1: "set (?L c) \<subseteq> gcs1" if "c \<in> gcs1" for c using c1(2) that by auto
  have cl2: "set (?L c) \<subseteq> gcs2" if "c \<in> gcs2" for c using c2(2) cl1 sub(1) that by blast
  have reach1: "reached ?L (set rkeys) \<subseteq> gcs1" by (rule reached_subset [OF c1(1) cl1])
  have reach2: "reached ?L (gc_roots pn roots) \<subseteq> gcs2"
    using c1(1) c2(1) sub keys by (intro reached_subset cl2) (auto simp: gc_roots_def)
  show "protected pn ?L roots \<subseteq> gcs"
    using reach2 sub c3(1) keys by (auto simp: protected_def)
  show "fetchable ng c" if "c \<in> reached ?L (keys_of (RecursiveKeys pn))"
    using that reach1 c1(2) keys by auto
  show "gcs \<subseteq> keys_of (DirectKeys pn) \<union> reached ?L (gc_roots pn roots \<union> keys_of (InternalPins pn))"
    using mark_roots_sound [OF m1 within_colored] mark_roots_sound [OF m2 within_bestEffort]
      mark_roots_sound [OF m3 within_colored] keys
    by (fastforce simp: gc_roots_def reached_def)
  show "reached ?L (keys_of (InternalPins pn)) \<subseteq> gcs"
    if ok: "keys_of (DirectKeys pn) \<inter> reached ?L (keys_of (InternalPins pn)) \<subseteq> reached ?L (gc_roots pn roots)"
  proof
    fix c assume "c \<in> reached ?L (keys_of (InternalPins pn))"
    then obtain i where i: "i \<in> set ikeys" and "reaches ?L i c" by (auto simp: reached_def keys)
    from this(2) show "c \<in> gcs"
    proof (induction rule: reaches.induct)
      case reaches_refl
      show ?case using c3(1) i by auto
    next
      case (reaches_step c d)
      have "c \<in> gcs2" if "c \<in> set dkeys"
        using that ok reaches_step.hyps(1) i reach2 keys by (auto simp: reached_def)
      with reaches_step c3(2) cl2 sub show ?case by blast
    qed
  qed
qed

end

section \<open>The sweep\<close>

lemma sweep_Nil:
  "sweep ctx gcs del_err [] errors bs s = (e', bs', s') \<Longrightarrow> e' = errors \<and> bs' = bs \<and> g_out s' = g_out s"
  by (subst (asm) sweep.simps) (auto simp: Let_def split: if_splits)

text \<open>A block that disappears was delivered, unmarked, and its deletion reported no error.\<close>

lemma sweep_changes:
  "sweep ctx gcs del_err keys errors bs s = (e', bs', s') \<Longrightarrow>
    bs' k = bs k \<or> bs' k = None \<and> k \<in> set keys \<and> k \<notin> gcs \<and> del_err k = None"
proof (induction keys arbitrary: errors bs s)
  case Nil
  then show ?case by (auto dest: sweep_Nil)
next
  case (Cons x keys)
  from Cons.prems show ?case
    by (subst (asm) sweep.simps)
      (auto simp: Let_def emit_def split: if_splits option.splits dest!: Cons.IH)
qed

lemma sweep_reports:
  "sweep ctx gcs del_err keys errors bs s = (e', bs', s') \<Longrightarrow> r \<in> set (g_out s') \<Longrightarrow> Error r = None \<Longrightarrow>
    r \<in> set (g_out s) \<or> (\<exists>k. r = key_result k \<and> bs' k = None \<and> k \<in> set keys \<and> k \<notin> gcs)"
proof (induction keys arbitrary: errors bs s)
  case Nil
  then show ?case by (auto dest: sweep_Nil)
next
  case (Cons x keys)
  have rec: "(b x = None \<longrightarrow> bs' x = None) \<and>
      (r \<in> set (g_out s1) \<or> (\<exists>k. r = key_result k \<and> bs' k = None \<and> k \<in> set keys \<and> k \<notin> gcs))"
    if "sweep ctx gcs del_err keys er b s1 = (e', bs', s')" for er b s1
    using sweep_changes [OF that, of x] Cons.IH [OF that Cons.prems(2,3)] by auto
  from Cons.prems show ?case
    by (subst (asm) sweep.simps)
      (auto simp: Let_def emit_def err_result_def split: if_splits option.splits
        dest!: rec)
qed

text \<open>A sweep that is never cancelled and meets no failing deletion.\<close>

lemma sweep_uncancelled:
  assumes "\<And>n. \<not> ctx n" and "\<And>k. k \<in> set keys - gcs \<Longrightarrow> del_err k = None"
  shows "\<exists>s'. sweep ctx gcs del_err keys errors bs s =
      (errors, (\<lambda>k. if k \<in> set keys - gcs then None else bs k), s') \<and>
    g_out s' = g_out s @ map key_result (filter (\<lambda>k. k \<notin> gcs) keys) \<and> g_errors s' = g_errors s"
  using assms(2)
proof (induction keys arbitrary: bs s)
  case Nil
  show ?case by (subst sweep.simps) (simp add: assms(1) Let_def)
next
  case (Cons x keys)
  have IH: "\<exists>s'. sweep ctx gcs del_err keys errors bs s =
      (errors, (\<lambda>k. if k \<in> set keys - gcs then None else bs k), s') \<and>
    g_out s' = g_out s @ map key_result (filter (\<lambda>k. k \<notin> gcs) keys) \<and> g_errors s' = g_errors s" for bs s
    using Cons.prems by (intro Cons.IH) auto
  show ?case
  proof (cases "x \<in> gcs")
    case True
    have "(\<lambda>k. if k \<in> set (x # keys) - gcs then None else bs k) = (\<lambda>k. if k \<in> set keys - gcs then None else bs k)"
      using True by auto
    with IH [of bs "s\<lparr>g_tick := Suc (Suc (g_tick s))\<rparr>"] True show ?thesis
      by (subst sweep.simps) (simp add: assms(1) Let_def)
  next
    case False
    have "(\<lambda>k. if k \<in> set (x # keys) - gcs then None else bs k) =
        (\<lambda>k. if k \<in> set keys - gcs then None else (bs(x := None)) k)"
      using False by auto
    with IH [of "bs(x := None)"
        "s\<lparr>g_out := g_out s @ [key_result x], g_tick := Suc (Suc (Suc (g_tick s)))\<rparr>"]
      False Cons.prems [of x] show ?thesis
      by (subst sweep.simps) (simp add: assms(1) Let_def emit_def)
  qed
qed

section \<open>The whole collection\<close>

lemma gc_finish_out:
  "r \<in> set (g_out (gc_finish ctx env errors s)) \<Longrightarrow> Error r = None \<Longrightarrow> r \<in> set (g_out s)"
  by (auto simp: gc_finish_def emit_def err_result_def split: if_splits option.splits)

text \<open>How a run of \<^verbatim>\<open>GC\<close> ends: marking or the key query failed and the store is untouched, or the
  sweep ran on a marked set.\<close>

lemma GC_cases:
  assumes "GC ctx walk env roots bs = Some (out, bs')"
  obtains (aborted) e s1 where
      "ColoredSet ctx walk (env_pinner env) (env_getLinks env) roots gc_init = Some (Inl e, s1)"
      "bs' = bs" "out = g_out (snd (emit ctx (err_result e) s1))"
    | (no_keys) gcs s1 e where
      "ColoredSet ctx walk (env_pinner env) (env_getLinks env) roots gc_init = Some (Inr gcs, s1)"
      "bs' = bs" "env_allKeys env = Inl e" "out = g_out (snd (emit ctx (err_result (PlainErr e)) s1))"
    | (swept) gcs s1 keychan errors s2 where
      "ColoredSet ctx walk (env_pinner env) (env_getLinks env) roots gc_init = Some (Inr gcs, s1)"
      "env_allKeys env = Inr keychan"
      "sweep ctx gcs (env_deleteErr env) keychan False bs s1 = (errors, bs', s2)"
      "out = g_out (gc_finish ctx env errors s2)"
  using assms
  by (auto simp: GC_def split: option.splits sum.splits prod.splits)

context gc_walk
begin

lemma GC_keeps:
  assumes "GC ctx walk env roots bs = Some (out, bs')"
    and "defined_inputs (env_pinner env) (links_of (env_getLinks env)) roots"
    and "k \<in> protected (env_pinner env) (links_of (env_getLinks env)) roots"
  shows "bs' k = bs k"
  using assms(1)
proof (cases rule: GC_cases)
  case (swept gcs s1 keychan errors s2)
  with ColoredSet_spec(1) [OF swept(1) assms(2)] assms(3) sweep_changes [OF swept(3), of k]
  show ?thesis by auto
qed auto

lemma GC_full_mark:
  assumes "GC ctx walk env roots bs = Some (out, bs')" and "bs' \<noteq> bs"
    and "defined_inputs (env_pinner env) (links_of (env_getLinks env)) roots"
    and "c \<in> reached (links_of (env_getLinks env)) (keys_of (RecursiveKeys (env_pinner env)))"
  shows "fetchable (env_getLinks env) c"
  using assms(1)
proof (cases rule: GC_cases)
  case (swept gcs s1 keychan errors s2)
  from ColoredSet_spec(3) [OF swept(1) assms(3,4)] show ?thesis .
qed (use assms(2) in auto)

lemma ColoredSet_reports:
  assumes "ColoredSet ctx walk pn ng roots s = Some (x, s')" and "\<forall>r \<in> set (g_out s). Error r \<noteq> None"
  shows "\<forall>r \<in> set (g_out s'). Error r \<noteq> None"
proof -
  let ?P = "\<lambda>s. \<forall>r \<in> set (g_out s). Error r \<noteq> None"
  have emitP: "?P (snd (emit ctx (err_result e) s))" if "?P s" for e s
    using that by (auto simp: emit_def err_result_def)
  have glP: "?P (snd (verifyGetLinks (colored_getLinks ctx ng) c s))"
      "?P (snd (verifyGetLinks (bestEffortGetLinks ctx ng) c s))" if "?P s" for c s
    using that emitP [of "s\<lparr>g_errors := True\<rparr>"]
    by (auto simp: link_closure_defs emit_def err_result_def
        split: option.splits sum.splits ipld_err.splits if_splits)
  have desc: "?P s'" if "Descendants walk gl V rs s = Some (r, s')" "?P s"
      "\<And>c s. ?P s \<Longrightarrow> ?P (snd (verifyGetLinks gl c s))" for gl V rs s r s'
    using that(1,2)
  proof (induction rs arbitrary: V s)
    case (Cons a rs)
    obtain e1 V1 s1 where w: "walk (verifyGetLinks gl) a V s = Some ((e1, V1), s1)"
      using Cons.prems(1) by (auto split: option.splits)
    with walk_state [where P = ?P, OF w that(3) Cons.prems(2)] Cons show ?case
      by (auto split: option.splits)
  qed simp
  have mark: "?P s'" if m: "mark_roots ctx walk gl V rs s = Some (r, s')" "?P s"
      "\<And>c s. ?P s \<Longrightarrow> ?P (snd (verifyGetLinks gl c s))" for gl V rs s r s'
  proof -
    obtain e V1 s1 where d: "Descendants walk gl V rs s = Some ((e, V1), s1)"
      using m(1) by (auto simp: mark_roots_def split: option.splits)
    have "?P s1" using desc [OF d m(2,3)] .
    with m(1) d show ?thesis
      by (auto simp: mark_roots_def emit_def err_result_def split: option.splits if_splits)
  qed
  show ?thesis
    using assms
    by (auto simp: ColoredSet_def split: sum.splits option.splits if_splits prod.splits
        dest!: mark [OF _ _ glP(1)] mark [OF _ _ glP(2)])
qed

lemma GC_reports_deleted:
  assumes gc: "GC ctx walk env roots bs = Some (out, bs')" and r: "r \<in> set out" "Error r = None"
    and def: "defined_inputs (env_pinner env) (links_of (env_getLinks env)) roots"
  shows "\<exists>k. r = key_result k \<and> bs' k = None \<and> k \<notin> protected (env_pinner env) (links_of (env_getLinks env)) roots"
proof -
  have init: "\<forall>r \<in> set (g_out gc_init). Error r \<noteq> None" by (simp add: gc_init_def)
  from gc show ?thesis
  proof (cases rule: GC_cases)
    case (aborted e s1)
    with ColoredSet_reports [OF aborted(1) init] r show ?thesis
      by (auto simp: emit_def err_result_def split: if_splits)
  next
    case (no_keys gcs s1 e)
    with ColoredSet_reports [OF no_keys(1) init] r show ?thesis
      by (auto simp: emit_def err_result_def split: if_splits)
  next
    case (swept gcs s1 keychan errors s2)
    from swept r have "r \<in> set (g_out s2)" by (auto dest: gc_finish_out)
    with sweep_reports [OF swept(3)] ColoredSet_reports [OF swept(1) init] r
      ColoredSet_spec(1) [OF swept(1) def] show ?thesis by blast
  qed
qed

lemma GC_exact:
  assumes cs: "ColoredSet ctx walk (env_pinner env) (env_getLinks env) roots gc_init = Some (Inr gcs, s1)"
    and ctx: "\<And>n. \<not> ctx n" and keys: "env_allKeys env = Inr keychan" "set keychan = dom bs"
    and del: "\<And>k. env_deleteErr env k = None"
  shows "\<exists>out. GC ctx walk env roots bs = Some (out, bs |` gcs)"
proof -
  obtain s2 where "sweep ctx gcs (env_deleteErr env) keychan False bs s1 =
      (False, (\<lambda>k. if k \<in> set keychan - gcs then None else bs k), s2)"
    using sweep_uncancelled [of ctx keychan gcs "env_deleteErr env" False bs s1] ctx del by auto
  moreover have "(\<lambda>k. if k \<in> set keychan - gcs then None else bs k) = bs |` gcs"
    using keys(2) by (auto simp: restrict_map_def fun_eq_iff domIff)
  ultimately show ?thesis using cs keys(1) by (simp add: GC_def)
qed

lemma GC_leaves_reached:
  assumes gc: "GC ctx walk env roots bs = Some (out, bs')"
    and def: "defined_inputs (env_pinner env) (links_of (env_getLinks env)) roots"
    and ctx: "\<And>n. \<not> ctx n" and ok: "\<And>r. r \<in> set out \<Longrightarrow> Error r = None"
    and keys: "env_allKeys env = Inr keychan" "set keychan = dom bs"
    and del: "\<And>k. env_deleteErr env k = None"
    and k: "bs' k \<noteq> None"
  shows "k \<in> keys_of (DirectKeys (env_pinner env)) \<union>
    reached (links_of (env_getLinks env)) (gc_roots (env_pinner env) roots \<union> keys_of (InternalPins (env_pinner env)))"
  using gc
proof (cases rule: GC_cases)
  case (aborted e s1)
  with ctx have "err_result e \<in> set out" by (simp add: emit_def)
  from ok [OF this] show ?thesis by (simp add: err_result_def)
next
  case (no_keys gcs s1 e)
  with keys show ?thesis by simp
next
  case (swept gcs s1 keychan errors s2)
  from GC_exact [OF swept(1) ctx keys del] gc have "bs' = bs |` gcs" by auto
  with k have "k \<in> gcs" by (auto simp: restrict_map_def split: if_splits)
  with ColoredSet_spec(2) [OF swept(1) def] show ?thesis by auto
qed

end

interpretation gcw: gc_walk "parallelWalk sched fuel"
  by unfold_locales

section \<open>A collection always returns\<close>

definition walkable :: "(cid \<Rightarrow> cid list) \<Rightarrow> nat \<Rightarrow> cid \<Rightarrow> bool" where
  "walkable links fuel r \<longleftrightarrow>
     finite {c. reaches links r c} \<and> walk_cost links {c. reaches links r c} + 4 < fuel"

lemma Descendants_returns:
  assumes "within links (verifyGetLinks gl)" "all_defined links"
  shows "\<forall>r \<in> set roots. Defined r \<and> walkable links fuel r \<Longrightarrow>
    \<exists>x. Descendants (parallelWalk sched fuel) gl V roots s = Some x"
proof (induction roots arbitrary: V s)
  case (Cons r roots)
  then obtain x where w: "parallelWalk sched fuel (verifyGetLinks gl) r V s = Some x"
    using parallelWalk_returns [OF assms(1,2), of r fuel sched V s] by (auto simp: walkable_def)
  obtain e V1 s1 where "x = ((e, V1), s1)" by (metis prod.exhaust)
  with w Cons show ?case by (cases e) auto
qed simp

lemma mark_roots_returns:
  assumes "within links (verifyGetLinks gl)" "all_defined links"
    "\<forall>r \<in> set roots. Defined r \<and> walkable links fuel r"
  shows "\<exists>x. mark_roots ctx (parallelWalk sched fuel) gl V roots s = Some x"
  using Descendants_returns [OF assms, of sched V s]
  by (auto simp: mark_roots_def emit_def split: option.splits)

lemma ColoredSet_returns:
  assumes def: "defined_inputs pn (links_of ng) roots"
    and fuel: "\<forall>r \<in> gc_roots pn roots \<union> keys_of (InternalPins pn). walkable (links_of ng) fuel r"
  shows "\<exists>x. ColoredSet ctx (parallelWalk sched fuel) pn ng roots s = Some x"
proof -
  let ?w = "parallelWalk sched fuel"
  have d: "all_defined (links_of ng)" using def by (simp add: defined_inputs_def)
  have all: "\<forall>r \<in> gc_roots pn roots \<union> keys_of (InternalPins pn). Defined r \<and> walkable (links_of ng) fuel r"
    using def fuel by (auto simp: defined_inputs_def)
  have strict: "mark_roots ctx ?w (colored_getLinks ctx ng) V ks s \<noteq> None"
    if "set ks \<subseteq> gc_roots pn roots \<union> keys_of (InternalPins pn)" for V ks s
  proof -
    have "\<forall>r \<in> set ks. Defined r \<and> walkable (links_of ng) fuel r" using all that by blast
    from mark_roots_returns [OF within_colored d this] show ?thesis by simp
  qed
  have best: "mark_roots ctx ?w (bestEffortGetLinks ctx ng) V roots s \<noteq> None" for V s
  proof -
    have "\<forall>r \<in> set roots. Defined r \<and> walkable (links_of ng) fuel r" using all by (auto simp: gc_roots_def)
    from mark_roots_returns [OF within_bestEffort d this] show ?thesis by simp
  qed
  have rk: "set ks \<subseteq> gc_roots pn roots \<union> keys_of (InternalPins pn)"
    if "RecursiveKeys pn = Inr ks \<or> InternalPins pn = Inr ks" for ks
    using that by (auto simp: gc_roots_def)
  have "ColoredSet ctx ?w pn ng roots s \<noteq> None"
    unfolding ColoredSet_def
    by (auto split: sum.splits option.splits prod.splits simp: strict rk best)
  then show ?thesis by auto
qed

section \<open>Properties\<close>

text \<open>A store of four blocks: \<open>A\<close> is recursively pinned and links to \<open>B\<close>, \<open>D\<close> is directly pinned, \<open>C\<close> is
  garbage.\<close>

definition ex_cid :: "char \<Rightarrow> cid" where
  "ex_cid x = CidV0 (replicate 32 x)"

lemma ex_cid_simps [simp]: "ex_cid x = ex_cid y \<longleftrightarrow> x = y" "Defined (ex_cid x)"
  by (auto simp: ex_cid_def)

definition ex_links :: "cid \<Rightarrow> ipld_err + cid list" where
  "ex_links c = (if c = ex_cid (CHR ''A'') then Inr [ex_cid (CHR ''B'')] else Inr [])"

definition ex_pinner :: pinner where
  "ex_pinner = \<lparr>RecursiveKeys = Inr [ex_cid (CHR ''A'')], DirectKeys = Inr [ex_cid (CHR ''D'')],
     InternalPins = Inr []\<rparr>"

definition ex_keys :: "cid list" where
  "ex_keys = map ex_cid ''ABCD''"

definition ex_env :: gc_env where
  "ex_env = \<lparr>env_pinner = ex_pinner, env_getLinks = ex_links, env_allKeys = Inr ex_keys,
     env_deleteErr = (\<lambda>_. None), env_gcDatastore = None\<rparr>"

definition ex_blocks :: blocks where
  "ex_blocks k = (if k \<in> set ex_keys then Some ''data'' else None)"

definition ex_sched :: "nat \<Rightarrow> choice" where
  "ex_sched n = (if even n then ChSend else ChWorker n)"

abbreviation ex_walk :: "gstate walk" where
  "ex_walk \<equiv> parallelWalk ex_sched 40"

abbreviation never :: "nat \<Rightarrow> bool" where
  "never \<equiv> \<lambda>_. False"

lemma ex_defined: "defined_inputs (env_pinner ex_env) (links_of (env_getLinks ex_env)) []"
  by (auto simp: defined_inputs_def ex_env_def ex_pinner_def gc_roots_def all_defined_def links_of_def
      ex_links_def split: if_splits)

lemma ex_reach:
  "reaches (links_of ex_links) (ex_cid (CHR ''A'')) c \<Longrightarrow> c \<in> {ex_cid (CHR ''A''), ex_cid (CHR ''B'')}"
  by (erule reaches_closed) (auto simp: links_of_def ex_links_def split: if_splits)

lemma ex_run:
  "map_option fst (GC never ex_walk ex_env [] ex_blocks) = Some [key_result (ex_cid (CHR ''C''))]"
  by code_simp

lemma ex_run_blocks:
  "map_option (\<lambda>r. map (snd r) ex_keys) (GC never ex_walk ex_env [] ex_blocks) =
    Some [Some ''data'', Some ''data'', None, Some ''data'']"
  by code_simp

lemma ex_GC: obtains bs' where
  "GC never ex_walk ex_env [] ex_blocks = Some ([key_result (ex_cid (CHR ''C''))], bs')"
  "map bs' ex_keys = [Some ''data'', Some ''data'', None, Some ''data'']"
proof -
  obtain bs' where gc: "GC never ex_walk ex_env [] ex_blocks = Some ([key_result (ex_cid (CHR ''C''))], bs')"
    using ex_run by auto
  moreover have "map bs' ex_keys = [Some ''data'', Some ''data'', None, Some ''data'']"
    using ex_run_blocks by (simp add: gc)
  ultimately show thesis by (rule that)
qed

text \<open>C1. Garbage collection never removes what it must keep. Whatever the schedule of the concurrent
  walk, wherever the run is cancelled, whichever fetches and deletions fail: a block whose CID is reached
  from a recursive pin or a best-effort root, or is directly or internally pinned, is in the store after
  the run exactly as before.\<close>

theorem GC_keeps_protected:
  assumes "GC ctx (parallelWalk sched fuel) env roots bs = Some (out, bs')"
    and "defined_inputs (env_pinner env) (links_of (env_getLinks env)) roots"
    and "k \<in> protected (env_pinner env) (links_of (env_getLinks env)) roots"
  shows "bs' k = bs k"
  using assms by (rule gcw.GC_keeps)

theorem GC_keeps_protected_witness:
  "map_option (\<lambda>r. snd r (ex_cid (CHR ''B''))) (GC never ex_walk ex_env [] ex_blocks) =
    Some (ex_blocks (ex_cid (CHR ''B'')))"
proof -
  obtain out bs' where gc: "GC never ex_walk ex_env [] ex_blocks = Some (out, bs')"
    by (rule ex_GC) auto
  have "ex_cid (CHR ''B'') \<in> protected (env_pinner ex_env) (links_of (env_getLinks ex_env)) []"
    by (auto simp: protected_def reached_def gc_roots_def ex_env_def ex_pinner_def links_of_def ex_links_def
        intro!: reaches_link)
  from GC_keeps_protected [OF gc ex_defined this] gc show ?thesis by simp
qed

text \<open>C2. Garbage is collected. When the run is not cancelled, reports no error, is shown every stored
  key and no deletion fails, then only blocks that are directly pinned or reached from a recursive pin, a
  best-effort root or an internal pin are left.\<close>

theorem GC_removes_garbage:
  assumes gc: "GC ctx (parallelWalk sched fuel) env roots bs = Some (out, bs')"
    and def: "defined_inputs (env_pinner env) (links_of (env_getLinks env)) roots"
    and ctx: "\<And>n. \<not> ctx n" and ok: "\<And>r. r \<in> set out \<Longrightarrow> Error r = None"
    and keys: "env_allKeys env = Inr keychan" "set keychan = dom bs"
    and del: "\<And>k. env_deleteErr env k = None"
    and k: "bs' k \<noteq> None"
  shows "k \<in> keys_of (DirectKeys (env_pinner env)) \<union>
    reached (links_of (env_getLinks env)) (gc_roots (env_pinner env) roots \<union> keys_of (InternalPins (env_pinner env)))"
  using assms by (rule gcw.GC_leaves_reached)

theorem GC_removes_garbage_witness:
  "map_option (\<lambda>r. snd r (ex_cid (CHR ''C''))) (GC never ex_walk ex_env [] ex_blocks) = Some None"
proof -
  obtain bs' where gc: "GC never ex_walk ex_env [] ex_blocks = Some ([key_result (ex_cid (CHR ''C''))], bs')"
    by (rule ex_GC) auto
  have "bs' (ex_cid (CHR ''C'')) = None"
  proof (rule ccontr)
    assume "bs' (ex_cid (CHR ''C'')) \<noteq> None"
    from GC_removes_garbage [OF gc ex_defined _ _ _ _ _ this, of ex_keys]
    have "ex_cid (CHR ''C'') \<in> insert (ex_cid (CHR ''D'')) {c. reaches (links_of ex_links) (ex_cid (CHR ''A'')) c}"
      by (simp add: key_result_def ex_env_def ex_pinner_def ex_blocks_def dom_def reached_def gc_roots_def)
    then show False by (auto dest: ex_reach)
  qed
  with gc show ?thesis by simp
qed

text \<open>C3. A collection deletes nothing unless marking was complete: if any block was removed then every CID
  reached from a recursive pin has an acceptable hash and its links could be read.\<close>

theorem GC_deletes_only_after_full_mark:
  assumes "GC ctx (parallelWalk sched fuel) env roots bs = Some (out, bs')" and "bs' \<noteq> bs"
    and "defined_inputs (env_pinner env) (links_of (env_getLinks env)) roots"
    and "c \<in> reached (links_of (env_getLinks env)) (keys_of (RecursiveKeys (env_pinner env)))"
  shows "fetchable (env_getLinks env) c"
  using assms by (rule gcw.GC_full_mark)

theorem GC_deletes_only_after_full_mark_witness:
  "fetchable (env_getLinks ex_env) (ex_cid (CHR ''A''))"
proof -
  obtain bs' where gc: "GC never ex_walk ex_env [] ex_blocks = Some ([key_result (ex_cid (CHR ''C''))], bs')"
    and bs': "map bs' ex_keys = [Some ''data'', Some ''data'', None, Some ''data'']"
    by (rule ex_GC)
  have "bs' (ex_cid (CHR ''C'')) = None" using bs' by (simp add: ex_keys_def)
  moreover have "ex_blocks (ex_cid (CHR ''C'')) = Some ''data''" by (simp add: ex_blocks_def ex_keys_def)
  ultimately have "bs' \<noteq> ex_blocks" by auto
  moreover have "ex_cid (CHR ''A'') \<in> reached (links_of (env_getLinks ex_env)) (keys_of (RecursiveKeys (env_pinner ex_env)))"
    by (simp add: reached_def ex_env_def ex_pinner_def reaches_refl)
  ultimately show ?thesis using GC_deletes_only_after_full_mark [OF gc _ ex_defined] by blast
qed

text \<open>C20. What a collection reports as removed is gone and was not protected: every result without an error
  names a CID whose block is no longer in the store and which no pin or root protects.\<close>

theorem GC_reports_are_true:
  assumes "GC ctx (parallelWalk sched fuel) env roots bs = Some (out, bs')" and "r \<in> set out" "Error r = None"
    and "defined_inputs (env_pinner env) (links_of (env_getLinks env)) roots"
  shows "\<exists>k. r = key_result k \<and> bs' k = None \<and>
    k \<notin> protected (env_pinner env) (links_of (env_getLinks env)) roots"
  using assms by (rule gcw.GC_reports_deleted)

theorem GC_reports_are_true_witness:
  "\<exists>k. key_result (ex_cid (CHR ''C'')) = key_result k \<and>
    k \<notin> protected (env_pinner ex_env) (links_of (env_getLinks ex_env)) []"
proof -
  obtain bs' where gc: "GC never ex_walk ex_env [] ex_blocks = Some ([key_result (ex_cid (CHR ''C''))], bs')"
    by (rule ex_GC) auto
  from GC_reports_are_true [OF gc _ _ ex_defined, of "key_result (ex_cid (CHR ''C''))"] show ?thesis
    by (auto simp: key_result_def)
qed

text \<open>C19. A collection returns: when the roots reach finitely many CIDs, a number of loop steps linear in
  the nodes and links each root reaches is enough, whatever the schedule and the context do.\<close>

theorem GC_returns:
  assumes "defined_inputs (env_pinner env) (links_of (env_getLinks env)) roots"
    and "\<forall>r \<in> gc_roots (env_pinner env) roots \<union> keys_of (InternalPins (env_pinner env)).
      walkable (links_of (env_getLinks env)) fuel r"
  shows "\<exists>out bs'. GC ctx (parallelWalk sched fuel) env roots bs = Some (out, bs')"
  using ColoredSet_returns [OF assms, of ctx sched gc_init]
  by (auto simp: GC_def split: sum.splits prod.splits)

theorem GC_returns_witness:
  "\<exists>out bs'. GC (\<lambda>n. n = 5) (parallelWalk (\<lambda>n. ChWorker n) 40) ex_env [] ex_blocks = Some (out, bs')"
proof (rule GC_returns [OF ex_defined])
  have sub: "{c. reaches (links_of ex_links) (ex_cid (CHR ''A'')) c} \<subseteq> {ex_cid (CHR ''A''), ex_cid (CHR ''B'')}"
    using ex_reach by auto
  then have "finite {c. reaches (links_of ex_links) (ex_cid (CHR ''A'')) c}"
    by (rule finite_subset) simp
  moreover have "walk_cost (links_of ex_links) {c. reaches (links_of ex_links) (ex_cid (CHR ''A'')) c} \<le>
      walk_cost (links_of ex_links) {ex_cid (CHR ''A''), ex_cid (CHR ''B'')}"
    unfolding walk_cost_def by (rule sum_mono2 [OF _ sub]) auto
  moreover have "walk_cost (links_of ex_links) {ex_cid (CHR ''A''), ex_cid (CHR ''B'')} = 10"
    by (simp add: walk_cost_def links_of_def ex_links_def)
  ultimately have "walkable (links_of ex_links) 40 (ex_cid (CHR ''A''))" by (simp add: walkable_def)
  then show "\<forall>r \<in> gc_roots (env_pinner ex_env) [] \<union> keys_of (InternalPins (env_pinner ex_env)).
      walkable (links_of (env_getLinks ex_env)) 40 r"
    by (simp add: gc_roots_def ex_env_def ex_pinner_def)
qed

text \<open>Direct pins hide internal pins. \<^verbatim>\<open>ColoredSet\<close> adds the direct pins to the set before it walks the
  internal pins, and the walk does not enter a CID that is already in the set: with \<open>A\<close> both directly and
  internally pinned, its child \<open>B\<close> is left unmarked although \<open>A\<close> is an internal pin.\<close>

lemma ColoredSet_direct_hides_internal:
  "map_option (\<lambda>r. map_sum id (\<lambda>gcs. map (\<lambda>k. k \<in> gcs) (map ex_cid ''AB'')) (fst r))
     (ColoredSet never ex_walk
        \<lparr>RecursiveKeys = Inr [], DirectKeys = Inr [ex_cid (CHR ''A'')], InternalPins = Inr [ex_cid (CHR ''A'')]\<rparr>
        ex_links [] gc_init) = Some (Inr [True, False])"
  by code_simp

end
