(* ===== verification/Block_Remove.thy ===== *)
theory Block_Remove
  imports Gc
begin

text \<open>
  Removing blocks by name (\<^verbatim>\<open>blocks/blockstoreutil/remove.go\<close>): \<^verbatim>\<open>RmBlocks\<close>, the pin filter it applies
  under the GC lock, and \<^verbatim>\<open>ProcRmOutput\<close>, which turns the results into output and an error. The result
  channel is a buffer of fixed capacity. Nobody has to read it while the goroutine runs, so a send on a
  full buffer is modelled as \<open>None\<close>: the goroutine is stuck, and it holds the GC lock. The pinner's answer,
  the failures of the blockstore and the textual form of a CID are parameters.
\<close>

section \<open>The model\<close>

datatype pin_mode = Recursive | Direct | Indirect | Internal | NotPinned | Any

record pinned =
  Key :: cid
  Mode :: pin_mode
  Via :: cid

definition is_Pinned :: "pinned \<Rightarrow> bool" where
  "is_Pinned p \<longleftrightarrow> Mode p \<noteq> NotPinned"

fun ModeToString :: "pin_mode \<Rightarrow> string" where
  "ModeToString Recursive = ''recursive''"
| "ModeToString Direct = ''direct''"
| "ModeToString Indirect = ''indirect''"
| "ModeToString Internal = ''internal''"
| "ModeToString NotPinned = ''not pinned''"
| "ModeToString Any = ''any''"

definition Pinned_String :: "(cid \<Rightarrow> string) \<Rightarrow> pinned \<Rightarrow> string" where
  "Pinned_String str p =
     (case Mode p of
        NotPinned \<Rightarrow> ''not pinned''
      | Indirect \<Rightarrow> ''pinned via '' @ str (Via p)
      | m \<Rightarrow> ''pinned: '' @ ModeToString m)"

record RemovedBlock =
  Hash :: string
  Error :: string

record RmBlocksOpts =
  Prefix :: string
  Quiet :: bool
  Force :: bool

definition bs_ErrNotFound :: string where
  "bs_ErrNotFound = ''blockstore: block not found''"

text \<open>A send on a channel of capacity \<open>cap\<close> that holds \<open>out\<close>.\<close>

definition send :: "nat \<Rightarrow> 'r \<Rightarrow> 'r list \<Rightarrow> 'r list option" where
  "send cap r out = (if length out < cap then Some (out @ [r]) else None)"

fun filter_results ::
  "(cid \<Rightarrow> string) \<Rightarrow> nat \<Rightarrow> pinned list \<Rightarrow> cid list \<Rightarrow> RemovedBlock list
    \<Rightarrow> (cid list \<times> RemovedBlock list) option" where
  "filter_results str cap [] stillOkay out = Some (stillOkay, out)"
| "filter_results str cap (r # res) stillOkay out =
     (if \<not> is_Pinned r then filter_results str cap res (stillOkay @ [Key r]) out
      else (case send cap \<lparr>Hash = str (Key r), Error = Pinned_String str r\<rparr> out of
              None \<Rightarrow> None
            | Some out' \<Rightarrow> filter_results str cap res stillOkay out'))"

definition FilterPinned ::
  "(cid \<Rightarrow> string) \<Rightarrow> (cid list \<Rightarrow> err + pinned list) \<Rightarrow> nat \<Rightarrow> cid list \<Rightarrow> RemovedBlock list
    \<Rightarrow> (cid list \<times> RemovedBlock list) option" where
  "FilterPinned str CheckIfPinned cap cids out =
     (case CheckIfPinned cids of
        Inl e \<Rightarrow>
          (case send cap \<lparr>Hash = [], Error = ''pin check failed: '' @ e\<rparr> out of
             None \<Rightarrow> None
           | Some out' \<Rightarrow> Some ([], out'))
      | Inr res \<Rightarrow> filter_results str cap res [] out)"

text \<open>What the blockstore's \<^verbatim>\<open>Has\<close> and \<^verbatim>\<open>DeleteBlock\<close> fail with, per CID.\<close>

record bs_faults =
  has_err :: "cid \<Rightarrow> err option"
  delete_err :: "cid \<Rightarrow> err option"

fun rm_loop ::
  "(cid \<Rightarrow> string) \<Rightarrow> bs_faults \<Rightarrow> RmBlocksOpts \<Rightarrow> nat \<Rightarrow> cid list \<Rightarrow> RemovedBlock list \<Rightarrow> blocks
    \<Rightarrow> (RemovedBlock list \<times> blocks) option" where
  "rm_loop str fl opts cap [] out bs = Some (out, bs)"
| "rm_loop str fl opts cap (c # cs) out bs =
     (case has_err fl c of
        Some e \<Rightarrow>
          (case send cap \<lparr>Hash = str c, Error = e\<rparr> out of
             None \<Rightarrow> None
           | Some out' \<Rightarrow> rm_loop str fl opts cap cs out' bs)
      | None \<Rightarrow>
          if bs c = None \<and> \<not> Force opts then
            (case send cap \<lparr>Hash = str c, Error = bs_ErrNotFound\<rparr> out of
               None \<Rightarrow> None
             | Some out' \<Rightarrow> rm_loop str fl opts cap cs out' bs)
          else
            (case delete_err fl c of
               Some e \<Rightarrow>
                 (case send cap \<lparr>Hash = str c, Error = e\<rparr> out of
                    None \<Rightarrow> None
                  | Some out' \<Rightarrow> rm_loop str fl opts cap cs out' bs)
             | None \<Rightarrow>
                 if \<not> Quiet opts then
                   (case send cap \<lparr>Hash = str c, Error = []\<rparr> out of
                      None \<Rightarrow> None
                    | Some out' \<Rightarrow> rm_loop str fl opts cap cs out' (bs(c := None)))
                 else rm_loop str fl opts cap cs out (bs(c := None))))"

text \<open>The results on the channel when it is closed, and the blocks left. A nil \<^verbatim>\<open>stillOkay\<close> is an empty list.\<close>

definition RmBlocks ::
  "(cid \<Rightarrow> string) \<Rightarrow> bs_faults \<Rightarrow> (cid list \<Rightarrow> err + pinned list) \<Rightarrow> cid list \<Rightarrow> RmBlocksOpts \<Rightarrow> blocks
    \<Rightarrow> (RemovedBlock list \<times> blocks) option" where
  "RmBlocks str fl CheckIfPinned cids opts bs =
     (case FilterPinned str CheckIfPinned (length cids) cids [] of
        None \<Rightarrow> None
      | Some (stillOkay, out) \<Rightarrow> rm_loop str fl opts (length cids) stillOkay out bs)"

text \<open>
  \<^verbatim>\<open>ProcRmOutput\<close> reads until \<open>next\<close> gives EOF, the end of the list here. The result: the error returned, what
  went to \<open>sout\<close> and what went to \<open>serr\<close>.
\<close>

fun ProcRmOutput ::
  "(err + RemovedBlock) list \<Rightarrow> bool \<Rightarrow> string list \<Rightarrow> string list \<Rightarrow> err option \<times> string list \<times> string list" where
  "ProcRmOutput [] someFailed sout serr =
     (if someFailed then (Some ''some blocks not removed'', sout, serr) else (None, sout, serr))"
| "ProcRmOutput (Inl e # next) someFailed sout serr = (Some e, sout, serr)"
| "ProcRmOutput (Inr r # next) someFailed sout serr =
     (if Hash r = [] \<and> Error r \<noteq> [] then (Some (''aborted: '' @ Error r), sout, serr)
      else if Error r \<noteq> [] then
        ProcRmOutput next True sout
          (serr @ [''cannot remove '' @ Hash r @ '': '' @ Error r @ [CHR 0x0A]])
      else ProcRmOutput next someFailed (sout @ [''removed '' @ Hash r @ [CHR 0x0A]]) serr)"

section \<open>Lemmas\<close>

lemma send_Some [simp]: "send cap r out = Some out' \<longleftrightarrow> length out < cap \<and> out' = out @ [r]"
  by (auto simp: send_def)

lemma send_None [simp]: "send cap r out = None \<longleftrightarrow> cap \<le> length out"
  by (auto simp: send_def)

definition pin_result :: "(cid \<Rightarrow> string) \<Rightarrow> pinned \<Rightarrow> RemovedBlock" where
  "pin_result str r = \<lparr>Hash = str (Key r), Error = Pinned_String str r\<rparr>"

text \<open>Given room for a result per entry, the filter splits the pinner's answer in two.\<close>

lemma filter_results_eq:
  "length out + length (filter is_Pinned res) \<le> cap \<Longrightarrow>
    filter_results str cap res ok out =
      Some (ok @ map Key (filter (\<lambda>r. \<not> is_Pinned r) res), out @ map (pin_result str) (filter is_Pinned res))"
  by (induction res arbitrary: ok out) (auto simp: pin_result_def split: option.splits)

lemma filter_results_okay:
  "filter_results str cap res ok out = Some (ok', out') \<Longrightarrow>
    set ok' = set ok \<union> {Key r | r. r \<in> set res \<and> \<not> is_Pinned r}"
  by (induction res arbitrary: ok out) (auto split: if_splits option.splits)

lemma FilterPinned_okay:
  "FilterPinned str chk cap cids out = Some (ok, out') \<Longrightarrow> c \<in> set ok \<Longrightarrow>
    \<exists>res r. chk cids = Inr res \<and> r \<in> set res \<and> Key r = c \<and> \<not> is_Pinned r"
  by (auto simp: FilterPinned_def dest!: filter_results_okay split: sum.splits option.splits)

lemma rm_loop_room:
  "length out + length cs \<le> cap \<Longrightarrow> \<exists>out' bs'. rm_loop str fl opts cap cs out bs = Some (out', bs')"
proof (induction cs arbitrary: out bs)
  case (Cons c cs)
  then have "length out < cap" by simp
  moreover have "length (out @ [r]) + length cs \<le> cap" "length out + length cs \<le> cap" for r
    using Cons.prems by simp_all
  note Cons.IH [OF this(1)] Cons.IH [OF this(2)]
  ultimately show ?case by (auto split: option.splits)
qed simp

lemma rm_loop_changes:
  "rm_loop str fl opts cap cs out bs = Some (out', bs') \<Longrightarrow>
    bs' k = bs k \<or> k \<in> set cs \<and> has_err fl k = None \<and> delete_err fl k = None \<and> bs' k = None"
proof (induction cs arbitrary: out bs)
  case (Cons c cs)
  show ?case
    using Cons.prems
    by (auto split: option.splits if_splits dest!: Cons.IH)
qed simp

text \<open>The outcome of one removal, in the order \<^verbatim>\<open>RmBlocks\<close> looks for it.\<close>

definition removal_error :: "bs_faults \<Rightarrow> RmBlocksOpts \<Rightarrow> blocks \<Rightarrow> cid \<Rightarrow> err option" where
  "removal_error fl opts bs c =
     (case has_err fl c of
        Some e \<Rightarrow> Some e
      | None \<Rightarrow> if bs c = None \<and> \<not> Force opts then Some bs_ErrNotFound else delete_err fl c)"

lemma rm_loop_Cons_ok:
  "removal_error fl opts bs c = None \<Longrightarrow> \<not> Quiet opts \<Longrightarrow> length out < cap \<Longrightarrow>
    rm_loop str fl opts cap (c # cs) out bs =
      rm_loop str fl opts cap cs (out @ [\<lparr>Hash = str c, Error = []\<rparr>]) (bs(c := None))"
  by (auto simp: removal_error_def split: option.splits if_splits)

lemma rm_loop_Cons_error:
  "removal_error fl opts bs c = Some e \<Longrightarrow> length out < cap \<Longrightarrow>
    rm_loop str fl opts cap (c # cs) out bs =
      rm_loop str fl opts cap cs (out @ [\<lparr>Hash = str c, Error = e\<rparr>]) bs"
  by (auto simp: removal_error_def split: option.splits if_splits)

text \<open>With distinct CIDs, room and no \<^verbatim>\<open>Quiet\<close>: one result per CID, in order, and exactly the CIDs without a
  removal error are gone.\<close>

lemma rm_loop_exact:
  assumes "\<not> Quiet opts"
  shows "distinct cs \<Longrightarrow> length out + length cs \<le> cap \<Longrightarrow>
    rm_loop str fl opts cap cs out bs =
      Some (out @ map (\<lambda>c. \<lparr>Hash = str c, Error = (case removal_error fl opts bs c of None \<Rightarrow> [] | Some e \<Rightarrow> e)\<rparr>) cs,
            \<lambda>k. if k \<in> set cs \<and> removal_error fl opts bs k = None then None else bs k)"
proof (induction cs arbitrary: out bs)
  case (Cons c cs)
  from Cons.prems have room: "length out < cap" "length (out @ [r]) + length cs \<le> cap" for r by auto
  define bs2 where "bs2 = bs(c := None)"
  have same: "removal_error fl opts bs2 k = removal_error fl opts bs k" if "k \<in> set cs" for k
    using that Cons.prems by (auto simp: bs2_def removal_error_def split: option.splits)
  show ?case
  proof (cases "removal_error fl opts bs c")
    case None
    have "rm_loop str fl opts cap (c # cs) out bs = rm_loop str fl opts cap cs (out @ [\<lparr>Hash = str c, Error = []\<rparr>]) bs2"
      unfolding bs2_def by (rule rm_loop_Cons_ok [OF None assms room(1)])
    also have "\<dots> = Some ((out @ [\<lparr>Hash = str c, Error = []\<rparr>]) @
        map (\<lambda>c. \<lparr>Hash = str c, Error = (case removal_error fl opts bs c of None \<Rightarrow> [] | Some e \<Rightarrow> e)\<rparr>) cs,
        \<lambda>k. if k \<in> set cs \<and> removal_error fl opts bs k = None then None else bs2 k)"
      using Cons.IH [of "out @ [\<lparr>Hash = str c, Error = []\<rparr>]" bs2] Cons.prems room same
      by (simp cong: conj_cong map_cong)
    finally show ?thesis using None by (auto simp: fun_eq_iff bs2_def)
  next
    case (Some e)
    with Cons.IH [of "out @ [\<lparr>Hash = str c, Error = e\<rparr>]" bs] Cons.prems room show ?thesis
      by (auto simp: rm_loop_Cons_error fun_eq_iff simp del: rm_loop.simps)
  qed
qed (auto simp: fun_eq_iff)

text \<open>What \<^verbatim>\<open>ProcRmOutput\<close> returns: an error as soon as one result is one.\<close>

lemma ProcRmOutput_ok:
  "fst (ProcRmOutput (map Inr rs) failed so se) = None \<longleftrightarrow> \<not> failed \<and> (\<forall>r \<in> set rs. Error r = [])"
  by (induction rs arbitrary: failed so se) auto

lemma ProcRmOutput_sout:
  "\<forall>r \<in> set rs. Error r = [] \<Longrightarrow>
    ProcRmOutput (map Inr rs) False so se =
      (None, so @ map (\<lambda>r. ''removed '' @ Hash r @ [CHR 0x0A]) rs, se)"
  by (induction rs arbitrary: so) auto


section \<open>Properties\<close>

text \<open>Three blocks \<open>A\<close>, \<open>B\<close>, \<open>C\<close>, of which \<open>B\<close> is pinned.\<close>

definition ex_str :: "cid \<Rightarrow> string" where
  "ex_str c = (case c of CidV0 d \<Rightarrow> take 1 d | _ \<Rightarrow> [])"

definition ex_check :: "cid list \<Rightarrow> err + pinned list" where
  "ex_check cs = Inr (map (\<lambda>c. \<lparr>Key = c, Mode = (if c = ex_cid (CHR ''B'') then Recursive else NotPinned), Via = CidUndef\<rparr>) cs)"

definition ex_faults :: bs_faults where
  "ex_faults = \<lparr>has_err = (\<lambda>_. None), delete_err = (\<lambda>_. None)\<rparr>"

definition ex_opts :: RmBlocksOpts where
  "ex_opts = \<lparr>Prefix = [], Quiet = False, Force = False\<rparr>"

lemma ex_RmBlocks:
  "\<exists>bs'. RmBlocks ex_str ex_faults ex_check (map ex_cid ''ABC'') ex_opts ex_blocks =
     Some ([\<lparr>Hash = ''B'', Error = ''pinned: recursive''\<rparr>, \<lparr>Hash = ''A'', Error = []\<rparr>, \<lparr>Hash = ''C'', Error = []\<rparr>], bs')"
proof -
  have "map_option fst (RmBlocks ex_str ex_faults ex_check (map ex_cid ''ABC'') ex_opts ex_blocks) =
     Some [\<lparr>Hash = ''B'', Error = ''pinned: recursive''\<rparr>, \<lparr>Hash = ''A'', Error = []\<rparr>, \<lparr>Hash = ''C'', Error = []\<rparr>]"
    by code_simp
  then show ?thesis by auto
qed

text \<open>C15. \<^verbatim>\<open>RmBlocks\<close> skips pinned blocks: a block that the run changed was reported not pinned by the pin check
  made under the lock, neither \<^verbatim>\<open>Has\<close> nor \<^verbatim>\<open>DeleteBlock\<close> failed for it, and it is now gone.\<close>

theorem RmBlocks_removes_only_unpinned:
  assumes "RmBlocks str fl chk cids opts bs = Some (out, bs')" and "bs' k \<noteq> bs k"
  shows "\<exists>res r. chk cids = Inr res \<and> r \<in> set res \<and> Key r = k \<and> \<not> is_Pinned r \<and>
    has_err fl k = None \<and> delete_err fl k = None \<and> bs' k = None"
proof -
  obtain ok out1 where f: "FilterPinned str chk (length cids) cids [] = Some (ok, out1)"
    and l: "rm_loop str fl opts (length cids) ok out1 bs = Some (out, bs')"
    using assms(1) by (auto simp: RmBlocks_def split: option.splits)
  from rm_loop_changes [OF l, of k] assms(2) have "k \<in> set ok" "has_err fl k = None" "delete_err fl k = None" "bs' k = None"
    by auto
  with FilterPinned_okay [OF f] show ?thesis by blast
qed

theorem RmBlocks_removes_only_unpinned_witness:
  "map_option (\<lambda>r. map (snd r) (map ex_cid ''ABC''))
     (RmBlocks ex_str ex_faults ex_check (map ex_cid ''ABC'') ex_opts ex_blocks) = Some [None, Some ''data'', None] \<and>
   \<not> is_Pinned \<lparr>Key = ex_cid (CHR ''A''), Mode = NotPinned, Via = CidUndef\<rparr>"
proof
  show run: "map_option (\<lambda>r. map (snd r) (map ex_cid ''ABC''))
     (RmBlocks ex_str ex_faults ex_check (map ex_cid ''ABC'') ex_opts ex_blocks) = Some [None, Some ''data'', None]"
    by code_simp
  obtain out bs' where r: "RmBlocks ex_str ex_faults ex_check (map ex_cid ''ABC'') ex_opts ex_blocks = Some (out, bs')"
    using ex_RmBlocks by blast
  have "bs' (ex_cid (CHR ''A'')) \<noteq> ex_blocks (ex_cid (CHR ''A''))"
    using run r by (simp add: ex_blocks_def ex_keys_def)
  from RmBlocks_removes_only_unpinned [OF r this]
  show "\<not> is_Pinned \<lparr>Key = ex_cid (CHR ''A''), Mode = NotPinned, Via = CidUndef\<rparr>"
    by (auto simp: is_Pinned_def)
qed

text \<open>C24. The channel is large enough: if the pin check answers with at most one entry per CID, or fails but at
  least one CID was given, the goroutine of \<^verbatim>\<open>RmBlocks\<close> ends without anyone reading its results, so it never
  blocks while it holds the GC lock. If the check fails and no CID was given, it blocks for ever.\<close>

theorem RmBlocks_never_blocks:
  assumes "\<And>res. chk cids = Inr res \<Longrightarrow> length res \<le> length cids"
  shows "(\<exists>out bs'. RmBlocks str fl chk cids opts bs = Some (out, bs')) \<longleftrightarrow> (cids \<noteq> [] \<or> (\<exists>res. chk cids = Inr res))"
proof (cases "chk cids")
  case (Inl e)
  then show ?thesis by (auto simp: RmBlocks_def FilterPinned_def split: option.splits)
next
  case (Inr res)
  have len: "length (filter is_Pinned res) + length (filter (\<lambda>r. \<not> is_Pinned r) res) \<le> length cids"
    using assms [OF Inr] by (simp add: sum_length_filter_compl)
  then have "FilterPinned str chk (length cids) cids [] =
      Some (map Key (filter (\<lambda>r. \<not> is_Pinned r) res), map (pin_result str) (filter is_Pinned res))"
    using Inr by (simp add: FilterPinned_def filter_results_eq)
  moreover have "\<exists>out' bs'. rm_loop str fl opts (length cids) (map Key (filter (\<lambda>r. \<not> is_Pinned r) res))
      (map (pin_result str) (filter is_Pinned res)) bs = Some (out', bs')"
    by (rule rm_loop_room) (use len in simp)
  ultimately show ?thesis using Inr by (auto simp: RmBlocks_def)
qed

theorem RmBlocks_never_blocks_witness:
  "(\<exists>out bs'. RmBlocks ex_str ex_faults ex_check (map ex_cid ''ABC'') ex_opts ex_blocks = Some (out, bs')) \<and>
   \<not> (\<exists>out bs'. RmBlocks ex_str ex_faults (\<lambda>_. Inl ''closed'') [] ex_opts ex_blocks = Some (out, bs'))"
  using RmBlocks_never_blocks [of ex_check "map ex_cid ''ABC''" ex_str ex_faults ex_opts ex_blocks]
    RmBlocks_never_blocks [of "\<lambda>_. Inl ''closed''" "[]" ex_str ex_faults ex_opts ex_blocks]
  by (simp add: ex_check_def)

text \<open>Success means removed: for distinct, unpinned CIDs and without \<^verbatim>\<open>Quiet\<close>, \<^verbatim>\<open>ProcRmOutput\<close> applied to the
  results of \<^verbatim>\<open>RmBlocks\<close> returns no error exactly when no removal failed, and then it has printed one line per
  CID, in order, and the blocks left are the others.\<close>

lemma RmBlocks_ProcRmOutput:
  assumes chk: "chk cids = Inr res" "map Key res = cids" "\<forall>r \<in> set res. \<not> is_Pinned r"
    and "distinct cids" "\<not> Quiet opts" and err: "\<And>c. has_err fl c \<noteq> Some []" "\<And>c. delete_err fl c \<noteq> Some []"
  shows "\<exists>out bs'. RmBlocks str fl chk cids opts bs = Some (out, bs') \<and>
    (fst (ProcRmOutput (map Inr out) False [] []) = None \<longleftrightarrow> (\<forall>c \<in> set cids. removal_error fl opts bs c = None)) \<and>
    ((\<forall>c \<in> set cids. removal_error fl opts bs c = None) \<longrightarrow>
       ProcRmOutput (map Inr out) False [] [] = (None, map (\<lambda>c. ''removed '' @ str c @ [CHR 0x0A]) cids, []) \<and>
       bs' = bs |` (- set cids))"
proof -
  have un: "filter is_Pinned res = []" "filter (\<lambda>r. \<not> is_Pinned r) res = res"
    using chk(3) by (auto simp: filter_empty_conv filter_id_conv)
  let ?out = "map (\<lambda>c. \<lparr>Hash = str c, Error = (case removal_error fl opts bs c of None \<Rightarrow> [] | Some e \<Rightarrow> e)\<rparr>) cids"
  let ?bs = "\<lambda>k. if k \<in> set cids \<and> removal_error fl opts bs k = None then None else bs k"
  have run: "RmBlocks str fl chk cids opts bs = Some (?out, ?bs)"
    using chk un assms(4,5) by (simp add: RmBlocks_def FilterPinned_def filter_results_eq rm_loop_exact)
  have ne: "removal_error fl opts bs c \<noteq> Some []" for c
    using err [of c] by (auto simp: removal_error_def bs_ErrNotFound_def split: option.splits)
  have ok: "(\<forall>r \<in> set ?out. Error r = []) \<longleftrightarrow> (\<forall>c \<in> set cids. removal_error fl opts bs c = None)"
    using ne by (auto split: option.splits) (metis not_None_eq)
  moreover have "?bs = bs |` (- set cids)" if "\<forall>c \<in> set cids. removal_error fl opts bs c = None"
    using that by (auto simp: restrict_map_def)
  moreover have "map (\<lambda>r. ''removed '' @ Hash r @ [CHR 0x0A]) ?out = map (\<lambda>c. ''removed '' @ str c @ [CHR 0x0A]) cids"
    by simp
  ultimately show ?thesis
    using run ProcRmOutput_ok [of ?out False "[]" "[]"] ProcRmOutput_sout [of ?out "[]" "[]"] by auto
qed

lemma RmBlocks_ProcRmOutput_witness:
  "\<exists>out bs'. RmBlocks ex_str ex_faults ex_check (map ex_cid ''AC'') ex_opts ex_blocks = Some (out, bs') \<and>
    ProcRmOutput (map Inr out) False [] [] = (None, [''removed A\<newline>'', ''removed C\<newline>''], []) \<and>
    bs' = ex_blocks |` (- {ex_cid (CHR ''A''), ex_cid (CHR ''C'')})"
  using RmBlocks_ProcRmOutput [of ex_check "map ex_cid ''AC''"
      "map (\<lambda>c. \<lparr>Key = c, Mode = NotPinned, Via = CidUndef\<rparr>) (map ex_cid ''AC'')" ex_opts ex_faults ex_str ex_blocks]
  by (auto simp: ex_check_def ex_opts_def ex_faults_def is_Pinned_def removal_error_def ex_blocks_def ex_keys_def
      ex_str_def ex_cid_def)

end
