(* ===== verification/Corerepo_Gc.thy ===== *)
theory Corerepo_Gc
  imports Gc "HOL-Library.Word"
begin

text \<open>
  The node's garbage collection policy (\<^verbatim>\<open>core/corerepo/gc.go\<close>): how the limits are computed from the
  configuration, when a collection is started, and how its results become one error. Sizes are
  \<^verbatim>\<open>uint64\<close> and kept at that width. The parsers of sizes and durations, the storage usage of the repository
  and the root of the mutable file system are parameters.
\<close>

section \<open>Limits\<close>

record gc_cfg =
  StorageMax :: string
  StorageGCWatermark :: "64 word"  \<comment> \<open>an \<^verbatim>\<open>int64\<close>, by its bits\<close>
  GCPeriod :: string

record gc_limits =
  lim_StorageMax :: "64 word"
  lim_StorageGC :: "64 word"
  lim_SlackGB :: "64 word"

text \<open>The repository as this component uses it: the configuration, the outcome of writing a key, the size
  parser.\<close>

record gc_repo =
  repo_Config :: "err + gc_cfg"
  repo_SetConfigKey :: "string \<Rightarrow> err option"
  repo_ParseBytes :: "string \<Rightarrow> err + 64 word"
  repo_ParseDuration :: "string \<Rightarrow> err + 64 word"

definition limits :: "64 word \<Rightarrow> 64 word \<Rightarrow> gc_limits" where
  "limits storageMax watermark =
     (let storageGC = storageMax * watermark div 100;
          slackGB = (storageMax - storageGC) div 10000000000
      in \<lparr>lim_StorageMax = storageMax, lim_StorageGC = storageGC,
          lim_SlackGB = (if slackGB < 1 then 1 else slackGB)\<rparr>)"

definition default_storageMax :: "gc_repo \<Rightarrow> gc_cfg \<Rightarrow> err + gc_cfg" where
  "default_storageMax r cfg =
     (if StorageMax cfg = [] then
        (case repo_SetConfigKey r ''Datastore.StorageMax'' of
           Some e \<Rightarrow> Inl e
         | None \<Rightarrow> Inr (cfg\<lparr>StorageMax := ''10GB''\<rparr>))
      else Inr cfg)"

definition default_watermark :: "gc_repo \<Rightarrow> gc_cfg \<Rightarrow> err + gc_cfg" where
  "default_watermark r cfg =
     (if StorageGCWatermark cfg = 0 then
        (case repo_SetConfigKey r ''Datastore.StorageGCWatermark'' of
           Some e \<Rightarrow> Inl e
         | None \<Rightarrow> Inr (cfg\<lparr>StorageGCWatermark := 90\<rparr>))
      else Inr cfg)"

definition NewGC :: "gc_repo \<Rightarrow> err + gc_limits" where
  "NewGC r =
     bind_res (repo_Config r) (\<lambda>cfg.
     bind_res (default_storageMax r cfg) (\<lambda>cfg.
     bind_res (default_watermark r cfg) (\<lambda>cfg.
     bind_res (repo_ParseBytes r (StorageMax cfg)) (\<lambda>storageMax.
       Inr (limits storageMax (StorageGCWatermark cfg))))))"

section \<open>Collecting results\<close>

datatype collect_err = One gc_err | MultiError "gc_err list" gc_err

text \<open>\<^verbatim>\<open>NewMultiError\<close>; it panics on no error at all (\<open>None\<close>).\<close>

definition NewMultiError :: "gc_err list \<Rightarrow> collect_err option" where
  "NewMultiError errs = (if errs = [] then None else Some (MultiError (butlast errs) (last errs)))"

text \<open>The loop of \<^verbatim>\<open>CollectResult\<close>: the errors, and the CIDs passed to the callback when there is one. The
  \<open>n\<close>-th \<^verbatim>\<open>select\<close> takes the context's case exactly when \<open>ctx n\<close> holds.\<close>

fun collect_loop ::
  "(nat \<Rightarrow> bool) \<Rightarrow> nat \<Rightarrow> result list \<Rightarrow> bool \<Rightarrow> gc_err list \<Rightarrow> cid list \<Rightarrow> gc_err list \<times> cid list" where
  "collect_loop ctx n [] cb errors removed =
     (if ctx n then (errors @ [PlainErr ctx_err], removed) else (errors, removed))"
| "collect_loop ctx n (res # gcOut) cb errors removed =
     (if ctx n then (errors @ [PlainErr ctx_err], removed)
      else (case Error res of
              Some e \<Rightarrow> collect_loop ctx (Suc n) gcOut cb (errors @ [e]) removed
            | None \<Rightarrow>
                collect_loop ctx (Suc n) gcOut cb errors
                  (if Defined (KeyRemoved res) \<and> cb then removed @ [KeyRemoved res] else removed)))"

definition CollectResult :: "(nat \<Rightarrow> bool) \<Rightarrow> result list \<Rightarrow> bool \<Rightarrow> collect_err option \<times> cid list" where
  "CollectResult ctx gcOut cb =
     (case collect_loop ctx 0 gcOut cb [] [] of
        ([], removed) \<Rightarrow> (None, removed)
      | ([e], removed) \<Rightarrow> (Some (One e), removed)
      | (errors, removed) \<Rightarrow> (NewMultiError errors, removed))"

text \<open>The texts of the errors (\<^verbatim>\<open>Error()\<close> of each error type).\<close>

fun ipld_msg :: "ipld_err \<Rightarrow> string" where
  "ipld_msg IpldErrNotFound = ''ipld: node not found''"
| "ipld_msg (IpldErr m) = m"

fun gc_err_msg :: "(cid \<Rightarrow> string) \<Rightarrow> gc_err \<Rightarrow> string" where
  "gc_err_msg str ErrCannotFetchAllLinks = ''garbage collection aborted: could not retrieve some links''"
| "gc_err_msg str ErrCannotDeleteSomeBlocks = ''garbage collection incomplete: could not delete some blocks''"
| "gc_err_msg str (CannotFetchLinksError k e) = ''could not retrieve links for '' @ str k @ '': '' @ ipld_msg e"
| "gc_err_msg str (CannotDeleteBlockError k e) = ''could not remove '' @ str k @ '': '' @ e"
| "gc_err_msg str (PlainErr e) = e"

fun collect_err_msg :: "(cid \<Rightarrow> string) \<Rightarrow> collect_err \<Rightarrow> string" where
  "collect_err_msg str (One e) = gc_err_msg str e"
| "collect_err_msg str (MultiError errs summary) =
     concat (map (\<lambda>e. gc_err_msg str e @ ''; '') errs) @ gc_err_msg str summary"

section \<open>Starting a collection\<close>

text \<open>
  The node at the time of a collection: its repository, the root of the mutable file system, what the collector
  finds in its environment for a given store (the pins among it), the storage usage, and the schedule and the
  fuel of the walks of that collection. Every collection has its own context oracle.
\<close>

record gc_node =
  nd_repo :: gc_repo
  nd_filesRoot :: "err + cid"
  nd_env :: "blocks \<Rightarrow> gc_env"
  nd_usage :: "blocks \<Rightarrow> err + 64 word"
  nd_sched :: "nat \<Rightarrow> choice"
  nd_fuel :: nat

abbreviation nd_walk :: "gc_node \<Rightarrow> gstate walk" where
  "nd_walk nd \<equiv> parallelWalk (nd_sched nd) (nd_fuel nd)"

definition BestEffortRoots :: "gc_node \<Rightarrow> err + cid list" where
  "BestEffortRoots nd = bind_res (nd_filesRoot nd) (\<lambda>c. Inr [c])"

definition GarbageCollect ::
  "(nat \<Rightarrow> bool) \<Rightarrow> (nat \<Rightarrow> bool) \<Rightarrow> gc_node \<Rightarrow> blocks \<Rightarrow> (collect_err option \<times> blocks) option" where
  "GarbageCollect ctx ctx' nd bs =
     (case BestEffortRoots nd of
        Inl e \<Rightarrow> Some (Some (One (PlainErr e)), bs)
      | Inr roots \<Rightarrow>
          (case GC ctx (nd_walk nd) (nd_env nd bs) roots bs of
             None \<Rightarrow> None
           | Some (out, bs') \<Rightarrow> Some (fst (CollectResult ctx' out False), bs')))"

text \<open>
  \<^verbatim>\<open>GarbageCollectAsync\<close> returns a channel. When the roots cannot be read it sends the error on a channel
  without a buffer that nobody else has yet, a send no receiver can meet: it does not return.
\<close>

datatype 'a call = Returns 'a | BlocksForever

definition GarbageCollectAsync ::
  "(nat \<Rightarrow> bool) \<Rightarrow> gc_node \<Rightarrow> blocks \<Rightarrow> (result list \<times> blocks) option call" where
  "GarbageCollectAsync ctx nd bs =
     (case BestEffortRoots nd of
        Inl e \<Rightarrow> BlocksForever
      | Inr roots \<Rightarrow> Returns (GC ctx (nd_walk nd) (nd_env nd bs) roots bs))"

definition maybeGC ::
  "(nat \<Rightarrow> bool) \<Rightarrow> (nat \<Rightarrow> bool) \<Rightarrow> gc_node \<Rightarrow> gc_limits \<Rightarrow> 64 word \<Rightarrow> blocks
    \<Rightarrow> (collect_err option \<times> blocks) option" where
  "maybeGC ctx ctx' nd gc offset bs =
     (case nd_usage nd bs of
        Inl e \<Rightarrow> Some (Some (One (PlainErr e)), bs)
      | Inr storage \<Rightarrow>
          if storage + offset > lim_StorageGC gc then GarbageCollect ctx ctx' nd bs
          else Some (None, bs))"

definition ConditionalGC ::
  "(nat \<Rightarrow> bool) \<Rightarrow> (nat \<Rightarrow> bool) \<Rightarrow> gc_node \<Rightarrow> 64 word \<Rightarrow> blocks \<Rightarrow> (collect_err option \<times> blocks) option" where
  "ConditionalGC ctx ctx' nd offset bs =
     (case NewGC (nd_repo nd) of
        Inl e \<Rightarrow> Some (Some (One (PlainErr e)), bs)
      | Inr gc \<Rightarrow> maybeGC ctx ctx' nd gc offset bs)"

text \<open>
  The loop of \<^verbatim>\<open>PeriodicGC\<close>: each \<open>Tick\<close> is a period that has passed, with the contexts of the collection it may
  start, the node as it is then (its pins, the root of the mutable file system and the usage are read anew for each
  round; only the limits are those of the start) and the store as the rest of the node left it (\<open>f\<close>, applied to
  the store after the last round); \<open>Done\<close> is the end of the context. The errors of the rounds are logged; they are
  the result here, with the store. A list that ends without \<open>Done\<close> is a run still going on.
\<close>

datatype gc_event = Done | Tick "nat \<Rightarrow> bool" "nat \<Rightarrow> bool" gc_node "blocks \<Rightarrow> blocks"

fun periodic_loop ::
  "gc_limits \<Rightarrow> gc_event list \<Rightarrow> collect_err list \<Rightarrow> blocks \<Rightarrow> (collect_err list \<times> blocks) option" where
  "periodic_loop gc [] log bs = Some (log, bs)"
| "periodic_loop gc (Done # evs) log bs = Some (log, bs)"
| "periodic_loop gc (Tick ctx ctx' nd f # evs) log bs =
     (case maybeGC ctx ctx' nd gc 0 (f bs) of
        None \<Rightarrow> None
      | Some (Some e, bs') \<Rightarrow> periodic_loop gc evs (log @ [e]) bs'
      | Some (None, bs') \<Rightarrow> periodic_loop gc evs log bs')"

definition PeriodicGC ::
  "gc_node \<Rightarrow> gc_event list \<Rightarrow> blocks \<Rightarrow> err + (collect_err list \<times> blocks) option" where
  "PeriodicGC nd evs bs =
     bind_res (repo_Config (nd_repo nd)) (\<lambda>cfg.
       bind_res (repo_ParseDuration (nd_repo nd) (if GCPeriod cfg = [] then ''1h'' else GCPeriod cfg)) (\<lambda>period.
         if period = 0 then Inr (Some ([], bs))
         else bind_res (NewGC (nd_repo nd)) (\<lambda>gc. Inr (periodic_loop gc evs [] bs))))"

section \<open>Lemmas\<close>

text \<open>The limits as numbers, where the product fits the width.\<close>

lemma limits_StorageGC:
  assumes "unat sm * unat wm < 2 ^ 64"
  shows "unat (lim_StorageGC (limits sm wm)) = unat sm * unat wm div 100"
  using assms by (simp add: limits_def Let_def unat_div unat_word_ariths)

lemma limits_le:
  assumes "unat sm * unat wm < 2 ^ 64" "wm \<le> 100"
  shows "lim_StorageGC (limits sm wm) \<le> sm"
proof -
  have "unat wm \<le> 100" using assms(2) by (simp add: word_le_nat_alt)
  then have "unat sm * unat wm div 100 \<le> unat sm * 100 div 100"
    by (intro div_le_mono mult_le_mono) auto
  then show ?thesis by (simp add: word_le_nat_alt limits_StorageGC [OF assms(1)])
qed

text \<open>The errors that the loop gathers, and what it passes to the callback.\<close>

lemma collect_loop_uncancelled:
  "(\<And>n. \<not> ctx n) \<Longrightarrow>
    collect_loop ctx n out cb errs rm =
      (errs @ List.map_filter Error out,
       rm @ (if cb then map KeyRemoved (filter (\<lambda>r. Error r = None \<and> Defined (KeyRemoved r)) out) else []))"
  by (induction out arbitrary: n errs rm) (auto simp: map_filter_def split: option.splits)

lemma collect_loop_no_errors:
  "fst (collect_loop ctx n out cb errs rm) = [] \<longleftrightarrow>
    errs = [] \<and> (\<forall>r \<in> set out. Error r = None) \<and> (\<forall>i \<le> length out. \<not> ctx (n + i))"
proof (induction out arbitrary: n errs rm)
  case (Cons res out)
  have shift: "(\<forall>i \<le> length (res # out). \<not> ctx (n + i)) \<longleftrightarrow> \<not> ctx n \<and> (\<forall>i \<le> length out. \<not> ctx (Suc n + i))"
    by (simp add: All_less_Suc2 flip: less_Suc_eq_le)
  show ?case unfolding shift by (cases "Error res") (simp_all add: Cons.IH)
qed auto

lemma CollectResult_None:
  "fst (CollectResult ctx out cb) = None \<longleftrightarrow>
    (\<forall>r \<in> set out. Error r = None) \<and> (\<forall>i \<le> length out. \<not> ctx i)"
proof -
  obtain errs rm where l: "collect_loop ctx 0 out cb [] [] = (errs, rm)" by fastforce
  have "fst (CollectResult ctx out cb) = None \<longleftrightarrow> errs = []"
    by (auto simp: CollectResult_def l NewMultiError_def split: list.splits)
  with collect_loop_no_errors [of ctx 0 out cb "[]" "[]"] l show ?thesis by simp
qed


text \<open>A store the collector has to keep \<open>k\<close> in: its environment there hands the marking phase defined CIDs and
  protects \<open>k\<close>.\<close>

definition node_protects :: "gc_node \<Rightarrow> blocks \<Rightarrow> cid \<Rightarrow> bool" where
  "node_protects nd bs k \<longleftrightarrow>
     (\<forall>roots. BestEffortRoots nd = Inr roots \<longrightarrow>
        (let env = nd_env nd bs; links = links_of (env_getLinks env) in
         defined_inputs (env_pinner env) links roots \<and> k \<in> protected (env_pinner env) links roots))"

lemma GarbageCollect_keeps:
  assumes "GarbageCollect ctx ctx' nd bs = Some (e, bs')" and "node_protects nd bs k"
  shows "bs' k = bs k"
proof (cases "BestEffortRoots nd")
  case (Inr roots)
  with assms obtain out where gc: "GC ctx (nd_walk nd) (nd_env nd bs) roots bs = Some (out, bs')"
    by (auto simp: GarbageCollect_def split: option.splits)
  from Inr assms(2) have "defined_inputs (env_pinner (nd_env nd bs)) (links_of (env_getLinks (nd_env nd bs))) roots"
    "k \<in> protected (env_pinner (nd_env nd bs)) (links_of (env_getLinks (nd_env nd bs))) roots"
    by (simp_all add: node_protects_def Let_def)
  with gc show ?thesis by (rule gcw.GC_keeps)
qed (use assms(1) in \<open>simp add: GarbageCollect_def\<close>)

text \<open>When \<^verbatim>\<open>maybeGC\<close> starts a collection.\<close>

definition over_limit :: "gc_node \<Rightarrow> gc_limits \<Rightarrow> 64 word \<Rightarrow> blocks \<Rightarrow> bool" where
  "over_limit nd gc offset bs = (case nd_usage nd bs of Inl _ \<Rightarrow> False | Inr storage \<Rightarrow> storage + offset > lim_StorageGC gc)"

lemma maybeGC_keeps:
  assumes "maybeGC ctx ctx' nd gc offset bs = Some (e, bs')" and "over_limit nd gc offset bs \<Longrightarrow> node_protects nd bs k"
  shows "bs' k = bs k"
  using assms GarbageCollect_keeps by (auto simp: maybeGC_def over_limit_def split: sum.splits if_splits)

text \<open>Along a run: between the rounds the node leaves \<open>k\<close> alone, and in each round that collects, \<open>k\<close> is protected
  by what the node has then, in the store that the collection finds.\<close>

fun kept_between :: "gc_limits \<Rightarrow> cid \<Rightarrow> gc_event list \<Rightarrow> blocks \<Rightarrow> bool" where
  "kept_between gc k [] bs = True"
| "kept_between gc k (Done # evs) bs = True"
| "kept_between gc k (Tick ctx ctx' nd f # evs) bs =
     (f bs k = bs k \<and> (over_limit nd gc 0 (f bs) \<longrightarrow> node_protects nd (f bs) k)
      \<and> (case maybeGC ctx ctx' nd gc 0 (f bs) of None \<Rightarrow> True | Some (_, bs') \<Rightarrow> kept_between gc k evs bs'))"

lemma periodic_loop_keeps:
  "kept_between gc k evs bs \<Longrightarrow> periodic_loop gc evs log bs = Some (log', bs') \<Longrightarrow> bs' k = bs k"
proof (induction gc evs log bs rule: periodic_loop.induct)
  case (3 gc ctx ctx' nd f evs log bs)
  obtain e bs1 where m: "maybeGC ctx ctx' nd gc 0 (f bs) = Some (e, bs1)"
    using "3.prems"(2) by (auto split: option.splits)
  have "bs1 k = bs k" using maybeGC_keeps [OF m, of k] "3.prems"(1) by simp
  then show ?case using 3 m by (cases e) auto
qed auto

section \<open>Properties\<close>

definition ex_repo :: gc_repo where
  "ex_repo = \<lparr>repo_Config = Inr \<lparr>StorageMax = [], StorageGCWatermark = 0, GCPeriod = []\<rparr>,
     repo_SetConfigKey = (\<lambda>_. None), repo_ParseBytes = (\<lambda>_. Inr 100000000000), repo_ParseDuration = (\<lambda>_. Inr 1)\<rparr>"

definition ex_node :: gc_node where
  "ex_node = \<lparr>nd_repo = ex_repo, nd_filesRoot = Inr (ex_cid (CHR ''B'')), nd_env = (\<lambda>_. ex_env),
     nd_usage = (\<lambda>_. Inr 95000000000), nd_sched = ex_sched, nd_fuel = 40\<rparr>"

lemma ex_node_roots [simp]: "BestEffortRoots ex_node = Inr [ex_cid (CHR ''B'')]"
  by (simp add: BestEffortRoots_def ex_node_def)


lemma ex_node_env [simp]: "nd_env ex_node bs = ex_env"
  by (simp add: ex_node_def)

lemma ex_node_defined:
  "defined_inputs (env_pinner ex_env) (links_of (env_getLinks ex_env)) [ex_cid (CHR ''B'')]"
  using ex_defined by (simp add: defined_inputs_def gc_roots_def)

lemma ex_node_protects: "node_protects ex_node bs (ex_cid (CHR ''D''))"
  using ex_node_defined
  by (simp add: node_protects_def protected_def) (simp add: ex_env_def ex_pinner_def)

text \<open>The limits are right where they fit: with a watermark of at most 100 percent whose product with the
  maximum fits 64 bits, \<^verbatim>\<open>NewGC\<close> sets the collection threshold to that percentage of the maximum, rounded
  down and never above it, and the slack to the difference in units of ten gigabytes, at least 1. The
  defaults are 10GB and 90 percent.\<close>

lemma NewGC_limits:
  assumes "NewGC r = Inr gc" and "repo_Config r = Inr cfg"
    and "wm = (if StorageGCWatermark cfg = 0 then 90 else StorageGCWatermark cfg)" "wm \<le> 100"
    and "repo_ParseBytes r (if StorageMax cfg = [] then ''10GB'' else StorageMax cfg) = Inr sm"
    and fit: "unat sm * unat wm < 2 ^ 64"
  shows "lim_StorageMax gc = sm \<and> unat (lim_StorageGC gc) = unat sm * unat wm div 100 \<and>
    lim_StorageGC gc \<le> sm \<and>
    unat (lim_SlackGB gc) = max 1 ((unat sm - unat sm * unat wm div 100) div 10000000000)"
proof -
  have gc: "gc = limits sm wm"
    using assms(1-3,5)
    by (auto simp: NewGC_def default_storageMax_def default_watermark_def split: if_splits option.splits)
  note le = limits_le [OF fit assms(4)]
  have "unat (sm - lim_StorageGC (limits sm wm)) = unat sm - unat sm * unat wm div 100"
    using le by (simp add: unat_sub limits_StorageGC [OF fit])
  moreover have "lim_SlackGB (limits sm wm) =
      (let q = (sm - lim_StorageGC (limits sm wm)) div 10000000000 in if q < 1 then 1 else q)"
    by (simp add: limits_def Let_def)
  ultimately have "unat (lim_SlackGB (limits sm wm)) = max 1 ((unat sm - unat sm * unat wm div 100) div 10000000000)"
    by (auto simp: Let_def unat_div word_less_nat_alt)
  moreover have "lim_StorageMax (limits sm wm) = sm" by (simp add: limits_def Let_def)
  ultimately show ?thesis using gc le limits_StorageGC [OF fit] by simp
qed

lemma NewGC_limits_witness:
  "map_sum id (\<lambda>gc. (unat (lim_StorageGC gc), unat (lim_SlackGB gc))) (NewGC ex_repo) = Inr (90000000000, 1)"
proof -
  obtain gc where gc: "NewGC ex_repo = Inr gc"
    by (simp add: NewGC_def default_storageMax_def default_watermark_def ex_repo_def)
  from NewGC_limits [OF this, of _ 90 100000000000] gc show ?thesis by (simp add: ex_repo_def)
qed

text \<open>A successful collection collected everything: if \<^verbatim>\<open>GarbageCollect\<close> returns no error, was not cancelled
  and was shown every stored key, and no deletion fails, then the store is left with directly pinned blocks and
  blocks reached from the recursive and internal pins and the root of the mutable file system only.\<close>

lemma GarbageCollect_success:
  assumes "GarbageCollect ctx ctx' nd bs = Some (None, bs')"
    and "env = nd_env nd bs" "links = links_of (env_getLinks env)"
    and "\<And>roots. BestEffortRoots nd = Inr roots \<Longrightarrow> defined_inputs (env_pinner env) links roots"
    and "\<And>n. \<not> ctx n" "env_allKeys env = Inr keychan" "set keychan = dom bs" "\<And>k. env_deleteErr env k = None"
    and "bs' k \<noteq> None"
  shows "\<exists>mfs. nd_filesRoot nd = Inr mfs \<and>
    k \<in> keys_of (DirectKeys (env_pinner env)) \<union>
      reached links (insert mfs (keys_of (RecursiveKeys (env_pinner env)) \<union> keys_of (InternalPins (env_pinner env))))"
proof -
  obtain mfs out where root: "BestEffortRoots nd = Inr [mfs]" "nd_filesRoot nd = Inr mfs"
    and gc: "GC ctx (nd_walk nd) env [mfs] bs = Some (out, bs')"
    and cr: "fst (CollectResult ctx' out False) = None"
    using assms(1-2) by (auto simp: GarbageCollect_def BestEffortRoots_def split: sum.splits option.splits)
  have ok: "Error r = None" if "r \<in> set out" for r
    using cr that by (simp add: CollectResult_None)
  from gcw.GC_leaves_reached [OF gc assms(4) [OF root(1), unfolded assms(3)] assms(5) ok assms(6-9)]
  have "k \<in> keys_of (DirectKeys (env_pinner env)) \<union>
      reached links (gc_roots (env_pinner env) [mfs] \<union> keys_of (InternalPins (env_pinner env)))"
    using assms(3) by simp
  moreover have "gc_roots (env_pinner env) [mfs] \<union> keys_of (InternalPins (env_pinner env)) =
      insert mfs (keys_of (RecursiveKeys (env_pinner env)) \<union> keys_of (InternalPins (env_pinner env)))"
    by (auto simp: gc_roots_def)
  ultimately show ?thesis using root(2) by simp
qed

lemma GarbageCollect_success_witness:
  "map_option (\<lambda>r. (fst r, snd r (ex_cid (CHR ''C'')))) (GarbageCollect never never ex_node ex_blocks) = Some (None, None)"
proof -
  have "map_option fst (GarbageCollect never never ex_node ex_blocks) = Some None" by code_simp
  then obtain bs' where gc: "GarbageCollect never never ex_node ex_blocks = Some (None, bs')" by auto
  have keys: "env_allKeys ex_env = Inr ex_keys" "set ex_keys = dom ex_blocks" "env_deleteErr ex_env k = None" for k
    by (simp_all add: ex_env_def ex_blocks_def dom_def)
  have "bs' (ex_cid (CHR ''C'')) = None"
  proof (rule ccontr)
    assume "bs' (ex_cid (CHR ''C'')) \<noteq> None"
    from GarbageCollect_success [OF gc refl refl _ _ _ keys(2) _ this] keys ex_node_defined
    obtain r where "r \<in> {ex_cid (CHR ''A''), ex_cid (CHR ''B'')}" "reaches (links_of ex_links) r (ex_cid (CHR ''C''))"
      by (auto simp: reached_def) (auto simp: ex_node_def ex_env_def ex_pinner_def)
    moreover from this have "ex_cid (CHR ''C'') \<in> {ex_cid (CHR ''A''), ex_cid (CHR ''B'')}"
      by (elim reaches_closed) (auto simp: links_of_def ex_links_def split: if_splits)
    ultimately show False by simp
  qed
  with gc show ?thesis by simp
qed

text \<open>C25. Periodic collection never removes what must be kept: over any number of rounds, with any cancellation
  and any schedule of the walks, while the pins, the root of the mutable file system and the store change between the
  rounds in any way, a block that the rest of the node leaves alone between the rounds, and that is protected in each
  round that collects by the pins and the root of that time, is still there, unchanged. A block is protected when it
  is reached from a recursive pin or the root, or is pinned directly or internally; the CIDs handed to the marking are
  defined. While a round collects, nobody else changes the store, the pins or the links that the walks read.\<close>

theorem PeriodicGC_keeps_protected:
  assumes "PeriodicGC nd evs bs = Inr (Some (log, bs'))"
    and "\<And>gc. NewGC (nd_repo nd) = Inr gc \<Longrightarrow> kept_between gc k evs bs"
  shows "bs' k = bs k"
  using assms periodic_loop_keeps by (auto simp: PeriodicGC_def split: if_splits)

text \<open>Two rounds on different nodes: in the first the block is pinned directly, in the second there are no pins at all and it
  is the root of the mutable file system; in between another block is removed. A third round has nothing to do.\<close>

definition ex_node_unpinned :: gc_node where
  "ex_node_unpinned = ex_node\<lparr>nd_filesRoot := Inr (ex_cid (CHR ''D'')),
     nd_env := (\<lambda>_. ex_env\<lparr>env_pinner := \<lparr>RecursiveKeys = Inr [], DirectKeys = Inr [], InternalPins = Inr []\<rparr>\<rparr>),
     nd_sched := (\<lambda>n. if even n then ChSend else ChWorker 0)\<rparr>"

definition ex_rounds :: "gc_event list" where
  "ex_rounds = [Tick never never ex_node id, Tick never (\<lambda>n. n = 1) ex_node_unpinned (\<lambda>bs. bs(ex_cid (CHR ''B'') := None)),
     Tick never never (ex_node_unpinned\<lparr>nd_usage := (\<lambda>_. Inr 0), nd_filesRoot := Inl ''closed''\<rparr>) id, Done]"

lemma ex_node_unpinned_protects: "node_protects ex_node_unpinned bs (ex_cid (CHR ''D''))"
  using ex_node_defined
  by (auto simp: node_protects_def protected_def ex_node_unpinned_def BestEffortRoots_def Let_def defined_inputs_def gc_roots_def
      intro!: reachedI [OF _ reaches_refl])

theorem PeriodicGC_keeps_protected_witness:
  "map_sum id (map_option (\<lambda>r. map (snd r) ex_keys)) (PeriodicGC ex_node ex_rounds ex_blocks)
     = Inr (Some [None, None, None, Some ''data''])"
proof -
  let ?D = "ex_cid (CHR ''D'')"
  have all: "map_sum id (map_option (\<lambda>r. map (snd r) (butlast ex_keys))) (PeriodicGC ex_node ex_rounds ex_blocks)
      = Inr (Some [None, None, None])" by code_simp
  then obtain log bs' where run: "PeriodicGC ex_node ex_rounds ex_blocks = Inr (Some (log, bs'))"
    by (cases "PeriodicGC ex_node ex_rounds ex_blocks") auto
  have low: "\<not> over_limit (ex_node_unpinned\<lparr>nd_usage := (\<lambda>_. Inr 0), nd_filesRoot := Inl ''closed''\<rparr>) gc 0 bs" for gc bs
    by (simp add: over_limit_def)
  have "kept_between gc ?D ex_rounds bs" for gc bs
    using ex_node_protects ex_node_unpinned_protects low unfolding ex_rounds_def
    by (auto simp: id_def split: option.split)
  then have "bs' ?D = ex_blocks ?D" by (intro PeriodicGC_keeps_protected [OF run])
  moreover have "ex_keys = butlast ex_keys @ [?D]" by (simp add: ex_keys_def)
  ultimately show ?thesis using all run by (simp add: ex_blocks_def ex_keys_def)
qed

text \<open>The product of the maximum and the watermark wraps: at 250 petabytes and 90 percent, the threshold is
  below a fifth of the maximum.\<close>

lemma limits_overflow: "lim_StorageGC (limits 250000000000000000 90) = 40532559262904483"
  by code_simp

text \<open>\<^verbatim>\<open>GarbageCollectAsync\<close> does not return when the root of the mutable file system cannot be read.\<close>

lemma GarbageCollectAsync_returns:
  "(\<exists>x. GarbageCollectAsync ctx nd bs = Returns x) \<longleftrightarrow> (\<exists>mfs. nd_filesRoot nd = Inr mfs)"
  by (auto simp: GarbageCollectAsync_def BestEffortRoots_def split: sum.splits)

end
