(* ===== verification/Blockstores.thy ===== *)
theory Blockstores
  imports Gc
begin

text \<open>
  The node's blockstore and its layers, as \<^verbatim>\<open>core/node/storage.go\<close> stacks them: the datastore-backed store
  (\<^verbatim>\<open>go-ipfs-blockstore\<close>), the check of hash functions (\<^verbatim>\<open>thirdparty/verifbs\<close>), the identity store and the
  store that finds a block under the other version of its CID (\<^verbatim>\<open>thirdparty/cidv0v1\<close>). A blockstore is a
  record of operations on a state; a layer maps one such record to another and leaves the operations it
  does not override as they are, as embedding does in Go.

  What a blockstore promises is the contract \<open>block_store\<close>, relative to a view of its state as a map from
  CIDs to data; each layer keeps the contract for a view of its own. Failures of the datastore are a
  parameter.
\<close>

section \<open>The interface\<close>

datatype bs_err = BsErrNotFound | BsErrHashMismatch | BsErrVerif verif_err | BsErr err

record block =
  blk_cid :: cid
  blk_data :: string

record 's blockstore =
  bs_Has :: "cid \<Rightarrow> 's \<Rightarrow> (bs_err + bool) \<times> 's"
  bs_Get :: "cid \<Rightarrow> 's \<Rightarrow> (bs_err + block) \<times> 's"
  bs_GetSize :: "cid \<Rightarrow> 's \<Rightarrow> (bs_err + nat) \<times> 's"
  bs_Put :: "block \<Rightarrow> 's \<Rightarrow> bs_err option \<times> 's"
  bs_PutMany :: "block list \<Rightarrow> 's \<Rightarrow> bs_err option \<times> 's"
  bs_DeleteBlock :: "cid \<Rightarrow> 's \<Rightarrow> bs_err option \<times> 's"

definition mk_block :: "string \<Rightarrow> cid \<Rightarrow> block" where
  "mk_block d c = \<lparr>blk_cid = c, blk_data = d\<rparr>"

lemma mk_block_simps [simp]: "blk_cid (mk_block d c) = c" "blk_data (mk_block d c) = d"
  by (simp_all add: mk_block_def)

section \<open>The datastore-backed store\<close>

datatype ds_op = DsGet | DsHas | DsSize | DsPut | DsDelete | DsBatch | DsCommit

text \<open>The datastore: its contents, and its failures by operation and key (\<open>CidUndef\<close> where there is no key).\<close>

record ds_cfg =
  ds_fault :: "ds_op \<Rightarrow> cid \<Rightarrow> err option"
  ds_sum :: "cid_prefix \<Rightarrow> string \<Rightarrow> err + cid"
  ds_rehash :: bool

definition base_Get :: "ds_cfg \<Rightarrow> cid \<Rightarrow> blocks \<Rightarrow> (bs_err + block) \<times> blocks" where
  "base_Get cfg k s =
     (if \<not> Defined k then (Inl BsErrNotFound, s)
      else case ds_fault cfg DsGet k of
        Some e \<Rightarrow> (Inl (BsErr e), s)
      | None \<Rightarrow>
          (case s k of
             None \<Rightarrow> (Inl BsErrNotFound, s)
           | Some bdata \<Rightarrow>
               if ds_rehash cfg then
                 (case ds_sum cfg (cid_Prefix k) bdata of
                    Inl e \<Rightarrow> (Inl (BsErr e), s)
                  | Inr rbcid \<Rightarrow>
                      if rbcid \<noteq> k then (Inl BsErrHashMismatch, s) else (Inr (mk_block bdata rbcid), s))
               else (Inr (mk_block bdata k), s)))"

definition ds_exists :: "ds_cfg \<Rightarrow> cid \<Rightarrow> blocks \<Rightarrow> bool" where
  "ds_exists cfg k s \<longleftrightarrow> ds_fault cfg DsHas k = None \<and> s k \<noteq> None"

definition base_Put :: "ds_cfg \<Rightarrow> block \<Rightarrow> blocks \<Rightarrow> bs_err option \<times> blocks" where
  "base_Put cfg b s =
     (if ds_exists cfg (blk_cid b) s then (None, s)
      else case ds_fault cfg DsPut (blk_cid b) of
        Some e \<Rightarrow> (Some (BsErr e), s)
      | None \<Rightarrow> (None, s(blk_cid b \<mapsto> blk_data b)))"

text \<open>The batch: existence is checked against the store, the puts are buffered and committed at the end.\<close>

fun batch_puts :: "ds_cfg \<Rightarrow> blocks \<Rightarrow> block list \<Rightarrow> block list \<Rightarrow> bs_err + block list" where
  "batch_puts cfg s [] t = Inr t"
| "batch_puts cfg s (b # bs) t =
     (if ds_exists cfg (blk_cid b) s then batch_puts cfg s bs t
      else case ds_fault cfg DsPut (blk_cid b) of
        Some e \<Rightarrow> Inl (BsErr e)
      | None \<Rightarrow> batch_puts cfg s bs (t @ [b]))"

fun commit :: "block list \<Rightarrow> blocks \<Rightarrow> blocks" where
  "commit [] s = s"
| "commit (b # t) s = commit t (s(blk_cid b \<mapsto> blk_data b))"

definition base_PutMany :: "ds_cfg \<Rightarrow> block list \<Rightarrow> blocks \<Rightarrow> bs_err option \<times> blocks" where
  "base_PutMany cfg bs s =
     (case ds_fault cfg DsBatch CidUndef of
        Some e \<Rightarrow> (Some (BsErr e), s)
      | None \<Rightarrow>
          (case batch_puts cfg s bs [] of
             Inl e \<Rightarrow> (Some e, s)
           | Inr t \<Rightarrow>
               (case ds_fault cfg DsCommit CidUndef of
                  Some e \<Rightarrow> (Some (BsErr e), s)
                | None \<Rightarrow> (None, commit t s))))"

definition base_Has :: "ds_cfg \<Rightarrow> cid \<Rightarrow> blocks \<Rightarrow> (bs_err + bool) \<times> blocks" where
  "base_Has cfg k s =
     (case ds_fault cfg DsHas k of Some e \<Rightarrow> (Inl (BsErr e), s) | None \<Rightarrow> (Inr (s k \<noteq> None), s))"

definition base_GetSize :: "ds_cfg \<Rightarrow> cid \<Rightarrow> blocks \<Rightarrow> (bs_err + nat) \<times> blocks" where
  "base_GetSize cfg k s =
     (case ds_fault cfg DsSize k of
        Some e \<Rightarrow> (Inl (BsErr e), s)
      | None \<Rightarrow> (case s k of None \<Rightarrow> (Inl BsErrNotFound, s) | Some d \<Rightarrow> (Inr (length d), s)))"

definition base_DeleteBlock :: "ds_cfg \<Rightarrow> cid \<Rightarrow> blocks \<Rightarrow> bs_err option \<times> blocks" where
  "base_DeleteBlock cfg k s =
     (case ds_fault cfg DsDelete k of Some e \<Rightarrow> (Some (BsErr e), s) | None \<Rightarrow> (None, s(k := None)))"

definition NewBlockstore :: "ds_cfg \<Rightarrow> blocks blockstore" where
  "NewBlockstore cfg =
     \<lparr>bs_Has = base_Has cfg, bs_Get = base_Get cfg, bs_GetSize = base_GetSize cfg, bs_Put = base_Put cfg,
      bs_PutMany = base_PutMany cfg, bs_DeleteBlock = base_DeleteBlock cfg\<rparr>"

section \<open>Hash function checks: verifbs\<close>

definition VerifBS_Put :: "'s blockstore \<Rightarrow> block \<Rightarrow> 's \<Rightarrow> bs_err option \<times> 's" where
  "VerifBS_Put bs b s =
     (case ValidateCid (blk_cid b) of
        Some e \<Rightarrow> (Some (BsErrVerif e), s)
      | None \<Rightarrow> bs_Put bs b s)"

fun validate_all :: "block list \<Rightarrow> verif_err option" where
  "validate_all [] = None"
| "validate_all (b # blks) = (case ValidateCid (blk_cid b) of Some e \<Rightarrow> Some e | None \<Rightarrow> validate_all blks)"

definition VerifBS_PutMany :: "'s blockstore \<Rightarrow> block list \<Rightarrow> 's \<Rightarrow> bs_err option \<times> 's" where
  "VerifBS_PutMany bs blks s =
     (case validate_all blks of
        Some e \<Rightarrow> (Some (BsErrVerif e), s)
      | None \<Rightarrow> bs_PutMany bs blks s)"

definition VerifBS_Get :: "'s blockstore \<Rightarrow> cid \<Rightarrow> 's \<Rightarrow> (bs_err + block) \<times> 's" where
  "VerifBS_Get bs c s =
     (case ValidateCid c of
        Some e \<Rightarrow> (Inl (BsErrVerif e), s)
      | None \<Rightarrow> bs_Get bs c s)"

text \<open>\<^verbatim>\<open>VerifBS\<close> and \<^verbatim>\<open>VerifBSGC\<close> have the same methods; they differ in the interface they embed.\<close>

definition VerifBS :: "'s blockstore \<Rightarrow> 's blockstore" where
  "VerifBS bs = bs\<lparr>bs_Put := VerifBS_Put bs, bs_PutMany := VerifBS_PutMany bs, bs_Get := VerifBS_Get bs\<rparr>"

section \<open>Identity CIDs: the identity store\<close>

definition extractContents :: "cid \<Rightarrow> string option" where
  "extractContents k =
     (if Defined k \<and> mh_code (cid_Hash k) = IDENTITY then Some (mh_digest (cid_Hash k)) else None)"

definition NewIdStore :: "'s blockstore \<Rightarrow> 's blockstore" where
  "NewIdStore bs =
     \<lparr>bs_Has = (\<lambda>k s. if extractContents k \<noteq> None then (Inr True, s) else bs_Has bs k s),
      bs_Get = (\<lambda>k s. case extractContents k of Some d \<Rightarrow> (Inr (mk_block d k), s) | None \<Rightarrow> bs_Get bs k s),
      bs_GetSize = (\<lambda>k s. case extractContents k of Some d \<Rightarrow> (Inr (length d), s) | None \<Rightarrow> bs_GetSize bs k s),
      bs_Put = (\<lambda>b s. if extractContents (blk_cid b) \<noteq> None then (None, s) else bs_Put bs b s),
      bs_PutMany = (\<lambda>blks s. bs_PutMany bs (filter (\<lambda>b. extractContents (blk_cid b) = None) blks) s),
      bs_DeleteBlock = (\<lambda>k s. if extractContents k \<noteq> None then (None, s) else bs_DeleteBlock bs k s)\<rparr>"

section \<open>The other CID version: cidv0v1\<close>

text \<open>\<^verbatim>\<open>NewCidV0\<close> panics on a multihash that is not sha2-256 of 32 bytes; the guard rules that out, so
  the \<open>None\<close> branch is never taken (\<open>tryOtherCidVersion_no_panic\<close>).\<close>

definition tryOtherCidVersion :: "cid \<Rightarrow> cid option" where
  "tryOtherCidVersion c =
     (let prefix = cid_Prefix c in
      if Codec prefix \<noteq> DagProtobuf \<or> MhType prefix \<noteq> SHA2_256 \<or> MhLength prefix \<noteq> 32 then Some CidUndef
      else if Version prefix = 0 then Some (NewCidV1 DagProtobuf (cid_Hash c))
      else NewCidV0 (cid_Hash c))"

definition other_version :: "cid \<Rightarrow> cid" where
  "other_version c = (case tryOtherCidVersion c of Some c1 \<Rightarrow> c1 | None \<Rightarrow> CidUndef)"

definition cidv0v1_Has :: "'s blockstore \<Rightarrow> cid \<Rightarrow> 's \<Rightarrow> (bs_err + bool) \<times> 's" where
  "cidv0v1_Has b c s =
     (case bs_Has b c s of
        (Inr False, s1) \<Rightarrow>
          (let c1 = other_version c in if \<not> Defined c1 then (Inr False, s1) else bs_Has b c1 s1)
      | r \<Rightarrow> r)"

definition cidv0v1_Get :: "'s blockstore \<Rightarrow> cid \<Rightarrow> 's \<Rightarrow> (bs_err + block) \<times> 's" where
  "cidv0v1_Get b c s =
     (case bs_Get b c s of
        (Inr block, s1) \<Rightarrow> (Inr block, s1)
      | (Inl e, s1) \<Rightarrow>
          if e \<noteq> BsErrNotFound then (Inl e, s1)
          else
            (let c1 = other_version c in
             if \<not> Defined c1 then (Inl BsErrNotFound, s1)
             else
               (case bs_Get b c1 s1 of
                  (Inl e, s2) \<Rightarrow> (Inl e, s2)
                | (Inr block, s2) \<Rightarrow>
                    (let block' = mk_block (blk_data block) c in
                     case bs_Put b block' s2 of
                       (Some e, s3) \<Rightarrow> (Inl e, s3)
                     | (None, s3) \<Rightarrow> (Inr block', s3)))))"

definition cidv0v1_GetSize :: "'s blockstore \<Rightarrow> cid \<Rightarrow> 's \<Rightarrow> (bs_err + nat) \<times> 's" where
  "cidv0v1_GetSize b c s =
     (case bs_GetSize b c s of
        (Inr n, s1) \<Rightarrow> (Inr n, s1)
      | (Inl e, s1) \<Rightarrow>
          if e \<noteq> BsErrNotFound then (Inl e, s1)
          else (let c1 = other_version c in
                if \<not> Defined c1 then (Inl BsErrNotFound, s1) else bs_GetSize b c1 s1))"

definition cidv0v1_NewBlockstore :: "'s blockstore \<Rightarrow> 's blockstore" where
  "cidv0v1_NewBlockstore b =
     b\<lparr>bs_Has := cidv0v1_Has b, bs_Get := cidv0v1_Get b, bs_GetSize := cidv0v1_GetSize b\<rparr>"

section \<open>The stack\<close>

text \<open>\<^verbatim>\<open>BaseBlockstoreCtor\<close>; the cache is a layer of its own, a parameter here. \<^verbatim>\<open>HashOnRead\<close> is passed
  down by every layer to the datastore-backed one.\<close>

definition BaseBlockstoreCtor ::
  "(blocks blockstore \<Rightarrow> blocks blockstore) \<Rightarrow> bool \<Rightarrow> bool \<Rightarrow> ds_cfg \<Rightarrow> blocks blockstore" where
  "BaseBlockstoreCtor cache nilRepo hashOnRead cfg =
     (let bs = NewBlockstore (cfg\<lparr>ds_rehash := hashOnRead\<rparr>);
          bs = VerifBS bs;
          bs = (if \<not> nilRepo then cache bs else bs);
          bs = NewIdStore bs
      in cidv0v1_NewBlockstore bs)"

section \<open>Versions of a CID\<close>

lemma tryOtherCidVersion_no_panic: "tryOtherCidVersion c \<noteq> None"
  by (cases c) (auto simp: tryOtherCidVersion_def NewCidV0_def Let_def mk_mh_def)

lemma other_version_V0: "other_version (CidV0 d) = CidV1 DagProtobuf (mk_mh SHA2_256 d)"
  by (simp add: other_version_def tryOtherCidVersion_def NewCidV1_def)

lemma other_version_V1:
  "other_version (CidV1 c h) =
    (if c = DagProtobuf \<and> mh_code h = SHA2_256 \<and> length (mh_digest h) = 32 then CidV0 (mh_digest h) else CidUndef)"
  by (auto simp: other_version_def tryOtherCidVersion_def NewCidV0_def)

lemma other_version_Undef: "other_version CidUndef = CidUndef"
  by (simp add: other_version_def tryOtherCidVersion_def DagProtobuf_def)

lemmas other_version_simps = other_version_V0 other_version_V1 other_version_Undef

lemma other_version_hash: "Defined (other_version c) \<Longrightarrow> cid_Hash (other_version c) = cid_Hash c"
  by (cases c) (auto simp: other_version_simps mk_mh_def)

lemma other_version_sha256: "Defined (other_version c) \<Longrightarrow> mh_code (cid_Hash c) = SHA2_256"
  by (cases c) (auto simp: other_version_simps mk_mh_def split: if_splits)

text \<open>The change of version is an involution wherever it can be undone.\<close>

lemma other_version_back: "Defined (other_version (other_version c)) \<Longrightarrow> other_version (other_version c) = c"
  by (cases c) (auto simp: other_version_simps mk_mh_def split: if_splits)

lemma other_version_Defined: "Defined (other_version c) \<Longrightarrow> Defined c"
  by (cases c) (simp_all add: other_version_simps)

lemma other_version_neq: "Defined (other_version c) \<Longrightarrow> other_version c \<noteq> c"
  by (cases c) (auto simp: other_version_simps split: if_splits)

definition versions :: "cid \<Rightarrow> cid set" where
  "versions c = {k. k = c \<or> Defined c \<and> other_version k = c}"

lemma versions_self [simp]: "c \<in> versions c" by (simp add: versions_def)

lemma versions_hash: "k \<in> versions c \<Longrightarrow> cid_Hash k = cid_Hash c \<and> (Defined k \<longleftrightarrow> Defined c)"
  using other_version_hash [of k] other_version_Undef by (cases k) (auto simp: versions_def)

lemma versions_other: "other_version k \<in> versions c \<Longrightarrow> Defined (other_version k) \<Longrightarrow> k \<in> versions c"
  using other_version_back [of k] by (auto simp: versions_def)

section \<open>The contract of a blockstore\<close>

locale block_store =
  fixes bs :: "'s blockstore" and view :: "'s \<Rightarrow> cid \<Rightarrow> string option"
  assumes has_keeps: "view (snd (bs_Has bs c s)) = view s"
    and has_true: "fst (bs_Has bs c s) = Inr h \<Longrightarrow> h \<longleftrightarrow> (\<exists>d. view s c = Some d)"
    and get_keeps: "view (snd (bs_Get bs c s)) = view s"
    and get_block: "fst (bs_Get bs c s) = Inr b \<Longrightarrow> blk_cid b = c \<and> view s c = Some (blk_data b)"
    and get_missing: "fst (bs_Get bs c s) = Inl BsErrNotFound \<Longrightarrow> Defined c \<Longrightarrow> view s c = None"
    and size_keeps: "view (snd (bs_GetSize bs c s)) = view s"
    and size_true: "fst (bs_GetSize bs c s) = Inr n \<Longrightarrow> \<exists>d. view s c = Some d \<and> n = length d"
    and size_missing: "fst (bs_GetSize bs c s) = Inl BsErrNotFound \<Longrightarrow> view s c = None"
    and put_done: "fst (bs_Put bs b s) = None \<Longrightarrow> \<exists>d. view (snd (bs_Put bs b s)) (blk_cid b) = Some d"
    and put_fail: "fst (bs_Put bs b s) = Some e \<Longrightarrow> view (snd (bs_Put bs b s)) = view s \<and> e \<noteq> BsErrNotFound"
    and put_old: "view s k = Some d \<Longrightarrow> \<exists>d'. view (snd (bs_Put bs b s)) k = Some d'"
    and put_new: "view (snd (bs_Put bs b s)) k = Some d \<Longrightarrow>
      view s k = Some d \<or> k \<in> versions (blk_cid b) \<and> d = blk_data b"
    and many_done: "fst (bs_PutMany bs blks s) = None \<Longrightarrow> b \<in> set blks \<Longrightarrow>
      \<exists>d. view (snd (bs_PutMany bs blks s)) (blk_cid b) = Some d"
    and many_fail: "fst (bs_PutMany bs blks s) = Some e \<Longrightarrow> view (snd (bs_PutMany bs blks s)) = view s"
    and many_old: "view s k = Some d \<Longrightarrow> \<exists>d'. view (snd (bs_PutMany bs blks s)) k = Some d'"
    and many_new: "view (snd (bs_PutMany bs blks s)) k = Some d \<Longrightarrow>
      view s k = Some d \<or> (\<exists>b \<in> set blks. k \<in> versions (blk_cid b) \<and> d = blk_data b)"
    and delete_sub: "view (snd (bs_DeleteBlock bs c s)) k = Some d \<Longrightarrow>
      \<exists>k'. cid_Hash k' = cid_Hash k \<and> (Defined k' \<longleftrightarrow> Defined k) \<and> view s k' = Some d"

text \<open>Data that belongs to a CID: the digest itself for an identity CID, otherwise what the hash relation
  \<open>H\<close> says.\<close>

definition hash_ok :: "(multihash \<Rightarrow> string \<Rightarrow> bool) \<Rightarrow> cid \<Rightarrow> string \<Rightarrow> bool" where
  "hash_ok H k d \<longleftrightarrow> (case extractContents k of Some d' \<Rightarrow> d = d' | None \<Rightarrow> H (cid_Hash k) d)"

definition intact :: "(multihash \<Rightarrow> string \<Rightarrow> bool) \<Rightarrow> (cid \<Rightarrow> string option) \<Rightarrow> bool" where
  "intact H v \<longleftrightarrow> (\<forall>k d. v k = Some d \<longrightarrow> hash_ok H k d)"

lemma hash_ok_cong: "cid_Hash k = cid_Hash k' \<Longrightarrow> (Defined k \<longleftrightarrow> Defined k') \<Longrightarrow> hash_ok H k d = hash_ok H k' d"
  by (simp add: hash_ok_def extractContents_def)

text \<open>The clients of a blockstore: any operation, where a block that is put carries the data of its CID.\<close>

inductive bs_step :: "(multihash \<Rightarrow> string \<Rightarrow> bool) \<Rightarrow> 's blockstore \<Rightarrow> 's \<Rightarrow> 's \<Rightarrow> bool" for H bs where
  step_Has: "bs_step H bs s (snd (bs_Has bs c s))"
| step_Get: "bs_step H bs s (snd (bs_Get bs c s))"
| step_GetSize: "bs_step H bs s (snd (bs_GetSize bs c s))"
| step_Put: "hash_ok H (blk_cid b) (blk_data b) \<Longrightarrow> bs_step H bs s (snd (bs_Put bs b s))"
| step_PutMany: "\<forall>b \<in> set blks. hash_ok H (blk_cid b) (blk_data b) \<Longrightarrow> bs_step H bs s (snd (bs_PutMany bs blks s))"
| step_Delete: "bs_step H bs s (snd (bs_DeleteBlock bs c s))"

context block_store
begin

lemma step_intact: "bs_step H bs s t \<Longrightarrow> intact H (view s) \<Longrightarrow> intact H (view t)"
proof (induction rule: bs_step.induct)
  case (step_Put b s)
  then show ?case unfolding intact_def
    using put_new versions_hash hash_ok_cong by metis
next
  case (step_PutMany blks s)
  then show ?case unfolding intact_def
    using many_new versions_hash hash_ok_cong by metis
next
  case (step_Delete s c)
  then show ?case unfolding intact_def
    using delete_sub hash_ok_cong by metis
qed (simp_all add: has_keeps get_keeps size_keeps)

lemma put_then_get:
  assumes "bs_Put bs b s = (None, s1)" "Defined (blk_cid b)"
  shows "fst (bs_Get bs (blk_cid b) s1) \<noteq> Inl BsErrNotFound"
  using put_done [of b s] get_missing [of "blk_cid b" s1] assms by auto

lemma get_twice:
  assumes "bs_Get bs c s = (Inr b, s1)" "fst (bs_Get bs c s1) = Inr b'"
  shows "b' = b"
  using get_block [of c s b] get_block [of c s1 b'] get_keeps [of c s] assms by (simp add: block.equality)

end

section \<open>The datastore-backed store keeps the contract\<close>

lemmas base_ops = base_Get_def base_Put_def base_PutMany_def base_Has_def base_GetSize_def base_DeleteBlock_def

lemma batch_puts_sound:
  "batch_puts cfg s bs t = Inr t' \<Longrightarrow> set t' \<subseteq> set t \<union> set bs \<and> set t \<subseteq> set t' \<and>
    (\<forall>b \<in> set bs. s (blk_cid b) \<noteq> None \<or> b \<in> set t')"
  by (induction cfg s bs t rule: batch_puts.induct) (auto simp: ds_exists_def split: if_splits option.splits)

lemma commit_new: "commit t s k = Some d \<Longrightarrow> s k = Some d \<or> (\<exists>b \<in> set t. k = blk_cid b \<and> d = blk_data b)"
  by (induction t s rule: commit.induct) (auto split: if_splits)

lemma commit_old: "(\<exists>d. s k = Some d) \<or> (\<exists>b \<in> set t. k = blk_cid b) \<Longrightarrow> \<exists>d. commit t s k = Some d"
proof (induction t arbitrary: s)
  case (Cons b t)
  have "(\<exists>d. (s(blk_cid b \<mapsto> blk_data b)) k = Some d) \<or> (\<exists>b \<in> set t. k = blk_cid b)"
    using Cons.prems by auto
  then show ?case unfolding commit.simps by (rule Cons.IH [of "s(blk_cid b \<mapsto> blk_data b)"])
qed simp

interpretation base: block_store "NewBlockstore cfg" "\<lambda>s. s"
proof unfold_locales
  fix blks b s
  assume "fst (bs_PutMany (NewBlockstore cfg) blks s) = None" and b: "b \<in> set blks"
  then obtain t where t: "batch_puts cfg s blks [] = Inr t" "snd (bs_PutMany (NewBlockstore cfg) blks s) = commit t s"
    by (auto simp: NewBlockstore_def base_PutMany_def split: option.splits sum.splits)
  from batch_puts_sound [OF t(1)] b commit_old [of s "blk_cid b" t] t(2)
  show "\<exists>d. snd (bs_PutMany (NewBlockstore cfg) blks s) (blk_cid b) = Some d" by fastforce
next
  fix s :: blocks and k d blks
  assume "s k = Some d"
  then show "\<exists>d'. snd (bs_PutMany (NewBlockstore cfg) blks s) k = Some d'"
    using commit_old [of s k] by (auto simp: NewBlockstore_def base_PutMany_def split: option.splits sum.splits)
next
  fix blks s k d
  assume "snd (bs_PutMany (NewBlockstore cfg) blks s) k = Some d"
  then show "s k = Some d \<or> (\<exists>b \<in> set blks. k \<in> versions (blk_cid b) \<and> d = blk_data b)"
    by (auto simp: NewBlockstore_def base_PutMany_def split: option.splits sum.splits
        dest!: commit_new batch_puts_sound) (use versions_self in blast)
qed (auto simp: NewBlockstore_def base_ops ds_exists_def split: option.splits sum.splits if_splits)

section \<open>Each layer keeps the contract\<close>

lemma validate_all_None: "validate_all blks = None \<longleftrightarrow> (\<forall>b \<in> set blks. ValidateCid (blk_cid b) = None)"
  by (induction blks) (auto split: option.splits)

definition id_view :: "(cid \<Rightarrow> string option) \<Rightarrow> cid \<Rightarrow> string option" where
  "id_view v k = (case extractContents k of Some d \<Rightarrow> Some d | None \<Rightarrow> v k)"

definition both_view :: "(cid \<Rightarrow> string option) \<Rightarrow> cid \<Rightarrow> string option" where
  "both_view v k =
     (case v k of
        Some d \<Rightarrow> Some d
      | None \<Rightarrow> if Defined (other_version k) then v (other_version k) else None)"

lemma extractContents_versions: "k \<in> versions c \<Longrightarrow> extractContents k = extractContents c"
  using versions_hash [of k c] by (simp add: extractContents_def)

lemma both_view_Some:
  "both_view v k = Some d \<Longrightarrow> v k = Some d \<or> Defined (other_version k) \<and> v k = None \<and> v (other_version k) = Some d"
  by (auto simp: both_view_def split: option.splits if_splits)

lemma both_viewI: "v k \<noteq> None \<Longrightarrow> both_view v k = v k"
  by (auto simp: both_view_def)

lemma both_view_None: "both_view v k = None \<longleftrightarrow> v k = None \<and> (Defined (other_version k) \<longrightarrow> v (other_version k) = None)"
  by (auto simp: both_view_def split: option.splits)

text \<open>Copying a block to the CID it was asked for does not change what both versions show.\<close>

lemma both_view_copy:
  assumes c: "v c = None" "Defined (other_version c)" "v (other_version c) = Some d"
    and c': "w c \<noteq> None" and old: "\<And>k x. v k = Some x \<Longrightarrow> \<exists>y. w k = Some y"
    and new: "\<And>k x. w k = Some x \<Longrightarrow> v k = Some x \<or> k \<in> versions c \<and> x = d"
  shows "both_view w = both_view v"
proof
  fix k
  have vc: "both_view v k' = Some d" if "k' \<in> versions c" for k'
  proof -
    have "k' = c \<or> k' = other_version c"
      using that c(2) other_version_back [of k'] by (auto simp: versions_def)
    with c show ?thesis by (auto simp: both_view_def)
  qed
  show "both_view w k = both_view v k"
  proof (cases "both_view w k")
    case None
    then have "v k = None" "Defined (other_version k) \<Longrightarrow> v (other_version k) = None"
      using old [of k] old [of "other_version k"] by (cases "v k"; cases "v (other_version k)"; auto simp: both_view_None)+
    with None show ?thesis by (simp add: both_view_def)
  next
    case (Some x)
    show ?thesis
    proof (cases "k \<in> versions c")
      case True
      have wd: "y = d" if "w k' = Some y" "k' = c \<or> k' = other_version c" for k' y
        using that new [of k' y] c by auto
      have k: "k = c \<or> k = other_version c"
        using True c(2) other_version_back [of k] by (auto simp: versions_def)
      then have "other_version k = c \<or> other_version k = other_version c" if "Defined (other_version k)"
        using that other_version_back [of c] by auto
      with k both_view_Some [OF Some] have "x = d" by (auto dest: wd)
      with Some vc [OF True] show ?thesis by simp
    next
      case False
      then have "v k = w k" using new [of k] old [of k] by (cases "w k"; cases "v k") auto
      moreover have "v (other_version k) = w (other_version k)" if "Defined (other_version k)"
        using False that versions_other [of k c] new [of "other_version k"] old [of "other_version k"]
        by (cases "w (other_version k)"; cases "v (other_version k)") auto
      ultimately show ?thesis by (cases "Defined (other_version k)") (simp_all add: both_view_def split: option.split)
    qed
  qed
qed

context block_store
begin

lemma VerifBS_contract: "block_store (VerifBS bs) view"
proof unfold_locales
  fix blks b s
  assume "fst (bs_PutMany (VerifBS bs) blks s) = None" "b \<in> set blks"
  then show "\<exists>d. view (snd (bs_PutMany (VerifBS bs) blks s)) (blk_cid b) = Some d"
    using many_done [of blks s b] by (simp add: VerifBS_def VerifBS_PutMany_def split: option.splits)
qed (auto simp: VerifBS_def VerifBS_Put_def VerifBS_PutMany_def VerifBS_Get_def
    has_keeps get_keeps size_keeps put_done split: option.splits
    dest: has_true get_block get_missing size_true size_missing put_fail put_old put_new many_fail many_old many_new delete_sub)

lemma NewIdStore_contract: "block_store (NewIdStore bs) (\<lambda>s. id_view (view s))"
proof unfold_locales
  fix blks b s
  assume "fst (bs_PutMany (NewIdStore bs) blks s) = None" "b \<in> set blks"
  then show "\<exists>d. id_view (view (snd (bs_PutMany (NewIdStore bs) blks s))) (blk_cid b) = Some d"
    using many_done [of "filter (\<lambda>b. extractContents (blk_cid b) = None) blks" s b]
    by (auto simp: NewIdStore_def id_view_def split: option.splits)
next
  fix blks s k d
  assume "id_view (view (snd (bs_PutMany (NewIdStore bs) blks s))) k = Some d"
  then show "id_view (view s) k = Some d \<or> (\<exists>b \<in> set blks. k \<in> versions (blk_cid b) \<and> d = blk_data b)"
    using many_new [of "filter (\<lambda>b. extractContents (blk_cid b) = None) blks" s k d]
    by (auto simp: NewIdStore_def id_view_def split: option.splits)
next
  fix c s k d
  assume del: "id_view (view (snd (bs_DeleteBlock (NewIdStore bs) c s))) k = Some d"
  show "\<exists>k'. cid_Hash k' = cid_Hash k \<and> Defined k' = Defined k \<and> id_view (view s) k' = Some d"
  proof (cases "extractContents k")
    case None
    then obtain k' where k': "cid_Hash k' = cid_Hash k" "Defined k' = Defined k" "view s k' = Some d"
      using del delete_sub [of c s k d] by (auto simp: NewIdStore_def id_view_def split: if_splits)
    moreover have "extractContents k' = None" using None k' by (auto simp: extractContents_def split: if_splits)
    ultimately show ?thesis by (auto simp: id_view_def)
  next
    case (Some d')
    with del show ?thesis by (auto simp: id_view_def)
  qed
qed (auto simp: NewIdStore_def id_view_def
    has_keeps get_keeps size_keeps put_done split: option.splits if_splits
    dest: has_true get_block get_missing size_true size_missing put_fail put_old put_new many_fail many_old)

lemma cidv0v1_Get_cases:
  assumes "cidv0v1_Get bs c s = (r, s')"
  obtains (direct) b where "r = Inr b" "bs_Get bs c s = (r, s')"
  | (error) e where "r = Inl e" "e \<noteq> BsErrNotFound" "view s' = view s"
  | (missing) "r = Inl BsErrNotFound" "view s' = view s" "Defined c \<Longrightarrow> view s c = None"
      "Defined (other_version c) \<Longrightarrow> view s (other_version c) = None"
  | (copied) d s2 where "r = Inr (mk_block d c)" "Defined (other_version c)" "view s2 = view s"
      "Defined c \<Longrightarrow> view s c = None" "view s (other_version c) = Some d" "bs_Put bs (mk_block d c) s2 = (None, s')"
proof -
  obtain r1 s1 where g1: "bs_Get bs c s = (r1, s1)" by fastforce
  have v1: "view s1 = view s" using get_keeps [of c s] g1 by simp
  show thesis
  proof (cases r1)
    case (Inr b)
    then have "r = Inr b" "bs_Get bs c s = (r, s')" using assms g1 by (simp_all add: cidv0v1_Get_def)
    then show thesis by (rule direct)
  next
    case (Inl e)
    show thesis
    proof (cases "e = BsErrNotFound \<and> Defined (other_version c)")
      case False
      with assms g1 Inl error missing v1 get_missing [of c s] show thesis
        by (auto simp: cidv0v1_Get_def Let_def split: if_splits)
    next
      case True
      then have none: "Defined c \<Longrightarrow> view s c = None" using get_missing [of c s] g1 Inl by simp
      obtain r2 s2 where g2: "bs_Get bs (other_version c) s1 = (r2, s2)" by fastforce
      have v2: "view s2 = view s" using get_keeps [of "other_version c" s1] g2 v1 by simp
      show thesis
      proof (cases r2)
        case (Inl e2)
        then have r: "r = Inl e2" "s' = s2" using assms g1 \<open>r1 = Inl e\<close> True g2 by (simp_all add: cidv0v1_Get_def Let_def)
        show thesis
        proof (cases "e2 = BsErrNotFound")
          case notfound: True
          have "view s (other_version c) = None"
            using get_missing [of "other_version c" s1] g2 Inl True notfound v1 by simp
          with missing r notfound v2 none show thesis by simp
        qed (use error r v2 in simp)
      next
        case (Inr blk)
        have d: "view s (other_version c) = Some (blk_data blk)"
          using get_block [of "other_version c" s1 blk] g2 Inr v1 by simp
        obtain e3 s3 where p: "bs_Put bs (mk_block (blk_data blk) c) s2 = (e3, s3)" by fastforce
        with assms g1 \<open>r1 = Inl e\<close> True g2 Inr d v2 none put_fail [of "mk_block (blk_data blk) c" s2] error copied
        show thesis by (cases e3) (auto simp: cidv0v1_Get_def Let_def)
      qed
    qed
  qed
qed

end

context block_store
begin

lemma cidv0v1_get_keeps: "both_view (view (snd (cidv0v1_Get bs c s))) = both_view (view s)"
proof -
  obtain r s' where g: "cidv0v1_Get bs c s = (r, s')" by fastforce
  then have "both_view (view s') = both_view (view s)"
  proof (cases rule: cidv0v1_Get_cases)
    case (direct b)
    with get_keeps [of c s] show ?thesis by simp
  next
    case (copied d s2)
    show ?thesis
    proof (rule both_view_copy [where c = c and d = d])
      show "view s' c \<noteq> None" using put_done [of "mk_block d c" s2] copied(6) by auto
      show "\<exists>y. view s' k = Some y" if "view s k = Some x" for k x
        using put_old [of s2 k x "mk_block d c"] that copied(3,6) by simp
      show "view s k = Some x \<or> k \<in> versions c \<and> x = d" if "view s' k = Some x" for k x
        using put_new [of "mk_block d c" s2 k x] that copied(3,6) by simp
    qed (use copied other_version_Defined in auto)
  qed auto
  with g show ?thesis by simp
qed

lemma cidv0v1_get_block:
  assumes "fst (cidv0v1_Get bs c s) = Inr b"
  shows "blk_cid b = c \<and> both_view (view s) c = Some (blk_data b)"
proof -
  obtain s' where g: "cidv0v1_Get bs c s = (Inr b, s')" using assms by (metis prod.collapse)
  then show ?thesis
  proof (cases rule: cidv0v1_Get_cases)
    case (direct b')
    with get_block [of c s b] show ?thesis by (auto simp: both_view_def)
  next
    case (copied d s2)
    then show ?thesis using other_version_Defined by (auto simp: both_view_def)
  qed auto
qed

lemma cidv0v1_get_missing:
  assumes "fst (cidv0v1_Get bs c s) = Inl BsErrNotFound" "Defined c"
  shows "both_view (view s) c = None"
proof -
  obtain s' where g: "cidv0v1_Get bs c s = (Inl BsErrNotFound, s')" using assms by (metis prod.collapse)
  then show ?thesis
    by (cases rule: cidv0v1_Get_cases) (use assms(2) in \<open>auto simp: both_view_None\<close>)
qed

lemma cidv0v1_has:
  "view (snd (cidv0v1_Has bs c s)) = view s"
  "fst (cidv0v1_Has bs c s) = Inr h \<Longrightarrow> h \<longleftrightarrow> (\<exists>d. both_view (view s) c = Some d)"
proof -
  obtain r1 s1 r2 s2 where g: "bs_Has bs c s = (r1, s1)" "bs_Has bs (other_version c) s1 = (r2, s2)" by fastforce
  have v: "view s1 = view s" "view s2 = view s"
    using has_keeps [of c s] has_keeps [of "other_version c" s1] g by auto
  with g show "view (snd (cidv0v1_Has bs c s)) = view s"
    by (auto simp: cidv0v1_Has_def Let_def split: sum.splits bool.splits)
  show "fst (cidv0v1_Has bs c s) = Inr h \<Longrightarrow> h \<longleftrightarrow> (\<exists>d. both_view (view s) c = Some d)"
    using has_true [of c s] has_true [of "other_version c" s1] g v
    by (auto simp: cidv0v1_Has_def Let_def both_view_def split: sum.splits bool.splits if_splits option.splits)
qed

lemma cidv0v1_size:
  "view (snd (cidv0v1_GetSize bs c s)) = view s"
  "fst (cidv0v1_GetSize bs c s) = Inr n \<Longrightarrow> \<exists>d. both_view (view s) c = Some d \<and> n = length d"
  "fst (cidv0v1_GetSize bs c s) = Inl BsErrNotFound \<Longrightarrow> both_view (view s) c = None"
proof -
  obtain r1 s1 r2 s2 where g: "bs_GetSize bs c s = (r1, s1)" "bs_GetSize bs (other_version c) s1 = (r2, s2)" by fastforce
  have v: "view s1 = view s" "view s2 = view s"
    using size_keeps [of c s] size_keeps [of "other_version c" s1] g by auto
  note facts = size_true [of c s] size_true [of "other_version c" s1] size_missing [of c s]
    size_missing [of "other_version c" s1] g v
  show "view (snd (cidv0v1_GetSize bs c s)) = view s"
    using g v by (auto simp: cidv0v1_GetSize_def Let_def split: sum.splits)
  show "fst (cidv0v1_GetSize bs c s) = Inr n \<Longrightarrow> \<exists>d. both_view (view s) c = Some d \<and> n = length d"
    using facts by (auto simp: cidv0v1_GetSize_def Let_def both_view_def split: sum.splits if_splits)
  show "fst (cidv0v1_GetSize bs c s) = Inl BsErrNotFound \<Longrightarrow> both_view (view s) c = None"
    using facts by (auto simp: cidv0v1_GetSize_def Let_def both_view_None split: sum.splits if_splits)
qed

text \<open>What both versions show after an operation that adds blocks only.\<close>

lemma both_view_new:
  assumes new: "\<And>k d. w k = Some d \<Longrightarrow> v k = Some d \<or> (\<exists>b \<in> B. k \<in> versions (blk_cid b) \<and> d = blk_data b)"
    and old: "\<And>k d. v k = Some d \<Longrightarrow> \<exists>d'. w k = Some d'"
    and w: "both_view w k = Some d"
  shows "both_view v k = Some d \<or> (\<exists>b \<in> B. k \<in> versions (blk_cid b) \<and> d = blk_data b)"
proof (cases "w k = Some d")
  case True
  with new [OF this] show ?thesis by (auto simp: both_view_def)
next
  case False
  with both_view_Some [OF w] have o: "Defined (other_version k)" "w k = None" "w (other_version k) = Some d" by auto
  then have "v k = None" using old [of k] by (cases "v k") auto
  with new [OF o(3)] o versions_other [of k] show ?thesis by (auto simp: both_view_def)
qed

lemma cidv0v1_contract: "block_store (cidv0v1_NewBlockstore bs) (\<lambda>s. both_view (view s))"
proof unfold_locales
  let ?b = "cidv0v1_NewBlockstore bs"
  have ops: "bs_Has ?b = cidv0v1_Has bs" "bs_Get ?b = cidv0v1_Get bs" "bs_GetSize ?b = cidv0v1_GetSize bs"
    "bs_Put ?b = bs_Put bs" "bs_PutMany ?b = bs_PutMany bs" "bs_DeleteBlock ?b = bs_DeleteBlock bs"
    by (simp_all add: cidv0v1_NewBlockstore_def)
  fix c s k d b e blks h n
  show "both_view (view (snd (bs_Has ?b c s))) = both_view (view s)" by (simp add: ops cidv0v1_has)
  show "h \<longleftrightarrow> (\<exists>d. both_view (view s) c = Some d)" if "fst (bs_Has ?b c s) = Inr h"
    using that by (simp add: ops cidv0v1_has)
  show "both_view (view (snd (bs_Get ?b c s))) = both_view (view s)" by (simp add: ops cidv0v1_get_keeps)
  show "blk_cid b = c \<and> both_view (view s) c = Some (blk_data b)" if "fst (bs_Get ?b c s) = Inr b"
    using that by (simp add: ops cidv0v1_get_block)
  show "both_view (view s) c = None" if "fst (bs_Get ?b c s) = Inl BsErrNotFound" "Defined c"
    using that by (simp add: ops cidv0v1_get_missing)
  show "both_view (view (snd (bs_GetSize ?b c s))) = both_view (view s)" by (simp add: ops cidv0v1_size)
  show "\<exists>d. both_view (view s) c = Some d \<and> n = length d" if "fst (bs_GetSize ?b c s) = Inr n"
    using that by (simp add: ops cidv0v1_size)
  show "both_view (view s) c = None" if "fst (bs_GetSize ?b c s) = Inl BsErrNotFound"
    using that by (simp add: ops cidv0v1_size)
  show "\<exists>d. both_view (view (snd (bs_Put ?b b s))) (blk_cid b) = Some d" if "fst (bs_Put ?b b s) = None"
    using that put_done [of b s] by (auto simp: ops both_view_def)
  show "both_view (view (snd (bs_Put ?b b s))) = both_view (view s) \<and> e \<noteq> BsErrNotFound"
    if "fst (bs_Put ?b b s) = Some e" using that put_fail [of b s e] by (simp add: ops)
  show "\<exists>d'. both_view (view (snd (bs_Put ?b b s))) k = Some d'" if "both_view (view s) k = Some d"
    using both_view_Some [OF that] put_old [of s k d b] put_old [of s "other_version k" d b]
    by (auto simp: ops both_view_def split: option.splits)
  show "both_view (view s) k = Some d \<or> k \<in> versions (blk_cid b) \<and> d = blk_data b"
    if "both_view (view (snd (bs_Put ?b b s))) k = Some d"
    using both_view_new [of "view (snd (bs_Put bs b s))" "view s" "{b}" k d] put_new put_old that by (auto simp: ops)
  show "\<exists>d. both_view (view (snd (bs_PutMany ?b blks s))) (blk_cid b) = Some d"
    if "fst (bs_PutMany ?b blks s) = None" "b \<in> set blks"
    using that many_done [of blks s b] by (auto simp: ops both_view_def)
  show "both_view (view (snd (bs_PutMany ?b blks s))) = both_view (view s)"
    if "fst (bs_PutMany ?b blks s) = Some e" using that many_fail [of blks s e] by (simp add: ops)
  show "\<exists>d'. both_view (view (snd (bs_PutMany ?b blks s))) k = Some d'" if "both_view (view s) k = Some d"
    using both_view_Some [OF that] many_old [of s k d blks] many_old [of s "other_version k" d blks]
    by (auto simp: ops both_view_def split: option.splits)
  show "both_view (view s) k = Some d \<or> (\<exists>b \<in> set blks. k \<in> versions (blk_cid b) \<and> d = blk_data b)"
    if "both_view (view (snd (bs_PutMany ?b blks s))) k = Some d"
    using both_view_new [of "view (snd (bs_PutMany bs blks s))" "view s" "set blks" k d] many_new many_old that
    by (auto simp: ops)
  show "\<exists>k'. cid_Hash k' = cid_Hash k \<and> Defined k' = Defined k \<and> both_view (view s) k' = Some d"
    if "both_view (view (snd (bs_DeleteBlock ?b c s))) k = Some d"
  proof -
    from both_view_Some [OF that] other_version_hash [of k] other_version_Defined [of k]
    obtain k1 where k1: "cid_Hash k1 = cid_Hash k" "Defined k1 = Defined k" "view (snd (bs_DeleteBlock bs c s)) k1 = Some d"
      by (auto simp: ops)
    from delete_sub [OF k1(3)] k1(1,2) show ?thesis by (auto simp: both_view_def)
  qed
qed

end

section \<open>The stack keeps the contract\<close>

definition stack_view :: "blocks \<Rightarrow> cid \<Rightarrow> string option" where
  "stack_view s = both_view (id_view s)"

text \<open>A cache that keeps the contract of the store below it keeps that of the stack.\<close>

lemma BaseBlockstoreCtor_contract:
  assumes "\<And>b. block_store b (\<lambda>s :: blocks. s) \<Longrightarrow> block_store (cache b) (\<lambda>s. s)"
  shows "block_store (BaseBlockstoreCtor cache nilRepo hashOnRead cfg) stack_view"
proof -
  let ?v = "VerifBS (NewBlockstore (cfg\<lparr>ds_rehash := hashOnRead\<rparr>))"
  have "block_store (if \<not> nilRepo then cache ?v else ?v) (\<lambda>s. s)"
    using assms base.VerifBS_contract by simp
  from block_store.cidv0v1_contract [OF block_store.NewIdStore_contract [OF this]]
  show ?thesis by (simp add: BaseBlockstoreCtor_def stack_view_def [abs_def] Let_def)
qed

interpretation stack: block_store "BaseBlockstoreCtor id nilRepo hashOnRead cfg" stack_view
  by (rule BaseBlockstoreCtor_contract) simp

lemma intact_empty: "intact H (stack_view Map.empty)"
  by (auto simp: intact_def stack_view_def hash_ok_def both_view_def id_view_def extractContents_def
      split: option.splits if_splits dest: other_version_sha256 simp: other_version_hash SHA2_256_def IDENTITY_def)

lemma intact_system:
  assumes "block_store bs stack_view"
  shows "invariant_system (\<lambda>s. s = Map.empty) (bs_step H bs) (\<lambda>s. intact H (stack_view s))"
  using intact_empty block_store.step_intact [OF assms] by unfold_locales auto

interpretation stack_inv: invariant_system "\<lambda>s. s = Map.empty"
  "bs_step H (BaseBlockstoreCtor id nilRepo hashOnRead cfg)" "\<lambda>s. intact H (stack_view s)"
  by (rule intact_system) unfold_locales

lemma stack_put_versions:
  assumes put: "bs_Put (BaseBlockstoreCtor id nilRepo hashOnRead cfg) b s = (None, s1)"
    and c: "Defined c" "cid_wf (blk_cid b)" "c = blk_cid b \<or> c = other_version (blk_cid b)"
  shows "\<exists>d. stack_view s1 c = Some d"
proof -
  obtain d where d: "stack_view s1 (blk_cid b) = Some d" using stack.put_done [of nilRepo hashOnRead cfg b s] put by auto
  have undo: "other_version c = blk_cid b \<and> Defined (other_version c)" if o: "c = other_version (blk_cid b)"
    using o c(1,2) by (cases "blk_cid b") (auto simp: other_version_simps mk_mh_def split: if_splits)
  show ?thesis
  proof (cases "c = blk_cid b")
    case False
    with c(3) have o: "c = other_version (blk_cid b)" by simp
    then show ?thesis
      using d undo [OF o] both_view_Some [of "id_view s1" "blk_cid b" d]
      by (auto simp: stack_view_def both_view_def split: option.splits)
  qed (use d in simp)
qed

section \<open>Only accepted hash functions\<close>

text \<open>The second contract: the operations keep a property of the stored state.\<close>

locale kept_by =
  fixes bs :: "'s blockstore" and P :: "'s \<Rightarrow> bool"
  assumes kept: "P s \<Longrightarrow> P (snd (bs_Has bs c s))" "P s \<Longrightarrow> P (snd (bs_Get bs c s))"
    "P s \<Longrightarrow> P (snd (bs_GetSize bs c s))" "P s \<Longrightarrow> P (snd (bs_Put bs b s))"
    "P s \<Longrightarrow> P (snd (bs_PutMany bs blks s))" "P s \<Longrightarrow> P (snd (bs_DeleteBlock bs c s))"
begin

lemma step_kept: "bs_step H bs s t \<Longrightarrow> P s \<Longrightarrow> P t"
  by (induction rule: bs_step.induct) (auto intro: kept)

lemma kept_snd: "P s \<Longrightarrow> bs_Has bs c s = (r1, s') \<Longrightarrow> P s'" "P s \<Longrightarrow> bs_Get bs c s = (r2, s') \<Longrightarrow> P s'"
  "P s \<Longrightarrow> bs_GetSize bs c s = (r3, s') \<Longrightarrow> P s'" "P s \<Longrightarrow> bs_Put bs b s = (r4, s') \<Longrightarrow> P s'"
  using kept(1-4) by (metis snd_conv)+

lemma NewIdStore_kept: "kept_by (NewIdStore bs) P"
  by unfold_locales (auto simp: NewIdStore_def kept split: option.splits)

lemma cidv0v1_kept: "kept_by (cidv0v1_NewBlockstore bs) P"
  by unfold_locales
    (auto simp: cidv0v1_NewBlockstore_def kept cidv0v1_Has_def cidv0v1_Get_def cidv0v1_GetSize_def Let_def
      split: prod.splits sum.splits bool.splits option.splits intro: kept_snd dest: kept_snd)

end

definition secure :: "blocks \<Rightarrow> bool" where
  "secure s \<longleftrightarrow> (\<forall>k \<in> dom s. ValidateCid k = None)"

lemma VerifBS_secure: "kept_by (VerifBS (NewBlockstore cfg)) secure"
proof unfold_locales
  fix s blks
  assume s: "secure s"
  show "secure (snd (bs_PutMany (VerifBS (NewBlockstore cfg)) blks s))"
  proof (cases "validate_all blks")
    case None
    then have ok: "ValidateCid (blk_cid b) = None" if "b \<in> set blks" for b
      using that by (simp add: validate_all_None)
    have "secure (commit t s)" if "batch_puts cfg s blks [] = Inr t" for t
      using s ok batch_puts_sound [OF that] by (fastforce simp: secure_def dom_def dest: commit_new)
    with None s show ?thesis
      by (auto simp: VerifBS_def VerifBS_PutMany_def NewBlockstore_def base_PutMany_def split: option.splits sum.splits)
  qed (simp add: VerifBS_def VerifBS_PutMany_def s)
qed (auto simp: secure_def VerifBS_def VerifBS_Put_def VerifBS_Get_def NewBlockstore_def base_ops dom_def
    split: option.splits sum.splits if_splits)

text \<open>A cache changes the store only through the layer below it: what all operations of that layer keep, its own
  operations keep.\<close>

lemma BaseBlockstoreCtor_secure:
  assumes "\<And>b P. kept_by b P \<Longrightarrow> kept_by (cache b) P"
  shows "kept_by (BaseBlockstoreCtor cache nilRepo hashOnRead cfg) secure"
proof -
  let ?v = "VerifBS (NewBlockstore (cfg\<lparr>ds_rehash := hashOnRead\<rparr>))"
  have "kept_by (if \<not> nilRepo then cache ?v else ?v) secure"
    using assms [OF VerifBS_secure] VerifBS_secure by simp
  from kept_by.cidv0v1_kept [OF kept_by.NewIdStore_kept [OF this]]
  show ?thesis by (simp add: BaseBlockstoreCtor_def Let_def)
qed

lemma secure_system:
  assumes "kept_by bs secure"
  shows "invariant_system (\<lambda>s. s = Map.empty) (bs_step H bs) secure"
  by unfold_locales (simp add: secure_def, rule kept_by.step_kept [OF assms])

text \<open>A write that finds its block already there is skipped, as the caches of the repository do.\<close>

definition skip_known :: "'s blockstore \<Rightarrow> 's blockstore" where
  "skip_known b = b\<lparr>bs_Put := (\<lambda>blk s. case bs_Has b (blk_cid blk) s of
     (Inr True, s1) \<Rightarrow> (None, s1) | (_, s1) \<Rightarrow> bs_Put b blk s1)\<rparr>"

context kept_by
begin

lemma skip_known_kept: "kept_by (skip_known bs) P"
proof unfold_locales
  fix s and b :: block
  assume s: "P s"
  obtain r s1 where h: "bs_Has bs (blk_cid b) s = (r, s1)" by fastforce
  then have "P s1" "P (snd (bs_Put bs b s1))" using kept_snd(1) [OF s h] kept(4) by auto
  then show "P (snd (bs_Put (skip_known bs) b s))"
    using h by (auto simp: skip_known_def split: sum.splits bool.splits)
qed (simp_all add: skip_known_def kept)

end

interpretation stack_secure: kept_by "BaseBlockstoreCtor skip_known nilRepo hashOnRead cfg" secure
  by (rule BaseBlockstoreCtor_secure) (rule kept_by.skip_known_kept)

section \<open>Properties\<close>

definition ex_ds :: ds_cfg where
  "ex_ds = \<lparr>ds_fault = (\<lambda>_ _. None), ds_sum = (\<lambda>_ _. Inl ''unused''), ds_rehash = False\<rparr>"

abbreviation ex_store :: "blocks blockstore" where
  "ex_store \<equiv> BaseBlockstoreCtor id True False ex_ds"

definition ex_block :: block where
  "ex_block = mk_block ''data'' (ex_cid (CHR ''A''))"

definition ex_hash :: "multihash \<Rightarrow> string \<Rightarrow> bool" where
  "ex_hash h d \<longleftrightarrow> h = mk_mh SHA2_256 (replicate 32 (CHR ''A'')) \<and> d = ''data''"

lemma ex_put_reach: "reach (\<lambda>s. s = Map.empty) (bs_step ex_hash ex_store) (snd (bs_Put ex_store ex_block Map.empty))"
proof (rule reach_step)
  show "bs_step ex_hash ex_store Map.empty (snd (bs_Put ex_store ex_block Map.empty))"
    by (rule step_Put) (simp add: hash_ok_def extractContents_def ex_hash_def ex_block_def ex_cid_def mk_mh_def
        SHA2_256_def IDENTITY_def)
qed (simp add: reach_init)

text \<open>C4. A blockstore returns what was asked for: in every state the node's stack of stores reaches from an
  empty one, through any sequence of operations whose puts carry data that belongs to their CID, a
  successful \<^verbatim>\<open>Get\<close> returns a block with exactly the CID asked for and with data that belongs to it; the copies that
  \<^verbatim>\<open>cidv0v1\<close> makes under the other version are included. The cache is any layer that keeps the contract.\<close>

theorem Blockstore_integrity:
  assumes cache: "\<And>b. block_store b (\<lambda>s :: blocks. s) \<Longrightarrow> block_store (cache b) (\<lambda>s. s)"
    and reach: "reach (\<lambda>s. s = Map.empty) (bs_step H (BaseBlockstoreCtor cache nilRepo hashOnRead cfg)) s"
    and get: "bs_Get (BaseBlockstoreCtor cache nilRepo hashOnRead cfg) c s = (Inr b, s')"
  shows "blk_cid b = c \<and> hash_ok H c (blk_data b)"
proof -
  have store: "block_store (BaseBlockstoreCtor cache nilRepo hashOnRead cfg) stack_view"
    by (rule BaseBlockstoreCtor_contract) (rule cache)
  have "intact H (stack_view s)"
    using invariant_system.reach_inv [OF intact_system [OF store] reach] .
  with block_store.get_block [OF store, where c = c and s = s and b = b] get show ?thesis
    by (simp add: intact_def)
qed

theorem Blockstore_integrity_witness:
  "map_sum id (\<lambda>b. (blk_cid b = CidV1 DagProtobuf (mk_mh SHA2_256 (replicate 32 (CHR ''A''))), blk_data b))
     (fst (bs_Get ex_store (CidV1 DagProtobuf (mk_mh SHA2_256 (replicate 32 (CHR ''A''))))
        (snd (bs_Put ex_store ex_block Map.empty)))) = Inr (True, ''data'')"
proof -
  let ?c = "CidV1 DagProtobuf (mk_mh SHA2_256 (replicate 32 (CHR ''A'')))"
  let ?s = "snd (bs_Put ex_store ex_block Map.empty)"
  have "map_sum id (\<lambda>b. ()) (fst (bs_Get ex_store ?c ?s)) = Inr ()" by code_simp
  then obtain b s' where get: "bs_Get ex_store ?c ?s = (Inr b, s')"
    by (cases "bs_Get ex_store ?c ?s"; cases "fst (bs_Get ex_store ?c ?s)") auto
  have "blk_cid b = ?c \<and> hash_ok ex_hash ?c (blk_data b)"
    by (rule Blockstore_integrity [where cache = id, OF _ ex_put_reach get]) simp
  with get show ?thesis
    by (simp add: hash_ok_def extractContents_def ex_hash_def mk_mh_def SHA2_256_def IDENTITY_def)
qed

text \<open>Both versions of a CID name one block: once a block was put successfully, under its CID or the
  other version of it, \<^verbatim>\<open>Has\<close> never answers no and \<^verbatim>\<open>Get\<close> never answers not found, and a block that \<^verbatim>\<open>Get\<close>
  returns carries the version asked for.\<close>

lemma Blockstore_both_versions:
  assumes "bs_Put (BaseBlockstoreCtor id nilRepo hashOnRead cfg) b s = (None, s1)"
    and "Defined c" "cid_wf (blk_cid b)" "c = blk_cid b \<or> c = other_version (blk_cid b)"
  shows "fst (bs_Has (BaseBlockstoreCtor id nilRepo hashOnRead cfg) c s1) \<noteq> Inr False \<and>
    fst (bs_Get (BaseBlockstoreCtor id nilRepo hashOnRead cfg) c s1) \<noteq> Inl BsErrNotFound \<and>
    (\<forall>b'. fst (bs_Get (BaseBlockstoreCtor id nilRepo hashOnRead cfg) c s1) = Inr b' \<longrightarrow> blk_cid b' = c)"
proof -
  obtain d where "stack_view s1 c = Some d" using stack_put_versions [OF assms] by auto
  then show ?thesis
    using stack.has_true [of nilRepo hashOnRead cfg c s1 False] stack.get_missing [of nilRepo hashOnRead cfg c s1] assms(2)
      stack.get_block [of nilRepo hashOnRead cfg c s1] by auto
qed

lemma Blockstore_both_versions_witness:
  "fst (bs_Get ex_store (other_version (ex_cid (CHR ''A''))) (snd (bs_Put ex_store ex_block Map.empty))) \<noteq> Inl BsErrNotFound"
proof -
  have "fst (bs_Put ex_store ex_block Map.empty) = None" by code_simp
  then have put: "bs_Put ex_store ex_block Map.empty = (None, snd (bs_Put ex_store ex_block Map.empty))"
    by (metis prod.collapse)
  show ?thesis
    using Blockstore_both_versions [OF put, of "other_version (ex_cid (CHR ''A''))"]
    by (simp add: ex_block_def ex_cid_def other_version_V0)
qed

text \<open>C18. Only accepted hash functions get in: in every state the stack reaches from an empty store by any
  sequence of operations, every stored CID uses an accepted hash function with a long enough digest. The cache is any
  layer that changes the store only through the operations of the layer below it.\<close>

theorem Blockstore_secure:
  assumes cache: "\<And>b P. kept_by b P \<Longrightarrow> kept_by (cache b) P"
    and "reach (\<lambda>s. s = Map.empty) (bs_step H (BaseBlockstoreCtor cache nilRepo hashOnRead cfg)) s"
    and "s k \<noteq> None"
  shows "ValidateCid k = None"
proof -
  have "kept_by (BaseBlockstoreCtor cache nilRepo hashOnRead cfg) secure"
    by (rule BaseBlockstoreCtor_secure) (rule cache)
  from invariant_system.reach_inv [OF secure_system [OF this] assms(2)] assms(3) show ?thesis
    by (auto simp: secure_def dom_def)
qed

abbreviation cached_store :: "blocks blockstore" where
  "cached_store \<equiv> BaseBlockstoreCtor skip_known False False ex_ds"

theorem Blockstore_secure_witness:
  "fst (bs_Put cached_store (mk_block ''x'' (CidV1 Raw (mk_mh 0xd5 ''0123456789abcdef''))) Map.empty) =
     Some (BsErrVerif ErrPossiblyInsecureHashFunction)
   \<and> snd (bs_Put cached_store ex_block Map.empty) (ex_cid (CHR ''A'')) = Some ''data'' \<and> ValidateCid (ex_cid (CHR ''A'')) = None"
proof (intro conjI)
  show "fst (bs_Put cached_store (mk_block ''x'' (CidV1 Raw (mk_mh 0xd5 ''0123456789abcdef''))) Map.empty) =
     Some (BsErrVerif ErrPossiblyInsecureHashFunction)"
    by (simp add: BaseBlockstoreCtor_def Let_def cidv0v1_NewBlockstore_def NewIdStore_def skip_known_def VerifBS_def VerifBS_Put_def
        NewBlockstore_def base_Has_def ex_ds_def extractContents_def mk_mh_def IDENTITY_def ValidateCid_def IsGoodHash_def goodset_def)
  show put: "snd (bs_Put cached_store ex_block Map.empty) (ex_cid (CHR ''A'')) = Some ''data''" by code_simp
  have run: "reach (\<lambda>s. s = Map.empty) (bs_step ex_hash cached_store) (snd (bs_Put cached_store ex_block Map.empty))"
  proof (rule reach_step)
    show "bs_step ex_hash cached_store Map.empty (snd (bs_Put cached_store ex_block Map.empty))"
      by (rule step_Put) (simp add: hash_ok_def extractContents_def ex_hash_def ex_block_def ex_cid_def mk_mh_def
          SHA2_256_def IDENTITY_def)
  qed (simp add: reach_init)
  show "ValidateCid (ex_cid (CHR ''A'')) = None"
    by (rule Blockstore_secure [OF kept_by.skip_known_kept run]) (simp_all add: put)
qed

end
