(* ===== verification/Hostname.thy ===== *)
theory Hostname
  imports Cid
begin

text \<open>
  The hostname gateway (\<^verbatim>\<open>core/corehttp/hostname.go\<close>): which requests are served by path, which are
  redirected to a subdomain and how subdomains map back to paths. Text encodings of CIDs and peer IDs, DNS
  name syntax, name resolution and URL parsing are parameters (\<open>hn_env\<close>); Go's regular expressions are modelled
  for the patterns a plain hostname with wildcards compiles to, and are a parameter beyond that. A panic
  is the left summand of a result.
\<close>

section \<open>Hosts and ports\<close>

datatype gopanic = NilDereference

text \<open>\<^verbatim>\<open>net.SplitHostPort\<close>, its host part; \<open>None\<close> is any of its errors.\<close>

fun last_index :: "char \<Rightarrow> string \<Rightarrow> nat option" where
  "last_index c [] = None"
| "last_index c (x # xs) =
     (case last_index c xs of Some i \<Rightarrow> Some (Suc i) | None \<Rightarrow> if x = c then Some 0 else None)"

fun first_index :: "char \<Rightarrow> string \<Rightarrow> nat option" where
  "first_index c [] = None"
| "first_index c (x # xs) = (if x = c then Some 0 else map_option Suc (first_index c xs))"

definition SplitHostPort :: "string \<Rightarrow> string option" where
  "SplitHostPort hp =
     (case last_index (CHR '':'') hp of
        None \<Rightarrow> None
      | Some i \<Rightarrow>
          if hd hp = CHR ''['' then
            (case first_index (CHR '']'') hp of
               None \<Rightarrow> None
             | Some endb \<Rightarrow>
                 if Suc endb \<noteq> i then None
                 else if CHR ''['' \<in> set (drop 1 hp) \<or> CHR '']'' \<in> set (drop (Suc endb) hp) then None
                 else Some (take (endb - 1) (drop 1 hp)))
          else if CHR '':'' \<in> set (take i hp) then None
          else if CHR ''['' \<in> set hp \<or> CHR '']'' \<in> set hp then None
          else Some (take i hp))"

definition stripPort :: "string \<Rightarrow> string" where
  "stripPort hostname = (case SplitHostPort hostname of Some host \<Rightarrow> host | None \<Rightarrow> hostname)"

section \<open>Known gateways\<close>

record GatewaySpec =
  Paths :: "string list"
  UseSubdomains :: bool
  NoDNSLink :: bool

definition defaultPaths :: "string list" where
  "defaultPaths = [''/ipfs/'', ''/ipns/'', ''/api/'', ''/p2p/'']"

definition subdomainGatewaySpec :: GatewaySpec where
  "subdomainGatewaySpec = \<lparr>Paths = defaultPaths, UseSubdomains = True, NoDNSLink = False\<rparr>"

text \<open>A compiled wildcard; \<open>None\<close> is the nil regular expression of a failed compilation.\<close>

record wildcardHost =
  re :: "(string \<Rightarrow> bool) option"
  spec :: GatewaySpec

record gatewayHosts =
  exact :: "string \<rightharpoonup> GatewaySpec"
  wildcard :: "wildcardHost list"

definition digit :: "char \<Rightarrow> bool" where
  "digit c \<longleftrightarrow> c \<in> set ''0123456789''"

definition host_char :: "char \<Rightarrow> bool" where
  "host_char c \<longleftrightarrow>
     c \<in> set ''0123456789abcdefghijklmnopqrstuvwxyzABCDEFGHIJKLMNOPQRSTUVWXYZ-_.:*''"

text \<open>
  The regular expression \<^verbatim>\<open>^P(?::\d+)?$\<close> for a plain hostname, where \<open>P\<close> is the hostname with \<^verbatim>\<open>.\<close> escaped and
  \<^verbatim>\<open>*\<close> replaced by \<^verbatim>\<open>[^.]+\<close>.
\<close>

definition port_suffix :: "string \<Rightarrow> bool" where
  "port_suffix s \<longleftrightarrow> s = [] \<or> (hd s = CHR '':'' \<and> tl s \<noteq> [] \<and> list_all digit (tl s))"

function wild_match :: "string \<Rightarrow> string \<Rightarrow> bool" where
  "wild_match [] s = port_suffix s"
| "wild_match (p # ps) [] = False"
| "wild_match (p # ps) (x # xs) =
     (if p = CHR ''*'' then x \<noteq> CHR ''.'' \<and> (wild_match ps xs \<or> wild_match (p # ps) xs)
      else p = x \<and> wild_match ps xs)"
  by pat_completeness auto
termination by (relation "measure (\<lambda>(p, s). length p + length s)") auto

definition compile_wildcard :: "(string \<Rightarrow> (string \<Rightarrow> bool) option) \<Rightarrow> string \<Rightarrow> (string \<Rightarrow> bool) option" where
  "compile_wildcard rx hostname =
     (if list_all host_char hostname then Some (wild_match hostname)
      else rx (''^'' @ replace_char (CHR ''*'') ''[^.]+'' (replace_char (CHR ''.'') [CHR 0x5C, CHR ''.''] hostname) @
               ''(?::'' @ [CHR 0x5C] @ ''d+)?$''))"

definition defaultKnownGateways :: "string \<rightharpoonup> GatewaySpec" where
  "defaultKnownGateways = [''localhost'' \<mapsto> subdomainGatewaySpec]"

text \<open>One round of the loop over \<^verbatim>\<open>publicGateways\<close>; a nil entry is \<open>None\<close>. The order of the list is the
  iteration order, which Go leaves open.\<close>

definition prepare_one ::
  "(string \<Rightarrow> (string \<Rightarrow> bool) option) \<Rightarrow> gatewayHosts \<Rightarrow> string \<times> GatewaySpec option \<Rightarrow> gatewayHosts" where
  "prepare_one rx hosts entry =
     (case entry of
        (hostname, None) \<Rightarrow> hosts\<lparr>exact := (exact hosts)(hostname := None)\<rparr>
      | (hostname, Some gw) \<Rightarrow>
          if CHR ''*'' \<in> set hostname
          then hosts\<lparr>wildcard := wildcard hosts @ [\<lparr>re = compile_wildcard rx hostname, spec = gw\<rparr>]\<rparr>
          else hosts\<lparr>exact := (exact hosts)(hostname \<mapsto> gw)\<rparr>)"

definition prepareKnownGateways ::
  "(string \<Rightarrow> (string \<Rightarrow> bool) option) \<Rightarrow> (string \<times> GatewaySpec option) list \<Rightarrow> gatewayHosts" where
  "prepareKnownGateways rx publicGateways =
     foldl (prepare_one rx) \<lparr>exact = defaultKnownGateways, wildcard = []\<rparr> publicGateways"

fun match_wildcards :: "string \<Rightarrow> wildcardHost list \<Rightarrow> gopanic + GatewaySpec option" where
  "match_wildcards hostname [] = Inr None"
| "match_wildcards hostname (host # hosts) =
     (case re host of
        None \<Rightarrow> Inl NilDereference
      | Some m \<Rightarrow> if m hostname then Inr (Some (spec host)) else match_wildcards hostname hosts)"

definition isKnownHostname :: "string \<Rightarrow> gatewayHosts \<Rightarrow> gopanic + GatewaySpec option" where
  "isKnownHostname hostname gws =
     (case exact gws hostname of
        Some gw \<Rightarrow> Inr (Some gw)
      | None \<Rightarrow>
          (case exact gws (stripPort hostname) of
             Some gw \<Rightarrow> Inr (Some gw)
           | None \<Rightarrow> match_wildcards hostname (wildcard gws)))"

definition isSubdomainNamespace :: "string \<Rightarrow> bool" where
  "isSubdomainNamespace ns \<longleftrightarrow> ns \<in> {''ipfs'', ''ipns'', ''p2p'', ''ipld''}"

definition isPeerIDNamespace :: "string \<Rightarrow> bool" where
  "isPeerIDNamespace ns \<longleftrightarrow> ns \<in> {''ipns'', ''p2p''}"

record subdomain_details =
  sd_gw :: GatewaySpec
  sd_gwHostname :: string
  sd_ns :: string
  sd_rootID :: string

text \<open>The loop of \<^verbatim>\<open>knownSubdomainDetails\<close> from index \<open>i\<close> down to 2.\<close>

fun subdomain_loop :: "gatewayHosts \<Rightarrow> string list \<Rightarrow> nat \<Rightarrow> gopanic + subdomain_details option" where
  "subdomain_loop gws labels i =
     (if i < 2 then Inr None
      else
        (let fqdn = join ''.'' (drop i labels) in
         bind_res (isKnownHostname fqdn gws) (\<lambda>gw.
           case gw of
             None \<Rightarrow> subdomain_loop gws labels (i - 1)
           | Some gw \<Rightarrow>
               (let ns = labels ! (i - 1) in
                if \<not> isSubdomainNamespace ns then subdomain_loop gws labels (i - 1)
                else Inr (Some \<lparr>sd_gw = gw, sd_gwHostname = fqdn, sd_ns = ns,
                                sd_rootID = join ''.'' (take (i - 1) labels)\<rparr>)))))"

declare subdomain_loop.simps [simp del]

definition knownSubdomainDetails :: "string \<Rightarrow> gatewayHosts \<Rightarrow> gopanic + subdomain_details option" where
  "knownSubdomainDetails hostname gws =
     (let labels = split_on (CHR ''.'') hostname in subdomain_loop gws labels (length labels - 1))"

fun hasPrefix :: "string \<Rightarrow> string list \<Rightarrow> bool" where
  "hasPrefix path [] = False"
| "hasPrefix path (pfx # pfxs) =
     (let p = trim_suffix pfx ''/'' in
      p = path \<or> prefix (p @ ''/'') path \<or> hasPrefix path pfxs)"

section \<open>Names and labels\<close>

datatype mbase = Base32 | Base36

text \<open>What the gateway asks of other packages: peer IDs and CIDs as text, DNS name syntax, the outcome of a
  one-step name resolution (whether it succeeded or stopped at the recursion limit), URL parsing.\<close>

record hn_env =
  peer_Decode :: "string \<Rightarrow> string option"
  peer_ToCid :: "string \<Rightarrow> cid"
  cid_String :: "cid \<Rightarrow> string"
  cid_Decode :: "string \<Rightarrow> cid option"
  StringOfBase :: "mbase \<Rightarrow> cid \<Rightarrow> err + string"
  IsDomainName :: "string \<Rightarrow> bool"
  Name_Resolve :: "string \<Rightarrow> bool"
  ParseRequestURI :: "string \<Rightarrow> err + string"

definition dnsLabelMaxLength :: nat where "dnsLabelMaxLength = 63"

definition isDomainNameAndNotPeerID :: "hn_env \<Rightarrow> string \<Rightarrow> bool" where
  "isDomainNameAndNotPeerID env hostname \<longleftrightarrow>
     hostname \<noteq> [] \<and> peer_Decode env hostname = None \<and> IsDomainName env hostname"

definition isDNSLinkName :: "hn_env \<Rightarrow> string \<Rightarrow> bool" where
  "isDNSLinkName env host \<longleftrightarrow>
     (let dnslinkName = stripPort host in
      isDomainNameAndNotPeerID env dnslinkName \<and> Name_Resolve env (''/ipns/'' @ dnslinkName))"

definition toDNSLabel :: "hn_env \<Rightarrow> string \<Rightarrow> cid \<Rightarrow> err + string" where
  "toDNSLabel env rootID rootCID =
     (if length rootID \<le> dnsLabelMaxLength then Inr rootID
      else
        bind_res (StringOfBase env Base36 (NewCidV1 (cid_Type rootCID) (cid_Hash rootCID))) (\<lambda>rootID.
          if length rootID \<le> dnsLabelMaxLength then Inr rootID
          else Inl (''CID incompatible with DNS label length limit of 63: '' @ rootID)))"

definition toDNSLinkDNSLabel :: "string \<Rightarrow> err + string" where
  "toDNSLinkDNSLabel fqdn =
     (let dnsLabel = replace_char (CHR ''.'') ''-'' (replace_char (CHR ''-'') ''--'' fqdn) in
      if length dnsLabel > dnsLabelMaxLength
      then Inl (''DNSLink representation incompatible with DNS label length limit of 63: '' @ dnsLabel)
      else Inr dnsLabel)"

definition toDNSLinkFQDN :: "string \<Rightarrow> string" where
  "toDNSLinkFQDN dnsLabel =
     replace_char (CHR ''@'') ''-'' (replace_char (CHR ''-'') ''.'' (replace_pair (CHR ''-'') ''@'' dnsLabel))"

section \<open>Requests\<close>

record request =
  Host :: string
  XForwardedHost :: string
  XForwardedProto :: string
  Scheme :: string
  Path :: string
  RawQuery :: string

definition isHTTPSRequest :: "request \<Rightarrow> bool" where
  "isHTTPSRequest r \<longleftrightarrow> Scheme r = ''https'' \<or> XForwardedProto r = ''https''"

text \<open>The root of a subdomain URL: a CID is normalised and made to fit a DNS label, a DNSLink name is inlined
  on HTTPS, anything else is left as it is.\<close>

definition normalize_peer :: "hn_env \<Rightarrow> string \<Rightarrow> string \<Rightarrow> string" where
  "normalize_peer env ns rootID =
     (if isPeerIDNamespace ns \<and> \<not> isDomainNameAndNotPeerID env rootID then
        (case peer_Decode env rootID of
           Some peerID \<Rightarrow> cid_String env (peer_ToCid env peerID)
         | None \<Rightarrow> rootID)
      else rootID)"

definition subdomain_root :: "hn_env \<Rightarrow> bool \<Rightarrow> string \<Rightarrow> string \<Rightarrow> err + string" where
  "subdomain_root env isHTTPS ns rootID =
     (case cid_Decode env rootID of
        Some rootCID \<Rightarrow>
          (let peerns = isPeerIDNamespace ns;
               base = (if peerns then Base36 else Base32);
               multicodec = (if peerns \<and> cid_Type rootCID \<noteq> Libp2pKey then Libp2pKey else cid_Type rootCID);
               rootCID = NewCidV1 multicodec (cid_Hash rootCID)
           in bind_res (StringOfBase env base rootCID) (\<lambda>rootID. toDNSLabel env rootID rootCID))
      | None \<Rightarrow>
          if isHTTPS \<and> ns = ''ipns'' \<and> contains ''.'' rootID \<and> isDNSLinkName env rootID
          then toDNSLinkDNSLabel rootID
          else Inr rootID)"

text \<open>\<^verbatim>\<open>toSubdomainURL\<close>; the empty string means that the path is no subdomain resource.\<close>

definition toSubdomainURL :: "hn_env \<Rightarrow> string \<Rightarrow> string \<Rightarrow> request \<Rightarrow> err + string" where
  "toSubdomainURL env hostname path r =
     (let parts = split_n 4 (CHR ''/'') path;
          isHTTPS = isHTTPSRequest r;
          scheme = (if isHTTPS then ''https:'' else ''http:'');
          query = (if RawQuery r \<noteq> [] then ''?'' @ RawQuery r else [])
      in
      if length parts = 3 \<or> length parts = 4 then
        (let rest = (if length parts = 4 then parts ! 3 else []); ns = parts ! 1; rootID = parts ! 2 in
         if \<not> isSubdomainNamespace ns then Inr []
         else
           bind_res (subdomain_root env isHTTPS ns (normalize_peer env ns rootID)) (\<lambda>rootID.
             ParseRequestURI env
               (scheme @ ''//'' @ rootID @ ''.'' @ ns @ ''.'' @ hostname @ ''/'' @ rest @ query)))
      else Inr [])"

text \<open>What the handler does with a request: an error page, a redirect, or the child handler with a path, a
  Location header and a hostname in the context.\<close>

datatype response =
    BadRequest err
  | NotFound
  | MovedPermanently string
  | Serve "string option" string "string option"

definition serve_path :: "hn_env \<Rightarrow> GatewaySpec \<Rightarrow> string \<Rightarrow> request \<Rightarrow> response" where
  "serve_path env gw host r =
     (if UseSubdomains gw then
        (case toSubdomainURL env host (Path r) r of
           Inl e \<Rightarrow> BadRequest e
         | Inr newURL \<Rightarrow> Serve (if newURL \<noteq> [] then Some newURL else None) (Path r) None)
      else Serve None (Path r) None)"

definition serve_dnslink :: "string \<Rightarrow> request \<Rightarrow> response" where
  "serve_dnslink host r = Serve None (''/ipns/'' @ stripPort host @ Path r) (Some host)"

text \<open>The two redirects of a subdomain request whose root is a CID: to the canonical label, and to the right
  multicodec of a peer ID.\<close>

definition canonical_redirect :: "hn_env \<Rightarrow> subdomain_details \<Rightarrow> cid \<Rightarrow> request \<Rightarrow> response option" where
  "canonical_redirect env sd rootCID r =
     (case toDNSLabel env (sd_rootID sd) rootCID of
        Inl e \<Rightarrow> Some (BadRequest e)
      | Inr dnsCID \<Rightarrow>
          if \<not> prefix dnsCID (Host r) then
            (case toSubdomainURL env (sd_gwHostname sd) (''/'' @ sd_ns sd @ ''/'' @ dnsCID @ Path r) r of
               Inl e \<Rightarrow> Some (BadRequest e)
             | Inr newURL \<Rightarrow> if newURL \<noteq> [] then Some (MovedPermanently newURL) else None)
          else None)"

definition multicodec_redirect :: "hn_env \<Rightarrow> subdomain_details \<Rightarrow> cid \<Rightarrow> string \<Rightarrow> request \<Rightarrow> response option" where
  "multicodec_redirect env sd rootCID pathPrefix r =
     (if isPeerIDNamespace (sd_ns sd) \<and> cid_Type rootCID \<noteq> Libp2pKey then
        (case toSubdomainURL env (sd_gwHostname sd) (pathPrefix @ Path r) r of
           Inl e \<Rightarrow> Some (BadRequest e)
         | Inr newURL \<Rightarrow> if newURL \<noteq> [] then Some (MovedPermanently newURL) else None)
      else None)"

text \<open>The path prefix of a subdomain request whose root is no CID: an inlined DNSLink name is expanded when that,
  and not the label itself, has a record.\<close>

definition dnslink_prefix :: "hn_env \<Rightarrow> string \<Rightarrow> string \<Rightarrow> string \<Rightarrow> string" where
  "dnslink_prefix env ns rootID pathPrefix =
     (if ns = ''ipns'' \<and> \<not> contains ''.'' rootID \<and> \<not> isDNSLinkName env rootID
         \<and> isDNSLinkName env (toDNSLinkFQDN rootID)
      then ''/ipns/'' @ toDNSLinkFQDN rootID else pathPrefix)"

definition serve_subdomain :: "hn_env \<Rightarrow> subdomain_details \<Rightarrow> request \<Rightarrow> response" where
  "serve_subdomain env sd r =
     (let pathPrefix = ''/'' @ sd_ns sd @ ''/'' @ sd_rootID sd in
      if \<not> (UseSubdomains (sd_gw sd) \<and> hasPrefix pathPrefix (Paths (sd_gw sd))) then NotFound
      else
        (case cid_Decode env (sd_rootID sd) of
           Some rootCID \<Rightarrow>
             (case canonical_redirect env sd rootCID r of
                Some resp \<Rightarrow> resp
              | None \<Rightarrow>
                  (case multicodec_redirect env sd rootCID pathPrefix r of
                     Some resp \<Rightarrow> resp
                   | None \<Rightarrow> Serve None (pathPrefix @ Path r) (Some (sd_gwHostname sd))))
         | None \<Rightarrow>
             Serve None (dnslink_prefix env (sd_ns sd) (sd_rootID sd) pathPrefix @ Path r) (Some (sd_gwHostname sd))))"

definition handler :: "hn_env \<Rightarrow> gatewayHosts \<Rightarrow> bool \<Rightarrow> request \<Rightarrow> gopanic + response" where
  "handler env gws noDNSLink r =
     (let host = (if XForwardedHost r \<noteq> [] then XForwardedHost r else Host r) in
      bind_res (isKnownHostname host gws) (\<lambda>gw.
        case gw of
          Some gw \<Rightarrow>
            Inr (if hasPrefix (Path r) (Paths gw) then serve_path env gw host r
                 else if \<not> NoDNSLink gw \<and> isDNSLinkName env host then serve_dnslink host r
                 else NotFound)
        | None \<Rightarrow>
            bind_res (knownSubdomainDetails host gws) (\<lambda>sd.
              case sd of
                Some sd \<Rightarrow> Inr (serve_subdomain env sd r)
              | None \<Rightarrow>
                  Inr (if \<not> noDNSLink \<and> isDNSLinkName env host then serve_dnslink host r
                       else Serve None (Path r) None))))"

section \<open>Inlined DNSLink names\<close>

text \<open>The names the inlining can be undone for: no \<^verbatim>\<open>@\<close>, and no dot followed by a dash or a dot.\<close>

definition inlinable :: "string \<Rightarrow> bool" where
  "inlinable fqdn \<longleftrightarrow> CHR ''@'' \<notin> set fqdn \<and> \<not> contains ''.-'' fqdn \<and> \<not> contains ''..'' fqdn"

lemma inlinable_Cons: "inlinable (x # s) \<Longrightarrow> inlinable s"
  by (auto simp: inlinable_def)

lemma inlinable_dot:
  "inlinable (CHR ''.'' # s) \<Longrightarrow> s = [] \<or> (hd s \<noteq> CHR ''-'' \<and> hd s \<noteq> CHR ''.'')"
  by (cases s) (auto simp: inlinable_def)

definition label_char :: "char \<Rightarrow> string" where
  "label_char c = (if c = CHR ''-'' then ''--'' else if c = CHR ''.'' then ''-'' else [c])"

lemma label_chars:
  "replace_char (CHR ''.'') ''-'' (replace_char (CHR ''-'') ''--'' s) = concat (map label_char s)"
  by (induction s) (auto simp: label_char_def)

definition marked_char :: "char \<Rightarrow> char" where
  "marked_char c = (if c = CHR ''-'' then CHR ''@'' else if c = CHR ''.'' then CHR ''-'' else c)"

lemma replace_pair_label:
  "inlinable s \<Longrightarrow> replace_pair (CHR ''-'') ''@'' (concat (map label_char s)) = map marked_char s"
proof (induction s)
  case (Cons x s)
  note IH = Cons.IH [OF inlinable_Cons [OF Cons.prems]]
  consider "x = CHR ''-''" | "x = CHR ''.''" "s = []" | y t where "x = CHR ''.''" "s = y # t" | "x \<noteq> CHR ''-''" "x \<noteq> CHR ''.''"
    by (cases s) auto
  then show ?case
  proof cases
    case 3
    then have "y \<noteq> CHR ''-''" "y \<noteq> CHR ''.''" using inlinable_dot [of s] Cons.prems by auto
    with 3 IH show ?thesis
      by (simp add: label_char_def [of "CHR ''.''"] label_char_def [of y] marked_char_def [of "CHR ''.''"])
  qed (use IH in \<open>auto simp: label_char_def marked_char_def replace_pair_Cons_neq\<close>)
qed simp

lemma unmark: "CHR ''@'' \<notin> set s \<Longrightarrow>
  replace_char (CHR ''@'') ''-'' (replace_char (CHR ''-'') ''.'' (map marked_char s)) = s"
  by (induction s) (auto simp: marked_char_def)

section \<open>Subdomains\<close>

lemma subdomain_loop_Suc:
  "subdomain_loop gws labels (Suc i) =
    (if i = 0 then Inr None
     else case isKnownHostname (join ''.'' (drop (Suc i) labels)) gws of
       Inl p \<Rightarrow> Inl p
     | Inr None \<Rightarrow> subdomain_loop gws labels i
     | Inr (Some gw) \<Rightarrow>
         if \<not> isSubdomainNamespace (labels ! i) then subdomain_loop gws labels i
         else Inr (Some \<lparr>sd_gw = gw, sd_gwHostname = join ''.'' (drop (Suc i) labels), sd_ns = labels ! i,
                         sd_rootID = join ''.'' (take i labels)\<rparr>))"
  by (subst subdomain_loop.simps) (auto simp: Let_def split: sum.splits option.splits)

lemma subdomain_loop_Some:
  "subdomain_loop gws labels i = Inr (Some sd) \<Longrightarrow>
    \<exists>j. 2 \<le> j \<and> j \<le> i \<and> isKnownHostname (join ''.'' (drop j labels)) gws = Inr (Some (sd_gw sd)) \<and>
      sd_gwHostname sd = join ''.'' (drop j labels) \<and> sd_ns sd = labels ! (j - 1) \<and>
      isSubdomainNamespace (sd_ns sd) \<and> sd_rootID sd = join ''.'' (take (j - 1) labels)"
proof (induction i)
  case (Suc i)
  show ?case
  proof (cases "subdomain_loop gws labels i = Inr (Some sd)")
    case True
    from Suc.IH [OF this] show ?thesis by (auto intro: le_SucI)
  next
    case False
    with Suc.prems show ?thesis
      by (auto simp: subdomain_loop_Suc split: if_splits sum.splits option.splits intro!: exI [of _ "Suc i"])
  qed
qed (simp add: subdomain_loop.simps)

lemma subdomain_loop_None:
  "subdomain_loop gws labels i = Inr None \<Longrightarrow> 2 \<le> j \<Longrightarrow> j \<le> i \<Longrightarrow>
    isSubdomainNamespace (labels ! (j - 1)) \<Longrightarrow> isKnownHostname (join ''.'' (drop j labels)) gws = Inr None"
proof (induction i)
  case (Suc i)
  show ?case
    using Suc.prems
    by (auto simp: subdomain_loop_Suc le_Suc_eq split: if_splits sum.splits option.splits intro: Suc.IH)
qed simp

lemma join_three:
  assumes "2 \<le> j" "j < length ls"
  shows "join ''.'' ls = join ''.'' (take (j - 1) ls) @ ''.'' @ ls ! (j - 1) @ ''.'' @ join ''.'' (drop j ls)"
proof -
  have "ls = take (j - 1) ls @ (ls ! (j - 1) # drop j ls)"
    using assms id_take_nth_drop [of "j - 1" ls] by simp
  then have "join ''.'' ls = join ''.'' (take (j - 1) ls @ (ls ! (j - 1) # drop j ls))" by simp
  also have "\<dots> = join ''.'' (take (j - 1) ls) @ ''.'' @ join ''.'' (ls ! (j - 1) # drop j ls)"
    by (rule join_append) (use assms in auto)
  finally show ?thesis using assms by (simp add: join_Cons)
qed

lemma knownSubdomainDetails_Some:
  assumes "knownSubdomainDetails hostname gws = Inr (Some sd)"
  shows "hostname = sd_rootID sd @ ''.'' @ sd_ns sd @ ''.'' @ sd_gwHostname sd"
    and "isKnownHostname (sd_gwHostname sd) gws = Inr (Some (sd_gw sd))" and "isSubdomainNamespace (sd_ns sd)"
proof -
  let ?ls = "split_on (CHR ''.'') hostname"
  from assms have "subdomain_loop gws ?ls (length ?ls - 1) = Inr (Some sd)" by (simp add: knownSubdomainDetails_def Let_def)
  then obtain j where j: "2 \<le> j" "j \<le> length ?ls - 1" and
    "isKnownHostname (join ''.'' (drop j ?ls)) gws = Inr (Some (sd_gw sd))"
    "sd_gwHostname sd = join ''.'' (drop j ?ls)" "sd_ns sd = ?ls ! (j - 1)"
    "isSubdomainNamespace (sd_ns sd)" "sd_rootID sd = join ''.'' (take (j - 1) ?ls)"
    by (blast dest: subdomain_loop_Some)
  moreover have "hostname = join ''.'' ?ls" by (simp add: join_split_on)
  moreover have "join ''.'' ?ls = join ''.'' (take (j - 1) ?ls) @ ''.'' @ ?ls ! (j - 1) @ ''.'' @ join ''.'' (drop j ?ls)"
    by (rule join_three) (use j in auto)
  ultimately show "hostname = sd_rootID sd @ ''.'' @ sd_ns sd @ ''.'' @ sd_gwHostname sd"
    and "isKnownHostname (sd_gwHostname sd) gws = Inr (Some (sd_gw sd))" and "isSubdomainNamespace (sd_ns sd)"
    by simp_all
qed

lemma isSubdomainNamespace_no_dot: "isSubdomainNamespace ns \<Longrightarrow> CHR ''.'' \<notin> set ns"
  by (auto simp: isSubdomainNamespace_def)

lemma knownSubdomainDetails_None:
  assumes "knownSubdomainDetails (rootID @ ''.'' @ ns @ ''.'' @ gw) gws = Inr None" "isSubdomainNamespace ns"
  shows "isKnownHostname gw gws = Inr None"
proof -
  let ?r = "split_on (CHR ''.'') rootID" and ?g = "split_on (CHR ''.'') gw"
  have ls: "split_on (CHR ''.'') (rootID @ ''.'' @ ns @ ''.'' @ gw) = ?r @ ns # ?g"
    using isSubdomainNamespace_no_dot [OF assms(2)] by (simp add: split_on_append split_on_append_sep)
  have "0 < length ?r" "0 < length ?g" by simp_all
  then have j: "2 \<le> Suc (length ?r)" "Suc (length ?r) \<le> length (?r @ ns # ?g) - 1"
    unfolding length_append list.size by linarith+
  have "isKnownHostname (join ''.'' (drop (Suc (length ?r)) (?r @ ns # ?g))) gws = Inr None"
    by (rule subdomain_loop_None [OF _ j]) (use assms ls in \<open>simp_all add: knownSubdomainDetails_def Let_def\<close>)
  then show ?thesis by (simp add: join_split_on)
qed

lemma toDNSLabel_length: "toDNSLabel env rootID c = Inr l \<Longrightarrow> length l \<le> 63"
  by (auto simp: toDNSLabel_def dnsLabelMaxLength_def split: if_splits)

section \<open>Properties\<close>

text \<open>An environment with one CID, whose text is \<open>bafyroot\<close>, and URLs that all parse.\<close>

definition ex_cidv1 :: cid where
  "ex_cidv1 = CidV1 DagProtobuf (mk_mh SHA2_256 ''digest'')"

definition ex_hn :: hn_env where
  "ex_hn = \<lparr>peer_Decode = (\<lambda>_. None), peer_ToCid = (\<lambda>_. CidUndef), cid_String = (\<lambda>_. ''bafyroot''),
     cid_Decode = (\<lambda>s. if s = ''bafyroot'' then Some ex_cidv1 else None),
     StringOfBase = (\<lambda>_ _. Inr ''bafyroot''), IsDomainName = (\<lambda>_. True), Name_Resolve = (\<lambda>_. False),
     ParseRequestURI = Inr\<rparr>"

definition ex_hosts :: gatewayHosts where
  "ex_hosts = prepareKnownGateways (\<lambda>_. None) [(''dweb.link'', Some subdomainGatewaySpec)]"

definition ex_req :: request where
  "ex_req = \<lparr>Host = ''bafyroot.ipfs.dweb.link'', XForwardedHost = [], XForwardedProto = [], Scheme = [],
     Path = ''/a/b'', RawQuery = []\<rparr>"

definition ex_sd :: subdomain_details where
  "ex_sd = \<lparr>sd_gw = subdomainGatewaySpec, sd_gwHostname = ''dweb.link'', sd_ns = ''ipfs'', sd_rootID = ''bafyroot''\<rparr>"

lemma ex_subdomain: "knownSubdomainDetails ''bafyroot.ipfs.dweb.link'' ex_hosts = Inr (Some ex_sd)"
  by code_simp

lemma ex_not_known: "isKnownHostname ''bafyroot.ipfs.dweb.link'' ex_hosts = Inr None"
  by code_simp

text \<open>Inlining a DNSLink name can be undone: for a name without \<^verbatim>\<open>@\<close> in which no dot is followed by a
  dash or a dot, \<^verbatim>\<open>toDNSLinkFQDN\<close> gives back the name that \<^verbatim>\<open>toDNSLinkDNSLabel\<close> turned into a label, and the label
  is a single DNS label of at most 63 bytes.\<close>

lemma DNSLink_label_roundtrip:
  assumes "inlinable fqdn" and "toDNSLinkDNSLabel fqdn = Inr l"
  shows "toDNSLinkFQDN l = fqdn \<and> length l \<le> 63 \<and> CHR ''.'' \<notin> set l"
proof -
  have l: "l = concat (map label_char fqdn)" and len: "length l \<le> 63"
    using assms(2) by (auto simp: toDNSLinkDNSLabel_def label_chars Let_def dnsLabelMaxLength_def split: if_splits)
  have "CHR ''.'' \<notin> set l" by (auto simp: l label_char_def split: if_splits)
  with len l assms(1) show ?thesis
    by (simp add: toDNSLinkFQDN_def replace_pair_label unmark inlinable_def)
qed

lemma DNSLink_label_roundtrip_witness:
  "toDNSLinkFQDN ''my-v--long-example-com'' = ''my.v-long.example.com''"
  using DNSLink_label_roundtrip [of "''my.v-long.example.com''" "''my-v--long-example-com''"]
  by (simp add: inlinable_def toDNSLinkDNSLabel_def Let_def dnsLabelMaxLength_def)

text \<open>C22. Subdomain hosts are taken apart correctly: what \<^verbatim>\<open>knownSubdomainDetails\<close> returns are the parts of
  the hostname, \<^verbatim>\<open>rootID.ns.gateway\<close>, with a known gateway and a subdomain namespace; and when it finds nothing, no
  way to read the hostname like that has a known gateway.\<close>

theorem knownSubdomainDetails_spec:
  "case knownSubdomainDetails hostname gws of
     Inl p \<Rightarrow> True
   | Inr (Some sd) \<Rightarrow>
       hostname = sd_rootID sd @ ''.'' @ sd_ns sd @ ''.'' @ sd_gwHostname sd \<and>
       isKnownHostname (sd_gwHostname sd) gws = Inr (Some (sd_gw sd)) \<and> isSubdomainNamespace (sd_ns sd)
   | Inr None \<Rightarrow>
       (\<forall>rootID ns gw. hostname = rootID @ ''.'' @ ns @ ''.'' @ gw \<longrightarrow> isSubdomainNamespace ns \<longrightarrow>
          isKnownHostname gw gws = Inr None)"
  using knownSubdomainDetails_Some [of hostname gws] knownSubdomainDetails_None [of _ _ _ gws]
  by (auto split: sum.splits option.splits)

theorem knownSubdomainDetails_spec_witness:
  "isKnownHostname ''dweb.link'' ex_hosts = Inr (Some subdomainGatewaySpec)"
  using knownSubdomainDetails_spec [of "''bafyroot.ipfs.dweb.link''" ex_hosts]
  by (simp only: ex_subdomain sum.case option.case) (simp add: ex_sd_def)

text \<open>A canonical subdomain is served where it is: a request without \<^verbatim>\<open>X-Forwarded-Host\<close> for
  \<^verbatim>\<open>rootID.ns.gateway\<close>, where the gateway handles subdomains and that path, \<open>rootID\<close> is a CID that fits a DNS
  label and \<open>ns\<close> is no peer ID namespace, is served as the path \<^verbatim>\<open>/ns/rootID\<close>, without a redirect.\<close>

lemma canonical_subdomain_served:
  assumes "XForwardedHost r = []" and "isKnownHostname (Host r) gws = Inr None"
    and sd: "knownSubdomainDetails (Host r) gws = Inr (Some sd)"
    and "UseSubdomains (sd_gw sd)" "hasPrefix (''/'' @ sd_ns sd @ ''/'' @ sd_rootID sd) (Paths (sd_gw sd))"
    and "cid_Decode env (sd_rootID sd) = Some c" "length (sd_rootID sd) \<le> 63" "\<not> isPeerIDNamespace (sd_ns sd)"
  shows "handler env gws noDNSLink r =
    Inr (Serve None (''/'' @ sd_ns sd @ ''/'' @ sd_rootID sd @ Path r) (Some (sd_gwHostname sd)))"
proof -
  have "prefix (sd_rootID sd) (Host r)"
    using knownSubdomainDetails_Some(1) [OF sd] by (metis prefixI)
  then have "canonical_redirect env sd c r = None"
    using assms(7) by (simp add: canonical_redirect_def toDNSLabel_def dnsLabelMaxLength_def)
  with assms show ?thesis
    by (simp add: handler_def serve_subdomain_def multicodec_redirect_def Let_def)
qed

lemma canonical_subdomain_served_witness:
  "handler ex_hn ex_hosts False ex_req = Inr (Serve None ''/ipfs/bafyroot/a/b'' (Some ''dweb.link''))"
proof -
  have "hasPrefix ''/ipfs/bafyroot'' (Paths subdomainGatewaySpec)" by code_simp
  with canonical_subdomain_served [of ex_req ex_hosts ex_sd ex_hn ex_cidv1 False] ex_subdomain ex_not_known
  show ?thesis
    by (simp add: ex_req_def ex_sd_def subdomainGatewaySpec_def ex_hn_def isPeerIDNamespace_def)
qed

text \<open>C21. Known gateways serve what they are configured for: on a known gateway a request reaches the child
  handler only with its own path, when the gateway lists that path, or as a DNSLink name, when DNSLink is on for
  the gateway and the host has a record; on a subdomain of a known gateway only when the gateway uses subdomains
  and lists the path that the subdomain stands for.\<close>

theorem handler_respects_gateway:
  assumes resp: "handler env gws noDNSLink r = Inr (Serve loc p ctx)"
    and host: "host = (if XForwardedHost r \<noteq> [] then XForwardedHost r else Host r)"
  shows "(isKnownHostname host gws = Inr (Some gw) \<longrightarrow>
      p = Path r \<and> hasPrefix (Path r) (Paths gw) \<or>
      \<not> NoDNSLink gw \<and> isDNSLinkName env host \<and> p = ''/ipns/'' @ stripPort host @ Path r) \<and>
    (isKnownHostname host gws = Inr None \<and> knownSubdomainDetails host gws = Inr (Some sd) \<longrightarrow>
      UseSubdomains (sd_gw sd) \<and> hasPrefix (''/'' @ sd_ns sd @ ''/'' @ sd_rootID sd) (Paths (sd_gw sd)) \<and>
      suffix (Path r) p)"
proof (intro conjI impI)
  show "p = Path r \<and> hasPrefix (Path r) (Paths gw) \<or>
      \<not> NoDNSLink gw \<and> isDNSLinkName env host \<and> p = ''/ipns/'' @ stripPort host @ Path r"
    if "isKnownHostname host gws = Inr (Some gw)"
    using resp that unfolding handler_def host [symmetric]
    by (auto simp: serve_path_def serve_dnslink_def split: if_splits sum.splits)
next
  assume "isKnownHostname host gws = Inr None \<and> knownSubdomainDetails host gws = Inr (Some sd)"
  then have "serve_subdomain env sd r = Serve loc p ctx"
    using resp unfolding handler_def host [symmetric] by simp
  then show "UseSubdomains (sd_gw sd)" "hasPrefix (''/'' @ sd_ns sd @ ''/'' @ sd_rootID sd) (Paths (sd_gw sd))"
      "suffix (Path r) p"
    by (auto simp: serve_subdomain_def canonical_redirect_def multicodec_redirect_def Let_def suffix_def
        split: if_splits option.splits sum.splits)
qed

theorem handler_respects_gateway_witness:
  "handler ex_hn ex_hosts False (ex_req\<lparr>Host := ''dweb.link'', Path := ''/version''\<rparr>) = Inr NotFound \<and>
   hasPrefix ''/ipfs/bafyroot'' (Paths subdomainGatewaySpec)"
proof
  show "handler ex_hn ex_hosts False (ex_req\<lparr>Host := ''dweb.link'', Path := ''/version''\<rparr>) = Inr NotFound"
    by code_simp
  have "handler ex_hn ex_hosts False ex_req = Inr (Serve None ''/ipfs/bafyroot/a/b'' (Some ''dweb.link''))"
    by code_simp
  from handler_respects_gateway [OF this refl, of _ ex_sd] ex_not_known ex_subdomain
  show "hasPrefix ''/ipfs/bafyroot'' (Paths subdomainGatewaySpec)"
    by (simp add: ex_req_def) (simp add: ex_sd_def)
qed

text \<open>Behind a reverse proxy the canonical subdomain redirects to itself: the guard against that looks at the
  \<^verbatim>\<open>Host\<close> header although the details come from \<^verbatim>\<open>X-Forwarded-Host\<close>.\<close>

lemma forwarded_host_redirects_to_itself:
  "handler ex_hn ex_hosts False
     (ex_req\<lparr>Host := ''127.0.0.1:8080'', XForwardedHost := ''bafyroot.ipfs.dweb.link''\<rparr>) =
   Inr (MovedPermanently ''http://bafyroot.ipfs.dweb.link/a/b'')"
  by code_simp

text \<open>A wildcard that does not compile is kept as a nil regular expression: every host that has no exact entry
  then panics.\<close>

lemma invalid_wildcard_panics:
  assumes "CHR ''*'' \<in> set h" "compile_wildcard rx h = None"
    and "exact (prepareKnownGateways rx [(h, Some gw)]) hostname = None"
    "exact (prepareKnownGateways rx [(h, Some gw)]) (stripPort hostname) = None"
  shows "isKnownHostname hostname (prepareKnownGateways rx [(h, Some gw)]) = Inl NilDereference"
  using assms by (simp add: isKnownHostname_def prepareKnownGateways_def prepare_one_def)

end
