(* ===== verification/Peering.thy ===== *)
theory Peering
  imports Prelude
begin

text \<open>
  The peering service (\<^verbatim>\<open>peering/peering.go\<close>): it keeps connections to configured peers and reconnects with a
  back-off. The service is a state machine over interleaved steps: calls of its methods, network
  notifications, goroutines and timers. Every critical section under a mutex is one step. Peer
  handlers live in a heap, since goroutines and timers may hold one that was removed from the service.
  Durations are in nanoseconds; the random numbers of the back-off are arguments within the
  bounds of \<^verbatim>\<open>rand.Int63n\<close>. The host's connections are the environment.
\<close>

section \<open>Peer handlers\<close>

definition maxBackoff :: int where "maxBackoff = 600000000000"
definition maxBackoffJitter :: int where "maxBackoffJitter = 10"
definition initialDelay :: int where "initialDelay = 5000000000"

lemmas backoff_consts = maxBackoff_def maxBackoffJitter_def initialDelay_def

text \<open>The reconnect timer: nil, armed, or fired and not reset since.\<close>

datatype timer = NoTimer | Armed int | Fired

record peerHandler =
  ph_peer :: string
  ph_addrs :: "string list"
  ph_cancelled :: bool
  ph_timer :: timer
  ph_nextDelay :: int

definition setAddrs :: "string list \<Rightarrow> peerHandler \<Rightarrow> peerHandler" where
  "setAddrs addrs ph = ph\<lparr>ph_addrs := addrs\<rparr>"

definition stop :: "peerHandler \<Rightarrow> peerHandler" where
  "stop ph = ph\<lparr>ph_cancelled := True, ph_timer := NoTimer\<rparr>"

text \<open>\<^verbatim>\<open>nextBackoff\<close>, with \<open>r1\<close> and \<open>r2\<close> the values of its two calls of \<^verbatim>\<open>rand.Int63n\<close>. The new delay is also its
  result.\<close>

definition grow :: "int \<Rightarrow> int \<Rightarrow> int" where
  "grow r1 d = (if d < maxBackoff then d + (d div 2 + r1) else d)"

definition nextBackoff :: "int \<Rightarrow> int \<Rightarrow> int \<Rightarrow> int" where
  "nextBackoff r1 r2 d =
     (let d1 = grow r1 d in if d1 > maxBackoff then maxBackoff - r2 else d1)"

definition rand_ok :: "int \<Rightarrow> int \<Rightarrow> int \<Rightarrow> bool" where
  "rand_ok r1 r2 d \<longleftrightarrow> 0 \<le> r1 \<and> r1 < d \<and> 0 \<le> r2 \<and> r2 < maxBackoff * maxBackoffJitter div 100"

definition stopIfConnected :: "bool \<Rightarrow> peerHandler \<Rightarrow> peerHandler" where
  "stopIfConnected connected ph =
     (if ph_timer ph \<noteq> NoTimer \<and> connected then ph\<lparr>ph_timer := NoTimer, ph_nextDelay := initialDelay\<rparr> else ph)"

definition startIfDisconnected :: "int \<Rightarrow> int \<Rightarrow> bool \<Rightarrow> peerHandler \<Rightarrow> peerHandler" where
  "startIfDisconnected r1 r2 connected ph =
     (if ph_timer ph = NoTimer \<and> \<not> connected
      then let d = nextBackoff r1 r2 (ph_nextDelay ph) in ph\<lparr>ph_timer := Armed d, ph_nextDelay := d\<rparr>
      else ph)"

text \<open>The locked part of \<^verbatim>\<open>reconnect\<close> after a failed connection attempt.\<close>

definition extendTimeout :: "int \<Rightarrow> int \<Rightarrow> peerHandler \<Rightarrow> peerHandler" where
  "extendTimeout r1 r2 ph =
     (if ph_timer ph \<noteq> NoTimer
      then let d = nextBackoff r1 r2 (ph_nextDelay ph) in ph\<lparr>ph_timer := Armed d, ph_nextDelay := d\<rparr>
      else ph)"

section \<open>The service\<close>

datatype state = stateInit | stateRunning | stateStopped

text \<open>
  What is under way beside the callers: goroutines (the three that take a handler, and \<^verbatim>\<open>reconnect\<close> before and
  after its connection attempt has failed), network notifications not delivered yet, and calls of \<^verbatim>\<open>Stop\<close> that
  have unregistered the service and not taken the mutex yet.
\<close>

datatype task =
    StartIfDisconnected nat
  | StopIfConnected nat
  | Reconnect nat
  | ReconnectFailed nat
  | NotifyConnected string
  | NotifyDisconnected string
  | FinishStop

record service =
  handlers :: "peerHandler list"
  peers :: "string \<rightharpoonup> nat"
  ps_state :: state
  protected_peers :: "string set"
  notifying :: bool
  tasks :: "task list"
  connected :: "string \<Rightarrow> bool"

definition upd :: "nat \<Rightarrow> (peerHandler \<Rightarrow> peerHandler) \<Rightarrow> service \<Rightarrow> service" where
  "upd i f ps = ps\<lparr>handlers := (handlers ps)[i := f (handlers ps ! i)]\<rparr>"

definition spawn :: "task list \<Rightarrow> service \<Rightarrow> service" where
  "spawn ts ps = ps\<lparr>tasks := tasks ps @ ts\<rparr>"

text \<open>The handlers in the map of the service.\<close>

definition registered :: "service \<Rightarrow> nat \<Rightarrow> bool" where
  "registered ps i \<longleftrightarrow> i < length (handlers ps) \<and> peers ps (ph_peer (handlers ps ! i)) = Some i"

definition NewPeeringService :: "(string \<Rightarrow> bool) \<Rightarrow> service" where
  "NewPeeringService conn =
     \<lparr>handlers = [], peers = Map.empty, ps_state = stateInit, protected_peers = {}, notifying = False,
      tasks = [], connected = conn\<rparr>"

definition Start :: "service \<Rightarrow> err option \<times> service" where
  "Start ps =
     (case ps_state ps of
        stateInit \<Rightarrow>
          (None, spawn (map StartIfDisconnected (filter (registered ps) [0..<length (handlers ps)]))
                   (ps\<lparr>notifying := True, ps_state := stateRunning\<rparr>))
      | stateRunning \<Rightarrow> (None, ps)
      | stateStopped \<Rightarrow> (Some ''already stopped'', ps))"

text \<open>\<^verbatim>\<open>Stop\<close> has two parts, between which others may run: \<^verbatim>\<open>StopNotify\<close>, and the section under the mutex.\<close>

definition Stop :: "service \<Rightarrow> service" where
  "Stop ps = spawn [FinishStop] (ps\<lparr>notifying := False\<rparr>)"

definition Stop_locked :: "service \<Rightarrow> service" where
  "Stop_locked ps =
     (if ps_state ps \<noteq> stateStopped
      then ps\<lparr>handlers := map (\<lambda>i. if registered ps i then stop (handlers ps ! i) else handlers ps ! i)
                            [0..<length (handlers ps)],
              ps_state := stateStopped\<rparr>
      else ps)"

definition new_handler :: "string \<Rightarrow> string list \<Rightarrow> peerHandler" where
  "new_handler pid addrs =
     \<lparr>ph_peer = pid, ph_addrs = addrs, ph_cancelled = False, ph_timer = NoTimer, ph_nextDelay = initialDelay\<rparr>"

definition AddPeer :: "string \<Rightarrow> string list \<Rightarrow> service \<Rightarrow> service" where
  "AddPeer pid addrs ps =
     (case peers ps pid of
        Some i \<Rightarrow> upd i (setAddrs addrs) ps
      | None \<Rightarrow>
          (let i = length (handlers ps); h = new_handler pid addrs;
               h = (if ps_state ps = stateStopped then h\<lparr>ph_cancelled := True\<rparr> else h);
               ps' = ps\<lparr>handlers := handlers ps @ [h], peers := (peers ps)(pid \<mapsto> i),
                        protected_peers := insert pid (protected_peers ps)\<rparr>
           in if ps_state ps = stateRunning then spawn [StartIfDisconnected i] ps' else ps'))"

definition ListPeers :: "service \<Rightarrow> (string \<times> string list) list" where
  "ListPeers ps =
     map (\<lambda>i. (ph_peer (handlers ps ! i), ph_addrs (handlers ps ! i))) (filter (registered ps) [0..<length (handlers ps)])"

definition RemovePeer :: "string \<Rightarrow> service \<Rightarrow> service" where
  "RemovePeer pid ps =
     (case peers ps pid of
        None \<Rightarrow> ps
      | Some i \<Rightarrow>
          (upd i stop ps)\<lparr>peers := (peers ps)(pid := None), protected_peers := protected_peers ps - {pid}\<rparr>)"

text \<open>The notifications, delivered to the service only while it is registered with the network.\<close>

definition Connected :: "string \<Rightarrow> service \<Rightarrow> service" where
  "Connected p ps =
     (case peers ps p of
        Some i \<Rightarrow> if notifying ps then spawn [StopIfConnected i] ps else ps
      | None \<Rightarrow> ps)"

definition Disconnected :: "string \<Rightarrow> service \<Rightarrow> service" where
  "Disconnected p ps =
     (case peers ps p of
        Some i \<Rightarrow> if notifying ps then spawn [StartIfDisconnected i] ps else ps
      | None \<Rightarrow> ps)"

section \<open>Steps\<close>

abbreviation peer_of :: "service \<Rightarrow> nat \<Rightarrow> string" where
  "peer_of ps i \<equiv> ph_peer (handlers ps ! i)"

text \<open>Running one task. \<^verbatim>\<open>ok\<close> is the outcome of the connection attempt of \<^verbatim>\<open>reconnect\<close>, which fails under a
  cancelled context unless the peer is connected already.\<close>

fun run_task :: "int \<Rightarrow> int \<Rightarrow> bool \<Rightarrow> task \<Rightarrow> service \<Rightarrow> service" where
  "run_task r1 r2 ok (StartIfDisconnected i) ps = upd i (startIfDisconnected r1 r2 (connected ps (peer_of ps i))) ps"
| "run_task r1 r2 ok (StopIfConnected i) ps = upd i (stopIfConnected (connected ps (peer_of ps i))) ps"
| "run_task r1 r2 ok (Reconnect i) ps =
     (if ok \<and> (\<not> ph_cancelled (handlers ps ! i) \<or> connected ps (peer_of ps i)) then spawn [StopIfConnected i] ps else spawn [ReconnectFailed i] ps)"
| "run_task r1 r2 ok (ReconnectFailed i) ps = spawn [StopIfConnected i] (upd i (extendTimeout r1 r2) ps)"
| "run_task r1 r2 ok (NotifyConnected p) ps = Connected p ps"
| "run_task r1 r2 ok (NotifyDisconnected p) ps = Disconnected p ps"
| "run_task r1 r2 ok FinishStop ps = Stop_locked ps"

definition task_delay :: "task \<Rightarrow> service \<Rightarrow> int" where
  "task_delay t ps =
     (case t of StartIfDisconnected i \<Rightarrow> ph_nextDelay (handlers ps ! i)
      | ReconnectFailed i \<Rightarrow> ph_nextDelay (handlers ps ! i) | _ \<Rightarrow> initialDelay)"

definition fire :: "nat \<Rightarrow> service \<Rightarrow> service" where
  "fire i ps = spawn [Reconnect i] (upd i (\<lambda>ph. ph\<lparr>ph_timer := Fired\<rparr>) ps)"

inductive ps_step :: "service \<Rightarrow> service \<Rightarrow> bool" where
  start: "ps_step ps (snd (Start ps))"
| stopped: "ps_step ps (Stop ps)"
| add: "ps_step ps (AddPeer pid addrs ps)"
| remove: "ps_step ps (RemovePeer pid ps)"
| task: "t \<in> set (tasks ps) \<Longrightarrow> rand_ok r1 r2 (task_delay t ps) \<Longrightarrow>
    ps_step ps (run_task r1 r2 ok t (ps\<lparr>tasks := remove1 t (tasks ps)\<rparr>))"
| timer: "i < length (handlers ps) \<Longrightarrow> ph_timer (handlers ps ! i) = Armed d \<Longrightarrow> ps_step ps (fire i ps)"
| connect: "ps_step ps (spawn [NotifyConnected p] (ps\<lparr>connected := (connected ps)(p := True)\<rparr>))"
| disconnect: "ps_step ps (spawn [NotifyDisconnected p] (ps\<lparr>connected := (connected ps)(p := False)\<rparr>))"

definition initial :: "service \<Rightarrow> bool" where
  "initial ps \<longleftrightarrow> (\<exists>conn. ps = NewPeeringService conn)"

section \<open>The invariant\<close>

definition task_ok :: "service \<Rightarrow> task \<Rightarrow> bool" where
  "task_ok ps t \<longleftrightarrow>
     (case t of
        StartIfDisconnected i \<Rightarrow> i < length (handlers ps) | StopIfConnected i \<Rightarrow> i < length (handlers ps)
      | Reconnect i \<Rightarrow> i < length (handlers ps) | ReconnectFailed i \<Rightarrow> i < length (handlers ps) | _ \<Rightarrow> True)"

definition delay_ok :: "peerHandler \<Rightarrow> bool" where
  "delay_ok ph \<longleftrightarrow>
     initialDelay \<le> ph_nextDelay ph \<and> ph_nextDelay ph \<le> maxBackoff \<and>
     (\<forall>d. ph_timer ph = Armed d \<longrightarrow> initialDelay \<le> d \<and> d \<le> maxBackoff)"

definition ps_inv :: "service \<Rightarrow> bool" where
  "ps_inv ps \<longleftrightarrow>
     (\<forall>pid i. peers ps pid = Some i \<longrightarrow> i < length (handlers ps) \<and> peer_of ps i = pid) \<and>
     protected_peers ps = dom (peers ps) \<and>
     (\<forall>i < length (handlers ps). delay_ok (handlers ps ! i)) \<and>
     (\<forall>i < length (handlers ps). \<not> registered ps i \<or> ps_state ps = stateStopped \<longrightarrow> ph_cancelled (handlers ps ! i)) \<and>
     (\<forall>t \<in> set (tasks ps). task_ok ps t)"

lemma nextBackoff_range:
  assumes "initialDelay \<le> d" "d \<le> maxBackoff" "rand_ok r1 r2 d"
  shows "initialDelay \<le> nextBackoff r1 r2 d \<and> nextBackoff r1 r2 d \<le> maxBackoff"
  using assms by (auto simp: nextBackoff_def grow_def rand_ok_def Let_def backoff_consts)

lemma nextBackoff_grows:
  assumes "initialDelay \<le> d" "d \<le> maxBackoff" "rand_ok r1 r2 d"
  shows "min (d + d div 2) (maxBackoff * 9 div 10) \<le> nextBackoff r1 r2 d"
  using assms by (auto simp: nextBackoff_def grow_def rand_ok_def Let_def backoff_consts)

lemma delay_ok_step:
  assumes "delay_ok ph"
  shows "delay_ok (setAddrs a ph)" "delay_ok (stop ph)" "delay_ok (stopIfConnected c ph)"
    "delay_ok (ph\<lparr>ph_timer := Fired\<rparr>)"
    "rand_ok r1 r2 (ph_nextDelay ph) \<Longrightarrow> delay_ok (startIfDisconnected r1 r2 c ph)"
    "rand_ok r1 r2 (ph_nextDelay ph) \<Longrightarrow> delay_ok (extendTimeout r1 r2 ph)"
  using assms nextBackoff_range [of "ph_nextDelay ph" r1 r2]
  by (auto simp: delay_ok_def setAddrs_def stop_def stopIfConnected_def startIfDisconnected_def extendTimeout_def
      Let_def backoff_consts)

lemma keeps_peer [simp]:
  "ph_peer (setAddrs a ph) = ph_peer ph" "ph_peer (stop ph) = ph_peer ph"
  "ph_peer (stopIfConnected c ph) = ph_peer ph" "ph_peer (startIfDisconnected r1 r2 c ph) = ph_peer ph"
  "ph_peer (extendTimeout r1 r2 ph) = ph_peer ph"
  by (simp_all add: setAddrs_def stop_def stopIfConnected_def startIfDisconnected_def extendTimeout_def Let_def)

lemma keeps_cancelled [simp]:
  "ph_cancelled (setAddrs a ph) = ph_cancelled ph" "ph_cancelled (stop ph)"
  "ph_cancelled (stopIfConnected c ph) = ph_cancelled ph" "ph_cancelled (startIfDisconnected r1 r2 c ph) = ph_cancelled ph"
  "ph_cancelled (extendTimeout r1 r2 ph) = ph_cancelled ph"
  by (simp_all add: setAddrs_def stop_def stopIfConnected_def startIfDisconnected_def extendTimeout_def Let_def)

lemma upd_simps [simp]:
  "peers (upd i f ps) = peers ps" "ps_state (upd i f ps) = ps_state ps" "tasks (upd i f ps) = tasks ps"
  "protected_peers (upd i f ps) = protected_peers ps" "connected (upd i f ps) = connected ps"
  "notifying (upd i f ps) = notifying ps" "length (handlers (upd i f ps)) = length (handlers ps)"
  "j < length (handlers ps) \<Longrightarrow> handlers (upd i f ps) ! j = (if j = i then f (handlers ps ! i) else handlers ps ! j)"
  by (simp_all add: upd_def nth_list_update)

lemma spawn_simps [simp]:
  "peers (spawn ts ps) = peers ps" "ps_state (spawn ts ps) = ps_state ps" "tasks (spawn ts ps) = tasks ps @ ts"
  "protected_peers (spawn ts ps) = protected_peers ps" "connected (spawn ts ps) = connected ps"
  "notifying (spawn ts ps) = notifying ps" "handlers (spawn ts ps) = handlers ps"
  by (simp_all add: spawn_def)

lemma task_ok_cong: "length (handlers ps') = length (handlers ps) \<Longrightarrow> task_ok ps' t = task_ok ps t"
  by (simp add: task_ok_def split: task.splits)

lemma registered_cong:
  "handlers ps' = handlers ps \<Longrightarrow> peers ps' = peers ps \<Longrightarrow> registered ps' i = registered ps i"
  by (simp add: registered_def)

lemma inv_peers: "ps_inv ps \<Longrightarrow> peers ps q = Some i \<Longrightarrow> i < length (handlers ps) \<and> peer_of ps i = q"
  unfolding ps_inv_def by blast

lemma inv_protected: "ps_inv ps \<Longrightarrow> protected_peers ps = dom (peers ps)"
  unfolding ps_inv_def by blast

lemma inv_delay: "ps_inv ps \<Longrightarrow> i < length (handlers ps) \<Longrightarrow> delay_ok (handlers ps ! i)"
  unfolding ps_inv_def by blast

lemma inv_cancelled:
  "ps_inv ps \<Longrightarrow> i < length (handlers ps) \<Longrightarrow> \<not> registered ps i \<or> ps_state ps = stateStopped \<Longrightarrow>
    ph_cancelled (handlers ps ! i)"
  unfolding ps_inv_def by blast

lemma inv_tasks: "ps_inv ps \<Longrightarrow> t \<in> set (tasks ps) \<Longrightarrow> task_ok ps t"
  unfolding ps_inv_def by blast

lemma ps_invI:
  assumes "\<And>q i. peers ps q = Some i \<Longrightarrow> i < length (handlers ps) \<and> peer_of ps i = q"
    "protected_peers ps = dom (peers ps)" "\<And>i. i < length (handlers ps) \<Longrightarrow> delay_ok (handlers ps ! i)"
    "\<And>i. i < length (handlers ps) \<Longrightarrow> \<not> registered ps i \<or> ps_state ps = stateStopped \<Longrightarrow> ph_cancelled (handlers ps ! i)"
    "\<And>t. t \<in> set (tasks ps) \<Longrightarrow> task_ok ps t"
  shows "ps_inv ps"
  unfolding ps_inv_def using assms by blast

text \<open>Changing handlers, without touching their peers or reviving one; the map of peers may lose entries.\<close>

lemma inv_change:
  assumes inv: "ps_inv ps" and len: "length (handlers ps') = length (handlers ps)"
    and same: "tasks ps' = tasks ps" "protected_peers ps' = dom (peers ps')" "peers ps' \<subseteq>\<^sub>m peers ps"
    and h: "\<And>i. i < length (handlers ps) \<Longrightarrow> peer_of ps' i = peer_of ps i \<and> delay_ok (handlers ps' ! i)"
    and c: "\<And>i. i < length (handlers ps) \<Longrightarrow> \<not> registered ps' i \<or> ps_state ps' = stateStopped \<Longrightarrow>
      ph_cancelled (handlers ps' ! i)"
  shows "ps_inv ps'"
proof (rule ps_invI)
  fix q i
  assume "peers ps' q = Some i"
  with same(3) have "peers ps q = Some i" by (auto simp: map_le_def dom_def)
  from inv_peers [OF inv this] h [of i] len show "i < length (handlers ps') \<and> peer_of ps' i = q" by simp
next
  fix t
  assume "t \<in> set (tasks ps')"
  with inv_tasks [OF inv, of t] same(1) show "task_ok ps' t" by (simp add: task_ok_cong [OF len])
qed (use same len h c in auto)

lemma inv_upd:
  assumes inv: "ps_inv ps"
    and f: "i < length (handlers ps) \<Longrightarrow> ph_peer (f (handlers ps ! i)) = peer_of ps i"
      "i < length (handlers ps) \<Longrightarrow> delay_ok (handlers ps ! i) \<Longrightarrow> delay_ok (f (handlers ps ! i))"
      "i < length (handlers ps) \<Longrightarrow> ph_cancelled (handlers ps ! i) \<Longrightarrow> ph_cancelled (f (handlers ps ! i))"
  shows "ps_inv (upd i f ps)"
proof (rule inv_change [OF inv])
  fix j
  assume j: "j < length (handlers ps)"
  show "peer_of (upd i f ps) j = peer_of ps j \<and> delay_ok (handlers (upd i f ps) ! j)"
    using j f inv_delay [OF inv] by simp
  assume "\<not> registered (upd i f ps) j \<or> ps_state (upd i f ps) = stateStopped"
  then have "\<not> registered ps j \<or> ps_state ps = stateStopped"
    using j f(1) by (cases "j = i") (simp_all add: registered_def)
  with inv_cancelled [OF inv j] j f(3) show "ph_cancelled (handlers (upd i f ps) ! j)" by auto
qed (use inv_protected [OF inv] in auto)

text \<open>Changing nothing but the tasks, the flags and the connections.\<close>

lemma inv_frame:
  assumes inv: "ps_inv ps" and same: "handlers ps' = handlers ps" "peers ps' = peers ps"
      "protected_peers ps' = protected_peers ps"
    and st: "ps_state ps' = stateStopped \<Longrightarrow> ps_state ps = stateStopped"
    and ts: "\<forall>t \<in> set (tasks ps'). task_ok ps t"
  shows "ps_inv ps'"
proof -
  have reg: "registered ps' = registered ps" using same by (simp add: registered_def fun_eq_iff)
  have tok: "task_ok ps' = task_ok ps" using same by (intro ext task_ok_cong) simp
  show ?thesis using inv st ts unfolding ps_inv_def same reg tok by blast
qed

lemma inv_spawn: "ps_inv ps \<Longrightarrow> \<forall>t \<in> set ts. task_ok ps t \<Longrightarrow> ps_inv (spawn ts ps)"
  by (rule inv_frame) (auto dest: inv_tasks)

lemma inv_env:
  assumes "ps_inv ps"
  shows "ps_inv (ps\<lparr>connected := c\<rparr>)" "ps_inv (ps\<lparr>notifying := n\<rparr>)"
    "set ts \<subseteq> set (tasks ps) \<Longrightarrow> ps_inv (ps\<lparr>tasks := ts\<rparr>)"
  by (rule inv_frame [OF assms]; use inv_tasks [OF assms] in auto)+

lemma inv_Start: "ps_inv ps \<Longrightarrow> ps_inv (snd (Start ps))"
proof (cases "ps_state ps")
  case stateInit
  assume "ps_inv ps"
  then have "ps_inv (ps\<lparr>notifying := True, ps_state := stateRunning\<rparr>)"
    by (rule inv_frame) (use inv_tasks [OF \<open>ps_inv ps\<close>] in auto)
  then show ?thesis using stateInit
    by (auto simp: Start_def registered_def task_ok_def intro!: inv_spawn)
qed (simp_all add: Start_def)

lemma inv_Stop_locked:
  assumes inv: "ps_inv ps"
  shows "ps_inv (Stop_locked ps)"
proof (cases "ps_state ps = stateStopped")
  case True
  with inv show ?thesis by (simp add: Stop_locked_def)
next
  case False
  have h: "handlers (Stop_locked ps) ! i = (if registered ps i then stop (handlers ps ! i) else handlers ps ! i)"
    if "i < length (handlers ps)" for i
    using that False by (simp add: Stop_locked_def)
  show ?thesis
  proof (rule inv_change [OF inv])
    fix i
    assume i: "i < length (handlers ps)"
    show "peer_of (Stop_locked ps) i = peer_of ps i \<and> delay_ok (handlers (Stop_locked ps) ! i)"
      using h [OF i] inv_delay [OF inv i] by (simp add: delay_ok_step)
    show "ph_cancelled (handlers (Stop_locked ps) ! i)" using h [OF i] inv_cancelled [OF inv i] by simp
  qed (use False inv_protected [OF inv] in \<open>simp_all add: Stop_locked_def\<close>)
qed

lemma inv_RemovePeer:
  assumes inv: "ps_inv ps"
  shows "ps_inv (RemovePeer pid ps)"
proof (cases "peers ps pid")
  case (Some i)
  with inv_peers [OF inv] have i: "i < length (handlers ps)" "peer_of ps i = pid" by auto
  let ?ps = "(upd i stop ps)\<lparr>peers := (peers ps)(pid := None), protected_peers := protected_peers ps - {pid}\<rparr>"
  have "ps_inv ?ps"
  proof (rule inv_change [OF inv])
    fix j
    assume j: "j < length (handlers ps)"
    show "peer_of ?ps j = peer_of ps j \<and> delay_ok (handlers ?ps ! j)"
      using j inv_delay [OF inv] by (simp add: delay_ok_step)
    assume "\<not> registered ?ps j \<or> ps_state ?ps = stateStopped"
    then have "j = i \<or> \<not> registered ps j \<or> ps_state ps = stateStopped"
      using j i Some by (auto simp: registered_def split: if_splits)
    with inv_cancelled [OF inv j] j show "ph_cancelled (handlers ?ps ! j)" by auto
  qed (use inv_protected [OF inv] in \<open>auto simp: map_le_def\<close>)
  then show ?thesis by (simp add: RemovePeer_def Some)
qed (simp add: RemovePeer_def inv)

lemma inv_AddPeer:
  assumes inv: "ps_inv ps"
  shows "ps_inv (AddPeer pid addrs ps)"
proof (cases "peers ps pid")
  case (Some i)
  with inv show ?thesis by (simp add: AddPeer_def inv_upd delay_ok_step)
next
  case None
  let ?i = "length (handlers ps)"
  define h where "h = (if ps_state ps = stateStopped then (new_handler pid addrs)\<lparr>ph_cancelled := True\<rparr> else new_handler pid addrs)"
  define ps' where "ps' = ps\<lparr>handlers := handlers ps @ [h], peers := (peers ps)(pid \<mapsto> ?i),
    protected_peers := insert pid (protected_peers ps)\<rparr>"
  have h: "ph_peer h = pid" "delay_ok h" "ps_state ps = stateStopped \<Longrightarrow> ph_cancelled h"
    by (auto simp: h_def new_handler_def delay_ok_def backoff_consts)
  have nth: "handlers ps' ! j = (if j = ?i then h else handlers ps ! j)" if "j < length (handlers ps')" for j
    using that by (auto simp: ps'_def nth_append less_Suc_eq)
  have "ps_inv ps'"
  proof (rule ps_invI)
    fix q j
    assume "peers ps' q = Some j"
    then have q: "if q = pid then j = ?i else peers ps q = Some j" by (simp add: ps'_def split: if_splits)
    show "j < length (handlers ps') \<and> peer_of ps' j = q"
    proof (cases "q = pid")
      case False
      with q inv_peers [OF inv, of q j] show ?thesis by (auto simp: ps'_def nth_append)
    qed (use h q in \<open>simp add: ps'_def\<close>)
  next
    show "protected_peers ps' = dom (peers ps')" using inv_protected [OF inv] by (simp add: ps'_def)
  next
    fix j
    assume j: "j < length (handlers ps')"
    then have "j = ?i \<or> j < ?i" by (auto simp: ps'_def)
    with nth [OF j] inv_delay [OF inv, of j] h(2) show "delay_ok (handlers ps' ! j)" by auto
    assume "\<not> registered ps' j \<or> ps_state ps' = stateStopped"
    moreover have "registered ps' j" if "j = ?i" using that h(1) by (simp add: registered_def ps'_def)
    moreover have "registered ps' j" if "j < ?i" "registered ps j"
      using that None by (auto simp: registered_def ps'_def nth_append)
    ultimately show "ph_cancelled (handlers ps' ! j)"
      using nth [OF j] \<open>j = ?i \<or> j < ?i\<close> inv_cancelled [OF inv, of j] h(3) by (auto simp: ps'_def)
  next
    fix t
    assume "t \<in> set (tasks ps')"
    then have "task_ok ps t" using inv_tasks [OF inv, of t] by (simp add: ps'_def)
    then show "task_ok ps' t" by (auto simp: ps'_def task_ok_def split: task.splits)
  qed
  moreover have "AddPeer pid addrs ps = (if ps_state ps = stateRunning then spawn [StartIfDisconnected ?i] ps' else ps')"
    by (simp add: AddPeer_def None h_def ps'_def Let_def)
  moreover have "task_ok ps' (StartIfDisconnected ?i)" by (simp add: ps'_def task_ok_def)
  ultimately show ?thesis by (simp add: inv_spawn)
qed

lemma inv_notifications:
  assumes "ps_inv ps"
  shows "ps_inv (Connected p ps)" "ps_inv (Disconnected p ps)"
  using assms inv_peers [OF assms, of p]
  by (auto simp: Connected_def Disconnected_def task_ok_def intro!: inv_spawn split: option.splits)

lemma inv_run_task:
  assumes inv: "ps_inv ps" and t: "task_ok ps t" and r: "rand_ok r1 r2 (task_delay t ps)"
  shows "ps_inv (run_task r1 r2 ok t ps)"
proof (cases t)
  case (StartIfDisconnected i)
  with inv r show ?thesis by (simp add: task_delay_def delay_ok_step inv_upd)
next
  case (StopIfConnected i)
  with inv show ?thesis by (simp add: delay_ok_step inv_upd)
next
  case (Reconnect i)
  with inv t show ?thesis by (simp add: task_ok_def inv_spawn)
next
  case (ReconnectFailed i)
  then have "ps_inv (upd i (extendTimeout r1 r2) ps)"
    using inv r by (simp add: task_delay_def delay_ok_step inv_upd)
  then show ?thesis using ReconnectFailed t by (simp add: task_ok_def inv_spawn)
qed (simp_all add: inv inv_notifications inv_Stop_locked)

lemma inv_Stop: "ps_inv ps \<Longrightarrow> ps_inv (Stop ps)"
  unfolding Stop_def by (intro inv_spawn inv_env) (auto simp: task_ok_def)

lemma inv_fire:
  assumes "ps_inv ps" "i < length (handlers ps)"
  shows "ps_inv (fire i ps)"
proof -
  have "ps_inv (upd i (\<lambda>ph. ph\<lparr>ph_timer := Fired\<rparr>) ps)" using assms(1) by (simp add: inv_upd delay_ok_step)
  then show ?thesis using assms(2) by (simp add: fire_def task_ok_def inv_spawn)
qed

lemmas [step_inv] = inv_Start inv_Stop inv_AddPeer inv_RemovePeer inv_fire

lemma inv_step: "ps_step ps ps' \<Longrightarrow> ps_inv ps \<Longrightarrow> ps_inv ps'"
proof (induction rule: ps_step.induct)
  case (task t ps r1 r2 ok)
  let ?ps = "ps\<lparr>tasks := remove1 t (tasks ps)\<rparr>"
  have "ps_inv ?ps" using task.prems by (rule inv_env) (simp add: set_remove1_subset)
  moreover have "task_ok ?ps t" using inv_tasks [OF task.prems task.hyps(1)] by (simp add: task_ok_def cong: task.case_cong)
  moreover have "rand_ok r1 r2 (task_delay t ?ps)" using task.hyps(2) by (simp add: task_delay_def cong: task.case_cong)
  ultimately show ?case by (rule inv_run_task)
next
  case (connect ps p)
  then show ?case by (intro inv_spawn inv_env) (simp_all add: task_ok_def)
next
  case (disconnect ps p)
  then show ?case by (intro inv_spawn inv_env) (simp_all add: task_ok_def)
qed (simp_all add: step_inv)

interpretation peering: invariant_system initial ps_step ps_inv
proof unfold_locales
  show "ps_inv s" if "initial s" for s
    using that by (auto simp: initial_def NewPeeringService_def ps_inv_def)
  show "ps_inv t" if "ps_step s t" "ps_inv s" for s t
    using that by (rule inv_step)
qed

section \<open>A stopped service\<close>

fun harmless :: "task \<Rightarrow> bool" where
  "harmless (StopIfConnected i) = True"
| "harmless (NotifyConnected p) = True"
| "harmless (NotifyDisconnected p) = True"
| "harmless FinishStop = True"
| "harmless _ = False"

text \<open>Stopped, with no timer and nothing under way that could start one.\<close>

definition quiescent :: "service \<Rightarrow> bool" where
  "quiescent ps \<longleftrightarrow>
     ps_state ps = stateStopped \<and> \<not> notifying ps \<and> (\<forall>ph \<in> set (handlers ps). ph_timer ph = NoTimer) \<and>
     (\<forall>t \<in> set (tasks ps). harmless t)"

lemma quiescent_upd:
  assumes "quiescent ps" "\<And>ph. ph_timer ph = NoTimer \<Longrightarrow> ph_timer (f ph) = NoTimer"
  shows "quiescent (upd i f ps)"
proof (cases "i < length (handlers ps)")
  case True
  then have "handlers ps ! i \<in> set (handlers ps)" by simp
  with assms show ?thesis by (auto simp: quiescent_def upd_def dest!: subsetD [OF set_update_subset_insert])
qed (use assms in \<open>simp add: quiescent_def upd_def list_update_beyond\<close>)

lemma quiescent_step: "ps_step ps ps' \<Longrightarrow> quiescent ps \<Longrightarrow> quiescent ps'"
proof (induction rule: ps_step.induct)
  case (start ps)
  then show ?case by (simp add: Start_def quiescent_def)
next
  case (stopped ps)
  then show ?case by (simp add: Stop_def quiescent_def)
next
  case (add ps pid addrs)
  show ?case
  proof (cases "peers ps pid")
    case (Some i)
    with add show ?thesis by (simp add: AddPeer_def quiescent_upd setAddrs_def)
  next
    case None
    with add show ?thesis by (simp add: AddPeer_def quiescent_def Let_def new_handler_def)
  qed
next
  case (remove ps pid)
  then have "quiescent (upd i stop ps)" for i by (rule quiescent_upd) (simp add: stop_def)
  with remove show ?case by (auto simp: RemovePeer_def quiescent_def split: option.splits)
next
  case (task t ps r1 r2 ok)
  let ?ps = "ps\<lparr>tasks := remove1 t (tasks ps)\<rparr>"
  have q: "quiescent ?ps" using task by (auto simp: quiescent_def dest: notin_set_remove1 set_remove1_subset [THEN subsetD])
  have "harmless t" using task by (auto simp: quiescent_def)
  with q show ?case
    by (cases t) (auto simp: Connected_def Disconnected_def quiescent_upd stopIfConnected_def Stop_locked_def split: option.splits,
      (simp add: quiescent_def)+)
next
  case (timer i ps d)
  then have "ph_timer (handlers ps ! i) = NoTimer" by (simp add: quiescent_def)
  with timer show ?case by simp
qed (simp_all add: quiescent_def)

interpretation peering_stopped: invariant_system quiescent ps_step quiescent
  by unfold_locales (simp, rule quiescent_step)

text \<open>A service that has been started is registered with the network only once.\<close>

definition unregistered :: "service \<Rightarrow> bool" where
  "unregistered ps \<longleftrightarrow> ps_state ps \<noteq> stateInit \<and> \<not> notifying ps"

lemma unregistered_task: "unregistered ps \<Longrightarrow> unregistered (run_task r1 r2 ok t ps)"
  by (cases t) (auto simp: unregistered_def Connected_def Disconnected_def Stop_locked_def split: option.splits)

lemma unregistered_step: "ps_step ps ps' \<Longrightarrow> unregistered ps \<Longrightarrow> unregistered ps'"
proof (induction rule: ps_step.induct)
  case (start ps)
  then show ?case by (cases "ps_state ps") (auto simp: Start_def unregistered_def)
next
  case (task t ps r1 r2 ok)
  then have "unregistered (ps\<lparr>tasks := remove1 t (tasks ps)\<rparr>)" by (simp add: unregistered_def)
  then show ?case by (rule unregistered_task)
qed (auto simp: unregistered_def Stop_def AddPeer_def RemovePeer_def fire_def Let_def split: option.splits)

interpretation peering_unregistered: invariant_system unregistered ps_step unregistered
  by unfold_locales (simp, rule unregistered_step)

section \<open>Properties\<close>

text \<open>C17. The peering service keeps its books: in every state it reaches, whatever the interleaving of calls,
  notifications, goroutines and timers, the connection manager protects exactly the peers in the service, the
  context of a handler that was removed, or of any handler once the service is stopped, is cancelled, and
  every back-off and every armed timer lies between the initial delay and the maximum.\<close>

theorem Peering_invariant:
  assumes "reach initial ps_step ps"
  shows "protected_peers ps = dom (peers ps) \<and>
    (\<forall>i < length (handlers ps).
       (\<not> registered ps i \<or> ps_state ps = stateStopped \<longrightarrow> ph_cancelled (handlers ps ! i)) \<and>
       initialDelay \<le> ph_nextDelay (handlers ps ! i) \<and> ph_nextDelay (handlers ps ! i) \<le> maxBackoff \<and>
       (\<forall>d. ph_timer (handlers ps ! i) = Armed d \<longrightarrow> initialDelay \<le> d \<and> d \<le> maxBackoff))"
proof -
  have inv: "ps_inv ps" using assms by (rule peering.reach_inv)
  with inv_protected [OF inv] inv_cancelled [OF inv] inv_delay [OF inv] show ?thesis
    by (auto simp: delay_ok_def)
qed

definition ex_ps0 :: service where
  "ex_ps0 = AddPeer ''p'' [''/ip4/1''] (NewPeeringService (\<lambda>_. False))"

definition ex_ps1 :: service where
  "ex_ps1 = snd (Start ex_ps0)"

lemma reach_call:
  assumes "reach I ps_step ps"
  shows "reach I ps_step (snd (Start ps))" "reach I ps_step (Stop ps)" "reach I ps_step (AddPeer pid addrs ps)"
    "reach I ps_step (spawn [NotifyConnected p] (ps\<lparr>connected := (connected ps)(p := True)\<rparr>))"
    "reach I ps_step (spawn [NotifyDisconnected p] (ps\<lparr>connected := (connected ps)(p := False)\<rparr>))"
  using assms by (rule reach_step, intro ps_step.intros)+

lemma ex_ps1_reach: "reach initial ps_step ex_ps1"
  unfolding ex_ps1_def ex_ps0_def by (intro reach_call reach_init) (auto simp: initial_def)

lemma reach_task:
  "reach I ps_step ps \<Longrightarrow> t \<in> set (tasks ps) \<Longrightarrow> rand_ok r1 r2 (task_delay t ps) \<Longrightarrow>
    reach I ps_step (run_task r1 r2 ok t (ps\<lparr>tasks := remove1 t (tasks ps)\<rparr>))"
  by (rule reach_step) (auto intro: task)

theorem Peering_invariant_witness: "protected_peers ex_ps1 = {''p''}"
  using Peering_invariant [OF ex_ps1_reach]
  by (simp add: ex_ps1_def ex_ps0_def Start_def AddPeer_def NewPeeringService_def)

text \<open>C26. A stopped service stays quiet: a service that is running is stopped, others may run after \<^verbatim>\<open>Stop\<close> has left the network and
  before it takes the mutex, and when it takes it no goroutine is under way that could start a
  timer and no removed handler has one. Then from there on no handler ever has a timer again, whatever is
  called and whatever the network does, and \<^verbatim>\<open>Start\<close> fails. A service that was not started yet is left out: a \<^verbatim>\<open>Start\<close>
  between the two parts of \<^verbatim>\<open>Stop\<close> registers it with the network for good.\<close>

theorem Stop_quiesces:
  assumes "ps_state ps0 = stateRunning" and "ps_step\<^sup>*\<^sup>* (Stop ps0) ps"
    and "FinishStop \<in> set (tasks ps)" and "ps_state ps = stateRunning" and "\<forall>t \<in> set (tasks ps). harmless t"
    and "\<forall>i < length (handlers ps). \<not> registered ps i \<longrightarrow> ph_timer (handlers ps ! i) = NoTimer"
    and "ps_step\<^sup>*\<^sup>* (run_task r1 r2 ok FinishStop (ps\<lparr>tasks := remove1 FinishStop (tasks ps)\<rparr>)) ps'"
  shows "(\<forall>ph \<in> set (handlers ps'). ph_timer ph = NoTimer) \<and> fst (Start ps') = Some ''already stopped''"
proof -
  let ?ps = "ps\<lparr>tasks := remove1 FinishStop (tasks ps)\<rparr>"
  have "unregistered (Stop ps0)" using assms(1) by (simp add: unregistered_def Stop_def)
  with assms(2) have "\<not> notifying ps" using peering_unregistered.steps_inv by (auto simp: unregistered_def)
  moreover have "registered ?ps i = registered ps i" for i by (simp add: registered_def)
  ultimately have "quiescent (Stop_locked ?ps)"
    using assms(4-6) by (auto simp: quiescent_def Stop_locked_def stop_def dest: set_remove1_subset [THEN subsetD])
  with assms(7) have "quiescent ps'" using peering_stopped.steps_inv by simp
  then show ?thesis by (simp add: quiescent_def Start_def)
qed

definition ex_run :: "service \<Rightarrow> task \<Rightarrow> service" where
  "ex_run ps t = run_task 0 0 True t (ps\<lparr>tasks := remove1 t (tasks ps)\<rparr>)"

text \<open>A peer is added between the two parts of \<^verbatim>\<open>Stop\<close> and connects at once; one more is added afterwards.\<close>

definition ex_stop0 :: service where
  "ex_stop0 = snd (Start (NewPeeringService (\<lambda>_. True)))"

definition ex_stop1 :: service where
  "ex_stop1 = ex_run (AddPeer ''p'' [] (Stop ex_stop0)) (StartIfDisconnected 0)"

theorem Stop_quiesces_witness:
  "fst (Start (AddPeer ''q'' [] (ex_run ex_stop1 FinishStop))) = Some ''already stopped''
     \<and> map ph_timer (handlers (AddPeer ''q'' [] (ex_run ex_stop1 FinishStop))) = [NoTimer, NoTimer]"
proof -
  let ?ps = "AddPeer ''q'' [] (ex_run ex_stop1 FinishStop)"
  have t: "StartIfDisconnected 0 \<in> set (tasks (AddPeer ''p'' [] (Stop ex_stop0)))" by code_simp
  have d: "rand_ok 0 0 (task_delay (StartIfDisconnected 0) (AddPeer ''p'' [] (Stop ex_stop0)))" by code_simp
  have "ps_step\<^sup>*\<^sup>* (Stop ex_stop0) ex_stop1"
    unfolding ex_stop1_def ex_run_def
    by (rule rtranclp.rtrancl_into_rtrancl [OF r_into_rtranclp]) (rule add, rule task [OF t d])
  moreover have "\<forall>i < length (handlers ex_stop1). \<not> registered ex_stop1 i \<longrightarrow> ph_timer (handlers ex_stop1 ! i) = NoTimer"
    by code_simp
  moreover have "tasks ex_stop1 = [FinishStop]" "ps_state ex_stop0 = stateRunning" "ps_state ex_stop1 = stateRunning" by code_simp+
  moreover have "ps_step\<^sup>*\<^sup>* (run_task 0 0 True FinishStop (ex_stop1\<lparr>tasks := remove1 FinishStop (tasks ex_stop1)\<rparr>)) ?ps"
    unfolding ex_run_def by (rule r_into_rtranclp) (rule add)
  ultimately have "(\<forall>ph \<in> set (handlers ?ps). ph_timer ph = NoTimer) \<and> fst (Start ?ps) = Some ''already stopped''"
    using Stop_quiesces [of ex_stop0 ex_stop1 0 0 True ?ps] by simp
  moreover have "length (handlers ?ps) = 2" by code_simp
  ultimately show ?thesis by (auto simp: numeral_2_eq_2 length_Suc_conv)
qed

text \<open>The run in which a connection is lost between the return of \<^verbatim>\<open>Connect\<close> and \<^verbatim>\<open>stopIfConnected\<close>.\<close>

definition ex_lost1 :: service where
  "ex_lost1 = fire 0 (ex_run ex_ps1 (StartIfDisconnected 0))"

definition ex_lost2 :: service where
  "ex_lost2 = (let ps = spawn [NotifyConnected ''p''] (ex_lost1\<lparr>connected := (connected ex_lost1)(''p'' := True)\<rparr>);
       ps = ex_run ps (Reconnect 0)
     in spawn [NotifyDisconnected ''p''] (ps\<lparr>connected := (connected ps)(''p'' := False)\<rparr>))"

definition ex_lost :: service where
  "ex_lost = foldl ex_run ex_lost2
     [StopIfConnected 0, NotifyConnected ''p'', StopIfConnected 0, NotifyDisconnected ''p'', StartIfDisconnected 0]"

lemma ex_run_reach:
  "reach I ps_step ps \<Longrightarrow> t \<in> set (tasks ps) \<Longrightarrow> 0 < task_delay t ps \<Longrightarrow> reach I ps_step (ex_run ps t)"
  unfolding ex_run_def by (rule reach_task) (auto simp: rand_ok_def backoff_consts)

lemma ex_lost_reach: "reach initial ps_step ex_lost"
proof -
  have "reach initial ps_step (ex_run ex_ps1 (StartIfDisconnected 0))"
    by (rule ex_run_reach [OF ex_ps1_reach]) code_simp+
  moreover have "ph_timer (handlers (ex_run ex_ps1 (StartIfDisconnected 0)) ! 0) = Armed 7500000000"
    "0 < length (handlers (ex_run ex_ps1 (StartIfDisconnected 0)))" by code_simp+
  ultimately have r1: "reach initial ps_step ex_lost1"
    unfolding ex_lost1_def by (blast intro: reach_step timer)
  have r2: "reach initial ps_step ex_lost2"
    unfolding ex_lost2_def Let_def
    by (rule reach_call, rule ex_run_reach, rule reach_call, rule r1) code_simp+
  show ?thesis
    unfolding ex_lost_def foldl.simps
    by (rule ex_run_reach, rule ex_run_reach, rule ex_run_reach, rule ex_run_reach, rule ex_run_reach, rule r2) code_simp+
qed

text \<open>A reconnect can be lost: there is a run of the service after which it is running, a peer in it is
  not connected, and nothing is left that would ever reconnect: no goroutine, no notification, and a timer
  that has fired. It needs a connection that drops after \<^verbatim>\<open>Connect\<close> has returned and before
  \<^verbatim>\<open>stopIfConnected\<close> runs; the handler keeps its spent timer, and \<^verbatim>\<open>startIfDisconnected\<close> takes the timer for a
  reconnect in progress.\<close>

lemma Peering_reconnect_lost:
  "\<exists>ps i. reach initial ps_step ps \<and> ps_state ps = stateRunning \<and> peers ps ''p'' = Some i \<and>
     \<not> connected ps ''p'' \<and> tasks ps = [] \<and> map ph_timer (handlers ps) = [Fired]"
proof (intro exI conjI)
  show "reach initial ps_step ex_lost" by (rule ex_lost_reach)
  show "ps_state ex_lost = stateRunning" "peers ex_lost ''p'' = Some 0" "\<not> connected ex_lost ''p''"
    "tasks ex_lost = []" "map ph_timer (handlers ex_lost) = [Fired]" by code_simp+
qed

text \<open>And a goroutine that was under way when the service stopped arms a timer afterwards.\<close>

lemma stopped_handler_restarts:
  "\<exists>ps. reach initial ps_step ps \<and> ps_state ps = stateStopped \<and> map ph_timer (handlers ps) = [Armed 7500000000]"
proof (intro exI conjI)
  show "reach initial ps_step (ex_run (ex_run (Stop ex_ps1) FinishStop) (StartIfDisconnected 0))"
    by (rule ex_run_reach, rule ex_run_reach, rule reach_call, rule ex_ps1_reach) code_simp+
  show "ps_state (ex_run (ex_run (Stop ex_ps1) FinishStop) (StartIfDisconnected 0)) = stateStopped"
    "map ph_timer (handlers (ex_run (ex_run (Stop ex_ps1) FinishStop) (StartIfDisconnected 0))) = [Armed 7500000000]" by code_simp+
qed

text \<open>So does a notification, when the service was started between the two parts of \<^verbatim>\<open>Stop\<close>: it is stopped and still registered.\<close>

definition ex_race1 :: service where
  "ex_race1 = AddPeer ''p'' [] (ex_run (snd (Start (Stop (NewPeeringService (\<lambda>_. False))))) FinishStop)"

definition ex_race2 :: service where
  "ex_race2 = ex_run (spawn [NotifyDisconnected ''p''] (ex_race1\<lparr>connected := (connected ex_race1)(''p'' := False)\<rparr>)) (NotifyDisconnected ''p'')"

lemma start_during_stop_restarts:
  "\<exists>ps. reach initial ps_step ps \<and> ps_state ps = stateStopped \<and> tasks ps = [] \<and> map ph_timer (handlers ps) = [Armed 7500000000]"
proof (intro exI conjI)
  have "reach initial ps_step (NewPeeringService (\<lambda>_. False))" by (rule reach_init) (auto simp: initial_def)
  then have "reach initial ps_step ex_race1" unfolding ex_race1_def
    by (rule reach_call(3) [OF ex_run_reach [OF reach_call(1) [OF reach_call(2)]]]) code_simp+
  then have "reach initial ps_step ex_race2" unfolding ex_race2_def
    by (rule ex_run_reach [OF reach_call(5)]) code_simp+
  then show "reach initial ps_step (ex_run ex_race2 (StartIfDisconnected 0))" by (rule ex_run_reach) code_simp+
  show "ps_state (ex_run ex_race2 (StartIfDisconnected 0)) = stateStopped" "tasks (ex_run ex_race2 (StartIfDisconnected 0)) = []"
    "map ph_timer (handlers (ex_run ex_race2 (StartIfDisconnected 0))) = [Armed 7500000000]" by code_simp+
qed

end
