(* ===== verification/Plugin_Loader.thy ===== *)
theory Plugin_Loader
  imports Prelude "HOL-Library.Multiset"
begin

text \<open>
  The plugin loader (\<^verbatim>\<open>plugin/loader/loader.go\<close>): a state machine that loads, initialises, injects, starts and
  closes plugins. A plugin is what its interfaces return; an interface a plugin does not implement is
  \<open>None\<close>. Go ranges over the map of plugins in no fixed order: each operation takes the order as an
  argument, any listing of the loaded plugins. The calls that reach a plugin are recorded in a trace.
\<close>

section \<open>Plugins and states\<close>

record plugin =
  pl_Name :: string
  pl_Version :: string
  pl_Init :: "err option"
  pl_Register :: "err option option"        \<comment> \<open>PluginIPLD\<close>
  pl_InitTracer :: "err option option"      \<comment> \<open>PluginTracer\<close>
  pl_AddDatastore :: "err option option"    \<comment> \<open>PluginDatastore: the result of registering its type\<close>
  pl_Start :: "err option option"           \<comment> \<open>PluginDaemon\<close>
  pl_StartInternal :: "err option option"   \<comment> \<open>PluginDaemonInternal\<close>
  pl_Close :: "err option option"           \<comment> \<open>io.Closer\<close>

datatype loaderState =
    loaderLoading | loaderInitializing | loaderInitialized | loaderInjecting | loaderInjected
  | loaderStarting | loaderStarted | loaderClosing | loaderClosed | loaderFailed

datatype call =
    CallInit string | CallRegister string | CallInitTracer string | CallAddDatastore string
  | CallStart string | CallClose string

datatype loader_err =
    BadState loaderState loaderState
  | Duplicate string string string
  | PluginError err
  | CloseErrors "string list"

record loader =
  ld_state :: loaderState
  ld_plugins :: "plugin list"
  ld_started :: "plugin list"
  ld_disabled :: "string \<Rightarrow> bool"
  ld_trace :: "call list"

fun state_String :: "loaderState \<Rightarrow> string" where
  "state_String loaderLoading = ''Loading''"
| "state_String loaderInitializing = ''Initializing''"
| "state_String loaderInitialized = ''Initialized''"
| "state_String loaderInjecting = ''Injecting''"
| "state_String loaderInjected = ''Injected''"
| "state_String loaderStarting = ''Starting''"
| "state_String loaderStarted = ''Started''"
| "state_String loaderClosing = ''Closing''"
| "state_String loaderClosed = ''Closed''"
| "state_String loaderFailed = ''Failed''"

definition assertState :: "loaderState \<Rightarrow> loader \<Rightarrow> loader_err option" where
  "assertState st ld = (if ld_state ld \<noteq> st then Some (BadState st (ld_state ld)) else None)"

definition transition :: "loaderState \<Rightarrow> loaderState \<Rightarrow> loader \<Rightarrow> loader_err option \<times> loader" where
  "transition from to ld =
     (case assertState from ld of Some e \<Rightarrow> (Some e, ld) | None \<Rightarrow> (None, ld\<lparr>ld_state := to\<rparr>))"

definition traced :: "call \<Rightarrow> loader \<Rightarrow> loader" where
  "traced c ld = ld\<lparr>ld_trace := ld_trace ld @ [c]\<rparr>"

section \<open>Loading\<close>

definition Load :: "plugin \<Rightarrow> loader \<Rightarrow> loader_err option \<times> loader" where
  "Load pl ld =
     (case assertState loaderLoading ld of
        Some e \<Rightarrow> (Some e, ld)
      | None \<Rightarrow>
          (case List.find (\<lambda>q. pl_Name q = pl_Name pl) (ld_plugins ld) of
             Some ppl \<Rightarrow> (Some (Duplicate (pl_Name pl) (pl_Version ppl) (pl_Version pl)), ld)
           | None \<Rightarrow>
               if ld_disabled ld (pl_Name pl) then (None, ld)
               else (None, ld\<lparr>ld_plugins := ld_plugins ld @ [pl]\<rparr>)))"

fun load_all :: "plugin list \<Rightarrow> loader \<Rightarrow> loader_err option \<times> loader" where
  "load_all [] ld = (None, ld)"
| "load_all (pl # pls) ld =
     (case Load pl ld of (Some e, ld') \<Rightarrow> (Some e, ld') | (None, ld') \<Rightarrow> load_all pls ld')"

text \<open>The plugin directory: missing, not readable, or the sequence in which \<^verbatim>\<open>filepath.Walk\<close> visits it.\<close>

datatype entry = WalkError err | Directory string | File string bool

datatype plugin_dir = Missing | StatError err | Visited "entry list"

fun walk_plugins :: "(string \<Rightarrow> err + plugin list) \<Rightarrow> entry list \<Rightarrow> plugin list \<Rightarrow> plugin list \<times> loader_err option" where
  "walk_plugins loadPluginFunc [] plugins = (plugins, None)"
| "walk_plugins loadPluginFunc (WalkError e # es) plugins = (plugins, Some (PluginError e))"
| "walk_plugins loadPluginFunc (Directory fi # es) plugins = walk_plugins loadPluginFunc es plugins"
| "walk_plugins loadPluginFunc (File fi executable # es) plugins =
     (if \<not> executable then walk_plugins loadPluginFunc es plugins
      else case loadPluginFunc fi of
        Inr newPlugins \<Rightarrow> walk_plugins loadPluginFunc es (plugins @ newPlugins)
      | Inl e \<Rightarrow> (plugins, Some (PluginError (''loading plugin '' @ fi @ '': '' @ e))))"

definition loadDynamicPlugins ::
  "(string \<Rightarrow> err + plugin list) \<Rightarrow> plugin_dir \<Rightarrow> plugin list \<times> loader_err option" where
  "loadDynamicPlugins loadPluginFunc dir =
     (case dir of
        Missing \<Rightarrow> ([], None)
      | StatError e \<Rightarrow> ([], Some (PluginError e))
      | Visited es \<Rightarrow> walk_plugins loadPluginFunc es [])"

definition LoadDirectory ::
  "(string \<Rightarrow> err + plugin list) \<Rightarrow> plugin_dir \<Rightarrow> loader \<Rightarrow> loader_err option \<times> loader" where
  "LoadDirectory loadPluginFunc dir ld =
     (case assertState loaderLoading ld of
        Some e \<Rightarrow> (Some e, ld)
      | None \<Rightarrow>
          (case loadDynamicPlugins loadPluginFunc dir of
             (_, Some e) \<Rightarrow> (Some e, ld)
           | (newPls, None) \<Rightarrow> load_all newPls ld))"

text \<open>The configuration file of the repository: absent, unreadable, or its set of disabled plugins.\<close>

datatype plugin_cfg = NotInitialized | CfgError err | Cfg "string \<Rightarrow> bool"

definition new_loader :: "(string \<Rightarrow> bool) \<Rightarrow> loader" where
  "new_loader disabled =
     \<lparr>ld_state = loaderLoading, ld_plugins = [], ld_started = [], ld_disabled = disabled, ld_trace = []\<rparr>"

definition NewPluginLoader ::
  "(string \<Rightarrow> err + plugin list) \<Rightarrow> plugin list \<Rightarrow> string \<Rightarrow> plugin_cfg \<Rightarrow> plugin_dir \<Rightarrow> loader_err + loader" where
  "NewPluginLoader loadPluginFunc preloadPlugins repo cfg dir =
     (case (if repo = [] then Inr (\<lambda>_. False)
            else case cfg of
              NotInitialized \<Rightarrow> Inr (\<lambda>_. False) | CfgError e \<Rightarrow> Inl e | Cfg disabled \<Rightarrow> Inr disabled) of
        Inl e \<Rightarrow> Inl (PluginError e)
      | Inr disabled \<Rightarrow>
          (case load_all preloadPlugins (new_loader disabled) of
             (Some e, _) \<Rightarrow> Inl e
           | (None, ld) \<Rightarrow>
               (case LoadDirectory loadPluginFunc dir ld of
                  (Some e, _) \<Rightarrow> Inl e
                | (None, ld') \<Rightarrow> Inr ld')))"

section \<open>Initialising and injecting\<close>

fun init_all :: "plugin list \<Rightarrow> loader \<Rightarrow> loader_err option \<times> loader" where
  "init_all [] ld = (None, ld)"
| "init_all (p # ps) ld =
     (let ld = traced (CallInit (pl_Name p)) ld in
      case pl_Init p of
        Some e \<Rightarrow> (Some (PluginError e), ld\<lparr>ld_state := loaderFailed\<rparr>)
      | None \<Rightarrow> init_all ps ld)"

definition Initialize :: "plugin list \<Rightarrow> loader \<Rightarrow> loader_err option \<times> loader" where
  "Initialize order ld =
     (case transition loaderLoading loaderInitializing ld of
        (Some e, ld) \<Rightarrow> (Some e, ld)
      | (None, ld) \<Rightarrow>
          (case init_all order ld of
             (Some e, ld) \<Rightarrow> (Some e, ld)
           | (None, ld) \<Rightarrow> transition loaderInitializing loaderInitialized ld))"

text \<open>One of the three injections of a plugin, by the call that makes it and its outcome.\<close>

definition inject_one :: "call \<Rightarrow> err option option \<Rightarrow> loader \<Rightarrow> loader_err option \<times> loader" where
  "inject_one c outcome ld =
     (case outcome of
        None \<Rightarrow> (None, ld)
      | Some None \<Rightarrow> (None, traced c ld)
      | Some (Some e) \<Rightarrow> (Some (PluginError e), (traced c ld)\<lparr>ld_state := loaderFailed\<rparr>))"

definition and_then ::
  "loader_err option \<times> loader \<Rightarrow> (loader \<Rightarrow> loader_err option \<times> loader) \<Rightarrow> loader_err option \<times> loader" where
  "and_then r k = (case r of (Some e, ld) \<Rightarrow> (Some e, ld) | (None, ld) \<Rightarrow> k ld)"

definition inject_plugin :: "plugin \<Rightarrow> loader \<Rightarrow> loader_err option \<times> loader" where
  "inject_plugin pl ld =
     and_then (inject_one (CallRegister (pl_Name pl)) (pl_Register pl) ld) (\<lambda>ld.
     and_then (inject_one (CallInitTracer (pl_Name pl)) (pl_InitTracer pl) ld) (\<lambda>ld.
     inject_one (CallAddDatastore (pl_Name pl)) (pl_AddDatastore pl) ld))"

fun inject_all :: "plugin list \<Rightarrow> loader \<Rightarrow> loader_err option \<times> loader" where
  "inject_all [] ld = (None, ld)"
| "inject_all (pl # pls) ld = and_then (inject_plugin pl ld) (inject_all pls)"

definition Inject :: "plugin list \<Rightarrow> loader \<Rightarrow> loader_err option \<times> loader" where
  "Inject order ld =
     and_then (transition loaderInitialized loaderInjecting ld) (\<lambda>ld.
     and_then (inject_all order ld) (transition loaderInjecting loaderInjected))"

section \<open>Starting and closing\<close>

fun close_all :: "plugin list \<Rightarrow> loader \<Rightarrow> string list \<Rightarrow> string list \<times> loader" where
  "close_all [] ld errs = (errs, ld)"
| "close_all (pl # pls) ld errs =
     (case pl_Close pl of
        None \<Rightarrow> close_all pls ld errs
      | Some None \<Rightarrow> close_all pls (traced (CallClose (pl_Name pl)) ld) errs
      | Some (Some e) \<Rightarrow>
          close_all pls (traced (CallClose (pl_Name pl)) ld)
            (errs @ [''error closing plugin '' @ pl_Name pl @ '': '' @ e]))"

definition Close :: "loader \<Rightarrow> loader_err option \<times> loader" where
  "Close ld =
     (if ld_state ld \<in> {loaderClosing, loaderFailed, loaderClosed} then (None, ld)
      else
        (case close_all (ld_started ld) (ld\<lparr>ld_state := loaderClosing, ld_started := []\<rparr>) [] of
           ([], ld) \<Rightarrow> (None, ld\<lparr>ld_state := loaderClosed\<rparr>)
         | (errs, ld) \<Rightarrow> (Some (CloseErrors errs), ld\<lparr>ld_state := loaderFailed\<rparr>)))"

definition start_one :: "plugin \<Rightarrow> err option option \<Rightarrow> loader \<Rightarrow> loader_err option \<times> loader" where
  "start_one pl outcome ld =
     (case outcome of
        None \<Rightarrow> (None, ld)
      | Some (Some e) \<Rightarrow> (Some (PluginError e), snd (Close ld))
      | Some None \<Rightarrow> (None, (traced (CallStart (pl_Name pl)) ld)\<lparr>ld_started := ld_started ld @ [pl]\<rparr>))"

fun start_all :: "plugin list \<Rightarrow> loader \<Rightarrow> loader_err option \<times> loader" where
  "start_all [] ld = (None, ld)"
| "start_all (pl # pls) ld =
     and_then (start_one pl (pl_Start pl) ld) (\<lambda>ld.
     and_then (start_one pl (pl_StartInternal pl) ld) (start_all pls))"

text \<open>\<open>core_api\<close> is the error of \<^verbatim>\<open>coreapi.NewCoreAPI\<close>, if any.\<close>

definition Start :: "err option \<Rightarrow> plugin list \<Rightarrow> loader \<Rightarrow> loader_err option \<times> loader" where
  "Start core_api order ld =
     and_then (transition loaderInjected loaderStarting ld) (\<lambda>ld.
       case core_api of
         Some e \<Rightarrow> (Some (PluginError e), ld)
       | None \<Rightarrow> and_then (start_all order ld) (transition loaderStarting loaderStarted))"

section \<open>Steps and the invariant\<close>

definition lists :: "plugin list \<Rightarrow> loader \<Rightarrow> bool" where
  "lists order ld \<longleftrightarrow> set order = set (ld_plugins ld)"

inductive ld_step :: "loader \<Rightarrow> loader \<Rightarrow> bool" where
  load: "ld_step ld (snd (Load pl ld))"
| initialize: "lists order ld \<Longrightarrow> ld_step ld (snd (Initialize order ld))"
| inject: "lists order ld \<Longrightarrow> ld_step ld (snd (Inject order ld))"
| start: "lists order ld \<Longrightarrow> ld_step ld (snd (Start core_api order ld))"
| close: "ld_step ld (snd (Close ld))"

definition initial :: "loader \<Rightarrow> bool" where
  "initial ld \<longleftrightarrow> (\<exists>disabled. ld = new_loader disabled)"

fun quiet :: "call \<Rightarrow> bool" where
  "quiet (CallStart n) = False"
| "quiet (CallClose n) = False"
| "quiet _ = True"

definition initialised :: "loader \<Rightarrow> call set \<Rightarrow> bool" where
  "initialised ld T \<longleftrightarrow> (\<forall>p \<in> set (ld_plugins ld). CallInit (pl_Name p) \<in> T)"

definition injected :: "plugin \<Rightarrow> call set \<Rightarrow> bool" where
  "injected p T \<longleftrightarrow>
     (pl_Register p \<noteq> None \<longrightarrow> CallRegister (pl_Name p) \<in> T) \<and>
     (pl_InitTracer p \<noteq> None \<longrightarrow> CallInitTracer (pl_Name p) \<in> T) \<and>
     (pl_AddDatastore p \<noteq> None \<longrightarrow> CallAddDatastore (pl_Name p) \<in> T)"

definition ready :: "loader \<Rightarrow> call set \<Rightarrow> bool" where
  "ready ld T \<longleftrightarrow> initialised ld T \<and> (\<forall>p \<in> set (ld_plugins ld). injected p T)"

text \<open>No plugin is started before every loaded plugin was initialised and injected.\<close>

definition starts_last :: "loader \<Rightarrow> bool" where
  "starts_last ld \<longleftrightarrow> (\<forall>pre n post. ld_trace ld = pre @ CallStart n # post \<longrightarrow> ready ld (set pre))"

text \<open>Every start is matched by a close, except for those still in the list of started plugins.\<close>

definition balanced :: "loader \<Rightarrow> bool" where
  "balanced ld \<longleftrightarrow>
     (\<forall>p \<in> set (ld_plugins ld). pl_Close p \<noteq> None \<longrightarrow>
        count_list (ld_trace ld) (CallStart (pl_Name p)) =
        count_list (ld_trace ld) (CallClose (pl_Name p)) + count_list (map pl_Name (ld_started ld)) (pl_Name p))"

definition ld_inv :: "loader \<Rightarrow> bool" where
  "ld_inv ld \<longleftrightarrow>
     distinct (map pl_Name (ld_plugins ld)) \<and> (\<forall>p \<in> set (ld_plugins ld). \<not> ld_disabled ld (pl_Name p)) \<and>
     set (ld_started ld) \<subseteq> set (ld_plugins ld) \<and>
     (ld_state ld \<notin> {loaderStarting, loaderStarted} \<longrightarrow> ld_started ld = []) \<and>
     balanced ld \<and> starts_last ld \<and>
     (ld_state ld \<in> {loaderInitialized, loaderInjecting} \<longrightarrow> initialised ld (set (ld_trace ld))) \<and>
     (ld_state ld \<in> {loaderInjected, loaderStarting, loaderStarted} \<longrightarrow> ready ld (set (ld_trace ld))) \<and>
     (ld_state ld = loaderLoading \<longrightarrow> ld_trace ld = [])"

lemma traced_simps [simp]:
  "ld_state (traced c ld) = ld_state ld" "ld_plugins (traced c ld) = ld_plugins ld"
  "ld_started (traced c ld) = ld_started ld" "ld_disabled (traced c ld) = ld_disabled ld"
  "ld_trace (traced c ld) = ld_trace ld @ [c]"
  by (simp_all add: traced_def)

text \<open>Initialising and injecting extend the trace by calls that are neither starts nor closes, and change
  nothing else but, on failure, the state.\<close>

definition extends :: "loader \<Rightarrow> loader_err option \<times> loader \<Rightarrow> call set \<Rightarrow> bool" where
  "extends ld r C \<longleftrightarrow>
     (\<exists>cs. ld_trace (snd r) = ld_trace ld @ cs \<and> list_all quiet cs \<and> (fst r = None \<longrightarrow> C \<subseteq> set cs)) \<and>
     ld_plugins (snd r) = ld_plugins ld \<and> ld_started (snd r) = ld_started ld \<and> ld_disabled (snd r) = ld_disabled ld \<and>
     ld_state (snd r) = (if fst r = None then ld_state ld else loaderFailed)"

lemma extends_refl: "extends ld (None, ld) {}"
  by (auto simp: extends_def)

lemma extends_and_then:
  assumes r: "extends ld r C" and k: "\<And>ld'. r = (None, ld') \<Longrightarrow> extends ld' (k ld') D"
  shows "extends ld (and_then r k) (C \<union> D)"
proof (cases r)
  case (Pair e ld')
  show ?thesis
  proof (cases e)
    case (Some x)
    with Pair r show ?thesis by (auto simp: extends_def and_then_def)
  next
    case None
    with Pair r obtain cs where "ld_trace ld' = ld_trace ld @ cs" "list_all quiet cs" "C \<subseteq> set cs"
      by (auto simp: extends_def)
    moreover from None Pair k obtain ds where "ld_trace (snd (k ld')) = ld_trace ld' @ ds" "list_all quiet ds"
      "fst (k ld') = None \<longrightarrow> D \<subseteq> set ds" by (auto simp: extends_def)
    moreover have "extends ld' (k ld') D" using None Pair k by simp
    ultimately show ?thesis using None Pair r
      by (auto simp: extends_def and_then_def intro!: exI [of _ "cs @ ds"])
  qed
qed

lemma extends_inject_one: "quiet c \<Longrightarrow> extends ld (inject_one c outcome ld) (if outcome = None then {} else {c})"
  by (auto simp: extends_def inject_one_def split: option.splits)

lemma extends_init_all: "extends ld (init_all ps ld) (CallInit ` pl_Name ` set ps)"
proof (induction ps arbitrary: ld)
  case (Cons p ps)
  have "extends ld (inject_one (CallInit (pl_Name p)) (Some (pl_Init p)) ld) {CallInit (pl_Name p)}"
    using extends_inject_one [of "CallInit (pl_Name p)" ld "Some (pl_Init p)"] by simp
  from extends_and_then [OF this, of "init_all ps"] Cons.IH
  have "extends ld (and_then (inject_one (CallInit (pl_Name p)) (Some (pl_Init p)) ld) (init_all ps))
      ({CallInit (pl_Name p)} \<union> CallInit ` pl_Name ` set ps)" by blast
  moreover have "init_all (p # ps) ld = and_then (inject_one (CallInit (pl_Name p)) (Some (pl_Init p)) ld) (init_all ps)"
    by (simp add: inject_one_def and_then_def Let_def split: option.splits)
  ultimately show ?case by simp
qed (simp add: extends_refl)

definition injections :: "plugin \<Rightarrow> call set" where
  "injections pl =
     (if pl_Register pl = None then {} else {CallRegister (pl_Name pl)}) \<union>
     ((if pl_InitTracer pl = None then {} else {CallInitTracer (pl_Name pl)}) \<union>
      (if pl_AddDatastore pl = None then {} else {CallAddDatastore (pl_Name pl)}))"

lemma injections_injected: "injections p \<subseteq> T \<longleftrightarrow> injected p T"
  by (auto simp: injections_def injected_def)

lemma extends_inject_plugin: "extends ld (inject_plugin pl ld) (injections pl)"
  unfolding inject_plugin_def injections_def
  by (intro extends_and_then extends_inject_one) simp_all

lemma extends_inject_all: "extends ld (inject_all pls ld) (\<Union> (injections ` set pls))"
proof (induction pls arbitrary: ld)
  case (Cons pl pls)
  show ?case using extends_and_then [OF extends_inject_plugin Cons.IH] by simp
qed (simp add: extends_refl)

lemma starts_last_append:
  assumes "starts_last ld" "ld_trace ld' = ld_trace ld @ cs" "\<And>n. CallStart n \<notin> set cs" "ld_plugins ld' = ld_plugins ld"
  shows "starts_last ld'"
  unfolding starts_last_def
proof (intro allI impI)
  fix pre n post
  assume t: "ld_trace ld' = pre @ CallStart n # post"
  have r: "ready ld' = ready ld" using assms(4) by (simp add: ready_def initialised_def fun_eq_iff)
  from t assms(2) obtain us where
    "ld_trace ld = pre @ us \<and> us @ cs = CallStart n # post \<or> ld_trace ld @ us = pre \<and> cs = us @ CallStart n # post"
    by (auto simp: append_eq_append_conv2)
  then show "ready ld' (set pre)"
  proof
    assume "ld_trace ld = pre @ us \<and> us @ cs = CallStart n # post"
    with assms(1,3) show ?thesis by (cases us) (auto simp: r starts_last_def)
  qed (use assms(3) in auto)
qed

lemma quiet_no_start: "list_all quiet cs \<Longrightarrow> CallStart n \<notin> set cs"
  by (induction cs) auto

lemma count_quiet:
  "list_all quiet cs \<Longrightarrow> count_list cs (CallStart n) = 0" "list_all quiet cs \<Longrightarrow> count_list cs (CallClose n) = 0"
  by (induction cs) auto

text \<open>A quiet extension keeps the invariant once the facts about the new state are known.\<close>

lemma inv_extend:
  assumes inv: "ld_inv ld" and tr: "ld_trace ld' = ld_trace ld @ cs" "list_all quiet cs"
    and same: "ld_plugins ld' = ld_plugins ld" "ld_started ld' = ld_started ld" "ld_disabled ld' = ld_disabled ld"
    and st: "ld_started ld = []"
      "ld_state ld' \<in> {loaderInitialized, loaderInjecting} \<Longrightarrow> initialised ld' (set (ld_trace ld'))"
      "ld_state ld' \<in> {loaderInjected, loaderStarting, loaderStarted} \<Longrightarrow> ready ld' (set (ld_trace ld'))"
      "ld_state ld' \<noteq> loaderLoading"
  shows "ld_inv ld'"
proof -
  have "balanced ld'"
    using inv tr same by (simp add: ld_inv_def balanced_def count_quiet)
  moreover have "starts_last ld'" using inv by (intro starts_last_append [OF _ tr(1) _ same(1)]) (simp_all add: ld_inv_def quiet_no_start [OF tr(2)])
  ultimately show ?thesis using inv same st unfolding ld_inv_def by simp
qed

lemma inv_Load: "ld_inv ld \<Longrightarrow> ld_inv (snd (Load pl ld))"
proof -
  assume inv: "ld_inv ld"
  show ?thesis
  proof (cases "ld_state ld = loaderLoading \<and> List.find (\<lambda>q. pl_Name q = pl_Name pl) (ld_plugins ld) = None
      \<and> \<not> ld_disabled ld (pl_Name pl)")
    case True
    then have "pl_Name pl \<notin> pl_Name ` set (ld_plugins ld)" by (auto simp: find_None_iff)
    with True inv show ?thesis
      by (auto simp: Load_def assertState_def ld_inv_def balanced_def starts_last_def)
  next
    case False
    then show ?thesis using inv by (auto simp: Load_def assertState_def split: option.splits)
  qed
qed

lemma inv_Initialize:
  assumes inv: "ld_inv ld" and order: "lists order ld"
  shows "ld_inv (snd (Initialize order ld))"
proof (cases "ld_state ld = loaderLoading")
  case True
  let ?ld = "ld\<lparr>ld_state := loaderInitializing\<rparr>"
  obtain e ld' where r: "init_all order ?ld = (e, ld')" by fastforce
  obtain cs where cs: "ld_trace ld' = ld_trace ld @ cs" "list_all quiet cs"
    "e = None \<longrightarrow> CallInit ` pl_Name ` set order \<subseteq> set cs" and
    same: "ld_plugins ld' = ld_plugins ld" "ld_started ld' = ld_started ld" "ld_disabled ld' = ld_disabled ld"
    "ld_state ld' = (if e = None then loaderInitializing else loaderFailed)"
    using extends_init_all [of ?ld order] r by (auto simp: extends_def)
  have st: "ld_started ld = []" using inv True by (simp add: ld_inv_def)
  show ?thesis
  proof (cases e)
    case None
    then have "initialised ld (set (ld_trace ld @ cs))" using cs(3) order by (auto simp: initialised_def lists_def)
    with inv cs same st None have "ld_inv (ld'\<lparr>ld_state := loaderInitialized\<rparr>)"
      by (intro inv_extend [OF inv, where cs = cs]) (auto simp: initialised_def)
    then show ?thesis using True r None same(4)
      by (simp add: Initialize_def transition_def assertState_def)
  next
    case (Some x)
    with inv cs same st have "ld_inv ld'" by (intro inv_extend [OF inv, where cs = cs]) auto
    then show ?thesis using True r Some by (simp add: Initialize_def transition_def assertState_def)
  qed
qed (simp add: Initialize_def transition_def assertState_def inv)

lemma inv_Inject:
  assumes inv: "ld_inv ld" and order: "lists order ld"
  shows "ld_inv (snd (Inject order ld))"
proof (cases "ld_state ld = loaderInitialized")
  case True
  let ?ld = "ld\<lparr>ld_state := loaderInjecting\<rparr>"
  obtain e ld' where r: "inject_all order ?ld = (e, ld')" by fastforce
  obtain cs where cs: "ld_trace ld' = ld_trace ld @ cs" "list_all quiet cs"
    "e = None \<longrightarrow> \<Union> (injections ` set order) \<subseteq> set cs" and
    same: "ld_plugins ld' = ld_plugins ld" "ld_started ld' = ld_started ld" "ld_disabled ld' = ld_disabled ld"
    "ld_state ld' = (if e = None then loaderInjecting else loaderFailed)"
    using extends_inject_all [of ?ld order] r by (auto simp: extends_def)
  have st: "ld_started ld = []" and init: "initialised ld (set (ld_trace ld))" using inv True by (simp_all add: ld_inv_def)
  show ?thesis
  proof (cases e)
    case None
    have "injected p (set (ld_trace ld @ cs))" if "p \<in> set (ld_plugins ld)" for p
      using cs(3) None order that injections_injected [of p "set (ld_trace ld @ cs)"] by (auto simp: lists_def)
    with init have "ready ld (set (ld_trace ld @ cs))" by (auto simp: ready_def initialised_def)
    with inv cs same st None have "ld_inv (ld'\<lparr>ld_state := loaderInjected\<rparr>)"
      by (intro inv_extend [OF inv, where cs = cs]) (auto simp: ready_def initialised_def)
    then show ?thesis using True r None same(4)
      by (simp add: Inject_def and_then_def transition_def assertState_def)
  next
    case (Some x)
    with inv cs same st have "ld_inv ld'" by (intro inv_extend [OF inv, where cs = cs]) auto
    then show ?thesis using True r Some by (simp add: Inject_def and_then_def transition_def assertState_def)
  qed
qed (simp add: Inject_def and_then_def transition_def assertState_def inv)

lemma close_all_effect:
  "close_all pls ld errs = (errs', ld') \<Longrightarrow>
    ld_plugins ld' = ld_plugins ld \<and> ld_started ld' = ld_started ld \<and> ld_disabled ld' = ld_disabled ld \<and>
    ld_state ld' = ld_state ld \<and>
    ld_trace ld' = ld_trace ld @ map (\<lambda>p. CallClose (pl_Name p)) (filter (\<lambda>p. pl_Close p \<noteq> None) pls)"
  by (induction pls ld errs rule: close_all.induct) (auto split: option.splits)

lemma count_closes:
  assumes "p \<in> set P" "distinct (map pl_Name P)" "pl_Close p \<noteq> None"
  shows "set pls \<subseteq> set P \<Longrightarrow>
    count_list (map (\<lambda>p. CallClose (pl_Name p)) (filter (\<lambda>p. pl_Close p \<noteq> None) pls)) (CallClose (pl_Name p)) =
    count_list (map pl_Name pls) (pl_Name p)"
proof (induction pls)
  case (Cons q pls)
  have "q = p" if "pl_Name q = pl_Name p"
    using that assms Cons.prems by (auto simp: distinct_map inj_on_def)
  with Cons assms(3) show ?case by auto
qed simp

lemma count_no_start [simp]:
  "count_list (map (\<lambda>p. CallClose (f p)) ps) (CallStart n) = 0"
  by (induction ps) auto

text \<open>What \<^verbatim>\<open>Close\<close> does in a state in which it does something.\<close>

lemma Close_effect:
  assumes "ld_state ld \<notin> {loaderClosing, loaderFailed, loaderClosed}"
  shows "ld_plugins (snd (Close ld)) = ld_plugins ld \<and> ld_started (snd (Close ld)) = [] \<and>
    ld_disabled (snd (Close ld)) = ld_disabled ld \<and> ld_state (snd (Close ld)) \<in> {loaderClosed, loaderFailed} \<and>
    ld_trace (snd (Close ld)) =
      ld_trace ld @ map (\<lambda>p. CallClose (pl_Name p)) (filter (\<lambda>p. pl_Close p \<noteq> None) (ld_started ld))"
proof -
  obtain errs ld' where "close_all (ld_started ld) (ld\<lparr>ld_state := loaderClosing, ld_started := []\<rparr>) [] = (errs, ld')"
    by fastforce
  with close_all_effect [OF this] assms show ?thesis by (cases errs) (auto simp: Close_def)
qed

lemma inv_Close:
  assumes inv: "ld_inv ld"
  shows "ld_inv (snd (Close ld))"
proof (cases "ld_state ld \<in> {loaderClosing, loaderFailed, loaderClosed}")
  case False
  note eff = Close_effect [OF False]
  have "balanced (snd (Close ld))"
    unfolding balanced_def
  proof (intro ballI impI)
    fix p
    assume p: "p \<in> set (ld_plugins (snd (Close ld)))" "pl_Close p \<noteq> None"
    then have "p \<in> set (ld_plugins ld)" using eff by simp
    with p(2) inv count_closes [of p "ld_plugins ld" "ld_started ld"]
    show "count_list (ld_trace (snd (Close ld))) (CallStart (pl_Name p)) =
        count_list (ld_trace (snd (Close ld))) (CallClose (pl_Name p)) +
        count_list (map pl_Name (ld_started (snd (Close ld)))) (pl_Name p)"
      using eff by (simp add: ld_inv_def balanced_def)
  qed
  moreover have "starts_last (snd (Close ld))"
    by (rule starts_last_append [of ld]) (use inv eff in \<open>auto simp: ld_inv_def\<close>)
  moreover have "ld_state (snd (Close ld)) = loaderClosed \<or> ld_state (snd (Close ld)) = loaderFailed" using eff by simp
  moreover have "ld_plugins (snd (Close ld)) = ld_plugins ld" "ld_started (snd (Close ld)) = []"
    "ld_disabled (snd (Close ld)) = ld_disabled ld" using eff by simp_all
  ultimately show ?thesis using inv unfolding ld_inv_def by (elim disjE) simp_all
qed (simp add: Close_def inv)

lemma inv_start_one:
  assumes inv: "ld_inv ld" "ld_state ld = loaderStarting" "pl \<in> set (ld_plugins ld)"
    and r: "start_one pl outcome ld = (e, ld')"
  shows "ld_inv ld' \<and> (e = None \<longrightarrow> ld_state ld' = loaderStarting \<and> ld_plugins ld' = ld_plugins ld)"
proof (cases outcome)
  case (Some o1)
  show ?thesis
  proof (cases o1)
    case None
    have ld': "ld' = (traced (CallStart (pl_Name pl)) ld)\<lparr>ld_started := ld_started ld @ [pl]\<rparr>" "e = None"
      using r Some None by (simp_all add: start_one_def)
    have rd: "ready ld (set (ld_trace ld))" using inv by (simp add: ld_inv_def)
    have "starts_last ld'"
      unfolding starts_last_def
    proof (intro allI impI)
      fix pre n post
      assume "ld_trace ld' = pre @ CallStart n # post"
      then have "(\<exists>us. ld_trace ld = pre @ CallStart n # us) \<or> pre = ld_trace ld"
        by (cases post rule: rev_cases) (auto simp: ld')
      with rd inv(1) have "ready ld (set pre)" by (auto simp: ld_inv_def starts_last_def)
      then show "ready ld' (set pre)" by (simp add: ld' ready_def initialised_def)
    qed
    moreover have "ready ld' (set (ld_trace ld'))" using rd by (auto simp: ld' ready_def initialised_def injected_def)
    moreover have "balanced ld'" using inv by (auto simp: ld_inv_def balanced_def ld')
    ultimately show ?thesis using inv by (auto simp: ld_inv_def ld')
  next
    case (Some x)
    with \<open>outcome = Some o1\<close> r inv_Close [OF inv(1)] show ?thesis by (auto simp: start_one_def)
  qed
qed (use inv r in \<open>simp add: start_one_def\<close>)

lemma inv_start_all:
  "ld_inv ld \<Longrightarrow> ld_state ld = loaderStarting \<Longrightarrow> set pls \<subseteq> set (ld_plugins ld) \<Longrightarrow> start_all pls ld = (e, ld') \<Longrightarrow>
    ld_inv ld' \<and> (e = None \<longrightarrow> ld_state ld' = loaderStarting)"
proof (induction pls arbitrary: ld)
  case (Cons pl pls)
  obtain e1 ld1 where r1: "start_one pl (pl_Start pl) ld = (e1, ld1)" by fastforce
  note i1 = inv_start_one [OF Cons.prems(1,2) _ r1]
  show ?case
  proof (cases e1)
    case None
    obtain e2 ld2 where r2: "start_one pl (pl_StartInternal pl) ld1 = (e2, ld2)" by fastforce
    have i2: "ld_inv ld2 \<and> (e2 = None \<longrightarrow> ld_state ld2 = loaderStarting \<and> ld_plugins ld2 = ld_plugins ld1)"
      by (rule inv_start_one [OF _ _ _ r2]) (use i1 None Cons.prems in auto)
    show ?thesis
    proof (cases e2)
      case None
      show ?thesis
        by (rule Cons.IH [of ld2]) (use i1 i2 r1 r2 \<open>e1 = None\<close> None Cons.prems in \<open>auto simp: and_then_def\<close>)
    qed (use i2 r1 r2 None Cons.prems(4) in \<open>auto simp: and_then_def\<close>)
  qed (use i1 r1 Cons.prems in \<open>auto simp: and_then_def\<close>)
qed simp

lemma inv_loader_Start:
  assumes inv: "ld_inv ld" and order: "lists order ld"
  shows "ld_inv (snd (Start core_api order ld))"
proof (cases "ld_state ld = loaderInjected")
  case True
  let ?ld = "ld\<lparr>ld_state := loaderStarting\<rparr>"
  have i: "ld_inv ?ld"
    using inv True by (auto simp: ld_inv_def balanced_def starts_last_def ready_def initialised_def)
  show ?thesis
  proof (cases core_api)
    case None
    obtain e ld' where r: "start_all order ?ld = (e, ld')" by fastforce
    have i': "ld_inv ld' \<and> (e = None \<longrightarrow> ld_state ld' = loaderStarting)"
      by (rule inv_start_all [OF i _ _ r]) (use order in \<open>auto simp: lists_def\<close>)
    then have "e = None \<Longrightarrow> ld_inv (ld'\<lparr>ld_state := loaderStarted\<rparr>)"
      by (auto simp: ld_inv_def balanced_def starts_last_def ready_def initialised_def)
    with True None r i' show ?thesis
      by (cases e) (simp_all add: Start_def and_then_def transition_def assertState_def)
  qed (use True i in \<open>simp add: Start_def and_then_def transition_def assertState_def\<close>)
qed (simp add: Start_def and_then_def transition_def assertState_def inv)

lemmas [step_inv] = inv_Load inv_Initialize inv_Inject inv_loader_Start inv_Close

interpretation loader: invariant_system initial ld_step ld_inv
proof unfold_locales
  show "ld_inv s" if "initial s" for s
    using that by (auto simp: initial_def new_loader_def ld_inv_def balanced_def starts_last_def)
  show "ld_inv t" if "ld_step s t" "ld_inv s" for s t
    using that by induction (simp_all add: step_inv)
qed

lemma Load_None:
  "Load pl ld = (None, ld') \<longleftrightarrow>
    ld_state ld = loaderLoading \<and> pl_Name pl \<notin> pl_Name ` set (ld_plugins ld) \<and>
    ld' = (if ld_disabled ld (pl_Name pl) then ld else ld\<lparr>ld_plugins := ld_plugins ld @ [pl]\<rparr>)"
proof (cases "List.find (\<lambda>q. pl_Name q = pl_Name pl) (ld_plugins ld)")
  case None
  moreover from this have "pl_Name pl \<notin> pl_Name ` set (ld_plugins ld)" by (auto simp: find_None_iff)
  ultimately show ?thesis by (auto simp: Load_def assertState_def)
next
  case (Some q)
  then have "q \<in> set (ld_plugins ld)" "pl_Name q = pl_Name pl" by (auto simp: find_Some_iff)
  then have "pl_Name pl \<in> pl_Name ` set (ld_plugins ld)" by (metis image_eqI)
  with Some show ?thesis by (simp add: Load_def assertState_def)
qed

lemma load_all_None:
  "load_all pls ld = (None, ld') \<Longrightarrow> distinct (map pl_Name (ld_plugins ld)) \<Longrightarrow>
    ld' = ld\<lparr>ld_plugins := ld_plugins ld @ filter (\<lambda>p. \<not> ld_disabled ld (pl_Name p)) pls\<rparr> \<and>
    distinct (map pl_Name (ld_plugins ld'))"
proof (induction pls arbitrary: ld)
  case (Cons pl pls)
  then obtain ld1 where l: "Load pl ld = (None, ld1)" "load_all pls ld1 = (None, ld')"
    by (auto split: prod.splits option.splits)
  with Cons.prems(2) have "distinct (map pl_Name (ld_plugins ld1))" by (auto simp: Load_None)
  note IH = Cons.IH [OF l(2) this]
  show ?case
  proof
    show "ld' = ld\<lparr>ld_plugins := ld_plugins ld @ filter (\<lambda>p. \<not> ld_disabled ld (pl_Name p)) (pl # pls)\<rparr>"
      using conjunct1 [OF IH] l(1) by (cases "ld_disabled ld (pl_Name pl)") (simp_all add: Load_None)
  qed (rule conjunct2 [OF IH])
qed simp

section \<open>Properties\<close>

definition ex_plugin :: "string \<Rightarrow> plugin" where
  "ex_plugin n = \<lparr>pl_Name = n, pl_Version = ''0.1'', pl_Init = None, pl_Register = Some None, pl_InitTracer = None,
     pl_AddDatastore = None, pl_Start = Some None, pl_StartInternal = None, pl_Close = Some None\<rparr>"

definition ex_loaded :: loader where
  "ex_loaded = snd (load_all [ex_plugin ''a'', ex_plugin ''b''] (new_loader (\<lambda>_. False)))"

definition ex_started :: loader where
  "ex_started = (let ps = [ex_plugin ''b'', ex_plugin ''a''] in
     snd (Start None ps (snd (Inject ps (snd (Initialize ps ex_loaded))))))"

lemma ex_started_reach: "reach initial ld_step ex_started"
proof -
  let ?ps = "[ex_plugin ''b'', ex_plugin ''a'']"
  have "snd (Load (ex_plugin ''b'') (snd (Load (ex_plugin ''a'') (new_loader (\<lambda>_. False))))) = ex_loaded"
    by (simp add: ex_loaded_def Load_def assertState_def new_loader_def ex_plugin_def)
  moreover have "reach initial ld_step (snd (Load (ex_plugin ''b'') (snd (Load (ex_plugin ''a'') (new_loader (\<lambda>_. False))))))"
    by (rule reach_step [where s = "snd (Load (ex_plugin ''a'') (new_loader (\<lambda>_. False)))"],
        rule reach_step [where s = "new_loader (\<lambda>_. False)"]) (auto simp: initial_def intro!: reach_init ld_step.intros)
  ultimately have r0: "reach initial ld_step ex_loaded" by simp
  have l: "lists ?ps ex_loaded" "lists ?ps (snd (Initialize ?ps ex_loaded))"
    "lists ?ps (snd (Inject ?ps (snd (Initialize ?ps ex_loaded))))"
    by (simp_all add: lists_def ex_loaded_def Load_def assertState_def new_loader_def ex_plugin_def Initialize_def
        transition_def Inject_def and_then_def inject_plugin_def inject_one_def Let_def insert_commute)
  have "reach initial ld_step (snd (Initialize ?ps ex_loaded))"
    by (rule reach_step [OF r0]) (rule initialize [OF l(1)])
  then have "reach initial ld_step (snd (Inject ?ps (snd (Initialize ?ps ex_loaded))))"
    by (rule reach_step) (rule inject [OF l(2)])
  then show ?thesis unfolding ex_started_def Let_def
    by (rule reach_step) (rule start [OF l(3)])
qed

text \<open>Plugins start last: in every run of the loader, under any order in which the map is ranged over, a plugin
  is started only after every loaded plugin was initialised and injected into each subsystem it
  implements.\<close>

lemma Loader_starts_last:
  assumes "reach initial ld_step ld" and "ld_trace ld = pre @ CallStart n # post" and "p \<in> set (ld_plugins ld)"
  shows "CallInit (pl_Name p) \<in> set pre \<and> injected p (set pre)"
proof -
  have "starts_last ld" using loader.reach_inv [OF assms(1)] by (simp add: ld_inv_def)
  with assms(2,3) show ?thesis by (auto simp: starts_last_def ready_def initialised_def)
qed

lemma Loader_starts_last_witness:
  "CallInit ''a'' \<in> set [CallInit ''b'', CallInit ''a'', CallRegister ''b'', CallRegister ''a''] \<and>
   ld_trace ex_started = [CallInit ''b'', CallInit ''a'', CallRegister ''b'', CallRegister ''a'', CallStart ''b'', CallStart ''a'']"
proof
  show t: "ld_trace ex_started = [CallInit ''b'', CallInit ''a'', CallRegister ''b'', CallRegister ''a'', CallStart ''b'', CallStart ''a'']"
    by code_simp
  have "ld_plugins ex_started = [ex_plugin ''a'', ex_plugin ''b'']" by code_simp
  then show "CallInit ''a'' \<in> set [CallInit ''b'', CallInit ''a'', CallRegister ''b'', CallRegister ''a'']"
    using Loader_starts_last [OF ex_started_reach, of "[CallInit ''b'', CallInit ''a'', CallRegister ''b'', CallRegister ''a'']"
        "''b''" "[CallStart ''a'']" "ex_plugin ''a''"] t by (simp add: ex_plugin_def)
qed

text \<open>\<^verbatim>\<open>Close\<close> closes what was started: after \<^verbatim>\<open>Close\<close> in any reachable state, also when a start failed or
  closing fails, no plugin is left in the list of started ones, every plugin that can be closed has been closed
  as often as it was started, and a second \<^verbatim>\<open>Close\<close> does nothing.\<close>

lemma Loader_close_complete:
  assumes "reach initial ld_step ld" and "Close ld = (e, ld')"
  shows "ld_started ld' = [] \<and> Close ld' = (None, ld') \<and>
    (\<forall>p \<in> set (ld_plugins ld'). pl_Close p \<noteq> None \<longrightarrow>
       count_list (ld_trace ld') (CallStart (pl_Name p)) = count_list (ld_trace ld') (CallClose (pl_Name p)))"
proof -
  have inv: "ld_inv ld" using assms(1) by (rule loader.reach_inv)
  have inv': "ld_inv ld'" using inv_Close [OF inv] assms(2) by simp
  have st: "ld_state ld' \<in> {loaderClosing, loaderFailed, loaderClosed}"
  proof (cases "ld_state ld \<in> {loaderClosing, loaderFailed, loaderClosed}")
    case False
    then show ?thesis using Close_effect [OF False] assms(2) by auto
  qed (use assms(2) in \<open>simp add: Close_def\<close>)
  then have "ld_started ld' = []" using inv' by (auto simp: ld_inv_def)
  with inv' st show ?thesis by (auto simp: ld_inv_def balanced_def Close_def)
qed

lemma Loader_close_complete_witness:
  "count_list (ld_trace (snd (Close ex_started))) (CallStart ''a'') = 1 \<and>
   count_list (ld_trace (snd (Close ex_started))) (CallStart ''a'') =
     count_list (ld_trace (snd (Close ex_started))) (CallClose ''a'')"
proof
  show "count_list (ld_trace (snd (Close ex_started))) (CallStart ''a'') = 1" by code_simp
  have "ld_plugins (snd (Close ex_started)) = [ex_plugin ''a'', ex_plugin ''b'']" by code_simp
  with Loader_close_complete [OF ex_started_reach, of "fst (Close ex_started)" "snd (Close ex_started)"]
  show "count_list (ld_trace (snd (Close ex_started))) (CallStart ''a'') =
     count_list (ld_trace (snd (Close ex_started))) (CallClose ''a'')"
    by (simp add: ex_plugin_def)
qed

text \<open>A new loader has exactly the enabled plugins: when \<^verbatim>\<open>NewPluginLoader\<close> succeeds, it has loaded the
  preloaded plugins and those of the plugin directory, in this order and without the disabled ones, and no name
  twice.\<close>

lemma NewPluginLoader_loads:
  assumes "NewPluginLoader f preload repo cfg dir = Inr ld"
  shows "\<exists>dyn disabled. loadDynamicPlugins f dir = (dyn, None) \<and>
    disabled = (case cfg of Cfg d \<Rightarrow> if repo = [] then (\<lambda>_. False) else d | _ \<Rightarrow> (\<lambda>_. False)) \<and>
    ld_plugins ld = filter (\<lambda>p. \<not> disabled (pl_Name p)) (preload @ dyn) \<and> distinct (map pl_Name (ld_plugins ld)) \<and>
    ld_state ld = loaderLoading"
proof -
  obtain dis ld1 where dis: "dis = (case cfg of Cfg d \<Rightarrow> if repo = [] then (\<lambda>_. False) else d | _ \<Rightarrow> (\<lambda>_. False))"
    and l1: "load_all preload (new_loader dis) = (None, ld1)" and l2: "LoadDirectory f dir ld1 = (None, ld)"
    using assms by (auto simp: NewPluginLoader_def split: sum.splits plugin_cfg.splits if_splits prod.splits option.splits)
  have ld1: "ld1 = (new_loader dis)\<lparr>ld_plugins := filter (\<lambda>p. \<not> dis (pl_Name p)) preload\<rparr>"
    "distinct (map pl_Name (ld_plugins ld1))"
    using load_all_None [OF l1] by (auto simp: new_loader_def simp del: distinct_map)
  obtain dyn where d: "loadDynamicPlugins f dir = (dyn, None)" "load_all dyn ld1 = (None, ld)"
    using l2 by (auto simp: LoadDirectory_def split: option.splits prod.splits)
  have ld: "ld = ld1\<lparr>ld_plugins := ld_plugins ld1 @ filter (\<lambda>p. \<not> ld_disabled ld1 (pl_Name p)) dyn\<rparr>"
    and dist: "distinct (map pl_Name (ld_plugins ld))"
    using load_all_None [OF d(2) ld1(2)] by blast+
  have "ld_plugins ld = filter (\<lambda>p. \<not> dis (pl_Name p)) (preload @ dyn)" "ld_state ld = loaderLoading"
    by (simp_all add: ld ld1(1) new_loader_def)
  with d(1) dis dist show ?thesis by blast
qed

theorem NewPluginLoader_loads_witness:
  "\<exists>ld. NewPluginLoader (\<lambda>_. Inr [ex_plugin ''c'']) [ex_plugin ''a'', ex_plugin ''b''] ''/repo'' (Cfg (\<lambda>n. n = ''b''))
     (Visited [Directory ''plugins'', File ''c.so'' True, File ''d.so'' False]) = Inr ld \<and>
   map pl_Name (ld_plugins ld) = [''a'', ''c'']"
proof -
  let ?r = "NewPluginLoader (\<lambda>_. Inr [ex_plugin ''c'']) [ex_plugin ''a'', ex_plugin ''b''] ''/repo'' (Cfg (\<lambda>n. n = ''b''))
     (Visited [Directory ''plugins'', File ''c.so'' True, File ''d.so'' False])"
  have "map_sum id (\<lambda>_. ()) ?r = Inr ()" by code_simp
  then obtain ld where ld: "?r = Inr ld" by (cases ?r) auto
  with NewPluginLoader_loads [OF ld] show ?thesis
    by (auto simp: loadDynamicPlugins_def ex_plugin_def)
qed

end
