(* ===== verification/P2P.thy ===== *)
theory P2P
  imports Prelude "HOL-Library.Word"
begin

text \<open>
  Forwarding of libp2p streams (\<^verbatim>\<open>p2p/*.go\<close>): the registries of listeners, the registry of active streams with
  its connection counts and connection manager tags, and the set-up of a stream from either side. Connections,
  streams and listening sockets are identified by numbers and the model tracks which are open. What the network
  answers (dialling, accepting, address parsing) is an argument of the operation that asks.
\<close>

section \<open>State\<close>

datatype listener =
    LocalListener string string string nat  \<comment> \<open>protocol, listen address, peer, socket\<close>
  | RemoteListener string string bool       \<comment> \<open>protocol, target address, report the peer\<close>

record stream =
  st_Protocol :: string
  st_OriginAddr :: string
  st_TargetAddr :: string
  st_peer :: string
  st_Local :: nat
  st_Remote :: nat

record registry =
  Streams :: "64 word \<rightharpoonup> stream"
  conns :: "string \<rightharpoonup> int"
  nextID :: "64 word"
  tagged :: "string set"

record p2p =
  ListenersLocal :: "string \<rightharpoonup> listener"
  ListenersP2P :: "string \<rightharpoonup> listener"
  registry :: registry
  identity :: string
  open_locals :: "nat set"
  open_remotes :: "nat set"
  open_sockets :: "nat set"

definition New :: "string \<Rightarrow> p2p" where
  "New ident =
     \<lparr>ListenersLocal = Map.empty, ListenersP2P = Map.empty,
      registry = \<lparr>Streams = Map.empty, conns = Map.empty, nextID = 0, tagged = {}\<rparr>,
      identity = ident, open_locals = {}, open_remotes = {}, open_sockets = {}\<rparr>"

section \<open>Listeners\<close>

definition maPrefix :: string where "maPrefix = ''/p2p/''"

fun key :: "listener \<Rightarrow> string" where
  "key (LocalListener proto laddr peer sock) = laddr"
| "key (RemoteListener proto addr report) = proto"

fun Protocol :: "listener \<Rightarrow> string" where
  "Protocol (LocalListener proto laddr peer sock) = proto"
| "Protocol (RemoteListener proto addr report) = proto"

fun ListenAddress :: "string \<Rightarrow> listener \<Rightarrow> string" where
  "ListenAddress ident (LocalListener proto laddr peer sock) = laddr"
| "ListenAddress ident (RemoteListener proto addr report) = maPrefix @ ident"

fun TargetAddress :: "listener \<Rightarrow> string" where
  "TargetAddress (LocalListener proto laddr peer sock) = maPrefix @ peer"
| "TargetAddress (RemoteListener proto addr report) = addr"

definition Register_listener :: "listener \<Rightarrow> (string \<rightharpoonup> listener) \<Rightarrow> err option \<times> (string \<rightharpoonup> listener)" where
  "Register_listener l r =
     (if r (key l) \<noteq> None then (Some ''listener already registered'', r) else (None, r(key l \<mapsto> l)))"

text \<open>The first part of \<^verbatim>\<open>Listeners.Close\<close>, over the keys in iteration order: what is to be closed, and the map
  without it.\<close>

fun close_loop ::
  "(listener \<Rightarrow> bool) \<Rightarrow> string list \<Rightarrow> (string \<rightharpoonup> listener) \<Rightarrow> listener list \<Rightarrow> listener list \<times> (string \<rightharpoonup> listener)" where
  "close_loop matchFunc [] r todo = (todo, r)"
| "close_loop matchFunc (k # ks) r todo =
     (case r k of
        None \<Rightarrow> close_loop matchFunc ks r todo
      | Some l \<Rightarrow>
          if \<not> matchFunc l then close_loop matchFunc ks r todo
          else if r (key l) \<noteq> None then close_loop matchFunc ks (r(key l := None)) (todo @ [l])
          else close_loop matchFunc ks r todo)"

fun close_listener :: "listener \<Rightarrow> nat set \<Rightarrow> nat set" where
  "close_listener (LocalListener proto laddr peer sock) socks = socks - {sock}"
| "close_listener (RemoteListener proto addr report) socks = socks"

definition Close_listeners ::
  "(listener \<Rightarrow> bool) \<Rightarrow> string list \<Rightarrow> (string \<rightharpoonup> listener) \<Rightarrow> nat set \<Rightarrow> nat \<times> (string \<rightharpoonup> listener) \<times> nat set" where
  "Close_listeners matchFunc order r socks =
     (case close_loop matchFunc order r [] of
        (todo, r') \<Rightarrow> (length todo, r', fold close_listener todo socks))"

text \<open>The match function and the handler that \<^verbatim>\<open>newListenersP2P\<close> installs: which protocols are accepted, and by
  which listener.\<close>

definition p2p_match :: "p2p \<Rightarrow> string \<Rightarrow> bool" where
  "p2p_match p proto \<longleftrightarrow> ListenersP2P p proto \<noteq> None"

definition p2p_dispatch :: "p2p \<Rightarrow> string \<Rightarrow> listener option" where
  "p2p_dispatch p proto = ListenersP2P p proto"

section \<open>Streams\<close>

definition Register_stream :: "stream \<Rightarrow> registry \<Rightarrow> registry" where
  "Register_stream s r =
     \<lparr>Streams = (Streams r)(nextID r \<mapsto> s),
      conns = (conns r)(st_peer s \<mapsto> (case conns r (st_peer s) of Some n \<Rightarrow> n | None \<Rightarrow> 0) + 1),
      nextID = nextID r + 1, tagged = insert (st_peer s) (tagged r)\<rparr>"

definition Deregister :: "64 word \<Rightarrow> registry \<Rightarrow> registry" where
  "Deregister sid r =
     (case Streams r sid of
        None \<Rightarrow> r
      | Some s \<Rightarrow>
          (let p = st_peer s; n = (case conns r p of Some n \<Rightarrow> n | None \<Rightarrow> 0) - 1;
               r1 = (if n < 1 then r\<lparr>conns := (conns r)(p := None), tagged := tagged r - {p}\<rparr>
                     else r\<lparr>conns := (conns r)(p \<mapsto> n)\<rparr>)
           in r1\<lparr>Streams := (Streams r1)(sid := None)\<rparr>))"

text \<open>\<^verbatim>\<open>Close\<close> and \<^verbatim>\<open>Reset\<close> of a stream: both close the local end and end the remote one, then deregister. Each of
  the two copying goroutines of a stream calls one of them when it is done.\<close>

definition end_stream :: "64 word \<Rightarrow> stream \<Rightarrow> p2p \<Rightarrow> p2p" where
  "end_stream sid s p =
     p\<lparr>registry := Deregister sid (registry p), open_locals := open_locals p - {st_Local s},
       open_remotes := open_remotes p - {st_Remote s}\<rparr>"

definition start_stream :: "stream \<Rightarrow> p2p \<Rightarrow> p2p" where
  "start_stream s p = p\<lparr>registry := Register_stream s (registry p)\<rparr>"

section \<open>Forwarding\<close>

text \<open>\<^verbatim>\<open>ForwardLocal\<close>: \<open>bound\<close> is the outcome of \<^verbatim>\<open>manet.Listen\<close>, a socket and the address it got.\<close>

definition ForwardLocal :: "string \<Rightarrow> string \<Rightarrow> err + (nat \<times> string) \<Rightarrow> p2p \<Rightarrow> (err + listener) \<times> p2p" where
  "ForwardLocal peer proto bound p =
     (case bound of
        Inl e \<Rightarrow> (Inl e, p)
      | Inr (sock, laddr) \<Rightarrow>
          (let p = p\<lparr>open_sockets := insert sock (open_sockets p)\<rparr>; l = LocalListener proto laddr peer sock in
           case Register_listener l (ListenersLocal p) of
             (Some e, _) \<Rightarrow> (Inl e, p)
           | (None, r) \<Rightarrow> (Inr l, p\<lparr>ListenersLocal := r\<rparr>)))"

text \<open>\<^verbatim>\<open>setupStream\<close> for a connection \<open>local\<close> accepted from \<open>from\<close>; \<open>dialed\<close> is the outcome of dialling the peer.\<close>

definition setupStream :: "listener \<Rightarrow> nat \<Rightarrow> string \<Rightarrow> string \<Rightarrow> err + nat \<Rightarrow> p2p \<Rightarrow> p2p" where
  "setupStream l lcl from peer dialed p =
     (let p = p\<lparr>open_locals := insert lcl (open_locals p)\<rparr> in
      case dialed of
        Inl e \<Rightarrow> p\<lparr>open_locals := open_locals p - {lcl}\<rparr>
      | Inr remote \<Rightarrow>
          start_stream
            \<lparr>st_Protocol = Protocol l, st_OriginAddr = from, st_TargetAddr = TargetAddress l, st_peer = peer,
             st_Local = lcl, st_Remote = remote\<rparr>
            (p\<lparr>open_remotes := insert remote (open_remotes p)\<rparr>))"

definition ForwardRemote :: "string \<Rightarrow> string \<Rightarrow> bool \<Rightarrow> p2p \<Rightarrow> (err + listener) \<times> p2p" where
  "ForwardRemote proto addr reportRemote p =
     (let l = RemoteListener proto addr reportRemote in
      case Register_listener l (ListenersP2P p) of
        (Some e, _) \<Rightarrow> (Inl e, p)
      | (None, r) \<Rightarrow> (Inr l, p\<lparr>ListenersP2P := r\<rparr>))"

text \<open>
  \<^verbatim>\<open>handleStream\<close> for an incoming stream \<open>remote\<close> of \<open>peer\<close>: \<open>dialed\<close> is the outcome of dialling the target, \<open>write_err\<close>
  that of writing the peer ID, \<open>addr_err\<close> that of building its address.
\<close>

definition handleStream ::
  "string \<Rightarrow> string \<Rightarrow> bool \<Rightarrow> nat \<Rightarrow> string \<Rightarrow> err + nat \<Rightarrow> err option \<Rightarrow> err option \<Rightarrow> p2p \<Rightarrow> p2p" where
  "handleStream proto addr reportRemote remote peer dialed write_err addr_err p =
     (let p = p\<lparr>open_remotes := insert remote (open_remotes p)\<rparr> in
      case dialed of
        Inl e \<Rightarrow> p\<lparr>open_remotes := open_remotes p - {remote}\<rparr>
      | Inr lcl \<Rightarrow>
          (let p = p\<lparr>open_locals := insert lcl (open_locals p)\<rparr> in
           if reportRemote \<and> write_err \<noteq> None then p\<lparr>open_remotes := open_remotes p - {remote}\<rparr>
           else if addr_err \<noteq> None then p\<lparr>open_remotes := open_remotes p - {remote}\<rparr>
           else
             start_stream
               \<lparr>st_Protocol = proto, st_OriginAddr = maPrefix @ peer, st_TargetAddr = addr, st_peer = peer,
                st_Local = lcl, st_Remote = remote\<rparr> p))"

definition CheckProtoExists :: "string list \<Rightarrow> string \<Rightarrow> bool" where
  "CheckProtoExists protos proto \<longleftrightarrow> proto \<in> set protos"

section \<open>The stream registry\<close>

text \<open>The streams of a peer.\<close>

definition streams_of :: "registry \<Rightarrow> string \<Rightarrow> (64 word) set" where
  "streams_of r p = {i. \<exists>s. Streams r i = Some s \<and> st_peer s = p}"

text \<open>A stream is registered under a free identifier: fewer than \<open>2 ^ 64\<close> streams were registered since the oldest
  active one.\<close>

inductive reg_step :: "registry \<Rightarrow> registry \<Rightarrow> bool" where
  register: "Streams r (nextID r) = None \<Longrightarrow> reg_step r (Register_stream s r)"
| deregister: "reg_step r (Deregister i r)"

definition reg_init :: "registry \<Rightarrow> bool" where
  "reg_init r \<longleftrightarrow> r = registry (New ''self'')"

definition reg_inv :: "registry \<Rightarrow> bool" where
  "reg_inv r \<longleftrightarrow>
     (\<forall>p. conns r p = (if streams_of r p = {} then None else Some (int (card (streams_of r p))))) \<and>
     tagged r = {p. streams_of r p \<noteq> {}}"

lemma finite_streams [simp]: "finite (streams_of r p)"
  by (rule finite_subset [OF subset_UNIV]) simp

lemma streams_of_Register:
  "Streams r (nextID r) = None \<Longrightarrow>
    streams_of (Register_stream s r) p = (if p = st_peer s then insert (nextID r) (streams_of r p) else streams_of r p)"
  by (auto simp: streams_of_def Register_stream_def)

lemma streams_of_free: "Streams r i = None \<Longrightarrow> i \<notin> streams_of r p"
  by (simp add: streams_of_def)

lemma inv_conns: "reg_inv r \<Longrightarrow> conns r p = (if streams_of r p = {} then None else Some (int (card (streams_of r p))))"
  unfolding reg_inv_def by blast

lemma inv_tagged: "reg_inv r \<Longrightarrow> p \<in> tagged r \<longleftrightarrow> streams_of r p \<noteq> {}"
  unfolding reg_inv_def by blast

lemma Register_stream_simps:
  "conns (Register_stream s r) = (conns r)(st_peer s \<mapsto> (case conns r (st_peer s) of Some n \<Rightarrow> n | None \<Rightarrow> 0) + 1)"
  "tagged (Register_stream s r) = insert (st_peer s) (tagged r)"
  by (simp_all add: Register_stream_def)

lemma inv_register:
  assumes inv: "reg_inv r" and free: "Streams r (nextID r) = None"
  shows "reg_inv (Register_stream s r)"
proof -
  note new = streams_of_Register [OF free] Register_stream_simps
  note c = inv_conns [OF inv]
  have "conns (Register_stream s r) p = (if streams_of (Register_stream s r) p = {} then None
      else Some (int (card (streams_of (Register_stream s r) p))))" for p
    using c [of p] streams_of_free [OF free, of p]
    by (cases "p = st_peer s"; cases "streams_of r p = {}") (simp_all add: new)
  moreover have "tagged (Register_stream s r) = {p. streams_of (Register_stream s r) p \<noteq> {}}"
    using inv by (auto simp: reg_inv_def new)
  ultimately show ?thesis by (simp add: reg_inv_def)
qed

lemma Streams_Deregister: "Streams (Deregister i r) = (Streams r)(i := None)"
  by (auto simp: Deregister_def Let_def fun_upd_idem split: option.splits)

lemma streams_of_Deregister: "streams_of (Deregister i r) p = streams_of r p - {i}"
  by (auto simp: streams_of_def Streams_Deregister)

lemma inv_deregister:
  assumes inv: "reg_inv r"
  shows "reg_inv (Deregister i r)"
proof (cases "Streams r i")
  case None
  with inv show ?thesis by (simp add: Deregister_def)
next
  case (Some s)
  let ?p = "st_peer s"
  have i: "i \<in> streams_of r ?p" "\<And>q. q \<noteq> ?p \<Longrightarrow> i \<notin> streams_of r q" using Some by (auto simp: streams_of_def)
  have card: "card (streams_of r ?p) = Suc (card (streams_of r ?p - {i}))"
    by (rule card.remove [OF finite_streams i(1)])
  have n: "conns r ?p = Some (int (card (streams_of r ?p)))" using inv_conns [OF inv, of ?p] i(1) by (metis empty_iff)
  have "finite (streams_of r ?p - {i})" by simp
  with card have empty: "streams_of r ?p - {i} = {} \<longleftrightarrow> card (streams_of r ?p) - 1 = 0"
    by (metis card_0_eq diff_Suc_1)
  have q: "streams_of r q - {i} = streams_of r q" if "q \<noteq> ?p" for q using i(2) [OF that] by auto
  have c: "conns (Deregister i r) = (if card (streams_of r ?p) - 1 = 0 then (conns r)(?p := None)
      else (conns r)(?p \<mapsto> int (card (streams_of r ?p - {i}))))"
    "tagged (Deregister i r) = (if card (streams_of r ?p) - 1 = 0 then tagged r - {?p} else tagged r)"
    using Some n card by (simp_all add: Deregister_def Let_def)
  show ?thesis
    unfolding reg_inv_def
  proof (intro conjI allI)
    fix p
    show "conns (Deregister i r) p = (if streams_of (Deregister i r) p = {} then None
        else Some (int (card (streams_of (Deregister i r) p))))"
    proof (cases "p = ?p")
      case True
      with c empty show ?thesis by (auto simp: streams_of_Deregister)
    next
      case False
      with c q [OF False] inv_conns [OF inv, of p] show ?thesis by (simp add: streams_of_Deregister)
    qed
  next
    show "tagged (Deregister i r) = {p. streams_of (Deregister i r) p \<noteq> {}}"
    proof (rule set_eqI)
      fix p
      show "p \<in> tagged (Deregister i r) \<longleftrightarrow> p \<in> {p. streams_of (Deregister i r) p \<noteq> {}}"
        using c(2) empty q [of p] inv_tagged [OF inv, of p] i(1)
        by (cases "p = ?p") (auto simp: streams_of_Deregister)
    qed
  qed
qed

interpretation streams: invariant_system reg_init reg_step reg_inv
proof unfold_locales
  show "reg_inv r" if "reg_init r" for r
    using that by (simp add: reg_init_def New_def reg_inv_def streams_of_def)
  show "reg_inv t" if "reg_step s t" "reg_inv s" for s t
    using that by induction (simp_all add: inv_register inv_deregister)
qed

section \<open>The listener registry\<close>

definition keyed :: "(string \<rightharpoonup> listener) \<Rightarrow> bool" where
  "keyed r \<longleftrightarrow> (\<forall>k l. r k = Some l \<longrightarrow> key l = k)"

lemma keyedD: "keyed r \<Longrightarrow> r k = Some l \<Longrightarrow> key l = k"
  by (auto simp: keyed_def)

lemma keyed_Register: "keyed r \<Longrightarrow> keyed (snd (Register_listener l r))"
  by (auto simp: keyed_def Register_listener_def)

lemma keyed_delete: "keyed r \<Longrightarrow> keyed (r(k := None))"
  by (auto simp: keyed_def)

definition hit :: "(listener \<Rightarrow> bool) \<Rightarrow> (string \<rightharpoonup> listener) \<Rightarrow> string \<Rightarrow> bool" where
  "hit m r k \<longleftrightarrow> (\<exists>l. r k = Some l \<and> m l)"

lemma close_loop_eq:
  "keyed r \<Longrightarrow> distinct ks \<Longrightarrow>
    close_loop m ks r todo = (todo @ map (\<lambda>k. the (r k)) (filter (hit m r) ks), \<lambda>k. if k \<in> set ks \<and> hit m r k then None else r k)"
proof (induction ks arbitrary: r todo)
  case (Cons k ks)
  show ?case
  proof (cases "hit m r k")
    case True
    then obtain l where l: "r k = Some l" "m l" by (auto simp: hit_def)
    with Cons.prems have k: "key l = k" by (auto dest: keyedD)
    let ?r = "r(k := None)"
    have h: "hit m ?r j = hit m r j" "?r j = r j" if "j \<in> set ks" for j
      using that Cons.prems by (auto simp: hit_def)
    have "close_loop m ks ?r (todo @ [l]) =
        ((todo @ [l]) @ map (\<lambda>k. the (?r k)) (filter (hit m ?r) ks), \<lambda>k. if k \<in> set ks \<and> hit m ?r k then None else ?r k)"
      using Cons.prems by (intro Cons.IH) (auto simp: keyed_def)
    moreover have "map (\<lambda>k. the (?r k)) (filter (hit m ?r) ks) = map (\<lambda>k. the (r k)) (filter (hit m r) ks)"
      using h by (simp cong: filter_cong map_cong)
    moreover have "(\<lambda>j. if j \<in> set ks \<and> hit m ?r j then None else ?r j) = (\<lambda>j. if j \<in> set (k # ks) \<and> hit m r j then None else r j)"
      using True by (auto simp: fun_eq_iff hit_def)
    ultimately show ?thesis using l k True by simp
  next
    case False
    then have "close_loop m (k # ks) r todo = close_loop m ks r todo" by (auto simp: hit_def split: option.splits)
    with Cons False show ?thesis by (auto simp: fun_eq_iff)
  qed
qed auto

lemma fold_close_listener:
  "fold close_listener ls socks = socks - {s. \<exists>proto laddr peer. LocalListener proto laddr peer s \<in> set ls}"
proof (induction ls arbitrary: socks)
  case (Cons l ls)
  then show ?case by (cases l) (auto, blast)
qed simp

section \<open>Properties\<close>

definition ex_stream :: "string \<Rightarrow> stream" where
  "ex_stream peer = \<lparr>st_Protocol = ''/x/app'', st_OriginAddr = [], st_TargetAddr = [], st_peer = peer, st_Local = 1, st_Remote = 2\<rparr>"

definition ex_reg :: registry where
  "ex_reg = Deregister 0 (Register_stream (ex_stream ''q'') (Register_stream (ex_stream ''p'') (registry (New ''self''))))"

lemma ex_reg_reach: "reach reg_init reg_step ex_reg"
proof -
  let ?r0 = "registry (New ''self'')" and ?r1 = "Register_stream (ex_stream ''p'') (registry (New ''self''))"
  have "reach reg_init reg_step ?r0" by (rule reach_init) (simp add: reg_init_def)
  then have "reach reg_init reg_step ?r1" by (rule reach_step) (rule register, simp add: New_def)
  then have "reach reg_init reg_step (Register_stream (ex_stream ''q'') ?r1)"
    by (rule reach_step) (rule register, simp add: New_def Register_stream_def)
  then show ?thesis unfolding ex_reg_def by (rule reach_step) (rule deregister)
qed

text \<open>C27. Peers are tagged exactly while they have streams: in every state the stream registry reaches, by
  registering streams and by deregistering any identifier any number of times, the connection manager tag is on
  exactly the peers with an active stream, and the connection count of a peer is the number of its active streams.\<close>

theorem Streams_tags_exact:
  assumes "reach reg_init reg_step r"
  shows "tagged r = {p. \<exists>i s. Streams r i = Some s \<and> st_peer s = p} \<and>
    (\<forall>p n. conns r p = Some n \<longrightarrow> n = int (card {i. \<exists>s. Streams r i = Some s \<and> st_peer s = p}) \<and> n > 0)"
proof -
  have inv: "reg_inv r" using assms by (rule streams.reach_inv)
  have "tagged r = {p. \<exists>i s. Streams r i = Some s \<and> st_peer s = p}"
    using inv_tagged [OF inv] by (auto simp: streams_of_def)
  moreover have "n = int (card (streams_of r p)) \<and> n > 0" if "conns r p = Some n" for p n
    using inv_conns [OF inv, of p] that by (auto simp: card_gt_0_iff split: if_splits)
  ultimately show ?thesis by (simp add: streams_of_def)
qed

theorem Streams_tags_exact_witness: "tagged ex_reg = {''q''}"
proof -
  have s: "Streams ex_reg = [1 \<mapsto> ex_stream ''q'']"
    by (auto simp: ex_reg_def Streams_Deregister Register_stream_def New_def fun_eq_iff)
  show ?thesis using Streams_tags_exact [OF ex_reg_reach] by (auto simp: s ex_stream_def split: if_splits)
qed

text \<open>\<^verbatim>\<open>Listeners.Close\<close> closes exactly the matching listeners: in whatever order the map is ranged over, the
  listeners that match are removed, their number is returned, the sockets of the local ones among them are
  closed, and everything else stays.\<close>

lemma Listeners_Close_exact:
  assumes "keyed r" "distinct order" "set order = dom r"
    and "Close_listeners m order r socks = (n, r', socks')"
  shows "r' = (\<lambda>k. if hit m r k then None else r k) \<and> n = card {k. hit m r k} \<and>
    socks' = socks - {s. \<exists>k proto laddr peer. r k = Some (LocalListener proto laddr peer s) \<and> m (LocalListener proto laddr peer s)}"
proof -
  let ?todo = "map (\<lambda>k. the (r k)) (filter (hit m r) order)"
  have res: "n = length ?todo" "r' = (\<lambda>k. if k \<in> set order \<and> hit m r k then None else r k)" "socks' = fold close_listener ?todo socks"
    using assms(4) by (simp_all add: Close_listeners_def close_loop_eq [OF assms(1,2)])
  have dom: "hit m r k \<Longrightarrow> k \<in> set order" for k using assms(3) by (auto simp: hit_def)
  have "length (filter (hit m r) order) = card (set (filter (hit m r) order))"
    using distinct_card [OF distinct_filter [OF assms(2)]] by simp
  also have "set (filter (hit m r) order) = {k. hit m r k}" using dom by auto
  finally have "n = card {k. hit m r k}" using res(1) by simp
  moreover have "{s. \<exists>proto laddr peer. LocalListener proto laddr peer s \<in> set ?todo} =
      {s. \<exists>k proto laddr peer. r k = Some (LocalListener proto laddr peer s) \<and> m (LocalListener proto laddr peer s)}"
    using dom by (force simp: hit_def)
  moreover have "r' = (\<lambda>k. if hit m r k then None else r k)" using res(2) dom by (auto simp: fun_eq_iff)
  ultimately show ?thesis using res(3) by (simp add: fold_close_listener)
qed

theorem Listeners_Close_exact_witness:
  "(\<lambda>(n, r', socks'). (n, r' ''/a'', r' ''/b'', socks')) (Close_listeners (\<lambda>l. Protocol l = ''/x/1'') [''/b'', ''/a'']
      [''/a'' \<mapsto> LocalListener ''/x/1'' ''/a'' ''p'' 7, ''/b'' \<mapsto> LocalListener ''/x/2'' ''/b'' ''p'' 8] {7, 8}) =
    (1, None, Some (LocalListener ''/x/2'' ''/b'' ''p'' 8), {8})"
proof -
  let ?r = "[''/a'' \<mapsto> LocalListener ''/x/1'' ''/a'' ''p'' 7, ''/b'' \<mapsto> LocalListener ''/x/2'' ''/b'' ''p'' 8]"
  let ?m = "\<lambda>l. Protocol l = ''/x/1''"
  obtain n r' socks' where c: "Close_listeners ?m [''/b'', ''/a''] ?r {7, 8} = (n, r', socks')"
    by (metis prod.exhaust)
  have k: "keyed ?r" "set [''/b'', ''/a''] = dom ?r" by (auto simp: keyed_def split: if_splits)
  have hits: "{k. hit ?m ?r k} = {''/a''}" by (auto simp: hit_def split: if_splits)
  have "hit ?m ?r ''/a''" "\<not> hit ?m ?r ''/b''" by (simp_all add: hit_def)
  with Listeners_Close_exact [OF k(1) _ k(2) c] hits c show ?thesis by (auto split: if_splits)
qed

text \<open>Two connections are not closed on an error: the local connection when the peer ID cannot be written to it, and
  the listening socket when its address is registered already.\<close>

lemma handleStream_leaks_local:
  "lcl \<in> open_locals (handleStream proto addr True remote peer (Inr lcl) (Some e) addr_err p) \<and>
   registry (handleStream proto addr True remote peer (Inr lcl) (Some e) addr_err p) = registry p"
  by (simp add: handleStream_def Let_def)

lemma ForwardLocal_leaks_socket:
  assumes "ListenersLocal p laddr \<noteq> None"
  shows "\<exists>e. ForwardLocal peer proto (Inr (sock, laddr)) p = (Inl e, p\<lparr>open_sockets := insert sock (open_sockets p)\<rparr>)"
  using assms by (auto simp: ForwardLocal_def Register_listener_def Let_def)

end
