(* ===== verification/Request_Log.thy ===== *)
theory Request_Log
  imports Prelude
begin

text \<open>
  The log of API requests (\<^verbatim>\<open>commands/reqlog.go\<close>). The log holds pointers to entries, and the caller of a
  request keeps its pointer to finish it later, when the log may have dropped it: entries live in a heap. The
  current time is an argument; times and durations are nanoseconds.
\<close>

section \<open>The model\<close>

record ReqLogEntry =
  StartTime :: int
  EndTime :: int
  Active :: bool
  Command :: string
  Options :: "(string \<times> string) list"
  Args :: "string list"
  ID :: int

record ReqLog =
  entries :: "nat \<Rightarrow> ReqLogEntry"
  Requests :: "nat list"
  nextID :: int
  keep :: int

definition kept :: "int \<Rightarrow> ReqLog \<Rightarrow> nat \<Rightarrow> bool" where
  "kept now rl p \<longleftrightarrow> Active (entries rl p) \<or> EndTime (entries rl p) + keep rl > now"

text \<open>The in-place loop of \<^verbatim>\<open>cleanup\<close>, with its two indices.\<close>

function cleanup_loop :: "int \<Rightarrow> ReqLog \<Rightarrow> nat \<Rightarrow> nat \<Rightarrow> nat list \<Rightarrow> nat list" where
  "cleanup_loop now rl i j reqs =
     (if j < length reqs then
        (if kept now rl (reqs ! j) then cleanup_loop now rl (i + 1) (j + 1) (reqs[i := reqs ! j])
         else cleanup_loop now rl i (j + 1) reqs)
      else take i reqs)"
  by pat_completeness auto
termination by (relation "measure (\<lambda>(now, rl, i, j, reqs). length reqs - j)") auto

declare cleanup_loop.simps [simp del]

definition cleanup :: "int \<Rightarrow> ReqLog \<Rightarrow> ReqLog" where
  "cleanup now rl = rl\<lparr>Requests := cleanup_loop now rl 0 0 (Requests rl)\<rparr>"

definition maybeCleanup :: "int \<Rightarrow> ReqLog \<Rightarrow> ReqLog" where
  "maybeCleanup now rl = (if length (Requests rl) mod 10 = 0 then cleanup now rl else rl)"

text \<open>\<^verbatim>\<open>AddEntry\<close> for a pointer; a nil pointer panics on the first assignment, before it is compared with nil, and is
  \<open>None\<close> here.\<close>

definition AddEntry :: "int \<Rightarrow> nat option \<Rightarrow> ReqLog \<Rightarrow> ReqLog option" where
  "AddEntry now rle rl =
     (case rle of
        None \<Rightarrow> None
      | Some p \<Rightarrow>
          (let rl = rl\<lparr>entries := (entries rl)(p := (entries rl p)\<lparr>ID := nextID rl\<rparr>), nextID := nextID rl + 1,
                       Requests := Requests rl @ [p]\<rparr>
           in Some (if \<not> Active (entries rl p) then maybeCleanup now rl else rl)))"

definition ClearInactive :: "int \<Rightarrow> ReqLog \<Rightarrow> ReqLog" where
  "ClearInactive now rl = (cleanup now (rl\<lparr>keep := 0\<rparr>))\<lparr>keep := keep rl\<rparr>"

definition SetKeepTime :: "int \<Rightarrow> ReqLog \<Rightarrow> ReqLog" where
  "SetKeepTime t rl = rl\<lparr>keep := t\<rparr>"

definition Report :: "ReqLog \<Rightarrow> ReqLogEntry list" where
  "Report rl = map (entries rl) (Requests rl)"

definition Finish :: "int \<Rightarrow> nat \<Rightarrow> ReqLog \<Rightarrow> ReqLog" where
  "Finish now p rl =
     maybeCleanup now (rl\<lparr>entries := (entries rl)(p := (entries rl p)\<lparr>Active := False, EndTime := now\<rparr>)\<rparr>)"

section \<open>The cleanup loop is a filter\<close>

lemma cleanup_loop_eq:
  "i \<le> j \<Longrightarrow> j \<le> length reqs \<Longrightarrow>
    cleanup_loop now rl i j reqs = take i reqs @ filter (kept now rl) (drop j reqs)"
proof (induction now rl i j reqs rule: cleanup_loop.induct)
  case (1 now rl i j reqs)
  show ?case
  proof (cases "j < length reqs")
    case True
    have d: "drop j reqs = reqs ! j # drop (Suc j) reqs" using True by (simp add: Cons_nth_drop_Suc)
    show ?thesis
    proof (cases "kept now rl (reqs ! j)")
      case k: True
      have "cleanup_loop now rl (i + 1) (j + 1) (reqs[i := reqs ! j]) =
          take (i + 1) (reqs[i := reqs ! j]) @ filter (kept now rl) (drop (j + 1) (reqs[i := reqs ! j]))"
        using "1.IH"(1) True k "1.prems" by simp
      also have "take (i + 1) (reqs[i := reqs ! j]) = take i reqs @ [reqs ! j]"
        using True "1.prems" by (simp add: take_Suc_conv_app_nth take_update_cancel)
      also have "drop (j + 1) (reqs[i := reqs ! j]) = drop (j + 1) reqs" using "1.prems" by simp
      finally show ?thesis using True k d by (subst cleanup_loop.simps) simp
    next
      case k: False
      then show ?thesis using "1.IH"(2) True "1.prems" d by (subst cleanup_loop.simps) simp
    qed
  next
    case False
    with "1.prems" show ?thesis by (subst cleanup_loop.simps) simp
  qed
qed

lemma cleanup_eq: "cleanup now rl = rl\<lparr>Requests := filter (kept now rl) (Requests rl)\<rparr>"
  by (simp add: cleanup_def cleanup_loop_eq)

section \<open>Steps and the invariant\<close>

text \<open>An entry is added once: its pointer is new to the log.\<close>

inductive rl_step :: "ReqLog \<Rightarrow> ReqLog \<Rightarrow> bool" where
  add: "p \<notin> set (Requests rl) \<Longrightarrow> AddEntry now (Some p) rl = Some rl' \<Longrightarrow> rl_step rl rl'"
| clear: "rl_step rl (ClearInactive now rl)"
| set_keep: "rl_step rl (SetKeepTime t rl)"
| finish: "rl_step rl (Finish now p rl)"

definition rl_init :: "ReqLog \<Rightarrow> bool" where
  "rl_init rl \<longleftrightarrow> Requests rl = [] \<and> nextID rl = 0 \<and> keep rl = 0"

definition rl_inv :: "ReqLog \<Rightarrow> bool" where
  "rl_inv rl \<longleftrightarrow>
     sorted_wrt (<) (map (\<lambda>p. ID (entries rl p)) (Requests rl)) \<and>
     (\<forall>p \<in> set (Requests rl). 0 \<le> ID (entries rl p) \<and> ID (entries rl p) < nextID rl) \<and> 0 \<le> nextID rl"

lemma rl_inv_frame:
  assumes "rl_inv rl" "Requests rl' = filter P (Requests rl)" "nextID rl' = nextID rl"
    "\<And>p. p \<in> set (Requests rl') \<Longrightarrow> ID (entries rl' p) = ID (entries rl p)"
  shows "rl_inv rl'"
proof -
  have ids: "map (\<lambda>p. ID (entries rl' p)) (Requests rl') = map (\<lambda>p. ID (entries rl p)) (filter P (Requests rl))"
    using assms(2,4) by simp
  have "sorted_wrt (<) (map (\<lambda>p. ID (entries rl p)) (filter P (Requests rl)))"
    using assms(1) by (simp add: rl_inv_def sorted_wrt_map sorted_wrt_filter)
  moreover have "\<forall>p \<in> set (Requests rl'). 0 \<le> ID (entries rl' p) \<and> ID (entries rl' p) < nextID rl'"
    using assms by (auto simp: rl_inv_def)
  moreover have "0 \<le> nextID rl'" using assms(1,3) by (simp add: rl_inv_def)
  ultimately show ?thesis unfolding rl_inv_def ids by blast
qed

lemma rl_inv_cleanup: "rl_inv rl \<Longrightarrow> rl_inv (cleanup now rl)" "rl_inv rl \<Longrightarrow> rl_inv (maybeCleanup now rl)"
proof -
  show c: "rl_inv (cleanup now rl)" if "rl_inv rl" for rl
    by (rule rl_inv_frame [OF that, where P = "kept now rl"]) (simp_all add: cleanup_eq)
  show "rl_inv rl \<Longrightarrow> rl_inv (maybeCleanup now rl)" by (simp add: maybeCleanup_def c)
qed

lemma rl_inv_set_keep: "rl_inv rl \<Longrightarrow> rl_inv (rl\<lparr>keep := k\<rparr>)"
  by (simp add: rl_inv_def)

lemma rl_inv_step: "rl_step rl rl' \<Longrightarrow> rl_inv rl \<Longrightarrow> rl_inv rl'"
proof (induction rule: rl_step.induct)
  case (add p rl now rl')
  let ?rl = "rl\<lparr>entries := (entries rl)(p := (entries rl p)\<lparr>ID := nextID rl\<rparr>), nextID := nextID rl + 1,
    Requests := Requests rl @ [p]\<rparr>"
  have ids: "map (\<lambda>q. ID (entries ?rl q)) (Requests ?rl) = map (\<lambda>q. ID (entries rl q)) (Requests rl) @ [nextID rl]"
    using add.hyps(1) by auto
  have "sorted_wrt (<) (map (\<lambda>q. ID (entries rl q)) (Requests rl) @ [nextID rl])"
    using add.prems by (auto simp: rl_inv_def sorted_wrt_append)
  moreover have "\<forall>q \<in> set (Requests ?rl). 0 \<le> ID (entries ?rl q) \<and> ID (entries ?rl q) < nextID ?rl"
    using add.prems by (auto simp: rl_inv_def)
  moreover have "0 \<le> nextID ?rl" using add.prems by (simp add: rl_inv_def)
  ultimately have "rl_inv ?rl" unfolding rl_inv_def ids by blast
  moreover have "rl' = ?rl \<or> rl' = maybeCleanup now ?rl"
    using add.hyps(2) by (auto simp: AddEntry_def Let_def split: if_splits)
  ultimately show ?case by (auto intro: rl_inv_cleanup)
next
  case (clear rl now)
  then show ?case by (simp add: ClearInactive_def rl_inv_set_keep rl_inv_cleanup)
next
  case (set_keep rl t)
  then show ?case by (simp add: SetKeepTime_def rl_inv_set_keep)
next
  case (finish rl now p)
  have "rl_inv (rl\<lparr>entries := (entries rl)(p := (entries rl p)\<lparr>Active := False, EndTime := now\<rparr>)\<rparr>)"
    by (rule rl_inv_frame [OF finish, where P = "\<lambda>_. True"]) auto
  then show ?case by (simp add: Finish_def rl_inv_cleanup)
qed

interpretation reqlog: invariant_system rl_init rl_step rl_inv
proof unfold_locales
  show "rl_inv rl" if "rl_init rl" for rl using that by (simp add: rl_init_def rl_inv_def)
  show "rl_inv t" if "rl_step s t" "rl_inv s" for s t using that by (rule rl_inv_step)
qed

lemma active_kept_step:
  assumes "rl_step rl rl'" "p \<in> set (Requests rl)" "Active (entries rl' p)"
  shows "p \<in> set (Requests rl')"
  using assms
proof (induction rule: rl_step.induct)
  case (add q rl now rl')
  then show ?case
    by (auto simp: AddEntry_def Let_def maybeCleanup_def cleanup_eq kept_def split: if_splits)
next
  case (clear rl now)
  then show ?case by (simp add: ClearInactive_def cleanup_eq kept_def)
next
  case (finish rl now q)
  then show ?case by (auto simp: Finish_def maybeCleanup_def cleanup_eq kept_def split: if_splits)
qed (simp add: SetKeepTime_def)

section \<open>Properties\<close>

definition ex_entry :: "bool \<Rightarrow> ReqLogEntry" where
  "ex_entry act = \<lparr>StartTime = 0, EndTime = 0, Active = act, Command = ''cat'', Options = [], Args = [], ID = 0\<rparr>"

definition ex_log0 :: ReqLog where
  "ex_log0 = \<lparr>entries = (\<lambda>p. ex_entry (p \<noteq> 1)), Requests = [], nextID = 0, keep = 0\<rparr>"

definition ex_log1 :: ReqLog where
  "ex_log1 = the (AddEntry 5 (Some 0) ex_log0)"

definition ex_log :: ReqLog where
  "ex_log = the (AddEntry 5 (Some 1) ex_log1)"

lemma step_AddEntry: "p \<notin> set (Requests rl) \<Longrightarrow> rl_step rl (the (AddEntry now (Some p) rl))"
  by (rule add [of p _ now]) (simp_all add: AddEntry_def Let_def)

lemma ex_log_reach: "reach rl_init rl_step ex_log"
proof -
  have "reach rl_init rl_step ex_log0" by (rule reach_init) (simp add: rl_init_def ex_log0_def)
  then have "reach rl_init rl_step ex_log1"
    unfolding ex_log1_def by (rule reach_step) (rule step_AddEntry, code_simp)
  then show ?thesis
    unfolding ex_log_def by (rule reach_step) (rule step_AddEntry, code_simp)
qed

text \<open>The request log is in order and keeps what runs: in every state the log reaches, the report lists
  entries with strictly increasing identifiers, all below the next one; and no operation drops an
  entry that is still active.\<close>

lemma ReqLog_ordered_and_keeps_active:
  assumes "reach rl_init rl_step rl"
  shows "sorted_wrt (<) (map ID (Report rl)) \<and> (\<forall>e \<in> set (Report rl). 0 \<le> ID e \<and> ID e < nextID rl) \<and>
    (\<forall>rl' p. rl_step rl rl' \<longrightarrow> p \<in> set (Requests rl) \<longrightarrow> Active (entries rl' p) \<longrightarrow> p \<in> set (Requests rl'))"
proof -
  have "rl_inv rl" using assms by (rule reqlog.reach_inv)
  then show ?thesis using active_kept_step by (auto simp: rl_inv_def Report_def comp_def)
qed

lemma ReqLog_ordered_and_keeps_active_witness:
  "sorted_wrt (<) (map ID (Report ex_log)) \<and> map ID (Report ex_log) = [0, 1] \<and> 0 \<in> set (Requests (ClearInactive 9 ex_log))"
proof (intro conjI)
  note t = ReqLog_ordered_and_keeps_active [OF ex_log_reach]
  from t show "sorted_wrt (<) (map ID (Report ex_log))" by blast
  show "map ID (Report ex_log) = [0, 1]" by code_simp
  have "0 \<in> set (Requests ex_log)" "Active (entries (ClearInactive 9 ex_log) 0)" by code_simp+
  with t clear show "0 \<in> set (Requests (ClearInactive 9 ex_log))" by blast
qed

text \<open>\<^verbatim>\<open>ClearInactive\<close> leaves the active entries: if no entry ends in the future, the report afterwards is the
  report before without the inactive entries, in the same order, whatever the keep time is, and the keep time is as
  before.\<close>

lemma ClearInactive_exact:
  assumes "\<forall>e \<in> set (Report rl). EndTime e \<le> now"
  shows "Report (ClearInactive now rl) = filter Active (Report rl) \<and> keep (ClearInactive now rl) = keep rl"
proof -
  have "filter (kept now (rl\<lparr>keep := 0\<rparr>)) (Requests rl) = filter (\<lambda>p. Active (entries rl p)) (Requests rl)"
    using assms by (intro filter_cong) (auto simp: kept_def Report_def)
  then show ?thesis
    by (simp add: ClearInactive_def cleanup_eq Report_def filter_map comp_def)
qed

theorem ClearInactive_exact_witness: "map ID (Report (ClearInactive 9 ex_log)) = [0]"
proof -
  have "\<forall>e \<in> set (Report ex_log). EndTime e \<le> 9" by code_simp
  moreover have "map ID (filter Active (Report ex_log)) = [0]" by code_simp
  ultimately show ?thesis using ClearInactive_exact [of ex_log 9] by simp
qed

end
