(* ===== verification/Os.thy ===== *)
theory Os
  imports Prelude
begin

text \<open>
  The operating system as the repository code sees it: a file system of clean paths, the calls of
  \<^verbatim>\<open>os\<close>, \<^verbatim>\<open>ioutil\<close> and \<^verbatim>\<open>io\<close> that the code makes on it, and programs it can run. Calls are state
  transformers that return a value or an error (\<open>io\<close>), composed by \<open>io_bind\<close>; \<open>io_defer\<close> is a
  deferred call, run on every way out.

  What depends on the machine is a field of \<open>os_env\<close>: environment variables, permissions and full
  disks (\<open>fault\<close>, any error the system may report for a call on a path), the names of temporary
  directories, the installed programs and what running them does. There are no symbolic links, and
  a failed write leaves the file as it was.
\<close>

section \<open>Files and errors\<close>

datatype node = Dir | File (contents: string) (mode: nat)

type_synonym fs = "string \<rightharpoonup> node"

datatype error = Errorf string | NotExist string | Exist string | Panic string

fun error_msg :: "error \<Rightarrow> string" where
  "error_msg (Errorf e) = e"
| "error_msg (NotExist p) = p @ '': no such file or directory''"
| "error_msg (Exist p) = p @ '': file already exists''"
| "error_msg (Panic e) = ''panic: '' @ e"

fun IsNotExist :: "error \<Rightarrow> bool" where
  "IsNotExist (NotExist p) = True"
| "IsNotExist _ = False"

fun is_panic :: "error \<Rightarrow> bool" where
  "is_panic (Panic e) = True"
| "is_panic _ = False"

text \<open>A reader: the bytes it gives, and the error it ends with when that is not the end of the file.\<close>

type_synonym reader = "string \<times> error option"

datatype io_op = OpStat | OpRead | OpCreate | OpWrite | OpChmod | OpMkdir | OpRemove | OpRename

text \<open>Beside the files, the world holds the programs that were run, the lock files this process holds
  and the datastores it has open.\<close>

record world =
  files :: fs
  ran :: "(string \<times> string list) list"
  locks :: "string list"
  open_ds :: "string list"

record os_env =
  GOOS :: string
  GOARCH :: string
  Getenv :: "string \<Rightarrow> string"
  fault :: "io_op \<Rightarrow> string \<Rightarrow> string option"
  temp_root :: string
  temp_num :: "fs \<Rightarrow> string \<Rightarrow> nat"
  homedir_Dir :: "error + string"
  locked_by_other :: "string \<Rightarrow> string option"
  LookPath :: "string \<Rightarrow> error + string"
  exec :: "string \<Rightarrow> string list \<Rightarrow> fs \<Rightarrow> error option \<times> fs"

section \<open>Calls\<close>

type_synonym 'a io = "world \<Rightarrow> (error + 'a) \<times> world"

definition io_return :: "'a \<Rightarrow> 'a io" where
  "io_return a w = (Inr a, w)"

definition io_fail :: "error \<Rightarrow> 'a io" where
  "io_fail e w = (Inl e, w)"

definition io_bind :: "'a io \<Rightarrow> ('a \<Rightarrow> 'b io) \<Rightarrow> 'b io" where
  "io_bind m f w = (case m w of (Inl e, w') \<Rightarrow> (Inl e, w') | (Inr a, w') \<Rightarrow> f a w')"

definition io_wrap :: "string \<Rightarrow> 'a io \<Rightarrow> 'a io" where
  "io_wrap s m w =
     (case m w of (Inl e, w') \<Rightarrow> (Inl (Errorf (s @ error_msg e)), w') | (Inr a, w') \<Rightarrow> (Inr a, w'))"

definition io_try :: "'a io \<Rightarrow> (error + 'a) io" where
  "io_try m w = (case m w of (r, w') \<Rightarrow> (Inr r, w'))"

definition io_lift :: "error + 'a \<Rightarrow> 'a io" where
  "io_lift r w = (r, w)"

text \<open>A deferred call: run after the rest, whatever its outcome; its own result is dropped.\<close>

definition io_defer :: "unit io \<Rightarrow> 'a io \<Rightarrow> 'a io" where
  "io_defer d m w = (case m w of (r, w') \<Rightarrow> (r, snd (d w')))"

lemma io_bind_Inr [simp]:
  "io_bind m f w = (Inr b, w') \<longleftrightarrow> (\<exists>a v. m w = (Inr a, v) \<and> f a v = (Inr b, w'))"
  by (auto simp: io_bind_def split: prod.splits sum.splits)

lemma io_bind_Inl:
  "io_bind m f w = (Inl e, w') \<longleftrightarrow>
     m w = (Inl e, w') \<or> (\<exists>a v. m w = (Inr a, v) \<and> f a v = (Inl e, w'))"
  by (auto simp: io_bind_def split: prod.splits sum.splits)

lemma io_return_Inr [simp]: "io_return a w = (Inr b, w') \<longleftrightarrow> a = b \<and> w = w'"
  by (auto simp: io_return_def)

lemma io_fail_Inr [simp]: "io_fail e w \<noteq> (Inr b, w')"
  by (simp add: io_fail_def)

lemma io_lift_Inr [simp]: "io_lift r w = (Inr b, w') \<longleftrightarrow> r = Inr b \<and> w = w'"
  by (auto simp: io_lift_def)

lemma io_wrap_Inr [simp]: "io_wrap s m w = (Inr a, w') \<longleftrightarrow> m w = (Inr a, w')"
  by (auto simp: io_wrap_def split: prod.splits sum.splits)

lemma io_try_eq [simp]: "io_try m w = (Inr r, w') \<longleftrightarrow> m w = (r, w')"
  by (auto simp: io_try_def split: prod.splits)

lemma io_defer_eq [simp]: "io_defer d m w = (r, w') \<longleftrightarrow> (\<exists>v. m w = (r, v) \<and> w' = snd (d v))"
  by (auto simp: io_defer_def split: prod.splits)

section \<open>The file system\<close>

text \<open>Files are found under their clean path; \<^verbatim>\<open>filepath.Dir\<close> is the clean path without its last
  element.\<close>

definition path_Dir :: "string \<Rightarrow> string" where
  "path_Dir p = path_Clean (rev (dropWhile (\<lambda>c. c \<noteq> CHR ''/'') (rev p)))"

definition under :: "string \<Rightarrow> string \<Rightarrow> bool" where
  "under d p = (p = d \<or> prefix (d @ ''/'') p)"

definition fail_if :: "string option \<Rightarrow> unit io" where
  "fail_if r = (case r of Some e \<Rightarrow> io_fail (Errorf e) | None \<Rightarrow> io_return ())"

definition os_Stat :: "os_env \<Rightarrow> string \<Rightarrow> node io" where
  "os_Stat env p =
     io_bind (fail_if (fault env OpStat (path_Clean p))) (\<lambda>_ w.
       case files w (path_Clean p) of None \<Rightarrow> (Inl (NotExist p), w) | Some n \<Rightarrow> (Inr n, w))"

definition os_ReadFile :: "os_env \<Rightarrow> string \<Rightarrow> string io" where
  "os_ReadFile env p =
     io_bind (fail_if (fault env OpRead (path_Clean p))) (\<lambda>_ w.
       case files w (path_Clean p) of
         None \<Rightarrow> (Inl (NotExist p), w)
       | Some Dir \<Rightarrow> (Inl (Errorf (p @ '': is a directory'')), w)
       | Some (File d m) \<Rightarrow> (Inr d, w))"

text \<open>\<^verbatim>\<open>os.OpenFile(p, O_CREATE|O_TRUNC|O_WRONLY, m)\<close>: an existing file is emptied and keeps its mode.\<close>

definition os_OpenTrunc :: "os_env \<Rightarrow> string \<Rightarrow> nat \<Rightarrow> unit io" where
  "os_OpenTrunc env p m =
     io_bind (fail_if (fault env OpCreate (path_Clean p))) (\<lambda>_ w.
       case files w (path_Clean p) of
         Some Dir \<Rightarrow> (Inl (Errorf (p @ '': is a directory'')), w)
       | Some (File d m') \<Rightarrow> (Inr (), w\<lparr>files := (files w)(path_Clean p \<mapsto> File [] m')\<rparr>)
       | None \<Rightarrow>
           if files w (path_Dir (path_Clean p)) = Some Dir
           then (Inr (), w\<lparr>files := (files w)(path_Clean p \<mapsto> File [] m)\<rparr>)
           else (Inl (NotExist p), w))"

definition os_Create :: "os_env \<Rightarrow> string \<Rightarrow> unit io" where
  "os_Create env p = os_OpenTrunc env p 438"

text \<open>Writing to an open file: the bytes are appended.\<close>

definition os_Write :: "os_env \<Rightarrow> string \<Rightarrow> string \<Rightarrow> unit io" where
  "os_Write env p d =
     io_bind (fail_if (fault env OpWrite (path_Clean p))) (\<lambda>_ w.
       case files w (path_Clean p) of
         Some (File d' m) \<Rightarrow> (Inr (), w\<lparr>files := (files w)(path_Clean p \<mapsto> File (d' @ d) m)\<rparr>)
       | _ \<Rightarrow> (Inr (), w))"

definition io_Copy :: "os_env \<Rightarrow> string \<Rightarrow> reader \<Rightarrow> unit io" where
  "io_Copy env p r =
     io_bind (os_Write env p (fst r)) (\<lambda>_.
       case snd r of Some e \<Rightarrow> io_fail e | None \<Rightarrow> io_return ())"

definition os_WriteFile :: "os_env \<Rightarrow> string \<Rightarrow> string \<Rightarrow> nat \<Rightarrow> unit io" where
  "os_WriteFile env p d m = io_bind (os_OpenTrunc env p m) (\<lambda>_. os_Write env p d)"

definition os_Chmod :: "os_env \<Rightarrow> string \<Rightarrow> nat \<Rightarrow> unit io" where
  "os_Chmod env p m =
     io_bind (fail_if (fault env OpChmod (path_Clean p))) (\<lambda>_ w.
       case files w (path_Clean p) of
         None \<Rightarrow> (Inl (NotExist p), w)
       | Some Dir \<Rightarrow> (Inr (), w)
       | Some (File d m') \<Rightarrow> (Inr (), w\<lparr>files := (files w)(path_Clean p \<mapsto> File d m)\<rparr>))"

text \<open>\<^verbatim>\<open>ioutil.TempDir("", pattern)\<close>: it only ever returns a directory that it made.\<close>

definition temp_path :: "os_env \<Rightarrow> string \<Rightarrow> world \<Rightarrow> string" where
  "temp_path env pat w = path_Join [temp_root env, pat @ show_nat (temp_num env (files w) pat)]"

definition os_TempDir :: "os_env \<Rightarrow> string \<Rightarrow> string io" where
  "os_TempDir env pat w =
     (let d = temp_path env pat w in
      if CHR ''/'' \<in> set pat then (Inl (Errorf ''pattern contains path separator''), w)
      else case fault env OpMkdir d of
        Some e \<Rightarrow> (Inl (Errorf e), w)
      | None \<Rightarrow>
          if files w d = None then (Inr d, w\<lparr>files := (files w)(d \<mapsto> Dir)\<rparr>) else (Inl (Exist d), w))"

text \<open>\<^verbatim>\<open>os.RemoveAll\<close>, whose error the callers drop.\<close>

definition os_RemoveAll :: "os_env \<Rightarrow> string \<Rightarrow> unit io" where
  "os_RemoveAll env d w =
     (case fault env OpRemove d of
        Some e \<Rightarrow> (Inl (Errorf e), w)
      | None \<Rightarrow> (Inr (), w\<lparr>files := (\<lambda>p. if under d p then None else files w p)\<rparr>))"

text \<open>\<^verbatim>\<open>os.MkdirAll\<close>: every directory above and at the path, or an error at a file on the way.\<close>

fun ancestors :: "string list \<Rightarrow> string list list" where
  "ancestors [] = []"
| "ancestors (p # ps) = [p] # map (\<lambda>a. p # a) (ancestors ps)"

definition dir_chain :: "string \<Rightarrow> string list" where
  "dir_chain p =
     map (\<lambda>a. (if prefix ''/'' p then ''/'' else []) @ join ''/'' a) (ancestors (dir_parts p))"

definition os_MkdirAll :: "os_env \<Rightarrow> string \<Rightarrow> unit io" where
  "os_MkdirAll env p w =
     (case fault env OpMkdir (path_Clean p) of
        Some e \<Rightarrow> (Inl (Errorf e), w)
      | None \<Rightarrow>
          if list_ex (\<lambda>d. case files w d of Some (File _ _) \<Rightarrow> True | _ \<Rightarrow> False) (dir_chain p)
          then (Inl (Errorf (p @ '': not a directory'')), w)
          else (Inr (), w\<lparr>files := (\<lambda>q. if q \<in> set (dir_chain p) then Some Dir else files w q)\<rparr>))"

definition os_Remove :: "os_env \<Rightarrow> string \<Rightarrow> unit io" where
  "os_Remove env p =
     io_bind (fail_if (fault env OpRemove (path_Clean p))) (\<lambda>_ w.
       case files w (path_Clean p) of
         None \<Rightarrow> (Inl (NotExist p), w)
       | Some _ \<Rightarrow> (Inr (), w\<lparr>files := (files w)(path_Clean p := None)\<rparr>))"

text \<open>\<^verbatim>\<open>os.Rename\<close> of a file onto a file or a free name.\<close>

definition os_Rename :: "os_env \<Rightarrow> string \<Rightarrow> string \<Rightarrow> unit io" where
  "os_Rename env old new =
     io_bind (fail_if (fault env OpRename (path_Clean new))) (\<lambda>_ w.
       case files w (path_Clean old) of
         None \<Rightarrow> (Inl (NotExist old), w)
       | Some n \<Rightarrow>
           if files w (path_Clean new) = Some Dir then (Inl (Errorf (new @ '': file exists'')), w)
           else (Inr (), w\<lparr>files := (files w)(path_Clean old := None, path_Clean new := Some n)\<rparr>))"

text \<open>\<^verbatim>\<open>ioutil.TempFile(dir, pattern)\<close>: a new file with a name that was free.\<close>

definition temp_file_path :: "os_env \<Rightarrow> string \<Rightarrow> string \<Rightarrow> world \<Rightarrow> string" where
  "temp_file_path env dir pat w = path_Join [dir, pat @ show_nat (temp_num env (files w) pat)]"

definition os_TempFile :: "os_env \<Rightarrow> string \<Rightarrow> string \<Rightarrow> string io" where
  "os_TempFile env dir pat w =
     (let p = temp_file_path env dir pat w in
      if CHR ''/'' \<in> set pat then (Inl (Errorf ''pattern contains path separator''), w)
      else if files w p \<noteq> None then (Inl (Exist p), w)
      else io_bind (os_OpenTrunc env p 384) (\<lambda>_. io_return p) w)"

text \<open>Lock files: \<^verbatim>\<open>lockfile.Lock\<close> fails when the lock is held, by another process or by this one.\<close>

definition lock_Lock :: "os_env \<Rightarrow> string \<Rightarrow> string io" where
  "lock_Lock env p w =
     (if p \<in> set (locks w) then (Inl (Errorf (''lock is already held by us'')), w)
      else case locked_by_other env p of
        Some e \<Rightarrow> (Inl (Errorf e), w)
      | None \<Rightarrow> (Inr p, w\<lparr>locks := p # locks w\<rparr>))"

definition lock_Close :: "string \<Rightarrow> unit io" where
  "lock_Close p w = (Inr (), w\<lparr>locks := remove1 p (locks w)\<rparr>)"

text \<open>\<^verbatim>\<open>exec.Command(bin, args...).Run()\<close>; the command line is recorded.\<close>

definition os_Run :: "os_env \<Rightarrow> string \<Rightarrow> string list \<Rightarrow> unit io" where
  "os_Run env bin args w =
     (let (r, fs') = exec env bin args (files w); w' = w\<lparr>files := fs', ran := ran w @ [(bin, args)]\<rparr> in
      case r of Some e \<Rightarrow> (Inl e, w') | None \<Rightarrow> (Inr (), w'))"

section \<open>What the calls do\<close>

text \<open>The calls below change nothing but files: no program is run, no lock is taken or given back, no
  datastore opened or closed.\<close>

definition silent :: "'a io \<Rightarrow> bool" where
  "silent m = (\<forall>w. \<exists>f. snd (m w) = w\<lparr>files := f\<rparr>)"

named_theorems silent_intros \<open>calls that change nothing but files\<close>

lemma silentD:
  assumes "silent m" "m w = (r, w')"
  shows "ran w' = ran w" "locks w' = locks w" "open_ds w' = open_ds w"
proof -
  obtain f where "w' = w\<lparr>files := f\<rparr>" using assms by (metis silent_def snd_conv)
  then show "ran w' = ran w" "locks w' = locks w" "open_ds w' = open_ds w" by simp_all
qed

lemma silentI: "(\<And>w. \<exists>f. snd (m w) = w\<lparr>files := f\<rparr>) \<Longrightarrow> silent m"
  by (simp add: silent_def)

lemma same_files: "\<exists>f. w = w\<lparr>files := f\<rparr>"
  by (rule exI [of _ "files w"]) simp

lemma silent_same: "(\<And>w. snd (m w) = w) \<Longrightarrow> silent m"
  by (rule silentI) (simp add: same_files)

lemma silent_return [silent_intros]: "silent (io_return a)"
  by (rule silent_same) (simp add: io_return_def)

lemma silent_fail [silent_intros]: "silent (io_fail e)"
  by (rule silent_same) (simp add: io_fail_def)

lemma silent_lift [silent_intros]: "silent (io_lift r)"
  by (rule silent_same) (simp add: io_lift_def)

lemma silent_bind [silent_intros]:
  assumes "silent m" "\<And>a. silent (f a)"
  shows "silent (io_bind m f)"
proof (rule silentI)
  fix w
  obtain r v where v: "m w = (r, v)" by fastforce
  obtain g where g: "v = w\<lparr>files := g\<rparr>" using assms(1) v by (metis silent_def snd_conv)
  show "\<exists>f'. snd (io_bind m f w) = w\<lparr>files := f'\<rparr>"
  proof (cases r)
    case (Inr a)
    obtain h where "snd (f a v) = v\<lparr>files := h\<rparr>" using assms(2) by (metis silent_def)
    then show ?thesis using v g Inr by (auto simp: io_bind_def)
  qed (use v g in \<open>auto simp: io_bind_def\<close>)
qed

lemma silent_map:
  assumes "silent m" "\<And>w. snd (m' w) = snd (m w)"
  shows "silent m'"
  using assms by (simp add: silent_def)

lemma silent_try [silent_intros]: "silent m \<Longrightarrow> silent (io_try m)"
  by (erule silent_map) (auto simp: io_try_def split: prod.splits)

lemma silent_wrap [silent_intros]: "silent m \<Longrightarrow> silent (io_wrap s m)"
  by (erule silent_map) (auto simp: io_wrap_def split: prod.splits sum.splits)

lemma silent_defer [silent_intros]: "silent d \<Longrightarrow> silent m \<Longrightarrow> silent (io_defer d m)"
proof (rule silentI)
  fix w
  assume "silent d" "silent m"
  moreover obtain r v where v: "m w = (r, v)" by fastforce
  ultimately obtain g h where "v = w\<lparr>files := g\<rparr>" "snd (d v) = v\<lparr>files := h\<rparr>"
    by (metis silent_def snd_conv)
  then show "\<exists>f. snd (io_defer d m w) = w\<lparr>files := f\<rparr>" using v by (auto simp: io_defer_def)
qed

lemma silent_fail_if [silent_intros]: "silent (fail_if r)"
  by (auto simp: fail_if_def intro: silent_intros split: option.splits)

lemma silent_Stat [silent_intros]: "silent (os_Stat env p)"
  unfolding os_Stat_def by (intro silent_bind silent_fail_if silent_same) (auto split: option.splits)

lemma silent_ReadFile [silent_intros]: "silent (os_ReadFile env p)"
  unfolding os_ReadFile_def
  by (intro silent_bind silent_fail_if silent_same) (auto split: option.splits node.splits)

lemma silent_OpenTrunc [silent_intros]: "silent (os_OpenTrunc env p m)"
  unfolding os_OpenTrunc_def
  by (intro silent_bind silent_fail_if silentI) (auto simp: same_files split: option.splits node.splits)

lemma silent_Create [silent_intros]: "silent (os_Create env p)"
  unfolding os_Create_def by (rule silent_OpenTrunc)

lemma silent_Write [silent_intros]: "silent (os_Write env p d)"
  unfolding os_Write_def
  by (intro silent_bind silent_fail_if silentI) (auto simp: same_files split: option.splits node.splits)

lemma silent_Copy [silent_intros]: "silent (io_Copy env p r)"
  unfolding io_Copy_def by (intro silent_intros) (auto intro: silent_intros split: option.splits)

lemma silent_WriteFile [silent_intros]: "silent (os_WriteFile env p d m)"
  unfolding os_WriteFile_def by (intro silent_intros)

lemma silent_Chmod [silent_intros]: "silent (os_Chmod env p m)"
  unfolding os_Chmod_def
  by (intro silent_bind silent_fail_if silentI) (auto simp: same_files split: option.splits node.splits)

lemma silent_TempDir [silent_intros]: "silent (os_TempDir env pat)"
  by (rule silentI) (auto simp: os_TempDir_def Let_def same_files split: option.splits)

lemma silent_RemoveAll [silent_intros]: "silent (os_RemoveAll env d)"
  by (rule silentI) (auto simp: os_RemoveAll_def same_files split: option.splits)

lemma silent_MkdirAll [silent_intros]: "silent (os_MkdirAll env p)"
  by (rule silentI) (auto simp: os_MkdirAll_def same_files split: option.splits)

lemma silent_Remove [silent_intros]: "silent (os_Remove env p)"
  unfolding os_Remove_def
  by (intro silent_bind silent_fail_if silentI) (auto simp: same_files split: option.splits)

lemma silent_Rename [silent_intros]: "silent (os_Rename env old new)"
  unfolding os_Rename_def
  by (intro silent_bind silent_fail_if silentI) (auto simp: same_files split: option.splits)

lemma silent_TempFile [silent_intros]: "silent (os_TempFile env dir pat)"
proof (rule silentI)
  fix w
  have "silent (io_bind (os_OpenTrunc env (temp_file_path env dir pat w) 384) (\<lambda>_. io_return (temp_file_path env dir pat w)))"
    by (intro silent_intros)
  then show "\<exists>f. snd (os_TempFile env dir pat w) = w\<lparr>files := f\<rparr>"
    by (auto simp: os_TempFile_def Let_def same_files silent_def)
qed

lemma fail_if_Inr [simp]: "fail_if r w = (Inr u, w') \<longleftrightarrow> r = None \<and> w' = w"
  by (auto simp: fail_if_def io_return_def io_fail_def split: option.splits)

lemma os_Stat_Inr [simp]:
  "os_Stat env p w = (Inr n, w') \<longleftrightarrow>
     w' = w \<and> fault env OpStat (path_Clean p) = None \<and> files w (path_Clean p) = Some n"
  by (auto simp: os_Stat_def split: option.splits)

lemma os_ReadFile_Inr [simp]:
  "os_ReadFile env p w = (Inr d, w') \<longleftrightarrow>
     w' = w \<and> fault env OpRead (path_Clean p) = None \<and> (\<exists>m. files w (path_Clean p) = Some (File d m))"
  by (auto simp: os_ReadFile_def split: option.splits node.splits)

lemma os_OpenTrunc_Inr:
  assumes "os_OpenTrunc env p m w = (Inr u, w')"
  shows "\<exists>m'. w' = w\<lparr>files := (files w)(path_Clean p \<mapsto> File [] m')\<rparr> \<and>
          (files w (path_Clean p) = None \<longrightarrow> m' = m)"
  using assms by (auto simp: os_OpenTrunc_def split: option.splits node.splits if_splits)

lemma os_Write_Inr:
  assumes "os_Write env p d w = (Inr u, w')" "files w (path_Clean p) = Some (File d' m)"
  shows "w' = w\<lparr>files := (files w)(path_Clean p \<mapsto> File (d' @ d) m)\<rparr>"
  using assms by (auto simp: os_Write_def)

lemma io_Copy_Inr: "io_Copy env p r w = (Inr u, w') \<Longrightarrow> snd r = None \<and> os_Write env p (fst r) w = (Inr (), w')"
  by (auto simp: io_Copy_def split: option.splits)

lemma os_WriteFile_Inr:
  assumes "os_WriteFile env p d m w = (Inr u, w')"
  shows "\<exists>m'. w' = w\<lparr>files := (files w)(path_Clean p \<mapsto> File d m')\<rparr>"
proof -
  obtain v where v: "os_OpenTrunc env p m w = (Inr (), v)" "os_Write env p d v = (Inr (), w')"
    using assms by (auto simp: os_WriteFile_def)
  obtain m' where "v = w\<lparr>files := (files w)(path_Clean p \<mapsto> File [] m')\<rparr>"
    using os_OpenTrunc_Inr v(1) by blast
  then show ?thesis using os_Write_Inr [OF v(2)] by auto
qed

lemma os_TempDir_Inr:
  "os_TempDir env pat w = (Inr d, w') \<Longrightarrow>
     d = temp_path env pat w \<and> files w d = None \<and> w' = w\<lparr>files := (files w)(d \<mapsto> Dir)\<rparr>
     \<and> CHR ''/'' \<notin> set pat"
  by (auto simp: os_TempDir_def Let_def split: option.splits if_splits)

lemma temp_name_plain: "CHR ''/'' \<notin> set pat \<Longrightarrow> plain_name (pat @ show_nat k)"
proof -
  assume pat: "CHR ''/'' \<notin> set pat"
  have "last (show_nat k) \<in> set ''0123456789''" using show_nat_digits last_in_set by (metis show_nat_not_Nil)
  then have dot: "last (pat @ show_nat k) \<noteq> CHR ''.''" by (auto simp: last_append)
  have "CHR ''/'' \<notin> set (show_nat k)" using show_nat_digits by fastforce
  then show ?thesis using pat dot by (auto simp: plain_name_def append_eq_Cons_conv)
qed

lemma under_temp:
  assumes "CHR ''/'' \<notin> set pat" "plain_name n"
  shows "under (temp_path env pat w) (path_Join [temp_path env pat w, n])"
  using path_Join_Join [OF temp_name_plain [OF assms(1)] assms(2)] by (simp add: temp_path_def under_def)

text \<open>A directory with a clean absolute path, not the root: the files in it have its path, a slash and
  their name, and none of them is on the way to it.\<close>

definition abs_dir :: "string \<Rightarrow> bool" where
  "abs_dir p = (prefix ''/'' p \<and> path_Clean p = p \<and> p \<noteq> ''/'')"

lemma abs_dir_parts:
  assumes "abs_dir p"
  shows "p = ''/'' @ join ''/'' (parts_of p)" "parts_of p \<noteq> []" "p \<noteq> []"
proof -
  have "path_Clean p = ''/'' @ join ''/'' (parts_of p)"
    unfolding path_Clean_parts using assms by (simp add: abs_dir_def)
  then show eq: "p = ''/'' @ join ''/'' (parts_of p)" using assms unfolding abs_dir_def by metis
  then show "p \<noteq> []" "parts_of p \<noteq> []" using assms by (auto simp: abs_dir_def)
qed

lemma path_Join_abs_dir: "abs_dir p \<Longrightarrow> plain_name n \<Longrightarrow> path_Join [p, n] = p @ ''/'' @ n"
  using path_Join_name [of n p] abs_dir_parts [of p] join_append [of "parts_of p" "[n]"]
  by (auto simp: abs_dir_def dir_parts_def)

lemma path_Dir_abs_dir:
  assumes "abs_dir p" "plain_name n"
  shows "path_Dir (p @ ''/'' @ n) = p"
proof -
  have fresh: "x \<noteq> CHR ''/''" if "x \<in> set (rev n)" for x using assms(2) that by (auto simp: plain_name_def)
  have "dropWhile (\<lambda>c. c \<noteq> CHR ''/'') (rev n @ CHR ''/'' # rev p) = CHR ''/'' # rev p"
    using fresh by (subst dropWhile_append2) auto
  then have "path_Dir (p @ ''/'' @ n) = path_Clean (p @ ''/'')" by (simp add: path_Dir_def)
  moreover have "clean_parts r st (ps @ [[]]) = clean_parts r st ps" for r st ps
    by (induction r st ps rule: clean_parts.induct) (auto split: list.splits)
  then have "parts_of (p @ ''/'') = parts_of p" using abs_dir_parts(3) [OF assms(1)]
    using assms(1) by (auto simp: parts_of_def split_on_append abs_dir_def prefix_def)
  moreover have "prefix ''/'' (p @ ''/'')" using assms(1) by (auto simp: abs_dir_def)
  ultimately show ?thesis using abs_dir_parts(1) [OF assms(1)] path_Clean_parts [of "p @ ''/''"] by simp
qed

lemma ancestors_prefix: "a \<in> set (ancestors ps) \<Longrightarrow> prefix a ps"
  by (induction ps arbitrary: a) auto

lemma ancestors_self: "ps \<noteq> [] \<Longrightarrow> ps \<in> set (ancestors ps)"
  by (induction ps) fastforce+

lemma dir_chain_abs_dir:
  assumes "abs_dir p"
  shows "p \<in> set (dir_chain p)" "p @ ''/'' @ n \<notin> set (dir_chain p)"
proof -
  have dp: "dir_parts p = parts_of p" "prefix ''/'' p" using abs_dir_parts [OF assms] assms by (auto simp: dir_parts_def abs_dir_def)
  show "p \<in> set (dir_chain p)"
    using dp abs_dir_parts [OF assms] ancestors_self [of "parts_of p"] by (auto simp: dir_chain_def)
  have len: "length (join ''/'' a) \<le> length (join ''/'' (a @ b))" for a b :: "string list"
    by (cases "a = [] \<or> b = []") (auto simp: join_append)
  have "length q \<le> length p" if q: "q \<in> set (dir_chain p)" for q
  proof -
    obtain a where a: "a \<in> set (ancestors (parts_of p))" "q = ''/'' @ join ''/'' a"
      using q dp by (auto simp: dir_chain_def)
    then obtain b where "parts_of p = a @ b" using ancestors_prefix prefixE by blast
    then show ?thesis using abs_dir_parts(1) [OF assms] a(2) len [of a b] by (metis length_append nat_add_left_cancel_le)
  qed
  then show "p @ ''/'' @ n \<notin> set (dir_chain p)" by fastforce
qed

lemma os_MkdirAll_Dir:
  assumes "os_MkdirAll env p w = (Inr u, w')" "files w q = Some n"
  shows "files w' q = Some n"
  using assms by (cases n) (fastforce simp: os_MkdirAll_def list_ex_iff split: option.splits if_splits)+

lemma os_MkdirAll_again:
  assumes "list_all (\<lambda>d. files w d = Some Dir) (dir_chain p)" "fault env OpMkdir (path_Clean p) = None"
  shows "os_MkdirAll env p w = (Inr (), w)"
proof -
  have "\<not> list_ex (\<lambda>d. case files w d of Some (File _ _) \<Rightarrow> True | _ \<Rightarrow> False) (dir_chain p)"
    using assms(1) by (auto simp: list_ex_iff list_all_iff)
  moreover have "(\<lambda>q. if q \<in> set (dir_chain p) then Some Dir else files w q) = files w"
    using assms(1) by (auto simp: list_all_iff fun_eq_iff)
  ultimately show ?thesis using assms(2) by (simp add: os_MkdirAll_def)
qed

end
