(* ===== verification/Semver.thy ===== *)
theory Semver
  imports Prelude "HOL-Library.Word" "HOL-Library.Char_ord" "HOL-Library.List_Lexorder"
    "HOL-Library.Product_Lexorder"
begin

text \<open>
  Semantic versions, from \<^verbatim>\<open>vendor/github.com/blang/semver/v4/semver.go\<close>, as far as the choice of a
  migration binary uses them: parsing, printing and comparing. The numbers are 64-bit words, and a
  number that does not fit is a parse error, as with \<^verbatim>\<open>strconv.ParseUint\<close>.

  Shown here: a string that parses is printed back unchanged, a valid version is read back from its
  printed form, and \<open>Compare\<close> is the order of a key, so that it is total and transitive although it
  ignores the build data.
\<close>

section \<open>Versions\<close>

record PRVersion =
  VersionStr :: string
  VersionNum :: "64 word"
  IsNum :: bool

record Version =
  Major :: "64 word"
  Minor :: "64 word"
  Patch :: "64 word"
  Pre :: "PRVersion list"
  Build :: "string list"

definition numbers :: string where
  "numbers = ''0123456789''"

definition alphanum :: string where
  "alphanum = ''abcdefghijklmnopqrstuvwxyzABCDEFGHIJKLMNOPQRSTUVWXYZ-'' @ numbers"

definition containsOnly :: "string \<Rightarrow> string \<Rightarrow> bool" where
  "containsOnly s cs = list_all (\<lambda>c. c \<in> set cs) s"

definition hasLeadingZeroes :: "string \<Rightarrow> bool" where
  "hasLeadingZeroes s = (length s > 1 \<and> hd s = CHR ''0'')"

text \<open>\<^verbatim>\<open>strconv.ParseUint(s, 10, 64)\<close> and \<^verbatim>\<open>strconv.FormatUint\<close>.\<close>

definition ParseUint :: "string \<Rightarrow> err + 64 word" where
  "ParseUint s =
     (if s = [] then Inl ''invalid syntax''
      else case read_digits 0 s of
        None \<Rightarrow> Inl ''invalid syntax''
      | Some n \<Rightarrow> if int n < 2 ^ 64 then Inr (of_nat n) else Inl ''value out of range'')"

definition FormatUint :: "64 word \<Rightarrow> string" where
  "FormatUint w = show_nat (unat w)"

section \<open>Printing and parsing\<close>

definition PRVersion_String :: "PRVersion \<Rightarrow> string" where
  "PRVersion_String v = (if IsNum v then FormatUint (VersionNum v) else VersionStr v)"

definition Version_String :: "Version \<Rightarrow> string" where
  "Version_String v =
     FormatUint (Major v) @ ''.'' @ FormatUint (Minor v) @ ''.'' @ FormatUint (Patch v)
     @ (if length (Pre v) > 0 then ''-'' @ join ''.'' (map PRVersion_String (Pre v)) else [])
     @ (if length (Build v) > 0 then ''+'' @ join ''.'' (Build v) else [])"

text \<open>The three checks \<open>Parse\<close> makes on each of its numbers.\<close>

definition parse_number :: "string \<Rightarrow> err + 64 word" where
  "parse_number s =
     (if \<not> containsOnly s numbers then Inl ''invalid character(s) found''
      else if hasLeadingZeroes s then Inl ''must not contain leading zeroes''
      else ParseUint s)"

definition NewPRVersion :: "string \<Rightarrow> err + PRVersion" where
  "NewPRVersion s =
     (if length s = 0 then Inl ''Prerelease is empty''
      else if containsOnly s numbers then
        (if hasLeadingZeroes s then Inl ''Numeric PreRelease version must not contain leading zeroes''
         else bind_res (ParseUint s) (\<lambda>n. Inr \<lparr>VersionStr = [], VersionNum = n, IsNum = True\<rparr>))
      else if containsOnly s alphanum then Inr \<lparr>VersionStr = s, VersionNum = 0, IsNum = False\<rparr>
      else Inl ''Invalid character(s) found in prerelease'')"

fun parse_pre :: "string list \<Rightarrow> err + PRVersion list" where
  "parse_pre [] = Inr []"
| "parse_pre (s # ss) =
     bind_res (NewPRVersion s) (\<lambda>p. bind_res (parse_pre ss) (\<lambda>ps. Inr (p # ps)))"

fun parse_build :: "string list \<Rightarrow> err + string list" where
  "parse_build [] = Inr []"
| "parse_build (s # ss) =
     (if length s = 0 then Inl ''Build meta data is empty''
      else if \<not> containsOnly s alphanum then Inl ''Invalid character(s) found in build meta data''
      else bind_res (parse_build ss) (\<lambda>bs. Inr (s # bs)))"

text \<open>\<^verbatim>\<open>strings.IndexRune\<close> and the two slices around the rune: the part before its first occurrence
  and, split at dots, the part after it.\<close>

definition cut_at :: "char \<Rightarrow> string \<Rightarrow> string \<times> string list" where
  "cut_at c s =
     (if c \<in> set s then (takeWhile (\<lambda>x. x \<noteq> c) s, split_on (CHR ''.'') (tl (dropWhile (\<lambda>x. x \<noteq> c) s)))
      else (s, []))"

definition Parse :: "string \<Rightarrow> err + Version" where
  "Parse s =
     (if length s = 0 then Inl ''Version string empty''
      else case split_n 3 (CHR ''.'') s of
        [maj, mino, rest] \<Rightarrow>
          bind_res (parse_number maj) (\<lambda>major.
          bind_res (parse_number mino) (\<lambda>minor.
            (let (patchPre, build) = cut_at (CHR ''+'') rest;
                 (patchStr, prerelease) = cut_at (CHR ''-'') patchPre
             in bind_res (parse_number patchStr) (\<lambda>patch.
                bind_res (parse_pre prerelease) (\<lambda>pre.
                bind_res (parse_build build) (\<lambda>bs.
                  Inr \<lparr>Major = major, Minor = minor, Patch = patch, Pre = pre, Build = bs\<rparr>))))))
      | _ \<Rightarrow> Inl ''No Major.Minor.Patch elements found'')"

definition Make :: "string \<Rightarrow> err + Version" where
  "Make s = Parse s"

section \<open>Comparing\<close>

definition PRVersion_Compare :: "PRVersion \<Rightarrow> PRVersion \<Rightarrow> int" where
  "PRVersion_Compare v w =
     (if IsNum v \<and> \<not> IsNum w then -1
      else if \<not> IsNum v \<and> IsNum w then 1
      else if IsNum v \<and> IsNum w then
        (if VersionNum v = VersionNum w then 0 else if VersionNum v > VersionNum w then 1 else -1)
      else if VersionStr v = VersionStr w then 0
      else if VersionStr v > VersionStr w then 1 else -1)"

text \<open>The loop over the pre-release parts, and the lengths compared after it.\<close>

fun compare_pre :: "PRVersion list \<Rightarrow> PRVersion list \<Rightarrow> int" where
  "compare_pre [] [] = 0"
| "compare_pre [] (w # ws) = -1"
| "compare_pre (v # vs) [] = 1"
| "compare_pre (v # vs) (w # ws) =
     (let comp = PRVersion_Compare v w in
      if comp = 0 then compare_pre vs ws else if comp = 1 then 1 else -1)"

definition Compare :: "Version \<Rightarrow> Version \<Rightarrow> int" where
  "Compare v w =
     (if Major v \<noteq> Major w then (if Major v > Major w then 1 else -1)
      else if Minor v \<noteq> Minor w then (if Minor v > Minor w then 1 else -1)
      else if Patch v \<noteq> Patch w then (if Patch v > Patch w then 1 else -1)
      else if length (Pre v) = 0 \<and> length (Pre w) = 0 then 0
      else if length (Pre v) = 0 \<and> length (Pre w) > 0 then 1
      else if length (Pre v) > 0 \<and> length (Pre w) = 0 then -1
      else compare_pre (Pre v) (Pre w))"

definition LT :: "Version \<Rightarrow> Version \<Rightarrow> bool" where
  "LT v w = (Compare v w = -1)"

section \<open>The order of a key\<close>

definition cmp :: "'a::linorder \<Rightarrow> 'a \<Rightarrow> int" where
  "cmp a b = (if a < b then -1 else if a = b then 0 else 1)"

definition pr_key :: "PRVersion \<Rightarrow> nat \<times> 64 word \<times> string" where
  "pr_key v = (if IsNum v then (0, VersionNum v, []) else (1, 0, VersionStr v))"

definition ver_key :: "Version \<Rightarrow> 64 word \<times> 64 word \<times> 64 word \<times> nat \<times> (nat \<times> 64 word \<times> string) list" where
  "ver_key v =
     (Major v, Minor v, Patch v, if Pre v = [] then 1 else 0, map pr_key (Pre v))"

lemma PRVersion_Compare_key: "PRVersion_Compare v w = cmp (pr_key v) (pr_key w)"
  by (auto simp: PRVersion_Compare_def cmp_def pr_key_def)

lemma compare_pre_key: "compare_pre vs ws = cmp (map pr_key vs) (map pr_key ws)"
  by (induction vs ws rule: compare_pre.induct) (auto simp: cmp_def PRVersion_Compare_key Let_def)

lemma Compare_key: "Compare v w = cmp (ver_key v) (ver_key w)"
  by (auto simp: Compare_def cmp_def ver_key_def compare_pre_key)

lemma LT_key: "LT v w \<longleftrightarrow> ver_key v < ver_key w"
  by (simp add: LT_def Compare_key cmp_def)

lemma Compare_antisym: "Compare w v = - Compare v w"
  by (auto simp: Compare_key cmp_def)

section \<open>Round trip\<close>

lemma FormatUint_ParseUint: "ParseUint (FormatUint w) = Inr w"
  using unsigned_less [of w] by (simp add: ParseUint_def FormatUint_def read_show_nat)

lemma digit_char_value: "digit_value c = Some d \<Longrightarrow> d < 10 \<and> digit_char d = c"
proof -
  assume c: "digit_value c = Some d"
  then have d: "d < 10" by (auto simp: digit_value.simps Let_def split: if_splits)
  have "of_char (digit_char d) = (of_char c :: nat)"
  proof -
    from d have "d \<in> {0, 1, 2, 3, 4, 5, 6, 7, 8, 9}" by auto
    then have "of_char (digit_char d) = (48 + d :: nat)" by (auto simp: digit_char_def)
    then show ?thesis using c by (auto simp: digit_value.simps Let_def split: if_splits)
  qed
  then show ?thesis using d by simp
qed

lemma read_digits_pos: "read_digits acc s = Some n \<Longrightarrow> acc \<noteq> 0 \<Longrightarrow> n \<noteq> 0"
  by (induction s arbitrary: acc) (auto split: option.splits)

lemma digit_char_0: "digit_char 0 = CHR ''0''"
  by (simp add: digit_char_def)

lemma read_digits_nonzero:
  assumes "s \<noteq> []" "hd s \<noteq> CHR ''0''" "read_digits 0 s = Some n"
  shows "n \<noteq> 0"
proof -
  obtain c cs where s: "s = c # cs" using assms by (cases s) auto
  then obtain d where d: "digit_value c = Some d" "read_digits d cs = Some n"
    using assms by (auto split: option.splits)
  then have "d \<noteq> 0" using assms(2) s digit_char_value [OF d(1)] digit_char_0 by (metis list.sel(1))
  then show ?thesis using d read_digits_pos by blast
qed

lemma show_read_digits:
  "read_digits 0 s = Some n \<Longrightarrow> s \<noteq> [] \<Longrightarrow> \<not> hasLeadingZeroes s \<Longrightarrow> show_nat n = s"
proof (induction s arbitrary: n rule: rev_induct)
  case (snoc c s)
  obtain m d where m: "read_digits 0 s = Some m" and d: "digit_value c = Some d" and n: "n = 10 * m + d"
    using snoc.prems by (auto simp: read_digits_append split: option.splits)
  have c: "d < 10" "digit_char d = c" using d digit_char_value by auto
  show ?case
  proof (cases "s = []")
    case True
    then have "m = 0" using m by simp
    then show ?thesis using True c n by (simp add: show_nat.simps [of d])
  next
    case False
    then have hd: "hd s \<noteq> CHR ''0''" using snoc.prems by (cases s) (auto simp: hasLeadingZeroes_def)
    then have m0: "m \<noteq> 0" using read_digits_nonzero m False by blast
    have "show_nat m = s" using snoc.IH [OF m False] hd by (simp add: hasLeadingZeroes_def)
    then show ?thesis using m0 n c by (subst show_nat.simps) simp
  qed
qed simp

lemma ParseUint_Inr: "ParseUint s = Inr w \<Longrightarrow> \<not> hasLeadingZeroes s \<Longrightarrow> FormatUint w = s"
  by (auto simp: ParseUint_def FormatUint_def unat_of_nat take_bit_nat_eq_self show_read_digits
      split: if_splits option.splits)

lemma show_nat_no_zeroes: "\<not> hasLeadingZeroes (show_nat n)"
proof (induction n rule: show_nat.induct)
  case (1 n)
  show ?case
  proof (cases "n < 10")
    case True
    then show ?thesis by (subst show_nat.simps) (simp add: hasLeadingZeroes_def)
  next
    case False
    have hd: "hd (show_nat m) \<noteq> CHR ''0''" if "m \<noteq> 0" "\<not> hasLeadingZeroes (show_nat m)" for m
    proof (cases "length (show_nat m) > 1")
      case False
      then have "m < 10" by (subst (asm) show_nat.simps) (auto split: if_splits)
      moreover from this have "show_nat m = [digit_char m]" by (subst show_nat.simps) simp
      moreover have "m \<in> {1, 2, 3, 4, 5, 6, 7, 8, 9}" using calculation(1) that by auto
      ultimately show ?thesis by (auto simp: digit_char_def)
    qed (use that in \<open>simp add: hasLeadingZeroes_def\<close>)
    have "hd (show_nat (n div 10)) \<noteq> CHR ''0''"
      using hd [of "n div 10"] 1 False by (simp add: div_eq_0_iff)
    then show ?thesis using False
      by (subst show_nat.simps) (simp add: hasLeadingZeroes_def)
  qed
qed

lemma FormatUint_number: "parse_number (FormatUint w) = Inr w"
proof -
  have "containsOnly (FormatUint w) numbers"
    using show_nat_digits [of _ "unat w"] unfolding containsOnly_def FormatUint_def numbers_def list_all_iff by blast
  then show ?thesis
    using show_nat_no_zeroes FormatUint_ParseUint by (simp add: parse_number_def FormatUint_def)
qed

lemma parse_number_Inr: "parse_number s = Inr w \<Longrightarrow> FormatUint w = s"
  by (auto simp: parse_number_def ParseUint_Inr split: if_splits)

lemma NewPRVersion_Inr: "NewPRVersion s = Inr p \<Longrightarrow> PRVersion_String p = s"
  by (auto simp: NewPRVersion_def PRVersion_String_def ParseUint_Inr split: if_splits)

lemma parse_pre_Inr: "parse_pre ss = Inr ps \<Longrightarrow> map PRVersion_String ps = ss"
  by (induction ss arbitrary: ps) (auto simp: NewPRVersion_Inr)

lemma parse_build_Inr: "parse_build ss = Inr bs \<Longrightarrow> bs = ss"
  by (induction ss arbitrary: bs) (auto split: if_splits)

lemma cut_at_join:
  "cut_at c s = (w, ws) \<Longrightarrow> s = w @ (if ws = [] then [] else c # join ''.'' ws)"
proof (cases "c \<in> set s")
  case True
  assume cut: "cut_at c s = (w, ws)"
  have "dropWhile (\<lambda>x. x \<noteq> c) s \<noteq> []" using True by (simp add: dropWhile_eq_Nil_conv)
  moreover from this have "hd (dropWhile (\<lambda>x. x \<noteq> c) s) = c" using hd_dropWhile by blast
  ultimately have "s = takeWhile (\<lambda>x. x \<noteq> c) s @ c # tl (dropWhile (\<lambda>x. x \<noteq> c) s)"
    by (metis list.collapse takeWhile_dropWhile_id)
  then show ?thesis using cut True join_split_on [of "CHR ''.''"] by (auto simp: cut_at_def)
qed (simp add: cut_at_def)

lemma Parse_parts:
  assumes "Parse s = Inr v"
  obtains maj mino rest pp bs ps pre where "split_n 3 (CHR ''.'') s = [maj, mino, rest]"
    "cut_at (CHR ''+'') rest = (pp, bs)" "cut_at (CHR ''-'') pp = (ps, pre)"
    "parse_number maj = Inr (Major v)" "parse_number mino = Inr (Minor v)"
    "parse_number ps = Inr (Patch v)" "parse_pre pre = Inr (Pre v)" "parse_build bs = Inr (Build v)"
proof -
  obtain maj mino rest where parts: "split_n 3 (CHR ''.'') s = [maj, mino, rest]"
    using assms by (auto simp: Parse_def split: if_splits list.splits)
  obtain pp bs where c1: "cut_at (CHR ''+'') rest = (pp, bs)" by fastforce
  obtain ps pre where c2: "cut_at (CHR ''-'') pp = (ps, pre)" by fastforce
  show thesis
    by (rule that [OF parts c1 c2]) (use assms parts c1 c2 in \<open>auto simp: Parse_def split: if_splits\<close>)
qed

lemma Version_String_Parse:
  assumes "Parse s = Inr v"
  shows "Version_String v = s"
proof -
  obtain maj mino rest pp bs ps pre where parts: "split_n 3 (CHR ''.'') s = [maj, mino, rest]"
    and c1: "cut_at (CHR ''+'') rest = (pp, bs)" and c2: "cut_at (CHR ''-'') pp = (ps, pre)"
    and nums: "parse_number maj = Inr (Major v)" "parse_number mino = Inr (Minor v)"
    "parse_number ps = Inr (Patch v)" "parse_pre pre = Inr (Pre v)" "parse_build bs = Inr (Build v)"
    using Parse_parts [OF assms] by metis
  have "s = join ''.'' [maj, mino, rest]" using join_split_n [of 3 "CHR ''.''" s] parts by simp
  moreover have "rest = pp @ (if bs = [] then [] else ''+'' @ join ''.'' bs)"
    "pp = ps @ (if pre = [] then [] else ''-'' @ join ''.'' pre)"
    using cut_at_join [OF c1] cut_at_join [OF c2] by simp_all
  ultimately show ?thesis
    using nums parse_number_Inr parse_pre_Inr [OF nums(4)] parse_build_Inr [OF nums(5)]
    by (auto simp: Version_String_def)
qed

text \<open>The values \<open>Parse\<close> can return: identifiers that are not empty and have only the allowed
  characters, and one representation for each pre-release part.\<close>

definition pr_ok :: "PRVersion \<Rightarrow> bool" where
  "pr_ok p =
     (if IsNum p then VersionStr p = []
      else VersionNum p = 0 \<and> VersionStr p \<noteq> [] \<and> containsOnly (VersionStr p) alphanum
           \<and> \<not> containsOnly (VersionStr p) numbers)"

definition version_ok :: "Version \<Rightarrow> bool" where
  "version_ok v =
     (list_all pr_ok (Pre v) \<and> list_all (\<lambda>b. b \<noteq> [] \<and> containsOnly b alphanum) (Build v))"

lemma FormatUint_fresh:
  "c \<notin> set ''0123456789'' \<Longrightarrow> c \<notin> set (FormatUint w)"
  using show_nat_digits unfolding FormatUint_def by blast

lemma FormatUint_alnum: "set (FormatUint w) \<subseteq> set alphanum"
proof -
  have "set (FormatUint w) \<subseteq> set numbers"
    using show_nat_digits unfolding FormatUint_def numbers_def by blast
  also have "set numbers \<subseteq> set alphanum" unfolding alphanum_def set_append by (rule Un_upper2)
  finally show ?thesis .
qed

lemma PRVersion_String_alnum: "pr_ok p \<Longrightarrow> set (PRVersion_String p) \<subseteq> set alphanum"
  using FormatUint_alnum [of "VersionNum p"]
  by (auto simp: PRVersion_String_def pr_ok_def containsOnly_def list_all_iff)

lemma alnum_fresh: "set s \<subseteq> set alphanum \<Longrightarrow> CHR ''.'' \<notin> set s \<and> CHR ''+'' \<notin> set s"
proof -
  assume "set s \<subseteq> set alphanum"
  moreover have "CHR ''.'' \<notin> set alphanum" "CHR ''+'' \<notin> set alphanum"
    by (simp_all add: alphanum_def numbers_def)
  ultimately show ?thesis by blast
qed

lemma NewPRVersion_String: "pr_ok p \<Longrightarrow> NewPRVersion (PRVersion_String p) = Inr p"
proof (cases "IsNum p")
  case True
  assume "pr_ok p"
  then have p: "p = \<lparr>VersionStr = [], VersionNum = VersionNum p, IsNum = True\<rparr>"
    using True by (simp add: pr_ok_def)
  have "parse_number (FormatUint (VersionNum p)) = Inr (VersionNum p)" by (rule FormatUint_number)
  moreover have "FormatUint (VersionNum p) \<noteq> []" by (simp add: FormatUint_def)
  ultimately show ?thesis using True p
    by (auto simp: NewPRVersion_def PRVersion_String_def parse_number_def split: if_splits)
next
  case False
  assume "pr_ok p"
  then show ?thesis using False
    by (cases p) (auto simp: NewPRVersion_def PRVersion_String_def pr_ok_def)
qed

lemma parse_pre_String: "list_all pr_ok ps \<Longrightarrow> parse_pre (map PRVersion_String ps) = Inr ps"
  by (induction ps) (auto simp: NewPRVersion_String)

lemma parse_build_ok:
  "list_all (\<lambda>b. b \<noteq> [] \<and> containsOnly b alphanum) bs \<Longrightarrow> parse_build bs = Inr bs"
  by (induction bs) auto

lemma cut_at_append:
  assumes "c \<notin> set w" "\<And>v. v \<in> set ws \<Longrightarrow> CHR ''.'' \<notin> set v"
  shows "cut_at c (w @ (if ws = [] then [] else c # join ''.'' ws)) = (w, ws)"
proof (cases "ws = []")
  case False
  have "takeWhile (\<lambda>x. x \<noteq> c) (w @ c # join ''.'' ws) = w"
    "dropWhile (\<lambda>x. x \<noteq> c) (w @ c # join ''.'' ws) = c # join ''.'' ws"
    using assms(1) by (auto simp: takeWhile_append dropWhile_append)
  then show ?thesis using False assms split_on_join [of ws "CHR ''.''"] by (simp add: cut_at_def)
qed (use assms in \<open>simp add: cut_at_def\<close>)

lemma set_join: "set (join sep ws) \<subseteq> set sep \<union> \<Union> (set (map set ws))"
  by (induction sep ws rule: join.induct) auto

lemma split_n_3:
  assumes "c \<notin> set a" "c \<notin> set b"
  shows "split_n 3 c (a @ c # b @ c # r) = [a, b, r]"
proof -
  have "takeWhile (\<lambda>x. x \<noteq> c) (a @ c # t) = a" "takeWhile (\<lambda>x. x \<noteq> c) (b @ c # t) = b" for t
    using assms by (auto simp: takeWhile_append)
  then show ?thesis by (simp add: numeral_3_eq_3 Let_def)
qed

lemma Parse_Version_String:
  assumes ok: "version_ok v"
  shows "Parse (Version_String v) = Inr v"
proof -
  define pre where "pre = map PRVersion_String (Pre v)"
  define ps where "ps = FormatUint (Patch v)"
  define pp where "pp = ps @ (if pre = [] then [] else CHR ''-'' # join ''.'' pre)"
  define rest where "rest = pp @ (if Build v = [] then [] else CHR ''+'' # join ''.'' (Build v))"
  have str: "Version_String v = FormatUint (Major v) @ CHR ''.'' # FormatUint (Minor v) @ CHR ''.'' # rest"
    by (simp add: Version_String_def rest_def pp_def pre_def ps_def)
  have pre: "set w \<subseteq> set alphanum" if "w \<in> set pre" for w
    using that ok PRVersion_String_alnum by (auto simp: pre_def version_ok_def list_all_iff)
  have build: "set w \<subseteq> set alphanum" if "w \<in> set (Build v)" for w
    using that ok by (auto simp: version_ok_def list_all_iff containsOnly_def)
  have "CHR ''+'' \<notin> set (join ''.'' pre)"
    using set_join [of "''.''" pre] pre alnum_fresh by auto
  moreover have "CHR ''+'' \<notin> set ps" "CHR ''-'' \<notin> set ps" using FormatUint_fresh by (auto simp: ps_def)
  ultimately have cuts: "cut_at (CHR ''+'') rest = (pp, Build v)" "cut_at (CHR ''-'') pp = (ps, pre)"
    unfolding rest_def using pre build alnum_fresh
    by (intro cut_at_append; auto simp: pp_def)
      (unfold pp_def, intro cut_at_append; use pre alnum_fresh \<open>CHR ''-'' \<notin> set ps\<close> in auto)
  have "CHR ''.'' \<notin> set (FormatUint (Major v))" "CHR ''.'' \<notin> set (FormatUint (Minor v))"
    using FormatUint_fresh by auto
  then have parts: "split_n 3 (CHR ''.'') (Version_String v) = [FormatUint (Major v), FormatUint (Minor v), rest]"
    unfolding str by (rule split_n_3)
  have fields: "parse_pre pre = Inr (Pre v)" "parse_build (Build v) = Inr (Build v)"
    using ok parse_pre_String parse_build_ok by (auto simp: pre_def version_ok_def)
  have "Version_String v \<noteq> []" by (simp add: Version_String_def)
  then show ?thesis
    unfolding Parse_def using parts cuts fields FormatUint_number by (simp add: ps_def)
qed

lemma NewPRVersion_ok: "NewPRVersion s = Inr p \<Longrightarrow> pr_ok p"
  by (auto simp: NewPRVersion_def pr_ok_def split: if_splits)

lemma parse_pre_ok: "parse_pre ss = Inr ps \<Longrightarrow> list_all pr_ok ps"
  by (induction ss arbitrary: ps) (auto dest: NewPRVersion_ok)

lemma parse_build_list_ok:
  "parse_build ss = Inr bs \<Longrightarrow> list_all (\<lambda>b. b \<noteq> [] \<and> containsOnly b alphanum) bs"
  by (induction ss arbitrary: bs) (auto split: if_splits)

lemma Parse_ok: "Parse s = Inr v \<Longrightarrow> version_ok v"
  by (erule Parse_parts) (simp add: version_ok_def parse_pre_ok parse_build_list_ok)

text \<open>The strings that parse are exactly the printed forms of the valid versions.\<close>

lemma Parse_iff: "Parse s = Inr v \<longleftrightarrow> version_ok v \<and> s = Version_String v"
  using Parse_ok Version_String_Parse Parse_Version_String by metis

lemma Version_String_chars:
  assumes "version_ok v"
  shows "set (Version_String v) \<subseteq> set alphanum \<union> {CHR ''.'', CHR ''-'', CHR ''+''}"
proof -
  have sub: "(\<And>w. w \<in> set ws \<Longrightarrow> set w \<subseteq> A) \<Longrightarrow> set (join ''.'' ws) \<subseteq> insert (CHR ''.'') A" for A ws
    using set_join [of "''.''" ws] by auto
  have pre: "set (join ''.'' (map PRVersion_String (Pre v))) \<subseteq> insert (CHR ''.'') (set alphanum)"
    by (rule sub) (use PRVersion_String_alnum assms in \<open>auto simp: version_ok_def list_all_iff\<close>)
  have build: "set (join ''.'' (Build v)) \<subseteq> insert (CHR ''.'') (set alphanum)"
    by (rule sub) (use assms in \<open>auto simp: version_ok_def list_all_iff containsOnly_def\<close>)
  define A where "A = set alphanum"
  have num: "set (FormatUint n) \<subseteq> A" for n unfolding A_def by (rule FormatUint_alnum)
  have parts: "set (Version_String v) \<subseteq>
      set (FormatUint (Major v)) \<union> set (FormatUint (Minor v)) \<union> set (FormatUint (Patch v))
      \<union> set (join ''.'' (map PRVersion_String (Pre v))) \<union> set (join ''.'' (Build v))
      \<union> {CHR ''.'', CHR ''-'', CHR ''+''}"
    by (auto simp: Version_String_def)
  show ?thesis
    using order_trans [OF parts, of "A \<union> {CHR ''.'', CHR ''-'', CHR ''+''}"]
      num [of "Major v"] num [of "Minor v"] num [of "Patch v"] pre build
    unfolding A_def [symmetric] by blast
qed

end
