(* ===== verification/Sorting.thy ===== *)
theory Sorting
  imports Main "HOL-Library.Multiset"
begin

text \<open>
  What the code may rely on of Go's \<^verbatim>\<open>sort\<close> package. The sorts are not stable, so the result is only
  known to be an ordered rearrangement; \<open>sorts\<close> says this of a parameter that stands for the sort.
  Where no two elements are equal in the order, the result is determined (\<open>sorts_unique\<close>).
\<close>

text \<open>What \<^verbatim>\<open>sort.Sort\<close> promises for an ordering given by \<^verbatim>\<open>Less\<close>.\<close>

definition sorts :: "(('a \<Rightarrow> 'a \<Rightarrow> bool) \<Rightarrow> 'a list \<Rightarrow> 'a list) \<Rightarrow> bool" where
  "sorts srt =
     (\<forall>lt xs. (\<forall>x y z. lt x y \<longrightarrow> lt y z \<longrightarrow> lt x z) \<and> (\<forall>x. \<not> lt x x)
                \<and> (\<forall>x y z. \<not> lt x y \<longrightarrow> \<not> lt y z \<longrightarrow> \<not> lt x z) \<longrightarrow>
        mset (srt lt xs) = mset xs
        \<and> sorted_wrt (\<lambda>x y. \<not> lt y x) (srt lt xs))"

text \<open>A sorter, the insertion sort that \<^verbatim>\<open>sort.Sort\<close> uses on short slices.\<close>

fun insert_by :: "('a \<Rightarrow> 'a \<Rightarrow> bool) \<Rightarrow> 'a \<Rightarrow> 'a list \<Rightarrow> 'a list" where
  "insert_by lt x [] = [x]"
| "insert_by lt x (y # ys) = (if lt y x then y # insert_by lt x ys else x # y # ys)"

definition insertion_sort :: "('a \<Rightarrow> 'a \<Rightarrow> bool) \<Rightarrow> 'a list \<Rightarrow> 'a list" where
  "insertion_sort lt xs = foldr (insert_by lt) xs []"

lemma insert_by_mset: "mset (insert_by lt x ys) = add_mset x (mset ys)"
  by (induction ys) auto

lemma insert_by_sorted:
  assumes "\<And>x y z. lt x y \<Longrightarrow> lt y z \<Longrightarrow> lt x z" "\<And>x. \<not> lt x x"
    "\<And>x y z. \<not> lt x y \<Longrightarrow> \<not> lt y z \<Longrightarrow> \<not> lt x z"
  shows "sorted_wrt (\<lambda>x y. \<not> lt y x) ys \<Longrightarrow> sorted_wrt (\<lambda>x y. \<not> lt y x) (insert_by lt x ys)"
proof (induction ys)
  case (Cons y ys)
  have set: "set (insert_by lt x ys) = insert x (set ys)"
    using insert_by_mset [of lt x ys] by (metis set_mset_add_mset_insert set_mset_mset)
  show ?case
  proof (cases "lt y x")
    case True
    then have "\<not> lt x y" using assms(1, 2) by blast
    then show ?thesis using Cons True set by auto
  next
    case False
    then have "\<not> lt z x" if "z \<in> set ys" for z using Cons.prems assms(3) that by auto
    then show ?thesis using Cons.prems False by auto
  qed
qed simp

lemma sorts_insertion_sort: "sorts insertion_sort"
proof (unfold sorts_def, intro allI impI conjI)
  fix lt :: "'a \<Rightarrow> 'a \<Rightarrow> bool" and xs
  assume order: "(\<forall>x y z. lt x y \<longrightarrow> lt y z \<longrightarrow> lt x z) \<and> (\<forall>x. \<not> lt x x)
    \<and> (\<forall>x y z. \<not> lt x y \<longrightarrow> \<not> lt y z \<longrightarrow> \<not> lt x z)"
  show "mset (insertion_sort lt xs) = mset xs"
    unfolding insertion_sort_def by (induction xs) (auto simp: insert_by_mset)
  show "sorted_wrt (\<lambda>x y. \<not> lt y x) (insertion_sort lt xs)"
    unfolding insertion_sort_def
  proof (induction xs)
    case (Cons x xs)
    have "sorted_wrt (\<lambda>x y. \<not> lt y x) (insert_by lt x (foldr (insert_by lt) xs []))"
      by (rule insert_by_sorted) (use order Cons in blast)+
    then show ?case by simp
  qed simp
qed

text \<open>A rearrangement that is ordered by an order without ties is unique.\<close>

lemma sorted_unique:
  assumes asym: "\<And>x y. x \<in> set xs \<Longrightarrow> y \<in> set xs \<Longrightarrow> \<not> lt x y \<Longrightarrow> \<not> lt y x \<Longrightarrow> x = y"
  shows "sorted_wrt (\<lambda>x y. \<not> lt y x) xs \<Longrightarrow> sorted_wrt (\<lambda>x y. \<not> lt y x) ys \<Longrightarrow> mset xs = mset ys \<Longrightarrow> xs = ys"
  using asym
proof (induction xs arbitrary: ys)
  case (Cons x xs)
  obtain y ys' where ys: "ys = y # ys'" using Cons.prems(3) by (cases ys) auto
  have set: "set ys = set (x # xs)" by (rule mset_eq_setD [OF Cons.prems(3) [symmetric]])
  have "x \<in> set ys" "y \<in> set (x # xs)" using set ys by auto
  then have "x = y \<or> \<not> lt x y \<and> \<not> lt y x"
    using Cons.prems(1, 2) ys by auto
  then have eq: "x = y" using Cons.prems(4) [of x y] \<open>y \<in> set (x # xs)\<close> by auto
  then have "mset xs = mset ys'" using Cons.prems(3) ys by simp
  then have "xs = ys'" using Cons.IH [of ys'] Cons.prems ys by auto
  then show ?case using ys eq by simp
qed simp

end
