(* ===== verification/Dist.thy ===== *)
theory Dist
  imports Os Semver Sorting
begin

text \<open>
  The distribution site: how a version of a program is found, downloaded and unpacked, from
  \<^verbatim>\<open>repo/fsrepo/migrations/{fetcher,httpfetcher,versions,fetch,unpack}.go\<close>.

  A \<^verbatim>\<open>Fetcher\<close> is a record of its two methods; a successful \<open>Fetch\<close> returns a reader, where
  \<open>None\<close> is a nil reader. The network, URL parsing, the archive formats and the context are
  parameters. \<^verbatim>\<open>sort.Sort\<close> is a parameter too: it is not stable, so all that may be used of it is that
  it returns an ordered rearrangement (\<open>sorts\<close>).

  The locale \<open>fetcher_contract\<close> is what the users of a fetcher rely on: success comes with a reader.
  The HTTP fetcher has it, and \<open>MultiFetcher\<close> has it when it holds at least one fetcher.
\<close>

section \<open>Fetchers\<close>

record fetcher =
  Fetch :: "string \<Rightarrow> error + reader option"
  Fetcher_Close :: "error option"

definition LatestIpfsDist :: string where
  "LatestIpfsDist = ''/ipns/dist.ipfs.io''"

text \<open>The errors of all fetchers, as \<^verbatim>\<open>go-multierror\<close> collects them.\<close>

definition multierror_Append :: "error option \<Rightarrow> error \<Rightarrow> error option" where
  "multierror_Append errs e =
     Some (Errorf ((case errs of None \<Rightarrow> [] | Some es \<Rightarrow> error_msg es @ ''; '') @ error_msg e))"

fun MultiFetcher_loop :: "error option \<Rightarrow> fetcher list \<Rightarrow> string \<Rightarrow> error + reader option" where
  "MultiFetcher_loop errs [] p = (case errs of None \<Rightarrow> Inr None | Some e \<Rightarrow> Inl e)"
| "MultiFetcher_loop errs (f # fs) p =
     (case Fetch f p of
        Inr rc \<Rightarrow> Inr rc
      | Inl e \<Rightarrow> MultiFetcher_loop (multierror_Append errs e) fs p)"

definition MultiFetcher_Fetch :: "fetcher list \<Rightarrow> string \<Rightarrow> error + reader option" where
  "MultiFetcher_Fetch fs p = MultiFetcher_loop None fs p"

fun MultiFetcher_Close :: "error option \<Rightarrow> fetcher list \<Rightarrow> error option" where
  "MultiFetcher_Close errs [] = errs"
| "MultiFetcher_Close errs (f # fs) =
     (case Fetcher_Close f of
        Some e \<Rightarrow> MultiFetcher_Close (multierror_Append errs e) fs
      | None \<Rightarrow> MultiFetcher_Close errs fs)"

definition NewMultiFetcher :: "fetcher list \<Rightarrow> fetcher" where
  "NewMultiFetcher fs =
     \<lparr>Fetch = MultiFetcher_Fetch fs, Fetcher_Close = MultiFetcher_Close None fs\<rparr>"

text \<open>\<^verbatim>\<open>io.LimitReader\<close>: after \<open>n\<close> bytes it reports the end of the file, and an error of the
  underlying reader is seen only when it comes before.\<close>

definition NewLimitReadCloser :: "reader \<Rightarrow> nat \<Rightarrow> reader" where
  "NewLimitReadCloser rc n = (take n (fst rc), if length (fst rc) < n then snd rc else None)"

definition GetDistPathEnv :: "os_env \<Rightarrow> string \<Rightarrow> string" where
  "GetDistPathEnv env distPath =
     (if Getenv env ''IPFS_DIST_PATH'' \<noteq> [] then Getenv env ''IPFS_DIST_PATH''
      else if distPath = [] then LatestIpfsDist
      else distPath)"

section \<open>The HTTP fetcher\<close>

record HttpFetcher =
  distPath :: string
  gateway :: string
  limit :: int
  userAgent :: string

record response =
  StatusCode :: nat
  Status :: string
  Body :: reader

text \<open>The network: whether a request for a URL can be made, and the response to it.\<close>

record http_env =
  NewRequest :: "string \<Rightarrow> error option"
  http_Do :: "string \<Rightarrow> string option \<Rightarrow> error + response"

definition NewHttpFetcher :: "string \<Rightarrow> string \<Rightarrow> string \<Rightarrow> int \<Rightarrow> HttpFetcher" where
  "NewHttpFetcher dist gw ua fetchLimit =
     (let f = \<lparr>distPath = LatestIpfsDist, gateway = ''https://ipfs.io'',
               limit = 1024 * 1024 * 512, userAgent = []\<rparr>;
          f = (if dist \<noteq> [] then f\<lparr>distPath := (if prefix ''/'' dist then dist else ''/'' @ dist)\<rparr> else f);
          f = (if gw \<noteq> [] then f\<lparr>gateway := trim_right ''/'' gw\<rparr> else f)
      in if fetchLimit \<noteq> 0 then f\<lparr>limit := (if fetchLimit < 0 then 0 else fetchLimit)\<rparr> else f)"

definition gwURL :: "HttpFetcher \<Rightarrow> string \<Rightarrow> string" where
  "gwURL f filePath = gateway f @ path_Join [distPath f, filePath]"

definition HttpFetcher_Fetch :: "http_env \<Rightarrow> HttpFetcher \<Rightarrow> string \<Rightarrow> error + reader option" where
  "HttpFetcher_Fetch net f filePath =
     (let url = gwURL f filePath in
      case NewRequest net url of
        Some e \<Rightarrow> Inl (Errorf (''http.NewRequest error: '' @ error_msg e))
      | None \<Rightarrow>
        (case http_Do net url (if userAgent f \<noteq> [] then Some (userAgent f) else None) of
           Inl e \<Rightarrow> Inl (Errorf (''http.DefaultClient.Do error: '' @ error_msg e))
         | Inr resp \<Rightarrow>
             if StatusCode resp \<ge> 400 then
               (case snd (Body resp) of
                  Some e \<Rightarrow> Inl (Errorf (''error reading error body: '' @ error_msg e))
                | None \<Rightarrow> Inl (Errorf (''GET '' @ url @ '' error: '' @ Status resp @ '': '' @ fst (Body resp))))
             else if limit f \<noteq> 0 then Inr (Some (NewLimitReadCloser (Body resp) (nat (limit f))))
             else Inr (Some (Body resp))))"

definition http_fetcher :: "http_env \<Rightarrow> HttpFetcher \<Rightarrow> fetcher" where
  "http_fetcher net f = \<lparr>Fetch = HttpFetcher_Fetch net f, Fetcher_Close = None\<rparr>"

section \<open>Versions\<close>

text \<open>\<^verbatim>\<open>bufio.Scanner\<close> on lines: a final carriage return is dropped, an empty last line is not
  reported, a line that does not fit in 64 KiB stops the scan.\<close>

definition drop_cr :: "string \<Rightarrow> string" where
  "drop_cr s = (if s \<noteq> [] \<and> last s = CHR 0x0D then butlast s else s)"

fun take_lines :: "string list \<Rightarrow> string list \<times> bool" where
  "take_lines [] = ([], False)"
| "take_lines (l # ls) =
     (if length l \<ge> 65536 then ([], True)
      else if ls = [] \<and> l = [] then ([], False)
      else (case take_lines ls of (out, long) \<Rightarrow> (drop_cr l # out, long)))"

definition scan_lines :: "reader \<Rightarrow> string list \<times> error option" where
  "scan_lines r =
     (case take_lines (split_on (CHR 0x0A) (fst r)) of
        (ls, long) \<Rightarrow> (ls, if long then Some (Errorf ''bufio.Scanner: token too long'') else snd r))"

fun parse_versions :: "string list \<Rightarrow> Version list" where
  "parse_versions [] = []"
| "parse_versions (l # ls) =
     (case Make (trim_left ''v'' l) of Inl e \<Rightarrow> parse_versions ls | Inr v \<Rightarrow> v # parse_versions ls)"

definition version_name :: "Version \<Rightarrow> string" where
  "version_name v = ''v'' @ Version_String v"

definition DistVersions ::
  "((Version \<Rightarrow> Version \<Rightarrow> bool) \<Rightarrow> Version list \<Rightarrow> Version list) \<Rightarrow> fetcher \<Rightarrow> string \<Rightarrow> bool \<Rightarrow> error + string list" where
  "DistVersions srt f dist sortDesc =
     bind_res (Fetch f (path_Join [dist, ''versions''])) (\<lambda>rc.
       case rc of
         None \<Rightarrow> Inl (Panic ''nil reader'')
       | Some r \<Rightarrow>
           (let (ls, e) = scan_lines r; vers = parse_versions ls in
            case e of
              Some e \<Rightarrow> Inl (Errorf (''could not read versions: '' @ error_msg e))
            | None \<Rightarrow> Inr (map version_name
                (if sortDesc then srt (\<lambda>a b. LT b a) vers else srt LT vers))))"

definition skip_version :: "bool \<Rightarrow> string \<Rightarrow> bool" where
  "skip_version stableOnly ver = ((stableOnly \<and> contains ''-rc'' ver) \<or> contains ''-dev'' ver)"

definition LatestDistVersion ::
  "((Version \<Rightarrow> Version \<Rightarrow> bool) \<Rightarrow> Version list \<Rightarrow> Version list) \<Rightarrow> fetcher \<Rightarrow> string \<Rightarrow> bool \<Rightarrow> error + string" where
  "LatestDistVersion srt f dist stableOnly =
     bind_res (DistVersions srt f dist False) (\<lambda>vs.
       case filter (\<lambda>ver. \<not> skip_version stableOnly ver) (rev vs) of
         ver # _ \<Rightarrow> Inr ver
       | [] \<Rightarrow> Inl (Errorf ''could not find a non dev version''))"

section \<open>Archives\<close>

text \<open>The archive formats: the entries of a tar stream and the error its reader ends with, and the
  entries of a zip file, each of which opens to a reader.\<close>

record arc_env =
  gunzip_tar :: "string \<Rightarrow> error + ((string \<times> reader) list \<times> error option)"
  unzip :: "string \<Rightarrow> error + (string \<times> (error + reader)) list"

definition writeToPath :: "os_env \<Rightarrow> reader \<Rightarrow> string \<Rightarrow> unit io" where
  "writeToPath env rc out =
     io_bind (io_wrap (''error creating output file '' @ out @ '': '') (os_Create env out)) (\<lambda>_.
       io_Copy env out rc)"

fun find_tar :: "string \<Rightarrow> (string \<times> reader) list \<times> error option \<Rightarrow> error + reader" where
  "find_tar lookFor ([], Some e) = Inl (Errorf (''cannot read archive: '' @ error_msg e))"
| "find_tar lookFor ([], None) = Inl (Errorf ''no binary found in archive'')"
| "find_tar lookFor ((n, r) # es, e) = (if n = lookFor then Inr r else find_tar lookFor (es, e))"

definition unpackTgz :: "os_env \<Rightarrow> arc_env \<Rightarrow> string \<Rightarrow> string \<Rightarrow> string \<Rightarrow> string \<Rightarrow> unit io" where
  "unpackTgz env arc arcPath root name out =
     io_bind (io_wrap ''cannot open archive file: '' (os_ReadFile env arcPath)) (\<lambda>d.
     io_bind (io_wrap ''error opening gzip reader: '' (io_lift (gunzip_tar arc d))) (\<lambda>es.
     io_bind (io_lift (find_tar (root @ ''/'' @ name) es)) (\<lambda>bin.
       writeToPath env bin out)))"

fun find_zip :: "string \<Rightarrow> (string \<times> (error + reader)) list \<Rightarrow> error + reader" where
  "find_zip lookFor [] = Inl (Errorf ''no binary found in archive'')"
| "find_zip lookFor ((n, r) # es) =
     (if n = lookFor then
        (case r of Inl e \<Rightarrow> Inl (Errorf (''error extracting binary from archive: '' @ error_msg e)) | Inr rc \<Rightarrow> Inr rc)
      else find_zip lookFor es)"

definition unpackZip :: "os_env \<Rightarrow> arc_env \<Rightarrow> string \<Rightarrow> string \<Rightarrow> string \<Rightarrow> string \<Rightarrow> unit io" where
  "unpackZip env arc arcPath root name out =
     io_bind (io_wrap ''error opening zip reader: '' (os_ReadFile env arcPath)) (\<lambda>d.
     io_bind (io_wrap ''error opening zip reader: '' (io_lift (unzip arc d))) (\<lambda>es.
     io_bind (io_lift (find_zip (root @ ''/'' @ name) es)) (\<lambda>bin.
       writeToPath env bin out)))"

definition unpackArchive :: "os_env \<Rightarrow> arc_env \<Rightarrow> string \<Rightarrow> string \<Rightarrow> string \<Rightarrow> string \<Rightarrow> string \<Rightarrow> unit io" where
  "unpackArchive env arc arcPath atype root name out =
     (if atype = ''tar.gz'' then unpackTgz env arc arcPath root name out
      else if atype = ''zip'' then unpackZip env arc arcPath root name out
      else io_fail (Errorf (''unrecognized archive type: '' @ atype)))"

section \<open>Downloading a binary\<close>

definition ExeName :: "os_env \<Rightarrow> string \<Rightarrow> string" where
  "ExeName env name = (if GOOS env = ''windows'' then name @ ''.exe'' else name)"

definition makeArchivePath :: "os_env \<Rightarrow> string \<Rightarrow> string \<Rightarrow> string \<Rightarrow> string \<Rightarrow> string \<times> string" where
  "makeArchivePath env dist name ver atype =
     (let arcName = name @ ''_'' @ ver @ ''_'' @ GOOS env @ ''-'' @ GOARCH env @ ''.'' @ atype
      in (dist @ ''/'' @ ver @ ''/'' @ arcName, arcName))"

definition osWithVariant :: "os_env \<Rightarrow> error + string \<Rightarrow> error + string" where
  "osWithVariant env ldd =
     (if GOOS env \<noteq> ''linux'' then Inr (GOOS env)
      else bind_res ldd (\<lambda>out.
        if list_ex (contains ''musl'') (fst (scan_lines (out, None))) then Inr ''linux-musl'' else Inr ''linux''))"

text \<open>The first half of \<open>FetchBinary\<close>: where the binary goes. Nothing that exists is accepted.\<close>

definition stat_absent :: "os_env \<Rightarrow> string \<Rightarrow> unit io" where
  "stat_absent env p =
     io_bind (io_try (os_Stat env p)) (\<lambda>r.
       case r of
         Inl e \<Rightarrow> if IsNotExist e then io_return () else io_fail e
       | Inr _ \<Rightarrow> io_fail (Exist p))"

definition binary_target :: "os_env \<Rightarrow> string \<Rightarrow> string \<Rightarrow> string io" where
  "binary_target env binName out =
     io_bind (io_try (os_Stat env out)) (\<lambda>r.
       case r of
         Inl e \<Rightarrow> if IsNotExist e then io_return out else io_fail e
       | Inr fi \<Rightarrow>
           if fi \<noteq> Dir then io_fail (Exist out)
           else io_bind (stat_absent env (path_Join [out, binName])) (\<lambda>_.
                  io_return (path_Join [out, binName])))"

text \<open>The second half, in the directory for the download: the archive is stored, unpacked to the
  target and the target made executable.\<close>

definition download_unpack ::
  "os_env \<Rightarrow> arc_env \<Rightarrow> fetcher \<Rightarrow> string \<Rightarrow> string \<Rightarrow> string \<Rightarrow> string \<Rightarrow> string \<Rightarrow> string io" where
  "download_unpack env arc f dist ver binName out tmpDir =
     (let atype = (if GOOS env = ''windows'' then ''zip'' else ''tar.gz'');
          (arcDistPath, arcFullName) = makeArchivePath env dist (path_Base dist) ver atype;
          arcPath = path_Join [tmpDir, arcFullName]
      in io_bind (os_Create env arcPath) (\<lambda>_.
         io_bind (io_lift (Fetch f arcDistPath)) (\<lambda>rc.
           case rc of
             None \<Rightarrow> io_fail (Panic ''nil reader'')
           | Some r \<Rightarrow>
               io_bind (io_Copy env arcPath r) (\<lambda>_.
               io_bind (unpackArchive env arc arcPath atype dist binName out) (\<lambda>_.
               io_bind (os_Chmod env out 493) (\<lambda>_. io_return out))))))"

definition FetchBinary ::
  "os_env \<Rightarrow> arc_env \<Rightarrow> string \<Rightarrow> fetcher \<Rightarrow> string \<Rightarrow> string \<Rightarrow> string \<Rightarrow> string \<Rightarrow> string io" where
  "FetchBinary env arc DownloadDirectory f dist ver binName out =
     (let arcName = path_Base dist;
          binName = ExeName env (if binName = [] then arcName else binName)
      in io_bind (binary_target env binName out) (\<lambda>out.
           if DownloadDirectory \<noteq> [] then
             io_bind (os_Stat env DownloadDirectory) (\<lambda>fi.
               if fi \<noteq> Dir then io_fail (Exist DownloadDirectory)
               else download_unpack env arc f dist ver binName out DownloadDirectory)
           else
             io_bind (os_TempDir env arcName) (\<lambda>tmpDir.
               io_defer (os_RemoveAll env tmpDir)
                 (download_unpack env arc f dist ver binName out tmpDir))))"

section \<open>The contract of a fetcher\<close>

locale fetcher_contract =
  fixes fetch :: "string \<Rightarrow> error + reader option"
  assumes success_reader: "fetch p = Inr rc \<Longrightarrow> \<exists>r. rc = Some r"
    and no_panic: "fetch p = Inl e \<Longrightarrow> \<not> is_panic e"
begin

lemma DistVersions_no_panic:
  assumes "Fetch f = fetch" "DistVersions srt f dist desc = Inl e"
  shows "\<not> is_panic e"
proof (cases "fetch (path_Join [dist, ''versions''])")
  case (Inl x)
  then show ?thesis using assms no_panic by (auto simp: DistVersions_def)
next
  case (Inr rc)
  then obtain r where "rc = Some r" using success_reader by blast
  then show ?thesis using assms Inr by (auto simp: DistVersions_def Let_def split: prod.splits option.splits)
qed

lemma LatestDistVersion_no_panic:
  "Fetch f = fetch \<Longrightarrow> LatestDistVersion srt f dist stableOnly = Inl e \<Longrightarrow> \<not> is_panic e"
  by (cases "DistVersions srt f dist False")
    (auto simp: LatestDistVersion_def DistVersions_no_panic split: list.splits)

end

text \<open>A contract for several fetchers, which gives the contract of the fetcher made of them.\<close>

locale fetchers_contract =
  fixes fetchers :: "fetcher list"
  assumes some_fetcher: "fetchers \<noteq> []"
    and each_contract: "f \<in> set fetchers \<Longrightarrow> fetcher_contract (Fetch f)"

lemma MultiFetcher_loop_Inr:
  "MultiFetcher_loop errs fs p = Inr rc \<Longrightarrow> errs \<noteq> None \<or> fs \<noteq> [] \<Longrightarrow>
     \<exists>f \<in> set fs. Fetch f p = Inr rc"
proof (induction fs arbitrary: errs)
  case (Cons f fs)
  show ?case
  proof (cases "Fetch f p")
    case (Inl e)
    then show ?thesis using Cons by (auto simp: multierror_Append_def)
  qed (use Cons in auto)
qed (auto split: option.splits)

lemma MultiFetcher_loop_Inl:
  "MultiFetcher_loop errs fs p = Inl e \<Longrightarrow> (\<And>x. errs = Some x \<Longrightarrow> \<not> is_panic x) \<Longrightarrow> \<not> is_panic e"
proof (induction fs arbitrary: errs)
  case (Cons f fs)
  show ?case
  proof (cases "Fetch f p")
    case (Inl x)
    then have "MultiFetcher_loop (multierror_Append errs x) fs p = Inl e" using Cons.prems by simp
    then show ?thesis by (rule Cons.IH) (auto simp: multierror_Append_def)
  qed (use Cons.prems in simp)
qed (auto split: option.splits)

sublocale fetchers_contract \<subseteq> multi: fetcher_contract "MultiFetcher_Fetch fetchers"
proof
  fix p rc
  assume "MultiFetcher_Fetch fetchers p = Inr rc"
  then obtain f where "f \<in> set fetchers" "Fetch f p = Inr rc"
    using MultiFetcher_loop_Inr some_fetcher unfolding MultiFetcher_Fetch_def by blast
  then show "\<exists>r. rc = Some r" using each_contract fetcher_contract.success_reader by blast
next
  fix p e
  assume "MultiFetcher_Fetch fetchers p = Inl e"
  then show "\<not> is_panic e" using MultiFetcher_loop_Inl unfolding MultiFetcher_Fetch_def by blast
qed

context fetchers_contract
begin

lemmas multi_contract = multi.fetcher_contract_axioms

end

interpretation http: fetcher_contract "HttpFetcher_Fetch net f" for net f
  by unfold_locales (auto simp: HttpFetcher_Fetch_def Let_def split: option.splits sum.splits if_splits)

interpretation http_multi: fetchers_contract "map (http_fetcher net) (f # fs)" for net f fs
proof (rule fetchers_contract.intro)
  fix g assume "g \<in> set (map (http_fetcher net) (f # fs))"
  then obtain h where "g = http_fetcher net h" by auto
  then have "Fetch g = HttpFetcher_Fetch net h" by (simp add: http_fetcher_def)
  then show "fetcher_contract (Fetch g)" by (metis http.fetcher_contract_axioms)
qed simp

text \<open>With no fetcher at all, \<open>MultiFetcher\<close> reports success with a nil reader.\<close>

lemma MultiFetcher_empty: "Fetch (NewMultiFetcher []) p = Inr None"
  by (simp add: NewMultiFetcher_def MultiFetcher_Fetch_def)

section \<open>The latest version\<close>

lemma set_parse_versions:
  "v \<in> set (parse_versions ls) \<longleftrightarrow> (\<exists>l \<in> set ls. Parse (trim_left ''v'' l) = Inr v)"
  by (induction ls) (auto simp: Make_def split: sum.splits)

lemma sorts_LT:
  assumes "sorts srt"
  shows "set (srt LT vs) = set vs" "sorted_wrt (\<lambda>x y. \<not> LT y x) (srt LT vs)"
proof -
  have "mset (srt LT vs) = mset vs \<and> sorted_wrt (\<lambda>x y. \<not> LT y x) (srt LT vs)"
    using assms [unfolded sorts_def, rule_format, of LT vs]
    by (auto simp: LT_key not_less dest: less_trans order_trans)
  then show "set (srt LT vs) = set vs" "sorted_wrt (\<lambda>x y. \<not> LT y x) (srt LT vs)"
    using mset_eq_setD by auto
qed

lemma DistVersions_read:
  "Fetch f (path_Join [dist, ''versions'']) = Inr (Some r) \<Longrightarrow> scan_lines r = (ls, None) \<Longrightarrow>
     DistVersions srt f dist False = Inr (map version_name (srt LT (parse_versions ls)))"
  by (simp add: DistVersions_def)

lemma DistVersions_Inr:
  assumes "DistVersions so f dist desc = Inr vs"
  shows "\<exists>r ls. Fetch f (path_Join [dist, ''versions'']) = Inr (Some r) \<and> scan_lines r = (ls, None)
    \<and> vs = map version_name (if desc then so (\<lambda>a b. LT b a) (parse_versions ls) else so LT (parse_versions ls))"
proof (cases "Fetch f (path_Join [dist, ''versions''])")
  case (Inr rc)
  show ?thesis
  proof (cases rc)
    case (Some r)
    obtain ls e where "scan_lines r = (ls, e)" by fastforce
    then show ?thesis using assms Inr Some by (cases e) (auto simp: DistVersions_def)
  qed (use assms Inr in \<open>simp add: DistVersions_def\<close>)
qed (use assms in \<open>simp add: DistVersions_def\<close>)

lemma filter_rev_latest:
  assumes "sorted_wrt (\<lambda>x y. \<not> LT y x) vs" "filter P (rev vs) = v # us"
  shows "v \<in> set vs" "P v" "u \<in> set vs \<Longrightarrow> P u \<Longrightarrow> \<not> LT v u"
proof -
  have "sorted_wrt (\<lambda>x y. \<not> LT x y) (rev vs)" using assms(1) by (simp add: sorted_wrt_rev)
  then have sorted: "sorted_wrt (\<lambda>x y. \<not> LT x y) (v # us)" by (metis assms(2) sorted_wrt_filter)
  have set: "set (v # us) = {u \<in> set vs. P u}" by (metis assms(2) set_filter set_rev)
  then show "v \<in> set vs" "P v" by auto
  show "\<not> LT v u" if "u \<in> set vs" "P u"
    using sorted set that by (cases "u = v") (auto simp: LT_key)
qed

text \<open>\<open>LatestDistVersion\<close>, when the list of versions could be read, returns the name of a listed
  version that is not a development version (nor a release candidate, if only stable versions are
  asked for) and such that no other admissible version of the list is newer; the name is the line
  of the list, up to leading \<^verbatim>\<open>v\<close>s. It fails only if no listed version is admissible.
\<close>

lemma LatestDistVersion_latest:
  assumes srt: "sorts srt"
    and fetch: "Fetch f (path_Join [dist, ''versions'']) = Inr (Some r)"
    and scan: "scan_lines r = (ls, None)"
  shows "case LatestDistVersion srt f dist stableOnly of
      Inr ver \<Rightarrow> \<exists>l \<in> set ls. \<exists>v. Parse (trim_left ''v'' l) = Inr v \<and> ver = ''v'' @ trim_left ''v'' l
        \<and> \<not> skip_version stableOnly ver
        \<and> (\<forall>u \<in> set (parse_versions ls). \<not> skip_version stableOnly (version_name u) \<longrightarrow> \<not> LT v u)
    | Inl e \<Rightarrow> \<forall>u \<in> set (parse_versions ls). skip_version stableOnly (version_name u)"
proof -
  define vs where "vs = srt LT (parse_versions ls)"
  define P where "P v = (\<not> skip_version stableOnly (version_name v))" for v
  have vs: "set vs = set (parse_versions ls)" "sorted_wrt (\<lambda>x y. \<not> LT y x) vs"
    using sorts_LT [OF srt] by (auto simp: vs_def)
  have filt: "filter (\<lambda>ver. \<not> skip_version stableOnly ver) (rev (map version_name vs))
      = map version_name (filter P (rev vs))"
    by (simp add: rev_map filter_map P_def [abs_def] comp_def)
  have res: "LatestDistVersion srt f dist stableOnly =
      (case map version_name (filter P (rev vs)) of ver # _ \<Rightarrow> Inr ver
       | [] \<Rightarrow> Inl (Errorf ''could not find a non dev version''))"
    using DistVersions_read [OF fetch scan] filt by (simp add: LatestDistVersion_def vs_def)
  show ?thesis
  proof (cases "filter P (rev vs)")
    case Nil
    then have "\<forall>u \<in> set vs. skip_version stableOnly (version_name u)"
      by (metis (mono_tags, lifting) P_def filter_empty_conv set_rev)
    then show ?thesis using res Nil vs(1) by simp
  next
    case (Cons v us)
    note latest = filter_rev_latest [OF vs(2) Cons]
    have "v \<in> set (parse_versions ls)" using latest(1) vs(1) by simp
    then obtain l where l: "l \<in> set ls" "Parse (trim_left ''v'' l) = Inr v"
      using set_parse_versions by blast
    have name: "version_name v = ''v'' @ trim_left ''v'' l"
      using Version_String_Parse [OF l(2)] by (simp add: version_name_def)
    have "\<not> LT v u" if "u \<in> set (parse_versions ls)" "\<not> skip_version stableOnly (version_name u)" for u
      using latest(3) vs(1) that by (simp add: P_def)
    then show ?thesis using res Cons l name latest(2) by (auto simp: P_def)
  qed
qed

text \<open>A site with the versions 1.0.0, 1.10.0, a development version 2.0.0 and 1.9.0.\<close>

definition sample_versions :: string where
  "sample_versions = join [CHR 0x0A] [''v1.0.0'', ''v1.10.0'', ''v2.0.0-dev'', ''v1.9.0'']"

definition sample_site :: fetcher where
  "sample_site = \<lparr>Fetch = (\<lambda>p. if p = ''dist/versions'' then Inr (Some (sample_versions, None))
      else Inl (Errorf ''404'')), Fetcher_Close = None\<rparr>"

lemma LatestDistVersion_latest_witness:
  "LatestDistVersion insertion_sort sample_site ''dist'' False = Inr ''v1.10.0'' \<and>
   \<not> LT \<lparr>Major = 1, Minor = 10, Patch = 0, Pre = [], Build = []\<rparr>
       \<lparr>Major = 1, Minor = 9, Patch = 0, Pre = [], Build = []\<rparr>"
proof -
  define vs where "vs = [''v1.0.0'', ''v1.10.0'', ''v2.0.0-dev'', ''v1.9.0'']"
  have lines: "split_on (CHR 0x0A) sample_versions = vs"
    unfolding vs_def by code_simp
  have fetch: "Fetch sample_site (path_Join [''dist'', ''versions'']) = Inr (Some (sample_versions, None))"
    by code_simp
  have scan: "scan_lines (sample_versions, None) = (vs, None)"
    unfolding scan_lines_def fst_conv lines by (simp add: vs_def drop_cr_def)
  have sorted: "filter (\<lambda>ver. \<not> skip_version False ver)
      (rev (map version_name (insertion_sort LT (parse_versions vs)))) = [''v1.10.0'', ''v1.9.0'', ''v1.0.0'']"
    unfolding vs_def by code_simp
  have res: "LatestDistVersion insertion_sort sample_site ''dist'' False = Inr ''v1.10.0''"
    using DistVersions_read [OF fetch scan, of insertion_sort] sorted
    by (simp add: LatestDistVersion_def)
  have parse: "Parse (trim_left ''v'' ''v1.10.0'') = Inr \<lparr>Major = 1, Minor = 10, Patch = 0, Pre = [], Build = []\<rparr>"
    by code_simp
  obtain l v where l: "l \<in> set vs" "Parse (trim_left ''v'' l) = Inr v" "''v1.10.0'' = ''v'' @ trim_left ''v'' l"
    "\<forall>u \<in> set (parse_versions vs). \<not> skip_version False (version_name u) \<longrightarrow> \<not> LT v u"
    using LatestDistVersion_latest [OF sorts_insertion_sort fetch scan, of False] unfolding res by auto
  have "trim_left ''v'' l = trim_left ''v'' ''v1.10.0''" using l(3) by (simp add: trim_left_def)
  then have "v = \<lparr>Major = 1, Minor = 10, Patch = 0, Pre = [], Build = []\<rparr>" using l(2) parse by simp
  moreover have "\<lparr>Major = 1, Minor = 9, Patch = 0, Pre = [], Build = []\<rparr> \<in> set (parse_versions vs)"
    "\<not> skip_version False (version_name \<lparr>Major = 1, Minor = 9, Patch = 0, Pre = [], Build = []\<rparr>)"
    unfolding vs_def by code_simp+
  ultimately show ?thesis using res l(4) by blast
qed

section \<open>What is downloaded\<close>

text \<open>The entry that an archive has under a name: the first one.\<close>

definition archive_binary :: "arc_env \<Rightarrow> string \<Rightarrow> string \<Rightarrow> string \<Rightarrow> error + reader" where
  "archive_binary arc atype lookFor d =
     (if atype = ''tar.gz'' then bind_res (gunzip_tar arc d) (find_tar lookFor)
      else bind_res (unzip arc d) (find_zip lookFor))"

definition archive_type :: "os_env \<Rightarrow> string" where
  "archive_type env = (if GOOS env = ''windows'' then ''zip'' else ''tar.gz'')"

lemma writeToPath_Inr:
  assumes "writeToPath env rc out w = (Inr u, w')"
  shows "snd rc = None \<and> (\<exists>m. w' = w\<lparr>files := (files w)(path_Clean out \<mapsto> File (fst rc) m)\<rparr>)"
proof -
  obtain v where v: "os_Create env out w = (Inr (), v)" "io_Copy env out rc v = (Inr (), w')"
    using assms by (auto simp: writeToPath_def)
  obtain m where m: "v = w\<lparr>files := (files w)(path_Clean out \<mapsto> File [] m)\<rparr>"
    using os_OpenTrunc_Inr v(1) unfolding os_Create_def by blast
  have "snd rc = None" "os_Write env out (fst rc) v = (Inr (), w')" using io_Copy_Inr v(2) by auto
  then show ?thesis using os_Write_Inr [of env out "fst rc" v "()" w' "[]" m] m by auto
qed

lemma unpackArchive_Inr:
  assumes "unpackArchive env arc arcPath (archive_type env) root name out w = (Inr u, w')"
    "files w (path_Clean arcPath) = Some (File d m)"
  shows "\<exists>data m'. archive_binary arc (archive_type env) (root @ ''/'' @ name) d = Inr (data, None)
    \<and> w' = w\<lparr>files := (files w)(path_Clean out \<mapsto> File data m')\<rparr>"
proof -
  have "\<exists>bin. archive_binary arc (archive_type env) (root @ ''/'' @ name) d = Inr bin
      \<and> writeToPath env bin out w = (Inr u, w')"
    using assms
    by (auto simp: unpackArchive_def unpackTgz_def unpackZip_def archive_binary_def archive_type_def
        split: if_splits)
  then obtain bin where "archive_binary arc (archive_type env) (root @ ''/'' @ name) d = Inr bin"
    "writeToPath env bin out w = (Inr u, w')" by blast
  then show ?thesis using writeToPath_Inr [of env bin out w u w'] by (cases bin) auto
qed

lemma os_Chmod_Inr:
  "os_Chmod env p m w = (Inr u, w') \<Longrightarrow> files w (path_Clean p) = Some (File d m') \<Longrightarrow>
     w' = w\<lparr>files := (files w)(path_Clean p \<mapsto> File d m)\<rparr>"
  by (auto simp: os_Chmod_def)

definition archive_path :: "os_env \<Rightarrow> string \<Rightarrow> string \<Rightarrow> string \<times> string" where
  "archive_path env dist ver = makeArchivePath env dist (path_Base dist) ver (archive_type env)"

lemma download_unpack_Inr:
  assumes run: "download_unpack env arc f dist ver binName out tmpDir w = (Inr loc, w')"
  shows "loc = out \<and> (\<exists>d data m. Fetch f (fst (archive_path env dist ver)) = Inr (Some (d, None))
      \<and> archive_binary arc (archive_type env) (dist @ ''/'' @ binName) d = Inr (data, None)
      \<and> w' = w\<lparr>files := (files w)(path_Join [tmpDir, snd (archive_path env dist ver)] \<mapsto> File d m,
                                  path_Clean out \<mapsto> File data 493)\<rparr>)"
proof -
  define arcPath where "arcPath = archive_path env dist ver"
  define K where "K = path_Join [tmpDir, snd arcPath]"
  have clean: "path_Clean K = K"
    by (simp add: K_def arcPath_def archive_path_def makeArchivePath_def Let_def)

  obtain r w1 w2 w3 where steps: "os_Create env K w = (Inr (), w1)" "Fetch f (fst arcPath) = Inr (Some r)"
    "io_Copy env K r w1 = (Inr (), w2)"
    "unpackArchive env arc K (archive_type env) dist binName out w2 = (Inr (), w3)"
    "os_Chmod env out 493 w3 = (Inr (), w')" "loc = out"
    using run unfolding download_unpack_def archive_type_def [symmetric] archive_path_def [symmetric]
      arcPath_def [symmetric] Let_def
    by (auto simp: K_def split: prod.splits option.splits)
  obtain m1 where m1: "w1 = w\<lparr>files := (files w)(K \<mapsto> File [] m1)\<rparr>"
    using os_OpenTrunc_Inr steps(1) clean unfolding os_Create_def by fastforce
  have r: "snd r = None" "os_Write env K (fst r) w1 = (Inr (), w2)" using io_Copy_Inr steps(3) by auto
  have w2: "w2 = w\<lparr>files := (files w)(K \<mapsto> File (fst r) m1)\<rparr>"
    using os_Write_Inr [OF r(2)] m1 clean by auto
  then obtain data m3 where data: "archive_binary arc (archive_type env) (dist @ ''/'' @ binName) (fst r) = Inr (data, None)"
    "w3 = w2\<lparr>files := (files w2)(path_Clean out \<mapsto> File data m3)\<rparr>"
    using unpackArchive_Inr [OF steps(4), of "fst r" m1] clean by auto
  have "w' = w\<lparr>files := (files w)(K \<mapsto> File (fst r) m1, path_Clean out \<mapsto> File data 493)\<rparr>"
    using os_Chmod_Inr [OF steps(5)] data(2) w2 by auto
  then show ?thesis using steps(2, 6) r(1) data(1) unfolding K_def arcPath_def by (cases r) auto
qed

lemma stat_try:
  "io_try (os_Stat env p) w = (Inr r, w') \<Longrightarrow>
     w' = w \<and> (\<forall>e. r = Inl e \<longrightarrow> IsNotExist e \<longrightarrow> files w (path_Clean p) = None)
     \<and> (\<forall>n. r = Inr n \<longrightarrow> files w (path_Clean p) = Some n)"
  by (auto simp: os_Stat_def io_bind_def fail_if_def io_fail_def io_return_def split: option.splits)

lemma stat_absent_Inr: "stat_absent env p w = (Inr u, w') \<Longrightarrow> w' = w \<and> files w (path_Clean p) = None"
  unfolding stat_absent_def io_bind_Inr
  by (elim exE conjE) (drule stat_try, auto split: sum.splits if_splits)

lemma binary_target_Inr:
  "binary_target env binName out w = (Inr loc, w') \<Longrightarrow>
     w' = w \<and> files w (path_Clean loc) = None \<and>
     (loc = out \<or> files w (path_Clean out) = Some Dir \<and> loc = path_Join [out, binName])"
  unfolding binary_target_def io_bind_Inr
  by (elim exE conjE) (drule stat_try, auto split: sum.splits if_splits dest: stat_absent_Inr)

lemma os_RemoveAll_files:
  "files (snd (os_RemoveAll env d w)) p = (if under d p \<and> fault env OpRemove d = None then None else files w p)"
  by (auto simp: os_RemoveAll_def split: option.splits)

text \<open>A successful \<open>FetchBinary\<close> (with the default of a temporary download directory) put at the
  returned path exactly the entry \<^verbatim>\<open><dist>/<binary>\<close> of the archive that the fetcher gave for the
  version and platform, complete and executable; there was no file at that path before, and
  outside the temporary directory nothing else changed.
\<close>

lemma FetchBinary_installs:
  assumes run: "FetchBinary env arc [] f dist ver binName out w = (Inr loc, w')"
    and plain: "plain_name (snd (archive_path env dist ver))"
    and apart: "\<not> under (temp_path env (path_Base dist) w) (path_Clean loc)"
  shows "files w (path_Clean loc) = None
    \<and> (\<exists>d data. Fetch f (fst (archive_path env dist ver)) = Inr (Some (d, None))
        \<and> archive_binary arc (archive_type env)
            (dist @ ''/'' @ ExeName env (if binName = [] then path_Base dist else binName)) d = Inr (data, None)
        \<and> files w' (path_Clean loc) = Some (File data 493))
    \<and> (\<forall>p. p \<noteq> path_Clean loc \<longrightarrow> \<not> under (temp_path env (path_Base dist) w) p \<longrightarrow> files w' p = files w p)"
proof -
  define arcPath where "arcPath = archive_path env dist ver"
  define tmp where "tmp = temp_path env (path_Base dist) w"
  define bn where "bn = ExeName env (if binName = [] then path_Base dist else binName)"
  obtain l t w1 v where t: "binary_target env bn out w = (Inr l, w)" "os_TempDir env (path_Base dist) w = (Inr t, w1)"
    "download_unpack env arc f dist ver bn l t w1 = (Inr loc, v)" "w' = snd (os_RemoveAll env t v)"
    using run binary_target_Inr [of env bn out w] by (auto simp: FetchBinary_def Let_def bn_def)
  have absent: "files w (path_Clean l) = None" using binary_target_Inr t(1) by blast
  have tmp: "t = tmp" "files w tmp = None" "w1 = w\<lparr>files := (files w)(tmp \<mapsto> Dir)\<rparr>" "CHR ''/'' \<notin> set (path_Base dist)"
    using os_TempDir_Inr t(2) by (auto simp: tmp_def)
  have loc: "loc = l" using t(3) by (auto simp: download_unpack_def Let_def split: prod.splits option.splits)
  have K: "under tmp (path_Join [tmp, snd arcPath])"
    using under_temp [OF tmp(4) plain] by (simp add: tmp_def arcPath_def)

  obtain d data m where d: "Fetch f (fst arcPath) = Inr (Some (d, None))"
    "archive_binary arc (archive_type env) (dist @ ''/'' @ bn) d = Inr (data, None)"
    "v = w1\<lparr>files := (files w1)(path_Join [tmp, snd arcPath] \<mapsto> File d m, path_Clean l \<mapsto> File data 493)\<rparr>"
    using download_unpack_Inr [OF t(3)] tmp(1) unfolding arcPath_def by blast
  have "files w' (path_Clean loc) = Some (File data 493)"
    using t(4) d(3) loc apart tmp(1) by (simp add: os_RemoveAll_files tmp_def)
  moreover have "files w' p = files w p" if "p \<noteq> path_Clean loc" "\<not> under tmp p" for p
    using t(4) d(3) loc tmp K that by (auto simp: os_RemoveAll_files under_def)
  ultimately show ?thesis using absent loc d(1, 2) unfolding bn_def arcPath_def tmp_def by blast
qed

text \<open>A Linux machine with a directory for programs, and a site whose archive holds one program.\<close>

definition sample_os :: os_env where
  "sample_os = \<lparr>GOOS = ''linux'', GOARCH = ''amd64'', Getenv = (\<lambda>_. []), fault = (\<lambda>_ _. None),
     temp_root = ''/tmp'', temp_num = (\<lambda>_ _. 7), homedir_Dir = Inr ''/home'', locked_by_other = (\<lambda>_. None),
     LookPath = (\<lambda>_. Inl (Errorf ''not found'')), exec = (\<lambda>_ _ fs. (None, fs))\<rparr>"

definition sample_world :: world where
  "sample_world = \<lparr>files = [''/tmp'' \<mapsto> Dir, ''/bin'' \<mapsto> Dir], ran = [], locks = [], open_ds = []\<rparr>"

definition sample_arc :: arc_env where
  "sample_arc = \<lparr>gunzip_tar = (\<lambda>d. if d = ''ARC'' then Inr ([(''m/readme'', (''text'', None)), (''m/m'', (''BIN'', None))], None)
       else Inl (Errorf ''gzip: invalid header'')), unzip = (\<lambda>_. Inl (Errorf ''zip: not a valid zip file''))\<rparr>"

definition sample_binaries :: fetcher where
  "sample_binaries = \<lparr>Fetch = (\<lambda>p. if p = ''m/v1.0.0/m_v1.0.0_linux-amd64.tar.gz'' then Inr (Some (''ARC'', None))
       else Inl (Errorf ''404'')), Fetcher_Close = None\<rparr>"

lemma FetchBinary_installs_witness:
  "fst (FetchBinary sample_os sample_arc [] sample_binaries ''m'' ''v1.0.0'' [] ''/bin'' sample_world) = Inr ''/bin/m''
   \<and> files sample_world ''/bin/m'' = None
   \<and> files (snd (FetchBinary sample_os sample_arc [] sample_binaries ''m'' ''v1.0.0'' [] ''/bin'' sample_world)) ''/bin/m''
       = Some (File ''BIN'' 493)"
proof -
  define res where "res = FetchBinary sample_os sample_arc [] sample_binaries ''m'' ''v1.0.0'' [] ''/bin'' sample_world"
  have run: "res = (Inr ''/bin/m'', snd res)" unfolding prod_eq_iff fst_conv snd_conv res_def
    by (intro conjI refl) code_simp
  have path: "archive_path sample_os ''m'' ''v1.0.0'' = (''m/v1.0.0/m_v1.0.0_linux-amd64.tar.gz'', ''m_v1.0.0_linux-amd64.tar.gz'')"
    by code_simp
  have plain: "plain_name (snd (archive_path sample_os ''m'' ''v1.0.0''))" unfolding path by code_simp
  have apart: "\<not> under (temp_path sample_os (path_Base ''m'') sample_world) (path_Clean ''/bin/m'')" by code_simp
  have clean: "path_Clean ''/bin/m'' = ''/bin/m''" by code_simp
  have bin: "archive_binary sample_arc (archive_type sample_os) (''m/'' @ ExeName sample_os (path_Base ''m'')) ''ARC'' = Inr (''BIN'', None)"
    by code_simp
  have "fst res = Inr ''/bin/m''" by (metis run fst_conv)
  moreover have "Fetch sample_binaries ''m/v1.0.0/m_v1.0.0_linux-amd64.tar.gz'' = Inr (Some (''ARC'', None))"
    by (simp add: sample_binaries_def)
  ultimately show ?thesis
    using FetchBinary_installs [OF run [unfolded res_def] plain apart] bin
    unfolding clean path res_def by auto
qed

end
