(* ===== verification/Migrations.thy ===== *)
theory Migrations
  imports Dist
begin

text \<open>
  Repository migrations, from \<^verbatim>\<open>repo/fsrepo/migrations/{ipfsdir,migrations}.go\<close>: where the repository
  is, which version it has, and how it is brought to another version by running one program per
  step of the version.

  The migration programs are not part of the sources. They are the \<open>exec\<close> of the environment, and
  what is assumed of them is named: \<open>programs_work\<close>, that a program which was installed or fetched
  under the name of a migration does that migration when it reports success. The concurrent
  downloads run one after the other, in any order (\<open>order\<close>); the context is a parameter.

  Shown here: a successful \<open>RunMigration\<close> leaves the repository at the target version; programs are
  run in the order of the versions, each with the right direction, and none before all of them are
  there; a version that is written is read back; the fetcher chosen from the configuration never
  hands out a nil reader.
\<close>

section \<open>The repository directory and its version\<close>

definition homedir_Expand :: "os_env \<Rightarrow> string \<Rightarrow> error + string" where
  "homedir_Expand env p =
     (case p of
        [] \<Rightarrow> Inr p
      | c # cs \<Rightarrow>
          if c \<noteq> CHR ''~'' then Inr p
          else if cs \<noteq> [] \<and> hd cs \<noteq> CHR ''/'' \<and> hd cs \<noteq> CHR 0x5C
            then Inl (Errorf ''cannot expand user-specific home dir'')
          else bind_res (homedir_Dir env) (\<lambda>dir. Inr (path_Join [dir, cs])))"

definition IpfsDir :: "os_env \<Rightarrow> string \<Rightarrow> error + string" where
  "IpfsDir env dir =
     (let dir = (if dir = [] then Getenv env ''IPFS_PATH'' else dir) in
      if dir \<noteq> [] then homedir_Expand env dir
      else bind_res (homedir_Dir env) (\<lambda>home.
        if home = [] then Inl (Errorf ''could not determine IPFS_PATH, home dir not set'')
        else Inr (path_Join [home, ''.ipfs''])))"

definition CheckIpfsDir :: "os_env \<Rightarrow> string \<Rightarrow> string io" where
  "CheckIpfsDir env dir =
     io_bind (io_lift (IpfsDir env dir)) (\<lambda>dir.
     io_bind (os_Stat env dir) (\<lambda>_. io_return dir))"

definition repoVersion :: "os_env \<Rightarrow> string \<Rightarrow> int io" where
  "repoVersion env ipfsDir =
     io_bind (os_ReadFile env (path_Join [ipfsDir, ''version''])) (\<lambda>c.
       case Atoi (trim_space c) of
         None \<Rightarrow> io_fail (Errorf ''invalid data in repo version file'')
       | Some ver \<Rightarrow> io_return ver)"

definition RepoVersion :: "os_env \<Rightarrow> string \<Rightarrow> int io" where
  "RepoVersion env ipfsDir = io_bind (CheckIpfsDir env ipfsDir) (repoVersion env)"

definition WriteRepoVersion :: "os_env \<Rightarrow> string \<Rightarrow> int \<Rightarrow> unit io" where
  "WriteRepoVersion env ipfsDir version =
     io_bind (io_lift (IpfsDir env ipfsDir)) (\<lambda>ipfsDir.
       os_WriteFile env (path_Join [ipfsDir, ''version'']) (show_int version @ [CHR 0x0A]) 420)"

definition NeedMigration :: "os_env \<Rightarrow> int \<Rightarrow> bool io" where
  "NeedMigration env target =
     io_bind (io_wrap ''could not get repo version: '' (RepoVersion env [])) (\<lambda>vnum.
       io_return (vnum \<noteq> target))"

section \<open>Finding and fetching the programs\<close>

definition migrationName :: "int \<Rightarrow> int \<Rightarrow> string" where
  "migrationName from to = ''fs-repo-'' @ show_int from @ ''-to-'' @ show_int to"

text \<open>A Go map as an association list with one entry per key.\<close>

definition map_put :: "'k \<Rightarrow> 'v \<Rightarrow> ('k \<times> 'v) list \<Rightarrow> ('k \<times> 'v) list" where
  "map_put k v m = (k, v) # filter (\<lambda>e. fst e \<noteq> k) m"

text \<open>The loop of \<open>findMigrations\<close>, which runs \<^verbatim>\<open>count\<close> times: from \<open>cur\<close> towards \<open>to\<close> by \<open>step\<close>. The
  context is asked once in every round.\<close>

fun find_loop ::
  "os_env \<Rightarrow> (nat \<Rightarrow> error option) \<Rightarrow> nat \<Rightarrow> int \<Rightarrow> int \<Rightarrow> int \<Rightarrow> string list \<Rightarrow> (string \<times> string) list
   \<Rightarrow> error + (string list \<times> (string \<times> string) list)" where
  "find_loop env ctx 0 cur to step migs bins = Inr (migs, bins)"
| "find_loop env ctx (Suc n) cur to step migs bins =
     (if cur = to then Inr (migs, bins)
      else case ctx n of
        Some e \<Rightarrow> Inl e
      | None \<Rightarrow>
          (let migName = (if step = -1 then migrationName (cur + step) cur else migrationName cur (cur + step))
           in find_loop env ctx n (cur + step) to step (migs @ [migName])
                (case LookPath env migName of Inl _ \<Rightarrow> bins | Inr bin \<Rightarrow> map_put migName bin bins)))"

definition findMigrations ::
  "os_env \<Rightarrow> (nat \<Rightarrow> error option) \<Rightarrow> int \<Rightarrow> int \<Rightarrow> error + (string list \<times> (string \<times> string) list)" where
  "findMigrations env ctx from to =
     (if from > to then find_loop env ctx (nat (from - to)) from to (-1) [] []
      else find_loop env ctx (nat (to - from)) from to 1 [] [])"

definition runMigration :: "os_env \<Rightarrow> string \<Rightarrow> string \<Rightarrow> bool \<Rightarrow> unit io" where
  "runMigration env binPath ipfsDir revert =
     os_Run env binPath
       (if revert then [''-path='' @ ipfsDir, ''-verbose=true'', ''-revert'']
        else [''-path='' @ ipfsDir, ''-verbose=true''])"

text \<open>What a download needs beside the operating system: the archive formats, the sort, the output of
  \<^verbatim>\<open>ldd\<close>, the configured download directory, the fetcher, and the error of the context after the
  downloads.\<close>

record fetch_env =
  arc :: arc_env
  srt :: "(Version \<Rightarrow> Version \<Rightarrow> bool) \<Rightarrow> Version list \<Rightarrow> Version list"
  ldd :: "error + string"
  DownloadDirectory :: string
  ctx_fetch :: "error option"
  order :: "nat \<Rightarrow> nat list"

text \<open>One download, the body of a goroutine.\<close>

definition fetch_one :: "os_env \<Rightarrow> fetch_env \<Rightarrow> fetcher \<Rightarrow> string \<Rightarrow> string \<Rightarrow> string io" where
  "fetch_one env fe f destDir name =
     (let dist = path_Join [[], name] in
      io_bind (io_lift (LatestDistVersion (srt fe) f dist False)) (\<lambda>ver.
        FetchBinary env (arc fe) (DownloadDirectory fe) f dist ver name destDir))"

fun fetch_all :: "os_env \<Rightarrow> fetch_env \<Rightarrow> fetcher \<Rightarrow> string \<Rightarrow> string list \<Rightarrow> nat list \<Rightarrow> string list \<Rightarrow> string list io" where
  "fetch_all env fe f destDir needed [] bins = io_return bins"
| "fetch_all env fe f destDir needed (i # is) bins =
     io_bind (io_try (fetch_one env fe f destDir (needed ! i))) (\<lambda>r.
       fetch_all env fe f destDir needed is (case r of Inl _ \<Rightarrow> bins | Inr loc \<Rightarrow> bins[i := loc]))"

definition fetchMigrations ::
  "os_env \<Rightarrow> fetch_env \<Rightarrow> fetcher \<Rightarrow> string list \<Rightarrow> string \<Rightarrow> string list io" where
  "fetchMigrations env fe f needed destDir =
     io_bind (io_lift (osWithVariant env (ldd fe))) (\<lambda>osv.
       if osv = ''linux-musl'' then
         io_fail (Errorf ''linux-musl not supported, you must build the binary from source for your platform'')
       else
         io_bind (fetch_all env fe f destDir needed (order fe (length needed)) (replicate (length needed) []))
           (\<lambda>bins.
              let fails = map fst (filter (\<lambda>e. snd e = []) (zip needed bins)) in
              if fails \<noteq> [] then
                (let msg = ''failed to download migrations: '' @ join '' '' fails in
                 io_fail (Errorf (case ctx_fetch fe of None \<Rightarrow> msg | Some e \<Rightarrow> error_msg e @ '', '' @ msg)))
              else io_return bins))"

section \<open>Running the migrations\<close>

definition map_get :: "(string \<times> string) list \<Rightarrow> string \<Rightarrow> string" where
  "map_get m k = (case map_of m k of Some p \<Rightarrow> p | None \<Rightarrow> [])"

fun run_migrations :: "os_env \<Rightarrow> string \<Rightarrow> bool \<Rightarrow> (string \<times> string) list \<Rightarrow> string list \<Rightarrow> unit io" where
  "run_migrations env ipfsDir revert binPaths [] = io_return ()"
| "run_migrations env ipfsDir revert binPaths (mig # migs) =
     io_bind (io_wrap (''migration '' @ mig @ '' failed: '') (runMigration env (map_get binPaths mig) ipfsDir revert))
       (\<lambda>_. run_migrations env ipfsDir revert binPaths migs)"

text \<open>The rest of \<open>RunMigration\<close> once the migrations and the installed programs are known. The
  temporary directory is removed at the end, after the programs have run.\<close>

definition RunMigration_found ::
  "os_env \<Rightarrow> fetch_env \<Rightarrow> fetcher \<Rightarrow> string \<Rightarrow> bool \<Rightarrow> string list \<Rightarrow> (string \<times> string) list \<Rightarrow> unit io" where
  "RunMigration_found env fe f ipfsDir revert migrations binPaths =
     (if length binPaths < length migrations then
        (let missing = filter (\<lambda>mig. map_of binPaths mig = None) migrations in
         io_bind (os_TempDir env ''migrations'') (\<lambda>tmpDir.
           io_defer (os_RemoveAll env tmpDir)
             (io_bind (fetchMigrations env fe f missing tmpDir) (\<lambda>fetched.
                run_migrations env ipfsDir revert
                  (fold (\<lambda>e m. map_put (fst e) (snd e) m) (zip missing fetched) binPaths) migrations))))
      else run_migrations env ipfsDir revert binPaths migrations)"

definition RunMigration ::
  "os_env \<Rightarrow> fetch_env \<Rightarrow> (nat \<Rightarrow> error option) \<Rightarrow> fetcher \<Rightarrow> int \<Rightarrow> string \<Rightarrow> bool \<Rightarrow> unit io" where
  "RunMigration env fe ctx f targetVer ipfsDir allowDowngrade =
     io_bind (CheckIpfsDir env ipfsDir) (\<lambda>ipfsDir.
     io_bind (io_wrap ''could not get repo version: '' (RepoVersion env ipfsDir)) (\<lambda>fromVer.
       if fromVer = targetVer then io_return ()
       else if fromVer > targetVer \<and> \<not> allowDowngrade then
         io_fail (Errorf (''downgrade not allowed from '' @ show_int fromVer @ '' to '' @ show_int targetVer))
       else
         io_bind (io_lift (findMigrations env ctx fromVer targetVer)) (\<lambda>(migrations, binPaths).
           RunMigration_found env fe f ipfsDir (fromVer > targetVer) migrations binPaths)))"

section \<open>Choosing a fetcher\<close>

record migration_config =
  DownloadSources :: "string list"
  Keep :: string

definition config_Filename :: "os_env \<Rightarrow> string \<Rightarrow> error + string" where
  "config_Filename env configroot =
     (if length configroot = 0 then
        bind_res (if length (Getenv env ''IPFS_PATH'') = 0 then homedir_Expand env ''~/.ipfs''
                  else Inr (Getenv env ''IPFS_PATH''))
          (\<lambda>dir. Inr (path_Join [dir, ''config'']))
      else Inr (path_Join [configroot, ''config'']))"

text \<open>\<open>decode\<close> is the JSON decoder for the \<^verbatim>\<open>Migration\<close> section.\<close>

definition ReadMigrationConfig ::
  "os_env \<Rightarrow> (string \<Rightarrow> error + migration_config) \<Rightarrow> string \<Rightarrow> migration_config io" where
  "ReadMigrationConfig env decode repoRoot =
     io_bind (io_lift (config_Filename env repoRoot)) (\<lambda>cfgPath.
     io_bind (os_ReadFile env cfgPath) (\<lambda>d.
     io_bind (io_lift (decode d)) (\<lambda>cfg.
     io_bind (if Keep cfg = [] then io_return (cfg\<lparr>Keep := ''cache''\<rparr>)
              else if Keep cfg = ''discard'' \<or> Keep cfg = ''cache'' \<or> Keep cfg = ''keep'' then io_return cfg
              else io_fail (Errorf (''unknown config value, Migrations.Keep must be 'cache', 'pin', or 'discard'' @ [CHR 0x27])))
       (\<lambda>cfg. io_return (if length (DownloadSources cfg) = 0
                          then cfg\<lparr>DownloadSources := [''HTTPS'', ''IPFS'']\<rparr> else cfg)))))"

text \<open>URLs as \<^verbatim>\<open>net/url\<close> parses and prints them.\<close>

record url =
  Scheme :: string
  url_rest :: string

record url_env =
  url_Parse :: "string \<Rightarrow> error + url"
  url_String :: "url \<Rightarrow> string"

text \<open>One round of the loop over the sources: the fetchers it adds.\<close>

definition source_fetcher ::
  "http_env \<Rightarrow> url_env \<Rightarrow> string \<Rightarrow> (string \<Rightarrow> fetcher) option \<Rightarrow> string \<Rightarrow> error + fetcher list" where
  "source_fetcher net ue dist newIpfsFetcher src0 =
     (let src = trim_space src0 in
      if src = ''HTTPS'' \<or> src = ''https'' \<or> src = ''HTTP'' \<or> src = ''http'' then
        Inr [http_fetcher net (NewHttpFetcher dist [] ''go-ipfs'' 0)]
      else if src = ''IPFS'' \<or> src = ''ipfs'' then
        Inr (case newIpfsFetcher of Some nf \<Rightarrow> [nf dist] | None \<Rightarrow> [])
      else if src = [] then Inr []
      else (case url_Parse ue src of
          Inl e \<Rightarrow> Inl (Errorf (''bad gateway address: '' @ error_msg e))
        | Inr u \<Rightarrow>
            if Scheme u = [] then
              Inr [http_fetcher net (NewHttpFetcher dist (url_String ue (u\<lparr>Scheme := ''https''\<rparr>)) ''go-ipfs'' 0)]
            else if Scheme u = ''https'' \<or> Scheme u = ''http'' then
              Inr [http_fetcher net (NewHttpFetcher dist (url_String ue u) ''go-ipfs'' 0)]
            else Inl (Errorf ''bad gateway address: url scheme must be http or https'')))"

fun source_fetchers ::
  "http_env \<Rightarrow> url_env \<Rightarrow> string \<Rightarrow> (string \<Rightarrow> fetcher) option \<Rightarrow> string list \<Rightarrow> error + fetcher list" where
  "source_fetchers net ue dist newIpfsFetcher [] = Inr []"
| "source_fetchers net ue dist newIpfsFetcher (src # srcs) =
     bind_res (source_fetcher net ue dist newIpfsFetcher src) (\<lambda>fs.
     bind_res (source_fetchers net ue dist newIpfsFetcher srcs) (\<lambda>gs. Inr (fs @ gs)))"

definition GetMigrationFetcher ::
  "http_env \<Rightarrow> url_env \<Rightarrow> string list \<Rightarrow> string \<Rightarrow> (string \<Rightarrow> fetcher) option \<Rightarrow> error + fetcher" where
  "GetMigrationFetcher net ue downloadSources dist newIpfsFetcher =
     bind_res (source_fetchers net ue dist newIpfsFetcher downloadSources) (\<lambda>fetchers.
       case fetchers of
         [] \<Rightarrow> Inl (Errorf ''no sources specified'')
       | [f] \<Rightarrow> Inr f
       | _ \<Rightarrow> Inr (NewMultiFetcher fetchers))"

section \<open>Round trip of the version\<close>

lemma trim_space_frame:
  assumes "s \<noteq> []" "\<And>c. c \<in> set s \<Longrightarrow> c \<notin> set space_chars" "set t \<subseteq> set space_chars"
  shows "trim_space (s @ t) = s"
proof -
  have "trim_left space_chars (s @ t) = s @ t" using assms(1, 2) by (cases s) (auto simp: trim_left_def)
  moreover have "dropWhile (\<lambda>x. x \<in> set space_chars) (rev s) = rev s"
    using assms(1, 2) by (cases s rule: rev_cases) auto
  moreover have "dropWhile (\<lambda>x. x \<in> set space_chars) (rev t @ rev s) = dropWhile (\<lambda>x. x \<in> set space_chars) (rev s)"
    using assms(3) by (intro dropWhile_append2) auto
  ultimately show ?thesis by (simp add: trim_space_def trim_right_def)
qed

lemma show_int_chars: "show_int i \<noteq> []" "c \<in> set (show_int i) \<Longrightarrow> c \<notin> set space_chars"
proof -
  show "show_int i \<noteq> []" by (simp add: show_int_def)
  assume "c \<in> set (show_int i)"
  then have "c = CHR ''-'' \<or> c \<in> set ''0123456789''"
    using show_nat_digits [of c] by (metis set_ConsD show_int_def)
  then show "c \<notin> set space_chars" by (auto simp: space_chars_def)
qed

lemma Atoi_version_line:
  "- (2 ^ 63) \<le> v \<Longrightarrow> v < 2 ^ 63 \<Longrightarrow> Atoi (trim_space (show_int v @ [CHR 0x0A])) = Some v"
  using trim_space_frame [of "show_int v" "[CHR 0x0A]"] show_int_chars Atoi_show_int
  by (simp add: space_chars_def)

text \<open>The version that the version file of a directory holds.\<close>

definition version_at :: "fs \<Rightarrow> string \<Rightarrow> int option" where
  "version_at fs dir =
     (case fs (path_Join [dir, ''version'']) of Some (File c m) \<Rightarrow> Atoi (trim_space c) | _ \<Rightarrow> None)"

lemma version_clean [simp]: "path_Clean (path_Join [dir, ''version'']) = path_Join [dir, ''version'']"
  by simp

lemma repoVersion_Inr: "repoVersion env dir w = (Inr v, w') \<Longrightarrow> w' = w \<and> version_at (files w) dir = Some v"
  by (auto simp: repoVersion_def version_at_def split: option.splits)

lemma repoVersion_eq:
  "version_at (files w) dir = Some v \<Longrightarrow> fault env OpRead (path_Join [dir, ''version'']) = None \<Longrightarrow>
     repoVersion env dir w = (Inr v, w)"
  by (auto simp: repoVersion_def version_at_def split: option.splits node.splits)

lemma CheckIpfsDir_Inr:
  "CheckIpfsDir env dir w = (Inr d, w') \<longleftrightarrow>
     w' = w \<and> IpfsDir env dir = Inr d \<and> fault env OpStat (path_Clean d) = None
     \<and> (\<exists>n. files w (path_Clean d) = Some n)"
  by (auto simp: CheckIpfsDir_def)

text \<open>The version that \<open>WriteRepoVersion\<close> stored, any number of 64 bits, is the one \<open>RepoVersion\<close>
  reports for the same directory, as long as the directory exists and the system lets it be read.
\<close>

lemma WriteRepoVersion_RepoVersion:
  assumes "IpfsDir env dir = Inr d" "files w (path_Clean d) = Some Dir"
    "WriteRepoVersion env dir v w = (Inr (), w')"
    "- (2 ^ 63) \<le> v" "v < 2 ^ 63"
    "fault env OpStat (path_Clean d) = None" "fault env OpRead (path_Join [d, ''version'']) = None"
  shows "RepoVersion env dir w' = (Inr v, w')"
proof -
  obtain m where w': "w' = w\<lparr>files := (files w)(path_Join [d, ''version''] \<mapsto> File (show_int v @ [CHR 0x0A]) m)\<rparr>"
    using assms(1, 3) os_WriteFile_Inr by (fastforce simp: WriteRepoVersion_def io_lift_def io_bind_def)
  have "CheckIpfsDir env dir w' = (Inr d, w')"
    using assms(1, 2, 6) w' by (auto simp: CheckIpfsDir_Inr)
  moreover have "version_at (files w') d = Some v"
    using w' Atoi_version_line assms(4, 5) by (simp add: version_at_def)
  ultimately show ?thesis
    using repoVersion_eq assms(7) by (simp add: RepoVersion_def)
qed

lemma WriteRepoVersion_RepoVersion_witness:
  "RepoVersion sample_os ''/bin''
     (snd (WriteRepoVersion sample_os ''/bin'' 12 sample_world)) =
   (Inr 12, snd (WriteRepoVersion sample_os ''/bin'' 12 sample_world))"
proof (rule WriteRepoVersion_RepoVersion [where d = "''/bin''" and w = sample_world])
  show "WriteRepoVersion sample_os ''/bin'' 12 sample_world = (Inr (), snd (WriteRepoVersion sample_os ''/bin'' 12 sample_world))"
    unfolding prod_eq_iff fst_conv snd_conv by (intro conjI refl) code_simp
qed (code_simp | simp)+

section \<open>Fetching leaves the repository alone\<close>

text \<open>Calls that do not touch a file that exists.\<close>

definition keeps :: "string \<Rightarrow> 'a io \<Rightarrow> bool" where
  "keeps K m = (\<forall>w n. files w K = Some n \<longrightarrow> files (snd (m w)) K = Some n)"

named_theorems keeps_intros \<open>calls that leave a file alone\<close>

lemma keepsD: "keeps K m \<Longrightarrow> m w = (r, w') \<Longrightarrow> files w K = Some n \<Longrightarrow> files w' K = Some n"
  by (metis keeps_def snd_conv)

lemma keeps_return [keeps_intros]: "keeps K (io_return a)"
  by (simp add: keeps_def io_return_def)

lemma keeps_fail [keeps_intros]: "keeps K (io_fail e)"
  by (simp add: keeps_def io_fail_def)

lemma keeps_lift [keeps_intros]: "keeps K (io_lift r)"
  by (simp add: keeps_def io_lift_def)

lemma keeps_fail_if [keeps_intros]: "keeps K (fail_if r)"
  by (auto simp: fail_if_def intro: keeps_intros split: option.splits)

lemma keeps_bind [keeps_intros]: "keeps K m \<Longrightarrow> (\<And>a. keeps K (f a)) \<Longrightarrow> keeps K (io_bind m f)"
proof (unfold keeps_def [of K "io_bind m f"], intro allI impI)
  fix w :: world and n
  assume m: "keeps K m" and f: "\<And>a. keeps K (f a)" and K: "files w K = Some n"
  obtain r v where v: "m w = (r, v)" by fastforce
  then have "files v K = Some n" using keepsD m K by blast
  then show "files (snd (io_bind m f w)) K = Some n"
    using v f by (cases r) (auto simp: io_bind_def keeps_def)
qed

lemma keeps_try [keeps_intros]: "keeps K m \<Longrightarrow> keeps K (io_try m)"
  by (auto simp: keeps_def io_try_def split: prod.splits) (metis snd_conv)

lemma keeps_wrap [keeps_intros]: "keeps K m \<Longrightarrow> keeps K (io_wrap s m)"
  by (auto simp: keeps_def io_wrap_def split: prod.splits sum.splits) (metis snd_conv)+

lemma keeps_defer [keeps_intros]: "keeps K d \<Longrightarrow> keeps K m \<Longrightarrow> keeps K (io_defer d m)"
  by (auto simp: keeps_def io_defer_def split: prod.splits) (metis snd_conv)

lemma keeps_Stat [keeps_intros]: "keeps K (os_Stat env p)"
  unfolding os_Stat_def by (intro keeps_bind keeps_fail_if) (auto simp: keeps_def split: option.splits)

lemma keeps_ReadFile [keeps_intros]: "keeps K (os_ReadFile env p)"
  unfolding os_ReadFile_def
  by (intro keeps_bind keeps_fail_if) (auto simp: keeps_def split: option.splits node.splits)

lemma keeps_Create [keeps_intros]: "path_Clean p \<noteq> K \<Longrightarrow> keeps K (os_Create env p)"
  unfolding os_OpenTrunc_def os_Create_def
  by (intro keeps_bind keeps_fail_if) (auto simp: keeps_def split: option.splits node.splits)

lemma keeps_Write [keeps_intros]: "path_Clean p \<noteq> K \<Longrightarrow> keeps K (os_Write env p d)"
  unfolding os_Write_def
  by (intro keeps_bind keeps_fail_if) (auto simp: keeps_def split: option.splits node.splits)

lemma keeps_Chmod [keeps_intros]: "path_Clean p \<noteq> K \<Longrightarrow> keeps K (os_Chmod env p m)"
  unfolding os_Chmod_def
  by (intro keeps_bind keeps_fail_if) (auto simp: keeps_def split: option.splits node.splits)

lemma keeps_Copy [keeps_intros]: "path_Clean p \<noteq> K \<Longrightarrow> keeps K (io_Copy env p r)"
  unfolding io_Copy_def by (intro keeps_intros) (auto intro: keeps_intros split: option.splits)

lemma keeps_TempDir [keeps_intros]: "keeps K (os_TempDir env pat)"
  by (auto simp: keeps_def os_TempDir_def Let_def split: option.splits)

lemma keeps_RemoveAll [keeps_intros]: "\<not> under d K \<Longrightarrow> keeps K (os_RemoveAll env d)"
  by (simp add: keeps_def os_RemoveAll_files)

lemma keeps_writeToPath [keeps_intros]: "path_Clean out \<noteq> K \<Longrightarrow> keeps K (writeToPath env rc out)"
  unfolding writeToPath_def by (intro keeps_intros) auto

lemma keeps_unpackArchive [keeps_intros]:
  "path_Clean out \<noteq> K \<Longrightarrow> keeps K (unpackArchive env ac arcPath atype root name out)"
  unfolding unpackArchive_def unpackTgz_def unpackZip_def by (auto intro!: keeps_intros)

text \<open>The files that no download may touch: outside every temporary directory and not named like an
  archive.\<close>

definition safe_file :: "os_env \<Rightarrow> string \<Rightarrow> bool" where
  "safe_file env K = ((\<forall>pat w. CHR ''/'' \<notin> set pat \<longrightarrow> \<not> under (temp_path env pat w) K)
     \<and> CHR ''_'' \<notin> set (path_Base K))"

lemma keeps_download_unpack:
  assumes plain: "plain_name (snd (archive_path env dist ver))" and K: "CHR ''_'' \<notin> set (path_Base K)"
    and out: "path_Clean out \<noteq> K"
  shows "keeps K (download_unpack env ac f dist ver binName out tmpDir)"
proof -
  define a where "a = snd (archive_path env dist ver)"
  have "path_Base (path_Join [tmpDir, a]) = a" using path_Base_Join plain by (simp add: a_def)
  moreover have "CHR ''_'' \<in> set a" by (simp add: a_def archive_path_def makeArchivePath_def Let_def)
  ultimately have "path_Join [tmpDir, a] \<noteq> K" using K by metis
  moreover have "a \<noteq> []" using plain by (auto simp: a_def plain_name_def)
  ultimately have neq: "path_Clean (path_Join [tmpDir, a]) \<noteq> K" by simp
  show ?thesis
    unfolding download_unpack_def archive_type_def [symmetric] archive_path_def [symmetric] Let_def
    using neq out by (auto simp: a_def intro!: keeps_intros split: prod.split option.split)
qed

lemma keeps_FetchBinary:
  assumes plain: "plain_name (snd (archive_path env dist ver))" and safe: "safe_file env K"
  shows "keeps K (FetchBinary env ac dd f dist ver binName out)"
proof (unfold keeps_def, intro allI impI)
  fix w :: world and n
  assume K: "files w K = Some n"
  have base: "CHR ''_'' \<notin> set (path_Base K)" using safe by (simp add: safe_file_def)
  define bn where "bn = ExeName env (if binName = [] then path_Base dist else binName)"
  define rest where "rest l = (if dd \<noteq> [] then io_bind (os_Stat env dd) (\<lambda>fi.
        if fi \<noteq> Dir then io_fail (Exist dd) else download_unpack env ac f dist ver bn l dd)
      else io_bind (os_TempDir env (path_Base dist)) (\<lambda>tmpDir.
        io_defer (os_RemoveAll env tmpDir) (download_unpack env ac f dist ver bn l tmpDir)))" for l
  have F: "FetchBinary env ac dd f dist ver binName out = io_bind (binary_target env bn out) rest"
    unfolding FetchBinary_def Let_def rest_def [abs_def] bn_def by (rule refl)
  show "files (snd (FetchBinary env ac dd f dist ver binName out w)) K = Some n"
  proof (cases "binary_target env bn out w")
    case (Pair r v)
    have "keeps K (binary_target env bn out)"
      unfolding binary_target_def stat_absent_def by (auto intro!: keeps_intros split: sum.split)
    then have v: "files v K = Some n" using Pair K unfolding keeps_def by (metis snd_conv)
    show ?thesis
    proof (cases r)
      case (Inr l)
      then have "v = w" "files w (path_Clean l) = None" using Pair binary_target_Inr by auto
      then have out: "path_Clean l \<noteq> K" using K by auto
      note dl = keeps_download_unpack [OF plain base out, of ac f bn]
      have "files (snd (rest l v)) K = Some n"
      proof (cases "dd = []")
        case True
        then have r: "rest l v = io_bind (os_TempDir env (path_Base dist)) (\<lambda>tmpDir.
            io_defer (os_RemoveAll env tmpDir) (download_unpack env ac f dist ver bn l tmpDir)) v"
          by (simp add: rest_def)
        obtain rt v2 where t: "os_TempDir env (path_Base dist) v = (rt, v2)" by fastforce
        have v2: "files v2 K = Some n" using keeps_TempDir t v unfolding keeps_def by (metis snd_conv)
        show ?thesis
        proof (cases rt)
          case (Inr tmp)
          then have "\<not> under tmp K" using os_TempDir_Inr t safe by (fastforce simp: safe_file_def)
          then have "keeps K (io_defer (os_RemoveAll env tmp) (download_unpack env ac f dist ver bn l tmp))"
            by (intro keeps_intros dl)
          then show ?thesis using Inr t v2 by (simp add: r io_bind_def keeps_def)
        qed (use t v2 in \<open>simp add: r io_bind_def\<close>)
      next
        case False
        have "keeps K (rest l)" unfolding rest_def using False dl by (auto intro!: keeps_intros)
        then show ?thesis using v by (simp add: keeps_def)
      qed
      then show ?thesis using Inr Pair by (simp add: F io_bind_def)
    qed (use Pair v in \<open>simp add: F io_bind_def\<close>)
  qed
qed

lemma LatestDistVersion_no_slash:
  assumes "sorts so" "LatestDistVersion so f dist stableOnly = Inr ver"
  shows "CHR ''/'' \<notin> set ver"
proof -
  obtain vs where vs: "DistVersions so f dist False = Inr vs" "ver \<in> set vs"
  proof -
    obtain vs where vs: "DistVersions so f dist False = Inr vs"
      and res: "(case filter (\<lambda>ver. \<not> skip_version stableOnly ver) (rev vs) of ver # _ \<Rightarrow> Inr ver
         | [] \<Rightarrow> Inl (Errorf ''could not find a non dev version'')) = Inr ver"
      using assms(2) unfolding LatestDistVersion_def bind_res_Inr by blast
    obtain us where "filter (\<lambda>ver. \<not> skip_version stableOnly ver) (rev vs) = ver # us"
      using res by (cases "filter (\<lambda>ver. \<not> skip_version stableOnly ver) (rev vs)") auto
    then have "ver \<in> set (filter (\<lambda>ver. \<not> skip_version stableOnly ver) (rev vs))" by simp
    then show thesis using that vs by simp
  qed
  then obtain v ls where v: "v \<in> set (so LT (parse_versions ls))" "ver = version_name v"
    using DistVersions_Inr [OF vs(1)] by auto
  then obtain l where "Parse l = Inr v" using sorts_LT(1) [OF assms(1)] set_parse_versions by blast
  then have "set ver \<subseteq> insert (CHR ''v'') (set alphanum \<union> {CHR ''.'', CHR ''-'', CHR ''+''})"
    using v(2) Version_String_chars [of v] Parse_iff by (auto simp: version_name_def)
  moreover have "CHR ''/'' \<notin> set alphanum" by (simp add: alphanum_def numbers_def)
  ultimately show ?thesis by auto
qed

lemma migrationName_plain: "plain_name (migrationName a b)"
proof -
  have "CHR ''/'' \<notin> set (show_int i)" for i
    using show_nat_digits [of "CHR ''/''"] by (auto simp: show_int_def)
  then show ?thesis by (simp add: plain_name_def migrationName_def)
qed

lemma plain_name_Base: "plain_name n \<Longrightarrow> path_Base n = n \<and> path_Join [[], n] = n"
  using path_Base_Join [of n "[]"] path_Join_name [of n "[]"] by (simp add: dir_parts_def)

definition platform_ok :: "os_env \<Rightarrow> bool" where
  "platform_ok env = (CHR ''/'' \<notin> set (GOOS env) \<and> CHR ''/'' \<notin> set (GOARCH env))"

lemma archive_path_plain:
  assumes "plain_name n" "platform_ok env" "CHR ''/'' \<notin> set ver"
  shows "plain_name (snd (archive_path env n ver))"
proof -
  define s where "s = snd (archive_path env n ver)"
  have "CHR ''_'' \<in> set s" "CHR ''/'' \<notin> set s"
    using assms plain_name_Base [OF assms(1)]
    by (auto simp: s_def archive_path_def makeArchivePath_def archive_type_def platform_ok_def plain_name_def Let_def)
  then show ?thesis unfolding s_def [symmetric] by (auto simp: plain_name_def)
qed

lemma keeps_fetch_one:
  assumes "sorts (srt fe)" "platform_ok env" "safe_file env K" "plain_name name"
  shows "keeps K (fetch_one env fe f destDir name)"
proof -
  have dist: "path_Join [[], name] = name" using plain_name_Base [OF assms(4)] by simp
  have "keeps K (io_bind (io_lift (LatestDistVersion (srt fe) f name False)) (\<lambda>ver.
        FetchBinary env (arc fe) (DownloadDirectory fe) f name ver name destDir))"
  proof (cases "LatestDistVersion (srt fe) f name False")
    case (Inl e)
    then show ?thesis by (simp add: keeps_def io_bind_def io_lift_def)
  next
    case (Inr ver)
    then have "CHR ''/'' \<notin> set ver" using LatestDistVersion_no_slash assms(1) by blast
    then have "keeps K (FetchBinary env (arc fe) (DownloadDirectory fe) f name ver name destDir)"
      using keeps_FetchBinary archive_path_plain assms by blast
    then show ?thesis using Inr by (simp add: keeps_def io_bind_def io_lift_def)
  qed
  then show ?thesis by (simp add: fetch_one_def dist)
qed

lemma keeps_fetch_all:
  assumes "\<And>i. i \<in> set is \<Longrightarrow> keeps K (fetch_one env fe f destDir (needed ! i))"
  shows "keeps K (fetch_all env fe f destDir needed is bins)"
  using assms
proof (induction "is" arbitrary: bins)
  case (Cons i "is")
  have "keeps K (fetch_all env fe f destDir needed is b)" for b by (rule Cons.IH) (use Cons.prems in simp)
  then show ?case using Cons.prems by (auto intro!: keeps_intros)
qed (auto intro: keeps_intros)

section \<open>The programs that are run\<close>

text \<open>A path at which a migration program was found or put.\<close>

definition provides :: "os_env \<Rightarrow> fetch_env \<Rightarrow> fetcher \<Rightarrow> string \<Rightarrow> string \<Rightarrow> bool" where
  "provides env fe f mig p =
     (LookPath env mig = Inr p \<or> (\<exists>dest v v'. fetch_one env fe f dest mig v = (Inr p, v')))"

definition mig_list :: "int \<Rightarrow> int \<Rightarrow> string list" where
  "mig_list from to =
     (if from > to then map (\<lambda>i. migrationName (from - int i - 1) (from - int i)) [0..<nat (from - to)]
      else map (\<lambda>i. migrationName (from + int i) (from + int i + 1)) [0..<nat (to - from)])"

definition bins_ok :: "os_env \<Rightarrow> string list \<Rightarrow> (string \<times> string) list \<Rightarrow> bool" where
  "bins_ok env migs bins =
     (distinct (map fst bins) \<and> (\<forall>(k, p) \<in> set bins. k \<in> set migs \<and> LookPath env k = Inr p))"

lemma bins_ok_put:
  "bins_ok env migs bins \<Longrightarrow> LookPath env m = Inr p \<Longrightarrow> bins_ok env (migs @ [m]) (map_put m p bins)"
  by (auto simp: bins_ok_def map_put_def distinct_map_filter)

lemma bins_ok_snoc: "bins_ok env migs bins \<Longrightarrow> bins_ok env (migs @ [m]) bins"
  by (auto simp: bins_ok_def)

lemma find_loop_up:
  "find_loop env ctx n cur to 1 migs bins = Inr (migs', bins') \<Longrightarrow> to = cur + int n \<Longrightarrow> bins_ok env migs bins \<Longrightarrow>
     migs' = migs @ map (\<lambda>i. migrationName (cur + int i) (cur + int i + 1)) [0..<n] \<and> bins_ok env migs' bins'"
proof (induction n arbitrary: cur migs bins)
  case (Suc n)
  define m where "m = migrationName cur (cur + 1)"
  define b where "b = (case LookPath env m of Inl _ \<Rightarrow> bins | Inr bin \<Rightarrow> map_put m bin bins)"
  have step: "find_loop env ctx n (cur + 1) to 1 (migs @ [m]) b = Inr (migs', bins')"
    using Suc.prems(1, 2) unfolding b_def m_def by (auto simp: Let_def split: option.splits)
  have "bins_ok env (migs @ [m]) b"
    using Suc.prems(3) bins_ok_put bins_ok_snoc by (auto simp: b_def split: sum.splits)
  from Suc.IH [OF step _ this] Suc.prems(2)
  show ?case by (auto simp: m_def map_upt_Suc algebra_simps simp del: upt_Suc)
qed simp

lemma find_loop_down:
  "find_loop env ctx n cur to (-1) migs bins = Inr (migs', bins') \<Longrightarrow> to = cur - int n \<Longrightarrow> bins_ok env migs bins \<Longrightarrow>
     migs' = migs @ map (\<lambda>i. migrationName (cur - int i - 1) (cur - int i)) [0..<n] \<and> bins_ok env migs' bins'"
proof (induction n arbitrary: cur migs bins)
  case (Suc n)
  define m where "m = migrationName (cur - 1) cur"
  define b where "b = (case LookPath env m of Inl _ \<Rightarrow> bins | Inr bin \<Rightarrow> map_put m bin bins)"
  have step: "find_loop env ctx n (cur - 1) to (-1) (migs @ [m]) b = Inr (migs', bins')"
    using Suc.prems(1, 2) unfolding b_def m_def by (auto simp: Let_def split: option.splits)
  have "bins_ok env (migs @ [m]) b"
    using Suc.prems(3) bins_ok_put bins_ok_snoc by (auto simp: b_def split: sum.splits)
  from Suc.IH [OF step _ this] Suc.prems(2)
  show ?case by (auto simp: m_def map_upt_Suc algebra_simps simp del: upt_Suc)
qed simp

lemma findMigrations_Inr:
  assumes "findMigrations env ctx a b = Inr (migs, bins)"
  shows "migs = mig_list a b \<and> bins_ok env migs bins"
proof (cases "a > b")
  case True
  then show ?thesis
    using assms find_loop_down [of env ctx "nat (a - b)" a b "[]" "[]" migs bins]
    by (auto simp: findMigrations_def mig_list_def bins_ok_def)
next
  case False
  then show ?thesis
    using assms find_loop_up [of env ctx "nat (b - a)" a b "[]" "[]" migs bins]
    by (auto simp: findMigrations_def mig_list_def bins_ok_def)
qed

subsection \<open>Every program is there before the first one is run\<close>

definition all_provided :: "os_env \<Rightarrow> fetch_env \<Rightarrow> fetcher \<Rightarrow> string list \<Rightarrow> (string \<times> string) list \<Rightarrow> bool" where
  "all_provided env fe f migs bins = (\<forall>mig \<in> set migs. provides env fe f mig (map_get bins mig))"

lemma bins_ok_full:
  assumes ok: "bins_ok env migs bins" and len: "\<not> length bins < length migs"
  shows "all_provided env fe f migs bins"
proof -
  have sub: "set (map fst bins) \<subseteq> set migs" using ok by (auto simp: bins_ok_def)
  have "card (set migs) \<le> length migs" by (rule card_length)
  also have "\<dots> \<le> card (set (map fst bins))"
    using distinct_card [of "map fst bins"] ok len by (simp add: bins_ok_def)
  finally have keys: "set (map fst bins) = set migs" using sub by (simp add: card_subset_eq card_mono dual_order.antisym)
  show ?thesis
  proof (unfold all_provided_def, intro ballI)
    fix mig assume "mig \<in> set migs"
    then obtain p where "map_of bins mig = Some p"
      using keys by (metis list.set_map not_None_eq map_of_eq_None_iff)
    then show "provides env fe f mig (map_get bins mig)"
      using ok map_of_SomeD by (fastforce simp: provides_def map_get_def bins_ok_def)
  qed
qed

lemma fetch_all_bins:
  "fetch_all env fe f destDir needed is bins w = (Inr out, w') \<Longrightarrow> length bins = length needed \<Longrightarrow>
     (\<And>i. i < length needed \<Longrightarrow> bins ! i \<noteq> [] \<Longrightarrow> provides env fe f (needed ! i) (bins ! i)) \<Longrightarrow>
     length out = length needed \<and>
     (\<forall>i < length needed. out ! i \<noteq> [] \<longrightarrow> provides env fe f (needed ! i) (out ! i))"
proof (induction "is" arbitrary: bins w)
  case (Cons j "is")
  obtain r v where r: "fetch_one env fe f destDir (needed ! j) w = (r, v)"
    "fetch_all env fe f destDir needed is (case r of Inl _ \<Rightarrow> bins | Inr loc \<Rightarrow> bins[j := loc]) v = (Inr out, w')"
    using Cons.prems(1) by auto
  show ?case
  proof (rule Cons.IH [OF r(2)])
    show "length (case r of Inl _ \<Rightarrow> bins | Inr loc \<Rightarrow> bins[j := loc]) = length needed"
      using Cons.prems(2) by (auto split: sum.splits)
    fix i assume "i < length needed" "(case r of Inl _ \<Rightarrow> bins | Inr loc \<Rightarrow> bins[j := loc]) ! i \<noteq> []"
    then show "provides env fe f (needed ! i) ((case r of Inl _ \<Rightarrow> bins | Inr loc \<Rightarrow> bins[j := loc]) ! i)"
      using Cons.prems(2, 3) r(1)
      by (cases "i = j"; cases r) (auto simp: provides_def)
  qed
qed auto

lemma fetchMigrations_Inr:
  assumes "fetchMigrations env fe f needed destDir w = (Inr out, w')"
  shows "length out = length needed" "i < length needed \<Longrightarrow> provides env fe f (needed ! i) (out ! i)"
proof -
  have run: "fetch_all env fe f destDir needed (order fe (length needed)) (replicate (length needed) []) w = (Inr out, w')"
    and full: "filter (\<lambda>e. snd e = []) (zip needed out) = []"
    using assms by (auto simp: fetchMigrations_def Let_def split: if_splits)
  note bins = fetch_all_bins [OF run]
  show len: "length out = length needed" using bins by simp
  show "provides env fe f (needed ! i) (out ! i)" if i: "i < length needed"
  proof -
    have "(needed ! i, out ! i) \<in> set (zip needed out)" using i len by (simp add: in_set_zip) blast
    then have "out ! i \<noteq> []" using full by (fastforce simp: filter_empty_conv)
    then show ?thesis using bins i by simp
  qed
qed

lemma map_of_put: "map_of (map_put k v m) k' = (if k' = k then Some v else map_of m k')"
  by (induction m) (auto simp: map_put_def)

lemma map_of_put_all:
  assumes "length ks = length vs" "map_of (fold (\<lambda>e m. map_put (fst e) (snd e) m) (zip ks vs) m) k = Some v"
  shows "map_of m k = Some v \<or> (\<exists>i < length ks. ks ! i = k \<and> vs ! i = v)"
  using assms
proof (induction ks vs arbitrary: m rule: list_induct2)
  case (Cons x xs y ys)
  then have "map_of (map_put x y m) k = Some v \<or> (\<exists>i < length xs. xs ! i = k \<and> ys ! i = v)" by simp
  then show ?case
  proof
    assume "map_of (map_put x y m) k = Some v"
    then show ?thesis by (auto simp: map_of_put split: if_splits)
  next
    assume "\<exists>i < length xs. xs ! i = k \<and> ys ! i = v"
    then obtain i where "i < length xs" "xs ! i = k" "ys ! i = v" by blast
    then show ?thesis by (intro disjI2 exI [of _ "Suc i"]) simp
  qed
qed simp

lemma map_of_put_all_None:
  "length ks = length vs \<Longrightarrow> map_of (fold (\<lambda>e m. map_put (fst e) (snd e) m) (zip ks vs) m) k = None \<longleftrightarrow>
     map_of m k = None \<and> k \<notin> set ks"
  by (induction ks vs arbitrary: m rule: list_induct2) (auto simp: map_of_put)

lemma fetched_provided:
  assumes ok: "bins_ok env migs bins"
    and fetch: "fetchMigrations env fe f (filter (\<lambda>mig. map_of bins mig = None) migs) tmp w = (Inr fetched, w')"
  shows "all_provided env fe f migs (fold (\<lambda>e m. map_put (fst e) (snd e) m)
      (zip (filter (\<lambda>mig. map_of bins mig = None) migs) fetched) bins)"
proof (unfold all_provided_def, intro ballI)
  fix mig assume mig: "mig \<in> set migs"
  define missing where "missing = filter (\<lambda>mig. map_of bins mig = None) migs"
  define all where "all = fold (\<lambda>e m. map_put (fst e) (snd e) m) (zip missing fetched) bins"
  note got = fetchMigrations_Inr [OF fetch, folded missing_def]
  obtain p where p: "map_of all mig = Some p"
    using map_of_put_all_None [of missing fetched bins mig] got(1) mig
    by (fastforce simp: all_def missing_def)
  then consider "map_of bins mig = Some p" | i where "i < length missing" "missing ! i = mig" "fetched ! i = p"
    using map_of_put_all [of missing fetched bins mig p] got(1) unfolding all_def by auto
  then have "provides env fe f mig p"
  proof cases
    case 1
    then show ?thesis using ok map_of_SomeD by (fastforce simp: provides_def bins_ok_def)
  next
    case 2
    then show ?thesis using got(2) by metis
  qed
  then show "provides env fe f mig (map_get (fold (\<lambda>e m. map_put (fst e) (snd e) m)
      (zip (filter (\<lambda>mig. map_of bins mig = None) migs) fetched) bins) mig)"
    using p by (simp add: map_get_def all_def missing_def)
qed

subsection \<open>The runs\<close>

definition mig_args :: "string \<Rightarrow> bool \<Rightarrow> string list" where
  "mig_args ipfsDir revert =
     (if revert then [''-path='' @ ipfsDir, ''-verbose=true'', ''-revert'']
      else [''-path='' @ ipfsDir, ''-verbose=true''])"

lemma runMigration_eq: "runMigration env bin dir revert = os_Run env bin (mig_args dir revert)"
  by (simp add: runMigration_def mig_args_def)

lemma os_Run_ran: "os_Run env bin args w = (r, w') \<Longrightarrow> ran w' = ran w @ [(bin, args)]"
  by (auto simp: os_Run_def Let_def split: prod.splits option.splits)

lemma run_migrations_ran:
  "run_migrations env dir revert bins migs w = (r, w') \<Longrightarrow>
     \<exists>k \<le> length migs. ran w' = ran w @ map (\<lambda>mig. (map_get bins mig, mig_args dir revert)) (take k migs)
       \<and> (\<forall>u. r = Inr u \<longrightarrow> k = length migs)"
proof (induction migs arbitrary: w)
  case Nil
  then show ?case by (auto simp: io_return_def)
next
  case (Cons mig migs)
  obtain r1 v where r1: "os_Run env (map_get bins mig) (mig_args dir revert) w = (r1, v)" by fastforce
  then have ran: "ran v = ran w @ [(map_get bins mig, mig_args dir revert)]" by (rule os_Run_ran)
  show ?case
  proof (cases r1)
    case (Inl e)
    then have "w' = v" "\<And>u. r \<noteq> Inr u"
      using Cons.prems r1 by (auto simp: runMigration_eq io_bind_def io_wrap_def)
    then show ?thesis using ran by (intro exI [of _ 1]) auto
  next
    case (Inr u)
    then have "run_migrations env dir revert bins migs v = (r, w')"
      using Cons.prems r1 by (simp add: runMigration_eq io_bind_def io_wrap_def)
    then obtain k where "k \<le> length migs" "\<forall>u. r = Inr u \<longrightarrow> k = length migs"
      "ran w' = ran v @ map (\<lambda>mig. (map_get bins mig, mig_args dir revert)) (take k migs)"
      using Cons.IH by blast
    then show ?thesis using ran by (intro exI [of _ "Suc k"]) simp
  qed
qed

lemma silent_FetchBinary [silent_intros]: "silent (FetchBinary env ac dd f dist ver binName out)"
  unfolding FetchBinary_def binary_target_def stat_absent_def download_unpack_def unpackArchive_def
    unpackTgz_def unpackZip_def writeToPath_def Let_def
  by (auto intro!: silent_intros split: sum.split option.split prod.split)

lemma silent_fetch_all [silent_intros]: "silent (fetch_all env fe f destDir needed is bins)"
  by (induction "is" arbitrary: bins) (auto simp: fetch_one_def Let_def intro!: silent_intros)

lemma silent_fetchMigrations [silent_intros]: "silent (fetchMigrations env fe f needed destDir)"
  unfolding fetchMigrations_def Let_def by (auto intro!: silent_intros)

lemma RunMigration_found_ran:
  assumes ok: "bins_ok env migs bins"
    and run: "RunMigration_found env fe f dir revert migs bins w = (r, w')"
  shows "ran w' = ran w \<and> (\<exists>e. r = Inl e) \<or>
    (\<exists>all. all_provided env fe f migs all \<and>
      (\<exists>k \<le> length migs. ran w' = ran w @ map (\<lambda>mig. (map_get all mig, mig_args dir revert)) (take k migs)
        \<and> (\<forall>u. r = Inr u \<longrightarrow> k = length migs)))"
proof (cases "length bins < length migs")
  case False
  then have "run_migrations env dir revert bins migs w = (r, w')" using run by (simp add: RunMigration_found_def)
  then show ?thesis using bins_ok_full [OF ok False] run_migrations_ran by blast
next
  case True
  define missing where "missing = filter (\<lambda>mig. map_of bins mig = None) migs"
  obtain rt v where t: "os_TempDir env ''migrations'' w = (rt, v)" by fastforce
  then have v: "ran v = ran w" by (rule silentD(1) [OF silent_TempDir])
  show ?thesis
  proof (cases rt)
    case (Inl e)
    then show ?thesis using run t v True by (auto simp: RunMigration_found_def io_bind_def Let_def)
  next
    case (Inr tmp)
    obtain rf u where f: "fetchMigrations env fe f missing tmp v = (rf, u)" by fastforce
    then have u: "ran u = ran w" using silentD(1) [OF silent_fetchMigrations] v by metis
    have rm: "ran (snd (os_RemoveAll env tmp x)) = ran x" for x using silentD(1) [OF silent_RemoveAll] by (metis prod.collapse)
    show ?thesis
    proof (cases rf)
      case (Inl e)
      then have "r = Inl e" "w' = snd (os_RemoveAll env tmp u)"
        using run t f Inr True by (auto simp: RunMigration_found_def io_bind_def io_defer_def missing_def Let_def)
      then show ?thesis using u rm by simp
    next
      case (Inr fetched)
      define all where "all = fold (\<lambda>e m. map_put (fst e) (snd e) m) (zip missing fetched) bins"
      obtain x where x: "run_migrations env dir revert all migs u = (r, x)" "w' = snd (os_RemoveAll env tmp x)"
        using run t f Inr \<open>rt = Inr tmp\<close> True
        by (auto simp: RunMigration_found_def io_bind_def io_defer_def missing_def all_def Let_def split: prod.splits)
      have prov: "all_provided env fe f migs all"
        using fetched_provided [OF ok] f Inr unfolding all_def missing_def by blast
      have "ran w' = ran x" using rm x(2) by simp
      then show ?thesis using run_migrations_ran [OF x(1)] prov unfolding u by metis
    qed
  qed
qed

subsection \<open>The version after the runs\<close>

text \<open>What is relied on of the migration programs: one that was found or fetched as \<^verbatim>\<open>fs-repo-a-to-b\<close> and
  reports success has taken the repository from version \<open>a\<close> to \<open>b\<close>, or back with \<^verbatim>\<open>-revert\<close>.\<close>

definition programs_work :: "os_env \<Rightarrow> fetch_env \<Rightarrow> fetcher \<Rightarrow> bool" where
  "programs_work env fe f =
     (\<forall>a p d fs fs'. provides env fe f (migrationName a (a + 1)) p \<longrightarrow>
        (exec env p (mig_args d False) fs = (None, fs') \<longrightarrow> version_at fs d = Some a \<longrightarrow> version_at fs' d = Some (a + 1))
        \<and> (exec env p (mig_args d True) fs = (None, fs') \<longrightarrow> version_at fs d = Some (a + 1) \<longrightarrow> version_at fs' d = Some a))"

text \<open>Each download is run once.\<close>

definition schedule_ok :: "fetch_env \<Rightarrow> bool" where
  "schedule_ok fe = (\<forall>n. distinct (order fe n) \<and> set (order fe n) = {..<n})"

lemma os_Run_Inr: "os_Run env bin args w = (Inr u, w') \<Longrightarrow> exec env bin args (files w) = (None, files w')"
  by (auto simp: os_Run_def Let_def split: prod.splits option.splits)

lemma run_up:
  "run_migrations env d False bins (map (\<lambda>i. migrationName (a + int i) (a + int i + 1)) [0..<n]) w = (Inr u, w') \<Longrightarrow>
     all_provided env fe f (map (\<lambda>i. migrationName (a + int i) (a + int i + 1)) [0..<n]) bins \<Longrightarrow>
     programs_work env fe f \<Longrightarrow> version_at (files w) d = Some a \<Longrightarrow> version_at (files w') d = Some (a + int n)"
proof (induction n arbitrary: a w)
  case (Suc n)
  define m where "m = migrationName a (a + 1)"
  have list: "map (\<lambda>i. migrationName (a + int i) (a + int i + 1)) [0..<Suc n]
      = m # map (\<lambda>i. migrationName (a + 1 + int i) (a + 1 + int i + 1)) [0..<n]"
    by (simp add: m_def map_upt_Suc algebra_simps del: upt_Suc)
  obtain v where v: "os_Run env (map_get bins m) (mig_args d False) w = (Inr (), v)"
    "run_migrations env d False bins (map (\<lambda>i. migrationName (a + 1 + int i) (a + 1 + int i + 1)) [0..<n]) v = (Inr u, w')"
    using Suc.prems(1) unfolding list by (auto simp: runMigration_eq)
  have "version_at (files v) d = Some (a + 1)"
    using os_Run_Inr [OF v(1)] Suc.prems(2-4) unfolding list all_provided_def programs_work_def m_def
    by (meson list.set_intros(1))
  from Suc.IH [OF v(2) _ Suc.prems(3) this] Suc.prems(2)
  show ?case unfolding list by (simp add: all_provided_def algebra_simps)
qed simp

lemma run_down:
  "run_migrations env d True bins (map (\<lambda>i. migrationName (a - int i - 1) (a - int i)) [0..<n]) w = (Inr u, w') \<Longrightarrow>
     all_provided env fe f (map (\<lambda>i. migrationName (a - int i - 1) (a - int i)) [0..<n]) bins \<Longrightarrow>
     programs_work env fe f \<Longrightarrow> version_at (files w) d = Some a \<Longrightarrow> version_at (files w') d = Some (a - int n)"
proof (induction n arbitrary: a w)
  case (Suc n)
  define m where "m = migrationName (a - 1) (a - 1 + 1)"
  have list: "map (\<lambda>i. migrationName (a - int i - 1) (a - int i)) [0..<Suc n]
      = m # map (\<lambda>i. migrationName (a - 1 - int i - 1) (a - 1 - int i)) [0..<n]"
    by (simp add: m_def map_upt_Suc algebra_simps del: upt_Suc)
  obtain v where v: "os_Run env (map_get bins m) (mig_args d True) w = (Inr (), v)"
    "run_migrations env d True bins (map (\<lambda>i. migrationName (a - 1 - int i - 1) (a - 1 - int i)) [0..<n]) v = (Inr u, w')"
    using Suc.prems(1) unfolding list by (auto simp: runMigration_eq)
  have "provides env fe f m (map_get bins m)" using Suc.prems(2) unfolding list by (simp add: all_provided_def)
  then have "version_at (files v) d = Some (a - 1)"
    using os_Run_Inr [OF v(1)] Suc.prems(3, 4) unfolding programs_work_def m_def
    by (metis diff_add_cancel)
  from Suc.IH [OF v(2) _ Suc.prems(3) this] Suc.prems(2)
  show ?case unfolding list by (simp add: all_provided_def algebra_simps)
qed simp

lemma run_mig_list:
  assumes "run_migrations env d (a > b) bins (mig_list a b) w = (Inr u, w')"
    "all_provided env fe f (mig_list a b) bins" "programs_work env fe f" "version_at (files w) d = Some a"
  shows "version_at (files w') d = Some b"
proof (cases "a > b")
  case True
  then show ?thesis using assms run_down [of env d bins a "nat (a - b)" w u w' fe f] by (simp add: mig_list_def)
next
  case False
  then show ?thesis using assms run_up [of env d bins a "nat (b - a)" w u w' fe f] by (simp add: mig_list_def)
qed

lemma version_kept:
  "keeps (path_Join [d, ''version'']) m \<Longrightarrow> m w = (r, w') \<Longrightarrow> version_at (files w) d = Some v \<Longrightarrow>
     version_at (files w') d = Some v"
proof -
  assume keeps: "keeps (path_Join [d, ''version'']) m" and m: "m w = (r, w')" and v: "version_at (files w) d = Some v"
  then obtain n where n: "files w (path_Join [d, ''version'']) = Some n" by (auto simp: version_at_def split: option.splits)
  then have "files (snd (m w)) (path_Join [d, ''version'']) = Some n" using keeps unfolding keeps_def by blast
  then show ?thesis using v n m by (simp add: version_at_def)
qed

lemma keeps_fetchMigrations:
  assumes "sorts (srt fe)" "platform_ok env" "safe_file env K" "schedule_ok fe"
    "\<And>n. n \<in> set needed \<Longrightarrow> plain_name n"
  shows "keeps K (fetchMigrations env fe f needed destDir)"
proof -
  have "keeps K (fetch_all env fe f destDir needed (order fe (length needed)) bins)" for bins
  proof (rule keeps_fetch_all)
    fix i assume "i \<in> set (order fe (length needed))"
    then have "needed ! i \<in> set needed" using assms(4) by (simp add: schedule_ok_def)
    then show "keeps K (fetch_one env fe f destDir (needed ! i))" using keeps_fetch_one assms by blast
  qed
  then show ?thesis unfolding fetchMigrations_def Let_def by (auto intro!: keeps_intros)
qed

subsection \<open>Properties\<close>

lemma IpfsDir_idem:
  assumes home: "\<And>h. homedir_Dir env = Inr h \<Longrightarrow> prefix ''/'' h"
    and d: "IpfsDir env dir = Inr d"
  shows "IpfsDir env d = Inr d"
proof -
  have abs: "prefix ''/'' (path_Join [h, s])" if "prefix ''/'' h" for h s
  proof -
    have "h \<noteq> []" using that by auto
    then have "path_Join [h, s] = path_Clean (h @ (if s = [] then [] else ''/'' @ s))"
      by (simp add: path_Join_def)
    moreover have "prefix ''/'' (h @ (if s = [] then [] else ''/'' @ s))" using that by (rule prefix_prefix)
    ultimately show ?thesis using parts_of_Clean(2) by simp
  qed
  have fix_abs: "IpfsDir env s = Inr s" if "s \<noteq> []" "hd s \<noteq> CHR ''~''" for s
    using that by (cases s) (auto simp: IpfsDir_def homedir_Expand_def)
  define dir' where "dir' = (if dir = [] then Getenv env ''IPFS_PATH'' else dir)"
  show ?thesis
  proof (cases "dir' \<noteq> [] \<and> hd dir' \<noteq> CHR ''~''")
    case True
    then have "d = dir'" using d by (cases dir') (auto simp: IpfsDir_def dir'_def [symmetric] homedir_Expand_def)
    then show ?thesis using fix_abs True by simp
  next
    case False
    then obtain h s where "homedir_Dir env = Inr h" "d = path_Join [h, s]"
      using d by (cases dir')
        (auto simp: IpfsDir_def dir'_def [symmetric] homedir_Expand_def Let_def split: if_splits)
    then have "prefix ''/'' d" using abs home by simp
    then show ?thesis using fix_abs by (cases d) auto
  qed
qed

lemma RunMigration_found_version:
  assumes run: "RunMigration_found env fe f d (a > b) (mig_list a b) bins w = (Inr u, w')"
    and ok: "bins_ok env (mig_list a b) bins" and works: "programs_work env fe f"
    and v: "version_at (files w) d = Some a"
    and safe: "safe_file env (path_Join [d, ''version''])" "sorts (srt fe)" "platform_ok env" "schedule_ok fe"
  shows "version_at (files w') d = Some b"
proof (cases "length bins < length (mig_list a b)")
  case False
  then have "run_migrations env d (a > b) bins (mig_list a b) w = (Inr u, w')"
    using run by (simp add: RunMigration_found_def)
  then show ?thesis using run_mig_list bins_ok_full [OF ok False] works v by blast
next
  case True
  define missing where "missing = filter (\<lambda>mig. map_of bins mig = None) (mig_list a b)"
  obtain tmp t fetched t2 x where t: "os_TempDir env ''migrations'' w = (Inr tmp, t)"
    and fm: "fetchMigrations env fe f missing tmp t = (Inr fetched, t2)"
    and rm: "run_migrations env d (a > b) (fold (\<lambda>e m. map_put (fst e) (snd e) m) (zip missing fetched) bins)
        (mig_list a b) t2 = (Inr u, x)" and w': "w' = snd (os_RemoveAll env tmp x)"
    using run True by (auto simp: RunMigration_found_def missing_def Let_def)
  have plain: "plain_name n" if "n \<in> set missing" for n
    using that migrationName_plain by (auto simp: missing_def mig_list_def split: if_splits)
  have "version_at (files t) d = Some a" using version_kept [OF keeps_TempDir t v] .
  then have "version_at (files t2) d = Some a"
    using version_kept [OF keeps_fetchMigrations [OF safe(2,3,1,4) plain] fm] by blast
  moreover have "all_provided env fe f (mig_list a b) (fold (\<lambda>e m. map_put (fst e) (snd e) m) (zip missing fetched) bins)"
    using fetched_provided [OF ok] fm unfolding missing_def by blast
  ultimately have x: "version_at (files x) d = Some b" using run_mig_list [OF rm] works by blast
  have "tmp = temp_path env ''migrations'' w" using os_TempDir_Inr [OF t] by simp
  moreover have "CHR ''/'' \<notin> set ''migrations''" by simp
  ultimately have "\<not> under tmp (path_Join [d, ''version''])" using safe(1) unfolding safe_file_def by metis
  then have "keeps (path_Join [d, ''version'']) (os_RemoveAll env tmp)" by (rule keeps_RemoveAll)
  then show ?thesis using version_kept [of d "os_RemoveAll env tmp" x "fst (os_RemoveAll env tmp x)" w'] x w' by simp
qed

text \<open>C7. If \<open>RunMigration\<close> succeeds, the repository is at the target version, whether the version had to
  go up, down or not to change at all, and whether the programs were installed or downloaded. This
  is under the named assumptions on the programs and on the machine: a program that reports success
  did the migration of its name, the home directory is an absolute path, and the repository is not
  inside a temporary directory.
\<close>

theorem RunMigration_reaches_target:
  assumes run: "RunMigration env fe ctx f target dir allow w = (Inr (), w')"
    and dir: "IpfsDir env dir = Inr d"
    and home: "\<forall>h. homedir_Dir env = Inr h \<longrightarrow> prefix ''/'' h"
    and works: "programs_work env fe f"
    and temp: "\<forall>pat v. CHR ''/'' \<notin> set pat \<longrightarrow> \<not> under (temp_path env pat v) (path_Join [d, ''version''])"
    and machine: "sorts (srt fe)" "platform_ok env" "schedule_ok fe"
  shows "version_at (files w') d = Some target"
proof -
  have "path_Base (path_Join [d, ''version'']) = ''version''" by (rule path_Base_Join) (simp add: plain_name_def)
  then have safe: "safe_file env (path_Join [d, ''version''])" using temp by (simp add: safe_file_def)
  have idem: "IpfsDir env d = Inr d" using IpfsDir_idem dir home by blast
  obtain a where v: "version_at (files w) d = Some a"
    and alt: "a = target \<and> w' = w \<or> a \<noteq> target \<and> (\<exists>migs bins. findMigrations env ctx a target = Inr (migs, bins)
        \<and> RunMigration_found env fe f d (a > target) migs bins w = (Inr (), w'))"
    using run dir idem
    by (fastforce simp: RunMigration_def CheckIpfsDir_Inr RepoVersion_def split: if_splits dest!: repoVersion_Inr)
  show ?thesis
    using alt
  proof
    assume "a \<noteq> target \<and> (\<exists>migs bins. findMigrations env ctx a target = Inr (migs, bins)
        \<and> RunMigration_found env fe f d (a > target) migs bins w = (Inr (), w'))"
    then show ?thesis
      using findMigrations_Inr RunMigration_found_version [OF _ _ works v safe machine] by metis
  qed (use v in simp)
qed

text \<open>The programs that \<open>RunMigration\<close> runs, whatever its outcome: none at all, or a first part of the
  migrations that lie between the version of the repository and the target, in the order of the
  versions, each on the repository directory and with \<^verbatim>\<open>-revert\<close> exactly when the version goes down
  and that was allowed. No program is run unless every one of them was installed or downloaded, and
  on success all were run.
\<close>

lemma RunMigration_runs_in_order:
  assumes run: "RunMigration env fe ctx f target dir allow w = (r, w')"
  shows "ran w' = ran w \<and> (r = Inr () \<longrightarrow> (\<exists>d. IpfsDir env dir = Inr d \<and> fst (RepoVersion env d w) = Inr target))
    \<or> (\<exists>d a bins k. IpfsDir env dir = Inr d \<and> fst (RepoVersion env d w) = Inr a
         \<and> (a > target \<longrightarrow> allow) \<and> all_provided env fe f (mig_list a target) bins
         \<and> ran w' = ran w @ map (\<lambda>mig. (map_get bins mig, mig_args d (a > target))) (take k (mig_list a target))
         \<and> (r = Inr () \<longrightarrow> k = length (mig_list a target)))"
proof (cases "fst (CheckIpfsDir env dir w)")
  case (Inl e)
  have "silent (CheckIpfsDir env dir)" unfolding CheckIpfsDir_def by (intro silent_intros)
  then show ?thesis
    using Inl run silentD(1) by (auto simp: RunMigration_def io_bind_def split: prod.splits)
next
  case (Inr d)
  have "CheckIpfsDir env dir w = (Inr d, w)" 
    using Inr CheckIpfsDir_Inr [of env dir w d] by (metis prod.collapse)
  then have d: "IpfsDir env dir = Inr d" "CheckIpfsDir env dir w = (Inr d, w)" by (auto simp: CheckIpfsDir_Inr)
  obtain rv v where rv: "RepoVersion env d w = (rv, v)" by fastforce
  have "silent (RepoVersion env d)"
    unfolding RepoVersion_def CheckIpfsDir_def repoVersion_def
    by (intro silent_intros) (auto intro: silent_intros split: option.split)
  then have ranv: "ran v = ran w" using silentD(1) rv by metis
  show ?thesis
  proof (cases rv)
    case (Inl e)
    then have "w' = v" "r \<noteq> Inr ()" using run d rv by (auto simp: RunMigration_def io_bind_def io_wrap_def)
    then show ?thesis using ranv by simp
  next
    case (Inr a)
    then have v: "v = w" using rv by (auto simp: RepoVersion_def CheckIpfsDir_Inr dest: repoVersion_Inr)
    have a: "fst (RepoVersion env d w) = Inr a" using rv Inr by simp
    define rest where "rest = RunMigration env fe ctx f target dir allow w"
    have rest: "rest = (if a = target then io_return ()
       else if a > target \<and> \<not> allow then
         io_fail (Errorf (''downgrade not allowed from '' @ show_int a @ '' to '' @ show_int target))
       else io_bind (io_lift (findMigrations env ctx a target)) (\<lambda>(migrations, binPaths).
           RunMigration_found env fe f d (a > target) migrations binPaths)) w"
      using d(2) rv Inr v by (simp add: rest_def RunMigration_def io_bind_def io_wrap_def)
    show ?thesis
    proof (cases "a = target \<or> a > target \<and> \<not> allow")
      case True
      then show ?thesis using rest run d(1) a by (auto simp: rest_def io_return_def io_fail_def)
    next
      case False
      show ?thesis
      proof (cases "findMigrations env ctx a target")
        case (Inl e)
        then show ?thesis using False rest run by (auto simp: rest_def io_bind_def io_lift_def)
      next
        case (Inr mb)
        obtain migs bins where mb: "mb = (migs, bins)" by fastforce
        note found = findMigrations_Inr [OF Inr [unfolded mb]]
        have "RunMigration_found env fe f d (a > target) (mig_list a target) bins w = (r, w')"
          using False rest run Inr mb found by (auto simp: rest_def io_bind_def io_lift_def)
        from RunMigration_found_ran [OF _ this] found show ?thesis
          using d(1) a False by blast
      qed
    qed
  qed
qed

text \<open>A machine on which every migration program is installed, and what such a program does.\<close>

definition sample_exec :: "string \<Rightarrow> string list \<Rightarrow> fs \<Rightarrow> error option \<times> fs" where
  "sample_exec p args fs =
     (let d = drop 6 (hd args) in
      case version_at fs d of
        None \<Rightarrow> (Some (Errorf ''no repository''), fs)
      | Some v \<Rightarrow>
          (let v' = (if length args = 3 then v - 1 else v + 1) in
           if - (2 ^ 63) \<le> v' \<and> v' < 2 ^ 63
           then (None, fs(path_Join [d, ''version''] \<mapsto> File (show_int v' @ [CHR 0x0A]) 420))
           else (Some (Errorf ''bad version''), fs)))"

definition sample_machine :: os_env where
  "sample_machine = sample_os\<lparr>LookPath := (\<lambda>n. Inr (''/bin/'' @ n)), exec := sample_exec\<rparr>"

definition sample_fetch :: fetch_env where
  "sample_fetch = \<lparr>arc = sample_arc, srt = insertion_sort, ldd = Inr [], DownloadDirectory = [],
     ctx_fetch = None, order = (\<lambda>n. [0..<n])\<rparr>"

definition sample_repo :: world where
  "sample_repo = \<lparr>files = [''/tmp'' \<mapsto> Dir, ''/repo'' \<mapsto> Dir, ''/repo/version'' \<mapsto> File (''10'' @ [CHR 0x0A]) 420], ran = [], locks = [], open_ds = []\<rparr>"

lemma sample_exec_works:
  "sample_exec p (mig_args d dn) fs = (None, fs') \<Longrightarrow> version_at fs d = Some v \<Longrightarrow>
     version_at fs' d = Some (if dn then v - 1 else v + 1)"
proof -
  assume run: "sample_exec p (mig_args d dn) fs = (None, fs')" and v: "version_at fs d = Some v"
  define v' where "v' = (if dn then v - 1 else v + 1)"
  have args: "drop 6 (hd (mig_args d dn)) = d" "(length (mig_args d dn) = 3) = dn"
    by (simp_all add: mig_args_def)
  have "- (2 ^ 63) \<le> v' \<and> v' < 2 ^ 63 \<and> fs' = fs(path_Join [d, ''version''] \<mapsto> File (show_int v' @ [CHR 0x0A]) 420)"
    using run v unfolding sample_exec_def args Let_def v'_def by (simp split: if_splits)
  then show ?thesis using Atoi_version_line [of v'] by (simp add: version_at_def v'_def)
qed

lemma sample_programs_work: "programs_work sample_machine sample_fetch f"
  using sample_exec_works [where dn = False] sample_exec_works [where dn = True]
  by (fastforce simp: programs_work_def sample_machine_def)

lemma sample_temp: "CHR ''/'' \<notin> set pat \<Longrightarrow> \<not> under (temp_path sample_machine pat v) ''/repo/version''"
proof -
  assume "CHR ''/'' \<notin> set pat"
  then have "plain_name (pat @ show_nat 7)" by (rule temp_name_plain)
  moreover have "dir_parts ''/tmp'' = [''tmp'']" by code_simp
  ultimately have "path_Join [''/tmp'', pat @ show_nat 7] = ''/tmp/'' @ pat @ show_nat 7"
    by (simp add: path_Join_name)
  then show ?thesis
    by (auto simp: temp_path_def sample_machine_def sample_os_def under_def)
qed

theorem RunMigration_reaches_target_witness:
  "version_at (files (snd (RunMigration sample_machine sample_fetch (\<lambda>_. None) sample_site 12 ''/repo'' False sample_repo)))
     ''/repo'' = Some 12"
proof (rule RunMigration_reaches_target)
  show "RunMigration sample_machine sample_fetch (\<lambda>_. None) sample_site 12 ''/repo'' False sample_repo
      = (Inr (), snd (RunMigration sample_machine sample_fetch (\<lambda>_. None) sample_site 12 ''/repo'' False sample_repo))"
    unfolding prod_eq_iff fst_conv snd_conv by (intro conjI refl) code_simp
  show "IpfsDir sample_machine ''/repo'' = Inr ''/repo''" by code_simp
  show "\<forall>h. homedir_Dir sample_machine = Inr h \<longrightarrow> prefix ''/'' h"
    by (simp add: sample_machine_def sample_os_def)
  show "programs_work sample_machine sample_fetch sample_site" by (rule sample_programs_work)
  have "path_Join [''/repo'', ''version''] = ''/repo/version''" by code_simp
  then show "\<forall>pat v. CHR ''/'' \<notin> set pat \<longrightarrow> \<not> under (temp_path sample_machine pat v) (path_Join [''/repo'', ''version''])"
    using sample_temp by simp
  show "sorts (srt sample_fetch)" using sorts_insertion_sort by (simp add: sample_fetch_def)
  show "platform_ok sample_machine" by code_simp
  show "schedule_ok sample_fetch" by (auto simp: schedule_ok_def sample_fetch_def)
qed

lemma RunMigration_runs_in_order_witness:
  "\<exists>bins. ran (snd (RunMigration sample_machine sample_fetch (\<lambda>_. None) sample_site 9 ''/repo'' True sample_repo))
     = map (\<lambda>mig. (map_get bins mig, mig_args ''/repo'' True)) [migrationName 9 10]"
proof -
  define res where "res = RunMigration sample_machine sample_fetch (\<lambda>_. None) sample_site 9 ''/repo'' True sample_repo"
  have ok: "fst res = Inr ()" unfolding res_def by code_simp
  have dir: "IpfsDir sample_machine ''/repo'' = Inr ''/repo''" by code_simp
  have ver: "fst (RepoVersion sample_machine ''/repo'' sample_repo) = Inr 10" by code_simp
  have list: "mig_list 10 9 = [migrationName 9 10]" by (simp add: mig_list_def)
  have "ran sample_repo = []" by (simp add: sample_repo_def)
  moreover have "RunMigration sample_machine sample_fetch (\<lambda>_. None) sample_site 9 ''/repo'' True sample_repo = (Inr (), snd res)"
    using ok by (simp add: res_def prod_eq_iff)
  ultimately show ?thesis
    using RunMigration_runs_in_order [of sample_machine sample_fetch "\<lambda>_. None" sample_site 9 "''/repo''" True sample_repo "Inr ()" "snd res"]
      dir ver list unfolding res_def by auto
qed

section \<open>The fetcher from the configuration\<close>

lemma ex_lt_Suc: "(\<exists>i < Suc n. P i) \<longleftrightarrow> P 0 \<or> (\<exists>i < n. P (Suc i))"
  by (auto simp: less_Suc_eq_0_disj)

lemma all_lt_Suc: "(\<forall>i < Suc n. P i) \<longleftrightarrow> P 0 \<and> (\<forall>i < n. P (Suc i))"
  by (auto simp: less_Suc_eq_0_disj)

lemma MultiFetcher_loop_first:
  "MultiFetcher_loop errs fs p = Inr (Some r) \<longleftrightarrow>
     (\<exists>i < length fs. Fetch (fs ! i) p = Inr (Some r) \<and> (\<forall>j < i. \<exists>e. Fetch (fs ! j) p = Inl e))"
proof (induction fs arbitrary: errs)
  case (Cons f fs)
  show ?case
  proof (cases "Fetch f p")
    case (Inl e)
    then have "MultiFetcher_loop errs (f # fs) p = Inr (Some r) \<longleftrightarrow>
        (\<exists>i < length fs. Fetch (fs ! i) p = Inr (Some r) \<and> (\<forall>j < i. \<exists>e. Fetch (fs ! j) p = Inl e))"
      using Cons.IH by simp
    also have "\<dots> \<longleftrightarrow> (\<exists>i < Suc (length fs). Fetch ((f # fs) ! i) p = Inr (Some r)
        \<and> (\<forall>j < i. \<exists>e. Fetch ((f # fs) ! j) p = Inl e))"
      unfolding ex_lt_Suc all_lt_Suc using Inl by simp
    finally show ?thesis by simp
  next
    case (Inr rc)
    then have "(\<exists>i < Suc (length fs). Fetch ((f # fs) ! i) p = Inr (Some r)
        \<and> (\<forall>j < i. \<exists>e. Fetch ((f # fs) ! j) p = Inl e)) \<longleftrightarrow> rc = Some r"
      unfolding ex_lt_Suc by (auto dest: spec [of _ 0])
    then show ?thesis using Inr by simp
  qed
qed (auto split: option.splits)

lemma MultiFetcher_loop_fails:
  "fs \<noteq> [] \<or> errs \<noteq> None \<Longrightarrow> (\<exists>e. MultiFetcher_loop errs fs p = Inl e) \<longleftrightarrow> (\<forall>g \<in> set fs. \<exists>e. Fetch g p = Inl e)"
proof (induction fs arbitrary: errs)
  case (Cons f fs)
  then show ?case by (cases "Fetch f p") (auto simp: multierror_Append_def)
qed auto

lemma source_fetchers_contract:
  assumes nf: "\<And>nf. newIpfsFetcher = Some nf \<Longrightarrow> fetcher_contract (Fetch (nf dist))"
  shows "source_fetchers net ue dist newIpfsFetcher srcs = Inr fs \<Longrightarrow> f \<in> set fs \<Longrightarrow> fetcher_contract (Fetch f)"
proof (induction srcs arbitrary: fs)
  case (Cons src srcs)
  obtain as bs where ab: "source_fetcher net ue dist newIpfsFetcher src = Inr as"
    "source_fetchers net ue dist newIpfsFetcher srcs = Inr bs" "fs = as @ bs"
    using Cons.prems(1) by auto
  have http: "fetcher_contract (Fetch (http_fetcher net h))" for h
    using http.fetcher_contract_axioms by (simp add: http_fetcher_def)
  have "fetcher_contract (Fetch f)" if "f \<in> set as"
    using ab(1) that nf http
    by (auto simp: source_fetcher_def Let_def split: if_splits option.splits sum.splits)
  then show ?case using Cons ab by auto
qed simp

text \<open>The fetcher that \<open>GetMigrationFetcher\<close> makes from the configured sources: it never succeeds
  without a reader, and it returns what the first source that succeeds returned, in the order of the
  configuration, failing exactly when all of them fail.
\<close>

lemma GetMigrationFetcher_first_source:
  assumes get: "GetMigrationFetcher net ue srcs dist newIpfsFetcher = Inr f"
    and nf: "\<And>nf. newIpfsFetcher = Some nf \<Longrightarrow> fetcher_contract (Fetch (nf dist))"
  shows "\<exists>fs. source_fetchers net ue dist newIpfsFetcher srcs = Inr fs \<and> fs \<noteq> [] \<and>
    (\<forall>p. (\<forall>rc. Fetch f p = Inr rc \<longrightarrow> (\<exists>r. rc = Some r \<and>
            (\<exists>i < length fs. Fetch (fs ! i) p = Inr (Some r) \<and> (\<forall>j < i. \<exists>e. Fetch (fs ! j) p = Inl e))))
       \<and> ((\<exists>e. Fetch f p = Inl e) \<longleftrightarrow> (\<forall>g \<in> set fs. \<exists>e. Fetch g p = Inl e)))"
proof -
  obtain fs where fs: "source_fetchers net ue dist newIpfsFetcher srcs = Inr fs"
    "(case fs of [] \<Rightarrow> Inl (Errorf ''no sources specified'') | [g] \<Rightarrow> Inr g | _ \<Rightarrow> Inr (NewMultiFetcher fs)) = Inr f"
    using get by (auto simp: GetMigrationFetcher_def)
  from fs(2) have ne: "fs \<noteq> []" and f: "f = (case fs of [g] \<Rightarrow> g | _ \<Rightarrow> NewMultiFetcher fs)"
    by (auto split: list.splits)
  have each: "fetcher_contract (Fetch g)" if "g \<in> set fs" for g
    by (rule source_fetchers_contract [OF _ fs(1) that]) (rule nf)
  have same: "Fetch f p = Inr rc \<Longrightarrow> MultiFetcher_Fetch fs p = Inr rc"
    "(\<exists>e. Fetch f p = Inl e) \<longleftrightarrow> (\<exists>e. MultiFetcher_Fetch fs p = Inl e)" for p rc
    using f ne by (cases fs; cases "tl fs";
        auto simp: NewMultiFetcher_def MultiFetcher_Fetch_def multierror_Append_def split: sum.splits)+
  have contract: "fetcher_contract (MultiFetcher_Fetch fs)"
    by (rule fetchers_contract.multi_contract) (rule fetchers_contract.intro [OF ne each])
  have "\<exists>r. rc = Some r \<and> (\<exists>i < length fs. Fetch (fs ! i) p = Inr (Some r) \<and> (\<forall>j < i. \<exists>e. Fetch (fs ! j) p = Inl e))"
    if "Fetch f p = Inr rc" for p rc
    using same(1) [OF that] fetcher_contract.success_reader [OF contract] MultiFetcher_loop_first
    unfolding MultiFetcher_Fetch_def by metis
  moreover have "(\<exists>e. Fetch f p = Inl e) \<longleftrightarrow> (\<forall>g \<in> set fs. \<exists>e. Fetch g p = Inl e)" for p
    unfolding same(2) MultiFetcher_Fetch_def using MultiFetcher_loop_fails ne by simp
  ultimately show ?thesis
    by (intro exI [of _ fs] conjI allI impI) (simp_all only: fs(1) ne not_False_eq_True)
qed

text \<open>A network with one gateway that answers and one that does not.\<close>

definition sample_net :: http_env where
  "sample_net = \<lparr>NewRequest = (\<lambda>_. None),
     http_Do = (\<lambda>url ua. if prefix ''https://good'' url
        then Inr \<lparr>StatusCode = 200, Status = ''200 OK'', Body = (''data'', None)\<rparr>
        else Inr \<lparr>StatusCode = 404, Status = ''404 Not Found'', Body = ([], None)\<rparr>)\<rparr>"

definition sample_urls :: url_env where
  "sample_urls = \<lparr>url_Parse = (\<lambda>s. Inr \<lparr>Scheme = [], url_rest = s\<rparr>),
     url_String = (\<lambda>u. Scheme u @ ''://'' @ url_rest u)\<rparr>"

lemma GetMigrationFetcher_first_source_witness:
  "\<exists>f fs. GetMigrationFetcher sample_net sample_urls [''HTTPS'', ''good''] [] None = Inr f
     \<and> Fetch f ''x'' = Inr (Some (''data'', None)) \<and> source_fetchers sample_net sample_urls [] None [''HTTPS'', ''good''] = Inr fs
     \<and> (\<exists>i < length fs. Fetch (fs ! i) ''x'' = Inr (Some (''data'', None)))"
proof -
  have trim: "trim_space ''HTTPS'' = ''HTTPS''" "trim_space ''good'' = ''good''" by code_simp+
  define a where "a = http_fetcher sample_net (NewHttpFetcher [] [] ''go-ipfs'' 0)"
  define b where "b = http_fetcher sample_net (NewHttpFetcher [] ''https://good'' ''go-ipfs'' 0)"
  have get: "GetMigrationFetcher sample_net sample_urls [''HTTPS'', ''good''] [] None = Inr (NewMultiFetcher [a, b])"
    by (simp add: GetMigrationFetcher_def source_fetcher_def trim a_def b_def sample_urls_def Let_def)
  have bad: "Fetch a ''x'' = Inl (Errorf (''GET https://ipfs.io/ipns/dist.ipfs.io/x error: 404 Not Found: ''))"
    unfolding a_def by code_simp
  have "HttpFetcher_Fetch sample_net (NewHttpFetcher [] ''https://good'' ''go-ipfs'' 0) ''x''
      = Inr (Some (NewLimitReadCloser (''data'', None) (1024 * 1024 * 512)))"
  proof -
    have h: "NewHttpFetcher [] ''https://good'' ''go-ipfs'' 0 =
        \<lparr>distPath = LatestIpfsDist, gateway = ''https://good'', limit = 1024 * 1024 * 512, userAgent = []\<rparr>"
      by (simp add: NewHttpFetcher_def trim_right_def Let_def)
    show ?thesis unfolding h by (simp add: HttpFetcher_Fetch_def gwURL_def sample_net_def Let_def)
  qed
  then have good: "Fetch b ''x'' = Inr (Some (''data'', None))"
    by (simp add: b_def http_fetcher_def NewLimitReadCloser_def)
  have fetch: "Fetch (NewMultiFetcher [a, b]) ''x'' = Inr (Some (''data'', None))"
    using good bad by (simp add: NewMultiFetcher_def MultiFetcher_Fetch_def)
  show ?thesis
    using GetMigrationFetcher_first_source [OF get] get fetch by blast
qed

end
