(* ===== verification/Config_Map.thy ===== *)
theory Config_Map
  imports Os
begin

text \<open>
  JSON values and the access to them by dotted keys, from \<^verbatim>\<open>repo/common/common.go\<close>.

  A Go \<^verbatim>\<open>interface{}\<close> that was decoded from JSON is a \<open>json\<close>; a \<^verbatim>\<open>map[string]interface{}\<close> is an
  association list in which the first entry of a key counts. \<open>MapSetKV\<close> changes the map in place; here
  it returns the changed map, and as the code changes nothing before its last possible error, an
  error leaves the map as it was.

  The locale \<open>keyed_store\<close> is what the configuration code relies on: a value that was set is read
  back, and keys of which neither lies under the other do not disturb each other.
\<close>

section \<open>Values\<close>

datatype json = JNull | JBool bool | JNum string | JStr string | JArr "json list" | JObj "(string \<times> json) list"

type_synonym jmap = "(string \<times> json) list"

definition jput :: "string \<Rightarrow> json \<Rightarrow> jmap \<Rightarrow> jmap" where
  "jput k v m = (k, v) # filter (\<lambda>e. fst e \<noteq> k) m"

lemma map_of_jput [simp]: "map_of (jput k v m) k' = (if k' = k then Some v else map_of m k')"
  by (induction m) (auto simp: jput_def)

section \<open>Access by dotted keys\<close>

text \<open>The loop of \<open>MapGetKV\<close> at a value: \<open>sofar\<close> are the parts already passed.\<close>

fun get_parts :: "string list \<Rightarrow> json \<Rightarrow> string list \<Rightarrow> error + json" where
  "get_parts sofar cursor [] = Inr cursor"
| "get_parts sofar cursor (part # parts) =
     (case cursor of
        JObj m \<Rightarrow>
          (case map_of m part of
             Some v \<Rightarrow> get_parts (sofar @ [part]) v parts
           | None \<Rightarrow> Inl (Errorf (join ''.'' sofar @ '' key has no attributes'')))
      | _ \<Rightarrow> Inl (Errorf (join ''.'' sofar @ '' key is not a map'')))"

definition MapGetKV :: "jmap \<Rightarrow> string \<Rightarrow> error + json" where
  "MapGetKV v key = get_parts [] (JObj v) (split_on (CHR ''.'') key)"

text \<open>The loop of \<open>MapSetKV\<close>: the value with the part below it set. A missing or null part becomes an
  empty map.\<close>

fun set_parts :: "string list \<Rightarrow> json \<Rightarrow> string list \<Rightarrow> json \<Rightarrow> error + json" where
  "set_parts sofar cursor [] value = Inr cursor"
| "set_parts sofar cursor (part # parts) value =
     (case cursor of
        JObj m \<Rightarrow>
          if parts = [] then Inr (JObj (jput part value m))
          else bind_res
            (set_parts (sofar @ [part])
               (case map_of m part of None \<Rightarrow> JObj [] | Some c \<Rightarrow> if c = JNull then JObj [] else c) parts value)
            (\<lambda>c. Inr (JObj (jput part c m)))
      | _ \<Rightarrow> Inl (Errorf (join ''.'' sofar @ '' key is not a map'')))"

definition MapSetKV :: "jmap \<Rightarrow> string \<Rightarrow> json \<Rightarrow> error + jmap" where
  "MapSetKV v key value =
     bind_res (set_parts [] (JObj v) (split_on (CHR ''.'') key) value) (\<lambda>c.
       case c of JObj m \<Rightarrow> Inr m | _ \<Rightarrow> Inl (Panic ''not a map''))"

section \<open>Laws\<close>

lemma set_parts_obj:
  "set_parts sofar (JObj m) (part # parts) value = Inr c \<Longrightarrow> \<exists>m'. c = JObj m'"
  by (auto split: if_splits)

lemma get_set_parts:
  "set_parts sofar c parts value = Inr c' \<Longrightarrow> parts \<noteq> [] \<Longrightarrow> get_parts sf c' parts = Inr value"
proof (induction parts arbitrary: c c' sofar sf)
  case (Cons part parts)
  then obtain m where m: "c = JObj m" by (cases c) auto
  show ?case
  proof (cases "parts = []")
    case False
    then obtain d where "c' = JObj (jput part d m)"
      "set_parts (sofar @ [part]) (case map_of m part of None \<Rightarrow> JObj [] | Some c \<Rightarrow> if c = JNull then JObj [] else c) parts value = Inr d"
      using Cons.prems m by auto
    then show ?thesis using Cons.IH False by simp
  qed (use Cons.prems m in auto)
qed simp

text \<open>Two keys are apart when neither is the other or above it.\<close>

definition apart :: "string list \<Rightarrow> string list \<Rightarrow> bool" where
  "apart ps qs = (\<not> prefix ps qs \<and> \<not> prefix qs ps)"

lemma get_parts_sofar: "get_parts sf c ps = Inr x \<longleftrightarrow> get_parts sf' c ps = Inr x"
  by (induction ps arbitrary: sf sf' c) (auto split: json.splits option.splits)

lemma get_set_parts_apart:
  "set_parts sofar c ps value = Inr c' \<Longrightarrow> apart ps qs \<Longrightarrow>
     get_parts sf c' qs = Inr x \<longleftrightarrow> get_parts sf c qs = Inr x"
proof (induction ps arbitrary: c c' sofar sf qs)
  case Nil
  then show ?case by (simp add: apart_def)
next
  case (Cons p ps)
  obtain q qs' where qs: "qs = q # qs'" using Cons.prems(2) by (cases qs) (auto simp: apart_def)
  obtain m where m: "c = JObj m" using Cons.prems(1) by (cases c) auto
  show ?case
  proof (cases "ps = []")
    case True
    then have "c' = JObj (jput p value m)" "p \<noteq> q" using Cons.prems m qs by (auto simp: apart_def)
    then show ?thesis using m qs by simp
  next
    case False
    define d where "d = (case map_of m p of None \<Rightarrow> JObj [] | Some c \<Rightarrow> if c = JNull then JObj [] else c)"
    obtain d' where d': "c' = JObj (jput p d' m)" "set_parts (sofar @ [p]) d ps value = Inr d'"
      using Cons.prems(1) m False by (auto simp: d_def)
    show ?thesis
    proof (cases "q = p")
      case True
      then have ap: "apart ps qs'" using Cons.prems(2) qs by (simp add: apart_def)
      then have ne: "qs' \<noteq> []" by (auto simp: apart_def)
      have "get_parts sf c' qs = Inr x \<longleftrightarrow> get_parts (sf @ [p]) d qs' = Inr x"
        using Cons.IH [OF d'(2) ap] d'(1) qs True by simp
      also have "\<dots> \<longleftrightarrow> get_parts sf c qs = Inr x"
        using m qs True ne by (cases qs') (auto simp: d_def split: option.splits)
      finally show ?thesis .
    next
      case False
      then show ?thesis using d'(1) m qs by simp
    qed
  qed
qed

text \<open>What users of a store with dotted keys rely on.\<close>

locale keyed_store =
  fixes get :: "'m \<Rightarrow> string \<Rightarrow> error + 'v"
    and put :: "'m \<Rightarrow> string \<Rightarrow> 'v \<Rightarrow> error + 'm"
  assumes get_put: "put m k v = Inr m' \<Longrightarrow> get m' k = Inr v"
    and get_put_apart: "put m k v = Inr m' \<Longrightarrow> apart (split_on (CHR ''.'') k) (split_on (CHR ''.'') k')
      \<Longrightarrow> get m' k' = Inr x \<longleftrightarrow> get m k' = Inr x"
begin

text \<open>Reading a value, changing another key and writing the value back protects it, and the change
  stays when the keys are apart.\<close>

lemma guarded_put:
  assumes "get m g = Inr old" "put m k v = Inr m1" "put m1 g old = Inr m2"
  shows "get m2 g = Inr old"
    and "apart (split_on (CHR ''.'') g) (split_on (CHR ''.'') k) \<Longrightarrow> get m2 k = Inr v"
  using assms get_put get_put_apart by metis+

lemma guarded_put_others:
  assumes "put m k v = Inr m1" "put m1 g old = Inr m2"
    "apart (split_on (CHR ''.'') k) (split_on (CHR ''.'') k')"
    "apart (split_on (CHR ''.'') g) (split_on (CHR ''.'') k')"
  shows "get m2 k' = Inr x \<longleftrightarrow> get m k' = Inr x"
  using assms get_put_apart by metis

end

lemma MapSetKV_Inr:
  "MapSetKV m k v = Inr m' \<Longrightarrow> set_parts [] (JObj m) (split_on (CHR ''.'') k) v = Inr (JObj m')"
proof -
  assume set: "MapSetKV m k v = Inr m'"
  then obtain c where c: "set_parts [] (JObj m) (split_on (CHR ''.'') k) v = Inr c"
    "(case c of JObj m \<Rightarrow> Inr m | _ \<Rightarrow> Inl (Panic ''not a map'')) = Inr m'"
    by (auto simp: MapSetKV_def)
  then show ?thesis by (cases c) auto
qed

interpretation config_map: keyed_store MapGetKV MapSetKV
proof
  fix m k v m'
  assume "MapSetKV m k v = Inr m'"
  then show "MapGetKV m' k = Inr v"
    unfolding MapGetKV_def using get_set_parts MapSetKV_Inr split_on_not_Nil by metis
next
  fix m k v m' k' x
  assume "MapSetKV m k v = Inr m'" "apart (split_on (CHR ''.'') k) (split_on (CHR ''.'') k')"
  then show "MapGetKV m' k' = Inr x \<longleftrightarrow> MapGetKV m k' = Inr x"
    unfolding MapGetKV_def using get_set_parts_apart MapSetKV_Inr by metis
qed

text \<open>\<open>MapSetKV\<close> never panics: its result is always a map.\<close>

lemma MapSetKV_no_panic: "MapSetKV m k v = Inl e \<Longrightarrow> \<not> is_panic e"
proof -
  assume e: "MapSetKV m k v = Inl e"
  have err: "set_parts sf c ps v = Inl x \<Longrightarrow> \<not> is_panic x" for sf c ps x
  proof (induction ps arbitrary: sf c)
    case (Cons p ps)
    obtain y where "c = JObj y \<or> x = Errorf (join ''.'' sf @ '' key is not a map'')"
      using Cons.prems by (cases c) auto
    then show ?case
    proof
      assume c: "c = JObj y"
      then have "ps \<noteq> []" using Cons.prems by auto
      then show ?thesis
        using Cons.prems Cons.IH c
        by (cases "set_parts (sf @ [p]) (case map_of y p of None \<Rightarrow> JObj [] | Some c \<Rightarrow> if c = JNull then JObj [] else c) ps v") auto
    qed simp
  qed simp
  obtain p ps where sp: "split_on (CHR ''.'') k = p # ps" by (meson neq_Nil_conv split_on_not_Nil)
  show ?thesis
  proof (cases "set_parts [] (JObj m) (p # ps) v")
    case (Inl x)
    then show ?thesis using e err [OF Inl] sp by (simp add: MapSetKV_def)
  next
    case (Inr c)
    then show ?thesis using e set_parts_obj [OF Inr] sp by (auto simp: MapSetKV_def)
  qed
qed

end
