(* ===== verification/Datastores.thy ===== *)
theory Datastores
  imports Config_Map Sorting "HOL-Library.Char_ord" "HOL-Library.List_Lexorder"
begin

text \<open>
  Datastore configurations, from \<^verbatim>\<open>repo/fsrepo/datastores.go\<close> and the datastore plugins under
  \<^verbatim>\<open>plugin/plugins/{flatfs,levelds,badgerds}\<close>: a JSON specification is turned into a configuration by
  the handler that is registered for its type, a configuration has a disk specification (what is
  stored, without run-time options) and can be opened.

  Configurations are a datatype with one constructor per Go type that implements
  \<^verbatim>\<open>DatastoreConfig\<close>; \<open>CPlugin\<close> stands for the configurations of plugins that are not in the sources.
  The sort, the opening of a database, number parsing and those plugins are parameters.
\<close>

section \<open>Configurations\<close>

datatype compression = DefaultCompression | NoCompression | SnappyCompression

record shard =
  funName :: string
  param :: int

datatype dsconfig =
    CMount "(dsconfig \<times> string) list"
  | CMem jmap
  | CLog dsconfig string
  | CMeasure dsconfig string
  | CFlatfs string shard bool
  | CLevel string compression
  | CBadger string bool bool int
  | CPlugin nat jmap

datatype dshandler = HMount | HMem | HLog | HMeasure | HFlatfs | HLevel | HBadger | HPlugin nat

type_synonym ds_registry = "(string \<times> dshandler) list"

record ds_env =
  ds_sort :: "(dsconfig \<times> string \<Rightarrow> dsconfig \<times> string \<Rightarrow> bool) \<Rightarrow> (dsconfig \<times> string) list \<Rightarrow> (dsconfig \<times> string) list"
  ParseBytes :: "string \<Rightarrow> error + nat"
  plugin_parse :: "nat \<Rightarrow> jmap \<Rightarrow> error option"
  plugin_DiskSpec :: "nat \<Rightarrow> jmap \<Rightarrow> jmap option"
  ds_open :: "string \<Rightarrow> error option"
  json_Marshal :: "json \<Rightarrow> string"

definition datastores :: ds_registry where
  "datastores = [(''mount'', HMount), (''mem'', HMem), (''log'', HLog), (''measure'', HMeasure)]"

definition AddDatastoreConfigHandler :: "ds_registry \<Rightarrow> string \<Rightarrow> dshandler \<Rightarrow> error + ds_registry" where
  "AddDatastoreConfigHandler reg name dsc =
     (if map_of reg name \<noteq> None then Inl (Errorf (''already have a datastore named '' @ name))
      else Inr ((name, dsc) # reg))"

text \<open>\<^verbatim>\<open>ds.NewKey\<close>.\<close>

definition NewKey :: "string \<Rightarrow> string" where
  "NewKey s =
     (case s of [] \<Rightarrow> ''/'' | c # cs \<Rightarrow> if c = CHR ''/'' then path_Clean s else path_Clean (''/'' @ s))"

section \<open>The datastore plugins\<close>

definition shard_String :: "shard \<Rightarrow> string" where
  "shard_String f = ''/repo/flatfs/shard/v1/'' @ funName f @ ''/'' @ show_int (param f)"

text \<open>\<^verbatim>\<open>flatfs.ParseShardFunc\<close>. The functions for a negative parameter panic in \<^verbatim>\<open>strings.Repeat\<close>; for
  \<^verbatim>\<open>next-to-last\<close> one more underscore is wanted.\<close>

definition ParseShardFunc :: "string \<Rightarrow> error + shard" where
  "ParseShardFunc str0 =
     (let str = trim_space str0; pre = ''/repo/flatfs/shard/'' in
      if length str = 0 then Inl (Errorf ''empty shard identifier'')
      else if \<not> prefix pre str then Inl (Errorf (''invalid or no prefix in shard identifier: '' @ str))
      else (case split_on (CHR ''/'') (drop (length pre) str) of
          [version, funname, par] \<Rightarrow>
            if version \<noteq> ''v1'' then Inl (Errorf (''expected v1 for version string got: '' @ version))
            else (case Atoi par of
                None \<Rightarrow> Inl (Errorf ''invalid parameter'')
              | Some n \<Rightarrow>
                  if funname = ''prefix'' \<or> funname = ''suffix'' then
                    (if n < 0 then Inl (Panic ''strings: negative Repeat count'') else Inr \<lparr>funName = funname, param = n\<rparr>)
                  else if funname = ''next-to-last'' then
                    (if n + 1 < 0 then Inl (Panic ''strings: negative Repeat count'') else Inr \<lparr>funName = funname, param = n\<rparr>)
                  else Inl (Errorf (''expected prefix, suffix or next-to-last got: '' @ funname)))
        | _ \<Rightarrow> Inl (Errorf (''invalid shard identifier: '' @ drop (length pre) str))))"

definition flatfs_config :: "jmap \<Rightarrow> error + dsconfig" where
  "flatfs_config params =
     (case map_of params ''path'' of
        Some (JStr path) \<Rightarrow>
          (case map_of params ''shardFunc'' of
             Some (JStr sshardFun) \<Rightarrow>
               bind_res (ParseShardFunc sshardFun) (\<lambda>shardFun.
                 case map_of params ''sync'' of
                   Some (JBool syncField) \<Rightarrow> Inr (CFlatfs path shardFun syncField)
                 | _ \<Rightarrow> Inl (Errorf ''sync field is missing or not boolean''))
           | _ \<Rightarrow> Inl (Errorf ''shardFunc field is missing or not a string''))
      | _ \<Rightarrow> Inl (Errorf ''path field is missing or not boolean''))"

definition levelds_config :: "jmap \<Rightarrow> error + dsconfig" where
  "levelds_config params =
     (case map_of params ''path'' of
        Some (JStr path) \<Rightarrow>
          (case map_of params ''compression'' of
             None \<Rightarrow> Inr (CLevel path DefaultCompression)
           | Some cm \<Rightarrow>
               if cm = JStr ''none'' then Inr (CLevel path NoCompression)
               else if cm = JStr ''snappy'' then Inr (CLevel path SnappyCompression)
               else if cm = JStr [] \<or> cm = JNull then Inr (CLevel path DefaultCompression)
               else Inl (Errorf ''unrecognized value for compression''))
      | _ \<Rightarrow> Inl (Errorf ''path field is missing or not string''))"

definition bool_param :: "jmap \<Rightarrow> string \<Rightarrow> bool \<Rightarrow> error + bool" where
  "bool_param params name def =
     (case map_of params name of
        None \<Rightarrow> Inr def
      | Some (JBool b) \<Rightarrow> Inr b
      | Some _ \<Rightarrow> Inl (Errorf (name @ '' field was not a boolean'')))"

text \<open>\<^verbatim>\<open>int64(s)\<close> of an unsigned 64-bit number wraps.\<close>

definition to_int64 :: "nat \<Rightarrow> int" where
  "to_int64 n = (int n + 2 ^ 63) mod 2 ^ 64 - 2 ^ 63"

definition badgerds_config :: "ds_env \<Rightarrow> jmap \<Rightarrow> error + dsconfig" where
  "badgerds_config de params =
     (case map_of params ''path'' of
        Some (JStr path) \<Rightarrow>
          bind_res (bool_param params ''syncWrites'' False) (\<lambda>syncWrites.
          bind_res (bool_param params ''truncate'' True) (\<lambda>trunc.
            case map_of params ''vlogFileSize'' of
              None \<Rightarrow> Inr (CBadger path syncWrites trunc (1073741823))
            | Some (JStr vlogSize) \<Rightarrow>
                bind_res (ParseBytes de vlogSize) (\<lambda>s. Inr (CBadger path syncWrites trunc (to_int64 s)))
            | Some _ \<Rightarrow> Inl (Errorf ''vlogFileSize field was not a string'')))
      | _ \<Rightarrow> Inl (Errorf ''path field is missing or not string''))"

section \<open>From a specification to a configuration\<close>

definition mount_after :: "dsconfig \<times> string \<Rightarrow> dsconfig \<times> string \<Rightarrow> bool" where
  "mount_after a b = (snd a > snd b)"

lemma size_param: "map_of params k = Some v \<Longrightarrow> size v < size (JObj params)"
proof -
  assume "map_of params k = Some v"
  then have "(k, v) \<in> set params" by (rule map_of_SomeD)
  then have "size_prod (\<lambda>_. 0) size (k, v) \<le> size_list (size_prod (\<lambda>_. 0) size) params"
    by (intro size_list_estimation') auto
  then show ?thesis by simp
qed

function (sequential) AnyDatastoreConfig :: "ds_env \<Rightarrow> ds_registry \<Rightarrow> jmap \<Rightarrow> error + dsconfig"
  and mount_children :: "ds_env \<Rightarrow> ds_registry \<Rightarrow> json list \<Rightarrow> error + (dsconfig \<times> string) list" where
  "AnyDatastoreConfig de reg params =
     (case map_of params ''type'' of
        Some (JStr which) \<Rightarrow>
          (case map_of reg which of
             None \<Rightarrow> Inl (Errorf (''unknown datastore type: '' @ which))
           | Some HMount \<Rightarrow>
               (case map_of params ''mounts'' of
                  Some (JArr mounts) \<Rightarrow>
                    bind_res (mount_children de reg mounts) (\<lambda>ms. Inr (CMount (ds_sort de mount_after ms)))
                | _ \<Rightarrow> Inl (Errorf ''mounts field is missing or not an array''))
           | Some HMem \<Rightarrow> Inr (CMem params)
           | Some HLog \<Rightarrow>
               (case map_of params ''child'' of
                  Some (JObj childField) \<Rightarrow>
                    bind_res (AnyDatastoreConfig de reg childField) (\<lambda>child.
                      case map_of params ''name'' of
                        Some (JStr name) \<Rightarrow> Inr (CLog child name)
                      | _ \<Rightarrow> Inl (Errorf ''name field was missing or not a string''))
                | _ \<Rightarrow> Inl (Errorf ''child field is missing or not a map''))
           | Some HMeasure \<Rightarrow>
               (case map_of params ''child'' of
                  Some (JObj childField) \<Rightarrow>
                    bind_res (AnyDatastoreConfig de reg childField) (\<lambda>child.
                      case map_of params ''prefix'' of
                        Some (JStr pre) \<Rightarrow> Inr (CMeasure child pre)
                      | _ \<Rightarrow> Inl (Errorf ''prefix field was missing or not a string''))
                | _ \<Rightarrow> Inl (Errorf ''child field is missing or not a map''))
           | Some HFlatfs \<Rightarrow> flatfs_config params
           | Some HLevel \<Rightarrow> levelds_config params
           | Some HBadger \<Rightarrow> badgerds_config de params
           | Some (HPlugin n) \<Rightarrow>
               (case plugin_parse de n params of Some e \<Rightarrow> Inl e | None \<Rightarrow> Inr (CPlugin n params)))
      | _ \<Rightarrow> Inl (Errorf ''type field missing or not a string''))"
| "mount_children de reg [] = Inr []"
| "mount_children de reg (JObj cfg # ifaces) =
     bind_res (AnyDatastoreConfig de reg cfg) (\<lambda>child.
       case map_of cfg ''mountpoint'' of
         None \<Rightarrow> Inl (Errorf ''no mountpoint on mount'')
       | Some (JStr pre) \<Rightarrow>
           bind_res (mount_children de reg ifaces) (\<lambda>ms. Inr ((child, NewKey pre) # ms))
       | Some _ \<Rightarrow> Inl (Panic ''interface conversion: interface {} is not string''))"
| "mount_children de reg (_ # ifaces) = Inl (Errorf ''expected map for mountpoint'')"
  by pat_completeness auto

termination
  by (relation "measure (\<lambda>x. case x of Inl (de, reg, params) \<Rightarrow> size (JObj params) | Inr (de, reg, xs) \<Rightarrow> size (JArr xs))")
    (auto dest!: size_param)

declare AnyDatastoreConfig.simps [simp del]

text \<open>The parsers that are registered for the types, each as the code has it; \<open>AnyDatastoreConfig\<close> looks the
  type up and calls the parser.\<close>

definition MountDatastoreConfig :: "ds_env \<Rightarrow> ds_registry \<Rightarrow> jmap \<Rightarrow> error + dsconfig" where
  "MountDatastoreConfig de reg params =
     (case map_of params ''mounts'' of
        Some (JArr mounts) \<Rightarrow>
          bind_res (mount_children de reg mounts) (\<lambda>ms. Inr (CMount (ds_sort de mount_after ms)))
      | _ \<Rightarrow> Inl (Errorf ''mounts field is missing or not an array''))"

definition MemDatastoreConfig :: "jmap \<Rightarrow> error + dsconfig" where
  "MemDatastoreConfig params = Inr (CMem params)"

definition LogDatastoreConfig :: "ds_env \<Rightarrow> ds_registry \<Rightarrow> jmap \<Rightarrow> error + dsconfig" where
  "LogDatastoreConfig de reg params =
     (case map_of params ''child'' of
        Some (JObj childField) \<Rightarrow>
          bind_res (AnyDatastoreConfig de reg childField) (\<lambda>child.
            case map_of params ''name'' of
              Some (JStr name) \<Rightarrow> Inr (CLog child name)
            | _ \<Rightarrow> Inl (Errorf ''name field was missing or not a string''))
      | _ \<Rightarrow> Inl (Errorf ''child field is missing or not a map''))"

definition MeasureDatastoreConfig :: "ds_env \<Rightarrow> ds_registry \<Rightarrow> jmap \<Rightarrow> error + dsconfig" where
  "MeasureDatastoreConfig de reg params =
     (case map_of params ''child'' of
        Some (JObj childField) \<Rightarrow>
          bind_res (AnyDatastoreConfig de reg childField) (\<lambda>child.
            case map_of params ''prefix'' of
              Some (JStr pre) \<Rightarrow> Inr (CMeasure child pre)
            | _ \<Rightarrow> Inl (Errorf ''prefix field was missing or not a string''))
      | _ \<Rightarrow> Inl (Errorf ''child field is missing or not a map''))"

definition handler_parse :: "ds_env \<Rightarrow> ds_registry \<Rightarrow> dshandler \<Rightarrow> jmap \<Rightarrow> error + dsconfig" where
  "handler_parse de reg h params =
     (case h of
        HMount \<Rightarrow> MountDatastoreConfig de reg params
      | HMem \<Rightarrow> MemDatastoreConfig params
      | HLog \<Rightarrow> LogDatastoreConfig de reg params
      | HMeasure \<Rightarrow> MeasureDatastoreConfig de reg params
      | HFlatfs \<Rightarrow> flatfs_config params
      | HLevel \<Rightarrow> levelds_config params
      | HBadger \<Rightarrow> badgerds_config de params
      | HPlugin n \<Rightarrow> (case plugin_parse de n params of Some e \<Rightarrow> Inl e | None \<Rightarrow> Inr (CPlugin n params)))"

lemma AnyDatastoreConfig_dispatch:
  "AnyDatastoreConfig de reg params =
     (case map_of params ''type'' of
        Some (JStr which) \<Rightarrow>
          (case map_of reg which of
             None \<Rightarrow> Inl (Errorf (''unknown datastore type: '' @ which))
           | Some h \<Rightarrow> handler_parse de reg h params)
      | _ \<Rightarrow> Inl (Errorf ''type field missing or not a string''))"
proof (cases "\<exists>which h. map_of params ''type'' = Some (JStr which) \<and> map_of reg which = Some h")
  case True
  then obtain which h where t: "map_of params ''type'' = Some (JStr which)" "map_of reg which = Some h" by blast
  have "AnyDatastoreConfig de reg params = handler_parse de reg h params"
    unfolding AnyDatastoreConfig.simps [of de reg params] handler_parse_def MountDatastoreConfig_def
      MemDatastoreConfig_def LogDatastoreConfig_def MeasureDatastoreConfig_def t option.case json.case
    by (cases h) (simp_all only: dshandler.case)
  then show ?thesis using t by simp
next
  case False
  show ?thesis
  proof (cases "map_of params ''type''")
    case (Some t)
    show ?thesis unfolding AnyDatastoreConfig.simps [of de reg params] Some
      using False Some by (cases t) (simp_all only: option.case json.case, auto)
  qed (simp only: AnyDatastoreConfig.simps [of de reg params] option.case)
qed

section \<open>Disk specifications and datastores\<close>

text \<open>The disk specifications of the plugins.\<close>

definition flatfs_DiskSpec :: "string \<Rightarrow> shard \<Rightarrow> jmap" where
  "flatfs_DiskSpec path shardFun =
     [(''type'', JStr ''flatfs''), (''path'', JStr path), (''shardFunc'', JStr (shard_String shardFun))]"

definition levelds_DiskSpec :: "string \<Rightarrow> jmap" where
  "levelds_DiskSpec path = [(''type'', JStr ''levelds''), (''path'', JStr path)]"

definition badgerds_DiskSpec :: "string \<Rightarrow> jmap" where
  "badgerds_DiskSpec path = [(''type'', JStr ''badgerds''), (''path'', JStr path)]"

text \<open>\<open>None\<close> is the nil map.\<close>

fun DiskSpec :: "ds_env \<Rightarrow> dsconfig \<Rightarrow> jmap option" where
  "DiskSpec de (CMount mounts) =
     Some (jput ''mounts''
       (JArr (map (\<lambda>m. JObj (jput ''mountpoint'' (JStr (snd m))
          (case DiskSpec de (fst m) of None \<Rightarrow> [] | Some c \<Rightarrow> c))) mounts))
       [(''type'', JStr ''mount'')])"
| "DiskSpec de (CMem cfg) = None"
| "DiskSpec de (CLog child name) = DiskSpec de child"
| "DiskSpec de (CMeasure child pre) = DiskSpec de child"
| "DiskSpec de (CFlatfs path shardFun syncField) = Some (flatfs_DiskSpec path shardFun)"
| "DiskSpec de (CLevel path compr) = Some (levelds_DiskSpec path)"
| "DiskSpec de (CBadger path sw tr vls) = Some (badgerds_DiskSpec path)"
| "DiskSpec de (CPlugin n params) = plugin_DiskSpec de n params"

definition DiskSpec_Bytes :: "ds_env \<Rightarrow> jmap option \<Rightarrow> string" where
  "DiskSpec_Bytes de spec =
     trim_space (json_Marshal de (case spec of None \<Rightarrow> JNull | Some m \<Rightarrow> JObj m))"

definition DiskSpec_String :: "ds_env \<Rightarrow> jmap option \<Rightarrow> string" where
  "DiskSpec_String de spec = DiskSpec_Bytes de spec"

datatype dstore =
    DMount "(string \<times> dstore) list"
  | DMap
  | DLog dstore string
  | DMeasure string dstore
  | DFlatfs string shard bool
  | DLevel string compression
  | DBadger string bool bool int
  | DPlugin nat string jmap

text \<open>Opening a database at a path: it stays open until it is closed.\<close>

definition open_db :: "ds_env \<Rightarrow> string \<Rightarrow> dstore \<Rightarrow> dstore io" where
  "open_db de p d w =
     (case ds_open de p of Some e \<Rightarrow> (Inl e, w) | None \<Rightarrow> (Inr d, w\<lparr>open_ds := p # open_ds w\<rparr>))"

definition db_path :: "string \<Rightarrow> string \<Rightarrow> string" where
  "db_path path p = (if prefix ''/'' p then p else path_Join [path, p])"

definition flatfs_Create :: "ds_env \<Rightarrow> string \<Rightarrow> shard \<Rightarrow> bool \<Rightarrow> string \<Rightarrow> dstore io" where
  [simp]: "flatfs_Create de p shardFun syncField path =
     open_db de (db_path path p) (DFlatfs (db_path path p) shardFun syncField)"

definition levelds_Create :: "ds_env \<Rightarrow> string \<Rightarrow> compression \<Rightarrow> string \<Rightarrow> dstore io" where
  [simp]: "levelds_Create de p compr path = open_db de (db_path path p) (DLevel (db_path path p) compr)"

definition badgerds_Create :: "os_env \<Rightarrow> ds_env \<Rightarrow> string \<Rightarrow> bool \<Rightarrow> bool \<Rightarrow> int \<Rightarrow> string \<Rightarrow> dstore io" where
  [simp]: "badgerds_Create env de p sw tr vls path =
     io_bind (os_MkdirAll env (db_path path p)) (\<lambda>_.
       open_db de (db_path path p) (DBadger (db_path path p) sw tr vls))"

fun Create :: "os_env \<Rightarrow> ds_env \<Rightarrow> dsconfig \<Rightarrow> string \<Rightarrow> dstore io"
  and create_mounts :: "os_env \<Rightarrow> ds_env \<Rightarrow> (dsconfig \<times> string) list \<Rightarrow> string \<Rightarrow> (string \<times> dstore) list io" where
  "Create env de (CMount mounts) path =
     io_bind (create_mounts env de mounts path) (\<lambda>ms. io_return (DMount ms))"
| "Create env de (CMem cfg) path = io_return DMap"
| "Create env de (CLog child name) path =
     io_bind (Create env de child path) (\<lambda>c. io_return (DLog c name))"
| "Create env de (CMeasure child pre) path =
     io_bind (Create env de child path) (\<lambda>c. io_return (DMeasure pre c))"
| "Create env de (CFlatfs p shardFun syncField) path = flatfs_Create de p shardFun syncField path"
| "Create env de (CLevel p compr) path = levelds_Create de p compr path"
| "Create env de (CBadger p sw tr vls) path = badgerds_Create env de p sw tr vls path"
| "Create env de (CPlugin n params) path = open_db de path (DPlugin n path params)"
| "create_mounts env de [] path = io_return []"
| "create_mounts env de ((c, p) # ms) path =
     io_bind (Create env de c path) (\<lambda>d.
     io_bind (create_mounts env de ms path) (\<lambda>ds. io_return ((p, d) # ds)))"

section \<open>The disk specification\<close>

lemma mounts_sorted_unique:
  assumes srt: "sorts (ds_sort de)" and dist: "distinct (map snd ms)"
    and eq: "mset (map (\<lambda>m. (DiskSpec de (fst m), snd m)) ms) = mset (map (\<lambda>m. (DiskSpec de (fst m), snd m)) ns)"
  shows "map (\<lambda>m. (DiskSpec de (fst m), snd m)) (ds_sort de mount_after ms)
       = map (\<lambda>m. (DiskSpec de (fst m), snd m)) (ds_sort de mount_after ns)"
proof -
  define g where "g = (\<lambda>m::dsconfig \<times> string. (DiskSpec de (fst m), snd m))"
  define lt where "lt = (\<lambda>(a :: jmap option \<times> string) (b :: jmap option \<times> string). snd a > snd b)"
  have order: "(\<forall>x y z. mount_after x y \<longrightarrow> mount_after y z \<longrightarrow> mount_after x z) \<and> (\<forall>x. \<not> mount_after x x)
      \<and> (\<forall>x y z. \<not> mount_after x y \<longrightarrow> \<not> mount_after y z \<longrightarrow> \<not> mount_after x z)"
    by (auto simp: mount_after_def)
  have sorted: "mset (ds_sort de mount_after xs) = mset xs \<and> sorted_wrt (\<lambda>x y. \<not> mount_after y x) (ds_sort de mount_after xs)" for xs
    using srt [unfolded sorts_def, THEN spec, THEN spec, THEN mp, OF order] .
  have sw: "sorted_wrt (\<lambda>x y. \<not> lt y x) (map g (ds_sort de mount_after xs))" for xs
    using sorted [of xs] by (simp add: sorted_wrt_map lt_def g_def mount_after_def)
  have ms: "mset (map g (ds_sort de mount_after xs)) = mset (map g xs)" for xs
    using sorted [of xs] by (metis mset_map)
  have set: "set (map g (ds_sort de mount_after ms)) = set (map g ms)" by (rule mset_eq_setD [OF ms])
  have inj: "x = y" if xy: "x \<in> set (map g (ds_sort de mount_after ms))" "y \<in> set (map g (ds_sort de mount_after ms))"
      "\<not> lt x y" "\<not> lt y x" for x y
  proof -
    obtain a b where ab: "a \<in> set ms" "b \<in> set ms" "x = g a" "y = g b" using xy(1, 2) set by auto
    moreover have "snd a = snd b" using xy(3, 4) ab by (simp add: lt_def g_def)
    moreover have "inj_on snd (set ms)" using dist by (simp add: distinct_map)
    ultimately show ?thesis by (metis inj_onD)
  qed
  have "mset (map g (ds_sort de mount_after ms)) = mset (map g (ds_sort de mount_after ns))"
    unfolding ms using eq unfolding g_def .
  then show ?thesis
    unfolding g_def [symmetric] by (intro sorted_unique [OF _ sw sw]) (rule inj)
qed

text \<open>What of a configuration does not concern the data on disk is taken out: the log and measure wrappers at
  any depth, the options of a datastore in memory, the sync option of a flatfs, the compression of a leveldb
  and the options of a badger. What is left are the kinds, the paths, the shard function and the mount points.\<close>

fun erase :: "dsconfig \<Rightarrow> dsconfig" where
  "erase (CMount mounts) = CMount (map (\<lambda>m. (erase (fst m), snd m)) mounts)"
| "erase (CMem cfg) = CMem []"
| "erase (CLog child name) = erase child"
| "erase (CMeasure child pre) = erase child"
| "erase (CFlatfs path shardFun syncField) = CFlatfs path shardFun False"
| "erase (CLevel path compr) = CLevel path DefaultCompression"
| "erase (CBadger path sw tr vls) = CBadger path False False 0"
| "erase (CPlugin n params) = CPlugin n params"

lemma DiskSpec_erase: "DiskSpec de (erase c) = DiskSpec de c"
proof (induction c rule: erase.induct)
  case (1 mounts)
  then have "map (\<lambda>m. JObj (jput ''mountpoint'' (JStr (snd m)) (case DiskSpec de (erase (fst m)) of None \<Rightarrow> [] | Some c \<Rightarrow> c))) mounts
      = map (\<lambda>m. JObj (jput ''mountpoint'' (JStr (snd m)) (case DiskSpec de (fst m) of None \<Rightarrow> [] | Some c \<Rightarrow> c))) mounts"
    by (intro map_cong) auto
  then show ?case unfolding erase.simps DiskSpec.simps map_map comp_def fst_conv snd_conv by (rule arg_cong)
qed auto

text \<open>C28. The disk specification of a mount, against which an existing repository is compared, is the
  same for any two configurations that mount the same datastores at the same places: it depends neither
  on the order in which the mounts are listed, nor on the wrappers and options of the children that do not concern the
  data on disk (log and measure wrappers, sync and compression). The mount points of one specification are distinct;
  with two equal ones the order of the two would show. Of Go's sort only what it documents is used.\<close>

theorem DiskSpec_order_and_options:
  assumes srt: "sorts (ds_sort de)" and reg: "map_of reg ''mount'' = Some HMount"
    and p: "map_of p ''type'' = Some (JStr ''mount'')" "map_of p ''mounts'' = Some (JArr xs)"
    and q: "map_of q ''type'' = Some (JStr ''mount'')" "map_of q ''mounts'' = Some (JArr ys)"
    and ms: "mount_children de reg xs = Inr ms" "distinct (map snd ms)"
    and ns: "mount_children de reg ys = Inr ns"
    and same: "mset (map (\<lambda>m. (erase (fst m), snd m)) ms) = mset (map (\<lambda>m. (erase (fst m), snd m)) ns)"
  shows "\<exists>c d. AnyDatastoreConfig de reg p = Inr c \<and> AnyDatastoreConfig de reg q = Inr d
    \<and> DiskSpec de c = DiskSpec de d \<and> DiskSpec_String de (DiskSpec de c) = DiskSpec_String de (DiskSpec de d)"
proof -
  define h where "h = (\<lambda>e :: jmap option \<times> string. JObj (jput ''mountpoint'' (JStr (snd e))
    (case fst e of None \<Rightarrow> [] | Some c \<Rightarrow> c)))"
  have spec: "DiskSpec de (CMount zs) = Some (jput ''mounts''
      (JArr (map h (map (\<lambda>m. (DiskSpec de (fst m), snd m)) zs))) [(''type'', JStr ''mount'')])" for zs
    by (simp add: h_def comp_def)
  have er: "mset (map (\<lambda>m. (DiskSpec de (fst m), snd m)) zs)
      = image_mset (\<lambda>m. (DiskSpec de (fst m), snd m)) (mset (map (\<lambda>m. (erase (fst m), snd m)) zs))" for zs :: "(dsconfig \<times> string) list"
    by (simp add: DiskSpec_erase comp_def flip: mset_map)
  have same: "mset (map (\<lambda>m. (DiskSpec de (fst m), snd m)) ms) = mset (map (\<lambda>m. (DiskSpec de (fst m), snd m)) ns)"
    unfolding er same ..
  have "DiskSpec de (CMount (ds_sort de mount_after ms)) = DiskSpec de (CMount (ds_sort de mount_after ns))"
    unfolding spec using mounts_sorted_unique [OF srt ms(2) same] by simp
  moreover have "AnyDatastoreConfig de reg p = Inr (CMount (ds_sort de mount_after ms))"
    "AnyDatastoreConfig de reg q = Inr (CMount (ds_sort de mount_after ns))"
    using reg p q ms(1) ns by (simp_all add: AnyDatastoreConfig.simps)
  ultimately show ?thesis by metis
qed

definition sample_ds :: ds_env where
  "sample_ds = \<lparr>ds_sort = insertion_sort, ParseBytes = (\<lambda>_. Inr 0), plugin_parse = (\<lambda>_ _. None),
     plugin_DiskSpec = (\<lambda>_ _. None), ds_open = (\<lambda>_. None), json_Marshal = (\<lambda>j. if j = JNull then ''null'' else ''spec'')\<rparr>"

definition sample_reg :: ds_registry where
  "sample_reg = (''flatfs'', HFlatfs) # (''levelds'', HLevel) # datastores"

text \<open>Two specifications of the usual layout: blocks in a flatfs and the rest in leveldb, listed in
  either order, with and without a measuring wrapper and synchronous writes.\<close>

definition flat_spec :: "bool \<Rightarrow> jmap" where
  "flat_spec sync = [(''type'', JStr ''flatfs''), (''path'', JStr ''blocks''), (''sync'', JBool sync),
     (''shardFunc'', JStr ''/repo/flatfs/shard/v1/next-to-last/2''), (''mountpoint'', JStr ''/blocks'')]"

definition level_spec :: jmap where
  "level_spec = [(''type'', JStr ''levelds''), (''path'', JStr ''datastore''), (''mountpoint'', JStr ''/'')]"

definition measured :: "jmap \<Rightarrow> jmap" where
  "measured c = [(''type'', JStr ''measure''), (''prefix'', JStr ''leveldb''), (''child'', JObj c), (''mountpoint'', JStr ''/'')]"

definition mount_spec :: "json list \<Rightarrow> jmap" where
  "mount_spec xs = [(''type'', JStr ''mount''), (''mounts'', JArr xs)]"

theorem DiskSpec_order_and_options_witness:
  "\<exists>c d. AnyDatastoreConfig sample_ds sample_reg (mount_spec [JObj (flat_spec True), JObj (measured level_spec)]) = Inr c
    \<and> AnyDatastoreConfig sample_ds sample_reg (mount_spec [JObj level_spec, JObj (flat_spec False)]) = Inr d
    \<and> DiskSpec sample_ds c = DiskSpec sample_ds d
    \<and> DiskSpec_String sample_ds (DiskSpec sample_ds c) = DiskSpec_String sample_ds (DiskSpec sample_ds d)"
proof -
  define sh where "sh = \<lparr>funName = ''next-to-last'', param = 2\<rparr>"
  have sf: "ParseShardFunc ''/repo/flatfs/shard/v1/next-to-last/2'' = Inr sh" unfolding sh_def by code_simp
  have keys: "NewKey ''/blocks'' = ''/blocks''" "NewKey ''/'' = ''/''" by code_simp+
  note defs = sample_reg_def datastores_def flat_spec_def level_spec_def measured_def flatfs_config_def
    levelds_config_def sf keys AnyDatastoreConfig.simps
  have m1: "mount_children sample_ds sample_reg [JObj (flat_spec True), JObj (measured level_spec)]
      = Inr [(CFlatfs ''blocks'' sh True, ''/blocks''), (CMeasure (CLevel ''datastore'' DefaultCompression) ''leveldb'', ''/'')]"
    by (simp add: defs)
  have m2: "mount_children sample_ds sample_reg [JObj level_spec, JObj (flat_spec False)]
      = Inr [(CLevel ''datastore'' DefaultCompression, ''/''), (CFlatfs ''blocks'' sh False, ''/blocks'')]"
    by (simp add: defs)
  show ?thesis
    by (rule DiskSpec_order_and_options [OF _ _ _ _ _ _ m1 _ m2])
      (simp_all add: sample_ds_def sorts_insertion_sort mount_spec_def sample_reg_def datastores_def)
qed

section \<open>Errors\<close>

text \<open>A mount point that is not a string is a panic, not an error.\<close>

lemma mountpoint_panics:
  "AnyDatastoreConfig sample_ds sample_reg
     (mount_spec [JObj [(''type'', JStr ''mem''), (''mountpoint'', JNum ''1'')]]) =
   Inl (Panic ''interface conversion: interface {} is not string'')"
  by (simp add: sample_reg_def datastores_def mount_spec_def AnyDatastoreConfig.simps)

text \<open>When the second of two mounts cannot be opened, \<open>Create\<close> fails and the first one stays open.\<close>

lemma Create_leaks:
  assumes "ds_open de ''/r/a'' = None" "ds_open de ''/r/b'' = Some e" "open_ds w = []"
  shows "Create env de (CMount [(CLevel ''/r/a'' DefaultCompression, ''/a''), (CLevel ''/r/b'' DefaultCompression, ''/'')]) ''/r'' w
    = (Inl e, w\<lparr>open_ds := [''/r/a'']\<rparr>)"
  using assms by (simp add: io_bind_def open_db_def db_path_def)

end
