(* ===== verification/FS_Repo.thy ===== *)
theory FS_Repo
  imports Datastores Migrations
begin

text \<open>
  The repository on disk, from \<^verbatim>\<open>repo/fsrepo/{fsrepo,misc}.go\<close>, with the configuration file functions of
  \<^verbatim>\<open>go-ipfs-config/serialize\<close>, the atomic file it uses and \<^verbatim>\<open>thirdparty/dir\<close>.

  An \<open>FSRepo\<close> is a record of the fields of the Go struct; a method is a function of the record and the
  world and returns both. The package lock is held during each operation, which is therefore one
  step. Parameters (\<open>cfg_env\<close>) are the JSON codec for maps and for the configuration struct, the
  conversions between the two, multiaddress parsing and the closing of a datastore. Error texts are
  abridged.

  Shown here: what was initialised can be opened; a failed open gives its lock back and a successful
  one holds exactly its own, until it is closed; setting a configuration key cannot change the private
  key; what \<open>SetAPIAddr\<close> registers is what \<open>APIAddr\<close> reads; and three error paths that leave
  something behind.
\<close>

section \<open>Configuration\<close>

text \<open>The fields of the configuration struct that the modelled code reads; \<open>cfg_rest\<close> is everything else.\<close>

record remote_service =
  api_Endpoint :: string
  api_Key :: string
  svc_Policies :: json

record config =
  Identity_PrivKey :: string
  RemoteServices :: "(string \<times> remote_service) list"
  ds_Type :: string
  ds_Path :: string
  ds_Spec :: "jmap option"
  FilestoreEnabled :: bool
  UrlstoreEnabled :: bool
  cfg_rest :: json

record cfg_env =
  decode_map :: "string \<Rightarrow> error + jmap"
  encode_map :: "jmap \<Rightarrow> string"
  decode_config :: "string \<Rightarrow> error + config"
  encode_config :: "config \<Rightarrow> string"
  FromMap :: "jmap \<Rightarrow> error + config"
  ToMap :: "config \<Rightarrow> error + jmap"
  NewMultiaddr :: "string \<Rightarrow> error + string"
  ds_close_err :: "dstore \<Rightarrow> error option"

definition config_Path :: "os_env \<Rightarrow> string \<Rightarrow> string \<Rightarrow> error + string" where
  "config_Path env configroot extension =
     (if length configroot = 0 then
        bind_res (if length (Getenv env ''IPFS_PATH'') = 0 then homedir_Expand env ''~/.ipfs''
                  else Inr (Getenv env ''IPFS_PATH''))
          (\<lambda>dir. Inr (path_Join [dir, extension]))
      else Inr (path_Join [configroot, extension]))"

lemma config_Filename_Path: "config_Filename env root = config_Path env root ''config''"
  by (simp add: config_Filename_def config_Path_def)

text \<open>\<^verbatim>\<open>serialize.ReadConfigFile\<close> for a decoder.\<close>

definition ReadConfigFile :: "os_env \<Rightarrow> (string \<Rightarrow> error + 'a) \<Rightarrow> string \<Rightarrow> 'a io" where
  "ReadConfigFile env dec filename =
     io_bind (io_try (os_ReadFile env filename)) (\<lambda>r.
       case r of
         Inl e \<Rightarrow> io_fail (if IsNotExist e then Errorf ''ipfs not initialized, please run ipfs init'' else e)
       | Inr d \<Rightarrow> io_wrap ''failure to decode config: '' (io_lift (dec d)))"

text \<open>\<^verbatim>\<open>atomicfile.New\<close> and the \<^verbatim>\<open>Close\<close> that moves the new file into place.\<close>

definition atomicfile_New :: "os_env \<Rightarrow> string \<Rightarrow> nat \<Rightarrow> string io" where
  "atomicfile_New env p m =
     io_bind (os_TempFile env (path_Dir p) (path_Base p)) (\<lambda>t.
     io_bind (io_try (os_Chmod env t m)) (\<lambda>r.
       case r of
         Inl e \<Rightarrow> io_bind (io_try (os_Remove env t)) (\<lambda>_. io_fail e)
       | Inr _ \<Rightarrow> io_return t))"

definition WriteConfigFile :: "os_env \<Rightarrow> string \<Rightarrow> string \<Rightarrow> unit io" where
  "WriteConfigFile env filename buf =
     io_bind (os_MkdirAll env (path_Dir filename)) (\<lambda>_.
     io_bind (atomicfile_New env filename 384) (\<lambda>t.
       io_defer (os_Rename env t filename) (os_Write env t buf)))"

definition Load :: "os_env \<Rightarrow> cfg_env \<Rightarrow> string \<Rightarrow> config io" where
  "Load env ce filename = ReadConfigFile env (decode_config ce) filename"

text \<open>\<^verbatim>\<open>util.FileExists\<close>: an error other than absence counts as existence.\<close>

definition FileExists :: "os_env \<Rightarrow> string \<Rightarrow> bool io" where
  "FileExists env p =
     io_bind (io_try (os_Stat env p)) (\<lambda>r.
       io_return (case r of Inl e \<Rightarrow> \<not> IsNotExist e | Inr _ \<Rightarrow> True))"

definition Writable :: "os_env \<Rightarrow> string \<Rightarrow> unit io" where
  "Writable env path =
     io_bind (os_MkdirAll env path) (\<lambda>_.
     io_bind (io_try (os_Create env (path_Join [path, ''._check_writable'']))) (\<lambda>r.
       case r of
         Inl _ \<Rightarrow> io_fail (Errorf (path @ '' is not writable''))
       | Inr _ \<Rightarrow> io_bind (io_try (os_Remove env (path_Join [path, ''._check_writable'']))) (\<lambda>_. io_return ())))"

section \<open>Initialising\<close>

definition RepoVersionNum :: int where
  "RepoVersionNum = 11"

definition configIsInitialized :: "os_env \<Rightarrow> string \<Rightarrow> bool io" where
  "configIsInitialized env path =
     (case config_Filename env path of
        Inl _ \<Rightarrow> io_return False
      | Inr configFilename \<Rightarrow> FileExists env configFilename)"

definition isInitializedUnsynced :: "os_env \<Rightarrow> string \<Rightarrow> bool io" where
  "isInitializedUnsynced env repoPath = configIsInitialized env repoPath"

definition IsInitialized :: "os_env \<Rightarrow> string \<Rightarrow> bool io" where
  "IsInitialized env path = isInitializedUnsynced env path"

definition initConfig :: "os_env \<Rightarrow> cfg_env \<Rightarrow> string \<Rightarrow> config \<Rightarrow> unit io" where
  "initConfig env ce path conf =
     io_bind (configIsInitialized env path) (\<lambda>done.
       if done then io_return ()
       else io_bind (io_lift (config_Filename env path)) (\<lambda>configFilename.
              WriteConfigFile env configFilename (encode_config ce conf)))"

text \<open>A nil map has no \<^verbatim>\<open>type\<close>, like an empty one.\<close>

definition initSpec :: "os_env \<Rightarrow> ds_env \<Rightarrow> ds_registry \<Rightarrow> string \<Rightarrow> jmap option \<Rightarrow> unit io" where
  "initSpec env de reg path conf =
     io_bind (io_lift (config_Path env path ''datastore_spec'')) (\<lambda>fn.
     io_bind (FileExists env fn) (\<lambda>ex.
       if ex then io_return ()
       else io_bind (io_lift (AnyDatastoreConfig de reg (case conf of None \<Rightarrow> [] | Some m \<Rightarrow> m))) (\<lambda>dsc.
              os_WriteFile env fn (DiskSpec_Bytes de (DiskSpec de dsc)) 384)))"

definition Init :: "os_env \<Rightarrow> cfg_env \<Rightarrow> ds_env \<Rightarrow> ds_registry \<Rightarrow> string \<Rightarrow> config \<Rightarrow> unit io" where
  "Init env ce de reg repoPath conf =
     io_bind (isInitializedUnsynced env repoPath) (\<lambda>done.
       if done then io_return ()
       else io_bind (initConfig env ce repoPath conf) (\<lambda>_.
            io_bind (initSpec env de reg repoPath (ds_Spec conf)) (\<lambda>_.
              WriteRepoVersion env repoPath RepoVersionNum)))"

section \<open>Opening\<close>

record filemgr =
  fm_root :: string
  AllowFiles :: bool
  AllowUrls :: bool

record FSRepo =
  closed :: bool
  path :: string
  lockfile :: string
  conf :: config
  ds :: dstore
  keystore :: string
  filemgr :: "filemgr option"

text \<open>\<^verbatim>\<open>strings.Replace(s, old, new, 1)\<close>.\<close>

fun replace_first :: "string \<Rightarrow> string \<Rightarrow> string \<Rightarrow> string" where
  "replace_first old new [] = (if old = [] then new else [])"
| "replace_first old new (c # cs) =
     (if prefix old (c # cs) then new @ drop (length old) (c # cs) else c # replace_first old new cs)"

definition newFSRepo :: "os_env \<Rightarrow> string \<Rightarrow> error + string" where
  "newFSRepo env rpath = homedir_Expand env (path_Clean rpath)"

definition checkInitialized :: "os_env \<Rightarrow> string \<Rightarrow> unit io" where
  "checkInitialized env p =
     io_bind (isInitializedUnsynced env p) (\<lambda>ok.
       if ok then io_return ()
       else io_bind (isInitializedUnsynced env (replace_first ''.ipfs'' ''.go-ipfs'' p)) (\<lambda>old.
         if old then io_fail (Errorf ''ipfs repo found in old ~/.go-ipfs location, please run migration tool.'')
         else io_fail (Errorf (''no IPFS repo found in '' @ p))))"

definition readSpec :: "os_env \<Rightarrow> string \<Rightarrow> string io" where
  "readSpec env p =
     io_bind (io_lift (config_Path env p ''datastore_spec'')) (\<lambda>fn.
     io_bind (os_ReadFile env fn) (\<lambda>b. io_return (trim_space b)))"

definition openConfig :: "os_env \<Rightarrow> cfg_env \<Rightarrow> string \<Rightarrow> config io" where
  "openConfig env ce p = io_bind (io_lift (config_Filename env p)) (Load env ce)"

definition openDatastore :: "os_env \<Rightarrow> ds_env \<Rightarrow> ds_registry \<Rightarrow> string \<Rightarrow> config \<Rightarrow> dstore io" where
  "openDatastore env de reg p c =
     (if ds_Type c \<noteq> [] \<or> ds_Path c \<noteq> [] then io_fail (Errorf ''old style datatstore config detected'')
      else case ds_Spec c of
        None \<Rightarrow> io_fail (Errorf ''required Datastore.Spec entry missing from config file'')
      | Some spec0 \<Rightarrow>
          io_bind (io_lift (AnyDatastoreConfig de reg spec0)) (\<lambda>dsc.
            let spec = DiskSpec de dsc in
            io_bind (readSpec env p) (\<lambda>oldSpec.
              if oldSpec \<noteq> DiskSpec_String de spec then
                io_fail (Errorf (''datastore configuration of '' @ oldSpec @ '' does not match what is on disk ''
                  @ DiskSpec_String de spec))
              else io_bind (Create env de dsc p) (\<lambda>d.
                io_return (DMeasure ''ipfs.fsrepo.datastore'' d)))))"

text \<open>\<^verbatim>\<open>keystore.NewFSKeystore\<close>: the directory is made unless it is there.\<close>

definition openKeystore :: "os_env \<Rightarrow> string \<Rightarrow> string io" where
  "openKeystore env p w =
     (let ksp = path_Join [p, ''keystore''] in
      case fault env OpMkdir ksp of
        Some e \<Rightarrow> (Inl (Errorf e), w)
      | None \<Rightarrow>
          (case files w ksp of
             Some _ \<Rightarrow> (Inr ksp, w)
           | None \<Rightarrow>
               if files w (path_Dir ksp) = Some Dir then (Inr ksp, w\<lparr>files := (files w)(ksp \<mapsto> Dir)\<rparr>)
               else (Inl (NotExist ksp), w)))"

text \<open>A deferred call that is run only when the rest fails.\<close>

definition io_on_error :: "unit io \<Rightarrow> 'a io \<Rightarrow> 'a io" where
  "io_on_error d m w = (case m w of (Inl e, w') \<Rightarrow> (Inl e, snd (d w')) | (Inr a, w') \<Rightarrow> (Inr a, w'))"

definition check_version :: "os_env \<Rightarrow> string \<Rightarrow> unit io" where
  "check_version env p =
     io_bind (io_try (RepoVersion env p)) (\<lambda>r.
       case r of
         Inl e \<Rightarrow> io_fail (if IsNotExist e then Errorf ''no version file found, please run 0-to-1 migration tool.'' else e)
       | Inr ver \<Rightarrow>
           if RepoVersionNum > ver then io_fail (Errorf ''ipfs repo needs migration'')
           else if ver > RepoVersionNum then
             io_fail (Errorf (''Your programs version ('' @ show_int RepoVersionNum @ '') is lower than your repos ('' @ show_int ver @ '').''))
           else io_return ())"

definition lock_path :: "string \<Rightarrow> string" where
  "lock_path p = path_Join [p, ''repo.lock'']"

text \<open>The part of \<open>open\<close> that runs with the lock held.\<close>

definition open_locked :: "os_env \<Rightarrow> cfg_env \<Rightarrow> ds_env \<Rightarrow> ds_registry \<Rightarrow> string \<Rightarrow> string \<Rightarrow> FSRepo io" where
  "open_locked env ce de reg p lk =
     io_bind (check_version env p) (\<lambda>_.
     io_bind (Writable env p) (\<lambda>_.
     io_bind (openConfig env ce p) (\<lambda>c.
     io_bind (openDatastore env de reg p c) (\<lambda>d.
     io_bind (openKeystore env p) (\<lambda>ks.
       io_return \<lparr>closed = False, path = p, lockfile = lk, conf = c, ds = d, keystore = ks,
         filemgr = (if FilestoreEnabled c \<or> UrlstoreEnabled c
           then Some \<lparr>fm_root = path_Dir p, AllowFiles = FilestoreEnabled c, AllowUrls = UrlstoreEnabled c\<rparr>
           else None)\<rparr>)))))"

definition fsrepo_open :: "os_env \<Rightarrow> cfg_env \<Rightarrow> ds_env \<Rightarrow> ds_registry \<Rightarrow> string \<Rightarrow> FSRepo io" where
  "fsrepo_open env ce de reg repoPath =
     io_bind (io_lift (newFSRepo env repoPath)) (\<lambda>p.
     io_bind (checkInitialized env p) (\<lambda>_.
     io_bind (lock_Lock env (lock_path p)) (\<lambda>lk.
       io_on_error (lock_Close lk) (open_locked env ce de reg p lk))))"

definition ConfigAt :: "os_env \<Rightarrow> cfg_env \<Rightarrow> string \<Rightarrow> config io" where
  "ConfigAt env ce repoPath = io_bind (io_lift (config_Filename env repoPath)) (Load env ce)"

definition LockedByOtherProcess :: "os_env \<Rightarrow> string \<Rightarrow> bool" where
  "LockedByOtherProcess env repoPath = (locked_by_other env (lock_path (path_Clean repoPath)) \<noteq> None)"

definition BestKnownPath :: "os_env \<Rightarrow> error + string" where
  "BestKnownPath env =
     homedir_Expand env (if Getenv env ''IPFS_PATH'' \<noteq> [] then Getenv env ''IPFS_PATH'' else ''~/.ipfs'')"

section \<open>The API address and the swarm key\<close>

definition APIAddr :: "os_env \<Rightarrow> cfg_env \<Rightarrow> string \<Rightarrow> string io" where
  "APIAddr env ce repoPath =
     (let apiFilePath = path_Join [path_Clean repoPath, ''api''] in
      io_bind (io_try (os_ReadFile env apiFilePath)) (\<lambda>r.
        case r of
          Inl e \<Rightarrow> io_fail (if IsNotExist e then Errorf ''api not running'' else e)
        | Inr d \<Rightarrow>
            let buf = take 2048 d in
            if length buf = 2048 then
              io_fail (Errorf (''API file too large, must be <2048 bytes long: '' @ apiFilePath))
            else io_lift (NewMultiaddr ce (trim_space buf))))"

definition SetAPIAddr :: "os_env \<Rightarrow> FSRepo \<Rightarrow> string \<Rightarrow> unit io" where
  "SetAPIAddr env r addr =
     (let tmp = path_Join [path r, ''.api.tmp''] in
      io_bind (os_Create env tmp) (\<lambda>_.
      io_bind (os_Write env tmp addr) (\<lambda>_.
      io_bind (io_try (os_Rename env tmp (path_Join [path r, ''api'']))) (\<lambda>res.
        case res of
          Inr _ \<Rightarrow> io_return ()
        | Inl e \<Rightarrow>
            io_bind (io_try (os_Remove env tmp)) (\<lambda>res1.
              case res1 of
                Inl e1 \<Rightarrow> io_fail (Errorf (''File Rename error: '' @ error_msg e @ '', File remove error: '' @ error_msg e1))
              | Inr _ \<Rightarrow> io_fail e)))))"

definition SwarmKey :: "os_env \<Rightarrow> FSRepo \<Rightarrow> string option io" where
  "SwarmKey env r =
     io_bind (io_try (os_ReadFile env (path_Join [path_Clean (path r), ''swarm.key'']))) (\<lambda>res.
       case res of
         Inl e \<Rightarrow> if IsNotExist e then io_return None else io_fail e
       | Inr d \<Rightarrow> io_return (Some d))"

section \<open>Methods of an open repository\<close>

type_synonym 'a meth = "FSRepo \<Rightarrow> world \<Rightarrow> (error + 'a) \<times> FSRepo \<times> world"

definition m_io :: "'a io \<Rightarrow> 'a meth" where
  "m_io m r w = (case m w of (x, w') \<Rightarrow> (x, r, w'))"

definition m_bind :: "'a meth \<Rightarrow> ('a \<Rightarrow> 'b meth) \<Rightarrow> 'b meth" where
  "m_bind m f r w = (case m r w of (Inl e, r', w') \<Rightarrow> (Inl e, r', w') | (Inr a, r', w') \<Rightarrow> f a r' w')"

definition m_upd :: "(FSRepo \<Rightarrow> FSRepo) \<Rightarrow> unit meth" where
  "m_upd g r w = (Inr (), g r, w)"

fun ds_paths :: "dstore \<Rightarrow> string list" where
  "ds_paths (DMount ms) = concat (map (\<lambda>m. ds_paths (snd m)) ms)"
| "ds_paths DMap = []"
| "ds_paths (DLog d n) = ds_paths d"
| "ds_paths (DMeasure n d) = ds_paths d"
| "ds_paths (DFlatfs p s b) = [p]"
| "ds_paths (DLevel p c) = [p]"
| "ds_paths (DBadger p a b c) = [p]"
| "ds_paths (DPlugin n p m) = [p]"

definition ds_Close :: "cfg_env \<Rightarrow> dstore \<Rightarrow> unit io" where
  "ds_Close ce d w =
     (case ds_close_err ce d of
        Some e \<Rightarrow> (Inl e, w)
      | None \<Rightarrow> (Inr (), w\<lparr>open_ds := fold remove1 (ds_paths d) (open_ds w)\<rparr>))"

definition FSRepo_Close :: "os_env \<Rightarrow> cfg_env \<Rightarrow> unit meth" where
  "FSRepo_Close env ce r w =
     (if closed r then (Inl (Errorf ''repo is closed''), r, w)
      else m_bind (m_io (io_try (os_Remove env (path_Join [path r, ''api''])))) (\<lambda>_.
           m_bind (m_io (ds_Close ce (ds r))) (\<lambda>_.
           m_bind (m_upd (\<lambda>r. r\<lparr>closed := True\<rparr>)) (\<lambda>_.
             m_io (lock_Close (lockfile r))))) r w)"

definition FSRepo_Config :: "FSRepo \<Rightarrow> error + config" where
  "FSRepo_Config r = (if closed r then Inl (Errorf ''cannot access config, repo not open'') else Inr (conf r))"

definition BackupConfig :: "os_env \<Rightarrow> FSRepo \<Rightarrow> string \<Rightarrow> string io" where
  "BackupConfig env r pre =
     io_bind (os_TempFile env (path r) (''config-'' @ pre)) (\<lambda>temp.
     io_bind (io_lift (config_Filename env (path r))) (\<lambda>configFilename.
     io_bind (os_ReadFile env configFilename) (\<lambda>d.
     io_bind (io_Copy env temp (d, None)) (\<lambda>_. io_return configFilename))))"

text \<open>The loop that overlays the map of the file with the map of the struct; no two entries of a Go map
  have the same key, so that the order of the loop does not matter.\<close>

definition overlay :: "jmap \<Rightarrow> jmap \<Rightarrow> jmap" where
  "overlay m mapconf = foldr (\<lambda>e acc. jput (fst e) (snd e) acc) m mapconf"

definition setConfigUnsynced :: "os_env \<Rightarrow> cfg_env \<Rightarrow> config \<Rightarrow> unit meth" where
  "setConfigUnsynced env ce updated r =
     m_bind (m_io (io_lift (config_Filename env (path r)))) (\<lambda>configFilename.
     m_bind (m_io (ReadConfigFile env (decode_map ce) configFilename)) (\<lambda>mapconf.
     m_bind (m_io (io_lift (ToMap ce updated))) (\<lambda>m.
     m_bind (m_io (WriteConfigFile env configFilename (encode_map ce (overlay m mapconf)))) (\<lambda>_.
       m_upd (\<lambda>r. r\<lparr>conf := updated\<rparr>))))) r"

definition SetConfig :: "os_env \<Rightarrow> cfg_env \<Rightarrow> config \<Rightarrow> unit meth" where
  "SetConfig env ce updated = setConfigUnsynced env ce updated"

definition GetConfigKey :: "os_env \<Rightarrow> cfg_env \<Rightarrow> string \<Rightarrow> FSRepo \<Rightarrow> json io" where
  "GetConfigKey env ce k r =
     (if closed r then io_fail (Errorf ''repo is closed'')
      else io_bind (io_lift (config_Filename env (path r))) (\<lambda>filename.
           io_bind (ReadConfigFile env (decode_map ce) filename) (\<lambda>cfg.
             io_lift (MapGetKV cfg k))))"

definition PrivKeySelector :: string where
  "PrivKeySelector = ''Identity.PrivKey''"

definition SetConfigKey :: "os_env \<Rightarrow> cfg_env \<Rightarrow> string \<Rightarrow> json \<Rightarrow> unit meth" where
  "SetConfigKey env ce k value r w =
     (if closed r then (Inl (Errorf ''repo is closed''), r, w)
      else m_bind (m_io (io_lift (config_Filename env (path r)))) (\<lambda>filename.
           m_bind (m_io (ReadConfigFile env (decode_map ce) filename)) (\<lambda>mapconf.
           m_bind (m_io (io_lift (MapGetKV mapconf PrivKeySelector))) (\<lambda>pkval.
           m_bind (m_io (io_lift (MapSetKV mapconf k value))) (\<lambda>mapconf.
           m_bind (m_io (io_lift (MapSetKV mapconf PrivKeySelector pkval))) (\<lambda>mapconf.
           m_bind (m_io (io_lift (FromMap ce mapconf))) (\<lambda>c.
           m_bind (m_io (WriteConfigFile env filename (encode_map ce mapconf))) (\<lambda>_.
             setConfigUnsynced env ce c))))))) r w)"

section \<open>Locks and databases\<close>

lemma m_bind_Inr [simp]:
  "m_bind m f r w = (Inr b, r2, w2) \<longleftrightarrow> (\<exists>a r1 w1. m r w = (Inr a, r1, w1) \<and> f a r1 w1 = (Inr b, r2, w2))"
  by (auto simp: m_bind_def split: prod.splits sum.splits)

lemma m_io_eq [simp]: "m_io m r w = (x, r2, w2) \<longleftrightarrow> r2 = r \<and> m w = (x, w2)"
  by (auto simp: m_io_def split: prod.splits)

lemma m_upd_eq [simp]: "m_upd g r w = (x, r2, w2) \<longleftrightarrow> x = Inr () \<and> r2 = g r \<and> w2 = w"
  by (auto simp: m_upd_def)

lemma silent_FileExists [silent_intros]: "silent (FileExists env p)"
  unfolding FileExists_def by (intro silent_intros)

lemma silent_isInitialized [silent_intros]: "silent (isInitializedUnsynced env p)"
  unfolding isInitializedUnsynced_def configIsInitialized_def by (auto intro: silent_intros split: sum.split)

lemma silent_checkInitialized [silent_intros]: "silent (checkInitialized env p)"
  unfolding checkInitialized_def by (auto intro!: silent_intros)

lemma silent_RepoVersion [silent_intros]: "silent (RepoVersion env p)"
  unfolding RepoVersion_def CheckIpfsDir_def repoVersion_def
  by (intro silent_intros) (auto intro: silent_intros split: option.split)

lemma silent_check_version [silent_intros]: "silent (check_version env p)"
  unfolding check_version_def by (auto intro!: silent_intros split: sum.split)

lemma silent_Writable [silent_intros]: "silent (Writable env p)"
  unfolding Writable_def by (auto intro!: silent_intros split: sum.split)

lemma silent_ReadConfigFile [silent_intros]: "silent (ReadConfigFile env dec p)"
  unfolding ReadConfigFile_def by (auto intro!: silent_intros split: sum.split)

lemma silent_openConfig [silent_intros]: "silent (openConfig env ce p)"
  unfolding openConfig_def Load_def by (intro silent_intros)

lemma silent_readSpec [silent_intros]: "silent (readSpec env p)"
  unfolding readSpec_def by (intro silent_intros)

lemma silent_openKeystore [silent_intros]: "silent (openKeystore env p)"
  by (rule silentI) (auto simp: openKeystore_def Let_def same_files split: option.splits)

text \<open>Calls that leave the locks alone; opening datastores is among them.\<close>

definition lock_free :: "'a io \<Rightarrow> bool" where
  "lock_free m = (\<forall>w. locks (snd (m w)) = locks w)"

named_theorems lock_free_intros \<open>calls that leave the locks alone\<close>

lemma lock_freeD: "lock_free m \<Longrightarrow> m w = (r, w') \<Longrightarrow> locks w' = locks w"
  by (metis lock_free_def snd_conv)

lemma lock_free_silent: "silent m \<Longrightarrow> lock_free m"
  unfolding lock_free_def using silentD(2) by (metis prod.collapse)

lemmas lock_free_basic [lock_free_intros] =
  lock_free_silent [OF silent_return] lock_free_silent [OF silent_fail] lock_free_silent [OF silent_lift]
  lock_free_silent [OF silent_MkdirAll] lock_free_silent [OF silent_readSpec]

lemma lock_free_bind [lock_free_intros]:
  assumes "lock_free m" "\<And>a. lock_free (f a)"
  shows "lock_free (io_bind m f)"
proof (unfold lock_free_def, intro allI)
  fix w
  obtain r v where v: "m w = (r, v)" by fastforce
  then have "locks v = locks w" using assms(1) lock_freeD by blast
  then show "locks (snd (io_bind m f w)) = locks w"
    using v assms(2) by (cases r) (auto simp: io_bind_def lock_free_def)
qed

lemma lock_free_open_db [lock_free_intros]: "lock_free (open_db de p d)"
  by (auto simp: lock_free_def open_db_def split: option.splits)

lemma lock_free_Create:
  "lock_free (Create env de c p)" "lock_free (create_mounts env de ms p)"
  by (induction env de c p and env de ms p rule: Create_create_mounts.induct)
    (auto intro!: lock_free_intros)

lemma lock_free_openDatastore [lock_free_intros]: "lock_free (openDatastore env de reg p c)"
  unfolding openDatastore_def Let_def
  by (auto intro!: lock_free_intros lock_free_Create split: option.split)

lemma lock_free_open_locked: "lock_free (open_locked env ce de reg p lk)"
  unfolding open_locked_def
  by (intro lock_free_bind lock_free_openDatastore) (auto intro!: lock_free_silent silent_intros)

text \<open>The databases that \<open>Create\<close> opens are those of the datastore it returns, and closing that
  datastore closes them all.\<close>

lemma Create_opens:
  "Create env de c p w = (Inr d, w') \<Longrightarrow> \<exists>xs. open_ds w' = xs @ open_ds w \<and> mset xs = mset (ds_paths d)"
  "create_mounts env de ms p w = (Inr ds', w') \<Longrightarrow>
     \<exists>xs. open_ds w' = xs @ open_ds w \<and> mset xs = mset (concat (map (\<lambda>m. ds_paths (snd m)) ds'))"
proof (induction env de c p and env de ms p arbitrary: w d w' and w ds' w' rule: Create_create_mounts.induct)
  case (7 env de p sw tr vls path)
  then obtain v where v: "os_MkdirAll env (db_path path p) w = (Inr (), v)"
    "open_db de (db_path path p) (DBadger (db_path path p) sw tr vls) v = (Inr d, w')" by auto
  have "open_ds v = open_ds w" using silentD(3) [OF silent_MkdirAll v(1)] .
  then show ?case using v(2) by (auto simp: open_db_def split: option.splits)
next
  case (10 env de c p ms path)
  then obtain d1 v ds1 where v: "Create env de c path w = (Inr d1, v)" "create_mounts env de ms path v = (Inr ds1, w')"
    "ds' = (p, d1) # ds1" by auto
  obtain xs where "open_ds v = xs @ open_ds w" "mset xs = mset (ds_paths d1)" using 10(1) v(1) by blast
  moreover obtain ys where "open_ds w' = ys @ open_ds v" "mset ys = mset (concat (map (\<lambda>m. ds_paths (snd m)) ds1))"
    using 10(2) v(2) by blast
  ultimately show ?case using v(3) by (intro exI [of _ "ys @ xs"]) simp
qed (fastforce simp: open_db_def split: option.splits)+

lemma fold_remove1_prefix: "mset xs = mset ys \<Longrightarrow> fold remove1 xs (ys @ zs) = zs"
proof (induction xs arbitrary: ys)
  case (Cons x xs)
  then have x: "x \<in> set ys" by (metis list.set_intros(1) mset_eq_setD)
  then have "mset xs = mset (remove1 x ys)" using Cons.prems by (metis add_mset_remove_trivial mset.simps(2) mset_remove1)
  then show ?case using Cons.IH x by (simp add: remove1_append)
qed simp

lemma open_locked_opens:
  assumes "open_locked env ce de reg p lk w = (Inr r, w')"
  shows "closed r = False" "path r = p" "lockfile r = lk"
    "\<exists>xs. open_ds w' = xs @ open_ds w \<and> mset xs = mset (ds_paths (ds r))"
proof -
  obtain v1 v2 c v3 d v4 ks where st: "check_version env p w = (Inr (), v1)" "Writable env p v1 = (Inr (), v2)"
    "openConfig env ce p v2 = (Inr c, v3)" "openDatastore env de reg p c v3 = (Inr d, v4)"
    "openKeystore env p v4 = (Inr ks, w')" and r: "closed r = False" "path r = p" "lockfile r = lk" "ds r = d"
    using assms unfolding open_locked_def by auto
  show "closed r = False" "path r = p" "lockfile r = lk" using r by auto
  have same: "open_ds v3 = open_ds w" "open_ds w' = open_ds v4"
    using silentD(3) [OF silent_check_version st(1)] silentD(3) [OF silent_Writable st(2)]
      silentD(3) [OF silent_openConfig st(3)] silentD(3) [OF silent_openKeystore st(5)] by auto
  obtain spec0 where spec: "ds_Spec c = Some spec0"
    using st(4) by (cases "ds_Spec c") (auto simp: openDatastore_def split: if_splits)
  obtain dsc os v d0 where rd: "readSpec env p v3 = (Inr os, v)" "Create env de dsc p v = (Inr d0, v4)"
    "d = DMeasure ''ipfs.fsrepo.datastore'' d0"
    using st(4) spec by (auto simp: openDatastore_def Let_def split: if_splits)
  have "open_ds v = open_ds v3" using silentD(3) [OF silent_readSpec rd(1)] .
  then show "\<exists>xs. open_ds w' = xs @ open_ds w \<and> mset xs = mset (ds_paths (ds r))"
    using Create_opens(1) [OF rd(2)] rd(3) r(4) same by simp
qed

lemma ds_Close_Inr:
  "ds_Close ce d w = (Inr (), w') \<Longrightarrow> w' = w\<lparr>open_ds := fold remove1 (ds_paths d) (open_ds w)\<rparr>"
  by (simp add: ds_Close_def split: option.splits)

lemma FSRepo_Close_steps:
  assumes "FSRepo_Close env ce r u = (Inr (), r', w'')"
  shows "\<exists>o1 u1 u2. os_Remove env (path_Join [path r, ''api'']) u = (o1, u1)
    \<and> ds_Close ce (ds r) u1 = (Inr (), u2) \<and> lock_Close (lockfile r) u2 = (Inr (), w'') \<and> r' = r\<lparr>closed := True\<rparr>"
  using assms unfolding FSRepo_Close_def by (auto split: if_splits)

lemma fsrepo_open_cases:
  assumes run: "fsrepo_open env ce de reg rp w = (res, w')"
  shows "(\<exists>e. res = Inl e \<and> locks w' = locks w) \<or>
    (\<exists>p v lk v2. checkInitialized env p w = (Inr (), v) \<and> lock_Lock env (lock_path p) v = (Inr lk, v2)
      \<and> io_on_error (lock_Close lk) (open_locked env ce de reg p lk) v2 = (res, w'))"
proof (cases "newFSRepo env rp")
  case (Inr p)
  obtain c v where c: "checkInitialized env p w = (c, v)" by fastforce
  have v: "locks v = locks w" using silentD(2) [OF silent_checkInitialized c] .
  obtain l v2 where l: "lock_Lock env (lock_path p) v = (l, v2)" by fastforce
  have stay: "v2 = v" if "l = Inl e" for e
    using l that by (auto simp: lock_Lock_def split: if_splits option.splits)
  show ?thesis
    using run Inr c v l stay by (cases c; cases l) (auto simp: fsrepo_open_def io_bind_def io_lift_def)
qed (use run in \<open>auto simp: fsrepo_open_def io_bind_def io_lift_def\<close>)

text \<open>C14. Opening a repository and the lock: if it fails, no lock is held that was not held before; if it
  succeeds, the lock of the repository was free and is now the one lock more, and closing the
  repository at once gives back the lock and every database that was opened. A repository that was
  closed cannot be closed again.\<close>

theorem fsrepo_open_lock:
  assumes run: "fsrepo_open env ce de reg rp w = (res, w')"
  shows "case res of
      Inl e \<Rightarrow> locks w' = locks w
    | Inr r \<Rightarrow> lockfile r = lock_path (path r) \<and> lockfile r \<notin> set (locks w)
        \<and> locked_by_other env (lockfile r) = None \<and> locks w' = lockfile r # locks w
        \<and> (\<forall>r' w''. FSRepo_Close env ce r w' = (Inr (), r', w'') \<longrightarrow>
             locks w'' = locks w \<and> open_ds w'' = open_ds w
             \<and> fst (FSRepo_Close env ce r' w'') = Inl (Errorf ''repo is closed''))"
proof -
  consider e where "res = Inl e" "locks w' = locks w"
    | p v lk v2 where "checkInitialized env p w = (Inr (), v)"
      "lock_Lock env (lock_path p) v = (Inr lk, v2)"
      "io_on_error (lock_Close lk) (open_locked env ce de reg p lk) v2 = (res, w')"
    using fsrepo_open_cases [OF run] by blast
  then show ?thesis
  proof cases
    case (2 p v lk v2)
    have v: "locks v = locks w" "open_ds v = open_ds w" using silentD(2,3) [OF silent_checkInitialized 2(1)] by auto
    have lk: "lk = lock_path p" "lk \<notin> set (locks w)" "locked_by_other env lk = None"
      "v2 = v\<lparr>locks := lk # locks w\<rparr>"
      using 2(2) v by (auto simp: lock_Lock_def split: if_splits option.splits)
    obtain x u where x: "open_locked env ce de reg p lk v2 = (x, u)" by fastforce
    have u: "locks u = lk # locks w" using lock_freeD [OF lock_free_open_locked x] lk(4) by simp
    show ?thesis
    proof (cases x)
      case (Inl e)
      then have "res = Inl e" "w' = snd (lock_Close lk u)" using 2(3) x by (auto simp: io_on_error_def)
      then show ?thesis using u by (simp add: lock_Close_def)
    next
      case (Inr r)
      then have res: "res = Inr r" "w' = u" using 2(3) x by (auto simp: io_on_error_def)
      note r = open_locked_opens [OF x [unfolded Inr]]
      obtain xs where xs: "open_ds u = xs @ open_ds w" "mset xs = mset (ds_paths (ds r))"
        using r(4) lk(4) v(2) by auto
      have close: "locks w'' = locks w \<and> open_ds w'' = open_ds w \<and> closed r'"
        if cl: "FSRepo_Close env ce r u = (Inr (), r', w'')" for r' w''
      proof -
        obtain o1 u1 u2 where o1: "os_Remove env (path_Join [path r, ''api'']) u = (o1, u1)"
          "ds_Close ce (ds r) u1 = (Inr (), u2)" "lock_Close (lockfile r) u2 = (Inr (), w'')" "r' = r\<lparr>closed := True\<rparr>"
          using FSRepo_Close_steps [OF cl] by blast
        have u1: "locks u1 = locks u" "open_ds u1 = open_ds u" using silentD(2,3) [OF silent_Remove o1(1)] by auto
        have w'': "open_ds w'' = fold remove1 (ds_paths (ds r)) (open_ds u1)" "locks w'' = remove1 (lockfile r) (locks u1)"
          using o1(3) by (auto simp: ds_Close_Inr [OF o1(2)] lock_Close_def)
        then have "open_ds w'' = open_ds w" using u1(2) xs fold_remove1_prefix [of "ds_paths (ds r)" xs] by simp
        then show ?thesis using o1(4) w''(2) u1(1) u r(3) by simp
      qed
      then show ?thesis using res lk r u by (auto simp: FSRepo_Close_def)
    qed
  qed simp
qed

definition sample_conf :: config where
  "sample_conf = \<lparr>Identity_PrivKey = [], RemoteServices = [], ds_Type = [], ds_Path = [], ds_Spec = Some (mount_spec [JObj (flat_spec True), JObj (measured level_spec)]),
     FilestoreEnabled = True, UrlstoreEnabled = False, cfg_rest = JNull\<rparr>"

definition sample_cfg :: cfg_env where
  "sample_cfg = \<lparr>decode_map = (\<lambda>_. Inr []), encode_map = (\<lambda>_. []), decode_config = (\<lambda>_. Inr sample_conf),
     encode_config = (\<lambda>_. ''conf''), FromMap = (\<lambda>_. Inr sample_conf), ToMap = (\<lambda>_. Inr []),
     NewMultiaddr = Inr, ds_close_err = (\<lambda>_. None)\<rparr>"

definition sample_disk :: world where
  "sample_disk = \<lparr>files = [''/repo'' \<mapsto> Dir, ''/repo/config'' \<mapsto> File ''conf'' 384,
       ''/repo/datastore_spec'' \<mapsto> File ''spec'' 384, ''/repo/version'' \<mapsto> File (''11'' @ [CHR 0x0A]) 420],
     ran = [], locks = [''/other/repo.lock''], open_ds = []\<rparr>"

theorem fsrepo_open_lock_witness:
  "\<exists>r w'. fsrepo_open sample_os sample_cfg sample_ds sample_reg ''/repo/'' sample_disk = (Inr r, w')
     \<and> lockfile r = lock_path (path r) \<and> locks w' = [lockfile r, ''/other/repo.lock''] \<and> length (open_ds w') = 2"
proof -
  define X where "X = fsrepo_open sample_os sample_cfg sample_ds sample_reg ''/repo/'' sample_disk"
  have "case fst X of Inl _ \<Rightarrow> False | Inr r \<Rightarrow> length (open_ds (snd X)) = 2" unfolding X_def by code_simp
  then obtain r w' where r: "X = (Inr r, w')" "length (open_ds w') = 2" by (cases X) (auto split: sum.splits)
  show ?thesis
    using fsrepo_open_lock [OF r(1) [unfolded X_def]] r(2) r(1) [unfolded X_def]
    by (auto simp: sample_disk_def)
qed

section \<open>The configuration file\<close>

lemma os_TempFile_Inr:
  assumes "os_TempFile env dir pat w = (Inr t, w')"
  shows "files w t = None" "path_Clean t = t" "\<exists>m. w' = w\<lparr>files := (files w)(t \<mapsto> File [] m)\<rparr>"
proof -
  have t: "t = temp_file_path env dir pat w" "files w t = None" "os_OpenTrunc env t 384 w = (Inr (), w')"
    using assms by (auto simp: os_TempFile_def Let_def split: if_splits)
  show "files w t = None" by (rule t(2))
  show cl: "path_Clean t = t" unfolding t(1) temp_file_path_def by simp
  show "\<exists>m. w' = w\<lparr>files := (files w)(t \<mapsto> File [] m)\<rparr>" using os_OpenTrunc_Inr [OF t(3)] cl by auto
qed


text \<open>A configuration file that was written without an error is the new one or, because the error of the
  final renaming is dropped, still the old one; it is never a part of either.\<close>

lemma WriteConfigFile_steps:
  assumes run: "WriteConfigFile env fn buf w = (Inr (), w')"
  shows "\<exists>v1 t. os_MkdirAll env (path_Dir fn) w = (Inr (), v1) \<and> files v1 t = None \<and> path_Clean t = t
    \<and> w' = snd (os_Rename env t fn (v1\<lparr>files := (files v1)(t \<mapsto> File buf 384)\<rparr>))"
proof -
  obtain v1 t v3 v4 where st: "os_MkdirAll env (path_Dir fn) w = (Inr (), v1)"
    "atomicfile_New env fn 384 v1 = (Inr t, v3)" "os_Write env t buf v3 = (Inr (), v4)"
    and w': "w' = snd (os_Rename env t fn v4)"
    using run by (auto simp: WriteConfigFile_def)
  obtain a v2 c v2' where a: "os_TempFile env (path_Dir fn) (path_Base fn) v1 = (Inr a, v2)" "os_Chmod env a 384 v2 = (c, v2')"
    "(case c of Inl e \<Rightarrow> io_bind (io_try (os_Remove env a)) (\<lambda>_. io_fail e) | Inr _ \<Rightarrow> io_return a) v2' = (Inr t, v3)"
    using st(2) unfolding atomicfile_New_def by auto
  then have t: "os_TempFile env (path_Dir fn) (path_Base fn) v1 = (Inr t, v2)" "os_Chmod env t 384 v2 = (Inr (), v3)"
    by (cases c; simp)+
  note tf = os_TempFile_Inr [OF t(1)]
  obtain m1 where v2: "v2 = v1\<lparr>files := (files v1)(t \<mapsto> File [] m1)\<rparr>" using tf(3) by blast
  then have v3: "v3 = v1\<lparr>files := (files v1)(t \<mapsto> File [] 384)\<rparr>"
    using t(2) tf(2) by (auto simp: os_Chmod_def)
  then have v4: "v4 = v1\<lparr>files := (files v1)(t \<mapsto> File buf 384)\<rparr>"
    using os_Write_Inr [OF st(3), of "[]" 384] tf(2) by simp
  show ?thesis using st(1) tf(1,2) unfolding w' v4 by blast
qed

lemma WriteConfigFile_Inr:
  assumes run: "WriteConfigFile env fn buf w = (Inr (), w')" and f: "files w (path_Clean fn) = Some (File d m)"
  shows "files w' (path_Clean fn) = Some (File d m) \<or> (\<exists>m'. files w' (path_Clean fn) = Some (File buf m'))"
proof -
  obtain v1 t where st: "os_MkdirAll env (path_Dir fn) w = (Inr (), v1)" "files v1 t = None" "path_Clean t = t"
    and w': "w' = snd (os_Rename env t fn (v1\<lparr>files := (files v1)(t \<mapsto> File buf 384)\<rparr>))"
    using WriteConfigFile_steps [OF run] by blast
  have f1: "files v1 (path_Clean fn) = Some (File d m)" using os_MkdirAll_Dir [OF st(1) f] .
  then have ne: "t \<noteq> path_Clean fn" using st(2) by auto
  then show ?thesis
    using f1 st(3) unfolding w'
    by (auto simp: os_Rename_def io_bind_def fail_if_def io_fail_def io_return_def split: option.splits)
qed

text \<open>The entries of the overlay are those of the first map, and of the second where the first has none.\<close>

lemma map_of_overlay: "map_of (overlay m mc) k = (case map_of m k of Some v \<Rightarrow> Some v | None \<Rightarrow> map_of mc k)"
  unfolding overlay_def by (induction m) (auto split: option.splits)

lemma MapGetKV_overlay: "MapGetKV m k = Inr x \<Longrightarrow> MapGetKV (overlay m mc) k = Inr x"
proof -
  assume get: "MapGetKV m k = Inr x"
  obtain p ps where sp: "split_on (CHR ''.'') k = p # ps" by (meson neq_Nil_conv split_on_not_Nil)
  obtain v where "map_of m p = Some v" using get sp by (cases "map_of m p") (auto simp: MapGetKV_def)
  then show ?thesis using get sp by (simp add: MapGetKV_def map_of_overlay)
qed

text \<open>The configuration file holds a map with a given private key.\<close>

definition holds_key :: "cfg_env \<Rightarrow> string \<Rightarrow> json \<Rightarrow> fs \<Rightarrow> bool" where
  "holds_key ce fn pk fs = (\<exists>d m c. fs (path_Clean fn) = Some (File d m) \<and> decode_map ce d = Inr c
     \<and> MapGetKV c PrivKeySelector = Inr pk)"

lemma ReadConfigFile_Inr:
  "ReadConfigFile env dec fn w = (Inr c, w') \<longleftrightarrow> w' = w \<and> fault env OpRead (path_Clean fn) = None
     \<and> (\<exists>d m. files w (path_Clean fn) = Some (File d m) \<and> dec d = Inr c)"
  by (auto simp: ReadConfigFile_def os_ReadFile_def io_bind_def io_try_def fail_if_def io_fail_def io_return_def
      split: option.splits node.splits)

lemma holds_key_write:
  assumes "holds_key ce fn pk (files w)" "WriteConfigFile env fn (encode_map ce c) w = (Inr (), w')"
    "\<exists>c'. decode_map ce (encode_map ce c) = Inr c' \<and> MapGetKV c' PrivKeySelector = Inr pk"
  shows "holds_key ce fn pk (files w')"
proof -
  obtain d m c0 where d: "files w (path_Clean fn) = Some (File d m)" "decode_map ce d = Inr c0"
    "MapGetKV c0 PrivKeySelector = Inr pk"
    using assms(1) by (auto simp: holds_key_def)
  show ?thesis using WriteConfigFile_Inr [OF assms(2) d(1)] assms(3) d(2,3) by (auto simp: holds_key_def)
qed

text \<open>Decoding JSON into a struct matches the keys of an object to the fields under case folding, here
  \<open>same\<close>: of two keys for the same field the later one of the object counts. A map has one spelling
  of the private key when no key of it other than \<^verbatim>\<open>Identity\<close>, and no key other than \<^verbatim>\<open>PrivKey\<close> of the
  object there, is taken for these fields.\<close>

definition one_spelling :: "(string \<Rightarrow> string \<Rightarrow> bool) \<Rightarrow> jmap \<Rightarrow> bool" where
  "one_spelling same m =
     (list_all (\<lambda>e. same (fst e) ''Identity'' \<longrightarrow> fst e = ''Identity'') m
      \<and> (case map_of m ''Identity'' of
           Some (JObj i) \<Rightarrow> list_all (\<lambda>e. same (fst e) ''PrivKey'' \<longrightarrow> fst e = ''PrivKey'') i
         | _ \<Rightarrow> True))"

lemma split_PrivKeySelector: "split_on (CHR ''.'') PrivKeySelector = [''Identity'', ''PrivKey'']"
  by code_simp

lemma list_all_jput: "list_all P m \<Longrightarrow> P (k, v) \<Longrightarrow> list_all P (jput k v m)"
  by (auto simp: jput_def list_all_iff)

lemma one_spelling_put:
  assumes "one_spelling same m" "MapSetKV m PrivKeySelector v = Inr m'"
  shows "one_spelling same m'"
proof -
  define d where "d = (case map_of m ''Identity'' of None \<Rightarrow> JObj [] | Some c \<Rightarrow> if c = JNull then JObj [] else c)"
  have "set_parts [] (JObj m) [''Identity'', ''PrivKey''] v = Inr (JObj m')"
    using MapSetKV_Inr [OF assms(2)] unfolding split_PrivKeySelector .
  then obtain i where i: "d = JObj i" "m' = jput ''Identity'' (JObj (jput ''PrivKey'' v i)) m"
    by (cases d) (auto simp: d_def)
  have "list_all (\<lambda>e. same (fst e) ''PrivKey'' \<longrightarrow> fst e = ''PrivKey'') i"
    using assms(1) i(1) by (auto simp: one_spelling_def d_def split: option.splits if_splits)
  then show ?thesis using assms(1) i(2) by (auto simp: one_spelling_def intro!: list_all_jput)
qed

text \<open>C6. Setting any key of the configuration to any value does not change the private key: when
  \<open>SetConfigKey\<close> succeeds on a repository whose configuration file has a private key that is not
  empty, the file afterwards is a map with the same private key, and the configuration in memory has
  it too. The condition is that the new map does not spell the key in two ways: a key such as
  \<^verbatim>\<open>Identity.privkey\<close>, which encoding/json takes for the same field, may not have been there before or
  be set now. Of encoding/json it is used that a map with this private key has it still after encoding
  and decoding, that decoding such a map into the struct gives the field this value, and that encoding
  a struct writes a private key that is not empty.\<close>

theorem SetConfigKey_keeps_private_key:
  assumes run: "SetConfigKey env ce k v r w = (Inr (), r', w')"
    and fn: "config_Filename env (path r) = Inr fn"
    and key: "holds_key ce fn (JStr pk) (files w)" and pk: "pk \<noteq> []"
    and spelling: "\<And>d n m m1. files w (path_Clean fn) = Some (File d n) \<Longrightarrow> decode_map ce d = Inr m \<Longrightarrow>
      MapSetKV m k v = Inr m1 \<Longrightarrow> one_spelling same m1"
    and json: "\<And>m. MapGetKV m PrivKeySelector = Inr (JStr pk) \<Longrightarrow>
      \<exists>m'. decode_map ce (encode_map ce m) = Inr m' \<and> MapGetKV m' PrivKeySelector = Inr (JStr pk)"
    and decode: "\<And>m c. FromMap ce m = Inr c \<Longrightarrow> one_spelling same m \<Longrightarrow>
      MapGetKV m PrivKeySelector = Inr (JStr pk) \<Longrightarrow> Identity_PrivKey c = pk"
    and encode: "\<And>c m. ToMap ce c = Inr m \<Longrightarrow> Identity_PrivKey c \<noteq> [] \<Longrightarrow>
      MapGetKV m PrivKeySelector = Inr (JStr (Identity_PrivKey c))"
  shows "holds_key ce fn (JStr pk) (files w') \<and> Identity_PrivKey (conf r') = pk"
proof -
  obtain m pkval m1 m2 c v1 where st: "ReadConfigFile env (decode_map ce) fn w = (Inr m, w)"
    "MapGetKV m PrivKeySelector = Inr pkval" "MapSetKV m k v = Inr m1" "MapSetKV m1 PrivKeySelector pkval = Inr m2"
    "FromMap ce m2 = Inr c" "WriteConfigFile env fn (encode_map ce m2) w = (Inr (), v1)"
    and set: "setConfigUnsynced env ce c r v1 = (Inr (), r', w')"
    using run fn by (auto simp: SetConfigKey_def ReadConfigFile_Inr split: if_splits)
  have pkval: "pkval = JStr pk" using st(1,2) key by (auto simp: ReadConfigFile_Inr holds_key_def)
  have m2: "MapGetKV m2 PrivKeySelector = Inr (JStr pk)"
    using config_map.guarded_put(1) [OF st(2,3,4)] pkval by simp
  have "one_spelling same m2"
    using one_spelling_put [OF spelling st(4)] st(1,3) by (auto simp: ReadConfigFile_Inr)
  then have c: "Identity_PrivKey c = pk" by (rule decode [OF st(5) _ m2])
  have v1: "holds_key ce fn (JStr pk) (files v1)" by (rule holds_key_write [OF key st(6) json [OF m2]])
  obtain mc m3 where m3: "ToMap ce c = Inr m3" "WriteConfigFile env fn (encode_map ce (overlay m3 mc)) v1 = (Inr (), w')"
    "conf r' = c"
    using set fn by (auto simp: setConfigUnsynced_def ReadConfigFile_Inr)
  have "MapGetKV (overlay m3 mc) PrivKeySelector = Inr (JStr pk)"
    using MapGetKV_overlay encode [OF m3(1)] c pk by simp
  then show ?thesis using holds_key_write [OF v1 m3(2) json] m3(3) c by simp
qed

text \<open>A codec for JSON maps that can be evaluated: every value is a tag followed by its parts, every string
  is preceded by its length in unary.\<close>

definition ser_str :: "string \<Rightarrow> string" where
  "ser_str s = replicate (length s) (CHR ''1'') @ CHR ''0'' # s"

definition deser_str :: "string \<Rightarrow> string \<times> string" where
  "deser_str t = (let n = length (takeWhile (\<lambda>c. c = CHR ''1'') t); u = drop (Suc n) t in (take n u, drop n u))"

lemma deser_ser_str [simp]: "deser_str (ser_str s @ t) = (s, t)"
proof -
  have "takeWhile (\<lambda>c. c = CHR ''1'') (ser_str s @ t) = replicate (length s) (CHR ''1'')"
    unfolding ser_str_def append_assoc by (subst takeWhile_append2) auto
  then show ?thesis by (simp add: deser_str_def ser_str_def)
qed

fun ser :: "json \<Rightarrow> string" where
  "ser JNull = ''n''"
| "ser (JBool b) = (if b then ''t'' else ''f'')"
| "ser (JNum s) = CHR ''d'' # ser_str s"
| "ser (JStr s) = CHR ''s'' # ser_str s"
| "ser (JArr []) = ''e''"
| "ser (JArr (x # xs)) = CHR ''a'' # ser x @ ser (JArr xs)"
| "ser (JObj []) = ''o''"
| "ser (JObj ((k, v) # m)) = CHR ''m'' # ser_str k @ ser v @ ser (JObj m)"

fun deser :: "nat \<Rightarrow> string \<Rightarrow> (json \<times> string) option" where
  "deser 0 t = None"
| "deser (Suc n) [] = None"
| "deser (Suc n) (c # t) =
     (if c = CHR ''n'' then Some (JNull, t)
      else if c = CHR ''t'' then Some (JBool True, t)
      else if c = CHR ''f'' then Some (JBool False, t)
      else if c = CHR ''d'' then Some (case deser_str t of (s, u) \<Rightarrow> (JNum s, u))
      else if c = CHR ''s'' then Some (case deser_str t of (s, u) \<Rightarrow> (JStr s, u))
      else if c = CHR ''e'' then Some (JArr [], t)
      else if c = CHR ''a'' then
        (case deser n t of
           Some (x, u) \<Rightarrow> (case deser n u of Some (JArr xs, v) \<Rightarrow> Some (JArr (x # xs), v) | _ \<Rightarrow> None)
         | None \<Rightarrow> None)
      else if c = CHR ''o'' then Some (JObj [], t)
      else if c = CHR ''m'' then
        (case deser_str t of (k, u) \<Rightarrow>
         (case deser n u of
            Some (x, v) \<Rightarrow> (case deser n v of Some (JObj m, z) \<Rightarrow> Some (JObj ((k, x) # m), z) | _ \<Rightarrow> None)
          | None \<Rightarrow> None))
      else None)"

lemma deser_ser: "length (ser j) \<le> n \<Longrightarrow> deser n (ser j @ t) = Some (j, t)"
proof (induction j arbitrary: n t rule: ser.induct)
  case (6 x xs)
  then obtain k where "n = Suc k" by (cases n) auto
  then show ?case using 6 by simp
next
  case (8 key v m)
  then obtain k where "n = Suc k" by (cases n) auto
  then show ?case using 8 by simp
qed (case_tac [!] n, simp_all split: if_splits)

definition sample_decode :: "string \<Rightarrow> error + jmap" where
  "sample_decode t =
     (case deser (length t) t of Some (JObj m, _) \<Rightarrow> Inr m | _ \<Rightarrow> Inl (Errorf ''invalid character''))"

text \<open>Decoding into the struct prefers another spelling of a key, which stands after the capitalised one
  when the keys of an object are in order; encoding writes the private key unless it is empty.\<close>

definition fold_same :: "string \<Rightarrow> string \<Rightarrow> bool" where
  "fold_same s t = (ToLower s = ToLower t)"

definition folded :: "jmap \<Rightarrow> string \<Rightarrow> json option" where
  "folded m k = (case find (\<lambda>e. fold_same (fst e) k \<and> fst e \<noteq> k) m of Some e \<Rightarrow> Some (snd e) | None \<Rightarrow> map_of m k)"

definition sample_key :: "jmap \<Rightarrow> string" where
  "sample_key m = (case folded m ''Identity'' of
     Some (JObj i) \<Rightarrow> (case folded i ''PrivKey'' of Some (JStr s) \<Rightarrow> s | _ \<Rightarrow> []) | _ \<Rightarrow> [])"

definition sample_codec :: cfg_env where
  "sample_codec = sample_cfg\<lparr>decode_map := sample_decode, encode_map := (\<lambda>m. ser (JObj m)),
     FromMap := (\<lambda>m. Inr (sample_conf\<lparr>cfg_rest := JObj m, Identity_PrivKey := sample_key m\<rparr>)),
     ToMap := (\<lambda>c. case cfg_rest c of
         JObj m \<Rightarrow> if Identity_PrivKey c = [] then Inr m else MapSetKV m PrivKeySelector (JStr (Identity_PrivKey c))
       | _ \<Rightarrow> Inl (Errorf ''not a map''))\<rparr>"

lemma folded_exact: "list_all (\<lambda>e. fold_same (fst e) k \<longrightarrow> fst e = k) m \<Longrightarrow> folded m k = map_of m k"
proof -
  assume "list_all (\<lambda>e. fold_same (fst e) k \<longrightarrow> fst e = k) m"
  then have "find (\<lambda>e. fold_same (fst e) k \<and> fst e \<noteq> k) m = None" by (auto simp: find_None_iff list_all_iff)
  then show ?thesis by (simp add: folded_def)
qed

lemma sample_codec_decode:
  assumes "one_spelling fold_same m" "MapGetKV m PrivKeySelector = Inr (JStr pk)"
  shows "sample_key m = pk"
proof -
  have get: "get_parts [] (JObj m) [''Identity'', ''PrivKey''] = Inr (JStr pk)"
    using assms(2) unfolding MapGetKV_def split_PrivKeySelector .
  then obtain c where c: "map_of m ''Identity'' = Some c" "get_parts [''Identity''] c [''PrivKey''] = Inr (JStr pk)"
    by (cases "map_of m ''Identity''") auto
  then obtain i where i: "c = JObj i" "map_of i ''PrivKey'' = Some (JStr pk)"
    by (cases c) (auto split: option.splits)
  then have "folded m ''Identity'' = Some (JObj i)" "folded i ''PrivKey'' = Some (JStr pk)"
    using assms(1) c(1) by (auto simp: one_spelling_def folded_exact)
  then show ?thesis by (simp add: sample_key_def)
qed

lemma sample_codec_encode:
  "ToMap sample_codec c = Inr m \<Longrightarrow> Identity_PrivKey c \<noteq> [] \<Longrightarrow>
     MapGetKV m PrivKeySelector = Inr (JStr (Identity_PrivKey c))"
  by (auto simp: sample_codec_def intro: config_map.get_put split: json.splits)

definition sample_identity :: "string \<Rightarrow> jmap" where
  "sample_identity pk = [(''Identity'', JObj [(''PeerID'', JStr ''Qm''), (''PrivKey'', JStr pk)]), (''Mounts'', JNull)]"

definition sample_keyed :: world where
  "sample_keyed = sample_disk\<lparr>files := (files sample_disk)(''/repo/config'' \<mapsto> File (ser (JObj (sample_identity ''CAAS''))) 384)\<rparr>"

definition sample_open :: FSRepo where
  "sample_open = \<lparr>closed = False, path = ''/repo'', lockfile = ''/repo/repo.lock'', conf = sample_conf, ds = DMap,
     keystore = ''/repo/keystore'', filemgr = None\<rparr>"

text \<open>Replacing the whole identity changes the peer id and not the private key.\<close>

theorem SetConfigKey_keeps_private_key_witness:
  "fst (SetConfigKey sample_os sample_codec ''Identity'' (JObj [(''PeerID'', JStr ''Qx''), (''PrivKey'', JStr ''x'')]) sample_open sample_keyed) = Inr ()
   \<and> holds_key sample_codec ''/repo/config'' (JStr ''CAAS'') (files (snd (snd
      (SetConfigKey sample_os sample_codec ''Identity'' (JObj [(''PeerID'', JStr ''Qx''), (''PrivKey'', JStr ''x'')]) sample_open sample_keyed))))
   \<and> Identity_PrivKey (conf (fst (snd
      (SetConfigKey sample_os sample_codec ''Identity'' (JObj [(''PeerID'', JStr ''Qx''), (''PrivKey'', JStr ''x'')]) sample_open sample_keyed)))) = ''CAAS''"
proof -
  define X where "X = SetConfigKey sample_os sample_codec ''Identity''
    (JObj [(''PeerID'', JStr ''Qx''), (''PrivKey'', JStr ''x'')]) sample_open sample_keyed"
  have ok: "fst X = Inr ()" unfolding X_def by code_simp
  have run: "SetConfigKey sample_os sample_codec ''Identity''
    (JObj [(''PeerID'', JStr ''Qx''), (''PrivKey'', JStr ''x'')]) sample_open sample_keyed = (Inr (), fst (snd X), snd (snd X))"
    using ok unfolding X_def by (metis prod.collapse)
  have fn: "config_Filename sample_os (path sample_open) = Inr ''/repo/config''" by code_simp
  have codec: "decode_map sample_codec (encode_map sample_codec c) = Inr c" for c
    using deser_ser [of "JObj c" _ "[]"] by (simp add: sample_codec_def sample_decode_def)
  have f: "files sample_keyed (path_Clean ''/repo/config'') = Some (File (ser (JObj (sample_identity ''CAAS''))) 384)"
    by code_simp
  moreover have "MapGetKV (sample_identity ''CAAS'') PrivKeySelector = Inr (JStr ''CAAS'')" by code_simp
  ultimately have key: "holds_key sample_codec ''/repo/config'' (JStr ''CAAS'') (files sample_keyed)"
    using codec [of "sample_identity ''CAAS''"] by (auto simp: holds_key_def sample_codec_def)
  have m1: "MapSetKV (sample_identity ''CAAS'') ''Identity'' (JObj [(''PeerID'', JStr ''Qx''), (''PrivKey'', JStr ''x'')])
      = Inr [(''Identity'', JObj [(''PeerID'', JStr ''Qx''), (''PrivKey'', JStr ''x'')]), (''Mounts'', JNull)]"
    "one_spelling fold_same [(''Identity'', JObj [(''PeerID'', JStr ''Qx''), (''PrivKey'', JStr ''x'')]), (''Mounts'', JNull)]"
    by code_simp+
  have "decode_map sample_codec (ser (JObj (sample_identity ''CAAS''))) = Inr (sample_identity ''CAAS'')"
    using codec [of "sample_identity ''CAAS''"] by (simp add: sample_codec_def)
  then have sp: "one_spelling fold_same m1"
    if "files sample_keyed (path_Clean ''/repo/config'') = Some (File d n)" "decode_map sample_codec d = Inr m"
      "MapSetKV m ''Identity'' (JObj [(''PeerID'', JStr ''Qx''), (''PrivKey'', JStr ''x'')]) = Inr m1" for d n m m1
    using f that m1 by simp
  have "holds_key sample_codec ''/repo/config'' (JStr ''CAAS'') (files (snd (snd X)))
      \<and> Identity_PrivKey (conf (fst (snd X))) = ''CAAS''"
  proof (rule SetConfigKey_keeps_private_key [OF run fn key _ sp])
    show "Identity_PrivKey c = ''CAAS''" if "FromMap sample_codec m = Inr c" "one_spelling fold_same m"
      "MapGetKV m PrivKeySelector = Inr (JStr ''CAAS'')" for m c
      using that sample_codec_decode by (auto simp: sample_codec_def)
  qed (use codec sample_codec_encode in auto)
  then show ?thesis using ok by (simp add: X_def)
qed

text \<open>The condition on the spelling is needed: setting \<^verbatim>\<open>Identity.privkey\<close> succeeds, and the new value
  replaces the private key in the configuration and in the file. (The command for the configuration
  refuses such a key before it comes here.)\<close>

lemma SetConfigKey_other_spelling:
  "let (x, r', w') = SetConfigKey sample_os sample_codec ''Identity.privkey'' (JStr ''x'') sample_open sample_keyed in
   x = Inr () \<and> Identity_PrivKey (conf r') = ''x''
   \<and> (case files w' ''/repo/config'' of
        Some (File d n) \<Rightarrow> bind_res (decode_map sample_codec d) (\<lambda>m. MapGetKV m PrivKeySelector) = Inr (JStr ''x'')
      | _ \<Rightarrow> False)"
  by code_simp

section \<open>From initialising to opening\<close>

lemma trim_space_idem: "trim_space (trim_space s) = trim_space s"
proof -
  define P where "P = (\<lambda>c. c \<in> set space_chars)"
  have ends: "rev (dropWhile P (rev (a # as))) = a # rev (dropWhile P (rev as))" if "\<not> P a" for a as
    using that by (auto simp: dropWhile_append dropWhile_eq_Nil_conv)
  have idem: "dropWhile P (dropWhile P t) = dropWhile P t" for t
    by (metis dropWhile.simps(2) dropWhile_eq_self_iff hd_dropWhile)
  have eq: "trim_space t = rev (dropWhile P (rev (dropWhile P t)))" for t
    by (simp add: trim_space_def trim_left_def trim_right_def P_def)
  show ?thesis
  proof (cases "dropWhile P s")
    case (Cons a as)
    then have a: "\<not> P a" using hd_dropWhile [of P s] by simp
    have "dropWhile P (trim_space s) = trim_space s"
      unfolding eq Cons ends [OF a] using a by simp
    then have "trim_space (trim_space s) = rev (dropWhile P (rev (trim_space s)))" using eq by simp
    also have "\<dots> = trim_space s"
      unfolding eq by (simp add: idem)
    finally show ?thesis .
  next
    case Nil
    show ?thesis unfolding eq Nil by simp
  qed
qed

text \<open>What is on disk after a repository was initialised.\<close>

definition repo_on_disk :: "cfg_env \<Rightarrow> string \<Rightarrow> config \<Rightarrow> string \<Rightarrow> fs \<Rightarrow> bool" where
  "repo_on_disk ce p c spec fs =
     (list_all (\<lambda>d. fs d = Some Dir) (dir_chain p)
      \<and> (\<exists>m. fs (p @ ''/config'') = Some (File (encode_config ce c) m))
      \<and> (\<exists>m. fs (p @ ''/datastore_spec'') = Some (File spec m))
      \<and> version_at fs p = Some RepoVersionNum)"

lemma plain_names [simp]:
  "plain_name ''config''" "plain_name ''datastore_spec''" "plain_name ''version''" "plain_name ''keystore''"
  "plain_name ''repo.lock''" "plain_name ''._check_writable''"
  by (simp_all add: plain_name_def)

lemma repo_names:
  assumes "abs_dir p"
  shows "path_Clean p = p" "p \<noteq> []"
    "config_Filename env p = Inr (p @ ''/config'')" "config_Path env p ''datastore_spec'' = Inr (p @ ''/datastore_spec'')"
    "IpfsDir env p = Inr p" "newFSRepo env p = Inr p"
    "plain_name n \<Longrightarrow> path_Clean (p @ CHR ''/'' # n) = p @ CHR ''/'' # n"
    "plain_name n \<Longrightarrow> path_Dir (p @ CHR ''/'' # n) = p"
proof -
  show c: "path_Clean p = p" using assms by (simp add: abs_dir_def)
  show ne: "p \<noteq> []" by (rule abs_dir_parts(3) [OF assms])
  show "config_Filename env p = Inr (p @ ''/config'')" "config_Path env p ''datastore_spec'' = Inr (p @ ''/datastore_spec'')"
    using ne path_Join_abs_dir [OF assms] by (simp_all add: config_Filename_def config_Path_def)
  obtain q where "p = CHR ''/'' # q" using abs_dir_parts(1) [OF assms] by auto
  then show "IpfsDir env p = Inr p" "newFSRepo env p = Inr p"
    using c by (simp_all add: IpfsDir_def newFSRepo_def homedir_Expand_def)
  show "path_Clean (p @ CHR ''/'' # n) = p @ CHR ''/'' # n" if "plain_name n"
    using path_Join_clean [of n p] path_Join_abs_dir [OF assms that] that by (simp add: plain_name_def)
  show "path_Dir (p @ CHR ''/'' # n) = p" if "plain_name n" using path_Dir_abs_dir [OF assms that] by simp
qed

lemma configIsInitialized_eq:
  assumes "abs_dir p" "\<And>op q. fault env op q = None"
  shows "isInitializedUnsynced env p w = (Inr (files w (p @ ''/config'') \<noteq> None), w)"
  using assms(2) repo_names [OF assms(1)]
  by (auto simp: isInitializedUnsynced_def configIsInitialized_def FileExists_def os_Stat_def io_bind_def io_try_def
      io_return_def io_fail_def fail_if_def split: option.splits)

lemma silent_WriteConfigFile [silent_intros]: "silent (WriteConfigFile env fn buf)"
  unfolding WriteConfigFile_def atomicfile_New_def by (auto intro!: silent_intros split: sum.split)

lemma silent_Init: "silent (Init env ce de reg p c)"
  unfolding Init_def initConfig_def initSpec_def WriteRepoVersion_def configIsInitialized_def
  by (auto intro!: silent_intros split: sum.split)

lemma initConfig_writes:
  assumes dir: "abs_dir p" and ok: "\<And>op q. fault env op q = None"
    and run: "initConfig env ce p c w = (Inr (), w')" and new: "files w (p @ ''/config'') = None"
  shows "list_all (\<lambda>d. files w' d = Some Dir) (dir_chain p)" "files w' (p @ ''/config'') = Some (File (encode_config ce c) 384)"
    "files w' (p @ ''/'' @ n) = files w (p @ ''/'' @ n) \<or> files w' (p @ ''/'' @ n) = None \<or> n = ''config''"
proof -
  define cf where "cf = p @ ''/config''"
  note names = repo_names [OF dir]
  have "isInitializedUnsynced env p w = (Inr False, w)" using configIsInitialized_eq [OF dir ok] new by simp
  then have "WriteConfigFile env cf (encode_config ce c) w = (Inr (), w')"
    using run names by (auto simp: initConfig_def isInitializedUnsynced_def cf_def)
  then obtain v t where st: "os_MkdirAll env (path_Dir cf) w = (Inr (), v)" "files v t = None" "path_Clean t = t"
    and w': "w' = snd (os_Rename env t cf (v\<lparr>files := (files v)(t \<mapsto> File (encode_config ce c) 384)\<rparr>))"
    using WriteConfigFile_steps by blast
  have cf: "path_Dir cf = p" "path_Clean cf = cf" "cf \<notin> set (dir_chain p)"
    using names(7,8) [of "''config''"] dir_chain_abs_dir(2) [OF dir, of "''config''"] by (simp_all add: cf_def)
  have v: "v = w\<lparr>files := (\<lambda>q. if q \<in> set (dir_chain p) then Some Dir else files w q)\<rparr>"
    using st(1) ok unfolding cf(1) by (auto simp: os_MkdirAll_def split: if_splits)
  have "w' = v\<lparr>files := (files v)(t := None, cf := Some (File (encode_config ce c) 384))\<rparr>"
    using new ok cf st(3) unfolding w' cf_def [symmetric]
    by (auto simp: os_Rename_def v io_bind_def fail_if_def io_return_def)
  moreover have "t \<notin> set (dir_chain p)" using st(2) by (auto simp: v split: if_splits)
  ultimately show "list_all (\<lambda>d. files w' d = Some Dir) (dir_chain p)" "files w' (p @ ''/config'') = Some (File (encode_config ce c) 384)"
    "files w' (p @ ''/'' @ n) = files w (p @ ''/'' @ n) \<or> files w' (p @ ''/'' @ n) = None \<or> n = ''config''"
    using cf(3) dir_chain_abs_dir(2) [OF dir, of n] by (auto simp: list_all_iff v cf_def)
qed

lemma Init_writes:
  assumes dir: "abs_dir p" and ok: "\<And>op q. fault env op q = None"
    and run: "Init env ce de reg p c w = (Inr (), w1)"
    and new: "files w (p @ ''/config'') = None" "files w (p @ ''/datastore_spec'') = None"
  shows "\<exists>dsc. AnyDatastoreConfig de reg (case ds_Spec c of None \<Rightarrow> [] | Some m \<Rightarrow> m) = Inr dsc
      \<and> repo_on_disk ce p c (DiskSpec_Bytes de (DiskSpec de dsc)) (files w1)"
    "files w1 (p @ ''/'' @ n) = Some Dir \<Longrightarrow> files w (p @ ''/'' @ n) = Some Dir"
proof -
  note names = repo_names [OF dir]
  have "isInitializedUnsynced env p w = (Inr False, w)" using configIsInitialized_eq [OF dir ok] new by simp
  then obtain v1 v2 where st: "initConfig env ce p c w = (Inr (), v1)" "initSpec env de reg p (ds_Spec c) v1 = (Inr (), v2)"
    "WriteRepoVersion env p RepoVersionNum v2 = (Inr (), w1)"
    using run by (auto simp: Init_def)
  note v1 = initConfig_writes [OF dir ok st(1) new(1)]
  have "files v1 (p @ ''/datastore_spec'') = None" using v1(3) [of "''datastore_spec''"] new(2) by auto
  then have "FileExists env (p @ ''/datastore_spec'') v1 = (Inr False, v1)"
    using ok names(7) [of "''datastore_spec''"]
    by (simp add: FileExists_def os_Stat_def io_bind_def io_try_def io_return_def fail_if_def)
  then obtain dsc where dsc: "AnyDatastoreConfig de reg (case ds_Spec c of None \<Rightarrow> [] | Some m \<Rightarrow> m) = Inr dsc"
    "os_WriteFile env (p @ ''/datastore_spec'') (DiskSpec_Bytes de (DiskSpec de dsc)) 384 v1 = (Inr (), v2)"
    using st(2) names by (auto simp: initSpec_def)
  obtain m2 where v2: "v2 = v1\<lparr>files := (files v1)(p @ ''/datastore_spec'' \<mapsto> File (DiskSpec_Bytes de (DiskSpec de dsc)) m2)\<rparr>"
    using os_WriteFile_Inr [OF dsc(2)] names(7) [of "''datastore_spec''"] by auto
  have "os_WriteFile env (p @ ''/version'') (show_int RepoVersionNum @ [CHR 0x0A]) 420 v2 = (Inr (), w1)"
    using st(3) names path_Join_abs_dir [OF dir, of "''version''"] by (simp add: WriteRepoVersion_def)
  then obtain m3 where w1: "w1 = v2\<lparr>files := (files v2)(p @ ''/version'' \<mapsto> File (show_int RepoVersionNum @ [CHR 0x0A]) m3)\<rparr>"
    using os_WriteFile_Inr names(7) [of "''version''"] by fastforce
  have "version_at (files w1) p = Some RepoVersionNum"
    using Atoi_version_line [of RepoVersionNum] w1 path_Join_abs_dir [OF dir, of "''version''"]
    by (simp add: version_at_def RepoVersionNum_def)
  then have "repo_on_disk ce p c (DiskSpec_Bytes de (DiskSpec de dsc)) (files w1)"
    using v1(1,2) v2 w1 dir_chain_abs_dir(2) [OF dir, of "''version''"] dir_chain_abs_dir(2) [OF dir, of "''datastore_spec''"]
    by (auto simp: repo_on_disk_def list_all_iff)
  then show "\<exists>dsc. AnyDatastoreConfig de reg (case ds_Spec c of None \<Rightarrow> [] | Some m \<Rightarrow> m) = Inr dsc
      \<and> repo_on_disk ce p c (DiskSpec_Bytes de (DiskSpec de dsc)) (files w1)"
    using dsc(1) by blast
  show "files w1 (p @ ''/'' @ n) = Some Dir \<Longrightarrow> files w (p @ ''/'' @ n) = Some Dir"
    using v1(3) [of n] v1(2) v2 w1 by (auto split: if_splits)
qed

lemma Create_keeps_nodes:
  "Create env de c p w = (x, w') \<Longrightarrow> files w q = Some n \<Longrightarrow> files w' q = Some n"
  "create_mounts env de ms p w = (y, w') \<Longrightarrow> files w q = Some n \<Longrightarrow> files w' q = Some n"
proof (induction env de c p and env de ms p arbitrary: w x w' and w y w' rule: Create_create_mounts.induct)
  case (7 env de p sw tr vls path)
  obtain a v where v: "os_MkdirAll env (db_path path p) w = (a, v)" by fastforce
  have "files v q = Some n"
  proof (cases a)
    case (Inr u)
    then show ?thesis using os_MkdirAll_Dir 7(2) v by blast
  qed (use v 7(2) in \<open>auto simp: os_MkdirAll_def split: option.splits if_splits\<close>)
  then show ?case using 7(1) v by (cases a) (auto simp: io_bind_def open_db_def split: option.splits)
next
  case (10 env de c p ms path)
  obtain a v where v: "Create env de c path w = (a, v)" by fastforce
  obtain b u where u: "create_mounts env de ms path v = (b, u)" by fastforce
  show ?case using 10(3) 10(1) [OF v 10(4)] 10(2) [OF u] v u by (cases a; cases b) (auto simp: io_bind_def io_return_def)
qed (auto simp: io_bind_def io_return_def open_db_def split: option.splits prod.splits sum.splits)

lemma open_locked_on_disk:
  assumes dir: "abs_dir p" and ok: "\<And>op q. fault env op q = None"
    and disk: "repo_on_disk ce p c (DiskSpec_Bytes de (DiskSpec de dsc)) (files w)"
    and c: "decode_config ce (encode_config ce c) = Inr c" "ds_Spec c = Some spec" "AnyDatastoreConfig de reg spec = Inr dsc"
    and chk: "files w (p @ ''/._check_writable'') \<noteq> Some Dir"
    and v: "v = w\<lparr>files := (files w)(p @ ''/._check_writable'' := None)\<rparr>"
  shows "if ds_Type c \<noteq> [] \<or> ds_Path c \<noteq> []
    then open_locked env ce de reg p lk w = (Inl (Errorf ''old style datatstore config detected''), v)
    else case Create env de dsc p v of
      (Inl e, v') \<Rightarrow> open_locked env ce de reg p lk w = (Inl e, v')
    | (Inr d, v') \<Rightarrow> \<exists>r w2. open_locked env ce de reg p lk w = (Inr r, w2) \<and> path r = p \<and> lockfile r = lk
        \<and> conf r = c \<and> ds r = DMeasure ''ipfs.fsrepo.datastore'' d"
proof -
  note names = repo_names [OF dir]
  note join = path_Join_abs_dir [OF dir]
  have pdir: "files w p = Some Dir" using disk dir_chain_abs_dir(1) [OF dir] by (auto simp: repo_on_disk_def list_all_iff)
  have cv: "check_version env p w = (Inr (), w)"
    using disk repoVersion_eq [of w p RepoVersionNum env] CheckIpfsDir_Inr [of env p w p w] ok pdir names(1,5)
    by (simp add: check_version_def RepoVersion_def repo_on_disk_def io_bind_def io_try_def io_return_def)
  have wr: "Writable env p w = (Inr (), v)"
    using os_MkdirAll_again [of w p env] disk ok chk pdir v join names(7,8) [of "''._check_writable''"]
    by (auto simp: Writable_def repo_on_disk_def io_bind_def io_try_def io_return_def os_Create_def os_OpenTrunc_def
      os_Remove_def fail_if_def split: option.splits node.splits)
  have oc: "openConfig env ce p v = (Inr c, v)"
    using disk c(1) ok names v ReadConfigFile_Inr [of env "decode_config ce" "p @ ''/config''" v c v]
    by (auto simp: openConfig_def Load_def repo_on_disk_def io_bind_def io_lift_def)
  have rs: "readSpec env p v = (Inr (DiskSpec_String de (DiskSpec de dsc)), v)"
    using disk ok names v
    by (auto simp: readSpec_def repo_on_disk_def io_bind_def io_lift_def io_return_def os_ReadFile_def fail_if_def
      DiskSpec_String_def DiskSpec_Bytes_def trim_space_idem)
  have ods: "openDatastore env de reg p c v =
      (if ds_Type c \<noteq> [] \<or> ds_Path c \<noteq> [] then io_fail (Errorf ''old style datatstore config detected'')
       else io_bind (Create env de dsc p) (\<lambda>d. io_return (DMeasure ''ipfs.fsrepo.datastore'' d))) v"
    using c(2,3) rs by (simp add: openDatastore_def io_bind_def io_lift_def Let_def)
  obtain x v' where x: "Create env de dsc p v = (x, v')" by fastforce
  have "files v' p = Some Dir" using Create_keeps_nodes(1) [OF x, of p Dir] v pdir by auto
  then have ks: "fst (openKeystore env p v') = Inr (p @ ''/keystore'')"
    using ok join names(8) [of "''keystore''"] by (auto simp: openKeystore_def Let_def split: option.split)
  show ?thesis
    using cv wr oc ods x ks
    by (cases x) (auto simp: open_locked_def io_bind_def io_return_def io_fail_def split: prod.splits sum.splits)
qed

text \<open>C5. What was initialised can be opened. After a successful \<open>Init\<close> of a directory that held neither
  a configuration file nor a \<^verbatim>\<open>datastore_spec\<close> left by another repository, on a machine without faults,
  the configuration has a specification of a datastore that was understood, and opening the repository
  ends in one of three ways. A configuration that has the type or the path of an old style datastore
  is refused with that error, although \<open>Init\<close> accepted it; else, when the datastore of the specification
  cannot be created, the error is the one of creating it; else the result is a repository with that
  very configuration, with that datastore and with the lock held. The directory is any clean absolute
  path but the root, \<^verbatim>\<open>._check_writable\<close> in it is not a directory, the configuration survives its own
  encoding, and nobody holds the lock.\<close>

theorem Init_then_open:
  assumes dir: "abs_dir p" and ok: "\<And>op q. fault env op q = None"
    and run: "Init env ce de reg p c w = (Inr (), w1)"
    and new: "files w (p @ ''/config'') = None" "files w (p @ ''/datastore_spec'') = None"
      "files w (p @ ''/._check_writable'') \<noteq> Some Dir"
    and c: "decode_config ce (encode_config ce c) = Inr c"
    and free: "p @ ''/repo.lock'' \<notin> set (locks w)" "locked_by_other env (p @ ''/repo.lock'') = None"
  shows "\<exists>spec dsc. ds_Spec c = Some spec \<and> AnyDatastoreConfig de reg spec = Inr dsc
    \<and> (if ds_Type c \<noteq> [] \<or> ds_Path c \<noteq> []
       then fst (fsrepo_open env ce de reg p w1) = Inl (Errorf ''old style datatstore config detected'')
       else case Create env de dsc p (w1\<lparr>files := (files w1)(p @ ''/._check_writable'' := None),
          locks := (p @ ''/repo.lock'') # locks w\<rparr>) of
        (Inl e, v') \<Rightarrow> fst (fsrepo_open env ce de reg p w1) = Inl e
      | (Inr d, v') \<Rightarrow> \<exists>r w2. fsrepo_open env ce de reg p w1 = (Inr r, w2) \<and> path r = p \<and> conf r = c
          \<and> ds r = DMeasure ''ipfs.fsrepo.datastore'' d \<and> locks w2 = (p @ ''/repo.lock'') # locks w)"
proof -
  obtain dsc where dsc: "AnyDatastoreConfig de reg (case ds_Spec c of None \<Rightarrow> [] | Some m \<Rightarrow> m) = Inr dsc"
    "repo_on_disk ce p c (DiskSpec_Bytes de (DiskSpec de dsc)) (files w1)"
    using Init_writes(1) [OF dir ok run new(1,2)] by blast
  obtain spec where spec: "ds_Spec c = Some spec" "AnyDatastoreConfig de reg spec = Inr dsc"
    using dsc(1) by (cases "ds_Spec c") (auto simp: AnyDatastoreConfig.simps)
  define lk where "lk = p @ ''/repo.lock''"
  define u where "u = w1\<lparr>locks := lk # locks w1\<rparr>"
  have l: "locks w1 = locks w" using silentD(2) [OF silent_Init run] .
  have lock: "lock_Lock env (lock_path p) w1 = (Inr lk, u)"
    using free l path_Join_abs_dir [OF dir, of "''repo.lock''"] by (simp add: lock_Lock_def lock_path_def lk_def u_def)
  have "checkInitialized env p w1 = (Inr (), w1)"
    using configIsInitialized_eq [OF dir ok, of w1] dsc(2)
    by (auto simp: checkInitialized_def repo_on_disk_def io_bind_def io_return_def)
  then have op: "fsrepo_open env ce de reg p w1 = io_on_error (lock_Close lk) (open_locked env ce de reg p lk) u"
    using repo_names(6) [OF dir] lock by (simp add: fsrepo_open_def io_bind_def io_lift_def)
  have "files u (p @ ''/._check_writable'') \<noteq> Some Dir"
    using Init_writes(2) [OF dir ok run new(1,2), of "''._check_writable''"] new(3) by (auto simp: u_def)
  then have "if ds_Type c \<noteq> [] \<or> ds_Path c \<noteq> []
    then open_locked env ce de reg p lk u = (Inl (Errorf ''old style datatstore config detected''),
      w1\<lparr>files := (files w1)(p @ ''/._check_writable'' := None), locks := lk # locks w\<rparr>)
    else case Create env de dsc p (w1\<lparr>files := (files w1)(p @ ''/._check_writable'' := None), locks := lk # locks w\<rparr>) of
      (Inl e, v') \<Rightarrow> open_locked env ce de reg p lk u = (Inl e, v')
    | (Inr d, v') \<Rightarrow> \<exists>r w2. open_locked env ce de reg p lk u = (Inr r, w2) \<and> path r = p \<and> lockfile r = lk
        \<and> conf r = c \<and> ds r = DMeasure ''ipfs.fsrepo.datastore'' d"
    using dsc(2) l by (intro open_locked_on_disk [OF dir ok _ c spec]) (auto simp: u_def)
  moreover have "locks w2 = lk # locks w" if "open_locked env ce de reg p lk u = (Inr r, w2)" for r w2
    using lock_freeD [OF lock_free_open_locked that] l by (simp add: u_def)
  ultimately show ?thesis
    using spec op by (intro exI [of _ spec] exI [of _ dsc])
      (cases "ds_Type c \<noteq> [] \<or> ds_Path c \<noteq> []"; auto simp: io_on_error_def lk_def split: prod.splits sum.splits)
qed

definition sample_empty :: world where
  "sample_empty = \<lparr>files = [''/home'' \<mapsto> Dir], ran = [], locks = [], open_ds = []\<rparr>"

theorem Init_then_open_witness:
  "\<exists>r w2 d. fsrepo_open sample_os sample_cfg sample_ds sample_reg ''/home/.ipfs''
       (snd (Init sample_os sample_cfg sample_ds sample_reg ''/home/.ipfs'' sample_conf sample_empty)) = (Inr r, w2)
     \<and> path r = ''/home/.ipfs'' \<and> conf r = sample_conf \<and> ds r = DMeasure ''ipfs.fsrepo.datastore'' d"
proof -
  define w1 where "w1 = snd (Init sample_os sample_cfg sample_ds sample_reg ''/home/.ipfs'' sample_conf sample_empty)"
  have run: "Init sample_os sample_cfg sample_ds sample_reg ''/home/.ipfs'' sample_conf sample_empty = (Inr (), w1)"
    unfolding w1_def prod_eq_iff fst_conv snd_conv by (intro conjI refl) code_simp
  have dir: "abs_dir ''/home/.ipfs''" by code_simp
  have ok: "fault sample_os op q = None" for op q by (simp add: sample_os_def)
  obtain dsc where spec: "AnyDatastoreConfig sample_ds sample_reg (mount_spec [JObj (flat_spec True), JObj (measured level_spec)]) = Inr dsc"
    and cases: "case Create sample_os sample_ds dsc ''/home/.ipfs'' (w1\<lparr>files := (files w1)(''/home/.ipfs'' @ ''/._check_writable'' := None),
          locks := (''/home/.ipfs'' @ ''/repo.lock'') # locks sample_empty\<rparr>) of
        (Inl e, v') \<Rightarrow> fst (fsrepo_open sample_os sample_cfg sample_ds sample_reg ''/home/.ipfs'' w1) = Inl e
      | (Inr d, v') \<Rightarrow> \<exists>r w2. fsrepo_open sample_os sample_cfg sample_ds sample_reg ''/home/.ipfs'' w1 = (Inr r, w2)
          \<and> path r = ''/home/.ipfs'' \<and> conf r = sample_conf \<and> ds r = DMeasure ''ipfs.fsrepo.datastore'' d
          \<and> locks w2 = (''/home/.ipfs'' @ ''/repo.lock'') # locks sample_empty"
    using Init_then_open [OF dir ok run]
    by (auto simp: sample_empty_def sample_cfg_def sample_conf_def sample_os_def)
  have none: "ds_open sample_ds q = None" for q by (simp add: sample_ds_def)
  have "case AnyDatastoreConfig sample_ds sample_reg (mount_spec [JObj (flat_spec True), JObj (measured level_spec)]) of
      Inr (CMount [(CFlatfs _ _ _, _), (CMeasure (CLevel _ _) _, _)]) \<Rightarrow> True | _ \<Rightarrow> False" by code_simp
  then obtain p1 s1 b1 k1 p2 c2 n2 k2 where dsc: "dsc = CMount [(CFlatfs p1 s1 b1, k1), (CMeasure (CLevel p2 c2) n2, k2)]"
    unfolding spec by (auto split: dsconfig.splits list.splits prod.splits)
  then obtain d v' where cr: "Create sample_os sample_ds dsc ''/home/.ipfs'' (w1\<lparr>files := (files w1)(''/home/.ipfs'' @ ''/._check_writable'' := None),
      locks := (''/home/.ipfs'' @ ''/repo.lock'') # locks sample_empty\<rparr>) = (Inr d, v')"
    using none by (simp add: io_bind_def io_return_def open_db_def)
  show ?thesis using cases unfolding cr w1_def [symmetric] by auto
qed

section \<open>The API address\<close>

text \<open>The address that \<open>SetAPIAddr\<close> registered is the one other processes read, up to its parsing.\<close>

lemma SetAPIAddr_APIAddr:
  assumes dir: "abs_dir (path r)" and ok: "fault env OpRead (path r @ ''/api'') = None"
    and run: "SetAPIAddr env r addr w = (Inr (), w')" and addr: "length addr < 2048" "trim_space addr = addr"
  shows "APIAddr env ce (path r) w' = (NewMultiaddr ce addr, w')"
proof -
  define tmp where "tmp = path r @ ''/.api.tmp''"
  have tmp: "path_Join [path r, ''.api.tmp''] = tmp" "path_Clean tmp = tmp"
    and api: "path_Join [path r, ''api''] = path r @ ''/api''" "path_Clean (path r @ ''/api'') = path r @ ''/api''"
    using path_Join_abs_dir [OF dir] repo_names(7) [OF dir, of "''.api.tmp''"] repo_names(7) [OF dir, of "''api''"]
    by (simp_all add: tmp_def plain_name_def)
  obtain a1 v1 a2 v2 x v3 where st: "os_Create env tmp w = (Inr a1, v1)" "os_Write env tmp addr v1 = (Inr a2, v2)"
    "os_Rename env tmp (path r @ ''/api'') v2 = (x, v3)"
    and rest: "(case x of Inr _ \<Rightarrow> io_return () | Inl e \<Rightarrow> io_bind (io_try (os_Remove env tmp)) (\<lambda>res1.
       case res1 of Inl e1 \<Rightarrow> io_fail (Errorf (''File Rename error: '' @ error_msg e @ '', File remove error: '' @ error_msg e1))
              | Inr _ \<Rightarrow> io_fail e)) v3 = (Inr (), w')"
    using run unfolding SetAPIAddr_def Let_def tmp api io_bind_Inr io_try_eq by blast
  obtain m where "v1 = w\<lparr>files := (files w)(tmp \<mapsto> File [] m)\<rparr>"
    using os_OpenTrunc_Inr [of env tmp 438 w a1 v1] st(1) tmp(2) by (auto simp: os_Create_def)
  then have v2: "files v2 tmp = Some (File addr m)" using os_Write_Inr [OF st(2), of "[]" m] tmp(2) by simp
  have "x = Inr () \<and> w' = v3"
    using rest by (cases x) (auto split: sum.splits, metis sumE unit_eq)
  then have "files w' (path r @ ''/api'') = Some (File addr m)"
    using st(3) v2 tmp(2) api(2) by (auto simp: os_Rename_def io_bind_def fail_if_def io_fail_def io_return_def split: option.splits if_splits)
  then show ?thesis
    using api ok addr repo_names(1) [OF dir]
    by (simp add: APIAddr_def Let_def io_bind_def io_try_def os_ReadFile_def fail_if_def io_return_def io_lift_def)
qed

section \<open>Error paths\<close>

text \<open>When the configuration cannot be written, the deferred renaming still replaces the old file, here by
  an empty one.\<close>

definition full_disk :: os_env where
  "full_disk = sample_os\<lparr>fault := (\<lambda>op p. if op = OpWrite then Some ''no space left on device'' else None)\<rparr>"

lemma WriteConfigFile_loses_config:
  "fst (WriteConfigFile full_disk ''/repo/config'' ''new'' sample_disk) = Inl (Errorf ''no space left on device'')"
  "files (snd (WriteConfigFile full_disk ''/repo/config'' ''new'' sample_disk)) ''/repo/config'' = Some (File [] 384)"
  by code_simp+

text \<open>A keystore that cannot be made leaves the datastore open, while the lock is given back.\<close>

definition no_keystore :: os_env where
  "no_keystore = sample_os\<lparr>fault := (\<lambda>op p. if op = OpMkdir \<and> p = ''/repo/keystore'' then Some ''permission denied'' else None)\<rparr>"

lemma fsrepo_open_leaks_datastore:
  "locks (snd (fsrepo_open no_keystore sample_cfg sample_ds sample_reg ''/repo'' sample_disk)) = [''/other/repo.lock'']"
  "length (open_ds (snd (fsrepo_open no_keystore sample_cfg sample_ds sample_reg ''/repo'' sample_disk))) = 2"
  by code_simp+

text \<open>An \<open>Init\<close> that failed before the version was written is not repeated: the next one succeeds and the
  repository cannot be opened.\<close>

definition no_version :: os_env where
  "no_version = sample_os\<lparr>fault := (\<lambda>op p. if op = OpCreate \<and> p = ''/home/.ipfs/version'' then Some ''permission denied'' else None)\<rparr>"

lemma Init_not_repeated:
  "let w1 = snd (Init no_version sample_cfg sample_ds sample_reg ''/home/.ipfs'' sample_conf sample_empty) in
   fst (Init no_version sample_cfg sample_ds sample_reg ''/home/.ipfs'' sample_conf sample_empty) = Inl (Errorf ''permission denied'')
   \<and> fst (Init sample_os sample_cfg sample_ds sample_reg ''/home/.ipfs'' sample_conf w1) = Inr ()
   \<and> fst (RepoVersion sample_os ''/home/.ipfs'' w1) = Inl (NotExist ''/home/.ipfs/version'')"
  by code_simp

end
