(* ===== verification/Config_Cmd.thy ===== *)
theory Config_Cmd
  imports FS_Repo "HOL-Library.AList"
begin

text \<open>
  The \<^verbatim>\<open>config\<close> commands, from \<^verbatim>\<open>core/commands/config.go\<close>: reading and setting keys, showing, replacing and
  transforming the whole configuration. They run on an open repository of \<open>FS_Repo\<close>, which they close at the
  end; the process has no other reference to it.

  Two things in the configuration are secret, the private key and the keys of remote pinning services. What
  the commands may say is stated without naming the secrets: \<open>conceal\<close> blanks them, and what is printed is the
  same for any two configurations that are equal when blanked.

  Profiles, the JSON decoder for a single value and for remote services are parameters. Letters are ASCII.
\<close>

section \<open>Selectors\<close>

definition EqualFold :: "string \<Rightarrow> string \<Rightarrow> bool" where
  "EqualFold s t = (ToLower s = ToLower t)"

definition PrivKeyParts :: "string list" where
  "PrivKeyParts = [''Identity'', ''PrivKey'']"

definition PinningConcealSelector :: "string list" where
  "PinningConcealSelector = [''Pinning'', ''RemoteServices'', ''*'', ''API'', ''Key'']"

definition RemoteServicesPath :: string where
  "RemoteServicesPath = ''Pinning.RemoteServices''"

text \<open>The loop runs over the glob and ends with the shorter of the two.\<close>

fun glob_loop :: "string list \<Rightarrow> string list \<Rightarrow> bool" where
  "glob_loop k [] = True"
| "glob_loop [] (g # gs) = True"
| "glob_loop (p # k) (g # gs) = (if g = ''*'' then glob_loop k gs else if \<not> EqualFold p g then False else glob_loop k gs)"

definition matchesGlobPrefix :: "string \<Rightarrow> string list \<Rightarrow> bool" where
  "matchesGlobPrefix key glob = glob_loop (split_on (CHR ''.'') key) glob"

section \<open>Scrubbing\<close>

text \<open>\<open>None\<close> is the nil value, which is left out of the result. \<open>scrubEither\<close> passes a nil map to
  \<open>scrubValueInternal\<close>, as an interface value that is not nil, so the error for a missing value is never
  returned.\<close>

definition scrubValueInternal :: "bool \<Rightarrow> bool \<Rightarrow> error + json option" where
  "scrubValueInternal is_nil okIfMissing =
     (if is_nil \<and> \<not> okIfMissing then Inl (Errorf ''failed to find specified key'') else Inr None)"

fun scrubEither :: "json \<Rightarrow> string list \<Rightarrow> bool \<Rightarrow> error + json option"
  and scrub_entries :: "(string \<times> json) list \<Rightarrow> string \<Rightarrow> string list \<Rightarrow> bool \<Rightarrow> error + jmap" where
  "scrubEither (JObj m) [] okIfMissing = Inr (Some (JObj []))"
| "scrubEither (JObj m) (g # gs) okIfMissing =
     bind_res (scrub_entries m g gs okIfMissing) (\<lambda>n. Inr (Some (JObj n)))"
| "scrubEither v gs okIfMissing = scrubValueInternal False okIfMissing"
| "scrub_entries [] g gs okIfMissing = Inr []"
| "scrub_entries ((k, v) # m) g gs okIfMissing =
     (if g = ''*'' \<or> EqualFold g k then
        bind_res (scrubEither v gs okIfMissing) (\<lambda>u.
        bind_res (scrub_entries m g gs okIfMissing) (\<lambda>n.
          Inr (case u of None \<Rightarrow> n | Some x \<Rightarrow> (k, x) # n)))
      else bind_res (scrub_entries m g gs okIfMissing) (\<lambda>n. Inr ((k, v) # n)))"

definition scrubMapInternal :: "jmap \<Rightarrow> string list \<Rightarrow> bool \<Rightarrow> error + jmap" where
  "scrubMapInternal m key okIfMissing =
     (case key of [] \<Rightarrow> Inr [] | g # gs \<Rightarrow> scrub_entries m g gs okIfMissing)"

definition scrubValue :: "jmap \<Rightarrow> string list \<Rightarrow> error + jmap" where
  "scrubValue m key = scrubMapInternal m key False"

definition scrubOptionalValue :: "jmap \<Rightarrow> string list \<Rightarrow> error + jmap" where
  "scrubOptionalValue m key = scrubMapInternal m key True"

definition scrubPrivKey :: "cfg_env \<Rightarrow> config \<Rightarrow> error + jmap" where
  "scrubPrivKey ce cfg = bind_res (ToMap ce cfg) (\<lambda>m. scrubValue m PrivKeyParts)"

section \<open>The commands\<close>

record ConfigField =
  cf_Key :: string
  cf_Value :: json

text \<open>Opening the repository, a body, and the deferred \<open>Close\<close>.\<close>

definition with_repo :: "os_env \<Rightarrow> cfg_env \<Rightarrow> ds_env \<Rightarrow> ds_registry \<Rightarrow> string \<Rightarrow> 'a meth \<Rightarrow> 'a io" where
  "with_repo env ce de reg root body =
     io_bind (fsrepo_open env ce de reg root) (\<lambda>r w.
       case body r w of (x, r', w') \<Rightarrow> (x, snd (snd (FSRepo_Close env ce r' w'))))"

definition getConfig :: "os_env \<Rightarrow> cfg_env \<Rightarrow> string \<Rightarrow> FSRepo \<Rightarrow> ConfigField io" where
  "getConfig env ce key r =
     io_wrap ''failed to get config value: '' (io_bind (GetConfigKey env ce key r) (\<lambda>value.
       io_return \<lparr>cf_Key = key, cf_Value = value\<rparr>))"

definition m_wrap :: "string \<Rightarrow> 'a meth \<Rightarrow> 'a meth" where
  "m_wrap s m r w =
     (case m r w of (Inl e, r', w') \<Rightarrow> (Inl (Errorf (s @ error_msg e)), r', w') | (Inr a, r', w') \<Rightarrow> (Inr a, r', w'))"

definition setConfig :: "os_env \<Rightarrow> cfg_env \<Rightarrow> string \<Rightarrow> json \<Rightarrow> ConfigField meth" where
  "setConfig env ce key value =
     m_bind (m_wrap ''failed to set config value: '' (SetConfigKey env ce key value)) (\<lambda>_ r. m_io (getConfig env ce key r) r)"

definition config_refused :: "string \<Rightarrow> error option" where
  "config_refused key =
     (if ToLower key = ''identity'' \<or> ToLower key = ''identity.privkey''
      then Some (Errorf ''cannot show or change private key through API'')
      else if matchesGlobPrefix key PinningConcealSelector
      then Some (Errorf ''cannot show or change pinning services credentials'')
      else None)"

definition ConfigCmd_Run ::
  "os_env \<Rightarrow> cfg_env \<Rightarrow> ds_env \<Rightarrow> ds_registry \<Rightarrow> (string \<Rightarrow> error + json) \<Rightarrow> string
    \<Rightarrow> bool \<Rightarrow> bool \<Rightarrow> string \<Rightarrow> string option \<Rightarrow> ConfigField io" where
  "ConfigCmd_Run env ce de reg unmarshal root parseJSON isbool key arg =
     (case config_refused key of
        Some e \<Rightarrow> io_fail e
      | None \<Rightarrow>
          with_repo env ce de reg root
            (case arg of
               Some value \<Rightarrow>
                 if parseJSON then
                   (case unmarshal value of
                      Inl e \<Rightarrow> m_io (io_fail (Errorf (''failed to unmarshal json. '' @ error_msg e)))
                    | Inr jsonVal \<Rightarrow> setConfig env ce key jsonVal)
                 else if isbool then setConfig env ce key (JBool (value = ''true''))
                 else setConfig env ce key (JStr value)
             | None \<Rightarrow> (\<lambda>r. m_io (getConfig env ce key r) r)))"

definition configShow_Run :: "os_env \<Rightarrow> cfg_env \<Rightarrow> string \<Rightarrow> jmap io" where
  "configShow_Run env ce root =
     io_bind (io_lift (config_Filename env root)) (\<lambda>fname.
     io_bind (os_ReadFile env fname) (\<lambda>data.
     io_bind (io_lift (decode_map ce data)) (\<lambda>cfg.
     io_bind (io_lift (scrubValue cfg PrivKeyParts)) (\<lambda>cfg.
       io_lift (scrubOptionalValue cfg PinningConcealSelector)))))"

definition editConfig :: "os_env \<Rightarrow> string \<Rightarrow> unit io" where
  "editConfig env filename =
     (let editor = Getenv env ''EDITOR'' in
      if editor = [] then io_fail (Errorf ''ENV variable $EDITOR not set'')
      else os_Run env ''sh'' [''-c'', editor @ '' '' @ filename])"

definition configEdit_Run :: "os_env \<Rightarrow> string \<Rightarrow> unit io" where
  "configEdit_Run env root = io_bind (io_lift (config_Filename env root)) (editConfig env)"

text \<open>\<open>services\<close> is the encoding and decoding that copies a map into remote services.\<close>

definition getRemotePinningServices ::
  "os_env \<Rightarrow> cfg_env \<Rightarrow> (jmap \<Rightarrow> error + (string \<times> remote_service) list) \<Rightarrow> FSRepo \<Rightarrow> (string \<times> remote_service) list io" where
  "getRemotePinningServices env ce services r =
     io_bind (io_try (getConfig env ce RemoteServicesPath r)) (\<lambda>res.
       case res of
         Inl _ \<Rightarrow> io_return []
       | Inr f \<Rightarrow> (case cf_Value f of JObj val \<Rightarrow> io_lift (services val) | _ \<Rightarrow> io_return []))"

text \<open>The loop over the old services.\<close>

fun reapply_services ::
  "(string \<times> remote_service) list \<Rightarrow> (string \<times> remote_service) list \<Rightarrow> error + (string \<times> remote_service) list" where
  "reapply_services [] new = Inr new"
| "reapply_services ((name, oldSvc) # olds) new =
     (case map_of new name of
        None \<Rightarrow> Inl (Errorf ''cannot add or remove remote pinning services with config replace'')
      | Some newSvc \<Rightarrow>
          if api_Key newSvc \<noteq> [] \<or> (api_Endpoint newSvc \<noteq> [] \<and> api_Endpoint newSvc \<noteq> api_Endpoint oldSvc)
          then Inl (Errorf ''cannot change remote pinning services api info with config replace'')
          else reapply_services olds
            (AList.update name (newSvc\<lparr>api_Endpoint := api_Endpoint oldSvc, api_Key := api_Key oldSvc\<rparr>) new))"

definition replaceConfig ::
  "os_env \<Rightarrow> cfg_env \<Rightarrow> (jmap \<Rightarrow> error + (string \<times> remote_service) list) \<Rightarrow> string \<Rightarrow> unit meth" where
  "replaceConfig env ce services file r =
     (case decode_config ce file of
        Inl _ \<Rightarrow> m_io (io_fail (Errorf ''failed to decode file as config'')) r
      | Inr newCfg \<Rightarrow>
          if length (Identity_PrivKey newCfg) \<noteq> 0
          then m_io (io_fail (Errorf ''setting private key with API is not supported'')) r
          else m_bind (m_io (io_try (getConfig env ce PrivKeySelector r))) (\<lambda>keyF.
            case keyF of
              Inl _ \<Rightarrow> m_io (io_fail (Errorf ''failed to get PrivKey''))
            | Inr f \<Rightarrow>
                (case cf_Value f of
                   JStr pkstr \<Rightarrow>
                     m_bind (m_io (io_wrap ''failed to load remote pinning services info '' (getRemotePinningServices env ce services r)))
                       (\<lambda>oldServices.
                        if length (RemoteServices newCfg) \<noteq> length oldServices
                        then m_io (io_fail (Errorf ''cannot add or remove remote pinning services with config replace''))
                        else m_bind (m_io (io_lift (reapply_services oldServices (RemoteServices newCfg)))) (\<lambda>newServices.
                          SetConfig env ce (newCfg\<lparr>Identity_PrivKey := pkstr, RemoteServices := newServices\<rparr>)))
                 | _ \<Rightarrow> m_io (io_fail (Errorf ''private key in config was not a string'')))) r)"

definition configReplace_Run ::
  "os_env \<Rightarrow> cfg_env \<Rightarrow> ds_env \<Rightarrow> ds_registry \<Rightarrow> (jmap \<Rightarrow> error + (string \<times> remote_service) list) \<Rightarrow> string
    \<Rightarrow> error + string \<Rightarrow> unit io" where
  "configReplace_Run env ce de reg services root fileArg =
     with_repo env ce de reg root
       (case fileArg of Inl e \<Rightarrow> m_io (io_fail e) | Inr file \<Rightarrow> replaceConfig env ce services file)"

text \<open>A profile is the transformation of a configuration; \<open>clone\<close> encodes and decodes it.\<close>

definition clone :: "cfg_env \<Rightarrow> config \<Rightarrow> error + config" where
  "clone ce c = decode_config ce (encode_config ce c)"

definition transformConfig ::
  "os_env \<Rightarrow> cfg_env \<Rightarrow> ds_env \<Rightarrow> ds_registry \<Rightarrow> string \<Rightarrow> string \<Rightarrow> (config \<Rightarrow> error + config) \<Rightarrow> bool \<Rightarrow> (config \<times> config) io" where
  "transformConfig env ce de reg configRoot configName transformer dryRun =
     with_repo env ce de reg configRoot (\<lambda>r.
       m_bind (m_io (io_lift (FSRepo_Config r))) (\<lambda>oldCfg.
       m_bind (m_io (io_lift (clone ce oldCfg))) (\<lambda>cfg.
       m_bind (m_io (io_lift (transformer cfg))) (\<lambda>newCfg.
         if \<not> dryRun then
           m_bind (m_io (BackupConfig env r (''pre-'' @ configName @ ''-''))) (\<lambda>_.
           m_bind (SetConfig env ce newCfg) (\<lambda>_.
             m_io (io_return (oldCfg, newCfg))))
         else m_io (io_return (oldCfg, newCfg))))) r)"

definition configProfileApply_Run ::
  "os_env \<Rightarrow> cfg_env \<Rightarrow> ds_env \<Rightarrow> ds_registry \<Rightarrow> (string \<rightharpoonup> (config \<Rightarrow> error + config)) \<Rightarrow> string \<Rightarrow> string \<Rightarrow> bool
    \<Rightarrow> (jmap \<times> jmap) io" where
  "configProfileApply_Run env ce de reg Profiles cfgRoot name dryRun =
     (case Profiles name of
        None \<Rightarrow> io_fail (Errorf (name @ '' is not a profile''))
      | Some transform \<Rightarrow>
          io_bind (transformConfig env ce de reg cfgRoot name transform dryRun) (\<lambda>(oldCfg, newCfg).
          io_bind (io_lift (scrubPrivKey ce oldCfg)) (\<lambda>oldCfgMap.
          io_bind (io_lift (scrubPrivKey ce newCfg)) (\<lambda>newCfgMap.
            io_return (oldCfgMap, newCfgMap)))))"

section \<open>The public part of a configuration\<close>

text \<open>A value with what a selector reaches blanked out.\<close>

fun conceal :: "string list \<Rightarrow> json \<Rightarrow> json" where
  "conceal [] j = JNull"
| "conceal (g # gs) (JObj m) = JObj (map (\<lambda>(k, v). (k, if g = ''*'' \<or> EqualFold g k then conceal gs v else v)) m)"
| "conceal (g # gs) j = j"

text \<open>What a selector reaches is a plain value and not a map.\<close>

fun secrets_plain :: "string list \<Rightarrow> json \<Rightarrow> bool" where
  "secrets_plain [] j = (case j of JObj m \<Rightarrow> False | _ \<Rightarrow> True)"
| "secrets_plain (g # gs) (JObj m) = list_all (\<lambda>(k, v). (g = ''*'' \<or> EqualFold g k) \<longrightarrow> secrets_plain gs v) m"
| "secrets_plain (g # gs) j = True"

definition public :: "json \<Rightarrow> json" where
  "public j = conceal PinningConcealSelector (conceal PrivKeyParts j)"

definition public_map :: "jmap \<Rightarrow> jmap" where
  "public_map m = (case public (JObj m) of JObj m' \<Rightarrow> m' | _ \<Rightarrow> [])"

lemma public_JObj [simp]: "public (JObj m) = JObj (public_map m)"
  by (simp add: public_map_def public_def PinningConcealSelector_def PrivKeyParts_def)

lemma EqualFold_sym: "EqualFold s t \<longleftrightarrow> EqualFold t s"
  by (auto simp: EqualFold_def)

lemma map_of_conceal:
  "map_of (map (\<lambda>(k, v). (k, if g = ''*'' \<or> EqualFold g k then conceal gs v else v)) m) k =
     map_option (\<lambda>v. if g = ''*'' \<or> EqualFold g k then conceal gs v else v) (map_of m k)"
  by (induction m) auto

text \<open>A key that is not above what a selector reaches has the same value in the concealed map.\<close>

lemma get_parts_conceal:
  "\<not> (glob_loop ps sel \<and> length ps \<le> length sel) \<Longrightarrow> glob_loop ps sel \<longrightarrow> secrets_plain sel j
    \<Longrightarrow> get_parts sf (conceal sel j) ps = get_parts sf j ps"
proof (induction sel j arbitrary: ps sf rule: conceal.induct)
  case (1 j)
  then obtain p ps' where "ps = p # ps'" by (cases ps) auto
  then show ?case using 1 by (cases j) auto
next
  case (2 g gs m)
  then obtain p ps' where ps: "ps = p # ps'" by (cases ps) auto
  show ?case
  proof (cases "map_of m p")
    case None
    then show ?thesis by (simp add: ps map_of_conceal)
  next
    case (Some v)
    then have v: "(p, v) \<in> set m" by (rule map_of_SomeD)
    show ?thesis
    proof (cases "g = ''*'' \<or> EqualFold g p")
      case True
      have gl: "glob_loop ps (g # gs) = glob_loop ps' gs" using True EqualFold_sym [of g p] by (auto simp: ps)
      have pl: "glob_loop ps' gs \<longrightarrow> secrets_plain gs v" using "2.prems"(2) gl v True by (auto simp: list_all_iff)
      have "\<not> (glob_loop ps' gs \<and> length ps' \<le> length gs)" using "2.prems"(1) gl ps by simp
      then have "get_parts (sf @ [p]) (conceal gs v) ps' = get_parts (sf @ [p]) v ps'"
        using "2.IH" [OF v refl True] pl by blast
      then show ?thesis using Some True by (simp add: ps map_of_conceal)
    qed (use Some map_of_conceal [of g gs m p] in \<open>simp add: ps\<close>)
  qed
qed auto

lemma ToLower_simps [simp]: "ToLower [] = []" "ToLower (c # s) = to_lower c # ToLower s"
  by (simp_all add: ToLower_def)

lemma to_lower_dot: "to_lower c = CHR ''.'' \<longleftrightarrow> c = CHR ''.''"
proof
  assume *: "to_lower c = CHR ''.''"
  show "c = CHR ''.''"
  proof (cases "65 \<le> (of_char c :: nat) \<and> (of_char c :: nat) \<le> 90")
    case True
    then have "(of_char (char_of (of_char c + 32 :: nat)) :: nat) = of_char CHR ''.''"
      using * by (simp add: to_lower_def Let_def)
    then show ?thesis using True by simp
  qed (use * in \<open>auto simp: to_lower_def Let_def\<close>)
qed (simp add: to_lower_def)

lemma split_on_ToLower: "split_on (CHR ''.'') (ToLower s) = map ToLower (split_on (CHR ''.'') s)"
  by (induction s) (auto simp: to_lower_dot split: list.splits)

lemma ToLower_parts: "ToLower key = join ''.'' (map ToLower (split_on (CHR ''.'') key))"
  using join_split_on [of "CHR ''.''" "ToLower key"] by (simp add: split_on_ToLower)

text \<open>Keys that are not refused lie outside what is secret.\<close>

lemma allowed_parts:
  assumes "config_refused key = None"
  defines "ps \<equiv> split_on (CHR ''.'') key"
  shows "\<not> (glob_loop ps PrivKeyParts \<and> length ps \<le> length PrivKeyParts)"
    and "\<not> glob_loop ps PinningConcealSelector"
proof -
  have low: "ToLower key \<noteq> ''identity''" "ToLower key \<noteq> ''identity.privkey''"
    and pin: "\<not> matchesGlobPrefix key PinningConcealSelector"
    using assms(1) by (auto simp: config_refused_def split: if_splits)
  show "\<not> glob_loop ps PinningConcealSelector" using pin by (simp add: matchesGlobPrefix_def ps_def)
  show "\<not> (glob_loop ps PrivKeyParts \<and> length ps \<le> length PrivKeyParts)"
  proof
    assume *: "glob_loop ps PrivKeyParts \<and> length ps \<le> length PrivKeyParts"
    obtain a qs where ps: "ps = a # qs" using split_on_not_Nil [of "CHR ''.''" key] by (cases ps) (auto simp: ps_def)
    have lk: "ToLower key = join ''.'' (map ToLower ps)" unfolding ps_def by (rule ToLower_parts)
    have low2: "ToLower ''Identity'' = ''identity''" "ToLower ''PrivKey'' = ''privkey''" by code_simp+
    have a: "ToLower a = ''identity''" using * ps low2 by (auto simp: PrivKeyParts_def EqualFold_def split: if_splits)
    show False
    proof (cases qs)
      case Nil
      then show ?thesis using lk ps a low(1) by simp
    next
      case (Cons b rs)
      then have "rs = []" "ToLower b = ''privkey''"
        using * ps low2 by (auto simp: PrivKeyParts_def EqualFold_def split: if_splits)
      then show ?thesis using lk ps Cons a low(2) by simp
    qed
  qed
qed

lemma MapGetKV_public:
  assumes "config_refused key = None" "secrets_plain PrivKeyParts (JObj m)"
  shows "MapGetKV (public_map m) key = MapGetKV m key"
proof -
  note ap = allowed_parts [OF assms(1)]
  have "get_parts [] (public (JObj m)) (split_on (CHR ''.'') key) = get_parts [] (JObj m) (split_on (CHR ''.'') key)"
    unfolding public_def using get_parts_conceal [OF ap(1)] get_parts_conceal [of _ PinningConcealSelector] ap(2) assms(2) by metis
  then show ?thesis by (simp add: MapGetKV_def)
qed


section \<open>Showing\<close>

definition shown :: "jmap \<Rightarrow> error + jmap" where
  "shown m = bind_res (scrubValue m PrivKeyParts) (\<lambda>m. scrubOptionalValue m PinningConcealSelector)"

text \<open>Scrubbing never fails, and is this function.\<close>

fun scrub :: "string list \<Rightarrow> json \<Rightarrow> json option" where
  "scrub [] (JObj m) = Some (JObj [])"
| "scrub (g # gs) (JObj m) =
     Some (JObj (concat (map (\<lambda>(k, v). if g = ''*'' \<or> EqualFold g k then (case scrub gs v of None \<Rightarrow> [] | Some x \<Rightarrow> [(k, x)]) else [(k, v)]) m)))"
| "scrub gs j = None"

lemma scrubEither_eq:
  "scrubEither j sel ok = Inr (scrub sel j)"
  "scrub_entries m g gs ok =
     Inr (concat (map (\<lambda>(k, v). if g = ''*'' \<or> EqualFold g k then (case scrub gs v of None \<Rightarrow> [] | Some x \<Rightarrow> [(k, x)]) else [(k, v)]) m))"
  by (induction j sel ok and m g gs ok rule: scrubEither_scrub_entries.induct)
    (auto simp: scrubValueInternal_def split: option.splits)

lemma scrub_conceal: "secrets_plain sel j \<Longrightarrow> scrub sel (conceal sel j) = scrub sel j"
proof (induction sel j rule: conceal.induct)
  case (2 g gs m)
  have "scrub gs (conceal gs v) = scrub gs v" if "(k, v) \<in> set m" "g = ''*'' \<or> EqualFold g k" for k v
    using "2.IH" [OF that(1) refl that(2)] "2.prems" that by (auto simp: list_all_iff)
  then show ?case by (auto intro!: arg_cong [where f = concat])
qed (auto split: json.splits)

text \<open>Selectors that begin with different names do not disturb each other.\<close>

lemma scrub_conceal_apart:
  assumes "g \<noteq> ''*''" "h \<noteq> ''*''" "\<not> EqualFold g h"
  shows "scrub (g # gs) (conceal (h # hs) (JObj m)) = map_option (conceal (h # hs)) (scrub (g # gs) (JObj m))"
    and "secrets_plain (h # hs) (JObj m) \<Longrightarrow> list_all (secrets_plain (h # hs)) (case scrub (g # gs) (JObj m) of None \<Rightarrow> [] | Some j \<Rightarrow> [j])"
  using assms by (induction m) (auto simp: EqualFold_def split: option.splits)

lemma scrubMapInternal_eq: "scrub (g # gs) (JObj m) = Some (JObj n) \<Longrightarrow> scrubMapInternal m (g # gs) ok = Inr n"
  by (auto simp: scrubMapInternal_def scrubEither_eq)

lemma shown_public:
  assumes "secrets_plain PrivKeyParts (JObj m)" "secrets_plain PinningConcealSelector (JObj m)"
  shows "shown (public_map m) = shown m"
proof -
  have heads: "''Identity'' \<noteq> ''*''" "''Pinning'' \<noteq> ''*''" "\<not> EqualFold ''Identity'' ''Pinning''" by code_simp+
  define P where "P = [''PrivKey'']"
  define Q where "Q = [''RemoteServices'', ''*'', ''API'', ''Key'']"
  have sel: "PrivKeyParts = ''Identity'' # P" "PinningConcealSelector = ''Pinning'' # Q"
    by (simp_all add: PrivKeyParts_def PinningConcealSelector_def P_def Q_def)
  obtain m1 where m1: "conceal (''Identity'' # P) (JObj m) = JObj m1" by simp
  obtain n where n: "scrub (''Identity'' # P) (JObj m) = Some (JObj n)" by simp
  have n1: "scrub (''Identity'' # P) (JObj m1) = Some (JObj n)" using scrub_conceal [of "''Identity'' # P" "JObj m"] assms(1) m1 n sel by simp
  obtain n2 where n2: "conceal (''Pinning'' # Q) (JObj n) = JObj n2" by simp
  have "public (JObj m) = conceal (''Pinning'' # Q) (JObj m1)" using m1 by (simp only: public_def sel)
  then have "scrub (''Identity'' # P) (JObj (public_map m)) = Some (JObj n2)"
    using scrub_conceal_apart(1) [OF heads, of P Q m1] n1 n2 by simp
  then have p: "scrubMapInternal (public_map m) PrivKeyParts ok = Inr n2" "scrubMapInternal m PrivKeyParts ok = Inr n" for ok
    using scrubMapInternal_eq n unfolding sel by blast+
  have "secrets_plain (''Pinning'' # Q) (JObj n)" using scrub_conceal_apart(2) [OF heads, of Q m P] assms(2) n sel by simp
  then have "scrub (''Pinning'' # Q) (JObj n2) = scrub (''Pinning'' # Q) (JObj n)" using scrub_conceal n2 by metis
  then show ?thesis
    by (simp add: shown_def scrubValue_def scrubOptionalValue_def p) (simp add: sel scrubMapInternal_def scrubEither_eq)
qed


section \<open>Reading through an open repository\<close>

lemma keeps_same_files: "(\<And>w. files (snd (m w)) = files w) \<Longrightarrow> keeps K m"
  by (simp add: keeps_def)

lemma keeps_MkdirAll [keeps_intros]: "keeps K (os_MkdirAll env d)"
proof (unfold keeps_def, intro allI impI)
  fix w :: world and n
  assume K: "files w K = Some n"
  obtain x v where v: "os_MkdirAll env d w = (x, v)" by fastforce
  show "files (snd (os_MkdirAll env d w)) K = Some n"
  proof (cases x)
    case (Inr u)
    then show ?thesis using os_MkdirAll_Dir v K by (metis snd_conv old.unit.exhaust)
  qed (use v K in \<open>auto simp: os_MkdirAll_def split: option.splits if_splits\<close>)
qed

lemma keeps_Remove [keeps_intros]: "path_Clean p \<noteq> K \<Longrightarrow> keeps K (os_Remove env p)"
  by (auto simp: keeps_def os_Remove_def io_bind_def fail_if_def io_fail_def io_return_def split: option.splits node.splits if_splits)

lemma keeps_checkInitialized [keeps_intros]: "keeps K (checkInitialized env p)"
  unfolding checkInitialized_def isInitializedUnsynced_def configIsInitialized_def FileExists_def
  by (auto intro!: keeps_intros split: sum.split)

lemma keeps_check_version [keeps_intros]: "keeps K (check_version env p)"
  unfolding check_version_def RepoVersion_def CheckIpfsDir_def repoVersion_def
  by (auto intro!: keeps_intros split: sum.split option.split)

lemma keeps_Writable: "path_Clean (path_Join [p, ''._check_writable'']) \<noteq> K \<Longrightarrow> keeps K (Writable env p)"
  unfolding Writable_def by (auto intro!: keeps_intros split: sum.split)

lemma keeps_ReadConfigFile [keeps_intros]: "keeps K (ReadConfigFile env dec p)"
  unfolding ReadConfigFile_def by (auto intro!: keeps_intros split: sum.split)

lemma keeps_openDatastore [keeps_intros]: "keeps K (openDatastore env de reg p c)"
proof -
  have "keeps K (Create env de dsc p)" for dsc
    using Create_keeps_nodes(1) by (metis keeps_def prod.collapse)
  then show ?thesis
    unfolding openDatastore_def readSpec_def Let_def by (auto intro!: keeps_intros split: option.split)
qed

lemma keeps_openKeystore [keeps_intros]: "keeps K (openKeystore env p)"
  by (auto simp: keeps_def openKeystore_def Let_def split: option.splits)

lemma keeps_on_error: "keeps K d \<Longrightarrow> keeps K m \<Longrightarrow> keeps K (io_on_error d m)"
  by (auto simp: keeps_def io_on_error_def split: prod.splits sum.splits) (metis snd_conv)+

lemma keeps_lock: "keeps K (lock_Lock env l)" "keeps K (lock_Close l)"
  by (auto simp: keeps_def lock_Lock_def lock_Close_def split: option.splits)

lemma fsrepo_open_path:
  assumes "abs_dir p" "fsrepo_open env ce de reg p w = (Inr r, v)"
  shows "path r = p" "closed r = False" "files w (p @ ''/config'') = Some n \<Longrightarrow> files v (p @ ''/config'') = Some n"
proof -
  note names = repo_names [OF assms(1)]
  obtain v1 v2 lk where st: "lock_Lock env (lock_path p) v1 = (Inr lk, v2)"
    "io_on_error (lock_Close lk) (open_locked env ce de reg p lk) v2 = (Inr r, v)"
    using assms(2) names(6) by (auto simp: fsrepo_open_def)
  then have "open_locked env ce de reg p lk v2 = (Inr r, v)" by (auto simp: io_on_error_def split: prod.splits sum.splits)
  then show "path r = p" "closed r = False" using open_locked_opens by blast+
  have op: "fsrepo_open env ce de reg p = io_bind (checkInitialized env p) (\<lambda>_. io_bind (lock_Lock env (lock_path p))
      (\<lambda>lk. io_on_error (lock_Close lk) (open_locked env ce de reg p lk)))"
    by (rule ext) (simp add: fsrepo_open_def io_bind_def io_lift_def names(6))
  have "path_Clean (path_Join [p, ''._check_writable'']) \<noteq> p @ ''/config''"
    using names(7) [of "''._check_writable''"] path_Join_abs_dir [OF assms(1), of "''._check_writable''"] by simp
  then have "keeps (p @ ''/config'') (fsrepo_open env ce de reg p)"
    using op unfolding open_locked_def openConfig_def Load_def
    by (auto intro!: keeps_intros keeps_on_error keeps_lock keeps_Writable)
  then show "files w (p @ ''/config'') = Some n \<Longrightarrow> files v (p @ ''/config'') = Some n"
    using keepsD assms(2) by blast
qed

lemma GetConfigKey_Inr:
  assumes "GetConfigKey env ce k r w = (Inr x, w')" "config_Filename env (path r) = Inr fn"
    "files w (path_Clean fn) = Some (File d n)" "decode_map ce d = Inr m"
  shows "w' = w \<and> MapGetKV m k = Inr x"
  using assms by (auto simp: GetConfigKey_def ReadConfigFile_Inr split: if_splits)

lemma with_repo_Inr:
  "with_repo env ce de reg root body w = (Inr x, w') \<longleftrightarrow>
     (\<exists>r v r' v'. fsrepo_open env ce de reg root w = (Inr r, v) \<and> body r v = (Inr x, r', v')
        \<and> w' = snd (snd (FSRepo_Close env ce r' v')))"
  by (simp add: with_repo_def case_prod_unfold) (metis prod.collapse fst_conv snd_conv)

text \<open>C29. Reading a key of the configuration tells nothing about its secrets: the value that is printed is the
  one found under the key when the private key and the keys of all remote pinning services are blanked
  out. The refusal of secret keys is by name and ignores case, so it is shown that no other key, shorter or
  longer, reaches a secret. The private key must not itself be a JSON object.\<close>

theorem config_get_public:
  assumes dir: "abs_dir p"
    and cfg: "files w (p @ ''/config'') = Some (File d n)" "decode_map ce d = Inr m"
    and plain: "secrets_plain PrivKeyParts (JObj m)"
    and run: "ConfigCmd_Run env ce de reg unmarshal p js bo key None w = (Inr f, w')"
  shows "cf_Key f = key \<and> MapGetKV (public_map m) key = Inr (cf_Value f)"
proof -
  have ok: "config_refused key = None" using run by (auto simp: ConfigCmd_Run_def split: option.splits)
  then obtain r v v' where st: "fsrepo_open env ce de reg p w = (Inr r, v)" "getConfig env ce key r v = (Inr f, v')"
    using run by (auto simp: ConfigCmd_Run_def with_repo_Inr)
  note r = fsrepo_open_path [OF dir st(1)]
  obtain x where x: "GetConfigKey env ce key r v = (Inr x, v')" "f = \<lparr>cf_Key = key, cf_Value = x\<rparr>"
    using st(2) by (auto simp: getConfig_def)
  have "MapGetKV m key = Inr x"
    using GetConfigKey_Inr [OF x(1), of "p @ ''/config''" d n m] r repo_names(3,7) [OF dir] cfg by simp
  then show ?thesis using MapGetKV_public [OF ok plain] x(2) by simp
qed


text \<open>Scrubbing leaves what its selector does not reach.\<close>

lemma get_parts_scrub:
  "\<not> (glob_loop ps sel \<and> length ps \<le> length sel) \<Longrightarrow> glob_loop ps sel \<longrightarrow> secrets_plain sel j
    \<Longrightarrow> get_parts sf j ps = Inr x \<Longrightarrow> \<exists>j'. scrub sel j = Some j' \<and> get_parts sf j' ps = Inr x"
proof (induction sel j arbitrary: ps sf rule: conceal.induct)
  case (1 j)
  then obtain p ps' where "ps = p # ps'" by (cases ps) auto
  then show ?case using 1 by (cases j) auto
next
  case (2 g gs m)
  then obtain p ps' where ps: "ps = p # ps'" by (cases ps) auto
  obtain v where v: "map_of m p = Some v" "get_parts (sf @ [p]) v ps' = Inr x"
    using "2.prems"(3) by (auto simp: ps split: option.splits)
  define f where "f = (\<lambda>(k, v). if g = ''*'' \<or> EqualFold g k then (case scrub gs v of None \<Rightarrow> [] | Some x \<Rightarrow> [(k, x)]) else [(k, v)])"
  have mem: "(p, v) \<in> set m" using v(1) by (rule map_of_SomeD)
  have first: "map_of n p = Some v \<Longrightarrow> f (p, v) = [(p, u)] \<Longrightarrow> map_of (concat (map f n)) p = Some u" for n u
    by (induction n) (auto simp: f_def split: if_splits option.splits)
  have "\<exists>u. f (p, v) = [(p, u)] \<and> get_parts (sf @ [p]) u ps' = Inr x"
  proof (cases "g = ''*'' \<or> EqualFold g p")
    case True
    have gl: "glob_loop ps (g # gs) = glob_loop ps' gs" using True EqualFold_sym [of g p] by (auto simp: ps)
    have pl: "glob_loop ps' gs \<longrightarrow> secrets_plain gs v" using "2.prems"(2) gl mem True by (auto simp: list_all_iff)
    have "\<not> (glob_loop ps' gs \<and> length ps' \<le> length gs)" using "2.prems"(1) gl ps by simp
    then obtain u where "scrub gs v = Some u" "get_parts (sf @ [p]) u ps' = Inr x"
      using "2.IH" [OF mem refl True _ pl v(2)] by blast
    then show ?thesis using True by (simp add: f_def)
  qed (use v in \<open>simp add: f_def\<close>)
  then show ?case using first [OF v(1)] by (force simp: ps f_def [symmetric])
qed (case_tac [!] ps, auto)

lemma shown_keeps:
  assumes "config_refused key = None" "secrets_plain PrivKeyParts (JObj m)" "MapGetKV m key = Inr x"
  shows "\<exists>out. shown m = Inr out \<and> MapGetKV out key = Inr x"
proof -
  note ap = allowed_parts [OF assms(1)]
  obtain j1 where j1: "scrub PrivKeyParts (JObj m) = Some j1" "get_parts [] j1 (split_on (CHR ''.'') key) = Inr x"
    using get_parts_scrub [OF ap(1) _ assms(3) [unfolded MapGetKV_def]] assms(2) by blast
  then obtain m1 where m1: "j1 = JObj m1" by (auto simp: PrivKeyParts_def)
  obtain j2 where j2: "scrub PinningConcealSelector j1 = Some j2" "get_parts [] j2 (split_on (CHR ''.'') key) = Inr x"
    using get_parts_scrub [of _ PinningConcealSelector, OF _ _ j1(2)] ap(2) by blast
  then obtain m2 where m2: "j2 = JObj m2" by (auto simp: m1 PinningConcealSelector_def)
  have "scrubMapInternal m PrivKeyParts False = Inr m1" "scrubMapInternal m1 PinningConcealSelector True = Inr m2"
    using j1(1) j2(1) scrubMapInternal_eq unfolding m1 m2 PrivKeyParts_def PinningConcealSelector_def by blast+
  then show ?thesis using j2(2) m2 by (simp add: shown_def scrubValue_def scrubOptionalValue_def MapGetKV_def)
qed

text \<open>Showing the configuration omits the secrets and nothing else: the output is what is shown of the
  configuration in which the private key and the keys of all remote pinning services are blanked out, and
  every key that \<^verbatim>\<open>ipfs config\<close> would read has the same value in the output. The secrets must not be JSON
  objects themselves.\<close>

lemma config_show_public:
  assumes dir: "abs_dir p"
    and cfg: "files w (p @ ''/config'') = Some (File d n)" "decode_map ce d = Inr m"
    and plain: "secrets_plain PrivKeyParts (JObj m)" "secrets_plain PinningConcealSelector (JObj m)"
    and run: "configShow_Run env ce p w = (Inr out, w')"
  shows "shown (public_map m) = Inr out
    \<and> (\<forall>key x. config_refused key = None \<longrightarrow> MapGetKV m key = Inr x \<longrightarrow> MapGetKV out key = Inr x)"
proof -
  have "shown m = Inr out"
    using run cfg repo_names(3,7) [OF dir]
    by (auto simp: configShow_Run_def shown_def os_ReadFile_def fail_if_def split: option.splits)
  then show ?thesis using shown_public [OF plain] shown_keeps [OF _ plain(1)] by fastforce
qed


section \<open>Replacing\<close>

definition api_of :: "remote_service \<Rightarrow> string \<times> string" where
  "api_of s = (api_Endpoint s, api_Key s)"

text \<open>The remote services of a configuration map, as \<open>getRemotePinningServices\<close> reads them.\<close>

definition services_of :: "(jmap \<Rightarrow> error + (string \<times> remote_service) list) \<Rightarrow> jmap \<Rightarrow> error + (string \<times> remote_service) list" where
  "services_of services m =
     (case MapGetKV m RemoteServicesPath of Inr (JObj val) \<Rightarrow> services val | _ \<Rightarrow> Inr [])"

lemma reapply_services_Inr:
  "reapply_services olds new = Inr out \<Longrightarrow> distinct (map fst olds) \<Longrightarrow>
    map fst out = map fst new \<and> set (map fst olds) \<subseteq> set (map fst new)
    \<and> (\<forall>k. map_option api_of (map_of out k) =
      (if k \<in> set (map fst olds) then map_option api_of (map_of olds k) else map_option api_of (map_of new k)))"
proof (induction olds new arbitrary: out rule: reapply_services.induct)
  case (2 name oldSvc olds new)
  obtain newSvc where svc: "map_of new name = Some newSvc"
    using "2.prems"(1) by (cases "map_of new name") auto
  define new' where "new' = AList.update name (newSvc\<lparr>api_Endpoint := api_Endpoint oldSvc, api_Key := api_Key oldSvc\<rparr>) new"
  have rest: "reapply_services olds new' = Inr out"
    using "2.prems"(1) svc by (auto simp: new'_def split: if_splits)
  have guard: "\<not> (api_Key newSvc \<noteq> [] \<or> (api_Endpoint newSvc \<noteq> [] \<and> api_Endpoint newSvc \<noteq> api_Endpoint oldSvc))"
    using "2.prems"(1) svc by (auto split: if_splits)
  have in_new: "name \<in> set (map fst new)" using svc by (metis domI dom_map_of_conv_image_fst image_set)
  have keys: "map fst new' = map fst new" using in_new by (simp add: new'_def update_keys)
  have dist: "distinct (map fst olds)" "name \<notin> set (map fst olds)" using "2.prems"(2) by auto
  have mo: "map_option api_of (map_of new' k) = (if k = name then Some (api_of oldSvc) else map_option api_of (map_of new k))" for k
    by (simp add: new'_def update_conv' api_of_def)
  note IH = "2.IH" [OF svc guard rest [unfolded new'_def] dist(1), folded new'_def]
  have "map_option api_of (map_of out k) =
      (if k \<in> set (map fst ((name, oldSvc) # olds)) then map_option api_of (map_of ((name, oldSvc) # olds) k)
       else map_option api_of (map_of new k))" for k
    using IH dist(2) mo [of k] by auto
  moreover have "map fst out = map fst new" "set (map fst ((name, oldSvc) # olds)) \<subseteq> set (map fst new)"
    using IH keys in_new by auto
  ultimately show ?case by blast
qed auto

text \<open>The services given may say nothing about the keys, and about the endpoints nothing new.\<close>

lemma reapply_services_guards:
  "reapply_services olds new = Inr out \<Longrightarrow> distinct (map fst olds) \<Longrightarrow> map_of olds k = Some oldSvc \<Longrightarrow>
    \<exists>s. map_of new k = Some s \<and> api_Key s = [] \<and> (api_Endpoint s = [] \<or> api_Endpoint s = api_Endpoint oldSvc)"
proof (induction olds new arbitrary: out rule: reapply_services.induct)
  case (2 name old olds new)
  obtain newSvc where svc: "map_of new name = Some newSvc"
    using "2.prems"(1) by (cases "map_of new name") auto
  have guard: "\<not> (api_Key newSvc \<noteq> [] \<or> (api_Endpoint newSvc \<noteq> [] \<and> api_Endpoint newSvc \<noteq> api_Endpoint old))"
    and rest: "reapply_services olds (AList.update name (newSvc\<lparr>api_Endpoint := api_Endpoint old, api_Key := api_Key old\<rparr>) new) = Inr out"
    using "2.prems"(1) svc by (auto split: if_splits)
  show ?case
  proof (cases "k = name")
    case False
    then show ?thesis using "2.IH" [OF svc guard rest] "2.prems"(2,3) by (auto simp: update_conv')
  qed (use "2.prems"(3) svc guard in auto)
qed simp

lemma same_services:
  assumes "reapply_services olds new = Inr out" "distinct (map fst olds)" "distinct (map fst new)" "length new = length olds"
  shows "map_option api_of (map_of out k) = map_option api_of (map_of olds k)"
    and "map_of new k = Some s \<Longrightarrow>
      \<exists>old. map_of olds k = Some old \<and> api_Key s = [] \<and> (api_Endpoint s = [] \<or> api_Endpoint s = api_Endpoint old)"
proof -
  have r: "map fst out = map fst new" "set (map fst olds) \<subseteq> set (map fst new)"
    "k \<in> set (map fst olds) \<Longrightarrow> map_option api_of (map_of out k) = map_option api_of (map_of olds k)"
    using reapply_services_Inr [OF assms(1,2)] by auto
  have "card (set (map fst olds)) = card (set (map fst new))"
    using assms(2-4) by (metis distinct_card length_map)
  then have same: "set (map fst olds) = set (map fst new)" using r(2) by (simp add: card_subset_eq)
  show "map_option api_of (map_of out k) = map_option api_of (map_of olds k)"
  proof (cases "k \<in> set (map fst olds)")
    case False
    then have "map_of out k = None" "map_of olds k = None" using same r(1) by (metis map_of_eq_None_iff image_set)+
    then show ?thesis by simp
  qed (use r(3) in simp)
  show "\<exists>old. map_of olds k = Some old \<and> api_Key s = [] \<and> (api_Endpoint s = [] \<or> api_Endpoint s = api_Endpoint old)"
    if "map_of new k = Some s"
  proof -
    have "k \<in> set (map fst olds)" unfolding same using map_of_SomeD [OF that] by force
    then obtain old where "map_of olds k = Some old" by (metis image_set map_of_eq_None_iff not_None_eq)
    then show ?thesis using reapply_services_guards [OF assms(1,2), of k old] that by auto
  qed
qed


lemma getRemotePinningServices_eq:
  assumes "GetConfigKey env ce k r w = (Inr x, w')" "config_Filename env (path r) = Inr fn"
    "files w (path_Clean fn) = Some (File d n)" "decode_map ce d = Inr m"
  shows "getRemotePinningServices env ce services r w = (services_of services m, w)"
proof -
  have op: "\<not> closed r" and rd: "ReadConfigFile env (decode_map ce) fn w = (Inr m, w)"
    using assms by (auto simp: GetConfigKey_def ReadConfigFile_Inr split: if_splits)
  have "GetConfigKey env ce RemoteServicesPath r w = (MapGetKV m RemoteServicesPath, w)"
    using op rd assms(2) by (simp add: GetConfigKey_def io_bind_def io_lift_def)
  then have get: "getConfig env ce RemoteServicesPath r w =
      (case MapGetKV m RemoteServicesPath of
         Inl e \<Rightarrow> (Inl (Errorf (''failed to get config value: '' @ error_msg e)), w)
       | Inr y \<Rightarrow> (Inr \<lparr>cf_Key = RemoteServicesPath, cf_Value = y\<rparr>, w))"
    by (auto simp: getConfig_def io_wrap_def io_bind_def io_return_def split: sum.split)
  show ?thesis
    unfolding getRemotePinningServices_def io_bind_def io_try_def get
    by (auto simp: services_of_def io_return_def io_lift_def split: sum.split json.split)
qed

text \<open>C30. Replacing the configuration cannot change its secrets: it succeeds only with a new file that has no
  private key and in which every remote pinning service is one of the old ones, with no key and with no
  endpoint or the old one; then the configuration has the private key of the old file and the same remote
  pinning services with the same endpoints and keys, and the file holds that private key unless it is empty.
  Of encoding/json it is used that a map with the old private key has it still after encoding and decoding,
  that encoding a configuration writes its private key unless that is empty (the field is \<^verbatim>\<open>omitempty\<close>), and
  that decoding an object gives each service once.\<close>

theorem replaceConfig_keeps_secrets:
  assumes run: "replaceConfig env ce services file r w = (Inr (), r', w')"
    and fn: "config_Filename env (path r) = Inr fn"
    and cfg: "files w (path_Clean fn) = Some (File d n)" "decode_map ce d = Inr m"
    and json: "\<And>m1. MapGetKV m1 PrivKeySelector = MapGetKV m PrivKeySelector \<Longrightarrow>
      \<exists>m2. decode_map ce (encode_map ce m1) = Inr m2 \<and> MapGetKV m2 PrivKeySelector = MapGetKV m PrivKeySelector"
    and struct: "\<And>c m'. ToMap ce c = Inr m' \<Longrightarrow> Identity_PrivKey c \<noteq> [] \<Longrightarrow>
      MapGetKV m' PrivKeySelector = Inr (JStr (Identity_PrivKey c))"
    and once: "\<And>t c. decode_config ce t = Inr c \<Longrightarrow> distinct (map fst (RemoteServices c))"
      "\<And>v s. services v = Inr s \<Longrightarrow> distinct (map fst s)"
  shows "\<exists>newCfg olds. decode_config ce file = Inr newCfg \<and> Identity_PrivKey newCfg = []
    \<and> services_of services m = Inr olds
    \<and> (\<forall>k s. map_of (RemoteServices newCfg) k = Some s \<longrightarrow>
        (\<exists>old. map_of olds k = Some old \<and> api_Key s = [] \<and> (api_Endpoint s = [] \<or> api_Endpoint s = api_Endpoint old)))
    \<and> MapGetKV m PrivKeySelector = Inr (JStr (Identity_PrivKey (conf r')))
    \<and> (\<forall>k. map_option api_of (map_of (RemoteServices (conf r')) k) = map_option api_of (map_of olds k))
    \<and> (Identity_PrivKey (conf r') = [] \<or> holds_key ce fn (JStr (Identity_PrivKey (conf r'))) (files w'))"
proof -
  obtain newCfg where new: "decode_config ce file = Inr newCfg" "Identity_PrivKey newCfg = []"
    using run by (auto simp: replaceConfig_def split: sum.splits if_splits)
  obtain k v where k: "getConfig env ce PrivKeySelector r w = (k, v)" by fastforce
  obtain f where f: "k = Inr f" using run new k by (cases k) (auto simp: replaceConfig_def)
  obtain x where x: "GetConfigKey env ce PrivKeySelector r w = (Inr x, v)" "cf_Value f = x"
    using k f by (auto simp: getConfig_def)
  have v: "v = w" and pk: "MapGetKV m PrivKeySelector = Inr x" using GetConfigKey_Inr [OF x(1) fn cfg] by auto
  obtain pkstr where str: "x = JStr pkstr" using run new k f x(2) by (cases x) (auto simp: replaceConfig_def)
  obtain olds v1 newServices where st: "getRemotePinningServices env ce services r w = (Inr olds, v1)"
    "length (RemoteServices newCfg) = length olds" "reapply_services olds (RemoteServices newCfg) = Inr newServices"
    "SetConfig env ce (newCfg\<lparr>Identity_PrivKey := pkstr, RemoteServices := newServices\<rparr>) r v1 = (Inr (), r', w')"
    using run new k f x(2) str v by (auto simp: replaceConfig_def split: if_splits)
  define c where "c = newCfg\<lparr>Identity_PrivKey := pkstr, RemoteServices := newServices\<rparr>"
  have olds: "services_of services m = Inr olds \<and> v1 = w"
    using st(1) getRemotePinningServices_eq [OF x(1) fn cfg] by simp
  have "distinct (map fst olds)"
    using olds once(2) by (auto simp: services_of_def split: sum.splits json.splits)
  note same = same_services [OF st(3) this once(1) [OF new(1)] st(2)]
  obtain mc m3 where m3: "ToMap ce c = Inr m3" "WriteConfigFile env fn (encode_map ce (overlay m3 mc)) w = (Inr (), w')"
    and r': "r' = r\<lparr>conf := c\<rparr>"
    using st(4) olds fn by (auto simp: SetConfig_def setConfigUnsynced_def ReadConfigFile_Inr c_def)
  have old: "holds_key ce fn (JStr pkstr) (files w)" using cfg pk str by (auto simp: holds_key_def)
  have "holds_key ce fn (JStr pkstr) (files w')" if "pkstr \<noteq> []"
  proof (rule holds_key_write [OF old m3(2)])
    have "MapGetKV (overlay m3 mc) PrivKeySelector = Inr (JStr pkstr)"
      using MapGetKV_overlay struct [OF m3(1)] that by (simp add: c_def)
    then show "\<exists>c'. decode_map ce (encode_map ce (overlay m3 mc)) = Inr c' \<and> MapGetKV c' PrivKeySelector = Inr (JStr pkstr)"
      using json [of "overlay m3 mc"] pk str by simp
  qed
  then have "Identity_PrivKey (conf r') = [] \<or> holds_key ce fn (JStr (Identity_PrivKey (conf r'))) (files w')"
    using r' by (auto simp: c_def)
  then show ?thesis
    using new pk str olds same r' by (intro exI [of _ newCfg] exI [of _ olds]) (simp add: c_def)
qed


text \<open>Applying a profile prints the old configuration with its private key scrubbed, but with the keys of the
  remote pinning services: whatever is outside the private key is in the output.\<close>

lemma configProfileApply_shows_service_keys:
  assumes run: "configProfileApply_Run env ce de reg Profiles root name dryRun w = (Inr (old, new), w')"
    and svc: "\<And>c m. ToMap ce c = Inr m \<Longrightarrow> MapGetKV m (''Pinning.RemoteServices.'' @ s @ ''.API.Key'') = Inr x"
  shows "MapGetKV old (''Pinning.RemoteServices.'' @ s @ ''.API.Key'') = Inr x"
proof -
  define ps where "ps = split_on (CHR ''.'') (''Pinning.RemoteServices.'' @ s @ ''.API.Key'')"
  have "\<not> EqualFold ''Pinning'' ''Identity''" "''Identity'' \<noteq> ''*''" by code_simp+
  then have apart: "\<not> glob_loop ps PrivKeyParts" by (simp add: ps_def PrivKeyParts_def split: list.splits)
  obtain c where "scrubPrivKey ce c = Inr old"
    using run by (cases "Profiles name") (auto simp: configProfileApply_Run_def)
  then obtain m where m: "ToMap ce c = Inr m" "scrubMapInternal m PrivKeyParts False = Inr old"
    by (auto simp: scrubPrivKey_def scrubValue_def)
  obtain j where j: "scrub PrivKeyParts (JObj m) = Some j" "get_parts [] j ps = Inr x"
    using get_parts_scrub [of ps PrivKeyParts "JObj m" "[]" x] apart svc [OF m(1)] by (auto simp: MapGetKV_def ps_def)
  then have "j = JObj old" using m(2) by (auto simp: PrivKeyParts_def scrubMapInternal_def scrubEither_eq)
  then show ?thesis using j(2) by (simp add: MapGetKV_def ps_def)
qed

section \<open>Examples\<close>

definition sample_services :: jmap where
  "sample_services = [(''Pinning'', JObj [(''RemoteServices'', JObj [(''a'',
     JObj [(''API'', JObj [(''Endpoint'', JStr ''https''), (''Key'', JStr ''s'')])])])])]"

definition sample_full :: jmap where
  "sample_full = sample_services @ sample_identity ''CAAS''"

definition sample_secret :: world where
  "sample_secret = sample_disk\<lparr>files := (files sample_disk)(''/repo/config'' \<mapsto> File (ser (JObj sample_full)) 384)\<rparr>"

lemma sample_codec_json: "decode_map sample_codec (encode_map sample_codec c) = Inr c"
  using deser_ser [of "JObj c" _ "[]"] by (simp add: sample_codec_def sample_decode_def)

lemma sample_secret_file:
  "files sample_secret ''/repo/config'' = Some (File (ser (JObj sample_full)) 384)"
  "decode_map sample_codec (ser (JObj sample_full)) = Inr sample_full"
  using sample_codec_json [of sample_full] by (simp_all add: sample_secret_def sample_codec_def)

lemma sample_secret_plain:
  "abs_dir ''/repo''" "secrets_plain PrivKeyParts (JObj sample_full)" "secrets_plain PinningConcealSelector (JObj sample_full)"
  by code_simp+

theorem config_get_public_witness:
  "\<exists>f w'. ConfigCmd_Run sample_os sample_codec sample_ds sample_reg (\<lambda>_. Inr JNull) ''/repo'' False False
      ''Identity.PeerID'' None sample_secret = (Inr f, w')
    \<and> MapGetKV (public_map sample_full) ''Identity.PeerID'' = Inr (cf_Value f)
    \<and> MapGetKV (public_map sample_full) ''Identity.PrivKey'' = Inr JNull"
proof -
  define X where "X = ConfigCmd_Run sample_os sample_codec sample_ds sample_reg (\<lambda>_. Inr JNull) ''/repo'' False False
      ''Identity.PeerID'' None sample_secret"
  have "case fst X of Inl _ \<Rightarrow> False | Inr _ \<Rightarrow> True" unfolding X_def by code_simp
  then obtain f w' where f: "X = (Inr f, w')" by (cases X) (auto split: sum.splits)
  have pub: "MapGetKV (public_map sample_full) ''Identity.PrivKey'' = Inr JNull" by code_simp
  show ?thesis
    using config_get_public [OF sample_secret_plain(1) _ sample_secret_file(2) sample_secret_plain(2) f [unfolded X_def]]
      sample_secret_file(1) f pub unfolding X_def by auto
qed

lemma config_show_public_witness:
  "\<exists>out w'. configShow_Run sample_os sample_codec ''/repo'' sample_secret = (Inr out, w')
    \<and> shown (public_map sample_full) = Inr out \<and> MapGetKV out ''Identity.PeerID'' = Inr (JStr ''Qm'')"
proof -
  define X where "X = configShow_Run sample_os sample_codec ''/repo'' sample_secret"
  have "case fst X of Inl _ \<Rightarrow> False | Inr _ \<Rightarrow> True" unfolding X_def by code_simp
  then obtain out w' where f: "X = (Inr out, w')" by (cases X) (auto split: sum.splits)
  have ex: "config_refused ''Identity.PeerID'' = None" "MapGetKV sample_full ''Identity.PeerID'' = Inr (JStr ''Qm'')"
    by code_simp+
  show ?thesis
    using config_show_public [OF sample_secret_plain(1) _ sample_secret_file(2) sample_secret_plain(2,3) f [unfolded X_def]]
      sample_secret_file(1) f ex unfolding X_def by auto
qed

definition sample_service :: "string \<Rightarrow> string \<Rightarrow> remote_service" where
  "sample_service e k = \<lparr>api_Endpoint = e, api_Key = k, svc_Policies = JNull\<rparr>"

definition sample_decode_services :: "jmap \<Rightarrow> error + (string \<times> remote_service) list" where
  "sample_decode_services v =
     (if distinct (map fst v) then Inr (map (\<lambda>(n, j). (n, case get_parts [] j [''API'', ''Key''] of
        Inr (JStr k) \<Rightarrow> sample_service ''https'' k | _ \<Rightarrow> sample_service [] [])) v)
      else Inl (Errorf ''duplicate''))"

definition sample_replace :: cfg_env where
  "sample_replace = sample_codec\<lparr>decode_config := (\<lambda>_. Inr (sample_conf\<lparr>RemoteServices := [(''a'', sample_service [] [])]\<rparr>)),
     ToMap := (\<lambda>c. Inr [(''Identity'', JObj (if Identity_PrivKey c = [] then [] else [(''PrivKey'', JStr (Identity_PrivKey c))]))])\<rparr>"

theorem replaceConfig_keeps_secrets_witness:
  "\<exists>r' w'. replaceConfig sample_os sample_replace sample_decode_services ''new'' sample_open sample_secret = (Inr (), r', w')
    \<and> Identity_PrivKey (conf r') = ''CAAS''
    \<and> map_option api_of (map_of (RemoteServices (conf r')) ''a'') = Some (''https'', ''s'')
    \<and> holds_key sample_replace ''/repo/config'' (JStr ''CAAS'') (files w')"
proof -
  define X where "X = replaceConfig sample_os sample_replace sample_decode_services ''new'' sample_open sample_secret"
  have "fst X = Inr ()" unfolding X_def by code_simp
  then obtain r' w' where run: "X = (Inr (), r', w')" by (metis prod.collapse)
  have fn: "config_Filename sample_os (path sample_open) = Inr ''/repo/config''" by code_simp
  have cl: "path_Clean ''/repo/config'' = ''/repo/config''" by code_simp
  have file1: "files sample_secret (path_Clean ''/repo/config'') = Some (File (ser (JObj sample_full)) 384)"
    using sample_secret_file(1) cl by simp
  have file2: "decode_map sample_replace (ser (JObj sample_full)) = Inr sample_full"
    using sample_secret_file(2) by (simp add: sample_replace_def)
  have json: "\<exists>m2. decode_map sample_replace (encode_map sample_replace m1) = Inr m2
      \<and> MapGetKV m2 PrivKeySelector = MapGetKV sample_full PrivKeySelector"
    if "MapGetKV m1 PrivKeySelector = MapGetKV sample_full PrivKeySelector" for m1
    using sample_codec_json [of m1] that by (simp add: sample_replace_def)
  have struct: "MapGetKV m' PrivKeySelector = Inr (JStr (Identity_PrivKey c))"
    if "ToMap sample_replace c = Inr m'" "Identity_PrivKey c \<noteq> []" for c m'
    using that by (auto simp: sample_replace_def MapGetKV_def PrivKeySelector_def)
  have once: "distinct (map fst (RemoteServices c))" if "decode_config sample_replace t = Inr c" for t c
    using that by (auto simp: sample_replace_def)
  have once2: "distinct (map fst s)" if "sample_decode_services v = Inr s" for v s
    using that by (auto simp: sample_decode_services_def comp_def case_prod_unfold split: if_splits)
  have pk: "MapGetKV sample_full PrivKeySelector = Inr (JStr ''CAAS'')" by code_simp
  have svc: "services_of sample_decode_services sample_full = Inr [(''a'', sample_service ''https'' ''s'')]" by code_simp
  have "\<exists>newCfg olds. decode_config sample_replace ''new'' = Inr newCfg \<and> Identity_PrivKey newCfg = []
    \<and> services_of sample_decode_services sample_full = Inr olds
    \<and> (\<forall>k s. map_of (RemoteServices newCfg) k = Some s \<longrightarrow>
        (\<exists>old. map_of olds k = Some old \<and> api_Key s = [] \<and> (api_Endpoint s = [] \<or> api_Endpoint s = api_Endpoint old)))
    \<and> MapGetKV sample_full PrivKeySelector = Inr (JStr (Identity_PrivKey (conf r')))
    \<and> (\<forall>k. map_option api_of (map_of (RemoteServices (conf r')) k) = map_option api_of (map_of olds k))
    \<and> (Identity_PrivKey (conf r') = [] \<or> holds_key sample_replace ''/repo/config'' (JStr (Identity_PrivKey (conf r'))) (files w'))"
    by (rule replaceConfig_keeps_secrets [OF run [unfolded X_def] fn file1 file2]) (rule json struct once once2, assumption+)+
  then obtain olds where olds: "services_of sample_decode_services sample_full = Inr olds"
    "MapGetKV sample_full PrivKeySelector = Inr (JStr (Identity_PrivKey (conf r')))"
    "\<forall>k. map_option api_of (map_of (RemoteServices (conf r')) k) = map_option api_of (map_of olds k)"
    "Identity_PrivKey (conf r') = [] \<or> holds_key sample_replace ''/repo/config'' (JStr (Identity_PrivKey (conf r'))) (files w')"
    by blast
  then have "Identity_PrivKey (conf r') = ''CAAS''"
    "map_option api_of (map_of (RemoteServices (conf r')) ''a'') = Some (api_of (sample_service ''https'' ''s''))"
    "holds_key sample_replace ''/repo/config'' (JStr (Identity_PrivKey (conf r'))) (files w')"
    using pk svc by auto
  moreover have "api_of (sample_service ''https'' ''s'') = (''https'', ''s'')" by code_simp
  ultimately show ?thesis using run [unfolded X_def] by metis
qed

end
