(* ===== verification/Only_One.thy ===== *)
theory Only_One
  imports Prelude "HOL-Library.Word"
begin

text \<open>
  Sharing an open repository, from \<^verbatim>\<open>repo/onlyone.go\<close>: \<open>OnlyOne\<close> opens a repository once per key and
  counts its users in a \<^verbatim>\<open>uint32\<close>; the last \<open>Close\<close> closes the repository.

  The references live in a heap, since every user of a key holds the same \<^verbatim>\<open>*ref\<close>. The calls that reach
  the repository are recorded: which references were opened and which were closed. The
  specification is a counter per key (\<open>counts\<close>); \<open>abs_counts\<close> relates the two, and the refinement
  property says that opening and closing do on the counters what they should, as long as a counter
  does not pass its 32 bits.
\<close>

section \<open>The code\<close>

record 'k ref =
  key :: 'k
  refs :: "32 word"

datatype call = Opened nat | Closed nat

record 'k onlyone =
  active :: "'k \<rightharpoonup> nat"
  heap :: "nat \<Rightarrow> 'k ref"
  next_ref :: nat
  calls :: "call list"

definition new_onlyone :: "'k ref \<Rightarrow> 'k onlyone" where
  "new_onlyone junk = \<lparr>active = Map.empty, heap = (\<lambda>_. junk), next_ref = 0, calls = []\<rparr>"

text \<open>\<open>open_err\<close> is the error of the function that opens the repository, if it is called.\<close>

definition OnlyOne_Open :: "'k \<Rightarrow> string option \<Rightarrow> 'k onlyone \<Rightarrow> (string + nat) \<times> 'k onlyone" where
  "OnlyOne_Open k open_err s =
     (case active s k of
        Some i \<Rightarrow>
          (Inr i, s\<lparr>heap := (heap s)(i := (heap s i)\<lparr>refs := refs (heap s i) + 1\<rparr>)\<rparr>)
      | None \<Rightarrow>
          (case open_err of
             Some e \<Rightarrow> (Inl e, s)
           | None \<Rightarrow>
               (let i = next_ref s in
                (Inr i, s\<lparr>active := (active s)(k \<mapsto> i), next_ref := i + 1, calls := calls s @ [Opened i],
                          heap := (heap s)(i := \<lparr>key = k, refs = 0 + 1\<rparr>)\<rparr>))))"

definition ref_Close :: "nat \<Rightarrow> 'k onlyone \<Rightarrow> 'k onlyone" where
  "ref_Close i s =
     (let r = (heap s i)\<lparr>refs := refs (heap s i) - 1\<rparr>; s = s\<lparr>heap := (heap s)(i := r)\<rparr> in
      if refs r > 0 then s
      else s\<lparr>active := (active s)(key r := None), calls := calls s @ [Closed i]\<rparr>)"

section \<open>The invariant\<close>

text \<open>Active references are known, belong to their key and are in use; and the repositories that are
  open are those of the active references, each opened once and not yet closed.\<close>

definition open_now :: "call list \<Rightarrow> nat set" where
  "open_now cs = {i. Opened i \<in> set cs \<and> Closed i \<notin> set cs}"

definition oo_inv :: "'k onlyone \<Rightarrow> bool" where
  "oo_inv s =
     ((\<forall>k i. active s k = Some i \<longrightarrow> i < next_ref s \<and> key (heap s i) = k \<and> refs (heap s i) > 0)
      \<and> (\<forall>i. Opened i \<in> set (calls s) \<longrightarrow> i < next_ref s)
      \<and> (\<forall>i. Closed i \<in> set (calls s) \<longrightarrow> i < next_ref s)
      \<and> distinct (calls s)
      \<and> open_now (calls s) = ran (active s))"

text \<open>Users that behave: a reference is closed only while it is in use, and fewer than \<open>2 ^ 32\<close> users
  share a repository.\<close>

inductive oo_step :: "'k onlyone \<Rightarrow> 'k onlyone \<Rightarrow> bool" where
  oo_open: "(\<And>i. active s k = Some i \<Longrightarrow> refs (heap s i) < - 1) \<Longrightarrow> oo_step s (snd (OnlyOne_Open k e s))"
| oo_close: "active s (key (heap s i)) = Some i \<Longrightarrow> oo_step s (ref_Close i s)"

lemma word_suc_pos: "(x :: 32 word) < - 1 \<Longrightarrow> x + 1 > 0"
proof -
  assume "x < - 1"
  then have "x + 1 \<noteq> 0" by (metis eq_neg_iff_add_eq_0 less_irrefl)
  then show ?thesis by (simp add: word_gt_0)
qed

lemma oo_invD:
  assumes "oo_inv s"
  shows "active s k = Some i \<Longrightarrow> i < next_ref s" "active s k = Some i \<Longrightarrow> key (heap s i) = k"
    "active s k = Some i \<Longrightarrow> refs (heap s i) > 0" "Opened i \<in> set (calls s) \<Longrightarrow> i < next_ref s"
    "Closed i \<in> set (calls s) \<Longrightarrow> i < next_ref s" "distinct (calls s)" "open_now (calls s) = ran (active s)"
  using assms by (auto simp: oo_inv_def)

lemma oo_inv_new [step_inv]: "oo_inv (new_onlyone junk)"
  by (simp add: oo_inv_def new_onlyone_def open_now_def)

lemma oo_inv_open [step_inv]:
  assumes inv: "oo_inv s" and room: "\<And>i. active s k = Some i \<Longrightarrow> refs (heap s i) < - 1"
  shows "oo_inv (snd (OnlyOne_Open k e s))"
proof (cases "active s k")
  case (Some i)
  then show ?thesis
    using inv word_suc_pos [OF room [OF Some]] by (auto simp: OnlyOne_Open_def oo_inv_def)
next
  case None
  show ?thesis
  proof (cases e)
    case None2: None
    define i where "i = next_ref s"
    have fresh: "Opened i \<notin> set (calls s)" "Closed i \<notin> set (calls s)" "\<And>k. active s k \<noteq> Some i"
      using oo_invD(1, 4, 5) [OF inv] by (auto simp: i_def)
    have "open_now (calls s @ [Opened i]) = insert i (ran (active s))"
      using fresh oo_invD(7) [OF inv] by (auto simp: open_now_def)
    moreover have "ran ((active s)(k \<mapsto> i)) = insert i (ran (active s))" using None by simp
    ultimately show ?thesis
      using None None2 inv fresh oo_invD [OF inv]
      by (auto simp: OnlyOne_Open_def oo_inv_def Let_def i_def less_SucI)
  qed (use None inv in \<open>simp add: OnlyOne_Open_def\<close>)
qed

lemma oo_inv_close [step_inv]:
  assumes inv: "oo_inv s" and act: "active s (key (heap s i)) = Some i"
  shows "oo_inv (ref_Close i s)"
proof (cases "refs (heap s i) - 1 > 0")
  case True
  then show ?thesis using inv by (auto simp: ref_Close_def oo_inv_def Let_def)
next
  case False
  have other: "active s k \<noteq> Some i" if "k \<noteq> key (heap s i)" for k using oo_invD(2) [OF inv] that by blast
  have opened: "i \<in> open_now (calls s)" using oo_invD(7) [OF inv] act by (auto simp: ran_def)
  have "open_now (calls s @ [Closed i]) = open_now (calls s) - {i}" by (auto simp: open_now_def)
  moreover have "ran ((active s)(key (heap s i) := None)) = ran (active s) - {i}"
    unfolding ran_def using act other by (auto split: if_splits) (metis option.inject)
  moreover have "Closed i \<notin> set (calls s)" "i < next_ref s"
    using opened oo_invD(1) [OF inv act] by (auto simp: open_now_def)
  moreover have "j < next_ref s \<and> key (heap s j) = k \<and> refs (heap s j) > 0 \<and> j \<noteq> i"
    if "active s k = Some j" "k \<noteq> key (heap s i)" for k j
    using oo_invD(1-3) [OF inv that(1)] that(2) by auto
  moreover define t where "t = ref_Close i s"
  moreover have "active t = (active s)(key (heap s i) := None)" "next_ref t = next_ref s"
    "calls t = calls s @ [Closed i]" "j \<noteq> i \<Longrightarrow> heap t j = heap s j" for j
    using False by (auto simp: t_def ref_Close_def Let_def)
  ultimately have "oo_inv t"
    unfolding oo_inv_def using oo_invD(4-7) [OF inv] by (intro conjI allI impI) (auto split: if_splits)
  then show ?thesis by (simp add: t_def)
qed

interpretation onlyone: invariant_system "\<lambda>s. \<exists>junk. s = new_onlyone junk" oo_step oo_inv
proof
  show "\<exists>junk. s = new_onlyone junk \<Longrightarrow> oo_inv s" for s :: "'a onlyone" using oo_inv_new by blast
  show "oo_step s t \<Longrightarrow> oo_inv s \<Longrightarrow> oo_inv t" for s t :: "'a onlyone"
    by (induction rule: oo_step.induct) (auto intro: step_inv)
qed

section \<open>Refinement of a counter per key\<close>

type_synonym 'k counts = "'k \<Rightarrow> nat"

definition abs_counts :: "'k onlyone \<Rightarrow> 'k counts" where
  "abs_counts s k = (case active s k of None \<Rightarrow> 0 | Some i \<Rightarrow> unat (refs (heap s i)))"

text \<open>What the specification allows: a user more, and the repository is opened for the first; a user
  less, and the repository is closed with the last.\<close>

definition spec_open :: "'k \<Rightarrow> 'k counts \<Rightarrow> 'k counts" where
  "spec_open k c = c(k := c k + 1)"

definition spec_close :: "'k \<Rightarrow> 'k counts \<Rightarrow> 'k counts" where
  "spec_close k c = c(k := c k - 1)"

lemma unat_suc: "(x :: 32 word) < - 1 \<Longrightarrow> unat (x + 1) = unat x + 1"
proof -
  assume "x < - 1"
  then have "1 + x \<noteq> 0" using word_suc_pos [of x] by (auto simp: add.commute)
  then show ?thesis by (simp add: unatSuc add.commute)
qed

lemma unat_pred: "(x :: 32 word) > 0 \<Longrightarrow> unat (x - 1) = unat x - 1"
  by (simp add: unat_minus_one word_gt_0)

lemma abs_counts_pos: "oo_inv s \<Longrightarrow> abs_counts s k > 0 \<longleftrightarrow> (\<exists>i. active s k = Some i)"
  using oo_invD(3) by (fastforce simp: abs_counts_def word_gt_0 unat_gt_0 split: option.splits)

lemma active_other: "oo_inv s \<Longrightarrow> active s k = Some i \<Longrightarrow> k' \<noteq> k \<Longrightarrow> active s k' \<noteq> Some i"
  using oo_invD(2) [of s k i] oo_invD(2) [of s k' i] by auto

lemma abs_counts_other:
  "oo_inv s \<Longrightarrow> active s k = Some i \<Longrightarrow> k' \<noteq> k \<Longrightarrow>
     abs_counts (s\<lparr>heap := (heap s)(i := r)\<rparr>) k' = abs_counts s k'"
proof -
  assume "oo_inv s" "active s k = Some i" "k' \<noteq> k"
  then have "active s k' \<noteq> Some i" by (rule active_other)
  then show ?thesis by (auto simp: abs_counts_def split: option.splits)
qed

text \<open>C16. \<open>OnlyOne\<close> refines a counter per key, in every state that behaving users can reach: a successful
  \<open>Open\<close> adds one user and returns the reference that all users of the key share, opening the
  repository exactly if there was no user; a \<open>Close\<close> removes one, closing the repository exactly
  with the last user; and at any time the repositories that are open are those of the keys with
  users, one for each.\<close>

theorem OnlyOne_refines_counters:
  assumes reach: "reach (\<lambda>s. \<exists>junk. s = new_onlyone junk) oo_step s"
  shows "(abs_counts s k < 2 ^ 32 - 1 \<and> (abs_counts s k = 0 \<longrightarrow> e = None) \<longrightarrow>
      (\<exists>i. fst (OnlyOne_Open k e s) = Inr i \<and> active (snd (OnlyOne_Open k e s)) k = Some i
        \<and> abs_counts (snd (OnlyOne_Open k e s)) = spec_open k (abs_counts s)
        \<and> calls (snd (OnlyOne_Open k e s)) = calls s @ (if abs_counts s k = 0 then [Opened i] else [])))
    \<and> (active s k = Some i \<longrightarrow>
        abs_counts (ref_Close i s) = spec_close k (abs_counts s)
        \<and> calls (ref_Close i s) = calls s @ (if abs_counts s k = 1 then [Closed i] else []))
    \<and> open_now (calls s) = ran (active s) \<and> inj_on (active s) (dom (active s))
    \<and> dom (active s) = {k. abs_counts s k > 0}"
proof -
  have inv: "oo_inv s" using onlyone.reach_inv reach by blast
  note pos = abs_counts_pos [OF inv]
  have "\<exists>i. fst (OnlyOne_Open k e s) = Inr i \<and> active (snd (OnlyOne_Open k e s)) k = Some i
        \<and> abs_counts (snd (OnlyOne_Open k e s)) = spec_open k (abs_counts s)
        \<and> calls (snd (OnlyOne_Open k e s)) = calls s @ (if abs_counts s k = 0 then [Opened i] else [])"
    if c: "abs_counts s k < 2 ^ 32 - 1" "abs_counts s k = 0 \<longrightarrow> e = None"
  proof (cases "active s k")
    case (Some i)
    have room: "refs (heap s i) < - 1"
      using c(1) Some
      by (simp add: abs_counts_def word_less_nat_alt unsigned_minus_1_eq_mask mask_eq_exp_minus_1)
    have "abs_counts (snd (OnlyOne_Open k e s)) = spec_open k (abs_counts s)"
      using Some abs_counts_other [OF inv Some] unat_suc [OF room]
      by (auto simp: OnlyOne_Open_def spec_open_def fun_eq_iff) (simp add: abs_counts_def)
    then show ?thesis using Some pos [of k] by (simp add: OnlyOne_Open_def)
  next
    case None
    then have z: "abs_counts s k = 0" "e = None" using c(2) by (auto simp: abs_counts_def)
    have "active s k' \<noteq> Some (next_ref s)" for k' using oo_invD(1) [OF inv] by blast
    then have "abs_counts (snd (OnlyOne_Open k e s)) = spec_open k (abs_counts s)"
      using None z by (auto simp: OnlyOne_Open_def spec_open_def fun_eq_iff abs_counts_def Let_def split: option.splits)
    then show ?thesis using None z by (simp add: OnlyOne_Open_def Let_def)
  qed
  moreover have "abs_counts (ref_Close i s) = spec_close k (abs_counts s)
        \<and> calls (ref_Close i s) = calls s @ (if abs_counts s k = 1 then [Closed i] else [])"
    if act: "active s k = Some i"
  proof -
    have key: "key (heap s i) = k" and up: "refs (heap s i) > 0" using oo_invD(2, 3) [OF inv act] by auto
    have cnt: "abs_counts s k = unat (refs (heap s i))" using act by (simp add: abs_counts_def)
    have last: "refs (heap s i) - 1 > 0 \<longleftrightarrow> abs_counts s k \<noteq> 1"
      using unat_pred [OF up] up unfolding cnt by (simp add: word_less_nat_alt) arith
    have "abs_counts (ref_Close i s) k' = spec_close k (abs_counts s) k'" for k'
    proof (cases "k' = k")
      case True
      then show ?thesis
        using last unat_pred [OF up] act key cnt
        by (auto simp: ref_Close_def Let_def spec_close_def abs_counts_def)
    next
      case False
      then show ?thesis
        using active_other [OF inv act False] key
        by (auto simp: ref_Close_def Let_def spec_close_def abs_counts_def split: option.splits)
    qed
    then show ?thesis using last key by (auto simp: ref_Close_def Let_def)
  qed
  moreover have "inj_on (active s) (dom (active s))"
    unfolding inj_on_def using active_other [OF inv] by (metis domD)
  ultimately show ?thesis using oo_invD(7) [OF inv] pos by auto
qed

text \<open>Two users of one repository: it is opened once and stays open when the first of them leaves.\<close>

definition ex_shared :: "string onlyone" where
  "ex_shared = snd (OnlyOne_Open ''r'' None (snd (OnlyOne_Open ''r'' None
     (new_onlyone \<lparr>key = [], refs = 0\<rparr>))))"

lemma ex_shared_reach: "reach (\<lambda>s. \<exists>junk. s = new_onlyone junk) oo_step ex_shared"
proof -
  define s0 :: "string onlyone" where "s0 = new_onlyone \<lparr>key = [], refs = 0\<rparr>"
  have "reach (\<lambda>s. \<exists>junk. s = new_onlyone junk) oo_step s0" by (rule reach_init) (auto simp: s0_def)
  moreover have "oo_step s0 (snd (OnlyOne_Open ''r'' None s0))"
    by (rule oo_open) (simp add: s0_def new_onlyone_def)
  ultimately have "reach (\<lambda>s. \<exists>junk. s = new_onlyone junk) oo_step (snd (OnlyOne_Open ''r'' None s0))"
    by (rule reach_step)
  moreover have "oo_step (snd (OnlyOne_Open ''r'' None s0)) ex_shared"
    unfolding ex_shared_def s0_def [symmetric]
    by (rule oo_open) (auto simp: s0_def new_onlyone_def OnlyOne_Open_def Let_def word_less_nat_alt
        unsigned_minus_1_eq_mask mask_eq_exp_minus_1)
  ultimately show ?thesis by (rule reach_step)
qed

theorem OnlyOne_refines_counters_witness:
  "calls ex_shared = [Opened 0] \<and> abs_counts (ref_Close 0 ex_shared) ''r'' = 1
   \<and> calls (ref_Close 0 ex_shared) = [Opened 0]"
proof -
  have c: "abs_counts ex_shared ''r'' = 2" "calls ex_shared = [Opened 0]" "active ex_shared ''r'' = Some 0"
    by code_simp+
  show ?thesis using OnlyOne_refines_counters [OF ex_shared_reach, of "''r''" None 0] c
    by (simp add: spec_close_def)
qed

text \<open>Closing once more than opening goes unnoticed: the counter wraps around.\<close>

lemma ref_Close_wraps:
  "refs (heap s i) = 0 \<Longrightarrow> calls (ref_Close i s) = calls s \<and> refs (heap (ref_Close i s) i) = - 1"
  by (simp add: ref_Close_def Let_def word_gt_0)

end
