(* ===== verification/Pin_Verify.thy ===== *)
theory Pin_Verify
  imports Cid
begin

text \<open>
  The verification of recursive pins, from \<^verbatim>\<open>core/commands/pin/pin.go\<close>: for each recursive pin the whole
  graph below it is checked on the local blocks, with a map of the nodes that have been checked already.

  The links of a node, the encoding of CIDs, the error texts and the recursive keys of the pinner are
  parameters. The recursion of \<open>checkPin\<close> goes along links; CIDs are hashes, so a graph has no cycle,
  which here is a height that decreases along links. The recursion takes fuel, \<open>None\<close> standing for a run that
  goes on, and more fuel than the height is always enough.
\<close>

section \<open>The check\<close>

record BadNode =
  bn_Cid :: string
  bn_Err :: string

record PinStatus =
  st_Ok :: bool
  BadNodes :: "BadNode list"

record PinVerifyRes =
  pvr_Cid :: string
  pvr_Status :: PinStatus

record pinVerifyOpts =
  explain :: bool
  includeOk :: bool

record pv_env =
  getLinks :: "cid \<Rightarrow> string + cid list"
  enc_cid :: "cid \<Rightarrow> string"
  verif_msg :: "verif_err \<Rightarrow> string"
  RecursiveKeys :: "string + cid list"

definition bad_status :: "pv_env \<Rightarrow> pinVerifyOpts \<Rightarrow> cid \<Rightarrow> string \<Rightarrow> PinStatus" where
  "bad_status env opts c e =
     \<lparr>st_Ok = False, BadNodes = (if explain opts then [\<lparr>bn_Cid = enc_cid env c, bn_Err = e\<rparr>] else [])\<rparr>"

definition add_status :: "PinStatus \<Rightarrow> PinStatus \<Rightarrow> PinStatus" where
  "add_status status res =
     (if \<not> st_Ok res then \<lparr>st_Ok = False, BadNodes = BadNodes status @ BadNodes res\<rparr> else status)"

fun checkPin :: "nat \<Rightarrow> pv_env \<Rightarrow> pinVerifyOpts \<Rightarrow> cid \<Rightarrow> (cid \<rightharpoonup> PinStatus) \<Rightarrow> (PinStatus \<times> (cid \<rightharpoonup> PinStatus)) option"
  and check_links ::
    "nat \<Rightarrow> pv_env \<Rightarrow> pinVerifyOpts \<Rightarrow> cid list \<Rightarrow> PinStatus \<Rightarrow> (cid \<rightharpoonup> PinStatus) \<Rightarrow> (PinStatus \<times> (cid \<rightharpoonup> PinStatus)) option"
  where
  "checkPin 0 env opts root vis = None"
| "checkPin (Suc n) env opts root vis =
     (case vis root of
        Some status \<Rightarrow> Some (status, vis)
      | None \<Rightarrow>
          (case ValidateCid root of
             Some e \<Rightarrow>
               (let status = bad_status env opts root (verif_msg env e) in Some (status, vis(root \<mapsto> status)))
           | None \<Rightarrow>
               (case getLinks env root of
                  Inl e \<Rightarrow> (let status = bad_status env opts root e in Some (status, vis(root \<mapsto> status)))
                | Inr links \<Rightarrow>
                    (case check_links n env opts links \<lparr>st_Ok = True, BadNodes = []\<rparr> vis of
                       None \<Rightarrow> None
                     | Some (status, vis') \<Rightarrow> Some (status, vis'(root \<mapsto> status))))))"
| "check_links n env opts [] status vis = Some (status, vis)"
| "check_links n env opts (lnk # links) status vis =
     (case checkPin n env opts lnk vis of
        None \<Rightarrow> None
      | Some (res, vis') \<Rightarrow> check_links n env opts links (add_status status res) vis')"

text \<open>The goroutine that sends the results; \<open>ctx i\<close> is whether the context is done at the send for the
  \<open>i\<close>-th pin.\<close>

fun verify_loop ::
  "nat \<Rightarrow> (nat \<Rightarrow> bool) \<Rightarrow> pv_env \<Rightarrow> pinVerifyOpts \<Rightarrow> nat \<Rightarrow> cid list \<Rightarrow> (cid \<rightharpoonup> PinStatus) \<Rightarrow> PinVerifyRes list option" where
  "verify_loop fuel ctx env opts i [] vis = Some []"
| "verify_loop fuel ctx env opts i (c # cs) vis =
     (case checkPin fuel env opts c vis of
        None \<Rightarrow> None
      | Some (status, vis') \<Rightarrow>
          if \<not> st_Ok status \<or> includeOk opts then
            (if ctx i then Some []
             else map_option (\<lambda>out. \<lparr>pvr_Cid = enc_cid env c, pvr_Status = status\<rparr> # out)
               (verify_loop fuel ctx env opts (Suc i) cs vis'))
          else verify_loop fuel ctx env opts (Suc i) cs vis')"

definition pinVerify ::
  "nat \<Rightarrow> (nat \<Rightarrow> bool) \<Rightarrow> pv_env \<Rightarrow> pinVerifyOpts \<Rightarrow> (string + PinVerifyRes list) option" where
  "pinVerify fuel ctx env opts =
     (case RecursiveKeys env of
        Inl e \<Rightarrow> Some (Inl e)
      | Inr recPins \<Rightarrow> map_option Inr (verify_loop fuel ctx env opts 0 recPins Map.empty))"

definition PinVerifyRes_Format :: "PinVerifyRes \<Rightarrow> string" where
  "PinVerifyRes_Format r =
     (if st_Ok (pvr_Status r) then pvr_Cid r @ '' ok'' @ [CHR 0x0A]
      else pvr_Cid r @ '' broken'' @ [CHR 0x0A]
        @ concat (map (\<lambda>e. ''  '' @ bn_Cid e @ '': '' @ bn_Err e @ [CHR 0x0A]) (BadNodes (pvr_Status r))))"

section \<open>What a status means\<close>

text \<open>A node is broken when its CID is not acceptable or its block cannot be read; below a broken node
  nothing is looked at.\<close>

definition broken :: "pv_env \<Rightarrow> cid \<Rightarrow> string option" where
  "broken env c =
     (case ValidateCid c of
        Some e \<Rightarrow> Some (verif_msg env e)
      | None \<Rightarrow> (case getLinks env c of Inl e \<Rightarrow> Some e | Inr links \<Rightarrow> None))"

definition good_links :: "pv_env \<Rightarrow> cid \<Rightarrow> cid list" where
  "good_links env c = (if broken env c = None then (case getLinks env c of Inr links \<Rightarrow> links | Inl _ \<Rightarrow> []) else [])"

inductive below :: "pv_env \<Rightarrow> cid \<Rightarrow> cid \<Rightarrow> bool" for env where
  below_refl: "below env c c"
| below_link: "d \<in> set (good_links env c) \<Longrightarrow> below env d b \<Longrightarrow> below env c b"

inductive_simps below_unfold: "below env c b"

definition bad_below :: "pv_env \<Rightarrow> cid \<Rightarrow> BadNode set" where
  "bad_below env c = {\<lparr>bn_Cid = enc_cid env b, bn_Err = e\<rparr> | b e. below env c b \<and> broken env b = Some e}"

definition status_right :: "pv_env \<Rightarrow> pinVerifyOpts \<Rightarrow> cid \<Rightarrow> PinStatus \<Rightarrow> bool" where
  "status_right env opts c status \<longleftrightarrow>
     (st_Ok status \<longleftrightarrow> (\<forall>b. below env c b \<longrightarrow> broken env b = None))
     \<and> set (BadNodes status) = (if explain opts then bad_below env c else {})"

definition vis_right :: "pv_env \<Rightarrow> pinVerifyOpts \<Rightarrow> (cid \<rightharpoonup> PinStatus) \<Rightarrow> bool" where
  "vis_right env opts vis = (\<forall>c status. vis c = Some status \<longrightarrow> status_right env opts c status)"

lemma below_broken: "broken env c = Some e \<Longrightarrow> below env c b \<longleftrightarrow> b = c"
  by (subst below_unfold) (auto simp: good_links_def)

lemma status_right_bad: "broken env c = Some e \<Longrightarrow> status_right env opts c (bad_status env opts c e)"
  by (auto simp: status_right_def bad_status_def bad_below_def below_broken)

text \<open>The status over some of the links of a node.\<close>

definition links_right :: "pv_env \<Rightarrow> pinVerifyOpts \<Rightarrow> cid set \<Rightarrow> PinStatus \<Rightarrow> bool" where
  "links_right env opts L status \<longleftrightarrow>
     (st_Ok status \<longleftrightarrow> (\<forall>l\<in>L. \<forall>b. below env l b \<longrightarrow> broken env b = None))
     \<and> set (BadNodes status) = (if explain opts then (\<Union>l\<in>L. bad_below env l) else {})"

lemma links_right_empty: "links_right env opts {} \<lparr>st_Ok = True, BadNodes = []\<rparr>"
  by (simp add: links_right_def)

lemma status_right_Ok_empty: "status_right env opts c res \<Longrightarrow> st_Ok res \<Longrightarrow> bad_below env c = {}"
  by (auto simp: status_right_def bad_below_def)

lemma links_right_add:
  assumes "links_right env opts L status" "status_right env opts c res"
  shows "links_right env opts (insert c L) (add_status status res)"
  using assms status_right_Ok_empty [OF assms(2)]
  by (auto simp: links_right_def status_right_def add_status_def)

lemma status_right_links:
  assumes "broken env c = None" "getLinks env c = Inr links" "links_right env opts (set links) status"
  shows "status_right env opts c status"
proof -
  have gl: "good_links env c = links" using assms(1,2) by (simp add: good_links_def)
  have below: "below env c b \<longleftrightarrow> b = c \<or> (\<exists>l\<in>set links. below env l b)" for b
    by (subst below_unfold) (auto simp: gl)
  then have "bad_below env c = (\<Union>l\<in>set links. bad_below env l)" using assms(1) by (auto simp: bad_below_def)
  then show ?thesis using assms(1,3) below by (auto simp: status_right_def links_right_def)
qed

lemma checkPin_right:
  "checkPin n env opts root vis = Some (status, vis') \<Longrightarrow> vis_right env opts vis
    \<Longrightarrow> status_right env opts root status \<and> vis_right env opts vis'"
  "check_links n env opts links status0 vis = Some (status, vis') \<Longrightarrow> vis_right env opts vis
    \<Longrightarrow> links_right env opts L status0 \<Longrightarrow> links_right env opts (L \<union> set links) status \<and> vis_right env opts vis'"
proof (induction n env opts root vis and n env opts links status0 vis arbitrary: status vis' and status vis' L
    rule: checkPin_check_links.induct)
  case (2 n env opts root vis)
  show ?case
  proof (cases "vis root")
    case (Some s)
    then show ?thesis using 2(2,3) by (auto simp: vis_right_def)
  next
    case None
    show ?thesis
    proof (cases "broken env root")
      case (Some e)
      then have "status = bad_status env opts root e" "vis' = vis(root \<mapsto> status)"
        using 2(2) None by (auto simp: broken_def Let_def split: option.splits sum.splits)
      then show ?thesis using status_right_bad [OF Some] 2(3) by (auto simp: vis_right_def)
    next
      case good: None
      then obtain links where v: "ValidateCid root = None" "getLinks env root = Inr links"
        by (auto simp: broken_def split: option.splits sum.splits)
      then obtain vis1 where c: "check_links n env opts links \<lparr>st_Ok = True, BadNodes = []\<rparr> vis = Some (status, vis1)"
        "vis' = vis1(root \<mapsto> status)"
        using 2(2) None by (auto split: option.splits)
      have "links_right env opts ({} \<union> set links) status \<and> vis_right env opts vis1"
        by (rule 2(1) [OF None v c(1) 2(3) links_right_empty])
      then show ?thesis using status_right_links [OF good v(2)] c(2) by (auto simp: vis_right_def)
    qed
  qed
next
  case (4 n env opts lnk links st vis)
  obtain res vis1 where c: "checkPin n env opts lnk vis = Some (res, vis1)"
    "check_links n env opts links (add_status st res) vis1 = Some (status, vis')"
    using 4(3) by (auto split: option.splits)
  have 1: "status_right env opts lnk res \<and> vis_right env opts vis1" using 4(1) [OF c(1) 4(4)] .
  then have "links_right env opts (insert lnk L \<union> set links) status \<and> vis_right env opts vis'"
    using 4(2) [OF c(1) refl c(2)] links_right_add [OF 4(5)] by blast
  then show ?case by simp
qed auto

section \<open>Termination and correctness\<close>

definition acyclic_by :: "pv_env \<Rightarrow> (cid \<Rightarrow> nat) \<Rightarrow> bool" where
  "acyclic_by env h = (\<forall>c d. d \<in> set (good_links env c) \<longrightarrow> h d < h c)"

lemma checkPin_returns:
  "acyclic_by env h \<Longrightarrow> h root < n \<Longrightarrow> checkPin n env opts root vis \<noteq> None"
  "acyclic_by env h \<Longrightarrow> (\<And>l. l \<in> set links \<Longrightarrow> h l < n) \<Longrightarrow> check_links n env opts links status0 vis \<noteq> None"
proof (induction n env opts root vis and n env opts links status0 vis rule: checkPin_check_links.induct)
  case (2 n env opts root vis)
  show ?case
  proof (cases "vis root = None \<and> broken env root = None")
    case True
    then obtain links where v: "ValidateCid root = None" "getLinks env root = Inr links" "good_links env root = links"
      by (auto simp: broken_def good_links_def split: option.splits sum.splits)
    have "h l < n" if "l \<in> set links" for l
      using 2(2,3) v(3) that unfolding acyclic_by_def by fastforce
    then have "check_links n env opts links \<lparr>st_Ok = True, BadNodes = []\<rparr> vis \<noteq> None"
      using 2(1) [OF _ v(1,2) 2(2)] True by simp
    then show ?thesis using True v by auto
  qed (auto simp: broken_def Let_def split: option.splits sum.splits)
next
  case (4 n env opts lnk links st vis)
  then show ?case by (auto split: option.splits)
qed auto

lemma verify_loop_right:
  assumes acyc: "acyclic_by env h"
  shows "vis_right env opts vis \<Longrightarrow> (\<And>p. p \<in> set pins \<Longrightarrow> h p < fuel) \<Longrightarrow>
    \<exists>sts. list_all2 (status_right env opts) pins sts
      \<and> verify_loop fuel (\<lambda>_. False) env opts i pins vis = Some (map (\<lambda>(c, st). \<lparr>pvr_Cid = enc_cid env c, pvr_Status = st\<rparr>)
          (filter (\<lambda>(c, st). \<not> st_Ok st \<or> includeOk opts) (zip pins sts)))"
proof (induction pins arbitrary: i vis)
  case (Cons p pins)
  obtain st vis' where c: "checkPin fuel env opts p vis = Some (st, vis')"
    using checkPin_returns(1) [OF acyc, of p fuel opts vis] Cons.prems(2) by auto
  note r = checkPin_right(1) [OF c Cons.prems(1)]
  obtain sts where "list_all2 (status_right env opts) pins sts"
    "verify_loop fuel (\<lambda>_. False) env opts (Suc i) pins vis' = Some (map (\<lambda>(c, st). \<lparr>pvr_Cid = enc_cid env c, pvr_Status = st\<rparr>)
          (filter (\<lambda>(c, st). \<not> st_Ok st \<or> includeOk opts) (zip pins sts)))"
    using Cons.IH [of vis' "Suc i"] r Cons.prems(2) by auto
  then show ?case using r c by (intro exI [of _ "st # sts"]) auto
qed simp

text \<open>C13. Pin verification is right. On any graph without cycles it returns, given more fuel than the height of
  the pins, and, if it is not cancelled, reports, in the order of the pins, a status for each recursive pin, or only for the
  broken ones if so asked. A pin is reported to be in order exactly if no node below it is broken, and
  with explanations the bad nodes listed are exactly the broken nodes below it, each with its own
  error, although nodes that several pins share are checked only once.\<close>

theorem pinVerify_correct:
  assumes "RecursiveKeys env = Inr pins" "acyclic_by env h" "\<And>p. p \<in> set pins \<Longrightarrow> h p < fuel"
  shows "\<exists>sts. list_all2 (\<lambda>c st. (st_Ok st \<longleftrightarrow> (\<forall>b. below env c b \<longrightarrow> broken env b = None))
        \<and> set (BadNodes st) = (if explain opts then bad_below env c else {})) pins sts
    \<and> pinVerify fuel (\<lambda>_. False) env opts = Some (Inr (map (\<lambda>(c, st). \<lparr>pvr_Cid = enc_cid env c, pvr_Status = st\<rparr>)
        (filter (\<lambda>(c, st). \<not> st_Ok st \<or> includeOk opts) (zip pins sts))))"
proof -
  have "vis_right env opts Map.empty" by (simp add: vis_right_def)
  then show ?thesis
    using verify_loop_right [OF assms(2), of opts Map.empty pins fuel 0] assms(1,3)
    unfolding pinVerify_def status_right_def by (metis (no_types, lifting) option.simps(9) sum.case(2))
qed

definition ex_node :: "char \<Rightarrow> cid" where
  "ex_node c = CidV0 (replicate 32 c)"

text \<open>Two pins over a shared node whose second link is missing.\<close>

definition ex_pins :: pv_env where
  "ex_pins = \<lparr>getLinks = (\<lambda>c. if c = ex_node (CHR ''A'') then Inr [ex_node (CHR ''C'')]
       else if c = ex_node (CHR ''B'') then Inr [ex_node (CHR ''D'')]
       else if c = ex_node (CHR ''C'') then Inr [ex_node (CHR ''D''), ex_node (CHR ''E'')]
       else if c = ex_node (CHR ''D'') then Inr [] else Inl ''not found''),
     enc_cid = (\<lambda>c. case c of CidV0 d \<Rightarrow> take 1 d | _ \<Rightarrow> []), verif_msg = (\<lambda>_. ''bad hash''),
     RecursiveKeys = Inr [ex_node (CHR ''A''), ex_node (CHR ''B''), ex_node (CHR ''C'')]\<rparr>"

definition ex_height :: "cid \<Rightarrow> nat" where
  "ex_height c = (if c = ex_node (CHR ''A'') then 3 else if c = ex_node (CHR ''B'') then 2
     else if c = ex_node (CHR ''C'') then 2 else if c = ex_node (CHR ''D'') then 1 else 0)"

theorem pinVerify_correct_witness:
  "\<exists>stA stC. pinVerify 4 (\<lambda>_. False) ex_pins \<lparr>explain = True, includeOk = False\<rparr> =
      Some (Inr [\<lparr>pvr_Cid = ''A'', pvr_Status = stA\<rparr>, \<lparr>pvr_Cid = ''C'', pvr_Status = stC\<rparr>])
    \<and> set (BadNodes stA) = bad_below ex_pins (ex_node (CHR ''A''))
    \<and> bad_below ex_pins (ex_node (CHR ''B'')) = {}"
proof -
  define opts where "opts = \<lparr>explain = True, includeOk = False\<rparr>"
  have neq: "ex_node a = ex_node b \<longleftrightarrow> a = b" for a b by (simp add: ex_node_def)
  have gl: "good_links ex_pins c = (case getLinks ex_pins c of Inr ls \<Rightarrow> ls | Inl _ \<Rightarrow> [])" for c
    by (auto simp: good_links_def broken_def ex_pins_def ex_node_def split: option.splits sum.splits)
  have acyc: "acyclic_by ex_pins ex_height"
    unfolding acyclic_by_def gl by (auto simp: ex_pins_def ex_height_def neq)
  have keys: "RecursiveKeys ex_pins = Inr [ex_node (CHR ''A''), ex_node (CHR ''B''), ex_node (CHR ''C'')]"
    by (simp add: ex_pins_def)
  have hp: "ex_height p < 4" for p by (simp add: ex_height_def)
  obtain sts where sts: "list_all2 (\<lambda>c st. (st_Ok st \<longleftrightarrow> (\<forall>b. below ex_pins c b \<longrightarrow> broken ex_pins b = None))
        \<and> set (BadNodes st) = (if explain opts then bad_below ex_pins c else {}))
        [ex_node (CHR ''A''), ex_node (CHR ''B''), ex_node (CHR ''C'')] sts"
    and run: "pinVerify 4 (\<lambda>_. False) ex_pins opts = Some (Inr (map (\<lambda>(c, st). \<lparr>pvr_Cid = enc_cid ex_pins c, pvr_Status = st\<rparr>)
        (filter (\<lambda>(c, st). \<not> st_Ok st \<or> includeOk opts) (zip [ex_node (CHR ''A''), ex_node (CHR ''B''), ex_node (CHR ''C'')] sts))))"
    using pinVerify_correct [OF keys acyc, of 4 opts] hp by blast
  have val: "map_option (map_sum id (map pvr_Cid)) (pinVerify 4 (\<lambda>_. False) ex_pins opts) = Some (Inr [''A'', ''C''])"
    unfolding opts_def by code_simp
  obtain a b c where abc: "sts = [a, b, c]" using sts by (auto simp: list_all2_Cons1)
  have enc: "enc_cid ex_pins (ex_node x) = [x]" for x by (simp add: ex_pins_def ex_node_def)
  have ok: "\<not> st_Ok a" "st_Ok b" "\<not> st_Ok c"
    using val unfolding run abc by (auto simp: enc opts_def split: if_splits)
  then show ?thesis
    using sts run unfolding abc by (intro exI [of _ a] exI [of _ c])
      (auto simp: enc opts_def bad_below_def)
qed

end
