(* ===== verification/Refs.thy ===== *)
theory Refs
  imports Cid
begin

text \<open>
  Listing the references of objects, from \<^verbatim>\<open>core/commands/refs.go\<close>: a depth-first traversal of the graph that
  prints an edge for each link. With the option \<^verbatim>\<open>unique\<close> every CID is printed once, branches that were
  explored deep enough before are cut off, and branches that are met again nearer to the root are
  explored again, since the depth limit then reaches further.

  The node getter, path resolution, CID encoding, cancellation and the emitter are parameters. The
  traversal takes fuel; the graph is acyclic, which is a height that decreases along links.
\<close>

section \<open>The command\<close>

record RefWrapper =
  Ref :: string
  Err :: string

record refs_env =
  dag_Get :: "cid \<Rightarrow> string + (string \<times> cid) list"
  ref_enc :: "cid \<Rightarrow> string"
  ctx_Err :: "nat \<Rightarrow> string option"
  emit_Err :: "nat \<Rightarrow> string option"
  ResolvePath :: "string \<Rightarrow> string + cid"

record RefWriter =
  Unique :: bool
  MaxDepth :: int
  PrintFmt :: string
  seen :: "cid \<rightharpoonup> int"
  emitted :: "RefWrapper list"

text \<open>\<^verbatim>\<open>strings.Replace(s, old, new, -1)\<close> for a non-empty \<open>old\<close>.\<close>

function replace_all :: "string \<Rightarrow> string \<Rightarrow> string \<Rightarrow> string" where
  "replace_all old new [] = []"
| "replace_all old new (c # cs) =
     (if old \<noteq> [] \<and> prefix old (c # cs) then new @ replace_all old new (drop (length old - 1) cs)
      else c # replace_all old new cs)"
  by pat_completeness auto
termination by (relation "measure (\<lambda>(old, new, s). length s)") auto

definition edge_text :: "refs_env \<Rightarrow> string \<Rightarrow> cid \<Rightarrow> cid \<Rightarrow> string \<Rightarrow> string" where
  "edge_text env fmt src dst linkname =
     (if fmt \<noteq> [] then
        replace_all ''<linkname>'' linkname
          (replace_all ''<dst>'' (ref_enc env dst) (replace_all ''<src>'' (ref_enc env src) fmt))
      else ref_enc env dst)"

definition Emit :: "refs_env \<Rightarrow> RefWrapper \<Rightarrow> RefWriter \<Rightarrow> string option \<times> RefWriter" where
  "Emit env r rw =
     (case emit_Err env (length (emitted rw)) of
        Some e \<Rightarrow> (Some e, rw)
      | None \<Rightarrow> (None, rw\<lparr>emitted := emitted rw @ [r]\<rparr>))"

definition WriteEdge :: "refs_env \<Rightarrow> cid \<Rightarrow> cid \<Rightarrow> string \<Rightarrow> RefWriter \<Rightarrow> string option \<times> RefWriter" where
  "WriteEdge env src dst linkname rw =
     (case ctx_Err env (length (emitted rw)) of
        Some e \<Rightarrow> (Some e, rw)
      | None \<Rightarrow> Emit env \<lparr>Ref = edge_text env (PrintFmt rw) src dst linkname, Err = []\<rparr> rw)"

definition visit :: "cid \<Rightarrow> int \<Rightarrow> RefWriter \<Rightarrow> (bool \<times> bool) \<times> RefWriter" where
  "visit c depth rw =
     (let atMaxDepth = (MaxDepth rw \<ge> 0 \<and> depth = MaxDepth rw);
          overMaxDepth = (MaxDepth rw \<ge> 0 \<and> depth > MaxDepth rw) in
      if overMaxDepth then ((False, False), rw)
      else if \<not> Unique rw then ((\<not> atMaxDepth, True), rw)
      else
        (case seen rw c of
           Some oldDepth \<Rightarrow>
             if MaxDepth rw < 0 \<or> oldDepth \<le> depth then ((False, False), rw)
             else ((\<not> atMaxDepth, False), rw\<lparr>seen := (seen rw)(c \<mapsto> depth)\<rparr>)
         | None \<Rightarrow> ((\<not> atMaxDepth, True), rw\<lparr>seen := (seen rw)(c \<mapsto> depth)\<rparr>)))"

text \<open>A node is its CID and its links; \<open>write_links\<close> is the loop over the links that are left.\<close>

fun writeRefsRecursive ::
    "nat \<Rightarrow> refs_env \<Rightarrow> cid \<Rightarrow> (string \<times> cid) list \<Rightarrow> int \<Rightarrow> RefWriter \<Rightarrow> ((nat \<times> string option) \<times> RefWriter) option"
  and write_links ::
    "nat \<Rightarrow> refs_env \<Rightarrow> cid \<Rightarrow> (string \<times> cid) list \<Rightarrow> int \<Rightarrow> nat \<Rightarrow> RefWriter \<Rightarrow> ((nat \<times> string option) \<times> RefWriter) option"
  where
  "writeRefsRecursive 0 env nc links depth rw = None"
| "writeRefsRecursive (Suc n) env nc links depth rw = write_links n env nc links depth 0 rw"
| "write_links n env nc [] depth count rw = Some ((count, None), rw)"
| "write_links n env nc ((name, lc) # links) depth count rw =
     (case visit lc (depth + 1) rw of ((goDeeper, shouldWrite), rw1) \<Rightarrow>
        if \<not> shouldWrite \<and> \<not> goDeeper then write_links n env nc links depth count rw1
        else
          (case dag_Get env lc of
             Inl e \<Rightarrow> Some ((count, Some e), rw1)
           | Inr nd \<Rightarrow>
               (case (if shouldWrite then WriteEdge env nc lc name rw1 else (None, rw1)) of
                  (Some e, rw2) \<Rightarrow> Some ((count, Some e), rw2)
                | (None, rw2) \<Rightarrow>
                    (let count1 = (if shouldWrite then Suc count else count) in
                     if goDeeper then
                       (case writeRefsRecursive n env lc nd (depth + 1) rw2 of
                          None \<Rightarrow> None
                        | Some ((c, Some e), rw3) \<Rightarrow> Some ((count1 + c, Some e), rw3)
                        | Some ((c, None), rw3) \<Rightarrow> write_links n env nc links depth (count1 + c) rw3)
                     else write_links n env nc links depth count1 rw2))))"

definition WriteRefs :: "nat \<Rightarrow> refs_env \<Rightarrow> cid \<Rightarrow> RefWriter \<Rightarrow> ((nat \<times> string option) \<times> RefWriter) option" where
  "WriteRefs fuel env c rw =
     (case dag_Get env c of
        Inl e \<Rightarrow> Some ((0, Some e), rw)
      | Inr n \<Rightarrow> writeRefsRecursive fuel env c n 0 rw)"

fun objectsForPaths :: "refs_env \<Rightarrow> string list \<Rightarrow> string + cid list" where
  "objectsForPaths env [] = Inr []"
| "objectsForPaths env (sp # paths) =
     (case ResolvePath env sp of
        Inl e \<Rightarrow> Inl e
      | Inr o1 \<Rightarrow> (case objectsForPaths env paths of Inl e \<Rightarrow> Inl e | Inr roots \<Rightarrow> Inr (o1 # roots)))"

text \<open>The loop of the command: an object that fails is reported and the next one is tried.\<close>

fun refs_loop :: "nat \<Rightarrow> refs_env \<Rightarrow> cid list \<Rightarrow> RefWriter \<Rightarrow> (string option \<times> RefWriter) option" where
  "refs_loop fuel env [] rw = Some (None, rw)"
| "refs_loop fuel env (c # objs) rw =
     (case WriteRefs fuel env c rw of
        None \<Rightarrow> None
      | Some ((_, None), rw1) \<Rightarrow> refs_loop fuel env objs rw1
      | Some ((_, Some e), rw1) \<Rightarrow>
          (case Emit env \<lparr>Ref = [], Err = e\<rparr> rw1 of
             (Some e', rw2) \<Rightarrow> Some (Some e', rw2)
           | (None, rw2) \<Rightarrow> refs_loop fuel env objs rw2))"

record refs_opts =
  opt_unique :: bool
  opt_recursive :: bool
  opt_maxDepth :: int
  opt_edges :: bool
  opt_format :: string

definition RefsCmd_Run ::
  "nat \<Rightarrow> refs_env \<Rightarrow> refs_opts \<Rightarrow> string list \<Rightarrow> (string option \<times> RefWrapper list) option" where
  "RefsCmd_Run fuel env opts args =
     (let maxDepth = (if \<not> opt_recursive opts then 1 else opt_maxDepth opts) in
      if opt_edges opts \<and> opt_format opts \<noteq> ''<dst>''
      then Some (Some ''using format argument with edges is not allowed'', [])
      else
        (let fmt = (if opt_edges opts then ''<src> -> <dst>'' else opt_format opts) in
         case objectsForPaths env args of
           Inl e \<Rightarrow> Some (Some e, [])
         | Inr objs \<Rightarrow>
             map_option (\<lambda>(e, rw). (e, emitted rw))
               (refs_loop fuel env objs \<lparr>Unique = opt_unique opts, MaxDepth = maxDepth, PrintFmt = fmt,
                  seen = Map.empty, emitted = []\<rparr>)))"

section \<open>Depths and coverage\<close>

definition links_of :: "refs_env \<Rightarrow> cid \<Rightarrow> cid list" where
  "links_of env c = (case dag_Get env c of Inr links \<Rightarrow> map snd links | Inl _ \<Rightarrow> [])"

text \<open>A walk of a given length along links.\<close>

inductive rwalk :: "refs_env \<Rightarrow> cid \<Rightarrow> nat \<Rightarrow> cid \<Rightarrow> bool" for env r where
  rwalk_0: "rwalk env r 0 r"
| rwalk_Suc: "rwalk env r k c \<Longrightarrow> l \<in> set (links_of env c) \<Longrightarrow> rwalk env r (Suc k) l"

lemma rwalk_trans: "rwalk env b j c \<Longrightarrow> rwalk env a i b \<Longrightarrow> rwalk env a (i + j) c"
  by (induction rule: rwalk.induct) (auto intro: rwalk.intros)

lemma rwalk_link: "l \<in> set (links_of env c) \<Longrightarrow> rwalk env c (Suc 0) l"
  by (rule rwalk_Suc [OF rwalk_0])

definition descends :: "refs_env \<Rightarrow> (cid \<Rightarrow> nat) \<Rightarrow> bool" where
  "descends env h = (\<forall>c l. l \<in> set (links_of env c) \<longrightarrow> h l < h c)"

lemma descends_walk: "rwalk env r k c \<Longrightarrow> descends env h \<Longrightarrow> h c + k \<le> h r"
proof (induction rule: rwalk.induct)
  case (rwalk_Suc k c l)
  then have "h l < h c" by (simp add: descends_def)
  then show ?case using rwalk_Suc by simp
qed simp

text \<open>A depth within the limit; a CID seen at some depth or nearer (nearer does not matter without a limit);
  a CID whose links were covered.\<close>

definition within :: "int \<Rightarrow> int \<Rightarrow> bool" where
  "within M d = (M < 0 \<or> d \<le> M)"

definition covers :: "int \<Rightarrow> (cid \<rightharpoonup> int) \<Rightarrow> cid \<Rightarrow> int \<Rightarrow> bool" where
  "covers M S c d = (case S c of None \<Rightarrow> False | Some d' \<Rightarrow> M < 0 \<or> d' \<le> d)"

definition links_covered :: "refs_env \<Rightarrow> int \<Rightarrow> (cid \<rightharpoonup> int) \<Rightarrow> cid \<Rightarrow> bool" where
  "links_covered env M S c =
     (\<forall>d l. S c = Some d \<longrightarrow> within M (d + 1) \<longrightarrow> l \<in> set (links_of env c) \<longrightarrow> covers M S l (d + 1))"

definition nearer :: "(cid \<rightharpoonup> int) \<Rightarrow> (cid \<rightharpoonup> int) \<Rightarrow> bool" where
  "nearer S S' = (\<forall>c d. S c = Some d \<longrightarrow> (\<exists>d'. S' c = Some d' \<and> d' \<le> d))"

lemma nearer_refl: "nearer S S"
  by (simp add: nearer_def)

lemma nearer_trans: "nearer S S1 \<Longrightarrow> nearer S1 S2 \<Longrightarrow> nearer S S2"
  unfolding nearer_def by (meson order_trans)

lemma covers_nearer: "nearer S S' \<Longrightarrow> covers M S c d \<Longrightarrow> covers M S' c d"
  unfolding nearer_def covers_def by (fastforce split: option.splits)

lemma links_covered_nearer: "nearer S S' \<Longrightarrow> S' c = S c \<Longrightarrow> links_covered env M S c \<Longrightarrow> links_covered env M S' c"
  unfolding links_covered_def using covers_nearer by metis

text \<open>What exploring the links \<open>L\<close> of a node at some depth makes of the map of seen CIDs.\<close>

definition explored :: "refs_env \<Rightarrow> int \<Rightarrow> cid \<Rightarrow> int \<Rightarrow> cid set \<Rightarrow> (cid \<rightharpoonup> int) \<Rightarrow> (cid \<rightharpoonup> int) \<Rightarrow> bool" where
  "explored env M nc depth L S S' \<longleftrightarrow>
     nearer S S' \<and> (\<forall>l\<in>L. within M (depth + 1) \<longrightarrow> covers M S' l (depth + 1))
     \<and> (\<forall>c. S' c \<noteq> S c \<longrightarrow>
          (\<exists>k. rwalk env nc (Suc k) c \<and> S' c = Some (depth + 1 + int k) \<and> within M (depth + 1 + int k))
          \<and> links_covered env M S' c)"

lemma explored_none: "(\<And>l. l \<in> L \<Longrightarrow> within M (depth + 1) \<Longrightarrow> covers M S l (depth + 1)) \<Longrightarrow> explored env M nc depth L S S"
  by (simp add: explored_def nearer_refl)

lemma explored_append:
  assumes 1: "explored env M nc depth L S S1" and 2: "explored env M nc depth L' S1 S2"
  shows "explored env M nc depth (L \<union> L') S S2"
proof -
  have near: "nearer S S1" "nearer S1 S2" using 1 2 by (auto simp: explored_def)
  have "(\<exists>k. rwalk env nc (Suc k) c \<and> S2 c = Some (depth + 1 + int k) \<and> within M (depth + 1 + int k))
      \<and> links_covered env M S2 c" if "S2 c \<noteq> S c" for c
  proof (cases "S2 c = S1 c")
    case True
    then have "S1 c \<noteq> S c" using that by simp
    then show ?thesis using 1 True links_covered_nearer [OF near(2) True] by (simp add: explored_def)
  qed (use 2 in \<open>auto simp: explored_def\<close>)
  then show ?thesis
    using nearer_trans [OF near] covers_nearer [OF near(2)] 1 2 unfolding explored_def by blast
qed

lemma explored_child:
  assumes link: "lc \<in> set (links_of env nc)" and acyc: "descends env h" and lim: "within M (depth + 1)"
    and old: "\<And>d. S lc = Some d \<Longrightarrow> depth + 1 \<le> d"
    and rec: "explored env M lc (depth + 1) (set (links_of env lc)) (S(lc \<mapsto> depth + 1)) S2"
  shows "explored env M nc depth {lc} S S2"
proof -
  define S1 where "S1 = S(lc \<mapsto> depth + 1)"
  have near: "nearer S S1" "nearer S1 S2" using old rec by (auto simp: explored_def nearer_def S1_def)
  have lc: "S2 lc = Some (depth + 1)"
  proof (rule ccontr)
    assume "S2 lc \<noteq> Some (depth + 1)"
    then have "S2 lc \<noteq> S1 lc" by (simp add: S1_def)
    then obtain k where "rwalk env lc (Suc k) lc" using rec unfolding explored_def S1_def by blast
    then show False using descends_walk [OF _ acyc] by fastforce
  qed
  have "(\<exists>k. rwalk env nc (Suc k) c \<and> S2 c = Some (depth + 1 + int k) \<and> within M (depth + 1 + int k))
      \<and> links_covered env M S2 c" if ch: "S2 c \<noteq> S c" for c
  proof (cases "c = lc")
    case True
    have "links_covered env M S2 lc" using rec lc by (auto simp: explored_def links_covered_def)
    then show ?thesis using True lc lim rwalk_link [OF link] by (intro conjI exI [of _ 0]) auto
  next
    case False
    then have "S2 c \<noteq> S1 c" using ch by (simp add: S1_def)
    then obtain k where k: "rwalk env lc (Suc k) c" "S2 c = Some (depth + 1 + 1 + int k)"
      "within M (depth + 1 + 1 + int k)" "links_covered env M S2 c"
      using rec unfolding explored_def S1_def by blast
    have "rwalk env nc (Suc (Suc k)) c" using rwalk_trans [OF k(1) rwalk_link [OF link]] by simp
    then show ?thesis using k by (intro conjI exI [of _ "Suc k"]) (auto simp: algebra_simps)
  qed
  then show ?thesis
    using nearer_trans [OF near] lc by (auto simp: explored_def covers_def)
qed

section \<open>The traversal\<close>

text \<open>An edge is its source, its target and the name of the link.\<close>

type_synonym edge = "cid \<times> cid \<times> string"

definition edge_dst :: "edge \<Rightarrow> cid" where
  "edge_dst e = fst (snd e)"

definition edge_line :: "refs_env \<Rightarrow> string \<Rightarrow> edge \<Rightarrow> RefWrapper" where
  "edge_line env fmt e = (case e of (s, d, nm) \<Rightarrow> \<lparr>Ref = edge_text env fmt s d nm, Err = []\<rparr>)"

definition is_edge :: "refs_env \<Rightarrow> edge \<Rightarrow> bool" where
  "is_edge env e = (case e of (s, d, nm) \<Rightarrow> (case dag_Get env s of Inr links \<Rightarrow> (nm, d) \<in> set links | Inl _ \<Rightarrow> False))"

text \<open>From one writer to another, edges were written, one for each newly seen CID.\<close>

definition wrote :: "refs_env \<Rightarrow> RefWriter \<Rightarrow> RefWriter \<Rightarrow> edge list \<Rightarrow> bool" where
  "wrote env rw rw' es \<longleftrightarrow>
     (\<exists>S. rw' = rw\<lparr>seen := S, emitted := emitted rw @ map (edge_line env (PrintFmt rw)) es\<rparr>)
     \<and> distinct (map edge_dst es) \<and> edge_dst ` set es = dom (seen rw') - dom (seen rw)
     \<and> dom (seen rw) \<subseteq> dom (seen rw') \<and> list_all (is_edge env) es"

lemma wrote_same: "wrote env rw rw []"
  by (auto simp: wrote_def intro: exI [of _ "seen rw"])

lemma wrote_fields: "wrote env rw rw' es \<Longrightarrow> Unique rw' = Unique rw \<and> MaxDepth rw' = MaxDepth rw \<and> PrintFmt rw' = PrintFmt rw"
  by (auto simp: wrote_def)

lemma Un_Diff_chain: "B \<subseteq> A \<Longrightarrow> A \<subseteq> C \<Longrightarrow> (A - B) \<union> (C - A) = C - B"
  by blast

lemma wrote_append:
  assumes 1: "wrote env rw rw1 es" and 2: "wrote env rw1 rw2 es'"
  shows "wrote env rw rw2 (es @ es')"
proof -
  obtain S1 where r1: "rw1 = rw\<lparr>seen := S1, emitted := emitted rw @ map (edge_line env (PrintFmt rw)) es\<rparr>"
    using 1 unfolding wrote_def by blast
  obtain S2 where r2: "rw2 = rw1\<lparr>seen := S2, emitted := emitted rw1 @ map (edge_line env (PrintFmt rw1)) es'\<rparr>"
    using 2 unfolding wrote_def by blast
  have a: "rw2 = rw\<lparr>seen := S2, emitted := emitted rw @ map (edge_line env (PrintFmt rw)) (es @ es')\<rparr>"
    unfolding r2 r1 by simp
  have dd: "distinct (map edge_dst es)" "distinct (map edge_dst es')" using 1 2 by (simp_all add: wrote_def)
  have d: "edge_dst ` set es = dom (seen rw1) - dom (seen rw)" "edge_dst ` set es' = dom (seen rw2) - dom (seen rw1)"
    "dom (seen rw) \<subseteq> dom (seen rw1)" "dom (seen rw1) \<subseteq> dom (seen rw2)"
    using 1 2 unfolding wrote_def by blast+
  have b: "edge_dst ` set (es @ es') = dom (seen rw2) - dom (seen rw)"
    unfolding set_append image_Un d(1,2) by (intro Un_Diff_chain d)
  have c: "distinct (map edge_dst (es @ es'))"
    unfolding map_append distinct_append set_map d(1,2) using dd by blast
  have e: "list_all (is_edge env) (es @ es')" using 1 2 by (simp add: wrote_def)
  show ?thesis unfolding wrote_def by (intro conjI exI [of _ S2] a b c e subset_trans [OF d(3,4)])
qed

text \<open>The blocks below a node are present, nobody cancels and the emitter takes everything.\<close>

definition present :: "refs_env \<Rightarrow> cid \<Rightarrow> bool" where
  "present env r = (\<forall>k c. rwalk env r k c \<longrightarrow> (\<exists>links. dag_Get env c = Inr links))"

definition undisturbed :: "refs_env \<Rightarrow> bool" where
  "undisturbed env = ((\<forall>n. ctx_Err env n = None) \<and> (\<forall>n. emit_Err env n = None))"

lemma present_link: "present env c \<Longrightarrow> l \<in> set (links_of env c) \<Longrightarrow> present env l"
  unfolding present_def using rwalk_trans rwalk_link by blast

lemma present_get: "present env c \<Longrightarrow> \<exists>links. dag_Get env c = Inr links"
  unfolding present_def using rwalk_0 by blast

lemma WriteEdge_wrote:
  assumes "undisturbed env" "is_edge env (s, d, nm)" "seen rw d = None"
  shows "\<exists>rw2. WriteEdge env s d nm (rw\<lparr>seen := (seen rw)(d \<mapsto> x)\<rparr>) = (None, rw2)
    \<and> wrote env rw rw2 [(s, d, nm)] \<and> seen rw2 = (seen rw)(d \<mapsto> x)"
  using assms by (auto simp: undisturbed_def WriteEdge_def Emit_def wrote_def edge_line_def edge_dst_def)

text \<open>One link of the loop.\<close>

lemma traverse_link:
  assumes u: "Unique rw" and und: "undisturbed env" and acyc: "descends env h"
    and e: "is_edge env (nc, lc, name)" and pres: "present env lc"
    and rec: "\<And>nd rw2. dag_Get env lc = Inr nd \<Longrightarrow> Unique rw2 \<Longrightarrow>
      \<exists>es rw3. writeRefsRecursive n env lc nd (depth + 1) rw2 = Some ((length es, None), rw3) \<and> wrote env rw2 rw3 es
        \<and> explored env (MaxDepth rw2) lc (depth + 1) (set (links_of env lc)) (seen rw2) (seen rw3)"
  shows "\<exists>es rw3. write_links n env nc ((name, lc) # links) depth count rw
        = write_links n env nc links depth (count + length es) rw3
      \<and> wrote env rw rw3 es \<and> explored env (MaxDepth rw) nc depth {lc} (seen rw) (seen rw3)"
proof -
  let ?M = "MaxDepth rw"
  have link: "lc \<in> set (links_of env nc)" using e by (force simp: is_edge_def links_of_def split: sum.splits)
  obtain nd where nd: "dag_Get env lc = Inr nd" using present_get [OF pres] by blast
  consider (over) "\<not> within ?M (depth + 1)" | (pruned) d where "within ?M (depth + 1)" "seen rw lc = Some d" "?M < 0 \<or> d \<le> depth + 1"
    | (go) "within ?M (depth + 1)" "\<And>d. seen rw lc = Some d \<Longrightarrow> 0 \<le> ?M \<and> depth + 1 < d"
    by force
  then show ?thesis
  proof cases
    case over
    then have "visit lc (depth + 1) rw = ((False, False), rw)" by (auto simp: visit_def within_def)
    then show ?thesis
      using over by (intro exI [of _ "[]"] exI [of _ rw]) (auto simp: wrote_same intro: explored_none)
  next
    case pruned
    then have "visit lc (depth + 1) rw = ((False, False), rw)" using u by (auto simp: visit_def within_def Let_def)
    then show ?thesis
      using pruned by (intro exI [of _ "[]"] exI [of _ rw]) (auto simp: wrote_same covers_def intro: explored_none)
  next
    case go
    define new where "new = (seen rw lc = None)"
    define deep where "deep = (\<not> (?M \<ge> 0 \<and> depth + 1 = ?M))"
    define rw1 where "rw1 = rw\<lparr>seen := (seen rw)(lc \<mapsto> depth + 1)\<rparr>"
    have v: "visit lc (depth + 1) rw = ((deep, new), rw1)"
      using go u by (auto simp: visit_def within_def Let_def new_def deep_def rw1_def split: option.splits)

    define es1 where "es1 = (if new then [(nc, lc, name)] else [])"
    obtain rw2 where w: "(if new then WriteEdge env nc lc name rw1 else (None, rw1)) = (None, rw2)"
      "wrote env rw rw2 es1" "seen rw2 = (seen rw)(lc \<mapsto> depth + 1)"
    proof (cases new)
      case True
      then show ?thesis using that WriteEdge_wrote [OF und e, of rw "depth + 1"] by (auto simp: new_def rw1_def es1_def)
    next
      case False
      then have "wrote env rw rw1 es1"
        by (auto simp: wrote_def new_def rw1_def es1_def insert_absorb domI intro: exI [of _ "(seen rw)(lc \<mapsto> depth + 1)"])
      then show ?thesis using that [of rw1] False by (simp add: rw1_def)
    qed
    note f2 = wrote_fields [OF w(2)]
    have sub: "depth + 1 \<le> d" if "seen rw lc = Some d" for d using go(2) [OF that] by simp
    note child = explored_child [OF link acyc go(1) sub]
    have count: "(if new then Suc count else count) = count + length es1" by (simp add: es1_def)
    show ?thesis
    proof (cases deep)
      case True
      obtain es2 rw3 where r: "writeRefsRecursive n env lc nd (depth + 1) rw2 = Some ((length es2, None), rw3)"
        "wrote env rw2 rw3 es2" "explored env (MaxDepth rw2) lc (depth + 1) (set (links_of env lc)) (seen rw2) (seen rw3)"
        using rec [OF nd, of rw2] f2 u by auto
      have "explored env ?M nc depth {lc} (seen rw) (seen rw3)" using child r(3) f2 w(3) by simp
      then show ?thesis
        using v nd w(1) True r(1) count wrote_append [OF w(2) r(2)]
        by (intro exI [of _ "es1 @ es2"] exI [of _ rw3]) (simp add: Let_def add.assoc)
    next
      case False
      then have "\<not> within ?M (depth + 1 + 1)" by (simp add: deep_def within_def)
      then have "explored env ?M lc (depth + 1) (set (links_of env lc)) (seen rw2) (seen rw2)"
        by (auto intro: explored_none)
      then have "explored env ?M nc depth {lc} (seen rw) (seen rw2)" using child w(3) by simp
      then show ?thesis
        using v nd w(1,2) False count by (cases new) (intro exI [of _ es1] exI [of _ rw2]; simp add: Let_def es1_def)+
    qed
  qed
qed

lemma traverse_links:
  assumes und: "undisturbed env" and acyc: "descends env h" and get: "dag_Get env nc = Inr all" and pres: "present env nc"
    and rec: "\<And>lc nd depth rw2. lc \<in> set (links_of env nc) \<Longrightarrow> dag_Get env lc = Inr nd \<Longrightarrow> Unique rw2 \<Longrightarrow>
      \<exists>es rw3. writeRefsRecursive n env lc nd depth rw2 = Some ((length es, None), rw3) \<and> wrote env rw2 rw3 es
        \<and> explored env (MaxDepth rw2) lc depth (set (links_of env lc)) (seen rw2) (seen rw3)"
  shows "set links \<subseteq> set all \<Longrightarrow> Unique rw \<Longrightarrow>
    \<exists>es rw'. write_links n env nc links depth count rw = Some ((count + length es, None), rw') \<and> wrote env rw rw' es
      \<and> explored env (MaxDepth rw) nc depth (snd ` set links) (seen rw) (seen rw')"
proof (induction links arbitrary: rw count)
  case Nil
  show ?case by (intro exI [of _ "[]"] exI [of _ rw]) (auto simp: wrote_same intro: explored_none)
next
  case (Cons l links)
  obtain name lc where l: "l = (name, lc)" by fastforce
  have e: "is_edge env (nc, lc, name)" and link: "lc \<in> set (links_of env nc)"
    using Cons.prems(1) get l by (force simp: is_edge_def links_of_def)+
  obtain es1 rw1 where 1: "write_links n env nc ((name, lc) # links) depth count rw
        = write_links n env nc links depth (count + length es1) rw1"
      "wrote env rw rw1 es1" "explored env (MaxDepth rw) nc depth {lc} (seen rw) (seen rw1)"
    using traverse_link [OF Cons.prems(2) und acyc e present_link [OF pres link] rec [OF link]] by blast
  note f = wrote_fields [OF 1(2)]
  obtain es2 rw2 where 2: "write_links n env nc links depth (count + length es1) rw1 = Some ((count + length es1 + length es2, None), rw2)"
    "wrote env rw1 rw2 es2" "explored env (MaxDepth rw1) nc depth (snd ` set links) (seen rw1) (seen rw2)"
    using Cons.IH [of rw1 "count + length es1"] Cons.prems f by auto
  have "explored env (MaxDepth rw) nc depth ({lc} \<union> snd ` set links) (seen rw) (seen rw2)"
    using explored_append [OF 1(3)] 2(3) f by simp
  then show ?case
    using 1(1) 2(1) wrote_append [OF 1(2) 2(2)] l
    by (intro exI [of _ "es1 @ es2"] exI [of _ rw2]) (simp add: add.assoc del: write_links.simps)
qed

lemma traverse:
  assumes und: "undisturbed env" and acyc: "descends env h"
  shows "h nc < n \<Longrightarrow> dag_Get env nc = Inr links \<Longrightarrow> present env nc \<Longrightarrow> Unique rw \<Longrightarrow>
    \<exists>es rw'. writeRefsRecursive n env nc links depth rw = Some ((length es, None), rw') \<and> wrote env rw rw' es
      \<and> explored env (MaxDepth rw) nc depth (set (links_of env nc)) (seen rw) (seen rw')"
proof (induction n arbitrary: nc links depth rw)
  case (Suc n)
  have rec: "\<exists>es rw3. writeRefsRecursive n env lc nd depth rw2 = Some ((length es, None), rw3) \<and> wrote env rw2 rw3 es
        \<and> explored env (MaxDepth rw2) lc depth (set (links_of env lc)) (seen rw2) (seen rw3)"
    if "lc \<in> set (links_of env nc)" "dag_Get env lc = Inr nd" "Unique rw2" for lc nd depth rw2
  proof -
    have "h lc < n" using acyc that(1) Suc.prems(1) unfolding descends_def by fastforce
    then show ?thesis using Suc.IH that(2,3) present_link [OF Suc.prems(3) that(1)] by blast
  qed
  have "set (links_of env nc) = snd ` set links" using Suc.prems(2) by (simp add: links_of_def)
  then show ?case
    using traverse_links [OF und acyc Suc.prems(2,3) rec, of links rw depth 0] Suc.prems(4) by simp
qed simp

section \<open>What is listed\<close>

text \<open>The CIDs that the roots reach over at least one link and within the depth limit.\<close>

definition listed :: "refs_env \<Rightarrow> int \<Rightarrow> cid set \<Rightarrow> cid set" where
  "listed env M R = {c. \<exists>r\<in>R. \<exists>k. rwalk env r (Suc k) c \<and> within M (1 + int k)}"

text \<open>The map of seen CIDs after some roots were listed.\<close>

definition seen_right :: "refs_env \<Rightarrow> int \<Rightarrow> cid set \<Rightarrow> (cid \<rightharpoonup> int) \<Rightarrow> bool" where
  "seen_right env M R S \<longleftrightarrow>
     (\<forall>c d. S c = Some d \<longrightarrow> (\<exists>r\<in>R. \<exists>k. rwalk env r (Suc k) c \<and> within M (1 + int k) \<and> d = 1 + int k))
     \<and> (\<forall>c. links_covered env M S c)
     \<and> (\<forall>r\<in>R. \<forall>l\<in>set (links_of env r). within M 1 \<longrightarrow> covers M S l 1)"

lemma seen_right_root:
  assumes "seen_right env M R S" "explored env M r 0 (set (links_of env r)) S S'"
  shows "seen_right env M (insert r R) S'"
proof -
  have near: "nearer S S'" using assms(2) by (simp add: explored_def)
  have "(\<exists>r'\<in>insert r R. \<exists>k. rwalk env r' (Suc k) c \<and> within M (1 + int k) \<and> d = 1 + int k) \<and> links_covered env M S' c"
    if "S' c = Some d" for c d
  proof (cases "S' c = S c")
    case True
    then show ?thesis using assms(1) that links_covered_nearer [OF near True] unfolding seen_right_def by (metis insertI2)
  next
    case False
    then obtain k where "rwalk env r (Suc k) c" "S' c = Some (1 + int k)" "within M (1 + int k)" "links_covered env M S' c"
      using assms(2) unfolding explored_def by (metis add_0)
    then show ?thesis using that by auto
  qed
  moreover have "links_covered env M S' c" if "S' c = None" for c using that by (simp add: links_covered_def)
  moreover have "covers M S' l 1" if "r' \<in> insert r R" "l \<in> set (links_of env r')" "within M 1" for r' l
    using that assms covers_nearer [OF near] unfolding seen_right_def explored_def by auto
  ultimately show ?thesis unfolding seen_right_def by (metis option.exhaust)
qed

lemma seen_right_listed:
  assumes "seen_right env M R S"
  shows "dom S = listed env M R"
proof (intro set_eqI iffI)
  fix c
  assume "c \<in> dom S"
  then show "c \<in> listed env M R" using assms unfolding seen_right_def listed_def by blast
next
  fix c
  assume "c \<in> listed env M R"
  then obtain r k where r: "r \<in> R" "rwalk env r (Suc k) c" "within M (1 + int k)" by (auto simp: listed_def)
  have cov: "covers M S c (1 + int k)" if "rwalk env r (Suc k) c" "within M (1 + int k)" for k c
    using that
  proof (induction k arbitrary: c)
    case 0
    then have "c \<in> set (links_of env r)" by (auto elim: rwalk.cases)
    then show ?case using assms r(1) 0 by (simp add: seen_right_def)
  next
    case (Suc k)
    then obtain b where b: "rwalk env r (Suc k) b" "c \<in> set (links_of env b)" by (auto elim: rwalk.cases)
    have "within M (1 + int k)" using Suc.prems(2) by (auto simp: within_def)
    then have "covers M S b (1 + int k)" using Suc.IH b(1) by blast
    then obtain d where d: "S b = Some d" "M < 0 \<or> d \<le> 1 + int k" by (auto simp: covers_def split: option.splits)
    then have "within M (d + 1)" using Suc.prems(2) by (auto simp: within_def)
    then have "covers M S c (d + 1)" using assms b(2) d(1) by (simp add: seen_right_def links_covered_def)
    then show ?case using d(2) by (auto simp: covers_def split: option.splits)
  qed
  show "c \<in> dom S" using cov [OF r(2,3)] by (cases "S c") (auto simp: covers_def)
qed

lemma refs_loop_right:
  assumes und: "undisturbed env" and acyc: "descends env h"
  shows "(\<And>r. r \<in> set objs \<Longrightarrow> present env r \<and> h r < fuel) \<Longrightarrow> Unique rw \<Longrightarrow> seen_right env (MaxDepth rw) R (seen rw) \<Longrightarrow>
    \<exists>es rw'. refs_loop fuel env objs rw = Some (None, rw') \<and> wrote env rw rw' es
      \<and> seen_right env (MaxDepth rw) (R \<union> set objs) (seen rw')"
proof (induction objs arbitrary: rw R)
  case Nil
  then show ?case by (auto intro: exI [of _ "[]"] wrote_same)
next
  case (Cons r objs)
  obtain links where get: "dag_Get env r = Inr links" using Cons.prems(1) present_get by force
  obtain es1 rw1 where 1: "writeRefsRecursive fuel env r links 0 rw = Some ((length es1, None), rw1)"
    "wrote env rw rw1 es1" "explored env (MaxDepth rw) r 0 (set (links_of env r)) (seen rw) (seen rw1)"
    using traverse [OF und acyc _ get _ Cons.prems(2), of fuel 0] Cons.prems(1) by auto
  note f = wrote_fields [OF 1(2)]
  obtain es2 rw2 where 2: "refs_loop fuel env objs rw1 = Some (None, rw2)" "wrote env rw1 rw2 es2"
    "seen_right env (MaxDepth rw1) (insert r R \<union> set objs) (seen rw2)"
    using Cons.IH [of rw1 "insert r R"] Cons.prems seen_right_root [OF Cons.prems(3) 1(3)] f by auto
  then show ?case
    using 1(1) get wrote_append [OF 1(2) 2(2)] f by (auto simp: WriteRefs_def)
qed

text \<open>C12. The unique listing of references is exact. If the blocks are there and nobody disturbs the run, the
  command returns without an error and prints one line for each CID that can be reached from the given
  objects over at least one link and within the depth limit (any number of links without a limit,
  direct links only if not recursive): none is missing although branches are cut off, none is
  printed twice although branches are explored again, and every line is an edge of the graph.\<close>

theorem RefsCmd_unique_exact:
  assumes "undisturbed env" "descends env h" "objectsForPaths env args = Inr objs"
    "\<And>r. r \<in> set objs \<Longrightarrow> present env r \<and> h r < fuel"
    "opt_unique opts" "opt_edges opts \<Longrightarrow> opt_format opts = ''<dst>''"
    "M = (if opt_recursive opts then opt_maxDepth opts else 1)"
    "fmt = (if opt_edges opts then ''<src> -> <dst>'' else opt_format opts)"
  shows "\<exists>es. RefsCmd_Run fuel env opts args = Some (None, map (edge_line env fmt) es)
    \<and> distinct (map edge_dst es) \<and> edge_dst ` set es = listed env M (set objs) \<and> list_all (is_edge env) es"
proof -
  define rw where "rw = \<lparr>Unique = True, MaxDepth = M, PrintFmt = fmt, seen = Map.empty, emitted = []\<rparr>"
  have "seen_right env M {} (seen rw)" by (simp add: seen_right_def links_covered_def rw_def)
  then obtain es rw' where run: "refs_loop fuel env objs rw = Some (None, rw')" "wrote env rw rw' es"
    "seen_right env M (set objs) (seen rw')"
    using refs_loop_right [OF assms(1,2,4), of objs rw "{}"] by (auto simp: rw_def)
  have "dom (seen rw') = listed env M (set objs)" by (rule seen_right_listed [OF run(3)])
  moreover have "RefsCmd_Run fuel env opts args = map_option (\<lambda>(e, rw). (e, emitted rw)) (refs_loop fuel env objs rw)"
    using assms(3,5-8) by (auto simp: RefsCmd_Run_def Let_def rw_def)
  moreover have "emitted rw' = map (edge_line env fmt) es" using run(2) by (auto simp: wrote_def rw_def)
  ultimately show ?thesis using run by (intro exI [of _ es]) (auto simp: wrote_def rw_def)
qed

text \<open>With a limit of two, \<open>C\<close> is first met at depth two below \<open>B\<close>, where its links are not looked at, and
  then at depth one, from where \<open>D\<close> is still to be listed.\<close>

definition ref_node :: "char \<Rightarrow> cid" where
  "ref_node c = CidV0 [c]"

definition ex_refs :: refs_env where
  "ex_refs = \<lparr>dag_Get = (\<lambda>c. if c = ref_node (CHR ''A'') then Inr [(''b'', ref_node (CHR ''B'')), (''c'', ref_node (CHR ''C''))]
       else if c = ref_node (CHR ''B'') then Inr [(''x'', ref_node (CHR ''C''))]
       else if c = ref_node (CHR ''C'') then Inr [(''y'', ref_node (CHR ''D''))]
       else if c = ref_node (CHR ''D'') then Inr [(''z'', ref_node (CHR ''E''))] else Inr []),
     ref_enc = (\<lambda>c. case c of CidV0 d \<Rightarrow> d | _ \<Rightarrow> []), ctx_Err = (\<lambda>_. None), emit_Err = (\<lambda>_. None),
     ResolvePath = (\<lambda>_. Inr (ref_node (CHR ''A'')))\<rparr>"

definition ref_height :: "cid \<Rightarrow> nat" where
  "ref_height c = (if c = ref_node (CHR ''A'') then 4 else if c = ref_node (CHR ''B'') then 3
     else if c = ref_node (CHR ''C'') then 2 else if c = ref_node (CHR ''D'') then 1 else 0)"

definition ex_refs_opts :: refs_opts where
  "ex_refs_opts = \<lparr>opt_unique = True, opt_recursive = True, opt_maxDepth = 2, opt_edges = False, opt_format = ''<dst>''\<rparr>"

theorem RefsCmd_unique_exact_witness:
  "RefsCmd_Run 5 ex_refs ex_refs_opts [''/ipfs/A''] =
     Some (None, [\<lparr>Ref = ''B'', Err = []\<rparr>, \<lparr>Ref = ''C'', Err = []\<rparr>, \<lparr>Ref = ''D'', Err = []\<rparr>])
   \<and> card (listed ex_refs 2 {ref_node (CHR ''A'')}) = 3"
proof -
  have run: "RefsCmd_Run 5 ex_refs ex_refs_opts [''/ipfs/A''] =
     Some (None, [\<lparr>Ref = ''B'', Err = []\<rparr>, \<lparr>Ref = ''C'', Err = []\<rparr>, \<lparr>Ref = ''D'', Err = []\<rparr>])" by code_simp
  have neq: "ref_node a = ref_node b \<longleftrightarrow> a = b" for a b by (simp add: ref_node_def)
  have get: "\<exists>links. dag_Get ex_refs c = Inr links" for c by (simp add: ex_refs_def)
  have pres: "present ex_refs r \<and> ref_height r < 5" for r using get by (simp add: present_def ref_height_def)
  have acyc: "descends ex_refs ref_height"
    unfolding descends_def links_of_def by (auto simp: ex_refs_def ref_height_def neq)
  have und: "undisturbed ex_refs" by (simp add: undisturbed_def ex_refs_def)
  have opts: "opt_unique ex_refs_opts" "opt_edges ex_refs_opts \<Longrightarrow> opt_format ex_refs_opts = ''<dst>''"
    "2 = (if opt_recursive ex_refs_opts then opt_maxDepth ex_refs_opts else 1)"
    "''<dst>'' = (if opt_edges ex_refs_opts then ''<src> -> <dst>'' else opt_format ex_refs_opts)"
    by (simp_all add: ex_refs_opts_def)
  have objs: "objectsForPaths ex_refs [''/ipfs/A''] = Inr [ref_node (CHR ''A'')]" by (simp add: ex_refs_def)
  obtain es where es: "RefsCmd_Run 5 ex_refs ex_refs_opts [''/ipfs/A''] = Some (None, map (edge_line ex_refs ''<dst>'') es)"
    "distinct (map edge_dst es)" "edge_dst ` set es = listed ex_refs 2 {ref_node (CHR ''A'')}"
    using RefsCmd_unique_exact [OF und acyc objs pres opts(1) opts(2) opts(3) opts(4)]
    unfolding list.set by blast
  have "length es = length (map (edge_line ex_refs ''<dst>'') es)" by simp
  also have "\<dots> = 3" using run es(1) by (metis option.inject prod.inject length_Cons list.size(3) One_nat_def numeral_3_eq_3)
  finally have "card (edge_dst ` set es) = 3" using distinct_card [OF es(2)] by simp
  then show ?thesis using run es(3) by simp
qed

end
