(* ===== verification/Bootstrap.thy ===== *)
theory Bootstrap
  imports Prelude "HOL-Library.Multiset"
begin

text \<open>
  Bootstrapping, from \<^verbatim>\<open>core/bootstrap/bootstrap.go\<close>. The first part is one round: which of the configured
  peers are dialled and when the round counts as failed. The second part is \<open>Bootstrap\<close> itself with its
  periodic rounds: the calling goroutine and the rounds are interleaved steps, the channel
  \<^verbatim>\<open>doneWithRound\<close> is part of the state, and closing the process waits for the rounds that are under way, as
  \<^verbatim>\<open>goprocess\<close> does.

  The network (who is connected, which connections succeed), the random permutation and the order in
  which the dialling goroutines report are parameters; logging is left out.
\<close>

section \<open>A round\<close>

record AddrInfo =
  ai_ID :: string
  ai_Addrs :: "string list"

record BootstrapConfig =
  MinPeerThreshold :: int
  BootstrapPeers :: "AddrInfo list"

definition BootstrapConfigWithPeers :: "AddrInfo list \<Rightarrow> BootstrapConfig" where
  "BootstrapConfigWithPeers pis = \<lparr>MinPeerThreshold = 4, BootstrapPeers = pis\<rparr>"

record bs_host =
  host_Peers :: "string list"
  is_Connected :: "string \<Rightarrow> bool"
  host_Connect :: "AddrInfo \<Rightarrow> string option"
  rand_Perm :: "nat \<Rightarrow> nat list"
  finish_order :: "AddrInfo list \<Rightarrow> AddrInfo list"

definition ErrNotEnoughBootstrapPeers :: string where
  "ErrNotEnoughBootstrapPeers = ''not enough bootstrap peers to bootstrap''"

definition randomSubsetOfPeers :: "(nat \<Rightarrow> nat list) \<Rightarrow> AddrInfo list \<Rightarrow> int \<Rightarrow> AddrInfo list" where
  "randomSubsetOfPeers perm xs mx =
     (let m = (if mx > int (length xs) then length xs else nat mx) in
      map (\<lambda>val. xs ! val) (take m (perm (length xs))))"

text \<open>The result is the error and the peers whose addresses were stored and which were dialled.\<close>

definition bootstrapConnect :: "bs_host \<Rightarrow> AddrInfo list \<Rightarrow> string option \<times> AddrInfo list" where
  "bootstrapConnect ph peers =
     (if length peers < 1 then (Some ErrNotEnoughBootstrapPeers, [])
      else
        (let errs = List.map_filter (host_Connect ph) (finish_order ph peers) in
         (if length errs = length peers then Some (''failed to bootstrap. '' @ last errs) else None, peers)))"

definition bootstrapRound :: "bs_host \<Rightarrow> BootstrapConfig \<Rightarrow> string option \<times> AddrInfo list" where
  "bootstrapRound host cfg =
     (let connected = host_Peers host in
      if int (length connected) \<ge> MinPeerThreshold cfg then (None, [])
      else
        (let numToDial = MinPeerThreshold cfg - int (length connected);
             notConnected = filter (\<lambda>p. \<not> is_Connected host (ai_ID p)) (BootstrapPeers cfg) in
         if length notConnected < 1 then (Some ErrNotEnoughBootstrapPeers, [])
         else bootstrapConnect host (randomSubsetOfPeers (rand_Perm host) notConnected numToDial)))"

section \<open>The service\<close>

text \<open>Where the caller of \<open>Bootstrap\<close> is: in the bootstrap of the routing system, sending on \<^verbatim>\<open>doneWithRound\<close>,
  waiting in \<^verbatim>\<open>proc.Close\<close>, or back with or without an error.\<close>

datatype main_pc = InRouting | Sending | InClose string | Returned "string option"

text \<open>A round: before \<^verbatim>\<open>bootstrapRound\<close> has returned, at the receive from \<^verbatim>\<open>doneWithRound\<close>, or over.\<close>

datatype round_pc = Dialling | AtReceive | Over

record boot =
  main :: main_pc
  rounds :: "round_pc list"
  done_closed :: bool
  closing :: bool

text \<open>A node may have no routing system. The first round is started at once; the ticker starts another
  one only when the one it started before is over.\<close>

definition Bootstrap_start :: "bool \<Rightarrow> boot" where
  "Bootstrap_start routing =
     \<lparr>main = (if routing then InRouting else Sending), rounds = [Dialling], done_closed = False, closing = False\<rparr>"

inductive boot_step :: "boot \<Rightarrow> boot \<Rightarrow> bool" where
  round_dialled: "i < length (rounds s) \<Longrightarrow> rounds s ! i = Dialling \<Longrightarrow>
    boot_step s (s\<lparr>rounds := (rounds s)[i := AtReceive]\<rparr>)"
| round_released: "i < length (rounds s) \<Longrightarrow> rounds s ! i = AtReceive \<Longrightarrow> done_closed s \<Longrightarrow>
    boot_step s (s\<lparr>rounds := (rounds s)[i := Over]\<rparr>)"
| tick: "\<not> closing s \<Longrightarrow> length (rounds s) = 1 \<or> last (rounds s) = Over \<Longrightarrow> boot_step s (s\<lparr>rounds := rounds s @ [Dialling]\<rparr>)"
| routing_ok: "main s = InRouting \<Longrightarrow> boot_step s (s\<lparr>main := Sending\<rparr>)"
| routing_fails: "main s = InRouting \<Longrightarrow> boot_step s (s\<lparr>main := InClose e, closing := True\<rparr>)"
| close_returns: "main s = InClose e \<Longrightarrow> list_all (\<lambda>r. r = Over) (rounds s) \<Longrightarrow>
    boot_step s (s\<lparr>main := Returned (Some e)\<rparr>)"
| handed_over: "main s = Sending \<Longrightarrow> i < length (rounds s) \<Longrightarrow> rounds s ! i = AtReceive \<Longrightarrow>
    boot_step s (s\<lparr>main := Returned None, rounds := (rounds s)[i := Over], done_closed := True\<rparr>)"

section \<open>What a round does\<close>

lemma take_perm_subset:
  assumes "mset p = mset [0..<length xs]"
  shows "mset (map (\<lambda>i. xs ! i) (take m p)) \<subseteq># mset xs"
proof -
  have "mset (take m p) \<subseteq># mset p"
    by (metis append_take_drop_id mset_append mset_subset_eq_add_left)
  then have "image_mset (\<lambda>i. xs ! i) (mset (take m p)) \<subseteq># image_mset (\<lambda>i. xs ! i) (mset [0..<length xs])"
    using assms image_mset_subseteq_mono by metis
  moreover have "image_mset (\<lambda>i. xs ! i) (mset [0..<length xs]) = mset xs" by (metis map_nth mset_map)
  ultimately show ?thesis by simp
qed

text \<open>The contract of the random numbers and the goroutines: permutations.\<close>

definition fair_host :: "bs_host \<Rightarrow> bool" where
  "fair_host host = ((\<forall>n. mset (rand_Perm host n) = mset [0..<n]) \<and> (\<forall>xs. mset (finish_order host xs) = mset xs))"

lemma length_map_filter: "length (List.map_filter f xs) = length (filter (\<lambda>x. f x \<noteq> None) xs)"
  by (induction xs) (auto simp: List.map_filter_def)

lemma all_fail:
  assumes "mset ys = mset xs"
  shows "length (List.map_filter f ys) = length xs \<longleftrightarrow> (\<forall>x\<in>set xs. f x \<noteq> None)"
proof -
  have same: "length xs = length ys" "set xs = set ys" using assms mset_eq_length mset_eq_setD by metis+
  have "length (filter P zs) = length zs \<longleftrightarrow> (\<forall>x\<in>set zs. P x)" for P and zs :: "'a list"
    using length_filter_less [of _ zs P] by (metis filter_True less_irrefl)
  then show ?thesis unfolding length_map_filter same .
qed

text \<open>A bootstrap round dials nobody when enough peers are connected. Otherwise the peers it dials are
  configured bootstrap peers that are not connected, each at most as often as it is configured, and as many
  as are missing to the threshold or, if there are fewer candidates, all of them; and it fails
  exactly if there is no candidate or every dial failed.\<close>

lemma bootstrapRound_correct:
  assumes fair: "fair_host host" and run: "bootstrapRound host cfg = (err, dialled)"
    and cand: "cand = filter (\<lambda>p. \<not> is_Connected host (ai_ID p)) (BootstrapPeers cfg)"
    and missing: "missing = MinPeerThreshold cfg - int (length (host_Peers host))"
  shows "if missing \<le> 0 then err = None \<and> dialled = []
    else mset dialled \<subseteq># mset cand \<and> int (length dialled) = min missing (int (length cand))
      \<and> (err \<noteq> None \<longleftrightarrow> (\<forall>p\<in>set dialled. host_Connect host p \<noteq> None))"
proof (cases "missing \<le> 0 \<or> cand = []")
  case True
  then show ?thesis using run missing cand by (auto simp: bootstrapRound_def Let_def split: if_splits)
next
  case False
  define m where "m = (if missing > int (length cand) then length cand else nat missing)"
  define sub where "sub = map (\<lambda>i. cand ! i) (take m (rand_Perm host (length cand)))"
  have perm: "mset (rand_Perm host (length cand)) = mset [0..<length cand]"
    and fin: "mset (finish_order host sub) = mset sub" using fair by (auto simp: fair_host_def)
  have "length (rand_Perm host (length cand)) = length cand" using mset_eq_length [OF perm] by simp
  then have len: "length sub = m" "m \<ge> 1" "m \<le> length cand"
    using False by (auto simp: sub_def m_def Suc_le_eq)
  have "bootstrapRound host cfg = bootstrapConnect host sub"
    using False missing cand [symmetric] by (simp add: bootstrapRound_def Let_def randomSubsetOfPeers_def sub_def m_def)
  then have "(err, dialled) = (if length (List.map_filter (host_Connect host) (finish_order host sub)) = length sub
      then Some (''failed to bootstrap. '' @ last (List.map_filter (host_Connect host) (finish_order host sub))) else None, sub)"
    using run len by (simp add: bootstrapConnect_def Let_def)
  then have "dialled = sub" "err \<noteq> None \<longleftrightarrow> (\<forall>p\<in>set sub. host_Connect host p \<noteq> None)"
    using all_fail [OF fin] by auto
  moreover have "mset sub \<subseteq># mset cand" unfolding sub_def using take_perm_subset [OF perm] .
  moreover have "int m = min missing (int (length cand))" using False by (auto simp: m_def)
  ultimately show ?thesis using False len by simp
qed

definition ex_host :: bs_host where
  "ex_host = \<lparr>host_Peers = [''q''], is_Connected = (\<lambda>i. i = ''q''), host_Connect = (\<lambda>p. if ai_ID p = ''a'' then Some ''timeout'' else None),
     rand_Perm = (\<lambda>n. rev [0..<n]), finish_order = rev\<rparr>"

lemma bootstrapRound_correct_witness:
  "int (length (snd (bootstrapRound ex_host (BootstrapConfigWithPeers
      (map (\<lambda>i. \<lparr>ai_ID = i, ai_Addrs = []\<rparr>) [''a'', ''q'', ''b'', ''c'', ''d''])))))= 3
   \<and> fst (bootstrapRound ex_host (BootstrapConfigWithPeers
      (map (\<lambda>i. \<lparr>ai_ID = i, ai_Addrs = []\<rparr>) [''a'', ''q'', ''b'', ''c'', ''d'']))) = None"
proof -
  define cfg where "cfg = BootstrapConfigWithPeers (map (\<lambda>i. \<lparr>ai_ID = i, ai_Addrs = []\<rparr>) [''a'', ''q'', ''b'', ''c'', ''d''])"
  have fair: "fair_host ex_host" by (simp add: fair_host_def ex_host_def)
  have none: "fst (bootstrapRound ex_host cfg) = None" unfolding cfg_def by code_simp
  from bootstrapRound_correct [OF fair surjective_pairing refl refl, of cfg]
  have "int (length (snd (bootstrapRound ex_host cfg))) = 3"
    by (simp add: cfg_def BootstrapConfigWithPeers_def ex_host_def)
  then show ?thesis using none unfolding cfg_def by simp
qed

section \<open>Returning\<close>

text \<open>Before the caller is back, no round is over; it comes back with success only by handing over to a round
  that has dialled; and while it waits in \<^verbatim>\<open>proc.Close\<close>, the rounds wait for it.\<close>

definition boot_inv :: "boot \<Rightarrow> bool" where
  "boot_inv s =
     (rounds s \<noteq> []
      \<and> (case main s of
           Returned None \<Rightarrow> done_closed s \<and> Over \<in> set (rounds s)
         | Returned (Some e) \<Rightarrow> False
         | _ \<Rightarrow> \<not> done_closed s \<and> Over \<notin> set (rounds s)))"

lemma Over_update: "i < length xs \<Longrightarrow> Over \<in> set xs \<Longrightarrow> xs ! i \<noteq> Over \<Longrightarrow> Over \<in> set (xs[i := x])"
  by (metis in_set_conv_nth length_list_update nth_list_update_neq)

lemma boot_inv_step: "boot_step s t \<Longrightarrow> boot_inv s \<Longrightarrow> boot_inv t"
proof (induction rule: boot_step.induct)
  case (round_dialled i s)
  then show ?case
    using set_update_subset_insert [of "rounds s" i AtReceive] Over_update [of i "rounds s" AtReceive]
    by (auto simp: boot_inv_def split: main_pc.splits option.splits)
next
  case (round_released i s)
  then show ?case by (auto simp: boot_inv_def set_update_memI split: main_pc.splits option.splits)
next
  case (close_returns s e)
  then show ?case by (cases "rounds s") (auto simp: boot_inv_def)
next
  case (handed_over s i)
  then show ?case by (auto simp: boot_inv_def set_update_memI)
qed (auto simp: boot_inv_def split: main_pc.splits option.splits)

interpretation boot: invariant_system "\<lambda>s. \<exists>routing. s = Bootstrap_start routing" boot_step boot_inv
proof
  show "boot_inv s" if "\<exists>routing. s = Bootstrap_start routing" for s
    using that by (auto simp: boot_inv_def Bootstrap_start_def)
qed (rule boot_inv_step)

text \<open>When \<open>Bootstrap\<close> has returned without an error, at least one bootstrap round is complete and no
  round can block on it any more; and it never returns an error: if the bootstrap of the routing
  system fails, closing the process waits for a round that waits for the caller.\<close>

lemma Bootstrap_returns:
  assumes "reach (\<lambda>s. \<exists>routing. s = Bootstrap_start routing) boot_step s" "main s = Returned r"
  shows "r = None \<and> done_closed s \<and> Over \<in> set (rounds s)"
  using boot.reach_inv [OF assms(1)] assms(2) by (cases r) (auto simp: boot_inv_def)

lemma Bootstrap_returns_witness:
  "Over \<in> set (rounds \<lparr>main = Returned None, rounds = [Over], done_closed = True, closing = False\<rparr>)"
proof -
  let ?I = "\<lambda>s. \<exists>routing. s = Bootstrap_start routing"
  have 0: "reach ?I boot_step (Bootstrap_start False)" by (rule reach_init) blast
  have 1: "reach ?I boot_step \<lparr>main = Sending, rounds = [AtReceive], done_closed = False, closing = False\<rparr>"
    using reach_step [OF 0 round_dialled [of 0]] by (simp add: Bootstrap_start_def)
  have 2: "reach ?I boot_step \<lparr>main = Returned None, rounds = [Over], done_closed = True, closing = False\<rparr>"
    using reach_step [OF 1 handed_over [of _ 0]] by simp
  show ?thesis using Bootstrap_returns [OF 2] by simp
qed

end
