(* ===== verification/Lazy_Seek.thy ===== *)
theory Lazy_Seek
  imports Prelude
begin

text \<open>
  The lazy seeker of the gateway, from \<^verbatim>\<open>core/corehttp/lazyseek.go\<close>: it remembers where it was asked to seek to and
  moves the underlying reader only when bytes are wanted. The underlying reader is a parameter, a
  record of the two calls; \<open>seekable\<close> is what is relied on, of a reader of some contents. Offsets are
  64-bit integers and sums of them wrap.
\<close>

section \<open>The code\<close>

datatype seek_err = EOF | SeekErr string

record 'r ReadSeeker =
  rs_Seek :: "int \<Rightarrow> 'r \<Rightarrow> (seek_err + int) \<times> 'r"
  rs_Read :: "nat \<Rightarrow> 'r \<Rightarrow> (string \<times> seek_err option) \<times> 'r"

record 'r lazySeeker =
  reader :: 'r
  ls_size :: int
  offset :: int
  realOffset :: int

datatype whence = SeekStart | SeekCurrent | SeekEnd | SeekOther int

definition wrap64 :: "int \<Rightarrow> int" where
  "wrap64 x = (x + 2 ^ 63) mod 2 ^ 64 - 2 ^ 63"

definition seek_start :: "int \<Rightarrow> 'r lazySeeker \<Rightarrow> (seek_err option \<times> int) \<times> 'r lazySeeker" where
  "seek_start off s =
     (if off < 0 then ((Some (SeekErr ''invalid seek offset''), offset s), s)
      else ((None, off), s\<lparr>offset := off\<rparr>))"

definition lazy_Seek :: "int \<Rightarrow> whence \<Rightarrow> 'r lazySeeker \<Rightarrow> (seek_err option \<times> int) \<times> 'r lazySeeker" where
  "lazy_Seek off wh s =
     (case wh of
        SeekEnd \<Rightarrow> seek_start (wrap64 (ls_size s + off)) s
      | SeekCurrent \<Rightarrow> seek_start (wrap64 (offset s + off)) s
      | SeekStart \<Rightarrow> seek_start off s
      | SeekOther w \<Rightarrow> ((Some (SeekErr (''invalid whence: '' @ show_int w)), offset s), s))"

text \<open>The loop that really seeks, with fuel: it goes on as long as the reader reports another offset than
  the wanted one.\<close>

fun real_seek :: "'r ReadSeeker \<Rightarrow> nat \<Rightarrow> 'r lazySeeker \<Rightarrow> (seek_err option \<times> 'r lazySeeker) option" where
  "real_seek rs 0 s = (if offset s = realOffset s then Some (None, s) else None)"
| "real_seek rs (Suc n) s =
     (if offset s = realOffset s then Some (None, s)
      else (case rs_Seek rs (offset s) (reader s) of
          (Inl e, r) \<Rightarrow> Some (Some e, s\<lparr>reader := r\<rparr>)
        | (Inr off, r) \<Rightarrow> real_seek rs n (s\<lparr>reader := r, realOffset := off\<rparr>)))"

definition lazy_Read :: "'r ReadSeeker \<Rightarrow> nat \<Rightarrow> nat \<Rightarrow> 'r lazySeeker \<Rightarrow> ((string \<times> seek_err option) \<times> 'r lazySeeker) option" where
  "lazy_Read rs fuel b s =
     (if offset s \<ge> ls_size s then Some (([], Some EOF), s)
      else (case real_seek rs fuel s of
          None \<Rightarrow> None
        | Some (Some e, s1) \<Rightarrow> Some (([], Some e), s1)
        | Some (None, s1) \<Rightarrow>
            (case rs_Read rs b (reader s1) of
               ((bs, e), r) \<Rightarrow>
                 Some ((bs, e), s1\<lparr>reader := r, realOffset := wrap64 (realOffset s1 + int (length bs)),
                   offset := wrap64 (offset s1 + int (length bs))\<rparr>))))"

section \<open>Refinement of a position in the contents\<close>

text \<open>What a reader of some contents promises: \<open>pos\<close> is its position; a seek that succeeds goes where it was
  told and says so, one that fails may leave the reader anywhere, and its error is not the end of the file; a read gives at
  most the wanted number of bytes, the next ones, and moves on.\<close>

definition seekable :: "'r ReadSeeker \<Rightarrow> string \<Rightarrow> ('r \<Rightarrow> int) \<Rightarrow> bool" where
  "seekable rs content pos \<longleftrightarrow>
     (\<forall>off r off' r'. 0 \<le> off \<longrightarrow> rs_Seek rs off r = (Inr off', r') \<longrightarrow> off' = off \<and> pos r' = off)
     \<and> (\<forall>off r e r'. rs_Seek rs off r = (Inl e, r') \<longrightarrow> e \<noteq> EOF)
     \<and> (\<forall>b r bs e r'. 0 \<le> pos r \<longrightarrow> rs_Read rs b r = ((bs, e), r') \<longrightarrow>
          length bs \<le> b \<and> bs = take (length bs) (drop (nat (pos r)) content) \<and> pos r' = pos r + int (length bs))"

definition ls_inv :: "string \<Rightarrow> ('r \<Rightarrow> int) \<Rightarrow> 'r lazySeeker \<Rightarrow> bool" where
  "ls_inv content pos s \<longleftrightarrow>
     ls_size s = int (length content) \<and> length content < 2 ^ 63 \<and> 0 \<le> offset s \<and> offset s < 2 ^ 63
     \<and> realOffset s = pos (reader s) \<and> 0 \<le> realOffset s"

text \<open>The abstract seeker is a position. Seeking from the end or the current position wraps like the code.\<close>

definition abs_Seek :: "string \<Rightarrow> int \<Rightarrow> whence \<Rightarrow> int \<Rightarrow> int" where
  "abs_Seek content off wh p =
     (let t = (case wh of SeekStart \<Rightarrow> off | SeekCurrent \<Rightarrow> wrap64 (p + off)
                 | SeekEnd \<Rightarrow> wrap64 (int (length content) + off) | SeekOther _ \<Rightarrow> -1)
      in if t < 0 then p else t)"

definition abs_Read :: "string \<Rightarrow> nat \<Rightarrow> int \<Rightarrow> string" where
  "abs_Read content n p = take n (drop (nat p) content)"

lemma wrap64_range: "- (2 ^ 63) \<le> wrap64 x" "wrap64 x < 2 ^ 63"
  unfolding wrap64_def using pos_mod_bound [of "2 ^ 64" "x + 2 ^ 63"] pos_mod_sign [of "2 ^ 64" "x + 2 ^ 63"] by simp_all

lemma wrap64_id: "0 \<le> x \<Longrightarrow> x < 2 ^ 63 \<Longrightarrow> wrap64 x = x"
  by (simp add: wrap64_def)

lemma lazy_Seek_refines:
  assumes "ls_inv content pos s" "- (2 ^ 63) \<le> off" "off < 2 ^ 63" "lazy_Seek off wh s = ((e, n), s')"
  shows "ls_inv content pos s' \<and> reader s' = reader s \<and> n = offset s' \<and> offset s' = abs_Seek content off wh (offset s)"
  using assms wrap64_range
  by (auto simp: lazy_Seek_def seek_start_def abs_Seek_def ls_inv_def Let_def split: whence.splits if_splits)

lemma real_seek_at:
  assumes "seekable rs content pos" "ls_inv content pos s" "real_seek rs (Suc n) s = Some (e, s')"
  shows "offset s' = offset s \<and> ls_size s' = ls_size s \<and> e \<noteq> Some EOF \<and> (e = None \<longrightarrow> ls_inv content pos s' \<and> realOffset s' = offset s')"
proof (cases "offset s = realOffset s")
  case False
  obtain x r where x: "rs_Seek rs (offset s) (reader s) = (x, r)" by fastforce
  show ?thesis
  proof (cases x)
    case (Inl y)
    then have "y \<noteq> EOF" using x assms(1) unfolding seekable_def by blast
    then show ?thesis using False assms(2,3) x Inl by auto
  next
    case (Inr off)
    then have "off = offset s" "pos r = offset s"
      using x assms(1,2) unfolding seekable_def ls_inv_def by metis+
    then show ?thesis using False assms(2,3) x Inr by (cases n) (auto simp: ls_inv_def)
  qed
qed (use assms in auto)

lemma real_seek_returns:
  assumes "seekable rs content pos" "ls_inv content pos s"
  shows "real_seek rs (Suc n) s \<noteq> None"
proof -
  obtain x r where x: "rs_Seek rs (offset s) (reader s) = (x, r)" by fastforce
  have "off = offset s" if "x = Inr off" for off
    using x that assms unfolding seekable_def ls_inv_def by metis
  then show ?thesis using x by (cases x; cases n) auto
qed

lemma lazy_Read_refines:
  assumes rs: "seekable rs content pos" and inv: "ls_inv content pos s"
  shows "\<exists>bs e s'. lazy_Read rs (Suc n) b s = Some ((bs, e), s') \<and> (e = None \<or> e = Some EOF \<longrightarrow> ls_inv content pos s')
    \<and> length bs \<le> b \<and> bs = abs_Read content (length bs) (offset s) \<and> offset s' = offset s + int (length bs)
    \<and> (offset s \<ge> int (length content) \<longrightarrow> bs = [] \<and> e = Some EOF \<and> reader s' = reader s)"
proof (cases "offset s \<ge> ls_size s")
  case True
  then show ?thesis using inv by (auto simp: lazy_Read_def abs_Read_def ls_inv_def)
next
  case False
  obtain e1 s1 where s1: "real_seek rs (Suc n) s = Some (e1, s1)"
    using real_seek_returns [OF rs inv, of n] by (metis not_Some_eq surj_pair)
  note at = real_seek_at [OF rs inv s1]
  show ?thesis
  proof (cases e1)
    case (Some x)
    then show ?thesis using False s1 at inv by (auto simp: lazy_Read_def abs_Read_def ls_inv_def)
  next
    case None
    obtain bs e r where r: "rs_Read rs b (reader s1) = ((bs, e), r)" by (metis surj_pair)
    have pos: "pos (reader s1) = offset s" "0 \<le> pos (reader s1)" using at None by (auto simp: ls_inv_def)
    then have read: "length bs \<le> b" "bs = take (length bs) (drop (nat (offset s)) content)" "pos r = offset s + int (length bs)"
      using rs r unfolding seekable_def by metis+
    have "length bs \<le> length content - nat (offset s)" using read(2) by (metis length_drop length_take min.cobounded1)
    then have "offset s + int (length bs) \<le> int (length content)" using False inv by (auto simp: ls_inv_def)
    moreover have "int (length content) < 2 ^ 63" using inv by (simp add: ls_inv_def)
    ultimately have w: "wrap64 (offset s + int (length bs)) = offset s + int (length bs)" "offset s + int (length bs) < 2 ^ 63"
      using inv by (auto intro!: wrap64_id simp: ls_inv_def)
    define s' where "s' = s1\<lparr>reader := r, realOffset := offset s + int (length bs), offset := offset s + int (length bs)\<rparr>"
    have "lazy_Read rs (Suc n) b s = Some ((bs, e), s')"
      using False s1 None r at w by (simp add: lazy_Read_def s'_def)
    moreover have "ls_inv content pos s'" using inv at read w(2) by (auto simp: ls_inv_def s'_def)
    ultimately show ?thesis using read False inv by (auto simp: s'_def abs_Read_def ls_inv_def)
  qed
qed

text \<open>A run of seeks and reads, as the HTTP server makes them: it goes on after the end of the file, and stops at any other
  error of a read.\<close>

datatype seek_op = OpSeek int whence | OpRead nat

text \<open>The positions and bytes that a run sees, by the code and by the position in the contents; the number of
  bytes of each read is up to the reader.\<close>

fun lazy_run :: "'r ReadSeeker \<Rightarrow> seek_op list \<Rightarrow> 'r lazySeeker \<Rightarrow> (string list \<times> 'r lazySeeker) option" where
  "lazy_run rs [] s = Some ([], s)"
| "lazy_run rs (OpSeek off wh # ops) s = lazy_run rs ops (snd (lazy_Seek off wh s))"
| "lazy_run rs (OpRead b # ops) s =
     (case lazy_Read rs 1 b s of
        None \<Rightarrow> None
      | Some ((bs, e), s1) \<Rightarrow>
          if e = None \<or> e = Some EOF then map_option (\<lambda>(out, s'). (bs # out, s')) (lazy_run rs ops s1)
          else Some ([bs], s1))"

fun abs_run :: "string \<Rightarrow> nat list \<Rightarrow> seek_op list \<Rightarrow> int \<Rightarrow> string list" where
  "abs_run content ns [] p = []"
| "abs_run content ns (OpSeek off wh # ops) p = abs_run content ns ops (abs_Seek content off wh p)"
| "abs_run content (n # ns) (OpRead b # ops) p = abs_Read content n p # abs_run content ns ops (p + int n)"
| "abs_run content [] (OpRead b # ops) p = []"

fun op_ok :: "seek_op \<Rightarrow> bool" where
  "op_ok (OpSeek off wh) = (- (2 ^ 63) \<le> off \<and> off < 2 ^ 63)"
| "op_ok (OpRead b) = True"

lemma abs_run_Nil [simp]: "abs_run content [] ops p = []"
proof (induction ops arbitrary: p)
  case (Cons op ops)
  then show ?case by (cases op) auto
qed simp

text \<open>C23. The lazy seeker delivers what an ordinary one would: for every run of seeks and reads up to the first read that fails
  with another error than the end of the file, over any
  reader whose successful seeks go where they were told and whose reads give the next bytes, every read returns, and its bytes are those of the
  contents at the position the seeks and reads before it lead to, although the reader is moved only
  when bytes are wanted. Nothing is said of reads after one that failed, since a failed seek may leave the reader
  anywhere.\<close>

theorem lazySeeker_refines_position:
  assumes "seekable rs content pos" "ls_inv content pos s" "list_all op_ok ops"
  shows "\<exists>out s'. lazy_run rs ops s = Some (out, s') \<and> out = abs_run content (map length out) ops (offset s)"
  using assms(2,3)
proof (induction ops arbitrary: s)
  case (Cons op ops)
  show ?case
  proof (cases op)
    case (OpSeek off wh)
    obtain e n s1 where s1: "lazy_Seek off wh s = ((e, n), s1)" by (metis surj_pair)
    note r = lazy_Seek_refines [OF Cons.prems(1) _ _ s1]
    then show ?thesis using Cons.IH [of s1] Cons.prems OpSeek s1 by auto
  next
    case (OpRead b)
    obtain bs e s1 where r: "lazy_Read rs 1 b s = Some ((bs, e), s1)" "e = None \<or> e = Some EOF \<longrightarrow> ls_inv content pos s1"
      "bs = abs_Read content (length bs) (offset s)" "offset s1 = offset s + int (length bs)"
      using lazy_Read_refines [OF assms(1) Cons.prems(1), of 0 b] by auto
    show ?thesis
    proof (cases "e = None \<or> e = Some EOF")
      case True
      then have "ls_inv content pos s1" using r(2) by simp
      from Cons.IH [OF this] obtain out s' where "lazy_run rs ops s1 = Some (out, s')" "out = abs_run content (map length out) ops (offset s1)"
        using Cons.prems(2) by auto
      then show ?thesis using r True OpRead by (intro exI [of _ "bs # out"] exI [of _ s']) simp
    next
      case False
      then show ?thesis using r OpRead by (intro exI [of _ "[bs]"] exI [of _ s1]) auto
    qed
  qed
qed simp

text \<open>A reader that goes back to the start before a seek fails, as that of \<^verbatim>\<open>go-unixfs\<close> does: the lazy seeker still takes it for where it
  was, and a client that seeks back there gets other bytes.\<close>

definition resetting_reader :: "string \<Rightarrow> int ReadSeeker" where
  "resetting_reader content = \<lparr>rs_Seek = (\<lambda>off r. if off = 7 then (Inl (SeekErr ''block not found''), 0) else (Inr off, off)),
     rs_Read = (\<lambda>b r. let bs = take b (drop (nat r) content) in ((bs, if bs = [] then Some EOF else None), r + int (length bs)))\<rparr>"

lemma failed_seek_reads_elsewhere:
  "\<exists>s1 s2. lazy_Read (resetting_reader ''Hello, world'') 1 3 \<lparr>reader = 2, ls_size = 12, offset = 7, realOffset = 2\<rparr>
       = Some (([], Some (SeekErr ''block not found'')), s1)
     \<and> lazy_Read (resetting_reader ''Hello, world'') 1 3 (snd (lazy_Seek 2 SeekStart s1)) = Some ((''Hel'', None), s2)
     \<and> abs_Read ''Hello, world'' 3 2 = ''llo''"
  by (simp add: lazy_Read_def lazy_Seek_def seek_start_def resetting_reader_def abs_Read_def)

text \<open>A reader over a string, as \<^verbatim>\<open>strings.Reader\<close>, that gives at most four bytes at a time.\<close>

definition string_reader :: "string \<Rightarrow> int ReadSeeker" where
  "string_reader content = \<lparr>rs_Seek = (\<lambda>off r. if off < 0 then (Inl (SeekErr ''negative position''), r) else (Inr off, off)),
     rs_Read = (\<lambda>b r. let bs = take (min b 4) (drop (nat r) content) in
       ((bs, if bs = [] then Some EOF else None), r + int (length bs)))\<rparr>"

lemma take_self: "take (min (length xs) k) xs = take k xs"
  by (cases "length xs \<le> k") (auto simp: min_def)

lemma seekable_string_reader: "seekable (string_reader content) content (\<lambda>r. r)"
  using take_self [of "drop (nat r) content" for r]
  by (auto simp: seekable_def string_reader_def Let_def split: if_splits)

theorem lazySeeker_refines_position_witness:
  "lazy_run (string_reader ''Hello, world'') [OpSeek 0 SeekEnd, OpRead 3, OpSeek 7 SeekStart, OpRead 2, OpSeek (- 9) SeekCurrent, OpRead 9]
     \<lparr>reader = 0, ls_size = 12, offset = 0, realOffset = 0\<rparr> =
   Some ([[], ''wo'', ''Hell''], \<lparr>reader = 4, ls_size = 12, offset = 4, realOffset = 4\<rparr>)
   \<and> [[], ''wo'', ''Hell''] = abs_run ''Hello, world'' [0, 2, 4]
     [OpSeek 0 SeekEnd, OpRead 3, OpSeek 7 SeekStart, OpRead 2, OpSeek (- 9) SeekCurrent, OpRead 9] 0"
proof -
  define ops where "ops = [OpSeek 0 SeekEnd, OpRead 3, OpSeek 7 SeekStart, OpRead 2, OpSeek (- 9) SeekCurrent, OpRead 9]"
  define s :: "int lazySeeker" where "s = \<lparr>reader = 0, ls_size = 12, offset = 0, realOffset = 0\<rparr>"
  have inv: "ls_inv ''Hello, world'' (\<lambda>r. r) s" by (simp add: ls_inv_def s_def)
  have run: "lazy_run (string_reader ''Hello, world'') ops s
      = Some ([[], ''wo'', ''Hell''], \<lparr>reader = 4, ls_size = 12, offset = 4, realOffset = 4\<rparr>)"
    unfolding ops_def s_def by code_simp
  have "list_all op_ok ops" by (simp add: ops_def)
  then obtain out s' where o: "lazy_run (string_reader ''Hello, world'') ops s = Some (out, s')"
    "out = abs_run ''Hello, world'' (map length out) ops (offset s)"
    using lazySeeker_refines_position [OF seekable_string_reader inv] by blast
  have eq: "out = [[], ''wo'', ''Hell'']" using o(1) unfolding run by simp
  have "map length [[], ''wo'', ''Hell''] = [0, 2, 4]" "offset s = 0" by (simp_all add: s_def)
  then have "[[], ''wo'', ''Hell''] = abs_run ''Hello, world'' [0, 2, 4] ops 0" using o(2) unfolding eq by metis
  then show ?thesis using run unfolding ops_def s_def by blast
qed

end
