(* ===== verification/Gateway.thy ===== *)
theory Gateway
  imports Hostname Lazy_Seek
begin

text \<open>
  The gateway handler, from \<^verbatim>\<open>core/corehttp/gateway_handler.go\<close>, \<^verbatim>\<open>gateway_indexPage.go\<close> and \<^verbatim>\<open>gateway.go\<close>, with the
  functions of \<^verbatim>\<open>net/http\<close>, \<^verbatim>\<open>net/url\<close> and \<^verbatim>\<open>go-path\<close> it calls. A response writer is a record of headers, what was sent
  of them with the status, and the body; what a handler does is a function on it.

  Parameters (\<open>gw_env\<close>) are the core API (resolving, getting and adding), the DAG service, the mutable file
  system of a PUT or DELETE, the parsing of URLs, \<^verbatim>\<open>http.ServeContent\<close>, the detection of content types, and the
  two HTML templates. \<open>'s\<close> is the state of the node's store, \<open>'m\<close> that of a mutable root, \<open>'r\<close> that of the reader
  of a file. A panic ends the handler with what was written so far, since \<open>ServeHTTP\<close> recovers. Metrics and
  logging are left out; error texts are abridged.
\<close>

section \<open>Errors and responses\<close>

datatype gw_err = ErrOffline | ErrNoLink string | RoutingNotFound | DeadlineExceeded | ErrNotExist | ErrOther string

fun gw_err_msg :: "gw_err \<Rightarrow> string" where
  "gw_err_msg ErrOffline = ''this action must be run in online mode, try running ipfs daemon first''"
| "gw_err_msg (ErrNoLink n) = ''no link named '' @ n"
| "gw_err_msg RoutingNotFound = ''routing: not found''"
| "gw_err_msg DeadlineExceeded = ''context deadline exceeded''"
| "gw_err_msg ErrNotExist = ''file does not exist''"
| "gw_err_msg (ErrOther s) = s"

text \<open>An error value that may be nil, printed with \<^verbatim>\<open>%s\<close>.\<close>

definition err_text :: "gw_err option \<Rightarrow> string" where
  "err_text e = (case e of None \<Rightarrow> ''%!s(<nil>)'' | Some x \<Rightarrow> gw_err_msg x)"

type_synonym headers = "string \<rightharpoonup> string list"

record resp =
  hdr :: headers
  sent :: "(nat \<times> headers) option"
  body :: string

definition HGet :: "headers \<Rightarrow> string \<Rightarrow> string" where
  "HGet h k = (case h k of Some (v # _) \<Rightarrow> v | _ \<Rightarrow> [])"

definition HSet :: "string \<Rightarrow> string \<Rightarrow> resp \<Rightarrow> resp" where
  "HSet k v w = w\<lparr>hdr := (hdr w)(k \<mapsto> [v])\<rparr>"

definition HAdd :: "string \<Rightarrow> string \<Rightarrow> resp \<Rightarrow> resp" where
  "HAdd k v w = w\<lparr>hdr := (hdr w)(k \<mapsto> (case hdr w k of None \<Rightarrow> [] | Some vs \<Rightarrow> vs) @ [v])\<rparr>"

text \<open>The first status counts; a body without one is sent with 200.\<close>

definition WriteHeader :: "nat \<Rightarrow> resp \<Rightarrow> resp" where
  "WriteHeader code w = (case sent w of None \<Rightarrow> w\<lparr>sent := Some (code, hdr w)\<rparr> | Some _ \<Rightarrow> w)"

definition resp_Write :: "string \<Rightarrow> resp \<Rightarrow> resp" where
  "resp_Write s w = (let w = WriteHeader 200 w in w\<lparr>body := body w @ s\<rparr>)"

text \<open>What the client gets when the handler has returned.\<close>

definition finish :: "resp \<Rightarrow> nat \<times> headers \<times> string" where
  "finish w = (case sent (WriteHeader 200 w) of Some (c, h) \<Rightarrow> (c, h, body w) | None \<Rightarrow> (200, hdr w, body w))"

definition statusResponseWriter_WriteHeader :: "nat \<Rightarrow> resp \<Rightarrow> resp" where
  "statusResponseWriter_WriteHeader code w =
     WriteHeader (if HGet (hdr w) ''Location'' \<noteq> [] \<and> code = 200 then 301 else code) w"

text \<open>\<^verbatim>\<open>http.Error\<close>.\<close>

definition newline :: string where
  "newline = [CHR 0x0A]"

definition http_Error :: "string \<Rightarrow> nat \<Rightarrow> resp \<Rightarrow> resp" where
  "http_Error msg code w =
     resp_Write (msg @ newline) (WriteHeader code
       (HSet ''X-Content-Type-Options'' ''nosniff'' (HSet ''Content-Type'' ''text/plain; charset=utf-8'' w)))"

definition webErrorWithCode :: "string \<Rightarrow> gw_err option \<Rightarrow> nat \<Rightarrow> resp \<Rightarrow> resp" where
  "webErrorWithCode message e code = http_Error (message @ '': '' @ err_text e) code"

definition webError :: "string \<Rightarrow> gw_err option \<Rightarrow> nat \<Rightarrow> resp \<Rightarrow> resp" where
  "webError message e defaultCode =
     webErrorWithCode message e
       (case e of
          Some (ErrNoLink _) \<Rightarrow> 404
        | Some RoutingNotFound \<Rightarrow> 404
        | Some DeadlineExceeded \<Rightarrow> 408
        | _ \<Rightarrow> defaultCode)"

definition internalWebError :: "gw_err option \<Rightarrow> resp \<Rightarrow> resp" where
  "internalWebError e = webErrorWithCode ''internalWebError'' e 500"

section \<open>URLs and paths\<close>

record url =
  u_Scheme :: string
  u_Host :: string
  u_Path :: string
  u_RawQuery :: string

text \<open>\<^verbatim>\<open>path.Split\<close> and \<^verbatim>\<open>path.Ext\<close>.\<close>

definition path_Split :: "string \<Rightarrow> string \<times> string" where
  "path_Split p =
     (let f = rev (takeWhile (\<lambda>c. c \<noteq> CHR ''/'') (rev p)) in (take (length p - length f) p, f))"

definition path_Ext :: "string \<Rightarrow> string" where
  "path_Ext p =
     (let f = snd (path_Split p); e = rev (takeWhile (\<lambda>c. c \<noteq> CHR ''.'') (rev f)) in
      if length e = length f then [] else CHR ''.'' # e)"

definition hex_digit :: "nat \<Rightarrow> char" where
  "hex_digit n = ''0123456789ABCDEF'' ! n"

definition hex_lower :: "nat \<Rightarrow> char" where
  "hex_lower n = ''0123456789abcdef'' ! n"

text \<open>\<^verbatim>\<open>url.PathEscape\<close>: what may stand in one segment of a path stays.\<close>

definition segment_char :: "char \<Rightarrow> bool" where
  "segment_char c = (c \<in> set ''0123456789abcdefghijklmnopqrstuvwxyzABCDEFGHIJKLMNOPQRSTUVWXYZ-_.~$&+=:@'')"

definition PathEscape :: "string \<Rightarrow> string" where
  "PathEscape s =
     concat (map (\<lambda>c. if segment_char c then [c]
       else [CHR ''%'', hex_digit (of_char c div 16), hex_digit (of_char c mod 16)]) s)"

text \<open>\<^verbatim>\<open>hexEscapeNonASCII\<close> and \<^verbatim>\<open>htmlEscape\<close> of \<^verbatim>\<open>net/http\<close>.\<close>

definition hexEscapeNonASCII :: "string \<Rightarrow> string" where
  "hexEscapeNonASCII s =
     concat (map (\<lambda>c. let n = of_char c :: nat in
       if n \<ge> 128 then [CHR ''%'', hex_lower (n div 16), hex_lower (n mod 16)] else [c]) s)"

definition htmlEscape :: "string \<Rightarrow> string" where
  "htmlEscape s =
     concat (map (\<lambda>c. if c = CHR ''&'' then ''&amp;'' else if c = CHR ''<'' then ''&lt;'' else if c = CHR ''>'' then ''&gt;''
       else if c = CHR 0x22 then ''&#34;'' else if c = CHR 0x27 then ''&#39;'' else [c]) s)"

text \<open>The width of the first rune of a string in UTF-8; an invalid byte is a rune of its own.\<close>

fun in_range :: "nat \<Rightarrow> nat \<Rightarrow> char \<Rightarrow> bool" where
  "in_range a b c = (a \<le> of_char c \<and> of_char c \<le> b)"

definition rune_width :: "string \<Rightarrow> nat" where
  "rune_width s =
     (case s of
        c # d # e # f # _ \<Rightarrow>
          if in_range 0xC2 0xDF c \<and> in_range 0x80 0xBF d then 2
          else if (c = CHR 0xE0 \<and> in_range 0xA0 0xBF d \<or> c = CHR 0xED \<and> in_range 0x80 0x9F d
              \<or> in_range 0xE1 0xEF c \<and> c \<noteq> CHR 0xED \<and> in_range 0x80 0xBF d) \<and> in_range 0x80 0xBF e then 3
          else if (c = CHR 0xF0 \<and> in_range 0x90 0xBF d \<or> c = CHR 0xF4 \<and> in_range 0x80 0x8F d
              \<or> in_range 0xF1 0xF3 c \<and> in_range 0x80 0xBF d) \<and> in_range 0x80 0xBF e \<and> in_range 0x80 0xBF f then 4
          else 1
      | _ \<Rightarrow> 1)"

text \<open>\<^verbatim>\<open>onlyAscii.ReplaceAllLiteralString(s, "_")\<close>. The string is padded, so that a rune at its end is seen whole.\<close>

fun ascii_loop :: "nat \<Rightarrow> string \<Rightarrow> string" where
  "ascii_loop 0 s = []"
| "ascii_loop n [] = []"
| "ascii_loop (Suc n) (c # s) =
     (if of_char c < (128 :: nat) then c # ascii_loop n s
      else CHR ''_'' # ascii_loop n (drop (rune_width (c # s @ replicate 3 (CHR 0x00))) (c # s)))"

definition replace_non_ascii :: "string \<Rightarrow> string" where
  "replace_non_ascii s = ascii_loop (length s) s"

section \<open>Content paths\<close>

text \<open>\<^verbatim>\<open>go-path\<close>: parsing, which adds a missing namespace, and the segments of the clean path.\<close>

definition ParseCidToPath :: "hn_env \<Rightarrow> string \<Rightarrow> gw_err + string" where
  "ParseCidToPath env txt =
     (if txt = [] then Inl (ErrOther ''empty'')
      else case cid_Decode env txt of
        None \<Rightarrow> Inl (ErrOther ''invalid cid'')
      | Some c \<Rightarrow> Inr (''/ipfs/'' @ cid_String env c))"

definition ParsePath_abs :: "hn_env \<Rightarrow> string \<Rightarrow> string list \<Rightarrow> gw_err + string" where
  "ParsePath_abs env txt parts =
     (if parts ! 0 \<noteq> [] then
        (case cid_Decode env (parts ! 0) of
           None \<Rightarrow> Inl (ErrOther ''invalid cid'')
         | Some _ \<Rightarrow> Inr (''/ipfs/'' @ txt))
      else if length parts < 3 then Inl (ErrOther ''path does not begin with /'')
      else if parts ! 1 = ''ipfs'' \<or> parts ! 1 = ''ipld'' then
        (if parts ! 2 = [] then Inl (ErrOther ''not enough path components'')
         else case cid_Decode env (parts ! 2) of None \<Rightarrow> Inl (ErrOther ''invalid CID'') | Some _ \<Rightarrow> Inr txt)
      else if parts ! 1 = ''ipns'' then
        (if parts ! 2 = [] then Inl (ErrOther ''not enough path components'') else Inr txt)
      else Inl (ErrOther ''unknown namespace''))"

definition ParsePath :: "hn_env \<Rightarrow> string \<Rightarrow> gw_err + string" where
  "ParsePath env txt =
     (let parts = split_on (CHR ''/'') txt in
      if length parts = 1 then
        (case ParseCidToPath env txt of Inr kp \<Rightarrow> Inr kp | Inl _ \<Rightarrow> ParsePath_abs env txt parts)
      else ParsePath_abs env txt parts)"

definition Segments :: "string \<Rightarrow> string list" where
  "Segments p = (let segments = split_on (CHR ''/'') (path_Clean p) in
     if length (hd segments) = 0 then tl segments else segments)"

text \<open>\<^verbatim>\<open>ipath.New\<close>, \<^verbatim>\<open>IsValid\<close> and \<^verbatim>\<open>Join\<close>.\<close>

definition ipath_New :: "hn_env \<Rightarrow> string \<Rightarrow> string" where
  "ipath_New env p = (case ParsePath env p of Inr pp \<Rightarrow> pp | Inl _ \<Rightarrow> p)"

definition ipath_IsValid :: "hn_env \<Rightarrow> string \<Rightarrow> gw_err option" where
  "ipath_IsValid env p = (case ParsePath env p of Inr _ \<Rightarrow> None | Inl e \<Rightarrow> Some e)"

definition ipath_Join :: "string \<Rightarrow> string list \<Rightarrow> string" where
  "ipath_Join base a = join ''/'' (base # a)"


section \<open>The handler\<close>

record gw_request = request +
  Method :: string
  EscapedPath :: string
  RequestURI_Path :: "gw_err + string"
  Query :: "string \<rightharpoonup> string"
  req_hdr :: headers
  gw_hostname :: "string option"
  req_Body :: string

record resolved =
  res_cid :: cid
  res_String :: string

record 'r gw_file =
  file_Size :: "gw_err + int"
  file_reader :: 'r
  file_bytes :: "string \<times> gw_err option"
  isSymlink :: bool

record gw_dir =
  dir_Size :: "gw_err + int"
  dir_Entries :: "(string \<times> (gw_err + int)) list"
  dir_Err :: "gw_err option"

datatype 'r gw_node = FileNode "'r gw_file" | DirNode gw_dir | OtherNode

record directoryItem =
  di_Size :: string
  di_Name :: string
  di_Path :: string
  di_Hash :: string
  di_ShortHash :: string

record breadcrumb =
  bc_Name :: string
  bc_Path :: string

record listingTemplateData =
  GatewayURL :: string
  DNSLink :: bool
  Listing :: "directoryItem list"
  lst_Size :: string
  lst_Path :: string
  Breadcrumbs :: "breadcrumb list"
  BackLink :: string
  lst_Hash :: string

record redirectTemplateData =
  RedirectURL :: string
  SuggestedPath :: string
  ErrorMsg :: string

record GatewayConfig =
  Headers :: "(string \<times> string list) list"
  Writable :: bool
  PathPrefixes :: "string list"

record ('r, 's, 'm) gw_env =
  hn :: hn_env
  BindataVersionHash :: string
  url_Parse :: "string \<Rightarrow> gw_err + url"
  Query_Encode :: "string \<Rightarrow> string"
  ResolvePath :: "string \<Rightarrow> gw_err + resolved"
  Unixfs_Get :: "string \<Rightarrow> gw_err + 'r gw_node"
  TypeByExtension :: "string \<Rightarrow> string"
  DetectReader :: "'r lazySeeker \<Rightarrow> (gw_err + string) \<times> 'r lazySeeker"
  ServeContent :: "gw_request \<Rightarrow> headers \<Rightarrow> string \<Rightarrow> int option \<Rightarrow> 'r lazySeeker \<Rightarrow> nat \<times> headers \<times> string"
  humanize_Bytes :: "int \<Rightarrow> string"
  Execute_listing :: "listingTemplateData \<Rightarrow> string \<times> gw_err option"
  Execute_redirect :: "redirectTemplateData \<Rightarrow> string \<times> gw_err option"
  Unixfs_Add :: "string \<Rightarrow> 's \<Rightarrow> (gw_err + cid) \<times> 's"
  Dag_Get :: "cid \<Rightarrow> 's \<Rightarrow> gw_err + bool"
  mfs_NewRoot :: "cid \<Rightarrow> 's \<Rightarrow> gw_err + 'm"
  mfs_Mkdir :: "'m \<Rightarrow> string \<Rightarrow> 's \<Rightarrow> gw_err option \<times> 'm \<times> 's"
  mfs_Lookup :: "'m \<Rightarrow> string \<Rightarrow> 's \<Rightarrow> gw_err + bool"
  dir_Unlink :: "'m \<Rightarrow> string \<Rightarrow> string \<Rightarrow> 's \<Rightarrow> gw_err option \<times> 'm \<times> 's"
  dir_AddChild :: "'m \<Rightarrow> string \<Rightarrow> string \<Rightarrow> cid \<Rightarrow> 's \<Rightarrow> gw_err option \<times> 'm \<times> 's"
  root_GetNode :: "'m \<Rightarrow> 's \<Rightarrow> (gw_err + cid) \<times> 's"

text \<open>\<^verbatim>\<open>http.Redirect\<close>: a URL without scheme and host is made absolute and cleaned, its query is not.\<close>

definition clean_location :: "string \<Rightarrow> string \<Rightarrow> string" where
  "clean_location oldpath u =
     (let u = (if u = [] \<or> hd u \<noteq> CHR ''/'' then fst (path_Split (if oldpath = [] then ''/'' else oldpath)) @ u else u);
          p = takeWhile (\<lambda>c. c \<noteq> CHR ''?'') u;
          query = drop (length p) u;
          c = path_Clean p
      in (if suffix ''/'' p \<and> \<not> suffix ''/'' c then c @ ''/'' else c) @ query)"

fun statusText :: "nat \<Rightarrow> string" where
  "statusText code = (if code = 201 then ''Created'' else if code = 301 then ''Moved Permanently''
     else if code = 302 then ''Found'' else [])"

definition http_Redirect :: "('r, 's, 'm) gw_env \<Rightarrow> gw_request \<Rightarrow> string \<Rightarrow> nat \<Rightarrow> resp \<Rightarrow> resp" where
  "http_Redirect env r u code w =
     (let u = (case url_Parse env u of
                 Inr x \<Rightarrow> if u_Scheme x = [] \<and> u_Host x = [] then clean_location (Path r) u else u
               | Inl _ \<Rightarrow> u);
          hadCT = (hdr w ''Content-Type'' \<noteq> None);
          w = HSet ''Location'' (hexEscapeNonASCII u) w;
          w = (if \<not> hadCT \<and> (Method r = ''GET'' \<or> Method r = ''HEAD'') then HSet ''Content-Type'' ''text/html; charset=utf-8'' w else w);
          w = WriteHeader code w
      in if \<not> hadCT \<and> Method r = ''GET''
         then resp_Write (''<a href='' @ [CHR 0x22] @ htmlEscape u @ [CHR 0x22] @ ''>'' @ statusText code @ ''</a>.'' @ newline @ newline) w
         else w)"

definition addUserHeaders :: "GatewayConfig \<Rightarrow> resp \<Rightarrow> resp" where
  "addUserHeaders c w = w\<lparr>hdr := hdr w ++ map_of (Headers c)\<rparr>"

definition optionsHandler :: "GatewayConfig \<Rightarrow> resp \<Rightarrow> resp" where
  "optionsHandler c w = addUserHeaders c w"

definition getFilename :: "string \<Rightarrow> string" where
  "getFilename s =
     (if (prefix ''/ipfs/'' s \<or> prefix ''/ipns/'' s) \<and> length (filter (\<lambda>c. c = CHR ''/'') (path_Clean s)) \<le> 2 then []
      else path_Base s)"

text \<open>The accepted types: \<^verbatim>\<open>SplitN\<close> with 1 does not split.\<close>

fun preferred404Filename :: "string list \<Rightarrow> gw_err + string \<times> string" where
  "preferred404Filename [] = Inl (ErrOther ''there is no 404 file for the requested content types'')"
| "preferred404Filename (acceptHeader # acceptHeaders) =
     (if list_ex (\<lambda>spec. hd (split_n 1 (CHR '';'') spec) \<in> {''*/*'', ''text/*'', ''text/html''}) (split_on (CHR '','') acceptHeader)
      then Inr (''ipfs-404.html'', ''text/html'') else preferred404Filename acceptHeaders)"

text \<open>The loop over shorter and shorter paths. \<^verbatim>\<open>append(pathComponents[0:idx], filename404)\<close> writes into the array
  when there is room, which is so from the second round on.\<close>

fun search_loop :: "('r, 's, 'm) gw_env \<Rightarrow> string \<Rightarrow> nat \<Rightarrow> string list \<Rightarrow> resolved option" where
  "search_loop env filename404 0 pathComponents = None"
| "search_loop env filename404 (Suc i) pathComponents =
     (let idx = Suc i in
      if idx < 3 then None
      else
        let joined = take idx pathComponents @ [filename404];
            pathComponents = (if idx < length pathComponents then pathComponents[idx := filename404] else pathComponents);
            parsed404Path = ipath_New (hn env) (''/'' @ path_Join joined)
        in if ipath_IsValid (hn env) parsed404Path \<noteq> None then None
           else case ResolvePath env parsed404Path of
             Inl _ \<Rightarrow> search_loop env filename404 i pathComponents
           | Inr resolvedPath \<Rightarrow> Some resolvedPath)"

definition searchUpTreeFor404 :: "('r, 's, 'm) gw_env \<Rightarrow> gw_request \<Rightarrow> string \<Rightarrow> gw_err + resolved \<times> string" where
  "searchUpTreeFor404 env r parsedPath =
     bind_res (preferred404Filename (case req_hdr r ''Accept'' of None \<Rightarrow> [] | Some vs \<Rightarrow> vs)) (\<lambda>(filename404, ctype).
       let pathComponents = split_on (CHR ''/'') parsedPath in
       case search_loop env filename404 (length pathComponents) pathComponents of
         Some resolvedPath \<Rightarrow> Inr (resolvedPath, ctype)
       | None \<Rightarrow> Inl (ErrOther ''no pretty 404 in any parent folder''))"

text \<open>\<^verbatim>\<open>io.CopyN\<close> to the response.\<close>

definition CopyN :: "'r gw_file \<Rightarrow> int \<Rightarrow> resp \<Rightarrow> bool \<times> resp" where
  "CopyN f n w =
     (let d = fst (file_bytes f); out = take (nat n) d in
      (int (length d) \<ge> n, if out = [] then w else resp_Write out w))"

definition servePretty404IfPresent :: "('r, 's, 'm) gw_env \<Rightarrow> gw_request \<Rightarrow> string \<Rightarrow> resp \<Rightarrow> bool \<times> resp" where
  "servePretty404IfPresent env r parsedPath w =
     (case searchUpTreeFor404 env r parsedPath of
        Inl _ \<Rightarrow> (False, w)
      | Inr (resolved404Path, ctype) \<Rightarrow>
          (case Unixfs_Get env (res_String resolved404Path) of
             Inr (FileNode f) \<Rightarrow>
               (case file_Size f of
                  Inl _ \<Rightarrow> (False, w)
                | Inr sz \<Rightarrow>
                    CopyN f sz (WriteHeader 404 (HSet ''Content-Length'' (show_int sz) (HSet ''Content-Type'' ctype w))))
           | _ \<Rightarrow> (False, w)))"

definition serveFile :: "('r, 's, 'm) gw_env \<Rightarrow> gw_request \<Rightarrow> string \<Rightarrow> int option \<Rightarrow> 'r gw_file \<Rightarrow> resp \<Rightarrow> resp" where
  "serveFile env r name modtime file w =
     (case file_Size file of
        Inl _ \<Rightarrow> http_Error ''cannot serve files with unknown sizes'' 502 w
      | Inr sz \<Rightarrow>
          let content = \<lparr>reader = file_reader file, ls_size = sz, offset = 0, realOffset = 0\<rparr>;
              send = (\<lambda>ctype content w.
                (let w = HSet ''Content-Type'' ctype w;
                     (code, h, b) = ServeContent env r (hdr w) name modtime content
                 in resp_Write b (statusResponseWriter_WriteHeader code (w\<lparr>hdr := h\<rparr>))));
              strip = (\<lambda>ctype. if prefix ''text/html;'' ctype then ''text/html'' else ctype)
          in if isSymlink file then send ''inode/symlink'' content w
             else
               let ctype = TypeByExtension env (path_Ext name) in
               if ctype = [] then
                 (case DetectReader env content of
                    (Inl e, _) \<Rightarrow> http_Error (''cannot detect content-type: '' @ gw_err_msg e) 500 w
                  | (Inr mimeType, content) \<Rightarrow>
                      (case lazy_Seek 0 SeekStart content of
                         ((Some _, _), _) \<Rightarrow> http_Error ''seeker cannot seek'' 500 w
                       | ((None, _), content) \<Rightarrow> send (strip mimeType) content w))
               else send (strip ctype) content w)"

section \<open>Directory listings\<close>

definition shortHash :: "string \<Rightarrow> string" where
  "shortHash hash =
     (if length hash \<le> 8 then hash
      else take 4 hash @ [CHR 0xE2, CHR 0x80, CHR 0xA6] @ drop (length hash - 4) hash)"

definition hasDNSLinkOrigin :: "string \<Rightarrow> string \<Rightarrow> bool" where
  "hasDNSLinkOrigin gwURL path =
     (if gwURL \<noteq> [] then
        let fqdn = stripPort (if prefix ''//'' gwURL then drop 2 gwURL else gwURL) in prefix (''/ipns/'' @ fqdn) path
      else False)"

definition crumbs_of :: "string list \<Rightarrow> breadcrumb list" where
  "crumbs_of segs =
     map (\<lambda>i. if i = 0 then \<lparr>bc_Name = segs ! i, bc_Path = []\<rparr>
              else \<lparr>bc_Name = segs ! i, bc_Path = ''/'' @ join ''/'' (take (Suc i) segs)\<rparr>) [0..<length segs]"

text \<open>\<open>None\<close> is the panic when the path has only one segment.\<close>

definition breadcrumbs :: "hn_env \<Rightarrow> string \<Rightarrow> bool \<Rightarrow> breadcrumb list option" where
  "breadcrumbs env urlPath dnslinkOrigin =
     (case ParsePath env urlPath of
        Inl _ \<Rightarrow> Some []
      | Inr p \<Rightarrow>
          let segs = Segments p in
          if length segs < 2 then None
          else
            let contentRoot = segs ! 1; ret = crumbs_of segs in
            if dnslinkOrigin then
              let pre = ''/ipns/'' @ contentRoot;
                  ret = map (\<lambda>crumb. if prefix pre (bc_Path crumb) then crumb\<lparr>bc_Path := drop (length pre) (bc_Path crumb)\<rparr> else crumb) ret
              in Some (ret[1 := (ret ! 1)\<lparr>bc_Path := ''/''\<rparr>])
            else Some ret)"

fun dir_items :: "('r, 's, 'm) gw_env \<Rightarrow> string \<Rightarrow> string \<Rightarrow> (string \<times> (gw_err + int)) list \<Rightarrow> gw_err + directoryItem list" where
  "dir_items env resolvedPath originalUrlPath [] = Inr []"
| "dir_items env resolvedPath originalUrlPath ((name, sz) # es) =
     (let sizeText = (case sz of Inr s \<Rightarrow> humanize_Bytes env s | Inl _ \<Rightarrow> ''?'') in
      bind_res (ResolvePath env (ipath_Join resolvedPath [name])) (\<lambda>rp.
        let hash = cid_String (hn env) (res_cid rp) in
        bind_res (dir_items env resolvedPath originalUrlPath es) (\<lambda>rest.
          Inr (\<lparr>di_Size = sizeText, di_Name = name, di_Path = path_Join [originalUrlPath, name], di_Hash = hash,
                di_ShortHash = shortHash hash\<rparr> # rest))))"

definition back_link :: "string \<Rightarrow> string \<Rightarrow> string" where
  "back_link urlPath originalUrlPath =
     (let pathSplit = split_on (CHR ''/'') urlPath in
      if length pathSplit = 3 then originalUrlPath
      else if length pathSplit = 4 \<and> pathSplit ! 3 = [] then originalUrlPath
      else if suffix ''/'' originalUrlPath then originalUrlPath @ ''./..'' else originalUrlPath @ ''/..'')"

definition serve_listing :: "('r, 's, 'm) gw_env \<Rightarrow> gw_request \<Rightarrow> resolved \<Rightarrow> string \<Rightarrow> gw_dir \<Rightarrow> resp \<Rightarrow> resp" where
  "serve_listing env r resolvedPath originalUrlPath dir w =
     (case dir_items env (res_String resolvedPath) originalUrlPath (dir_Entries dir) of
        Inl e \<Rightarrow> internalWebError (Some e) w
      | Inr dirListing \<Rightarrow>
          (case dir_Err dir of
             Some e \<Rightarrow> internalWebError (Some e) w
           | None \<Rightarrow>
               let gwURL = (case gw_hostname r of Some h \<Rightarrow> ''//'' @ h | None \<Rightarrow> []);
                   dnslink = hasDNSLinkOrigin gwURL (Path r)
               in case breadcrumbs (hn env) (Path r) dnslink of
                 None \<Rightarrow> w
               | Some crumbs \<Rightarrow>
                   (case Execute_listing env \<lparr>GatewayURL = gwURL, DNSLink = dnslink, Listing = dirListing,
                       lst_Size = (case dir_Size dir of Inr s \<Rightarrow> humanize_Bytes env s | Inl _ \<Rightarrow> ''?''),
                       lst_Path = Path r, Breadcrumbs = crumbs, BackLink = back_link (Path r) originalUrlPath,
                       lst_Hash = cid_String (hn env) (res_cid resolvedPath)\<rparr> of
                      (out, e) \<Rightarrow>
                        let w = (if out = [] then w else resp_Write out w) in
                        case e of None \<Rightarrow> w | Some e \<Rightarrow> internalWebError (Some e) w)))"


section \<open>Reading\<close>

definition gateway_prefix :: "GatewayConfig \<Rightarrow> gw_request \<Rightarrow> string" where
  "gateway_prefix c r =
     (let prfx = HGet (req_hdr r) ''X-Ipfs-Gateway-Prefix'' in
      if length prfx > 0 \<and> list_ex (\<lambda>p. prfx = p \<or> prefix (p @ ''/'') prfx) (PathPrefixes c) then prfx else [])"

definition Query_Get :: "gw_request \<Rightarrow> string \<Rightarrow> string" where
  "Query_Get r k = (case Query r k of None \<Rightarrow> [] | Some v \<Rightarrow> v)"

text \<open>The regular expression \<^verbatim>\<open>^/ip[fn]s/[^/]+$\<close>.\<close>

definition namespace_root :: "string \<Rightarrow> bool" where
  "namespace_root p =
     ((prefix ''/ipfs/'' p \<or> prefix ''/ipns/'' p) \<and> drop 6 p \<noteq> [] \<and> CHR ''/'' \<notin> set (drop 6 p))"

definition redirect_uri :: "('r, 's, 'm) gw_env \<Rightarrow> gw_request \<Rightarrow> string \<Rightarrow> string \<Rightarrow> resp \<Rightarrow> resp" where
  "redirect_uri env r pre uriParam w =
     (case url_Parse env uriParam of
        Inl e \<Rightarrow> webError ''failed to parse uri query parameter'' (Some e) 400 w
      | Inr u \<Rightarrow>
          if u_Scheme u \<noteq> ''ipfs'' \<and> u_Scheme u \<noteq> ''ipns''
          then webError ''uri query parameter scheme must be ipfs or ipns'' None 400 w
          else
            let p = u_Path u @ (if u_RawQuery u \<noteq> [] then ''?'' @ u_RawQuery u else []) in
            http_Redirect env r (path_Join [''/'', pre, u_Scheme u, u_Host u, p]) 301 w)"

definition fixupSuperfluousNamespace :: "('r, 's, 'm) gw_env \<Rightarrow> string \<Rightarrow> string \<Rightarrow> resp \<Rightarrow> bool \<times> resp" where
  "fixupSuperfluousNamespace env urlPath urlQuery w =
     (if \<not> (prefix ''/ipfs/ipfs/'' urlPath \<or> prefix ''/ipfs/ipns/'' urlPath) then (False, w)
      else
        let intendedPath = ipath_New (hn env) (drop 5 urlPath) in
        if ipath_IsValid (hn env) intendedPath \<noteq> None then (False, w)
        else
          let intendedURL = intendedPath @ (if urlQuery \<noteq> [] then ''?'' @ Query_Encode env urlQuery else []) in
          case Execute_redirect env \<lparr>RedirectURL = intendedURL, SuggestedPath = intendedPath,
              ErrorMsg = ''invalid path: '' @ urlPath @ '' should be '' @ intendedPath\<rparr> of
            (out, e) \<Rightarrow> (e = None, let w = WriteHeader 400 w in if out = [] then w else resp_Write out w))"

text \<open>The validator of a resource: directories have one of their own, which depends on the listing template.\<close>

definition quoted :: "string \<Rightarrow> string" where
  "quoted s = [CHR 0x22] @ s @ [CHR 0x22]"

definition responseEtag :: "('r, 's, 'm) gw_env \<Rightarrow> bool \<Rightarrow> cid \<Rightarrow> string" where
  "responseEtag env isDir c =
     (if isDir \<and> BindataVersionHash env \<noteq> []
      then quoted (''DirIndex-'' @ BindataVersionHash env @ ''_CID-'' @ cid_String (hn env) c)
      else quoted (cid_String (hn env) c))"

definition is_dir :: "'r gw_node \<Rightarrow> bool" where
  "is_dir n = (case n of DirNode _ \<Rightarrow> True | _ \<Rightarrow> False)"

definition immutable :: string where
  "immutable = ''public, max-age=29030400, immutable''"

definition serve_file_node :: "('r, 's, 'm) gw_env \<Rightarrow> gw_request \<Rightarrow> 'r gw_file \<Rightarrow> resp \<Rightarrow> resp" where
  "serve_file_node env r f w =
     (let long = prefix ''/ipfs/'' (Path r);
          w = (if long then HSet ''Cache-Control'' immutable w else w);
          modtime = (if long then Some 1 else None);
          urlFilename = Query_Get r ''filename''
      in if urlFilename \<noteq> [] then
           (let disposition = (if Query_Get r ''download'' = ''true'' then ''attachment'' else ''inline'');
                w = HSet ''Content-Disposition'' (disposition @ ''; filename='' @ quoted (PathEscape (replace_non_ascii urlFilename))
                  @ ''; filename*=UTF-8'' @ [CHR 0x27, CHR 0x27] @ PathEscape urlFilename) w
            in serveFile env r urlFilename modtime f w)
         else serveFile env r (getFilename (Path r)) modtime f w)"

definition serve_dir_node :: "('r, 's, 'm) gw_env \<Rightarrow> gw_request \<Rightarrow> resolved \<Rightarrow> string \<Rightarrow> gw_dir \<Rightarrow> resp \<Rightarrow> resp" where
  "serve_dir_node env r resolvedPath originalUrlPath dir w =
     (case Unixfs_Get env (ipath_Join (res_String resolvedPath) [''index.html'']) of
        Inr idx \<Rightarrow>
          if last (Path r) \<noteq> CHR ''/'' \<and> Query_Get r ''go-get'' \<noteq> ''1''
          then http_Redirect env r (originalUrlPath @ ''/'' @ (if RawQuery r \<noteq> [] then ''?'' @ RawQuery r else [])) 302 w
          else (case idx of
                  FileNode f \<Rightarrow> serveFile env r ''index.html'' None f w
                | _ \<Rightarrow> internalWebError (Some (ErrOther ''file is not a reader'')) w)
      | Inl (ErrNoLink _) \<Rightarrow>
          if HGet (hdr w) ''Location'' \<noteq> [] then WriteHeader 301 w
          else
            let w = HSet ''Content-Type'' ''text/html'' w in
            if Method r = ''HEAD'' then w else serve_listing env r resolvedPath originalUrlPath dir w
      | Inl e \<Rightarrow> internalWebError (Some e) w)"

definition serve_resolved :: "('r, 's, 'm) gw_env \<Rightarrow> GatewayConfig \<Rightarrow> gw_request \<Rightarrow> resolved \<Rightarrow> string \<Rightarrow> resp \<Rightarrow> resp" where
  "serve_resolved env c r resolvedPath originalUrlPath w =
     (case Unixfs_Get env (res_String resolvedPath) of
        Inl e \<Rightarrow> webError (''ipfs cat '' @ EscapedPath r) (Some e) 404 w
      | Inr dr \<Rightarrow>
          let etag = responseEtag env (is_dir dr) (res_cid resolvedPath);
              inm = HGet (req_hdr r) ''If-None-Match''
          in if inm = etag \<or> inm = ''W/'' @ etag then WriteHeader 304 w
             else
               let w = HSet ''Etag'' etag (HSet ''X-IPFS-Path'' (Path r) (addUserHeaders c w)) in
               case dr of
                 FileNode f \<Rightarrow> serve_file_node env r f w
               | DirNode dir \<Rightarrow> serve_dir_node env r resolvedPath originalUrlPath dir w
               | OtherNode \<Rightarrow> internalWebError (Some (ErrOther ''unsupported file type'')) w)"

definition getOrHeadHandler :: "('r, 's, 'm) gw_env \<Rightarrow> GatewayConfig \<Rightarrow> gw_request \<Rightarrow> resp \<Rightarrow> resp" where
  "getOrHeadHandler env c r w =
     (let pre = gateway_prefix c r in
      case RequestURI_Path r of
        Inl e \<Rightarrow> webError ''failed to parse request path'' (Some e) 500 w
      | Inr p \<Rightarrow>
          let originalUrlPath = pre @ p; uriParam = Query_Get r ''uri'' in
          if uriParam \<noteq> [] then redirect_uri env r pre uriParam w
          else if HGet (req_hdr r) ''Service-Worker'' = ''script'' \<and> namespace_root (Path r)
          then webError ''navigator.serviceWorker'' (Some (ErrOther ''registration is not allowed for this scope'')) 400 w
          else
            let parsedPath = ipath_New (hn env) (Path r) in
            case ipath_IsValid (hn env) parsedPath of
              Some pathErr \<Rightarrow>
                (case (if pre = [] then fixupSuperfluousNamespace env (Path r) (RawQuery r) w else (False, w)) of
                   (True, w) \<Rightarrow> w
                 | (False, w) \<Rightarrow> webError ''invalid ipfs path'' (Some pathErr) 400 w)
            | None \<Rightarrow>
                (case ResolvePath env parsedPath of
                   Inr resolvedPath \<Rightarrow> serve_resolved env c r resolvedPath originalUrlPath w
                 | Inl ErrOffline \<Rightarrow> webError (''ipfs resolve -r '' @ EscapedPath r) (Some ErrOffline) 503 w
                 | Inl e \<Rightarrow>
                     (case servePretty404IfPresent env r parsedPath w of
                        (True, w) \<Rightarrow> w
                      | (False, w) \<Rightarrow> webError (''ipfs resolve -r '' @ EscapedPath r) (Some e) 404 w)))"

section \<open>Writing\<close>

text \<open>\<open>None\<close> is the panic when the clean path has one segment only.\<close>

definition parseIpfsPath :: "hn_env \<Rightarrow> string \<Rightarrow> (gw_err + cid \<times> string) option" where
  "parseIpfsPath env p =
     (case ParsePath env p of
        Inl e \<Rightarrow> Some (Inl e)
      | Inr rootPath \<Rightarrow>
          let rsegs = Segments rootPath in
          if hd rsegs \<noteq> ''ipfs'' then Some (Inl (ErrOther ''WritableGateway: only ipfs paths supported''))
          else if length rsegs < 2 then None
          else (case cid_Decode env (rsegs ! 1) of
                  None \<Rightarrow> Some (Inl (ErrOther ''invalid cid''))
                | Some rootCid \<Rightarrow> Some (Inr (rootCid, join ''/'' (drop 2 rsegs)))))"

definition postHandler :: "('r, 's, 'm) gw_env \<Rightarrow> GatewayConfig \<Rightarrow> gw_request \<Rightarrow> resp \<Rightarrow> 's \<Rightarrow> resp \<times> 's" where
  "postHandler env c r w s =
     (case Unixfs_Add env (req_Body r) s of
        (Inl e, s) \<Rightarrow> (internalWebError (Some e) w, s)
      | (Inr p, s) \<Rightarrow>
          (http_Redirect env r (''/ipfs/'' @ cid_String (hn env) p) 201
             (HSet ''IPFS-Hash'' (cid_String (hn env) p) (addUserHeaders c w)), s))"

text \<open>Linking the new file into the mutable root, and the answer.\<close>

definition put_link :: "('r, 's, 'm) gw_env \<Rightarrow> GatewayConfig \<Rightarrow> gw_request \<Rightarrow> 'm \<Rightarrow> string \<Rightarrow> cid \<Rightarrow> resp \<Rightarrow> 's \<Rightarrow> resp \<times> 's" where
  "put_link env c r root newPath newFile w s =
     (case path_Split newPath of (newDirectory, newFileName) \<Rightarrow>
        case (if newDirectory \<noteq> [] then mfs_Mkdir env root newDirectory s else (None, root, s)) of
          (Some e, root, s) \<Rightarrow> (webError ''WritableGateway: failed to create MFS directory'' (Some e) 500 w, s)
        | (None, root, s) \<Rightarrow>
            (case mfs_Lookup env root newDirectory s of
               Inl e \<Rightarrow> (webError ''WritableGateway: failed to lookup directory'' (Some e) 500 w, s)
             | Inr False \<Rightarrow> (http_Error ''WritableGateway: target directory is not a directory'' 400 w, s)
             | Inr True \<Rightarrow>
                 (case dir_Unlink env root newDirectory newFileName s of
                    (ue, root, s) \<Rightarrow>
                      if ue \<noteq> None \<and> ue \<noteq> Some ErrNotExist
                      then (webError ''WritableGateway: failed to replace existing file'' ue 400 w, s)
                      else (case dir_AddChild env root newDirectory newFileName newFile s of
                          (Some e, root, s) \<Rightarrow> (webError ''WritableGateway: failed to link file into directory'' (Some e) 500 w, s)
                        | (None, root, s) \<Rightarrow>
                            (case root_GetNode env root s of
                               (Inl e, s) \<Rightarrow> (webError ''WritableGateway: failed to finalize'' (Some e) 500 w, s)
                             | (Inr newcid, s) \<Rightarrow>
                                 (http_Redirect env r (path_Join [''/ipfs/'', cid_String (hn env) newcid, newPath]) 201
                                    (HSet ''IPFS-Hash'' (cid_String (hn env) newcid) (addUserHeaders c w)), s))))))"

definition putHandler :: "('r, 's, 'm) gw_env \<Rightarrow> GatewayConfig \<Rightarrow> gw_request \<Rightarrow> resp \<Rightarrow> 's \<Rightarrow> resp \<times> 's" where
  "putHandler env c r w s =
     (case parseIpfsPath (hn env) (Path r) of
        None \<Rightarrow> (w, s)
      | Some (Inl e) \<Rightarrow> (webError ''WritableGateway: failed to parse the path'' (Some e) 400 w, s)
      | Some (Inr (rootCid, newPath)) \<Rightarrow>
          if newPath = [] \<or> newPath = ''/'' then (http_Error ''WritableGateway: empty path'' 400 w, s)
          else
            (case Dag_Get env rootCid s of
               Inl e \<Rightarrow> (webError ''WritableGateway: Could not create DAG from request'' (Some e) 500 w, s)
             | Inr False \<Rightarrow> (webError ''Cannot read non protobuf nodes through gateway'' (Some (ErrOther ''expected protobuf dag node'')) 400 w, s)
             | Inr True \<Rightarrow>
                 (case Unixfs_Add env (req_Body r) s of
                    (Inl e, s) \<Rightarrow> (webError ''WritableGateway: could not create DAG from request'' (Some e) 500 w, s)
                  | (Inr newFile, s) \<Rightarrow>
                      (case Dag_Get env newFile s of
                         Inl e \<Rightarrow> (webError ''WritableGateway: failed to resolve new file'' (Some e) 500 w, s)
                       | Inr _ \<Rightarrow>
                           (case mfs_NewRoot env rootCid s of
                              Inl e \<Rightarrow> (webError ''WritableGateway: failed to create MFS root'' (Some e) 400 w, s)
                            | Inr root \<Rightarrow> put_link env c r root newPath newFile w s)))))"

text \<open>When the last step fails the handler does not return but goes on with a nil node and panics.\<close>

definition deleteHandler :: "('r, 's, 'm) gw_env \<Rightarrow> GatewayConfig \<Rightarrow> gw_request \<Rightarrow> resp \<Rightarrow> 's \<Rightarrow> resp \<times> 's" where
  "deleteHandler env c r w s =
     (case parseIpfsPath (hn env) (Path r) of
        None \<Rightarrow> (w, s)
      | Some (Inl e) \<Rightarrow> (webError ''WritableGateway: failed to parse the path'' (Some e) 400 w, s)
      | Some (Inr (rootCid, newPath)) \<Rightarrow>
          if newPath = [] \<or> newPath = ''/'' then (http_Error ''WritableGateway: empty path'' 400 w, s)
          else
            (case path_Split newPath of (directory, filename) \<Rightarrow>
             case Dag_Get env rootCid s of
               Inl e \<Rightarrow> (webError ''WritableGateway: failed to resolve root CID'' (Some e) 500 w, s)
             | Inr False \<Rightarrow> (http_Error ''WritableGateway: empty path'' 500 w, s)
             | Inr True \<Rightarrow>
                 (case mfs_NewRoot env rootCid s of
                    Inl e \<Rightarrow> (webError ''WritableGateway: failed to construct the MFS root'' (Some e) 400 w, s)
                  | Inr root \<Rightarrow>
                      (case mfs_Lookup env root directory s of
                         Inl e \<Rightarrow> (webError ''WritableGateway: failed to look up parent'' (Some e) 500 w, s)
                       | Inr False \<Rightarrow> (http_Error ''WritableGateway: parent is not a directory'' 500 w, s)
                       | Inr True \<Rightarrow>
                           (case dir_Unlink env root directory filename s of
                              (ue, root, s) \<Rightarrow>
                                if ue \<noteq> None \<and> ue \<noteq> Some ErrNotExist
                                then (webError ''WritableGateway: failed to remove file'' None 500 w, s)
                                else (case root_GetNode env root s of
                                    (Inl e, s) \<Rightarrow> (webError ''WritableGateway: failed to finalize'' (Some e) 500 w, s)
                                  | (Inr ncid, s) \<Rightarrow>
                                      (http_Redirect env r (path_Join [''/ipfs/'' @ cid_String (hn env) ncid, directory]) 201
                                         (HSet ''IPFS-Hash'' (cid_String (hn env) ncid) (addUserHeaders c w)), s)))))))"

definition ServeHTTP :: "('r, 's, 'm) gw_env \<Rightarrow> GatewayConfig \<Rightarrow> gw_request \<Rightarrow> resp \<Rightarrow> 's \<Rightarrow> resp \<times> 's" where
  "ServeHTTP env c r w s =
     (if Writable c \<and> Method r = ''POST'' then postHandler env c r w s
      else if Writable c \<and> Method r = ''PUT'' then putHandler env c r w s
      else if Writable c \<and> Method r = ''DELETE'' then deleteHandler env c r w s
      else if Method r = ''GET'' \<or> Method r = ''HEAD'' then (getOrHeadHandler env c r w, s)
      else if Method r = ''OPTIONS'' then (optionsHandler c w, s)
      else
        let errmsg = ''Method '' @ Method r @ '' not allowed: '' in
        if \<not> Writable c then
          (http_Error (errmsg @ ''read only access'') 405
             (HAdd ''Allow'' ''OPTIONS'' (HAdd ''Allow'' ''HEAD'' (HAdd ''Allow'' ''GET'' w))), s)
        else (http_Error (errmsg @ ''bad request for '' @ Path r) 400 w, s))"


section \<open>Which responses may be cached for ever\<close>

lemma HSet_simps [simp]:
  "hdr (HSet k v w) = (hdr w)(k \<mapsto> [v])" "sent (HSet k v w) = sent w" "body (HSet k v w) = body w"
  by (simp_all add: HSet_def)

lemma WriteHeader_simps [simp]:
  "hdr (WriteHeader code w) = hdr w" "body (WriteHeader code w) = body w"
  "sent (WriteHeader code w) = (case sent w of None \<Rightarrow> Some (code, hdr w) | Some x \<Rightarrow> Some x)"
  by (auto simp: WriteHeader_def split: option.splits)

lemma resp_Write_simps [simp]:
  "hdr (resp_Write s w) = hdr w" "body (resp_Write s w) = body w @ s" "sent (resp_Write s w) = sent (WriteHeader 200 w)"
  by (simp_all add: resp_Write_def Let_def)

text \<open>A header that is not in the response, sent or not.\<close>

definition lacks :: "string \<Rightarrow> resp \<Rightarrow> bool" where
  "lacks k w = (hdr w k = None \<and> (case sent w of None \<Rightarrow> True | Some (_, h) \<Rightarrow> h k = None))"

named_theorems lacks_intros \<open>steps that do not add a header\<close>

lemma lacks_HSet [lacks_intros]: "k' \<noteq> k \<Longrightarrow> lacks k w \<Longrightarrow> lacks k (HSet k' v w)"
  by (auto simp: lacks_def split: option.splits)

lemma lacks_HAdd [lacks_intros]: "k' \<noteq> k \<Longrightarrow> lacks k w \<Longrightarrow> lacks k (HAdd k' v w)"
  by (auto simp: lacks_def HAdd_def split: option.splits)

lemma lacks_WriteHeader [lacks_intros]: "lacks k w \<Longrightarrow> lacks k (WriteHeader code w)"
  by (auto simp: lacks_def split: option.splits)

lemma lacks_Write [lacks_intros]: "lacks k w \<Longrightarrow> lacks k (resp_Write s w)"
  by (auto simp: lacks_def split: option.splits)

lemma lacks_user [lacks_intros]: "map_of (Headers c) k = None \<Longrightarrow> lacks k w \<Longrightarrow> lacks k (addUserHeaders c w)"
  by (auto simp: lacks_def addUserHeaders_def map_add_def split: option.splits)

lemma finish_lacks: "lacks k w \<Longrightarrow> finish w = (code, h, b) \<Longrightarrow> h k = None"
  by (auto simp: lacks_def finish_def split: option.splits)

text \<open>The headers that only this handler sets.\<close>

definition own :: "string \<Rightarrow> bool" where
  "own k = (k \<in> {''Cache-Control'', ''Etag''})"

lemma own_neq:
  assumes "own k"
  shows "''Content-Type'' \<noteq> k" "''X-Content-Type-Options'' \<noteq> k" "''Location'' \<noteq> k" "''Allow'' \<noteq> k" "''IPFS-Hash'' \<noteq> k"
    "''Content-Length'' \<noteq> k" "''X-IPFS-Path'' \<noteq> k" "''Content-Disposition'' \<noteq> k"
  using assms by (auto simp: own_def)

lemma lacks_Error [lacks_intros]:
  assumes "own k" "lacks k w"
  shows "lacks k (http_Error msg code w)"
  unfolding http_Error_def by (intro lacks_intros assms own_neq [OF assms(1)])

lemma lacks_webError [lacks_intros]:
  "own k \<Longrightarrow> lacks k w \<Longrightarrow> lacks k (webError msg e code w)"
  "own k \<Longrightarrow> lacks k w \<Longrightarrow> lacks k (internalWebError e w)"
  by (simp_all add: webError_def internalWebError_def webErrorWithCode_def lacks_Error)

lemma lacks_Redirect [lacks_intros]:
  assumes "own k" "lacks k w"
  shows "lacks k (http_Redirect env r u code w)"
  unfolding http_Redirect_def Let_def using assms own_neq [OF assms(1)] by (auto intro!: lacks_intros)

lemma lacks_uri [lacks_intros]: "own k \<Longrightarrow> lacks k w \<Longrightarrow> lacks k (redirect_uri env r pre u w)"
  unfolding redirect_uri_def Let_def by (auto intro!: lacks_intros split: sum.split)

lemma lacks_fixup: "lacks k w \<Longrightarrow> fixupSuperfluousNamespace env p q w = (b, w') \<Longrightarrow> lacks k w'"
  unfolding fixupSuperfluousNamespace_def Let_def
  by (auto intro!: lacks_intros split: if_splits prod.splits)

lemma lacks_pretty404: "own k \<Longrightarrow> lacks k w \<Longrightarrow> servePretty404IfPresent env r p w = (b, w') \<Longrightarrow> lacks k w'"
  using own_neq [of k] unfolding servePretty404IfPresent_def CopyN_def Let_def
  by (auto intro!: lacks_intros split: sum.splits gw_node.splits prod.splits if_splits)

lemma lacks_listing [lacks_intros]: "own k \<Longrightarrow> lacks k w \<Longrightarrow> lacks k (serve_listing env r rp u d w)"
  unfolding serve_listing_def Let_def
  by (auto intro!: lacks_intros split: sum.split option.split prod.split)

text \<open>What \<^verbatim>\<open>http.ServeContent\<close> does with the headers it finds: it keeps the caching headers.\<close>

definition keeps_caching :: "('r, 's, 'm) gw_env \<Rightarrow> bool" where
  "keeps_caching env = (\<forall>r h name t content k. own k \<longrightarrow> fst (snd (ServeContent env r h name t content)) k = h k)"

definition send_content :: "('r, 's, 'm) gw_env \<Rightarrow> gw_request \<Rightarrow> string \<Rightarrow> int option \<Rightarrow> string \<Rightarrow> 'r lazySeeker \<Rightarrow> resp \<Rightarrow> resp" where
  "send_content env r name modtime ctype content w =
     (let w = HSet ''Content-Type'' ctype w; (code, h, b) = ServeContent env r (hdr w) name modtime content
      in resp_Write b (statusResponseWriter_WriteHeader code (w\<lparr>hdr := h\<rparr>)))"

lemma serveFile_cases:
  "(\<exists>msg code. serveFile env r name modtime file w = http_Error msg code w \<and> (code = 502 \<or> code = 500))
   \<or> (\<exists>ctype content. serveFile env r name modtime file w = send_content env r name modtime ctype content w)"
  unfolding serveFile_def Let_def send_content_def [unfolded Let_def, symmetric]
  by (auto split: sum.split prod.split option.split)

lemma lacks_serveFile [lacks_intros]:
  assumes "own k" "keeps_caching env" "lacks k w"
  shows "lacks k (serveFile env r name modtime file w)"
proof -
  have "lacks k (send_content env r name modtime ctype content w)" for ctype content
  proof -
    define w1 where "w1 = HSet ''Content-Type'' ctype w"
    obtain code h b where sc: "ServeContent env r (hdr w1) name modtime content = (code, h, b)" by (metis prod.collapse)
    have "lacks k w1" unfolding w1_def using assms own_neq by (intro lacks_intros) auto
    moreover have "h k = hdr w1 k" using assms(1,2) sc unfolding keeps_caching_def by (metis fst_conv snd_conv)
    ultimately have "lacks k (w1\<lparr>hdr := h\<rparr>)" by (auto simp: lacks_def)
    then show ?thesis
      unfolding send_content_def Let_def w1_def [symmetric] sc statusResponseWriter_WriteHeader_def by (auto intro!: lacks_intros)
  qed
  then show ?thesis using serveFile_cases [of env r name modtime "file" w] lacks_Error assms by metis
qed

lemma lacks_dir [lacks_intros]:
  "own k \<Longrightarrow> keeps_caching env \<Longrightarrow> lacks k w \<Longrightarrow> lacks k (serve_dir_node env r rp u d w)"
  using own_neq [of k] unfolding serve_dir_node_def Let_def
  by (auto intro!: lacks_intros split: sum.split gw_err.split gw_node.split)


lemma lacks_writing:
  assumes "own k" "lacks k w" "map_of (Headers c) k = None"
  shows "lacks k (fst (postHandler env c r w s))" "lacks k (fst (putHandler env c r w s))" "lacks k (fst (deleteHandler env c r w s))"
proof -
  note neq = own_neq [OF assms(1)]
  show "lacks k (fst (postHandler env c r w s))"
    unfolding postHandler_def using assms neq by (auto intro!: lacks_intros split: prod.split sum.split)
  have "lacks k (fst (put_link env c r root p f w s))" for root p f s
    unfolding put_link_def using assms neq by (auto intro!: lacks_intros split: prod.split sum.split option.split bool.split)
  then show "lacks k (fst (putHandler env c r w s))"
    unfolding putHandler_def using assms neq by (auto intro!: lacks_intros split: prod.split sum.split option.split bool.split)
  show "lacks k (fst (deleteHandler env c r w s))"
    unfolding deleteHandler_def using assms neq by (auto intro!: lacks_intros split: prod.split sum.split option.split bool.split)
qed

text \<open>The ways out of the handler.\<close>

lemma getOrHead_shape:
  obtains (served) p rp where "ResolvePath env (ipath_New (hn env) (Path r)) = Inr rp" "getOrHeadHandler env c r w = serve_resolved env c r rp p w"
  | (failed) msg e code where "getOrHeadHandler env c r w = webError msg e code w" "code \<ge> 400"
  | (uri) pre where "getOrHeadHandler env c r w = redirect_uri env r pre (Query_Get r ''uri'') w"
  | (fixed) q w1 where "fixupSuperfluousNamespace env (Path r) q w = (True, w1)" "getOrHeadHandler env c r w = w1"
  | (unfixed) q w1 msg e where "fixupSuperfluousNamespace env (Path r) q w = (False, w1)" "getOrHeadHandler env c r w = webError msg e 400 w1"
  | (pretty) pp w1 where "servePretty404IfPresent env r pp w = (True, w1)" "getOrHeadHandler env c r w = w1"
  | (missing) pp w1 msg e where "servePretty404IfPresent env r pp w = (False, w1)" "getOrHeadHandler env c r w = webError msg e 404 w1"
proof (cases "RequestURI_Path r")
  case (Inl e)
  then show ?thesis using failed by (simp add: getOrHeadHandler_def Let_def)
next
  case (Inr p)
  define pp where "pp = ipath_New (hn env) (Path r)"
  define sw where "sw = (HGet (req_hdr r) ''Service-Worker'' = ''script'' \<and> namespace_root (Path r))"
  note unf = getOrHeadHandler_def [unfolded Let_def]
  consider "Query_Get r ''uri'' \<noteq> []" | "Query_Get r ''uri'' = []" sw | "Query_Get r ''uri'' = []" "\<not> sw" by blast
  then show ?thesis
  proof cases
    case 1
    then show ?thesis using uri Inr by (simp add: unf)
  next
    case 2
    then show ?thesis using failed Inr by (simp add: unf sw_def)
  next
    case 3
    show ?thesis
    proof (cases "ipath_IsValid (hn env) pp")
      case (Some pathErr)
      obtain b w1 where w1: "fixupSuperfluousNamespace env (Path r) (RawQuery r) w = (b, w1)" by fastforce
      have run: "getOrHeadHandler env c r w = (if gateway_prefix c r = [] \<and> b then w1
          else webError ''invalid ipfs path'' (Some pathErr) 400 (if gateway_prefix c r = [] then w1 else w))"
        using Inr 3 Some w1 by (cases b) (auto simp: unf pp_def sw_def)
      show ?thesis
      proof (cases "gateway_prefix c r = []")
        case True
        then show ?thesis using run w1 fixed unfixed by (cases b) auto
      qed (use run failed in auto)
    next
      case None
      show ?thesis
      proof (cases "ResolvePath env pp")
        case (Inl e)
        obtain b w1 where w1: "servePretty404IfPresent env r pp w = (b, w1)" by fastforce
        have run: "getOrHeadHandler env c r w = (if e = ErrOffline then webError (''ipfs resolve -r '' @ EscapedPath r) (Some ErrOffline) 503 w
            else if b then w1 else webError (''ipfs resolve -r '' @ EscapedPath r) (Some e) 404 w1)"
          using Inr 3 None Inl w1 by (cases b; cases e) (auto simp: unf pp_def sw_def)
        show ?thesis using run w1 failed pretty missing by (cases "e = ErrOffline"; cases b) auto
      next
        case (Inr rp)
        then have "getOrHeadHandler env c r w = serve_resolved env c r rp (gateway_prefix c r @ p) w"
          using \<open>RequestURI_Path r = Inr p\<close> 3 None by (auto simp: unf pp_def sw_def)
        then show ?thesis using served Inr by (simp add: pp_def)
      qed
    qed
  qed
qed

text \<open>Before a path is resolved, nothing is said about caching.\<close>

lemma getOrHead_cases:
  assumes "own k" "lacks k w"
  shows "(\<exists>p rp. ResolvePath env (ipath_New (hn env) (Path r)) = Inr rp \<and> getOrHeadHandler env c r w = serve_resolved env c r rp p w)
    \<or> lacks k (getOrHeadHandler env c r w)"
proof (cases rule: getOrHead_shape [of env r c w])
  case served
  then show ?thesis by blast
next
  case (fixed q w1)
  then show ?thesis using lacks_fixup [OF assms(2) fixed(1)] by simp
next
  case (unfixed q w1 msg e)
  then show ?thesis using lacks_fixup [OF assms(2) unfixed(1)] lacks_webError(1) [OF assms(1)] by metis
next
  case (pretty pp w1)
  then show ?thesis using lacks_pretty404 [OF assms pretty(1)] by simp
next
  case (missing pp w1 msg e)
  then show ?thesis using lacks_pretty404 [OF assms missing(1)] lacks_webError(1) [OF assms(1)] by metis
qed (use assms in \<open>auto intro!: lacks_intros\<close>)

text \<open>A header with a value that stays until the response is sent.\<close>

definition has :: "string \<Rightarrow> string \<Rightarrow> resp \<Rightarrow> bool" where
  "has k v w = (hdr w k = Some [v] \<and> sent w = None)"

lemma finish_has:
  assumes "has k v w" "own k" "keeps_caching env" "finish (serveFile env r name modtime f w) = (code, h, b)"
  shows "h k = Some [v]"
proof -
  note neq = own_neq [OF assms(2)]
  have "finish (http_Error msg c w) = (code, h, b) \<Longrightarrow> h k = Some [v]" for msg c
    using assms(1) neq by (auto simp: has_def finish_def http_Error_def)
  moreover have "h k = Some [v]" if sc: "finish (send_content env r name modtime ctype content w) = (code, h, b)" for ctype content
  proof -
    define w1 where "w1 = HSet ''Content-Type'' ctype w"
    obtain code' h' b' where s: "ServeContent env r (hdr w1) name modtime content = (code', h', b')" by (metis prod.collapse)
    have "h' k = hdr w1 k" using assms(2,3) s unfolding keeps_caching_def by (metis fst_conv snd_conv)
    then have "h' k = Some [v]" using assms(1) neq by (simp add: w1_def has_def)
    then show ?thesis
      using sc assms(1) unfolding send_content_def Let_def w1_def [symmetric] s
      by (auto simp: finish_def statusResponseWriter_WriteHeader_def has_def w1_def)
  qed
  ultimately show ?thesis using serveFile_cases [of env r name modtime f w] assms(4) by metis
qed

lemma serve_file_node_cases:
  "\<exists>name w1. serve_file_node env r f w = serveFile env r name (if prefix ''/ipfs/'' (Path r) then Some 1 else None) f w1
     \<and> (\<forall>k v. own k \<longrightarrow> k \<noteq> ''Cache-Control'' \<longrightarrow> has k v w \<longrightarrow> has k v w1)
     \<and> (prefix ''/ipfs/'' (Path r) \<or> (lacks ''Cache-Control'' w \<longrightarrow> lacks ''Cache-Control'' w1))"
proof -
  define w0 where "w0 = (if prefix ''/ipfs/'' (Path r) then HSet ''Cache-Control'' immutable w else w)"
  define w2 where "w2 = HSet ''Content-Disposition'' ((if Query_Get r ''download'' = ''true'' then ''attachment'' else ''inline'')
     @ ''; filename='' @ quoted (PathEscape (replace_non_ascii (Query_Get r ''filename'')))
     @ ''; filename*=UTF-8'' @ [CHR 0x27, CHR 0x27] @ PathEscape (Query_Get r ''filename'')) w0"
  have eq: "serve_file_node env r f w = (if Query_Get r ''filename'' \<noteq> []
      then serveFile env r (Query_Get r ''filename'') (if prefix ''/ipfs/'' (Path r) then Some 1 else None) f w2
      else serveFile env r (getFilename (Path r)) (if prefix ''/ipfs/'' (Path r) then Some 1 else None) f w0)"
    by (simp only: serve_file_node_def w2_def w0_def Let_def)
  have k: "has k v w \<longrightarrow> has k v w0" "has k v w \<longrightarrow> has k v w2" if "own k" "k \<noteq> ''Cache-Control''" for k v
    using that own_neq(8) [OF that(1)] by (auto simp: w2_def w0_def has_def)
  have l: "prefix ''/ipfs/'' (Path r) \<or> (lacks ''Cache-Control'' w \<longrightarrow> lacks ''Cache-Control'' w0)"
    "prefix ''/ipfs/'' (Path r) \<or> (lacks ''Cache-Control'' w \<longrightarrow> lacks ''Cache-Control'' w2)"
    by (auto simp: w2_def w0_def intro!: lacks_intros)
  show ?thesis
  proof (cases "Query_Get r ''filename'' \<noteq> []")
    case True
    then show ?thesis using eq k(2) l(2) by (intro exI [of _ "Query_Get r ''filename''"] exI [of _ w2]) simp
  next
    case False
    then show ?thesis using eq k(1) l(1) by (intro exI [of _ "getFilename (Path r)"] exI [of _ w0]) simp
  qed
qed

text \<open>C31. Only responses for files that cannot change are declared immutable. Whatever the request, the method and the
  faults of the node: if the response has a caching header (and none was configured by the user), it is the response to a
  GET or HEAD of a path in the immutable namespace, that path resolved to a file, and the validator sent along is
  the CID it resolved to. In particular nothing about a directory, its index or its listing, no page for missing files, no
  response below a mutable name and no failed resolution is ever cached for ever. (What is sent for such a file may
  still be other than its content: the redirect to the file on a subdomain, or an error that came up in sending the
  file, both of which are then cached.) Of \<^verbatim>\<open>http.ServeContent\<close> it is assumed that it keeps the caching headers it finds.\<close>

theorem immutable_only_resolved_files:
  assumes cfg: "map_of (Headers c) ''Cache-Control'' = None"
    and fresh: "hdr w ''Cache-Control'' = None" "sent w = None"
    and sc: "keeps_caching env"
    and run: "finish (fst (ServeHTTP env c r w s)) = (code, h, b)" and cc: "h ''Cache-Control'' \<noteq> None"
  shows "(Method r = ''GET'' \<or> Method r = ''HEAD'') \<and> prefix ''/ipfs/'' (Path r)
    \<and> (\<exists>rp f. ResolvePath env (ipath_New (hn env) (Path r)) = Inr rp \<and> Unixfs_Get env (res_String rp) = Inr (FileNode f)
        \<and> h ''Etag'' = Some [quoted (cid_String (hn env) (res_cid rp))])"
proof -
  define CC where "CC = ''Cache-Control''"
  have own: "own CC" by (simp add: CC_def own_def)
  have w: "lacks CC w" using fresh by (simp add: lacks_def CC_def)
  have not: "\<not> lacks CC (fst (ServeHTTP env c r w s))" using finish_lacks [OF _ run] cc by (auto simp: CC_def)
  have user: "map_of (Headers c) CC = None" using cfg by (simp add: CC_def)
  have get: "Method r = ''GET'' \<or> Method r = ''HEAD''" and eq: "ServeHTTP env c r w s = (getOrHeadHandler env c r w, s)"
    using not lacks_writing [OF own w user, where env = env and r = r and s = s] own_neq [OF own] own w user
    by (auto simp: ServeHTTP_def optionsHandler_def Let_def intro!: lacks_intros split: if_splits)
  have not: "\<not> lacks CC (getOrHeadHandler env c r w)" using not eq by simp
  have "\<exists>p rp. ResolvePath env (ipath_New (hn env) (Path r)) = Inr rp \<and> getOrHeadHandler env c r w = serve_resolved env c r rp p w"
    using getOrHead_cases [OF own w, of env r c] not by blast
  then obtain p rp where rp: "ResolvePath env (ipath_New (hn env) (Path r)) = Inr rp"
    "getOrHeadHandler env c r w = serve_resolved env c r rp p w" by blast
  define et where "et = responseEtag env False (res_cid rp)"
  have et: "et = quoted (cid_String (hn env) (res_cid rp))" by (simp add: et_def responseEtag_def)
  define w1 where "w1 e = HSet ''Etag'' e (HSet ''X-IPFS-Path'' (Path r) (addUserHeaders c w))" for e
  have w1: "lacks CC (w1 e)" for e
    unfolding w1_def using own w user by (auto intro!: lacks_intros simp: CC_def)
  obtain f where f: "Unixfs_Get env (res_String rp) = Inr (FileNode f)" "serve_resolved env c r rp p w = serve_file_node env r f (w1 et)"
  proof (cases "Unixfs_Get env (res_String rp)")
    case (Inl e)
    then have "lacks CC (serve_resolved env c r rp p w)" using own w by (auto simp: serve_resolved_def intro!: lacks_intros)
    then show ?thesis using not rp by simp
  next
    case (Inr dr)
    have nm: "\<not> (HGet (req_hdr r) ''If-None-Match'' = responseEtag env (is_dir dr) (res_cid rp)
        \<or> HGet (req_hdr r) ''If-None-Match'' = ''W/'' @ responseEtag env (is_dir dr) (res_cid rp))" (is "\<not> ?m")
    proof
      assume ?m
      then have "lacks CC (serve_resolved env c r rp p w)"
        using Inr own w by (auto simp: serve_resolved_def Let_def intro!: lacks_intros)
      then show False using not rp by simp
    qed
    show ?thesis
    proof (cases dr)
      case (FileNode f)
      then show ?thesis using that Inr nm by (simp add: serve_resolved_def Let_def is_dir_def et_def w1_def)
    next
      case (DirNode d)
      then have "lacks CC (serve_resolved env c r rp p w)"
        using Inr nm lacks_dir [OF own sc w1] by (simp add: serve_resolved_def Let_def is_dir_def w1_def)
      then show ?thesis using not rp by simp
    next
      case OtherNode
      then have "lacks CC (serve_resolved env c r rp p w)"
        using Inr nm lacks_webError(2) [OF own w1] by (simp add: serve_resolved_def Let_def is_dir_def w1_def)
      then show ?thesis using not rp by simp
    qed
  qed
  obtain name w2 where w2: "serve_file_node env r f (w1 et) = serveFile env r name (if prefix ''/ipfs/'' (Path r) then Some 1 else None) f w2"
    "has ''Etag'' et (w1 et) \<longrightarrow> has ''Etag'' et w2" "prefix ''/ipfs/'' (Path r) \<or> lacks CC w2"
    using serve_file_node_cases [of env r f "w1 et"] w1 [of et] by (auto simp: own_def CC_def)
  have pre: "prefix ''/ipfs/'' (Path r)" using w2(1,3) lacks_serveFile [OF own sc] not rp(2) f(2) by metis
  have "has ''Etag'' et w2" using w2(2) fresh(2) by (simp add: has_def w1_def addUserHeaders_def)
  then have "h ''Etag'' = Some [et]"
    using finish_has [of "''Etag''" et w2 env r name "if prefix ''/ipfs/'' (Path r) then Some 1 else None" f code h b]
      sc run eq rp(2) f(2) w2(1) by (simp add: own_def)
  then show ?thesis using get pre rp(1) f(1) et by blast
qed


section \<open>Examples\<close>

definition sample_url :: "string \<Rightarrow> gw_err + url" where
  "sample_url s =
     (let sch = takeWhile (\<lambda>c. c \<noteq> CHR '':'') s;
          rest = drop (length sch) s;
          cut = (\<lambda>t. let p = takeWhile (\<lambda>c. c \<noteq> CHR ''?'') t in (p, drop (Suc (length p)) t))
      in if prefix ''://'' rest then
           let hostpath = drop 3 rest; h = takeWhile (\<lambda>c. c \<noteq> CHR ''/'' \<and> c \<noteq> CHR ''?'') hostpath;
               (p, q) = cut (drop (length h) hostpath)
           in Inr \<lparr>u_Scheme = sch, u_Host = h, u_Path = p, u_RawQuery = q\<rparr>
         else let (p, q) = cut s in Inr \<lparr>u_Scheme = [], u_Host = [], u_Path = p, u_RawQuery = q\<rparr>)"

definition sample_file :: "unit gw_file" where
  "sample_file = \<lparr>file_Size = Inr 5, file_reader = (), file_bytes = (''hello'', None), isSymlink = False\<rparr>"

definition sample_gw :: "(unit, string list, unit) gw_env" where
  "sample_gw = \<lparr>hn = ex_hn, BindataVersionHash = ''v1'', url_Parse = sample_url, Query_Encode = (\<lambda>q. q),
     ResolvePath = (\<lambda>p. if p \<in> {''/ipfs/bafyroot/a'', ''/ipfs/bafyroot'', ''/ipfs/bafyroot/ipfs-404.html''}
       then Inr \<lparr>res_cid = ex_cidv1, res_String = p\<rparr> else Inl (ErrNoLink ''a'')),
     Unixfs_Get = (\<lambda>p. if p = ''/ipfs/bafyroot'' then Inr (DirNode \<lparr>dir_Size = Inr 5, dir_Entries = [(''a'', Inr 5)], dir_Err = None\<rparr>)
       else if prefix ''/ipfs/bafyroot/index'' p then Inl (ErrNoLink ''index.html'') else Inr (FileNode sample_file)),
     TypeByExtension = (\<lambda>_. []), DetectReader = (\<lambda>c. (Inr ''text/html; charset=utf-8'', c)),
     ServeContent = (\<lambda>r h name t c. (200, h, ''hello'')), humanize_Bytes = show_int,
     Execute_listing = (\<lambda>d. (''<html>'', None)), Execute_redirect = (\<lambda>d. (''<html>'', None)),
     Unixfs_Add = (\<lambda>d s. (Inr ex_cidv1, d # s)), Dag_Get = (\<lambda>c s. Inr True), mfs_NewRoot = (\<lambda>c s. Inr ()),
     mfs_Mkdir = (\<lambda>m d s. (None, m, s)), mfs_Lookup = (\<lambda>m d s. Inr True), dir_Unlink = (\<lambda>m d f s. (None, m, s)),
     dir_AddChild = (\<lambda>m d f c s. (None, m, s)), root_GetNode = (\<lambda>m s. (Inl (ErrOther ''no space left''), s))\<rparr>"

definition sample_get :: "string \<Rightarrow> gw_request" where
  "sample_get p = \<lparr>Host = ''dweb.link'', XForwardedHost = [], XForwardedProto = [], Scheme = [], Path = p, RawQuery = [],
     Method = ''GET'', EscapedPath = p, RequestURI_Path = Inr p, Query = Map.empty,
     req_hdr = [''Accept'' \<mapsto> [''text/html,*/*'']], gw_hostname = None, req_Body = ''new''\<rparr>"

definition new_resp :: resp where
  "new_resp = \<lparr>hdr = Map.empty, sent = None, body = []\<rparr>"

definition sample_gwcfg :: GatewayConfig where
  "sample_gwcfg = \<lparr>Headers = [(''Access-Control-Allow-Origin'', [''*''])], Writable = True, PathPrefixes = []\<rparr>"

lemma sample_gw_keeps: "keeps_caching sample_gw"
  by (simp add: keeps_caching_def sample_gw_def)

theorem immutable_only_resolved_files_witness:
  "\<exists>h. finish (fst (ServeHTTP sample_gw sample_gwcfg (sample_get ''/ipfs/bafyroot/a'') new_resp [])) = (200, h, ''hello'')
     \<and> h ''Etag'' = Some [quoted (cid_String (hn sample_gw) ex_cidv1)]"
proof -
  define X where "X = finish (fst (ServeHTTP sample_gw sample_gwcfg (sample_get ''/ipfs/bafyroot/a'') new_resp []))"
  have x: "fst X = 200" "snd (snd X) = ''hello''" "fst (snd X) ''Cache-Control'' = Some [immutable]" unfolding X_def by code_simp+
  have pre: "map_of (Headers sample_gwcfg) ''Cache-Control'' = None" "hdr new_resp ''Cache-Control'' = None" "sent new_resp = None" by code_simp+
  have run: "finish (fst (ServeHTTP sample_gw sample_gwcfg (sample_get ''/ipfs/bafyroot/a'') new_resp [])) = (200, fst (snd X), ''hello'')"
    using x unfolding X_def by (metis prod.collapse)
  have "ResolvePath sample_gw (ipath_New (hn sample_gw) (Path (sample_get ''/ipfs/bafyroot/a''))) =
      Inr \<lparr>res_cid = ex_cidv1, res_String = ''/ipfs/bafyroot/a''\<rparr>" by code_simp
  then have "fst (snd X) ''Etag'' = Some [quoted (cid_String (hn sample_gw) ex_cidv1)]"
    using immutable_only_resolved_files [OF pre sample_gw_keeps run] x(3) by auto
  then show ?thesis using run by blast
qed

section \<open>Errors that are cached, and other slips\<close>

text \<open>With a location set by the hostname handler, a file is answered by a permanent redirect that is cached for ever.\<close>

lemma redirect_is_cached:
  "let (code, h, b) = finish (fst (ServeHTTP sample_gw sample_gwcfg (sample_get ''/ipfs/bafyroot/a'')
       (HSet ''Location'' ''http://bafyroot.ipfs.dweb.link/a'' new_resp) []))
   in code = 301 \<and> h ''Cache-Control'' = Some [immutable]"
  by code_simp

text \<open>The caching headers are set before the file is opened, so a file of unknown size is answered with 502 and
  cached for ever.\<close>

lemma error_is_cached:
  assumes "file_Size f = Inl e" "prefix ''/ipfs/'' (Path r)" "Query_Get r ''filename'' = []" "sent w = None"
  shows "\<exists>h b. finish (serve_file_node env r f w) = (502, h, b) \<and> h ''Cache-Control'' = Some [immutable]"
  using assms by (auto simp: serve_file_node_def serveFile_def Let_def http_Error_def finish_def)

text \<open>A type with parameters, as browsers send them, is not recognised.\<close>

lemma parameters_not_split: "preferred404Filename [''text/html;q=0.9''] = Inl (ErrOther ''there is no 404 file for the requested content types'')"
  by code_simp

text \<open>A failure to remove the file is reported with the text of a nil error, and a failure at the end goes on with a
  node that is nil: \<open>deleteHandler\<close> stops there by a panic, after the response was sent.\<close>

lemma delete_reports_nil:
  assumes "parseIpfsPath (hn env) (Path r) = Some (Inr (rc, np))" "np \<noteq> []" "np \<noteq> ''/''" "Dag_Get env rc s = Inr True"
    "mfs_NewRoot env rc s = Inr root" "mfs_Lookup env root (fst (path_Split np)) s = Inr True"
    "dir_Unlink env root (fst (path_Split np)) (snd (path_Split np)) s = (Some (ErrOther m), root', s')" "sent w = None"
  shows "body (fst (deleteHandler env c r w s)) = body w @ ''WritableGateway: failed to remove file: %!s(<nil>)'' @ newline"
  using assms
  by (simp add: deleteHandler_def case_prod_unfold webError_def webErrorWithCode_def err_text_def http_Error_def)

text \<open>A path whose segments cancel out makes \<open>parseIpfsPath\<close> read past the end of its segments; as the panic is
  recovered, nothing was written and the client gets 200.\<close>

lemma put_panics: "finish (fst (ServeHTTP sample_gw sample_gwcfg ((sample_get ''/ipfs/bafyroot/..'')\<lparr>Method := ''PUT''\<rparr>) new_resp [])) =
    (200, Map.empty, [])"
proof -
  have "parseIpfsPath (hn sample_gw) ''/ipfs/bafyroot/..'' = None" by code_simp
  then show ?thesis by (simp add: ServeHTTP_def putHandler_def sample_gwcfg_def sample_get_def finish_def new_resp_def)
qed

end
