(* ===== verification/Gateway_Paths.thy ===== *)
theory Gateway_Paths
  imports Gateway
begin

text \<open>
  Where the gateway sends its clients: the redirect of the \<^verbatim>\<open>uri\<close> parameter, the search for a page for missing
  files, and the redirect to a subdomain that the hostname handler of \<open>Hostname\<close> leaves to this one.
\<close>

section \<open>Local redirects\<close>


definition before_query :: "string \<Rightarrow> string" where
  "before_query u = takeWhile (\<lambda>c. c \<noteq> CHR ''?'') u"









section \<open>Staying in a namespace\<close>

text \<open>No part of a path is a double dot, also after a query was cut off.\<close>

definition no_dotdot :: "string \<Rightarrow> bool" where
  "no_dotdot t = list_all (\<lambda>p. before_query p \<noteq> ''..'') (split_on (CHR ''/'') t)"





lemma no_dotdot_parts: "no_dotdot t \<Longrightarrow> ''..'' \<notin> set (split_on (CHR ''/'') t)"
  by (auto simp: no_dotdot_def list_all_iff before_query_def)





lemma split_on_root: "split_on (CHR ''/'') (CHR ''/'' # t) = [] # split_on (CHR ''/'') t"
  by simp








section \<open>The page for missing files\<close>

lemma clean_ok_plain: "list_all plain_name ps \<Longrightarrow> clean_ok rooted (rev ps)"
proof -
  have "list_all plain_name qs \<Longrightarrow> clean_ok rooted qs" for qs
    by (induction qs) (auto simp: plain_name_def)
  then show "list_all plain_name ps \<Longrightarrow> clean_ok rooted (rev ps)" by simp
qed

lemma path_Clean_plain:
  assumes "list_all plain_name ps" "ps \<noteq> []"
  shows "path_Clean (join ''/'' ps) = join ''/'' ps"
proof -
  note ok = clean_ok_plain [OF assms(1), of False]
  note sp = clean_ok_split [OF ok assms(2)]
  have "parts_of (join ''/'' ps) = ps"
    using clean_parts_id [of False ps "[]"] ok sp by (simp add: parts_of_def)
  then show ?thesis using sp(2) assms(2) by (simp add: path_Clean_parts)
qed

text \<open>The page in the directory of the first \<open>n\<close> segments.\<close>

definition page404 :: "string \<Rightarrow> string list \<Rightarrow> nat \<Rightarrow> string" where
  "page404 filename404 segs n = ''/'' @ join ''/'' (take n segs @ [filename404])"

lemma split_page:
  assumes "list_all plain_name segs" "segs \<noteq> []"
  shows "split_on (CHR ''/'') (''/'' @ join ''/'' segs) = [] # segs"
  using clean_ok_split(1) [OF clean_ok_plain [OF assms(1), of False] assms(2)] by simp

lemma ParsePath_plain:
  assumes "list_all plain_name segs" "2 \<le> length segs"
  shows "ParsePath env (''/'' @ join ''/'' segs) = ParsePath_abs env (''/'' @ join ''/'' segs) ([] # segs)"
proof -
  have "segs \<noteq> []" using assms(2) by auto
  then show ?thesis using split_page [OF assms(1)] assms(2) by (simp add: ParsePath_def Let_def)
qed

lemma ParsePath_abs_same:
  assumes "2 \<le> length segs" "segs' ! 0 = segs ! 0" "segs' ! 1 = segs ! 1" "2 \<le> length segs'"
    and "ParsePath_abs env t ([] # segs) = Inr u"
  shows "ParsePath_abs env t' ([] # segs') = Inr t'"
proof -
  have "length ([] # segs) \<ge> 3" "length ([] # segs') \<ge> 3" using assms(1,4) by auto
  then show ?thesis using assms(2,3,5) by (auto simp: ParsePath_abs_def numeral_2_eq_2 split: if_splits option.splits)
qed

lemma page404_valid:
  assumes segs: "list_all plain_name segs" "2 \<le> n" "n \<le> length segs" and fn: "plain_name fn"
    and ok: "ParsePath env (''/'' @ join ''/'' segs) = Inr u"
  shows "path_Join ([] # take n segs @ [fn]) = join ''/'' (take n segs @ [fn])"
    "ParsePath env (page404 fn segs n) = Inr (page404 fn segs n)"
proof -
  have plain: "list_all plain_name (take n segs @ [fn])" using segs(1) fn by (auto simp: list_all_iff dest: in_set_takeD)
  have ne: "join ''/'' (take n segs @ [fn]) \<noteq> []"
    using clean_ok_join [OF clean_ok_plain [OF plain]] by simp
  have filt: "filter (\<lambda>e. e \<noteq> []) (take n segs @ [fn]) = take n segs @ [fn]"
    using plain by (auto simp: list_all_iff plain_name_def intro!: filter_True)
  then show "path_Join ([] # take n segs @ [fn]) = join ''/'' (take n segs @ [fn])"
    using path_Clean_plain [OF plain] by (simp add: path_Join_def Let_def del: filter_append)
  have len: "2 \<le> length (take n segs @ [fn])" "2 \<le> length segs" using segs by auto
  have nth: "(take n segs @ [fn]) ! 0 = segs ! 0" "(take n segs @ [fn]) ! 1 = segs ! 1" using segs by (auto simp: nth_append)
  show "ParsePath env (page404 fn segs n) = Inr (page404 fn segs n)"
    unfolding page404_def ParsePath_plain [OF plain len(1)]
    by (rule ParsePath_abs_same [OF len(2) nth len(1)]) (use ok ParsePath_plain [OF segs(1) len(2)] in simp)
qed

text \<open>The writes into the array do not disturb the shorter prefixes that are read after them.\<close>

lemma search_loop_nearest:
  assumes segs: "list_all plain_name segs" "2 \<le> length segs" and fn: "plain_name fn"
    and ok: "ParsePath (hn env) (''/'' @ join ''/'' segs) = Inr u"
    and i: "i \<le> length segs" "length comps = Suc (length segs)" "take (Suc i) comps = [] # take i segs"
  shows "search_loop env fn (Suc i) comps = Some rp \<longleftrightarrow>
    (\<exists>n. 2 \<le> n \<and> n \<le> i \<and> ResolvePath env (page404 fn segs n) = Inr rp
      \<and> (\<forall>m. n < m \<and> m \<le> i \<longrightarrow> (\<exists>e. ResolvePath env (page404 fn segs m) = Inl e)))"
  using i
proof (induction i arbitrary: comps)
  case (Suc i)
  show ?case
  proof (cases "Suc i < 2")
    case False
    then have i: "2 \<le> Suc i" by simp
    define comps' where "comps' = (if Suc (Suc i) < length comps then comps[Suc (Suc i) := fn] else comps)"
    have c': "length comps' = Suc (length segs)" "take (Suc i) comps' = [] # take i segs"
    proof -
      have "take (Suc i) comps' = take (Suc i) comps" by (simp add: comps'_def)
      also have "\<dots> = take (Suc i) (take (Suc (Suc i)) comps)" by simp
      also have "\<dots> = [] # take i segs" unfolding Suc.prems(3) by simp
      finally show "take (Suc i) comps' = [] # take i segs" .
      show "length comps' = Suc (length segs)" using Suc.prems(2) by (simp add: comps'_def)
    qed
    note page = page404_valid [OF segs(1) i Suc.prems(1) fn ok]
    have new: "ipath_New (hn env) (''/'' @ path_Join (take (Suc (Suc i)) comps @ [fn])) = page404 fn segs (Suc i)"
      "ipath_IsValid (hn env) (page404 fn segs (Suc i)) = None"
    proof -
      have "''/'' @ path_Join (take (Suc (Suc i)) comps @ [fn]) = page404 fn segs (Suc i)"
        using page(1) Suc.prems(3) by (simp add: page404_def)
      then show "ipath_New (hn env) (''/'' @ path_Join (take (Suc (Suc i)) comps @ [fn])) = page404 fn segs (Suc i)"
        unfolding ipath_New_def using page(2) by simp
      show "ipath_IsValid (hn env) (page404 fn segs (Suc i)) = None" using page(2) by (simp add: ipath_IsValid_def)
    qed
    have loop: "search_loop env fn (Suc (Suc i)) comps =
        (case ResolvePath env (page404 fn segs (Suc i)) of Inl _ \<Rightarrow> search_loop env fn (Suc i) comps' | Inr rp \<Rightarrow> Some rp)"
      using i new unfolding search_loop.simps(2) [of env fn "Suc i"] Let_def comps'_def [symmetric] by simp
    have IH: "search_loop env fn (Suc i) comps' = Some rp \<longleftrightarrow>
      (\<exists>n. 2 \<le> n \<and> n \<le> i \<and> ResolvePath env (page404 fn segs n) = Inr rp
        \<and> (\<forall>m. n < m \<and> m \<le> i \<longrightarrow> (\<exists>e. ResolvePath env (page404 fn segs m) = Inl e)))"
      using Suc.IH c' Suc.prems(1) by simp
    show ?thesis
    proof (cases "ResolvePath env (page404 fn segs (Suc i))")
      case (Inl e)
      then show ?thesis unfolding loop using IH by (auto simp: le_Suc_eq)
    next
      case (Inr x)
      have "n = Suc i" if "n \<le> Suc i" "\<forall>m. n < m \<and> m \<le> Suc i \<longrightarrow> (\<exists>e. ResolvePath env (page404 fn segs m) = Inl e)" for n
        using that Inr by (metis Inl_Inr_False le_neq_implies_less order_refl)
      then show ?thesis unfolding loop using i Inr by (auto intro: exI [of _ "Suc i"]) (metis sum.inject(2))
    qed
  qed (auto simp: Let_def)
qed simp


text \<open>A missing file is answered with the nearest page for missing files. For a path of plain names, the search
  returns a page exactly when the client accepts HTML and some directory on the way, from the missing file itself
  up to the root of the content, has one; it returns the one with the longest path, and it never looks above the
  root. The search writes into the array of path components it walks along, which does no harm.\<close>

lemma searchUpTreeFor404_nearest:
  assumes segs: "list_all plain_name segs" "2 \<le> length segs"
    and ok: "ParsePath (hn env) (''/'' @ join ''/'' segs) = Inr u"
  shows "searchUpTreeFor404 env r (''/'' @ join ''/'' segs) = Inr (rp, ctype) \<longleftrightarrow>
    ctype = ''text/html''
    \<and> (\<exists>a \<in> set (case req_hdr r ''Accept'' of None \<Rightarrow> [] | Some vs \<Rightarrow> vs).
        \<exists>t \<in> set (split_on (CHR '','') a). t \<in> {''*/*'', ''text/*'', ''text/html''})
    \<and> (\<exists>n. 2 \<le> n \<and> n \<le> length segs \<and> ResolvePath env (page404 ''ipfs-404.html'' segs n) = Inr rp
        \<and> (\<forall>m. n < m \<and> m \<le> length segs \<longrightarrow> (\<exists>e. ResolvePath env (page404 ''ipfs-404.html'' segs m) = Inl e)))"
proof -
  have ne: "segs \<noteq> []" using segs(2) by auto
  have fn: "plain_name ''ipfs-404.html''" by (simp add: plain_name_def)
  have sp: "split_on (CHR ''/'') (''/'' @ join ''/'' segs) = [] # segs" by (rule split_page [OF segs(1) ne])
  have pref: "preferred404Filename as = (if \<exists>a \<in> set as. \<exists>t \<in> set (split_on (CHR '','') a). t \<in> {''*/*'', ''text/*'', ''text/html''}
      then Inr (''ipfs-404.html'', ''text/html'') else Inl (ErrOther ''there is no 404 file for the requested content types''))" for as
    by (induction as) (auto simp: list_ex_iff numeral_eq_Suc)
  have loop: "search_loop env ''ipfs-404.html'' (Suc (length segs)) ([] # segs) = Some rp \<longleftrightarrow>
    (\<exists>n. 2 \<le> n \<and> n \<le> length segs \<and> ResolvePath env (page404 ''ipfs-404.html'' segs n) = Inr rp
      \<and> (\<forall>m. n < m \<and> m \<le> length segs \<longrightarrow> (\<exists>e. ResolvePath env (page404 ''ipfs-404.html'' segs m) = Inl e)))"
    by (rule search_loop_nearest [OF segs fn ok]) simp_all
  have "searchUpTreeFor404 env r (''/'' @ join ''/'' segs) = Inr (rp, ctype) \<longleftrightarrow>
    (\<exists>a \<in> set (case req_hdr r ''Accept'' of None \<Rightarrow> [] | Some vs \<Rightarrow> vs).
      \<exists>t \<in> set (split_on (CHR '','') a). t \<in> {''*/*'', ''text/*'', ''text/html''})
    \<and> ctype = ''text/html'' \<and> search_loop env ''ipfs-404.html'' (Suc (length segs)) ([] # segs) = Some rp"
    unfolding searchUpTreeFor404_def Let_def sp pref by (auto split: option.splits)
  then show ?thesis unfolding loop by blast
qed


section \<open>Origins\<close>


text \<open>A response that waits to be sent with a location, and one that was sent without success: with a redirect, which has a
  location if it is permanent, with an error or as not modified, or else as the part of a file that the request asked for.\<close>

definition moved :: "resp \<Rightarrow> bool" where
  "moved w = (sent w = None \<and> HGet (hdr w) ''Location'' \<noteq> [])"

definition sent_on :: "gw_request \<Rightarrow> resp \<Rightarrow> bool" where
  "sent_on q w =
     (case sent w of
        Some (code, h) \<Rightarrow> (code \<ge> 300 \<or> code = 206 \<and> req_hdr q ''Range'' \<noteq> None) \<and> (code = 301 \<longrightarrow> HGet h ''Location'' \<noteq> [])
      | None \<Rightarrow> False)"

named_theorems origin_intros \<open>steps towards a response that is no success\<close>

lemma moved_HSet [origin_intros]: "k \<noteq> ''Location'' \<Longrightarrow> moved w \<Longrightarrow> moved (HSet k v w)"
  by (auto simp: moved_def HGet_def)

lemma moved_user [origin_intros]: "map_of (Headers c) ''Location'' = None \<Longrightarrow> moved w \<Longrightarrow> moved (addUserHeaders c w)"
  by (auto simp: moved_def HGet_def addUserHeaders_def map_add_def)

lemma sent_on_WriteHeader [origin_intros]: "code \<ge> 300 \<Longrightarrow> moved w \<Longrightarrow> sent_on q (WriteHeader code w)"
  by (simp add: sent_on_def moved_def)

lemma sent_on_Write [origin_intros]: "sent_on q w \<Longrightarrow> sent_on q (resp_Write s w)"
  by (auto simp: sent_on_def split: option.splits)


lemma sent_on_Error [origin_intros]: "code \<ge> 300 \<Longrightarrow> moved w \<Longrightarrow> sent_on q (http_Error msg code w)"
  unfolding http_Error_def by (intro origin_intros) auto



lemma sent_on_Redirect [origin_intros]:
  "code \<ge> 300 \<Longrightarrow> code \<noteq> 301 \<Longrightarrow> moved w \<Longrightarrow> sent_on q (http_Redirect env r u code w)"
  by (auto simp: http_Redirect_def Let_def sent_on_def moved_def)

text \<open>What \<^verbatim>\<open>http.ServeContent\<close> does with a location it finds: it leaves it. Its only success but 200 is 206, for requests with a
  range.\<close>

definition keeps_location :: "('r, 's, 'm) gw_env \<Rightarrow> bool" where
  "keeps_location env =
     ((\<forall>r h name t content. fst (snd (ServeContent env r h name t content)) ''Location'' = h ''Location'')
      \<and> (\<forall>r h name t content. fst (ServeContent env r h name t content) \<in> {200, 206} \<or> fst (ServeContent env r h name t content) \<ge> 300)
      \<and> (\<forall>r h name t content. fst (ServeContent env r h name t content) = 206 \<longrightarrow> req_hdr r ''Range'' \<noteq> None))"

lemma sent_on_serveFile [origin_intros]:
  assumes "keeps_location env" "moved w"
  shows "sent_on r (serveFile env r name modtime f w)"
proof -
  have "sent_on r (send_content env r name modtime ctype content w)" for ctype content
  proof -
    define w1 where "w1 = HSet ''Content-Type'' ctype w"
    obtain code h b where sc: "ServeContent env r (hdr w1) name modtime content = (code, h, b)" by (metis prod.collapse)
    have w1: "moved w1" unfolding w1_def by (intro origin_intros assms(2)) simp
    have h: "h ''Location'' = hdr w1 ''Location''" "code = 200 \<or> code = 206 \<and> req_hdr r ''Range'' \<noteq> None \<or> code \<ge> 300"
      using assms(1) sc unfolding keeps_location_def by (metis fst_conv snd_conv insertE empty_iff)+
    then have "moved (w1\<lparr>hdr := h\<rparr>)" using w1 by (simp add: moved_def HGet_def)
    then show ?thesis
      using h(2) unfolding send_content_def Let_def w1_def [symmetric] sc statusResponseWriter_WriteHeader_def
      by (auto simp: moved_def sent_on_def)
  qed
  then show ?thesis using serveFile_cases [of env r name modtime f w] sent_on_Error [OF _ assms(2)] by fastforce
qed









section \<open>Examples\<close>


text \<open>The query is cleaned as if it were a part of the path: double dots in it, or in the path, lead out of the
  namespace, and a backslash that then follows the first slash is read as a slash by browsers: the redirect goes to
  another host.\<close>

lemma uri_redirect_leaves_namespace:
  "fst (snd (finish (redirect_uri sample_gw (sample_get ''/ipfs/'') [] ''ipfs://bafyroot?to=/../../../x'' new_resp))) ''Location'' = Some [''/x'']"
  "fst (snd (finish (redirect_uri sample_gw (sample_get ''/ipfs/'') [] ''ipfs://bafyroot?u=http://a'' new_resp))) ''Location'' = Some [''/ipfs/bafyroot/?u=http:/a'']"
  by code_simp+

lemma searchUpTreeFor404_nearest_witness:
  "searchUpTreeFor404 sample_gw (sample_get ''/ipfs/bafyroot/b/c'') ''/ipfs/bafyroot/b/c'' =
     Inr (\<lparr>res_cid = ex_cidv1, res_String = ''/ipfs/bafyroot/ipfs-404.html''\<rparr>, ''text/html'')"
proof -
  define segs where "segs = [''ipfs'', ''bafyroot'', ''b'', ''c'']"
  define rp where "rp = \<lparr>res_cid = ex_cidv1, res_String = ''/ipfs/bafyroot/ipfs-404.html''\<rparr>"
  have segs: "list_all plain_name segs" "2 \<le> length segs" unfolding segs_def by code_simp+
  have ok: "ParsePath (hn sample_gw) (''/'' @ join ''/'' segs) = Inr ''/ipfs/bafyroot/b/c''" unfolding segs_def by code_simp
  have found: "ResolvePath sample_gw (page404 ''ipfs-404.html'' segs 2) = Inr rp" unfolding segs_def rp_def by code_simp
  have none: "\<exists>e. ResolvePath sample_gw (page404 ''ipfs-404.html'' segs m) = Inl e" if "2 < m \<and> m \<le> length segs" for m
  proof -
    have "m = 3 \<or> m = 4" using that by (auto simp: segs_def)
    moreover have "ResolvePath sample_gw (page404 ''ipfs-404.html'' segs 3) = Inl (ErrNoLink ''a'')"
      "ResolvePath sample_gw (page404 ''ipfs-404.html'' segs 4) = Inl (ErrNoLink ''a'')" unfolding segs_def by code_simp+
    ultimately show ?thesis by auto
  qed
  have acc: "\<exists>a \<in> set (case req_hdr (sample_get ''/ipfs/bafyroot/b/c'') ''Accept'' of None \<Rightarrow> [] | Some vs \<Rightarrow> vs).
      \<exists>t \<in> set (split_on (CHR '','') a). t \<in> {''*/*'', ''text/*'', ''text/html''}" by code_simp
  have "searchUpTreeFor404 sample_gw (sample_get ''/ipfs/bafyroot/b/c'') (''/'' @ join ''/'' segs) = Inr (rp, ''text/html'')"
    using searchUpTreeFor404_nearest [OF segs ok, of "sample_get ''/ipfs/bafyroot/b/c''" rp "''text/html''"] acc found none
      segs(2) by blast
  moreover have "''/'' @ join ''/'' segs = ''/ipfs/bafyroot/b/c''" unfolding segs_def by code_simp
  ultimately show ?thesis by (simp add: rp_def)
qed

lemma uri_redirect_backslash:
  "fst (snd (finish (redirect_uri (sample_gw\<lparr>url_Parse := (\<lambda>u. Inr (if u = uri
       then \<lparr>u_Scheme = ''ipfs'', u_Host = [], u_Path = ''/../'' @ [CHR 0x5C] @ ''evil.com'', u_RawQuery = []\<rparr>
       else \<lparr>u_Scheme = [], u_Host = [], u_Path = u, u_RawQuery = []\<rparr>))\<rparr>)
     (sample_get ''/ipfs/'') [] uri new_resp))) ''Location'' = Some [''/'' @ [CHR 0x5C] @ ''evil.com'']"
  if "uri = ''ipfs:///../'' @ [CHR 0x5C] @ ''evil.com''"
  unfolding that by code_simp


text \<open>The page for missing files is sent at the origin, with no redirect followed by browsers.\<close>

lemma origin_page404:
  "let (code, h, b) = finish (fst (ServeHTTP sample_gw sample_gwcfg (sample_get ''/ipfs/bafyroot/b/c'')
       (HSet ''Location'' ''http://bafyroot.ipfs.dweb.link/b/c'' new_resp) []))
   in code = 404 \<and> h ''Content-Type'' = Some [''text/html''] \<and> b \<noteq> []"
  by code_simp

end
