(* ===== verification/Gateway_Option.thy ===== *)
theory Gateway_Option
  imports Gateway
begin

text \<open>
  How the gateway is configured, from \<^verbatim>\<open>core/corehttp/gateway.go\<close>: the headers every response gets, with their
  defaults, and the paths the handler is mounted on; and the handler of \<^verbatim>\<open>redirect.go\<close>. Header names are put into
  canonical form as by \<^verbatim>\<open>http.CanonicalHeaderKey\<close>, and sets of them are sorted as by \<^verbatim>\<open>sort.Strings\<close>.
\<close>

section \<open>Header names\<close>

definition header_char :: "char \<Rightarrow> bool" where
  "header_char c = (c \<in> set ''0123456789abcdefghijklmnopqrstuvwxyzABCDEFGHIJKLMNOPQRSTUVWXYZ!#$%&*+-.^_|~'' \<or> c \<in> {CHR 0x27, CHR 0x60})"

fun canonical_loop :: "bool \<Rightarrow> string \<Rightarrow> string" where
  "canonical_loop upper [] = []"
| "canonical_loop upper (c # s) =
     (let n = of_char c :: nat;
          c' = (if upper \<and> 97 \<le> n \<and> n \<le> 122 then char_of (n - 32)
                else if \<not> upper \<and> 65 \<le> n \<and> n \<le> 90 then char_of (n + 32) else c)
      in c' # canonical_loop (c' = CHR ''-'') s)"

definition CanonicalHeaderKey :: "string \<Rightarrow> string" where
  "CanonicalHeaderKey s = (if list_all header_char s then canonical_loop True s else s)"

fun string_less :: "string \<Rightarrow> string \<Rightarrow> bool" where
  "string_less s [] = False"
| "string_less [] (d # t) = True"
| "string_less (c # s) (d # t) =
     (let m = of_char c :: nat; n = of_char d in m < n \<or> m = n \<and> string_less s t)"

text \<open>Inserting into a sorted set.\<close>

fun set_insert :: "string \<Rightarrow> string list \<Rightarrow> string list" where
  "set_insert x [] = [x]"
| "set_insert x (y # ys) = (if x = y then y # ys else if string_less x y then x # y # ys else y # set_insert x ys)"

definition cleanHeaderSet :: "string list \<Rightarrow> string list" where
  "cleanHeaderSet headers = foldr (\<lambda>h acc. set_insert (CanonicalHeaderKey h) acc) headers []"

section \<open>The option\<close>

text \<open>The loop over the configured headers. The list is the order in which Go goes through its map, which is left
  open; of two names with the same canonical form the later one counts.\<close>

definition configured_headers :: "(string \<times> string list) list \<Rightarrow> headers" where
  "configured_headers hs = fold (\<lambda>(h, v) m. m(CanonicalHeaderKey h \<mapsto> v)) hs Map.empty"

definition header_values :: "headers \<Rightarrow> string \<Rightarrow> string list" where
  "header_values m k = (case m k of None \<Rightarrow> [] | Some vs \<Rightarrow> vs)"

definition gateway_headers :: "(string \<times> string list) list \<Rightarrow> headers" where
  "gateway_headers hs =
     (let m = configured_headers hs;
          m = (if m ''Access-Control-Allow-Origin'' = None then m(''Access-Control-Allow-Origin'' \<mapsto> [''*'']) else m);
          m = (if m ''Access-Control-Allow-Methods'' = None then m(''Access-Control-Allow-Methods'' \<mapsto> [''GET'']) else m);
          m = m(''Access-Control-Allow-Headers'' \<mapsto> cleanHeaderSet ([''Content-Type'', ''User-Agent'', ''Range'', ''X-Requested-With'']
                @ header_values m ''Access-Control-Allow-Headers''))
      in m(''Access-Control-Expose-Headers'' \<mapsto> cleanHeaderSet ([''Content-Range'', ''X-Chunked-Output'', ''X-Stream-Output'']
                @ header_values m ''Access-Control-Expose-Headers'')))"

definition redirectHandler_ServeHTTP :: "('r, 's, 'm) gw_env \<Rightarrow> string \<Rightarrow> gw_request \<Rightarrow> resp \<Rightarrow> resp" where
  "redirectHandler_ServeHTTP env path r w = http_Redirect env r path 302 w"

section \<open>Laws\<close>

lemma string_less_trans: "string_less s t \<Longrightarrow> string_less t u \<Longrightarrow> string_less s u"
proof (induction s t arbitrary: u rule: string_less.induct)
  case (3 c s d t)
  then show ?case by (cases u) (auto simp: Let_def)
qed (auto elim: string_less.elims)

lemma string_less_total: "s \<noteq> t \<Longrightarrow> string_less s t \<or> string_less t s"
  by (induction s t rule: string_less.induct) (auto simp: Let_def neq_Nil_conv)

lemma set_insert_set [simp]: "set (set_insert x ys) = insert x (set ys)"
  by (induction x ys rule: set_insert.induct) auto

lemma set_insert_sorted: "sorted_wrt string_less ys \<Longrightarrow> sorted_wrt string_less (set_insert x ys)"
proof (induction x ys rule: set_insert.induct)
  case (2 x y ys)
  then show ?case using string_less_total [of x y] string_less_trans [of x y] by auto
qed simp

text \<open>The header sets are sorted, without repetition, and contain the canonical names of what was given.\<close>

lemma cleanHeaderSet_sorted: "sorted_wrt string_less (cleanHeaderSet hs) \<and> set (cleanHeaderSet hs) = CanonicalHeaderKey ` set hs"
  unfolding cleanHeaderSet_def by (induction hs) (auto intro: set_insert_sorted)

lemma canonical_loop_idem: "canonical_loop up (canonical_loop up s) = canonical_loop up s"
proof (induction up s rule: canonical_loop.induct)
  case (2 up c s)
  then show ?case by (auto simp: Let_def split: if_splits)
qed simp

text \<open>Whatever is configured, the gateway allows and exposes the headers it needs itself.\<close>

lemma gateway_headers_defaults:
  "set [''Content-Type'', ''User-Agent'', ''Range'', ''X-Requested-With''] \<subseteq> set (header_values (gateway_headers hs) ''Access-Control-Allow-Headers'')"
  "set [''Content-Range'', ''X-Chunked-Output'', ''X-Stream-Output''] \<subseteq> set (header_values (gateway_headers hs) ''Access-Control-Expose-Headers'')"
  "header_values (gateway_headers hs) ''Access-Control-Allow-Origin'' = (case configured_headers hs ''Access-Control-Allow-Origin'' of None \<Rightarrow> [''*''] | Some vs \<Rightarrow> vs)"
proof -
  have can: "CanonicalHeaderKey ''Content-Type'' = ''Content-Type''" "CanonicalHeaderKey ''User-Agent'' = ''User-Agent''"
    "CanonicalHeaderKey ''Range'' = ''Range''" "CanonicalHeaderKey ''X-Requested-With'' = ''X-Requested-With''"
    "CanonicalHeaderKey ''Content-Range'' = ''Content-Range''" "CanonicalHeaderKey ''X-Chunked-Output'' = ''X-Chunked-Output''"
    "CanonicalHeaderKey ''X-Stream-Output'' = ''X-Stream-Output''" by code_simp+
  show "set [''Content-Type'', ''User-Agent'', ''Range'', ''X-Requested-With''] \<subseteq> set (header_values (gateway_headers hs) ''Access-Control-Allow-Headers'')"
    "set [''Content-Range'', ''X-Chunked-Output'', ''X-Stream-Output''] \<subseteq> set (header_values (gateway_headers hs) ''Access-Control-Expose-Headers'')"
    by (simp_all add: gateway_headers_def header_values_def Let_def cleanHeaderSet_sorted can)
  show "header_values (gateway_headers hs) ''Access-Control-Allow-Origin'' = (case configured_headers hs ''Access-Control-Allow-Origin'' of None \<Rightarrow> [''*''] | Some vs \<Rightarrow> vs)"
    by (auto simp: gateway_headers_def header_values_def Let_def split: option.splits)
qed

end
