(* ===== verification/Pin_MFS.thy ===== *)
theory Pin_MFS
  imports Cid
begin

text \<open>
  The remote pinning of the mutable root by the daemon, from \<^verbatim>\<open>cmd/ipfs/pinmfs.go\<close>. A round reads the configuration
  and the root and then deals with every configured service: it is left alone, or asked for its pins and then told to
  add or to replace one. What the daemon remembers between rounds is the last pin per service.

  The goroutines of one round each concern another service and hand over one value each; they are run one
  after the other here, and \<open>collect_order\<close> shows that the order in which the values arrive does not matter. Parameters
  of a round (\<open>mfs_round\<close>) are what the configuration, the root, the clock and the remote services answer. Times are
  in nanoseconds. Logging is left out; errors that are only reported are collected.
\<close>

section \<open>Services and pins\<close>

record svc_config =
  svc_Endpoint :: string
  svc_Key :: string
  mfs_Enable :: bool
  mfs_PinName :: string
  mfs_RepinInterval :: string

record lastPin =
  lp_Time :: int
  lp_ServiceName :: string
  lp_ServiceConfig :: svc_config
  lp_CID :: cid

datatype pin_state = StatusQueued | StatusPinning | StatusPinned | StatusFailed

record pin_status =
  ps_RequestId :: string
  ps_Cid :: cid
  ps_Status :: pin_state
  ps_Created :: int

definition defaultRepinInterval :: int where
  "defaultRepinInterval = 5 * 60 * 1000000000"

definition daemonConfigPollInterval :: int where
  "daemonConfigPollInterval = 60 * 1000000000 div 2"

text \<open>What happens on a service: its pins are listed, one is added or replaced.\<close>

datatype svc_call = CallLs string | CallAdd string cid | CallReplace string string cid

record mfs_round =
  GetConfig :: "err + (string \<times> svc_config) list"
  RootCid :: "err + cid"
  ParseDuration :: "string \<Rightarrow> err + int"
  now :: int
  pin_now :: "string \<Rightarrow> int"
  Identity :: string
  HostAddrs :: "err + unit"
  Ls :: "svc_config \<Rightarrow> string \<Rightarrow> pin_status list \<times> err option"
  svc_Add :: "svc_config \<Rightarrow> string \<Rightarrow> cid \<Rightarrow> err option"
  svc_Replace :: "svc_config \<Rightarrow> string \<Rightarrow> string \<Rightarrow> cid \<Rightarrow> err option"

section \<open>The code\<close>

text \<open>The loop over the listed pins: the last request seen, and the creation time of a pin of the root itself that has
  not failed, at which the loop stops.\<close>

fun inspect_pins :: "cid \<Rightarrow> string \<Rightarrow> pin_status list \<Rightarrow> string \<times> int option" where
  "inspect_pins c existingRequestID [] = (existingRequestID, None)"
| "inspect_pins c existingRequestID (ps # rest) =
     (if ps_Cid ps = c \<and> ps_Status ps \<noteq> StatusFailed then (ps_RequestId ps, Some (ps_Created ps))
      else inspect_pins c (ps_RequestId ps) rest)"

definition pin_name :: "mfs_round \<Rightarrow> svc_config \<Rightarrow> string" where
  "pin_name rd svc = (if mfs_PinName svc = [] then ''policy/'' @ Identity rd @ ''/mfs'' else mfs_PinName svc)"

definition pinMFS :: "mfs_round \<Rightarrow> cid \<Rightarrow> string \<Rightarrow> svc_config \<Rightarrow> (err + lastPin) \<times> svc_call list" where
  "pinMFS rd c svcName svc =
     (let name = pin_name rd svc; pinTime = pin_now rd svcName in
      case Ls rd svc name of
        (pins, e) \<Rightarrow>
          (case inspect_pins c [] pins of
             (existingRequestID, found) \<Rightarrow>
               if e \<noteq> None then (Inl (''error while listing remote pins: '' @ the e), [CallLs svcName])
               else (case found of
                   Some created \<Rightarrow>
                     (Inr \<lparr>lp_Time = created, lp_ServiceName = svcName, lp_ServiceConfig = svc, lp_CID = c\<rparr>, [CallLs svcName])
                 | None \<Rightarrow>
                     (case HostAddrs rd of
                        Inl e \<Rightarrow> (Inl e, [CallLs svcName])
                      | Inr _ \<Rightarrow>
                          let (res, call) =
                            (if existingRequestID \<noteq> [] then (svc_Replace rd svc name existingRequestID c, CallReplace svcName existingRequestID c)
                             else (svc_Add rd svc name c, CallAdd svcName c))
                          in (case res of Some e \<Rightarrow> Inl e
                              | None \<Rightarrow> Inr \<lparr>lp_Time = pinTime, lp_ServiceName = svcName, lp_ServiceConfig = svc, lp_CID = c\<rparr>,
                              [CallLs svcName, call])))))"

definition repin_interval :: "mfs_round \<Rightarrow> svc_config \<Rightarrow> err + int" where
  "repin_interval rd svc =
     (if mfs_RepinInterval svc = [] then Inr defaultRepinInterval else ParseDuration rd (mfs_RepinInterval svc))"

text \<open>Whether a service is left alone because of its last pin.\<close>

definition skip_service :: "mfs_round \<Rightarrow> (string \<rightharpoonup> lastPin) \<Rightarrow> cid \<Rightarrow> string \<Rightarrow> svc_config \<Rightarrow> int \<Rightarrow> bool" where
  "skip_service rd lastPins rootCid svcName svc repinInterval =
     (case lastPins svcName of
        Some lp \<Rightarrow> lp_ServiceConfig lp = svc \<and> (lp_CID lp = rootCid \<or> now rd - lp_Time lp < repinInterval)
      | None \<Rightarrow> False)"

text \<open>One service: the value it puts on the channel, the error it reports and the calls it makes.\<close>

definition consider_service ::
  "mfs_round \<Rightarrow> (string \<rightharpoonup> lastPin) \<Rightarrow> cid \<Rightarrow> string \<times> svc_config \<Rightarrow> lastPin option \<times> err list \<times> svc_call list" where
  "consider_service rd lastPins rootCid entry =
     (case entry of (svcName, svc) \<Rightarrow>
        if \<not> mfs_Enable svc then (None, [], [])
        else (case repin_interval rd svc of
            Inl e \<Rightarrow> (None, [''remote pinning service has invalid MFS.RepinInterval: '' @ e], [])
          | Inr repinInterval \<Rightarrow>
              if skip_service rd lastPins rootCid svcName svc repinInterval then (None, [], [])
              else (case pinMFS rd rootCid svcName svc of
                  (Inl e, calls) \<Rightarrow> (None, [''pinning MFS root: '' @ e], calls)
                | (Inr r, calls) \<Rightarrow> (Some r, [], calls))))"

text \<open>Reading the channel.\<close>

fun collect_pins :: "(string \<rightharpoonup> lastPin) \<Rightarrow> lastPin option list \<Rightarrow> (string \<rightharpoonup> lastPin)" where
  "collect_pins lastPins [] = lastPins"
| "collect_pins lastPins (x # ch) =
     collect_pins (case x of None \<Rightarrow> lastPins | Some p \<Rightarrow> lastPins(lp_ServiceName p \<mapsto> p)) ch"

definition pinAllMFS ::
  "mfs_round \<Rightarrow> (string \<times> svc_config) list \<Rightarrow> cid \<Rightarrow> (string \<rightharpoonup> lastPin) \<Rightarrow> (string \<rightharpoonup> lastPin) \<times> err list \<times> svc_call list" where
  "pinAllMFS rd services rootCid lastPins =
     (let rs = map (consider_service rd lastPins rootCid) services in
      (collect_pins lastPins (map fst rs), concat (map (\<lambda>r. fst (snd r)) rs), concat (map (\<lambda>r. snd (snd r)) rs)))"

text \<open>One turn of the loop of \<open>pinMFSOnChange\<close>, after the polling sleep.\<close>

definition mfs_turn :: "mfs_round \<Rightarrow> (string \<rightharpoonup> lastPin) \<Rightarrow> (string \<rightharpoonup> lastPin) \<times> err list \<times> svc_call list" where
  "mfs_turn rd lastPins =
     (case GetConfig rd of
        Inl e \<Rightarrow> (lastPins, [''pinning reading config: '' @ e], [])
      | Inr cfg \<Rightarrow>
          (case RootCid rd of
             Inl e \<Rightarrow> (lastPins, [''pinning reading MFS root: '' @ e], [])
           | Inr rootCid \<Rightarrow> pinAllMFS rd cfg rootCid lastPins))"

section \<open>One round\<close>

lemma pinMFS_Inr:
  assumes "pinMFS rd c n svc = (Inr p, calls)"
  shows "lp_ServiceName p = n" "lp_ServiceConfig p = svc" "lp_CID p = c"
    "calls = [CallLs n] \<or> lp_Time p = pin_now rd n \<and> (\<exists>call. calls = [CallLs n, call])"
  using assms by (auto simp: pinMFS_def Let_def split: prod.splits option.splits sum.splits if_splits)

lemma consider_name:
  "consider_service rd lps c (n, svc) = (Some p, es, calls) \<Longrightarrow> lp_ServiceName p = n \<and> lp_ServiceConfig p = svc \<and> lp_CID p = c"
  by (auto simp: consider_service_def dest: pinMFS_Inr split: if_splits sum.splits prod.splits)

text \<open>Values of different services can be read in any order.\<close>

definition names_of :: "lastPin option list \<Rightarrow> string list" where
  "names_of ch = concat (map (\<lambda>x. case x of None \<Rightarrow> [] | Some p \<Rightarrow> [lp_ServiceName p]) ch)"

lemma names_of_simps [simp]:
  "names_of [] = []" "names_of (None # ch) = names_of ch" "names_of (Some p # ch) = lp_ServiceName p # names_of ch"
  by (simp_all add: names_of_def)

lemma collect_pins_other: "n \<notin> set (names_of ch) \<Longrightarrow> collect_pins lps ch n = lps n"
proof (induction ch arbitrary: lps)
  case (Cons x ch)
  then show ?case by (cases x) auto
qed simp

lemma collect_pins_member:
  "distinct (names_of ch) \<Longrightarrow> Some p \<in> set ch \<Longrightarrow> collect_pins lps ch (lp_ServiceName p) = Some p"
proof (induction ch arbitrary: lps)
  case (Cons x ch)
  then show ?case using collect_pins_other by (cases x) auto
qed simp

lemma names_of_member: "n \<in> set (names_of ch) \<longleftrightarrow> (\<exists>p. Some p \<in> set ch \<and> lp_ServiceName p = n)"
  by (auto simp: names_of_def split: option.splits)

lemma collect_order:
  assumes "distinct (names_of ch)" "distinct (names_of ch')" "set ch = set ch'"
  shows "collect_pins lps ch = collect_pins lps ch'"
proof
  fix n
  show "collect_pins lps ch n = collect_pins lps ch' n"
  proof (cases "n \<in> set (names_of ch)")
    case True
    then obtain p where "Some p \<in> set ch" "lp_ServiceName p = n" by (auto simp: names_of_member)
    then show ?thesis using collect_pins_member assms by metis
  next
    case False
    then have "n \<notin> set (names_of ch')" using assms(3) by (auto simp: names_of_member)
    then show ?thesis using False collect_pins_other by metis
  qed
qed

lemma names_of_services: "set (names_of (map (\<lambda>e. fst (consider_service rd lps c e)) services)) \<subseteq> fst ` set services"
  "distinct (map fst services) \<Longrightarrow> distinct (names_of (map (\<lambda>e. fst (consider_service rd lps c e)) services))"
proof -
  have name: "lp_ServiceName p = fst e" if "fst (consider_service rd lps c e) = Some p" for e p
    using that consider_name by (cases e) (metis fst_conv prod.collapse)
  show sub: "set (names_of (map (\<lambda>e. fst (consider_service rd lps c e)) services)) \<subseteq> fst ` set services" for services
    using name by (force simp: names_of_member)
  show "distinct (map fst services) \<Longrightarrow> distinct (names_of (map (\<lambda>e. fst (consider_service rd lps c e)) services))"
  proof (induction services)
    case (Cons e services)
    then show ?case using name [of e] sub [of services] by (cases "fst (consider_service rd lps c e)") auto
  qed simp
qed

text \<open>What the daemon remembers of a service after a round.\<close>

lemma pinAllMFS_service:
  assumes "distinct (map fst services)"
  shows "fst (pinAllMFS rd services c lps) n =
    (case map_of services n of
       None \<Rightarrow> lps n
     | Some svc \<Rightarrow> (case fst (consider_service rd lps c (n, svc)) of None \<Rightarrow> lps n | Some p \<Rightarrow> Some p))"
proof -
  define ch where "ch = map (\<lambda>e. fst (consider_service rd lps c e)) services"
  have run: "fst (pinAllMFS rd services c lps) = collect_pins lps ch" by (simp add: pinAllMFS_def Let_def ch_def comp_def)
  note nm = names_of_services [where rd = rd and lps = lps and c = c and services = services, folded ch_def]
  have name: "lp_ServiceName p = m" if "fst (consider_service rd lps c (m, svc)) = Some p" for m svc p
    using that consider_name by (metis prod.collapse)
  show ?thesis
  proof (cases "map_of services n")
    case None
    then have "n \<notin> set (names_of ch)" using nm(1) by (auto simp: map_of_eq_None_iff)
    then show ?thesis using None run collect_pins_other by simp
  next
    case (Some svc)
    then have mem: "(n, svc) \<in> set services" by (rule map_of_SomeD)
    show ?thesis
    proof (cases "fst (consider_service rd lps c (n, svc))")
      case None
      have "n \<notin> set (names_of ch)"
      proof
        assume "n \<in> set (names_of ch)"
        then obtain e p where e: "e \<in> set services" "fst (consider_service rd lps c e) = Some p" "lp_ServiceName p = n"
          by (auto simp: names_of_member ch_def) (metis surj_pair)
        then have "fst e = n" using name by (metis prod.collapse)
        then have "e = (n, svc)" using e(1) mem assms by (metis eq_key_imp_eq_value prod.collapse)
        then show False using e(2) None by simp
      qed
      then show ?thesis using Some None run collect_pins_other by simp
    next
      case (Some p)
      then have "Some p \<in> set ch" using mem by (force simp: ch_def)
      then have "collect_pins lps ch n = Some p" using collect_pins_member [OF nm(2) [OF assms]] name [OF Some] by metis
      then show ?thesis using Some \<open>map_of services n = Some svc\<close> run by simp
    qed
  qed
qed


section \<open>Pins do not pile up\<close>

lemma inspect_pins_spec:
  "inspect_pins c i pins = (r, t) \<Longrightarrow>
     (case t of
        Some created \<Rightarrow> (\<exists>ps \<in> set pins. ps_Cid ps = c \<and> ps_Status ps \<noteq> StatusFailed \<and> ps_Created ps = created)
      | None \<Rightarrow> (\<forall>ps \<in> set pins. ps_Cid ps = c \<longrightarrow> ps_Status ps = StatusFailed)
          \<and> r = (if pins = [] then i else ps_RequestId (last pins)))"
proof (induction pins arbitrary: i)
  case (Cons ps pins)
  show ?case
  proof (cases "ps_Cid ps = c \<and> ps_Status ps \<noteq> StatusFailed")
    case True
    then show ?thesis using Cons.prems by auto
  next
    case False
    then have "inspect_pins c (ps_RequestId ps) pins = (r, t)" using Cons.prems by (auto split: if_splits)
    then show ?thesis using Cons.IH [of "ps_RequestId ps"] False by (cases t) auto
  qed
qed auto

text \<open>The pins of the mutable root do not pile up on a service. A pin is added only when the service listed none of
  that name; when it listed some, the last one listed is replaced, and only if none of them is a pin of the
  current root that has not failed; otherwise nothing is changed. A success is remembered with the root, the
  service and its configuration. It is assumed that the identifiers of requests are not empty.\<close>

lemma pinMFS_no_duplicates:
  assumes run: "pinMFS rd c n svc = (Inr p, calls)" and ls: "Ls rd svc (pin_name rd svc) = (pins, e)"
    and ids: "list_all (\<lambda>ps. ps_RequestId ps \<noteq> []) pins"
  shows "lp_ServiceName p = n \<and> lp_ServiceConfig p = svc \<and> lp_CID p = c \<and>
    (if list_ex (\<lambda>ps. ps_Cid ps = c \<and> ps_Status ps \<noteq> StatusFailed) pins then calls = [CallLs n]
     else if pins = [] then calls = [CallLs n, CallAdd n c]
     else calls = [CallLs n, CallReplace n (ps_RequestId (last pins)) c])"
proof -
  obtain r t where it: "inspect_pins c [] pins = (r, t)" by fastforce
  note spec = inspect_pins_spec [OF it]
  have e: "e = None" using run ls it by (auto simp: pinMFS_def Let_def split: if_splits)
  have keep: "lp_ServiceName p = n \<and> lp_ServiceConfig p = svc \<and> lp_CID p = c" using pinMFS_Inr [OF run] by simp
  show ?thesis
  proof (cases t)
    case (Some created)
    then have "list_ex (\<lambda>ps. ps_Cid ps = c \<and> ps_Status ps \<noteq> StatusFailed) pins" using spec by (auto simp: list_ex_iff)
    moreover have "calls = [CallLs n]" using run ls it e Some by (auto simp: pinMFS_def Let_def)
    ultimately show ?thesis using keep by simp
  next
    case None
    then have no: "\<not> list_ex (\<lambda>ps. ps_Cid ps = c \<and> ps_Status ps \<noteq> StatusFailed) pins"
      and r: "r = (if pins = [] then [] else ps_RequestId (last pins))" using spec by (auto simp: list_ex_iff)
    have rn: "r \<noteq> [] \<longleftrightarrow> pins \<noteq> []" using r ids by (auto simp: list_all_iff)
    have "calls = [CallLs n, if r \<noteq> [] then CallReplace n r c else CallAdd n c]"
      using run ls it e None by (auto simp: pinMFS_def Let_def split: sum.splits option.splits if_splits)
    then show ?thesis using keep no r rn by auto
  qed
qed

section \<open>How often a service is written to\<close>

text \<open>Whether a round adds or replaces the pin of a service with success.\<close>

definition wrote :: "string \<Rightarrow> mfs_round \<Rightarrow> (string \<rightharpoonup> lastPin) \<Rightarrow> bool" where
  "wrote n rd lps =
     (case (GetConfig rd, RootCid rd) of
        (Inr cfg, Inr c) \<Rightarrow>
          (case map_of cfg n of
             None \<Rightarrow> False
           | Some svc \<Rightarrow> (case consider_service rd lps c (n, svc) of (Some p, _, calls) \<Rightarrow> length calls = 2 | _ \<Rightarrow> False))
      | _ \<Rightarrow> False)"

text \<open>The rounds of a run that wrote to a service: when the round began, and the time that was remembered.\<close>

fun writes :: "string \<Rightarrow> mfs_round list \<Rightarrow> (string \<rightharpoonup> lastPin) \<Rightarrow> (int \<times> int) list" where
  "writes n [] lps = []"
| "writes n (rd # rds) lps =
     (if wrote n rd lps then [(now rd, pin_now rd n)] else []) @ writes n rds (fst (mfs_turn rd lps))"

text \<open>Rounds in which a service, where the configuration can be read, is configured in one way, with one interval.\<close>

definition steady :: "string \<Rightarrow> svc_config \<Rightarrow> int \<Rightarrow> mfs_round \<Rightarrow> bool" where
  "steady n svc d rd =
     (now rd \<le> pin_now rd n \<and> repin_interval rd svc = Inr d
      \<and> (case GetConfig rd of Inr cfg \<Rightarrow> distinct (map fst cfg) \<and> map_of cfg n = Some svc | Inl _ \<Rightarrow> True))"

text \<open>A round leaves what is remembered of the service, or was allowed to contact it.\<close>

lemma turn_cases:
  assumes "steady n svc d rd"
  shows "(fst (mfs_turn rd lps) n = lps n \<and> \<not> wrote n rd lps) \<or>
    (\<exists>p c. fst (mfs_turn rd lps) n = Some p \<and> lp_ServiceConfig p = svc \<and> \<not> skip_service rd lps c n svc d
      \<and> (wrote n rd lps \<longrightarrow> lp_Time p = pin_now rd n))"
proof (cases "\<exists>cfg c. GetConfig rd = Inr cfg \<and> RootCid rd = Inr c")
  case True
  then obtain cfg c where cfg: "GetConfig rd = Inr cfg" "RootCid rd = Inr c" by blast
  have svc: "distinct (map fst cfg)" "map_of cfg n = Some svc" "repin_interval rd svc = Inr d"
    using assms cfg by (auto simp: steady_def)
  obtain x es calls where x: "consider_service rd lps c (n, svc) = (x, es, calls)" by (metis prod.collapse)
  have turn: "fst (mfs_turn rd lps) n = (case x of None \<Rightarrow> lps n | Some p \<Rightarrow> Some p)"
    using pinAllMFS_service [OF svc(1), of rd c lps n] cfg svc(2) x by (simp add: mfs_turn_def)
  have wr: "wrote n rd lps \<longleftrightarrow> (\<exists>p. x = Some p) \<and> length calls = 2"
    using cfg svc(2) x by (auto simp: wrote_def split: option.splits)
  show ?thesis
  proof (cases x)
    case None
    then show ?thesis using turn wr by simp
  next
    case (Some p)
    then have sk: "\<not> skip_service rd lps c n svc d" "pinMFS rd c n svc = (Inr p, calls)"
      using x svc(3) by (auto simp: consider_service_def split: if_splits prod.splits sum.splits)
    note pp = pinMFS_Inr [OF sk(2)]
    have "wrote n rd lps \<longrightarrow> lp_Time p = pin_now rd n" using wr pp(4) by auto
    then show ?thesis using turn Some sk(1) pp(2) by auto
  qed
next
  case False
  then have "fst (mfs_turn rd lps) = lps" "\<not> wrote n rd lps"
    by (auto simp: mfs_turn_def wrote_def split: sum.splits)
  then show ?thesis by simp
qed

text \<open>What is remembered of the last write at time \<open>tw\<close> keeps later rounds away.\<close>

definition guarded :: "string \<Rightarrow> svc_config \<Rightarrow> int \<Rightarrow> int \<Rightarrow> mfs_round list \<Rightarrow> (string \<rightharpoonup> lastPin) \<Rightarrow> bool" where
  "guarded n svc d tw rds lps =
     (\<exists>lp. lps n = Some lp \<and> lp_ServiceConfig lp = svc \<and> (lp_Time lp = tw \<or> (\<forall>rd \<in> set rds. tw + d \<le> now rd)))"

lemma guarded_writes:
  "guarded n svc d tw rds lps \<Longrightarrow> list_all (steady n svc d) rds \<Longrightarrow> sorted_wrt (\<lambda>a b. now a \<le> now b) rds
    \<Longrightarrow> (a, b) \<in> set (writes n rds lps) \<Longrightarrow> tw + d \<le> a"
proof (induction rds arbitrary: lps)
  case (Cons rd rds)
  define lps' where "lps' = fst (mfs_turn rd lps)"
  obtain lp where lp: "lps n = Some lp" "lp_ServiceConfig lp = svc"
    "lp_Time lp = tw \<or> (\<forall>r \<in> set (rd # rds). tw + d \<le> now r)" using Cons.prems(1) by (auto simp: guarded_def)
  consider "lps' n = lps n" "\<not> wrote n rd lps"
    | p c where "lps' n = Some p" "lp_ServiceConfig p = svc" "\<not> skip_service rd lps c n svc d"
    using turn_cases [of n svc d rd lps] Cons.prems(2) by (auto simp: lps'_def)
  then show ?case
  proof cases
    case 1
    then have "guarded n svc d tw rds lps'" using lp by (auto simp: guarded_def)
    then show ?thesis using Cons 1(2) by (auto simp: lps'_def)
  next
    case (2 p c)
    then have "d \<le> now rd - lp_Time lp" using lp by (auto simp: skip_service_def)
    then have ge: "tw + d \<le> now rd" using lp(3) by auto
    then have "guarded n svc d tw rds lps'" using 2 Cons.prems(3) by (fastforce simp: guarded_def)
    then show ?thesis using Cons ge by (auto simp: lps'_def split: if_splits)
  qed
qed simp

text \<open>C34. A service is not written to more often than its interval allows: in every run in which the configuration of
  the service stays the same, and whatever the root, the other services and the failures are, each round that adds
  or replaces its pin begins at least the interval after the time that was remembered for every earlier one.
  Rounds follow each other in time.\<close>

theorem repin_interval_respected:
  assumes "list_all (steady n svc d) rds" "sorted_wrt (\<lambda>a b. now a \<le> now b) rds"
  shows "sorted_wrt (\<lambda>w w'. snd w + d \<le> fst w') (writes n rds lps)"
  using assms
proof (induction rds arbitrary: lps)
  case (Cons rd rds)
  define lps' where "lps' = fst (mfs_turn rd lps)"
  have IH: "sorted_wrt (\<lambda>w w'. snd w + d \<le> fst w') (writes n rds lps')" using Cons by auto
  show ?case
  proof (cases "wrote n rd lps")
    case True
    then obtain p where "lps' n = Some p" "lp_ServiceConfig p = svc" "lp_Time p = pin_now rd n"
      using turn_cases [of n svc d rd lps] Cons.prems(1) by (auto simp: lps'_def)
    then have "guarded n svc d (pin_now rd n) rds lps'" by (auto simp: guarded_def)
    then have "pin_now rd n + d \<le> a" if "(a, b) \<in> set (writes n rds lps')" for a b
      by (rule guarded_writes [OF _ _ _ that]) (use Cons.prems in auto)
    then show ?thesis using IH True by (auto simp: lps'_def)
  qed (use IH in \<open>simp add: lps'_def\<close>)
qed simp

section \<open>Witnesses\<close>

definition svc1 :: svc_config where
  "svc1 = \<lparr>svc_Endpoint = ''https://pin.example'', svc_Key = ''k'', mfs_Enable = True, mfs_PinName = ''root'', mfs_RepinInterval = []\<rparr>"

definition old_pin :: pin_status where
  "old_pin = \<lparr>ps_RequestId = ''r1'', ps_Cid = CidV0 ''a'', ps_Status = StatusPinned, ps_Created = 0\<rparr>"

text \<open>A round that begins at a time with a root, on a service that lists the given pins and takes every request.\<close>

definition round_at :: "int \<Rightarrow> cid \<Rightarrow> pin_status list \<Rightarrow> mfs_round" where
  "round_at t c pins =
     \<lparr>GetConfig = Inr [(''svc'', svc1)], RootCid = Inr c, ParseDuration = (\<lambda>_. Inl ''invalid duration''), now = t,
      pin_now = (\<lambda>_. t + 1), Identity = ''Q'', HostAddrs = Inr (), Ls = (\<lambda>_ _. (pins, None)),
      svc_Add = (\<lambda>_ _ _. None), svc_Replace = (\<lambda>_ _ _ _. None)\<rparr>"

lemma pinMFS_no_duplicates_witness:
  "snd (pinMFS (round_at 7 (CidV0 ''b'') [old_pin]) (CidV0 ''b'') ''svc'' svc1)
     = [CallLs ''svc'', CallReplace ''svc'' ''r1'' (CidV0 ''b'')]"
proof -
  define p where "p = \<lparr>lp_Time = 8, lp_ServiceName = ''svc'', lp_ServiceConfig = svc1, lp_CID = CidV0 ''b''\<rparr>"
  have run: "pinMFS (round_at 7 (CidV0 ''b'') [old_pin]) (CidV0 ''b'') ''svc'' svc1
      = (Inr p, [CallLs ''svc'', CallReplace ''svc'' ''r1'' (CidV0 ''b'')])"
    unfolding p_def by code_simp
  have ls: "Ls (round_at 7 (CidV0 ''b'') [old_pin]) svc1 (pin_name (round_at 7 (CidV0 ''b'') [old_pin]) svc1) = ([old_pin], None)"
    by (simp add: round_at_def)
  show ?thesis using pinMFS_no_duplicates [OF run ls] run by (simp add: old_pin_def)
qed

definition three_rounds :: "mfs_round list" where
  "three_rounds = [round_at 0 (CidV0 ''a'') [], round_at 30000000000 (CidV0 ''b'') [old_pin],
     round_at 400000000000 (CidV0 ''c'') [old_pin]]"

theorem repin_interval_respected_witness:
  "writes ''svc'' three_rounds Map.empty = [(0, 1), (400000000000, 400000000001)]
   \<and> sorted_wrt (\<lambda>w w'. snd w + 300000000000 \<le> fst w') (writes ''svc'' three_rounds Map.empty)"
proof
  show "writes ''svc'' three_rounds Map.empty = [(0, 1), (400000000000, 400000000001)]" by code_simp
  have 1: "list_all (steady ''svc'' svc1 300000000000) three_rounds" by code_simp
  have 2: "sorted_wrt (\<lambda>a b. now a \<le> now b) three_rounds" by code_simp
  show "sorted_wrt (\<lambda>w w'. snd w + 300000000000 \<le> fst w') (writes ''svc'' three_rounds Map.empty)"
    using repin_interval_respected [OF 1 2] .
qed


end
