(* ===== verification/Mfs.thy ===== *)
theory Mfs
  imports Dag_Walk "HOL-Library.Multiset" "HOL-Library.Char_ord" "HOL-Library.List_Lexorder"
begin

text \<open>
  The mutable file system of \<^verbatim>\<open>go-mfs\<close> (\<^verbatim>\<open>dir.go\<close>, \<^verbatim>\<open>ops.go\<close>, \<^verbatim>\<open>root.go\<close>) over a DAG service, as the code that adds files
  and the \<^verbatim>\<open>files\<close> commands use it. A directory has the node it was made from, changed in memory, and a
  cache of the children that were opened, whose changes are only written into the node when it is synced. The
  objects are reached through their parents, so an operation on a path takes the root and returns the changed one.

  What a file system shows is the function \<open>view\<close> from paths to entries; \<open>wf_fs\<close> is the invariant under which the
  operations are described by what they do to the view. Directories are kept in one node: sharding is switched off.
  The store \<open>dag\<close> is everything the DAG service can get, whether the block is local or has to be fetched. Which calls of
  the service fail is up to two oracles; the descriptions of the operations assume that reads do not fail (\<open>sound_env\<close>), since the code
  takes a child that cannot be read for a missing one and replaces it. The sizes of links are left out, since they are
  determined by the nodes the links point to.
\<close>

section \<open>Nodes\<close>

datatype utype = TRaw | TDirectory | TFile | TMetadata | TSymlink | NotUnixfs

datatype ipld_node =
    ProtoNode (pb_type: utype) (pb_data: string) (pb_links: "(string \<times> cid) list") (pb_builder: cid_prefix)
  | RawNode string

fun Links :: "ipld_node \<Rightarrow> (string \<times> cid) list" where
  "Links (ProtoNode t d ls b) = ls"
| "Links (RawNode d) = []"

text \<open>Encoding a node sorts its links by name, in place.\<close>

fun sort_links :: "ipld_node \<Rightarrow> ipld_node" where
  "sort_links (ProtoNode t d ls b) = ProtoNode t d (sort_key fst ls) b"
| "sort_links (RawNode d) = RawNode d"

fun is_dir :: "ipld_node \<Rightarrow> bool" where
  "is_dir (ProtoNode t d ls b) = (t = TDirectory)"
| "is_dir (RawNode d) = False"

text \<open>What \<^verbatim>\<open>cacheNode\<close> accepts as a file.\<close>

fun is_leaf :: "ipld_node \<Rightarrow> bool" where
  "is_leaf (ProtoNode t d ls b) = (t \<in> {TFile, TRaw, TSymlink})"
| "is_leaf (RawNode d) = True"

fun SetCidBuilder :: "cid_prefix \<Rightarrow> ipld_node \<Rightarrow> ipld_node" where
  "SetCidBuilder b (ProtoNode t d ls b') = ProtoNode t d ls b"
| "SetCidBuilder b (RawNode d) = RawNode d"

fun CidBuilder :: "ipld_node \<Rightarrow> cid_prefix" where
  "CidBuilder (ProtoNode t d ls b) = b"
| "CidBuilder (RawNode d) = \<lparr>Version = 0, Codec = 0, MhType = 0, MhLength = 0\<rparr>"

definition EmptyDirNode :: "cid_prefix \<Rightarrow> ipld_node" where
  "EmptyDirNode b = ProtoNode TDirectory [] [] b"

section \<open>The DAG service\<close>

type_synonym dagmap = "cid \<rightharpoonup> ipld_node"

record dag_state =
  dag :: dagmap
  dag_calls :: nat

text \<open>The hash of a node, and what the calls of the DAG service return beyond success: \<open>add_err n\<close>, \<open>get_err n\<close> for the
  \<open>n\<close>-th call.\<close>

record mfs_env =
  Cid_of :: "ipld_node \<Rightarrow> cid"
  add_err :: "nat \<Rightarrow> err option"
  get_err :: "nat \<Rightarrow> err option"

datatype mfs_err = ErrNotExist | ErrExist | ErrDirExists | MErr err | Diverged

definition node_Cid :: "'e mfs_env_scheme \<Rightarrow> ipld_node \<Rightarrow> cid" where
  "node_Cid env nd = Cid_of env (sort_links nd)"

definition dag_Add :: "'e mfs_env_scheme \<Rightarrow> ipld_node \<Rightarrow> 'z dag_state_scheme \<Rightarrow> mfs_err option \<times> 'z dag_state_scheme" where
  "dag_Add env nd s =
     (case add_err env (dag_calls s) of
        Some e \<Rightarrow> (Some (MErr e), s\<lparr>dag_calls := Suc (dag_calls s)\<rparr>)
      | None \<Rightarrow> (None, s\<lparr>dag := (dag s)(node_Cid env nd \<mapsto> sort_links nd), dag_calls := Suc (dag_calls s)\<rparr>))"

definition dag_Get :: "'e mfs_env_scheme \<Rightarrow> cid \<Rightarrow> 'z dag_state_scheme \<Rightarrow> (mfs_err + ipld_node) \<times> 'z dag_state_scheme" where
  "dag_Get env c s =
     (let s' = s\<lparr>dag_calls := Suc (dag_calls s)\<rparr> in
      case get_err env (dag_calls s) of
        Some e \<Rightarrow> (Inl (MErr e), s')
      | None \<Rightarrow> (case dag s c of None \<Rightarrow> (Inl (MErr ''merkledag: not found''), s') | Some nd \<Rightarrow> (Inr nd, s')))"

section \<open>Directories\<close>

text \<open>\<^verbatim>\<open>BasicDirectory.AddChild\<close> and \<^verbatim>\<open>RemoveChild\<close>, on the node.\<close>

fun remove_link :: "string \<Rightarrow> ipld_node \<Rightarrow> ipld_node" where
  "remove_link name (ProtoNode t d ls b) = ProtoNode t d (filter (\<lambda>l. fst l \<noteq> name) ls) b"
| "remove_link name (RawNode d) = RawNode d"

fun add_link :: "string \<Rightarrow> cid \<Rightarrow> ipld_node \<Rightarrow> ipld_node" where
  "add_link name c (ProtoNode t d ls b) = ProtoNode t d (filter (\<lambda>l. fst l \<noteq> name) ls @ [(name, c)]) b"
| "add_link name c (RawNode d) = RawNode d"

datatype fsnode = File (file_node: ipld_node) | Directory (unixfsDir: ipld_node) (entriesCache: "(string \<times> fsnode) list")

definition set_entry :: "string \<Rightarrow> 'a \<Rightarrow> (string \<times> 'a) list \<Rightarrow> (string \<times> 'a) list" where
  "set_entry name x es = filter (\<lambda>e. fst e \<noteq> name) es @ [(name, x)]"

text \<open>\<^verbatim>\<open>cacheNode\<close>: the object for a node, before it is cached.\<close>

fun fs_object :: "ipld_node \<Rightarrow> mfs_err + fsnode" where
  "fs_object (RawNode d) = Inr (File (RawNode d))"
| "fs_object (ProtoNode t d ls b) =
     (if t = NotUnixfs then Inl (MErr ''not a unixfs node'')
      else if t = TDirectory then Inr (Directory (ProtoNode t d ls b) [])
      else if t = TMetadata then Inl (MErr ''not yet implemented'')
      else Inr (File (ProtoNode t d ls b)))"

text \<open>\<^verbatim>\<open>childUnsync\<close>: the child, and the directory with the child in its cache.\<close>

definition childUnsync ::
  "'e mfs_env_scheme \<Rightarrow> string \<Rightarrow> ipld_node \<Rightarrow> (string \<times> fsnode) list \<Rightarrow> 'z dag_state_scheme
    \<Rightarrow> (mfs_err + fsnode) \<times> (string \<times> fsnode) list \<times> 'z dag_state_scheme" where
  "childUnsync env name dnode cache s =
     (case map_of cache name of
        Some entry \<Rightarrow> (Inr entry, cache, s)
      | None \<Rightarrow>
          (case map_of (Links dnode) name of
             None \<Rightarrow> (Inl ErrNotExist, cache, s)
           | Some c \<Rightarrow>
               (case dag_Get env c s of
                  (Inl e, s') \<Rightarrow> (Inl e, cache, s')
                | (Inr nd, s') \<Rightarrow>
                    (case fs_object nd of
                       Inl e \<Rightarrow> (Inl e, cache, s')
                     | Inr fsn \<Rightarrow> (Inr fsn, set_entry name fsn cache, s')))))"

text \<open>\<^verbatim>\<open>Directory.Mkdir\<close>: whether it is a new directory, an old one (with the error for it) or an error.\<close>

datatype mkdir_result = MkNew fsnode | MkOld fsnode | MkErr mfs_err

definition dir_Mkdir ::
  "'e mfs_env_scheme \<Rightarrow> string \<Rightarrow> ipld_node \<Rightarrow> (string \<times> fsnode) list \<Rightarrow> 'z dag_state_scheme
    \<Rightarrow> mkdir_result \<times> ipld_node \<times> (string \<times> fsnode) list \<times> 'z dag_state_scheme" where
  "dir_Mkdir env name dnode cache s =
     (case childUnsync env name dnode cache s of
        (Inr (Directory nd es), cache', s') \<Rightarrow> (MkOld (Directory nd es), dnode, cache', s')
      | (Inr (File nd), cache', s') \<Rightarrow> (MkErr ErrExist, dnode, cache', s')
      | (Inl _, cache', s') \<Rightarrow>
          (let ndir = EmptyDirNode (CidBuilder dnode) in
           case dag_Add env ndir s' of
             (Some e, s'') \<Rightarrow> (MkErr e, dnode, cache', s'')
           | (None, s'') \<Rightarrow>
               (let dirobj = Directory ndir [] in
                (MkNew dirobj, add_link name (node_Cid env ndir) dnode, set_entry name dirobj cache', s''))))"

text \<open>\<^verbatim>\<open>Directory.AddChild\<close>.\<close>

definition dir_AddChild ::
  "'e mfs_env_scheme \<Rightarrow> string \<Rightarrow> ipld_node \<Rightarrow> ipld_node \<Rightarrow> (string \<times> fsnode) list \<Rightarrow> 'z dag_state_scheme
    \<Rightarrow> mfs_err option \<times> ipld_node \<times> (string \<times> fsnode) list \<times> 'z dag_state_scheme" where
  "dir_AddChild env name nd dnode cache s =
     (case childUnsync env name dnode cache s of
        (Inr _, cache', s') \<Rightarrow> (Some ErrDirExists, dnode, cache', s')
      | (Inl _, cache', s') \<Rightarrow>
          (case dag_Add env nd s' of
             (Some e, s'') \<Rightarrow> (Some e, dnode, cache', s'')
           | (None, s'') \<Rightarrow> (None, add_link name (node_Cid env nd) dnode, cache', s'')))"

text \<open>\<^verbatim>\<open>GetNode\<close> of a file and of a directory, with \<^verbatim>\<open>sync\<close> over the cache. The cache is a map of Go, and
  is gone through in some order; what is stored has its links sorted.\<close>

fun GetNode :: "'e mfs_env_scheme \<Rightarrow> fsnode \<Rightarrow> 'z dag_state_scheme \<Rightarrow> (mfs_err + ipld_node) \<times> fsnode \<times> 'z dag_state_scheme"
  and sync_entries ::
    "'e mfs_env_scheme \<Rightarrow> (string \<times> fsnode) list \<Rightarrow> ipld_node \<Rightarrow> 'z dag_state_scheme
      \<Rightarrow> mfs_err option \<times> (string \<times> fsnode) list \<times> ipld_node \<times> 'z dag_state_scheme" where
  "GetNode env (File nd) s = (Inr nd, File nd, s)"
| "GetNode env (Directory dnode cache) s =
     (case sync_entries env cache dnode s of
        (Some e, cache', dnode', s') \<Rightarrow> (Inl e, Directory dnode' cache', s')
      | (None, cache', dnode', s') \<Rightarrow>
          (case dag_Add env dnode' s' of
             (Some e, s'') \<Rightarrow> (Inl e, Directory dnode' cache', s'')
           | (None, s'') \<Rightarrow> (Inr (sort_links dnode'), Directory (sort_links dnode') cache', s'')))"
| "sync_entries env [] dnode s = (None, [], dnode, s)"
| "sync_entries env ((name, entry) # cache) dnode s =
     (case GetNode env entry s of
        (Inl e, entry', s') \<Rightarrow> (Some e, (name, entry') # cache, dnode, s')
      | (Inr nd, entry', s') \<Rightarrow>
          (case sync_entries env cache (add_link name (node_Cid env nd) dnode) s' of
             (r, cache', dnode', s'') \<Rightarrow> (r, (name, entry') # cache', dnode', s'')))"

text \<open>\<^verbatim>\<open>Root.FlushMemFree\<close> and the flush of the root directory.\<close>

definition root_Flush :: "'e mfs_env_scheme \<Rightarrow> fsnode \<Rightarrow> 'z dag_state_scheme \<Rightarrow> mfs_err option \<times> fsnode \<times> 'z dag_state_scheme" where
  "root_Flush env r s =
     (case GetNode env r s of
        (Inl e, r', s') \<Rightarrow> (Some e, r', s')
      | (Inr nd, r', s') \<Rightarrow> (case dag_Add env nd s' of (e, s'') \<Rightarrow> (e, r', s'')))"

definition FlushMemFree :: "'e mfs_env_scheme \<Rightarrow> fsnode \<Rightarrow> 'z dag_state_scheme \<Rightarrow> mfs_err option \<times> fsnode \<times> 'z dag_state_scheme" where
  "FlushMemFree env r s =
     (case root_Flush env r s of
        (Some e, r', s') \<Rightarrow> (Some e, r', s')
      | (None, r', s') \<Rightarrow> (None, Directory (unixfsDir r') [], s'))"

definition ListNames :: "fsnode \<Rightarrow> string list" where
  "ListNames d = map fst (Links (unixfsDir d))"

section \<open>Operations on paths\<close>

record MkdirOpts =
  Mkparents :: bool
  opt_Flush :: bool
  opt_CidBuilder :: "cid_prefix option"

definition set_builder :: "cid_prefix option \<Rightarrow> fsnode \<Rightarrow> fsnode" where
  "set_builder b d =
     (case (b, d) of (Some b, Directory nd cache) \<Rightarrow> Directory (SetCidBuilder b nd) cache | _ \<Rightarrow> d)"

text \<open>The loop of \<^verbatim>\<open>Mkdir\<close> over the parts of a path and what follows it for the last part.\<close>

fun mkdir_loop ::
  "'e mfs_env_scheme \<Rightarrow> MkdirOpts \<Rightarrow> string list \<Rightarrow> fsnode \<Rightarrow> 'z dag_state_scheme
    \<Rightarrow> mfs_err option \<times> fsnode \<times> 'z dag_state_scheme" where
  "mkdir_loop env opts parts (File nd) s = (Some (MErr ''was not a directory''), File nd, s)"
| "mkdir_loop env opts [] (Directory dnode cache) s = (None, Directory dnode cache, s)"
| "mkdir_loop env opts [d] (Directory dnode cache) s =
     (case dir_Mkdir env d dnode cache s of
        (MkErr e, dnode', cache', s') \<Rightarrow> (Some e, Directory dnode' cache', s')
      | (MkOld f, dnode', cache', s') \<Rightarrow>
          (if Mkparents opts
           then (None, Directory dnode' (set_entry d (set_builder (opt_CidBuilder opts) f) cache'), s')
           else (Some ErrExist, Directory dnode' cache', s'))
      | (MkNew f, dnode', cache', s') \<Rightarrow>
          (None, Directory dnode' (set_entry d (set_builder (opt_CidBuilder opts) f) cache'), s'))"
| "mkdir_loop env opts (d # d' # parts) (Directory dnode cache) s =
     (case childUnsync env d dnode cache s of
        (Inr fsn, cache', s') \<Rightarrow>
          (case mkdir_loop env opts (d' # parts) fsn s' of
             (r, fsn', s'') \<Rightarrow> (r, Directory dnode (set_entry d fsn' cache'), s''))
      | (Inl e, cache', s') \<Rightarrow>
          if e = ErrNotExist \<and> Mkparents opts then
            (case dir_Mkdir env d dnode cache' s' of
               (MkNew mkd, dnode', cache'', s'') \<Rightarrow>
                 (case mkdir_loop env opts (d' # parts) (set_builder (opt_CidBuilder opts) mkd) s'' of
                    (r, fsn', s3) \<Rightarrow> (r, Directory dnode' (set_entry d fsn' cache''), s3))
             | (MkOld mkd, dnode', cache'', s'') \<Rightarrow> (Some ErrExist, Directory dnode' cache'', s'')
             | (MkErr e, dnode', cache'', s'') \<Rightarrow> (Some e, Directory dnode' cache'', s''))
          else (Some e, Directory dnode cache', s'))"

text \<open>The parts of the path: an empty first and an empty last part are dropped.\<close>

definition mkdir_parts :: "string \<Rightarrow> string list" where
  "mkdir_parts pth =
     (let parts = split_on (CHR ''/'') pth;
          parts = (if hd parts = [] then tl parts else parts)
      in if parts \<noteq> [] \<and> last parts = [] then butlast parts else parts)"

definition Mkdir ::
  "'e mfs_env_scheme \<Rightarrow> MkdirOpts \<Rightarrow> string \<Rightarrow> fsnode \<Rightarrow> 'z dag_state_scheme \<Rightarrow> mfs_err option \<times> fsnode \<times> 'z dag_state_scheme" where
  "Mkdir env opts pth r s =
     (if pth = [] then (Some (MErr ''no path given to Mkdir''), r, s)
      else if mkdir_parts pth = [] then
        (if Mkparents opts then (None, r, s) else (Some (MErr ''cannot create directory '/': Already exists''), r, s))
      else mkdir_loop env opts (mkdir_parts pth) r s)"

text \<open>\<^verbatim>\<open>PutNode\<close>: the lookup of the directory part caches what it goes through.\<close>

fun put_loop ::
  "'e mfs_env_scheme \<Rightarrow> string list \<Rightarrow> string \<Rightarrow> ipld_node \<Rightarrow> fsnode \<Rightarrow> 'z dag_state_scheme
    \<Rightarrow> mfs_err option \<times> fsnode \<times> 'z dag_state_scheme" where
  "put_loop env parts name nd (File f) s = (Some (MErr ''not a directory''), File f, s)"
| "put_loop env [] name nd (Directory dnode cache) s =
     (case dir_AddChild env name nd dnode cache s of (r, dnode', cache', s') \<Rightarrow> (r, Directory dnode' cache', s'))"
| "put_loop env (p # parts) name nd (Directory dnode cache) s =
     (case childUnsync env p dnode cache s of
        (Inl e, cache', s') \<Rightarrow> (Some e, Directory dnode cache', s')
      | (Inr fsn, cache', s') \<Rightarrow>
          (case put_loop env parts name nd fsn s' of
             (r, fsn', s'') \<Rightarrow> (r, Directory dnode (set_entry p fsn' cache'), s'')))"

text \<open>\<^verbatim>\<open>path.Split\<close>, and the parts \<^verbatim>\<open>DirLookup\<close> goes through.\<close>

definition path_Split :: "string \<Rightarrow> string \<times> string" where
  "path_Split p =
     (let file_part = last (split_on (CHR ''/'') p) in (take (length p - length file_part) p, file_part))"

definition lookup_parts :: "string \<Rightarrow> string list" where
  "lookup_parts pth =
     (let parts = split_on (CHR ''/'') (trim_left ''/'' (trim_right ''/'' pth)) in if parts = [[]] then [] else parts)"

definition PutNode ::
  "'e mfs_env_scheme \<Rightarrow> string \<Rightarrow> ipld_node \<Rightarrow> fsnode \<Rightarrow> 'z dag_state_scheme \<Rightarrow> mfs_err option \<times> fsnode \<times> 'z dag_state_scheme" where
  "PutNode env pth nd r s =
     (case path_Split pth of (dirp, filename) \<Rightarrow>
        if filename = [] then (Some (MErr ''cannot create file with empty name''), r, s)
        else put_loop env (lookup_parts dirp) filename nd r s)"

section \<open>What a file system shows\<close>

datatype entry = EDir | ELeaf ipld_node

definition entry_of :: "ipld_node \<Rightarrow> entry" where
  "entry_of nd = (if is_dir nd then EDir else ELeaf (sort_links nd))"

fun node_at :: "dagmap \<Rightarrow> ipld_node \<Rightarrow> string list \<Rightarrow> entry option" where
  "node_at D nd [] = Some (entry_of nd)"
| "node_at D nd (p # ps) =
     (if is_dir nd then
        (case map_of (Links nd) p of
           None \<Rightarrow> None
         | Some c \<Rightarrow> (case D c of None \<Rightarrow> None | Some m \<Rightarrow> node_at D m ps))
      else None)"

fun view :: "dagmap \<Rightarrow> fsnode \<Rightarrow> string list \<Rightarrow> entry option" where
  "view D (File nd) ps = node_at D nd ps"
| "view D (Directory dnode cache) [] = Some (entry_of dnode)"
| "view D (Directory dnode cache) (p # ps) =
     (case map_of cache p of
        Some f \<Rightarrow> view D f ps
      | None \<Rightarrow> node_at D dnode (p # ps))"

section \<open>Well-formed file systems\<close>

definition dlinks :: "dagmap \<Rightarrow> cid \<Rightarrow> cid list" where
  "dlinks D c = (case D c of None \<Rightarrow> [] | Some nd \<Rightarrow> map snd (Links nd))"

text \<open>Everything below a CID is stored.\<close>

definition closed :: "dagmap \<Rightarrow> cid \<Rightarrow> bool" where
  "closed D c = (\<forall>x. reaches (dlinks D) c x \<longrightarrow> x \<in> dom D)"

text \<open>A stored tree of directories and files: directories have one link per name.\<close>

inductive fs_tree :: "dagmap \<Rightarrow> ipld_node \<Rightarrow> bool" for D where
  fs_leaf: "is_leaf nd \<Longrightarrow> (\<And>c. c \<in> snd ` set (Links nd) \<Longrightarrow> closed D c) \<Longrightarrow> fs_tree D nd"
| fs_dir: "is_dir nd \<Longrightarrow> distinct (map fst (Links nd))
    \<Longrightarrow> (\<And>c. c \<in> snd ` set (Links nd) \<Longrightarrow> \<exists>m. D c = Some m \<and> fs_tree D m) \<Longrightarrow> fs_tree D nd"

text \<open>The objects in memory: what is cached has a link, and the links of what is not cached are stored trees.\<close>

fun wf_fs :: "'e mfs_env_scheme \<Rightarrow> dagmap \<Rightarrow> fsnode \<Rightarrow> bool"
  and wf_cache :: "'e mfs_env_scheme \<Rightarrow> dagmap \<Rightarrow> (string \<times> fsnode) list \<Rightarrow> bool" where
  "wf_fs env D (File nd) = (is_leaf nd \<and> fs_tree D nd \<and> D (node_Cid env nd) = Some (sort_links nd))"
| "wf_fs env D (Directory dnode cache) =
     (is_dir dnode \<and> distinct (map fst (Links dnode)) \<and> distinct (map fst cache)
      \<and> fst ` set cache \<subseteq> fst ` set (Links dnode)
      \<and> (\<forall>(n, c) \<in> set (Links dnode). n \<notin> fst ` set cache \<longrightarrow> (\<exists>m. D c = Some m \<and> fs_tree D m))
      \<and> wf_cache env D cache)"
| "wf_cache env D [] = True"
| "wf_cache env D ((n, f) # cache) = (wf_fs env D f \<and> wf_cache env D cache)"

text \<open>The store is addressed by content.\<close>

definition addressed :: "'e mfs_env_scheme \<Rightarrow> dagmap \<Rightarrow> bool" where
  "addressed env D = (\<forall>c nd. D c = Some nd \<longrightarrow> Cid_of env nd = c \<and> sort_links nd = nd)"

subsection \<open>Nodes\<close>

lemma Links_sort [simp]: "set (Links (sort_links nd)) = set (Links nd)"
  by (cases nd) auto

lemma sort_links_idem [simp]: "sort_links (sort_links nd) = sort_links nd"
  by (cases nd) (auto simp: sort_key_id_if_sorted)

lemma sort_links_kind [simp]: "is_dir (sort_links nd) = is_dir nd" "is_leaf (sort_links nd) = is_leaf nd"
  by (cases nd; simp)+

lemma sort_links_id [simp]: "entry_of (sort_links nd) = entry_of nd" "node_Cid env (sort_links nd) = node_Cid env nd"
  by (simp_all add: entry_of_def node_Cid_def)

lemma leaf_not_dir: "is_leaf nd \<Longrightarrow> \<not> is_dir nd"
  by (cases nd) auto

lemma distinct_sort [simp]: "distinct (map fst (Links (sort_links nd))) = distinct (map fst (Links nd))"
proof (cases nd)
  case (ProtoNode t d ls b)
  have "mset (map fst (sort_key fst ls)) = mset (map fst ls)" by (simp only: mset_map mset_sort)
  then show ?thesis using ProtoNode by (simp add: mset_eq_imp_distinct_iff)
qed simp

lemma map_of_sort [simp]:
  assumes "distinct (map fst (Links nd))"
  shows "map_of (Links (sort_links nd)) = map_of (Links nd)"
proof
  fix n
  have "map_of (Links (sort_links nd)) n = Some c \<longleftrightarrow> map_of (Links nd) n = Some c" for c
    using assms by (simp add: map_of_eq_Some_iff)
  then show "map_of (Links (sort_links nd)) n = map_of (Links nd) n" by (metis option.exhaust)
qed

lemma add_link_kind [simp]: "is_dir (add_link n c nd) = is_dir nd" "is_leaf (add_link n c nd) = is_leaf nd"
  "is_dir (SetCidBuilder b nd) = is_dir nd" "Links (SetCidBuilder b nd) = Links nd"
  by (cases nd; simp)+

lemma Links_add_link: "is_dir nd \<Longrightarrow> Links (add_link n c nd) = filter (\<lambda>l. fst l \<noteq> n) (Links nd) @ [(n, c)]"
  by (cases nd) auto

lemma map_of_set_entry [simp]: "map_of (set_entry n x es) = (map_of es)(n \<mapsto> x)"
proof
  fix m
  have "map_of (filter (\<lambda>e. fst e \<noteq> n) es) m = (if m = n then None else map_of es m)"
    by (induction es) auto
  then show "map_of (set_entry n x es) m = ((map_of es)(n \<mapsto> x)) m" 
    by (auto simp: set_entry_def map_add_def split: option.splits)
qed

lemma set_entry_names [simp]: "fst ` set (set_entry n x es) = insert n (fst ` set es)"
  by (force simp: set_entry_def)

lemma set_entry_distinct [simp]: "distinct (map fst es) \<Longrightarrow> distinct (map fst (set_entry n x es))"
  by (auto simp: set_entry_def distinct_map inj_on_def)

lemma add_link_set_entry: "is_dir nd \<Longrightarrow> Links (add_link n c nd) = set_entry n c (Links nd)"
  by (cases nd) (auto simp: set_entry_def)

lemma wf_cache_iff: "wf_cache env D cache \<longleftrightarrow> (\<forall>(n, f) \<in> set cache. wf_fs env D f)"
  by (induction cache) auto

lemma wf_cache_map_of: "wf_cache env D cache \<Longrightarrow> map_of cache n = Some f \<Longrightarrow> wf_fs env D f"
  using wf_cache_iff map_of_SomeD by fastforce

lemma wf_cache_set_entry: "wf_cache env D cache \<Longrightarrow> wf_fs env D f \<Longrightarrow> wf_cache env D (set_entry n f cache)"
  by (auto simp: wf_cache_iff set_entry_def)

subsection \<open>Stores\<close>

lemma map_leD: "D \<subseteq>\<^sub>m D' \<Longrightarrow> D c = Some nd \<Longrightarrow> D' c = Some nd"
  by (metis domI map_le_def)

lemma reaches_mono:
  assumes "reaches (dlinks D) c x" "D \<subseteq>\<^sub>m D'"
  shows "reaches (dlinks D') c x"
  using assms(1)
proof (induction rule: reaches.induct)
  case (reaches_step a b)
  then obtain nd where "D a = Some nd" "b \<in> set (dlinks D a)" by (cases "D a") (auto simp: dlinks_def)
  then have "b \<in> set (dlinks D' a)" using map_leD [OF assms(2)] by (simp add: dlinks_def)
  then show ?case using reaches_step.IH by (rule reaches.reaches_step [rotated])
qed (rule reaches_refl)

lemma dlinks_agree: "D' a = D a \<Longrightarrow> dlinks D' a = dlinks D a"
  by (simp add: dlinks_def)

text \<open>Stores that agree below a CID.\<close>

lemma reaches_agree:
  assumes "reaches (dlinks D') c x" "\<And>y. reaches (dlinks D) c y \<Longrightarrow> D' y = D y"
  shows "reaches (dlinks D) c x"
  using assms(1)
proof (induction rule: reaches.induct)
  case (reaches_step a b)
  then have "b \<in> set (dlinks D a)" using dlinks_agree [of D' a D] assms(2) by metis
  then show ?case using reaches_step.IH by (rule reaches.reaches_step [rotated])
qed (rule reaches_refl)

lemma closed_agree:
  assumes "closed D c" "\<And>y. reaches (dlinks D) c y \<Longrightarrow> D' y = D y"
  shows "closed D' c"
  using assms reaches_agree by (metis closed_def domIff)

lemma closed_below: "closed D c \<Longrightarrow> D \<subseteq>\<^sub>m D' \<Longrightarrow> reaches (dlinks D) c x \<Longrightarrow> D' x = D x"
  by (simp add: closed_def map_le_def)

lemma closed_le: "closed D c \<Longrightarrow> D \<subseteq>\<^sub>m D' \<Longrightarrow> closed D' c"
  using closed_agree closed_below by metis

lemma closed_step: "closed D c \<Longrightarrow> D c = Some nd \<Longrightarrow> d \<in> snd ` set (Links nd) \<Longrightarrow> closed D d"
proof -
  assume a: "closed D c" "D c = Some nd" "d \<in> snd ` set (Links nd)"
  then have "reaches (dlinks D) c d" by (intro reaches_link) (simp add: dlinks_def)
  then show ?thesis using a(1) reaches_trans by (metis closed_def)
qed

lemma closedI:
  assumes "D c = Some nd" "\<And>d. d \<in> snd ` set (Links nd) \<Longrightarrow> closed D d"
  shows "closed D c"
  unfolding closed_def
proof (intro allI impI)
  fix x
  assume "reaches (dlinks D) c x"
  then have "x = c \<or> (\<exists>d \<in> snd ` set (Links nd). reaches (dlinks D) d x)"
  proof (induction rule: reaches.induct)
    case (reaches_step a b)
    from reaches_step.IH show ?case
    proof
      assume "a = c"
      then have "b \<in> snd ` set (Links nd)" using reaches_step.hyps(2) assms(1) by (simp add: dlinks_def)
      then show ?thesis using reaches_refl by fast
    qed (use reaches_step.hyps(2) reaches.reaches_step in fast)
  qed simp
  then show "x \<in> dom D" using assms by (auto simp: closed_def)
qed

lemma fs_tree_children: "fs_tree D nd \<Longrightarrow> c \<in> snd ` set (Links nd) \<Longrightarrow> closed D c"
proof (induction arbitrary: c rule: fs_tree.induct)
  case (fs_dir nd)
  then obtain m where "D c = Some m" "\<And>d. d \<in> snd ` set (Links m) \<Longrightarrow> closed D d" by blast
  then show ?case by (rule closedI)
qed simp

lemma fs_tree_closed: "fs_tree D nd \<Longrightarrow> D c = Some nd \<Longrightarrow> closed D c"
  using closedI fs_tree_children by metis

lemma fs_tree_dirD:
  assumes "fs_tree D nd" "is_dir nd"
  shows "distinct (map fst (Links nd))" "c \<in> snd ` set (Links nd) \<Longrightarrow> \<exists>m. D c = Some m \<and> fs_tree D m"
  using assms by (auto elim!: fs_tree.cases dest: leaf_not_dir)

lemma fs_tree_kind: "fs_tree D nd \<Longrightarrow> is_dir nd \<or> is_leaf nd"
  by (auto elim: fs_tree.cases)

lemma fs_tree_same:
  assumes "fs_tree D nd" "is_dir m = is_dir nd" "is_leaf m = is_leaf nd" "set (Links m) = set (Links nd)"
    "distinct (map fst (Links m)) = distinct (map fst (Links nd))"
  shows "fs_tree D m"
proof (cases "is_dir nd")
  case True
  show ?thesis by (rule fs_tree.fs_dir) (use assms True fs_tree_dirD [OF assms(1) True] in auto)
next
  case False
  then have "is_leaf nd" using assms(1) fs_tree_kind by blast
  then show ?thesis using assms(3,4) fs_tree_children [OF assms(1)] by (auto intro: fs_tree.fs_leaf)
qed

lemma fs_tree_sort [simp]: "fs_tree D (sort_links nd) = fs_tree D nd"
proof
  show "fs_tree D (sort_links nd) \<Longrightarrow> fs_tree D nd" by (erule fs_tree_same) simp_all
  show "fs_tree D nd \<Longrightarrow> fs_tree D (sort_links nd)" by (erule fs_tree_same) simp_all
qed

text \<open>A tree stays a tree in a store that agrees below it.\<close>

lemma fs_tree_agree:
  "fs_tree D nd \<Longrightarrow> (\<And>c x. c \<in> snd ` set (Links nd) \<Longrightarrow> reaches (dlinks D) c x \<Longrightarrow> D' x = D x) \<Longrightarrow> fs_tree D' nd"
proof (induction rule: fs_tree.induct)
  case (fs_leaf nd)
  then show ?case using closed_agree by (metis fs_tree.fs_leaf)
next
  case (fs_dir nd)
  show ?case
  proof (rule fs_tree.fs_dir [OF fs_dir.hyps(1,2)])
    fix c
    assume c: "c \<in> snd ` set (Links nd)"
    then obtain m where m: "D c = Some m"
      "(\<And>d x. d \<in> snd ` set (Links m) \<Longrightarrow> reaches (dlinks D) d x \<Longrightarrow> D' x = D x) \<Longrightarrow> fs_tree D' m"
      using fs_dir.IH [OF c] by blast
    have below: "reaches (dlinks D) c x" if "d \<in> snd ` set (Links m)" "reaches (dlinks D) d x" for d x
      using that m(1) reaches_link [of d "dlinks D" c] reaches_trans by (auto simp: dlinks_def)
    have "fs_tree D' m" by (rule m(2)) (use below fs_dir.prems [OF c] in blast)
    then show "\<exists>m. D' c = Some m \<and> fs_tree D' m" using m(1) fs_dir.prems [OF c reaches_refl] by simp
  qed
qed

lemma fs_tree_le: "fs_tree D nd \<Longrightarrow> D \<subseteq>\<^sub>m D' \<Longrightarrow> fs_tree D' nd"
  using fs_tree_agree closed_below fs_tree_children by metis

lemma node_at_agree:
  "fs_tree D nd \<Longrightarrow> (\<And>c x. c \<in> snd ` set (Links nd) \<Longrightarrow> reaches (dlinks D) c x \<Longrightarrow> D' x = D x)
    \<Longrightarrow> node_at D' nd ps = node_at D nd ps"
proof (induction ps arbitrary: nd)
  case (Cons p ps)
  show ?case
  proof (cases "is_dir nd \<and> map_of (Links nd) p \<noteq> None")
    case True
    then obtain c where c: "map_of (Links nd) p = Some c" "c \<in> snd ` set (Links nd)" by (force dest: map_of_SomeD)
    then obtain m where m: "D c = Some m" "fs_tree D m" using fs_tree_dirD(2) [OF Cons.prems(1)] True by blast
    have below: "reaches (dlinks D) c x" if "d \<in> snd ` set (Links m)" "reaches (dlinks D) d x" for d x
      using that m(1) reaches_link [of d "dlinks D" c] reaches_trans by (auto simp: dlinks_def)
    have "node_at D' m ps = node_at D m ps" by (rule Cons.IH [OF m(2)]) (use below Cons.prems(2) c(2) in blast)
    then show ?thesis using c m(1) Cons.prems(2) [OF c(2) reaches_refl] by simp
  qed auto
qed simp

lemma node_at_le: "fs_tree D nd \<Longrightarrow> D \<subseteq>\<^sub>m D' \<Longrightarrow> node_at D' nd ps = node_at D nd ps"
  using node_at_agree closed_below fs_tree_children by metis

lemma node_at_sort [simp]: "distinct (map fst (Links nd)) \<Longrightarrow> node_at D (sort_links nd) ps = node_at D nd ps"
  by (cases ps) auto

lemma node_at_leaf: "is_leaf nd \<Longrightarrow> node_at D nd ps = (if ps = [] then Some (ELeaf (sort_links nd)) else None)"
  using leaf_not_dir by (cases ps) (auto simp: entry_of_def)

lemma node_at_sort_tree: "fs_tree D nd \<Longrightarrow> node_at D (sort_links nd) ps = node_at D nd ps"
  using fs_tree_dirD(1) fs_tree_kind node_at_sort node_at_leaf by (metis sort_links_idem sort_links_kind(2))

subsection \<open>Growing stores\<close>

lemma dag_Add_cases:
  assumes "dag_Add env nd s = (r, s')" "addressed env (dag s)" "inj (Cid_of env)"
  shows "addressed env (dag s')" "dag s \<subseteq>\<^sub>m dag s'" "dag_state.more s' = dag_state.more s"
    "r = None \<Longrightarrow> dag s' (node_Cid env nd) = Some (sort_links nd)"
proof -
  have same: "m = sort_links nd" if "dag s (node_Cid env nd) = Some m" for m
    using that assms(2,3) by (auto simp: addressed_def node_Cid_def inj_def)
  show "addressed env (dag s')" "dag s \<subseteq>\<^sub>m dag s'" "dag_state.more s' = dag_state.more s"
    "r = None \<Longrightarrow> dag s' (node_Cid env nd) = Some (sort_links nd)"
    using assms(1,2) same by (auto simp: dag_Add_def addressed_def map_le_def split: option.splits if_splits)
      (simp add: node_Cid_def)
qed

lemma wf_le:
  "wf_fs env D f \<Longrightarrow> D \<subseteq>\<^sub>m D' \<Longrightarrow> wf_fs env D' f"
  "wf_cache env D cache \<Longrightarrow> D \<subseteq>\<^sub>m D' \<Longrightarrow> wf_cache env D' cache"
proof (induction env D f and env D cache rule: wf_fs_wf_cache.induct)
  case (1 env D nd)
  then show ?case using fs_tree_le by (auto simp: map_le_def dom_def)
next
  case (2 env D dnode cache)
  have "\<exists>m. D' c = Some m \<and> fs_tree D' m" if "\<exists>m. D c = Some m \<and> fs_tree D m" for c
    using that 2(3) fs_tree_le by (force simp: map_le_def dom_def)
  then show ?case using 2 by auto
qed auto

lemma view_le:
  "wf_fs env D f \<Longrightarrow> D \<subseteq>\<^sub>m D' \<Longrightarrow> view D' f ps = view D f ps"
proof (induction D f ps rule: view.induct)
  case (3 D dnode cache p ps)
  show ?case
  proof (cases "map_of cache p")
    case None
    then have np: "p \<notin> fst ` set cache" by (simp add: map_of_eq_None_iff)
    show ?thesis
    proof (cases "map_of (Links dnode) p")
      case (Some c)
      then obtain m where "D c = Some m" "fs_tree D m" using 3(2) np by (fastforce dest: map_of_SomeD)
      moreover have "D' c = D c" using calculation 3(3) by (auto simp: map_le_def dom_def)
      ultimately show ?thesis using None Some node_at_le [of D m D'] 3(3) by simp
    qed (use None in simp)
  next
    case (Some f)
    then have "wf_fs env D f" using 3(2) wf_cache_map_of by (metis wf_fs.simps(2))
    then show ?thesis using Some 3(1,3) by simp
  qed
qed (auto simp: node_at_le)

section \<open>The operations on the view\<close>

text \<open>What the theorems assume of hashes and of reads: different nodes have different CIDs, and a stored node can be
  read.\<close>

definition sound_env :: "'e mfs_env_scheme \<Rightarrow> bool" where
  "sound_env env = (inj (Cid_of env) \<and> (\<forall>n. get_err env n = None))"

text \<open>The store has grown, and nothing else has changed.\<close>

definition grown :: "'e mfs_env_scheme \<Rightarrow> 'z dag_state_scheme \<Rightarrow> 'z dag_state_scheme \<Rightarrow> bool" where
  "grown env s s' = (dag s \<subseteq>\<^sub>m dag s' \<and> (addressed env (dag s) \<longrightarrow> addressed env (dag s')) \<and> dag_state.more s' = dag_state.more s)"

lemma grown_refl [simp]: "grown env s s" "grown env s (s\<lparr>dag_calls := n\<rparr>)"
  by (simp_all add: grown_def)

lemma grown_trans: "grown env s t \<Longrightarrow> grown env t u \<Longrightarrow> grown env s u"
  unfolding grown_def using map_le_trans by auto

lemma dag_Add_grown:
  "dag_Add env nd s = (r, s') \<Longrightarrow> addressed env (dag s) \<Longrightarrow> sound_env env \<Longrightarrow> grown env s s'"
  "dag_Add env nd s = (None, s') \<Longrightarrow> addressed env (dag s) \<Longrightarrow> sound_env env
    \<Longrightarrow> dag s' (node_Cid env nd) = Some (sort_links nd)"
  using dag_Add_cases [of env nd s _ s'] by (auto simp: grown_def sound_env_def)

lemma addressed_Cid: "addressed env D \<Longrightarrow> D c = Some nd \<Longrightarrow> node_Cid env nd = c \<and> sort_links nd = nd"
  by (simp add: addressed_def node_Cid_def)

subsection \<open>Children\<close>

lemma fs_object_ok:
  assumes "fs_tree D m" "D c = Some m" "addressed env D"
  obtains f where "fs_object m = Inr f" "wf_fs env D f" "\<And>ps. view D f ps = node_at D m ps"
proof (cases m)
  case (RawNode d)
  then show ?thesis using that [of "File m"] assms addressed_Cid [OF assms(3,2)] by simp
next
  case (ProtoNode t d ls b)
  show ?thesis
  proof (cases "is_dir m")
    case True
    note dd = fs_tree_dirD [OF assms(1) True]
    have child: "\<exists>k. D x = Some k \<and> fs_tree D k" if "(n, x) \<in> set (Links m)" for n x
      using dd(2) [of x] that by force
    have v: "view D (Directory m []) ps = node_at D m ps" for ps by (cases ps) auto
    have "wf_fs env D (Directory m [])" using True dd(1) child by auto
    moreover have "fs_object m = Inr (Directory m [])" using ProtoNode True by simp
    ultimately show ?thesis using that v by blast
  next
    case False
    then have "is_leaf m" using fs_tree_kind assms(1) by blast
    moreover have "fs_object m = Inr (File m)" using ProtoNode calculation by auto
    ultimately show ?thesis using that [of "File m"] assms(1,2) addressed_Cid [OF assms(3,2)] by simp
  qed
qed

lemma wf_names: "wf_fs env D (Directory dn cache) \<Longrightarrow> map_of cache n = Some f \<Longrightarrow> n \<in> fst ` set (Links dn)"
proof -
  assume "wf_fs env D (Directory dn cache)" "map_of cache n = Some f"
  then have "n \<in> fst ` set cache" "fst ` set cache \<subseteq> fst ` set (Links dn)" by (force dest: map_of_SomeD, simp)
  then show ?thesis by blast
qed

text \<open>A child in the cache is replaced, or a link is set whose child is cached or stored.\<close>

lemma wf_set_entry:
  assumes "wf_fs env D (Directory dn cache)" "n \<in> fst ` set (Links dn)" "wf_fs env D' f" "D \<subseteq>\<^sub>m D'"
  shows "wf_fs env D' (Directory dn (set_entry n f cache))"
    "view D' (Directory dn (set_entry n f cache)) ps =
       (case ps of p # qs \<Rightarrow> if p = n then view D' f qs else view D (Directory dn cache) ps | [] \<Rightarrow> Some EDir)"
proof -
  have wf': "wf_fs env D' (Directory dn cache)" using wf_le(1) assms by blast
  then show "wf_fs env D' (Directory dn (set_entry n f cache))"
    using assms(2,3) wf_cache_set_entry by (auto simp: set_entry_names)
  show "view D' (Directory dn (set_entry n f cache)) ps =
       (case ps of p # qs \<Rightarrow> if p = n then view D' f qs else view D (Directory dn cache) ps | [] \<Rightarrow> Some EDir)"
    using view_le [OF assms(1,4), of ps] assms(1) by (cases ps) (auto simp: entry_of_def)
qed

lemma wf_add_link:
  assumes "wf_fs env D (Directory dn cache)" "D \<subseteq>\<^sub>m D'" "D' c = Some m" "fs_tree D' m" "map_of cache n = None"
  shows "wf_fs env D' (Directory (add_link n c dn) cache)"
    "view D' (Directory (add_link n c dn) cache) ps =
       (case ps of p # qs \<Rightarrow> if p = n then node_at D' m qs else view D (Directory dn cache) ps | [] \<Rightarrow> Some EDir)"
proof -
  have d: "is_dir dn" "distinct (map fst (Links dn))" using assms(1) by auto
  note L = add_link_set_entry [OF d(1), of n c]
  have wf': "wf_fs env D' (Directory dn cache)" using wf_le(1) assms by blast
  have "\<exists>k. D' x = Some k \<and> fs_tree D' k" if "(a, x) \<in> set (set_entry n c (Links dn))" "a \<notin> fst ` set cache" for a x
    using that wf' assms(3,4) by (auto simp: set_entry_def)
  then show "wf_fs env D' (Directory (add_link n c dn) cache)" using wf' L d by auto
  show "view D' (Directory (add_link n c dn) cache) ps =
       (case ps of p # qs \<Rightarrow> if p = n then node_at D' m qs else view D (Directory dn cache) ps | [] \<Rightarrow> Some EDir)"
  proof (cases ps)
    case (Cons p qs)
    have "view D' (Directory (add_link n c dn) cache) (p # qs) = (if p = n then node_at D' m qs else view D' (Directory dn cache) (p # qs))"
      using L d assms(3,5) by (cases "map_of cache p") auto
    then show ?thesis using view_le [OF assms(1,2), of "p # qs"] Cons by simp
  qed (use d in \<open>simp add: entry_of_def\<close>)
qed

lemma childUnsync_ok:
  assumes "childUnsync env n dn cache s = (r, cache', s')" "wf_fs env (dag s) (Directory dn cache)"
    "addressed env (dag s)" "sound_env env"
  shows "dag s' = dag s" "dag_state.more s' = dag_state.more s" "wf_fs env (dag s) (Directory dn cache')"
    "view (dag s) (Directory dn cache') ps = view (dag s) (Directory dn cache) ps"
    "r = Inr f \<Longrightarrow> map_of cache' n = Some f \<and> wf_fs env (dag s) f \<and> n \<in> fst ` set (Links dn)
       \<and> (\<forall>qs. view (dag s) (Directory dn cache) (n # qs) = view (dag s) f qs)"
    "r = Inl e \<Longrightarrow> e = ErrNotExist \<and> n \<notin> fst ` set (Links dn) \<and> map_of cache n = None \<and> cache' = cache \<and> s' = s"
proof -
  let ?G = "dag s' = dag s \<and> dag_state.more s' = dag_state.more s \<and> wf_fs env (dag s) (Directory dn cache')
    \<and> (\<forall>ps. view (dag s) (Directory dn cache') ps = view (dag s) (Directory dn cache) ps)
    \<and> (\<forall>f. r = Inr f \<longrightarrow> map_of cache' n = Some f \<and> wf_fs env (dag s) f \<and> n \<in> fst ` set (Links dn)
       \<and> (\<forall>qs. view (dag s) (Directory dn cache) (n # qs) = view (dag s) f qs))
    \<and> (\<forall>e. r = Inl e \<longrightarrow> e = ErrNotExist \<and> n \<notin> fst ` set (Links dn) \<and> map_of cache n = None \<and> cache' = cache \<and> s' = s)"
  have ?G
  proof (cases "map_of cache n")
    case (Some f)
    then show ?thesis
      using assms(1,2) wf_names [OF assms(2) Some] wf_cache_map_of [OF _ Some] by (auto simp: childUnsync_def)
  next
    case None
    show ?thesis
    proof (cases "map_of (Links dn) n")
      case N2: None
      then have "r = Inl ErrNotExist" "cache' = cache" "s' = s" using None assms(1) by (simp_all add: childUnsync_def)
      moreover have "n \<notin> fst ` set (Links dn)" using N2 by (simp add: map_of_eq_None_iff)
      ultimately show ?thesis using assms(2) None by blast
    next
      case (Some c)
      have "n \<notin> fst ` set cache" using None by (simp add: map_of_eq_None_iff)
      then obtain m where m: "dag s c = Some m" "fs_tree (dag s) m"
        using assms(2) map_of_SomeD [OF Some] by fastforce
      obtain f where f: "fs_object m = Inr f" "wf_fs env (dag s) f" "\<And>ps. view (dag s) f ps = node_at (dag s) m ps"
        using fs_object_ok [OF m(2,1) assms(3)] by blast
      have n: "n \<in> fst ` set (Links dn)" using Some by (force dest: map_of_SomeD)
      have run: "r = Inr f" "cache' = set_entry n f cache" "s' = s\<lparr>dag_calls := Suc (dag_calls s)\<rparr>"
        using assms(1,4) None Some m(1) f(1) by (auto simp: childUnsync_def dag_Get_def sound_env_def Let_def)
      have v: "view (dag s) (Directory dn cache) (n # qs) = view (dag s) f qs" for qs
        using None Some m(1) f(3) assms(2) by simp
      have "view (dag s) (Directory dn cache') ps = view (dag s) (Directory dn cache) ps" for ps
        using wf_set_entry(2) [OF assms(2) n f(2) map_le_refl, of ps] v run(2) assms(2)
        by (cases ps) (auto simp: entry_of_def)
      then show ?thesis using run f n v wf_set_entry(1) [OF assms(2) n f(2) map_le_refl] by auto
    qed
  qed
  then show "dag s' = dag s" "dag_state.more s' = dag_state.more s" "wf_fs env (dag s) (Directory dn cache')"
    "view (dag s) (Directory dn cache') ps = view (dag s) (Directory dn cache) ps"
    "r = Inr f \<Longrightarrow> map_of cache' n = Some f \<and> wf_fs env (dag s) f \<and> n \<in> fst ` set (Links dn)
       \<and> (\<forall>qs. view (dag s) (Directory dn cache) (n # qs) = view (dag s) f qs)"
    "r = Inl e \<Longrightarrow> e = ErrNotExist \<and> n \<notin> fst ` set (Links dn) \<and> map_of cache n = None \<and> cache' = cache \<and> s' = s"
    by blast+
qed

text \<open>What is not linked is not there.\<close>

lemma view_absent: "n \<notin> fst ` set (Links dn) \<Longrightarrow> map_of cache n = None \<Longrightarrow> view D (Directory dn cache) (n # ps) = None"
  by (simp add: map_of_eq_None_iff [THEN iffD2])

lemma fs_tree_Empty [simp]: "fs_tree D (EmptyDirNode b)" "is_dir (EmptyDirNode b)" "sort_links (EmptyDirNode b) = EmptyDirNode b"
  "Links (EmptyDirNode b) = []"
  by (auto simp: EmptyDirNode_def intro!: fs_tree.fs_dir)

lemma wf_Empty [simp]: "wf_fs env D (Directory (EmptyDirNode b) [])" "view D (Directory (EmptyDirNode b) []) (p # ps) = None"
  "view D (Directory nd cache) [] = Some (entry_of nd)"
  by auto

lemma set_builder_ok: "wf_fs env D f \<Longrightarrow> wf_fs env D (set_builder b f) \<and> view D (set_builder b f) ps = view D f ps"
proof (cases f)
  case (Directory nd cache)
  assume "wf_fs env D f"
  then show ?thesis using Directory
    by (cases ps) (auto simp: set_builder_def entry_of_def split: option.splits)
qed (simp add: set_builder_def split: option.splits)

declare view.simps(3) [simp del]

subsection \<open>Making directories\<close>

lemma dir_Mkdir_old:
  assumes "dir_Mkdir env n dn cache s = (MkOld f, dn', cache', s')" "wf_fs env (dag s) (Directory dn cache)"
    "addressed env (dag s)" "sound_env env"
  shows "dn' = dn" "grown env s s'" "dag s' = dag s" "wf_fs env (dag s) (Directory dn cache')" "wf_fs env (dag s) f"
    "n \<in> fst ` set (Links dn)" "\<exists>nd es. f = Directory nd es"
    "\<And>ps. view (dag s) (Directory dn cache') ps = view (dag s) (Directory dn cache) ps"
    "\<And>qs. view (dag s) (Directory dn cache) (n # qs) = view (dag s) f qs"
proof -
  have d: "dn' = dn" "childUnsync env n dn cache s = (Inr f, cache', s')" "\<exists>nd es. f = Directory nd es"
    using assms(1) by (auto simp: dir_Mkdir_def Let_def split: prod.splits sum.splits fsnode.splits option.splits)
  note c = childUnsync_ok [OF d(2) assms(2-4)]
  show "dn' = dn" "\<exists>nd es. f = Directory nd es" by (rule d)+
  show "grown env s s'" using c(1,2) by (simp add: grown_def)
  show "dag s' = dag s" "wf_fs env (dag s) (Directory dn cache')" "wf_fs env (dag s) f" "n \<in> fst ` set (Links dn)"
    "\<And>ps. view (dag s) (Directory dn cache') ps = view (dag s) (Directory dn cache) ps"
    "\<And>qs. view (dag s) (Directory dn cache) (n # qs) = view (dag s) f qs"
    using c(1,3,4) c(5) [of f] by blast+
qed

lemma dir_Mkdir_new:
  assumes "dir_Mkdir env n dn cache s = (MkNew f, dn', cache', s')" "wf_fs env (dag s) (Directory dn cache)"
    "addressed env (dag s)" "sound_env env"
  shows "grown env s s'" "wf_fs env (dag s') (Directory dn' cache')" "f = Directory (EmptyDirNode (CidBuilder dn)) []"
    "n \<in> fst ` set (Links dn')"
    "\<And>qs. view (dag s) (Directory dn cache) (n # qs) = None"
    "\<And>ps. view (dag s') (Directory dn' cache') ps = (if ps = [n] then Some EDir else view (dag s) (Directory dn cache) ps)"
proof -
  define nd where "nd = EmptyDirNode (CidBuilder dn)"
  obtain e c1 s1 where c: "childUnsync env n dn cache s = (Inl e, c1, s1)" and a: "dag_Add env nd s1 = (None, s')"
    and r: "f = Directory nd []" "dn' = add_link n (node_Cid env nd) dn" "cache' = set_entry n (Directory nd []) c1"
    using assms(1) by (auto simp: dir_Mkdir_def Let_def nd_def split: prod.splits sum.splits fsnode.splits option.splits)
  have absent: "n \<notin> fst ` set (Links dn)" "map_of cache n = None" "c1 = cache" "s1 = s"
    using childUnsync_ok(6) [OF c assms(2-4), of e] by auto
  note g = dag_Add_grown [OF a [unfolded absent(4)] assms(3,4)]
  have le: "dag s \<subseteq>\<^sub>m dag s'" using g(1) by (simp add: grown_def)
  have nd: "dag s' (node_Cid env nd) = Some nd" "fs_tree (dag s') nd" using g(2) by (simp_all add: nd_def)
  note wl = wf_add_link [OF assms(2) le nd absent(2)]
  have n: "n \<in> fst ` set (Links dn')" using assms(2) r(2) by (simp add: add_link_set_entry)
  have fok: "wf_fs env (dag s') f" "view (dag s') f qs = node_at (dag s') nd qs" for qs
    using r(1) by (simp add: nd_def) (cases qs; simp add: r(1) nd_def view.simps)
  note we = wf_set_entry [OF wl(1) _ fok(1) map_le_refl, of n, folded r(2)]
  show "grown env s s'" by (rule g)
  show "f = Directory (EmptyDirNode (CidBuilder dn)) []" using r(1) by (simp add: nd_def)
  show "n \<in> fst ` set (Links dn')" by (rule n)
  show "wf_fs env (dag s') (Directory dn' cache')" using we(1) n r(1,3) absent(3) by simp
  show none: "view (dag s) (Directory dn cache) (n # qs) = None" for qs by (rule view_absent [OF absent(1,2)])
  show "view (dag s') (Directory dn' cache') ps = (if ps = [n] then Some EDir else view (dag s) (Directory dn cache) ps)" for ps
  proof (cases ps)
    case Nil
    then show ?thesis using assms(2) r(2) by (simp add: entry_of_def)
  next
    case (Cons p qs)
    have "view (dag s') (Directory dn' cache') (p # qs) =
      (if p = n then node_at (dag s') nd qs else view (dag s') (Directory dn' cache) (p # qs))"
      using we(2) [OF n, of "p # qs"] fok(2) r(1,3) absent(3) by simp
    moreover have "view (dag s') (Directory dn' cache) (p # qs) =
      (if p = n then node_at (dag s') nd qs else view (dag s) (Directory dn cache) (p # qs))"
      using wl(2) [of "p # qs"] r(2) by simp
    moreover have "node_at (dag s') nd qs = (if qs = [] then Some EDir else None)"
      by (cases qs) (auto simp: nd_def entry_of_def)
    ultimately show ?thesis using Cons none by auto
  qed
qed

text \<open>Directories along a path are made where there is nothing.\<close>

definition with_dirs :: "string list \<Rightarrow> (string list \<Rightarrow> entry option) \<Rightarrow> string list \<Rightarrow> entry option" where
  "with_dirs parts V ps = (if V ps = None \<and> prefix ps parts then Some EDir else V ps)"

lemma with_dirs_Cons:
  "V [] = Some EDir \<Longrightarrow>
   with_dirs (d # parts) V ps =
     (case ps of [] \<Rightarrow> Some EDir | p # qs \<Rightarrow> if p = d then with_dirs parts (\<lambda>qs. V (d # qs)) qs else V ps)"
  by (cases ps) (auto simp: with_dirs_def)

lemma mkdir_loop_ok:
  "mkdir_loop env opts parts f s = (None, f', s') \<Longrightarrow> wf_fs env (dag s) f \<Longrightarrow> addressed env (dag s) \<Longrightarrow> sound_env env
    \<Longrightarrow> grown env s s' \<and> wf_fs env (dag s') f' \<and> (\<forall>ps. view (dag s') f' ps = with_dirs parts (view (dag s) f) ps)"
proof (induction env opts parts f s arbitrary: f' s' rule: mkdir_loop.induct)
  case (2 env opts dnode cache s)
  then show ?case by (auto simp: with_dirs_def entry_of_def)
next
  case (3 env opts d dnode cache s)
  have root: "view (dag s) (Directory dnode cache) [] = Some EDir" using 3(2) by (simp add: entry_of_def)
  obtain r dn' c' s1 where m: "dir_Mkdir env d dnode cache s = (r, dn', c', s1)" by (metis prod_cases4)
  show ?case
  proof (cases r)
    case (MkNew g)
    then have run: "s' = s1" "f' = Directory dn' (set_entry d (set_builder (opt_CidBuilder opts) g) c')" using 3(1) m by auto
    note new = dir_Mkdir_new [OF m [unfolded MkNew] 3(2-4)]
    have g: "wf_fs env (dag s1) g" "view (dag s1) g qs = (if qs = [] then Some EDir else None)" for qs
      using new(3) by (simp, cases qs, simp_all add: new(3) entry_of_def)
    have sb: "wf_fs env (dag s1) (set_builder b g)" "view (dag s1) (set_builder b g) qs = (if qs = [] then Some EDir else None)" for b qs
      using set_builder_ok [OF g(1)] g(2) by simp_all
    note we = wf_set_entry [OF new(2) new(4) sb(1) map_le_refl]
    have "view (dag s') f' ps = with_dirs [d] (view (dag s) (Directory dnode cache)) ps" for ps
      unfolding run with_dirs_Cons [of "view (dag s) (Directory dnode cache)", OF root]
      using we(2) [of _ ps] new(5,6) sb(2)
      by (cases ps) (auto simp: with_dirs_def)
    then show ?thesis using run new(1) we(1) by auto
  next
    case (MkOld g)
    then have run: "s' = s1" "f' = Directory dn' (set_entry d (set_builder (opt_CidBuilder opts) g) c')"
      using 3(1) m by (auto split: if_splits)
    note old = dir_Mkdir_old [OF m [unfolded MkOld] 3(2-4)]
    have sb: "wf_fs env (dag s) (set_builder b g)" "view (dag s) (set_builder b g) qs = view (dag s) g qs" for b qs
      using set_builder_ok [OF old(5)] by simp_all
    note we = wf_set_entry [OF old(4) old(6) sb(1) map_le_refl]
    obtain nd es where "g = Directory nd es" using old(7) by blast
    then have g0: "view (dag s) g [] = Some EDir" using old(5) by (simp add: entry_of_def)
    have "view (dag s') f' ps = with_dirs [d] (view (dag s) (Directory dnode cache)) ps" for ps
      unfolding run old(1,3) with_dirs_Cons [of "view (dag s) (Directory dnode cache)", OF root]
      using we(2) [of _ ps] old(8,9) sb(2) g0
      by (cases ps) (auto simp: with_dirs_def)
    then show ?thesis using run old(1-3) we(1) by auto
  qed (use 3(1) m in auto)
next
  case (4 env opts d d' parts dnode cache s)
  have root: "view (dag s) (Directory dnode cache) [] = Some EDir" using 4(4) by (simp add: entry_of_def)
  obtain r c1 s1 where c: "childUnsync env d dnode cache s = (r, c1, s1)" by (metis prod_cases3)
  note cu = childUnsync_ok [OF c 4(4-6)]
  show ?case
  proof (cases r)
    case (Inr g)
    obtain x g' s2 where m: "mkdir_loop env opts (d' # parts) g s1 = (x, g', s2)" by (metis prod_cases3)
    then have run: "x = None" "s' = s2" "f' = Directory dnode (set_entry d g' c1)" using 4(3) c Inr by auto
    have g: "wf_fs env (dag s1) g" "d \<in> fst ` set (Links dnode)" using cu(1) cu(5) [OF Inr] by auto
    have ih: "grown env s1 s2" "wf_fs env (dag s2) g'" "\<And>ps. view (dag s2) g' ps = with_dirs (d' # parts) (view (dag s1) g) ps"
      using 4(2) [OF c [symmetric] Inr refl m [unfolded run(1)] g(1)] cu(1) 4(5,6) by auto
    have le: "dag s \<subseteq>\<^sub>m dag s2" using ih(1) cu(1) by (simp add: grown_def)
    note we = wf_set_entry [OF cu(3) g(2) ih(2) le]
    have "view (dag s') f' ps = with_dirs (d # d' # parts) (view (dag s) (Directory dnode cache)) ps" for ps
      unfolding run with_dirs_Cons [of "view (dag s) (Directory dnode cache)", OF root]
      using we(2) [of ps] ih(3) cu(1,4) cu(5) [OF Inr] by (cases ps) auto
    moreover have "grown env s s2" using ih(1) cu(1,2) by (auto simp: grown_def)
    ultimately show ?thesis using run we(1) by auto
  next
    case (Inl e)
    note absent = cu(6) [OF Inl]
    have c0: "childUnsync env d dnode cache s = (Inl ErrNotExist, cache, s)" using c Inl absent by simp
    have mp: "Mkparents opts" using 4(3) c Inl absent by (auto split: if_splits)
    obtain r dn' c' s2 where m: "dir_Mkdir env d dnode cache s = (r, dn', c', s2)" by (metis prod_cases4)
    then obtain g where r: "r = MkNew g" using 4(3) c Inl absent mp by (cases r) auto
    note new = dir_Mkdir_new [OF m [unfolded r] 4(4-6)]
    obtain x g' s3 where l: "mkdir_loop env opts (d' # parts) (set_builder (opt_CidBuilder opts) g) s2 = (x, g', s3)"
      by (metis prod_cases3)
    have run: "x = None" "s' = s3" "f' = Directory dn' (set_entry d g' c')" using 4(3) c Inl absent mp m r l by auto
    have g: "wf_fs env (dag s2) g" "view (dag s2) g qs = (if qs = [] then Some EDir else None)" for qs
      using new(3) by (simp, cases qs, simp_all add: new(3) entry_of_def)
    have sb: "wf_fs env (dag s2) (set_builder b g)" "view (dag s2) (set_builder b g) qs = (if qs = [] then Some EDir else None)" for b qs
      using set_builder_ok [OF g(1)] g(2) by simp_all
    have ad: "addressed env (dag s2)" using new(1) 4(5) by (simp add: grown_def)
    have ih: "grown env s2 s3" "wf_fs env (dag s3) g'"
      "\<And>ps. view (dag s3) g' ps = with_dirs (d' # parts) (view (dag s2) (set_builder (opt_CidBuilder opts) g)) ps"
      using 4(1) [OF c0 [symmetric] refl refl _ m [symmetric] r refl refl l [unfolded run(1)] sb(1) ad 4(6)] mp by auto
    have le: "dag s2 \<subseteq>\<^sub>m dag s3" using ih(1) by (simp add: grown_def)
    note we = wf_set_entry [OF new(2) new(4) ih(2) le]
    have "view (dag s') f' ps = with_dirs (d # d' # parts) (view (dag s) (Directory dnode cache)) ps" for ps
      unfolding run with_dirs_Cons [of "view (dag s) (Directory dnode cache)", OF root]
      using we(2) [of ps] ih(3) new(5,6) sb(2) by (cases ps) (auto simp: with_dirs_def)
    then show ?thesis using run we(1) grown_trans [OF new(1) ih(1)] by auto
  qed
qed simp

subsection \<open>Putting a node\<close>

definition with_node :: "string list \<Rightarrow> (string list \<Rightarrow> entry option) \<Rightarrow> (string list \<Rightarrow> entry option) \<Rightarrow> string list \<Rightarrow> entry option" where
  "with_node P W V ps = (if prefix P ps then W (drop (length P) ps) else V ps)"

lemma with_node_Nil [simp]: "with_node [] W V = W"
  by (auto simp: with_node_def)

lemma with_node_Cons:
  "with_node (d # P) W V ps = (case ps of [] \<Rightarrow> V [] | p # qs \<Rightarrow> if p = d then with_node P W (\<lambda>qs. V (d # qs)) qs else V ps)"
  by (cases ps) (auto simp: with_node_def)

lemma put_loop_ok:
  "put_loop env parts name nd f s = (None, f', s') \<Longrightarrow> wf_fs env (dag s) f \<Longrightarrow> addressed env (dag s) \<Longrightarrow> sound_env env
    \<Longrightarrow> fs_tree (dag s) nd
    \<Longrightarrow> grown env s s' \<and> wf_fs env (dag s') f' \<and> view (dag s) f (parts @ [name]) = None
      \<and> (\<forall>ps. view (dag s') f' ps = with_node (parts @ [name]) (node_at (dag s) nd) (view (dag s) f) ps)"
proof (induction env parts name nd f s arbitrary: f' s' rule: put_loop.induct)
  case (2 env name nd dnode cache s)
  obtain e s1 dn' c' where c: "childUnsync env name dnode cache s = (Inl e, c', s1)" and a: "dag_Add env nd s1 = (None, s')"
    and run: "dn' = add_link name (node_Cid env nd) dnode" "f' = Directory dn' c'"
    using 2(1) by (auto simp: dir_AddChild_def split: prod.splits sum.splits option.splits)
  have absent: "name \<notin> fst ` set (Links dnode)" "map_of cache name = None" "c' = cache" "s1 = s"
    using childUnsync_ok(6) [OF c 2(2-4), of e] by auto
  note g = dag_Add_grown [OF a [unfolded absent(4)] 2(3,4)]
  have le: "dag s \<subseteq>\<^sub>m dag s'" using g(1) by (simp add: grown_def)
  have t: "fs_tree (dag s') (sort_links nd)" using fs_tree_le [OF 2(5) le] by simp
  note wl = wf_add_link [OF 2(2) le g(2) t absent(2)]
  have na: "node_at (dag s') (sort_links nd) ps = node_at (dag s) nd ps" for ps
    using node_at_sort_tree [OF fs_tree_le [OF 2(5) le]] node_at_le [OF 2(5) le] by simp
  have "view (dag s') f' ps = with_node [name] (node_at (dag s) nd) (view (dag s) (Directory dnode cache)) ps" for ps
    using wl(2) [of ps] na run absent(3) 2(2) by (cases ps) (auto simp: with_node_Cons entry_of_def)
  then show ?case using g(1) wl(1) run absent view_absent [OF absent(1,2)] by simp
next
  case (3 env p parts name nd dnode cache s)
  obtain g c1 s1 g' s2 where c: "childUnsync env p dnode cache s = (Inr g, c1, s1)"
    and m: "put_loop env parts name nd g s1 = (None, g', s2)" and run: "s' = s2" "f' = Directory dnode (set_entry p g' c1)"
    using 3(2) by (auto split: prod.splits sum.splits)
  note cu = childUnsync_ok [OF c 3(3-5)]
  note g = cu(5) [OF refl]
  have "grown env s1 s2 \<and> wf_fs env (dag s2) g' \<and> view (dag s1) g (parts @ [name]) = None
      \<and> (\<forall>ps. view (dag s2) g' ps = with_node (parts @ [name]) (node_at (dag s1) nd) (view (dag s1) g) ps)"
    by (rule 3(1) [OF c [symmetric] refl refl m]) (use g cu(1) 3(4-6) in auto)
  then have ih: "grown env s1 s2" "wf_fs env (dag s2) g'" "view (dag s1) g (parts @ [name]) = None"
      "\<And>ps. view (dag s2) g' ps = with_node (parts @ [name]) (node_at (dag s1) nd) (view (dag s1) g) ps" by auto
  have le: "dag s \<subseteq>\<^sub>m dag s2" using ih(1) cu(1) by (simp add: grown_def)
  have pn: "p \<in> fst ` set (Links dnode)" using g by blast
  note we = wf_set_entry [OF cu(3) pn ih(2) le]
  have vg: "(\<lambda>qs. view (dag s) (Directory dnode cache) (p # qs)) = view (dag s) g" using g by blast
  have "view (dag s') f' ps = with_node ((p # parts) @ [name]) (node_at (dag s) nd) (view (dag s) (Directory dnode cache)) ps" for ps
    using we(2) [of ps] ih(4) cu(1,4) run vg 3(3) by (cases ps) (auto simp: with_node_Cons entry_of_def)
  moreover have "grown env s s2" using ih(1) cu(1,2) by (auto simp: grown_def)
  moreover have "view (dag s) (Directory dnode cache) ((p # parts) @ [name]) = None" using ih(3) g cu(1) by simp
  ultimately show ?case using run we(1) by blast
qed simp

subsection \<open>Syncing\<close>

fun node_of :: "fsnode \<Rightarrow> ipld_node" where
  "node_of (File nd) = nd"
| "node_of (Directory nd cache) = nd"

text \<open>The links of what is cached are up to date.\<close>

fun synced :: "'e mfs_env_scheme \<Rightarrow> fsnode \<Rightarrow> bool"
  and synced_cache :: "'e mfs_env_scheme \<Rightarrow> ipld_node \<Rightarrow> (string \<times> fsnode) list \<Rightarrow> bool" where
  "synced env (File nd) = True"
| "synced env (Directory dn cache) = synced_cache env dn cache"
| "synced_cache env dn [] = True"
| "synced_cache env dn ((n, f) # cache) =
     (map_of (Links dn) n = Some (node_Cid env (node_of f)) \<and> synced env f \<and> synced_cache env dn cache)"

lemma synced_cache_iff:
  "synced_cache env dn cache \<longleftrightarrow>
     (\<forall>(n, f) \<in> set cache. map_of (Links dn) n = Some (node_Cid env (node_of f)) \<and> synced env f)"
  by (induction cache) auto

definition saved :: "'e mfs_env_scheme \<Rightarrow> (string list \<Rightarrow> entry option) \<Rightarrow> dagmap \<Rightarrow> fsnode \<Rightarrow> bool" where
  "saved env V D f =
     (wf_fs env D f \<and> synced env f \<and> D (node_Cid env (node_of f)) = Some (sort_links (node_of f))
      \<and> fs_tree D (node_of f) \<and> (\<forall>ps. view D f ps = V ps) \<and> (\<forall>ps. node_at D (node_of f) ps = V ps))"

lemma saved_le: "saved env V D f \<Longrightarrow> D \<subseteq>\<^sub>m D' \<Longrightarrow> saved env V D' f"
  unfolding saved_def using wf_le(1) view_le node_at_le fs_tree_le map_leD by metis

definition saves :: "'e mfs_env_scheme \<Rightarrow> dagmap \<Rightarrow> (string \<times> fsnode) list \<Rightarrow> ipld_node \<Rightarrow> dagmap \<Rightarrow> (string \<times> fsnode) list \<Rightarrow> ipld_node \<Rightarrow> bool" where
  "saves env D es dn D' es' dn' =
     (map fst es' = map fst es \<and> is_dir dn' \<and> distinct (map fst (Links dn')) \<and> fst ` set (Links dn') = fst ` set (Links dn)
      \<and> (\<forall>n. case map_of es n of
            None \<Rightarrow> map_of (Links dn') n = map_of (Links dn) n
          | Some g \<Rightarrow> (\<exists>g'. map_of es' n = Some g' \<and> saved env (view D g) D' g'
              \<and> map_of (Links dn') n = Some (node_Cid env (node_of g')))))"

lemma saves_cached:
  assumes "saves env D cache dn D1 cache1 dn1" "map_of cache n = Some g"
  obtains g' where "map_of cache1 n = Some g'" "saved env (view D g) D1 g'" "map_of (Links dn1) n = Some (node_Cid env (node_of g'))"
proof -
  have "case map_of cache n of
      None \<Rightarrow> map_of (Links dn1) n = map_of (Links dn) n
    | Some g \<Rightarrow> (\<exists>g'. map_of cache1 n = Some g' \<and> saved env (view D g) D1 g'
        \<and> map_of (Links dn1) n = Some (node_Cid env (node_of g')))"
    using assms(1) by (simp add: saves_def)
  then show ?thesis using assms(2) that by auto
qed

lemma saves_uncached:
  assumes "saves env D cache dn D1 cache1 dn1" "map_of cache n = None"
  shows "map_of (Links dn1) n = map_of (Links dn) n"
proof -
  have "case map_of cache n of
      None \<Rightarrow> map_of (Links dn1) n = map_of (Links dn) n
    | Some g \<Rightarrow> (\<exists>g'. map_of cache1 n = Some g' \<and> saved env (view D g) D1 g'
        \<and> map_of (Links dn1) n = Some (node_Cid env (node_of g')))"
    using assms(1) by (simp add: saves_def)
  then show ?thesis using assms(2) by simp
qed

lemma saves_orig:
  assumes "saves env D cache dn D1 cache1 dn1" "map_of cache1 n = Some g'"
  obtains g where "map_of cache n = Some g" "saved env (view D g) D1 g'" "map_of (Links dn1) n = Some (node_Cid env (node_of g'))"
proof -
  have "map fst cache1 = map fst cache" using assms(1) by (simp add: saves_def)
  then have "fst ` set cache1 = fst ` set cache" by (metis list.set_map)
  moreover have "n \<in> fst ` set cache1" using assms(2) by (force dest: map_of_SomeD)
  ultimately obtain g where "map_of cache n = Some g" by (metis map_of_eq_None_iff option.exhaust)
  with saves_cached [OF assms(1) this] show ?thesis using assms(2) that by (metis option.inject)
qed

text \<open>After a sync every link leads to a stored tree that shows what the directory showed there.\<close>

lemma saves_tree:
  assumes sv: "saves env D cache dn D1 cache1 dn1" and wf: "wf_fs env D (Directory dn cache)"
    and le: "D \<subseteq>\<^sub>m D'" "D1 \<subseteq>\<^sub>m D'" and c: "map_of (Links dn1) n = Some c"
  shows "\<exists>m. D' c = Some m \<and> fs_tree D' m \<and> (\<forall>ps. node_at D' m ps = view D (Directory dn cache) (n # ps))"
proof (cases "map_of cache n")
  case None
  then have l: "map_of (Links dn) n = Some c" "n \<notin> fst ` set cache"
    using saves_uncached [OF sv None] c by (auto simp: map_of_eq_None_iff)
  then obtain m where m: "D c = Some m" "fs_tree D m" using wf by (fastforce dest: map_of_SomeD)
  then have "view D (Directory dn cache) (n # ps) = node_at D m ps" for ps
    using None l(1) wf by (simp add: view.simps)
  then show ?thesis using map_leD [OF le(1) m(1)] fs_tree_le [OF m(2) le(1)] node_at_le [OF m(2) le(1)] by auto
next
  case (Some g)
  obtain g' where g': "saved env (view D g) D1 g'" "map_of (Links dn1) n = Some (node_Cid env (node_of g'))"
    using saves_cached [OF sv Some] by blast
  have sg: "saved env (view D g) D' g'" by (rule saved_le [OF g'(1) le(2)])
  then have "node_at D' (sort_links (node_of g')) ps = node_at D' (node_of g') ps" for ps
    using node_at_sort_tree by (simp add: saved_def)
  then show ?thesis using sg c g'(2) Some by (auto simp: saved_def view.simps)
qed

lemma GetNode_directory:
  assumes sv: "saves env (dag s) cache dn (dag s1) cache1 dn1" and wf: "wf_fs env (dag s) (Directory dn cache)"
    and g1: "grown env s s1" and a: "dag_Add env dn1 s1 = (None, s')" and ad: "addressed env (dag s)" and sound: "sound_env env"
  shows "grown env s s' \<and> saved env (view (dag s) (Directory dn cache)) (dag s') (Directory (sort_links dn1) cache1)"
proof -
  note g = dag_Add_grown [OF a _ sound]
  have ad1: "addressed env (dag s1)" using g1 ad by (simp add: grown_def)
  have g2: "grown env s s'" by (rule grown_trans [OF g1 g(1) [OF ad1]])
  have le: "dag s1 \<subseteq>\<^sub>m dag s'" "dag s \<subseteq>\<^sub>m dag s'" using g(1) [OF ad1] g2 by (simp_all add: grown_def)
  have d: "is_dir dn1" "distinct (map fst (Links dn1))" "map fst cache1 = map fst cache"
    "fst ` set (Links dn1) = fst ` set (Links dn)" using sv by (auto simp: saves_def)
  have dom1: "fst ` set cache1 = fst ` set cache" using d(3) by (metis list.set_map)
  have dc: "distinct (map fst cache1)" using d(3) wf by simp
  note tree = saves_tree [OF sv wf le(2,1)]
  have treeL: "\<exists>m. dag s' c = Some m \<and> fs_tree (dag s') m" if "(n, c) \<in> set (Links dn1)" for n c
    using tree [of n c] that d(2) by auto
  have cached: "saved env (view (dag s) (the (map_of cache n))) (dag s') g'"
    "map_of (Links dn1) n = Some (node_Cid env (node_of g'))" if "(n, g') \<in> set cache1" for n g'
    using saves_orig [OF sv, of n g'] that dc saved_le [OF _ le(1)] by (metis map_of_eq_Some_iff option.sel)+
  have wfc: "wf_cache env (dag s') cache1" using cached(1) unfolding wf_cache_iff saved_def by blast
  have W: "wf_fs env (dag s') (Directory (sort_links dn1) cache1)" using d dc dom1 wf wfc treeL by auto
  have sy: "synced env (Directory (sort_links dn1) cache1)"
    using cached d(2) unfolding synced.simps synced_cache_iff saved_def by fastforce
  have T: "fs_tree (dag s') (sort_links dn1)" by (rule fs_tree.fs_dir) (use d treeL in auto)
  have N: "node_at (dag s') (sort_links dn1) ps = view (dag s) (Directory dn cache) ps" for ps
  proof (cases ps)
    case (Cons p qs)
    show ?thesis
    proof (cases "map_of (Links dn1) p")
      case None
      then have "p \<notin> fst ` set (Links dn)" "map_of cache p = None" using d(4) wf by (auto simp: map_of_eq_None_iff)
      then show ?thesis using None Cons d(1,2) view_absent by simp
    next
      case (Some c)
      then show ?thesis using tree [OF Some] Cons d(1,2) by auto
    qed
  qed (use d(1) wf in \<open>simp add: entry_of_def\<close>)
  have "view (dag s') (Directory (sort_links dn1) cache1) ps = view (dag s) (Directory dn cache) ps" for ps
  proof (cases ps)
    case (Cons p qs)
    show ?thesis
    proof (cases "map_of cache1 p")
      case (Some g')
      then obtain g where "map_of cache p = Some g" using saves_orig [OF sv] by blast
      then show ?thesis using cached(1) [of p g'] Some Cons dc by (simp add: view.simps saved_def)
    qed (use N [of ps] Cons in \<open>simp add: view.simps\<close>)
  qed (use d(1) wf in \<open>simp add: entry_of_def\<close>)
  then show ?thesis using g2 W sy T N g(2) [OF ad1] by (simp add: saved_def)
qed

lemma saves_Cons:
  assumes wf: "wf_cache env D ((n, g) # es)" and dst: "distinct (map fst ((n, g) # es))" "is_dir dn"
    "distinct (map fst (Links dn))" "n \<in> fst ` set (Links dn)"
    and g: "saved env (view D g) D1 g'" "node_of g' = nd" "D \<subseteq>\<^sub>m D1" "D1 \<subseteq>\<^sub>m D2"
    and sv: "saves env D1 es (add_link n (node_Cid env nd) dn) D2 es' dn'"
  shows "saves env D ((n, g) # es) dn D2 ((n, g') # es') dn'"
proof -
  have L: "Links (add_link n (node_Cid env nd) dn) = set_entry n (node_Cid env nd) (Links dn)"
    by (rule add_link_set_entry [OF dst(2)])
  have gn: "map_of es n = None" using dst(1) by (simp add: map_of_eq_None_iff)
  have "map_of (Links dn') n = Some (node_Cid env (node_of g'))" using saves_uncached [OF sv gn] L g(2) by simp
  moreover have "saved env (view D g) D2 g'" by (rule saved_le [OF g(1,4)])
  moreover have "\<exists>h'. map_of es' m = Some h' \<and> saved env (view D h) D2 h' \<and> map_of (Links dn') m = Some (node_Cid env (node_of h'))"
    if h: "map_of es m = Some h" for m h
  proof -
    obtain h' where h': "map_of es' m = Some h'" "saved env (view D1 h) D2 h'" "map_of (Links dn') m = Some (node_Cid env (node_of h'))"
      using saves_cached [OF sv h] by blast
    have "view D1 h = view D h" using view_le [OF wf_cache_map_of [OF _ h] g(3)] wf by fastforce
    then show ?thesis using h' by auto
  qed
  moreover have "map_of (Links dn') m = map_of (Links dn) m" if "map_of es m = None" "m \<noteq> n" for m
    using saves_uncached [OF sv that(1)] L that(2) by simp
  ultimately show ?thesis using sv L dst(4) by (auto simp: saves_def split: option.splits)
qed

lemma GetNode_ok:
  "GetNode env f s = (Inr nd, f', s') \<Longrightarrow> wf_fs env (dag s) f \<Longrightarrow> addressed env (dag s) \<Longrightarrow> sound_env env
    \<Longrightarrow> grown env s s' \<and> saved env (view (dag s) f) (dag s') f' \<and> node_of f' = nd"
  "sync_entries env es dn s = (None, es', dn', s') \<Longrightarrow> wf_cache env (dag s) es \<Longrightarrow> distinct (map fst es) \<Longrightarrow> is_dir dn
    \<Longrightarrow> distinct (map fst (Links dn)) \<Longrightarrow> fst ` set es \<subseteq> fst ` set (Links dn) \<Longrightarrow> addressed env (dag s) \<Longrightarrow> sound_env env
    \<Longrightarrow> grown env s s' \<and> saves env (dag s) es dn (dag s') es' dn'"
proof (induction env f s and env es dn s arbitrary: f' nd s' and es' dn' s' rule: GetNode_sync_entries.induct)
  case (1 env nd s)
  then show ?case by (auto simp: saved_def)
next
  case (2 env dnode cache s)
  obtain es1 dn1 s1 where sy: "sync_entries env cache dnode s = (None, es1, dn1, s1)" and a: "dag_Add env dn1 s1 = (None, s')"
    and run: "nd = sort_links dn1" "f' = Directory (sort_links dn1) es1"
    using 2(2) by (auto split: prod.splits option.splits)
  have "grown env s s1 \<and> saves env (dag s) cache dnode (dag s1) es1 dn1" by (rule 2(1) [OF sy]) (use 2(3-5) in auto)
  then have "grown env s s1" "saves env (dag s) cache dnode (dag s1) es1 dn1" by auto
  from GetNode_directory [OF this(2) 2(3) this(1) a 2(4,5)] show ?case using run by simp
next
  case (3 env dn s)
  then show ?case by (auto simp: saves_def)
next
  case (4 env name entry cache dnode s)
  obtain nd1 g' s1 es2 where gn: "GetNode env entry s = (Inr nd1, g', s1)"
    and sy: "sync_entries env cache (add_link name (node_Cid env nd1) dnode) s1 = (None, es2, dn', s')" and run: "es' = (name, g') # es2"
    using 4(3) by (auto split: prod.splits sum.splits option.splits)
  have ih1: "grown env s s1" "saved env (view (dag s) entry) (dag s1) g'" "node_of g' = nd1"
    using 4(1) [OF gn] 4(4,9,10) by auto
  have le1: "dag s \<subseteq>\<^sub>m dag s1" and ad1: "addressed env (dag s1)" using ih1(1) 4(9) by (auto simp: grown_def)
  have L: "Links (add_link name (node_Cid env nd1) dnode) = set_entry name (node_Cid env nd1) (Links dnode)"
    by (rule add_link_set_entry [OF 4(6)])
  have "grown env s1 s' \<and> saves env (dag s1) cache (add_link name (node_Cid env nd1) dnode) (dag s') es2 dn'"
    by (rule 4(2) [OF gn [symmetric] refl _ sy]) (use 4(4-10) L ad1 wf_le(2) [OF _ le1] in auto)
  then have ih2: "grown env s1 s'" "saves env (dag s1) cache (add_link name (node_Cid env nd1) dnode) (dag s') es2 dn'" by auto
  have le2: "dag s1 \<subseteq>\<^sub>m dag s'" using ih2(1) by (simp add: grown_def)
  have "saves env (dag s) ((name, entry) # cache) dnode (dag s') es' dn'"
    unfolding run by (rule saves_Cons [OF 4(4,5,6,7) _ ih1(2,3) le1 le2 ih2(2)]) (use 4(8) in simp)
  then show ?case using grown_trans [OF ih1(1) ih2(1)] by simp
qed

lemma GetNode_dir: "GetNode env (Directory dn cache) s = (r, f', s') \<Longrightarrow> \<exists>dn' cache'. f' = Directory dn' cache'"
  by (auto split: prod.splits option.splits)

lemma root_Flush_ok:
  assumes "root_Flush env f s = (None, f', s')" "wf_fs env (dag s) f" "addressed env (dag s)" "sound_env env"
  shows "grown env s s'" "saved env (view (dag s) f) (dag s') f'"
proof -
  obtain nd s1 where g: "GetNode env f s = (Inr nd, f', s1)" and a: "dag_Add env nd s1 = (None, s')"
    using assms(1) by (auto simp: root_Flush_def split: prod.splits sum.splits)
  note ok = GetNode_ok(1) [OF g assms(2-4)]
  have "grown env s1 s'" using dag_Add_grown(1) [OF a _ assms(4)] ok assms(3) by (simp add: grown_def)
  then show "grown env s s'" "saved env (view (dag s) f) (dag s') f'"
    using ok grown_trans saved_le by (blast, auto simp: grown_def)
qed

text \<open>Dropping the cache of a synced directory changes nothing.\<close>

lemma saved_uncache:
  assumes "saved env V D (Directory dn cache)"
  shows "saved env V D (Directory dn [])"
proof -
  have t: "fs_tree D dn" "is_dir dn" using assms by (auto simp: saved_def)
  have "\<exists>m. D c = Some m \<and> fs_tree D m" if "(n, c) \<in> set (Links dn)" for n c using fs_tree_dirD(2) [OF t, of c] that by force
  then have "wf_fs env D (Directory dn [])" using fs_tree_dirD(1) [OF t] t(2) by auto
  moreover have "view D (Directory dn []) ps = node_at D dn ps" for ps by (cases ps) (auto simp: view.simps)
  ultimately show ?thesis using assms by (simp add: saved_def)
qed

lemma FlushMemFree_ok:
  assumes "FlushMemFree env (Directory dn cache) s = (None, f', s')" "wf_fs env (dag s) (Directory dn cache)"
    "addressed env (dag s)" "sound_env env"
  shows "grown env s s'" "saved env (view (dag s) (Directory dn cache)) (dag s') f'" "\<exists>dn'. f' = Directory dn' []"
proof -
  obtain f1 where f: "root_Flush env (Directory dn cache) s = (None, f1, s')" and run: "f' = Directory (unixfsDir f1) []"
    using assms(1) by (auto simp: FlushMemFree_def split: prod.splits option.splits)
  obtain dn1 c1 where f1: "f1 = Directory dn1 c1"
    using f GetNode_dir by (fastforce simp: root_Flush_def simp del: GetNode.simps split: prod.splits sum.splits)
  note ok = root_Flush_ok [OF f assms(2-4)]
  show "grown env s s'" "saved env (view (dag s) (Directory dn cache)) (dag s') f'" "\<exists>dn'. f' = Directory dn' []"
    using ok saved_uncache f1 run by auto
qed

subsection \<open>Stores that lose what is not needed\<close>

text \<open>A store that agrees below the links of a synced directory shows the same.\<close>

lemma synced_agree:
  assumes "addressed env D" "inj (Cid_of env)"
  shows "wf_fs env D f \<Longrightarrow> synced env f \<Longrightarrow> fs_tree D (node_of f)
    \<Longrightarrow> (\<And>c x. c \<in> snd ` set (Links (node_of f)) \<Longrightarrow> reaches (dlinks D) c x \<Longrightarrow> D' x = D x)
    \<Longrightarrow> (is_leaf (node_of f) \<Longrightarrow> D' (node_Cid env (node_of f)) = D (node_Cid env (node_of f)))
    \<Longrightarrow> wf_fs env D' f \<and> (\<forall>ps. view D' f ps = view D f ps)"
proof (induction f)
  case (File nd)
  then show ?case using fs_tree_agree [of D nd D'] node_at_agree [of D nd D'] by auto
next
  case (Directory dn cache)
  have d: "is_dir dn" "distinct (map fst cache)" using Directory.prems(1) by auto
  have sub: "\<exists>m. D' c = Some m \<and> D c = Some m \<and> fs_tree D m \<and> fs_tree D' m \<and> (\<forall>ps. node_at D' m ps = node_at D m ps)
    \<and> (\<forall>d x. d \<in> snd ` set (Links m) \<longrightarrow> reaches (dlinks D) d x \<longrightarrow> D' x = D x)"
    if c: "c \<in> snd ` set (Links dn)" for c
  proof -
    obtain m where m: "D c = Some m" "fs_tree D m" using fs_tree_dirD(2) [of D dn c] Directory.prems(3) d(1) c by auto
    have below: "D' x = D x" if x: "d \<in> snd ` set (Links m)" "reaches (dlinks D) d x" for d x
    proof -
      have "reaches (dlinks D) c d" using m(1) x(1) by (intro reaches_link) (simp add: dlinks_def)
      then have "reaches (dlinks D) c x" using x(2) by (blast intro: reaches_trans)
      then show ?thesis using Directory.prems(4) [of c x] c by simp
    qed
    have "D' c = D c" using Directory.prems(4) [of c c] c reaches_refl by auto
    then show ?thesis using m fs_tree_agree [OF m(2) below] node_at_agree [OF m(2) below] below by auto
  qed
  have kid: "wf_fs env D' g \<and> (\<forall>ps. view D' g ps = view D g ps)" if g: "(n, g) \<in> set cache" for n g
  proof -
    have l: "map_of (Links dn) n = Some (node_Cid env (node_of g))" "synced env g" "wf_fs env D g"
      using Directory.prems(1,2) g by (auto simp: synced_cache_iff wf_cache_iff)
    then have c: "node_Cid env (node_of g) \<in> snd ` set (Links dn)" by (force dest: map_of_SomeD)
    obtain m where m: "D (node_Cid env (node_of g)) = Some m" "D' (node_Cid env (node_of g)) = Some m" "fs_tree D m"
      "\<And>d x. d \<in> snd ` set (Links m) \<Longrightarrow> reaches (dlinks D) d x \<Longrightarrow> D' x = D x"
      using sub [OF c] by blast
    have "m = sort_links (node_of g)" using assms m(1) by (auto simp: addressed_def node_Cid_def inj_def)
    moreover have "fs_tree D (node_of g)" using m(3) calculation by simp
    ultimately show ?thesis using Directory.IH [of "(n, g)" g] g l m by auto
  qed
  have "\<exists>m. D' c = Some m \<and> fs_tree D' m" if "(n, c) \<in> set (Links dn)" for n c using sub [of c] that by force
  then have "wf_fs env D' (Directory dn cache)" using Directory.prems(1) kid by (auto simp: wf_cache_iff)
  moreover have "view D' (Directory dn cache) ps = view D (Directory dn cache) ps" for ps
  proof (cases ps)
    case (Cons p qs)
    show ?thesis
    proof (cases "map_of cache p")
      case None
      then show ?thesis
        using Cons node_at_agree [of D dn D' ps] Directory.prems(3,4) by (simp add: view.simps)
    next
      case (Some g)
      then show ?thesis using Cons kid [of p g] by (auto simp: view.simps dest: map_of_SomeD)
    qed
  qed simp
  ultimately show ?case by blast
qed

section \<open>Progress\<close>

text \<open>When the service takes every node, the operations succeed wherever the view allows them.\<close>

definition takes_all :: "'e mfs_env_scheme \<Rightarrow> bool" where
  "takes_all env = (\<forall>n. add_err env n = None)"

lemma dag_Add_None: "takes_all env \<Longrightarrow> \<exists>s'. dag_Add env nd s = (None, s')"
  by (simp add: takes_all_def dag_Add_def)

lemma GetNode_Inr:
  "takes_all env \<Longrightarrow> \<exists>nd f' s'. GetNode env f s = (Inr nd, f', s')"
  "takes_all env \<Longrightarrow> \<exists>es' dn' s'. sync_entries env es dn s = (None, es', dn', s')"
proof (induction env f s and env es dn s rule: GetNode_sync_entries.induct)
  case (2 env dnode cache s)
  obtain es1 dn1 s1 where "sync_entries env cache dnode s = (None, es1, dn1, s1)" using 2 by blast
  moreover obtain s2 where "dag_Add env dn1 s1 = (None, s2)" using dag_Add_None [OF 2(2)] by blast
  ultimately show ?case by simp
next
  case (4 env name entry cache dnode s)
  obtain nd g s1 where g: "GetNode env entry s = (Inr nd, g, s1)" using 4(1) [OF 4(3)] by blast
  then obtain es' dn' s' where "sync_entries env cache (add_link name (node_Cid env nd) dnode) s1 = (None, es', dn', s')"
    using 4(2) [OF g [symmetric] refl refl 4(3)] by blast
  then show ?case using g by simp
qed auto

lemma view_dir:
  assumes "wf_fs env D f" "view D f [] = Some EDir"
  obtains dn cache where "f = Directory dn cache"
proof (cases f)
  case (File nd)
  then show ?thesis using assms leaf_not_dir by (auto simp: entry_of_def)
qed (use that in blast)

lemma dir_Mkdir_progress:
  assumes "wf_fs env (dag s) (Directory dn cache)" "addressed env (dag s)" "sound_env env" "takes_all env"
    "view (dag s) (Directory dn cache) [d] \<in> {None, Some EDir}"
  shows "(\<exists>g dn' c' s'. dir_Mkdir env d dn cache s = (MkOld g, dn', c', s')) \<or> (\<exists>g dn' c' s'. dir_Mkdir env d dn cache s = (MkNew g, dn', c', s'))"
proof -
  obtain r c1 s1 where c: "childUnsync env d dn cache s = (r, c1, s1)" by (metis prod_cases3)
  note cu = childUnsync_ok [OF c assms(1-3)]
  show ?thesis
  proof (cases r)
    case (Inr g)
    have "view (dag s) g [] \<noteq> None" by (cases g) simp_all
    then have "view (dag s) g [] = Some EDir" using cu(5) [OF Inr] assms(5) by auto
    then obtain nd es where "g = Directory nd es" using cu(5) [OF Inr] view_dir by metis
    then show ?thesis using c Inr by (simp add: dir_Mkdir_def)
  next
    case (Inl e)
    obtain s2 where "dag_Add env (EmptyDirNode (CidBuilder dn)) s1 = (None, s2)" using dag_Add_None [OF assms(4)] by blast
    then show ?thesis using c Inl by (simp add: dir_Mkdir_def Let_def)
  qed
qed

lemma mkdir_loop_progress:
  "wf_fs env (dag s) f \<Longrightarrow> addressed env (dag s) \<Longrightarrow> sound_env env \<Longrightarrow> takes_all env \<Longrightarrow> Mkparents opts
    \<Longrightarrow> (\<And>Q. prefix Q parts \<Longrightarrow> view (dag s) f Q \<in> {None, Some EDir}) \<Longrightarrow> \<exists>f' s'. mkdir_loop env opts parts f s = (None, f', s')"
proof (induction env opts parts f s rule: mkdir_loop.induct)
  case (1 env opts parts nd s)
  then show ?case using leaf_not_dir 1(6) [of "[]"] by (auto simp: entry_of_def)
next
  case (3 env opts d dnode cache s)
  have "view (dag s) (Directory dnode cache) [d] \<in> {None, Some EDir}" by (rule 3(6)) simp
  from dir_Mkdir_progress [OF 3(1-4) this] show ?case using 3(5) by auto
next
  case (4 env opts d d' parts dnode cache s)
  obtain r c1 s1 where c: "childUnsync env d dnode cache s = (r, c1, s1)" by (metis prod_cases3)
  note cu = childUnsync_ok [OF c 4(3-5)]
  show ?case
  proof (cases r)
    case (Inr g)
    have v: "view (dag s1) g Q \<in> {None, Some EDir}" if "prefix Q (d' # parts)" for Q
      using 4(8) [of "d # Q"] that cu(5) [OF Inr] cu(1) by simp
    have "\<exists>f' s'. mkdir_loop env opts (d' # parts) g s1 = (None, f', s')"
      by (rule 4(2) [OF c [symmetric] Inr refl]) (use cu(1) cu(5) [OF Inr] 4(4-7) v in auto)
    then show ?thesis using c Inr by auto
  next
    case (Inl e)
    note absent = cu(6) [OF Inl]
    have c0: "childUnsync env d dnode cache s = (Inl ErrNotExist, cache, s)" using c Inl absent by simp
    have "view (dag s) (Directory dnode cache) [d] \<in> {None, Some EDir}" by (rule 4(8)) simp
    from dir_Mkdir_progress [OF 4(3-6) this] obtain g dn' c' s2 where m: "dir_Mkdir env d dnode cache s = (MkNew g, dn', c', s2)"
      using c0 by (auto simp: dir_Mkdir_def Let_def split: option.splits prod.splits)
    note new = dir_Mkdir_new [OF m 4(3-5)]
    have g: "wf_fs env (dag s2) g" using new(3) by simp
    have v: "view (dag s2) (set_builder (opt_CidBuilder opts) g) Q \<in> {None, Some EDir}" for Q
      using set_builder_ok [OF g] new(3) by (cases Q) (simp_all add: entry_of_def view.simps)
    have "\<exists>f' s'. mkdir_loop env opts (d' # parts) (set_builder (opt_CidBuilder opts) g) s2 = (None, f', s')"
      by (rule 4(1) [OF c0 [symmetric] refl refl _ m [symmetric] refl refl refl])
        (use set_builder_ok [OF g] new(1) 4(4-7) v in \<open>auto simp: grown_def\<close>)
    then show ?thesis using c0 m 4(7) by auto
  qed
qed auto

lemma put_loop_progress:
  "wf_fs env (dag s) f \<Longrightarrow> addressed env (dag s) \<Longrightarrow> sound_env env \<Longrightarrow> takes_all env
    \<Longrightarrow> (\<And>Q. prefix Q parts \<Longrightarrow> view (dag s) f Q = Some EDir) \<Longrightarrow> view (dag s) f (parts @ [name]) = None
    \<Longrightarrow> \<exists>f' s'. put_loop env parts name nd f s = (None, f', s')"
proof (induction env parts name nd f s rule: put_loop.induct)
  case (1 env parts name nd f s)
  then show ?case using leaf_not_dir 1(5) [of "[]"] by (auto simp: entry_of_def)
next
  case (2 env name nd dnode cache s)
  obtain r c1 s1 where c: "childUnsync env name dnode cache s = (r, c1, s1)" by (metis prod_cases3)
  note cu = childUnsync_ok [OF c 2(1-3)]
  obtain e where "r = Inl e"
  proof (cases r)
    case (Inr g)
    have "view (dag s) g [] \<noteq> None" by (cases g) simp_all
    then show ?thesis using cu(5) [OF Inr] 2(6) by simp
  qed (use that in blast)
  moreover obtain s2 where "dag_Add env nd s1 = (None, s2)" using dag_Add_None [OF 2(4)] by blast
  ultimately show ?case using c by (simp add: dir_AddChild_def)
next
  case (3 env p parts name nd dnode cache s)
  obtain r c1 s1 where c: "childUnsync env p dnode cache s = (r, c1, s1)" by (metis prod_cases3)
  note cu = childUnsync_ok [OF c 3(2-4)]
  obtain g where r: "r = Inr g"
  proof (cases r)
    case (Inl e)
    then show ?thesis using 3(6) [of "[p]"] cu(6) [OF Inl] view_absent by simp
  qed (use that in blast)
  have v: "view (dag s1) g Q = Some EDir" if "prefix Q parts" for Q using 3(6) [of "p # Q"] that cu(5) [OF r] cu(1) by simp
  have "\<exists>f' s'. put_loop env parts name nd g s1 = (None, f', s')"
    by (rule 3(1) [OF c [symmetric] r refl]) (use cu(1) cu(5) [OF r] 3(3-7) v in auto)
  then show ?case using c r by auto
qed

subsection \<open>What is not touched\<close>

lemma dag_Add_more: "dag_Add env nd s = (r, s') \<Longrightarrow> dag_state.more s' = dag_state.more s"
  by (auto simp: dag_Add_def split: option.splits)

lemma dag_Get_more: "dag_Get env c s = (r, s') \<Longrightarrow> dag_state.more s' = dag_state.more s"
  by (auto simp: dag_Get_def Let_def split: option.splits)

lemma childUnsync_more: "childUnsync env n dn cache s = (r, c', s') \<Longrightarrow> dag_state.more s' = dag_state.more s"
  by (auto simp: childUnsync_def dag_Get_def Let_def split: option.splits sum.splits prod.splits)

lemma GetNode_more:
  "GetNode env f s = (r, f', s') \<Longrightarrow> dag_state.more s' = dag_state.more s"
  "sync_entries env es dn s = (x, es', dn', s') \<Longrightarrow> dag_state.more s' = dag_state.more s"
proof (induction env f s and env es dn s arbitrary: r f' s' and x es' dn' s' rule: GetNode_sync_entries.induct)
  case (2 env dnode cache s)
  then show ?case using dag_Add_more by (fastforce split: prod.splits option.splits)
next
  case (4 env name entry cache dnode s)
  obtain r1 g' s1 where gn: "GetNode env entry s = (r1, g', s1)" by (metis prod_cases3)
  show ?case
  proof (cases r1)
    case (Inr nd1)
    obtain y es2 dn2 s2 where sy: "sync_entries env cache (add_link name (node_Cid env nd1) dnode) s1 = (y, es2, dn2, s2)" by (metis prod_cases4)
    show ?thesis using 4(1) [OF gn] 4(2) [OF gn [symmetric, unfolded Inr] refl refl sy] 4(3) gn Inr sy by simp
  qed (use 4(1) [OF gn] 4(3) gn in auto)
qed auto

subsection \<open>Saved directories\<close>

lemma saved_child:
  assumes "saved env V D (Directory dn cache)" "(n, g) \<in> set cache" "addressed env D" "sound_env env"
  shows "saved env (\<lambda>qs. V (n # qs)) D g" "map_of (Links dn) n = Some (node_Cid env (node_of g))"
proof -
  have a: "wf_fs env D g" "synced env g" "is_dir dn" "fs_tree D dn" "distinct (map fst cache)"
    using assms(1,2) by (auto simp: saved_def synced_cache_iff wf_cache_iff)
  show l: "map_of (Links dn) n = Some (node_Cid env (node_of g))" using assms(1,2) by (auto simp: saved_def synced_cache_iff)
  then have "node_Cid env (node_of g) \<in> snd ` set (Links dn)" by (force dest: map_of_SomeD)
  then obtain m where m: "D (node_Cid env (node_of g)) = Some m" "fs_tree D m" using fs_tree_dirD(2) [OF a(4,3)] by blast
  have e: "m = sort_links (node_of g)" using assms(3,4) m(1) by (auto simp: addressed_def node_Cid_def inj_def sound_env_def)
  then have t: "fs_tree D (node_of g)" using m(2) by simp
  have "node_at D dn (n # qs) = node_at D (node_of g) qs" for qs using l m(1) e a(3) node_at_sort_tree [OF t] by simp
  moreover have "view D (Directory dn cache) (n # qs) = view D g qs" for qs using assms(2) a(5) by (simp add: view.simps)
  ultimately show "saved env (\<lambda>qs. V (n # qs)) D g" using assms(1) a m(1) e t unfolding saved_def by (metis node_of.simps(2))
qed

lemma saved_dirI:
  assumes "is_dir dn" "distinct (map fst cache)" "D (node_Cid env dn) = Some (sort_links dn)" "fs_tree D dn" "\<And>ps. node_at D dn ps = V ps"
    "\<And>n g. (n, g) \<in> set cache \<Longrightarrow> saved env (\<lambda>qs. V (n # qs)) D g \<and> map_of (Links dn) n = Some (node_Cid env (node_of g))"
  shows "saved env V D (Directory dn cache)"
proof -
  have "\<exists>m. D c = Some m \<and> fs_tree D m" if "(n, c) \<in> set (Links dn)" for n c using fs_tree_dirD(2) [OF assms(4,1), of c] that by force
  moreover have "fst ` set cache \<subseteq> fst ` set (Links dn)" using assms(6) by (force dest: map_of_SomeD)
  ultimately have "wf_fs env D (Directory dn cache)"
    using assms(1,2) fs_tree_dirD(1) [OF assms(4,1)] assms(6) by (auto simp: wf_cache_iff saved_def)
  moreover have "synced env (Directory dn cache)" using assms(6) by (auto simp: synced_cache_iff saved_def)
  moreover have "view D (Directory dn cache) ps = V ps" for ps
  proof (cases ps)
    case (Cons p qs)
    show ?thesis
    proof (cases "map_of cache p")
      case (Some g)
      then show ?thesis using assms(6) [of p g] Cons by (auto simp: view.simps saved_def dest: map_of_SomeD)
    next
      case None
      then show ?thesis using Cons assms(5) [of ps] by (simp add: view.simps)
    qed
  qed (use assms(5) [of "[]"] in simp)
  ultimately show ?thesis using assms(3-5) by (simp add: saved_def)
qed

lemma saved_dirD:
  assumes "saved env V D (Directory dn cache)"
  shows "is_dir dn" "distinct (map fst cache)" "D (node_Cid env dn) = Some (sort_links dn)" "fs_tree D dn" "node_at D dn ps = V ps"
  using assms by (auto simp: saved_def)

text \<open>Opening a child of a saved directory, and dropping it again.\<close>

lemma childUnsync_saved:
  assumes "childUnsync env n dn cache s = (r, cache', s')" "saved env V (dag s) (Directory dn cache)" "addressed env (dag s)" "sound_env env"
    "n \<in> fst ` set (Links dn)"
  obtains g where "r = Inr g" "dag s' = dag s" "saved env V (dag s) (Directory dn cache')" "saved env (\<lambda>qs. V (n # qs)) (dag s) g"
proof -
  note d = saved_dirD [OF assms(2)]
  have wf: "wf_fs env (dag s) (Directory dn cache)" using assms(2) by (simp add: saved_def)
  note cu = childUnsync_ok [OF assms(1) wf assms(3,4)]
  obtain g where r: "r = Inr g" using cu(6) assms(5) by (cases r) auto
  have gc: "(n, g) \<in> set cache'" using cu(5) [OF r] by (auto dest: map_of_SomeD)
  have kid: "saved env (\<lambda>qs. V (m # qs)) (dag s) h \<and> map_of (Links dn) m = Some (node_Cid env (node_of h))" if h: "(m, h) \<in> set cache'" for m h
  proof (cases "(m, h) \<in> set cache")
    case True
    then show ?thesis using saved_child [OF assms(2) _ assms(3,4)] by blast
  next
    case False
    then obtain c nd where c: "map_of (Links dn) n = Some c" "dag s c = Some nd" "fs_object nd = Inr h" "m = n"
      using assms(1) h by (auto simp: childUnsync_def dag_Get_def Let_def set_entry_def split: option.splits sum.splits)
    then have t: "fs_tree (dag s) nd" using fs_tree_dirD(2) [OF d(4,1), of c] by (force dest: map_of_SomeD)
    obtain f where f: "fs_object nd = Inr f" "wf_fs env (dag s) f" "\<And>ps. view (dag s) f ps = node_at (dag s) nd ps"
      by (rule fs_object_ok [OF t c(2) assms(3)]) blast
    have hn: "node_of h = nd" "synced env h" using c(3) by (cases nd; auto split: if_splits)+
    have "node_at (dag s) nd qs = V (n # qs)" for qs using d(5) [of "n # qs"] c(1,2) d(1) by simp
    then show ?thesis using f c hn t addressed_Cid [OF assms(3) c(2)] by (simp add: saved_def)
  qed
  have "distinct (map fst cache')" using cu(3) by simp
  then have "saved env V (dag s) (Directory dn cache')" by (intro saved_dirI) (use d kid in auto)
  then show ?thesis using that r cu(1) kid [OF gc] by blast
qed

lemma saved_drop:
  assumes "saved env V D (Directory dn cache)" "addressed env D" "sound_env env"
  shows "saved env V D (Directory dn (filter P cache))"
proof -
  note d = saved_dirD [OF assms(1)]
  have "distinct (map fst (filter P cache))" using d(2) distinct_map_filter by blast
  then show ?thesis using d saved_child [OF assms(1) _ assms(2,3)] by (intro saved_dirI) auto
qed


end
