(* ===== verification/Adder.thy ===== *)
theory Adder
  imports Mfs Gc
begin

text \<open>
  Adding files (\<^verbatim>\<open>core/coreunix/add.go\<close>) on top of the mutable file system. An \<^verbatim>\<open>Adder\<close> goes through a tree of files,
  builds a DAG for each, puts it into a file system in memory, and in the end writes and pins the root. While
  it works it holds the pin lock; when a garbage collection waits for the lock, the adder pins what it has so far, lets the
  collection run and goes on.

  Parameters (\<open>add_env\<close>) are the chunkers and layouts of \<^verbatim>\<open>go-unixfs\<close>, which turn data into nodes, the pinner's failures and
  what happens to the store when the lock is given up. Progress messages and the events of the output channel are
  kept in a list. The lock is a flag.
\<close>

section \<open>State and parameters\<close>

datatype fnode = FDir "(string \<times> fnode) list" "err option" | FSymlink string | FFile string | FOther

text \<open>What a layout returns: a node, or a node with its position in a file.\<close>

datatype built = Plain ipld_node | FilestoreNode ipld_node

datatype add_event = AddEvent string cid string | ProgressEvent string int

record Adder =
  a_Out :: bool
  a_Progress :: bool
  a_Pin :: bool
  a_Trickle :: bool
  a_RawLeaves :: bool
  a_Silent :: bool
  a_NoCopy :: bool
  a_Chunker :: string
  a_CidBuilder :: "cid_prefix option"

record adder_state = dag_state +
  pins :: "cid list"
  mroot :: "fsnode option"
  unlocker :: bool
  pin_locks :: int
  tempRoot :: cid
  liveNodes :: nat
  out :: "add_event list"
  ticks :: nat

record add_env = mfs_env +
  chunker_err :: "string \<Rightarrow> err option"
  params_err :: "err option"
  balanced_Layout :: "Adder \<Rightarrow> string \<Rightarrow> err + built \<times> ipld_node list"
  trickle_Layout :: "Adder \<Rightarrow> string \<Rightarrow> err + built \<times> ipld_node list"
  read_sizes :: "string \<Rightarrow> (int \<times> bool) list"
  SymlinkData :: "string \<Rightarrow> err + string"
  v0CidPrefix :: cid_prefix
  Cid_String :: "cid \<Rightarrow> string"
  node_Size :: "ipld_node \<Rightarrow> err + nat"
  unpin_err :: "nat \<Rightarrow> err option"
  flush_err :: "nat \<Rightarrow> err option"
  GCRequested :: "nat \<Rightarrow> bool"
  while_unlocked :: "nat \<Rightarrow> cid list \<Rightarrow> dagmap \<Rightarrow> dagmap"
  sync_err :: "err option"

type_synonym 'a add_res = "adder_state \<Rightarrow> (mfs_err + 'a) \<times> adder_state"

definition bindA :: "'a add_res \<Rightarrow> ('a \<Rightarrow> 'b add_res) \<Rightarrow> 'b add_res" where
  "bindA m f s = (case m s of (Inl e, s') \<Rightarrow> (Inl e, s') | (Inr x, s') \<Rightarrow> f x s')"

definition okA :: "'a \<Rightarrow> 'a add_res" where "okA x s = (Inr x, s)"

definition failA :: "mfs_err \<Rightarrow> 'a add_res" where "failA e s = (Inl e, s)"

definition check :: "err option \<Rightarrow> unit add_res" where
  "check e s = (case e of Some m \<Rightarrow> (Inl (MErr m), s) | None \<Rightarrow> (Inr (), s))"

fun of_opt :: "mfs_err option \<times> adder_state \<Rightarrow> (mfs_err + unit) \<times> adder_state" where
  "of_opt (Some e, s) = (Inl e, s)"
| "of_opt (None, s) = (Inr (), s)"

definition tick :: "nat add_res" where
  "tick s = (Inr (ticks s), s\<lparr>ticks := Suc (ticks s)\<rparr>)"

section \<open>The file system of an adder\<close>

definition liveCacheSize :: nat where "liveCacheSize = 256 * 1024"

definition progressReaderIncrement :: int where "progressReaderIncrement = 1024 * 256"

definition NewAdder :: Adder where
  "NewAdder = \<lparr>a_Out = False, a_Progress = False, a_Pin = True, a_Trickle = False, a_RawLeaves = False, a_Silent = False,
     a_NoCopy = False, a_Chunker = [], a_CidBuilder = None\<rparr>"

definition builder :: "'e add_env_scheme \<Rightarrow> Adder \<Rightarrow> cid_prefix" where
  "builder env a = (case a_CidBuilder a of None \<Rightarrow> v0CidPrefix env | Some b \<Rightarrow> b)"

definition mfsRoot :: "'e add_env_scheme \<Rightarrow> Adder \<Rightarrow> fsnode add_res" where
  "mfsRoot env a s =
     (case mroot s of
        Some r \<Rightarrow> (Inr r, s)
      | None \<Rightarrow>
          (let r = Directory (SetCidBuilder (builder env a) (EmptyDirNode (v0CidPrefix env))) [] in
           (Inr r, s\<lparr>mroot := Some r\<rparr>)))"

text \<open>An operation on the root, which is changed in place.\<close>

definition on_root ::
  "'e add_env_scheme \<Rightarrow> Adder \<Rightarrow> (fsnode \<Rightarrow> adder_state \<Rightarrow> (mfs_err + 'a) \<times> fsnode \<times> adder_state) \<Rightarrow> 'a add_res" where
  "on_root env a f = bindA (mfsRoot env a) (\<lambda>r s. case f r s of (x, r', s') \<Rightarrow> (x, s'\<lparr>mroot := Some r'\<rparr>))"

definition unit_op :: "(fsnode \<Rightarrow> adder_state \<Rightarrow> mfs_err option \<times> fsnode \<times> adder_state)
    \<Rightarrow> fsnode \<Rightarrow> adder_state \<Rightarrow> (mfs_err + unit) \<times> fsnode \<times> adder_state" where
  "unit_op f r s = (case f r s of (Some e, r', s') \<Rightarrow> (Inl e, r', s') | (None, r', s') \<Rightarrow> (Inr (), r', s'))"

section \<open>Building the DAG of a file\<close>

text \<open>\<^verbatim>\<open>bufferedDS.Commit\<close>: what the layout buffered is stored.\<close>

fun commit :: "'e mfs_env_scheme \<Rightarrow> ipld_node list \<Rightarrow> unit add_res" where
  "commit env [] s = (Inr (), s)"
| "commit env (nd # nds) s = (case dag_Add env nd s of (Some e, s') \<Rightarrow> (Inl e, s') | (None, s') \<Rightarrow> commit env nds s')"

definition add_data :: "'e add_env_scheme \<Rightarrow> Adder \<Rightarrow> string \<Rightarrow> built add_res" where
  "add_data env a reader =
     bindA (check (chunker_err env (a_Chunker a))) (\<lambda>_.
     bindA (check (params_err env)) (\<lambda>_ s.
       case (if a_Trickle a then trickle_Layout env a reader else balanced_Layout env a reader) of
         Inl e \<Rightarrow> (Inl (MErr e), s)
       | Inr (nd, nodes) \<Rightarrow> bindA (commit env nodes) (\<lambda>_. okA nd) s))"

text \<open>\<^verbatim>\<open>progressReader.Read\<close> over the reads of a file: how much was read, and whether the end was reached.\<close>

fun progress_reads :: "string \<Rightarrow> int \<Rightarrow> int \<Rightarrow> (int \<times> bool) list \<Rightarrow> add_event list" where
  "progress_reads path bytes lastProgress [] = []"
| "progress_reads path bytes lastProgress ((n, eof) # reads) =
     (let bytes' = bytes + n in
      if bytes' - lastProgress \<ge> progressReaderIncrement \<or> eof
      then ProgressEvent path bytes' # progress_reads path bytes' bytes' reads
      else progress_reads path bytes' lastProgress reads)"

section \<open>The root and its pin\<close>

definition curRootNode :: "'e add_env_scheme \<Rightarrow> Adder \<Rightarrow> ipld_node add_res" where
  "curRootNode env a =
     bindA (on_root env a (GetNode env)) (\<lambda>root.
       if length (Links root) = 1 then dag_Get env (snd (hd (Links root))) else okA root)"

definition Unpin :: "'e add_env_scheme \<Rightarrow> cid \<Rightarrow> unit add_res" where
  "Unpin env c =
     bindA tick (\<lambda>n. bindA (check (unpin_err env n)) (\<lambda>_ s.
       if c \<in> set (pins s) then (Inr (), s\<lparr>pins := removeAll c (pins s)\<rparr>) else (Inl (MErr ''not pinned or pinned indirectly''), s)))"

definition PinRoot :: "'e add_env_scheme \<Rightarrow> Adder \<Rightarrow> ipld_node \<Rightarrow> unit add_res" where
  "PinRoot env a root =
     (if \<not> a_Pin a then okA ()
      else
        (let rnk = node_Cid env root in
         bindA (\<lambda>s. of_opt (dag_Add env root s)) (\<lambda>_.
         bindA (\<lambda>s. if Defined (tempRoot s)
                    then bindA (Unpin env (tempRoot s)) (\<lambda>_ s. (Inr (), s\<lparr>tempRoot := rnk\<rparr>)) s
                    else (Inr (), s)) (\<lambda>_.
         bindA (\<lambda>s. (Inr (), s\<lparr>pins := List.insert rnk (pins s)\<rparr>)) (\<lambda>_.
         bindA tick (\<lambda>n. check (flush_err env n)))))))"

section \<open>Output\<close>

definition getOutput :: "'e add_env_scheme \<Rightarrow> ipld_node \<Rightarrow> err + cid \<times> string" where
  "getOutput env nd = (case node_Size env nd of Inl e \<Rightarrow> Inl e | Inr n \<Rightarrow> Inr (node_Cid env nd, show_nat n))"

definition outputDagnode :: "'e add_env_scheme \<Rightarrow> Adder \<Rightarrow> string \<Rightarrow> ipld_node \<Rightarrow> unit add_res" where
  "outputDagnode env a name nd s =
     (if \<not> a_Out a then (Inr (), s)
      else (case getOutput env nd of
          Inl e \<Rightarrow> (Inl (MErr e), s)
        | Inr (c, sz) \<Rightarrow> (Inr (), s\<lparr>out := out s @ [AddEvent name c sz]\<rparr>)))"

text \<open>\<^verbatim>\<open>outputDirs\<close> opens directories as it goes down; the fuel bounds the depth. A child is dropped from the cache
  after its turn.\<close>

fun outputDirs ::
  "'e add_env_scheme \<Rightarrow> Adder \<Rightarrow> nat \<Rightarrow> string \<Rightarrow> fsnode \<Rightarrow> unit add_res"
  and output_children ::
  "'e add_env_scheme \<Rightarrow> Adder \<Rightarrow> nat \<Rightarrow> string \<Rightarrow> string list \<Rightarrow> ipld_node \<Rightarrow> (string \<times> fsnode) list \<Rightarrow> adder_state
    \<Rightarrow> (mfs_err + (string \<times> fsnode) list) \<times> adder_state" where
  "outputDirs env a 0 path fsn s = (Inl Diverged, s)"
| "outputDirs env a (Suc n) path (File nd) s = (Inr (), s)"
| "outputDirs env a (Suc n) path (Directory dn cache) s =
     (case output_children env a n path (ListNames (Directory dn cache)) dn cache s of
        (Inl e, s') \<Rightarrow> (Inl e, s')
      | (Inr cache', s') \<Rightarrow>
          (case GetNode env (Directory dn cache') s' of
             (Inl e, _, s'') \<Rightarrow> (Inl e, s'')
           | (Inr nd, _, s'') \<Rightarrow> outputDagnode env a path nd s''))"
| "output_children env a n path [] dn cache s = (Inr cache, s)"
| "output_children env a n path (name # names) dn cache s =
     (case childUnsync env name dn cache s of
        (Inl e, _, s') \<Rightarrow> (Inl e, s')
      | (Inr child, cache', s') \<Rightarrow>
          (case outputDirs env a n (path_Join [path, name]) child s' of
             (Inl e, s'') \<Rightarrow> (Inl e, s'')
           | (Inr _, s'') \<Rightarrow> output_children env a n path names dn (filter (\<lambda>e. fst e \<noteq> name) cache') s''))"

section \<open>Adding\<close>

definition path_Dir :: "string \<Rightarrow> string" where
  "path_Dir p = path_Clean (fst (path_Split p))"

definition addNode :: "'e add_env_scheme \<Rightarrow> Adder \<Rightarrow> built \<Rightarrow> string \<Rightarrow> unit add_res" where
  "addNode env a node path =
     (let nd = (case node of Plain nd \<Rightarrow> nd | FilestoreNode nd \<Rightarrow> nd);
          path = (if path = [] then Cid_String env (node_Cid env nd) else path);
          dir = path_Dir path in
      bindA (mfsRoot env a) (\<lambda>_.
      bindA (if dir \<noteq> ''.''
             then on_root env a (unit_op (Mkdir env \<lparr>Mkparents = True, opt_Flush = False, opt_CidBuilder = a_CidBuilder a\<rparr> dir))
             else okA ()) (\<lambda>_.
      bindA (on_root env a (unit_op (PutNode env path nd))) (\<lambda>_.
        if \<not> a_Silent a then outputDagnode env a path nd else okA ()))))"

definition addSymlink :: "'e add_env_scheme \<Rightarrow> Adder \<Rightarrow> string \<Rightarrow> string \<Rightarrow> unit add_res" where
  "addSymlink env a path target s =
     (case SymlinkData env target of
        Inl e \<Rightarrow> (Inl (MErr e), s)
      | Inr sdata \<Rightarrow>
          (let dagnode = ProtoNode TSymlink sdata [] (builder env a) in
           bindA (\<lambda>s. of_opt (dag_Add env dagnode s)) (\<lambda>_. addNode env a (Plain dagnode) path) s))"

definition addFile :: "'e add_env_scheme \<Rightarrow> Adder \<Rightarrow> string \<Rightarrow> string \<Rightarrow> unit add_res" where
  "addFile env a path data =
     bindA (\<lambda>s. (Inr (), if a_Progress a then s\<lparr>out := out s @ progress_reads path 0 0 (read_sizes env data)\<rparr> else s)) (\<lambda>_.
     bindA (add_data env a data) (\<lambda>dagnode. addNode env a dagnode path))"

text \<open>\<open>pin_locks\<close> counts the read locks that this adder holds on the \<^verbatim>\<open>gcLocker\<close>: \<open>PinLock\<close> takes one and keeps
  its \<^verbatim>\<open>Unlocker\<close>, \<open>Unlock\<close> gives one back. A collector needs the write lock, so it works only while no
  read lock is held.\<close>

definition PinLock :: "adder_state \<Rightarrow> adder_state" where
  "PinLock s = s\<lparr>pin_locks := pin_locks s + 1, unlocker := True\<rparr>"

definition Unlock :: "adder_state \<Rightarrow> adder_state" where
  "Unlock s = s\<lparr>pin_locks := pin_locks s - 1\<rparr>"

definition collector :: "'e add_env_scheme \<Rightarrow> nat \<Rightarrow> adder_state \<Rightarrow> adder_state" where
  "collector env n s = (if pin_locks s = 0 then s\<lparr>dag := while_unlocked env n (pins s) (dag s)\<rparr> else s)"

definition maybePauseForGC :: "'e add_env_scheme \<Rightarrow> Adder \<Rightarrow> unit add_res" where
  "maybePauseForGC env a =
     bindA tick (\<lambda>n s.
       if unlocker s \<and> GCRequested env n then
         bindA (curRootNode env a) (\<lambda>rn.
         bindA (PinRoot env a rn) (\<lambda>_ s.
           (Inr (), PinLock (collector env n (Unlock s))))) s
       else (Inr (), s))"

definition free_memory :: "'e add_env_scheme \<Rightarrow> Adder \<Rightarrow> unit add_res" where
  "free_memory env a =
     bindA (\<lambda>s. if liveNodes s \<ge> liveCacheSize
                then bindA (on_root env a (unit_op (FlushMemFree env))) (\<lambda>_ s. (Inr (), s\<lparr>liveNodes := 0\<rparr>)) s
                else (Inr (), s)) (\<lambda>_ s. (Inr (), s\<lparr>liveNodes := Suc (liveNodes s)\<rparr>))"

definition enter_dir :: "'e add_env_scheme \<Rightarrow> Adder \<Rightarrow> string \<Rightarrow> bool \<Rightarrow> unit add_res" where
  "enter_dir env a path toplevel =
     (if \<not> (toplevel \<and> path = [])
      then on_root env a (unit_op (Mkdir env \<lparr>Mkparents = True, opt_Flush = False, opt_CidBuilder = a_CidBuilder a\<rparr> path))
      else okA ())"

fun addFileNode :: "'e add_env_scheme \<Rightarrow> Adder \<Rightarrow> string \<Rightarrow> fnode \<Rightarrow> bool \<Rightarrow> unit add_res"
  and add_entries :: "'e add_env_scheme \<Rightarrow> Adder \<Rightarrow> string \<Rightarrow> (string \<times> fnode) list \<Rightarrow> unit add_res" where
  "addFileNode env a path (FDir entries it_err) toplevel s =
     bindA (maybePauseForGC env a) (\<lambda>_.
     bindA (free_memory env a) (\<lambda>_.
     bindA (enter_dir env a path toplevel) (\<lambda>_.
     bindA (add_entries env a path entries) (\<lambda>_. check it_err)))) s"
| "addFileNode env a path (FSymlink target) toplevel s =
     bindA (maybePauseForGC env a) (\<lambda>_. bindA (free_memory env a) (\<lambda>_. addSymlink env a path target)) s"
| "addFileNode env a path (FFile data) toplevel s =
     bindA (maybePauseForGC env a) (\<lambda>_. bindA (free_memory env a) (\<lambda>_. addFile env a path data)) s"
| "addFileNode env a path FOther toplevel s =
     bindA (maybePauseForGC env a) (\<lambda>_. bindA (free_memory env a) (\<lambda>_. failA (MErr ''unknown file type''))) s"
| "add_entries env a path [] s = (Inr (), s)"
| "add_entries env a path ((name, nd) # entries) s =
     (case addFileNode env a (path_Join [path, name]) nd False s of
        (Inl e, s') \<Rightarrow> (Inl e, s')
      | (Inr _, s') \<Rightarrow> add_entries env a path entries s')"

text \<open>Which object is the result: the root directory, or its first child when a file was added. The child is opened, and
  found in the cache from then on.\<close>

definition result_name :: "'e add_env_scheme \<Rightarrow> Adder \<Rightarrow> fnode \<Rightarrow> string option add_res" where
  "result_name env a input =
     (case input of
        FDir _ _ \<Rightarrow> okA None
      | _ \<Rightarrow>
          on_root env a (\<lambda>r s.
            case ListNames r of
              [] \<Rightarrow> (Inl (MErr ''expected at least one child dir, got none''), r, s)
            | name # _ \<Rightarrow>
                (case childUnsync env name (unixfsDir r) (entriesCache r) s of
                   (Inl e, cache', s') \<Rightarrow> (Inl e, Directory (unixfsDir r) cache', s')
                 | (Inr child, cache', s') \<Rightarrow> (Inr (Some name), Directory (unixfsDir r) cache', s'))))"

definition the_object :: "string option \<Rightarrow> fsnode \<Rightarrow> fsnode" where
  "the_object name r = (case name of None \<Rightarrow> r | Some n \<Rightarrow> (case map_of (entriesCache r) n of None \<Rightarrow> r | Some child \<Rightarrow> child))"

definition object_node :: "'e add_env_scheme \<Rightarrow> fsnode \<Rightarrow> (ipld_node \<times> fsnode) add_res" where
  "object_node env f s =
     (case GetNode env f s of (Inl e, _, s') \<Rightarrow> (Inl e, s') | (Inr nd, f', s') \<Rightarrow> (Inr (nd, f'), s'))"

definition add_root :: "'e add_env_scheme \<Rightarrow> Adder \<Rightarrow> fnode \<Rightarrow> (string option \<times> ipld_node \<times> fsnode) add_res" where
  "add_root env a input =
     bindA (addFileNode env a [] input True) (\<lambda>_.
     bindA (on_root env a (unit_op (root_Flush env))) (\<lambda>_.
     bindA (result_name env a input) (\<lambda>name.
     bindA (on_root env a (GetNode env)) (\<lambda>_.
     bindA (mfsRoot env a) (\<lambda>r.
     bindA (object_node env (the_object name r)) (\<lambda>(nd, root). okA (name, nd, root)))))))"

definition add_all :: "'e add_env_scheme \<Rightarrow> Adder \<Rightarrow> nat \<Rightarrow> fnode \<Rightarrow> ipld_node add_res" where
  "add_all env a fuel input =
     bindA (add_root env a input) (\<lambda>(name, nd, root).
     bindA (outputDirs env a fuel (case name of None \<Rightarrow> [] | Some n \<Rightarrow> n) root) (\<lambda>_.
     bindA (check (sync_err env)) (\<lambda>_.
       if \<not> a_Pin a then okA nd else bindA (PinRoot env a nd) (\<lambda>_. okA nd))))"

definition AddAllAndPin :: "'e add_env_scheme \<Rightarrow> Adder \<Rightarrow> nat \<Rightarrow> fnode \<Rightarrow> ipld_node add_res" where
  "AddAllAndPin env a fuel input s =
     (case add_all env a fuel input (if a_Pin a then PinLock s else s) of
        (r, s') \<Rightarrow> (r, if unlocker s' then Unlock s' else s'))"

section \<open>Paths\<close>

text \<open>The path that names the entry below a list of directories.\<close>

definition path_of :: "string list \<Rightarrow> string" where
  "path_of P = join ''/'' P"

definition plain :: "string list \<Rightarrow> bool" where
  "plain P = list_all plain_name P"

lemma plain_clean: "plain P \<Longrightarrow> clean_ok r (rev P)"
proof -
  have "list_all plain_name Q \<Longrightarrow> clean_ok r Q" for Q by (induction Q) (auto simp: plain_name_def)
  then show "plain P \<Longrightarrow> clean_ok r (rev P)" by (simp add: plain_def)
qed

lemma plain_split: "plain P \<Longrightarrow> P \<noteq> [] \<Longrightarrow> split_on (CHR ''/'') (path_of P) = P" "plain P \<Longrightarrow> P \<noteq> [] \<Longrightarrow> \<not> prefix ''/'' (path_of P)"
  using clean_ok_split [OF plain_clean [of P True]] by (simp_all add: path_of_def)

lemma path_of_Nil [simp]: "path_of [] = []"
  by (simp add: path_of_def)

lemma path_of_nonempty: "plain P \<Longrightarrow> P \<noteq> [] \<Longrightarrow> path_of P \<noteq> []"
  using clean_ok_join [OF plain_clean [of P True]] by (simp add: path_of_def)

lemma path_of_snoc: "P \<noteq> [] \<Longrightarrow> path_of (P @ [n]) = path_of P @ ''/'' @ n"
  by (simp add: path_of_def join_append)

lemma plain_snoc [simp]: "plain (P @ [n]) \<longleftrightarrow> plain P \<and> plain_name n"
  by (auto simp: plain_def)

lemma parts_of_plain: "plain P \<Longrightarrow> P \<noteq> [] \<Longrightarrow> parts_of (path_of P) = P"
  using plain_split [of P] clean_parts_id [of False P "[]"] plain_clean [of P False] by (simp add: parts_of_def)

lemma Join_path_of: "plain P \<Longrightarrow> plain_name n \<Longrightarrow> path_Join [path_of P, n] = path_of (P @ [n])"
proof (cases "P = []")
  case True
  moreover assume "plain_name n"
  ultimately show ?thesis using path_Join_name [of n "[]"] by (simp add: dir_parts_def path_of_def)
next
  case False
  moreover assume "plain P" "plain_name n"
  ultimately show ?thesis
    using path_Join_name [of n "path_of P"] path_of_nonempty parts_of_plain plain_split(2)
    by (simp add: dir_parts_def) (simp add: path_of_def)
qed

lemma Split_path_of:
  assumes "plain (P @ [n])"
  shows "path_Split (path_of (P @ [n])) = (if P = [] then [] else path_of P @ ''/'', n)"
proof -
  have "last (split_on (CHR ''/'') (path_of (P @ [n]))) = n" using plain_split(1) [OF assms] by simp
  then show ?thesis by (auto simp: path_Split_def Let_def path_of_snoc) (simp add: path_of_def)
qed

lemma Dir_path_of:
  assumes "plain (P @ [n])"
  shows "path_Dir (path_of (P @ [n])) = (if P = [] then ''.'' else path_of P)"
proof (cases "P = []")
  case True
  then show ?thesis using Split_path_of [OF assms] by (simp add: path_Dir_def path_Clean_def)
next
  case False
  have p: "plain P" using assms by simp
  have "split_on (CHR ''/'') (path_of P @ ''/'') = P @ [[]]"
    using plain_split(1) [OF p False] by (simp add: split_on_append)
  moreover have "prefix ''/'' (path_of P @ ''/'') = prefix ''/'' (path_of P)" using path_of_nonempty [OF p False]
    by (cases "path_of P") auto
  moreover have "clean_parts r st (Q @ [[]]) = clean_parts r st Q" for r st Q
    by (induction r st Q rule: clean_parts.induct) (auto split: list.splits)
  ultimately have "path_Clean (path_of P @ ''/'') = path_Clean (path_of P)"
    using plain_split(1) [OF p False] by (simp add: path_Clean_def Let_def)
  also have "\<dots> = path_of P" using path_Clean_parts [of "path_of P"] parts_of_plain [OF p False] plain_split(2) [OF p False] False
    by (simp add: path_of_def)
  finally show ?thesis using Split_path_of [OF assms] False by (simp add: path_Dir_def)
qed

lemma mkdir_parts_path_of: "plain P \<Longrightarrow> P \<noteq> [] \<Longrightarrow> mkdir_parts (path_of P) = P"
proof -
  assume p: "plain P" "P \<noteq> []"
  then have "hd P \<noteq> []" "last P \<noteq> []" using hd_in_set last_in_set by (auto simp: plain_def list_all_iff plain_name_def)
  then show ?thesis using plain_split(1) [OF p] p(2) by (simp add: mkdir_parts_def Let_def)
qed

lemma no_slash_ends:
  assumes "plain P" "P \<noteq> []"
  shows "hd (path_of P) \<noteq> CHR ''/''" "last (path_of P) \<noteq> CHR ''/''"
proof -
  show "hd (path_of P) \<noteq> CHR ''/''"
    using plain_split(2) [OF assms] path_of_nonempty [OF assms] by (cases "path_of P") auto
  obtain Q n where P: "P = Q @ [n]" using assms(2) by (cases P rule: rev_cases) auto
  then have n: "n \<noteq> []" "CHR ''/'' \<notin> set n" using assms(1) by (auto simp: plain_name_def)
  then have "last n \<noteq> CHR ''/''" using last_in_set by metis
  then show "last (path_of P) \<noteq> CHR ''/''" using P n(1) by (cases "Q = []") (auto simp: path_of_snoc, simp add: path_of_def)
qed

lemma trim_ends:
  assumes "s \<noteq> []" "hd s \<noteq> c" "last s \<noteq> c"
  shows "trim_left [c] s = s" "trim_right [c] (s @ [c]) = s" "trim_right [c] s = s"
  using assms by (cases s, auto simp: trim_left_def trim_right_def dropWhile_append)
    (cases s rule: rev_cases, auto simp: trim_right_def)+

lemma lookup_parts_path_of:
  "plain P \<Longrightarrow> lookup_parts (if P = [] then [] else path_of P @ ''/'') = P"
proof (cases "P = []")
  case False
  assume p: "plain P"
  note e = no_slash_ends [OF p False] and ne = path_of_nonempty [OF p False]
  have "trim_left ''/'' (trim_right ''/'' (path_of P @ ''/'')) = path_of P"
    using trim_ends [OF ne e] by simp
  moreover have "P \<noteq> [[]]" using p by (auto simp: plain_def plain_name_def)
  ultimately show ?thesis using plain_split(1) [OF p False] False by (simp add: lookup_parts_def Let_def)
qed (simp add: lookup_parts_def trim_left_def trim_right_def)

section \<open>What an adder shows\<close>

definition empty_view :: "string list \<Rightarrow> entry option" where
  "empty_view ps = (if ps = [] then Some EDir else None)"

text \<open>The file system of an adder shows a view.\<close>

definition shows_fs :: "'e add_env_scheme \<Rightarrow> adder_state \<Rightarrow> (string list \<Rightarrow> entry option) \<Rightarrow> bool" where
  "shows_fs env s V =
     (addressed env (dag s) \<and>
      (case mroot s of
         None \<Rightarrow> V = empty_view
       | Some r \<Rightarrow> (\<exists>dn cache. r = Directory dn cache) \<and> wf_fs env (dag s) r \<and> view (dag s) r = V))"

lemma bindA_Inr: "bindA m f s = (Inr y, s') \<longleftrightarrow> (\<exists>x t. m s = (Inr x, t) \<and> f x t = (Inr y, s'))"
  by (auto simp: bindA_def split: prod.splits sum.splits)

lemma okA_Inr [simp]: "okA x s = (Inr y, s') \<longleftrightarrow> y = x \<and> s' = s"
  by (auto simp: okA_def)

lemma failA_Inr [simp]: "failA e s \<noteq> (Inr y, s')"
  by (simp add: failA_def)

lemma check_Inr [simp]: "check e s = (Inr y, s') \<longleftrightarrow> e = None \<and> s' = s"
  by (auto simp: check_def split: option.splits)

lemma of_opt_Inr [simp]: "of_opt x = (Inr y, s') \<longleftrightarrow> x = (None, s')"
  by (cases x rule: of_opt.cases) auto

lemma tick_Inr [simp]: "tick s = (Inr n, s') \<longleftrightarrow> n = ticks s \<and> s' = s\<lparr>ticks := Suc (ticks s)\<rparr>"
  by (auto simp: tick_def)

lemma object_node_Inr [simp]: "object_node env f s = (Inr (nd, f'), s') \<longleftrightarrow> GetNode env f s = (Inr nd, f', s')"
  by (auto simp: object_node_def split: prod.splits sum.splits)

lemmas run_Inr = bindA_Inr okA_Inr failA_Inr check_Inr of_opt_Inr tick_Inr

lemma view_empty_root: "view D (Directory (SetCidBuilder b (EmptyDirNode b')) []) = empty_view"
proof
  fix ps
  show "view D (Directory (SetCidBuilder b (EmptyDirNode b')) []) ps = empty_view ps"
    by (cases ps) (auto simp: empty_view_def entry_of_def view.simps)
qed

lemma mfsRoot_ok:
  assumes "mfsRoot env a s = (Inr r, s')" "shows_fs env s V"
  shows "shows_fs env s' V" "mroot s' = Some r" "dag s' = dag s" "pins s' = pins s" "unlocker s' = unlocker s"
    "\<exists>dn cache. r = Directory dn cache" "wf_fs env (dag s) r" "view (dag s) r = V" "pin_locks s' = pin_locks s"
    "tempRoot s' = tempRoot s"
proof -
  have "wf_fs env D (Directory (SetCidBuilder b (EmptyDirNode b')) [])" for D b b' by simp
  then show "shows_fs env s' V" "mroot s' = Some r" "dag s' = dag s" "pins s' = pins s" "unlocker s' = unlocker s"
    "\<exists>dn cache. r = Directory dn cache" "wf_fs env (dag s) r" "view (dag s) r = V" "pin_locks s' = pin_locks s"
    "tempRoot s' = tempRoot s"
    using assms view_empty_root by (auto simp: mfsRoot_def shows_fs_def Let_def split: option.splits)
qed

text \<open>The steps of an adder that only add to the store and change the root.\<close>

definition same_pins :: "adder_state \<Rightarrow> adder_state \<Rightarrow> bool" where
  "same_pins s s' = (dag s \<subseteq>\<^sub>m dag s' \<and> pins s' = pins s \<and> unlocker s' = unlocker s \<and> pin_locks s' = pin_locks s \<and> tempRoot s' = tempRoot s)"

lemma same_pins_refl [simp]: "same_pins s s"
  by (simp add: same_pins_def)

lemma same_pins_trans: "same_pins s t \<Longrightarrow> same_pins t u \<Longrightarrow> same_pins s u"
  unfolding same_pins_def using map_le_trans by auto

lemma more_fields:
  fixes s s' :: adder_state
  assumes "dag_state.more s' = dag_state.more s"
  shows "pins s' = pins s" "mroot s' = mroot s" "unlocker s' = unlocker s" "pin_locks s' = pin_locks s" "tempRoot s' = tempRoot s"
  using assms by (cases s; cases s'; simp)+

lemma on_root_ok:
  assumes "on_root env a f s = (Inr x, s')" "shows_fs env s V"
    and op: "\<And>dn cache t r' t'. f (Directory dn cache) t = (Inr x, r', t') \<Longrightarrow> dag t = dag s \<Longrightarrow> addressed env (dag t)
      \<Longrightarrow> wf_fs env (dag t) (Directory dn cache) \<Longrightarrow> view (dag t) (Directory dn cache) = V
      \<Longrightarrow> grown env t t' \<and> (\<exists>dn' cache'. r' = Directory dn' cache') \<and> wf_fs env (dag t') r' \<and> view (dag t') r' = V' \<and> Q r' t'"
  shows "shows_fs env s' V'" "same_pins s s'" "\<exists>r t. mroot s' = Some r \<and> Q r t \<and> s' = t\<lparr>mroot := Some r\<rparr>"
proof -
  obtain r t r' t' where m: "mfsRoot env a s = (Inr r, t)" "f r t = (Inr x, r', t')" "s' = t'\<lparr>mroot := Some r'\<rparr>"
    using assms(1) unfolding on_root_def bindA_Inr by (metis (no_types, lifting) case_prod_beta prod.collapse prod.inject)
  note rt = mfsRoot_ok [OF m(1) assms(2)]
  obtain dn cache where r: "r = Directory dn cache" using rt(6) by blast
  have ad: "addressed env (dag t)" using rt(1) by (simp add: shows_fs_def)
  have o: "grown env t t'" "\<exists>dn' cache'. r' = Directory dn' cache'" "wf_fs env (dag t') r'" "view (dag t') r' = V'" "Q r' t'"
    using op [OF m(2) [unfolded r] rt(3) ad] rt(3,7,8) r by auto
  then show "shows_fs env s' V'" using ad m(3) by (auto simp: shows_fs_def grown_def)
  have "dag_state.more t' = dag_state.more t" using o(1) by (simp add: grown_def)
  then show "same_pins s s'" using o(1) m(3) rt more_fields [of t' t] by (simp add: same_pins_def grown_def)
  show "\<exists>r t. mroot s' = Some r \<and> Q r t \<and> s' = t\<lparr>mroot := Some r\<rparr>" using o(5) m(3) by auto
qed

lemma mkdir_loop_dir: "mkdir_loop env opts parts (Directory dn cache) s = (r, f', s') \<Longrightarrow> \<exists>dn' cache'. f' = Directory dn' cache'"
  by (cases "(env, opts, parts, Directory dn cache, s)" rule: mkdir_loop.cases)
    (auto split: prod.splits mkdir_result.splits sum.splits if_splits)

lemma put_loop_dir: "put_loop env parts n nd (Directory dn cache) s = (r, f', s') \<Longrightarrow> \<exists>dn' cache'. f' = Directory dn' cache'"
  by (cases parts) (auto split: prod.splits sum.splits)

lemma root_Mkdir:
  assumes "on_root env a (unit_op (Mkdir env opts (path_of P))) s = (Inr (), s')" "shows_fs env s V" "sound_env env" "plain P" "P \<noteq> []"
  shows "shows_fs env s' (with_dirs P V)" "same_pins s s'"
proof -
  have op: "grown env t t' \<and> (\<exists>dn' cache'. r' = Directory dn' cache') \<and> wf_fs env (dag t') r' \<and> view (dag t') r' = with_dirs P V \<and> True"
    if "unit_op (Mkdir env opts (path_of P)) (Directory dn cache) t = (Inr (), r', t')" "dag t = dag s" "addressed env (dag t)"
      "wf_fs env (dag t) (Directory dn cache)" "view (dag t) (Directory dn cache) = V" for dn cache t r' t'
  proof -
    have m: "mkdir_loop env opts P (Directory dn cache) t = (None, r', t')"
      using that(1) assms(4,5) path_of_nonempty mkdir_parts_path_of
      by (auto simp: unit_op_def Mkdir_def split: prod.splits option.splits)
    show ?thesis using mkdir_loop_ok [OF m that(4,3) assms(3)] mkdir_loop_dir [OF m] that(5) by auto
  qed
  show "shows_fs env s' (with_dirs P V)" "same_pins s s'" using on_root_ok [OF assms(1,2) op] by auto
qed

lemma root_PutNode:
  assumes "on_root env a (unit_op (PutNode env (path_of (P @ [n])) nd)) s = (Inr (), s')" "shows_fs env s V" "sound_env env"
    "plain (P @ [n])" "fs_tree (dag s) nd" "is_leaf nd"
  shows "shows_fs env s' (with_node (P @ [n]) (\<lambda>qs. if qs = [] then Some (ELeaf (sort_links nd)) else None) V)" "same_pins s s'"
proof -
  let ?V = "with_node (P @ [n]) (\<lambda>qs. if qs = [] then Some (ELeaf (sort_links nd)) else None) V"
  have op: "grown env t t' \<and> (\<exists>dn' cache'. r' = Directory dn' cache') \<and> wf_fs env (dag t') r' \<and> view (dag t') r' = ?V \<and> True"
    if "unit_op (PutNode env (path_of (P @ [n])) nd) (Directory dn cache) t = (Inr (), r', t')" "dag t = dag s" "addressed env (dag t)"
      "wf_fs env (dag t) (Directory dn cache)" "view (dag t) (Directory dn cache) = V" for dn cache t r' t'
  proof -
    have "n \<noteq> []" "plain P" using assms(4) by (auto simp: plain_name_def)
    then have m: "put_loop env P n nd (Directory dn cache) t = (None, r', t')"
      using that(1) Split_path_of [OF assms(4)] lookup_parts_path_of
      by (auto simp: unit_op_def PutNode_def split: prod.splits option.splits if_splits)
    have na: "node_at (dag t) nd = (\<lambda>qs. if qs = [] then Some (ELeaf (sort_links nd)) else None)"
      using node_at_leaf [OF assms(6)] by blast
    show ?thesis using put_loop_ok [OF m that(4,3) assms(3)] put_loop_dir [OF m] that(2,5) assms(5) na by auto
  qed
  show "shows_fs env s' ?V" "same_pins s s'" using on_root_ok [OF assms(1,2) op] by auto
qed

section \<open>What is assumed of the libraries\<close>

fun unwrap :: "built \<Rightarrow> ipld_node" where
  "unwrap (Plain nd) = nd"
| "unwrap (FilestoreNode nd) = nd"

definition Layout :: "'e add_env_scheme \<Rightarrow> Adder \<Rightarrow> string \<Rightarrow> err + built \<times> ipld_node list" where
  "Layout env a data = (if a_Trickle a then trickle_Layout env a data else balanced_Layout env a data)"

text \<open>A layout builds the root of a file, and hands over every node the file is made of.\<close>

definition builds_files :: "'e add_env_scheme \<Rightarrow> Adder \<Rightarrow> bool" where
  "builds_files env a =
     (\<forall>data b nodes. Layout env a data = Inr (b, nodes) \<longrightarrow>
        is_leaf (unwrap b) \<and> (\<forall>m \<in> insert (unwrap b) (set nodes). snd ` set (Links m) \<subseteq> node_Cid env ` set nodes))"

text \<open>What runs while the lock is given up keeps what is reached from the pins, and stores by content.\<close>

definition keeps_pinned :: "'e mfs_env_scheme \<Rightarrow> (nat \<Rightarrow> cid list \<Rightarrow> dagmap \<Rightarrow> dagmap) \<Rightarrow> bool" where
  "keeps_pinned env run =
     (\<forall>n P D. addressed env D \<longrightarrow>
        addressed env (run n P D) \<and> (\<forall>p x. p \<in> set P \<longrightarrow> reaches (dlinks D) p x \<longrightarrow> run n P D x = D x))"

definition good_env :: "'e add_env_scheme \<Rightarrow> Adder \<Rightarrow> bool" where
  "good_env env a =
     (sound_env env \<and> builds_files env a \<and> keeps_pinned env (while_unlocked env) \<and> (\<forall>c. plain_name (Cid_String env c)))"

lemma good_envD:
  assumes "good_env env a"
  shows "sound_env env" "builds_files env a" "keeps_pinned env (while_unlocked env)" "plain_name (Cid_String env c)"
  using assms by (auto simp: good_env_def)

section \<open>The DAG of a file\<close>

lemma commit_ok:
  "commit env nodes s = (Inr (), s') \<Longrightarrow> addressed env (dag s) \<Longrightarrow> sound_env env
    \<Longrightarrow> grown env s s' \<and> (\<forall>m \<in> set nodes. dag s' (node_Cid env m) = Some (sort_links m))"
proof (induction nodes arbitrary: s)
  case (Cons nd nodes)
  obtain t where a: "dag_Add env nd s = (None, t)" and c: "commit env nodes t = (Inr (), s')"
    using Cons.prems(1) by (auto split: prod.splits option.splits)
  note g = dag_Add_grown [OF a Cons.prems(2,3)]
  have "addressed env (dag t)" using g(1) Cons.prems(2) by (simp add: grown_def)
  note ih = Cons.IH [OF c this Cons.prems(3)]
  have "dag s' (node_Cid env nd) = Some (sort_links nd)" using g(2) ih map_leD by (auto simp: grown_def)
  then show ?case using ih grown_trans [OF g(1)] by auto
qed simp

lemma closed_set:
  assumes "c \<in> S" "S \<subseteq> dom D" "\<And>x. x \<in> S \<Longrightarrow> set (dlinks D x) \<subseteq> S"
  shows "closed D c"
  unfolding closed_def using reaches_closed [of "dlinks D" c _ S] assms by blast

lemma shows_fs_grown:
  assumes "shows_fs env s V" "grown env s s'"
  shows "shows_fs env s' V" "same_pins s s'"
proof -
  have g: "dag s \<subseteq>\<^sub>m dag s'" "dag_state.more s' = dag_state.more s" using assms(2) by (auto simp: grown_def)
  note mf = more_fields [OF g(2)]
  show "same_pins s s'" using mf g(1) by (simp add: same_pins_def)
  show "shows_fs env s' V"
  proof (cases "mroot s")
    case (Some r)
    have "view (dag s') r = view (dag s) r" using view_le [of env "dag s" r] assms(1) Some g(1) by (auto simp: shows_fs_def)
    then show ?thesis using assms Some mf wf_le(1) [of env "dag s" r] g(1) by (auto simp: shows_fs_def grown_def)
  qed (use assms mf in \<open>auto simp: shows_fs_def grown_def\<close>)
qed

lemma add_data_ok:
  assumes "add_data env a data s = (Inr b, s')" "shows_fs env s V" "good_env env a"
  shows "shows_fs env s' V" "same_pins s s'" "fs_tree (dag s') (unwrap b)" "is_leaf (unwrap b)"
    "\<exists>nodes. Layout env a data = Inr (b, nodes)"
proof -
  obtain nodes where l: "Layout env a data = Inr (b, nodes)" and c: "commit env nodes s = (Inr (), s')"
    using assms(1) by (auto simp: add_data_def run_Inr Layout_def split: sum.splits)
  note bf = good_envD(2) [OF assms(3), unfolded builds_files_def, rule_format, OF l]
  have "addressed env (dag s)" using assms(2) by (simp add: shows_fs_def)
  note k = commit_ok [OF c this good_envD(1) [OF assms(3)]]
  show "shows_fs env s' V" "same_pins s s'" using shows_fs_grown [OF assms(2)] k by blast+
  show "is_leaf (unwrap b)" "\<exists>nodes. Layout env a data = Inr (b, nodes)" using bf l by auto
  let ?S = "node_Cid env ` set nodes"
  have "set (dlinks (dag s') x) \<subseteq> ?S" if x: "x \<in> ?S" for x
  proof -
    obtain m where m: "m \<in> set nodes" "x = node_Cid env m" using x by blast
    then have "dag s' x = Some (sort_links m)" using k by blast
    then show ?thesis using bf m(1) by (auto simp: dlinks_def)
  qed
  moreover have "?S \<subseteq> dom (dag s')" using k by auto
  ultimately have "closed (dag s') c" if "c \<in> ?S" for c using closed_set that by metis
  then show "fs_tree (dag s') (unwrap b)" using bf by (intro fs_tree.fs_leaf) blast+
qed

section \<open>Adding one file\<close>

text \<open>What a file looks like at a path below it.\<close>

fun file_at :: "'e add_env_scheme \<Rightarrow> Adder \<Rightarrow> fnode \<Rightarrow> string list \<Rightarrow> entry option" where
  "file_at env a (FDir es e) [] = Some EDir"
| "file_at env a (FDir es e) (p # ps) = (case map_of es p of None \<Rightarrow> None | Some f \<Rightarrow> file_at env a f ps)"
| "file_at env a (FFile data) ps =
     (case Layout env a data of
        Inr (b, _) \<Rightarrow> if ps = [] then Some (ELeaf (sort_links (unwrap b))) else None
      | Inl _ \<Rightarrow> None)"
| "file_at env a (FSymlink target) ps =
     (case SymlinkData env target of
        Inr sdata \<Rightarrow> if ps = [] then Some (ELeaf (ProtoNode TSymlink sdata [] (builder env a))) else None
      | Inl _ \<Rightarrow> None)"
| "file_at env a FOther ps = None"

lemma outputDagnode_ok:
  assumes "outputDagnode env a name nd s = (Inr u, s')"
  shows "dag s' = dag s" "mroot s' = mroot s" "pins s' = pins s" "unlocker s' = unlocker s" "pin_locks s' = pin_locks s"
    "tempRoot s' = tempRoot s"
  using assms by (auto simp: outputDagnode_def split: if_splits sum.splits prod.splits)

lemma shows_fs_same:
  assumes "shows_fs env s V" "dag s' = dag s" "mroot s' = mroot s"
  shows "shows_fs env s' V"
  using assms by (auto simp: shows_fs_def split: option.splits)

lemma with_dirs_id:
  assumes "\<And>Q. strict_prefix Q (P @ [n]) \<Longrightarrow> V Q = Some EDir"
  shows "with_dirs P V = V"
proof
  fix ps
  have "prefix ps P \<Longrightarrow> strict_prefix ps (P @ [n])" by (auto simp: strict_prefix_def prefix_def)
  then show "with_dirs P V ps = V ps" using assms [of ps] by (auto simp: with_dirs_def)
qed

lemma addNode_ok:
  assumes run: "addNode env a b path s = (Inr (), s')" and sh: "shows_fs env s V" and env: "good_env env a"
    and path: "(if path = [] then Cid_String env (node_Cid env (unwrap b)) else path) = path_of (P @ [n])" "plain (P @ [n])"
    and tree: "fs_tree (dag s) (unwrap b)" "is_leaf (unwrap b)"
    and dirs: "\<And>Q. strict_prefix Q (P @ [n]) \<Longrightarrow> V Q = Some EDir"
  shows "shows_fs env s' (with_node (P @ [n]) (\<lambda>qs. if qs = [] then Some (ELeaf (sort_links (unwrap b))) else None) V)"
    "same_pins s s'"
proof -
  let ?V = "with_node (P @ [n]) (\<lambda>qs. if qs = [] then Some (ELeaf (sort_links (unwrap b))) else None) V"
  have nd: "(case b of Plain nd \<Rightarrow> nd | FilestoreNode nd \<Rightarrow> nd) = unwrap b" by (cases b) auto
  note sound = good_envD(1) [OF env]
  obtain r s1 s2 s3 where m: "mfsRoot env a s = (Inr r, s1)"
    and d: "(if path_Dir (path_of (P @ [n])) \<noteq> ''.''
             then on_root env a (unit_op (Mkdir env \<lparr>Mkparents = True, opt_Flush = False, opt_CidBuilder = a_CidBuilder a\<rparr> (path_Dir (path_of (P @ [n])))))
             else okA ()) s1 = (Inr (), s2)"
    and p: "on_root env a (unit_op (PutNode env (path_of (P @ [n])) (unwrap b))) s2 = (Inr (), s3)"
    and o: "(if \<not> a_Silent a then outputDagnode env a (path_of (P @ [n])) (unwrap b) else okA ()) s3 = (Inr (), s')"
    using run unfolding addNode_def nd Let_def path(1) bindA_Inr by auto
  have s1: "shows_fs env s1 V" "same_pins s s1" using mfsRoot_ok [OF m sh] by (auto simp: same_pins_def)
  have s2: "shows_fs env s2 V" "same_pins s1 s2"
  proof -
    have "shows_fs env s2 V \<and> same_pins s1 s2"
    proof (cases "P = []")
      case True
      then show ?thesis using d s1 Dir_path_of [OF path(2)] by simp
    next
      case False
      have pl: "plain P" using path(2) by simp
      have "path_of P \<noteq> ''.''"
      proof
        assume "path_of P = ''.''"
        then have "P = [''.'']" using plain_split(1) [OF pl False] by simp
        then show False using pl by (simp add: plain_def plain_name_def)
      qed
      then have "on_root env a (unit_op (Mkdir env \<lparr>Mkparents = True, opt_Flush = False, opt_CidBuilder = a_CidBuilder a\<rparr> (path_of P))) s1 = (Inr (), s2)"
        using d Dir_path_of [OF path(2)] False by simp
      from root_Mkdir [OF this s1(1) sound pl False] show ?thesis using with_dirs_id [of P n V, OF dirs] by simp
    qed
    then show "shows_fs env s2 V" "same_pins s1 s2" by auto
  qed
  have t2: "fs_tree (dag s2) (unwrap b)"
    using fs_tree_le [OF tree(1)] s1(2) s2(2) map_le_trans by (auto simp: same_pins_def)
  note s3 = root_PutNode [OF p s2(1) sound path(2) t2 tree(2)]
  have "same_pins s s3" using same_pins_trans s1(2) s2(2) s3(2) by blast
  moreover have "dag s' = dag s3 \<and> mroot s' = mroot s3 \<and> same_pins s3 s'"
    using o outputDagnode_ok [of env a "path_of (P @ [n])" "unwrap b" s3 "()" s'] by (auto simp: same_pins_def split: if_splits)
  ultimately show "shows_fs env s' ?V" "same_pins s s'" using s3(1) shows_fs_same same_pins_trans by blast+
qed

section \<open>The pause for garbage collection\<close>

lemma PinRoot_ok:
  assumes "PinRoot env a nd s = (Inr (), s')" "a_Pin a" "addressed env (dag s)" "sound_env env"
  shows "dag s \<subseteq>\<^sub>m dag s'" "addressed env (dag s')" "mroot s' = mroot s" "node_Cid env nd \<in> set (pins s')"
    "dag s' (node_Cid env nd) = Some (sort_links nd)" "unlocker s' = unlocker s" "pin_locks s' = pin_locks s"
    "\<not> Defined (tempRoot s) \<Longrightarrow> set (pins s') = insert (node_Cid env nd) (set (pins s)) \<and> tempRoot s' = tempRoot s"
proof -
  obtain t where t: "dag_Add env nd s = (None, t)" and rest: "dag s' = dag t" "mroot s' = mroot t" "node_Cid env nd \<in> set (pins s')"
    "unlocker s' = unlocker t" "pin_locks s' = pin_locks t"
    "\<not> Defined (tempRoot t) \<Longrightarrow> set (pins s') = insert (node_Cid env nd) (set (pins t)) \<and> tempRoot s' = tempRoot t"
    using assms(1,2) by (auto simp: PinRoot_def Unpin_def Let_def run_Inr split: if_splits)
  note g = dag_Add_grown [OF t assms(3,4)]
  have "dag_state.more t = dag_state.more s" using g(1) by (simp add: grown_def)
  note mf = more_fields [OF this]
  show "dag s \<subseteq>\<^sub>m dag s'" "addressed env (dag s')" using g(1) rest assms(3) by (auto simp: grown_def)
  show "mroot s' = mroot s" "node_Cid env nd \<in> set (pins s')" "dag s' (node_Cid env nd) = Some (sort_links nd)"
    "unlocker s' = unlocker s" "pin_locks s' = pin_locks s" using rest mf g(2) by auto
  show "\<not> Defined (tempRoot s) \<Longrightarrow> set (pins s') = insert (node_Cid env nd) (set (pins s)) \<and> tempRoot s' = tempRoot s" using rest(6) mf by simp
qed

lemma root_GetNode:
  assumes "on_root env a (GetNode env) s = (Inr nd, s')" "shows_fs env s V" "sound_env env"
  obtains r where "mroot s' = Some r" "shows_fs env s' V" "same_pins s s'" "saved env V (dag s') r" "node_of r = nd"
proof -
  define Q where "Q r t = (saved env V (dag t) r \<and> node_of r = nd)" for r :: fsnode and t :: adder_state
  have op: "grown env t t' \<and> (\<exists>dn' cache'. r' = Directory dn' cache') \<and> wf_fs env (dag t') r' \<and> view (dag t') r' = V \<and> Q r' t'"
    if "GetNode env (Directory dn cache) t = (Inr nd, r', t')" "dag t = dag s" "addressed env (dag t)"
      "wf_fs env (dag t) (Directory dn cache)" "view (dag t) (Directory dn cache) = V" for dn cache t r' t'
    using GetNode_ok(1) [OF that(1,4,3) assms(3)] GetNode_dir [OF that(1)] that(5) by (auto simp: saved_def Q_def)
  note ok = on_root_ok [where f = "GetNode env" and Q = Q and V' = V, OF assms(1,2)]
  have "shows_fs env s' V" "same_pins s s'" by (rule ok(1), rule op, assumption+) (rule ok(2), rule op, assumption+)
  moreover have "\<exists>r t. mroot s' = Some r \<and> Q r t \<and> s' = t\<lparr>mroot := Some r\<rparr>" by (rule ok(3), rule op, assumption+)
  ultimately show ?thesis using that by (auto simp: Q_def)
qed

lemma curRootNode_ok:
  assumes "curRootNode env a s = (Inr rn, s')" "shows_fs env s V" "sound_env env"
  obtains r where "mroot s' = Some r" "shows_fs env s' V" "same_pins s s'" "saved env V (dag s') r"
    "\<And>D c. c \<in> snd ` set (Links (node_of r)) \<Longrightarrow> D (node_Cid env rn) = Some (sort_links rn) \<Longrightarrow> reaches (dlinks D) (node_Cid env rn) c"
proof -
  obtain root t where g: "on_root env a (GetNode env) s = (Inr root, t)"
    and c: "(if length (Links root) = 1 then dag_Get env (snd (hd (Links root))) else okA root) t = (Inr rn, s')"
    using assms(1) by (auto simp: curRootNode_def bindA_Inr)
  obtain r where r: "mroot t = Some r" "shows_fs env t V" "same_pins s t" "saved env V (dag t) r" "node_of r = root"
    by (rule root_GetNode [OF g assms(2,3)])
  show ?thesis
  proof (cases "length (Links root) = 1")
    case True
    then obtain l where l: "Links root = [l]" by (cases "Links root") auto
    have s': "dag s' = dag t" "dag s' (snd l) = Some rn" "mroot s' = mroot t" "same_pins t s'"
      using c True l by (auto simp: dag_Get_def Let_def same_pins_def split: option.splits)
    have "node_Cid env rn = snd l" using addressed_Cid [of env "dag s'"] s'(1,2) r(2) by (auto simp: shows_fs_def)
    then have "reaches (dlinks D) (node_Cid env rn) c" if "c \<in> snd ` set (Links (node_of r))" for D c
      using that l r(5) reaches_refl by auto
    then show ?thesis using that [of r] r s' shows_fs_same [OF r(2) s'(1,3)] same_pins_trans [OF r(3) s'(4)] by simp
  next
    case False
    then have "rn = root" "s' = t" using c by auto
    moreover have "reaches (dlinks D) (node_Cid env root) c"
      if "c \<in> snd ` set (Links (node_of r))" "D (node_Cid env root) = Some (sort_links root)" for D c
      using that r(5) by (intro reaches_link) (simp add: dlinks_def)
    ultimately show ?thesis using that [of r] r by simp
  qed
qed

text \<open>What was pinned stays pinned, as long as there is no temporary root.\<close>

definition kept :: "adder_state \<Rightarrow> adder_state \<Rightarrow> bool" where
  "kept s s' = (unlocker s' = unlocker s \<and> (\<not> Defined (tempRoot s) \<longrightarrow> set (pins s) \<subseteq> set (pins s') \<and> \<not> Defined (tempRoot s')))"

lemma kept_refl [simp]: "kept s s" "kept s (s\<lparr>ticks := n\<rparr>)"
  by (simp_all add: kept_def)

lemma kept_trans: "kept s t \<Longrightarrow> kept t u \<Longrightarrow> kept s u"
  by (auto simp: kept_def)

lemma same_pins_kept: "same_pins s s' \<Longrightarrow> kept s s'"
  by (simp add: same_pins_def kept_def)

text \<open>The pause changes nothing of what the adder shows, whatever runs in between.\<close>

lemma maybePauseForGC_ok:
  assumes run: "maybePauseForGC env a s = (Inr (), s')" and sh: "shows_fs env s V" and env: "good_env env a"
    and pin: "unlocker s \<Longrightarrow> a_Pin a"
  shows "shows_fs env s' V \<and> kept s s'"
proof (cases "unlocker s \<and> GCRequested env (ticks s)")
  case False
  then have "s' = s\<lparr>ticks := Suc (ticks s)\<rparr>" using run by (auto simp: maybePauseForGC_def run_Inr split: if_splits)
  then show ?thesis using shows_fs_same [OF sh, of s'] by simp
next
  case True
  note sound = good_envD(1) [OF env]
  obtain rn t t2 where c: "curRootNode env a (s\<lparr>ticks := Suc (ticks s)\<rparr>) = (Inr rn, t)" and p: "PinRoot env a rn t = (Inr (), t2)"
    and s': "s' = PinLock (collector env (ticks s) (Unlock t2))"
    using run True by (auto simp: maybePauseForGC_def run_Inr split: if_splits)
  have sh0: "shows_fs env (s\<lparr>ticks := Suc (ticks s)\<rparr>) V" by (rule shows_fs_same [OF sh]) simp_all
  obtain r where r: "mroot t = Some r" "shows_fs env t V" "same_pins (s\<lparr>ticks := Suc (ticks s)\<rparr>) t" "saved env V (dag t) r"
    "\<And>D c. c \<in> snd ` set (Links (node_of r)) \<Longrightarrow> D (node_Cid env rn) = Some (sort_links rn) \<Longrightarrow> reaches (dlinks D) (node_Cid env rn) c"
    using curRootNode_ok [OF c sh0 sound] by metis
  have ad: "addressed env (dag t)" using r(2) by (simp add: shows_fs_def)
  note pr = PinRoot_ok [OF p _ ad sound] and ap = pin [OF conjunct1 [OF True]]
  have sv: "saved env V (dag t2) r" by (rule saved_le [OF r(4) pr(1) [OF ap]])
  define D where "D = (if pin_locks t2 = 1 then while_unlocked env (ticks s) (pins t2) (dag t2) else dag t2)"
  have upd: "dag s' = D" "mroot s' = mroot t2" "pins s' = pins t2" "tempRoot s' = tempRoot t2" "unlocker s'"
    by (simp_all add: s' D_def PinLock_def collector_def Unlock_def)
  have D: "addressed env D" "\<And>p x. p \<in> set (pins t2) \<Longrightarrow> reaches (dlinks (dag t2)) p x \<Longrightarrow> D x = dag t2 x"
    using good_envD(3) [OF env] pr(2) [OF ap] unfolding keeps_pinned_def D_def by (auto split: if_splits)
  have agree: "D x = dag t2 x" if "c \<in> snd ` set (Links (node_of r))" "reaches (dlinks (dag t2)) c x" for c x
    using D(2) [OF pr(4) [OF ap]] r(5) [where D = "dag t2", OF that(1) pr(5) [OF ap]] reaches_trans [OF that(2)] by blast
  obtain dn cache where dir: "r = Directory dn cache" using r(1,2) by (auto simp: shows_fs_def)
  then have nl: "\<not> is_leaf (node_of r)" using sv leaf_not_dir by (auto simp: saved_def)
  have "wf_fs env D r \<and> (\<forall>ps. view D r ps = view (dag t2) r ps)"
    by (rule synced_agree [OF pr(2) [OF ap]]) (use sv agree nl sound in \<open>auto simp: saved_def sound_env_def\<close>)
  then have "wf_fs env D r \<and> view D r = V" using sv by (auto simp: saved_def)
  moreover have "kept s s'"
    using upd pr(8) [OF ap] r(3) True by (auto simp: kept_def same_pins_def)
  ultimately show ?thesis using upd D(1) dir r(1) pr(3) [OF ap] by (auto simp: shows_fs_def)
qed

lemma free_memory_ok:
  assumes run: "free_memory env a s = (Inr (), s')" and sh: "shows_fs env s V" and sound: "sound_env env"
  shows "shows_fs env s' V" "same_pins s s'"
proof -
  obtain t where t: "(if liveNodes s \<ge> liveCacheSize
                then bindA (on_root env a (unit_op (FlushMemFree env))) (\<lambda>_ s. (Inr (), s\<lparr>liveNodes := 0\<rparr>)) s
                else (Inr (), s)) = (Inr (), t)" and s': "s' = t\<lparr>liveNodes := Suc (liveNodes t)\<rparr>"
    using run by (auto simp: free_memory_def bindA_Inr)
  have "shows_fs env t V \<and> same_pins s t"
  proof (cases "liveNodes s \<ge> liveCacheSize")
    case True
    then obtain u where u: "on_root env a (unit_op (FlushMemFree env)) s = (Inr (), u)" "t = u\<lparr>liveNodes := 0\<rparr>"
      using t by (auto simp: bindA_Inr)
    have op: "grown env v v' \<and> (\<exists>dn' cache'. r' = Directory dn' cache') \<and> wf_fs env (dag v') r' \<and> view (dag v') r' = V \<and> True"
      if "unit_op (FlushMemFree env) (Directory dn cache) v = (Inr (), r', v')" "dag v = dag s" "addressed env (dag v)"
        "wf_fs env (dag v) (Directory dn cache)" "view (dag v) (Directory dn cache) = V" for dn cache v r' v'
    proof -
      have f: "FlushMemFree env (Directory dn cache) v = (None, r', v')"
        using that(1) by (auto simp: unit_op_def split: prod.splits option.splits)
      show ?thesis using FlushMemFree_ok [OF f that(4,3) sound] that(5) by (auto simp: saved_def)
    qed
    have "shows_fs env u V" "same_pins s u" using on_root_ok [OF u(1) sh op] by auto
    then show ?thesis using u(2) shows_fs_same [of env u V t] by (auto simp: same_pins_def)
  qed (use t sh in auto)
  then show "shows_fs env s' V" "same_pins s s'" using s' shows_fs_same [of env t V s'] by (auto simp: same_pins_def)
qed

section \<open>Adding a tree\<close>

definition leaf_node :: "'e add_env_scheme \<Rightarrow> Adder \<Rightarrow> fnode \<Rightarrow> ipld_node option" where
  "leaf_node env a f =
     (case f of
        FFile data \<Rightarrow> (case Layout env a data of Inr (b, _) \<Rightarrow> Some (unwrap b) | Inl _ \<Rightarrow> None)
      | FSymlink target \<Rightarrow> (case SymlinkData env target of Inr sdata \<Rightarrow> Some (ProtoNode TSymlink sdata [] (builder env a)) | Inl _ \<Rightarrow> None)
      | _ \<Rightarrow> None)"

lemma file_at_leaf:
  "leaf_node env a f = Some nd \<Longrightarrow> file_at env a f = (\<lambda>qs. if qs = [] then Some (ELeaf (sort_links nd)) else None)"
  by (auto simp: leaf_node_def fun_eq_iff split: fnode.splits sum.splits prod.splits)

declare file_at.simps(3,4) [simp del]

lemma addFile_ok:
  assumes run: "addFile env a path data s = (Inr (), s')" and sh: "shows_fs env s V" and env: "good_env env a"
    and path: "\<And>nd. leaf_node env a (FFile data) = Some nd \<Longrightarrow> (if path = [] then Cid_String env (node_Cid env nd) else path) = path_of (P @ [n])"
      "plain (P @ [n])"
    and dirs: "\<And>Q. strict_prefix Q (P @ [n]) \<Longrightarrow> V Q = Some EDir"
  shows "shows_fs env s' (with_node (P @ [n]) (file_at env a (FFile data)) V) \<and> kept s s'
    \<and> (\<exists>nd. leaf_node env a (FFile data) = Some nd)"
proof -
  define t where "t = (if a_Progress a then s\<lparr>out := out s @ progress_reads path 0 0 (read_sizes env data)\<rparr> else s)"
  have t: "dag t = dag s" "mroot t = mroot s" "kept s t" by (simp_all add: t_def kept_def)
  obtain b u where d: "add_data env a data t = (Inr b, u)" and n: "addNode env a b path u = (Inr (), s')"
    using run by (auto simp: addFile_def bindA_Inr t_def)
  have sht: "shows_fs env t V" by (rule shows_fs_same [OF sh t(1,2)])
  note ad = add_data_ok [OF d sht env]
  have l: "leaf_node env a (FFile data) = Some (unwrap b)" using ad(5) by (auto simp: leaf_node_def)
  note an = addNode_ok [OF n ad(1) env path(1) [OF l] path(2) ad(3,4) dirs]
  have "kept s s'" using t(3) same_pins_kept [OF same_pins_trans [OF ad(2) an(2)]] by (rule kept_trans)
  then show ?thesis using an(1) file_at_leaf [OF l] l by simp
qed

lemma addSymlink_ok:
  assumes run: "addSymlink env a path target s = (Inr (), s')" and sh: "shows_fs env s V" and env: "good_env env a"
    and path: "\<And>nd. leaf_node env a (FSymlink target) = Some nd \<Longrightarrow> (if path = [] then Cid_String env (node_Cid env nd) else path) = path_of (P @ [n])"
      "plain (P @ [n])"
    and dirs: "\<And>Q. strict_prefix Q (P @ [n]) \<Longrightarrow> V Q = Some EDir"
  shows "shows_fs env s' (with_node (P @ [n]) (file_at env a (FSymlink target)) V) \<and> kept s s'
    \<and> (\<exists>nd. leaf_node env a (FSymlink target) = Some nd)"
proof -
  obtain sdata t where sd: "SymlinkData env target = Inr sdata"
    and a: "dag_Add env (ProtoNode TSymlink sdata [] (builder env a)) s = (None, t)"
    and n: "addNode env a (Plain (ProtoNode TSymlink sdata [] (builder env a))) path t = (Inr (), s')"
    using run by (auto simp: addSymlink_def Let_def run_Inr split: sum.splits)
  have "addressed env (dag s)" using sh by (simp add: shows_fs_def)
  note g = shows_fs_grown [OF sh dag_Add_grown(1) [OF a this good_envD(1) [OF env]]]
  have l: "leaf_node env a (FSymlink target) = Some (unwrap (Plain (ProtoNode TSymlink sdata [] (builder env a))))"
    using sd by (simp add: leaf_node_def)
  have leaf: "is_leaf (unwrap (Plain (ProtoNode TSymlink sdata [] (builder env a))))" by simp
  have tr: "fs_tree D (unwrap (Plain (ProtoNode TSymlink sdata [] (builder env a))))" for D
    by (rule fs_tree.fs_leaf) simp_all
  note an = addNode_ok [OF n g(1) env path(1) [OF l] path(2) tr leaf dirs]
  have "kept s s'" by (rule same_pins_kept [OF same_pins_trans [OF g(2) an(2)]])
  then show ?thesis using an(1) file_at_leaf [OF l] l by simp
qed

text \<open>The names in a tree are names of entries, and no directory has a name twice.\<close>

fun good_input :: "fnode \<Rightarrow> bool" and good_entries :: "(string \<times> fnode) list \<Rightarrow> bool" where
  "good_input (FDir es e) = (distinct (map fst es) \<and> good_entries es)"
| "good_input (FFile data) = True"
| "good_input (FSymlink target) = True"
| "good_input FOther = True"
| "good_entries [] = True"
| "good_entries ((n, f) # es) = (plain_name n \<and> good_input f \<and> good_entries es)"

definition add_all_at :: "'e add_env_scheme \<Rightarrow> Adder \<Rightarrow> string list \<Rightarrow> (string \<times> fnode) list \<Rightarrow> (string list \<Rightarrow> entry option) \<Rightarrow> string list \<Rightarrow> entry option" where
  "add_all_at env a P es V = foldl (\<lambda>V (n, f). with_node (P @ [n]) (file_at env a f) V) V es"

lemma add_all_at_simps [simp]:
  "add_all_at env a P [] V = V"
  "add_all_at env a P ((n, f) # es) V = add_all_at env a P es (with_node (P @ [n]) (file_at env a f) V)"
  by (simp_all add: add_all_at_def)

lemma add_all_at_eq:
  assumes "distinct (map fst es)"
  shows "add_all_at env a P es V ps =
    (if prefix P ps then (case drop (length P) ps of [] \<Rightarrow> V ps | n # qs \<Rightarrow> (case map_of es n of None \<Rightarrow> V ps | Some f \<Rightarrow> file_at env a f qs))
     else V ps)"
  using assms
proof (induction es arbitrary: V)
  case Nil
  then show ?case by (auto split: list.splits)
next
  case (Cons e es)
  obtain n f where e: "e = (n, f)" by force
  have n: "map_of es n = None" using Cons.prems e by (simp add: map_of_eq_None_iff)
  have w: "with_node (P @ [n]) W V ps = (if prefix P ps \<and> drop (length P) ps \<noteq> [] \<and> hd (drop (length P) ps) = n
      then W (tl (drop (length P) ps)) else V ps)" for W
    by (cases "drop (length P) ps") (auto simp: with_node_def prefix_def)
  show ?case using Cons.IH [of "with_node (P @ [n]) (file_at env a f) V"] Cons.prems e n w
    by (auto split: list.splits option.splits)
qed

lemma add_dir_view:
  assumes "distinct (map fst es)" "\<And>qs. V (P @ qs) = None"
    "\<And>Q. strict_prefix Q P \<Longrightarrow> V Q = Some EDir"
  shows "add_all_at env a P es (with_dirs P V) = with_node P (file_at env a (FDir es e)) V"
proof
  fix ps
  show "add_all_at env a P es (with_dirs P V) ps = with_node P (file_at env a (FDir es e)) V ps"
  proof (cases "prefix P ps")
    case True
    then obtain qs where ps: "ps = P @ qs" by (auto simp: prefix_def)
    show ?thesis
    proof (cases qs)
      case Nil
      have "V P = None" using assms(2) [of "[]"] by simp
      then show ?thesis using Nil assms(1) ps by (simp add: add_all_at_eq with_node_def with_dirs_def)
    next
      case (Cons n rs)
      have "with_dirs P V (P @ n # rs) = None" using assms(2) by (auto simp: with_dirs_def prefix_def)
      then show ?thesis using assms(1) ps Cons by (simp add: add_all_at_eq with_node_def split: option.splits)
    qed
  next
    case False
    then have "with_dirs P V ps = V ps" using assms(3) [of ps] by (auto simp: with_dirs_def strict_prefix_def)
    then show ?thesis using False assms(1) by (simp add: add_all_at_eq with_node_def)
  qed
qed

lemma with_node_above: "strict_prefix Q P \<Longrightarrow> with_node P W V Q = V Q"
  by (auto simp: with_node_def strict_prefix_def prefix_def)

lemma with_node_beside: "m \<noteq> n \<Longrightarrow> with_node (P @ [n]) W V (P @ m # qs) = V (P @ m # qs)"
  by (auto simp: with_node_def prefix_def)

lemma prefix_strict_snoc: "prefix Q P \<longleftrightarrow> strict_prefix Q (P @ [n])"
  by (auto simp: strict_prefix_def)

lemma enter_pause:
  assumes "bindA (maybePauseForGC env a) (\<lambda>_. bindA (free_memory env a) (\<lambda>_. m)) s = (Inr (), s')" "shows_fs env s V" "good_env env a"
    "unlocker s \<Longrightarrow> a_Pin a"
  obtains t where "m t = (Inr (), s')" "shows_fs env t V" "kept s t"
proof -
  obtain t1 t2 where p: "maybePauseForGC env a s = (Inr (), t1)" and f: "free_memory env a t1 = (Inr (), t2)" "m t2 = (Inr (), s')"
    using assms(1) by (auto simp: bindA_Inr)
  have 1: "shows_fs env t1 V \<and> kept s t1" by (rule maybePauseForGC_ok [OF p assms(2-4)])
  note 2 = free_memory_ok [OF f(1) conjunct1 [OF 1] good_envD(1) [OF assms(3)]]
  show ?thesis using that [OF f(2) 2(1)] kept_trans [OF conjunct2 [OF 1] same_pins_kept [OF 2(2)]] by simp
qed

lemma add_ok:
  "addFileNode env a path f toplevel s = (Inr (), s') \<Longrightarrow> shows_fs env s V \<Longrightarrow> good_env env a \<Longrightarrow> (unlocker s \<Longrightarrow> a_Pin a)
    \<Longrightarrow> good_input f \<Longrightarrow> path = path_of (P @ [n]) \<Longrightarrow> plain (P @ [n]) \<Longrightarrow> (\<And>Q. strict_prefix Q (P @ [n]) \<Longrightarrow> V Q = Some EDir)
    \<Longrightarrow> (\<And>qs. V ((P @ [n]) @ qs) = None)
    \<Longrightarrow> shows_fs env s' (with_node (P @ [n]) (file_at env a f) V) \<and> kept s s'"
  "add_entries env a path es s = (Inr (), s') \<Longrightarrow> shows_fs env s V \<Longrightarrow> good_env env a \<Longrightarrow> (unlocker s \<Longrightarrow> a_Pin a)
    \<Longrightarrow> good_entries es \<Longrightarrow> distinct (map fst es) \<Longrightarrow> path = path_of P \<Longrightarrow> plain P \<Longrightarrow> (\<And>Q. prefix Q P \<Longrightarrow> V Q = Some EDir)
    \<Longrightarrow> (\<And>m qs. m \<in> fst ` set es \<Longrightarrow> V (P @ m # qs) = None)
    \<Longrightarrow> shows_fs env s' (add_all_at env a P es V) \<and> kept s s'"
proof (induction env a path f toplevel s and env a path es s arbitrary: V P n s' and V P s' rule: addFileNode_add_entries.induct)
  case (1 env a path es it_err toplevel s)
  let ?m = "bindA (enter_dir env a path toplevel) (\<lambda>_. bindA (add_entries env a path es) (\<lambda>_. check it_err))"
  obtain t where t: "?m t = (Inr (), s')" "shows_fs env t V" "kept s t"
    using enter_pause [of env a ?m s s' V] 1(2-5) by (auto simp: good_env_def)
  note p = 1(7,8) and ne = path_of_nonempty [OF 1(8)]
  obtain u where u: "on_root env a (unit_op (Mkdir env \<lparr>Mkparents = True, opt_Flush = False, opt_CidBuilder = a_CidBuilder a\<rparr> (path_of (P @ [n])))) t = (Inr (), u)"
    and e: "add_entries env a path es u = (Inr (), s')"
    using t(1) p ne by (auto simp: enter_dir_def run_Inr)
  note mk = root_Mkdir [OF u t(2) good_envD(1) [OF 1(4)] p(2)]
  have ku: "kept s u" by (rule kept_trans [OF t(3) same_pins_kept [OF mk(2)]]) simp
  have V': "with_dirs (P @ [n]) V Q = Some EDir" if "prefix Q (P @ [n])" for Q
    using that 1(9) [of Q] 1(10) [of "[]"] by (cases "Q = P @ [n]") (auto simp: with_dirs_def strict_prefix_def)
  have below: "with_dirs (P @ [n]) V ((P @ [n]) @ m # qs) = None" for m qs
    using 1(10) [of "m # qs"] by (simp add: with_dirs_def prefix_def)
  have "shows_fs env s' (add_all_at env a (P @ [n]) es (with_dirs (P @ [n]) V)) \<and> kept u s'"
    by (rule 1(1) [OF e]) (use mk(1) ku 1(4-8) V' below in \<open>auto simp: kept_def\<close>)
  then show ?case using add_dir_view [of es V "P @ [n]" env a it_err] 1(6,9,10) kept_trans [OF ku] by auto
next
  case (2 env a path target toplevel s)
  obtain t where t: "addSymlink env a path target t = (Inr (), s')" "shows_fs env t V" "kept s t"
    using enter_pause [of env a "addSymlink env a path target" s s' V] 2 by auto
  show ?case using addSymlink_ok [OF t(1,2) 2(3), of P n] 2(6-8) path_of_nonempty [OF 2(7)] kept_trans [OF t(3)] by auto
next
  case (3 env a path data toplevel s)
  obtain t where t: "addFile env a path data t = (Inr (), s')" "shows_fs env t V" "kept s t"
    using enter_pause [of env a "addFile env a path data" s s' V] 3 by auto
  show ?case using addFile_ok [OF t(1,2) 3(3), of P n] 3(6-8) path_of_nonempty [OF 3(7)] kept_trans [OF t(3)] by auto
next
  case (4 env a path toplevel s)
  then show ?case by (auto simp: run_Inr)
next
  case (5 env a path s)
  then show ?case by simp
next
  case (6 env a path name f es s)
  obtain t where t: "addFileNode env a (path_Join [path, name]) f False s = (Inr (), t)" "add_entries env a path es t = (Inr (), s')"
    using 6(3) by (auto split: prod.splits sum.splits)
  have pl: "plain (P @ [name])" "good_input f" "good_entries es" using 6(7,10) by auto
  have j: "path_Join [path, name] = path_of (P @ [name])" using Join_path_of [OF 6(10)] 6(9) pl(1) by simp
  have fresh: "V ((P @ [name]) @ qs) = None" for qs using 6(12) [of name qs] by simp
  have up: "V Q = Some EDir" if "strict_prefix Q (P @ [name])" for Q using that 6(11) [of Q] prefix_strict_snoc [of Q P name] by blast
  have ih1: "shows_fs env t (with_node (P @ [name]) (file_at env a f) V) \<and> kept s t"
    by (rule 6(1) [OF t(1) 6(4,5,6) pl(2) j pl(1) up fresh])
  have "shows_fs env s' (add_all_at env a P es (with_node (P @ [name]) (file_at env a f) V)) \<and> kept t s'"
  proof (rule 6(2) [OF t(1) [symmetric] refl t(2) conjunct1 [OF ih1] 6(5) _ pl(3) _ 6(9,10)])
    show "unlocker t \<Longrightarrow> a_Pin a" using ih1 6(6) by (simp add: kept_def)
    show "distinct (map fst es)" using 6(8) by simp
    show "with_node (P @ [name]) (file_at env a f) V Q = Some EDir" if "prefix Q P" for Q
      using with_node_above [of Q "P @ [name]"] prefix_strict_snoc [of Q P name] that 6(11) [of Q] by simp
    show "with_node (P @ [name]) (file_at env a f) V (P @ m # qs) = None" if "m \<in> fst ` set es" for m qs
    proof -
      have "m \<noteq> name" "m \<in> fst ` set ((name, f) # es)" using that 6(8) by auto
      then show ?thesis using with_node_beside [of m name P "file_at env a f" V qs] 6(12) [of m qs] by simp
    qed
  qed
  then show ?case using kept_trans [OF conjunct2 [OF ih1]] by simp
qed

section \<open>The result\<close>

lemma empty_fresh: "P \<noteq> [] \<Longrightarrow> empty_view (P @ qs) = None"
  by (simp add: empty_view_def)

lemma add_top_dir:
  assumes run: "addFileNode env a [] (FDir es e) True s = (Inr (), s')" and sh: "shows_fs env s empty_view" and env: "good_env env a"
    and pin: "unlocker s \<Longrightarrow> a_Pin a" and good: "good_input (FDir es e)"
  shows "shows_fs env s' (file_at env a (FDir es e)) \<and> kept s s'"
proof -
  let ?m = "bindA (enter_dir env a [] True) (\<lambda>_. bindA (add_entries env a [] es) (\<lambda>_. check e))"
  obtain t where t: "?m t = (Inr (), s')" "shows_fs env t empty_view" "kept s t"
    using enter_pause [of env a ?m s s' empty_view] run sh env pin by auto
  have ae: "add_entries env a [] es t = (Inr (), s')" using t(1) by (auto simp: enter_dir_def run_Inr)
  have "shows_fs env s' (add_all_at env a [] es empty_view) \<and> kept t s'"
    by (rule add_ok(2) [OF ae t(2) env]) (use t(3) pin good in \<open>auto simp: kept_def plain_def empty_view_def\<close>)
  moreover have "add_all_at env a [] es empty_view = file_at env a (FDir es e)"
  proof
    fix ps
    show "add_all_at env a [] es empty_view ps = file_at env a (FDir es e) ps"
      using good by (cases ps) (auto simp: add_all_at_eq empty_view_def split: option.splits)
  qed
  ultimately show ?thesis using kept_trans [OF t(3)] by auto
qed

lemma add_top_leaf:
  assumes run: "addFileNode env a [] f True s = (Inr (), s')" and sh: "shows_fs env s empty_view" and env: "good_env env a"
    and pin: "unlocker s \<Longrightarrow> a_Pin a" and leaf: "\<And>es e. f \<noteq> FDir es e"
  shows "\<exists>nd. leaf_node env a f = Some nd \<and> kept s s'
    \<and> shows_fs env s' (with_node [Cid_String env (node_Cid env nd)] (file_at env a f) empty_view)"
proof -
  have dirs: "empty_view Q = Some EDir" if "strict_prefix Q ([] @ [n])" for Q n
    using that prefix_strict_snoc [of Q "[]" n] by (simp add: empty_view_def)
  have path: "(if [] = [] then Cid_String env (node_Cid env nd) else []) = path_of ([] @ [Cid_String env (node_Cid env nd)])"
    "plain ([] @ [Cid_String env (node_Cid env nd)])" for nd
    using good_envD(4) [OF env] by (simp_all add: path_of_def plain_def)
  show ?thesis
  proof (cases f)
    case (FFile data)
    obtain t where t: "addFile env a [] data t = (Inr (), s')" "shows_fs env t empty_view" "kept s t"
      using enter_pause [of env a "addFile env a [] data" s s' empty_view] run sh env pin FFile by auto
    obtain nd where nd: "leaf_node env a (FFile data) = Some nd"
      using t(1) by (auto simp: addFile_def add_data_def run_Inr leaf_node_def Layout_def split: sum.splits if_splits)
    show ?thesis using addFile_ok [OF t(1,2) env _ path(2) dirs, of nd] path(1) nd FFile kept_trans [OF t(3)] by auto
  next
    case (FSymlink target)
    obtain t where t: "addSymlink env a [] target t = (Inr (), s')" "shows_fs env t empty_view" "kept s t"
      using enter_pause [of env a "addSymlink env a [] target" s s' empty_view] run sh env pin FSymlink by auto
    obtain nd where nd: "leaf_node env a (FSymlink target) = Some nd"
      using t(1) by (auto simp: addSymlink_def leaf_node_def split: sum.splits)
    show ?thesis using addSymlink_ok [OF t(1,2) env _ path(2) dirs, of nd] path(1) nd FSymlink kept_trans [OF t(3)] by auto
  qed (use run leaf in \<open>auto simp: run_Inr\<close>)
qed

text \<open>Without regard to what is stored, output and syncing only add to the store.\<close>

lemma GetNode_grown:
  "GetNode env f s = (r, f', s') \<Longrightarrow> addressed env (dag s) \<Longrightarrow> sound_env env \<Longrightarrow> grown env s s'"
  "sync_entries env es dn s = (x, es', dn', s') \<Longrightarrow> addressed env (dag s) \<Longrightarrow> sound_env env \<Longrightarrow> grown env s s' \<and> map fst es' = map fst es"
proof (induction env f s and env es dn s arbitrary: r f' s' and x es' dn' s' rule: GetNode_sync_entries.induct)
  case (2 env dnode cache s)
  obtain x es1 dn1 s1 where sy: "sync_entries env cache dnode s = (x, es1, dn1, s1)" by (metis prod_cases4)
  have g: "grown env s s1" using 2(1) [OF sy 2(3,4)] by simp
  then have "addressed env (dag s1)" using 2(3) by (simp add: grown_def)
  then have "grown env s1 s2" if "dag_Add env dn1 s1 = (y, s2)" for y s2 using dag_Add_grown(1) [OF that] 2(4) by simp
  then show ?case using 2(2) sy g grown_trans [OF g] by (auto split: option.splits prod.splits)
next
  case (4 env name entry cache dnode s)
  obtain r1 g' s1 where gn: "GetNode env entry s = (r1, g', s1)" by (metis prod_cases3)
  have g: "grown env s s1" by (rule 4(1) [OF gn 4(4,5)])
  show ?case
  proof (cases r1)
    case (Inr nd1)
    obtain y es2 dn2 s2 where sy: "sync_entries env cache (add_link name (node_Cid env nd1) dnode) s1 = (y, es2, dn2, s2)" by (metis prod_cases4)
    have "addressed env (dag s1)" using g 4(4) by (simp add: grown_def)
    then have "grown env s1 s2 \<and> map fst es2 = map fst cache"
      using 4(2) [OF gn [symmetric, unfolded Inr] refl refl sy _ 4(5)] by simp
    then show ?thesis using 4(3) gn Inr sy grown_trans [OF g] by auto
  qed (use 4(3) gn g in auto)
qed auto

lemma childUnsync_dag: "childUnsync env n dn cache s = (r, c', s') \<Longrightarrow> grown env s s' \<and> dag s' = dag s"
  by (auto simp: childUnsync_def dag_Get_def Let_def grown_def split: option.splits sum.splits prod.splits)

lemma grown_same: "grown env s s' \<Longrightarrow> same_pins s s' \<and> (addressed env (dag s) \<longrightarrow> addressed env (dag s'))"
  using more_fields [of s' s] by (auto simp: grown_def same_pins_def)

lemma output_same: "outputDagnode env a p nd s = (r, s') \<Longrightarrow> same_pins s s' \<and> dag s' = dag s"
  by (auto simp: outputDagnode_def same_pins_def split: if_splits sum.splits prod.splits)

lemma outputDirs_same:
  "outputDirs env a n p f s = (r, s') \<Longrightarrow> addressed env (dag s) \<Longrightarrow> sound_env env \<Longrightarrow> same_pins s s' \<and> addressed env (dag s')"
  "output_children env a n p names dn cache s = (q, s') \<Longrightarrow> addressed env (dag s) \<Longrightarrow> sound_env env \<Longrightarrow> same_pins s s' \<and> addressed env (dag s')"
proof (induction env a n p f s and env a n p names dn cache s arbitrary: r s' and q s' rule: outputDirs_output_children.induct)
  case (3 env a n path dn cache s)
  obtain q s1 where c: "output_children env a n path (ListNames (Directory dn cache)) dn cache s = (q, s1)" by fastforce
  have 1: "same_pins s s1" "addressed env (dag s1)" using 3(1) [OF c 3(3,4)] by auto
  show ?case
  proof (cases q)
    case (Inr cache')
    obtain x f' s2 where g: "GetNode env (Directory dn cache') s1 = (x, f', s2)" by (metis prod_cases3)
    note 2 = grown_same [OF GetNode_grown(1) [OF g 1(2) 3(4)]]
    have s2: "same_pins s s2" "addressed env (dag s2)" using 2 1 same_pins_trans by blast+
    show ?thesis using 3(2) c Inr g s2 output_same [of env a path _ s2 r s'] same_pins_trans [OF s2(1)]
      by (auto simp del: GetNode.simps split: sum.splits)
  qed (use 3(2) c 1 in auto)
next
  case (5 env a n path name names dn cache s)
  obtain x c1 s1 where c: "childUnsync env name dn cache s = (x, c1, s1)" by (metis prod_cases3)
  note 1 = childUnsync_dag [OF c]
  have s1: "same_pins s s1" "addressed env (dag s1)" using grown_same [of env s s1] 1 5(4) by auto
  show ?case
  proof (cases x)
    case (Inr child)
    obtain y s2 where o: "outputDirs env a n (path_Join [path, name]) child s1 = (y, s2)" by fastforce
    have s2: "same_pins s s2" "addressed env (dag s2)"
      using 5(1) [OF c [symmetric] Inr refl o s1(2) 5(5)] same_pins_trans [OF s1(1)] by auto
    show ?thesis
    proof (cases y)
      case (Inr u)
      obtain z where "output_children env a n path names dn (filter (\<lambda>e. fst e \<noteq> name) c1) s2 = (z, s')"
        using 5(3) c \<open>x = Inr child\<close> o Inr by auto
      then show ?thesis using 5(2) [OF c [symmetric] \<open>x = Inr child\<close> refl o [symmetric] Inr _ s2(2) 5(5)] same_pins_trans [OF s2(1)] by auto
    qed (use 5(3) c Inr o s2 in auto)
  qed (use 5(3) c s1 in auto)
qed auto

text \<open>A root that is there.\<close>

definition root_is :: "'e add_env_scheme \<Rightarrow> adder_state \<Rightarrow> ipld_node \<Rightarrow> (string \<times> fsnode) list \<Rightarrow> (string list \<Rightarrow> entry option) \<Rightarrow> bool" where
  "root_is env s dn cache V =
     (mroot s = Some (Directory dn cache) \<and> addressed env (dag s) \<and> wf_fs env (dag s) (Directory dn cache)
      \<and> view (dag s) (Directory dn cache) = V)"

lemma root_is_shows: "root_is env s dn cache V \<Longrightarrow> shows_fs env s V"
  by (simp add: root_is_def shows_fs_def)

lemma shows_root: "shows_fs env s V \<Longrightarrow> mroot s = Some r \<Longrightarrow> \<exists>dn cache. root_is env s dn cache V"
  by (auto simp: root_is_def shows_fs_def)

lemma on_root_is:
  "root_is env s dn cache V \<Longrightarrow>
   on_root env a f s = (case f (Directory dn cache) s of (x, r', s') \<Rightarrow> (x, s'\<lparr>mroot := Some r'\<rparr>))"
  by (simp add: root_is_def on_root_def bindA_def mfsRoot_def)

lemma root_Flush_shows:
  assumes run: "on_root env a (unit_op (root_Flush env)) s = (Inr (), s')" and sh: "shows_fs env s V" and sound: "sound_env env"
  obtains dn cache where "root_is env s' dn cache V" "same_pins s s'"
proof -
  have op: "grown env t t' \<and> (\<exists>dn' cache'. r' = Directory dn' cache') \<and> wf_fs env (dag t') r' \<and> view (dag t') r' = V \<and> True"
    if "unit_op (root_Flush env) (Directory dn cache) t = (Inr (), r', t')" "dag t = dag s" "addressed env (dag t)"
      "wf_fs env (dag t) (Directory dn cache)" "view (dag t) (Directory dn cache) = V" for dn cache t r' t'
  proof -
    have f: "root_Flush env (Directory dn cache) t = (None, r', t')"
      using that(1) by (auto simp: unit_op_def split: prod.splits option.splits)
    have "\<exists>dn' cache'. r' = Directory dn' cache'"
      using f GetNode_dir by (fastforce simp: root_Flush_def simp del: GetNode.simps split: prod.splits sum.splits)
    then show ?thesis using root_Flush_ok [OF f that(4,3) sound] that(5) by (auto simp: saved_def)
  qed
  note ok = on_root_ok [where f = "unit_op (root_Flush env)" and Q = "\<lambda>_ _. True" and V' = V, OF run sh]
  have "shows_fs env s' V" "same_pins s s'" by (rule ok(1), rule op, assumption+) (rule ok(2), rule op, assumption+)
  moreover have "\<exists>r t. mroot s' = Some r \<and> True \<and> s' = t\<lparr>mroot := Some r\<rparr>" by (rule ok(3), rule op, assumption+)
  ultimately have "shows_fs env s' V" "same_pins s s'" "\<exists>r. mroot s' = Some r" by auto
  then show ?thesis using that shows_root by blast
qed

lemma result_name_ok:
  assumes run: "result_name env a input s = (Inr name, s')" and r: "root_is env s dn cache V" and sound: "sound_env env"
  obtains cache' where "root_is env s' dn cache' V" "same_pins s s'"
    "case input of FDir _ _ \<Rightarrow> name = None | _ \<Rightarrow> (\<exists>n. name = Some n \<and> n \<in> fst ` set (Links dn) \<and> n \<in> fst ` set cache')"
proof (cases "\<exists>es e. input = FDir es e")
  case True
  then show ?thesis using that [of cache] run r by (auto simp: result_name_def)
next
  case False
  have wf: "wf_fs env (dag s) (Directory dn cache)" "addressed env (dag s)" using r by (simp_all add: root_is_def)
  obtain n names where names: "ListNames (Directory dn cache) = n # names"
    using run False r by (auto simp: result_name_def on_root_is [OF r] split: fnode.splits list.splits)
  obtain child cache' t where c: "childUnsync env n dn cache s = (Inr child, cache', t)" and s': "s' = t\<lparr>mroot := Some (Directory dn cache')\<rparr>" "name = Some n"
    using run False names by (auto simp: result_name_def on_root_is [OF r] split: fnode.splits prod.splits sum.splits)
  note cu = childUnsync_ok [OF c wf sound]
  have "view (dag s) (Directory dn cache') = V" using cu(4) r by (auto simp: root_is_def)
  then have "root_is env s' dn cache' V" using cu(1,3) s'(1) r by (auto simp: root_is_def)
  moreover have "same_pins s s'" using grown_same [of env s t] childUnsync_dag [OF c] s'(1) by (auto simp: same_pins_def)
  moreover have "n \<in> fst ` set (Links dn)" "n \<in> fst ` set cache'" using cu(5) [OF refl] by (blast, force dest: map_of_SomeD)
  ultimately show ?thesis using that s'(2) False by (auto split: fnode.splits)
qed

lemma close_ok:
  assumes run: "on_root env a (GetNode env) s = (Inr nd, s')" and r: "root_is env s dn cache V" and sound: "sound_env env"
  obtains dn' cache' where "root_is env s' dn' cache' V" "same_pins s s'" "fst ` set cache' = fst ` set cache"
    "fst ` set (Links dn') = fst ` set (Links dn)"
proof -
  have wf: "wf_fs env (dag s) (Directory dn cache)" "addressed env (dag s)" using r by (simp_all add: root_is_def)
  obtain r' t where g: "GetNode env (Directory dn cache) s = (Inr nd, r', t)" and s': "s' = t\<lparr>mroot := Some r'\<rparr>"
    using run by (auto simp: on_root_is [OF r] simp del: GetNode.simps split: prod.splits)
  obtain es1 dn1 s1 where sy: "sync_entries env cache dn s = (None, es1, dn1, s1)" and r': "r' = Directory (sort_links dn1) es1"
    using g by (auto split: prod.splits option.splits)
  have "grown env s s1 \<and> saves env (dag s) cache dn (dag s1) es1 dn1"
    by (rule GetNode_ok(2) [OF sy]) (use wf sound in auto)
  then have n: "map fst es1 = map fst cache" "fst ` set (Links dn1) = fst ` set (Links dn)" by (auto simp: saves_def)
  note ok = GetNode_ok(1) [OF g wf sound]
  have "wf_fs env (dag t) r'" "view (dag t) r' = V" using ok r by (auto simp: saved_def root_is_def simp del: wf_fs.simps)
  then have "root_is env s' (sort_links dn1) es1 V" using ok r r' s' by (auto simp: root_is_def grown_def simp del: wf_fs.simps)
  moreover have "same_pins s s'" using ok grown_same [of env s t] s' by (auto simp: same_pins_def)
  moreover have "fst ` set es1 = fst ` set cache" using n(1) by (metis list.set_map)
  ultimately show ?thesis using that n(2) by simp
qed

lemma add_root_ok:
  assumes run: "add_root env a input s = (Inr (name, nd, root), s')" and sh: "shows_fs env s empty_view" and env: "good_env env a"
    and pin: "unlocker s \<Longrightarrow> a_Pin a" and good: "good_input input"
  shows "saved env (file_at env a input) (dag s') root" "node_of root = nd" "addressed env (dag s')" "kept s s'"
proof -
  note sound = good_envD(1) [OF env]
  obtain t1 t2 t3 rn t4 r t5 where s1: "addFileNode env a [] input True s = (Inr (), t1)"
    and s2: "on_root env a (unit_op (root_Flush env)) t1 = (Inr (), t2)" and s3: "result_name env a input t2 = (Inr name, t3)"
    and s4: "on_root env a (GetNode env) t3 = (Inr rn, t4)" and s5: "mfsRoot env a t4 = (Inr r, t5)"
    and s6: "GetNode env (the_object name r) t5 = (Inr nd, root, s')"
    using run unfolding add_root_def bindA_Inr by (auto simp del: GetNode.simps)
  obtain V where V: "shows_fs env t1 V" "kept s t1"
    "case input of FDir _ _ \<Rightarrow> V = file_at env a input
     | _ \<Rightarrow> (\<exists>n. V = with_node [n] (file_at env a input) empty_view)"
  proof (cases "\<exists>es e. input = FDir es e")
    case True
    then show ?thesis using that [of "file_at env a input"] add_top_dir [OF _ sh env pin] s1 good by fastforce
  next
    case False
    then obtain nd' where nd': "kept s t1" "shows_fs env t1 (with_node [Cid_String env (node_Cid env nd')] (file_at env a input) empty_view)"
      using add_top_leaf [OF s1 sh env pin] by auto
    show ?thesis by (rule that [OF nd'(2,1)]) (use False in \<open>auto split: fnode.splits\<close>)
  qed
  obtain dn2 c2 where r2: "root_is env t2 dn2 c2 V" "same_pins t1 t2" by (rule root_Flush_shows [OF s2 V(1) sound])
  obtain c3 where r3: "root_is env t3 dn2 c3 V" "same_pins t2 t3" and nm: "case input of FDir _ _ \<Rightarrow> name = None
     | _ \<Rightarrow> (\<exists>n. name = Some n \<and> n \<in> fst ` set (Links dn2) \<and> n \<in> fst ` set c3)"
    by (rule result_name_ok [OF s3 r2(1) sound])
  obtain dn4 c4 where r4: "root_is env t4 dn4 c4 V" "same_pins t3 t4" and names: "fst ` set c4 = fst ` set c3" "fst ` set (Links dn4) = fst ` set (Links dn2)"
    by (rule close_ok [OF s4 r3(1) sound])
  have r5: "r = Directory dn4 c4" "t5 = t4" using s5 r4(1) by (auto simp: root_is_def mfsRoot_def)
  have wf4: "wf_fs env (dag t4) (Directory dn4 c4)" "addressed env (dag t4)" using r4(1) by (auto simp: root_is_def simp del: wf_fs.simps)
  have obj: "wf_fs env (dag t4) (the_object name r) \<and> view (dag t4) (the_object name r) = file_at env a input"
  proof (cases "\<exists>es e. input = FDir es e")
    case True
    then show ?thesis using nm V(3) r5(1) r4(1) by (auto simp: the_object_def root_is_def simp del: wf_fs.simps)
  next
    case False
    obtain n where n: "name = Some n" "n \<in> fst ` set c4" using nm False names by (auto split: fnode.splits)
    obtain m where m: "V = with_node [m] (file_at env a input) empty_view" using V(3) False by (auto split: fnode.splits)
    obtain g where g: "map_of c4 n = Some g" using n(2) by (metis map_of_eq_None_iff option.exhaust)
    have v: "view (dag t4) g qs = V (n # qs)" for qs using r4(1) g by (auto simp: root_is_def view.simps)
    have "view (dag t4) g [] \<noteq> None" by (cases g) simp_all
    then have "n = m" using v [of "[]"] m by (auto simp: with_node_Cons empty_view_def split: if_splits)
    then have "view (dag t4) g = file_at env a input" using v m by (auto simp: with_node_Cons)
    moreover have "wf_fs env (dag t4) g" using wf4(1) wf_cache_map_of [where env = env and D = "dag t4", OF _ g] by simp
    ultimately show ?thesis using n(1) g r5(1) by (simp add: the_object_def)
  qed
  note g6 = GetNode_ok(1) [OF s6 [unfolded r5(2)] conjunct1 [OF obj] wf4(2) sound]
  show "saved env (file_at env a input) (dag s') root" "node_of root = nd" using g6 obj by auto
  show "addressed env (dag s')" using g6 wf4(2) by (simp add: grown_def)
  have "same_pins t1 s'" using r2(2) r3(2) r4(2) grown_same [of env t4 s'] g6 same_pins_trans by blast
  then show "kept s s'" using kept_trans [OF V(2)] same_pins_kept by blast
qed

lemma add_all_result:
  assumes run: "add_all env a fuel input s = (Inr nd, s')" and sh: "shows_fs env s empty_view" and env: "good_env env a"
    and pin: "unlocker s \<Longrightarrow> a_Pin a" and good: "good_input input"
  shows "\<exists>root. saved env (file_at env a input) (dag s') root \<and> node_of root = nd" "kept s s'" "a_Pin a \<Longrightarrow> node_Cid env nd \<in> set (pins s')"
proof -
  obtain name nd1 root t u where r: "add_root env a input s = (Inr (name, nd1, root), t)"
    and o: "outputDirs env a fuel (case name of None \<Rightarrow> [] | Some n \<Rightarrow> n) root t = (Inr (), u)"
    and p: "(if \<not> a_Pin a then okA nd1 else bindA (PinRoot env a nd1) (\<lambda>_. okA nd1)) u = (Inr nd, s')"
    using run by (auto simp: add_all_def bindA_Inr)
  note ok = add_root_ok [OF r sh env pin good]
  have nd: "nd1 = nd" using p by (auto simp: run_Inr split: if_splits)
  have u: "same_pins t u" "addressed env (dag u)" using outputDirs_same(1) [OF o ok(3) good_envD(1) [OF env]] by auto
  have fin: "dag u \<subseteq>\<^sub>m dag s' \<and> kept u s' \<and> (a_Pin a \<longrightarrow> node_Cid env nd \<in> set (pins s'))"
  proof (cases "a_Pin a")
    case True
    then have "PinRoot env a nd u = (Inr (), s')" using p nd by (auto simp: run_Inr)
    from PinRoot_ok [OF this True u(2) good_envD(1) [OF env]] show ?thesis by (auto simp: kept_def)
  qed (use p in auto)
  have "dag t \<subseteq>\<^sub>m dag s'" using u(1) fin map_le_trans by (auto simp: same_pins_def)
  then show "\<exists>root. saved env (file_at env a input) (dag s') root \<and> node_of root = nd" using saved_le [OF ok(1)] ok(2) nd by blast
  show "kept s s'" using kept_trans [OF kept_trans [OF ok(4) same_pins_kept [OF u(1)]]] fin by blast
  show "a_Pin a \<Longrightarrow> node_Cid env nd \<in> set (pins s')" using fin by blast
qed

end
