(* ===== verification/Adder_Progress.thy ===== *)
theory Adder_Progress
  imports Adder
begin

text \<open>
  What an adder promises. The collector of \<open>Gc\<close> is one of the things that may run while an adder has given up its lock;
  when nothing fails adding ends with a root; what the root holds is the tree that was added; and the
  lock is given back on every path.
\<close>

section \<open>Garbage collection while the lock is given up\<close>

text \<open>The store of nodes as a store of blocks, and one run of the collector on it.\<close>

definition node_links :: "dagmap \<Rightarrow> cid \<Rightarrow> ipld_err + cid list" where
  "node_links D c = (case D c of None \<Rightarrow> Inl IpldErrNotFound | Some nd \<Rightarrow> Inr (map snd (Links nd)))"

definition gc_store :: "(nat \<Rightarrow> bool) \<Rightarrow> (nat \<Rightarrow> choice) \<Rightarrow> nat \<Rightarrow> (cid \<Rightarrow> err option) \<Rightarrow> cid list \<Rightarrow> cid list \<Rightarrow> dagmap \<Rightarrow> dagmap" where
  "gc_store ctx sched fuel del_err keys pinned D =
     (let env = \<lparr>env_pinner = \<lparr>RecursiveKeys = Inr pinned, DirectKeys = Inr [], InternalPins = Inr []\<rparr>,
                 env_getLinks = node_links D, env_allKeys = Inr keys, env_deleteErr = del_err, env_gcDatastore = None\<rparr> in
      case GC ctx (parallelWalk sched fuel) env [] (\<lambda>c. map_option (\<lambda>_. []) (D c)) of
        None \<Rightarrow> D
      | Some (_, bs') \<Rightarrow> (\<lambda>c. if bs' c = None then None else D c))"

lemma links_of_node_links [simp]: "links_of (node_links D) = dlinks D"
  by (rule ext) (simp add: links_of_def node_links_def dlinks_def split: option.splits)

text \<open>What the collector leaves is what the adder relies on: the recursively pinned nodes and all below them. The marking
  needs CIDs that are defined.\<close>

lemma gc_store_keeps:
  assumes "p \<in> set pinned" "reaches (dlinks D) p x" "all_defined (dlinks D)" "Ball (set pinned) Defined"
  shows "gc_store ctx sched fuel del_err keys pinned D x = D x"
proof -
  define env where "env = \<lparr>env_pinner = \<lparr>RecursiveKeys = Inr pinned, DirectKeys = Inr [], InternalPins = Inr []\<rparr>,
                 env_getLinks = node_links D, env_allKeys = Inr keys, env_deleteErr = del_err, env_gcDatastore = None\<rparr>"
  have d: "defined_inputs (env_pinner env) (links_of (env_getLinks env)) []"
    using assms(3,4) by (simp add: env_def defined_inputs_def gc_roots_def)
  have pr: "x \<in> protected (env_pinner env) (links_of (env_getLinks env)) []"
    using assms(1,2) by (auto simp: env_def protected_def reached_def gc_roots_def)
  show ?thesis
    using gcw.GC_keeps [OF _ d pr, of ctx sched fuel "\<lambda>c. map_option (\<lambda>_. []) (D c)"]
    by (auto simp: gc_store_def Let_def env_def split: option.splits)
qed

lemma gc_keeps_pinned:
  "keeps_pinned env (\<lambda>n P D. if all_defined (dlinks D) \<and> Ball (set P) Defined
     then gc_store (ctx n) (sched n) (fuel n) (del_err n) (keys n) P D else D)"
proof -
  have "addressed env (gc_store c sc fu de ks P D)" if "addressed env D" for c sc fu de ks P D
    using that by (auto simp: addressed_def gc_store_def Let_def split: option.splits prod.splits)
  then show ?thesis using gc_store_keeps by (auto simp: keeps_pinned_def)
qed

section \<open>Progress\<close>

text \<open>Nothing fails: the services take every node, the layouts and the pinner work.\<close>

definition no_failures :: "'e add_env_scheme \<Rightarrow> Adder \<Rightarrow> bool" where
  "no_failures env a =
     (takes_all env \<and> chunker_err env (a_Chunker a) = None \<and> params_err env = None \<and> (\<forall>d. \<exists>x. Layout env a d = Inr x)
      \<and> (\<forall>t. \<exists>x. SymlinkData env t = Inr x) \<and> (\<forall>nd. \<exists>n. node_Size env nd = Inr n) \<and> (\<forall>n. flush_err env n = None) \<and> sync_err env = None)"

text \<open>Every entry of the input is of a known kind and every directory was listed to its end.\<close>

fun complete_input :: "fnode \<Rightarrow> bool" and complete_entries :: "(string \<times> fnode) list \<Rightarrow> bool" where
  "complete_input (FDir es e) = (e = None \<and> complete_entries es)"
| "complete_input (FFile data) = True"
| "complete_input (FSymlink target) = True"
| "complete_input FOther = False"
| "complete_entries [] = True"
| "complete_entries ((n, f) # es) = (complete_input f \<and> complete_entries es)"

fun depth :: "fnode \<Rightarrow> nat" and depth_entries :: "(string \<times> fnode) list \<Rightarrow> nat" where
  "depth (FDir es e) = Suc (depth_entries es)"
| "depth (FFile data) = 1"
| "depth (FSymlink target) = 1"
| "depth FOther = 1"
| "depth_entries [] = 0"
| "depth_entries ((n, f) # es) = max (depth f) (depth_entries es)"

definition ready :: "'e add_env_scheme \<Rightarrow> Adder \<Rightarrow> adder_state \<Rightarrow> (string list \<Rightarrow> entry option) \<Rightarrow> bool" where
  "ready env a s V = (shows_fs env s V \<and> (unlocker s \<longrightarrow> a_Pin a) \<and> \<not> Defined (tempRoot s))"

lemma ready_kept: "ready env a s V \<Longrightarrow> shows_fs env t W \<Longrightarrow> kept s t \<Longrightarrow> ready env a t W"
  by (auto simp: ready_def kept_def)

lemma bindA_Inr_I: "m s = (Inr x, t) \<Longrightarrow> bindA m f s = f x t"
  by (simp add: bindA_def)

lemma on_root_progress:
  assumes "shows_fs env s V"
    "\<And>dn cache t. wf_fs env (dag t) (Directory dn cache) \<Longrightarrow> addressed env (dag t) \<Longrightarrow> view (dag t) (Directory dn cache) = V
      \<Longrightarrow> \<exists>x r' t'. f (Directory dn cache) t = (Inr x, r', t')"
  shows "\<exists>x s'. on_root env a f s = (Inr x, s')"
proof -
  obtain r t where m: "mfsRoot env a s = (Inr r, t)" by (cases "mroot s") (auto simp: mfsRoot_def Let_def)
  note rt = mfsRoot_ok [OF m assms(1)]
  obtain dn cache where r: "r = Directory dn cache" using rt(6) by blast
  have "addressed env (dag t)" using rt(1) by (simp add: shows_fs_def)
  then obtain x r' t' where "f r t = (Inr x, r', t')" using assms(2) [of t dn cache] rt(3,7,8) r by auto
  then show ?thesis using m by (simp add: on_root_def bindA_def)
qed

lemma unit_op_None: "f r s = (None, r', s') \<Longrightarrow> unit_op f r s = (Inr (), r', s')"
  by (simp add: unit_op_def)

lemma root_Flush_None: "takes_all env \<Longrightarrow> \<exists>f' s'. root_Flush env f s = (None, f', s')"
proof -
  assume t: "takes_all env"
  obtain nd f' s1 where g: "GetNode env f s = (Inr nd, f', s1)" using GetNode_Inr(1) [OF t] by metis
  obtain s2 where "dag_Add env nd s1 = (None, s2)" using dag_Add_None [OF t] by blast
  then show ?thesis using g by (simp add: root_Flush_def)
qed

lemma PinRoot_progress:
  assumes "no_failures env a" "\<not> Defined (tempRoot s)"
  shows "\<exists>s'. PinRoot env a nd s = (Inr (), s')"
proof -
  obtain t where t: "dag_Add env nd s = (None, t)" using assms(1) dag_Add_None [of env nd s] by (auto simp: no_failures_def)
  have "tempRoot t = tempRoot s" using t by (auto simp: dag_Add_def split: option.splits)
  then show ?thesis using t assms by (auto simp: PinRoot_def Let_def bindA_def okA_def tick_def check_def no_failures_def)
qed

lemma pause_progress:
  assumes "ready env a s V" "good_env env a" "no_failures env a"
  shows "\<exists>t. maybePauseForGC env a s = (Inr (), t)"
proof (cases "unlocker s \<and> GCRequested env (ticks s)")
  case True
  let ?s = "s\<lparr>ticks := Suc (ticks s)\<rparr>"
  note sound = good_envD(1) [OF assms(2)]
  have sh: "shows_fs env ?s V" by (rule shows_fs_same [of env s]) (use assms(1) in \<open>simp_all add: ready_def\<close>)
  have ta: "takes_all env" using assms(3) by (simp add: no_failures_def)
  obtain root t where g: "on_root env a (GetNode env) ?s = (Inr root, t)"
    using on_root_progress [OF sh, of "GetNode env"] GetNode_Inr(1) [OF ta] by metis
  obtain r where r: "mroot t = Some r" "shows_fs env t V" "same_pins ?s t" "saved env V (dag t) r" "node_of r = root"
    by (rule root_GetNode [OF g sh sound])
  have "\<exists>rn u. (if length (Links root) = 1 then dag_Get env (snd (hd (Links root))) else okA root) t = (Inr rn, u) \<and> tempRoot u = tempRoot t"
  proof (cases "length (Links root) = 1")
    case True
    then have "snd (hd (Links root)) \<in> snd ` set (Links root)" by (cases "Links root") auto
    moreover have "fs_tree (dag t) root" using r(4,5) by (simp add: saved_def)
    ultimately have "closed (dag t) (snd (hd (Links root)))" using fs_tree_children by blast
    then obtain m where "dag t (snd (hd (Links root))) = Some m" using reaches_refl by (fastforce simp: closed_def)
    then show ?thesis using True sound by (simp add: dag_Get_def Let_def sound_env_def)
  qed simp
  then obtain rn u where u: "(if length (Links root) = 1 then dag_Get env (snd (hd (Links root))) else okA root) t = (Inr rn, u)" "tempRoot u = tempRoot t"
    by blast
  have "\<not> Defined (tempRoot u)" using u(2) r(3) assms(1) by (simp add: same_pins_def ready_def)
  then obtain v where "PinRoot env a rn u = (Inr (), v)" using PinRoot_progress [OF assms(3)] by blast
  then have "bindA (curRootNode env a) (\<lambda>rn. bindA (PinRoot env a rn) (\<lambda>_ s.
           (Inr (), PinLock (collector env (ticks s') (Unlock s))))) ?s
        = (Inr (), PinLock (collector env (ticks s') (Unlock v)))" for s' :: adder_state
    using g u(1) by (simp add: curRootNode_def bindA_def)
  then show ?thesis using True by (simp add: maybePauseForGC_def bindA_def tick_def)
qed (auto simp: maybePauseForGC_def bindA_def tick_def)

lemma free_progress:
  assumes "shows_fs env s V" "no_failures env a"
  shows "\<exists>t. free_memory env a s = (Inr (), t)"
proof (cases "liveNodes s \<ge> liveCacheSize")
  case True
  have ta: "takes_all env" using assms(2) by (simp add: no_failures_def)
  have "\<exists>x t. on_root env a (unit_op (FlushMemFree env)) s = (Inr x, t)"
  proof (rule on_root_progress [OF assms(1)])
    fix dn cache and t :: adder_state
    obtain f' t' where "root_Flush env (Directory dn cache) t = (None, f', t')" using root_Flush_None [OF ta] by metis
    then show "\<exists>x r' t'. unit_op (FlushMemFree env) (Directory dn cache) t = (Inr x, r', t')" by (simp add: unit_op_def FlushMemFree_def)
  qed
  then show ?thesis using True by (auto simp: free_memory_def bindA_def)
qed (simp add: free_memory_def bindA_def)

text \<open>What comes before an entry is added.\<close>

lemma enter_progress:
  assumes "ready env a s V" "good_env env a" "no_failures env a"
  obtains t where "bindA (maybePauseForGC env a) (\<lambda>_. bindA (free_memory env a) (\<lambda>_. m)) s = m t" "ready env a t V"
proof -
  obtain t1 where p: "maybePauseForGC env a s = (Inr (), t1)" using pause_progress [OF assms] by blast
  have pin: "unlocker s \<Longrightarrow> a_Pin a" using assms(1) by (simp add: ready_def)
  have s1: "shows_fs env t1 V \<and> kept s t1" by (rule maybePauseForGC_ok [OF p _ assms(2) pin]) (use assms(1) in \<open>simp_all add: ready_def\<close>)
  obtain t2 where f: "free_memory env a t1 = (Inr (), t2)" using free_progress assms(3) s1 by blast
  note fo = free_memory_ok [OF f conjunct1 [OF s1] good_envD(1) [OF assms(2)]]
  have "ready env a t2 V" using ready_kept [OF assms(1) fo(1)] kept_trans [OF conjunct2 [OF s1] same_pins_kept [OF fo(2)]] by blast
  then show ?thesis using that [of t2] p f by (simp add: bindA_def)
qed

lemma Mkdir_progress:
  assumes "shows_fs env s V" "sound_env env" "takes_all env" "plain P" "P \<noteq> []" "\<And>Q. prefix Q P \<Longrightarrow> V Q \<in> {None, Some EDir}" "Mkparents opts"
  shows "\<exists>t. on_root env a (unit_op (Mkdir env opts (path_of P))) s = (Inr (), t)"
proof -
  have "\<exists>x t. on_root env a (unit_op (Mkdir env opts (path_of P))) s = (Inr x, t)"
  proof (rule on_root_progress [OF assms(1)])
    fix dn cache and t :: adder_state
    assume w: "wf_fs env (dag t) (Directory dn cache)" "addressed env (dag t)" "view (dag t) (Directory dn cache) = V"
    have "\<exists>f' t'. mkdir_loop env opts P (Directory dn cache) t = (None, f', t')"
      by (rule mkdir_loop_progress [OF w(1,2) assms(2,3,7)]) (use w(3) assms(6) in auto)
    then show "\<exists>x r' t'. unit_op (Mkdir env opts (path_of P)) (Directory dn cache) t = (Inr x, r', t')"
      using mkdir_parts_path_of [OF assms(4,5)] path_of_nonempty [OF assms(4,5)] assms(5) by (auto simp: unit_op_def Mkdir_def)
  qed
  then show ?thesis by auto
qed

lemma PutNode_progress:
  assumes "shows_fs env s V" "sound_env env" "takes_all env" "plain (P @ [n])" "\<And>Q. prefix Q P \<Longrightarrow> V Q = Some EDir" "V (P @ [n]) = None"
  shows "\<exists>t. on_root env a (unit_op (PutNode env (path_of (P @ [n])) nd)) s = (Inr (), t)"
proof -
  have "\<exists>x t. on_root env a (unit_op (PutNode env (path_of (P @ [n])) nd)) s = (Inr x, t)"
  proof (rule on_root_progress [OF assms(1)])
    fix dn cache and t :: adder_state
    assume w: "wf_fs env (dag t) (Directory dn cache)" "addressed env (dag t)" "view (dag t) (Directory dn cache) = V"
    have "\<exists>f' t'. put_loop env P n nd (Directory dn cache) t = (None, f', t')"
      by (rule put_loop_progress [OF w(1,2) assms(2,3)]) (use w(3) assms(5,6) in auto)
    moreover have "n \<noteq> []" "plain P" using assms(4) by (auto simp: plain_name_def)
    ultimately show "\<exists>x r' t'. unit_op (PutNode env (path_of (P @ [n])) nd) (Directory dn cache) t = (Inr x, r', t')"
      using Split_path_of [OF assms(4)] lookup_parts_path_of [of P] by (auto simp: unit_op_def PutNode_def)
  qed
  then show ?thesis by auto
qed

lemma output_progress: "no_failures env a \<Longrightarrow> \<exists>t. outputDagnode env a name nd s = (Inr (), t)"
proof -
  assume "no_failures env a"
  then obtain n where "node_Size env nd = Inr n" unfolding no_failures_def by blast
  then show ?thesis by (simp add: outputDagnode_def getOutput_def)
qed

text \<open>A place where a new entry can be put.\<close>

definition free_at :: "(string list \<Rightarrow> entry option) \<Rightarrow> string list \<Rightarrow> string \<Rightarrow> bool" where
  "free_at V P n = ((\<forall>Q. prefix Q P \<longrightarrow> V Q = Some EDir) \<and> (\<forall>qs. V (P @ n # qs) = None))"

lemma addNode_progress:
  assumes "shows_fs env s V" "good_env env a" "no_failures env a" "plain (P @ [n])" "free_at V P n"
    "(if path = [] then Cid_String env (node_Cid env (unwrap b)) else path) = path_of (P @ [n])"
  shows "\<exists>t. addNode env a b path s = (Inr (), t)"
proof -
  let ?opts = "\<lparr>Mkparents = True, opt_Flush = False, opt_CidBuilder = a_CidBuilder a\<rparr>"
  note sound = good_envD(1) [OF assms(2)]
  have ta: "takes_all env" using assms(3) by (simp add: no_failures_def)
  have fr: "\<And>Q. prefix Q P \<Longrightarrow> V Q = Some EDir" "V (P @ [n]) = None" using assms(5) by (simp_all add: free_at_def)
  have nd: "(case b of Plain nd \<Rightarrow> nd | FilestoreNode nd \<Rightarrow> nd) = unwrap b" by (cases b) auto
  obtain r s1 where m: "mfsRoot env a s = (Inr r, s1)" by (cases "mroot s") (auto simp: mfsRoot_def Let_def)
  have sh1: "shows_fs env s1 V" by (rule mfsRoot_ok(1) [OF m assms(1)])
  have "\<exists>s2. (if path_Dir (path_of (P @ [n])) \<noteq> ''.'' then on_root env a (unit_op (Mkdir env ?opts (path_Dir (path_of (P @ [n]))))) else okA ()) s1 = (Inr (), s2)
    \<and> shows_fs env s2 V"
  proof (cases "path_Dir (path_of (P @ [n])) = ''.''")
    case False
    then have P: "P \<noteq> []" "plain P" "path_Dir (path_of (P @ [n])) = path_of P" using Dir_path_of [OF assms(4)] assms(4) by (auto split: if_splits)
    obtain s2 where s2: "on_root env a (unit_op (Mkdir env ?opts (path_of P))) s1 = (Inr (), s2)"
      using Mkdir_progress [OF sh1 sound ta P(2,1), of ?opts] fr(1) by auto
    have "with_dirs P V = V" by (rule ext) (auto simp: with_dirs_def fr(1))
    then show ?thesis using root_Mkdir(1) [OF s2 sh1 sound P(2,1)] s2 P(3) False by auto
  qed (use sh1 in auto)
  then obtain s2 where s2: "(if path_Dir (path_of (P @ [n])) \<noteq> ''.'' then on_root env a (unit_op (Mkdir env ?opts (path_Dir (path_of (P @ [n]))))) else okA ()) s1 = (Inr (), s2)"
    "shows_fs env s2 V" by blast
  obtain s3 where s3: "on_root env a (unit_op (PutNode env (path_of (P @ [n])) (unwrap b))) s2 = (Inr (), s3)"
    using PutNode_progress [OF s2(2) sound ta assms(4) fr] by blast
  obtain t where "(if \<not> a_Silent a then outputDagnode env a (path_of (P @ [n])) (unwrap b) else okA ()) s3 = (Inr (), t)"
    using output_progress [OF assms(3), of "path_of (P @ [n])" "unwrap b" s3] by (cases "a_Silent a") (auto simp: okA_def)
  then show ?thesis using m s2(1) s3 unfolding addNode_def nd Let_def assms(6) by (simp add: bindA_Inr_I)
qed

lemma commit_progress: "takes_all env \<Longrightarrow> \<exists>t. commit env nodes s = (Inr (), t)"
proof (induction nodes arbitrary: s)
  case (Cons nd nodes)
  obtain u where "dag_Add env nd s = (None, u)" using dag_Add_None [OF Cons.prems] by blast
  then show ?case using Cons.IH [OF Cons.prems, of u] by simp
qed simp

lemma leaf_progress:
  assumes "shows_fs env s V" "good_env env a" "no_failures env a" "plain (P @ [n])" "free_at V P n"
    "\<And>nd. leaf_node env a f = Some nd \<Longrightarrow> (if path = [] then Cid_String env (node_Cid env nd) else path) = path_of (P @ [n])"
  shows "f = FFile data \<Longrightarrow> \<exists>t. addFile env a path data s = (Inr (), t)"
    "f = FSymlink target \<Longrightarrow> \<exists>t. addSymlink env a path target s = (Inr (), t)"
proof -
  have ta: "takes_all env" using assms(3) by (simp add: no_failures_def)
  note sound = good_envD(1) [OF assms(2)]
  show "\<exists>t. addFile env a path data s = (Inr (), t)" if f: "f = FFile data"
  proof -
    define s1 where "s1 = (if a_Progress a then s\<lparr>out := out s @ progress_reads path 0 0 (read_sizes env data)\<rparr> else s)"
    have sh1: "shows_fs env s1 V" by (rule shows_fs_same [OF assms(1)]) (simp_all add: s1_def)
    obtain b nodes where l: "Layout env a data = Inr (b, nodes)" using assms(3) by (force simp: no_failures_def)
    obtain s2 where c: "commit env nodes s1 = (Inr (), s2)" using commit_progress [OF ta] by blast
    have d: "add_data env a data s1 = (Inr b, s2)"
      using l c assms(3) by (simp add: add_data_def Layout_def bindA_def check_def okA_def no_failures_def)
    have "leaf_node env a f = Some (unwrap b)" using l f by (simp add: leaf_node_def)
    then have "\<exists>t. addNode env a b path s2 = (Inr (), t)"
      using addNode_progress [OF add_data_ok(1) [OF d sh1 assms(2)] assms(2-5)] assms(6) by blast
    then show ?thesis using d by (auto simp: addFile_def bindA_def s1_def)
  qed
  show "\<exists>t. addSymlink env a path target s = (Inr (), t)" if f: "f = FSymlink target"
  proof -
    obtain sdata where sd: "SymlinkData env target = Inr sdata" using assms(3) by (force simp: no_failures_def)
    define nd where "nd = ProtoNode TSymlink sdata [] (builder env a)"
    obtain s1 where d: "dag_Add env nd s = (None, s1)" using dag_Add_None [OF ta] by blast
    have "addressed env (dag s)" using assms(1) by (simp add: shows_fs_def)
    then have sh1: "shows_fs env s1 V" using shows_fs_grown(1) [OF assms(1)] dag_Add_grown(1) [OF d _ sound] by blast
    have "leaf_node env a f = Some (unwrap (Plain nd))" using sd f by (simp add: leaf_node_def nd_def)
    then have "\<exists>t. addNode env a (Plain nd) path s1 = (Inr (), t)"
      using addNode_progress [OF sh1 assms(2-5), of path "Plain nd"] assms(6) by blast
    then show ?thesis using sd d by (auto simp: addSymlink_def bindA_def nd_def)
  qed
qed

lemma free_at_strict: "free_at V P n \<Longrightarrow> strict_prefix Q (P @ [n]) \<Longrightarrow> V Q = Some EDir"
  using prefix_strict_snoc [of Q P n] by (simp add: free_at_def)

lemma add_progress:
  "ready env a s V \<Longrightarrow> good_env env a \<Longrightarrow> no_failures env a \<Longrightarrow> good_input f \<Longrightarrow> complete_input f \<Longrightarrow> path = path_of (P @ [n])
    \<Longrightarrow> plain (P @ [n]) \<Longrightarrow> free_at V P n \<Longrightarrow> \<exists>s'. addFileNode env a path f toplevel s = (Inr (), s')"
  "ready env a s V \<Longrightarrow> good_env env a \<Longrightarrow> no_failures env a \<Longrightarrow> good_entries es \<Longrightarrow> distinct (map fst es) \<Longrightarrow> complete_entries es
    \<Longrightarrow> path = path_of P \<Longrightarrow> plain P \<Longrightarrow> (\<And>m. m \<in> fst ` set es \<Longrightarrow> free_at V P m) \<Longrightarrow> \<exists>s'. add_entries env a path es s = (Inr (), s')"
proof (induction env a path f toplevel s and env a path es s arbitrary: V P n and V P rule: addFileNode_add_entries.induct)
  case (1 env a path es it_err toplevel s)
  let ?opts = "\<lparr>Mkparents = True, opt_Flush = False, opt_CidBuilder = a_CidBuilder a\<rparr>"
  note sound = good_envD(1) [OF 1(3)]
  have ta: "takes_all env" using 1(4) by (simp add: no_failures_def)
  let ?m = "bindA (enter_dir env a path toplevel) (\<lambda>_. bindA (add_entries env a path es) (\<lambda>_. check it_err))"
  obtain t where t: "bindA (maybePauseForGC env a) (\<lambda>_. bindA (free_memory env a) (\<lambda>_. ?m)) s = ?m t" "ready env a t V"
    by (rule enter_progress [OF 1(2-4)])
  have sh: "shows_fs env t V" using t(2) by (simp add: ready_def)
  have free: "V Q \<in> {None, Some EDir}" if "prefix Q (P @ [n])" for Q
    using that 1(9) by (auto simp: free_at_def)
  obtain u where u: "on_root env a (unit_op (Mkdir env ?opts (path_of (P @ [n])))) t = (Inr (), u)"
    using Mkdir_progress [OF sh sound ta 1(8), of ?opts] free by auto
  note mk = root_Mkdir [OF u sh sound 1(8)]
  have ru: "ready env a u (with_dirs (P @ [n]) V)" using ready_kept [OF t(2) mk(1)] same_pins_kept [OF mk(2)] by simp
  have fr: "free_at (with_dirs (P @ [n]) V) (P @ [n]) m" for m
  proof -
    have "with_dirs (P @ [n]) V Q = Some EDir" if "prefix Q (P @ [n])" for Q using free [OF that] that by (auto simp: with_dirs_def)
    moreover have "\<not> prefix ((P @ [n]) @ m # qs) (P @ [n])" for qs by (auto simp: prefix_def)
    ultimately show ?thesis using 1(9) by (simp add: free_at_def with_dirs_def)
  qed
  have "\<exists>s'. add_entries env a path es u = (Inr (), s')"
    by (rule 1(1) [OF ru 1(3,4)]) (use 1(5-8) fr in auto)
  moreover have "enter_dir env a path toplevel t = (Inr (), u)"
    using u 1(7) path_of_nonempty [OF 1(8)] by (simp add: enter_dir_def)
  ultimately show ?case using t(1) 1(6) by (auto simp: bindA_def check_def)
next
  case (2 env a path target toplevel s)
  obtain t where t: "bindA (maybePauseForGC env a) (\<lambda>_. bindA (free_memory env a) (\<lambda>_. addSymlink env a path target)) s = addSymlink env a path target t" "ready env a t V"
    by (rule enter_progress [OF 2(1-3)])
  then show ?case using leaf_progress(2) [of env t V a P n "FSymlink target" path target] 2(2,3,6-8) path_of_nonempty [OF 2(7)]
    by (auto simp: ready_def)
next
  case (3 env a path data toplevel s)
  obtain t where t: "bindA (maybePauseForGC env a) (\<lambda>_. bindA (free_memory env a) (\<lambda>_. addFile env a path data)) s = addFile env a path data t" "ready env a t V"
    by (rule enter_progress [OF 3(1-3)])
  then show ?case using leaf_progress(1) [of env t V a P n "FFile data" path data] 3(2,3,6-8) path_of_nonempty [OF 3(7)]
    by (auto simp: ready_def)
next
  case (6 env a path name f es s)
  have pl: "plain (P @ [name])" "good_input f" "good_entries es" using 6(6,10) by auto
  have j: "path_Join [path, name] = path_of (P @ [name])" using Join_path_of [OF 6(10)] 6(9) pl(1) by simp
  have fr: "free_at V P name" using 6(11) by simp
  have "\<exists>t. addFileNode env a (path_Join [path, name]) f False s = (Inr (), t)"
    by (rule 6(1) [OF 6(3-5) pl(2) _ j pl(1) fr]) (use 6(8) in simp)
  then obtain t where t: "addFileNode env a (path_Join [path, name]) f False s = (Inr (), t)" by blast
  have sh: "shows_fs env s V" "unlocker s \<Longrightarrow> a_Pin a" using 6(3) by (simp_all add: ready_def)
  have ok: "shows_fs env t (with_node (P @ [name]) (file_at env a f) V) \<and> kept s t"
    by (rule add_ok(1) [OF t sh(1) 6(4) sh(2) pl(2) j pl(1)]) (use fr free_at_strict [OF fr] in \<open>auto simp: free_at_def\<close>)
  have rt: "ready env a t (with_node (P @ [name]) (file_at env a f) V)" using ready_kept [OF 6(3)] ok by blast
  have fr2: "free_at (with_node (P @ [name]) (file_at env a f) V) P m" if m: "m \<in> fst ` set es" for m
  proof -
    have ne: "m \<noteq> name" "free_at V P m" using m 6(7) 6(11) [of m] by auto
    have "with_node (P @ [name]) (file_at env a f) V Q = V Q" if "prefix Q P" for Q
      using with_node_above [of Q "P @ [name]"] prefix_strict_snoc [of Q P name] that by simp
    then show ?thesis using ne with_node_beside [OF ne(1)] by (simp add: free_at_def)
  qed
  have "\<exists>s'. add_entries env a path es t = (Inr (), s')"
    by (rule 6(2) [OF t [symmetric] refl rt 6(4,5) pl(3) _ _ 6(9,10)]) (use 6(7,8) fr2 in auto)
  then show ?case using t by auto
qed auto

lemma map_of_depth: "map_of es n = Some f \<Longrightarrow> depth f \<le> depth_entries es"
  by (induction es) (auto split: if_splits)

lemma file_at_deep: "depth f \<le> length ps \<Longrightarrow> file_at env a f ps = None"
proof (induction env a f ps rule: file_at.induct)
  case (2 env a es e p ps)
  have "depth g \<le> length ps" if "map_of es p = Some g" for g using map_of_depth [OF that] 2(2) by simp
  then show ?case using 2(1) by (cases "map_of es p") auto
qed (auto simp: file_at.simps split: sum.splits)

text \<open>The output of a saved directory ends, given fuel for its depth.\<close>

lemma output_children_progress:
  assumes sub: "\<And>p g t W. saved env W (dag t) g \<Longrightarrow> addressed env (dag t) \<Longrightarrow> (\<And>ps. n \<le> length ps \<Longrightarrow> W ps = None)
      \<Longrightarrow> \<exists>s'. outputDirs env a n p g t = (Inr (), s')"
    and env: "sound_env env"
  shows "saved env V (dag s) (Directory dn cache) \<Longrightarrow> addressed env (dag s) \<Longrightarrow> (\<And>ps. Suc n \<le> length ps \<Longrightarrow> V ps = None)
    \<Longrightarrow> set names \<subseteq> fst ` set (Links dn) \<Longrightarrow> \<exists>c' s'. output_children env a n p names dn cache s = (Inr c', s')"
proof (induction names arbitrary: cache s)
  case (Cons name names)
  obtain r c1 s1 where c: "childUnsync env name dn cache s = (r, c1, s1)" by (metis prod_cases3)
  have "name \<in> fst ` set (Links dn)" using Cons.prems(4) by simp
  then obtain g where g: "r = Inr g" "dag s1 = dag s" "saved env V (dag s) (Directory dn c1)" "saved env (\<lambda>qs. V (name # qs)) (dag s) g"
    using childUnsync_saved [OF c Cons.prems(1,2) env] by metis
  obtain s2 where o: "outputDirs env a n (path_Join [p, name]) g s1 = (Inr (), s2)"
    using sub [of "\<lambda>qs. V (name # qs)" s1 g] g(2,4) Cons.prems(2,3) by auto
  have s2: "dag s1 \<subseteq>\<^sub>m dag s2" "addressed env (dag s2)"
    using outputDirs_same(1) [OF o _ env] g(2) Cons.prems(2) by (auto simp: same_pins_def)
  have "saved env V (dag s2) (Directory dn (filter (\<lambda>e. fst e \<noteq> name) c1))"
    using saved_drop [OF saved_le [OF g(3)]] s2 g(2) env by simp
  then have "\<exists>c' s'. output_children env a n p names dn (filter (\<lambda>e. fst e \<noteq> name) c1) s2 = (Inr c', s')"
    using Cons.IH s2(2) Cons.prems(3,4) by auto
  then show ?case using c g(1) o by auto
qed simp

lemma outputDirs_progress:
  assumes "sound_env env" "no_failures env a"
  shows "saved env V (dag s) f \<Longrightarrow> addressed env (dag s) \<Longrightarrow> (\<And>ps. n \<le> length ps \<Longrightarrow> V ps = None)
    \<Longrightarrow> \<exists>s'. outputDirs env a n p f s = (Inr (), s')"
proof (induction n arbitrary: p f s V)
  case 0
  have "view (dag s) f [] \<noteq> None" by (cases f) simp_all
  then show ?case using 0(1) 0(3) [of "[]"] by (simp add: saved_def)
next
  case (Suc n)
  show ?case
  proof (cases f)
    case (Directory dn cache)
    obtain c' s1 where c: "output_children env a n p (ListNames f) dn cache s = (Inr c', s1)"
      using output_children_progress [of env n a V s dn cache "ListNames f" p] Suc assms(1) Directory by (auto simp: ListNames_def)
    obtain nd f' s2 where g: "GetNode env (Directory dn c') s1 = (Inr nd, f', s2)"
      using GetNode_Inr(1) [of env "Directory dn c'" s1] assms(2) by (auto simp: no_failures_def simp del: GetNode.simps)
    obtain s3 where "outputDagnode env a p nd s2 = (Inr (), s3)" using output_progress [OF assms(2)] by blast
    then show ?thesis using c g Directory by (simp del: GetNode.simps)
  qed simp
qed

lemma leaf_node_total:
  assumes "no_failures env a"
  shows "\<exists>nd. leaf_node env a (FFile data) = Some nd" "\<exists>nd. leaf_node env a (FSymlink target) = Some nd"
proof -
  obtain b nodes where "Layout env a data = Inr (b, nodes)" using assms unfolding no_failures_def by (metis surj_pair)
  then show "\<exists>nd. leaf_node env a (FFile data) = Some nd" by (simp add: leaf_node_def)
  obtain sd where "SymlinkData env target = Inr sd" using assms unfolding no_failures_def by blast
  then show "\<exists>nd. leaf_node env a (FSymlink target) = Some nd" by (simp add: leaf_node_def)
qed

lemma add_top_progress:
  assumes "ready env a s empty_view" "good_env env a" "no_failures env a" "good_input f" "complete_input f"
  shows "\<exists>t. addFileNode env a [] f True s = (Inr (), t)"
proof (cases f)
  case (FDir es e)
  let ?m = "bindA (enter_dir env a [] True) (\<lambda>_. bindA (add_entries env a [] es) (\<lambda>_. check e))"
  obtain t where t: "bindA (maybePauseForGC env a) (\<lambda>_. bindA (free_memory env a) (\<lambda>_. ?m)) s = ?m t" "ready env a t empty_view"
    by (rule enter_progress [OF assms(1-3)])
  have "\<exists>u. add_entries env a [] es t = (Inr (), u)"
    by (rule add_progress(2) [OF t(2) assms(2,3), where P = "[]"])
      (use assms(4,5) FDir in \<open>auto simp: plain_def free_at_def empty_view_def\<close>)
  then show ?thesis using t(1) FDir assms(5) by (auto simp: bindA_def enter_dir_def okA_def check_def)
next
  case (FFile data)
  obtain t where t: "bindA (maybePauseForGC env a) (\<lambda>_. bindA (free_memory env a) (\<lambda>_. addFile env a [] data)) s = addFile env a [] data t" "ready env a t empty_view"
    by (rule enter_progress [OF assms(1-3)])
  obtain nd where nd: "leaf_node env a f = Some nd" using leaf_node_total(1) [OF assms(3)] FFile by blast
  have "\<exists>u. addFile env a [] data t = (Inr (), u)"
    by (rule leaf_progress(1) [where V = empty_view and P = "[]" and n = "Cid_String env (node_Cid env nd)" and f = f])
      (use t(2) assms(2,3) good_envD(4) [OF assms(2)] FFile nd in \<open>auto simp: ready_def plain_def free_at_def empty_view_def path_of_def\<close>)
  then show ?thesis using t(1) FFile by auto
next
  case (FSymlink target)
  obtain t where t: "bindA (maybePauseForGC env a) (\<lambda>_. bindA (free_memory env a) (\<lambda>_. addSymlink env a [] target)) s = addSymlink env a [] target t" "ready env a t empty_view"
    by (rule enter_progress [OF assms(1-3)])
  obtain nd where nd: "leaf_node env a f = Some nd" using leaf_node_total(2) [OF assms(3)] FSymlink by blast
  have "\<exists>u. addSymlink env a [] target t = (Inr (), u)"
    by (rule leaf_progress(2) [where V = empty_view and P = "[]" and n = "Cid_String env (node_Cid env nd)" and f = f])
      (use t(2) assms(2,3) good_envD(4) [OF assms(2)] FSymlink nd in \<open>auto simp: ready_def plain_def free_at_def empty_view_def path_of_def\<close>)
  then show ?thesis using t(1) FSymlink by auto
qed (use assms(5) in simp)

lemma result_name_progress:
  assumes "root_is env s dn cache V" "sound_env env" "(\<exists>es e. input = FDir es e) \<or> (\<exists>m. V [m] \<noteq> None)"
  shows "\<exists>name t. result_name env a input s = (Inr name, t)"
proof (cases "\<exists>es e. input = FDir es e")
  case False
  have wf: "wf_fs env (dag s) (Directory dn cache)" "addressed env (dag s)" using assms(1) by (simp_all add: root_is_def)
  obtain m where m: "V [m] \<noteq> None" using assms(3) False by blast
  have "Links dn \<noteq> []"
  proof
    assume "Links dn = []"
    then have "view (dag s) (Directory dn cache) [m] = None" using wf(1) view_absent [of m dn cache] by (simp add: map_of_eq_None_iff)
    then show False using m assms(1) by (simp add: root_is_def)
  qed
  then obtain n names where names: "ListNames (Directory dn cache) = n # names" "n \<in> fst ` set (Links dn)"
    by (cases "Links dn") (auto simp: ListNames_def)
  obtain r c' t where c: "childUnsync env n dn cache s = (r, c', t)" by (metis prod_cases3)
  obtain g where "r = Inr g" using childUnsync_ok(6) [OF c wf assms(2)] names(2) by (cases r) auto
  then show ?thesis using c names(1) False by (auto simp: result_name_def on_root_is [OF assms(1)] split: fnode.splits)
qed (auto simp: result_name_def okA_def)

lemma add_root_progress:
  assumes "ready env a s empty_view" "good_env env a" "no_failures env a" "good_input f" "complete_input f"
  shows "\<exists>x t. add_root env a f s = (Inr x, t)"
proof -
  note sound = good_envD(1) [OF assms(2)]
  have ta: "takes_all env" using assms(3) by (simp add: no_failures_def)
  have sh: "shows_fs env s empty_view" "unlocker s \<Longrightarrow> a_Pin a" using assms(1) by (auto simp: ready_def)
  obtain t1 where s1: "addFileNode env a [] f True s = (Inr (), t1)" using add_top_progress [OF assms] by blast
  obtain V where V: "shows_fs env t1 V" "(\<exists>es e. f = FDir es e) \<or> (\<exists>m. V [m] \<noteq> None)"
  proof (cases "\<exists>es e. f = FDir es e")
    case True
    then show ?thesis using that add_top_dir [OF _ sh(1) assms(2) sh(2)] s1 assms(4) by fastforce
  next
    case False
    then obtain nd where nd: "leaf_node env a f = Some nd"
      "shows_fs env t1 (with_node [Cid_String env (node_Cid env nd)] (file_at env a f) empty_view)"
      using add_top_leaf [OF s1 sh(1) assms(2) sh(2)] by auto
    show ?thesis by (rule that [OF nd(2)]) (auto simp: with_node_Cons file_at_leaf [OF nd(1)])
  qed
  have "\<exists>x u. on_root env a (unit_op (root_Flush env)) t1 = (Inr x, u)"
  proof (rule on_root_progress [OF V(1)])
    fix dn cache and t :: adder_state
    obtain f' t' where "root_Flush env (Directory dn cache) t = (None, f', t')" using root_Flush_None [OF ta] by metis
    then show "\<exists>x r' t'. unit_op (root_Flush env) (Directory dn cache) t = (Inr x, r', t')" by (simp add: unit_op_def)
  qed
  then obtain t2 where s2: "on_root env a (unit_op (root_Flush env)) t1 = (Inr (), t2)" by auto
  obtain dn2 c2 where r2: "root_is env t2 dn2 c2 V" by (rule root_Flush_shows [OF s2 V(1) sound])
  obtain name t3 where s3: "result_name env a f t2 = (Inr name, t3)" using result_name_progress [OF r2 sound V(2)] by blast
  obtain c3 where r3: "root_is env t3 dn2 c3 V" by (rule result_name_ok [OF s3 r2 sound])
  obtain rn t4 where s4: "on_root env a (GetNode env) t3 = (Inr rn, t4)"
    using on_root_progress [OF root_is_shows [OF r3], of "GetNode env"] GetNode_Inr(1) [OF ta] by metis
  obtain r t5 where s5: "mfsRoot env a t4 = (Inr r, t5)" by (cases "mroot t4") (auto simp: mfsRoot_def Let_def)
  obtain nd f' t6 where "GetNode env (the_object name r) t5 = (Inr nd, f', t6)" using GetNode_Inr(1) [OF ta] by metis
  then show ?thesis using s1 s2 s3 s4 s5 by (simp add: add_root_def bindA_def object_node_def okA_def del: GetNode.simps)
qed

lemma add_all_progress:
  assumes "ready env a s empty_view" "good_env env a" "no_failures env a" "good_input f" "complete_input f" "depth f \<le> fuel"
  shows "\<exists>nd t. add_all env a fuel f s = (Inr nd, t)"
proof -
  note sound = good_envD(1) [OF assms(2)]
  obtain name nd root t1 where r: "add_root env a f s = (Inr (name, nd, root), t1)" using add_root_progress [OF assms(1-5)] by auto
  have sh: "shows_fs env s empty_view" "unlocker s \<Longrightarrow> a_Pin a" using assms(1) by (auto simp: ready_def)
  note ok = add_root_ok [OF r sh(1) assms(2) sh(2) assms(4)]
  obtain t2 where o: "outputDirs env a fuel (case name of None \<Rightarrow> [] | Some n \<Rightarrow> n) root t1 = (Inr (), t2)"
    using outputDirs_progress [OF sound assms(3) ok(1,3)] file_at_deep assms(6) by (meson le_trans)
  have "\<not> Defined (tempRoot t2)"
    using outputDirs_same(1) [OF o ok(3) sound] ok(4) assms(1) by (auto simp: same_pins_def kept_def ready_def)
  then obtain t3 where "PinRoot env a nd t2 = (Inr (), t3)" using PinRoot_progress [OF assms(3)] by blast
  then show ?thesis using r o assms(3) by (auto simp: add_all_def bindA_def check_def okA_def no_failures_def)
qed

section \<open>The lock\<close>

text \<open>The parts of an adder never change whether it has an unlocker, nor the number of locks it holds.\<close>

definition keeps_lock :: "'a add_res \<Rightarrow> bool" where
  "keeps_lock m = (\<forall>s r s'. m s = (r, s') \<longrightarrow> unlocker s' = unlocker s \<and> pin_locks s' = pin_locks s)"

lemma keeps_lockI: "(\<And>s r s'. m s = (r, s') \<Longrightarrow> unlocker s' = unlocker s \<and> pin_locks s' = pin_locks s) \<Longrightarrow> keeps_lock m"
  by (simp add: keeps_lock_def)

lemma keeps_lock_bind:
  assumes "keeps_lock m" "\<And>x. keeps_lock (f x)"
  shows "keeps_lock (bindA m f)"
  unfolding keeps_lock_def bindA_def
proof (intro allI impI)
  fix s r s'
  assume run: "(case m s of (Inl e, s') \<Rightarrow> (Inl e, s') | (Inr x, s') \<Rightarrow> f x s') = (r, s')"
  obtain x t where m: "m s = (x, t)" by fastforce
  have 1: "unlocker t = unlocker s \<and> pin_locks t = pin_locks s" using assms(1) m by (auto simp: keeps_lock_def)
  show "unlocker s' = unlocker s \<and> pin_locks s' = pin_locks s"
  proof (cases x)
    case (Inr y)
    then have "f y t = (r, s')" using run m by simp
    then have "unlocker s' = unlocker t \<and> pin_locks s' = pin_locks t" using assms(2) [of y] by (auto simp: keeps_lock_def)
    then show ?thesis using 1 by simp
  qed (use run m 1 in auto)
qed

lemma more_lock:
  fixes s s' :: adder_state
  assumes "dag_state.more s' = dag_state.more s"
  shows "unlocker s' = unlocker s \<and> pin_locks s' = pin_locks s"
  using more_fields [OF assms] by simp

lemma dir_Mkdir_more: "dir_Mkdir env n dn cache s = (r, dn', c', s') \<Longrightarrow> dag_state.more s' = dag_state.more s"
proof -
  assume run: "dir_Mkdir env n dn cache s = (r, dn', c', s')"
  obtain x c1 s1 where c: "childUnsync env n dn cache s = (x, c1, s1)" by (metis prod_cases3)
  obtain y s2 where a: "dag_Add env (EmptyDirNode (CidBuilder dn)) s1 = (y, s2)" by fastforce
  have "s' = s1 \<or> s' = s2" using run c a by (auto simp: dir_Mkdir_def Let_def split: sum.splits fsnode.splits option.splits)
  then show ?thesis using childUnsync_more [OF c] dag_Add_more [OF a] by auto
qed

lemma mkdir_loop_more: "mkdir_loop env opts parts f s = (r, f', s') \<Longrightarrow> dag_state.more s' = dag_state.more s"
proof (induction env opts parts f s arbitrary: r f' s' rule: mkdir_loop.induct)
  case (3 env opts d dnode cache s)
  obtain x dn' c' s1 where m: "dir_Mkdir env d dnode cache s = (x, dn', c', s1)" by (metis prod_cases4)
  then have "s' = s1" using 3 by (auto split: mkdir_result.splits if_splits)
  then show ?case using dir_Mkdir_more [OF m] by simp
next
  case (4 env opts d d' parts dnode cache s)
  obtain x c1 s1 where c: "childUnsync env d dnode cache s = (x, c1, s1)" by (metis prod_cases3)
  note cm = childUnsync_more [OF c]
  show ?case
  proof (cases x)
    case (Inr g)
    obtain y g' s2 where l: "mkdir_loop env opts (d' # parts) g s1 = (y, g', s2)" by (metis prod_cases3)
    then show ?thesis using 4(2) [OF c [symmetric] Inr refl l] 4(3) c Inr cm by simp
  next
    case (Inl e)
    obtain z dn' c' s2 where m: "dir_Mkdir env d dnode c1 s1 = (z, dn', c', s2)" by (metis prod_cases4)
    note mm = dir_Mkdir_more [OF m]
    show ?thesis
    proof (cases "e = ErrNotExist \<and> Mkparents opts \<and> (\<exists>g. z = MkNew g)")
      case True
      then obtain g where g: "z = MkNew g" by blast
      obtain y g' s3 where l: "mkdir_loop env opts (d' # parts) (set_builder (opt_CidBuilder opts) g) s2 = (y, g', s3)" by (metis prod_cases3)
      have "dag_state.more s3 = dag_state.more s2" by (rule 4(1) [OF c [symmetric] Inl refl _ m [symmetric] g refl refl l]) (use True in simp)
      then show ?thesis using 4(3) c Inl True m g l cm mm by simp
    next
      case False
      then have "s' = s1 \<or> s' = s2" using 4(3) c Inl m by (auto split: if_splits mkdir_result.splits)
      then show ?thesis using cm mm by auto
    qed
  qed
qed auto

lemma put_loop_more: "put_loop env parts n nd f s = (r, f', s') \<Longrightarrow> dag_state.more s' = dag_state.more s"
proof (induction env parts n nd f s arbitrary: r f' s' rule: put_loop.induct)
  case (2 env name nd dnode cache s)
  obtain x c1 s1 where c: "childUnsync env name dnode cache s = (x, c1, s1)" by (metis prod_cases3)
  obtain y s2 where a: "dag_Add env nd s1 = (y, s2)" by fastforce
  have "s' = s1 \<or> s' = s2" using 2 c a by (auto simp: dir_AddChild_def split: sum.splits option.splits)
  then show ?case using childUnsync_more [OF c] dag_Add_more [OF a] by auto
next
  case (3 env p parts name nd dnode cache s)
  obtain x c1 s1 where c: "childUnsync env p dnode cache s = (x, c1, s1)" by (metis prod_cases3)
  show ?case
  proof (cases x)
    case (Inr g)
    obtain y g' s2 where l: "put_loop env parts name nd g s1 = (y, g', s2)" by (metis prod_cases3)
    then show ?thesis using 3(1) [OF c [symmetric] Inr refl l] 3(2) c Inr childUnsync_more [OF c] by simp
  qed (use 3(2) c childUnsync_more [OF c] in auto)
qed auto

lemma root_Flush_more: "root_Flush env f s = (r, f', s') \<Longrightarrow> dag_state.more s' = dag_state.more s"
proof -
  assume run: "root_Flush env f s = (r, f', s')"
  obtain x g s1 where g: "GetNode env f s = (x, g, s1)" by (metis prod_cases3)
  have "s' = s1 \<or> (\<exists>nd y. dag_Add env nd s1 = (y, s'))" using run g by (auto simp: root_Flush_def split: sum.splits prod.splits)
  then show ?thesis
  proof
    assume "\<exists>nd y. dag_Add env nd s1 = (y, s')"
    then obtain nd y where "dag_Add env nd s1 = (y, s')" by blast
    from dag_Add_more [OF this] show ?thesis using GetNode_more(1) [OF g] by simp
  qed (use GetNode_more(1) [OF g] in simp)
qed

text \<open>An operation of the file system, as a part of an adder.\<close>

lemma keeps_lock_on_root:
  assumes "\<And>r s x r' s'. f r s = (x, r', s') \<Longrightarrow> dag_state.more s' = dag_state.more s"
  shows "keeps_lock (on_root env a f)"
  unfolding on_root_def
proof (rule keeps_lock_bind)
  show "keeps_lock (mfsRoot env a)" by (rule keeps_lockI) (auto simp: mfsRoot_def Let_def split: option.splits)
  fix r
  show "keeps_lock (\<lambda>s. case f r s of (x, r', s') \<Rightarrow> (x, s'\<lparr>mroot := Some r'\<rparr>))"
  proof (rule keeps_lockI)
    fix s x s'
    assume run: "(case f r s of (x, r', s') \<Rightarrow> (x, s'\<lparr>mroot := Some r'\<rparr>)) = (x, s')"
    obtain y r' t where t: "f r s = (y, r', t)" by (metis prod_cases3)
    then have "s' = t\<lparr>mroot := Some r'\<rparr>" using run by simp
    then show "unlocker s' = unlocker s \<and> pin_locks s' = pin_locks s" using more_lock [OF assms [OF t]] by simp
  qed
qed

lemma unit_op_more:
  assumes "\<And>r s x r' s'. f r s = (x, r', s') \<Longrightarrow> dag_state.more s' = dag_state.more s" "unit_op f r s = (x, r', s')"
  shows "dag_state.more s' = dag_state.more s"
  using assms by (auto simp: unit_op_def split: prod.splits option.splits)

lemma keeps_lock_mkdir: "keeps_lock (on_root env a (unit_op (Mkdir env opts p)))"
proof (intro keeps_lock_on_root, erule unit_op_more [rotated])
  show "dag_state.more s' = dag_state.more s" if "Mkdir env opts p r s = (x, r', s')" for r x r' and s s' :: adder_state
    using that mkdir_loop_more by (auto simp: Mkdir_def split: if_splits)
qed

lemma keeps_lock_put: "keeps_lock (on_root env a (unit_op (PutNode env p nd)))"
proof (intro keeps_lock_on_root, erule unit_op_more [rotated])
  show "dag_state.more s' = dag_state.more s" if "PutNode env p nd r s = (x, r', s')" for r x r' and s s' :: adder_state
    using that put_loop_more by (auto simp: PutNode_def split: if_splits prod.splits)
qed

lemma FlushMemFree_more: "FlushMemFree env f s = (r, f', s') \<Longrightarrow> dag_state.more s' = dag_state.more s"
  using root_Flush_more by (fastforce simp: FlushMemFree_def split: prod.splits option.splits fsnode.splits)

lemma keeps_lock_simple [simp]:
  "keeps_lock (okA x)" "keeps_lock (failA e)" "keeps_lock (check er)" "keeps_lock tick" "keeps_lock (mfsRoot env a)"
  "keeps_lock (outputDagnode env a name nd)" "keeps_lock (dag_Get env c)"
  "keeps_lock (\<lambda>s. of_opt (dag_Add env nd s))"
proof -
  show "keeps_lock (outputDagnode env a name nd)"
    by (rule keeps_lockI) (auto simp: outputDagnode_def split: if_splits sum.splits)
  show "keeps_lock (dag_Get env c)"
    by (rule keeps_lockI) (rule more_lock, erule dag_Get_more)
  show "keeps_lock (\<lambda>s. of_opt (dag_Add env nd s))"
  proof (rule keeps_lockI)
    fix s r s'
    assume run: "of_opt (dag_Add env nd s) = (r, s')"
    obtain x t where a: "dag_Add env nd s = (x, t)" by fastforce
    then have "s' = t" using run by (cases x) auto
    then show "unlocker s' = unlocker s \<and> pin_locks s' = pin_locks s" using more_lock [OF dag_Add_more [OF a]] by simp
  qed
qed (rule keeps_lockI, auto simp: okA_def failA_def check_def tick_def mfsRoot_def Let_def split: option.splits)+

lemma keeps_lock_root_ops [simp]:
  "keeps_lock (on_root env a (GetNode env))" "keeps_lock (on_root env a (unit_op (root_Flush env)))"
  "keeps_lock (on_root env a (unit_op (FlushMemFree env)))"
  by (intro keeps_lock_on_root, erule GetNode_more)
    (intro keeps_lock_on_root, erule unit_op_more [rotated], erule root_Flush_more FlushMemFree_more)+

lemma keeps_lock_commit: "keeps_lock (commit env nodes)"
proof (rule keeps_lockI)
  show "commit env nodes s = (r, s') \<Longrightarrow> unlocker s' = unlocker s \<and> pin_locks s' = pin_locks s" for s r s'
  proof (induction nodes arbitrary: s)
    case (Cons nd nodes)
    obtain x t where a: "dag_Add env nd s = (x, t)" by fastforce
    then show ?case using Cons more_lock [OF dag_Add_more [OF a]] by (cases x) auto
  qed simp
qed

lemma keeps_lock_if: "keeps_lock m \<Longrightarrow> keeps_lock n \<Longrightarrow> keeps_lock (if b then m else n)"
  by simp

text \<open>A part that chooses by the state.\<close>

lemma keeps_lock_choice: "keeps_lock m \<Longrightarrow> keeps_lock n \<Longrightarrow> keeps_lock (\<lambda>s. if b s then m s else n s)"
  by (auto simp: keeps_lock_def)

lemma keeps_lock_at: "(\<And>s. keeps_lock (m s)) \<Longrightarrow> keeps_lock (\<lambda>s. m s s)"
  by (auto simp: keeps_lock_def)

lemma keeps_lock_update:
  "(\<And>s. unlocker (f s) = unlocker s \<and> pin_locks (f s) = pin_locks s) \<Longrightarrow> keeps_lock (\<lambda>s. (Inr x, f s))"
  by (rule keeps_lockI) auto

lemmas keeps_lock_intros = keeps_lock_bind keeps_lock_if keeps_lock_choice keeps_lock_update

lemma keeps_lock_PinRoot [simp]: "keeps_lock (PinRoot env a nd)"
proof -
  have "keeps_lock (Unpin env c)" for c
    unfolding Unpin_def by (intro keeps_lock_bind) (simp, simp, simp add: keeps_lock_def)
  then have "keeps_lock (\<lambda>s. bindA (Unpin env (tempRoot s)) (\<lambda>_ s. (Inr (), s\<lparr>tempRoot := node_Cid env nd\<rparr>)) s)"
    by (intro keeps_lock_at [of "\<lambda>s. bindA (Unpin env (tempRoot s)) (\<lambda>_ s. (Inr (), s\<lparr>tempRoot := node_Cid env nd\<rparr>))"]
        keeps_lock_bind keeps_lock_update) simp_all
  then have "keeps_lock (\<lambda>s. if Defined (tempRoot s)
     then bindA (Unpin env (tempRoot s)) (\<lambda>_ s. (Inr (), s\<lparr>tempRoot := node_Cid env nd\<rparr>)) s else (Inr (), s))"
    by (rule keeps_lock_choice) (rule keeps_lock_update, simp)
  then show ?thesis unfolding PinRoot_def Let_def by (intro keeps_lock_if keeps_lock_bind keeps_lock_update) simp_all
qed

lemma keeps_lock_curRootNode [simp]: "keeps_lock (curRootNode env a)"
  unfolding curRootNode_def by (intro keeps_lock_intros) simp_all

lemma keeps_lock_maybePauseForGC [simp]: "keeps_lock (maybePauseForGC env a)"
proof -
  have "unlocker s' = unlocker s \<and> pin_locks s' = pin_locks s"
    if run: "maybePauseForGC env a s = (r, s')" for s r s'
  proof -
    define s1 where "s1 = s\<lparr>ticks := Suc (ticks s)\<rparr>"
    define m where "m = bindA (curRootNode env a) (PinRoot env a)"
    obtain x t where t: "m s1 = (x, t)" by fastforce
    have "keeps_lock m" unfolding m_def by (intro keeps_lock_bind) simp_all
    then have tl: "unlocker t = unlocker s" "pin_locks t = pin_locks s" using t by (auto simp: keeps_lock_def s1_def)
    show ?thesis
    proof (cases "unlocker s \<and> GCRequested env (ticks s)")
      case True
      then show ?thesis using run t tl
        by (auto simp: maybePauseForGC_def bindA_def tick_def m_def s1_def PinLock_def collector_def Unlock_def
            split: prod.splits sum.splits)
    qed (use run in \<open>auto simp: maybePauseForGC_def bindA_def tick_def\<close>)
  qed
  then show ?thesis by (simp add: keeps_lock_def)
qed

lemma keeps_lock_free_memory [simp]: "keeps_lock (free_memory env a)"
  unfolding free_memory_def by (intro keeps_lock_intros) simp_all

lemma keeps_lock_addNode [simp]: "keeps_lock (addNode env a b path)"
  unfolding addNode_def Let_def by (intro keeps_lock_intros keeps_lock_mkdir keeps_lock_put) simp_all

lemma keeps_lock_addSymlink [simp]: "keeps_lock (addSymlink env a path target)"
proof -
  have "keeps_lock (\<lambda>s. bindA (\<lambda>s. of_opt (dag_Add env nd s)) (\<lambda>_. addNode env a (Plain nd) path) s)" for nd
    by (intro keeps_lock_intros) simp_all
  then show ?thesis by (cases "SymlinkData env target") (simp_all add: addSymlink_def [abs_def] keeps_lock_def Let_def)
qed

lemma keeps_lock_addFile [simp]: "keeps_lock (addFile env a path data)"
proof -
  have "keeps_lock (add_data env a data)"
  proof (cases "Layout env a data")
    case (Inr x)
    then show ?thesis
      unfolding add_data_def Layout_def
      by (cases x, intro keeps_lock_bind, simp_all) (rule keeps_lock_bind [OF keeps_lock_commit], simp)
  next
    case (Inl e)
    then show ?thesis
      unfolding add_data_def Layout_def by (intro keeps_lock_bind, simp_all) (rule keeps_lockI, simp)
  qed
  then show ?thesis unfolding addFile_def by (intro keeps_lock_intros) simp_all
qed

lemma keeps_lock_adding:
  "keeps_lock (addFileNode env a path f top_level)" "keeps_lock (add_entries env a path es)"
proof (induction f and es arbitrary: path top_level and path rule: complete_input_complete_entries.induct)
  case (1 es e)
  have "keeps_lock (enter_dir env a path top_level)"
    unfolding enter_dir_def by (intro keeps_lock_intros keeps_lock_mkdir) simp
  then show ?case unfolding addFileNode.simps [abs_def] by (intro keeps_lock_bind 1) simp_all
next
  case (6 n f es)
  have "add_entries env a path ((n, f) # es) = bindA (addFileNode env a (path_Join [path, n]) f False) (\<lambda>_. add_entries env a path es)"
    by (rule ext) (simp add: bindA_def)
  then show ?case using keeps_lock_bind [OF 6(1) [of "path_Join [path, n]" False] 6(2) [of path]] by simp
qed (unfold addFileNode.simps [abs_def] add_entries.simps [abs_def], (intro keeps_lock_bind keeps_lock_update; simp)+)

lemma keeps_lock_output:
  "outputDirs env a n p f s = (r, s') \<Longrightarrow> unlocker s' = unlocker s \<and> pin_locks s' = pin_locks s"
  "output_children env a n p names dn cache s = (q, s') \<Longrightarrow> unlocker s' = unlocker s \<and> pin_locks s' = pin_locks s"
proof (induction env a n p f s and env a n p names dn cache s arbitrary: r s' and q s' rule: outputDirs_output_children.induct)
  case (3 env a n path dn cache s)
  obtain q s1 where c: "output_children env a n path (ListNames (Directory dn cache)) dn cache s = (q, s1)" by fastforce
  note 1 = 3(1) [OF c]
  show ?case
  proof (cases q)
    case (Inr cache')
    obtain x f' s2 where g: "GetNode env (Directory dn cache') s1 = (x, f', s2)" by (metis prod_cases3)
    note 2 = more_lock [OF GetNode_more(1) [OF g]]
    show ?thesis using 3(2) c Inr g 1 2 output_same [of env a path _ s2 r s']
      by (auto simp: same_pins_def simp del: GetNode.simps split: sum.splits)
  qed (use 3(2) c 1 in auto)
next
  case (5 env a n path name names dn cache s)
  obtain x c1 s1 where c: "childUnsync env name dn cache s = (x, c1, s1)" by (metis prod_cases3)
  note 1 = more_lock [OF childUnsync_more [OF c]]
  show ?case
  proof (cases x)
    case (Inr child)
    obtain y s2 where o: "outputDirs env a n (path_Join [path, name]) child s1 = (y, s2)" by fastforce
    note 2 = 5(1) [OF c [symmetric] Inr refl o]
    show ?thesis
    proof (cases y)
      case (Inr u)
      obtain z where "output_children env a n path names dn (filter (\<lambda>e. fst e \<noteq> name) c1) s2 = (z, s')"
        using 5(3) c \<open>x = Inr child\<close> o Inr by auto
      then show ?thesis using 5(2) [OF c [symmetric] \<open>x = Inr child\<close> refl o [symmetric] Inr] 1 2 by auto
    qed (use 5(3) c Inr o 1 2 in auto)
  qed (use 5(3) c 1 in auto)
qed auto

lemma keeps_lock_result_name [simp]: "keeps_lock (result_name env a input)"
proof (cases "\<exists>es e. input = FDir es e")
  case False
  have "keeps_lock (on_root env a (\<lambda>r s.
            case ListNames r of
              [] \<Rightarrow> (Inl (MErr ''expected at least one child dir, got none''), r, s)
            | name # _ \<Rightarrow>
                (case childUnsync env name (unixfsDir r) (entriesCache r) s of
                   (Inl e, cache', s') \<Rightarrow> (Inl e, Directory (unixfsDir r) cache', s')
                 | (Inr child, cache', s') \<Rightarrow> (Inr (Some name), Directory (unixfsDir r) cache', s'))))"
    by (rule keeps_lock_on_root) (auto split: list.splits prod.splits sum.splits dest: childUnsync_more)
  then show ?thesis using False by (cases input) (simp_all add: result_name_def)
qed (auto simp: result_name_def)

lemma keeps_lock_add_all: "keeps_lock (add_all env a fuel input)"
proof -
  have obj: "keeps_lock (object_node env f)" for f
  proof (rule keeps_lockI)
    fix s r s'
    assume run: "object_node env f s = (r, s')"
    obtain x f' t where g: "GetNode env f s = (x, f', t)" by (metis prod_cases3)
    then have "s' = t" using run by (cases x) (auto simp: object_node_def)
    then show "unlocker s' = unlocker s \<and> pin_locks s' = pin_locks s" using more_lock [OF GetNode_more(1) [OF g]] by simp
  qed
  have "keeps_lock (add_root env a input)"
    unfolding add_root_def by (intro keeps_lock_bind keeps_lock_adding obj) (simp_all split: prod.splits)
  moreover have "keeps_lock (outputDirs env a fuel p root)" for p root
    by (rule keeps_lockI) (rule keeps_lock_output)
  ultimately show ?thesis
    unfolding add_all_def by (intro keeps_lock_bind) (simp_all split: prod.splits add: keeps_lock_bind)
qed

end
