(* ===== verification/Adder_Props.thy ===== *)
theory Adder_Props
  imports Adder_Progress
begin

text \<open>
  What a call of \<^verbatim>\<open>AddAllAndPin\<close> (\<^verbatim>\<open>core/coreunix/add.go\<close>) promises: the root it returns holds the tree that was added and
  is stored with everything below it, whatever the collector does when it is let in; the call succeeds when nothing fails;
  and it gives back every lock it takes, on every path.
\<close>

text \<open>A new adder: no root yet, no lock taken, no temporary root.\<close>

definition fresh :: "adder_state \<Rightarrow> bool" where
  "fresh s = (mroot s = None \<and> \<not> unlocker s \<and> pin_locks s = 0 \<and> \<not> Defined (tempRoot s))"

lemma fresh_shows:
  assumes "fresh s" "addressed env (dag s)"
  shows "shows_fs env (if b then PinLock s else s) empty_view"
  using assms by (simp add: fresh_def shows_fs_def PinLock_def)

lemma fresh_ready:
  assumes "fresh s" "addressed env (dag s)"
  shows "ready env a (if a_Pin a then PinLock s else s) empty_view"
  using fresh_shows [OF assms] assms(1) by (auto simp: ready_def fresh_def PinLock_def)

lemma AddAllAndPin_Inr:
  "AddAllAndPin env a fuel input s = (Inr nd, s') \<Longrightarrow>
     \<exists>t. add_all env a fuel input (if a_Pin a then PinLock s else s) = (Inr nd, t)
       \<and> dag s' = dag t \<and> pins s' = pins t"
  by (auto simp: AddAllAndPin_def Unlock_def split: prod.splits if_splits)

lemma AddAllAndPin_returns:
  "add_all env a fuel input (if a_Pin a then PinLock s else s) = (Inr nd, t) \<Longrightarrow>
     \<exists>s'. AddAllAndPin env a fuel input s = (Inr nd, s')"
  by (simp add: AddAllAndPin_def)

lemma saved_closed: "saved env V D f \<Longrightarrow> closed D (node_Cid env (node_of f))"
  using closedI [of D "node_Cid env (node_of f)" "sort_links (node_of f)"] fs_tree_children [of D "node_of f"]
  by (auto simp: saved_def)

text \<open>C8. When \<^verbatim>\<open>AddAllAndPin\<close> of an adder that pins returns a root, reading the tree below that root gives back
  exactly the files, directories and symbolic links that were added, at every path; every block of the tree is in
  the store; no pin was lost, and the root is pinned. Garbage collections that were let in during the call have
  taken nothing of it: the adder holds its lock except where it pauses, and there a collector is one that keeps what is
  below the pins. (Without pinning the code takes no lock, a collector may work at any time, and nothing of this is
  promised.) The conditions: no read of the DAG service fails and distinct nodes have distinct CIDs, since \<^verbatim>\<open>Mkdir\<close>
  and \<^verbatim>\<open>PutNode\<close> take an entry that cannot be read for a missing one and would replace it; the names in each directory of
  the input are plain and distinct; the layout builds from the data of a file a file with all its blocks; the text
  of a CID, the name of a file added alone, is a plain name; and the adder is new, on a store in which each block is under its own
  CID.\<close>

theorem AddAllAndPin_roundtrip:
  assumes "AddAllAndPin env a fuel input s = (Inr nd, s')" "a_Pin a" "good_env env a" "good_input input" "fresh s" "addressed env (dag s)"
  shows "(\<forall>ps. node_at (dag s') nd ps = file_at env a input ps) \<and> closed (dag s') (node_Cid env nd)
    \<and> set (pins s) \<subseteq> set (pins s') \<and> node_Cid env nd \<in> set (pins s')"
proof -
  let ?s = "if a_Pin a then PinLock s else s"
  obtain t where run: "add_all env a fuel input ?s = (Inr nd, t)" and t: "dag s' = dag t" "pins s' = pins t"
    using AddAllAndPin_Inr [OF assms(1)] by blast
  note res = add_all_result [OF run fresh_shows [OF assms(5,6)] assms(3,2,4)]
  obtain root where root: "saved env (file_at env a input) (dag t) root" "node_of root = nd" using res(1) by blast
  have "closed (dag t) (node_Cid env nd)" using saved_closed [OF root(1)] root(2) by simp
  moreover have "set (pins s) \<subseteq> set (pins t)" using res(2) assms(5) by (auto simp: kept_def fresh_def PinLock_def split: if_splits)
  ultimately show ?thesis using root res(3) t assms(2) by (auto simp: saved_def)
qed

text \<open>C35. When an adder that pins is given an input of files, links and directories that are listed to their end, with
  plain and distinct names in each directory, and no service fails (the chunker, the layouts, the encoding of links,
  sizes, adding, reading and pinning), \<^verbatim>\<open>AddAllAndPin\<close> returns a root, whatever a collector that keeps what is
  pinned does at the pauses: the walk of the input and the listing of the result both end, with fuel of the depth of the
  input. (Two entries of one name in a directory of the input would make the second one fail.) Distinct nodes have
  distinct CIDs, whose text is a plain name, the layout builds complete files, and the adder is new, on a store in
  which each block is under its own CID.\<close>

theorem AddAllAndPin_succeeds:
  assumes "a_Pin a" "good_env env a" "no_failures env a" "good_input input" "complete_input input" "depth input \<le> fuel"
    "fresh s" "addressed env (dag s)"
  shows "\<exists>nd s'. AddAllAndPin env a fuel input s = (Inr nd, s')"
  using add_all_progress [OF fresh_ready [OF assms(7,8)] assms(2-6)] AddAllAndPin_returns by blast

text \<open>A pause at which a collector was waiting lets it work, as the only lock is given up, and takes the lock again.\<close>

lemma pause_lets_collector_in:
  assumes "maybePauseForGC env a s = (Inr (), s')" "unlocker s" "GCRequested env (ticks s)" "pin_locks s = 1"
  shows "(\<exists>D. dag s' = while_unlocked env (ticks s) (pins s') D) \<and> pin_locks s' = 1"
proof -
  let ?s = "s\<lparr>ticks := Suc (ticks s)\<rparr>"
  obtain rn t t2 where st: "curRootNode env a ?s = (Inr rn, t)" "PinRoot env a rn t = (Inr (), t2)"
    "s' = PinLock (collector env (ticks s) (Unlock t2))"
    using assms(1-3) by (auto simp: maybePauseForGC_def run_Inr split: if_splits)
  have "keeps_lock (bindA (curRootNode env a) (PinRoot env a))" by (intro keeps_lock_bind) simp_all
  moreover have "bindA (curRootNode env a) (PinRoot env a) ?s = (Inr (), t2)" using st(1,2) by (simp add: bindA_def)
  ultimately have "pin_locks t2 = 1" using assms(4) by (auto simp: keeps_lock_def)
  then show ?thesis unfolding st(3) by (auto simp: PinLock_def collector_def Unlock_def)
qed

text \<open>C36. \<^verbatim>\<open>AddAllAndPin\<close> gives back every read lock it takes, and none that it did not take: when it returns, with a
  root or with an error of any of its parts, as many locks are held as before, however often a pause has given the lock
  up and taken it again in between. An adder that does not pin must not have the unlocker of an earlier call.\<close>

theorem AddAllAndPin_unlocks:
  assumes "AddAllAndPin env a fuel input s = (r, s')" "unlocker s \<Longrightarrow> a_Pin a"
  shows "pin_locks s' = pin_locks s"
proof -
  let ?s = "if a_Pin a then PinLock s else s"
  obtain t where t: "add_all env a fuel input ?s = (r, t)" "s' = (if unlocker t then Unlock t else t)"
    using assms(1) by (auto simp: AddAllAndPin_def split: prod.splits)
  have "unlocker t = unlocker ?s \<and> pin_locks t = pin_locks ?s"
    using keeps_lock_add_all [of env a fuel input] t(1) unfolding keeps_lock_def by blast
  then show ?thesis using t(2) assms(2) by (auto simp: PinLock_def Unlock_def split: if_splits)
qed

section \<open>An instance\<close>

text \<open>An encoding of nodes that tells all nodes apart, in the place of a hash, and layouts of one node per file. What waits for
  the lock is the collector.\<close>

fun enc_nat :: "nat \<Rightarrow> string" where
  "enc_nat 0 = ''.''"
| "enc_nat (Suc n) = ''I'' @ enc_nat n"

fun enc_str :: "string \<Rightarrow> string" where
  "enc_str [] = ''.''"
| "enc_str (c # cs) = '','' @ [c] @ enc_str cs"

fun enc_cid :: "cid \<Rightarrow> string" where
  "enc_cid CidUndef = ''u''"
| "enc_cid (CidV0 d) = ''0'' @ enc_str d"
| "enc_cid (CidV1 c h) = ''1'' @ enc_nat c @ enc_nat (mh_code h) @ enc_str (mh_digest h)"

fun enc_links :: "(string \<times> cid) list \<Rightarrow> string" where
  "enc_links [] = ''.''"
| "enc_links ((n, c) # ls) = '','' @ enc_str n @ enc_cid c @ enc_links ls"

fun enc_type :: "utype \<Rightarrow> char" where
  "enc_type TRaw = CHR ''r''"
| "enc_type TDirectory = CHR ''d''"
| "enc_type TFile = CHR ''f''"
| "enc_type TMetadata = CHR ''m''"
| "enc_type TSymlink = CHR ''s''"
| "enc_type NotUnixfs = CHR ''n''"

fun enc_node :: "ipld_node \<Rightarrow> string" where
  "enc_node (RawNode d) = ''R'' @ d"
| "enc_node (ProtoNode t d ls b) =
     ''P'' @ [enc_type t] @ enc_links ls @ enc_nat (Version b) @ enc_nat (Codec b) @ enc_nat (MhType b) @ enc_nat (MhLength b) @ d"

lemma enc_nat_eq [simp]: "enc_nat m @ r = enc_nat n @ r' \<longleftrightarrow> m = n \<and> r = r'"
  by (induction m arbitrary: n; case_tac n; simp)

lemma enc_str_eq [simp]: "enc_str m @ r = enc_str n @ r' \<longleftrightarrow> m = n \<and> r = r'"
  by (induction m arbitrary: n; case_tac n; auto)

lemma enc_cid_eq [simp]: "enc_cid m @ r = enc_cid n @ r' \<longleftrightarrow> m = n \<and> r = r'"
  by (cases m; cases n) auto

lemma enc_links_eq [simp]: "enc_links m @ r = enc_links n @ r' \<longleftrightarrow> m = n \<and> r = r'"
proof (induction m arbitrary: n)
  case Nil
  then show ?case by (cases n) auto
next
  case (Cons x m)
  obtain p c where x: "x = (p, c)" by fastforce
  show ?case
  proof (cases n)
    case (Cons y n')
    then show ?thesis by (cases y) (simp add: x Cons.IH del: append.simps add: append_Cons)
  qed (simp add: x)
qed

lemma enc_type_eq [simp]: "enc_type s = enc_type t \<longleftrightarrow> s = t"
  by (cases s; cases t) simp_all

lemma enc_node_inj: "inj enc_node"
proof (rule injI)
  show "x = y" if "enc_node x = enc_node y" for x y using that by (cases x; cases y) simp_all
qed

definition demo_layout :: "Adder \<Rightarrow> string \<Rightarrow> err + built \<times> ipld_node list" where
  "demo_layout a data = Inr (Plain (RawNode data), [RawNode data])"

definition demo_adder_env :: add_env where
  "demo_adder_env =
     \<lparr>Cid_of = CidV0 \<circ> enc_node, add_err = (\<lambda>n. None), get_err = (\<lambda>n. None),
      chunker_err = (\<lambda>c. None), params_err = None, balanced_Layout = demo_layout, trickle_Layout = demo_layout,
      read_sizes = (\<lambda>d. [(int (length d), True)]), SymlinkData = Inr, v0CidPrefix = \<lparr>Version = 0, Codec = DagProtobuf, MhType = SHA2_256, MhLength = 32\<rparr>,
      Cid_String = (\<lambda>c. ''Q''), node_Size = (\<lambda>nd. Inr 0), unpin_err = (\<lambda>n. None), flush_err = (\<lambda>n. None), GCRequested = (\<lambda>n. True),
      while_unlocked = (\<lambda>n P D. if all_defined (dlinks D) \<and> Ball (set P) Defined
        then gc_store (\<lambda>k. False) (\<lambda>k. if even k then ChSend else ChWorker 0) 1000 (\<lambda>c. None) [CidV0 ''garbage''] P D else D),
      sync_err = None\<rparr>"

definition demo_adder_state :: adder_state where
  "demo_adder_state =
     \<lparr>dag = Map.empty, dag_calls = 0, pins = [CidV0 ''kept''], mroot = None, unlocker = False, pin_locks = 0, tempRoot = CidUndef,
      liveNodes = 0, out = [], ticks = 0\<rparr>"

definition demo_tree :: fnode where
  "demo_tree = FDir [(''a'', FFile ''hello''), (''d'', FDir [(''b'', FFile ''x''), (''c'', FSymlink ''/a'')] None)] None"

lemma demo_adder_env_good: "good_env demo_adder_env a" "no_failures demo_adder_env a"
proof -
  have kp: "keeps_pinned demo_adder_env (while_unlocked demo_adder_env)"
    using gc_keeps_pinned [of demo_adder_env "\<lambda>n k. False" "\<lambda>n k. if even k then ChSend else ChWorker 0" "\<lambda>n. 1000" "\<lambda>n c. None" "\<lambda>n. [CidV0 ''garbage'']"]
    by (simp add: demo_adder_env_def)
  have "inj (CidV0 \<circ> enc_node)" by (intro inj_compose enc_node_inj) (simp add: inj_def)
  then have "sound_env demo_adder_env" by (simp add: sound_env_def demo_adder_env_def)
  moreover have "builds_files demo_adder_env a"
    by (auto simp: builds_files_def Layout_def demo_adder_env_def demo_layout_def split: if_splits)
  moreover have "plain_name (Cid_String demo_adder_env c)" for c by (simp add: demo_adder_env_def plain_name_def)
  ultimately show "good_env demo_adder_env a" using kp by (simp add: good_env_def)
  show "no_failures demo_adder_env a" by (simp add: no_failures_def takes_all_def Layout_def demo_adder_env_def demo_layout_def)
qed

lemma demo_tree_good:
  "good_input demo_tree" "complete_input demo_tree" "depth demo_tree = 3" "fresh demo_adder_state"
  "addressed demo_adder_env (dag demo_adder_state)"
  by (simp_all add: demo_tree_def demo_adder_state_def fresh_def addressed_def plain_name_def)

lemma demo_run: "\<exists>nd s'. AddAllAndPin demo_adder_env NewAdder 3 demo_tree demo_adder_state = (Inr nd, s')"
  using add_all_progress [OF fresh_ready [OF demo_tree_good(4,5)] demo_adder_env_good demo_tree_good(1,2), of 3 NewAdder]
    demo_tree_good(3) AddAllAndPin_returns [of demo_adder_env NewAdder 3 demo_tree demo_adder_state] by (metis order_refl)

theorem AddAllAndPin_roundtrip_witness:
  "\<exists>nd s'. AddAllAndPin demo_adder_env NewAdder 3 demo_tree demo_adder_state = (Inr nd, s')
     \<and> node_at (dag s') nd [''a''] = Some (ELeaf (RawNode ''hello'')) \<and> node_at (dag s') nd [''d'', ''b''] = Some (ELeaf (RawNode ''x''))
     \<and> node_at (dag s') nd [''z''] = None \<and> node_Cid demo_adder_env nd \<in> set (pins s') \<and> CidV0 ''kept'' \<in> set (pins s')"
proof -
  obtain nd s' where run: "AddAllAndPin demo_adder_env NewAdder 3 demo_tree demo_adder_state = (Inr nd, s')" using demo_run by blast
  have pin: "a_Pin NewAdder" by (simp add: NewAdder_def)
  note rt = AddAllAndPin_roundtrip [OF run pin demo_adder_env_good(1) demo_tree_good(1,4,5)]
  have ps: "node_at (dag s') nd ps = file_at demo_adder_env NewAdder demo_tree ps" for ps using rt by blast
  have "node_at (dag s') nd [''a''] = Some (ELeaf (RawNode ''hello''))" "node_at (dag s') nd [''d'', ''b''] = Some (ELeaf (RawNode ''x''))"
    "node_at (dag s') nd [''z''] = None"
    unfolding ps by (simp_all add: file_at.simps demo_tree_def Layout_def NewAdder_def demo_adder_env_def demo_layout_def)
  then show ?thesis using run rt by (auto simp: NewAdder_def demo_adder_state_def)
qed

theorem AddAllAndPin_succeeds_witness:
  "\<exists>nd s'. AddAllAndPin demo_adder_env NewAdder 3 demo_tree demo_adder_state = (Inr nd, s')"
  by (rule AddAllAndPin_succeeds [OF _ demo_adder_env_good demo_tree_good(1,2)]) (simp_all add: demo_tree_good NewAdder_def)

theorem AddAllAndPin_unlocks_witness:
  "\<not> unlocker demo_adder_state
     \<and> pin_locks (snd (AddAllAndPin demo_adder_env NewAdder 0 (FDir [(''s'', FOther)] None) demo_adder_state)) = 0"
proof -
  obtain r s' where run: "AddAllAndPin demo_adder_env NewAdder 0 (FDir [(''s'', FOther)] None) demo_adder_state = (r, s')"
    by fastforce
  have "\<not> unlocker demo_adder_state" "pin_locks demo_adder_state = 0" by (simp_all add: demo_adder_state_def)
  then show ?thesis using AddAllAndPin_unlocks [OF run] run by simp
qed

end
