(* ===== verification/Metadata.thy ===== *)
theory Metadata
  imports Mfs
begin

text \<open>
  Metadata of files (\<^verbatim>\<open>core/coreunix/metadata.go\<close>): a node of type metadata with one link, to the file it describes.
  The encodings of CIDs and of metadata and the sizes of nodes are parameters.
\<close>

record 'm md_env = mfs_env +
  cid_Decode :: "string \<Rightarrow> err + cid"
  cid_String :: "cid \<Rightarrow> string"
  BytesForMetadata :: "'m \<Rightarrow> err + string"
  MetadataFromBytes :: "utype \<Rightarrow> string \<Rightarrow> err + 'm"
  md_Size :: "ipld_node \<Rightarrow> err + nat"
  md_builder :: cid_prefix

text \<open>Both functions begin by reading the node of a key.\<close>

definition get_key ::
  "('m, 'e) md_env_scheme \<Rightarrow> string \<Rightarrow> 'z dag_state_scheme \<Rightarrow> (mfs_err + cid \<times> ipld_node) \<times> 'z dag_state_scheme" where
  "get_key env skey s =
     (case cid_Decode env skey of
        Inl e \<Rightarrow> (Inl (MErr e), s)
      | Inr c \<Rightarrow> (case dag_Get env c s of (Inl e, s') \<Rightarrow> (Inl e, s') | (Inr nd, s') \<Rightarrow> (Inr (c, nd), s')))"

definition AddMetadataTo ::
  "('m, 'e) md_env_scheme \<Rightarrow> string \<Rightarrow> 'm \<Rightarrow> 'z dag_state_scheme \<Rightarrow> (mfs_err + string) \<times> 'z dag_state_scheme" where
  "AddMetadataTo env skey m s =
     (case get_key env skey s of
        (Inl e, s') \<Rightarrow> (Inl e, s')
      | (Inr (c, nd), s') \<Rightarrow>
          (case BytesForMetadata env m of
             Inl e \<Rightarrow> (Inl (MErr e), s')
           | Inr mdata \<Rightarrow>
               (case md_Size env nd of
                  Inl e \<Rightarrow> (Inl (MErr e), s')
                | Inr _ \<Rightarrow>
                    (let mdnode = ProtoNode TMetadata mdata [(''file'', node_Cid env nd)] (md_builder env) in
                     case dag_Add env mdnode s' of
                       (Some e, s'') \<Rightarrow> (Inl e, s'')
                     | (None, s'') \<Rightarrow> (Inr (cid_String env (node_Cid env mdnode)), s'')))))"

definition Metadata ::
  "('m, 'e) md_env_scheme \<Rightarrow> string \<Rightarrow> 'z dag_state_scheme \<Rightarrow> (mfs_err + 'm) \<times> 'z dag_state_scheme" where
  "Metadata env skey s =
     (case get_key env skey s of
        (Inl e, s') \<Rightarrow> (Inl e, s')
      | (Inr (c, RawNode d), s') \<Rightarrow> (Inl (MErr ''expected protobuf dag node''), s')
      | (Inr (c, ProtoNode t d ls b), s') \<Rightarrow>
          (case MetadataFromBytes env t d of Inl e \<Rightarrow> (Inl (MErr e), s') | Inr m \<Rightarrow> (Inr m, s')))"

text \<open>What was added under a key is read back under that key, and what was stored before is still there.\<close>

lemma AddMetadataTo_Metadata:
  assumes "AddMetadataTo env skey m s = (Inr key, s')" "sound_env env" "addressed env (dag s)"
    "\<And>c. cid_Decode env (cid_String env c) = Inr c"
    "\<And>m d. BytesForMetadata env m = Inr d \<Longrightarrow> MetadataFromBytes env TMetadata d = Inr m"
  shows "fst (Metadata env key s') = Inr m" "grown env s s'"
proof -
  obtain c nd s1 mdata where k: "get_key env skey s = (Inr (c, nd), s1)" and b: "BytesForMetadata env m = Inr mdata"
    and a: "dag_Add env (ProtoNode TMetadata mdata [(''file'', node_Cid env nd)] (md_builder env)) s1 = (None, s')"
    and key: "key = cid_String env (node_Cid env (ProtoNode TMetadata mdata [(''file'', node_Cid env nd)] (md_builder env)))"
    using assms(1) by (auto simp: AddMetadataTo_def Let_def split: prod.splits sum.splits option.splits)
  have g1: "grown env s s1" "dag s1 = dag s"
    using k by (auto simp: get_key_def dag_Get_def Let_def grown_def split: sum.splits prod.splits option.splits)
  have "addressed env (dag s1)" using g1(2) assms(3) by simp
  note g2 = dag_Add_grown [OF a this assms(2)]
  show "grown env s s'" using grown_trans [OF g1(1) g2(1)] .
  show "fst (Metadata env key s') = Inr m"
    using g2(2) assms(2,4) assms(5) [OF b] key
    by (simp add: Metadata_def get_key_def dag_Get_def sound_env_def Let_def)
qed

end
