(* ===== verification/Files.thy ===== *)
theory Files
  imports Adder "HOL-Library.Word"
begin

text \<open>
  The commands on the mutable file system (\<^verbatim>\<open>core/commands/files.go\<close>) and the operations of \<^verbatim>\<open>go-mfs\<close> they use beyond those of
  \<open>Mfs\<close>. A directory object of the program is named by the path that leads to it: \<open>at_path\<close> runs an operation on the object at
  a path and puts the changed object back. Every operation is a function of the root and the state; \<open>published\<close> is what the
  republisher was told last.

  Sharded directories, waiting for the republisher and the encoding of the output are left out. The modifier of
  file contents and the resolver of paths in \<^verbatim>\<open>/ipfs\<close> are parameters.
\<close>

section \<open>State\<close>

record files_state = dag_state +
  published :: "cid option"

type_synonym 'a fop = "fsnode \<Rightarrow> files_state \<Rightarrow> (mfs_err + 'a) \<times> fsnode \<times> files_state"

definition okF :: "'a \<Rightarrow> 'a fop" where "okF x f s = (Inr x, f, s)"

definition failF :: "mfs_err \<Rightarrow> 'a fop" where "failF e f s = (Inl e, f, s)"

definition bindF :: "'a fop \<Rightarrow> ('a \<Rightarrow> 'b fop) \<Rightarrow> 'b fop" where
  "bindF m k f s = (case m f s of (Inl e, f', s') \<Rightarrow> (Inl e, f', s') | (Inr x, f', s') \<Rightarrow> k x f' s')"

definition tryF :: "'a fop \<Rightarrow> (mfs_err + 'a \<Rightarrow> 'b fop) \<Rightarrow> 'b fop" where
  "tryF m k f s = (case m f s of (r, f', s') \<Rightarrow> k r f' s')"

definition unitF :: "(fsnode \<Rightarrow> files_state \<Rightarrow> mfs_err option \<times> fsnode \<times> files_state) \<Rightarrow> unit fop" where
  "unitF op f s = (case op f s of (Some e, f', s') \<Rightarrow> (Inl e, f', s') | (None, f', s') \<Rightarrow> (Inr (), f', s'))"

section \<open>Objects at a path\<close>

text \<open>\<^verbatim>\<open>DirLookup\<close>, and an operation on what it finds.\<close>

fun at_path :: "'e mfs_env_scheme \<Rightarrow> string list \<Rightarrow> 'a fop \<Rightarrow> 'a fop" where
  "at_path env [] op f s = op f s"
| "at_path env (p # parts) op (File nd) s = (Inl (MErr ''Not a directory''), File nd, s)"
| "at_path env (p # parts) op (Directory dnode cache) s =
     (case childUnsync env p dnode cache s of
        (Inl e, cache', s') \<Rightarrow> (Inl e, Directory dnode cache', s')
      | (Inr child, cache', s') \<Rightarrow>
          (case at_path env parts op child s' of (r, child', s'') \<Rightarrow> (r, Directory dnode (set_entry p child' cache'), s'')))"

text \<open>\<^verbatim>\<open>lookupDir\<close>, \<^verbatim>\<open>getParentDir\<close>: the object must be a directory.\<close>

definition in_dir :: "(ipld_node \<Rightarrow> (string \<times> fsnode) list \<Rightarrow> files_state
    \<Rightarrow> (mfs_err + 'a) \<times> ipld_node \<times> (string \<times> fsnode) list \<times> files_state) \<Rightarrow> 'a fop" where
  "in_dir op f s =
     (case f of
        File nd \<Rightarrow> (Inl (MErr ''not a directory''), f, s)
      | Directory dnode cache \<Rightarrow> (case op dnode cache s of (r, dnode', cache', s') \<Rightarrow> (r, Directory dnode' cache', s')))"

definition lookupDir :: "'e mfs_env_scheme \<Rightarrow> string \<Rightarrow> unit fop" where
  "lookupDir env pth = at_path env (lookup_parts pth) (in_dir (\<lambda>dnode cache s. (Inr (), dnode, cache, s)))"

definition dir_Child :: "'e mfs_env_scheme \<Rightarrow> string \<Rightarrow> fsnode fop" where
  "dir_Child env name =
     in_dir (\<lambda>dnode cache s. case childUnsync env name dnode cache s of (r, cache', s') \<Rightarrow> (r, dnode, cache', s'))"

definition dir_Unlink :: "string \<Rightarrow> unit fop" where
  "dir_Unlink name =
     in_dir (\<lambda>dnode cache s.
       let cache' = filter (\<lambda>e. fst e \<noteq> name) cache in
       if name \<in> fst ` set (Links dnode) then (Inr (), remove_link name dnode, cache', s)
       else (Inl ErrNotExist, dnode, cache', s))"

definition dir_Add :: "'e mfs_env_scheme \<Rightarrow> string \<Rightarrow> ipld_node \<Rightarrow> unit fop" where
  "dir_Add env name nd =
     in_dir (\<lambda>dnode cache s.
       case dir_AddChild env name nd dnode cache s of
         (Some e, dnode', cache', s') \<Rightarrow> (Inl e, dnode', cache', s')
       | (None, dnode', cache', s') \<Rightarrow> (Inr (), dnode', cache', s'))"

section \<open>Flushing\<close>

text \<open>\<^verbatim>\<open>Flush\<close> of a file opens a descriptor, which a symbolic link does not have, and stores its node; that of a directory
  syncs it. Then every directory above takes the new node of its child and is stored itself.\<close>

fun is_symlink :: "ipld_node \<Rightarrow> bool" where
  "is_symlink (ProtoNode t d ls b) = (t = TSymlink)"
| "is_symlink (RawNode d) = False"

definition object_Flush :: "'e mfs_env_scheme \<Rightarrow> ipld_node fop" where
  "object_Flush env f s =
     (case f of
        File nd \<Rightarrow>
          (if is_symlink nd then (Inl (MErr ''symlinks not yet supported''), f, s)
           else (case dag_Add env nd s of (Some e, s') \<Rightarrow> (Inl e, f, s') | (None, s') \<Rightarrow> (Inr nd, f, s')))
      | Directory dnode cache \<Rightarrow> GetNode env f s)"

text \<open>An operation on an object that gives its new node, which the directories above take over (\<^verbatim>\<open>updateChildEntry\<close>).\<close>

fun update_path :: "'e mfs_env_scheme \<Rightarrow> string list \<Rightarrow> ipld_node fop \<Rightarrow> ipld_node fop" where
  "update_path env [] op f s = op f s"
| "update_path env (p # parts) op (File nd) s = (Inl (MErr ''Not a directory''), File nd, s)"
| "update_path env (p # parts) op (Directory dnode cache) s =
     (case childUnsync env p dnode cache s of
        (Inl e, cache', s') \<Rightarrow> (Inl e, Directory dnode cache', s')
      | (Inr child, cache', s') \<Rightarrow>
          (case update_path env parts op child s' of
             (Inl e, child', s'') \<Rightarrow> (Inl e, Directory dnode (set_entry p child' cache'), s'')
           | (Inr nd, child', s'') \<Rightarrow>
               (let dnode' = add_link p (node_Cid env nd) dnode; cache'' = set_entry p child' cache' in
                case dag_Add env dnode' s'' of
                  (Some e, s3) \<Rightarrow> (Inl e, Directory dnode' cache'', s3)
                | (None, s3) \<Rightarrow> (Inr (sort_links dnode'), Directory (sort_links dnode') cache'', s3))))"

text \<open>\<^verbatim>\<open>Root.updateChildEntry\<close>: the root is stored and handed to the republisher.\<close>

definition root_update :: "'e mfs_env_scheme \<Rightarrow> ipld_node \<Rightarrow> unit fop" where
  "root_update env nd f s =
     (case dag_Add env nd s of
        (Some e, s') \<Rightarrow> (Inl e, f, s')
      | (None, s') \<Rightarrow> (Inr (), f, s'\<lparr>published := Some (node_Cid env nd)\<rparr>))"

definition flush_up :: "'e mfs_env_scheme \<Rightarrow> string list \<Rightarrow> unit fop" where
  "flush_up env parts = bindF (update_path env parts (object_Flush env)) (root_update env)"

definition FlushPath :: "'e mfs_env_scheme \<Rightarrow> string \<Rightarrow> ipld_node fop" where
  "FlushPath env pth =
     bindF (flush_up env (lookup_parts pth)) (\<lambda>_. at_path env (lookup_parts pth) (GetNode env))"

definition Mkdir_flush :: "'e mfs_env_scheme \<Rightarrow> MkdirOpts \<Rightarrow> string \<Rightarrow> unit fop" where
  "Mkdir_flush env opts pth =
     bindF (unitF (Mkdir env opts pth)) (\<lambda>_.
       if opt_Flush opts \<and> mkdir_parts pth \<noteq> [] then flush_up env (mkdir_parts pth) else okF ())"

section \<open>Moving\<close>

text \<open>A directory is known by the name it was opened with; that of the root is \<open>root_name\<close>.\<close>

record files_env = mfs_env +
  root_name :: string
  ResolveNode :: "string \<Rightarrow> err + ipld_node"
  builder_for :: "nat \<times> nat option \<Rightarrow> cid_prefix"
  mh_Names :: "string \<Rightarrow> nat option"
  new_file_data :: string
  proto_FileSize :: "ipld_node \<Rightarrow> err + nat"
  cumulative_Size :: "ipld_node \<Rightarrow> err + nat"
  mod_Truncate :: "ipld_node \<Rightarrow> err option \<times> ipld_node \<times> ipld_node list"
  mod_Seek :: "int \<Rightarrow> ipld_node \<Rightarrow> err option \<times> ipld_node \<times> ipld_node list"
  mod_Write :: "int \<Rightarrow> string \<Rightarrow> ipld_node \<Rightarrow> err option \<times> ipld_node \<times> ipld_node list"
  read_bytes :: "ipld_node \<Rightarrow> err + string"

definition dir_name :: "'e files_env_scheme \<Rightarrow> string list \<Rightarrow> string" where
  "dir_name env parts = (if parts = [] then root_name env else last parts)"

text \<open>The directory and the name a move goes to: a file in the way is removed, a directory in the way is gone into.\<close>

definition mv_target :: "'e files_env_scheme \<Rightarrow> string list \<Rightarrow> string \<Rightarrow> string \<Rightarrow> (string list \<times> string) fop" where
  "mv_target env dstDir dstFname srcFname =
     tryF (at_path env dstDir (dir_Child env dstFname)) (\<lambda>r.
       case r of
         Inr (File nd) \<Rightarrow> tryF (at_path env dstDir (dir_Unlink dstFname)) (\<lambda>_. okF (dstDir, dstFname))
       | Inr (Directory dn cache) \<Rightarrow> okF (dstDir @ [dstFname], srcFname)
       | Inl e \<Rightarrow> if e = ErrNotExist then okF (dstDir, dstFname) else failF e)"

definition Mv :: "'e files_env_scheme \<Rightarrow> string \<Rightarrow> string \<Rightarrow> unit fop" where
  "Mv env src dst =
     (let (srcDirName, srcFname) = path_Split src;
          (dstDirName, dstFname) = (if last dst = CHR ''/'' then (dst, srcFname) else path_Split dst);
          srcDir = lookup_parts srcDirName; dstDir = lookup_parts dstDirName in
      bindF (lookupDir env dstDirName) (\<lambda>_.
      bindF (lookupDir env srcDirName) (\<lambda>_.
      bindF (at_path env srcDir (dir_Child env srcFname)) (\<lambda>_.
      bindF (at_path env (srcDir @ [srcFname]) (GetNode env)) (\<lambda>nd.
      bindF (mv_target env dstDir dstFname srcFname) (\<lambda>(dstDir, dstFname).
      bindF (at_path env dstDir (dir_Add env dstFname nd)) (\<lambda>_.
        if dir_name env srcDir = dir_name env dstDir \<and> srcFname = dstFname then okF ()
        else at_path env srcDir (dir_Unlink srcFname))))))))"

section \<open>Arguments of the commands\<close>

definition checkPath :: "string \<Rightarrow> mfs_err + string" where
  "checkPath p =
     (if p = [] then Inl (MErr ''paths must not be empty'')
      else if hd p \<noteq> CHR ''/'' then Inl (MErr ''paths must start with a leading slash'')
      else Inr (path_Clean p @ (if last p = CHR ''/'' \<and> p \<noteq> ''/'' then ''/'' else [])))"

text \<open>\<^verbatim>\<open>getPrefix\<close> and \<^verbatim>\<open>getPrefixNew\<close> have the same text. A hash function goes with its default length.\<close>

definition getPrefix :: "'e files_env_scheme \<Rightarrow> int option \<Rightarrow> string option \<Rightarrow> mfs_err + cid_prefix option" where
  "getPrefix env cidVer hashFun =
     (if cidVer = None \<and> hashFun = None then Inr None
      else
        (let ver = (case cidVer of None \<Rightarrow> 0 | Some v \<Rightarrow> v);
             ver = (if hashFun \<noteq> None \<and> ver = 0 then 1 else ver) in
         if ver \<noteq> 0 \<and> ver \<noteq> 1 then Inl (MErr ''unknown CID version'')
         else
           (case hashFun of
              None \<Rightarrow> Inr (Some (builder_for env (nat ver, None)))
            | Some h \<Rightarrow>
                (case mh_Names env (ToLower h) of
                   None \<Rightarrow> Inl (MErr ''unrecognized hash function'')
                 | Some code \<Rightarrow> Inr (Some (builder_for env (nat ver, Some code)))))))"

definition liftF :: "mfs_err + 'a \<Rightarrow> 'a fop" where
  "liftF r f s = (r, f, s)"

section \<open>The commands\<close>

definition ensureContainingDirectoryExists :: "'e files_env_scheme \<Rightarrow> string \<Rightarrow> cid_prefix option \<Rightarrow> unit fop" where
  "ensureContainingDirectoryExists env path b =
     (let dirtomake = path_Dir path in
      if dirtomake = ''/'' then okF ()
      else Mkdir_flush env \<lparr>Mkparents = True, opt_Flush = False, opt_CidBuilder = b\<rparr> dirtomake)"

definition getNodeFromPath :: "'e files_env_scheme \<Rightarrow> string \<Rightarrow> ipld_node fop" where
  "getNodeFromPath env p =
     (if prefix ''/ipfs/'' p then liftF (case ResolveNode env p of Inl e \<Rightarrow> Inl (MErr e) | Inr nd \<Rightarrow> Inr nd)
      else at_path env (lookup_parts p) (GetNode env))"

definition filesCp :: "'e files_env_scheme \<Rightarrow> bool \<Rightarrow> bool \<Rightarrow> int option \<Rightarrow> string option \<Rightarrow> string \<Rightarrow> string \<Rightarrow> unit fop" where
  "filesCp env mkParents flush cidVer hashFun srcArg dstArg =
     bindF (liftF (getPrefix env cidVer hashFun)) (\<lambda>b.
     bindF (liftF (checkPath srcArg)) (\<lambda>src.
     bindF (liftF (checkPath dstArg)) (\<lambda>dst.
       let src = trim_right ''/'' src;
           dst = (if last dst = CHR ''/'' then dst @ path_Base src else dst) in
       bindF (getNodeFromPath env src) (\<lambda>node.
       bindF (if mkParents then ensureContainingDirectoryExists env dst b else okF ()) (\<lambda>_.
       bindF (unitF (PutNode env dst node)) (\<lambda>_.
         if flush then bindF (FlushPath env dst) (\<lambda>_. okF ()) else okF ()))))))"

definition filesMv :: "'e files_env_scheme \<Rightarrow> bool \<Rightarrow> string \<Rightarrow> string \<Rightarrow> unit fop" where
  "filesMv env flush srcArg dstArg =
     bindF (liftF (checkPath srcArg)) (\<lambda>src.
     bindF (liftF (checkPath dstArg)) (\<lambda>dst.
     bindF (Mv env src dst) (\<lambda>_.
       if flush then bindF (FlushPath env ''/'') (\<lambda>_. okF ()) else okF ())))"

definition filesMkdir :: "'e files_env_scheme \<Rightarrow> bool \<Rightarrow> bool \<Rightarrow> int option \<Rightarrow> string option \<Rightarrow> string \<Rightarrow> unit fop" where
  "filesMkdir env dashp flush cidVer hashFun arg =
     bindF (liftF (checkPath arg)) (\<lambda>dirtomake.
     bindF (liftF (getPrefix env cidVer hashFun)) (\<lambda>b.
       Mkdir_flush env \<lparr>Mkparents = dashp, opt_Flush = flush, opt_CidBuilder = b\<rparr> dirtomake))"

text \<open>\<^verbatim>\<open>files flush\<close> prints the CID of what was flushed.\<close>

definition filesFlush :: "'e files_env_scheme \<Rightarrow> string option \<Rightarrow> cid fop" where
  "filesFlush env arg =
     bindF (FlushPath env (case arg of None \<Rightarrow> ''/'' | Some p \<Rightarrow> p)) (\<lambda>nd. okF (node_Cid env nd))"

definition updatePath :: "'e files_env_scheme \<Rightarrow> string \<Rightarrow> cid_prefix option \<Rightarrow> unit fop" where
  "updatePath env pth b =
     (case b of
        None \<Rightarrow> okF ()
      | Some b \<Rightarrow>
          at_path env (lookup_parts pth) (\<lambda>f s.
            case f of
              Directory dn cache \<Rightarrow> (Inr (), set_builder (Some b) (Directory dn cache), s)
            | File nd \<Rightarrow> (Inl (MErr ''can only update directories''), File nd, s)))"

definition filesChcid :: "'e files_env_scheme \<Rightarrow> bool \<Rightarrow> int option \<Rightarrow> string option \<Rightarrow> string option \<Rightarrow> unit fop" where
  "filesChcid env flush cidVer hashFun arg =
     (let path = (case arg of None \<Rightarrow> ''/'' | Some p \<Rightarrow> p) in
      bindF (liftF (getPrefix env cidVer hashFun)) (\<lambda>b.
      bindF (updatePath env path b) (\<lambda>_.
        if flush then bindF (FlushPath env path) (\<lambda>_. okF ()) else okF ())))"

text \<open>\<^verbatim>\<open>files rm\<close> takes several paths, and goes on after an error. The first function is the body of its loop.\<close>

definition rm_path :: "'e files_env_scheme \<Rightarrow> bool \<Rightarrow> bool \<Rightarrow> string \<Rightarrow> unit fop" where
  "rm_path env force dashr arg =
     bindF (liftF (checkPath arg)) (\<lambda>path.
       if path = ''/'' then failF (MErr ''cannot delete root'')
       else
         (let path = (if last path = CHR ''/'' then butlast path else path);
              (dir, name) = path_Split path; parts = lookup_parts dir in
          tryF (lookupDir env dir) (\<lambda>r.
            case r of
              Inl e \<Rightarrow> if force \<and> e = ErrNotExist then okF () else failF e
            | Inr _ \<Rightarrow>
                if force then
                  tryF (at_path env parts (dir_Unlink name)) (\<lambda>r.
                    case r of
                      Inl e \<Rightarrow> if e = ErrNotExist then okF () else failF e
                    | Inr _ \<Rightarrow> flush_up env parts)
                else
                  bindF (at_path env parts (dir_Child env name)) (\<lambda>child.
                    if (case child of Directory _ _ \<Rightarrow> \<not> dashr | File _ \<Rightarrow> False)
                    then failF (MErr ''is a directory, use -r to remove directories'')
                    else
                      bindF (at_path env parts (dir_Unlink name)) (\<lambda>_. flush_up env parts)))))"

fun rm_loop :: "'e files_env_scheme \<Rightarrow> bool \<Rightarrow> bool \<Rightarrow> string list \<Rightarrow> mfs_err list fop" where
  "rm_loop env force dashr [] f s = (Inr [], f, s)"
| "rm_loop env force dashr (arg # args) f s =
     (case rm_path env force dashr arg f s of
        (r, f', s') \<Rightarrow>
          (case rm_loop env force dashr args f' s' of
             (Inl e, f'', s'') \<Rightarrow> (Inl e, f'', s'')
           | (Inr errs, f'', s'') \<Rightarrow> (Inr ((case r of Inl e \<Rightarrow> [e] | Inr _ \<Rightarrow> []) @ errs), f'', s'')))"

text \<open>The errors are emitted, and the command fails when there is one.\<close>

definition filesRm :: "'e files_env_scheme \<Rightarrow> bool \<Rightarrow> bool \<Rightarrow> string list \<Rightarrow> (mfs_err list \<times> bool) fop" where
  "filesRm env force dashr args = bindF (rm_loop env force dashr args) (\<lambda>errs. okF (errs, errs = []))"

text \<open>\<^verbatim>\<open>files ls\<close>: the names, or with \<^verbatim>\<open>-l\<close> what \<^verbatim>\<open>Directory.List\<close> says of every entry.\<close>

record NodeListing =
  nl_Name :: string
  nl_Dir :: bool
  nl_Size :: nat
  nl_Hash :: "cid option"

definition file_Size :: "'e files_env_scheme \<Rightarrow> ipld_node \<Rightarrow> err + nat" where
  "file_Size env nd = (case nd of RawNode d \<Rightarrow> Inr (length d) | ProtoNode t d ls b \<Rightarrow> proto_FileSize env nd)"

definition list_entry :: "'e files_env_scheme \<Rightarrow> string \<Rightarrow> NodeListing fop" where
  "list_entry env name f s =
     (case GetNode env f s of
        (Inl e, f', s') \<Rightarrow> (Inl e, f', s')
      | (Inr nd, f', s') \<Rightarrow>
          (case f' of
             Directory _ _ \<Rightarrow> (Inr \<lparr>nl_Name = name, nl_Dir = True, nl_Size = 0, nl_Hash = Some (node_Cid env nd)\<rparr>, f', s')
           | File fnd \<Rightarrow>
               (case file_Size env fnd of
                  Inl e \<Rightarrow> (Inl (MErr e), f', s')
                | Inr n \<Rightarrow> (Inr \<lparr>nl_Name = name, nl_Dir = False, nl_Size = n, nl_Hash = Some (node_Cid env nd)\<rparr>, f', s'))))"

fun list_entries :: "'e files_env_scheme \<Rightarrow> string list \<Rightarrow> NodeListing list fop" where
  "list_entries env [] f s = (Inr [], f, s)"
| "list_entries env (name # names) f s =
     bindF (at_path env [name] (list_entry env name)) (\<lambda>e. bindF (list_entries env names) (\<lambda>es. okF (e # es))) f s"

definition ls_object :: "'e files_env_scheme \<Rightarrow> bool \<Rightarrow> string \<Rightarrow> NodeListing list fop" where
  "ls_object env long path f s =
     (case f of
        Directory dn cache \<Rightarrow>
          (if \<not> long
           then (Inr (map (\<lambda>n. \<lparr>nl_Name = n, nl_Dir = False, nl_Size = 0, nl_Hash = None\<rparr>) (ListNames f)), f, s)
           else list_entries env (ListNames f) f s)
      | File nd \<Rightarrow>
          (let name = snd (path_Split path) in
           if \<not> long then (Inr [\<lparr>nl_Name = name, nl_Dir = False, nl_Size = 0, nl_Hash = None\<rparr>], f, s)
           else bindF (list_entry env name) (\<lambda>e. okF [e]) f s))"

definition filesLs :: "'e files_env_scheme \<Rightarrow> bool \<Rightarrow> string option \<Rightarrow> NodeListing list fop" where
  "filesLs env long arg =
     bindF (liftF (checkPath (case arg of None \<Rightarrow> ''/'' | Some a \<Rightarrow> a))) (\<lambda>path.
       at_path env (lookup_parts path) (ls_object env long path))"

text \<open>\<^verbatim>\<open>files write\<close>. What happens to the content of the file, with the first error; what was changed before it is kept. The modifier
  is a parameter: truncating, seeking (which pads the file when the offset is past its end) and writing each give a new node and the
  nodes stored for it. The input is read completely or not at all.\<close>

definition write_body :: "'e files_env_scheme \<Rightarrow> bool \<Rightarrow> int option \<Rightarrow> int \<Rightarrow> err + string \<Rightarrow> ipld_node
    \<Rightarrow> err option \<times> ipld_node \<times> ipld_node list" where
  "write_body env trunc cnt offset input nd =
     (case (if trunc then mod_Truncate env nd else (None, nd, [])) of
        (Some e, nd1, ns1) \<Rightarrow> (Some e, nd1, ns1)
      | (None, nd1, ns1) \<Rightarrow>
          if (case cnt of Some n \<Rightarrow> n < 0 | None \<Rightarrow> False) then (Some ''cannot have negative byte count'', nd1, ns1)
          else
            (case mod_Seek env offset nd1 of
               (Some e, nd2, ns2) \<Rightarrow> (Some e, nd2, ns1 @ ns2)
             | (None, nd2, ns2) \<Rightarrow>
                 (case input of
                    Inl e \<Rightarrow> (Some e, nd2, ns1 @ ns2)
                  | Inr data \<Rightarrow>
                      (case mod_Write env offset (case cnt of None \<Rightarrow> data | Some n \<Rightarrow> take (nat n) data) nd2 of
                         (e, nd3, ns3) \<Rightarrow> (e, nd3, (ns1 @ ns2) @ ns3)))))"

fun store_nodes :: "'e mfs_env_scheme \<Rightarrow> ipld_node list \<Rightarrow> files_state \<Rightarrow> mfs_err option \<times> files_state" where
  "store_nodes env [] s = (None, s)"
| "store_nodes env (nd # nds) s =
     (case dag_Add env nd s of (Some e, s') \<Rightarrow> (Some e, s') | (None, s') \<Rightarrow> store_nodes env nds s')"

text \<open>Closing the descriptor stores the node, and then it is the node of the file.\<close>

definition store_file :: "'e mfs_env_scheme \<Rightarrow> ipld_node \<Rightarrow> ipld_node list \<Rightarrow> ipld_node fop" where
  "store_file env nd nodes f s =
     (case store_nodes env (nodes @ [nd]) s of (Some e, s') \<Rightarrow> (Inl e, f, s') | (None, s') \<Rightarrow> (Inr nd, File nd, s'))"

definition open_file :: "ipld_node fop" where
  "open_file f s =
     (case f of
        Directory _ _ \<Rightarrow> (Inl (MErr ''was not a file''), f, s)
      | File nd \<Rightarrow> if is_symlink nd then (Inl (MErr ''symlinks not yet supported''), f, s) else (Inr nd, f, s))"

text \<open>\<^verbatim>\<open>getFileHandle\<close>, with the creation of an empty file in a directory.\<close>

definition create_file :: "'e files_env_scheme \<Rightarrow> string \<Rightarrow> cid_prefix option \<Rightarrow> unit fop" where
  "create_file env fname b =
     in_dir (\<lambda>dnode cache s.
       let nd = ProtoNode TFile (new_file_data env) [] (case b of None \<Rightarrow> CidBuilder dnode | Some b \<Rightarrow> b) in
       case dir_AddChild env fname nd dnode cache s of
         (Some e, dnode', cache', s') \<Rightarrow> (Inl e, dnode', cache', s')
       | (None, dnode', cache', s') \<Rightarrow> (Inr (), dnode', cache', s'))"

definition getFileHandle :: "'e files_env_scheme \<Rightarrow> string \<Rightarrow> bool \<Rightarrow> cid_prefix option \<Rightarrow> unit fop" where
  "getFileHandle env path create b =
     tryF (at_path env (lookup_parts path) (\<lambda>f s. (Inr f, f, s))) (\<lambda>r.
       case r of
         Inr (File _) \<Rightarrow> okF ()
       | Inr (Directory _ _) \<Rightarrow> failF (MErr ''was not a file'')
       | Inl e \<Rightarrow>
           if e \<noteq> ErrNotExist \<or> \<not> create then failF e
           else
             (let (dirname, fname) = path_Split path; parts = lookup_parts dirname in
              bindF (lookupDir env dirname) (\<lambda>_.
              bindF (at_path env parts (create_file env fname b)) (\<lambda>_.
              bindF (at_path env parts (dir_Child env fname)) (\<lambda>child.
                case child of File _ \<Rightarrow> okF () | Directory _ _ \<Rightarrow> failF (MErr ''expected *mfs.File, didn't get it'')))))) "

definition filesWrite :: "'e files_env_scheme \<Rightarrow> bool \<Rightarrow> bool \<Rightarrow> bool \<Rightarrow> bool \<Rightarrow> int option \<Rightarrow> string option \<Rightarrow> int \<Rightarrow> int option
    \<Rightarrow> string \<Rightarrow> err + string \<Rightarrow> unit fop" where
  "filesWrite env create mkParents trunc flush cidVer hashFun offset cnt arg input =
     bindF (liftF (checkPath arg)) (\<lambda>path.
     bindF (liftF (getPrefix env cidVer hashFun)) (\<lambda>b.
       if offset < 0 then failF (MErr ''cannot have negative write offset'')
       else
         bindF (if mkParents then ensureContainingDirectoryExists env path b else okF ()) (\<lambda>_.
         bindF (getFileHandle env path create b) (\<lambda>_.
         bindF (at_path env (lookup_parts path) open_file) (\<lambda>nd.
           let (e, nd', nodes) = write_body env trunc cnt offset input nd; parts = lookup_parts path in
           tryF (if flush then bindF (update_path env parts (store_file env nd' nodes)) (root_update env)
                 else bindF (at_path env parts (store_file env nd' nodes)) (\<lambda>_. okF ())) (\<lambda>r.
             case e of Some e \<Rightarrow> failF (MErr e) | None \<Rightarrow> liftF r))))))"

text \<open>\<^verbatim>\<open>files read\<close>. The bytes of a file are those its DAG reader gives. Seeking is never past the end here, so that it pads nothing. Closing
  the descriptor stores the node that was read once more, and the error of that is dropped.\<close>

definition read_body :: "'e files_env_scheme \<Rightarrow> int \<Rightarrow> int option \<Rightarrow> ipld_node \<Rightarrow> err + string" where
  "read_body env offset cnt nd =
     (if offset < 0 then Inl ''cannot specify negative offset''
      else
        (case file_Size env nd of
           Inl e \<Rightarrow> Inl e
         | Inr filen \<Rightarrow>
             if offset > int filen then Inl ''offset was past end of file''
             else
               (case mod_Seek env offset nd of
                  (Some e, _) \<Rightarrow> Inl e
                | (None, _) \<Rightarrow>
                    if (case cnt of Some n \<Rightarrow> n < 0 | None \<Rightarrow> False) then Inl (''cannot specify negative '' @ [CHR 0x27] @ ''count'' @ [CHR 0x27])
                    else
                      (case read_bytes env nd of
                         Inl e \<Rightarrow> Inl e
                       | Inr bs \<Rightarrow>
                           (let rest = drop (nat offset) bs in
                            Inr (case cnt of None \<Rightarrow> rest | Some n \<Rightarrow> take (nat n) rest))))))"

definition filesRead :: "'e files_env_scheme \<Rightarrow> int \<Rightarrow> int option \<Rightarrow> string \<Rightarrow> string fop" where
  "filesRead env offset cnt arg =
     bindF (liftF (checkPath arg)) (\<lambda>path.
     bindF (at_path env (lookup_parts path) open_file) (\<lambda>nd.
     tryF (at_path env (lookup_parts path) (store_file env nd [])) (\<lambda>_.
       liftF (case read_body env offset cnt nd of Inl e \<Rightarrow> Inl (MErr e) | Inr bs \<Rightarrow> Inr bs))))"

text \<open>\<^verbatim>\<open>files stat\<close>: what a node is, and how much below it is local. The walk counts a block once for every way to it.\<close>

record statOutput =
  st_Cid :: cid
  st_Blocks :: nat
  st_Size :: nat
  st_CumulativeSize :: nat
  st_Type :: string

definition statNode :: "'e files_env_scheme \<Rightarrow> ipld_node \<Rightarrow> err + statOutput" where
  "statNode env nd =
     (case cumulative_Size env nd of
        Inl e \<Rightarrow> Inl e
      | Inr cumulsize \<Rightarrow>
          (case nd of
             RawNode d \<Rightarrow>
               Inr \<lparr>st_Cid = node_Cid env nd, st_Blocks = 0, st_Size = cumulsize, st_CumulativeSize = cumulsize, st_Type = ''file''\<rparr>
           | ProtoNode t d ls b \<Rightarrow>
               if t = NotUnixfs then Inl ''not a unixfs node''
               else if t = TSymlink then Inl ''unrecognized node type''
               else
                 (case proto_FileSize env nd of
                    Inl e \<Rightarrow> Inl e
                  | Inr n \<Rightarrow>
                      Inr \<lparr>st_Cid = node_Cid env nd, st_Blocks = length ls, st_Size = n, st_CumulativeSize = cumulsize,
                           st_Type = (if t = TDirectory then ''directory'' else ''file'')\<rparr>)))"

fun walkBlock :: "(cid \<Rightarrow> ipld_err + ipld_node) \<Rightarrow> (ipld_node \<Rightarrow> 64 word) \<Rightarrow> nat \<Rightarrow> ipld_node \<Rightarrow> (ipld_err option \<times> bool \<times> 64 word) option"
  and walkLinks :: "(cid \<Rightarrow> ipld_err + ipld_node) \<Rightarrow> (ipld_node \<Rightarrow> 64 word) \<Rightarrow> nat \<Rightarrow> cid list \<Rightarrow> bool \<Rightarrow> 64 word
    \<Rightarrow> (ipld_err option \<times> bool \<times> 64 word) option" where
  "walkBlock get sz 0 nd = None"
| "walkBlock get sz (Suc n) nd = walkLinks get sz n (map snd (Links nd)) True (sz nd)"
| "walkLinks get sz n [] local sizeLocal = Some (None, local, sizeLocal)"
| "walkLinks get sz n (c # cs) local sizeLocal =
     (case get c of
        Inl IpldErrNotFound \<Rightarrow> walkLinks get sz n cs False sizeLocal
      | Inl e \<Rightarrow> Some (Some e, local, sizeLocal)
      | Inr child \<Rightarrow>
          (case walkBlock get sz n child of
             None \<Rightarrow> None
           | Some (Some e, _, _) \<Rightarrow> Some (Some e, local, sizeLocal)
           | Some (None, childLocal, childSize) \<Rightarrow> walkLinks get sz n cs (local \<and> childLocal) (sizeLocal + childSize)))"

definition defaultStatFormat :: string where
  "defaultStatFormat = ''<hash>'' @ [CHR 0x0A] @ ''Size: <size>'' @ [CHR 0x0A] @ ''CumulativeSize: <cumulsize>'' @ [CHR 0x0A]
     @ ''ChildBlocks: <childs>'' @ [CHR 0x0A] @ ''Type: <type>''"

definition moreThanOne :: "bool \<Rightarrow> bool \<Rightarrow> bool \<Rightarrow> bool" where
  "moreThanOne a b c = (a \<and> b \<or> b \<and> c \<or> a \<and> c)"

definition statGetFormatOptions :: "bool \<Rightarrow> bool \<Rightarrow> string \<Rightarrow> err + string" where
  "statGetFormatOptions hash sz fmt =
     (if moreThanOne hash sz (fmt \<noteq> defaultStatFormat) then Inl ''format was set by multiple options. Only one format option is allowed''
      else if hash then Inr ''<hash>''
      else if sz then Inr ''<cumulsize>''
      else Inr fmt)"

text \<open>With \<^verbatim>\<open>--with-local\<close> the walk asks a service that does not fetch (\<open>offline\<close>); \<open>rawLen\<close> is the length of a block. The walk may take
  \<open>fuel\<close> levels.\<close>

definition filesStat :: "'e files_env_scheme \<Rightarrow> (cid \<Rightarrow> ipld_err + ipld_node) \<Rightarrow> (ipld_node \<Rightarrow> 64 word) \<Rightarrow> nat
    \<Rightarrow> bool \<Rightarrow> bool \<Rightarrow> bool \<Rightarrow> string \<Rightarrow> string \<Rightarrow> (statOutput \<times> (bool \<times> 64 word) option) fop" where
  "filesStat env offline rawLen fuel withLocal hash sz fmt arg =
     bindF (liftF (case statGetFormatOptions hash sz fmt of Inl e \<Rightarrow> Inl (MErr e) | Inr x \<Rightarrow> Inr x)) (\<lambda>_.
     bindF (liftF (checkPath arg)) (\<lambda>path.
     bindF (getNodeFromPath env path) (\<lambda>nd.
       case statNode env nd of
         Inl e \<Rightarrow> failF (MErr e)
       | Inr o1 \<Rightarrow>
           if \<not> withLocal then okF (o1, None)
           else
             (case walkBlock offline rawLen fuel nd of
                None \<Rightarrow> failF Diverged
              | Some (Some e, _, _) \<Rightarrow> failF (MErr (case e of IpldErrNotFound \<Rightarrow> ''merkledag: not found'' | IpldErr m \<Rightarrow> m))
              | Some (None, local, sizeLocal) \<Rightarrow> okF (o1, Some (local, sizeLocal))))))"

end
