(* ===== verification/Files_Props.thy ===== *)
theory Files_Props
  imports Files
begin

text \<open>
  What the commands on the mutable file system do to what it shows. \<open>op_spec\<close> is a contract of an operation: it keeps the
  invariant of the file system on every path, errors included, only adds to the store, and relates what is shown before and after. The contracts
  of the commands follow from those of the operations they are made of.
\<close>

section \<open>Contracts\<close>

type_synonym fview = "string list \<Rightarrow> entry option"

definition op_spec :: "'e mfs_env_scheme \<Rightarrow> (dagmap \<Rightarrow> bool) \<Rightarrow> 'a fop
    \<Rightarrow> (mfs_err + 'a \<Rightarrow> dagmap \<Rightarrow> fview \<Rightarrow> dagmap \<Rightarrow> fview \<Rightarrow> bool) \<Rightarrow> bool" where
  "op_spec env P op Q =
     (\<forall>f s r f' s'. op f s = (r, f', s') \<longrightarrow> wf_fs env (dag s) f \<longrightarrow> addressed env (dag s) \<longrightarrow> P (dag s) \<longrightarrow>
        wf_fs env (dag s') f' \<and> addressed env (dag s') \<and> dag s \<subseteq>\<^sub>m dag s' \<and> Q r (dag s) (view (dag s) f) (dag s') (view (dag s') f'))"

lemma op_specI:
  assumes "\<And>f s r f' s'. op f s = (r, f', s') \<Longrightarrow> wf_fs env (dag s) f \<Longrightarrow> addressed env (dag s) \<Longrightarrow> P (dag s) \<Longrightarrow>
        wf_fs env (dag s') f' \<and> addressed env (dag s') \<and> dag s \<subseteq>\<^sub>m dag s' \<and> Q r (dag s) (view (dag s) f) (dag s') (view (dag s') f')"
  shows "op_spec env P op Q"
  using assms unfolding op_spec_def by blast

lemma op_specD:
  assumes "op_spec env P op Q" "op f s = (r, f', s')" "wf_fs env (dag s) f" "addressed env (dag s)" "P (dag s)"
  shows "wf_fs env (dag s') f'" "addressed env (dag s')" "dag s \<subseteq>\<^sub>m dag s'" "Q r (dag s) (view (dag s) f) (dag s') (view (dag s') f')"
  using assms unfolding op_spec_def by blast+

lemma op_spec_weaken:
  assumes "op_spec env P op Q" "\<And>D. P' D \<Longrightarrow> P D" "\<And>r D V D' V'. P' D \<Longrightarrow> D \<subseteq>\<^sub>m D' \<Longrightarrow> Q r D V D' V' \<Longrightarrow> Q' r D V D' V'"
  shows "op_spec env P' op Q'"
proof (rule op_specI)
  fix f s r f' s'
  assume a: "op f s = (r, f', s')" "wf_fs env (dag s) f" "addressed env (dag s)" "P' (dag s)"
  note d = op_specD [OF assms(1) a(1-3) assms(2) [OF a(4)]]
  show "wf_fs env (dag s') f' \<and> addressed env (dag s') \<and> dag s \<subseteq>\<^sub>m dag s' \<and> Q' r (dag s) (view (dag s) f) (dag s') (view (dag s') f')"
    using d(1-3) assms(3) [OF a(4) d(3,4)] by blast
qed

definition bind_rel where
  "bind_rel Q1 Q2 r D V D'' V'' =
     ((\<exists>e. r = Inl e \<and> Q1 (Inl e) D V D'' V'') \<or> (\<exists>x D' V'. D' \<subseteq>\<^sub>m D'' \<and> Q1 (Inr x) D V D' V' \<and> Q2 x r D' V' D'' V''))"

lemma op_spec_bind:
  assumes "op_spec env P m Q1" "\<And>x. op_spec env (P2 x) (k x) (Q2 x)"
    "\<And>x D V D' V'. P D \<Longrightarrow> D \<subseteq>\<^sub>m D' \<Longrightarrow> Q1 (Inr x) D V D' V' \<Longrightarrow> P2 x D'"
  shows "op_spec env P (bindF m k) (bind_rel Q1 Q2)"
proof (rule op_specI)
  fix f s r f' s'
  assume a: "bindF m k f s = (r, f', s')" "wf_fs env (dag s) f" "addressed env (dag s)" "P (dag s)"
  obtain x f1 s1 where m: "m f s = (x, f1, s1)" by (metis prod_cases3)
  note d = op_specD [OF assms(1) m a(2-4)]
  show "wf_fs env (dag s') f' \<and> addressed env (dag s') \<and> dag s \<subseteq>\<^sub>m dag s'
    \<and> bind_rel Q1 Q2 r (dag s) (view (dag s) f) (dag s') (view (dag s') f')"
  proof (cases x)
    case (Inl e)
    then show ?thesis using a(1) m d by (auto simp: bindF_def bind_rel_def)
  next
    case (Inr y)
    then have k: "k y f1 s1 = (r, f', s')" using a(1) m by (simp add: bindF_def)
    note e = op_specD [OF assms(2) k d(1,2) assms(3) [OF a(4) d(3) d(4) [unfolded Inr]]]
    show ?thesis using e d(4) Inr map_le_trans [OF d(3) e(3)] by (auto simp: bind_rel_def)
  qed
qed

text \<open>A continuation that also sees errors.\<close>

lemma op_spec_try:
  assumes "op_spec env P m Q1" "\<And>x. op_spec env (P2 x) (k x) (Q2 x)"
    "\<And>x D V D' V'. P D \<Longrightarrow> D \<subseteq>\<^sub>m D' \<Longrightarrow> Q1 x D V D' V' \<Longrightarrow> P2 x D'"
  shows "op_spec env P (tryF m k) (\<lambda>r D V D'' V''. \<exists>x D' V'. D' \<subseteq>\<^sub>m D'' \<and> Q1 x D V D' V' \<and> Q2 x r D' V' D'' V'')"
proof (rule op_specI)
  fix f s r f' s'
  assume a: "tryF m k f s = (r, f', s')" "wf_fs env (dag s) f" "addressed env (dag s)" "P (dag s)"
  obtain x f1 s1 where m: "m f s = (x, f1, s1)" by (metis prod_cases3)
  note d = op_specD [OF assms(1) m a(2-4)]
  have k: "k x f1 s1 = (r, f', s')" using a(1) m by (simp add: tryF_def)
  note e = op_specD [OF assms(2) k d(1,2) assms(3) [OF a(4) d(3,4)]]
  show "wf_fs env (dag s') f' \<and> addressed env (dag s') \<and> dag s \<subseteq>\<^sub>m dag s'
    \<and> (\<exists>x D' V'. D' \<subseteq>\<^sub>m dag s' \<and> Q1 x (dag s) (view (dag s) f) D' V' \<and> Q2 x r D' V' (dag s') (view (dag s') f'))"
    using e d(4) map_le_trans [OF d(3) e(3)] by blast
qed

lemma op_spec_pure:
  "op_spec env P (okF x) (\<lambda>r D V D' V'. r = Inr x \<and> D' = D \<and> V' = V)"
  "op_spec env P (failF e) (\<lambda>r D V D' V'. r = Inl e \<and> D' = D \<and> V' = V)"
  "op_spec env P (liftF y) (\<lambda>r D V D' V'. r = y \<and> D' = D \<and> V' = V)"
  by (auto simp: op_spec_def okF_def failF_def liftF_def)

section \<open>Nodes of objects, with errors\<close>

text \<open>Also a sync that fails keeps the file system.\<close>

definition partly_synced where
  "partly_synced env D es dn D' es' dn' =
     (map fst es' = map fst es \<and> is_dir dn' \<and> distinct (map fst (Links dn')) \<and> fst ` set (Links dn') = fst ` set (Links dn)
      \<and> wf_cache env D' es' \<and> (\<forall>n. n \<notin> fst ` set es \<longrightarrow> map_of (Links dn') n = map_of (Links dn) n)
      \<and> (\<forall>n. rel_option (\<lambda>g g'. \<forall>ps. view D' g' ps = view D g ps) (map_of es n) (map_of es' n)))"

lemma wf_uncached:
  assumes "wf_fs env D (Directory dn cache)" "map_of (Links dn) n = Some c" "n \<notin> fst ` set cache"
  shows "\<exists>m. D c = Some m \<and> fs_tree D m"
proof -
  have "\<forall>(n, c) \<in> set (Links dn). n \<notin> fst ` set cache \<longrightarrow> (\<exists>m. D c = Some m \<and> fs_tree D m)" using assms(1) by simp
  then show ?thesis using map_of_SomeD [OF assms(2)] assms(3) by blast
qed

lemma partly_synced_dir:
  assumes ps: "partly_synced env D cache dn D' cache' dn'" and wf: "wf_fs env D (Directory dn cache)" and le: "D \<subseteq>\<^sub>m D'"
  shows "wf_fs env D' (Directory dn' cache')" "view D' (Directory dn' cache') qs = view D (Directory dn cache) qs"
proof -
  have d: "map fst cache' = map fst cache" "is_dir dn'" "distinct (map fst (Links dn'))" "fst ` set (Links dn') = fst ` set (Links dn)"
    "wf_cache env D' cache'" "\<And>n. n \<notin> fst ` set cache \<Longrightarrow> map_of (Links dn') n = map_of (Links dn) n"
    "\<And>n. rel_option (\<lambda>g g'. \<forall>ps. view D' g' ps = view D g ps) (map_of cache n) (map_of cache' n)"
    using ps unfolding partly_synced_def by blast+
  have names: "fst ` set cache' = fst ` set cache" using d(1) by (metis list.set_map)
  have tree: "\<exists>m. D' c = Some m \<and> fs_tree D' m \<and> D c = Some m \<and> fs_tree D m" if nc: "map_of (Links dn) n = Some c" "n \<notin> fst ` set cache" for n c
  proof -
    obtain m where "D c = Some m" "fs_tree D m" using wf_uncached [OF wf nc] by blast
    then show ?thesis using map_leD [OF le] fs_tree_le [OF _ le] by blast
  qed
  have "\<exists>m. D' c = Some m \<and> fs_tree D' m" if nc: "(n, c) \<in> set (Links dn')" "n \<notin> fst ` set cache'" for n c
  proof -
    have "map_of (Links dn') n = Some c" using nc(1) d(3) by simp
    then show ?thesis using tree [of n c] d(6) [of n] nc(2) names by auto
  qed
  moreover have "distinct (map fst cache')" using d(1) wf by simp
  ultimately show "wf_fs env D' (Directory dn' cache')" using d wf names by auto
  show "view D' (Directory dn' cache') qs = view D (Directory dn cache) qs"
  proof (cases qs)
    case (Cons p ps)
    show ?thesis
    proof (cases "map_of cache p")
      case None
      then have p: "p \<notin> fst ` set cache" "map_of cache' p = None" using names by (simp_all add: map_of_eq_None_iff)
      show ?thesis
      proof (cases "map_of (Links dn) p")
        case (Some c)
        then obtain m where m: "D' c = Some m" "D c = Some m" "fs_tree D m" using tree [OF Some p(1)] by blast
        then show ?thesis using Some None p d(2) d(6) [OF p(1)] wf node_at_le [OF m(3) le] Cons by (simp add: view.simps)
      qed (use None p d(2) d(6) [OF p(1)] wf Cons in \<open>simp add: view.simps\<close>)
    next
      case (Some g)
      then obtain g' where "map_of cache' p = Some g'" "\<forall>ps. view D' g' ps = view D g ps"
        using d(7) [of p] by (cases "map_of cache' p") auto
      then show ?thesis using Some Cons by (simp add: view.simps)
    qed
  qed (use d wf in \<open>simp add: entry_of_def\<close>)
qed

lemma sync_Cons:
  assumes g: "\<forall>ps. view D1 g' ps = view D g ps" "wf_fs env D1 g'" and es: "distinct (map fst ((n, g) # es))" "n \<in> fst ` set (Links dn)" "is_dir dn"
    and le: "D1 \<subseteq>\<^sub>m D2" and ps: "partly_synced env D1 es (add_link n c dn) D2 es' dn'"
    and wf: "wf_cache env D es" and le0: "D \<subseteq>\<^sub>m D1"
  shows "partly_synced env D ((n, g) # es) dn D2 ((n, g') # es') dn'"
proof -
  have d: "map fst es' = map fst es" "is_dir dn'" "distinct (map fst (Links dn'))" "fst ` set (Links dn') = fst ` set (Links (add_link n c dn))"
    "wf_cache env D2 es'" "\<And>m. m \<notin> fst ` set es \<Longrightarrow> map_of (Links dn') m = map_of (Links (add_link n c dn)) m"
    "\<And>m. rel_option (\<lambda>g g'. \<forall>ps. view D2 g' ps = view D1 g ps) (map_of es m) (map_of es' m)"
    using ps unfolding partly_synced_def by blast+
  note L = add_link_set_entry [OF es(3), of n c]
  have names: "fst ` set (Links dn') = fst ` set (Links dn)" using d(4) L es(2) by auto
  have links: "map_of (Links dn') m = map_of (Links dn) m" if m: "m \<notin> fst ` set ((n, g) # es)" for m
    using d(6) [of m] m L by simp
  have wfg: "wf_fs env D2 g'" by (rule wf_le(1) [OF g(2) le])
  have vg: "view D2 g' qs = view D g qs" for qs using view_le [OF g(2) le] g(1) by simp
  have ve: "rel_option (\<lambda>g g'. \<forall>ps. view D2 g' ps = view D g ps) (map_of es m) (map_of es' m)" for m
  proof (cases "map_of es m")
    case (Some h)
    then obtain h' where h': "map_of es' m = Some h'" "\<forall>ps. view D2 h' ps = view D1 h ps" using d(7) [of m] by (cases "map_of es' m") auto
    have "wf_fs env D h" using wf_cache_map_of [OF wf Some] .
    then have "view D1 h qs = view D h qs" for qs using view_le [OF _ le0] by blast
    then show ?thesis using Some h' by simp
  next
    case None
    then show ?thesis using d(7) [of m] by simp
  qed
  show ?thesis unfolding partly_synced_def using d(1,2,3,5) names links wfg vg ve by simp
qed

lemma GetNode_keeps:
  "GetNode env f s = (r, f', s') \<Longrightarrow> wf_fs env (dag s) f \<Longrightarrow> addressed env (dag s) \<Longrightarrow> sound_env env
    \<Longrightarrow> grown env s s' \<and> wf_fs env (dag s') f' \<and> (\<forall>ps. view (dag s') f' ps = view (dag s) f ps)"
  "sync_entries env es dn s = (x, es', dn', s') \<Longrightarrow> wf_cache env (dag s) es \<Longrightarrow> distinct (map fst es) \<Longrightarrow> is_dir dn
    \<Longrightarrow> distinct (map fst (Links dn)) \<Longrightarrow> fst ` set es \<subseteq> fst ` set (Links dn) \<Longrightarrow> addressed env (dag s) \<Longrightarrow> sound_env env
    \<Longrightarrow> grown env s s' \<and> partly_synced env (dag s) es dn (dag s') es' dn'"
proof (induction env f s and env es dn s arbitrary: r f' s' and x es' dn' s' rule: GetNode_sync_entries.induct)
  case (2 env dnode cache s)
  obtain x es1 dn1 s1 where sy: "sync_entries env cache dnode s = (x, es1, dn1, s1)" by (metis prod_cases4)
  have "grown env s s1 \<and> partly_synced env (dag s) cache dnode (dag s1) es1 dn1" by (rule 2(1) [OF sy]) (use 2(3-5) in auto)
  then have g1: "grown env s s1" and p1: "partly_synced env (dag s) cache dnode (dag s1) es1 dn1" by auto
  show ?case
  proof (cases x)
    case None
    have "GetNode env (Directory dnode cache) s = (r, f', s')" by (rule 2(2))
    show ?thesis
    proof (cases r)
      case (Inr nd)
      from GetNode_ok(1) [OF 2(2) [unfolded Inr] 2(3-5)] show ?thesis by (auto simp: saved_def)
    next
      case (Inl e)
      then obtain s2 where a: "dag_Add env dn1 s1 = (Some e, s2)" "f' = Directory dn1 es1" "s' = s2" using 2(2) sy None by (auto split: prod.splits option.splits)
      have "dag s2 = dag s1" "dag_state.more s2 = dag_state.more s1" using a(1) by (auto simp: dag_Add_def split: option.splits)
      then show ?thesis using g1 partly_synced_dir [OF p1 2(3)] a by (auto simp: grown_def)
    qed
  next
    case (Some e)
    then have "f' = Directory dn1 es1" "s' = s1" using 2(2) sy by auto
    then show ?thesis using g1 partly_synced_dir [OF p1 2(3)] by (auto simp: grown_def)
  qed
next
  case (3 env dn s)
  then show ?case by (auto simp: partly_synced_def)
next
  case (4 env name entry cache dnode s)
  obtain y g' s1 where gn: "GetNode env entry s = (y, g', s1)" by (metis prod_cases3)
  have ih1: "grown env s s1" "wf_fs env (dag s1) g'" "\<forall>ps. view (dag s1) g' ps = view (dag s) entry ps"
    using 4(1) [OF gn] 4(4,9,10) by auto
  have le1: "dag s \<subseteq>\<^sub>m dag s1" and ad1: "addressed env (dag s1)" using ih1(1) 4(9) by (auto simp: grown_def)
  have wfc: "wf_cache env (dag s) cache" using 4(4) by simp
  show ?case
  proof (cases y)
    case (Inl e)
    then have run: "es' = (name, g') # cache" "dn' = dnode" "s' = s1" using 4(3) gn by auto
    have "rel_option (\<lambda>g g'. \<forall>ps. view (dag s1) g' ps = view (dag s) g ps) (map_of cache m) (map_of cache m)" for m
      using view_le [OF wf_cache_map_of [OF wfc] le1] by (cases "map_of cache m") auto
    then have "partly_synced env (dag s) ((name, entry) # cache) dnode (dag s1) es' dnode"
      using 4(6,7) ih1 wf_le(2) [OF wfc le1] by (simp add: partly_synced_def run)
    then show ?thesis using ih1(1) run by simp
  next
    case (Inr nd1)
    obtain z es2 dn2 s2 where sy: "sync_entries env cache (add_link name (node_Cid env nd1) dnode) s1 = (z, es2, dn2, s2)" by (metis prod_cases4)
    then have run: "es' = (name, g') # es2" "dn' = dn2" "s' = s2" using 4(3) gn Inr by auto
    have L: "Links (add_link name (node_Cid env nd1) dnode) = set_entry name (node_Cid env nd1) (Links dnode)"
      by (rule add_link_set_entry [OF 4(6)])
    have "grown env s1 s2 \<and> partly_synced env (dag s1) cache (add_link name (node_Cid env nd1) dnode) (dag s2) es2 dn2"
      by (rule 4(2) [OF gn [symmetric] Inr refl sy]) (use 4(4-10) L ad1 wf_le(2) [OF _ le1] in auto)
    then have ih2: "grown env s1 s2" "partly_synced env (dag s1) cache (add_link name (node_Cid env nd1) dnode) (dag s2) es2 dn2" by auto
    have le2: "dag s1 \<subseteq>\<^sub>m dag s2" using ih2(1) by (simp add: grown_def)
    have "partly_synced env (dag s) ((name, entry) # cache) dnode (dag s2) ((name, g') # es2) dn2"
      by (rule sync_Cons [OF ih1(3,2) 4(5) _ 4(6) le2 ih2(2) wfc le1]) (use 4(8) in simp)
    then show ?thesis using grown_trans [OF ih1(1) ih2(1)] run by simp
  qed
qed auto

section \<open>Objects at a path\<close>

text \<open>Either there is nothing at the path and nothing changes, or the operation ran on what is there.\<close>

definition at_rel :: "string list \<Rightarrow> (mfs_err + 'a \<Rightarrow> dagmap \<Rightarrow> fview \<Rightarrow> dagmap \<Rightarrow> fview \<Rightarrow> bool)
    \<Rightarrow> mfs_err + 'a \<Rightarrow> dagmap \<Rightarrow> fview \<Rightarrow> dagmap \<Rightarrow> fview \<Rightarrow> bool" where
  "at_rel P Q r D V D' V' =
     ((\<exists>e. r = Inl e \<and> V P = None \<and> V' = V) \<or> (V P \<noteq> None \<and> (\<exists>W. Q r D (\<lambda>qs. V (P @ qs)) D' W \<and> V' = with_node P W V)))"

lemma view_root_Some [simp]: "view D f [] \<noteq> None" "\<exists>e. view D f [] = Some e"
  by (cases f; simp)+

lemma view_ext: "(\<And>ps. view D f ps = V ps) \<Longrightarrow> view D f = V"
  by (rule ext)

lemma at_path_spec:
  assumes "op_spec env P op Q" "sound_env env"
  shows "op_spec env P (at_path env parts op) (at_rel parts Q)"
proof (induction parts)
  case Nil
  show ?case
  proof (rule op_specI)
    fix f s r f' s'
    assume "at_path env [] op f s = (r, f', s')" "wf_fs env (dag s) f" "addressed env (dag s)" "P (dag s)"
    from op_specD [OF assms(1) this(1) [unfolded at_path.simps] this(2-4)]
    show "wf_fs env (dag s') f' \<and> addressed env (dag s') \<and> dag s \<subseteq>\<^sub>m dag s'
      \<and> at_rel [] Q r (dag s) (view (dag s) f) (dag s') (view (dag s') f')"
      by (simp add: at_rel_def)
  qed
next
  case (Cons p parts)
  show ?case
  proof (rule op_specI)
    fix f s r f' s'
    assume a: "at_path env (p # parts) op f s = (r, f', s')" "wf_fs env (dag s) f" "addressed env (dag s)" "P (dag s)"
    show "wf_fs env (dag s') f' \<and> addressed env (dag s') \<and> dag s \<subseteq>\<^sub>m dag s'
      \<and> at_rel (p # parts) Q r (dag s) (view (dag s) f) (dag s') (view (dag s') f')"
    proof (cases f)
      case (File nd)
      then show ?thesis using a node_at_leaf [of nd "dag s" "p # parts"] by (auto simp: at_rel_def)
    next
      case (Directory dn cache)
      obtain x c1 s1 where c: "childUnsync env p dn cache s = (x, c1, s1)" by (metis prod_cases3)
      note cu = childUnsync_ok [OF c a(2) [unfolded Directory] a(3) assms(2)]
      show ?thesis
      proof (cases x)
        case (Inl e)
        note ab = cu(6) [OF Inl]
        then have "view (dag s) f (p # parts) = None" using view_absent Directory by simp
        then show ?thesis using a c Inl ab Directory by (auto simp: at_rel_def)
      next
        case (Inr g)
        obtain y g' s2 where m: "at_path env parts op g s1 = (y, g', s2)" by (metis prod_cases3)
        have run: "r = y" "f' = Directory dn (set_entry p g' c1)" "s' = s2" using a(1) c Inr m Directory by auto
        have g: "wf_fs env (dag s1) g" "p \<in> fst ` set (Links dn)" "\<And>qs. view (dag s) f (p # qs) = view (dag s) g qs"
          using cu(5) [OF Inr] cu(1) Directory by auto
        note ih = op_specD [OF Cons.IH m g(1) a(3,4) [folded cu(1)]]
        have le: "dag s \<subseteq>\<^sub>m dag s2" using ih(3) cu(1) by simp
        note we = wf_set_entry [OF cu(3) g(2) ih(1) le]
        have v: "view (dag s') f' ps = (case ps of [] \<Rightarrow> Some EDir | q # qs \<Rightarrow> if q = p then view (dag s2) g' qs else view (dag s) f ps)" for ps
          using we(2) [of ps] cu(4) run Directory by (cases ps) auto
        have root: "view (dag s) f [] = Some EDir" using a(2) Directory by (simp add: entry_of_def)
        have "at_rel (p # parts) Q r (dag s) (view (dag s) f) (dag s') (view (dag s') f')"
        proof (cases "view (dag s) g parts")
          case None
          then obtain e where e: "y = Inl e" "view (dag s2) g' = view (dag s1) g" using ih(4) cu(1) by (auto simp: at_rel_def)
          have "view (dag s') f' = view (dag s) f" by (rule ext) (use v e g(3) cu(1) root in \<open>auto split: list.splits\<close>)
          then show ?thesis using None e run g(3) by (auto simp: at_rel_def)
        next
          case (Some en)
          then obtain W where W: "Q y (dag s) (\<lambda>qs. view (dag s) g (parts @ qs)) (dag s2) W" "view (dag s2) g' = with_node parts W (view (dag s) g)"
            using ih(4) cu(1) by (auto simp: at_rel_def)
          have gv: "(\<lambda>qs. view (dag s) f (p # qs)) = view (dag s) g" using g(3) by (intro ext) simp
          have "view (dag s') f' = with_node (p # parts) W (view (dag s) f)"
            by (rule ext) (use v W(2) root in \<open>auto simp: with_node_Cons gv split: list.splits\<close>)
          then show ?thesis using Some W(1) run g(3) by (auto simp: at_rel_def)
        qed
        then show ?thesis using run we(1) ih(2) le by simp
      qed
    qed
  qed
qed

section \<open>Operations on a directory\<close>

text \<open>What is shown when a name is gone.\<close>

definition without :: "string list \<Rightarrow> fview \<Rightarrow> fview" where
  "without P V ps = (if prefix P ps then None else V ps)"

lemma without_with: "without P V = with_node P (\<lambda>qs. None) V"
  by (rule ext) (simp add: without_def with_node_def)

lemma in_dir_spec:
  assumes "\<And>dn cache s r dn' cache' s'. op dn cache s = (r, dn', cache', s') \<Longrightarrow> wf_fs env (dag s) (Directory dn cache)
      \<Longrightarrow> addressed env (dag s) \<Longrightarrow> P (dag s)
      \<Longrightarrow> wf_fs env (dag s') (Directory dn' cache') \<and> addressed env (dag s') \<and> dag s \<subseteq>\<^sub>m dag s'
        \<and> Q r (dag s) (view (dag s) (Directory dn cache)) (dag s') (view (dag s') (Directory dn' cache'))"
  shows "op_spec env P (in_dir op) (\<lambda>r D V D' V'. (V [] \<noteq> Some EDir \<and> r = Inl (MErr ''not a directory'') \<and> V' = V) \<or> (V [] = Some EDir \<and> Q r D V D' V'))"
proof (rule op_specI)
  fix f s r f' s'
  assume a: "in_dir op f s = (r, f', s')" "wf_fs env (dag s) f" "addressed env (dag s)" "P (dag s)"
  show "wf_fs env (dag s') f' \<and> addressed env (dag s') \<and> dag s \<subseteq>\<^sub>m dag s'
    \<and> ((view (dag s) f [] \<noteq> Some EDir \<and> r = Inl (MErr ''not a directory'') \<and> view (dag s') f' = view (dag s) f)
      \<or> (view (dag s) f [] = Some EDir \<and> Q r (dag s) (view (dag s) f) (dag s') (view (dag s') f')))"
  proof (cases f)
    case (File nd)
    then show ?thesis using a leaf_not_dir by (auto simp: in_dir_def entry_of_def)
  next
    case (Directory dn cache)
    obtain x dn' c' t where o: "op dn cache s = (x, dn', c', t)" by (metis prod_cases4)
    have run: "r = x" "f' = Directory dn' c'" "s' = t" using a(1) o Directory by (auto simp: in_dir_def)
    have "view (dag s) f [] = Some EDir" using a(2) Directory by (simp add: entry_of_def)
    then show ?thesis using assms [OF o a(2) [unfolded Directory] a(3,4)] run Directory by simp
  qed
qed

lemma lookupDir_spec:
  assumes "sound_env env"
  shows "op_spec env P (lookupDir env pth) (\<lambda>r D V D' V'. V' = V \<and> (r = Inr () \<longrightarrow> V (lookup_parts pth) = Some EDir)
    \<and> (r = Inl ErrNotExist \<longrightarrow> V (lookup_parts pth) = None))"
proof -
  have "op_spec env P (in_dir (\<lambda>dnode cache s. (Inr (), dnode, cache, s))) (\<lambda>r D V D' V'. V' = V \<and> (r = Inr () \<longrightarrow> V [] = Some EDir) \<and> r \<noteq> Inl ErrNotExist)"
    by (rule op_spec_weaken [OF in_dir_spec [where Q = "\<lambda>r D V D' V'. V' = V \<and> r = Inr ()"]]) auto
  from at_path_spec [OF this assms]
  show ?thesis unfolding lookupDir_def by (rule op_spec_weaken) (auto simp: at_rel_def with_node_def prefix_def fun_eq_iff)
qed

lemma dir_Child_spec:
  assumes "sound_env env"
  shows "op_spec env P (dir_Child env name)
    (\<lambda>r D V D' V'. V' = V \<and> (case r of
       Inr f \<Rightarrow> V [] = Some EDir \<and> V [name] \<noteq> None \<and> (V [name] = Some EDir \<longleftrightarrow> (\<exists>dn c. f = Directory dn c))
     | Inl e \<Rightarrow> (e = ErrNotExist \<and> V [] = Some EDir \<and> V [name] = None) \<or> (e \<noteq> ErrNotExist \<and> V [] \<noteq> Some EDir)))"
  unfolding dir_Child_def
proof (rule op_spec_weaken, rule in_dir_spec [where P = P and Q =
    "\<lambda>r D V D' V'. V' = V \<and> (case r of Inr f \<Rightarrow> V [name] \<noteq> None \<and> (V [name] = Some EDir \<longleftrightarrow> (\<exists>dn c. f = Directory dn c))
       | Inl e \<Rightarrow> e = ErrNotExist \<and> V [name] = None)"])
  fix dn cache s r dn' cache' s'
  assume a: "(case childUnsync env name dn cache s of (r, cache', s') \<Rightarrow> (r, dn, cache', s')) = (r, dn', cache', s')"
    "wf_fs env (dag s) (Directory dn cache)" "addressed env (dag s)"
  then have c: "childUnsync env name dn cache s = (r, cache', s')" "dn' = dn" by (auto split: prod.splits)
  note cu = childUnsync_ok [OF c(1) a(2,3) assms]
  have "case r of Inr f \<Rightarrow> view (dag s) (Directory dn cache) [name] \<noteq> None \<and> (view (dag s) (Directory dn cache) [name] = Some EDir \<longleftrightarrow> (\<exists>dn c. f = Directory dn c))
       | Inl e \<Rightarrow> e = ErrNotExist \<and> view (dag s) (Directory dn cache) [name] = None"
  proof (cases r)
    case (Inl e)
    then show ?thesis using cu(6) [OF Inl] view_absent by simp
  next
    case (Inr f)
    have "view (dag s) f [] = Some EDir \<longleftrightarrow> (\<exists>dn c. f = Directory dn c)"
      using cu(5) [OF Inr] leaf_not_dir by (cases f) (auto simp: entry_of_def)
    then show ?thesis using cu(5) [OF Inr] Inr by simp
  qed
  then show "wf_fs env (dag s') (Directory dn' cache') \<and> addressed env (dag s') \<and> dag s \<subseteq>\<^sub>m dag s'
    \<and> view (dag s') (Directory dn' cache') = view (dag s) (Directory dn cache)
    \<and> (case r of Inr f \<Rightarrow> view (dag s) (Directory dn cache) [name] \<noteq> None \<and> (view (dag s) (Directory dn cache) [name] = Some EDir \<longleftrightarrow> (\<exists>dn c. f = Directory dn c))
       | Inl e \<Rightarrow> e = ErrNotExist \<and> view (dag s) (Directory dn cache) [name] = None)"
    using cu(1,3,4) c(2) a(3) by (auto intro!: ext)
qed (auto split: sum.splits)

lemma Links_remove [simp]: "is_dir dn \<Longrightarrow> Links (remove_link n dn) = filter (\<lambda>l. fst l \<noteq> n) (Links dn)" "is_dir (remove_link n dn) = is_dir dn"
  by (cases dn; simp)+

lemma map_of_drop: "map_of (filter (\<lambda>e. fst e \<noteq> n) es) p = (if p = n then None else map_of es p)"
  by (induction es) auto

lemma names_drop: "fst ` set (filter (\<lambda>e. fst e \<noteq> n) es) = fst ` set es - {n}"
  by auto

lemma wf_drop:
  assumes "wf_fs env D (Directory dn cache)"
  shows "wf_fs env D (Directory (remove_link n dn) (filter (\<lambda>e. fst e \<noteq> n) cache))"
    "view D (Directory (remove_link n dn) (filter (\<lambda>e. fst e \<noteq> n) cache)) = without [n] (view D (Directory dn cache))"
proof -
  have d: "is_dir dn" "distinct (map fst (Links dn))" "distinct (map fst cache)" "fst ` set cache \<subseteq> fst ` set (Links dn)" "wf_cache env D cache"
    using assms by auto
  have "\<exists>m. D c = Some m \<and> fs_tree D m" if nc: "(p, c) \<in> set (Links dn)" "p \<notin> fst ` set cache" for p c
    using wf_uncached [OF assms _ nc(2), of c] nc(1) d(2) by simp
  then have "\<forall>(p, c) \<in> set (Links (remove_link n dn)). p \<notin> fst ` set (filter (\<lambda>e. fst e \<noteq> n) cache) \<longrightarrow> (\<exists>m. D c = Some m \<and> fs_tree D m)"
    using d(1) names_drop [of n cache] by auto
  moreover have "wf_cache env D (filter (\<lambda>e. fst e \<noteq> n) cache)" using d(5) by (auto simp: wf_cache_iff)
  ultimately show "wf_fs env D (Directory (remove_link n dn) (filter (\<lambda>e. fst e \<noteq> n) cache))"
    unfolding wf_fs.simps Links_remove(1) [OF d(1)] Links_remove(2) names_drop
    using d(1-4) by (auto simp: distinct_map_filter)
  show "view D (Directory (remove_link n dn) (filter (\<lambda>e. fst e \<noteq> n) cache)) = without [n] (view D (Directory dn cache))"
  proof (rule ext)
    fix ps
    show "view D (Directory (remove_link n dn) (filter (\<lambda>e. fst e \<noteq> n) cache)) ps = without [n] (view D (Directory dn cache)) ps"
      using d(1) by (cases ps) (auto simp: without_def view.simps map_of_drop entry_of_def split: option.splits)
  qed
qed

lemma dir_Unlink_spec:
  "op_spec env P (dir_Unlink name)
    (\<lambda>r D V D' V'. case r of
       Inr _ \<Rightarrow> V [] = Some EDir \<and> V [name] \<noteq> None \<and> V' = without [name] V
     | Inl e \<Rightarrow> V' = V \<and> ((e = ErrNotExist \<and> V [] = Some EDir \<and> V [name] = None) \<or> (e \<noteq> ErrNotExist \<and> V [] \<noteq> Some EDir)))"
  unfolding dir_Unlink_def
proof (rule op_spec_weaken, rule in_dir_spec [where P = P and Q = "\<lambda>r D V D' V'. case r of
       Inr _ \<Rightarrow> V [name] \<noteq> None \<and> V' = without [name] V | Inl e \<Rightarrow> V' = V \<and> e = ErrNotExist \<and> V [name] = None"])
  fix dn cache s r dn' cache' s'
  assume a: "(let cache' = filter (\<lambda>e. fst e \<noteq> name) cache in
       if name \<in> fst ` set (Links dn) then (Inr (), remove_link name dn, cache', s) else (Inl ErrNotExist, dn, cache', s)) = (r, dn', cache', s')"
    and w: "wf_fs env (dag s) (Directory dn cache)" "addressed env (dag s)"
  have st: "s' = s" "cache' = filter (\<lambda>e. fst e \<noteq> name) cache" using a by (auto simp: Let_def split: if_splits)
  show "wf_fs env (dag s') (Directory dn' cache') \<and> addressed env (dag s') \<and> dag s \<subseteq>\<^sub>m dag s'
    \<and> (case r of Inr _ \<Rightarrow> view (dag s) (Directory dn cache) [name] \<noteq> None
           \<and> view (dag s') (Directory dn' cache') = without [name] (view (dag s) (Directory dn cache))
       | Inl e \<Rightarrow> view (dag s') (Directory dn' cache') = view (dag s) (Directory dn cache) \<and> e = ErrNotExist \<and> view (dag s) (Directory dn cache) [name] = None)"
  proof (cases "name \<in> fst ` set (Links dn)")
    case True
    have "view (dag s) (Directory dn cache) [name] \<noteq> None"
    proof (cases "map_of cache name")
      case None
      obtain c where c: "map_of (Links dn) name = Some c" using True by (metis map_of_eq_None_iff not_None_eq)
      then obtain m where "dag s c = Some m" using wf_uncached [OF w(1) c] None by (auto simp: map_of_eq_None_iff)
      then show ?thesis using None c w(1) by (simp add: view.simps)
    qed (simp add: view.simps)
    then show ?thesis using a True st w wf_drop [OF w(1), of name] by (auto simp: Let_def)
  next
    case False
    then have "map_of cache name = None" using w(1) wf_names by (metis not_None_eq)
    moreover have "filter (\<lambda>e. fst e \<noteq> name) cache = cache"
      using calculation by (auto simp: filter_id_conv map_of_eq_None_iff)
    ultimately show ?thesis using a False st w view_absent [OF False] by (auto simp: Let_def)
  qed
qed (auto split: sum.splits)

lemma dir_Add_spec:
  assumes "sound_env env"
  shows "op_spec env (\<lambda>D. fs_tree D nd) (dir_Add env name nd)
    (\<lambda>r D V D' V'. case r of
       Inr _ \<Rightarrow> V [] = Some EDir \<and> V [name] = None \<and> V' = with_node [name] (node_at D nd) V
     | Inl e \<Rightarrow> V' = V)"
  unfolding dir_Add_def
proof (rule op_spec_weaken, rule in_dir_spec [where P = "\<lambda>D. fs_tree D nd" and Q = "\<lambda>r D V D' V'. case r of
       Inr _ \<Rightarrow> V [name] = None \<and> V' = with_node [name] (node_at D nd) V | Inl e \<Rightarrow> V' = V"])
  fix dn cache s r dn' cache' s'
  assume a: "(case dir_AddChild env name nd dn cache s of (Some e, dnode', cache', s') \<Rightarrow> (Inl e, dnode', cache', s')
      | (None, dnode', cache', s') \<Rightarrow> (Inr (), dnode', cache', s')) = (r, dn', cache', s')"
    and w: "wf_fs env (dag s) (Directory dn cache)" "addressed env (dag s)" "fs_tree (dag s) nd"
  obtain x where c: "dir_AddChild env name nd dn cache s = (x, dn', cache', s')" and r: "r = (case x of None \<Rightarrow> Inr () | Some e \<Rightarrow> Inl e)"
    using a by (auto split: prod.splits option.splits)
  show "wf_fs env (dag s') (Directory dn' cache') \<and> addressed env (dag s') \<and> dag s \<subseteq>\<^sub>m dag s'
    \<and> (case r of Inr _ \<Rightarrow> view (dag s) (Directory dn cache) [name] = None
           \<and> view (dag s') (Directory dn' cache') = with_node [name] (node_at (dag s) nd) (view (dag s) (Directory dn cache))
       | Inl e \<Rightarrow> view (dag s') (Directory dn' cache') = view (dag s) (Directory dn cache))"
  proof (cases x)
    case None
    then have "put_loop env [] name nd (Directory dn cache) s = (None, Directory dn' cache', s')" using c by simp
    from put_loop_ok [OF this w(1,2) assms w(3)] show ?thesis using None r w(2) by (auto simp: grown_def)
  next
    case (Some e)
    obtain y c1 s1 where u: "childUnsync env name dn cache s = (y, c1, s1)" by (metis prod_cases3)
    note cu = childUnsync_ok [OF u w(1,2) assms]
    have "dn' = dn \<and> cache' = c1 \<and> dag s' = dag s"
    proof (cases y)
      case (Inl e)
      obtain z s2 where d: "dag_Add env nd s1 = (z, s2)" by fastforce
      then show ?thesis using c u Inl Some cu(1) by (cases z) (auto simp: dir_AddChild_def dag_Add_def split: option.splits)
    qed (use c u Some cu(1) in \<open>auto simp: dir_AddChild_def\<close>)
    then show ?thesis using cu(3,4) r Some w(2) by (auto intro!: ext)
  qed
qed (auto split: sum.splits)

lemma GetNode_spec:
  assumes "sound_env env"
  shows "op_spec env P (GetNode env)
    (\<lambda>r D V D' V'. V' = V \<and> (\<forall>nd. r = Inr nd \<longrightarrow> fs_tree D' nd \<and> node_at D' nd = V \<and> D' (node_Cid env nd) = Some (sort_links nd)))"
proof (rule op_specI)
  fix f s r f' s'
  assume a: "GetNode env f s = (r, f', s')" "wf_fs env (dag s) f" "addressed env (dag s)"
  note k = GetNode_keeps(1) [OF a assms]
  have "fs_tree (dag s') nd \<and> node_at (dag s') nd = view (dag s) f \<and> dag s' (node_Cid env nd) = Some (sort_links nd)" if "r = Inr nd" for nd
    using GetNode_ok(1) [OF a(1) [unfolded that] a(2,3) assms] by (auto simp: saved_def)
  then show "wf_fs env (dag s') f' \<and> addressed env (dag s') \<and> dag s \<subseteq>\<^sub>m dag s'
    \<and> view (dag s') f' = view (dag s) f \<and> (\<forall>nd. r = Inr nd \<longrightarrow> fs_tree (dag s') nd \<and> node_at (dag s') nd = view (dag s) f
      \<and> dag s' (node_Cid env nd) = Some (sort_links nd))"
    using k a(3) by (auto simp: grown_def)
qed

section \<open>Operations on paths\<close>

lemma with_node_append: "with_node P (with_node R W (\<lambda>qs. V (P @ qs))) V = with_node (P @ R) W V"
proof (rule ext)
  fix ps
  show "with_node P (with_node R W (\<lambda>qs. V (P @ qs))) V ps = with_node (P @ R) W V ps"
    by (auto simp: with_node_def prefix_def)
qed

lemma with_node_same [simp]: "with_node P (\<lambda>qs. V (P @ qs)) V = V"
  by (rule ext) (auto simp: with_node_def prefix_def)

lemma without_append: "with_node P (without R (\<lambda>qs. V (P @ qs))) V = without (P @ R) V"
  unfolding without_with by (rule with_node_append)

lemma put_loop_at:
  "put_loop env parts name nd f s = (x, f', s') \<Longrightarrow>
     \<exists>r. at_path env parts (dir_Add env name nd) f s = (r, f', s') \<and> (x = None \<longleftrightarrow> (\<exists>u. r = Inr u))"
proof (induction env parts name nd f s arbitrary: x f' s' rule: put_loop.induct)
  case (1 env parts name nd g s)
  then show ?case by (cases parts) (auto simp: dir_Add_def in_dir_def)
next
  case (2 env name nd dnode cache s)
  then show ?case by (auto simp: dir_Add_def in_dir_def split: prod.splits option.splits)
next
  case (3 env p parts name nd dnode cache s)
  obtain y c1 s1 where c: "childUnsync env p dnode cache s = (y, c1, s1)" by (metis prod_cases3)
  show ?case
  proof (cases y)
    case (Inr g)
    obtain z g' s2 where l: "put_loop env parts name nd g s1 = (z, g', s2)" by (metis prod_cases3)
    then show ?thesis using 3(1) [OF c [symmetric] Inr refl l] 3(2) c Inr by auto
  qed (use 3(2) c in auto)
qed

definition put_path :: "string \<Rightarrow> string list" where
  "put_path pth = lookup_parts (fst (path_Split pth)) @ [snd (path_Split pth)]"

lemma PutNode_spec:
  assumes "sound_env env"
  shows "op_spec env (\<lambda>D. fs_tree D nd) (unitF (PutNode env pth nd))
    (\<lambda>r D V D' V'. case r of
       Inr _ \<Rightarrow> V (butlast (put_path pth)) = Some EDir \<and> V (put_path pth) = None \<and> V' = with_node (put_path pth) (node_at D nd) V
     | Inl e \<Rightarrow> V' = V)"
proof (rule op_specI)
  fix f s r f' s'
  assume a: "unitF (PutNode env pth nd) f s = (r, f', s')" "wf_fs env (dag s) f" "addressed env (dag s)" "fs_tree (dag s) nd"
  obtain dirp n where sp: "path_Split pth = (dirp, n)" by fastforce
  obtain x where p: "PutNode env pth nd f s = (x, f', s')" and r: "r = (case x of None \<Rightarrow> Inr () | Some e \<Rightarrow> Inl e)"
    using a(1) by (auto simp: unitF_def split: prod.splits option.splits)
  show "wf_fs env (dag s') f' \<and> addressed env (dag s') \<and> dag s \<subseteq>\<^sub>m dag s' \<and> (case r of
       Inr _ \<Rightarrow> view (dag s) f (butlast (put_path pth)) = Some EDir \<and> view (dag s) f (put_path pth) = None
         \<and> view (dag s') f' = with_node (put_path pth) (node_at (dag s) nd) (view (dag s) f)
     | Inl e \<Rightarrow> view (dag s') f' = view (dag s) f)"
  proof (cases "n = []")
    case False
    then have "put_loop env (lookup_parts dirp) n nd f s = (x, f', s')" using p sp by (simp add: PutNode_def)
    from put_loop_at [OF this] obtain y where y: "at_path env (lookup_parts dirp) (dir_Add env n nd) f s = (y, f', s')" "x = None \<longleftrightarrow> (\<exists>u. y = Inr u)" by blast
    note d = op_specD [OF at_path_spec [OF dir_Add_spec [OF assms] assms] y(1) a(2,3) a(4)]
    show ?thesis
    proof (cases x)
      case None
      then obtain u where "y = Inr u" using y(2) by blast
      then show ?thesis using d r None sp by (auto simp: at_rel_def put_path_def with_node_append)
    next
      case (Some e)
      then obtain e' where "y = Inl e'" using y(2) by (cases y) auto
      then show ?thesis using d r Some by (auto simp: at_rel_def)
    qed
  qed (use p sp r a in \<open>auto simp: PutNode_def\<close>)
qed

lemma dir_Mkdir_err:
  assumes "dir_Mkdir env n dn cache s = (MkErr e, dn', cache', s')" "wf_fs env (dag s) (Directory dn cache)"
    "addressed env (dag s)" "sound_env env"
  shows "dn' = dn" "dag s' = dag s" "dag_state.more s' = dag_state.more s" "wf_fs env (dag s) (Directory dn cache')"
    "view (dag s) (Directory dn cache') = view (dag s) (Directory dn cache)"
proof -
  obtain x c1 s1 where c: "childUnsync env n dn cache s = (x, c1, s1)" by (metis prod_cases3)
  note cu = childUnsync_ok [OF c assms(2-4)]
  obtain y s2 where a: "dag_Add env (EmptyDirNode (CidBuilder dn)) s1 = (y, s2)" by fastforce
  have "dn' = dn \<and> cache' = c1 \<and> (s' = s1 \<or> (s' = s2 \<and> y \<noteq> None))"
    using assms(1) c a by (auto simp: dir_Mkdir_def Let_def split: sum.splits fsnode.splits option.splits)
  moreover have "y \<noteq> None \<Longrightarrow> dag s2 = dag s1 \<and> dag_state.more s2 = dag_state.more s1" using a by (auto simp: dag_Add_def split: option.splits)
  ultimately show "dn' = dn" "dag s' = dag s" "dag_state.more s' = dag_state.more s" "wf_fs env (dag s) (Directory dn cache')"
    "view (dag s) (Directory dn cache') = view (dag s) (Directory dn cache)"
    using cu(1-4) by (auto intro!: ext)
qed

text \<open>When making directories fails, some of the parents may have been made.\<close>

lemma with_dirs_Nil: "V [] \<noteq> None \<Longrightarrow> with_dirs [] V = V"
  by (rule ext) (auto simp: with_dirs_def)

lemma mkdir_loop_keeps:
  "mkdir_loop env opts parts f s = (r, f', s') \<Longrightarrow> wf_fs env (dag s) f \<Longrightarrow> addressed env (dag s) \<Longrightarrow> sound_env env
    \<Longrightarrow> grown env s s' \<and> wf_fs env (dag s') f' \<and> (\<exists>n. view (dag s') f' = with_dirs (take n parts) (view (dag s) f))"
proof (induction env opts parts f s arbitrary: r f' s' rule: mkdir_loop.induct)
  case (1 env opts parts nd s)
  then show ?case using with_dirs_Nil [of "view (dag s) (File nd)"] by (auto intro!: exI [of _ 0])
next
  case (2 env opts dnode cache s)
  then show ?case using with_dirs_Nil [of "view (dag s) (Directory dnode cache)"] by auto
next
  case (3 env opts d dnode cache s)
  let ?V = "view (dag s) (Directory dnode cache)"
  have nil: "with_dirs (take 0 [d]) ?V = ?V" by (simp add: with_dirs_Nil)
  show ?case
  proof (cases r)
    case None
    have "view (dag s') f' = with_dirs (take 1 [d]) ?V" using mkdir_loop_ok [OF 3(1) [unfolded None] 3(2-4)] by auto
    then show ?thesis using mkdir_loop_ok [OF 3(1) [unfolded None] 3(2-4)] by blast
  next
    case (Some e)
    obtain x dn' c' s1 where m: "dir_Mkdir env d dnode cache s = (x, dn', c', s1)" by (metis prod_cases4)
    have run: "f' = Directory dn' c'" "s' = s1" using 3(1) m Some by (auto split: mkdir_result.splits if_splits)
    show ?thesis
    proof (cases x)
      case (MkOld g)
      note old = dir_Mkdir_old [OF m [unfolded MkOld] 3(2-4)]
      have "view (dag s') f' = ?V" by (rule ext) (use old(1,3,8) run in simp)
      then show ?thesis using old(1-4) run nil by metis
    next
      case (MkErr e)
      note er = dir_Mkdir_err [OF m [unfolded MkErr] 3(2-4)]
      then show ?thesis using run nil by (auto simp: grown_def simp del: take_0 intro!: exI [of _ 0])
    qed (use 3(1) m Some in auto)
  qed
next
  case (4 env opts d d' parts dnode cache s)
  let ?V = "view (dag s) (Directory dnode cache)"
  have root: "?V [] = Some EDir" using 4(4) by (simp add: entry_of_def)
  have nil: "with_dirs (take 0 (d # d' # parts)) ?V = ?V" by (simp add: with_dirs_Nil)
  obtain x c1 s1 where c: "childUnsync env d dnode cache s = (x, c1, s1)" by (metis prod_cases3)
  note cu = childUnsync_ok [OF c 4(4-6)]
  show ?case
  proof (cases x)
    case (Inr g)
    obtain y g' s2 where m: "mkdir_loop env opts (d' # parts) g s1 = (y, g', s2)" by (metis prod_cases3)
    then have run: "s' = s2" "f' = Directory dnode (set_entry d g' c1)" using 4(3) c Inr by auto
    have g: "wf_fs env (dag s1) g" "d \<in> fst ` set (Links dnode)" using cu(1) cu(5) [OF Inr] by auto
    obtain n where ih: "grown env s1 s2" "wf_fs env (dag s2) g'" "view (dag s2) g' = with_dirs (take n (d' # parts)) (view (dag s1) g)"
      using 4(2) [OF c [symmetric] Inr refl m g(1)] cu(1) 4(5,6) by auto
    have le: "dag s \<subseteq>\<^sub>m dag s2" using ih(1) cu(1) by (simp add: grown_def)
    note we = wf_set_entry [OF cu(3) g(2) ih(2) le]
    have "view (dag s') f' ps = with_dirs (d # take n (d' # parts)) ?V ps" for ps
      unfolding run with_dirs_Cons [of ?V, OF root]
      using we(2) [of ps] ih(3) cu(1,4) cu(5) [OF Inr] by (cases ps) auto
    then have "view (dag s') f' = with_dirs (take (Suc n) (d # d' # parts)) ?V" by (simp add: fun_eq_iff)
    moreover have "grown env s s2" using ih(1) cu(1,2) by (auto simp: grown_def)
    ultimately show ?thesis using run we(1) by blast
  next
    case (Inl e)
    note absent = cu(6) [OF Inl]
    have c0: "childUnsync env d dnode cache s = (Inl ErrNotExist, cache, s)" using c Inl absent by simp
    show ?thesis
    proof (cases "Mkparents opts")
      case False
      then have "f' = Directory dnode cache" "s' = s" using 4(3) c0 by auto
      then show ?thesis using 4(4) nil grown_refl by metis
    next
      case mp: True
      obtain y dn' c' s2 where m: "dir_Mkdir env d dnode cache s = (y, dn', c', s2)" by (metis prod_cases4)
      show ?thesis
      proof (cases y)
        case (MkNew g)
        note new = dir_Mkdir_new [OF m [unfolded MkNew] 4(4-6)]
        obtain z g' s3 where l: "mkdir_loop env opts (d' # parts) (set_builder (opt_CidBuilder opts) g) s2 = (z, g', s3)"
          by (metis prod_cases3)
        have run: "s' = s3" "f' = Directory dn' (set_entry d g' c')" using 4(3) c0 mp m MkNew l by auto
        have g: "wf_fs env (dag s2) g" "view (dag s2) g qs = (if qs = [] then Some EDir else None)" for qs
          using new(3) by (simp, cases qs, simp_all add: new(3) entry_of_def)
        have sb: "wf_fs env (dag s2) (set_builder b g)" "view (dag s2) (set_builder b g) qs = (if qs = [] then Some EDir else None)" for b qs
          using set_builder_ok [OF g(1)] g(2) by simp_all
        have ad: "addressed env (dag s2)" using new(1) 4(5) by (simp add: grown_def)
        obtain n where ih: "grown env s2 s3" "wf_fs env (dag s3) g'"
          "view (dag s3) g' = with_dirs (take n (d' # parts)) (view (dag s2) (set_builder (opt_CidBuilder opts) g))"
          using 4(1) [OF c0 [symmetric] refl refl _ m [symmetric] MkNew refl refl l sb(1) ad 4(6)] mp by auto
        have le: "dag s2 \<subseteq>\<^sub>m dag s3" using ih(1) by (simp add: grown_def)
        note we = wf_set_entry [OF new(2) new(4) ih(2) le]
        have "view (dag s') f' ps = with_dirs (d # take n (d' # parts)) ?V ps" for ps
          unfolding run with_dirs_Cons [of ?V, OF root]
          using we(2) [of ps] ih(3) new(5,6) sb(2) by (cases ps) (auto simp: with_dirs_def)
        then have "view (dag s') f' = with_dirs (take (Suc n) (d # d' # parts)) ?V" by (simp add: fun_eq_iff)
        then show ?thesis using run we(1) grown_trans [OF new(1) ih(1)] by blast
      next
        case (MkOld g)
        note old = dir_Mkdir_old [OF m [unfolded MkOld] 4(4-6)]
        have run: "f' = Directory dn' c'" "s' = s2" using 4(3) c0 mp m MkOld by auto
        have "view (dag s') f' = ?V" by (rule ext) (use old(1,3,8) run in simp)
        then show ?thesis using old(1-4) run nil by metis
      next
        case (MkErr e)
        note er = dir_Mkdir_err [OF m [unfolded MkErr] 4(4-6)]
        have run: "f' = Directory dn' c'" "s' = s2" using 4(3) c0 mp m MkErr by auto
        have "view (dag s') f' = ?V" "grown env s s'" using er run by (simp_all add: grown_def)
        then show ?thesis using er(1,2,4) run nil by metis
      qed
    qed
  qed
qed

lemma Mkdir_spec:
  assumes "sound_env env"
  shows "op_spec env P (unitF (Mkdir env opts pth))
    (\<lambda>r D V D' V'. case r of Inr _ \<Rightarrow> V' = with_dirs (mkdir_parts pth) V \<or> (mkdir_parts pth = [] \<and> V' = V)
       | Inl e \<Rightarrow> \<exists>n. V' = with_dirs (take n (mkdir_parts pth)) V)"
proof (rule op_specI)
  fix f s r f' s'
  assume a: "unitF (Mkdir env opts pth) f s = (r, f', s')" "wf_fs env (dag s) f" "addressed env (dag s)"
  obtain x where p: "Mkdir env opts pth f s = (x, f', s')" and r: "r = (case x of None \<Rightarrow> Inr () | Some e \<Rightarrow> Inl e)"
    using a(1) by (auto simp: unitF_def split: prod.splits option.splits)
  have nil: "with_dirs (take 0 (mkdir_parts pth)) (view (dag s) f) = view (dag s) f" by (simp add: with_dirs_Nil)
  show "wf_fs env (dag s') f' \<and> addressed env (dag s') \<and> dag s \<subseteq>\<^sub>m dag s' \<and> (case r of Inr _ \<Rightarrow>
       view (dag s') f' = with_dirs (mkdir_parts pth) (view (dag s) f) \<or> (mkdir_parts pth = [] \<and> view (dag s') f' = view (dag s) f)
       | Inl e \<Rightarrow> \<exists>n. view (dag s') f' = with_dirs (take n (mkdir_parts pth)) (view (dag s) f))"
  proof (cases "pth = [] \<or> mkdir_parts pth = []")
    case True
    then have "f' = f" "s' = s" "r = Inr () \<Longrightarrow> mkdir_parts pth = []" using p r by (auto simp: Mkdir_def split: if_splits)
    then show ?thesis using a(2,3) nil by (auto split: sum.splits simp del: take_0 intro!: exI [of _ 0])
  next
    case False
    then have m: "mkdir_loop env opts (mkdir_parts pth) f s = (x, f', s')" using p by (simp add: Mkdir_def)
    note k = mkdir_loop_keeps [OF m a(2,3) assms]
    show ?thesis
    proof (cases x)
      case None
      have "view (dag s') f' = with_dirs (mkdir_parts pth) (view (dag s) f)"
        using mkdir_loop_ok [OF m [unfolded None] a(2,3) assms] by (auto intro!: ext)
      then show ?thesis using k r None a(3) by (simp add: grown_def)
    qed (use k r a(3) in \<open>auto simp: grown_def\<close>)
  qed
qed

section \<open>Flushing\<close>

text \<open>A stored node shows from a path on what the file system shows there.\<close>

definition shown :: "'e mfs_env_scheme \<Rightarrow> dagmap \<Rightarrow> ipld_node \<Rightarrow> string list \<Rightarrow> fview \<Rightarrow> bool" where
  "shown env D nd P V =
     ((is_dir nd \<longrightarrow> distinct (map fst (Links nd)))
      \<and> (\<forall>D'. D \<subseteq>\<^sub>m D' \<longrightarrow> D' (node_Cid env nd) = Some (sort_links nd) \<and> (\<forall>qs. node_at D' nd (P @ qs) = V (P @ qs))))"

lemma shown_le: "shown env D nd P V \<Longrightarrow> D \<subseteq>\<^sub>m D' \<Longrightarrow> shown env D' nd P V"
  unfolding shown_def using map_le_trans by blast

lemma shownD:
  assumes "shown env D nd P V"
  shows "D (node_Cid env nd) = Some (sort_links nd)" "node_at D nd (P @ qs) = V (P @ qs)"
  using assms unfolding shown_def by (metis map_le_refl)+

lemma shown_tree:
  assumes "fs_tree D nd" "node_at D nd = V" "D (node_Cid env nd) = Some (sort_links nd)"
  shows "shown env D nd [] V"
  unfolding shown_def using node_at_le [OF assms(1)] fs_tree_dirD(1) [OF assms(1)] assms(2,3) map_leD by auto

lemma node_at_sort_dir: "(is_dir nd \<Longrightarrow> distinct (map fst (Links nd))) \<Longrightarrow> node_at D (sort_links nd) ps = node_at D nd ps"
  by (cases "is_dir nd"; cases ps) auto

lemma wf_relink:
  assumes "wf_fs env D (Directory dn cache)" "p \<in> fst ` set cache"
  shows "wf_fs env D (Directory (add_link p c dn) cache)" "view D (Directory (add_link p c dn) cache) = view D (Directory dn cache)"
proof -
  have d: "is_dir dn" "distinct (map fst (Links dn))" using assms(1) by auto
  note L = add_link_set_entry [OF d(1), of p c]
  have "\<forall>(n, x) \<in> set (set_entry p c (Links dn)). n \<notin> fst ` set cache \<longrightarrow> (\<exists>m. D x = Some m \<and> fs_tree D m)"
    using assms by (auto simp: set_entry_def)
  then show "wf_fs env D (Directory (add_link p c dn) cache)" using assms(1) L d by auto
  show "view D (Directory (add_link p c dn) cache) = view D (Directory dn cache)"
  proof (rule ext)
    fix ps
    show "view D (Directory (add_link p c dn) cache) ps = view D (Directory dn cache) ps"
    proof (cases ps)
      case (Cons q qs)
      have "map_of cache q = None \<Longrightarrow> q \<noteq> p" using assms(2) by (auto simp: map_of_eq_None_iff)
      then show ?thesis using Cons L d(1) by (auto simp: view.simps split: option.splits)
    qed (simp add: entry_of_def d(1))
  qed
qed

lemma wf_sorted:
  assumes "wf_fs env D (Directory dn cache)"
  shows "wf_fs env D (Directory (sort_links dn) cache)" "view D (Directory (sort_links dn) cache) = view D (Directory dn cache)"
proof -
  have d: "is_dir dn" "distinct (map fst (Links dn))" using assms by auto
  show "wf_fs env D (Directory (sort_links dn) cache)" using assms by simp
  show "view D (Directory (sort_links dn) cache) = view D (Directory dn cache)"
  proof (rule ext)
    fix ps
    show "view D (Directory (sort_links dn) cache) ps = view D (Directory dn cache) ps"
      using d by (cases ps) (auto simp: view.simps split: option.splits)
  qed
qed

definition up_rel where
  "up_rel env P Q r D V D' V' =
     ((\<exists>e. r = Inl e \<and> V P = None \<and> V' = V)
      \<or> (V P \<noteq> None \<and> (\<exists>r' D1 W. D1 \<subseteq>\<^sub>m D' \<and> Q r' D (\<lambda>qs. V (P @ qs)) D1 W \<and> V' = with_node P W V \<and> (\<forall>e. r' = Inl e \<longrightarrow> r = Inl e))
         \<and> (\<forall>nd. r = Inr nd \<longrightarrow> shown env D' nd P V')))"

text \<open>One step up: the directory takes the node of its child and is stored.\<close>

lemma update_step:
  assumes wf: "wf_fs env (dag s) (Directory dn cache)" "addressed env (dag s)" and p: "map_of cache p = Some g" and g: "shown env (dag s) nd parts (view (dag s) g)"
    and dn': "dn' = add_link p (node_Cid env nd) dn" and a: "dag_Add env dn' s = (x, s')" and sound: "sound_env env"
  shows "wf_fs env (dag s') (Directory dn' cache)" "addressed env (dag s')" "dag s \<subseteq>\<^sub>m dag s'"
    "view (dag s') (Directory dn' cache) = view (dag s) (Directory dn cache)"
    "x = None \<Longrightarrow> shown env (dag s') (sort_links dn') (p # parts) (view (dag s) (Directory dn cache))"
proof -
  have pc: "p \<in> fst ` set cache" using p by (force dest: map_of_SomeD)
  note rl = wf_relink [OF wf(1) pc, of "node_Cid env nd", folded dn']
  have g1: "grown env s s'" by (rule dag_Add_grown(1) [OF a wf(2) sound])
  then show le: "dag s \<subseteq>\<^sub>m dag s'" by (simp add: grown_def)
  show "wf_fs env (dag s') (Directory dn' cache)" by (rule wf_le(1) [OF rl(1) le])
  show "addressed env (dag s')" using g1 wf(2) by (simp add: grown_def)
  show "view (dag s') (Directory dn' cache) = view (dag s) (Directory dn cache)"
    using view_le [OF rl(1) le] rl(2) by (auto intro!: ext)
  show "shown env (dag s') (sort_links dn') (p # parts) (view (dag s) (Directory dn cache))" if none: "x = None"
  proof -
    have d: "is_dir dn'" "distinct (map fst (Links dn'))" "is_dir dn" using rl(1) wf(1) by auto
    have st: "dag s' (node_Cid env dn') = Some (sort_links dn')" using dag_Add_grown(2) [OF a [unfolded none] wf(2) sound] .
    have gd: "is_dir nd \<Longrightarrow> distinct (map fst (Links nd))" using g by (simp add: shown_def)
    have "node_at D' (sort_links dn') (p # parts @ qs) = view (dag s) (Directory dn cache) (p # parts @ qs)" if D': "dag s' \<subseteq>\<^sub>m D'" for D' qs
    proof -
      have k: "D' (node_Cid env nd) = Some (sort_links nd)" "node_at D' nd (parts @ qs) = view (dag s) g (parts @ qs)"
        using shownD [OF shown_le [OF g map_le_trans [OF le D']]] by auto
      have "map_of (Links dn') p = Some (node_Cid env nd)" using d(3) by (simp add: dn' add_link_set_entry)
      then show ?thesis using k d node_at_sort_dir [OF gd] p by (simp add: view.simps)
    qed
    then show ?thesis using d(2) st map_leD by (auto simp: shown_def)
  qed
qed

lemma update_path_spec:
  assumes op: "op_spec env P op Q" and sh: "\<And>nd D V D' V'. Q (Inr nd) D V D' V' \<Longrightarrow> shown env D' nd [] V'" and sound: "sound_env env"
  shows "op_spec env P (update_path env parts op) (up_rel env parts Q)"
proof (induction parts)
  case Nil
  show ?case
  proof (rule op_specI)
    fix f s r f' s'
    assume "update_path env [] op f s = (r, f', s')" "wf_fs env (dag s) f" "addressed env (dag s)" "P (dag s)"
    note d = op_specD [OF op this(1) [unfolded update_path.simps] this(2-4)]
    have "\<exists>r' D1 W. D1 \<subseteq>\<^sub>m dag s' \<and> Q r' (dag s) (view (dag s) f) D1 W \<and> view (dag s') f' = W \<and> (\<forall>e. r' = Inl e \<longrightarrow> r = Inl e)"
      using d(4) map_le_refl by blast
    then show "wf_fs env (dag s') f' \<and> addressed env (dag s') \<and> dag s \<subseteq>\<^sub>m dag s'
      \<and> up_rel env [] Q r (dag s) (view (dag s) f) (dag s') (view (dag s') f')"
      using d sh by (auto simp: up_rel_def)
  qed
next
  case (Cons p parts)
  show ?case
  proof (rule op_specI)
    fix f s r f' s'
    assume a: "update_path env (p # parts) op f s = (r, f', s')" "wf_fs env (dag s) f" "addressed env (dag s)" "P (dag s)"
    show "wf_fs env (dag s') f' \<and> addressed env (dag s') \<and> dag s \<subseteq>\<^sub>m dag s'
      \<and> up_rel env (p # parts) Q r (dag s) (view (dag s) f) (dag s') (view (dag s') f')"
    proof (cases f)
      case (File nd)
      then show ?thesis using a node_at_leaf [of nd "dag s" "p # parts"] by (auto simp: up_rel_def)
    next
      case (Directory dn cache)
      obtain x c1 s1 where c: "childUnsync env p dn cache s = (x, c1, s1)" by (metis prod_cases3)
      note cu = childUnsync_ok [OF c a(2) [unfolded Directory] a(3) sound]
      show ?thesis
      proof (cases x)
        case (Inl e)
        note ab = cu(6) [OF Inl]
        then have "view (dag s) f (p # parts) = None" using view_absent Directory by simp
        then show ?thesis using a c Inl ab Directory by (auto simp: up_rel_def)
      next
        case (Inr g)
        obtain y g' s2 where m: "update_path env parts op g s1 = (y, g', s2)" by (metis prod_cases3)
        have g: "wf_fs env (dag s1) g" "p \<in> fst ` set (Links dn)" "\<And>qs. view (dag s) f (p # qs) = view (dag s) g qs"
          using cu(5) [OF Inr] cu(1) Directory by auto
        note ih = op_specD [OF Cons.IH m g(1) a(3,4) [folded cu(1)]]
        have le: "dag s \<subseteq>\<^sub>m dag s2" using ih(3) cu(1) by simp
        define f2 where "f2 = Directory dn (set_entry p g' c1)"
        note we = wf_set_entry [OF cu(3) g(2) ih(1) le, folded f2_def]
        have v: "view (dag s2) f2 ps = (case ps of [] \<Rightarrow> Some EDir | q # qs \<Rightarrow> if q = p then view (dag s2) g' qs else view (dag s) f ps)" for ps
          using we(2) [of ps] cu(4) Directory by (cases ps) auto
        have root: "view (dag s) f [] = Some EDir" using a(2) Directory by (simp add: entry_of_def)
        have gv: "(\<lambda>qs. view (dag s) f (p # qs)) = view (dag s) g" using g(3) by (intro ext) simp
        have v2: "view (dag s2) f2 = with_node [p] (view (dag s2) g') (view (dag s) f)"
          by (rule ext) (use v root in \<open>auto simp: with_node_Cons split: list.splits\<close>)
        have last_step: "wf_fs env (dag s') f' \<and> addressed env (dag s') \<and> dag s2 \<subseteq>\<^sub>m dag s' \<and> view (dag s') f' = view (dag s2) f2
          \<and> (\<forall>e. y = Inl e \<longrightarrow> r = Inl e) \<and> (\<forall>nd. r = Inr nd \<longrightarrow> shown env (dag s') nd (p # parts) (view (dag s') f'))"
        proof (cases y)
          case (Inl e)
          then show ?thesis using a(1) c Inr m Directory we(1) ih(2) by (auto simp: f2_def)
        next
          case y: (Inr nd)
          define dn' where "dn' = add_link p (node_Cid env nd) dn"
          obtain z s3 where ad: "dag_Add env dn' s2 = (z, s3)" by fastforce
          have sg: "shown env (dag s2) nd parts (view (dag s2) g')" using ih(4) y cu(1) by (auto simp: up_rel_def)
          have pg: "map_of (set_entry p g' c1) p = Some g'" by simp
          note us = update_step [OF we(1) [unfolded f2_def] ih(2) pg sg dn'_def ad sound, folded f2_def]
          note ws = wf_sorted [OF us(1)]
          have run: "s' = s3" "(r, f') = (case z of Some e \<Rightarrow> (Inl e, Directory dn' (set_entry p g' c1)) | None \<Rightarrow> (Inr (sort_links dn'), Directory (sort_links dn') (set_entry p g' c1)))"
            using a(1) c Inr m Directory y ad by (auto simp: Let_def dn'_def split: option.splits)
          show ?thesis using run us ws y by (cases z) (auto split: option.splits)
        qed
        have "up_rel env (p # parts) Q r (dag s) (view (dag s) f) (dag s') (view (dag s') f')"
        proof (cases "view (dag s) g parts")
          case None
          then obtain e where e: "y = Inl e" "view (dag s2) g' = view (dag s) g" using ih(4) cu(1) by (auto simp: up_rel_def)
          have "view (dag s2) f2 = view (dag s) f" using v2 e(2) gv with_node_same [of "[p]" "view (dag s) f"] by simp
          then show ?thesis using None e last_step g(3) by (auto simp: up_rel_def)
        next
          case (Some en)
          then obtain r' D1 W where W: "D1 \<subseteq>\<^sub>m dag s2" "Q r' (dag s) (\<lambda>qs. view (dag s) g (parts @ qs)) D1 W"
            "view (dag s2) g' = with_node parts W (view (dag s) g)" "\<forall>e. r' = Inl e \<longrightarrow> y = Inl e"
            using ih(4) cu(1) by (auto simp: up_rel_def)
          have "view (dag s') f' = with_node (p # parts) W (view (dag s) f)"
            using last_step v2 W(3) with_node_append [of "[p]" parts W "view (dag s) f"] gv by simp
          then have "\<exists>r' D1 W. D1 \<subseteq>\<^sub>m dag s' \<and> Q r' (dag s) (\<lambda>qs. view (dag s) f ((p # parts) @ qs)) D1 W
            \<and> view (dag s') f' = with_node (p # parts) W (view (dag s) f) \<and> (\<forall>e. r' = Inl e \<longrightarrow> r = Inl e)"
            using W(1,2,4) g(3) last_step map_le_trans by (intro exI [of _ r'] exI [of _ D1] exI [of _ W]) auto
          then show ?thesis using Some g(3) last_step by (auto simp: up_rel_def)
        qed
        then show ?thesis using last_step le map_le_trans by blast
      qed
    qed
  qed
qed

lemma object_Flush_spec:
  assumes "sound_env env"
  shows "op_spec env P (object_Flush env) (\<lambda>r D V D' V'. V' = V \<and> (\<forall>nd. r = Inr nd \<longrightarrow> shown env D' nd [] V'))"
proof (rule op_specI)
  fix f s r f' s'
  assume a: "object_Flush env f s = (r, f', s')" "wf_fs env (dag s) f" "addressed env (dag s)" "P (dag s)"
  show "wf_fs env (dag s') f' \<and> addressed env (dag s') \<and> dag s \<subseteq>\<^sub>m dag s'
    \<and> view (dag s') f' = view (dag s) f \<and> (\<forall>nd. r = Inr nd \<longrightarrow> shown env (dag s') nd [] (view (dag s') f'))"
  proof (cases f)
    case (Directory dn cache)
    then have "GetNode env f s = (r, f', s')" using a(1) by (simp add: object_Flush_def)
    note d = op_specD [OF GetNode_spec [OF assms, of P] this a(2-4)]
    have "shown env (dag s') nd [] (view (dag s') f')" if "r = Inr nd" for nd
      using shown_tree [of "dag s'" nd "view (dag s') f'" env] d(4) that by simp
    then show ?thesis using d by blast
  next
    case (File nd)
    obtain x s1 where d: "dag_Add env nd s = (x, s1)" by fastforce
    have run: "f' = f \<and> (s' = s \<or> s' = s1) \<and> (\<forall>m. r = Inr m \<longrightarrow> m = nd)"
      using a(1) d File by (cases x) (simp_all add: object_Flush_def split: if_splits, blast+)
    have g: "grown env s s'" using run dag_Add_grown(1) [OF d a(3) assms] by auto
    then have le: "dag s \<subseteq>\<^sub>m dag s'" by (simp add: grown_def)
    have t: "fs_tree (dag s') nd" "dag s' (node_Cid env nd) = Some (sort_links nd)" using a(2) File fs_tree_le [OF _ le] map_leD [OF le] by auto
    have "view (dag s') f' = view (dag s) f" using view_le [OF a(2) le] run by (auto intro!: ext)
    moreover have "node_at (dag s') nd = view (dag s') f" by (rule ext) (simp add: File)
    then have "shown env (dag s') nd [] (view (dag s') f)" using shown_tree [OF t(1) _ t(2)] by blast
    moreover have "addressed env (dag s')" using g a(3) by (simp add: grown_def)
    ultimately show ?thesis using run wf_le(1) [OF a(2) le] le by auto
  qed
qed

lemma root_update_keeps:
  assumes "root_update env nd f s = (r, f', s')" "wf_fs env (dag s) f" "addressed env (dag s)" "sound_env env"
  shows "f' = f" "wf_fs env (dag s') f" "addressed env (dag s')" "dag s \<subseteq>\<^sub>m dag s'" "view (dag s') f = view (dag s) f"
    "r = Inr () \<Longrightarrow> published s' = Some (node_Cid env nd)"
proof -
  obtain x s1 where d: "dag_Add env nd s = (x, s1)" by fastforce
  have run: "f' = f" "dag s' = dag s1" "r = Inr () \<Longrightarrow> published s' = Some (node_Cid env nd)"
    using assms(1) d by (auto simp: root_update_def split: option.splits)
  have g: "grown env s s1" by (rule dag_Add_grown(1) [OF d assms(3,4)])
  then show le: "dag s \<subseteq>\<^sub>m dag s'" "addressed env (dag s')" using run(2) assms(3) by (simp_all add: grown_def)
  show "f' = f" "wf_fs env (dag s') f" "view (dag s') f = view (dag s) f" "r = Inr () \<Longrightarrow> published s' = Some (node_Cid env nd)"
    using run wf_le(1) [OF assms(2) le(1)] view_le [OF assms(2) le(1)] by (auto intro!: ext)
qed

lemma root_update_spec:
  assumes "sound_env env"
  shows "op_spec env P (root_update env nd) (\<lambda>r D V D' V'. V' = V)"
proof (rule op_specI)
  fix f s r f' s'
  assume "root_update env nd f s = (r, f', s')" "wf_fs env (dag s) f" "addressed env (dag s)"
  from root_update_keeps [OF this assms]
  show "wf_fs env (dag s') f' \<and> addressed env (dag s') \<and> dag s \<subseteq>\<^sub>m dag s' \<and> view (dag s') f' = view (dag s) f" by simp
qed

lemma flush_up_spec:
  assumes "sound_env env"
  shows "op_spec env P (flush_up env parts) (\<lambda>r D V D' V'. V' = V \<and> (r = Inr () \<longrightarrow> V parts \<noteq> None))"
  unfolding flush_up_def
proof (rule op_spec_weaken [OF op_spec_bind])
  show "op_spec env P (update_path env parts (object_Flush env)) (up_rel env parts (\<lambda>r D V D' V'. V' = V \<and> (\<forall>nd. r = Inr nd \<longrightarrow> shown env D' nd [] V')))"
    by (rule update_path_spec [OF object_Flush_spec [OF assms] _ assms]) simp
  show "op_spec env (\<lambda>_. True) (root_update env x) (\<lambda>r D V D' V'. V' = V)" for x by (rule root_update_spec [OF assms])
qed (auto simp: bind_rel_def up_rel_def)

lemma flush_up_published:
  assumes "flush_up env parts f s = (Inr (), f', s')" "wf_fs env (dag s) f" "addressed env (dag s)" "sound_env env"
  obtains nd where "published s' = Some (node_Cid env nd)" "shown env (dag s') nd parts (view (dag s) f)"
proof -
  obtain nd s1 where u: "update_path env parts (object_Flush env) f s = (Inr nd, f', s1)" and r: "root_update env nd f' s1 = (Inr (), f', s')"
  proof -
    obtain x f1 s1 where u: "update_path env parts (object_Flush env) f s = (x, f1, s1)" by (metis prod_cases3)
    obtain nd where "x = Inr nd" "root_update env nd f1 s1 = (Inr (), f', s')" using assms(1) u by (cases x) (auto simp: flush_up_def bindF_def)
    moreover have "f' = f1" using calculation(2) by (auto simp: root_update_def split: prod.splits option.splits)
    ultimately show ?thesis using that u by blast
  qed
  have os: "op_spec env (\<lambda>_. True) (update_path env parts (object_Flush env)) (up_rel env parts (\<lambda>r D V D' V'. V' = V \<and> (\<forall>nd. r = Inr nd \<longrightarrow> shown env D' nd [] V')))"
    by (rule update_path_spec [OF object_Flush_spec [OF assms(4)] _ assms(4)]) simp
  note d = op_specD [OF os u assms(2,3) TrueI]
  have sh: "shown env (dag s1) nd parts (view (dag s) f)" using d(4) by (auto simp: up_rel_def)
  note k = root_update_keeps [OF r d(1,2) assms(4)]
  show ?thesis by (rule that [OF k(6) [OF refl] shown_le [OF sh k(4)]])
qed

lemma FlushPath_spec:
  assumes "sound_env env"
  shows "op_spec env P (FlushPath env pth)
    (\<lambda>r D V D' V'. V' = V \<and> (\<forall>nd. r = Inr nd \<longrightarrow> V (lookup_parts pth) \<noteq> None \<and> node_at D' nd = (\<lambda>qs. V (lookup_parts pth @ qs))))"
  unfolding FlushPath_def
proof (rule op_spec_weaken [OF op_spec_bind])
  show "op_spec env P (flush_up env (lookup_parts pth)) (\<lambda>r D V D' V'. V' = V \<and> (r = Inr () \<longrightarrow> V (lookup_parts pth) \<noteq> None))" by (rule flush_up_spec [OF assms])
  show "op_spec env (\<lambda>_. True) (at_path env (lookup_parts pth) (GetNode env)) (at_rel (lookup_parts pth) (\<lambda>r D V D' V'. V' = V
    \<and> (\<forall>nd. r = Inr nd \<longrightarrow> fs_tree D' nd \<and> node_at D' nd = V \<and> D' (node_Cid env nd) = Some (sort_links nd))))" for x :: unit
    by (rule at_path_spec [OF GetNode_spec [OF assms] assms])
qed (auto simp: bind_rel_def at_rel_def)

end
