(* ===== verification/Files_Moves.thy ===== *)
theory Files_Moves
  imports Files_Props
begin

text \<open>
  Absolute paths, which stand for their clean parts (\<open>parts_of\<close>), what \<^verbatim>\<open>Mkdir\<close> and \<^verbatim>\<open>Mv\<close> of \<^verbatim>\<open>go-mfs\<close> do to what is shown,
  and the rules by which an operation keeps the file system (\<open>keeps\<close>).
\<close>

section \<open>Absolute paths\<close>

definition abs_path :: "string list \<Rightarrow> string" where
  "abs_path P = ''/'' @ path_of P"

lemma checkPath_Inr:
  assumes "checkPath a = Inr p"
  shows "plain (parts_of a)" "p = abs_path (parts_of a) @ (if last a = CHR ''/'' \<and> a \<noteq> ''/'' then ''/'' else [])"
proof -
  have pre: "prefix ''/'' a" using assms by (cases a) (auto simp: checkPath_def split: if_splits)
  have "clean_ok True (rev (parts_of a))" using parts_of_ok [of a] pre by simp
  moreover have "clean_ok True Q \<Longrightarrow> list_all plain_name Q" for Q by (induction Q) (auto simp: plain_name_def)
  ultimately show "plain (parts_of a)" by (fastforce simp: plain_def)
  show "p = abs_path (parts_of a) @ (if last a = CHR ''/'' \<and> a \<noteq> ''/'' then ''/'' else [])"
    using assms pre by (auto simp: checkPath_def path_Clean_parts abs_path_def path_of_def split: if_splits)
qed

lemma split_abs: "plain P \<Longrightarrow> P \<noteq> [] \<Longrightarrow> split_on (CHR ''/'') (abs_path P) = [] # P"
  using plain_split(1) [of P] split_on_append [of "CHR ''/''" "[]" "path_of P"] by (simp add: abs_path_def)

lemma split_abs_slash: "plain P \<Longrightarrow> P \<noteq> [] \<Longrightarrow> split_on (CHR ''/'') (abs_path P @ ''/'') = [] # P @ [[]]"
  using split_abs [of P] by (simp add: split_on_append)

lemma trim_abs:
  assumes "plain P" "P \<noteq> []"
  shows "trim_left ''/'' (trim_right ''/'' (abs_path P)) = path_of P" "trim_left ''/'' (trim_right ''/'' (abs_path P @ ''/'')) = path_of P"
    "trim_right ''/'' (abs_path P) = abs_path P" "trim_right ''/'' (abs_path P @ ''/'') = abs_path P"
proof -
  note e = no_slash_ends [OF assms] and ne = path_of_nonempty [OF assms]
  have "trim_right ''/'' (''/'' @ path_of P) = ''/'' @ path_of P" "trim_right ''/'' ((''/'' @ path_of P) @ ''/'') = ''/'' @ path_of P"
    using ne e(2) by (cases "path_of P" rule: rev_cases; auto simp: trim_right_def)+
  moreover have "trim_left ''/'' (''/'' @ path_of P) = path_of P" using ne e(1) by (cases "path_of P") (auto simp: trim_left_def)
  ultimately show "trim_left ''/'' (trim_right ''/'' (abs_path P)) = path_of P" "trim_left ''/'' (trim_right ''/'' (abs_path P @ ''/'')) = path_of P"
    "trim_right ''/'' (abs_path P) = abs_path P" "trim_right ''/'' (abs_path P @ ''/'') = abs_path P"
    by (simp_all add: abs_path_def)
qed

lemma lookup_parts_abs:
  assumes "plain P"
  shows "lookup_parts (abs_path P) = P" "lookup_parts (abs_path P @ ''/'') = P"
proof -
  have "lookup_parts (abs_path P) = P \<and> lookup_parts (abs_path P @ ''/'') = P"
  proof (cases "P = []")
    case True
    then show ?thesis by (simp add: abs_path_def lookup_parts_def trim_left_def trim_right_def)
  next
    case False
    have "P \<noteq> [[]]" using assms by (auto simp: plain_def plain_name_def)
    then show ?thesis using trim_abs [OF assms False] plain_split(1) [OF assms False] by (simp add: lookup_parts_def Let_def)
  qed
  then show "lookup_parts (abs_path P) = P" "lookup_parts (abs_path P @ ''/'') = P" by auto
qed

lemma mkdir_parts_abs:
  assumes "plain P" "P \<noteq> []"
  shows "mkdir_parts (abs_path P) = P" "mkdir_parts (abs_path P @ ''/'') = P"
proof -
  have "last P \<noteq> []" using assms last_in_set by (auto simp: plain_def list_all_iff plain_name_def)
  then show "mkdir_parts (abs_path P) = P" "mkdir_parts (abs_path P @ ''/'') = P"
    using split_abs [OF assms] split_abs_slash [OF assms] assms(2) by (simp_all add: mkdir_parts_def Let_def)
qed

lemma abs_path_snoc: "abs_path (P @ [n]) = (if P = [] then ''/'' else abs_path P @ ''/'') @ n"
  by (cases "P = []") (simp_all add: abs_path_def path_of_snoc, simp add: path_of_def)

lemma Split_abs:
  assumes "plain (P @ [n])"
  shows "path_Split (abs_path (P @ [n])) = (if P = [] then ''/'' else abs_path P @ ''/'', n)"
proof -
  have "last (split_on (CHR ''/'') (abs_path (P @ [n]))) = n" using split_abs [OF assms] by simp
  then show ?thesis by (simp add: path_Split_def Let_def abs_path_snoc)
qed

lemma lookup_Split_abs: "plain (P @ [n]) \<Longrightarrow> lookup_parts (fst (path_Split (abs_path (P @ [n])))) = P"
  using Split_abs [of P n] lookup_parts_abs [of P] lookup_parts_abs(1) [of "[]"] by (auto simp: abs_path_def plain_def)

lemma put_path_abs: "plain P \<Longrightarrow> P \<noteq> [] \<Longrightarrow> put_path (abs_path P) = P"
proof -
  assume p: "plain P" "P \<noteq> []"
  obtain Q n where P: "P = Q @ [n]" using p(2) by (cases P rule: rev_cases) auto
  then show ?thesis using lookup_Split_abs [of Q n] Split_abs [of Q n] p(1) unfolding put_path_def by (metis snd_conv)
qed

lemma Dir_abs:
  assumes "plain (P @ [n])"
  shows "path_Dir (abs_path (P @ [n])) = abs_path P"
proof -
  have p: "plain P" using assms by simp
  have "parts_of (if P = [] then ''/'' else abs_path P @ ''/'') = P"
  proof (cases "P = []")
    case False
    have cp: "clean_parts r st (Q @ [[]]) = clean_parts r st Q" for r st Q
      by (induction r st Q rule: clean_parts.induct) (auto split: list.splits)
    have "clean_parts True [] P = P" using clean_parts_id [of True P "[]"] plain_clean [OF p, of True] by simp
    then show ?thesis using split_abs_slash [OF p False] cp [of True "[]" P] False by (simp add: parts_of_def abs_path_def)
  qed (simp add: parts_of_def)
  moreover have "prefix ''/'' (if P = [] then ''/'' else abs_path P @ ''/'')" by (simp add: abs_path_def)
  ultimately show ?thesis using Split_abs [OF assms] by (simp add: path_Dir_def path_Clean_parts abs_path_def path_of_def)
qed

lemma last_abs: "plain P \<Longrightarrow> last (abs_path P) = CHR ''/'' \<longleftrightarrow> P = []"
  using no_slash_ends(2) [of P] path_of_nonempty [of P] by (auto simp: abs_path_def)

lemma Base_abs: "plain (P @ [n]) \<Longrightarrow> path_Base (abs_path (P @ [n])) = n"
  using trim_abs(3) [of "P @ [n]"] split_abs [of "P @ [n]"] by (simp add: path_Base_def abs_path_def)

section \<open>What keeps the file system\<close>

definition fs_ok :: "'e mfs_env_scheme \<Rightarrow> fsnode \<Rightarrow> files_state \<Rightarrow> bool" where
  "fs_ok env f s = (wf_fs env (dag s) f \<and> addressed env (dag s))"

lemma op_spec_fs:
  assumes "op_spec env P op Q" "op f s = (r, f', s')" "fs_ok env f s" "P (dag s)"
  shows "fs_ok env f' s'" "dag s \<subseteq>\<^sub>m dag s'" "Q r (dag s) (view (dag s) f) (dag s') (view (dag s') f')"
  using op_specD [OF assms(1,2) _ _ assms(4)] assms(3) by (auto simp: fs_ok_def)

text \<open>Below what is not there is nothing.\<close>

lemma node_at_below: "node_at D nd P = None \<Longrightarrow> node_at D nd (P @ qs) = None"
  by (induction P arbitrary: nd) (auto split: option.splits if_splits)

lemma view_below: "view D f P = None \<Longrightarrow> view D f (P @ qs) = None"
proof (induction P arbitrary: f)
  case Nil
  then show ?case by (cases f) auto
next
  case (Cons p P)
  show ?case
  proof (cases f)
    case (File nd)
    then show ?thesis using Cons.prems node_at_below [of D nd "p # P" qs] by simp
  next
    case (Directory dn cache)
    show ?thesis
    proof (cases "map_of cache p")
      case None
      then show ?thesis using Cons.prems node_at_below [of D dn "p # P" qs] Directory by (simp add: view.simps)
    qed (use Cons Directory in \<open>simp add: view.simps\<close>)
  qed
qed

text \<open>A view of a tree: what is below nothing is nothing.\<close>

definition tree_view :: "fview \<Rightarrow> bool" where
  "tree_view V = (\<forall>P qs. V P = None \<longrightarrow> V (P @ qs) = None)"

lemma tree_view_view [simp]: "tree_view (view D f)"
  using view_below by (auto simp: tree_view_def)

lemma without_absent: "tree_view V \<Longrightarrow> V P = None \<Longrightarrow> without P V = V"
  by (rule ext) (auto simp: without_def tree_view_def prefix_def)

text \<open>The entries of a directory are its links.\<close>

lemma view_name_iff:
  assumes "wf_fs env D (Directory dn cache)"
  shows "view D (Directory dn cache) [n] \<noteq> None \<longleftrightarrow> n \<in> fst ` set (Links dn)"
proof (cases "map_of cache n")
  case None
  have nc: "n \<notin> fst ` set cache" using None by (simp add: map_of_eq_None_iff)
  show ?thesis
  proof (cases "map_of (Links dn) n")
    case (Some c)
    then obtain m where "D c = Some m" using wf_uncached [OF assms Some nc] by blast
    moreover have "n \<in> fst ` set (Links dn)" using Some by (force dest: map_of_SomeD)
    ultimately show ?thesis using None Some assms by (simp add: view.simps)
  next
    case N2: None
    then have "n \<notin> fst ` set (Links dn)" by (simp add: map_of_eq_None_iff)
    then show ?thesis using view_absent [OF _ None] by simp
  qed
next
  case (Some g)
  then show ?thesis using wf_names [OF assms Some] by (simp add: view.simps)
qed

section \<open>Making directories\<close>

lemma Mkdir_flush_spec:
  assumes "sound_env env"
  shows "op_spec env P (Mkdir_flush env opts pth)
    (\<lambda>r D V D' V'. case r of Inr _ \<Rightarrow> V' = with_dirs (mkdir_parts pth) V \<or> (mkdir_parts pth = [] \<and> V' = V)
       | Inl e \<Rightarrow> \<exists>n. V' = with_dirs (take n (mkdir_parts pth)) V)"
  unfolding Mkdir_flush_def
proof (rule op_spec_weaken [OF op_spec_bind])
  show "op_spec env P (unitF (Mkdir env opts pth)) (\<lambda>r D V D' V'. case r of Inr _ \<Rightarrow> V' = with_dirs (mkdir_parts pth) V \<or> (mkdir_parts pth = [] \<and> V' = V)
       | Inl e \<Rightarrow> \<exists>n. V' = with_dirs (take n (mkdir_parts pth)) V)" by (rule Mkdir_spec [OF assms])
  show "op_spec env (\<lambda>_. True) (if opt_Flush opts \<and> mkdir_parts pth \<noteq> [] then flush_up env (mkdir_parts pth) else okF ())
    (\<lambda>r D V D' V'. V' = V \<and> (mkdir_parts pth = [] \<longrightarrow> r = Inr ()))" for x :: unit
  proof (cases "opt_Flush opts \<and> mkdir_parts pth \<noteq> []")
    case True
    show ?thesis unfolding if_P [OF True] by (rule op_spec_weaken [OF flush_up_spec [OF assms]]) (use True in auto)
  next
    case False
    show ?thesis unfolding if_not_P [OF False] by (rule op_spec_weaken [OF op_spec_pure(1)]) auto
  qed
next
  fix r D V D' V'
  assume "bind_rel (\<lambda>r D V D' V'. case r of Inr _ \<Rightarrow> V' = with_dirs (mkdir_parts pth) V \<or> (mkdir_parts pth = [] \<and> V' = V)
       | Inl e \<Rightarrow> \<exists>n. V' = with_dirs (take n (mkdir_parts pth)) V) (\<lambda>x r D V D' V'. V' = V \<and> (mkdir_parts pth = [] \<longrightarrow> r = Inr ())) r D V D' V'"
  then consider e where "r = Inl e" "\<exists>n. V' = with_dirs (take n (mkdir_parts pth)) V"
    | "V' = with_dirs (mkdir_parts pth) V \<or> (mkdir_parts pth = [] \<and> V' = V)" "mkdir_parts pth = [] \<longrightarrow> r = Inr ()"
    unfolding bind_rel_def by auto
  then show "case r of Inr _ \<Rightarrow> V' = with_dirs (mkdir_parts pth) V \<or> (mkdir_parts pth = [] \<and> V' = V)
       | Inl e \<Rightarrow> \<exists>n. V' = with_dirs (take n (mkdir_parts pth)) V"
  proof cases
    case 2
    have "V' = with_dirs (take (length (mkdir_parts pth)) (mkdir_parts pth)) V" if "r = Inl e" for e using 2 that by auto
    then have "\<exists>n. V' = with_dirs (take n (mkdir_parts pth)) V" if "r = Inl e" for e using that by blast
    then show ?thesis using 2(1) by (cases r) simp_all
  qed auto
qed auto

lemma bindF_liftF:
  "bindF (liftF (Inl e)) k f s = (Inl e, f, s)" "bindF (liftF (Inr x)) k f s = k x f s"
  by (simp_all add: bindF_def liftF_def)

lemma filesMkdir_run:
  assumes run: "filesMkdir env dashp flush cidVer hashFun arg f s = (r, f', s')" and ok: "fs_ok env f s" "sound_env env" and P: "parts_of arg \<noteq> []"
  shows "fs_ok env f' s'" "dag s \<subseteq>\<^sub>m dag s'" "case r of Inr _ \<Rightarrow> view (dag s') f' = with_dirs (parts_of arg) (view (dag s) f)
    | Inl e \<Rightarrow> \<exists>n. view (dag s') f' = with_dirs (take n (parts_of arg)) (view (dag s) f)"
proof -
  have nil: "view (dag s) f = with_dirs (take 0 (parts_of arg)) (view (dag s) f)" by (simp add: with_dirs_Nil)
  have "fs_ok env f' s' \<and> dag s \<subseteq>\<^sub>m dag s' \<and> (case r of Inr _ \<Rightarrow> view (dag s') f' = with_dirs (parts_of arg) (view (dag s) f)
    | Inl e \<Rightarrow> \<exists>n. view (dag s') f' = with_dirs (take n (parts_of arg)) (view (dag s) f))"
  proof (cases "\<exists>p b. checkPath arg = Inr p \<and> getPrefix env cidVer hashFun = Inr b")
    case True
    then obtain p b where pb: "checkPath arg = Inr p" "getPrefix env cidVer hashFun = Inr b" by blast
    note c = checkPath_Inr [OF pb(1)]
    have mp: "mkdir_parts p = parts_of arg" using c(2) mkdir_parts_abs [OF c(1) P] by simp
    have m: "Mkdir_flush env \<lparr>Mkparents = dashp, opt_Flush = flush, opt_CidBuilder = b\<rparr> p f s = (r, f', s')"
      using run pb by (simp add: filesMkdir_def bindF_liftF)
    note d = op_spec_fs [OF Mkdir_flush_spec [OF ok(2), where P = "\<lambda>_. True"] m ok(1) TrueI, unfolded mp]
    show ?thesis using d P by (cases r) auto
  next
    case False
    then have "f' = f \<and> s' = s \<and> (\<exists>e. r = Inl e)"
      using run by (cases "checkPath arg"; cases "getPrefix env cidVer hashFun") (auto simp: filesMkdir_def bindF_liftF)
    then have same: "f' = f" "s' = s" "\<exists>e. r = Inl e" by auto
    have "\<exists>n. view (dag s') f' = with_dirs (take n (parts_of arg)) (view (dag s) f)" unfolding same by (rule exI, rule nil)
    then show ?thesis using ok(1) same by (cases r) auto
  qed
  then show "fs_ok env f' s'" "dag s \<subseteq>\<^sub>m dag s'" "case r of Inr _ \<Rightarrow> view (dag s') f' = with_dirs (parts_of arg) (view (dag s) f)
    | Inl e \<Rightarrow> \<exists>n. view (dag s') f' = with_dirs (take n (parts_of arg)) (view (dag s) f)" by auto
qed

section \<open>Moving\<close>

lemma bindF_Inr: "bindF m k f s = (Inr y, f', s') \<longleftrightarrow> (\<exists>x g t. m f s = (Inr x, g, t) \<and> k x g t = (Inr y, f', s'))"
  by (auto simp: bindF_def split: prod.splits sum.splits)

lemma op_spec_tree:
  assumes "op_spec env P op Q" "\<And>r D V D' V'. P D \<Longrightarrow> tree_view V \<Longrightarrow> Q r D V D' V' \<Longrightarrow> Q' r D V D' V'"
  shows "op_spec env P op Q'"
proof (rule op_specI)
  fix f s r f' s'
  assume a: "op f s = (r, f', s')" "wf_fs env (dag s) f" "addressed env (dag s)" "P (dag s)"
  note d = op_specD [OF assms(1) a]
  show "wf_fs env (dag s') f' \<and> addressed env (dag s') \<and> dag s \<subseteq>\<^sub>m dag s' \<and> Q' r (dag s) (view (dag s) f) (dag s') (view (dag s') f')"
    using d(1-3) assms(2) [OF a(4) tree_view_view d(4)] by blast
qed

text \<open>Where a move goes.\<close>

definition mv_dest :: "fview \<Rightarrow> string list \<Rightarrow> string \<Rightarrow> string \<Rightarrow> string list \<times> string" where
  "mv_dest V dst m n = (if V (dst @ [m]) = Some EDir then (dst @ [m], n) else (dst, m))"

lemma unlink_at_spec:
  assumes "sound_env env"
  shows "op_spec env P (at_path env parts (dir_Unlink name))
    (\<lambda>r D V D' V'. case r of Inr _ \<Rightarrow> V (parts @ [name]) \<noteq> None \<and> V' = without (parts @ [name]) V
       | Inl e \<Rightarrow> V' = V \<and> (e = ErrNotExist \<longrightarrow> V (parts @ [name]) = None) \<and> (V (parts @ [name]) \<noteq> None \<longrightarrow> V parts \<noteq> Some EDir))"
  by (rule op_spec_tree [OF at_path_spec [OF dir_Unlink_spec assms]])
    (auto simp: at_rel_def tree_view_def without_append split: sum.splits)

lemma child_at_spec:
  assumes "sound_env env"
  shows "op_spec env P (at_path env parts (dir_Child env name))
    (\<lambda>r D V D' V'. V' = V \<and> (case r of
       Inr f \<Rightarrow> V (parts @ [name]) \<noteq> None \<and> (V (parts @ [name]) = Some EDir \<longleftrightarrow> (\<exists>dn c. f = Directory dn c))
     | Inl e \<Rightarrow> e = ErrNotExist \<longrightarrow> V (parts @ [name]) = None))"
  by (rule op_spec_tree [OF at_path_spec [OF dir_Child_spec [OF assms] assms]])
    (auto simp: at_rel_def tree_view_def split: sum.splits)

lemma node_at_spec:
  assumes "sound_env env"
  shows "op_spec env P (at_path env parts (GetNode env))
    (\<lambda>r D V D' V'. V' = V \<and> (\<forall>nd. r = Inr nd \<longrightarrow> V parts \<noteq> None \<and> fs_tree D' nd \<and> node_at D' nd = (\<lambda>qs. V (parts @ qs))))"
proof (rule op_spec_weaken [OF at_path_spec [OF GetNode_spec [OF assms, of P] assms]])
  fix r D V D' V'
  assume "at_rel parts (\<lambda>r D V D' V'. V' = V \<and> (\<forall>nd. r = Inr nd \<longrightarrow> fs_tree D' nd \<and> node_at D' nd = V
    \<and> D' (node_Cid env nd) = Some (sort_links nd))) r D V D' V'"
  then show "V' = V \<and> (\<forall>nd. r = Inr nd \<longrightarrow> V parts \<noteq> None \<and> fs_tree D' nd \<and> node_at D' nd = (\<lambda>qs. V (parts @ qs)))"
    unfolding at_rel_def by (auto simp: with_node_same)
qed

lemma mv_target_spec:
  assumes "sound_env env"
  shows "op_spec env P (mv_target env dst m n)
    (\<lambda>r D V D' V'. case r of
       Inr x \<Rightarrow> x = mv_dest V dst m n \<and> (V' = V \<or> (V (dst @ [m]) \<notin> {None, Some EDir} \<and> V' = without (dst @ [m]) V))
     | Inl e \<Rightarrow> V' = V)"
  unfolding mv_target_def
proof (rule op_spec_weaken [OF op_spec_try])
  show "op_spec env P (at_path env dst (dir_Child env m)) (\<lambda>r D V D' V'. V' = V \<and> (case r of
       Inr f \<Rightarrow> V (dst @ [m]) \<noteq> None \<and> (V (dst @ [m]) = Some EDir \<longleftrightarrow> (\<exists>dn c. f = Directory dn c))
     | Inl e \<Rightarrow> e = ErrNotExist \<longrightarrow> V (dst @ [m]) = None))" by (rule child_at_spec [OF assms])
  fix x
  show "op_spec env (\<lambda>_. True) (case x of Inl e \<Rightarrow> if e = ErrNotExist then okF (dst, m) else failF e
      | Inr (File nd) \<Rightarrow> tryF (at_path env dst (dir_Unlink m)) (\<lambda>_. okF (dst, m)) | Inr (Directory dn cache) \<Rightarrow> okF (dst @ [m], n))
    (\<lambda>r D V D' V'. case x of
        Inl e \<Rightarrow> if e = ErrNotExist then r = Inr (dst, m) \<and> V' = V else r = Inl e \<and> V' = V
      | Inr (File nd) \<Rightarrow> r = Inr (dst, m) \<and> (V' = V \<or> V' = without (dst @ [m]) V)
      | Inr (Directory dn cache) \<Rightarrow> r = Inr (dst @ [m], n) \<and> V' = V)"
  proof (cases "\<exists>nd. x = Inr (File nd)")
    case True
    have "op_spec env (\<lambda>_. True) (tryF (at_path env dst (dir_Unlink m)) (\<lambda>_. okF (dst, m)))
      (\<lambda>r D V D' V'. r = Inr (dst, m) \<and> (V' = V \<or> V' = without (dst @ [m]) V))"
      by (rule op_spec_weaken [OF op_spec_try [OF unlink_at_spec [OF assms, of "\<lambda>_. True"] op_spec_pure(1) [of env "\<lambda>_. True"]]])
        (auto split: sum.splits)
    then show ?thesis using True by auto
  next
    case False
    show ?thesis
    proof (cases x)
      case (Inl e)
      then show ?thesis using op_spec_weaken [OF op_spec_pure(2) [of env "\<lambda>_. True" e]] op_spec_weaken [OF op_spec_pure(1) [of env "\<lambda>_. True" "(dst, m)"]]
        by (simp add: op_spec_def okF_def failF_def)
    next
      case (Inr f)
      then obtain dn c where "x = Inr (Directory dn c)" using False by (cases f) auto
      then show ?thesis by (simp add: op_spec_def okF_def)
    qed
  qed
next
  fix r D V D'' V''
  assume "\<exists>x D' V'. D' \<subseteq>\<^sub>m D'' \<and> (V' = V \<and> (case x of
       Inr f \<Rightarrow> V (dst @ [m]) \<noteq> None \<and> (V (dst @ [m]) = Some EDir \<longleftrightarrow> (\<exists>dn c. f = Directory dn c))
     | Inl e \<Rightarrow> e = ErrNotExist \<longrightarrow> V (dst @ [m]) = None)) \<and> (case x of
        Inl e \<Rightarrow> if e = ErrNotExist then r = Inr (dst, m) \<and> V'' = V' else r = Inl e \<and> V'' = V'
      | Inr (File nd) \<Rightarrow> r = Inr (dst, m) \<and> (V'' = V' \<or> V'' = without (dst @ [m]) V')
      | Inr (Directory dn cache) \<Rightarrow> r = Inr (dst @ [m], n) \<and> V'' = V')"
  then obtain x where c: "case x of
       Inr f \<Rightarrow> V (dst @ [m]) \<noteq> None \<and> (V (dst @ [m]) = Some EDir \<longleftrightarrow> (\<exists>dn c. f = Directory dn c))
     | Inl e \<Rightarrow> e = ErrNotExist \<longrightarrow> V (dst @ [m]) = None" and k: "case x of
        Inl e \<Rightarrow> if e = ErrNotExist then r = Inr (dst, m) \<and> V'' = V else r = Inl e \<and> V'' = V
      | Inr (File nd) \<Rightarrow> r = Inr (dst, m) \<and> (V'' = V \<or> V'' = without (dst @ [m]) V)
      | Inr (Directory dn cache) \<Rightarrow> r = Inr (dst @ [m], n) \<and> V'' = V" by blast
  show "case r of
       Inr x \<Rightarrow> x = mv_dest V dst m n \<and> (V'' = V \<or> (V (dst @ [m]) \<notin> {None, Some EDir} \<and> V'' = without (dst @ [m]) V))
     | Inl e \<Rightarrow> V'' = V"
  proof (cases x)
    case (Inl e)
    then show ?thesis using c k by (cases "e = ErrNotExist") (auto simp: mv_dest_def)
  next
    case (Inr f)
    then show ?thesis using c k by (cases f) (auto simp: mv_dest_def)
  qed
qed auto

text \<open>What a move that succeeds does, exactly.\<close>

definition mv_args :: "string \<Rightarrow> string \<Rightarrow> string list \<Rightarrow> string \<Rightarrow> string list \<Rightarrow> string \<Rightarrow> bool" where
  "mv_args src dst P n dd dm =
     (path_Split src = (fst (path_Split src), n) \<and> lookup_parts (fst (path_Split src)) = P
      \<and> (if last dst = CHR ''/'' then dm = n \<and> lookup_parts dst = dd
         else path_Split dst = (fst (path_Split dst), dm) \<and> lookup_parts (fst (path_Split dst)) = dd))"

lemma Mv_exact:
  assumes run: "Mv env src dst f s = (Inr (), f', s')" and ok: "fs_ok env f s" "sound_env env" and args: "mv_args src dst P n dd dm"
    and V: "V = view (dag s) f" and Qm: "(Q, m) = mv_dest V dd dm n"
  shows "V (P @ [n]) \<noteq> None" "V (Q @ [m]) = None \<or> V (Q @ [m]) \<noteq> Some EDir \<and> V (Q @ [m]) = V (dd @ [dm]) \<and> (Q, m) = (dd, dm)" "V Q = Some EDir"
    "view (dag s') f' = (let X = with_node (Q @ [m]) (\<lambda>qs. V (P @ [n] @ qs)) V in
       if dir_name env P = dir_name env Q \<and> n = m then X else without (P @ [n]) X)"
proof -
  define dD where "dD = (if last dst = CHR ''/'' then dst else fst (path_Split dst))"
  define sD where "sD = fst (path_Split src)"
  have sp: "path_Split src = (sD, n)" "lookup_parts sD = P" "lookup_parts dD = dd" "(if last dst = CHR ''/'' then (dst, n) else path_Split dst) = (dD, dm)"
    using args by (auto simp: mv_args_def dD_def sD_def split: if_splits)
  obtain f1 s1 f2 s2 c f3 s3 nd f4 s4 Q1 m1 f5 s5 f6 s6 where
    1: "lookupDir env dD f s = (Inr (), f1, s1)" and 2: "lookupDir env sD f1 s1 = (Inr (), f2, s2)"
    and 3: "at_path env P (dir_Child env n) f2 s2 = (Inr c, f3, s3)" and 4: "at_path env (P @ [n]) (GetNode env) f3 s3 = (Inr nd, f4, s4)"
    and 5: "mv_target env dd dm n f4 s4 = (Inr (Q1, m1), f5, s5)" and 6: "at_path env Q1 (dir_Add env m1 nd) f5 s5 = (Inr (), f6, s6)"
    and 7: "(if dir_name env P = dir_name env Q1 \<and> n = m1 then okF () else at_path env P (dir_Unlink n)) f6 s6 = (Inr (), f', s')"
    using run sp unfolding Mv_def by (auto simp: bindF_Inr Let_def split: prod.splits)
  note a1 = op_spec_fs [OF lookupDir_spec [OF ok(2), of "\<lambda>_. True"] 1 ok(1) TrueI]
  note a2 = op_spec_fs [OF lookupDir_spec [OF ok(2), of "\<lambda>_. True"] 2 a1(1) TrueI]
  note a3 = op_spec_fs [OF child_at_spec [OF ok(2), of "\<lambda>_. True"] 3 a2(1) TrueI]
  note a4 = op_spec_fs [OF node_at_spec [OF ok(2), of "\<lambda>_. True"] 4 a3(1) TrueI]
  note a5 = op_spec_fs [OF mv_target_spec [OF ok(2), of "\<lambda>_. True"] 5 a4(1) TrueI]
  have v3: "view (dag s3) f3 = V" using a1(3) a2(3) a3(3) V by simp
  have nd: "fs_tree (dag s4) nd" "node_at (dag s4) nd = (\<lambda>qs. V ((P @ [n]) @ qs))" and v4: "view (dag s4) f4 = V"
    using a4(3) v3 by auto
  have Q1: "(Q1, m1) = (Q, m)" and v5: "view (dag s5) f5 = V \<or> (V (dd @ [dm]) \<notin> {None, Some EDir} \<and> view (dag s5) f5 = without (dd @ [dm]) V)"
    using a5(3) v4 Qm by auto
  have nd5: "fs_tree (dag s5) nd" "node_at (dag s5) nd = (\<lambda>qs. V ((P @ [n]) @ qs))" using fs_tree_le [OF nd(1) a5(2)] node_at_le [OF nd(1) a5(2)] nd(2) by auto
  note a6 = op_spec_fs [OF at_path_spec [OF dir_Add_spec [OF ok(2)] ok(2)] 6 a5(1) nd5(1)]
  have 61: "view (dag s5) f5 Q = Some EDir" "view (dag s5) f5 (Q @ [m]) = None"
    "view (dag s6) f6 = with_node (Q @ [m]) (node_at (dag s5) nd) (view (dag s5) f5)"
    using a6(3) Q1 by (auto simp: at_rel_def with_node_append)
  have wo: "with_node R W (without R V) = with_node R W V" for R W by (rule ext) (simp add: with_node_def without_def)
  have dest: "(Q, m) = (dd, dm)" if "V (dd @ [dm]) \<noteq> Some EDir" using Qm that by (simp add: mv_dest_def)
  have v6: "view (dag s6) f6 = with_node (Q @ [m]) (\<lambda>qs. V (P @ [n] @ qs)) V"
    using v5 61(3) nd5(2) wo dest by auto
  have "V P = Some EDir" using a2(3) sp(2) a1(3) V by auto
  show "V (P @ [n]) \<noteq> None" using a3(3) a1(3) a2(3) V by auto
  show "V (Q @ [m]) = None \<or> V (Q @ [m]) \<noteq> Some EDir \<and> V (Q @ [m]) = V (dd @ [dm]) \<and> (Q, m) = (dd, dm)" using v5 61(2) dest by auto
  show "V Q = Some EDir" using v5 61(1) by (auto simp: without_def split: if_splits)
  show "view (dag s') f' = (let X = with_node (Q @ [m]) (\<lambda>qs. V (P @ [n] @ qs)) V in
       if dir_name env P = dir_name env Q \<and> n = m then X else without (P @ [n]) X)"
  proof (cases "dir_name env P = dir_name env Q \<and> n = m")
    case True
    then have "f' = f6" "s' = s6" using 7 Q1 by (auto simp: okF_def)
    then show ?thesis using v6 True by simp
  next
    case False
    then have "at_path env P (dir_Unlink n) f6 s6 = (Inr (), f', s')" using 7 Q1 by auto
    from op_spec_fs(3) [OF unlink_at_spec [OF ok(2), of "\<lambda>_. True"] this a6(1) TrueI]
    show ?thesis using v6 False by (auto simp: Let_def)
  qed
qed

lemma mv_args_parts:
  assumes "checkPath a = Inr src" "checkPath b = Inr dst" "parts_of a = P @ [n]" "last a \<noteq> CHR ''/''"
  shows "mv_args src dst P n (if last b = CHR ''/'' \<or> parts_of b = [] then parts_of b else butlast (parts_of b))
    (if last b = CHR ''/'' \<or> parts_of b = [] then n else last (parts_of b))"
proof -
  note ca = checkPath_Inr [OF assms(1)] and cb = checkPath_Inr [OF assms(2)]
  have src: "src = abs_path (P @ [n])" "plain (P @ [n])" using ca assms(3,4) by auto
  have s: "path_Split src = (fst (path_Split src), n)" "lookup_parts (fst (path_Split src)) = P"
    unfolding src(1) using Split_abs [OF src(2)] lookup_Split_abs [OF src(2)] by simp_all
  show ?thesis
  proof (cases "last b = CHR ''/'' \<or> parts_of b = []")
    case True
    have "parts_of ''/'' = []" by (simp add: parts_of_def)
    then have "last dst = CHR ''/''" using True cb last_abs [OF cb(1)] by (auto simp: abs_path_def)
    moreover have "lookup_parts dst = parts_of b" using cb lookup_parts_abs [OF cb(1)] by auto
    ultimately show ?thesis using s True by (auto simp: mv_args_def)
  next
    case False
    then obtain R k where R: "parts_of b = R @ [k]" by (metis rev_exhaust)
    have dst: "dst = abs_path (R @ [k])" "plain (R @ [k])" using cb False R by auto
    have "last dst \<noteq> CHR ''/''" using last_abs [OF dst(2)] dst(1) by simp
    then show ?thesis using s False R Split_abs [OF dst(2)] lookup_Split_abs [OF dst(2)] unfolding dst(1) by (simp add: mv_args_def)
  qed
qed

lemma filesMv_Mv:
  assumes "filesMv env flush a b f s = (Inr (), f', s')" "fs_ok env f s" "sound_env env"
    "\<And>src dst. checkPath a = Inr src \<Longrightarrow> checkPath b = Inr dst \<Longrightarrow> op_spec env (\<lambda>_. True) (Mv env src dst) (\<lambda>r D V D' V'. True)"
  obtains src dst f1 s1 where "checkPath a = Inr src" "checkPath b = Inr dst" "Mv env src dst f s = (Inr (), f1, s1)"
    "view (dag s') f' = view (dag s1) f1"
proof -
  obtain src dst f1 s1 where c: "checkPath a = Inr src" "checkPath b = Inr dst" "Mv env src dst f s = (Inr (), f1, s1)"
    and k: "(if flush then bindF (FlushPath env ''/'') (\<lambda>_. okF ()) else okF ()) f1 s1 = (Inr (), f', s')"
    using assms(1) by (auto simp: filesMv_def bindF_Inr liftF_def)
  have ok1: "fs_ok env f1 s1" by (rule op_spec_fs(1) [OF assms(4) [OF c(1,2)] c(3) assms(2) TrueI])
  have "view (dag s') f' = view (dag s1) f1"
  proof (cases flush)
    case True
    then obtain nd where "FlushPath env ''/'' f1 s1 = (Inr nd, f', s')" using k by (auto simp: bindF_Inr okF_def)
    from op_spec_fs(3) [OF FlushPath_spec [OF assms(3), of "\<lambda>_. True"] this ok1 TrueI] show ?thesis by simp
  qed (use k in \<open>auto simp: okF_def\<close>)
  then show ?thesis using that c by blast
qed

lemma node_at_leaf_below: "node_at D nd P = Some (ELeaf x) \<Longrightarrow> qs \<noteq> [] \<Longrightarrow> node_at D nd (P @ qs) = None"
proof (induction P arbitrary: nd)
  case Nil
  then show ?case by (cases qs) (auto simp: entry_of_def split: if_splits)
qed (auto split: option.splits if_splits)

lemma view_leaf_below: "wf_fs env D f \<Longrightarrow> view D f P = Some (ELeaf x) \<Longrightarrow> qs \<noteq> [] \<Longrightarrow> view D f (P @ qs) = None"
proof (induction P arbitrary: f)
  case Nil
  then show ?case by (cases f) (use node_at_leaf_below [of D _ "[]"] in \<open>auto simp: entry_of_def\<close>)
next
  case (Cons p P)
  show ?case
  proof (cases f)
    case (File nd)
    then show ?thesis using Cons.prems node_at_leaf_below [of D nd "p # P" x qs] by simp
  next
    case (Directory dn cache)
    show ?thesis
    proof (cases "map_of cache p")
      case None
      then show ?thesis using Cons.prems node_at_leaf_below [of D dn "p # P" x qs] Directory by (simp add: view.simps)
    next
      case (Some g)
      then show ?thesis using Cons.prems Cons.IH [of g] wf_cache_map_of [OF _ Some] Directory by (auto simp: view.simps)
    qed
  qed
qed

section \<open>Invariance\<close>

text \<open>Every operation keeps the file system, on every path.\<close>

definition keeps :: "'e mfs_env_scheme \<Rightarrow> (dagmap \<Rightarrow> bool) \<Rightarrow> 'a fop \<Rightarrow> bool" where
  "keeps env P op = op_spec env P op (\<lambda>r D V D' V'. True)"

lemma keepsI: "op_spec env P op Q \<Longrightarrow> (\<And>D. P' D \<Longrightarrow> P D) \<Longrightarrow> keeps env P' op"
  unfolding keeps_def by (erule op_spec_weaken) auto

lemma fs_keeps_bind:
  assumes "op_spec env P m Q" "\<And>x. keeps env (P2 x) (k x)" "\<And>x D V D' V'. P D \<Longrightarrow> D \<subseteq>\<^sub>m D' \<Longrightarrow> Q (Inr x) D V D' V' \<Longrightarrow> P2 x D'"
  shows "keeps env P (bindF m k)"
  unfolding keeps_def by (rule op_spec_weaken [OF op_spec_bind [OF assms(1) assms(2) [unfolded keeps_def] assms(3)]]) auto

lemma fs_keeps_try:
  assumes "op_spec env P m Q" "\<And>x. keeps env (P2 x) (k x)" "\<And>x D V D' V'. P D \<Longrightarrow> D \<subseteq>\<^sub>m D' \<Longrightarrow> Q x D V D' V' \<Longrightarrow> P2 x D'"
  shows "keeps env P (tryF m k)"
  unfolding keeps_def by (rule op_spec_weaken [OF op_spec_try [OF assms(1) assms(2) [unfolded keeps_def] assms(3)]]) auto

lemma keeps_seq:
  assumes "keeps env (\<lambda>_. True) m" "\<And>x. keeps env (\<lambda>_. True) (k x)"
  shows "keeps env (\<lambda>_. True) (bindF m k)" 
  by (rule fs_keeps_bind [OF assms(1) [unfolded keeps_def], where ?P2.0 = "\<lambda>_ _. True"]) (use assms(2) in auto)

lemma keeps_pure [simp]: "keeps env P (okF x)" "keeps env P (failF e)" "keeps env P (liftF y)"
  by (auto intro: keepsI op_spec_pure)

lemma keeps_Mv:
  assumes "sound_env env"
  shows "keeps env (\<lambda>_. True) (Mv env src dst)"
proof -
  obtain sD n where s: "path_Split src = (sD, n)" by fastforce
  obtain dD dm where d: "(if last dst = CHR ''/'' then (dst, n) else path_Split dst) = (dD, dm)" by fastforce
  let ?P = "\<lambda>nd D. fs_tree D nd"
  have fin: "keeps env (\<lambda>_. True) (if b then okF () else at_path env P (dir_Unlink k))" for b P k
    using keepsI [OF unlink_at_spec [OF assms, of "\<lambda>_. True"]] by simp
  have 6: "keeps env (?P nd) (bindF (at_path env Q (dir_Add env k nd)) (\<lambda>_. if b then okF () else at_path env P (dir_Unlink l)))" for nd Q k b P l
    by (rule fs_keeps_bind [OF at_path_spec [OF dir_Add_spec [OF assms] assms] fin]) simp
  have 5: "keeps env (?P nd) (bindF (mv_target env dd dm n) (\<lambda>(dstDir, dstFname). bindF (at_path env dstDir (dir_Add env dstFname nd)) (\<lambda>_.
        if dir_name env P = dir_name env dstDir \<and> n = dstFname then okF () else at_path env P (dir_Unlink n))))" for nd dd P
    by (rule fs_keeps_bind [OF mv_target_spec [OF assms], where ?P2.0 = "\<lambda>_. ?P nd"]) (use 6 fs_tree_le in \<open>auto split: prod.splits\<close>)
  have 4: "keeps env (\<lambda>_. True) (bindF (at_path env (P @ [n]) (GetNode env)) (\<lambda>nd. bindF (mv_target env dd dm n) (\<lambda>(dstDir, dstFname).
        bindF (at_path env dstDir (dir_Add env dstFname nd)) (\<lambda>_.
        if dir_name env P = dir_name env dstDir \<and> n = dstFname then okF () else at_path env P (dir_Unlink n)))))" for P dd
    by (rule fs_keeps_bind [OF node_at_spec [OF assms] 5]) simp
  show ?thesis unfolding Mv_def s d Let_def prod.case
    by (intro keeps_seq keepsI [OF lookupDir_spec [OF assms, of "\<lambda>_. True"]] keepsI [OF child_at_spec [OF assms, of "\<lambda>_. True"]] 4) simp_all
qed

end
