(* ===== verification/Files_Cmds.thy ===== *)
theory Files_Cmds
  imports Files_Moves Adder_Props
begin

text \<open>
  What the commands \<^verbatim>\<open>files mkdir\<close>, \<^verbatim>\<open>cp\<close>, \<^verbatim>\<open>mv\<close>, \<^verbatim>\<open>rm\<close>, \<^verbatim>\<open>ls\<close>, \<^verbatim>\<open>flush\<close> and \<^verbatim>\<open>write\<close> do, for the paths a user can give: they refine
  operations on a tree of names. A path stands for its clean parts (\<open>parts_of\<close>).
\<close>

section \<open>The commands\<close>

lemma mv_disjoint:
  assumes "wf_fs env D f" "V = view D f" "V S \<noteq> None" "V (Q @ [m]) = None \<or> V (Q @ [m]) \<noteq> Some EDir" "\<not> prefix S Q" "S \<noteq> Q @ [m]"
    "prefix (Q @ [m]) ps" "prefix S ps"
  shows False
proof -
  have "prefix S (Q @ [m]) \<or> prefix (Q @ [m]) S" using prefix_same_cases [OF assms(8,7)] .
  then obtain qs where qs: "S = (Q @ [m]) @ qs" using assms(5,6) by (auto simp: prefix_snoc elim: prefixE)
  then have "qs \<noteq> []" using assms(6) by auto
  show False
  proof (cases "V (Q @ [m])")
    case None
    then show ?thesis using assms(2,3) view_below [of D f "Q @ [m]" qs] qs by simp
  next
    case (Some x)
    then show ?thesis using assms(2-4) view_leaf_below [OF assms(1) _ \<open>qs \<noteq> []\<close>, of "Q @ [m]"] qs by (cases x) auto
  qed
qed

text \<open>C11. When \<^verbatim>\<open>ipfs files mv\<close> succeeds, everything that was at the source is at the target, with the source gone and
  everything else as before: the target is below the directory that is named, or replaces the file that is named. This needs that the target is not
  below the source, and that two directories the entry keeps its name between have different names themselves. It is assumed that no read of the
  DAG service fails and that distinct nodes have distinct CIDs: an entry of the target's name that cannot be read is taken for a missing one by
  \<^verbatim>\<open>AddChild\<close>, and silently replaced. The file system is well-formed, as the commands keep it, and the source is not written with a slash
  at its end.\<close>

theorem filesMv_moves:
  assumes run: "filesMv env flush a b f s = (Inr (), f', s')" and ok: "fs_ok env f s" "sound_env env"
    and src: "parts_of a = P @ [n]" "last a \<noteq> CHR ''/''" and V: "V = view (dag s) f"
    and dst: "(Q, m) = mv_dest V (if last b = CHR ''/'' \<or> parts_of b = [] then parts_of b else butlast (parts_of b))
      (if last b = CHR ''/'' \<or> parts_of b = [] then n else last (parts_of b)) n"
    and outside: "\<not> prefix (P @ [n]) Q" and names: "dir_name env P = dir_name env Q \<Longrightarrow> n = m \<Longrightarrow> P = Q"
  shows "V (P @ [n]) \<noteq> None \<and> (\<forall>ps. view (dag s') f' ps =
    (if prefix (Q @ [m]) ps then V (P @ [n] @ drop (length (Q @ [m])) ps) else if prefix (P @ [n]) ps then None else V ps))"
proof -
  obtain p q f1 s1 where c: "checkPath a = Inr p" "checkPath b = Inr q" and mv: "Mv env p q f s = (Inr (), f1, s1)"
    and v: "view (dag s') f' = view (dag s1) f1"
    by (rule filesMv_Mv [OF run ok]) (use keeps_Mv [OF ok(2)] in \<open>auto simp: keeps_def\<close>)
  note e = Mv_exact [OF mv ok mv_args_parts [OF c src] V dst]
  have "view (dag s') f' ps = (if prefix (Q @ [m]) ps then V (P @ [n] @ drop (length (Q @ [m])) ps) else if prefix (P @ [n]) ps then None else V ps)" for ps
  proof (cases "dir_name env P = dir_name env Q \<and> n = m")
    case True
    then have same: "P = Q" "n = m" using names by auto
    then have "view (dag s') f' = with_node (Q @ [m]) (\<lambda>qs. V ((Q @ [m]) @ qs)) V" using e(4) v True by (simp add: Let_def)
    then have "view (dag s') f' = V" by (simp only: with_node_same)
    then show ?thesis using same by (auto simp: prefix_def)
  next
    case False
    have "P @ [n] \<noteq> Q @ [m]" using False by auto
    then have disj: "\<not> (prefix (Q @ [m]) ps \<and> prefix (P @ [n]) ps)"
      using mv_disjoint [of env "dag s" f V "P @ [n]" Q m ps] ok(1) V e(1,2) outside by (auto simp: fs_ok_def)
    have "view (dag s') f' ps = without (P @ [n]) (with_node (Q @ [m]) (\<lambda>qs. V (P @ [n] @ qs)) V) ps" using e(4) v False by (auto simp: Let_def)
    then show ?thesis using disj by (auto simp: without_def with_node_def)
  qed
  then show ?thesis using e(1) by blast
qed

text \<open>The two cases that are left out. A directory that is moved into itself is lost; an entry that is moved between two directories of the same
  name is copied.\<close>

lemma filesMv_loses:
  assumes run: "filesMv env flush a b f s = (Inr (), f', s')" and ok: "fs_ok env f s" "sound_env env"
    and src: "parts_of a = P @ [n]" "last a \<noteq> CHR ''/''" and V: "V = view (dag s) f"
    and dst: "(Q, m) = mv_dest V (if last b = CHR ''/'' \<or> parts_of b = [] then parts_of b else butlast (parts_of b))
      (if last b = CHR ''/'' \<or> parts_of b = [] then n else last (parts_of b)) n"
    and inside: "prefix (P @ [n]) Q" and names: "dir_name env P = dir_name env Q \<Longrightarrow> n \<noteq> m"
  shows "view (dag s') f' = without (P @ [n]) V"
proof -
  obtain p q f1 s1 where c: "checkPath a = Inr p" "checkPath b = Inr q" and mv: "Mv env p q f s = (Inr (), f1, s1)"
    and v: "view (dag s') f' = view (dag s1) f1"
    by (rule filesMv_Mv [OF run ok]) (use keeps_Mv [OF ok(2)] in \<open>auto simp: keeps_def\<close>)
  have "view (dag s') f' = without (P @ [n]) (with_node (Q @ [m]) (\<lambda>qs. V (P @ [n] @ qs)) V)"
    using Mv_exact(4) [OF mv ok mv_args_parts [OF c src] V dst] v names by (auto simp: Let_def)
  moreover have "prefix (P @ [n]) ps" if "prefix (Q @ [m]) ps" for ps using that inside by (auto simp: prefix_def)
  ultimately show ?thesis by (auto simp: without_def with_node_def fun_eq_iff)
qed

lemma filesMv_copies:
  assumes run: "filesMv env flush a b f s = (Inr (), f', s')" and ok: "fs_ok env f s" "sound_env env"
    and src: "parts_of a = P @ [n]" "last a \<noteq> CHR ''/''" and V: "V = view (dag s) f"
    and dst: "(Q, n) = mv_dest V (if last b = CHR ''/'' \<or> parts_of b = [] then parts_of b else butlast (parts_of b))
      (if last b = CHR ''/'' \<or> parts_of b = [] then n else last (parts_of b)) n"
    and names: "dir_name env P = dir_name env Q"
  shows "view (dag s') f' = with_node (Q @ [n]) (\<lambda>qs. V (P @ [n] @ qs)) V"
proof -
  obtain p q f1 s1 where c: "checkPath a = Inr p" "checkPath b = Inr q" and mv: "Mv env p q f s = (Inr (), f1, s1)"
    and v: "view (dag s') f' = view (dag s1) f1"
    by (rule filesMv_Mv [OF run ok]) (use keeps_Mv [OF ok(2)] in \<open>auto simp: keeps_def\<close>)
  show ?thesis using Mv_exact(4) [OF mv ok mv_args_parts [OF c src] V dst] v names by (simp add: Let_def)
qed

subsection \<open>Removing\<close>

lemma try_flush_spec:
  assumes "sound_env env"
  shows "op_spec env P (bindF (at_path env parts (dir_Unlink name)) (\<lambda>_. flush_up env parts))
    (\<lambda>r D V D' V'. case r of Inr _ \<Rightarrow> V' = without (parts @ [name]) V | Inl e \<Rightarrow> V' = V \<or> V' = without (parts @ [name]) V)"
proof (rule op_spec_weaken [OF op_spec_bind [OF unlink_at_spec [OF assms, of P] flush_up_spec [OF assms, of "\<lambda>_. True"]]])
  fix r D V D' V'
  assume "bind_rel (\<lambda>r D V D' V'. case r of Inr _ \<Rightarrow> V (parts @ [name]) \<noteq> None \<and> V' = without (parts @ [name]) V
       | Inl e \<Rightarrow> V' = V \<and> (e = ErrNotExist \<longrightarrow> V (parts @ [name]) = None) \<and> (V (parts @ [name]) \<noteq> None \<longrightarrow> V parts \<noteq> Some EDir))
     (\<lambda>x r D V D' V'. V' = V \<and> (r = Inr () \<longrightarrow> V parts \<noteq> None)) r D V D' V'"
  then show "case r of Inr _ \<Rightarrow> V' = without (parts @ [name]) V | Inl e \<Rightarrow> V' = V \<or> V' = without (parts @ [name]) V"
    unfolding bind_rel_def by (cases r) auto
qed auto

lemma tryF_run:
  assumes "tryF m k f s = (r, f', s')"
  obtains x g t where "m f s = (x, g, t)" "k x g t = (r, f', s')"
  using assms by (auto simp: tryF_def split: prod.splits)

lemma rm_path_run:
  assumes run: "rm_path env force dashr arg f s = (r, f', s')" and ok: "fs_ok env f s" "sound_env env" and S: "parts_of arg \<noteq> []"
  shows "fs_ok env f' s' \<and> (case r of Inr _ \<Rightarrow> view (dag s') f' = without (parts_of arg) (view (dag s) f)
      | Inl e \<Rightarrow> view (dag s') f' = view (dag s) f \<or> view (dag s') f' = without (parts_of arg) (view (dag s) f))
    \<and> (\<not> force \<and> \<not> dashr \<and> view (dag s) f (parts_of arg) = Some EDir \<longrightarrow> view (dag s') f' = view (dag s) f)"
proof (cases "checkPath arg")
  case (Inl e)
  then show ?thesis using run ok by (auto simp: rm_path_def bindF_liftF)
next
  case (Inr p)
  note c = checkPath_Inr [OF Inr]
  obtain P n where Pn: "parts_of arg = P @ [n]" using S by (cases "parts_of arg" rule: rev_cases) auto
  have pl: "plain (P @ [n])" using c(1) Pn by simp
  have np: "abs_path (P @ [n]) \<noteq> ''/''" using last_abs [OF pl] by auto
  have p1: "(if last p = CHR ''/'' then butlast p else p) = abs_path (P @ [n])" "p \<noteq> ''/''"
    using c(2) last_abs [OF pl] np Pn by (auto simp: abs_path_def split: if_splits)
  define d where "d = fst (path_Split (abs_path (P @ [n])))"
  have sp: "path_Split (abs_path (P @ [n])) = (d, n)" "lookup_parts d = P" using Split_abs [OF pl] lookup_Split_abs [OF pl] by (simp_all add: d_def)
  let ?V = "view (dag s) f"
  have run1: "tryF (lookupDir env d) (\<lambda>r. case r of Inl e \<Rightarrow> if force \<and> e = ErrNotExist then okF () else failF e
     | Inr _ \<Rightarrow>
        if force then
          tryF (at_path env P (dir_Unlink n)) (\<lambda>r. case r of Inl e \<Rightarrow> if e = ErrNotExist then okF () else failF e | Inr _ \<Rightarrow> flush_up env P)
        else
          bindF (at_path env P (dir_Child env n)) (\<lambda>child.
            if (case child of Directory _ _ \<Rightarrow> \<not> dashr | File _ \<Rightarrow> False) then failF (MErr ''is a directory, use -r to remove directories'')
            else bindF (at_path env P (dir_Unlink n)) (\<lambda>_. flush_up env P))) f s = (r, f', s')"
    using run Inr p1 sp by (simp add: rm_path_def bindF_liftF)
  obtain x f1 s1 where l: "lookupDir env d f s = (x, f1, s1)" and k: "(case x of Inl e \<Rightarrow> if force \<and> e = ErrNotExist then okF () else failF e
     | Inr _ \<Rightarrow>
        if force then
          tryF (at_path env P (dir_Unlink n)) (\<lambda>r. case r of Inl e \<Rightarrow> if e = ErrNotExist then okF () else failF e | Inr _ \<Rightarrow> flush_up env P)
        else
          bindF (at_path env P (dir_Child env n)) (\<lambda>child.
            if (case child of Directory _ _ \<Rightarrow> \<not> dashr | File _ \<Rightarrow> False) then failF (MErr ''is a directory, use -r to remove directories'')
            else bindF (at_path env P (dir_Unlink n)) (\<lambda>_. flush_up env P))) f1 s1 = (r, f', s')"
    by (rule tryF_run [OF run1])
  note a1 = op_spec_fs [OF lookupDir_spec [OF ok(2), of "\<lambda>_. True"] l ok(1) TrueI, unfolded sp(2)]
  have v1: "view (dag s1) f1 = ?V" using a1(3) by simp
  have absent: "without (parts_of arg) ?V = ?V" if "?V (P @ [n]) = None" using without_absent [OF tree_view_view that] Pn by simp
  show ?thesis
  proof (cases x)
    case x: (Inl e)
    have "?V (P @ [n]) = None" if "e = ErrNotExist" using a1(3) x that view_below by simp
    then show ?thesis using k x a1(1) v1 absent by (auto simp: okF_def failF_def split: if_splits)
  next
    case x: (Inr u)
    show ?thesis
    proof (cases force)
      case True
      have k1: "tryF (at_path env P (dir_Unlink n)) (\<lambda>r. case r of Inl e \<Rightarrow> if e = ErrNotExist then okF () else failF e | Inr _ \<Rightarrow> flush_up env P) f1 s1 = (r, f', s')"
        using k x True by simp
      obtain y f2 s2 where u: "at_path env P (dir_Unlink n) f1 s1 = (y, f2, s2)"
        and k2: "(case y of Inl e \<Rightarrow> if e = ErrNotExist then okF () else failF e | Inr _ \<Rightarrow> flush_up env P) f2 s2 = (r, f', s')"
        by (rule tryF_run [OF k1])
      note a2 = op_spec_fs [OF unlink_at_spec [OF ok(2), of "\<lambda>_. True"] u a1(1) TrueI]
      show ?thesis
      proof (cases y)
        case (Inl e)
        then show ?thesis using a2 k2 v1 absent True by (auto simp: okF_def failF_def split: if_splits)
      next
        case (Inr w)
        then have fl: "flush_up env P f2 s2 = (r, f', s')" using k2 by simp
        note a3 = op_spec_fs [OF flush_up_spec [OF ok(2), of "\<lambda>_. True"] fl a2(1) TrueI]
        show ?thesis using a2(3) a3 v1 Inr Pn True by (cases r) auto
      qed
    next
      case False
      obtain y f2 s2 where u: "at_path env P (dir_Child env n) f1 s1 = (y, f2, s2)" by (metis prod_cases3)
      note a2 = op_spec_fs [OF child_at_spec [OF ok(2), of "\<lambda>_. True"] u a1(1) TrueI]
      show ?thesis
      proof (cases y)
        case (Inl e)
        then show ?thesis using k x False u a2 v1 by (auto simp: bindF_def)
      next
        case (Inr child)
        define refuse where "refuse = (case child of Directory _ _ \<Rightarrow> \<not> dashr | File _ \<Rightarrow> False)"
        have k2: "(if refuse then failF (MErr ''is a directory, use -r to remove directories'')
            else bindF (at_path env P (dir_Unlink n)) (\<lambda>_. flush_up env P)) f2 s2 = (r, f', s')"
          using k x False u Inr by (simp add: bindF_def [of "at_path env P (dir_Child env n)"] refuse_def)
        have dirs: "refuse \<longleftrightarrow> \<not> dashr \<and> ?V (P @ [n]) = Some EDir" using a2(3) Inr v1 by (cases child) (auto simp: refuse_def)
        show ?thesis
        proof (cases refuse)
          case True
          then show ?thesis using k2 a2 v1 by (auto simp: failF_def)
        next
          case nr: False
          then have fl: "bindF (at_path env P (dir_Unlink n)) (\<lambda>_. flush_up env P) f2 s2 = (r, f', s')" using k2 by simp
          note a3 = op_spec_fs [OF try_flush_spec [OF ok(2), of "\<lambda>_. True"] fl a2(1) TrueI]
          show ?thesis using a3 a2(3) v1 Pn nr dirs False by (cases r) auto
        qed
      qed
    qed
  qed
qed

text \<open>Several paths are removed one after the other.\<close>

lemma rm_loop_run:
  "rm_loop env force dashr args f s = (r, f', s') \<Longrightarrow> fs_ok env f s \<Longrightarrow> sound_env env \<Longrightarrow> (\<And>a. a \<in> set args \<Longrightarrow> parts_of a \<noteq> [])
    \<Longrightarrow> fs_ok env f' s' \<and> (\<exists>errs. r = Inr errs \<and> (errs = [] \<longrightarrow> (\<forall>ps. view (dag s') f' ps
          = (if \<exists>a \<in> set args. prefix (parts_of a) ps then None else view (dag s) f ps))))
      \<and> (\<forall>ps. view (dag s') f' ps = view (dag s) f ps \<or> (view (dag s') f' ps = None \<and> (\<exists>a \<in> set args. prefix (parts_of a) ps)))"
proof (induction args arbitrary: f s r f' s')
  case (Cons a args)
  obtain x f1 s1 where p: "rm_path env force dashr a f s = (x, f1, s1)" by (metis prod_cases3)
  obtain y f2 s2 where l: "rm_loop env force dashr args f1 s1 = (y, f2, s2)" by (metis prod_cases3)
  have ne: "parts_of a \<noteq> []" using Cons.prems(4) by simp
  note rp = rm_path_run [OF p Cons.prems(2,3) ne]
  have v1: "view (dag s1) f1 ps = view (dag s) f ps \<or> (view (dag s1) f1 ps = None \<and> prefix (parts_of a) ps)" for ps
    using rp by (cases x) (auto simp: without_def split: if_splits)
  obtain errs where ih: "fs_ok env f2 s2" "y = Inr errs" "errs = [] \<Longrightarrow> \<forall>ps. view (dag s2) f2 ps
          = (if \<exists>a \<in> set args. prefix (parts_of a) ps then None else view (dag s1) f1 ps)"
      "\<And>ps. view (dag s2) f2 ps = view (dag s1) f1 ps \<or> (view (dag s2) f2 ps = None \<and> (\<exists>a \<in> set args. prefix (parts_of a) ps))"
    using Cons.IH [OF l] rp Cons.prems(3,4) by auto
  have run: "f' = f2" "s' = s2" "r = Inr ((case x of Inl e \<Rightarrow> [e] | Inr _ \<Rightarrow> []) @ errs)" using Cons.prems(1) p l ih(2) by auto
  have "view (dag s2) f2 ps = (if \<exists>a \<in> set (a # args). prefix (parts_of a) ps then None else view (dag s) f ps)"
    if "(case x of Inl e \<Rightarrow> [e] | Inr _ \<Rightarrow> []) @ errs = []" for ps
    using that ih(3) rp by (cases x) (auto simp: without_def)
  then show ?case using run ih(1,4) v1 by (auto; metis)
qed auto

text \<open>C38. \<^verbatim>\<open>ipfs files rm\<close> removes nothing but what its arguments name, and when it reports no error, exactly what the
  arguments name is gone. The arguments are any paths but the root, in any spelling.\<close>

theorem filesRm_exact:
  assumes "filesRm env force dashr args f s = (r, f', s')" "fs_ok env f s" "sound_env env" "\<And>a. a \<in> set args \<Longrightarrow> parts_of a \<noteq> []"
  shows "\<exists>errs. r = Inr (errs, errs = [])
    \<and> (errs = [] \<longrightarrow> (\<forall>ps. view (dag s') f' ps = (if \<exists>a \<in> set args. prefix (parts_of a) ps then None else view (dag s) f ps)))
    \<and> (\<forall>ps. view (dag s') f' ps = view (dag s) f ps \<or> (view (dag s') f' ps = None \<and> (\<exists>a \<in> set args. prefix (parts_of a) ps)))"
proof -
  obtain x f1 s1 where l: "rm_loop env force dashr args f s = (x, f1, s1)" by (metis prod_cases3)
  note rl = rm_loop_run [OF l assms(2-4)]
  obtain errs where "x = Inr errs" using rl by blast
  then have "r = Inr (errs, errs = [])" "f' = f1" "s' = s1" using assms(1) l by (auto simp: filesRm_def bindF_def okF_def)
  then show ?thesis using rl \<open>x = Inr errs\<close> by auto
qed

subsection \<open>Flushing\<close>

lemma GetNode_published: "GetNode env f s = (r, f', s') \<Longrightarrow> published s' = published (s :: files_state)"
  using GetNode_more(1) [of env f s r f' s'] by (cases s; cases s') auto

lemma at_path_published:
  assumes "\<And>f s r f' s'. op f s = (r, f', s') \<Longrightarrow> published s' = published s" "at_path env P op f s = (r, f', s')"
  shows "published s' = published s"
  using assms(2)
proof (induction P arbitrary: f s r f' s')
  case (Cons p P)
  show ?case
  proof (cases f)
    case (Directory dn cache)
    obtain x c1 s1 where c: "childUnsync env p dn cache s = (x, c1, s1)" by (metis prod_cases3)
    have "published s1 = published s" using childUnsync_more [OF c] by (cases s; cases s1) auto
    then show ?thesis using Cons Directory c by (auto split: sum.splits prod.splits)
  qed (use Cons.prems in simp)
qed (simp add: assms(1))

text \<open>C39. After \<^verbatim>\<open>ipfs files flush\<close> the file system shows what it showed, and what it shows at and below the path can be read from the
  stored root that was handed to the republisher; the CID that is printed is that of a node holding the same.\<close>

theorem filesFlush_durable:
  assumes "filesFlush env arg f s = (Inr c, f', s')" "fs_ok env f s" "sound_env env" "P = lookup_parts (case arg of None \<Rightarrow> ''/'' | Some p \<Rightarrow> p)"
  shows "view (dag s') f' = view (dag s) f \<and> (\<exists>root rc. published s' = Some rc \<and> dag s' rc = Some root
    \<and> (\<forall>qs. node_at (dag s') root (P @ qs) = view (dag s) f (P @ qs)))
    \<and> (\<exists>nd. c = node_Cid env nd \<and> (\<forall>qs. node_at (dag s') nd qs = view (dag s) f (P @ qs)))"
proof -
  obtain nd f1 s1 where 1: "flush_up env P f s = (Inr (), f1, s1)" and 2: "at_path env P (GetNode env) f1 s1 = (Inr nd, f', s')" and c: "c = node_Cid env nd"
    using assms(1,4) by (auto simp: filesFlush_def FlushPath_def bindF_Inr okF_def)
  note a1 = op_spec_fs [OF flush_up_spec [OF assms(3), of "\<lambda>_. True"] 1 assms(2) TrueI]
  note a2 = op_spec_fs [OF node_at_spec [OF assms(3), of "\<lambda>_. True"] 2 a1(1) TrueI]
  obtain root where pub: "published s1 = Some (node_Cid env root)" and sh: "shown env (dag s1) root P (view (dag s) f)"
    using flush_up_published [OF 1] assms(2,3) by (auto simp: fs_ok_def)
  have gd: "is_dir root \<Longrightarrow> distinct (map fst (Links root))" using sh by (simp add: shown_def)
  note sh2 = shownD [OF shown_le [OF sh a2(2)]]
  have "published s' = published s1" by (rule at_path_published [OF GetNode_published 2])
  then have "\<exists>root rc. published s' = Some rc \<and> dag s' rc = Some root \<and> (\<forall>qs. node_at (dag s') root (P @ qs) = view (dag s) f (P @ qs))"
    using pub sh2 node_at_sort_dir [OF gd] by auto
  then show ?thesis using a1(3) a2(3) c by auto
qed

subsection \<open>Copying\<close>

text \<open>What the resolver finds is stored completely.\<close>

definition resolved_ok :: "'e files_env_scheme \<Rightarrow> dagmap \<Rightarrow> bool" where
  "resolved_ok env D = (\<forall>p nd. ResolveNode env p = Inr nd \<longrightarrow> fs_tree D nd)"

lemma resolved_ok_le: "resolved_ok env D \<Longrightarrow> D \<subseteq>\<^sub>m D' \<Longrightarrow> resolved_ok env D'"
  unfolding resolved_ok_def using fs_tree_le by blast

lemma getNodeFromPath_spec:
  assumes "sound_env env"
  shows "op_spec env (resolved_ok env) (getNodeFromPath env p)
    (\<lambda>r D V D' V'. V' = V \<and> (\<forall>nd. r = Inr nd \<longrightarrow> fs_tree D' nd
      \<and> (\<not> prefix ''/ipfs/'' p \<longrightarrow> V (lookup_parts p) \<noteq> None \<and> node_at D' nd = (\<lambda>qs. V (lookup_parts p @ qs)))))"
proof (cases "prefix ''/ipfs/'' p")
  case True
  show ?thesis unfolding getNodeFromPath_def if_P [OF True]
    by (rule op_spec_weaken [OF op_spec_pure(3)]) (use True in \<open>auto simp: resolved_ok_def split: sum.splits\<close>)
next
  case False
  show ?thesis unfolding getNodeFromPath_def if_not_P [OF False]
    by (rule op_spec_weaken [OF node_at_spec [OF assms]]) auto
qed

text \<open>A path that is not below \<^verbatim>\<open>/ipfs/\<close> needs no resolver.\<close>

lemma getNodeFromPath_mfs:
  assumes "sound_env env" "\<not> prefix ''/ipfs/'' p"
  shows "op_spec env (\<lambda>_. True) (getNodeFromPath env p)
    (\<lambda>r D V D' V'. V' = V \<and> (\<forall>nd. r = Inr nd \<longrightarrow> fs_tree D' nd \<and> V (lookup_parts p) \<noteq> None \<and> node_at D' nd = (\<lambda>qs. V (lookup_parts p @ qs))))"
  unfolding getNodeFromPath_def if_not_P [OF assms(2)] by (rule op_spec_weaken [OF node_at_spec [OF assms(1)]]) auto

lemma ensure_spec:
  assumes "sound_env env" "path_Dir pth = abs_path P" "plain P"
  shows "op_spec env A (ensureContainingDirectoryExists env pth b)
    (\<lambda>r D V D' V'. case r of Inr _ \<Rightarrow> V' = with_dirs P V | Inl e \<Rightarrow> \<exists>n. V' = with_dirs (take n P) V)"
proof (cases "P = []")
  case True
  then have e: "ensureContainingDirectoryExists env pth b = okF ()" using assms(2) by (simp add: ensureContainingDirectoryExists_def abs_path_def)
  show ?thesis unfolding e
  proof (rule op_specI)
    fix f s r f' s'
    assume "okF () f s = (r, f', s')" "wf_fs env (dag s) f" "addressed env (dag s)"
    then show "wf_fs env (dag s') f' \<and> addressed env (dag s') \<and> dag s \<subseteq>\<^sub>m dag s'
      \<and> (case r of Inr _ \<Rightarrow> view (dag s') f' = with_dirs P (view (dag s) f) | Inl e \<Rightarrow> \<exists>n. view (dag s') f' = with_dirs (take n P) (view (dag s) f))"
      using with_dirs_Nil [of "view (dag s) f"] True by (auto simp: okF_def)
  qed
next
  case False
  have e: "ensureContainingDirectoryExists env pth b = Mkdir_flush env \<lparr>Mkparents = True, opt_Flush = False, opt_CidBuilder = b\<rparr> (abs_path P)"
    using assms(2) False last_abs [OF assms(3)] by (auto simp: ensureContainingDirectoryExists_def Let_def)
  show ?thesis unfolding e
    by (rule op_spec_weaken [OF Mkdir_flush_spec [OF assms(1), of A]]) (use mkdir_parts_abs(1) [OF assms(3) False] False in \<open>auto split: sum.splits\<close>)
qed

text \<open>Where a copy goes.\<close>

definition cp_dest :: "string \<Rightarrow> string list \<Rightarrow> string list" where
  "cp_dest b S = (if last b = CHR ''/'' \<or> parts_of b = [] then parts_of b @ [last S] else parts_of b)"

lemma cp_dest_path:
  assumes "checkPath b = Inr dst" "plain S" "S \<noteq> []"
  defines "dst' \<equiv> (if last dst = CHR ''/'' then dst @ path_Base (abs_path S) else dst)"
  shows "put_path dst' = cp_dest b S" "path_Dir dst' = abs_path (butlast (cp_dest b S))" "plain (cp_dest b S)" "lookup_parts dst' = cp_dest b S"
proof -
  obtain R n where S: "S = R @ [n]" using assms(3) by (cases S rule: rev_cases) auto
  note c = checkPath_Inr [OF assms(1)]
  have base: "path_Base (abs_path S) = n" "plain_name n" using Base_abs [of R n] assms(2) S by auto
  define T where "T = cp_dest b S"
  have slash: "last dst = CHR ''/'' \<longleftrightarrow> last b = CHR ''/'' \<or> parts_of b = []"
  proof -
    have "parts_of ''/'' = []" by (simp add: parts_of_def)
    then show ?thesis using c last_abs [OF c(1)] by (auto simp: abs_path_def)
  qed
  have T: "plain T" "T \<noteq> []" using c(1) base(2) S by (auto simp: T_def cp_dest_def)
  have "dst' = abs_path T \<or> (dst' = ''/'' @ abs_path [n] \<and> T = [n])"
  proof (cases "last dst = CHR ''/''")
    case True
    then have Tn: "T = parts_of b @ [n]" using slash S by (simp add: T_def cp_dest_def)
    show ?thesis
    proof (cases "last b = CHR ''/'' \<and> b \<noteq> ''/''")
      case tb: True
      then show ?thesis using True c(2) Tn base(1) abs_path_snoc [of "parts_of b" n] abs_path_snoc [of "[]" n] unfolding dst'_def
        by (cases "parts_of b = []") (auto simp: abs_path_def)
    next
      case False
      then have "dst = abs_path (parts_of b)" "parts_of b = []" using c(2) True last_abs [OF c(1)] by auto
      then show ?thesis using True Tn base(1) abs_path_snoc [of "[]" n] unfolding dst'_def by (simp add: abs_path_def)
    qed
  next
    case False
    then show ?thesis using c(2) slash unfolding dst'_def T_def cp_dest_def by auto
  qed
  then have "put_path dst' = T \<and> path_Dir dst' = abs_path (butlast T) \<and> lookup_parts dst' = T"
  proof
    assume d: "dst' = abs_path T"
    obtain Q k where Q: "T = Q @ [k]" using T(2) by (cases T rule: rev_cases) auto
    then show ?thesis using d put_path_abs [OF T] Dir_abs [of Q k] lookup_parts_abs(1) [OF T(1)] T(1) by simp
  next
    assume d: "dst' = ''/'' @ abs_path [n] \<and> T = [n]"
    have nn: "n \<noteq> []" "CHR ''/'' \<notin> set n" using base(2) by (auto simp: plain_name_def)
    have sn: "split_on (CHR ''/'') n = [n]" using plain_split(1) [of "[n]"] base(2) by (simp add: plain_def path_of_def)
    have sp: "split_on (CHR ''/'') (''//'' @ n) = [[], [], n]" using sn split_on_append [of "CHR ''/''" "[]"] by simp
    have "path_Split (''//'' @ n) = (''//'', n)" using sp by (simp add: path_Split_def Let_def)
    moreover have "lookup_parts ''//'' = []" by (simp add: lookup_parts_def trim_left_def trim_right_def)
    moreover have "path_Clean ''//'' = ''/''" by (simp add: path_Clean_def)
    moreover have "lookup_parts (''//'' @ n) = [n]"
    proof -
      have e: "hd n \<noteq> CHR ''/''" "last n \<noteq> CHR ''/''" using nn hd_in_set last_in_set by metis+
      have "trim_right ''/'' (''//'' @ n) = ''//'' @ n" using nn(1) e(2) by (cases n rule: rev_cases; auto simp: trim_right_def)
      moreover have "trim_left ''/'' (''//'' @ n) = n" using nn(1) e(1) by (cases n; auto simp: trim_left_def)
      ultimately show ?thesis using sn nn(1) by (simp add: lookup_parts_def Let_def)
    qed
    ultimately show ?thesis using d by (simp add: put_path_def path_Dir_def abs_path_def path_of_def)
  qed
  then show "put_path dst' = cp_dest b S" "path_Dir dst' = abs_path (butlast (cp_dest b S))" "plain (cp_dest b S)" "lookup_parts dst' = cp_dest b S"
    using T(1) by (auto simp: T_def)
qed

text \<open>C37. When \<^verbatim>\<open>ipfs files cp\<close> of a path of the mutable file system other than its root succeeds, the target, which did not exist, holds
  everything that is at the source, and nothing else has changed but, with \<^verbatim>\<open>--parents\<close>, the directories above the target that were missing.
  It is assumed that no read of the DAG service fails and that distinct nodes have distinct CIDs: an entry at the target that cannot be read is
  taken for a missing one by \<^verbatim>\<open>AddChild\<close>, and replaced. The file system is well-formed, as the commands keep it. (The root is left out because copying it into a directory makes an entry \<^verbatim>\<open>.\<close> there.)\<close>

theorem filesCp_copies:
  assumes run: "filesCp env mkParents flush cidVer hashFun a b f s = (Inr (), f', s')" and ok: "fs_ok env f s" "sound_env env"
    and src: "parts_of a \<noteq> []" "\<not> prefix ''/ipfs/'' (abs_path (parts_of a))" and V: "V = view (dag s) f" and T: "T = cp_dest b (parts_of a)"
  shows "V (parts_of a) \<noteq> None \<and> V T = None
    \<and> view (dag s') f' = with_node T (\<lambda>qs. V (parts_of a @ qs)) (if mkParents then with_dirs (butlast T) V else V)"
proof -
  obtain bld p q where c: "getPrefix env cidVer hashFun = Inr bld" "checkPath a = Inr p" "checkPath b = Inr q"
    using run by (auto simp: filesCp_def bindF_Inr liftF_def)
  note ca = checkPath_Inr [OF c(2)]
  have p: "trim_right ''/'' p = abs_path (parts_of a)" using ca trim_abs(3,4) [OF ca(1) src(1)] by auto
  define dst where "dst = (if last q = CHR ''/'' then q @ path_Base (abs_path (parts_of a)) else q)"
  note d = cp_dest_path [OF c(3) ca(1) src(1), folded dst_def T]
  have "bindF (getNodeFromPath env (abs_path (parts_of a))) (\<lambda>node.
       bindF (if mkParents then ensureContainingDirectoryExists env dst bld else okF ()) (\<lambda>_.
       bindF (unitF (PutNode env dst node)) (\<lambda>_.
         if flush then bindF (FlushPath env dst) (\<lambda>_. okF ()) else okF ()))) f s = (Inr (), f', s')"
    using run unfolding filesCp_def c bindF_liftF Let_def p dst_def .
  then obtain nd f1 s1 u f2 s2 f3 s3 where
    1: "getNodeFromPath env (abs_path (parts_of a)) f s = (Inr nd, f1, s1)"
    and 2: "(if mkParents then ensureContainingDirectoryExists env dst bld else okF ()) f1 s1 = (Inr u, f2, s2)"
    and 3: "unitF (PutNode env dst nd) f2 s2 = (Inr (), f3, s3)"
    and 4: "(if flush then bindF (FlushPath env dst) (\<lambda>_. okF ()) else okF ()) f3 s3 = (Inr (), f', s')"
    unfolding bindF_Inr by auto
  note a1 = op_spec_fs [OF getNodeFromPath_mfs [OF ok(2) src(2)] 1 ok(1) TrueI, unfolded lookup_parts_abs(1) [OF ca(1)]]
  have nd: "fs_tree (dag s1) nd" "node_at (dag s1) nd = (\<lambda>qs. V (parts_of a @ qs))" "V (parts_of a) \<noteq> None" "view (dag s1) f1 = V"
    using a1(3) V by auto
  have pl: "plain (butlast T)" using d(3) by (auto simp: plain_def list_all_iff dest: in_set_butlastD)
  have a2: "fs_ok env f2 s2 \<and> dag s1 \<subseteq>\<^sub>m dag s2 \<and> view (dag s2) f2 = (if mkParents then with_dirs (butlast T) V else V)"
  proof (cases mkParents)
    case True
    then have "ensureContainingDirectoryExists env dst bld f1 s1 = (Inr u, f2, s2)" using 2 by simp
    from op_spec_fs [OF ensure_spec [OF ok(2) d(2) pl, of "\<lambda>_. True"] this a1(1) TrueI] show ?thesis using True nd(4) by simp
  qed (use 2 a1(1) nd(4) in \<open>auto simp: okF_def\<close>)
  have nd2: "fs_tree (dag s2) nd" "node_at (dag s2) nd = (\<lambda>qs. V (parts_of a @ qs))"
    using fs_tree_le [OF nd(1)] node_at_le [OF nd(1)] nd(2) a2 by auto
  note a3 = op_spec_fs [OF PutNode_spec [OF ok(2)] 3 _ nd2(1), unfolded d(1)]
  have "view (dag s') f' = view (dag s3) f3"
  proof (cases flush)
    case True
    then obtain x where "FlushPath env dst f3 s3 = (Inr x, f', s')" using 4 by (auto simp: bindF_Inr okF_def)
    from op_spec_fs(3) [OF FlushPath_spec [OF ok(2), of "\<lambda>_. True"] this a3(1) TrueI] show ?thesis using a2 by simp
  qed (use 4 in \<open>auto simp: okF_def\<close>)
  moreover have "V T = None" using a3(3) a2 by (auto simp: with_dirs_def split: if_splits)
  ultimately show ?thesis using a3(3) a2 nd2(2) nd(3) by simp
qed

subsection \<open>Listing\<close>

lemma list_entry_spec:
  assumes "sound_env env"
  shows "op_spec env P (list_entry env name)
    (\<lambda>r D V D' V'. V' = V \<and> (\<forall>e. r = Inr e \<longrightarrow> nl_Name e = name \<and> (nl_Dir e \<longleftrightarrow> V [] = Some EDir)
       \<and> (\<exists>nd. nl_Hash e = Some (node_Cid env nd) \<and> fs_tree D' nd \<and> node_at D' nd = V)))"
proof (rule op_specI)
  fix f s r f' s'
  assume a: "list_entry env name f s = (r, f', s')" "wf_fs env (dag s) f" "addressed env (dag s)" "P (dag s)"
  obtain x f1 s1 where g: "GetNode env f s = (x, f1, s1)" by (metis prod_cases3)
  note d = op_specD [OF GetNode_spec [OF assms, of P] g a(2-4)]
  have run: "f' = f1 \<and> s' = s1" using a(1) g by (auto simp: list_entry_def split: sum.splits fsnode.splits)
  have "nl_Name e = name \<and> (nl_Dir e \<longleftrightarrow> view (dag s) f [] = Some EDir)
       \<and> (\<exists>nd. nl_Hash e = Some (node_Cid env nd) \<and> fs_tree (dag s') nd \<and> node_at (dag s') nd = view (dag s) f)" if e: "r = Inr e" for e
  proof -
    obtain nd where nd: "x = Inr nd" using a(1) g e by (cases x) (auto simp: list_entry_def)
    have "view (dag s1) f1 [] = Some EDir \<longleftrightarrow> (\<exists>dn c. f1 = Directory dn c)" using d(1) leaf_not_dir by (cases f1) (auto simp: entry_of_def)
    then have dir: "view (dag s) f [] = Some EDir \<longleftrightarrow> (\<exists>dn c. f1 = Directory dn c)" using d(4) by simp
    have "nl_Name e = name \<and> nl_Hash e = Some (node_Cid env nd) \<and> (nl_Dir e \<longleftrightarrow> (\<exists>dn c. f1 = Directory dn c))"
      using a(1) g e nd by (cases f1) (auto simp: list_entry_def split: sum.splits)
    then show ?thesis using d(4) nd dir run by auto
  qed
  then show "wf_fs env (dag s') f' \<and> addressed env (dag s') \<and> dag s \<subseteq>\<^sub>m dag s' \<and> view (dag s') f' = view (dag s) f
    \<and> (\<forall>e. r = Inr e \<longrightarrow> nl_Name e = name \<and> (nl_Dir e \<longleftrightarrow> view (dag s) f [] = Some EDir)
       \<and> (\<exists>nd. nl_Hash e = Some (node_Cid env nd) \<and> fs_tree (dag s') nd \<and> node_at (dag s') nd = view (dag s) f))"
    using d run by blast
qed

text \<open>What is said of an entry.\<close>

definition listed :: "'e mfs_env_scheme \<Rightarrow> dagmap \<Rightarrow> fview \<Rightarrow> NodeListing \<Rightarrow> bool" where
  "listed env D V e = ((nl_Dir e \<longleftrightarrow> V [nl_Name e] = Some EDir)
     \<and> (\<exists>nd. nl_Hash e = Some (node_Cid env nd) \<and> fs_tree D nd \<and> node_at D nd = (\<lambda>qs. V (nl_Name e # qs))))"

lemma listed_le: "listed env D V e \<Longrightarrow> D \<subseteq>\<^sub>m D' \<Longrightarrow> listed env D' V e"
  unfolding listed_def using fs_tree_le node_at_le by (metis (no_types, lifting) ext)

lemma list_entries_spec:
  assumes "sound_env env"
  shows "op_spec env P (list_entries env names)
    (\<lambda>r D V D' V'. V' = V \<and> (\<forall>es. r = Inr es \<longrightarrow> map nl_Name es = names \<and> (\<forall>e \<in> set es. listed env D' V e)))"
proof (induction names arbitrary: P)
  case Nil
  show ?case by (auto simp: op_spec_def)
next
  case (Cons name names)
  have e: "list_entries env (name # names) =
      bindF (at_path env [name] (list_entry env name)) (\<lambda>e. bindF (list_entries env names) (\<lambda>es. okF (e # es)))"
    by (intro ext) simp
  have 1: "op_spec env P (at_path env [name] (list_entry env name))
     (\<lambda>r D V D' V'. V' = V \<and> (\<forall>e. r = Inr e \<longrightarrow> nl_Name e = name \<and> listed env D' V e))"
  proof (rule op_spec_weaken [OF at_path_spec [OF list_entry_spec [OF assms, of P] assms]])
    fix r :: "mfs_err + NodeListing" and D V D' V'
    assume "at_rel [name] (\<lambda>r D V D' V'. V' = V \<and> (\<forall>e. r = Inr e \<longrightarrow> nl_Name e = name \<and> (nl_Dir e \<longleftrightarrow> V [] = Some EDir)
       \<and> (\<exists>nd. nl_Hash e = Some (node_Cid env nd) \<and> fs_tree D' nd \<and> node_at D' nd = V))) r D V D' V'"
    then show "V' = V \<and> (\<forall>e. r = Inr e \<longrightarrow> nl_Name e = name \<and> listed env D' V e)"
      unfolding at_rel_def using with_node_same [of "[name]" V] by (auto simp: listed_def)
  qed simp
  have 2: "op_spec env (\<lambda>_. True) (bindF (list_entries env names) (\<lambda>es. okF (e # es)))
     (\<lambda>r D V D' V'. V' = V \<and> (\<forall>es. r = Inr es \<longrightarrow> (\<exists>es'. es = e # es' \<and> map nl_Name es' = names \<and> (\<forall>e \<in> set es'. listed env D' V e))))" for e
    by (rule op_spec_weaken [OF op_spec_bind [OF Cons.IH [of "\<lambda>_. True"] op_spec_pure(1) [of env "\<lambda>_. True"]]]) (auto simp: bind_rel_def)
  show ?case unfolding e
  proof (rule op_spec_weaken [OF op_spec_bind [OF 1 2]])
    fix r :: "mfs_err + NodeListing list" and D V D' V'
    assume "bind_rel (\<lambda>r D V D' V'. V' = V \<and> (\<forall>e. r = Inr e \<longrightarrow> nl_Name e = name \<and> listed env D' V e))
       (\<lambda>e r D V D' V'. V' = V \<and> (\<forall>es. r = Inr es \<longrightarrow> (\<exists>es'. es = e # es' \<and> map nl_Name es' = names \<and> (\<forall>e \<in> set es'. listed env D' V e)))) r D V D' V'"
    then show "V' = V \<and> (\<forall>es. r = Inr es \<longrightarrow> map nl_Name es = name # names \<and> (\<forall>e \<in> set es. listed env D' V e))"
      unfolding bind_rel_def using listed_le by (elim disjE exE conjE) auto
  qed auto
qed

lemma ls_object_spec:
  assumes "sound_env env"
  shows "op_spec env P (ls_object env long path)
    (\<lambda>r D V D' V'. V' = V \<and> (\<forall>es. r = Inr es \<longrightarrow> V [] = Some EDir \<longrightarrow>
       distinct (map nl_Name es) \<and> (\<forall>n. n \<in> nl_Name ` set es \<longleftrightarrow> V [n] \<noteq> None) \<and> (long \<longrightarrow> (\<forall>e \<in> set es. listed env D' V e))))"
proof (rule op_specI)
  fix f s r f' s'
  assume a: "ls_object env long path f s = (r, f', s')" "wf_fs env (dag s) f" "addressed env (dag s)" "P (dag s)"
  show "wf_fs env (dag s') f' \<and> addressed env (dag s') \<and> dag s \<subseteq>\<^sub>m dag s' \<and> view (dag s') f' = view (dag s) f
    \<and> (\<forall>es. r = Inr es \<longrightarrow> view (dag s) f [] = Some EDir \<longrightarrow> distinct (map nl_Name es)
      \<and> (\<forall>n. n \<in> nl_Name ` set es \<longleftrightarrow> view (dag s) f [n] \<noteq> None) \<and> (long \<longrightarrow> (\<forall>e \<in> set es. listed env (dag s') (view (dag s) f) e)))"
  proof (cases f)
    case (File nd)
    have nd: "view (dag s) f [] \<noteq> Some EDir" using a(2) File leaf_not_dir by (auto simp: entry_of_def)
    show ?thesis
    proof (cases long)
      case True
      then have "bindF (list_entry env (snd (path_Split path))) (\<lambda>e. okF [e]) f s = (r, f', s')" using a(1) File by (simp add: ls_object_def)
      from op_specD [OF op_spec_bind [OF list_entry_spec [OF assms, of P] op_spec_pure(1) [of env "\<lambda>_. True"]] this a(2-4)]
      show ?thesis using nd by (auto simp: bind_rel_def)
    qed (use a File nd in \<open>auto simp: ls_object_def\<close>)
  next
    case (Directory dn cache)
    have names: "n \<in> set (ListNames f) \<longleftrightarrow> view (dag s) f [n] \<noteq> None" for n
      using view_name_iff [of env "dag s" dn cache n] a(2) Directory by (auto simp: ListNames_def)
    have dist: "distinct (ListNames f)" using a(2) Directory by (simp add: ListNames_def)
    show ?thesis
    proof (cases long)
      case True
      then have "list_entries env (ListNames f) f s = (r, f', s')" using a(1) Directory by (simp add: ls_object_def)
      note d = op_specD [OF list_entries_spec [OF assms, of P] this a(2-4)]
      have "distinct (map nl_Name es) \<and> (\<forall>n. n \<in> nl_Name ` set es \<longleftrightarrow> view (dag s) f [n] \<noteq> None)" if "r = Inr es" for es
      proof -
        have "map nl_Name es = ListNames f" using d(4) that by blast
        then show ?thesis using dist names by (metis list.set_map)
      qed
      then show ?thesis using d by blast
    next
      case False
      then show ?thesis using a Directory dist names by (auto simp: ls_object_def comp_def image_image)
    qed
  qed
qed

text \<open>C40. \<^verbatim>\<open>ipfs files ls\<close> of a directory lists every entry of the directory once and nothing else, and with \<^verbatim>\<open>-l\<close> says truly which
  are directories, and gives the CID of a stored node that holds what is there. Listing changes nothing that is shown.\<close>

theorem filesLs_exact:
  assumes "filesLs env long (Some a) f s = (Inr es, f', s')" "fs_ok env f s" "sound_env env" "V = view (dag s) f" "V (parts_of a) = Some EDir"
  shows "view (dag s') f' = V \<and> distinct (map nl_Name es) \<and> (\<forall>n. n \<in> nl_Name ` set es \<longleftrightarrow> V (parts_of a @ [n]) \<noteq> None)
    \<and> (long \<longrightarrow> (\<forall>e \<in> set es. (nl_Dir e \<longleftrightarrow> V (parts_of a @ [nl_Name e]) = Some EDir)
      \<and> (\<exists>nd. nl_Hash e = Some (node_Cid env nd) \<and> (\<forall>qs. node_at (dag s') nd qs = V (parts_of a @ nl_Name e # qs)))))"
proof -
  obtain p where c: "checkPath a = Inr p" and l: "at_path env (lookup_parts p) (ls_object env long p) f s = (Inr es, f', s')"
    using assms(1) by (auto simp: filesLs_def bindF_Inr liftF_def)
  note ca = checkPath_Inr [OF c]
  have lp: "lookup_parts p = parts_of a" using ca lookup_parts_abs [OF ca(1)] by auto
  note d = op_spec_fs [OF at_path_spec [OF ls_object_spec [OF assms(3), of "\<lambda>_. True"] assms(3)] l assms(2) TrueI, unfolded lp, folded assms(4)]
  obtain W where W: "W = (\<lambda>qs. V (parts_of a @ qs))" "view (dag s') f' = with_node (parts_of a) W V"
    "distinct (map nl_Name es) \<and> (\<forall>n. n \<in> nl_Name ` set es \<longleftrightarrow> V (parts_of a @ [n]) \<noteq> None) \<and> (long \<longrightarrow> (\<forall>e \<in> set es. listed env (dag s') W e))"
    using d(3) assms(5) by (auto simp: at_rel_def)
  then have "(nl_Dir e \<longleftrightarrow> V (parts_of a @ [nl_Name e]) = Some EDir)
      \<and> (\<exists>nd. nl_Hash e = Some (node_Cid env nd) \<and> (\<forall>qs. node_at (dag s') nd qs = V (parts_of a @ nl_Name e # qs)))" if "long" "e \<in> set es" for e
    using that unfolding listed_def by metis
  then show ?thesis using W with_node_same [of "parts_of a" V] by auto
qed

subsection \<open>Writing\<close>

text \<open>What a modifier is relied on for: with the nodes it has stored, the new node is a complete file, if the old one was.\<close>

definition stores :: "'e mfs_env_scheme \<Rightarrow> dagmap \<Rightarrow> ipld_node \<Rightarrow> ipld_node list \<Rightarrow> bool" where
  "stores env D nd nodes =
     (is_leaf nd \<and> (\<forall>D'. D \<subseteq>\<^sub>m D' \<longrightarrow> (\<forall>m \<in> set nodes. D' (node_Cid env m) = Some (sort_links m)) \<longrightarrow> fs_tree D' nd))"

definition makes_files :: "'e mfs_env_scheme \<Rightarrow> (ipld_node \<Rightarrow> err option \<times> ipld_node \<times> ipld_node list) \<Rightarrow> bool" where
  "makes_files env f =
     (\<forall>nd e nd' ns. is_leaf nd \<longrightarrow> f nd = (e, nd', ns) \<longrightarrow> is_leaf nd' \<and> (\<forall>D. fs_tree D nd \<longrightarrow> stores env D nd' ns))"

definition good_modifier :: "'e files_env_scheme \<Rightarrow> bool" where
  "good_modifier env =
     (makes_files env (mod_Truncate env) \<and> (\<forall>k. makes_files env (mod_Seek env k)) \<and> (\<forall>k d. makes_files env (mod_Write env k d)))"

lemma stores_self: "is_leaf nd \<Longrightarrow> fs_tree D nd \<Longrightarrow> stores env D nd []"
  using fs_tree_le unfolding stores_def by blast

lemma stores_step:
  assumes "stores env D nd ns" "makes_files env f" "f nd = (e, nd', ns')"
  shows "stores env D nd' (ns @ ns')"
proof -
  have m: "is_leaf nd'" "fs_tree D' nd \<Longrightarrow> stores env D' nd' ns'" for D'
    using assms(1) assms(2) [unfolded makes_files_def, rule_format, OF _ assms(3)] unfolding stores_def by blast+
  have "fs_tree D' nd'" if "D \<subseteq>\<^sub>m D'" "\<forall>m \<in> set (ns @ ns'). D' (node_Cid env m) = Some (sort_links m)" for D'
  proof -
    have "fs_tree D' nd" using assms(1) that by (simp add: stores_def)
    then have "stores env D' nd' ns'" by (rule m(2))
    then show ?thesis using that(2) by (simp add: stores_def)
  qed
  then show ?thesis using m(1) by (simp add: stores_def)
qed

lemma write_body_stores:
  assumes "good_modifier env" "is_leaf nd" "fs_tree D nd" "write_body env trunc cnt offset input nd = (e, nd', nodes)"
  shows "stores env D nd' nodes"
proof -
  obtain e1 nd1 ns1 where t: "(if trunc then mod_Truncate env nd else (None, nd, [])) = (e1, nd1, ns1)" by (metis prod_cases3)
  obtain e2 nd2 ns2 where k: "mod_Seek env offset nd1 = (e2, nd2, ns2)" by (metis prod_cases3)
  note good = assms(1) [unfolded good_modifier_def]
  have s1: "stores env D nd1 ns1"
    using t stores_self [OF assms(2,3), of env] stores_step [OF stores_self [OF assms(2,3)], of env "mod_Truncate env"] good
    by (auto split: if_splits)
  have s2: "stores env D nd2 (ns1 @ ns2)" by (rule stores_step [where f = "mod_Seek env offset", OF s1 _ k]) (use good in blast)
  have s3: "stores env D nd3 ((ns1 @ ns2) @ ns3)" if "mod_Write env offset d nd2 = (e3, nd3, ns3)" for d e3 nd3 ns3
    by (rule stores_step [where f = "mod_Write env offset d", OF s2 _ that]) (use good in blast)
  show ?thesis
    using assms(4) t k s1 s2 s3 by (auto simp: write_body_def split: option.splits if_splits sum.splits prod.splits)
qed

lemma store_nodes_ok:
  "store_nodes env nodes s = (r, s') \<Longrightarrow> addressed env (dag s) \<Longrightarrow> sound_env env
    \<Longrightarrow> grown env s s' \<and> (r = None \<longrightarrow> (\<forall>m \<in> set nodes. dag s' (node_Cid env m) = Some (sort_links m)))"
proof (induction nodes arbitrary: s)
  case (Cons nd nodes)
  obtain x t where a: "dag_Add env nd s = (x, t)" by fastforce
  note g = dag_Add_grown(1) [OF a Cons.prems(2,3)]
  have ad: "addressed env (dag t)" using g Cons.prems(2) by (simp add: grown_def)
  show ?case
  proof (cases x)
    case None
    then have "store_nodes env nodes t = (r, s')" using Cons.prems(1) a by simp
    note ih = Cons.IH [OF this ad Cons.prems(3)]
    have "dag s' (node_Cid env nd) = Some (sort_links nd)"
      using dag_Add_grown(2) [OF a [unfolded None] Cons.prems(2,3)] ih map_leD by (auto simp: grown_def)
    then show ?thesis using ih grown_trans [OF g] by auto
  qed (use Cons.prems(1) a g in auto)
qed simp

lemma store_file_spec:
  assumes "sound_env env"
  shows "op_spec env (\<lambda>D. stores env D nd nodes) (store_file env nd nodes)
    (\<lambda>r D V D' V'. case r of Inr x \<Rightarrow> x = nd \<and> V' = (\<lambda>qs. if qs = [] then Some (ELeaf (sort_links nd)) else None) \<and> shown env D' nd [] V'
       | Inl e \<Rightarrow> V' = V)"
proof (rule op_specI)
  fix f s r f' s'
  assume a: "store_file env nd nodes f s = (r, f', s')" "wf_fs env (dag s) f" "addressed env (dag s)" "stores env (dag s) nd nodes"
  obtain x t where st: "store_nodes env (nodes @ [nd]) s = (x, t)" by fastforce
  note ok = store_nodes_ok [OF st a(3) assms]
  have le: "dag s \<subseteq>\<^sub>m dag t" "addressed env (dag t)" using ok a(3) by (auto simp: grown_def)
  show "wf_fs env (dag s') f' \<and> addressed env (dag s') \<and> dag s \<subseteq>\<^sub>m dag s'
    \<and> (case r of Inr x \<Rightarrow> x = nd \<and> view (dag s') f' = (\<lambda>qs. if qs = [] then Some (ELeaf (sort_links nd)) else None) \<and> shown env (dag s') nd [] (view (dag s') f')
       | Inl e \<Rightarrow> view (dag s') f' = view (dag s) f)"
  proof (cases x)
    case (Some e)
    then have "r = Inl e" "f' = f" "s' = t" using a(1) st by (auto simp: store_file_def)
    then show ?thesis using wf_le(1) [OF a(2) le(1)] le view_le [OF a(2) le(1)] by (auto intro!: ext)
  next
    case None
    then have run: "r = Inr nd" "f' = File nd" "s' = t" using a(1) st by (auto simp: store_file_def)
    have sn: "\<forall>m \<in> set nodes. dag t (node_Cid env m) = Some (sort_links m)" "dag t (node_Cid env nd) = Some (sort_links nd)" using ok None by auto
    have t: "is_leaf nd" "fs_tree (dag t) nd" using a(4) le(1) sn(1) by (auto simp: stores_def)
    have v: "view (dag t) (File nd) = (\<lambda>qs. if qs = [] then Some (ELeaf (sort_links nd)) else None)"
      by (rule ext) (simp add: node_at_leaf [OF t(1)])
    have "shown env (dag t) nd [] (view (dag t) (File nd))" by (rule shown_tree [OF t(2) _ sn(2)]) (auto intro!: ext)
    then show ?thesis using run t sn(2) le v by simp
  qed
qed

lemma open_file_spec:
  "op_spec env P open_file (\<lambda>r D V D' V'. V' = V \<and> (\<forall>nd. r = Inr nd \<longrightarrow> is_leaf nd \<and> fs_tree D' nd \<and> V [] = Some (ELeaf (sort_links nd))))"
proof (rule op_specI)
  fix f s r f' s'
  assume "open_file f s = (r, f', s')" "wf_fs env (dag s) f" "addressed env (dag s)"
  then show "wf_fs env (dag s') f' \<and> addressed env (dag s') \<and> dag s \<subseteq>\<^sub>m dag s' \<and> view (dag s') f' = view (dag s) f
    \<and> (\<forall>nd. r = Inr nd \<longrightarrow> is_leaf nd \<and> fs_tree (dag s') nd \<and> view (dag s) f [] = Some (ELeaf (sort_links nd)))"
    using leaf_not_dir by (cases f) (auto simp: open_file_def entry_of_def split: if_splits)
qed

text \<open>A new file is empty.\<close>

lemma create_spec:
  assumes "sound_env env"
  shows "op_spec env P (create_file env fname b)
    (\<lambda>r D V D' V'. case r of Inr _ \<Rightarrow> V [fname] = None
         \<and> (\<exists>b. V' = with_node [fname] (\<lambda>qs. if qs = [] then Some (ELeaf (ProtoNode TFile (new_file_data env) [] b)) else None) V)
       | Inl e \<Rightarrow> V' = V)"
    (is "op_spec env P ?op ?Q")
proof (rule op_specI)
  fix f s r f' s'
  assume a: "?op f s = (r, f', s')" "wf_fs env (dag s) f" "addressed env (dag s)"
  show "wf_fs env (dag s') f' \<and> addressed env (dag s') \<and> dag s \<subseteq>\<^sub>m dag s' \<and> ?Q r (dag s) (view (dag s) f) (dag s') (view (dag s') f')"
  proof (cases f)
    case (File nd)
    then show ?thesis using a by (auto simp: create_file_def in_dir_def)
  next
    case (Directory dn cache)
    define b' where "b' = (case b of None \<Rightarrow> CidBuilder dn | Some b \<Rightarrow> b)"
    let ?nd = "ProtoNode TFile (new_file_data env) [] b'"
    have "dir_Add env fname ?nd f s = (r, f', s')" using a(1) Directory by (simp add: create_file_def in_dir_def dir_Add_def Let_def b'_def)
    moreover have t: "fs_tree (dag s) ?nd" by (rule fs_tree.fs_leaf) auto
    moreover have "node_at (dag s) ?nd = (\<lambda>qs. if qs = [] then Some (ELeaf ?nd) else None)"
      by (rule ext) (simp add: node_at_leaf)
    ultimately show ?thesis using op_specD [OF dir_Add_spec [OF assms] _ a(2,3) t, of fname r f' s']
      by (cases r) (auto intro!: exI [of _ b'])
  qed
qed

lemma keeps_getFileHandle:
  assumes "sound_env env"
  shows "keeps env (\<lambda>_. True) (getFileHandle env path create b)"
proof -
  have id: "op_spec env (\<lambda>_. True) (at_path env P (\<lambda>f s. (Inr f, f, s))) (at_rel P (\<lambda>r D V D' V'. True))" for P
    by (rule at_path_spec [OF _ assms]) (simp add: op_spec_def)
  obtain d n where s: "path_Split path = (d, n)" by fastforce
  show ?thesis unfolding getFileHandle_def s Let_def prod.case
  proof (rule fs_keeps_try [OF id, where ?P2.0 = "\<lambda>_ _. True"], goal_cases)
    case (1 x)
    show ?case
      by (cases x) (auto split: fsnode.splits intro!: keeps_seq keepsI [OF lookupDir_spec [OF assms, of "\<lambda>_. True"]]
          keepsI [OF at_path_spec [OF create_spec [OF assms, of "\<lambda>_. True"] assms]] keepsI [OF child_at_spec [OF assms, of "\<lambda>_. True"]])
  qed simp
qed

lemma keeps_ensure: "sound_env env \<Longrightarrow> keeps env (\<lambda>_. True) (ensureContainingDirectoryExists env p b)"
  unfolding ensureContainingDirectoryExists_def Let_def by (auto intro: keepsI [OF Mkdir_flush_spec [of env "\<lambda>_. True"]])

lemma keeps_filesWrite:
  assumes "sound_env env" "good_modifier env"
  shows "keeps env (\<lambda>_. True) (filesWrite env create mkParents trunc flush cidVer hashFun offset cnt arg input)"
proof -
  have st: "keeps env (\<lambda>D. stores env D nd nodes)
    (tryF (if flush then bindF (update_path env parts (store_file env nd nodes)) (root_update env)
           else bindF (at_path env parts (store_file env nd nodes)) (\<lambda>_. okF ())) (\<lambda>r. case e of Some e \<Rightarrow> failF (MErr e) | None \<Rightarrow> liftF r))" for nd nodes parts e
  proof -
    have "keeps env (\<lambda>D. stores env D nd nodes) (if flush then bindF (update_path env parts (store_file env nd nodes)) (root_update env)
           else bindF (at_path env parts (store_file env nd nodes)) (\<lambda>_. okF ()))"
    proof (cases flush)
      case True
      have "op_spec env (\<lambda>D. stores env D nd nodes) (update_path env parts (store_file env nd nodes)) (up_rel env parts
          (\<lambda>r D V D' V'. case r of Inr x \<Rightarrow> x = nd \<and> V' = (\<lambda>qs. if qs = [] then Some (ELeaf (sort_links nd)) else None) \<and> shown env D' nd [] V' | Inl e \<Rightarrow> V' = V))"
        by (rule update_path_spec [OF store_file_spec [OF assms(1)] _ assms(1)]) auto
      from fs_keeps_bind [OF this keepsI [OF root_update_spec [OF assms(1), of "\<lambda>_. True"]], of "\<lambda>_ _. True"] show ?thesis using True by simp
    next
      case False
      from fs_keeps_bind [OF at_path_spec [OF store_file_spec [OF assms(1), of nd nodes] assms(1), of parts] keeps_pure(1), of "\<lambda>_ _. True" "\<lambda>_. ()"] show ?thesis using False by simp
    qed
    then show ?thesis unfolding keeps_def [of env _ "if flush then _ else _"]
      by (rule fs_keeps_try [where ?P2.0 = "\<lambda>_ _. True"]) (simp_all split: option.splits)
  qed
  have wr: "keeps env (\<lambda>_. True) (bindF (at_path env parts open_file) (\<lambda>nd.
      let (e, nd', nodes) = write_body env trunc cnt offset input nd; parts = parts in
        tryF (if flush then bindF (update_path env parts (store_file env nd' nodes)) (root_update env)
           else bindF (at_path env parts (store_file env nd' nodes)) (\<lambda>_. okF ())) (\<lambda>r. case e of Some e \<Rightarrow> failF (MErr e) | None \<Rightarrow> liftF r)))" for parts
  proof (rule fs_keeps_bind [OF at_path_spec [OF open_file_spec [of env "\<lambda>_. True"] assms(1)], where ?P2.0 = "\<lambda>nd D. is_leaf nd \<and> fs_tree D nd"])
    fix nd
    obtain e nd' nodes where w: "write_body env trunc cnt offset input nd = (e, nd', nodes)" by (metis prod_cases3)
    have "stores env D nd' nodes" if "is_leaf nd \<and> fs_tree D nd" for D
    proof -
      show ?thesis using write_body_stores [OF assms(2) _ _ w] that by blast
    qed
    from keepsI [OF st [of nd' nodes parts e, unfolded keeps_def] this]
    show "keeps env (\<lambda>D. is_leaf nd \<and> fs_tree D nd) (let (e, nd', nodes) = write_body env trunc cnt offset input nd; parts = parts in
        tryF (if flush then bindF (update_path env parts (store_file env nd' nodes)) (root_update env)
           else bindF (at_path env parts (store_file env nd' nodes)) (\<lambda>_. okF ())) (\<lambda>r. case e of Some e \<Rightarrow> failF (MErr e) | None \<Rightarrow> liftF r))"
      using w by simp
  qed (auto simp: at_rel_def)
  show ?thesis unfolding filesWrite_def
    by (intro keeps_seq keeps_pure) (auto intro!: keeps_seq keeps_getFileHandle [OF assms(1)] keeps_ensure [OF assms(1)] wr [unfolded Let_def] simp: Let_def)
qed

section \<open>Every command keeps the file system\<close>

lemma keeps_seq_mono:
  assumes "\<And>D D'. P D \<Longrightarrow> D \<subseteq>\<^sub>m D' \<Longrightarrow> P D'" "keeps env P m" "\<And>x. keeps env P (k x)"
  shows "keeps env P (bindF m k)"
  by (rule fs_keeps_bind [OF assms(2) [unfolded keeps_def], where ?P2.0 = "\<lambda>_. P"]) (use assms(1,3) in blast)+

lemma keeps_weaken: "keeps env P op \<Longrightarrow> (\<And>D. P' D \<Longrightarrow> P D) \<Longrightarrow> keeps env P' op"
  unfolding keeps_def by (erule op_spec_weaken) auto

lemma keeps_FlushPath: "sound_env env \<Longrightarrow> keeps env (\<lambda>_. True) (FlushPath env pth)"
  by (rule keepsI [OF FlushPath_spec [of env "\<lambda>_. True"]])

lemma keeps_flush_up: "sound_env env \<Longrightarrow> keeps env (\<lambda>_. True) (flush_up env parts)"
  by (rule keepsI [OF flush_up_spec [of env "\<lambda>_. True"]])

lemma keeps_lookupDir: "sound_env env \<Longrightarrow> keeps env (\<lambda>_. True) (lookupDir env pth)"
  by (rule keepsI [OF lookupDir_spec [of env "\<lambda>_. True"]])

lemma keeps_child: "sound_env env \<Longrightarrow> keeps env (\<lambda>_. True) (at_path env parts (dir_Child env name))"
  by (rule keepsI [OF child_at_spec [of env "\<lambda>_. True"]])

lemma keeps_unlink: "sound_env env \<Longrightarrow> keeps env (\<lambda>_. True) (at_path env parts (dir_Unlink name))"
  by (rule keepsI [OF unlink_at_spec [of env "\<lambda>_. True"]])

lemma keeps_tryF:
  assumes "keeps env (\<lambda>_. True) m" "\<And>x. keeps env (\<lambda>_. True) (k x)"
  shows "keeps env (\<lambda>_. True) (tryF m k)"
  by (rule fs_keeps_try [OF assms(1) [unfolded keeps_def], where ?P2.0 = "\<lambda>_ _. True"]) (use assms(2) in auto)

lemma keeps_filesMkdir: "sound_env env \<Longrightarrow> keeps env (\<lambda>_. True) (filesMkdir env dashp flush cidVer hashFun arg)"
  unfolding filesMkdir_def by (intro keeps_seq keeps_pure) (auto intro: keepsI [OF Mkdir_flush_spec [of env "\<lambda>_. True"]])

lemma keeps_filesMv: "sound_env env \<Longrightarrow> keeps env (\<lambda>_. True) (filesMv env flush a b)"
  unfolding filesMv_def by (intro keeps_seq keeps_pure keeps_Mv) (auto intro!: keeps_seq keeps_FlushPath)

lemma keeps_filesFlush: "sound_env env \<Longrightarrow> keeps env (\<lambda>_. True) (filesFlush env arg)"
  unfolding filesFlush_def by (intro keeps_seq keeps_pure keeps_FlushPath)

lemma keeps_filesLs: "sound_env env \<Longrightarrow> keeps env (\<lambda>_. True) (filesLs env long arg)"
  unfolding filesLs_def by (intro keeps_seq keeps_pure keepsI [OF at_path_spec [OF ls_object_spec [of env "\<lambda>_. True"]]])

lemma keeps_filesChcid:
  assumes "sound_env env"
  shows "keeps env (\<lambda>_. True) (filesChcid env flush cidVer hashFun arg)"
proof -
  have upd: "op_spec env (\<lambda>_. True) (\<lambda>f s. case f of
              Directory dn cache \<Rightarrow> (Inr (), set_builder (Some b) (Directory dn cache), s)
            | File nd \<Rightarrow> (Inl (MErr ''can only update directories''), File nd, s)) (\<lambda>r D V D' V'. V' = V)" for b
  proof (rule op_specI)
    fix f s r f' s'
    assume "(case f of Directory dn cache \<Rightarrow> (Inr (), set_builder (Some b) (Directory dn cache), s)
            | File nd \<Rightarrow> (Inl (MErr ''can only update directories''), File nd, s)) = (r :: mfs_err + unit, f', s' :: files_state)"
      "wf_fs env (dag s) f" "addressed env (dag s)"
    then show "wf_fs env (dag s') f' \<and> addressed env (dag s') \<and> dag s \<subseteq>\<^sub>m dag s' \<and> view (dag s') f' = view (dag s) f"
      using set_builder_ok [of env "dag s" f "Some b"] by (cases f) (auto intro!: ext simp del: wf_fs.simps)
  qed
  have "keeps env (\<lambda>_. True) (updatePath env pth b)" for pth b
    unfolding updatePath_def using keepsI [OF at_path_spec [OF upd assms]] by (cases b) simp_all
  then show ?thesis unfolding filesChcid_def Let_def
    by (intro keeps_seq keeps_pure) (auto intro!: keeps_seq keeps_FlushPath assms)
qed

lemma keeps_rm_path: "sound_env env \<Longrightarrow> keeps env (\<lambda>_. True) (rm_path env force dashr arg)"
  unfolding rm_path_def Let_def
  by (intro keeps_seq keeps_pure)
    (auto split: prod.splits sum.splits fsnode.splits intro!: keeps_seq keeps_tryF keeps_lookupDir keeps_unlink keeps_child keeps_flush_up)

lemma keeps_filesCp:
  assumes "sound_env env"
  shows "keeps env (resolved_ok env) (filesCp env mkParents flush cidVer hashFun a b)"
proof -
  note seq = keeps_seq_mono [of "resolved_ok env", OF resolved_ok_le]
  have put: "keeps env (\<lambda>D. fs_tree D nd) (bindF (unitF (PutNode env dst nd)) (\<lambda>_.
      if flush then bindF (FlushPath env dst) (\<lambda>_. okF ()) else okF ()))" for nd dst
    by (rule fs_keeps_bind [OF PutNode_spec [OF assms], where ?P2.0 = "\<lambda>_ _. True"]) (auto intro!: keeps_seq keeps_FlushPath assms)
  have ens: "keeps env (\<lambda>D. fs_tree D nd) (if mkParents then ensureContainingDirectoryExists env dst c else okF ())" for nd dst c
    using keeps_weaken [OF keeps_ensure [OF assms]] by simp
  have all: "keeps env (resolved_ok env) (bindF (getNodeFromPath env src) (\<lambda>nd.
       bindF (if mkParents then ensureContainingDirectoryExists env dst c else okF ()) (\<lambda>_. bindF (unitF (PutNode env dst nd)) (\<lambda>_.
         if flush then bindF (FlushPath env dst) (\<lambda>_. okF ()) else okF ()))))" for src dst c
    by (rule fs_keeps_bind [OF getNodeFromPath_spec [OF assms] keeps_seq_mono [OF fs_tree_le ens put]]) auto
  show ?thesis unfolding filesCp_def Let_def by (intro seq keeps_pure all)
qed

lemma keeps_filesRm:
  assumes "sound_env env"
  shows "keeps env (\<lambda>_. True) (filesRm env force dashr args)"
proof -
  have "keeps env (\<lambda>_. True) (rm_loop env force dashr args)"
  proof (induction args)
    case Nil
    then show ?case by (simp add: keeps_def op_spec_def)
  next
    case (Cons arg args)
    have "rm_loop env force dashr (arg # args) = tryF (rm_path env force dashr arg) (\<lambda>r.
        bindF (rm_loop env force dashr args) (\<lambda>errs. okF ((case r of Inl e \<Rightarrow> [e] | Inr _ \<Rightarrow> []) @ errs)))"
      by (intro ext) (simp add: tryF_def bindF_def okF_def split: prod.splits sum.splits)
    then show ?case using Cons by (auto intro!: keeps_tryF keeps_seq keeps_rm_path assms)
  qed
  then show ?thesis unfolding filesRm_def by (intro keeps_seq keeps_pure)
qed

lemma keeps_filesRead:
  assumes "sound_env env"
  shows "keeps env (\<lambda>_. True) (filesRead env offset cnt arg)"
proof -
  have close: "keeps env (\<lambda>D. is_leaf nd \<and> fs_tree D nd) (tryF (at_path env P (store_file env nd [])) (\<lambda>_. liftF x))" for nd P and x :: "mfs_err + string"
    by (rule keeps_weaken [OF fs_keeps_try [OF at_path_spec [OF store_file_spec [OF assms, of nd "[]"] assms], where ?P2.0 = "\<lambda>_ _. True"]])
      (use fs_tree_le in \<open>auto simp: stores_def\<close>)
  have "keeps env (\<lambda>_. True) (bindF (at_path env P open_file) (\<lambda>nd. tryF (at_path env P (store_file env nd [])) (\<lambda>_. liftF (k nd))))" for P and k :: "ipld_node \<Rightarrow> mfs_err + string"
    by (rule fs_keeps_bind [OF at_path_spec [OF open_file_spec [of env "\<lambda>_. True"] assms] close]) (auto simp: at_rel_def)
  then show ?thesis unfolding filesRead_def by (rule keeps_seq [OF keeps_pure(3)])
qed

lemma keeps_filesStat:
  assumes "sound_env env"
  shows "keeps env (resolved_ok env) (filesStat env offline rawLen fuel withLocal hash sz fmt arg)"
proof -
  note seq = keeps_seq_mono [of "resolved_ok env", OF resolved_ok_le]
  have "keeps env (resolved_ok env) (getNodeFromPath env path)" for path by (rule keepsI [OF getNodeFromPath_spec [OF assms]])
  then show ?thesis unfolding filesStat_def
    by (intro seq keeps_pure) (auto split: sum.splits option.splits prod.splits)
qed

text \<open>Any of the commands, with any options and arguments, failing or not.\<close>

inductive files_step :: "'e files_env_scheme \<Rightarrow> fsnode \<times> files_state \<Rightarrow> fsnode \<times> files_state \<Rightarrow> bool" for env where
  step_mkdir: "filesMkdir env dashp flush cidVer hashFun arg f s = (r, f', s') \<Longrightarrow> files_step env (f, s) (f', s')"
| step_cp: "filesCp env mkParents flush cidVer hashFun a b f s = (r, f', s') \<Longrightarrow> files_step env (f, s) (f', s')"
| step_mv: "filesMv env flush a b f s = (r, f', s') \<Longrightarrow> files_step env (f, s) (f', s')"
| step_rm: "filesRm env force dashr args f s = (r', f', s') \<Longrightarrow> files_step env (f, s) (f', s')"
| step_flush: "filesFlush env p f s = (r'', f', s') \<Longrightarrow> files_step env (f, s) (f', s')"
| step_chcid: "filesChcid env flush cidVer hashFun p f s = (r, f', s') \<Longrightarrow> files_step env (f, s) (f', s')"
| step_ls: "filesLs env long p f s = (r3, f', s') \<Longrightarrow> files_step env (f, s) (f', s')"
| step_write: "filesWrite env create mkParents trunc flush cidVer hashFun offset cnt arg input f s = (r, f', s') \<Longrightarrow> files_step env (f, s) (f', s')"
| step_read: "filesRead env offset cnt arg f s = (r4, f', s') \<Longrightarrow> files_step env (f, s) (f', s')"
| step_stat: "filesStat env offline rawLen fuel withLocal hash sz fmt arg f s = (r5, f', s') \<Longrightarrow> files_step env (f, s) (f', s')"

text \<open>The file system is opened on a stored directory with nothing cached. What the parameters are relied on for is the first
  conjuncts: CIDs tell nodes apart and no read fails, the modifier makes complete files, and what the resolver finds is complete.\<close>

definition files_init :: "'e files_env_scheme \<Rightarrow> fsnode \<times> files_state \<Rightarrow> bool" where
  "files_init env fs = (case fs of (f, s) \<Rightarrow> sound_env env \<and> good_modifier env \<and> resolved_ok env (dag s)
     \<and> (\<exists>nd. f = Directory nd [] \<and> is_dir nd \<and> fs_tree (dag s) nd) \<and> addressed env (dag s))"

definition files_inv :: "'e files_env_scheme \<Rightarrow> fsnode \<times> files_state \<Rightarrow> bool" where
  "files_inv env fs = (case fs of (f, s) \<Rightarrow> sound_env env \<and> good_modifier env \<and> resolved_ok env (dag s) \<and> fs_ok env f s)"

lemma keeps_run:
  assumes "keeps env P op" "op f s = (r, f', s')" "fs_ok env f s" "P (dag s)"
  shows "fs_ok env f' s' \<and> dag s \<subseteq>\<^sub>m dag s'"
  using op_spec_fs(1,2) [OF assms(1) [unfolded keeps_def] assms(2-4)] by blast

lemma files_step_keeps:
  assumes "files_step env fs fs'" "files_inv env fs"
  shows "fs_ok env (fst fs') (snd fs') \<and> dag (snd fs) \<subseteq>\<^sub>m dag (snd fs')"
proof -
  obtain f s where fs: "fs = (f, s)" by fastforce
  have sound: "sound_env env" and ok: "good_modifier env" "fs_ok env f s" "resolved_ok env (dag s)" using assms(2) fs by (auto simp: files_inv_def)
  note ks = keeps_filesMkdir keeps_filesCp keeps_filesMv keeps_filesRm keeps_filesFlush keeps_filesChcid keeps_filesLs keeps_filesWrite keeps_filesRead keeps_filesStat
  show ?thesis using assms(1) unfolding fs
    by cases (use keeps_run [OF ks(1) [OF sound] _ ok(2)] keeps_run [OF ks(2) [OF sound] _ ok(2,3)] keeps_run [OF ks(3) [OF sound] _ ok(2)]
      keeps_run [OF ks(4) [OF sound] _ ok(2)] keeps_run [OF ks(5) [OF sound] _ ok(2)] keeps_run [OF ks(6) [OF sound] _ ok(2)]
      keeps_run [OF ks(7) [OF sound] _ ok(2)] keeps_run [OF ks(8) [OF sound ok(1)] _ ok(2)]
      keeps_run [OF ks(9) [OF sound] _ ok(2)] keeps_run [OF ks(10) [OF sound] _ ok(2,3)] in auto)
qed

lemma init_wf: "is_dir nd \<Longrightarrow> fs_tree D nd \<Longrightarrow> wf_fs env D (Directory nd [])"
  using fs_tree_dirD [of D nd] by force

interpretation files: invariant_system "files_init env" "files_step env" "files_inv env"
proof unfold_locales
  fix fs
  assume "files_init env fs"
  then show "files_inv env fs" using init_wf by (cases fs) (auto simp: files_init_def files_inv_def fs_ok_def simp del: wf_fs.simps)
next
  fix fs fs'
  assume "files_step env fs fs'" "files_inv env fs"
  then show "files_inv env fs'" using files_step_keeps [of env fs fs'] resolved_ok_le by (cases fs; cases fs') (auto simp: files_inv_def)
qed

text \<open>C10. Whatever \<^verbatim>\<open>files\<close> commands run on a file system that was opened on a complete directory, failing or not, the mutable file system stays
  well-formed: directories are directory nodes with distinct names, files are file nodes, cached objects have an entry in their directory, every
  other entry leads to a complete tree, and every block is under its own CID. A tree is complete when the DAG service can get every node of it, from
  the local store or from the network: a lazy copy of \<^verbatim>\<open>/ipfs\<close> content is complete in this sense before its blocks are local. The assumptions are
  that distinct nodes have distinct CIDs and that no read of the DAG service fails, that every step of the \<^verbatim>\<open>DagModifier\<close> of go-unixfs makes
  complete files of complete ones, and that what the resolver of \<^verbatim>\<open>/ipfs\<close> paths finds is a complete tree of files and directories.\<close>

theorem files_reachable_ok:
  assumes services: "sound_env env" "good_modifier env" "resolved_ok env (dag s0)"
    and opened: "is_dir nd" "fs_tree (dag s0) nd" "addressed env (dag s0)"
    and run: "reach (\<lambda>fs. fs = (Directory nd [], s0)) (files_step env) (f, s)"
  shows "wf_fs env (dag s) f \<and> addressed env (dag s)"
proof -
  have "reach (files_init env) (files_step env) (f, s)"
    by (rule reach_mono [OF run]) (use services opened in \<open>simp add: files_init_def\<close>)
  from files.reach_inv [OF this] show ?thesis by (simp add: files_inv_def fs_ok_def)
qed

section \<open>Examples\<close>

text \<open>A modifier that keeps the bytes of a file in one node, a resolver that knows one file, and the file system after
  \<^verbatim>\<open>mkdir /d\<close>, \<^verbatim>\<open>mkdir /e\<close> and \<^verbatim>\<open>cp /ipfs/x /d/f\<close>.\<close>

definition demo_prefix :: cid_prefix where
  "demo_prefix = \<lparr>Version = 0, Codec = DagProtobuf, MhType = SHA2_256, MhLength = 32\<rparr>"

definition demo_files_env :: files_env where
  "demo_files_env =
     \<lparr>Cid_of = CidV0 \<circ> enc_node, add_err = (\<lambda>n. None), get_err = (\<lambda>n. None), root_name = '''',
      ResolveNode = (\<lambda>p. if p = ''/ipfs/x'' then Inr (RawNode ''hello'') else Inl ''not found''),
      builder_for = (\<lambda>v. demo_prefix), mh_Names = (\<lambda>n. None), new_file_data = [],
      proto_FileSize = (\<lambda>nd. Inr (length (pb_data nd))), cumulative_Size = (\<lambda>nd. Inr 0),
      mod_Truncate = (\<lambda>nd. (None, case nd of ProtoNode t d ls b \<Rightarrow> ProtoNode t [] [] b | RawNode d \<Rightarrow> RawNode [], [])),
      mod_Seek = (\<lambda>k nd. (None, nd, [])),
      mod_Write = (\<lambda>k d nd. (None, case nd of
         ProtoNode t bs ls b \<Rightarrow> ProtoNode t (take (nat k) bs @ d @ drop (nat k + length d) bs) [] b
       | RawNode bs \<Rightarrow> RawNode (take (nat k) bs @ d @ drop (nat k + length d) bs), [])),
      read_bytes = (\<lambda>nd. Inr (case nd of ProtoNode t d ls b \<Rightarrow> d | RawNode d \<Rightarrow> d))\<rparr>"

definition demo_root :: fsnode where
  "demo_root = Directory (EmptyDirNode (demo_prefix)) []"

definition demo_state :: files_state where
  "demo_state = \<lparr>dag = Map.empty, dag_calls = 0, published = None\<rparr>"

definition demo_fs :: "fsnode \<times> files_state" where
  "demo_fs =
     snd (bindF (filesMkdir demo_files_env False False None None ''/d'') (\<lambda>_.
          bindF (filesMkdir demo_files_env False False None None ''/e'') (\<lambda>_.
          filesCp demo_files_env False False None None ''/ipfs/x'' ''/d/f'')) demo_root demo_state)"

lemma demo_files_sound: "sound_env demo_files_env"
proof -
  have "inj (CidV0 \<circ> enc_node)" by (intro inj_compose enc_node_inj) (simp add: inj_def)
  then show ?thesis by (simp add: sound_env_def demo_files_env_def)
qed

lemma demo_files_good: "good_modifier demo_files_env"
proof -
  have "fs_tree D nd" if "is_leaf nd" "Links nd = []" for D nd by (rule fs_tree.fs_leaf) (use that in auto)
  then show ?thesis by (auto simp: good_modifier_def makes_files_def stores_def demo_files_env_def intro: fs_tree_le split: option.splits sum.splits ipld_node.splits if_splits)
qed

lemma demo_resolved: "resolved_ok demo_files_env D"
  by (auto simp: resolved_ok_def demo_files_env_def intro!: fs_tree.fs_leaf split: if_splits)

lemma demo_files_init: "files_init demo_files_env (demo_root, demo_state)"
  using demo_files_sound demo_files_good demo_resolved
  by (auto simp: files_init_def demo_root_def demo_state_def EmptyDirNode_def addressed_def intro: fs_tree.fs_dir)

lemma demo_fs_ok: "fs_ok demo_files_env (fst demo_fs) (snd demo_fs)"
proof -
  let ?e = demo_files_env
  note seq = keeps_seq_mono [of "resolved_ok ?e", OF resolved_ok_le]
  have mk: "keeps ?e (resolved_ok ?e) (filesMkdir ?e False False None None p)" for p
    by (rule keeps_weaken [OF keeps_filesMkdir [OF demo_files_sound]]) simp
  have "keeps ?e (resolved_ok ?e) (bindF (filesMkdir ?e False False None None ''/d'') (\<lambda>_.
      bindF (filesMkdir ?e False False None None ''/e'') (\<lambda>_. filesCp ?e False False None None ''/ipfs/x'' ''/d/f'')))"
    by (intro seq mk keeps_filesCp demo_files_sound)
  from keeps_run [OF this _ _ demo_resolved, of demo_root demo_state] files.init_inv [OF demo_files_init]
  show ?thesis unfolding demo_fs_def files_inv_def by (metis (no_types, lifting) case_prod_conv prod.collapse)
qed

definition demo_view :: fview where
  "demo_view = view (dag (snd demo_fs)) (fst demo_fs)"

lemma demo_view_at:
  "demo_view [''d''] = Some EDir" "demo_view [''d'', ''f''] = Some (ELeaf (RawNode ''hello''))" "demo_view [''e''] = Some EDir" "demo_view [''e'', ''f''] = None"
  by code_simp+

lemma run_ex: "fst x = r \<Longrightarrow> \<exists>f s. x = (r, f, s)"
  by (metis prod.collapse)

theorem filesMv_moves_witness:
  "\<exists>f' s'. filesMv demo_files_env True ''/d/f'' ''/e/'' (fst demo_fs) (snd demo_fs) = (Inr (), f', s')
     \<and> view (dag s') f' [''e'', ''f''] = Some (ELeaf (RawNode ''hello'')) \<and> view (dag s') f' [''d'', ''f''] = None \<and> view (dag s') f' [''d''] = Some EDir"
proof -
  have "fst (filesMv demo_files_env True ''/d/f'' ''/e/'' (fst demo_fs) (snd demo_fs)) = Inr ()" by code_simp
  from run_ex [OF this] obtain f' s' where run: "filesMv demo_files_env True ''/d/f'' ''/e/'' (fst demo_fs) (snd demo_fs) = (Inr (), f', s')" by blast
  have parts: "parts_of ''/d/f'' = [''d''] @ [''f'']" "parts_of ''/e/'' = [''e'']" by code_simp+
  have dst: "([''e''], ''f'') = mv_dest demo_view (if last ''/e/'' = CHR ''/'' \<or> parts_of ''/e/'' = [] then parts_of ''/e/'' else butlast (parts_of ''/e/''))
      (if last ''/e/'' = CHR ''/'' \<or> parts_of ''/e/'' = [] then ''f'' else last (parts_of ''/e/'')) ''f''"
    using demo_view_at by (simp add: parts mv_dest_def)
  note m = filesMv_moves [OF run demo_fs_ok demo_files_sound parts(1) _ demo_view_def dst]
  have "view (dag s') f' ps = (if prefix ([''e''] @ [''f'']) ps then demo_view ([''d''] @ [''f''] @ drop (length ([''e''] @ [''f''])) ps)
      else if prefix ([''d''] @ [''f'']) ps then None else demo_view ps)" for ps
    using m by (simp add: dir_name_def)
  then show ?thesis using run demo_view_at by simp
qed

theorem filesRm_exact_witness:
  "\<exists>f' s'. filesRm demo_files_env False True [''/d'', ''/x/../e/''] (fst demo_fs) (snd demo_fs) = (Inr ([], True), f', s')
     \<and> view (dag s') f' [''d'', ''f''] = None \<and> view (dag s') f' [''e''] = None \<and> view (dag s') f' [] = Some EDir"
proof -
  have "fst (filesRm demo_files_env False True [''/d'', ''/x/../e/''] (fst demo_fs) (snd demo_fs)) = Inr ([], True)" by code_simp
  from run_ex [OF this] obtain f' s' where run: "filesRm demo_files_env False True [''/d'', ''/x/../e/''] (fst demo_fs) (snd demo_fs) = (Inr ([], True), f', s')" by blast
  have parts: "parts_of ''/d'' = [''d'']" "parts_of ''/x/../e/'' = [''e'']" "demo_view [] = Some EDir" by code_simp+
  have ne: "parts_of a \<noteq> []" if "a \<in> set [''/d'', ''/x/../e/'']" for a using that parts by auto
  have "view (dag s') f' ps = (if \<exists>a \<in> set [''/d'', ''/x/../e/'']. prefix (parts_of a) ps then None else demo_view ps)" for ps
    using filesRm_exact [OF run demo_fs_ok demo_files_sound ne] parts by (simp add: demo_view_def)
  then show ?thesis using run parts by simp
qed

theorem filesFlush_durable_witness:
  "\<exists>c f' s' root rc. filesFlush demo_files_env (Some ''/d'') (fst demo_fs) (snd demo_fs) = (Inr c, f', s') \<and> published s' = Some rc
     \<and> dag s' rc = Some root \<and> node_at (dag s') root [''d'', ''f''] = Some (ELeaf (RawNode ''hello''))"
proof -
  have "case fst (filesFlush demo_files_env (Some ''/d'') (fst demo_fs) (snd demo_fs)) of Inr c \<Rightarrow> True | Inl e \<Rightarrow> False" by code_simp
  then obtain c f' s' where run: "filesFlush demo_files_env (Some ''/d'') (fst demo_fs) (snd demo_fs) = (Inr c, f', s')"
    by (auto split: sum.splits) (metis prod.collapse)
  have "[''d''] = lookup_parts (case Some ''/d'' of None \<Rightarrow> ''/'' | Some p \<Rightarrow> p)" by code_simp
  from filesFlush_durable [OF run demo_fs_ok demo_files_sound this]
  obtain root rc where "published s' = Some rc" "dag s' rc = Some root" "\<And>qs. node_at (dag s') root ([''d''] @ qs) = demo_view ([''d''] @ qs)"
    by (auto simp: demo_view_def)
  then show ?thesis using run demo_view_at(2) by (metis append_Cons append_Nil)
qed

theorem filesCp_copies_witness:
  "\<exists>f' s'. filesCp demo_files_env True True None None ''/d/'' ''/n/g'' (fst demo_fs) (snd demo_fs) = (Inr (), f', s')
     \<and> view (dag s') f' [''n'', ''g'', ''f''] = Some (ELeaf (RawNode ''hello'')) \<and> view (dag s') f' [''d'', ''f''] = Some (ELeaf (RawNode ''hello''))"
proof -
  have "fst (filesCp demo_files_env True True None None ''/d/'' ''/n/g'' (fst demo_fs) (snd demo_fs)) = Inr ()" by code_simp
  from run_ex [OF this] obtain f' s' where run: "filesCp demo_files_env True True None None ''/d/'' ''/n/g'' (fst demo_fs) (snd demo_fs) = (Inr (), f', s')" by blast
  have parts: "parts_of ''/d/'' = [''d'']" "[''n'', ''g''] = cp_dest ''/n/g'' (parts_of ''/d/'')" by code_simp+
  have np: "\<not> prefix ''/ipfs/'' (abs_path (parts_of ''/d/''))" by code_simp
  have "view (dag s') f' = with_node [''n'', ''g''] (\<lambda>qs. demo_view ([''d''] @ qs)) (with_dirs (butlast [''n'', ''g'']) demo_view)"
    using filesCp_copies [OF run demo_fs_ok demo_files_sound _ np demo_view_def parts(2)] parts(1) by simp
  then show ?thesis using run demo_view_at by (simp add: with_node_def with_dirs_def)
qed

theorem filesLs_exact_witness:
  "\<exists>es e f' s' nd. filesLs demo_files_env True (Some ''/'') (fst demo_fs) (snd demo_fs) = (Inr es, f', s') \<and> e \<in> set es \<and> nl_Name e = ''d'' \<and> nl_Dir e
     \<and> nl_Hash e = Some (node_Cid demo_files_env nd) \<and> node_at (dag s') nd [''f''] = Some (ELeaf (RawNode ''hello''))"
proof -
  have "case fst (filesLs demo_files_env True (Some ''/'') (fst demo_fs) (snd demo_fs)) of Inr c \<Rightarrow> True | Inl e \<Rightarrow> False" by code_simp
  then obtain es f' s' where run: "filesLs demo_files_env True (Some ''/'') (fst demo_fs) (snd demo_fs) = (Inr es, f', s')"
    by (auto split: sum.splits) (metis prod.collapse)
  have parts: "parts_of ''/'' = []" "demo_view (parts_of ''/'') = Some EDir" by code_simp+
  note l = filesLs_exact [OF run demo_fs_ok demo_files_sound demo_view_def parts(2), unfolded parts(1)]
  have "''d'' \<in> nl_Name ` set es" using l demo_view_at(1) by simp
  then obtain e where e: "e \<in> set es" "nl_Name e = ''d''" by auto
  then obtain nd where "nl_Hash e = Some (node_Cid demo_files_env nd)" "\<And>qs. node_at (dag s') nd qs = demo_view (''d'' # qs)" using l by fastforce
  moreover have "nl_Dir e" using l e demo_view_at(1) by simp
  ultimately show ?thesis using run e demo_view_at(2) by metis
qed

theorem files_reachable_ok_witness:
  "\<exists>f s. filesMkdir demo_files_env False True None None ''/d'' demo_root demo_state = (Inr (), f, s)
     \<and> wf_fs demo_files_env (dag s) f \<and> addressed demo_files_env (dag s)"
proof -
  have "fst (filesMkdir demo_files_env False True None None ''/d'' demo_root demo_state) = Inr ()" by code_simp
  from run_ex [OF this] obtain f s where run: "filesMkdir demo_files_env False True None None ''/d'' demo_root demo_state = (Inr (), f, s)" by blast
  let ?nd = "EmptyDirNode demo_prefix"
  have "reach (\<lambda>fs. fs = (Directory ?nd [], demo_state)) (files_step demo_files_env) (f, s)"
    using step_mkdir [OF run] unfolding demo_root_def by (blast intro: reach.intros)
  moreover have "is_dir ?nd" "fs_tree (dag demo_state) ?nd" "addressed demo_files_env (dag demo_state)"
    by (auto simp: demo_state_def EmptyDirNode_def addressed_def intro: fs_tree.fs_dir)
  ultimately show ?thesis using files_reachable_ok [OF demo_files_sound demo_files_good demo_resolved] run by blast
qed

end
