(* ===== verification/Files_Data.thy ===== *)
theory Files_Data
  imports Files_Cmds
begin

text \<open>
  The content of files: what \<^verbatim>\<open>files write\<close> leaves and \<^verbatim>\<open>files read\<close> returns, and how much of a DAG \<^verbatim>\<open>files stat --with-local\<close>
  finds (\<^verbatim>\<open>core/commands/files.go\<close>).
\<close>

section \<open>Writing\<close>

definition leaf_view :: "ipld_node \<Rightarrow> fview" where
  "leaf_view nd = (\<lambda>qs. if qs = [] then Some (ELeaf nd) else None)"

lemma with_node_twice [simp]: "with_node P W (with_node P W' V) = with_node P W V"
  by (auto simp: with_node_def fun_eq_iff)

lemma with_node_at: "with_node P W V P = W []"
  by (simp add: with_node_def)

lemma up_rel_Inr:
  assumes "up_rel env P Q (Inr nd) D V D' V'"
  shows "\<exists>x D1 W. Q (Inr x) D (\<lambda>qs. V (P @ qs)) D1 W \<and> V' = with_node P W V"
proof -
  obtain r' D1 W where "Q r' D (\<lambda>qs. V (P @ qs)) D1 W" "V' = with_node P W V" "\<forall>e. r' \<noteq> Inl e"
    using assms unfolding up_rel_def by blast
  then show ?thesis by (cases r') auto
qed

lemma getFileHandle_run:
  assumes run: "getFileHandle env (abs_path (P @ [n])) create b f s = (Inr (), f', s')" and ok: "fs_ok env f s" "sound_env env"
    and pl: "plain (P @ [n])" and V: "V = view (dag s) f"
  shows "(view (dag s') f' = V \<and> V (P @ [n]) \<noteq> None)
    \<or> (V (P @ [n]) = None \<and> (\<exists>b'. view (dag s') f' = with_node (P @ [n]) (leaf_view (ProtoNode TFile (new_file_data env) [] b')) V))"
proof -
  have id: "op_spec env (\<lambda>_. True) (\<lambda>f s. (Inr f, f, s)) (\<lambda>r D W D' W'. W' = W \<and> (\<exists>g. r = Inr g))"
    by (simp add: op_spec_def)
  let ?p = "abs_path (P @ [n])"
  obtain dir nm where sp: "path_Split ?p = (dir, nm)" by fastforce
  have dn: "lookup_parts dir = P" "nm = n" using lookup_Split_abs [OF pl] Split_abs [OF pl] sp by auto
  obtain x f1 s1 where l: "at_path env (P @ [n]) (\<lambda>f s. (Inr f, f, s)) f s = (x, f1, s1)"
    and k: "(case x of Inr (File _) \<Rightarrow> okF () | Inr (Directory _ _) \<Rightarrow> failF (MErr ''was not a file'')
       | Inl e \<Rightarrow> if e \<noteq> ErrNotExist \<or> \<not> create then failF e
           else bindF (lookupDir env dir) (\<lambda>_. bindF (at_path env P (create_file env n b)) (\<lambda>_. bindF (at_path env P (dir_Child env n)) (\<lambda>child.
                case child of File _ \<Rightarrow> okF () | Directory _ _ \<Rightarrow> failF (MErr ''expected *mfs.File, didn't get it''))))) f1 s1 = (Inr (), f', s')"
    by (rule tryF_run [OF run [unfolded getFileHandle_def lookup_parts_abs(1) [OF pl] sp Let_def prod.case dn]]) (rule that)
  note a = op_spec_fs [OF at_path_spec [OF id ok(2)] l ok(1) TrueI, folded V]
  show ?thesis
  proof (cases x)
    case (Inr g)
    then obtain nd where "g = File nd" using k by (cases g) (auto simp: failF_def)
    then have "f' = f1" "s' = s1" using k Inr by (auto simp: okF_def)
    then show ?thesis using a(3) Inr with_node_same [of "P @ [n]" V] by (auto simp: at_rel_def)
  next
    case (Inl e)
    have V1: "view (dag s1) f1 = V" using a(3) Inl by (auto simp: at_rel_def)
    obtain f2 s2 f3 s3 ch where 1: "lookupDir env dir f1 s1 = (Inr (), f2, s2)" and 2: "at_path env P (create_file env n b) f2 s2 = (Inr (), f3, s3)"
      and 3: "at_path env P (dir_Child env n) f3 s3 = (Inr ch, f', s')"
    proof -
      obtain f2 s2 f3 s3 ch f4 s4 where *: "lookupDir env dir f1 s1 = (Inr (), f2, s2)" "at_path env P (create_file env n b) f2 s2 = (Inr (), f3, s3)"
        "at_path env P (dir_Child env n) f3 s3 = (Inr ch, f4, s4)"
        "(case ch of File _ \<Rightarrow> okF () | Directory _ _ \<Rightarrow> failF (MErr ''expected *mfs.File, didn't get it'')) f4 s4 = (Inr (), f', s')"
        using k Inl by (auto simp: bindF_Inr failF_def split: if_splits)
      moreover have "f4 = f'" "s4 = s'" using *(4) by (cases ch; simp add: okF_def failF_def)+
      ultimately show ?thesis using that by blast
    qed
    note a1 = op_spec_fs [OF lookupDir_spec [OF ok(2), of "\<lambda>_. True"] 1 a(1) TrueI]
    note a2 = op_spec_fs [OF at_path_spec [OF create_spec [OF ok(2), of "\<lambda>_. True"] ok(2)] 2 a1(1) TrueI]
    note a3 = op_spec_fs [OF child_at_spec [OF ok(2), of "\<lambda>_. True"] 3 a2(1) TrueI]
    have V2: "view (dag s2) f2 = V" using a1(3) V1 by simp
    obtain b' where "V (P @ [n]) = None" "view (dag s3) f3 = with_node P (with_node [n] (leaf_view (ProtoNode TFile (new_file_data env) [] b')) (\<lambda>qs. V (P @ qs))) V"
      using a2(3) unfolding V2 at_rel_def leaf_view_def by auto
    then show ?thesis using a3(3) unfolding with_node_append by auto
  qed
qed


text \<open>What a successful write leaves: the file is replaced by the node the modifier made from it.\<close>

lemma filesWrite_run:
  assumes run: "filesWrite env create mkParents trunc flush cidVer hashFun offset cnt arg input f s = (Inr (), f', s')" and ok: "fs_ok env f s" "sound_env env"
    "good_modifier env" and arg: "parts_of arg = P @ [n]" "last arg \<noteq> CHR ''/''" and V: "V = view (dag s) f"
  obtains nd nd' nodes where "is_leaf nd" "fs_ok env f' s'" "write_body env trunc cnt offset input nd = (None, nd', nodes)" "is_leaf nd'"
    "view (dag s') f' = with_node (P @ [n]) (leaf_view (sort_links nd')) (if mkParents then with_dirs P V else V)"
    "V (P @ [n]) = Some (ELeaf (sort_links nd)) \<or> V (P @ [n]) = None \<and> (\<exists>b. sort_links nd = ProtoNode TFile (new_file_data env) [] b)"
proof -
  obtain p b where c: "checkPath arg = Inr p" "getPrefix env cidVer hashFun = Inr b" using run by (auto simp: filesWrite_def bindF_Inr liftF_def)
  note ca = checkPath_Inr [OF c(1)]
  have p: "p = abs_path (P @ [n])" and pl: "plain (P @ [n])" using ca arg by auto
  let ?T = "P @ [n]"
  obtain f1 s1 f2 s2 nd f3 s3 where
    1: "(if mkParents then ensureContainingDirectoryExists env p b else okF ()) f s = (Inr (), f1, s1)"
    and 2: "getFileHandle env p create b f1 s1 = (Inr (), f2, s2)"
    and 3: "at_path env ?T open_file f2 s2 = (Inr nd, f3, s3)"
    and 4: "(let (e, nd', nodes) = write_body env trunc cnt offset input nd; parts = ?T in
           tryF (if flush then bindF (update_path env parts (store_file env nd' nodes)) (root_update env)
                 else bindF (at_path env parts (store_file env nd' nodes)) (\<lambda>_. okF ())) (\<lambda>r.
             case e of Some e \<Rightarrow> failF (MErr e) | None \<Rightarrow> liftF r)) f3 s3 = (Inr (), f', s')"
    using run unfolding filesWrite_def c bindF_liftF p lookup_parts_abs(1) [OF pl] by (auto simp: bindF_Inr failF_def split: if_splits)
  obtain e nd' nodes where w: "write_body env trunc cnt offset input nd = (e, nd', nodes)" by (metis prod_cases3)
  have "e = None" using 4 unfolding w Let_def prod.case by (cases e) (auto simp: tryF_def failF_def split: prod.splits)
  then have 5: "(if flush then bindF (update_path env ?T (store_file env nd' nodes)) (root_update env)
                 else bindF (at_path env ?T (store_file env nd' nodes)) (\<lambda>_. okF ())) f3 s3 = (Inr (), f', s')"
    using 4 unfolding w Let_def prod.case by (auto simp: tryF_def liftF_def split: prod.splits)
  define U where "U = (if mkParents then with_dirs P V else V)"
  have a1: "fs_ok env f1 s1 \<and> view (dag s1) f1 = U"
  proof (cases mkParents)
    case True
    then have e: "ensureContainingDirectoryExists env (abs_path ?T) b f s = (Inr (), f1, s1)" using 1 p by simp
    have "plain P" using pl by (simp add: plain_def)
    from op_spec_fs [OF ensure_spec [OF ok(2) Dir_abs [OF pl] this, of "\<lambda>_. True"] e ok(1) TrueI] show ?thesis using True V by (simp add: U_def)
  qed (use 1 ok(1) V in \<open>auto simp: okF_def U_def\<close>)
  note a2 = getFileHandle_run [OF 2 [unfolded p] _ ok(2) pl, of U]
  have ok2: "fs_ok env f2 s2" using keeps_run [OF keeps_getFileHandle [OF ok(2)] 2] a1 by blast
  note a3 = op_spec_fs [OF at_path_spec [OF open_file_spec [of env "\<lambda>_. True"] ok(2)] 3 ok2 TrueI]
  have nd: "is_leaf nd" "fs_tree (dag s3) nd" "view (dag s2) f2 ?T = Some (ELeaf (sort_links nd))" "view (dag s3) f3 = view (dag s2) f2"
    using a3(3) with_node_same [of ?T "view (dag s2) f2"] by (auto simp: at_rel_def)
  have st: "stores env (dag s3) nd' nodes"
    using write_body_stores [OF ok(3) _ _ w] nd by blast
  have leaf: "is_leaf nd'" using st by (simp add: stores_def)
  have fin: "fs_ok env f' s' \<and> view (dag s') f' = with_node ?T (leaf_view (sort_links nd')) (view (dag s3) f3)"
  proof (cases flush)
    case True
    then obtain x f4 s4 where u: "update_path env ?T (store_file env nd' nodes) f3 s3 = (Inr x, f4, s4)" and r: "root_update env x f4 s4 = (Inr (), f', s')"
      using 5 by (auto simp: bindF_Inr)
    note a4 = op_spec_fs [OF update_path_spec [OF store_file_spec [OF ok(2)] _ ok(2)] u a3(1) st]
    note a5 = op_spec_fs [OF root_update_spec [OF ok(2), of "\<lambda>_. True"] r a4(1) TrueI]
    show ?thesis using up_rel_Inr [OF a4(3)] a5 by (auto simp: leaf_view_def)
  next
    case False
    then obtain x where u: "at_path env ?T (store_file env nd' nodes) f3 s3 = (Inr x, f', s')" using 5 by (auto simp: bindF_Inr okF_def)
    note a4 = op_spec_fs [OF at_path_spec [OF store_file_spec [OF ok(2)] ok(2)] u a3(1) st]
    show ?thesis using a4(1,3) by (auto simp: at_rel_def leaf_view_def)
  qed
  have UT: "U ?T = V ?T" by (auto simp: U_def with_dirs_def)
  have view: "view (dag s') f' = with_node ?T (leaf_view (sort_links nd')) U"
    and pre: "V ?T = Some (ELeaf (sort_links nd)) \<or> V ?T = None \<and> (\<exists>b. sort_links nd = ProtoNode TFile (new_file_data env) [] b)"
    using a1 a2 fin nd(3,4) UT by (auto simp: with_node_at leaf_view_def dest!: sym [of "ProtoNode _ _ _ _"])
  show ?thesis using that [OF nd(1) _ _ leaf _ pre, of nodes] fin w \<open>e = None\<close> view by (simp add: U_def)
qed

section \<open>Reading\<close>

text \<open>The bytes of a file node. The modifier and the reader are relied on for this: truncating empties, writing within the file or at its
  end overwrites, seeking there succeeds, and the order in which links are kept in memory does not matter.\<close>

definition content :: "'e files_env_scheme \<Rightarrow> ipld_node \<Rightarrow> string \<Rightarrow> bool" where
  "content env nd bs = (\<not> is_symlink nd \<and> file_Size env nd = Inr (length bs) \<and> read_bytes env nd = Inr bs)"

definition overwrite :: "nat \<Rightarrow> string \<Rightarrow> string \<Rightarrow> string" where
  "overwrite k d bs = take k bs @ d @ drop (k + length d) bs"

definition faithful_modifier :: "'e files_env_scheme \<Rightarrow> bool" where
  "faithful_modifier env =
     ((\<forall>nd nd' ns bs. content env nd bs \<longrightarrow> mod_Truncate env nd = (None, nd', ns) \<longrightarrow> content env nd' [])
      \<and> (\<forall>nd nd' ns bs k d. content env nd bs \<longrightarrow> k \<le> length bs \<longrightarrow> mod_Write env (int k) d nd = (None, nd', ns) \<longrightarrow> content env nd' (overwrite k d bs))
      \<and> (\<forall>nd bs. content env (sort_links nd) bs \<longleftrightarrow> content env nd bs)
      \<and> (\<forall>b. content env (ProtoNode TFile (new_file_data env) [] b) [])
      \<and> (\<forall>nd bs k. content env nd bs \<longrightarrow> k \<le> length bs \<longrightarrow> mod_Seek env (int k) nd = (None, nd, [])))"

lemma write_body_content:
  assumes "write_body env trunc cnt (int k) (Inr bytes) nd = (None, nd', ns)" "faithful_modifier env" "content env nd bs"
    "k \<le> length (if trunc then [] else bs)"
  shows "content env nd' (overwrite k (case cnt of None \<Rightarrow> bytes | Some c \<Rightarrow> take (nat c) bytes) (if trunc then [] else bs))"
proof -
  obtain e nd1 ns1 where t: "(if trunc then mod_Truncate env nd else (None, nd, [])) = (e, nd1, ns1)" by (metis prod_cases3)
  have e: "e = None" using assms(1) t by (cases e) (auto simp: write_body_def)
  have c1: "content env nd1 (if trunc then [] else bs)"
    using assms(2,3) t e unfolding faithful_modifier_def by (auto split: if_splits)
  then have "mod_Seek env (int k) nd1 = (None, nd1, [])" using assms(2,4) unfolding faithful_modifier_def by blast
  then obtain ns2 where "mod_Write env (int k) (case cnt of None \<Rightarrow> bytes | Some c \<Rightarrow> take (nat c) bytes) nd1 = (None, nd', ns2)"
    using assms(1) t e by (auto simp: write_body_def split: if_splits option.splits prod.splits)
  then show ?thesis using assms(2,4) c1 unfolding faithful_modifier_def by blast
qed

lemma symlink_sort [simp]: "is_symlink (sort_links nd) = is_symlink nd"
  by (cases nd) auto

lemma open_file_at:
  assumes "fs_ok env f s" "sound_env env" "view (dag s) f P = Some (ELeaf x)" "\<not> is_symlink x"
  obtains nd f' s' where "at_path env P open_file f s = (Inr nd, f', s')" "sort_links nd = x" "view (dag s') f' = view (dag s) f"
    "fs_ok env f' s'" "stores env (dag s') nd []"
proof -
  obtain r f' s' where o: "at_path env P open_file f s = (r, f', s')" by (metis prod_cases3)
  have "op_spec env (\<lambda>_. True) open_file (\<lambda>r D V D' V'. V' = V \<and> (\<forall>x. V [] = Some (ELeaf x) \<and> \<not> is_symlink x \<longrightarrow> (\<exists>nd. r = Inr nd \<and> sort_links nd = x)))"
  proof (rule op_specI)
    fix f s r f' s'
    assume "open_file f s = (r, f', s')" "wf_fs env (dag s) f" "addressed env (dag s)"
    then show "wf_fs env (dag s') f' \<and> addressed env (dag s') \<and> dag s \<subseteq>\<^sub>m dag s' \<and> view (dag s') f' = view (dag s) f
      \<and> (\<forall>x. view (dag s) f [] = Some (ELeaf x) \<and> \<not> is_symlink x \<longrightarrow> (\<exists>nd. r = Inr nd \<and> sort_links nd = x))"
      by (cases f) (auto simp: open_file_def entry_of_def split: if_splits)
  qed
  from op_spec_fs [OF at_path_spec [OF this assms(2)] o assms(1) TrueI]
  obtain nd where nd: "r = Inr nd" "sort_links nd = x" "view (dag s') f' = view (dag s) f" "fs_ok env f' s'"
    using assms(3,4) with_node_same [of P "view (dag s) f"] by (auto simp: at_rel_def)
  have "is_leaf nd \<and> fs_tree (dag s') nd"
    using op_spec_fs(3) [OF at_path_spec [OF open_file_spec [of env "\<lambda>_. True"] assms(2)] o assms(1) TrueI] nd(1) by (auto simp: at_rel_def)
  then have "stores env (dag s') nd []" using fs_tree_le by (auto simp: stores_def)
  then show ?thesis using that o nd by blast
qed

lemma filesRead_run:
  assumes "fs_ok env f s" "sound_env env" "faithful_modifier env" "checkPath arg = Inr p" "view (dag s) f (parts_of arg) = Some (ELeaf x)" "content env x bs" "i \<le> length bs"
  obtains f' s' where "filesRead env (int i) (Some (int j)) arg f s = (Inr (take j (drop i bs)), f', s')" "view (dag s') f' = view (dag s) f"
proof -
  note ca = checkPath_Inr [OF assms(4)]
  have lp: "lookup_parts p = parts_of arg" using ca lookup_parts_abs [OF ca(1)] by auto
  obtain nd f1 s1 where o: "at_path env (parts_of arg) open_file f s = (Inr nd, f1, s1)" "sort_links nd = x" "view (dag s1) f1 = view (dag s) f"
    "fs_ok env f1 s1" "stores env (dag s1) nd []"
    using open_file_at [OF assms(1,2,5)] assms(6) unfolding content_def by metis
  obtain r f' s' where st: "at_path env (parts_of arg) (store_file env nd []) f1 s1 = (r, f', s')" by (metis prod_cases3)
  have c: "content env nd bs" using assms(3,6) o(2) unfolding faithful_modifier_def by blast
  then have "mod_Seek env (int i) nd = (None, nd, [])" using assms(3,7) unfolding faithful_modifier_def by blast
  then have "read_body env (int i) (Some (int j)) nd = Inr (take j (drop i bs))" using c assms(7) by (simp add: read_body_def content_def)
  then have run: "filesRead env (int i) (Some (int j)) arg f s = (Inr (take j (drop i bs)), f', s')"
    using assms(4) lp o(1) st by (simp add: filesRead_def bindF_def liftF_def tryF_def)
  have leaf: "view (dag s) f (parts_of arg @ qs) = leaf_view x qs" for qs
    using view_leaf_below [of env "dag s" f "parts_of arg" x qs] assms(1,5) by (cases "qs = []") (auto simp: fs_ok_def leaf_view_def)
  have "view (dag s') f' = view (dag s) f"
    using op_spec_fs(3) [OF at_path_spec [OF store_file_spec [OF assms(2)] assms(2)] st o(4,5), unfolded o(3)] o(2) leaf
      with_node_same [of "parts_of arg" "view (dag s) f"]
    by (cases r) (auto simp: at_rel_def leaf_view_def)
  then show ?thesis using that run by blast
qed

text \<open>C9. What \<^verbatim>\<open>ipfs files write\<close> has written, \<^verbatim>\<open>ipfs files read\<close> returns: for an offset within the file or at its end, the file has its
  former bytes, none when it was created or truncated, overwritten from the offset on by the given bytes, at most \<^verbatim>\<open>--count\<close> of them, and
  nothing else has changed but the parents that were made. The property is about the commands around the \<^verbatim>\<open>DagModifier\<close> of go-unixfs, which is relied on
  for this: truncating a file empties it, seeking within it changes nothing, writing there replaces bytes, and each makes complete files of
  complete ones. No read of the DAG service fails and distinct nodes have distinct CIDs: a directory that cannot be read would be taken for a
  missing one and replaced by \<^verbatim>\<open>--parents\<close>. The file system is well-formed, as the commands keep it, the file, if there is one, has bytes
  that can be read, the input is read without an error, and the path does not end in a slash. A write past the end, where the modifier pads the file, is
  left out.\<close>

theorem filesWrite_read:
  assumes run: "filesWrite env create mkParents trunc flush cidVer hashFun (int k) cnt arg (Inr bytes) f s = (Inr (), f', s')"
    and ok: "fs_ok env f s" "sound_env env" "good_modifier env" "faithful_modifier env" and arg: "parts_of arg = P @ [n]" "last arg \<noteq> CHR ''/''"
    and V: "V = view (dag s) f" and old: "V (P @ [n]) = None \<and> bs = [] \<or> (\<exists>nd. V (P @ [n]) = Some (ELeaf nd) \<and> content env nd bs)"
    and base: "base = (if trunc then [] else bs)" "k \<le> length base"
    and new: "new = overwrite k (case cnt of None \<Rightarrow> bytes | Some c \<Rightarrow> take (nat c) bytes) base" and i: "i \<le> length new"
  shows "(\<exists>f'' s''. filesRead env (int i) (Some (int j)) arg f' s' = (Inr (take j (drop i new)), f'', s'') \<and> view (dag s'') f'' = view (dag s') f')
    \<and> (\<forall>ps. \<not> prefix (P @ [n]) ps \<longrightarrow> view (dag s') f' ps = (if mkParents then with_dirs P V ps else V ps))"
proof -
  obtain nd nd' nodes where w: "is_leaf nd" "fs_ok env f' s'" "write_body env trunc cnt (int k) (Inr bytes) nd = (None, nd', nodes)" "is_leaf nd'"
    "view (dag s') f' = with_node (P @ [n]) (leaf_view (sort_links nd')) (if mkParents then with_dirs P V else V)"
    "V (P @ [n]) = Some (ELeaf (sort_links nd)) \<or> V (P @ [n]) = None \<and> (\<exists>b. sort_links nd = ProtoNode TFile (new_file_data env) [] b)"
    by (rule filesWrite_run [OF run ok(1-3) arg V])
  have sl: "\<And>nd bs. content env (sort_links nd) bs = content env nd bs" and nw: "\<And>b. content env (ProtoNode TFile (new_file_data env) [] b) []"
    using ok(4) unfolding faithful_modifier_def by blast+
  have "content env (sort_links nd) bs" using w(6) old nw by auto
  then have "content env nd' new" using write_body_content [OF w(3) ok(4), of bs] sl base new by simp
  then have c: "content env (sort_links nd') new" using sl by simp
  obtain p where p: "checkPath arg = Inr p" using run by (auto simp: filesWrite_def bindF_Inr liftF_def)
  have v: "view (dag s') f' (parts_of arg) = Some (ELeaf (sort_links nd'))" using w(5) arg(1) by (simp add: with_node_at leaf_view_def)
  have "\<exists>f'' s''. filesRead env (int i) (Some (int j)) arg f' s' = (Inr (take j (drop i new)), f'', s'') \<and> view (dag s'') f'' = view (dag s') f'"
    using filesRead_run [OF w(2) ok(2,4) p v c i, of j] by metis
  moreover have "view (dag s') f' ps = (if mkParents then with_dirs P V ps else V ps)" if "\<not> prefix (P @ [n]) ps" for ps
    using w(5) that by (simp add: with_node_def)
  ultimately show ?thesis by blast
qed

section \<open>What is local\<close>

text \<open>Everything below a CID can be had.\<close>

definition complete :: "(cid \<Rightarrow> ipld_err + ipld_node) \<Rightarrow> cid \<Rightarrow> bool" where
  "complete get c = (\<forall>x. reaches (\<lambda>c. case get c of Inr m \<Rightarrow> map snd (Links m) | Inl _ \<Rightarrow> []) c x \<longrightarrow> (\<exists>m. get x = Inr m))"

lemma reaches_cases: "reaches links c x \<Longrightarrow> x = c \<or> (\<exists>d \<in> set (links c). reaches links d x)"
  by (induction rule: reaches.induct) (auto intro: reaches.intros)

lemma complete_step:
  assumes "get c = Inr m"
  shows "complete get c \<longleftrightarrow> (\<forall>d \<in> set (map snd (Links m)). complete get d)"
proof
  assume "complete get c"
  then show "\<forall>d \<in> set (map snd (Links m)). complete get d"
    unfolding complete_def using reaches_trans reaches_link assms by (metis (no_types, lifting) sum.case(2))
next
  assume *: "\<forall>d \<in> set (map snd (Links m)). complete get d"
  show "complete get c" unfolding complete_def
  proof (intro allI impI)
    fix x
    assume "reaches (\<lambda>c. case get c of Inr m \<Rightarrow> map snd (Links m) | Inl _ \<Rightarrow> []) c x"
    from reaches_cases [OF this] show "\<exists>m. get x = Inr m" using * assms unfolding complete_def by auto
  qed
qed

lemma complete_missing: "get c = Inl e \<Longrightarrow> \<not> complete get c"
  unfolding complete_def using reaches_refl by fastforce

lemma walkBlock_complete:
  "walkBlock get sz n nd = Some (None, l, z) \<Longrightarrow> l = (\<forall>c \<in> set (map snd (Links nd)). complete get c)"
  "walkLinks get sz n cs l0 z0 = Some (None, l, z) \<Longrightarrow> l = (l0 \<and> (\<forall>c \<in> set cs. complete get c))"
proof (induction get sz n nd and get sz n cs l0 z0 arbitrary: l z and l z rule: walkBlock_walkLinks.induct)
  case (4 get sz n c cs local sizeLocal)
  show ?case
  proof (cases "get c")
    case (Inl e)
    then show ?thesis using 4 complete_missing [of get c e] by (cases e) auto
  next
    case (Inr child)
    then obtain cl z1 where w: "walkBlock get sz n child = Some (None, cl, z1)" "walkLinks get sz n cs (local \<and> cl) (sizeLocal + z1) = Some (None, l, z)"
      using "4.prems" by (auto split: option.splits)
    have "cl = complete get c" using "4.IH"(2) [OF Inr w(1)] complete_step [of get c child] Inr by simp
    then show ?thesis using "4.IH"(3) [OF Inr w(1) refl refl refl w(2)] by auto
  qed
qed auto

lemma walkBlock_returns:
  assumes "\<And>c m d. get c = Inr m \<Longrightarrow> d \<in> set (map snd (Links m)) \<Longrightarrow> rank d < (rank c :: nat)" "\<And>c e. get c = Inl e \<Longrightarrow> e = IpldErrNotFound"
  shows "(\<And>c. c \<in> set cs \<Longrightarrow> rank c < n) \<Longrightarrow> \<exists>l z. walkLinks get sz n cs l0 z0 = Some (None, l, z)"
proof (induction n arbitrary: cs l0 z0)
  case 0
  then show ?case by (cases cs) auto
next
  case (Suc n)
  have child: "\<exists>l z. walkBlock get sz (Suc n) m = Some (None, l, z)" if "get c = Inr m" "rank c < Suc n" for c m
  proof -
    have "rank d < n" if "d \<in> set (map snd (Links m))" for d using assms(1) [OF \<open>get c = Inr m\<close> that] \<open>rank c < Suc n\<close> by simp
    then show ?thesis using Suc.IH [of "map snd (Links m)" True "sz m"] by simp
  qed
  show ?case using Suc.prems
  proof (induction cs arbitrary: l0 z0)
    case (Cons c cs)
    have ih: "\<exists>l z. walkLinks get sz (Suc n) cs l0 z0 = Some (None, l, z)" for l0 z0 using Cons by simp
    show ?case
    proof (cases "get c")
      case (Inl e)
      then show ?thesis using assms(2) [of c e] ih by simp
    next
      case (Inr m)
      then obtain l z where "walkBlock get sz (Suc n) m = Some (None, l, z)" using child [of c m] Cons.prems by auto
      then show ?thesis using Inr ih [of "l0 \<and> l" "z0 + z"] by simp
    qed
  qed auto
qed

text \<open>\<^verbatim>\<open>ipfs files stat --with-local\<close> says that a node is local exactly when every node below it, at any depth, is in the local store; the walk
  ends on every DAG, and a missing block is no error.\<close>

lemma walkBlock_local:
  assumes "\<And>c m d. get c = Inr m \<Longrightarrow> d \<in> set (map snd (Links m)) \<Longrightarrow> rank d < (rank c :: nat)" "\<And>c e. get c = Inl e \<Longrightarrow> e = IpldErrNotFound"
    "\<And>c. c \<in> set (map snd (Links nd)) \<Longrightarrow> rank c < n"
  shows "\<exists>l z. walkBlock get sz (Suc n) nd = Some (None, l, z) \<and> (l \<longleftrightarrow> (\<forall>c \<in> set (map snd (Links nd)). complete get c))"
proof -
  have "\<exists>l z. walkLinks get sz n (map snd (Links nd)) True (sz nd) = Some (None, l, z)"
    by (rule walkBlock_returns [of get rank]) (use assms in auto)
  then obtain l z where w: "walkLinks get sz n (map snd (Links nd)) True (sz nd) = Some (None, l, z)" by blast
  then show ?thesis using walkBlock_complete(2) [OF w] by simp
qed

section \<open>Examples\<close>

lemma demo_faithful: "faithful_modifier demo_files_env"
proof -
  have c: "content demo_files_env nd bs \<longleftrightarrow> \<not> is_symlink nd \<and> bs = (case nd of ProtoNode t d ls b \<Rightarrow> d | RawNode d \<Rightarrow> d)" for nd bs
    by (cases nd) (auto simp: content_def file_Size_def demo_files_env_def)
  show ?thesis unfolding faithful_modifier_def c
    by (auto simp: demo_files_env_def overwrite_def split: ipld_node.splits)
qed

theorem filesWrite_read_witness:
  "\<exists>f' s' f'' s''. filesWrite demo_files_env False False False True None None (int 3) (Some 3) ''/d/f'' (Inr ''p me'') (fst demo_fs) (snd demo_fs) = (Inr (), f', s')
     \<and> filesRead demo_files_env (int 1) (Some (int 9)) ''/d/f'' f' s' = (Inr ''elp m'', f'', s'')"
proof -
  have "fst (filesWrite demo_files_env False False False True None None (int 3) (Some 3) ''/d/f'' (Inr ''p me'') (fst demo_fs) (snd demo_fs)) = Inr ()" by code_simp
  from run_ex [OF this] obtain f' s' where
    run: "filesWrite demo_files_env False False False True None None (int 3) (Some 3) ''/d/f'' (Inr ''p me'') (fst demo_fs) (snd demo_fs) = (Inr (), f', s')" by blast
  have parts: "parts_of ''/d/f'' = [''d''] @ [''f'']" by code_simp
  have old: "demo_view ([''d''] @ [''f'']) = None \<and> ''hello'' = [] \<or> (\<exists>nd. demo_view ([''d''] @ [''f'']) = Some (ELeaf nd) \<and> content demo_files_env nd ''hello'')"
    using demo_view_at(2) by (simp add: content_def file_Size_def demo_files_env_def)
  have "\<exists>f'' s''. filesRead demo_files_env (int 1) (Some (int 9)) ''/d/f'' f' s' = (Inr (take 9 (drop 1 ''help m'')), f'', s'')"
    using filesWrite_read [OF run demo_fs_ok demo_files_sound demo_files_good demo_faithful parts _ demo_view_def old refl, of "''help m''" 1 9]
    by (auto simp: overwrite_def)
  then show ?thesis using run by simp
qed

lemma walkBlock_local_witness:
  "\<exists>z. walkBlock (\<lambda>c. if c = CidV0 ''a'' then Inr (ProtoNode TFile [] [('''', CidV0 ''b'')] demo_prefix) else Inl IpldErrNotFound) (\<lambda>nd. 7) 3
     (ProtoNode TFile [] [('''', CidV0 ''a'')] demo_prefix) = Some (None, False, z)"
proof -
  let ?get = "\<lambda>c. if c = CidV0 ''a'' then Inr (ProtoNode TFile [] [('''', CidV0 ''b'')] demo_prefix) else Inl IpldErrNotFound"
  let ?nd = "ProtoNode TFile [] [('''', CidV0 ''a'')] demo_prefix"
  have "\<not> complete ?get (CidV0 ''b'')" by (rule complete_missing [of _ _ IpldErrNotFound]) simp
  then have "\<not> complete ?get (CidV0 ''a'')" using complete_step [of ?get "CidV0 ''a''" "ProtoNode TFile [] [('''', CidV0 ''b'')] demo_prefix"] by simp
  then show ?thesis
    using walkBlock_local [of ?get "\<lambda>c. if c = CidV0 ''a'' then 1 else 0" ?nd 2 "\<lambda>nd. 7"] by (simp add: eval_nat_numeral split: if_splits)
qed

end
