(* ===== verification/Spec2Isabelle.thy ===== *)
theory Spec2Isabelle
  imports Block_Remove Corerepo_Gc Blockstores Hostname Peering Plugin_Loader P2P Request_Log
    Migrations FS_Repo Config_Cmd Only_One Pin_Verify Refs Bootstrap Gateway_Paths Gateway_Option Pin_MFS Adder_Props Metadata Files_Data
begin

text \<open>
  Verification of the core of \<^verbatim>\<open>go-ipfs\<close>: what keeps the blocks of a node, what opens its repository,
  and the services around them. File names are relative to \<^verbatim>\<open>src/\<close>.

  \<^bold>\<open>The program.\<close> A node has a repository on disk (\<^verbatim>\<open>repo/\<close>): a configuration file, a version, a lock, a
  keystore and a tree of datastores. Programs that are older or newer than the repository migrate it
  first. Blocks live in a blockstore, a stack of layers over the datastore; pins say which must stay,
  garbage collection deletes the others, and the node decides when to collect. Plugins add datastores
  and services. Towards the outside there are the HTTP gateway, forwarding of streams, and the
  peering service that keeps connections alive.

  \<^bold>\<open>Theories.\<close> Each component has one, with its state, its operations in the order of the code, its
  invariant and its lemmas.

  \<^item> \<open>Prelude\<close>: Go's string and path functions with their laws (splitting and joining, \<^verbatim>\<open>path.Clean\<close>,
    decimal numbers), errors as sums with \<open>bind_res\<close>, reachable states and the locale
    \<open>invariant_system\<close>, which every component with a step relation interprets. \<open>Sorting\<close>: what Go's
    unstable sorts promise.
  \<^item> \<open>Cid\<close>, \<open>Dag_Walk\<close>, \<open>Gc\<close>: \<^verbatim>\<open>gc/gc.go\<close> with the concurrent walk of \<^verbatim>\<open>go-merkledag\<close>. The contract of
    a walk is the locale \<open>dag_walk\<close>; \<open>gc_walk\<close> extends it, and both are interpreted on the modelled
    walk. \<open>GC\<close> is the whole goroutine: mark, sweep, datastore collection.
  \<^item> \<open>Block_Remove\<close>: \<^verbatim>\<open>blocks/blockstoreutil/remove.go\<close>. \<open>Corerepo_Gc\<close>: \<^verbatim>\<open>core/corerepo/gc.go\<close>, on top of
    \<open>Gc\<close>.
  \<^item> \<open>Blockstores\<close>: \<^verbatim>\<open>thirdparty/verifbs\<close>, \<^verbatim>\<open>thirdparty/cidv0v1\<close>, the stack of \<^verbatim>\<open>core/node/storage.go\<close> and
    the stores of \<^verbatim>\<open>go-ipfs-blockstore\<close>. Every layer satisfies the locale \<open>block_store\<close> if the one below
    does.
  \<^item> \<open>Os\<close>: the file system, locks and programs the repository code works on, as a record \<open>world\<close> and
    calls that return a value or an error.
  \<^item> \<open>Semver\<close>, \<open>Dist\<close>, \<open>Migrations\<close>: \<^verbatim>\<open>repo/fsrepo/migrations/*.go\<close>. The contract of a fetcher is the
    locale \<open>fetcher_contract\<close>, interpreted on the HTTP fetcher and on lists of fetchers.
  \<^item> \<open>Config_Map\<close>: \<^verbatim>\<open>repo/common/common.go\<close>; locale \<open>keyed_store\<close>. \<open>Datastores\<close>:
    \<^verbatim>\<open>repo/fsrepo/datastores.go\<close> and the datastore plugins. \<open>FS_Repo\<close>: \<^verbatim>\<open>repo/fsrepo/fsrepo.go\<close>, \<^verbatim>\<open>misc.go\<close>,
    \<^verbatim>\<open>thirdparty/dir\<close> and the configuration file library. \<open>Only_One\<close>: \<^verbatim>\<open>repo/onlyone.go\<close>.
  \<^item> \<open>Hostname\<close>: \<^verbatim>\<open>core/corehttp/hostname.go\<close>. \<open>Peering\<close>: \<^verbatim>\<open>peering/peering.go\<close>. \<open>Plugin_Loader\<close>:
    \<^verbatim>\<open>plugin/loader/loader.go\<close>. \<open>P2P\<close>: \<^verbatim>\<open>p2p/*.go\<close>. \<open>Request_Log\<close>: \<^verbatim>\<open>commands/reqlog.go\<close>. \<open>Bootstrap\<close>:
    \<^verbatim>\<open>core/bootstrap/bootstrap.go\<close>. \<open>Lazy_Seek\<close>: \<^verbatim>\<open>core/corehttp/lazyseek.go\<close>.
  \<^item> \<open>Gateway\<close>, \<open>Gateway_Paths\<close>, \<open>Gateway_Option\<close>: \<^verbatim>\<open>core/corehttp/gateway_handler.go\<close>, \<^verbatim>\<open>gateway_indexPage.go\<close>, \<^verbatim>\<open>gateway.go\<close>
    and \<^verbatim>\<open>redirect.go\<close>: a response writer as a record, the handlers as functions on it, and the composition with
    \<open>Hostname\<close>, whose handler calls this one.
  \<^item> \<open>Config_Cmd\<close>: \<^verbatim>\<open>core/commands/config.go\<close> on top of \<open>FS_Repo\<close>.
  \<^item> \<open>Pin_Verify\<close>: \<open>pinVerify\<close> of \<^verbatim>\<open>core/commands/pin/pin.go\<close>. \<open>Refs\<close>: \<^verbatim>\<open>core/commands/refs.go\<close>. Both are traversals of
    a graph with a memory.
  \<^item> \<open>Mfs\<close>: the part of \<^verbatim>\<open>go-mfs\<close> the node builds on, directories with a cache of open entries over a store of nodes. The function
    \<open>view\<close> says what a file system shows, and \<open>wf_fs\<close> is its invariant. \<open>Adder\<close>, \<open>Adder_Progress\<close>, \<open>Adder_Props\<close>:
    \<^verbatim>\<open>core/coreunix/add.go\<close> on top of it, its partial correctness, its progress and its lock, and what a call
    promises; the collector of \<open>Gc\<close> runs when the adder gives up its lock. \<open>Metadata\<close>: \<^verbatim>\<open>core/coreunix/metadata.go\<close>.
  \<^item> \<open>Files\<close>: \<^verbatim>\<open>core/commands/files.go\<close> and the rest of \<^verbatim>\<open>go-mfs\<close> it uses, as operations on a root object and a state that can
    fail. \<open>Files_Props\<close>: contracts (\<open>op_spec\<close>) that say what an operation does to the \<open>view\<close>, with rules for sequences and for
    operations at a path. \<open>Files_Moves\<close>, \<open>Files_Cmds\<close>, \<open>Files_Data\<close>: the commands on the tree of names, the step relation
    \<open>files_step\<close> over all of them with its invariant, and the contents of files.
  \<^item> \<open>Pin_MFS\<close>: \<^verbatim>\<open>cmd/ipfs/pinmfs.go\<close>, the loop that pins the mutable root remotely.

  \<^bold>\<open>How code became definitions.\<close> Go structs are records, tagged alternatives datatypes, maps partial
  functions or association lists. A method takes its receiver and returns the changed one. Errors and
  panics are values. An operation under a mutex is one step, and what a call does before it takes the mutex is a step of
  its own (\<open>Stop\<close> and \<open>Stop_locked\<close> of \<open>Peering\<close>); goroutines that interleave (\<open>Peering\<close>,
  \<open>Dag_Walk\<close>) are separate steps or follow a schedule that is universally quantified. Cancellation is an
  oracle that is asked at each point where the code looks at its context. Integers have their width
  where they can wrap (\<open>limits\<close>, stream numbers, reference counts, version numbers, file sizes).

  \<^bold>\<open>Parameters.\<close> What is not in the sources is an argument: pinner, node getter, datastore failures,
  network and DNS, CID and JSON codecs, databases, random numbers, the sort routine, the machine's
  file faults and programs. Where a theorem relies on them, its hypotheses say on what. For JSON they allow what
  encoding/json does: keys of a struct match under case folding (\<open>one_spelling\<close>), empty fields may be omitted. A cache
  of the blockstore is any layer that keeps the contract, or changes the store only through the layer below.

  \<^bold>\<open>What is shown.\<close>
  \<^item> Blocks: garbage collection never deletes what is reachable from a pin, or anything at all when
    marking was incomplete; it deletes everything else, reports truly and returns. Removal by name
    spares pinned blocks and cannot block. What the blockstore returns has the hash that was asked for,
    under both CID versions, and nothing with an insecure hash is stored.
  \<^item> Adding, with pinning: the root that is returned holds exactly the tree that was added and is stored with all below it, whatever the
    collector deletes at the pauses; adding succeeds when nothing fails. On every path as many read locks are given back as were
    taken (\<open>pin_locks\<close> counts them).
  \<^item> Mutable file system: every command keeps it well-formed, failing or not; moving, copying and removing change the tree of names
    exactly as asked, outside of two cases that are shown to lose or duplicate entries; what was written is read; listing is exact; what
    was flushed can be read from the root that is republished; a DAG is reported local exactly when it is. These assume that
    the DAG service can read every node (\<open>sound_env\<close>): an entry that cannot be read is taken for a missing one by the code.
  \<^item> Repository: what was initialised can be opened, unless its configuration has an old style datastore; locks and databases are
    given back; a configuration change keeps the private key, unless it spells the key in another way; disk specifications do not
    depend on the order of distinct mounts or on wrappers and options;
    shared repositories refine a counter per key; migrations reach their target version, run in order
    and run only what was fetched and unpacked completely.
  \<^item> Services: the gateway serves only what its host allows and agrees with itself on DNS labels;
    peering keeps its invariant, bounds its back-off and comes to rest after \<open>Stop\<close>, unless a \<open>Start\<close> comes between its two parts;
    plugins start last
    and are all closed; tags of peers and listeners match the streams; the request log keeps its order
    and its active entries; a bootstrap round dials the right peers, and one is complete when \<open>Bootstrap\<close>
    returns; the lazy seeker reads what an eager one would, up to the first failure; the mutable root is pinned remotely at most once per interval and service.
  \<^item> Gateway: only responses for files below an immutable path are ever declared immutable, with their CID as validator;
    the location of the redirect of the \<^verbatim>\<open>uri\<close> parameter begins with one slash, and lies in the namespace it names unless double dots
    lead out; a missing file is answered with the nearest page for missing files; what belongs on a subdomain is
    answered at the origin of the gateway with no success status, but for ranges of files.
  \<^item> Commands: pin verification finds exactly the broken nodes below each pin; the unique listing of
    references prints each CID within the depth limit exactly once; reading and showing the configuration tell
    nothing about the private key and the keys of remote services and hide nothing else, and replacing the
    configuration keeps them.

  \<^bold>\<open>Fuel and bounds.\<close> The walk takes fuel, and \<open>GC_returns\<close> shows that an amount linear in the nodes and
  links a root reaches is enough under every schedule; \<open>find_loop\<close> takes the number of versions to cross, which its caller computes;
  \<open>checkPin\<close> and \<open>writeRefsRecursive\<close> need more than the height of the graph, and \<open>real_seek\<close> one round,
  as their theorems show; \<open>outputDirs\<close> needs the depth of the tree that is added (\<open>AddAllAndPin_succeeds\<close>),
  \<open>walkBlock\<close> more than the height of the DAG (\<open>walkBlock_local\<close>). All other recursions end by themselves.

  \<^bold>\<open>Not modelled.\<close> Most commands and the core API, which translate between the command line and the libraries; the tar format, sharded
  directories, the modifier of file contents and the loop of the republisher of the mutable file system; dependency injection, daemon start-up, FUSE and HTTP wiring, which only call
  libraries; logging, metrics and the text of help and most error messages; the GC lock outside of the adder, symbolic links
  and partial writes. In a collection, all walks follow one schedule, workers that are still busy when a walk fails are
  dropped, and the links of nodes are read without the copies that the blockstore makes under the other CID version. The
  caches of the blockstore have no state of their own, and the failures of the datastore depend on the operation and the key only.
\<close>

end
